(* ===== verification/TopoPrelude.thy ===== *)
theory TopoPrelude
  imports Main "HOL-Library.Word" "HOL-Library.AList"
begin

text \<open>
  Shared vocabulary of the development: the machine types of the C++ sources, the part of
  \<open>std::string\<close> the sources use (\<open>find\<close>, \<open>rfind\<close>, \<open>substr\<close>, \<open>compare\<close> on a prefix or suffix),
  decimal printing as \<open>printf\<close> and \<open>std::to_string\<close> do it, and hash maps as association lists.
  The collections \<open>topo_defs\<close>, \<open>str_simps\<close> and \<open>amap_simps\<close> carry the component proofs.
\<close>

named_theorems str_simps "facts on the string operations"
named_theorems amap_simps "lookup, update and removal on association lists"

type_synonym u8 = "8 word"
type_synonym u32 = "32 word"
type_synonym u64 = "64 word"

lemma unat_u64_less: "unat (w :: u64) < 2 ^ 64"
  using unsigned_less [of w] by simp

lemma unat_u32_less: "unat (w :: u32) < 2 ^ 32"
  using unsigned_less [of w] by simp

lemma unat_add_u64: "unat (v :: u64) + unat w < 2 ^ 64 \<Longrightarrow> unat (v + w) = unat v + unat w"
  by (simp add: unat_add_lem [THEN iffD1])

section \<open>Strings\<close>

text \<open>\<open>s.compare(0, p.size(), p) == 0\<close> with \<open>s.size() >= p.size()\<close>, \<open>StringRef::starts_with\<close>.\<close>

definition starts_with :: "string \<Rightarrow> string \<Rightarrow> bool" where
  "starts_with p s \<longleftrightarrow> take (length p) s = p"

definition ends_with :: "string \<Rightarrow> string \<Rightarrow> bool" where
  "ends_with p s \<longleftrightarrow> length p \<le> length s \<and> drop (length s - length p) s = p"

text \<open>\<open>s.find(pat)\<close> and \<open>s.rfind(pat)\<close>; \<open>None\<close> is \<open>npos\<close>.\<close>

fun str_find :: "string \<Rightarrow> string \<Rightarrow> nat option" where
  "str_find pat [] = (if pat = [] then Some 0 else None)"
| "str_find pat (c # cs) =
     (if starts_with pat (c # cs) then Some 0 else map_option Suc (str_find pat cs))"

fun str_rfind :: "string \<Rightarrow> string \<Rightarrow> nat option" where
  "str_rfind pat [] = (if pat = [] then Some 0 else None)"
| "str_rfind pat (c # cs) =
     (case str_rfind pat cs of
        Some i \<Rightarrow> Some (Suc i)
      | None \<Rightarrow> if starts_with pat (c # cs) then Some 0 else None)"

text \<open>\<open>s.find(pat) != npos\<close>.\<close>

definition contains :: "string \<Rightarrow> string \<Rightarrow> bool" where
  "contains pat s \<longleftrightarrow> str_find pat s \<noteq> None"

text \<open>The two forms of \<open>substr\<close>: from a position, and a given number of characters.\<close>

abbreviation (input) substr_from :: "string \<Rightarrow> nat \<Rightarrow> string" where
  "substr_from s i \<equiv> drop i s"

abbreviation (input) substr :: "string \<Rightarrow> nat \<Rightarrow> nat \<Rightarrow> string" where
  "substr s i n \<equiv> take n (drop i s)"

text \<open>The namespace separator.\<close>

abbreviation (input) sep :: string where "sep \<equiv> ''::''"

lemma starts_with_append [str_simps, simp]: "starts_with p (p @ s)"
  by (simp add: starts_with_def)

lemma starts_with_Nil [simp]: "starts_with [] s"
  by (simp add: starts_with_def)

lemma starts_with_iff: "starts_with p s \<longleftrightarrow> (\<exists>r. s = p @ r)"
  unfolding starts_with_def by (metis append_eq_conv_conj append_take_drop_id)

lemma ends_with_append [str_simps, simp]: "ends_with p (s @ p)"
  by (simp add: ends_with_def)

lemma starts_with_length: "starts_with p s \<Longrightarrow> length p \<le> length s"
  by (auto simp: starts_with_iff)

lemma ends_with_iff: "ends_with p s \<longleftrightarrow> (\<exists>r. s = r @ p)"
  unfolding ends_with_def
  by (metis append_eq_conv_conj append_take_drop_id diff_diff_cancel length_append
      length_drop add_diff_cancel_right' le_add2)

lemma str_find_Some:
  "str_find pat s = Some i \<Longrightarrow>
     i + length pat \<le> length s \<and> starts_with pat (drop i s) \<and> (\<forall>j<i. \<not> starts_with pat (drop j s))"
proof (induction s arbitrary: i)
  case Nil
  then show ?case by (auto simp: starts_with_def split: if_splits)
next
  case (Cons c cs)
  show ?case
  proof (cases "starts_with pat (c # cs)")
    case True
    with Cons.prems have "i = 0" by simp
    with True starts_with_length [OF True] show ?thesis by simp
  next
    case False
    with Cons.prems obtain k where k: "str_find pat cs = Some k" "i = Suc k" by auto
    from Cons.IH [OF k(1)] False k(2) show ?thesis
      by (auto simp: less_Suc_eq_0_disj)
  qed
qed

lemma str_find_None: "str_find pat s = None \<longleftrightarrow> (\<forall>i\<le>length s. \<not> starts_with pat (drop i s))"
proof (induction s)
  case Nil
  then show ?case by (auto simp: starts_with_def)
next
  case (Cons c cs)
  have "(\<forall>i\<le>length (c # cs). \<not> starts_with pat (drop i (c # cs))) \<longleftrightarrow>
        \<not> starts_with pat (c # cs) \<and> (\<forall>i\<le>length cs. \<not> starts_with pat (drop i cs))"
    by (auto simp: less_Suc_eq_0_disj) (metis Suc_le_mono drop_Suc_Cons not0_implies_Suc drop0 less_eq_nat.simps(1))+
  with Cons.IH show ?case by auto
qed

lemma str_rfind_Some:
  "str_rfind pat s = Some i \<Longrightarrow>
     i + length pat \<le> length s \<and> starts_with pat (drop i s) \<and>
     (\<forall>j>i. j \<le> length s \<longrightarrow> \<not> starts_with pat (drop j s))"
  and str_rfind_None:
  "str_rfind pat s = None \<Longrightarrow> j \<le> length s \<Longrightarrow> \<not> starts_with pat (drop j s)"
proof (induction s arbitrary: i j)
  case Nil
  { case 1 then show ?case by (auto simp: starts_with_def split: if_splits) }
  { case 2 then show ?case by (auto simp: starts_with_def split: if_splits) }
next
  case (Cons c cs)
  { case 1
    show ?case
    proof (cases "str_rfind pat cs")
      case None
      with 1 have i: "i = 0" "starts_with pat (c # cs)" by (auto split: if_splits)
      have "\<not> starts_with pat (drop j (c # cs))" if "j > 0" "j \<le> length (c # cs)" for j
        using that Cons.IH(2) [OF None, of "j - 1"] by (cases j) auto
      with i starts_with_length [OF i(2)] show ?thesis by simp
    next
      case (Some k)
      with 1 have i: "i = Suc k" by simp
      have "\<not> starts_with pat (drop j (c # cs))" if "j > i" "j \<le> length (c # cs)" for j
        using that i Cons.IH(1) [OF Some] by (cases j) auto
      with i Cons.IH(1) [OF Some] show ?thesis by auto
    qed }
  { case 2
    then have n: "str_rfind pat cs = None" "\<not> starts_with pat (c # cs)"
      by (auto split: option.splits if_splits)
    show ?case using n 2(2) Cons.IH(2) [OF n(1), of "j - 1"] by (cases j) auto }
qed

lemma str_find_split:
  assumes "str_find pat s = Some i"
  shows "s = take i s @ pat @ drop (i + length pat) s"
proof -
  from str_find_Some [OF assms] obtain r where r: "drop i s = pat @ r"
    by (auto simp: starts_with_iff)
  then have "r = drop (i + length pat) s"
    by (metis append_eq_conv_conj drop_drop add.commute)
  with r show ?thesis by (metis append_take_drop_id)
qed

lemma str_rfind_split:
  assumes "str_rfind pat s = Some i"
  shows "s = take i s @ pat @ drop (i + length pat) s"
proof -
  from str_rfind_Some [OF assms] obtain r where r: "drop i s = pat @ r"
    by (auto simp: starts_with_iff)
  then have "r = drop (i + length pat) s"
    by (metis append_eq_conv_conj drop_drop add.commute)
  with r show ?thesis by (metis append_take_drop_id)
qed

section \<open>Decimal numbers\<close>

text \<open>\<open>std::to_string\<close> and \<open>%llu\<close> / \<open>%lld\<close> of \<open>printf\<close>.\<close>

definition digit_char :: "nat \<Rightarrow> char" where
  "digit_char d = ''0123456789'' ! d"

fun show_nat :: "nat \<Rightarrow> string" where
  "show_nat n = (if n < 10 then [digit_char n] else show_nat (n div 10) @ [digit_char (n mod 10)])"

declare show_nat.simps [simp del]

definition show_int :: "int \<Rightarrow> string" where
  "show_int i = (if i < 0 then CHR 0x2D # show_nat (nat (- i)) else show_nat (nat i))"

definition show_u64 :: "u64 \<Rightarrow> string" where
  "show_u64 w = show_nat (unat w)"

definition show_s64 :: "u64 \<Rightarrow> string" where
  "show_s64 w = show_int (sint w)"

definition is_digit :: "char \<Rightarrow> bool" where
  "is_digit c \<longleftrightarrow> c \<in> set ''0123456789''"

definition digit_val :: "char \<Rightarrow> nat" where
  "digit_val c = of_char c - 48"

definition read_nat :: "string \<Rightarrow> nat" where
  "read_nat s = foldl (\<lambda>a c. 10 * a + digit_val c) 0 s"

lemma less_10_cases: "(d::nat) < 10 \<Longrightarrow> d \<in> {0, 1, 2, 3, 4, 5, 6, 7, 8, 9}"
  by auto

lemma less_16_cases: "(d::nat) < 16 \<Longrightarrow> d \<in> {0, 1, 2, 3, 4, 5, 6, 7, 8, 9, 10, 11, 12, 13, 14, 15}"
  by (simp only: insert_iff empty_iff) presburger

lemma is_digit_digit_char [simp]: "d < 10 \<Longrightarrow> is_digit (digit_char d)"
  by (drule less_10_cases) (auto simp: is_digit_def digit_char_def)

lemma digit_val_digit_char [simp]: "d < 10 \<Longrightarrow> digit_val (digit_char d) = d"
  by (drule less_10_cases) (auto simp: digit_val_def digit_char_def)

lemma show_nat_digits: "\<forall>c\<in>set (show_nat n). is_digit c"
proof (induction n rule: show_nat.induct)
  case (1 n)
  then show ?case by (subst show_nat.simps) auto
qed

lemma show_nat_nonempty [simp]: "show_nat n \<noteq> []"
  by (subst show_nat.simps) simp

lemma read_nat_show_nat [simp]: "read_nat (show_nat n) = n"
proof (induction n rule: less_induct)
  case (less n)
  have "\<not> n < 10 \<Longrightarrow> read_nat (show_nat (n div 10)) = n div 10" by (rule less) simp
  then show ?case by (cases "n < 10"; subst show_nat.simps) (simp_all add: read_nat_def)
qed

lemma show_nat_inject [simp]: "show_nat m = show_nat n \<longleftrightarrow> m = n"
  by (metis read_nat_show_nat)

lemma show_u64_inject [simp]: "show_u64 v = show_u64 w \<longleftrightarrow> v = w"
  by (simp add: show_u64_def word_unat_eq_iff)

lemma not_digit_char:
  "c \<in> set (show_nat n) \<Longrightarrow> \<not> is_digit d \<Longrightarrow> c \<noteq> d"
  using show_nat_digits by blast

lemma show_int_chars: "c \<in> set (show_int i) \<Longrightarrow> is_digit c \<or> c = CHR 0x2D"
  using show_nat_digits by (auto simp: show_int_def split: if_splits)

section \<open>Hash maps as association lists\<close>

text \<open>
  A \<open>std::unordered_map\<close> is an association list with distinct keys; its order is an
  iteration order. \<open>m[k] = v\<close> is \<open>AList.update k v m\<close>, \<open>m.find(k)\<close> is \<open>map_of m k\<close>, \<open>emplace\<close>
  keeps an entry that is there.
\<close>

definition amap_ok :: "('k \<times> 'v) list \<Rightarrow> bool" where
  "amap_ok m \<longleftrightarrow> distinct (map fst m)"

definition amap_emplace :: "'k \<Rightarrow> 'v \<Rightarrow> ('k \<times> 'v) list \<Rightarrow> ('k \<times> 'v) list" where
  "amap_emplace k v m = (case map_of m k of None \<Rightarrow> AList.update k v m | Some _ \<Rightarrow> m)"

lemma map_of_amap_emplace [amap_simps]:
  "map_of (amap_emplace k v m) k' = (if k' = k \<and> map_of m k = None then Some v else map_of m k')"
  by (auto simp: amap_emplace_def update_conv' split: option.splits)

lemma map_of_amap_update [amap_simps]:
  "map_of (AList.update k v m) k' = (if k' = k then Some v else map_of m k')"
  by (simp add: update_conv')

lemma amap_ok_update [simp, intro]: "amap_ok m \<Longrightarrow> amap_ok (AList.update k v m)"
  by (simp add: amap_ok_def distinct_update)

lemma amap_ok_emplace [simp, intro]: "amap_ok m \<Longrightarrow> amap_ok (amap_emplace k v m)"
  by (auto simp: amap_emplace_def split: option.splits)

lemma amap_ok_filter [simp, intro]: "amap_ok m \<Longrightarrow> amap_ok (filter P m)"
  by (induction m) (auto simp: amap_ok_def)

lemma amap_ok_Nil [simp]: "amap_ok []"
  by (simp add: amap_ok_def)

lemma map_of_filter_key [amap_simps]:
  "map_of (filter (\<lambda>p. P (fst p)) m) k = (if P k then map_of m k else None)"
  by (induction m) auto

lemma amap_ok_map_of: "amap_ok m \<Longrightarrow> (k, v) \<in> set m \<longleftrightarrow> map_of m k = Some v"
  by (auto simp: amap_ok_def map_of_is_SomeI dest: map_of_SomeD)

text \<open>The element of a list with a given key, where keys are distinct.\<close>

lemma find_key: "distinct (map f xs) \<Longrightarrow> find (\<lambda>x. f x = k) xs = Some x \<longleftrightarrow> x \<in> set xs \<and> f x = k"
proof (induction xs)
  case (Cons y ys)
  then show ?case by (cases "f y = k") (auto simp: image_iff)
qed simp

lemma find_key_None: "find (\<lambda>x. f x = k) xs = None \<longleftrightarrow> k \<notin> f ` set xs"
  by (auto simp: find_None_iff image_iff)

lemma find_app: "find P (xs @ ys) = (case find P xs of None \<Rightarrow> find P ys | Some x \<Rightarrow> Some x)"
  by (induction xs) auto

end
