(* ===== verification/JsonText.thy ===== *)
theory JsonText
  imports TopoPrelude
begin

text \<open>
  The two JSON string encoders of the runtime: \<open>writeJsonString\<close> (runtime/json_escape.h), used by
  every NDJSON emitter, and \<open>escapeJson\<close> (runtime/topo_jit_api.cpp), used by the serialisers that
  talk to the JIT engine. A reference reader for JSON strings and arrays is the specification
  they are proved against; the locale \<open>json_text\<close> states the contract the emitters rely on and
  is interpreted on both encoders.
\<close>

section \<open>The encoders\<close>

abbreviation (input) quote :: char where "quote \<equiv> CHR 0x22"
abbreviation (input) bslash :: char where "bslash \<equiv> CHR 0x5C"
abbreviation (input) newline :: char where "newline \<equiv> CHR 0x0A"

definition hex_digit :: "nat \<Rightarrow> char" where
  "hex_digit n = ''0123456789abcdef'' ! n"

text \<open>\<open>printf("\u%04x", c)\<close> for a byte.\<close>

definition hex_escape :: "char \<Rightarrow> string" where
  "hex_escape c =
     (let n = (of_char c :: nat)
      in [bslash, CHR ''u'', CHR ''0'', CHR ''0'', hex_digit (n div 16), hex_digit (n mod 16)])"

text \<open>The \<open>switch\<close> of \<open>writeJsonString\<close>.\<close>

definition json_escape_char :: "char \<Rightarrow> string" where
  "json_escape_char c =
     (if c = quote then [bslash, quote]
      else if c = bslash then [bslash, bslash]
      else if c = CHR 0x08 then [bslash, CHR ''b'']
      else if c = CHR 0x0C then [bslash, CHR ''f'']
      else if c = newline then [bslash, CHR ''n'']
      else if c = CHR 0x0D then [bslash, CHR ''r'']
      else if c = CHR 0x09 then [bslash, CHR ''t'']
      else if (of_char c :: nat) < 0x20 then hex_escape c
      else [c])"

text \<open>The loop over the bytes of a C string, up to its terminating NUL.\<close>

fun json_escape_bytes :: "string \<Rightarrow> string" where
  "json_escape_bytes [] = []"
| "json_escape_bytes (c # cs) =
     (if c = CHR 0x00 then [] else json_escape_char c @ json_escape_bytes cs)"

text \<open>\<open>writeJsonString(f, s)\<close>: the bytes written to \<open>f\<close>; \<open>None\<close> is a null pointer.\<close>

definition writeJsonString :: "string option \<Rightarrow> string" where
  "writeJsonString s =
     quote # (case s of None \<Rightarrow> [] | Some cs \<Rightarrow> json_escape_bytes cs) @ [quote]"

text \<open>\<open>escapeJson\<close> of topo_jit_api.cpp: every other byte is copied, control characters too.\<close>

definition escape_char :: "char \<Rightarrow> string" where
  "escape_char c =
     (if c = quote then [bslash, quote]
      else if c = bslash then [bslash, bslash]
      else if c = newline then [bslash, CHR ''n'']
      else if c = CHR 0x0D then [bslash, CHR ''r'']
      else if c = CHR 0x09 then [bslash, CHR ''t'']
      else [c])"

definition escapeJson :: "string \<Rightarrow> string" where
  "escapeJson s = quote # concat (map escape_char s) @ [quote]"

section \<open>The reference reader\<close>

text \<open>The C string a pointer denotes: its bytes before the first NUL; a null pointer reads as empty.\<close>

definition c_string :: "string option \<Rightarrow> string" where
  "c_string s = (case s of None \<Rightarrow> [] | Some cs \<Rightarrow> takeWhile (\<lambda>c. c \<noteq> CHR 0x00) cs)"

definition unescape :: "char \<Rightarrow> char option" where
  "unescape e =
     (if e = quote then Some quote
      else if e = bslash then Some bslash
      else if e = CHR ''/'' then Some (CHR ''/'')
      else if e = CHR ''b'' then Some (CHR 0x08)
      else if e = CHR ''f'' then Some (CHR 0x0C)
      else if e = CHR ''n'' then Some newline
      else if e = CHR ''r'' then Some (CHR 0x0D)
      else if e = CHR ''t'' then Some (CHR 0x09)
      else None)"

definition hex_val :: "char \<Rightarrow> nat option" where
  "hex_val c =
     (let i = length (takeWhile (\<lambda>d. d \<noteq> c) ''0123456789abcdef'')
      in if i < 16 then Some i else None)"

definition hex4 :: "char \<Rightarrow> char \<Rightarrow> char \<Rightarrow> char \<Rightarrow> nat option" where
  "hex4 a b c d =
     (case (hex_val a, hex_val b, hex_val c, hex_val d) of
        (Some p, Some q, Some r, Some s) \<Rightarrow> Some (4096 * p + 256 * q + 16 * r + s)
      | _ \<Rightarrow> None)"

text \<open>
  The characters after the opening quote, up to the closing one, as RFC 8259 reads them: a raw
  control character is an error. Bytes from 0x80 on are taken as they are.
  Escapes \<open>\uXXXX\<close> are read in the ASCII range, the only ones the encoders produce.
\<close>

fun json_body :: "string \<Rightarrow> (string \<times> string) option" where
  "json_body [] = None"
| "json_body (c # cs) =
     (if c = quote then Some ([], cs)
      else if c = bslash then
        (case cs of
           [] \<Rightarrow> None
         | e # ds \<Rightarrow>
             if e = CHR ''u'' then
               (case ds of
                  h1 # h2 # h3 # h4 # es \<Rightarrow>
                    (case hex4 h1 h2 h3 h4 of
                       None \<Rightarrow> None
                     | Some n \<Rightarrow>
                         if n < 128 then map_option (apfst (Cons (char_of n))) (json_body es)
                         else None)
                | _ \<Rightarrow> None)
             else
               (case unescape e of
                  None \<Rightarrow> None
                | Some d \<Rightarrow> map_option (apfst (Cons d)) (json_body ds)))
      else if (of_char c :: nat) < 0x20 then None
      else map_option (apfst (Cons c)) (json_body cs))"

definition read_string :: "string \<Rightarrow> (string \<times> string) option" where
  "read_string s =
     (case s of [] \<Rightarrow> None | c # cs \<Rightarrow> if c = quote then json_body cs else None)"

section \<open>Reading back what the encoders write\<close>

lemma hex_val_hex_digit [simp]:
  assumes "n < 16"
  shows "hex_val (hex_digit n) = Some n"
proof -
  from assms have "n \<in> {0, 1, 2, 3, 4, 5, 6, 7, 8, 9, 10, 11, 12, 13, 14, 15}" by (rule less_16_cases)
  then show ?thesis by (elim insertE) (simp_all add: hex_val_def hex_digit_def)
qed

lemma hex_val_zero [simp]: "hex_val (CHR ''0'') = Some 0"
  by (simp add: hex_val_def)

lemma hex4_byte:
  assumes "(n::nat) < 256"
  shows "hex4 (CHR ''0'') (CHR ''0'') (hex_digit (n div 16)) (hex_digit (n mod 16)) = Some n"
  using assms by (simp add: hex4_def)

lemma hex_escape_read:
  assumes "(of_char c :: nat) < 32"
  shows "json_body (hex_escape c @ rest) = map_option (apfst (Cons c)) (json_body rest)"
proof -
  have "hex4 (CHR ''0'') (CHR ''0'') (hex_digit (of_char c div 16)) (hex_digit (of_char c mod 16))
      = Some (of_char c :: nat)"
    using assms by (intro hex4_byte) simp
  with assms show ?thesis by (simp add: hex_escape_def Let_def)
qed

lemma json_escape_char_read:
  "json_body (json_escape_char c @ rest) = map_option (apfst (Cons c)) (json_body rest)"
  by (auto simp: json_escape_char_def hex_escape_read unescape_def)

lemma json_escape_bytes_read:
  "json_body (json_escape_bytes s @ quote # rest)
     = Some (takeWhile (\<lambda>c. c \<noteq> CHR 0x00) s, rest)"
  by (induction s) (simp_all add: json_escape_char_read)

lemma writeJsonString_read:
  "read_string (writeJsonString s @ rest) = Some (c_string s, rest)"
  by (cases s) (simp_all add: writeJsonString_def read_string_def c_string_def json_escape_bytes_read)

text \<open>The copied control characters: only a string without them is read.\<close>

definition plain_char :: "char \<Rightarrow> bool" where
  "plain_char c \<longleftrightarrow> (0x20::nat) \<le> of_char c \<or> c = newline \<or> c = CHR 0x0D \<or> c = CHR 0x09"

lemma escape_char_read:
  "json_body (escape_char c @ rest)
     = (if plain_char c then map_option (apfst (Cons c)) (json_body rest) else None)"
  by (simp add: escape_char_def unescape_def plain_char_def)

lemma escapeJson_body_read:
  "json_body (concat (map escape_char s) @ quote # rest)
     = (if list_all plain_char s then Some (s, rest) else None)"
  by (induction s) (simp_all add: escape_char_read)

lemma escapeJson_read:
  "read_string (escapeJson s @ rest) = (if list_all plain_char s then Some (s, rest) else None)"
  by (simp add: escapeJson_def read_string_def escapeJson_body_read)

section \<open>Record framing\<close>

text \<open>No byte an encoder writes ends a line of the NDJSON stream.\<close>

definition printable :: "string \<Rightarrow> bool" where
  "printable s \<longleftrightarrow> (\<forall>c\<in>set s. (0x20::nat) \<le> of_char c)"

lemma printable_append [simp]: "printable (s @ t) \<longleftrightarrow> printable s \<and> printable t"
  by (auto simp: printable_def)

lemma printable_Cons [simp]: "printable (c # s) \<longleftrightarrow> (0x20::nat) \<le> of_char c \<and> printable s"
  by (auto simp: printable_def)

lemma printable_Nil [simp]: "printable []"
  by (simp add: printable_def)

lemma printable_no_newline: "printable s \<Longrightarrow> newline \<notin> set s"
  by (auto simp: printable_def)

lemma hex_digit_printable: "n < 16 \<Longrightarrow> (0x20::nat) \<le> of_char (hex_digit n)"
proof -
  assume "n < 16"
  then have "n \<in> {0, 1, 2, 3, 4, 5, 6, 7, 8, 9, 10, 11, 12, 13, 14, 15}" by (rule less_16_cases)
  then show ?thesis by (elim insertE) (simp_all add: hex_digit_def)
qed

lemma hex_escape_printable:
  assumes "(of_char c :: nat) < 32"
  shows "printable (hex_escape c)"
  using assms hex_digit_printable [of "of_char c div 16"] hex_digit_printable [of "of_char c mod 16"]
  by (simp add: hex_escape_def Let_def)

lemma json_escape_char_printable [simp]: "printable (json_escape_char c)"
  by (auto simp: json_escape_char_def hex_escape_printable)

lemma writeJsonString_printable [simp]: "printable (writeJsonString s)"
proof -
  have "printable (json_escape_bytes t)" for t by (induction t) simp_all
  then show ?thesis by (cases s) (simp_all add: writeJsonString_def)
qed

lemma escapeJson_no_newline: "newline \<notin> set (escapeJson s)"
  by (auto simp: escapeJson_def escape_char_def)

lemma show_nat_printable [simp]: "printable (show_nat n)"
proof -
  have "(0x20::nat) \<le> of_char c" if "is_digit c" for c
    using that by (auto simp: is_digit_def)
  then show ?thesis using show_nat_digits [of n] by (auto simp: printable_def)
qed

lemma show_u64_printable [simp]: "printable (show_u64 w)"
  by (simp add: show_u64_def)

lemma show_s64_printable [simp]: "printable (show_s64 w)"
  by (simp add: show_s64_def show_int_def)

section \<open>The contract of an encoder\<close>

text \<open>
  What an emitter relies on: for good values the reader gets the payload back and stops exactly at the
  end of the encoding, whatever follows; the others it refuses. The encoding has no line break.
\<close>

locale json_text =
  fixes enc :: "'a \<Rightarrow> string"
    and dec :: "string \<Rightarrow> (string \<times> string) option"
    and payload :: "'a \<Rightarrow> string"
    and good :: "'a \<Rightarrow> bool"
  assumes dec_enc: "dec (enc x @ rest) = (if good x then Some (payload x, rest) else None)"
    and enc_line: "newline \<notin> set (enc x)"
begin

lemma enc_prefix_free:
  assumes "enc x @ r = enc y @ r'" and "good x"
  shows "good y \<and> payload x = payload y \<and> r = r'"
  using dec_enc [of x r] dec_enc [of y r'] assms by (auto split: if_splits)

lemma enc_inject: "enc x = enc y \<Longrightarrow> good x \<Longrightarrow> payload x = payload y"
  using enc_prefix_free [of x "[]" y "[]"] by simp

lemma enc_list_line: "newline \<notin> set (concat (map enc xs))"
  by (induction xs) (simp_all add: enc_line)

end

interpretation rt_json: json_text writeJsonString read_string c_string "\<lambda>_. True"
  by unfold_locales (simp_all add: writeJsonString_read printable_no_newline)

interpretation jit_json: json_text escapeJson read_string "\<lambda>s. s" "list_all plain_char"
  by unfold_locales (simp_all add: escapeJson_read escapeJson_no_newline)

end
