(* ===== verification/JsonReader.thy ===== *)
theory JsonReader
  imports JsonText
begin

text \<open>
  The reader the emitters are specified against: JSON values (strings, integers, arrays, objects)
  read from a text, with fuel; the length of the text is enough fuel. A text \<open>e\<close> \<open>reads\<close> as a
  value when the reader returns that value and stops exactly behind \<open>e\<close>, whatever follows. The
  lemmas build this fact along the shape of an emitter: string, number, comma loop, array, object.
  The last part cuts a stream into its lines.
\<close>

section \<open>Values and the reader\<close>

datatype json = JStr string | JInt int | JArr "json list" | JObj "(string \<times> json) list"

definition parse_nat :: "string \<Rightarrow> (int \<times> string) option" where
  "parse_nat s =
     (let d = takeWhile is_digit s
      in if d = [] then None else Some (int (read_nat d), dropWhile is_digit s))"

definition parse_int :: "string \<Rightarrow> (int \<times> string) option" where
  "parse_int s =
     (case s of [] \<Rightarrow> None
      | c # cs \<Rightarrow> if c = CHR 0x2D then map_option (apfst uminus) (parse_nat cs) else parse_nat s)"

definition expect :: "char \<Rightarrow> string \<Rightarrow> string option" where
  "expect d s = (case s of [] \<Rightarrow> None | c # cs \<Rightarrow> if c = d then Some cs else None)"

fun parse_val :: "nat \<Rightarrow> string \<Rightarrow> (json \<times> string) option"
  and parse_items :: "nat \<Rightarrow> string \<Rightarrow> (json list \<times> string) option"
  and parse_members :: "nat \<Rightarrow> string \<Rightarrow> ((string \<times> json) list \<times> string) option"
where
  "parse_val 0 s = None"
| "parse_val (Suc n) s =
     (case s of
        [] \<Rightarrow> None
      | c # cs \<Rightarrow>
          if c = quote then map_option (apfst JStr) (json_body cs)
          else if c = CHR 0x5B then
            (case expect (CHR 0x5D) cs of
               Some r \<Rightarrow> Some (JArr [], r)
             | None \<Rightarrow> map_option (apfst JArr) (parse_items n cs))
          else if c = CHR 0x7B then
            (case expect (CHR 0x7D) cs of
               Some r \<Rightarrow> Some (JObj [], r)
             | None \<Rightarrow> map_option (apfst JObj) (parse_members n cs))
          else map_option (apfst JInt) (parse_int s))"
| "parse_items 0 s = None"
| "parse_items (Suc n) s =
     (case parse_val n s of
        None \<Rightarrow> None
      | Some (v, r) \<Rightarrow>
          (case expect (CHR '','') r of
             Some r' \<Rightarrow> map_option (apfst (Cons v)) (parse_items n r')
           | None \<Rightarrow> map_option (Pair [v]) (expect (CHR 0x5D) r)))"
| "parse_members 0 s = None"
| "parse_members (Suc n) s =
     (case read_string s of
        None \<Rightarrow> None
      | Some (k, r) \<Rightarrow>
          (case expect (CHR 0x3A) r of
             None \<Rightarrow> None
           | Some r1 \<Rightarrow>
               (case parse_val n r1 of
                  None \<Rightarrow> None
                | Some (v, r2) \<Rightarrow>
                    (case expect (CHR '','') r2 of
                       Some r' \<Rightarrow> map_option (apfst (Cons (k, v))) (parse_members n r')
                     | None \<Rightarrow> map_option (Pair [(k, v)]) (expect (CHR 0x7D) r2)))))"

definition read_json :: "string \<Rightarrow> (json \<times> string) option" where
  "read_json s = parse_val (Suc (length s)) s"

section \<open>Texts that read as a value\<close>

definition ends_number :: "string \<Rightarrow> bool" where
  "ends_number s \<longleftrightarrow> (case s of [] \<Rightarrow> True | c # _ \<Rightarrow> \<not> is_digit c)"

text \<open>\<open>None\<close> is a text the reader refuses.\<close>

definition reads_opt :: "string \<Rightarrow> json option \<Rightarrow> bool" where
  "reads_opt e r \<longleftrightarrow>
     (\<forall>n rest. length e < n \<longrightarrow> ends_number rest \<longrightarrow> parse_val n (e @ rest) = map_option (\<lambda>v. (v, rest)) r)"

abbreviation reads :: "string \<Rightarrow> json \<Rightarrow> bool" where
  "reads e v \<equiv> reads_opt e (Some v)"

named_theorems reads_intros "texts that read as a value"

lemma reads_parse:
  "reads_opt e r \<Longrightarrow> length e < n \<Longrightarrow> ends_number rest \<Longrightarrow> parse_val n (e @ rest) = map_option (\<lambda>v. (v, rest)) r"
  by (simp add: reads_opt_def)

lemma reads_read_json:
  "reads_opt e r \<Longrightarrow> ends_number rest \<Longrightarrow> read_json (e @ rest) = map_option (\<lambda>v. (v, rest)) r"
  by (simp add: reads_opt_def read_json_def del: parse_val.simps)

lemma expect_Cons [simp]: "expect d (c # cs) = (if c = d then Some cs else None)"
  by (simp add: expect_def)

lemma ends_number_Cons [simp]: "ends_number (c # cs) \<longleftrightarrow> \<not> is_digit c"
  by (simp add: ends_number_def)

lemma ends_number_Nil [simp]: "ends_number []"
  by (simp add: ends_number_def)

text \<open>Strings: an encoder that satisfies the contract \<open>json_text\<close>.\<close>

context json_text
begin

lemma reads_string:
  assumes "dec = read_string" and "enc x \<noteq> []" and "hd (enc x) = quote"
  shows "reads_opt (enc x) (if good x then Some (JStr (payload x)) else None)"
  unfolding reads_opt_def
proof (intro allI impI)
  fix n :: nat and rest
  assume n: "length (enc x) < n"
  obtain m where m: "n = Suc m" using n by (cases n) auto
  obtain cs where cs: "enc x = quote # cs" using assms(2,3) by (cases "enc x") auto
  have "read_string (enc x @ rest) = (if good x then Some (payload x, rest) else None)" using dec_enc assms(1) by metis
  with cs show "parse_val n (enc x @ rest) = map_option (\<lambda>v. (v, rest)) (if good x then Some (JStr (payload x)) else None)"
    by (simp add: m read_string_def)
qed

end

lemma reads_writeJsonString [reads_intros]: "reads (writeJsonString s) (JStr (c_string s))"
  using rt_json.reads_string [OF refl, of s] by (cases s) (simp_all add: writeJsonString_def)

lemma reads_escapeJson [reads_intros]: "reads_opt (escapeJson s) (if list_all plain_char s then Some (JStr s) else None)"
  using jit_json.reads_string [OF refl, of s] by (simp add: escapeJson_def)

text \<open>Numbers.\<close>

lemma parse_nat_show:
  assumes "ends_number rest"
  shows "parse_nat (show_nat k @ rest) = Some (int k, rest)"
proof -
  have "takeWhile is_digit (show_nat k @ rest) = show_nat k"
    using show_nat_digits [of k] assms
    by (subst takeWhile_append2) (auto simp: ends_number_def split: list.splits)
  moreover have "dropWhile is_digit (show_nat k @ rest) = rest"
    using show_nat_digits [of k] assms
    by (subst dropWhile_append2) (auto simp: ends_number_def split: list.splits)
  ultimately show ?thesis by (simp add: parse_nat_def)
qed

lemma show_nat_head: "\<exists>c cs. show_nat k = c # cs \<and> is_digit c"
  using show_nat_digits [of k] show_nat_nonempty [of k] by (cases "show_nat k") auto

lemma digit_not_special:
  "is_digit c \<Longrightarrow> c \<noteq> CHR 0x2D \<and> c \<noteq> quote \<and> c \<noteq> CHR 0x5B \<and> c \<noteq> CHR 0x7B"
  by (auto simp: is_digit_def)

lemma parse_int_show:
  assumes "ends_number rest"
  shows "parse_int (show_int i @ rest) = Some (i, rest)"
proof (cases "i < 0")
  case True
  then show ?thesis by (simp add: show_int_def parse_int_def parse_nat_show [OF assms])
next
  case False
  obtain c cs where "show_nat (nat i) = c # cs" "is_digit c" using show_nat_head by blast
  with False digit_not_special [of c] parse_nat_show [OF assms, of "nat i"]
  show ?thesis by (simp add: show_int_def parse_int_def)
qed

lemma reads_show_int [reads_intros]: "reads (show_int i) (JInt i)"
  unfolding reads_opt_def
proof (intro allI impI)
  fix n :: nat and rest
  assume n: "length (show_int i) < n" and r: "ends_number rest"
  obtain m where m: "n = Suc m" using n by (cases n) auto
  have "show_int i \<noteq> []" by (simp add: show_int_def)
  then obtain c cs where c: "show_int i = c # cs" "is_digit c \<or> c = CHR 0x2D"
    using show_int_chars [of _ i] by (cases "show_int i") auto
  then have "c \<noteq> quote \<and> c \<noteq> CHR 0x5B \<and> c \<noteq> CHR 0x7B" using digit_not_special by auto
  with c parse_int_show [OF r, of i] show "parse_val n (show_int i @ rest) = map_option (\<lambda>v. (v, rest)) (Some (JInt i))"
    by (simp add: m)
qed

lemma reads_show_u64 [reads_intros]: "reads (show_u64 w) (JInt (uint w))"
  using reads_show_int [of "uint w"] by (simp add: show_int_def show_u64_def)

lemma reads_show_s64 [reads_intros]: "reads (show_s64 w) (JInt (sint w))"
  by (simp add: show_s64_def reads_show_int)

section \<open>Comma loops, arrays, objects\<close>

text \<open>\<open>if (!first) out << ","; out << item; first = false;\<close>\<close>

fun comma_loop :: "bool \<Rightarrow> string list \<Rightarrow> string" where
  "comma_loop first [] = []"
| "comma_loop first (x # xs) = (if first then [] else '','') @ x @ comma_loop False xs"

definition member_opt :: "string \<Rightarrow> (string \<times> json) option \<Rightarrow> bool" where
  "member_opt e r \<longleftrightarrow>
     (\<exists>k v key x. e = k @ CHR 0x3A # v \<and> k \<noteq> [] \<and> hd k = quote \<and> reads_opt v x \<and> r = Option.bind key (\<lambda>s. map_option (Pair s) x) \<and>
        (\<forall>rest. read_string (k @ rest) = map_option (\<lambda>s. (s, rest)) key))"

abbreviation reads_member :: "string \<Rightarrow> string \<times> json \<Rightarrow> bool" where
  "reads_member e kv \<equiv> member_opt e (Some kv)"

lemma those_Cons: "those (r # rs) = Option.bind r (\<lambda>v. map_option (Cons v) (those rs))"
  by (cases r) auto

lemma those_Some: "those (map Some vs) = Some vs"
  by (induction vs) auto

lemma comma_loop_more: "es \<noteq> [] \<Longrightarrow> comma_loop False es = '','' @ comma_loop True es"
  by (cases es) auto

text \<open>The loops over elements and members: refused as soon as one of them is.\<close>

lemma parse_items_loop:
  assumes "list_all2 reads_opt es rs" and "es \<noteq> []" and "length (comma_loop True es) + 1 < n"
  shows "parse_items n (comma_loop True es @ CHR 0x5D # rest) = map_option (\<lambda>vs. (vs, rest)) (those rs)"
  using assms
proof (induction es rs arbitrary: n rule: list_all2_induct)
  case (Cons e es r rs)
  obtain m where m: "n = Suc m" using Cons.prems by (cases n) auto
  show ?case
  proof (cases "es = []")
    case True
    with Cons m reads_parse [OF Cons.hyps(1), of m "CHR 0x5D # rest"] show ?thesis
      by (cases r) (simp_all add: is_digit_def those_Cons del: those.simps(2))
  next
    case False
    note eq = comma_loop_more [OF False]
    have "parse_val m (e @ '','' @ comma_loop True es @ CHR 0x5D # rest)
        = map_option (\<lambda>v. (v, '','' @ comma_loop True es @ CHR 0x5D # rest)) r"
      using Cons.prems m eq by (intro reads_parse [OF Cons.hyps(1)]) (simp_all add: is_digit_def)
    moreover have "parse_items m (comma_loop True es @ CHR 0x5D # rest) = map_option (\<lambda>vs. (vs, rest)) (those rs)"
      using Cons.prems m eq False by (intro Cons.IH) simp_all
    ultimately show ?thesis
      by (cases r) (simp_all add: m eq those_Cons option.map_comp comp_def del: comma_loop.simps(2) those.simps(2), simp_all add: eq option.map_comp comp_def)
  qed
qed simp

lemma parse_members_loop:
  assumes "list_all2 member_opt es rs" and "es \<noteq> []" and "length (comma_loop True es) + 1 < n"
  shows "parse_members n (comma_loop True es @ CHR 0x7D # rest) = map_option (\<lambda>vs. (vs, rest)) (those rs)"
  using assms
proof (induction es rs arbitrary: n rule: list_all2_induct)
  case (Cons e es r rs)
  obtain m where m: "n = Suc m" using Cons.prems by (cases n) auto
  obtain k v key x where e: "e = k @ CHR 0x3A # v" "reads_opt v x" "r = Option.bind key (\<lambda>s. map_option (Pair s) x)"
      "\<And>rest. read_string (k @ rest) = map_option (\<lambda>s. (s, rest)) key"
    using Cons.hyps(1) by (auto simp: member_opt_def)
  show ?case
  proof (cases "es = []")
    case True
    with Cons m e(1,3,4) reads_parse [OF e(2), of m "CHR 0x7D # rest"] show ?thesis
      by (cases key; cases x) (simp_all add: is_digit_def)
  next
    case False
    note eq = comma_loop_more [OF False]
    have "parse_val m (v @ '','' @ comma_loop True es @ CHR 0x7D # rest)
        = map_option (\<lambda>v. (v, '','' @ comma_loop True es @ CHR 0x7D # rest)) x"
      using Cons.prems m eq e(1) by (intro reads_parse [OF e(2)]) (simp_all add: is_digit_def)
    moreover have "parse_members m (comma_loop True es @ CHR 0x7D # rest) = map_option (\<lambda>vs. (vs, rest)) (those rs)"
      using Cons.prems m eq False by (intro Cons.IH) simp_all
    ultimately show ?thesis using e(1,3,4)
      by (cases key; cases x) (simp_all add: m eq option.map_comp comp_def del: comma_loop.simps(2), simp_all add: eq e option.map_comp comp_def)
  qed
qed simp

text \<open>Arrays and objects, empty or not.\<close>

lemma reads_nonempty: "reads e v \<Longrightarrow> e \<noteq> []"
  using reads_parse [of e "Some v" 1 "[]"] by (auto simp: parse_int_def)

lemma reads_head:
  assumes "reads e v"
  shows "hd e \<noteq> CHR 0x5D"
proof
  assume "hd e = CHR 0x5D"
  moreover obtain c cs where e: "e = c # cs" using reads_nonempty [OF assms] by (cases e) auto
  ultimately have "c = CHR 0x5D" by simp
  with e reads_parse [OF assms, of "Suc (length e)" "[]"] show False
    by (simp add: parse_int_def parse_nat_def is_digit_def)
qed

lemma array_opt:
  assumes "list_all2 reads_opt es rs" and "\<forall>e\<in>set es. e \<noteq> [] \<and> hd e \<noteq> CHR 0x5D"
  shows "reads_opt (CHR 0x5B # comma_loop True es @ [CHR 0x5D]) (map_option JArr (those rs))"
  unfolding reads_opt_def
proof (intro allI impI)
  fix n :: nat and rest
  assume n: "length (CHR 0x5B # comma_loop True es @ [CHR 0x5D]) < n"
  obtain m where m: "n = Suc m" using n by (cases n) auto
  show "parse_val n ((CHR 0x5B # comma_loop True es @ [CHR 0x5D]) @ rest) = map_option (\<lambda>v. (v, rest)) (map_option JArr (those rs))"
  proof (cases es)
    case Nil
    with assms show ?thesis by (simp add: m)
  next
    case (Cons e es')
    with assms(2) have "expect (CHR 0x5D) (comma_loop True es @ CHR 0x5D # rest) = None" by (cases e) auto
    with parse_items_loop [OF assms(1), of m rest] Cons n m show ?thesis by (simp add: option.map_comp comp_def)
  qed
qed

lemma reads_array:
  assumes "list_all2 reads es vs"
  shows "reads (CHR 0x5B # comma_loop True es @ [CHR 0x5D]) (JArr vs)"
proof -
  have "list_all2 reads_opt es (map Some vs)" using assms by (simp add: list_all2_map2)
  moreover have "\<forall>e\<in>set es. e \<noteq> [] \<and> hd e \<noteq> CHR 0x5D"
    using assms reads_nonempty reads_head by (metis in_set_conv_nth list_all2_conv_all_nth)
  ultimately show ?thesis using array_opt [of es "map Some vs"] by (simp add: those_Some)
qed

lemma object_opt:
  assumes "list_all2 member_opt es rs"
  shows "reads_opt (CHR 0x7B # comma_loop True es @ [CHR 0x7D]) (map_option JObj (those rs))"
  unfolding reads_opt_def
proof (intro allI impI)
  fix n :: nat and rest
  assume n: "length (CHR 0x7B # comma_loop True es @ [CHR 0x7D]) < n"
  obtain m where m: "n = Suc m" using n by (cases n) auto
  show "parse_val n ((CHR 0x7B # comma_loop True es @ [CHR 0x7D]) @ rest) = map_option (\<lambda>v. (v, rest)) (map_option JObj (those rs))"
  proof (cases es)
    case Nil
    with assms show ?thesis by (simp add: m)
  next
    case (Cons e es')
    with assms obtain r where "member_opt e r" by (cases rs) auto
    then obtain k v where e: "e = k @ CHR 0x3A # v" "k \<noteq> []" "hd k = quote" by (auto simp: member_opt_def)
    then have "expect (CHR 0x7D) (comma_loop True es @ CHR 0x7D # rest) = None" by (cases k) (auto simp: Cons)
    with parse_members_loop [OF assms, of m rest] Cons n m show ?thesis by (simp add: option.map_comp comp_def)
  qed
qed

lemma reads_object: "list_all2 reads_member es kvs \<Longrightarrow> reads (CHR 0x7B # comma_loop True es @ [CHR 0x7D]) (JObj kvs)"
  using object_opt [of es "map Some kvs"] by (simp add: list_all2_map2 those_Some)

lemma member_optI:
  assumes "reads_opt v x" and "\<And>rest. read_string (k @ rest) = map_option (\<lambda>s. (s, rest)) key" and "k \<noteq> []" and "hd k = quote"
  shows "member_opt (k @ CHR 0x3A # v) (Option.bind key (\<lambda>s. map_option (Pair s) x))"
  using assms unfolding member_opt_def by blast

lemma key_quote: "(\<And>rest. read_string (k @ rest) = Some (key, rest)) \<Longrightarrow> k \<noteq> [] \<and> hd k = quote"
proof -
  assume k: "\<And>rest. read_string (k @ rest) = Some (key, rest)"
  from k [of "[]"] show ?thesis by (cases k) (auto simp: read_string_def split: if_splits)
qed

lemma reads_memberI:
  assumes "reads v x" and "\<And>rest. read_string (k @ rest) = Some (key, rest)"
  shows "reads_member (k @ CHR 0x3A # v) (key, x)"
  using member_optI [OF assms(1), of k "Some key"] assms(2) key_quote [OF assms(2)] by simp

section \<open>Lines of a stream\<close>

text \<open>The complete lines of a text: what a line-framed consumer gets.\<close>

fun stream_lines :: "string \<Rightarrow> string list" where
  "stream_lines [] = []"
| "stream_lines (c # cs) =
     (if c = newline then [] # stream_lines cs
      else if newline \<in> set cs
        then (case stream_lines cs of [] \<Rightarrow> [] | l # ls \<Rightarrow> (c # l) # ls) else [])"

lemma stream_lines_line:
  "newline \<notin> set r \<Longrightarrow> stream_lines (r @ newline # s) = r # stream_lines s"
  by (induction r) auto

lemma stream_lines_records:
  assumes "\<forall>r\<in>set rs. newline \<notin> set r"
  shows "stream_lines (concat (map (\<lambda>r. r @ [newline]) rs)) = rs"
  using assms by (induction rs) (simp_all add: stream_lines_line)

end
