(* ===== verification/StdFile.thy ===== *)
theory StdFile
  imports JsonReader
begin

text \<open>
  A C output stream as the runtime uses it: the bytes a reader of the descriptor is guaranteed to
  see, and the bytes written since the last \<open>fflush\<close>. (The C library may flush earlier; nothing
  here depends on it not doing so.)
\<close>

record std_file =
  sink :: string
  pending :: string

definition fputs :: "string \<Rightarrow> std_file \<Rightarrow> std_file" where
  "fputs s f = f\<lparr>pending := pending f @ s\<rparr>"

definition fflush :: "std_file \<Rightarrow> std_file" where
  "fflush f = \<lparr>sink = sink f @ pending f, pending = []\<rparr>"

definition empty_file :: std_file where
  "empty_file = \<lparr>sink = [], pending = []\<rparr>"

definition written :: "std_file \<Rightarrow> string" where
  "written f = sink f @ pending f"

lemma written_fputs [simp]: "written (fputs s f) = written f @ s"
  by (simp add: written_def fputs_def)

lemma written_fflush [simp]: "written (fflush f) = written f"
  by (simp add: written_def fflush_def)

lemma written_empty [simp]: "written empty_file = []"
  by (simp add: written_def empty_file_def)

lemma sink_fflush [simp]: "sink (fflush f) = written f"
  by (simp add: written_def fflush_def)

lemma pending_fflush [simp]: "pending (fflush f) = []"
  by (simp add: fflush_def)

lemma fputs_fputs: "fputs t (fputs s f) = fputs (s @ t) f"
  by (simp add: fputs_def)

end
