(* ===== verification/Double64.thy ===== *)
theory Double64
  imports Complex_Main TopoPrelude
begin

text \<open>
  The C++ \<open>double\<close> as IEEE 754 binary64 with round-to-nearest-even, executable: a datatype of NaN,
  signed infinities, signed zeros and non-zero finite values (as rationals), the rounding
  function, and the operations the sources use (conversion from \<open>uint64_t\<close>, product, quotient and
  the comparisons). The lemmas give what the cost comparisons rest on: rounding is monotone,
  fixes 1, and keeps the order of a quotient against 1.
\<close>

section \<open>Values and rounding\<close>

datatype double = NaN | Infinity bool | Zero bool | Num rat

text \<open>The flag of \<open>Infinity\<close> and \<open>Zero\<close> is the sign bit: true is negative.\<close>

definition two_pow :: "int \<Rightarrow> rat" where
  "two_pow e = (if 0 \<le> e then 2 ^ nat e else 1 / 2 ^ nat (- e))"

fun nat_log2 :: "nat \<Rightarrow> nat" where
  "nat_log2 n = (if n < 2 then 0 else Suc (nat_log2 (n div 2)))"

declare nat_log2.simps [simp del]

text \<open>The exponent of a positive rational: \<open>2^e \<le> r < 2^(e+1)\<close>.\<close>

definition rat_log2 :: "rat \<Rightarrow> int" where
  "rat_log2 r =
     (let (n, d) = quotient_of r;
          e = int (nat_log2 (nat n)) - int (nat_log2 (nat d))
      in if two_pow e \<le> r then e else e - 1)"

definition round_half_even :: "rat \<Rightarrow> int" where
  "round_half_even x =
     (let f = \<lfloor>x\<rfloor>; d = x - of_int f
      in if d < 1 / 2 then f else if 1 / 2 < d then f + 1 else if even f then f else f + 1)"

text \<open>The magnitude: 53 significant bits, the exponent clamped at the subnormal range.\<close>

definition round_pos :: "rat \<Rightarrow> rat" where
  "round_pos r =
     (let q = two_pow (max (rat_log2 r) (- 1022) - 52) in of_int (round_half_even (r / q)) * q)"

definition round_double :: "rat \<Rightarrow> double" where
  "round_double r =
     (if r = 0 then Zero False
      else let m = round_pos \<bar>r\<bar>
           in if m = 0 then Zero (r < 0)
              else if two_pow 1024 \<le> m then Infinity (r < 0)
              else Num (if r < 0 then - m else m))"

section \<open>Operations\<close>

fun is_neg :: "double \<Rightarrow> bool" where
  "is_neg NaN = False"
| "is_neg (Infinity s) = s"
| "is_neg (Zero s) = s"
| "is_neg (Num r) = (r < 0)"

text \<open>\<open>static_cast<double>(w)\<close>.\<close>

definition double_of_u64 :: "u64 \<Rightarrow> double" where
  "double_of_u64 w = round_double (of_nat (unat w))"

fun ddiv :: "double \<Rightarrow> double \<Rightarrow> double" where
  "ddiv NaN y = NaN"
| "ddiv x NaN = NaN"
| "ddiv (Infinity s) (Infinity t) = NaN"
| "ddiv (Infinity s) y = Infinity (s \<noteq> is_neg y)"
| "ddiv x (Infinity t) = Zero (is_neg x \<noteq> t)"
| "ddiv (Zero s) (Zero t) = NaN"
| "ddiv (Zero s) y = Zero (s \<noteq> is_neg y)"
| "ddiv x (Zero t) = Infinity (is_neg x \<noteq> t)"
| "ddiv (Num r) (Num s) = round_double (r / s)"

fun dmul :: "double \<Rightarrow> double \<Rightarrow> double" where
  "dmul NaN y = NaN"
| "dmul x NaN = NaN"
| "dmul (Infinity s) (Zero t) = NaN"
| "dmul (Zero s) (Infinity t) = NaN"
| "dmul (Infinity s) y = Infinity (s \<noteq> is_neg y)"
| "dmul x (Infinity t) = Infinity (is_neg x \<noteq> t)"
| "dmul (Zero s) y = Zero (s \<noteq> is_neg y)"
| "dmul x (Zero t) = Zero (is_neg x \<noteq> t)"
| "dmul (Num r) (Num s) = round_double (r * s)"

fun dvalue :: "double \<Rightarrow> rat" where
  "dvalue (Num r) = r"
| "dvalue x = 0"

fun dlt :: "double \<Rightarrow> double \<Rightarrow> bool" where
  "dlt NaN y = False"
| "dlt x NaN = False"
| "dlt (Infinity s) (Infinity t) = (s \<and> \<not> t)"
| "dlt (Infinity s) y = s"
| "dlt x (Infinity t) = (\<not> t)"
| "dlt x y = (dvalue x < dvalue y)"

fun dle :: "double \<Rightarrow> double \<Rightarrow> bool" where
  "dle NaN y = False"
| "dle x NaN = False"
| "dle (Infinity s) (Infinity t) = (s \<or> \<not> t)"
| "dle (Infinity s) y = s"
| "dle x (Infinity t) = (\<not> t)"
| "dle x y = (dvalue x \<le> dvalue y)"

abbreviation (input) done_lit :: double where "done_lit \<equiv> Num 1"

section \<open>Powers of two and exponents\<close>

lemma two_pow_pos [simp]: "0 < two_pow e"
  by (simp add: two_pow_def)

lemma two_pow_nonneg [simp]: "0 \<le> two_pow e"
  by (simp add: less_imp_le)

lemma two_pow_nonzero [simp]: "two_pow e \<noteq> 0"
  by (simp add: two_pow_def)

lemma two_pow_0 [simp]: "two_pow 0 = 1"
  by (simp add: two_pow_def)

lemma two_pow_Suc: "two_pow (e + 1) = 2 * two_pow e"
proof (cases "0 \<le> e")
  case True
  then show ?thesis by (simp add: two_pow_def nat_add_distrib)
next
  case False
  then have "nat (- e) = Suc (nat (- (e + 1)))" by auto
  with False show ?thesis by (simp add: two_pow_def) 
qed

lemma two_pow_add_nat: "two_pow (e + int n) = 2 ^ n * two_pow e"
proof (induction n)
  case 0
  then show ?case by simp
next
  case (Suc n)
  have "two_pow (e + int (Suc n)) = two_pow (e + int n + 1)" by (simp add: add_ac)
  with Suc show ?case by (simp add: two_pow_Suc)
qed

lemma two_pow_add: "two_pow (a + b) = two_pow a * two_pow b"
proof (cases "0 \<le> b")
  case True
  then show ?thesis using two_pow_add_nat [of a "nat b"] by (simp add: two_pow_def [of b])
next
  case False
  then show ?thesis using two_pow_add_nat [of "a + b" "nat (- b)"] by (simp add: two_pow_def [of b] field_simps)
qed

lemma two_pow_mono: "a \<le> b \<Longrightarrow> two_pow a \<le> two_pow b"
  using two_pow_add_nat [of a "nat (b - a)"] mult_right_mono [of 1 "2 ^ nat (b - a)" "two_pow a"] by simp

lemma nat_log2_bounds: "0 < n \<Longrightarrow> 2 ^ nat_log2 n \<le> n \<and> n < 2 ^ Suc (nat_log2 n)"
proof (induction n rule: nat_log2.induct)
  case (1 n)
  show ?case
  proof (cases "n < 2")
    case True
    with 1 show ?thesis by (simp add: nat_log2.simps [of n])
  next
    case False
    with 1 have "2 ^ nat_log2 (n div 2) \<le> n div 2 \<and> n div 2 < 2 ^ Suc (nat_log2 (n div 2))" by simp
    with False show ?thesis by (simp add: nat_log2.simps [of n]) linarith
  qed
qed

lemma rat_nat_log2:
  assumes "0 < n"
  shows "(2 :: rat) ^ nat_log2 (nat n) \<le> of_int n \<and> of_int n < (2 :: rat) * 2 ^ nat_log2 (nat n)"
proof -
  obtain k where k: "n = int k" "0 < k" using assms by (metis zero_less_imp_eq_int)
  from nat_log2_bounds [OF k(2)]
  have "of_nat (2 ^ nat_log2 k) \<le> (of_nat k :: rat)" and "of_nat k < (of_nat (2 ^ Suc (nat_log2 k)) :: rat)"
    by (simp_all only: of_nat_le_iff of_nat_less_iff)
  then show ?thesis by (simp add: k)
qed

lemma rat_log2_bounds:
  assumes "0 < r"
  shows "two_pow (rat_log2 r) \<le> r \<and> r < two_pow (rat_log2 r + 1)"
proof -
  obtain n d where q: "quotient_of r = (n, d)" by (metis prod.exhaust)
  have d: "0 < d" and r: "r = of_int n / of_int d"
    using quotient_of_denom_pos [OF q] quotient_of_div [OF q] by auto
  have n: "0 < n" using assms r d by (simp add: zero_less_divide_iff)
  let ?a = "nat_log2 (nat n)" and ?b = "nat_log2 (nat d)"
  let ?e = "int ?a - int ?b"
  have bn: "(2 :: rat) ^ ?a \<le> of_int n \<and> of_int n < (2 :: rat) * 2 ^ ?a"
    using rat_nat_log2 [OF n] .
  have bd: "(2 :: rat) ^ ?b \<le> of_int d \<and> of_int d < (2 :: rat) * 2 ^ ?b"
    using rat_nat_log2 [OF d] .
  have pe: "two_pow ?e = 2 ^ ?a / 2 ^ ?b"
    using two_pow_add_nat [of ?e ?b] by (simp add: two_pow_def [of "int ?a"] field_simps)
  have up: "r < 2 * two_pow ?e"
  proof -
    have "of_int n < 2 * 2 ^ ?a * (of_int d / 2 ^ ?b :: rat)"
    proof -
      have "1 \<le> (of_int d / 2 ^ ?b :: rat)" using bd by simp
      then have "2 * 2 ^ ?a * (1 :: rat) \<le> 2 * 2 ^ ?a * (of_int d / 2 ^ ?b)"
        by (intro mult_left_mono) auto
      with bn show ?thesis by linarith
    qed
    with d show ?thesis by (simp add: r pe field_simps)
  qed
  have lo: "two_pow ?e < 2 * r"
  proof -
    have "2 ^ ?a * (of_int d / 2 ^ ?b) < 2 * (of_int n :: rat)"
    proof -
      have "(of_int d / 2 ^ ?b :: rat) < 2" using bd by (simp add: divide_less_eq)
      then have "2 ^ ?a * (of_int d / 2 ^ ?b) < 2 ^ ?a * (2 :: rat)"
        by (intro mult_strict_left_mono) auto
      with bn show ?thesis by linarith
    qed
    with d show ?thesis by (simp add: r pe field_simps)
  qed
  have "two_pow ?e = 2 * two_pow (?e - 1)" using two_pow_Suc [of "?e - 1"] by simp
  with up lo q show ?thesis
    by (auto simp: rat_log2_def Let_def two_pow_Suc)
qed

section \<open>Rounding is monotone\<close>

lemma round_half_even_bounds: "\<lfloor>x\<rfloor> \<le> round_half_even x \<and> round_half_even x \<le> \<lfloor>x\<rfloor> + 1"
  by (simp add: round_half_even_def Let_def)

lemma round_half_even_of_int [simp]: "round_half_even (of_int n) = n"
  by (simp add: round_half_even_def)

lemma round_half_even_mono:
  assumes "x \<le> y"
  shows "round_half_even x \<le> round_half_even y"
proof (cases "\<lfloor>x\<rfloor> = \<lfloor>y\<rfloor>")
  case True
  with assms show ?thesis by (auto simp: round_half_even_def Let_def)
next
  case False
  then have "\<lfloor>x\<rfloor> + 1 \<le> \<lfloor>y\<rfloor>" using floor_mono [OF assms] by linarith
  then show ?thesis using round_half_even_bounds [of x] round_half_even_bounds [of y] by linarith
qed

lemma rat_log2_mono:
  assumes "0 < r" and "r \<le> s"
  shows "rat_log2 r \<le> rat_log2 s"
proof (rule ccontr)
  assume "\<not> rat_log2 r \<le> rat_log2 s"
  then have "two_pow (rat_log2 s + 1) \<le> two_pow (rat_log2 r)" by (intro two_pow_mono) simp
  with rat_log2_bounds [of r] rat_log2_bounds [of s] assms show False by linarith
qed

definition ulp :: "rat \<Rightarrow> rat" where
  "ulp r = two_pow (max (rat_log2 r) (- 1022) - 52)"

lemma ulp_pos [simp]: "0 < ulp r"
  by (simp add: ulp_def)

lemma round_pos_ulp: "round_pos r = of_int (round_half_even (r / ulp r)) * ulp r"
  by (simp add: round_pos_def ulp_def Let_def)

lemma round_pos_upper:
  assumes "0 < r" and "r \<le> two_pow e" and "- 1022 \<le> e" and "max (rat_log2 r) (- 1022) < e"
  shows "round_pos r \<le> two_pow e"
proof -
  have "two_pow e = of_int (2 ^ nat (e - (max (rat_log2 r) (- 1022) - 52))) * ulp r"
    using two_pow_add_nat [of "max (rat_log2 r) (- 1022) - 52" "nat (e - (max (rat_log2 r) (- 1022) - 52))"] assms(4)
    by (simp add: ulp_def)
  then obtain k where k: "two_pow e = of_int k * ulp r" by blast
  then have "r / ulp r \<le> of_int k" using assms(2) by (simp add: divide_le_eq)
  then have "round_half_even (r / ulp r) \<le> k"
    using round_half_even_mono [of "r / ulp r" "of_int k"] by simp
  then show ?thesis unfolding round_pos_ulp k by (intro mult_right_mono) (auto intro: less_imp_le)
qed

lemma round_pos_lower:
  assumes "0 < s" and "two_pow e \<le> s" and "max (rat_log2 s) (- 1022) - 52 \<le> e"
  shows "two_pow e \<le> round_pos s"
proof -
  have "two_pow e = of_int (2 ^ nat (e - (max (rat_log2 s) (- 1022) - 52))) * ulp s"
    using two_pow_add_nat [of "max (rat_log2 s) (- 1022) - 52" "nat (e - (max (rat_log2 s) (- 1022) - 52))"] assms(3)
    by (simp add: ulp_def)
  then obtain k where k: "two_pow e = of_int k * ulp s" by blast
  then have "of_int k \<le> s / ulp s" using assms(2) by (simp add: le_divide_eq)
  then have "k \<le> round_half_even (s / ulp s)"
    using round_half_even_mono [of "of_int k" "s / ulp s"] by simp
  then show ?thesis unfolding round_pos_ulp k by (intro mult_right_mono) (auto intro: less_imp_le)
qed

lemma round_pos_mono:
  assumes "0 < r" and "r \<le> s"
  shows "round_pos r \<le> round_pos s"
proof -
  have s: "0 < s" using assms by linarith
  let ?E = "\<lambda>r. max (rat_log2 r) (- 1022)"
  have le: "?E r \<le> ?E s" using rat_log2_mono [OF assms] by auto
  show ?thesis
  proof (cases "?E r = ?E s")
    case True
    then have u: "ulp r = ulp s" by (simp add: ulp_def)
    have "r / ulp s \<le> s / ulp s" using assms(2) by (simp add: divide_right_mono less_imp_le)
    then have "round_half_even (r / ulp s) \<le> round_half_even (s / ulp s)" by (rule round_half_even_mono)
    then show ?thesis unfolding round_pos_ulp u by (intro mult_right_mono) (auto intro: less_imp_le)
  next
    case False
    with le have lt: "?E r < ?E s" by linarith
    then have Es: "?E s = rat_log2 s" by (auto simp: max_def split: if_splits)
    have "r \<le> two_pow (?E s)"
    proof -
      have "rat_log2 r + 1 \<le> ?E s" using lt by (auto simp: max_def split: if_splits)
      then have "two_pow (rat_log2 r + 1) \<le> two_pow (?E s)" by (rule two_pow_mono)
      with rat_log2_bounds [OF assms(1)] show ?thesis by linarith
    qed
    then have "round_pos r \<le> two_pow (?E s)" by (rule round_pos_upper [OF assms(1) _ _ lt]) simp_all
    also have "two_pow (?E s) \<le> round_pos s"
      using rat_log2_bounds [OF s] by (intro round_pos_lower [OF s]) (auto simp: Es)
    finally show ?thesis .
  qed
qed

lemma rat_log2_two_pow [simp]: "rat_log2 (two_pow e) = e"
proof (rule antisym)
  note b = rat_log2_bounds [OF two_pow_pos, of e]
  show "rat_log2 (two_pow e) \<le> e"
  proof (rule ccontr)
    assume "\<not> rat_log2 (two_pow e) \<le> e"
    then have "two_pow (e + 1) \<le> two_pow (rat_log2 (two_pow e))" by (intro two_pow_mono) simp
    with b have "2 * two_pow e \<le> two_pow e" by (simp add: two_pow_Suc)
    moreover have "0 < two_pow e" by simp
    ultimately show False by linarith
  qed
  show "e \<le> rat_log2 (two_pow e)"
  proof (rule ccontr)
    assume "\<not> e \<le> rat_log2 (two_pow e)"
    then have "two_pow (rat_log2 (two_pow e) + 1) \<le> two_pow e" by (intro two_pow_mono) simp
    with b show False by linarith
  qed
qed

lemma round_pos_two_pow:
  assumes "- 1022 \<le> e"
  shows "round_pos (two_pow e) = two_pow e"
proof -
  have "ulp (two_pow e) = two_pow (e - 52)" using assms by (simp add: ulp_def max_def)
  then have *: "two_pow e = of_int (2 ^ 52) * ulp (two_pow e)"
    using two_pow_add_nat [of "e - 52" 52] by simp
  moreover have "ulp (two_pow e) \<noteq> 0" using ulp_pos [of "two_pow e"] by linarith
  ultimately have "two_pow e / ulp (two_pow e) = of_int (2 ^ 52)" by (simp add: nonzero_divide_eq_eq)
  then show ?thesis
    unfolding round_pos_ulp by (metis * round_half_even_of_int)
qed

lemma round_pos_1 [simp]: "round_pos 1 = 1"
  using round_pos_two_pow [of 0] by simp

lemma round_pos_le:
  "0 < r \<Longrightarrow> r \<le> two_pow e \<Longrightarrow> - 1022 \<le> e \<Longrightarrow> round_pos r \<le> two_pow e"
  using round_pos_mono [of r "two_pow e"] round_pos_two_pow [of e] by simp

lemma round_pos_ge:
  "two_pow e \<le> r \<Longrightarrow> - 1022 \<le> e \<Longrightarrow> two_pow e \<le> round_pos r"
  using round_pos_mono [of "two_pow e" r] round_pos_two_pow [of e] by simp

section \<open>Costs and their quotients\<close>

lemma round_double_normal:
  assumes "two_pow (- 1022) \<le> r" and "r \<le> two_pow 1023"
  shows "round_double r = Num (round_pos r)"
proof -
  have "0 < r" using assms(1) two_pow_pos by (rule less_le_trans [rotated])
  moreover have "two_pow (- 1022) \<le> round_pos r" using round_pos_ge [OF assms(1)] by simp
  then have "0 < round_pos r" using two_pow_pos by (rule less_le_trans [rotated])
  moreover have "round_pos r \<le> two_pow 1023" using round_pos_le [OF \<open>0 < r\<close> assms(2)] by simp
  moreover have "two_pow 1023 < two_pow 1024" using two_pow_Suc [of 1023] by simp
  ultimately show ?thesis by (simp add: round_double_def Let_def)
qed

definition cost_rat :: "u64 \<Rightarrow> rat" where
  "cost_rat w = round_pos (of_nat (unat w))"

lemma cost_rat_range:
  assumes "w \<noteq> 0"
  shows "1 \<le> cost_rat w" and "cost_rat w \<le> two_pow 64"
proof -
  have one: "1 \<le> (of_nat (unat w) :: rat)"
    using assms by (metis One_nat_def Suc_leI of_nat_1 of_nat_le_iff unat_gt_0)
  then show "1 \<le> cost_rat w" using round_pos_ge [of 0] by (simp add: cost_rat_def)
  have "(of_nat (unat w) :: rat) \<le> of_nat (2 ^ 64)"
    using unat_u64_less [of w] by (simp only: of_nat_le_iff less_imp_le)
  then have "(of_nat (unat w) :: rat) \<le> two_pow 64" by (simp add: two_pow_def)
  with one show "cost_rat w \<le> two_pow 64"
    unfolding cost_rat_def by (intro round_pos_le) auto
qed

lemma cost_rat_mono: "v \<noteq> 0 \<Longrightarrow> v \<le> w \<Longrightarrow> cost_rat v \<le> cost_rat w"
  unfolding cost_rat_def
  by (rule round_pos_mono) (simp_all only: of_nat_le_iff of_nat_0_less_iff unat_gt_0 word_le_nat_alt not_False_eq_True)

lemma double_of_u64_Num:
  assumes "w \<noteq> 0"
  shows "double_of_u64 w = Num (cost_rat w)"
  unfolding double_of_u64_def cost_rat_def
proof (rule round_double_normal)
  have one: "1 \<le> (of_nat (unat w) :: rat)"
    using assms by (metis One_nat_def Suc_leI of_nat_1 of_nat_le_iff unat_gt_0)
  moreover have "two_pow (- 1022) \<le> two_pow 0" by (rule two_pow_mono) simp
  ultimately show "two_pow (- 1022) \<le> of_nat (unat w)" by simp
  have "(of_nat (unat w) :: rat) \<le> of_nat (2 ^ 64)"
    using unat_u64_less [of w] by (simp only: of_nat_le_iff less_imp_le)
  also have "(of_nat (2 ^ 64) :: rat) = two_pow 64" by (simp add: two_pow_def)
  also have "two_pow 64 \<le> two_pow 1023" by (rule two_pow_mono) simp
  finally show "of_nat (unat w) \<le> two_pow 1023" .
qed

lemma double_of_u64_0 [simp]: "double_of_u64 0 = Zero False"
  by (simp add: double_of_u64_def round_double_def)

definition ratio_rat :: "u64 \<Rightarrow> u64 \<Rightarrow> rat" where
  "ratio_rat v w = round_pos (cost_rat v / cost_rat w)"

text \<open>The quotient of two costs is finite, and rounding keeps its side of 1.\<close>

lemma ddiv_costs:
  assumes "v \<noteq> 0" and "w \<noteq> 0"
  shows "ddiv (double_of_u64 v) (double_of_u64 w) = Num (ratio_rat v w)"
proof -
  note rv = cost_rat_range [OF assms(1)] and rw = cost_rat_range [OF assms(2)]
  have "two_pow (- 64) \<le> cost_rat v / cost_rat w"
  proof -
    have "two_pow (- 64) * cost_rat w \<le> two_pow (- 64) * two_pow 64" using rw by (intro mult_left_mono) auto
    also have "\<dots> = 1" by (simp add: two_pow_add [symmetric])
    finally show ?thesis using rv rw by (simp add: le_divide_eq)
  qed
  moreover have "two_pow (- 1022) \<le> two_pow (- 64)" by (rule two_pow_mono) simp
  moreover have "cost_rat v / cost_rat w \<le> two_pow 64"
  proof -
    have "cost_rat v \<le> two_pow 64 * 1" using rv by simp
    also have "\<dots> \<le> two_pow 64 * cost_rat w" using rw by (intro mult_left_mono) auto
    finally show ?thesis using rw by (simp add: divide_le_eq)
  qed
  moreover have "two_pow 64 \<le> two_pow 1023" by (rule two_pow_mono) simp
  ultimately have "round_double (cost_rat v / cost_rat w) = Num (ratio_rat v w)"
    unfolding ratio_rat_def by (intro round_double_normal) linarith+
  with assms show ?thesis by (simp add: double_of_u64_Num)
qed

lemma ratio_rat_le_1:
  assumes "v \<noteq> 0" and "v \<le> w"
  shows "ratio_rat v w \<le> 1"
proof -
  have w: "w \<noteq> 0" using assms by auto
  note rv = cost_rat_range [OF assms(1)] and rw = cost_rat_range [OF w]
  have "cost_rat v / cost_rat w \<le> two_pow 0" using cost_rat_mono [OF assms] rw by (simp add: divide_le_eq)
  with rv rw show "ratio_rat v w \<le> 1"
    unfolding ratio_rat_def using round_pos_le [of "cost_rat v / cost_rat w" 0] by simp
qed

lemma ratio_rat_ge_1:
  assumes "w \<noteq> 0" and "w \<le> v"
  shows "1 \<le> ratio_rat v w"
proof -
  have v: "v \<noteq> 0" using assms by auto
  have "two_pow 0 \<le> cost_rat v / cost_rat w"
    using cost_rat_mono [OF assms] cost_rat_range [OF assms(1)] by (simp add: le_divide_eq)
  then show ?thesis unfolding ratio_rat_def using round_pos_ge [of 0] by simp
qed

text \<open>\<open>static_cast<int64_t>(d)\<close> truncates; outside the range it is undefined.\<close>

fun to_int64 :: "double \<Rightarrow> int" where
  "to_int64 (Num r) = (if 0 \<le> r then \<lfloor>r\<rfloor> else \<lceil>r\<rceil>)"
| "to_int64 _ = 0"

end
