(* ===== verification/Arena.thy ===== *)
theory Arena
  imports TopoPrelude
begin

unbundle bit_operations_syntax

text \<open>
  The arena allocator of runtime/topo_arena.cpp: a list of blocks obtained from \<open>malloc\<close>, bump
  allocation inside the last block, a new block when the last one is full, \<open>reset\<close> and
  \<open>destroy\<close>. Sizes and addresses are 64-bit words, so every overflow of the C++ arithmetic is in
  the model. The heap is a parameter: the record \<open>libc\<close> holds \<open>malloc\<close> and \<open>free\<close> and the map of
  live blocks they maintain; \<open>libc_ok\<close> states the documented behaviour of the two functions.
  The locale \<open>region_allocator\<close> is the contract the generated code relies on.
\<close>

section \<open>State\<close>

record 'h libc =
  malloc_fn :: "u64 \<Rightarrow> 'h \<Rightarrow> u64 \<times> 'h"
  free_fn :: "u64 \<Rightarrow> 'h \<Rightarrow> 'h"
  live_fn :: "'h \<Rightarrow> u64 \<Rightarrow> u64 option"

record block =
  data :: u64
  capacity :: u64
  used :: u64

record topo_arena =
  blocks :: "block list"
  defaultBlockSize :: u64

definition SIZE_MAX :: u64 where
  "SIZE_MAX = - 1"

section \<open>Operations\<close>

text \<open>\<open>topo_arena::addBlock\<close>: false, and nothing pushed, when \<open>malloc\<close> fails.\<close>

definition addBlock :: "'h libc \<Rightarrow> u64 \<Rightarrow> 'h \<times> topo_arena \<Rightarrow> bool \<times> 'h \<times> topo_arena" where
  "addBlock L minSize s =
     (let (h, a) = s;
          cap = (if minSize > defaultBlockSize a then minSize else defaultBlockSize a);
          (ptr, h') = malloc_fn L cap h
      in if ptr = 0 then (False, h', a)
         else (True, h', a\<lparr>blocks := blocks a @ [\<lparr>data = ptr, capacity = cap, used = 0\<rparr>]\<rparr>))"

text \<open>\<open>(addr + alignment - 1) & ~(alignment - 1)\<close>.\<close>

definition align_up :: "u64 \<Rightarrow> u64 \<Rightarrow> u64" where
  "align_up addr alignment = (addr + alignment - 1) AND NOT (alignment - 1)"

text \<open>\<open>topo_arena::alloc\<close>; the null pointer is 0.\<close>

definition arena_alloc ::
    "'h libc \<Rightarrow> u64 \<Rightarrow> u64 \<Rightarrow> 'h \<times> topo_arena \<Rightarrow> u64 \<times> 'h \<times> topo_arena" where
  "arena_alloc L sz alignment s =
     (let (h, a) = s in
      if blocks a = [] then (0, h, a)
      else if sz > SIZE_MAX - alignment then (0, h, a)
      else
        let current = last (blocks a);
            addr = data current + used current;
            aligned = align_up addr alignment;
            padding = aligned - addr
        in if padding + sz \<le> capacity current - used current
           then (aligned, h,
                 a\<lparr>blocks := butlast (blocks a)
                     @ [current\<lparr>used := used current + (padding + sz)\<rparr>]\<rparr>)
           else
             let (ok, h', a') = addBlock L (sz + alignment) (h, a)
             in if \<not> ok then (0, h', a')
                else
                  let newBlock = last (blocks a');
                      addr' = data newBlock;
                      aligned' = align_up addr' alignment;
                      padding' = aligned' - addr'
                  in if padding' + sz > capacity newBlock then (0, h', a')
                     else (aligned', h',
                           a'\<lparr>blocks := butlast (blocks a')
                               @ [newBlock\<lparr>used := padding' + sz\<rparr>]\<rparr>))"

definition free_all :: "'h libc \<Rightarrow> block list \<Rightarrow> 'h \<Rightarrow> 'h" where
  "free_all L bs h = foldl (\<lambda>h b. free_fn L (data b) h) h bs"

text \<open>\<open>topo_arena::reset\<close>: frees every block but the first, which becomes empty.\<close>

definition arena_reset :: "'h libc \<Rightarrow> 'h \<times> topo_arena \<Rightarrow> 'h \<times> topo_arena" where
  "arena_reset L s =
     (let (h, a) = s in
      case blocks a of
        [] \<Rightarrow> (h, a)
      | b # bs \<Rightarrow> (free_all L bs h, a\<lparr>blocks := [b\<lparr>used := 0\<rparr>]\<rparr>))"

text \<open>\<open>~topo_arena\<close>.\<close>

definition arena_destructor :: "'h libc \<Rightarrow> 'h \<times> topo_arena \<Rightarrow> 'h" where
  "arena_destructor L s = free_all L (blocks (snd s)) (fst s)"

definition bytesUsed :: "topo_arena \<Rightarrow> u64" where
  "bytesUsed a = foldl (\<lambda>total b. total + used b) 0 (blocks a)"

definition totalCapacity :: "topo_arena \<Rightarrow> u64" where
  "totalCapacity a = foldl (\<lambda>total b. total + capacity b) 0 (blocks a)"

text \<open>
  The C ABI. \<open>None\<close> is the null handle. \<open>new_ok\<close> says whether \<open>operator new\<close> found memory for the
  \<open>topo_arena\<close> object itself; \<open>max_align\<close> is \<open>alignof(std::max_align_t)\<close>.
\<close>

definition topo_arena_create :: "'h libc \<Rightarrow> bool \<Rightarrow> u64 \<Rightarrow> 'h \<Rightarrow> topo_arena option \<times> 'h" where
  "topo_arena_create L new_ok initial_capacity h =
     (let cap = (if initial_capacity = 0 then 4096 else initial_capacity) in
      if \<not> new_ok then (None, h)
      else let (ok, h', a) = addBlock L cap (h, \<lparr>blocks = [], defaultBlockSize = cap\<rparr>)
           in (Some a, h'))"

definition topo_arena_alloc ::
    "'h libc \<Rightarrow> u64 \<Rightarrow> u64 \<Rightarrow> u64 \<Rightarrow> 'h \<times> topo_arena option \<Rightarrow> u64 \<times> 'h \<times> topo_arena option" where
  "topo_arena_alloc L max_align sz alignment s =
     (case s of
        (h, None) \<Rightarrow> (0, h, None)
      | (h, Some a) \<Rightarrow>
          if sz = 0 then (0, h, Some a)
          else let (p, h', a') = arena_alloc L sz (if alignment = 0 then max_align else alignment) (h, a)
               in (p, h', Some a'))"

definition topo_arena_reset :: "'h libc \<Rightarrow> 'h \<times> topo_arena option \<Rightarrow> 'h \<times> topo_arena option" where
  "topo_arena_reset L s =
     (case s of (h, None) \<Rightarrow> (h, None) | (h, Some a) \<Rightarrow> apsnd Some (arena_reset L (h, a)))"

definition topo_arena_destroy :: "'h libc \<Rightarrow> 'h \<times> topo_arena option \<Rightarrow> 'h" where
  "topo_arena_destroy L s =
     (case s of (h, None) \<Rightarrow> h | (h, Some a) \<Rightarrow> arena_destructor L (h, a))"

definition topo_arena_bytes_used :: "topo_arena option \<Rightarrow> u64" where
  "topo_arena_bytes_used a = (case a of None \<Rightarrow> 0 | Some a \<Rightarrow> bytesUsed a)"

definition topo_arena_capacity :: "topo_arena option \<Rightarrow> u64" where
  "topo_arena_capacity a = (case a of None \<Rightarrow> 0 | Some a \<Rightarrow> totalCapacity a)"

section \<open>The heap\<close>

definition region :: "u64 \<Rightarrow> u64 \<Rightarrow> nat set" where
  "region p n = {unat p ..< unat p + unat n}"

text \<open>
  What the C standard says of \<open>malloc\<close> and \<open>free\<close>: a block that is returned lies in the address
  space, apart from every live block; \<open>free\<close> ends the life of the block it is given.
\<close>

definition libc_ok :: "'h libc \<Rightarrow> bool" where
  "libc_ok L \<longleftrightarrow>
     (\<forall>n h p h'. malloc_fn L n h = (p, h') \<longrightarrow>
        (if p = 0 then live_fn L h' = live_fn L h
         else unat p + unat n \<le> 2 ^ 64 \<and> live_fn L h p = None \<and>
              (\<forall>q c. live_fn L h q = Some c \<longrightarrow> region q c \<inter> region p n = {}) \<and>
              live_fn L h' = (live_fn L h)(p \<mapsto> n))) \<and>
     (\<forall>p h. live_fn L (free_fn L p h) = (live_fn L h)(p := None))"

definition block_ok :: "block \<Rightarrow> bool" where
  "block_ok b \<longleftrightarrow> data b \<noteq> 0 \<and> used b \<le> capacity b \<and> unat (data b) + unat (capacity b) \<le> 2 ^ 64"

definition block_region :: "block \<Rightarrow> nat set" where
  "block_region b = region (data b) (capacity b)"

fun blocks_apart :: "block list \<Rightarrow> bool" where
  "blocks_apart [] = True"
| "blocks_apart (b # bs) \<longleftrightarrow>
     (\<forall>c\<in>set bs. data c \<noteq> data b \<and> block_region b \<inter> block_region c = {}) \<and> blocks_apart bs"

text \<open>The invariant of an arena in a heap: sound blocks, apart, each one live.\<close>

definition arena_inv :: "'h libc \<Rightarrow> 'h \<times> topo_arena \<Rightarrow> bool" where
  "arena_inv L s \<longleftrightarrow>
     (\<forall>b\<in>set (blocks (snd s)). block_ok b \<and> live_fn L (fst s) (data b) = Some (capacity b)) \<and>
     blocks_apart (blocks (snd s)) \<and> 0 < defaultBlockSize (snd s)"

text \<open>The bytes that have been handed out (or skipped as padding) since the last reset.\<close>

definition claimed :: "topo_arena \<Rightarrow> nat set" where
  "claimed a = (\<Union>b\<in>set (blocks a). region (data b) (used b))"

lemma libc_ok_malloc:
  assumes "libc_ok L" and "malloc_fn L n h = (p, h')" and "p \<noteq> 0"
  shows "unat p + unat n \<le> 2 ^ 64" and "live_fn L h p = None"
    and "live_fn L h q = Some c \<Longrightarrow> region q c \<inter> region p n = {}"
    and "live_fn L h' = (live_fn L h)(p \<mapsto> n)"
proof -
  note L = assms(1) [unfolded libc_ok_def, THEN conjunct1, rule_format, OF assms(2)]
  from L assms(3) show "unat p + unat n \<le> 2 ^ 64" by simp
  from L assms(3) show "live_fn L h p = None" by simp
  from L assms(3) show "live_fn L h' = (live_fn L h)(p \<mapsto> n)" by simp
  from L assms(3) show "live_fn L h q = Some c \<Longrightarrow> region q c \<inter> region p n = {}" by simp
qed

lemma libc_ok_malloc_null:
  assumes "libc_ok L" and "malloc_fn L n h = (0, h')"
  shows "live_fn L h' = live_fn L h"
  using assms unfolding libc_ok_def by fastforce

lemma libc_ok_free: "libc_ok L \<Longrightarrow> live_fn L (free_fn L p h) = (live_fn L h)(p := None)"
  by (simp add: libc_ok_def)

lemma live_free_all:
  "libc_ok L \<Longrightarrow> live_fn L (free_all L bs h) =
     (\<lambda>p. if p \<in> data ` set bs then None else live_fn L h p)"
  by (induction bs arbitrary: h) (auto simp: free_all_def libc_ok_free fun_eq_iff)

lemma blocks_apart_append:
  "blocks_apart (bs @ [c]) \<longleftrightarrow>
     blocks_apart bs \<and> (\<forall>b\<in>set bs. data c \<noteq> data b \<and> block_region b \<inter> block_region c = {})"
  by (induction bs) auto

section \<open>Alignment\<close>

lemma word_and_not_eq: "(x :: u64) AND NOT m = x - (x AND m)"
proof -
  have "x - (x AND m) = x AND NOT (x AND m)"
    by (rule disjunctive_diff) (simp add: bit_and_iff)
  also have "x AND NOT (x AND m) = x AND NOT m"
    by (rule bit_eqI) (simp add: bit_and_iff bit_not_iff bit_or_iff; blast)
  finally show ?thesis by simp
qed

lemma align_up_padding:
  "align_up addr al - addr = (al - 1) - ((addr + al - 1) AND (al - 1))"
  by (simp add: align_up_def word_and_not_eq)

lemma unat_padding:
  "unat (align_up addr al - addr) = unat (al - 1) - unat ((addr + al - 1) AND (al - 1))"
  unfolding align_up_padding by (rule unat_sub) (rule word_and_le1)

lemma padding_less:
  assumes "al \<noteq> 0"
  shows "unat (align_up addr al - addr) < unat al"
proof -
  have "unat (align_up addr al - addr) \<le> unat (al - 1)"
    unfolding unat_padding by simp
  also have "unat (al - 1) = unat al - 1"
    using assms by (rule unat_minus_one)
  finally show ?thesis
    using assms by (metis diff_less le_less_trans unat_gt_0 zero_less_one)
qed

text \<open>The guard \<open>size > SIZE_MAX - alignment\<close> is what keeps the two sums from wrapping.\<close>

lemma guard_no_wrap:
  assumes "\<not> sz > SIZE_MAX - al"
  shows "unat sz + unat al < 2 ^ 64"
proof -
  have "unat sz \<le> unat (SIZE_MAX - al)" using assms by (simp add: word_le_nat_alt not_less)
  also have "unat (SIZE_MAX - al) = unat SIZE_MAX - unat al"
    by (rule unat_sub) (simp add: SIZE_MAX_def)
  also have "unat SIZE_MAX = 2 ^ 64 - 1"
    by (simp add: SIZE_MAX_def unsigned_minus_1_eq_mask mask_eq_exp_minus_1)
  finally have "unat sz \<le> 2 ^ 64 - 1 - unat al" .
  moreover have "unat al < 2 ^ 64" by (rule unat_u64_less)
  ultimately show ?thesis by linarith
qed

lemma padding_sum:
  assumes "\<not> sz > SIZE_MAX - al" and "al \<noteq> 0"
  shows "unat (align_up addr al - addr + sz) = unat (align_up addr al - addr) + unat sz"
    and "unat (sz + al) = unat sz + unat al"
  using guard_no_wrap [OF assms(1)] padding_less [OF assms(2), of addr]
  by (simp_all add: unat_add_lem [THEN iffD1])

text \<open>With a power of two the result is a multiple of the alignment.\<close>

lemma align_up_aligned:
  assumes "al = 2 ^ k" and "k < 64"
  shows "unat (align_up addr al) mod 2 ^ k = 0"
proof -
  have m: "al - 1 = mask k" using assms by (simp add: mask_eq_exp_minus_1)
  have "align_up addr al AND mask k = 0"
    unfolding align_up_def m by (simp add: bit_eq_iff bit_and_iff bit_not_iff) 
  then have "take_bit k (align_up addr al) = 0"
    by (simp add: take_bit_eq_mask)
  then have "take_bit k (unat (align_up addr al)) = 0"
    by (simp only: unsigned_take_bit_eq [symmetric] unsigned_0)
  then show ?thesis by (simp add: take_bit_eq_mod)
qed

section \<open>Bumping inside one block\<close>

lemma bump_fits:
  assumes "block_ok b" and "sz \<noteq> 0"
    and "unat (pad + sz) = unat pad + unat sz"
    and "pad + sz \<le> capacity b - used b"
  shows "unat (used b + (pad + sz)) = unat (used b) + unat pad + unat sz"
    and "unat (used b) + unat pad + unat sz \<le> unat (capacity b)"
    and "unat (data b + used b + pad) = unat (data b) + unat (used b) + unat pad"
proof -
  have "unat (pad + sz) \<le> unat (capacity b - used b)"
    using assms(4) by (simp add: word_le_nat_alt)
  also have "\<dots> = unat (capacity b) - unat (used b)"
    using assms(1) by (intro unat_sub) (simp add: block_ok_def)
  finally show le: "unat (used b) + unat pad + unat sz \<le> unat (capacity b)"
    using assms(1,2,3) unfolding block_ok_def word_le_nat_alt by (simp add: unat_gt_0 [symmetric])
  have cap: "unat (capacity b) < 2 ^ 64" by (rule unat_u64_less)
  with le assms(3) show "unat (used b + (pad + sz)) = unat (used b) + unat pad + unat sz"
    by (simp add: unat_add_lem [THEN iffD1])
  have "0 < unat sz" using assms(2) by (simp add: unat_gt_0)
  moreover have "unat (data b) + unat (capacity b) \<le> 2 ^ 64" using assms(1) by (simp add: block_ok_def)
  ultimately have lt: "unat (data b) + unat (used b) + unat pad < 2 ^ 64" using le by linarith
  then have "unat (data b + used b) = unat (data b) + unat (used b)"
    by (simp add: unat_add_lem [THEN iffD1])
  with lt show "unat (data b + used b + pad) = unat (data b) + unat (used b) + unat pad"
    by (simp add: unat_add_lem [THEN iffD1])
qed

text \<open>A request satisfied by the block \<open>b\<close> takes a fresh part of it, past its old end.\<close>

definition bump :: "block \<Rightarrow> u64 \<Rightarrow> u64 \<Rightarrow> block" where
  "bump b al sz = b\<lparr>used := used b + (align_up (data b + used b) al - (data b + used b) + sz)\<rparr>"

lemma bump_spec:
  assumes "block_ok b" and "sz \<noteq> 0" and "al \<noteq> 0" and "\<not> sz > SIZE_MAX - al"
    and "align_up (data b + used b) al - (data b + used b) + sz \<le> capacity b - used b"
  shows "block_ok (bump b al sz)"
    and "region (align_up (data b + used b) al) sz \<subseteq> region (data b) (used (bump b al sz)) - region (data b) (used b)"
    and "region (data b) (used b) \<subseteq> region (data b) (used (bump b al sz))"
    and "align_up (data b + used b) al \<noteq> 0"
proof -
  let ?pad = "align_up (data b + used b) al - (data b + used b)"
  have sum: "unat (?pad + sz) = unat ?pad + unat sz"
    using padding_sum(1) [OF assms(4,3)] by simp
  note fits = bump_fits [OF assms(1,2) sum assms(5)]
  have al: "data b + used b + ?pad = align_up (data b + used b) al" by simp
  from fits(3) have addr: "unat (align_up (data b + used b) al) = unat (data b) + unat (used b) + unat ?pad"
    by (simp only: al)
  show "block_ok (bump b al sz)"
    using assms(1) fits(1,2) by (simp add: block_ok_def bump_def word_le_nat_alt del: diff_add_eq)
  have u: "unat (used (bump b al sz)) = unat (used b) + unat ?pad + unat sz"
    using fits(1) by (simp add: bump_def del: diff_add_eq)
  show "region (align_up (data b + used b) al) sz \<subseteq> region (data b) (used (bump b al sz)) - region (data b) (used b)"
    by (auto simp: region_def addr u)
  show "region (data b) (used b) \<subseteq> region (data b) (used (bump b al sz))"
    by (auto simp: region_def u)
  have "0 < unat (data b)" using assms(1) by (simp add: block_ok_def unat_gt_0)
  with addr show "align_up (data b + used b) al \<noteq> 0"
    by (metis add_gr_0 unat_gt_0)
qed

section \<open>The operations keep the invariant\<close>

lemma arena_inv_snoc:
  "blocks a = bs @ [b] \<Longrightarrow>
     arena_inv L (h, a) \<longleftrightarrow>
       (\<forall>c\<in>set bs. block_ok c \<and> live_fn L h (data c) = Some (capacity c)) \<and> blocks_apart bs \<and>
       block_ok b \<and> live_fn L h (data b) = Some (capacity b) \<and>
       (\<forall>c\<in>set bs. data b \<noteq> data c \<and> block_region c \<inter> block_region b = {}) \<and>
       0 < defaultBlockSize a"
  by (auto simp: arena_inv_def blocks_apart_append)

lemma claimed_snoc:
  "claimed (a\<lparr>blocks := bs @ [b]\<rparr>) = (\<Union>c\<in>set bs. region (data c) (used c)) \<union> region (data b) (used b)"
  by (auto simp: claimed_def)

lemma used_region_subset: "block_ok b \<Longrightarrow> region (data b) (used b) \<subseteq> block_region b"
  by (auto simp: block_ok_def block_region_def region_def word_le_nat_alt)

lemma bump_last:
  assumes inv: "arena_inv L (h, a)" and bs: "blocks a = bs @ [b]"
    and req: "sz \<noteq> 0" "al \<noteq> 0" "\<not> sz > SIZE_MAX - al"
    and fit: "align_up (data b + used b) al - (data b + used b) + sz \<le> capacity b - used b"
  defines "a' \<equiv> a\<lparr>blocks := bs @ [bump b al sz]\<rparr>"
  shows "arena_inv L (h, a')" and "claimed a \<subseteq> claimed a'"
    and "region (align_up (data b + used b) al) sz \<subseteq> claimed a' - claimed a"
    and "align_up (data b + used b) al \<noteq> 0"
    and "\<exists>c\<in>set (blocks a'). region (align_up (data b + used b) al) sz \<subseteq> region (data c) (used c)"
proof -
  have b: "block_ok b" and apart: "\<forall>c\<in>set bs. block_ok c \<and> block_region c \<inter> block_region b = {}"
    using inv by (auto simp: arena_inv_snoc [OF bs])
  note spec = bump_spec [OF b req fit]
  have eqs: "data (bump b al sz) = data b" "capacity (bump b al sz) = capacity b"
    by (simp_all add: bump_def)
  show "arena_inv L (h, a')"
    using inv spec(1) eqs by (simp add: a'_def arena_inv_snoc [OF bs] arena_inv_snoc block_region_def)
  have a: "a = a\<lparr>blocks := bs @ [b]\<rparr>" by (simp add: bs [symmetric])
  have cl: "claimed a = (\<Union>c\<in>set bs. region (data c) (used c)) \<union> region (data b) (used b)"
    by (subst a) (rule claimed_snoc)
  have cl': "claimed a' = (\<Union>c\<in>set bs. region (data c) (used c)) \<union> region (data b) (used (bump b al sz))"
    by (simp add: a'_def claimed_snoc eqs)
  show "claimed a \<subseteq> claimed a'" using spec(3) by (auto simp: cl cl')
  have "region (data b) (used (bump b al sz)) \<subseteq> block_region b"
    using used_region_subset [OF spec(1)] by (simp add: block_region_def eqs)
  with spec(2) have "region (align_up (data b + used b) al) sz \<inter> (\<Union>c\<in>set bs. region (data c) (used c)) = {}"
    using apart used_region_subset by fastforce
  with spec(2) show "region (align_up (data b + used b) al) sz \<subseteq> claimed a' - claimed a"
    by (auto simp: cl cl')
  show "align_up (data b + used b) al \<noteq> 0" by (rule spec(4))
  show "\<exists>c\<in>set (blocks a'). region (align_up (data b + used b) al) sz \<subseteq> region (data c) (used c)"
    using spec(2) by (auto simp: a'_def eqs)
qed

lemma max_u64: "(if (n :: u64) > d then n else d) = max n d"
  by (auto simp: max_def)

lemma addBlock_malloc:
  "addBlock L n (h, a) = (ok, h', a') \<Longrightarrow>
     ok \<longleftrightarrow> fst (malloc_fn L (max n (defaultBlockSize a)) h) \<noteq> 0"
  by (auto simp: addBlock_def max_u64 Let_def split: prod.splits if_splits)

text \<open>\<open>addBlock\<close> either changes nothing but the heap, or appends one empty live block.\<close>

lemma addBlock_fail:
  assumes "libc_ok L" and "arena_inv L (h, a)" and "addBlock L n (h, a) = (False, h', a')"
  shows "a' = a" and "arena_inv L (h', a)" and "live_fn L h' = live_fn L h"
proof -
  from assms(3) have m: "malloc_fn L (if n > defaultBlockSize a then n else defaultBlockSize a) h = (0, h')"
    and a: "a' = a" by (auto simp: addBlock_def Let_def split: prod.splits if_splits)
  from libc_ok_malloc_null [OF assms(1) m] show l: "live_fn L h' = live_fn L h" .
  show "a' = a" by (rule a)
  show "arena_inv L (h', a)" using assms(2) by (simp add: arena_inv_def l)
qed

lemma addBlock_ok:
  assumes L: "libc_ok L" and inv: "arena_inv L (h, a)" and add: "addBlock L n (h, a) = (True, h', a')"
  obtains nb where "blocks a' = blocks a @ [nb]" and "used nb = 0" and "unat n \<le> unat (capacity nb)"
    and "defaultBlockSize a' = defaultBlockSize a" and "arena_inv L (h', a')" and "claimed a' = claimed a"
    and "a' = a\<lparr>blocks := blocks a @ [nb]\<rparr>"
proof -
  define cap where "cap = (if n > defaultBlockSize a then n else defaultBlockSize a)"
  from add obtain ptr where m: "malloc_fn L cap h = (ptr, h')" and nz: "ptr \<noteq> 0"
    and a': "a' = a\<lparr>blocks := blocks a @ [\<lparr>data = ptr, capacity = cap, used = 0\<rparr>]\<rparr>"
    by (auto simp: addBlock_def cap_def Let_def split: prod.splits if_splits)
  define nb where "nb = \<lparr>data = ptr, capacity = cap, used = 0\<rparr>"
  note mal = libc_ok_malloc [OF L m nz]
  have live: "block_ok c \<and> live_fn L h (data c) = Some (capacity c)" if "c \<in> set (blocks a)" for c
    using inv that by (auto simp: arena_inv_def)
  have ne: "data c \<noteq> ptr" if "c \<in> set (blocks a)" for c using live [OF that] mal(2) by auto
  have dis: "block_region c \<inter> block_region nb = {}" if "c \<in> set (blocks a)" for c
    using mal(3) live [OF that] by (auto simp: block_region_def nb_def)
  have nb: "block_ok nb" using nz mal(1) by (simp add: block_ok_def nb_def)
  have "arena_inv L (h', a')"
    using inv live ne dis nb mal(4)
    by (subst arena_inv_snoc [where bs = "blocks a" and b = nb])
      (auto simp: a' nb_def arena_inv_def)
  moreover have "claimed a' = claimed a"
    by (auto simp: a' claimed_def region_def)
  moreover have "unat n \<le> unat (capacity nb)"
    by (simp add: nb_def cap_def word_less_nat_alt)
  ultimately show thesis
    using that [of nb] by (simp add: a' nb_def)
qed

lemma arena_alloc_Nil: "blocks a = [] \<Longrightarrow> arena_alloc L sz al (h, a) = (0, h, a)"
  by (simp add: arena_alloc_def)

lemma arena_alloc_overflow: "sz > SIZE_MAX - al \<Longrightarrow> arena_alloc L sz al (h, a) = (0, h, a)"
  by (simp add: arena_alloc_def)

text \<open>The two ways through \<open>alloc\<close> once the guards have passed.\<close>

lemma arena_alloc_fast:
  assumes "blocks a = bs @ [b]" and "\<not> sz > SIZE_MAX - al"
    and "align_up (data b + used b) al - (data b + used b) + sz \<le> capacity b - used b"
  shows "arena_alloc L sz al (h, a) =
           (align_up (data b + used b) al, h, a\<lparr>blocks := bs @ [bump b al sz]\<rparr>)"
  using assms by (simp add: arena_alloc_def bump_def Let_def)

lemma arena_alloc_slow:
  assumes "blocks a = bs @ [b]" and "\<not> sz > SIZE_MAX - al"
    and "\<not> align_up (data b + used b) al - (data b + used b) + sz \<le> capacity b - used b"
  shows "arena_alloc L sz al (h, a) =
     (let (ok, h', a') = addBlock L (sz + al) (h, a)
      in if \<not> ok then (0, h', a')
         else let nb = last (blocks a'); pad = align_up (data nb) al - data nb
              in if pad + sz > capacity nb then (0, h', a')
                 else (align_up (data nb) al, h',
                       a'\<lparr>blocks := butlast (blocks a') @ [nb\<lparr>used := pad + sz\<rparr>]\<rparr>))"
  using assms by (auto simp: arena_alloc_def Let_def split: prod.split)

text \<open>The defensive check after \<open>addBlock\<close> never fires: the new block has room for the request.\<close>

lemma new_block_fits:
  assumes "al \<noteq> 0" and "\<not> sz > SIZE_MAX - al" and "unat (sz + al) \<le> unat (capacity nb)"
  shows "align_up addr al - addr + sz \<le> capacity nb"
  using padding_less [OF assms(1), of addr] padding_sum(1) [OF assms(2,1), of addr]
    padding_sum(2) [OF assms(2,1)] assms(3)
  by (simp add: word_le_nat_alt)

lemma arena_alloc_cases:
  assumes L: "libc_ok L" and inv: "arena_inv L (h, a)" and req: "sz \<noteq> 0" "al \<noteq> 0"
    and alloc: "arena_alloc L sz al (h, a) = (p, h', a')"
  obtains (null) "p = 0" "a' = a" "arena_inv L (h', a)" "live_fn L h' = live_fn L h"
      "blocks a = [] \<or> sz > SIZE_MAX - al \<or> fst (malloc_fn L (max (sz + al) (defaultBlockSize a)) h) = 0"
    | (bumped) addr where "p = align_up addr al" "p \<noteq> 0" "arena_inv L (h', a')" "claimed a \<subseteq> claimed a'"
      "region p sz \<subseteq> claimed a' - claimed a"
      "\<exists>c\<in>set (blocks a'). region p sz \<subseteq> region (data c) (used c)"
proof (cases "blocks a = [] \<or> sz > SIZE_MAX - al")
  case True
  with alloc have "p = 0 \<and> h' = h \<and> a' = a"
    by (auto simp: arena_alloc_Nil arena_alloc_overflow)
  with True inv null show thesis by auto
next
  case False
  then obtain bs b where bs: "blocks a = bs @ [b]" and guard: "\<not> sz > SIZE_MAX - al"
    by (metis rev_exhaust)
  show thesis
  proof (cases "align_up (data b + used b) al - (data b + used b) + sz \<le> capacity b - used b")
    case True
    note upd = bump_last [OF inv bs req guard True]
    from alloc show thesis
      unfolding arena_alloc_fast [OF bs guard True] using bumped [of "data b + used b"] upd by auto
  next
    case fits: False
    obtain ok h1 a1 where add: "addBlock L (sz + al) (h, a) = (ok, h1, a1)" by (metis prod_cases3)
    show thesis
    proof (cases ok)
      case False
      with add have add': "addBlock L (sz + al) (h, a) = (False, h1, a1)" by simp
      note r = addBlock_fail [OF L inv add']
      have "fst (malloc_fn L (max (sz + al) (defaultBlockSize a)) h) = 0"
        using addBlock_malloc [OF add'] by simp
      moreover have "p = 0 \<and> h' = h1 \<and> a' = a1"
        using alloc add' unfolding arena_alloc_slow [OF bs guard fits] by simp
      ultimately show thesis using r null by auto
    next
      case True
      with add have add': "addBlock L (sz + al) (h, a) = (True, h1, a1)" by simp
      obtain nb where nb: "blocks a1 = blocks a @ [nb]" "used nb = 0" "unat (sz + al) \<le> unat (capacity nb)"
        and a1: "arena_inv L (h1, a1)" "claimed a1 = claimed a"
        by (rule addBlock_ok [OF L inv add']) blast
      note room = new_block_fits [OF req(2) guard nb(3)]
      have "\<not> align_up (data nb) al - data nb + sz > capacity nb"
        using room [of "data nb"] by simp
      with alloc add' nb(1) have res: "p = align_up (data nb) al" "h' = h1"
        "a' = a1\<lparr>blocks := blocks a @ [nb\<lparr>used := align_up (data nb) al - data nb + sz\<rparr>]\<rparr>"
        unfolding arena_alloc_slow [OF bs guard fits] by (auto simp: Let_def)
      have fit: "align_up (data nb + used nb) al - (data nb + used nb) + sz \<le> capacity nb - used nb"
        using room [of "data nb"] nb(2) by simp
      note upd = bump_last [OF a1(1) nb(1) req guard fit]
      have "nb\<lparr>used := align_up (data nb) al - data nb + sz\<rparr> = bump nb al sz"
        by (simp add: bump_def nb(2))
      with res nb(2) upd a1(2) show thesis using bumped [of "data nb"] by auto
    qed
  qed
qed

section \<open>The contract of a region allocator\<close>

text \<open>
  Every pointer a \<open>region_allocator\<close> returns denotes bytes nobody was given before. A client that
  makes any number of requests gets regions that never overlap.
\<close>

fun alloc_all ::
    "('r \<Rightarrow> 's \<Rightarrow> u64 \<times> 's) \<Rightarrow> ('r \<Rightarrow> u64) \<Rightarrow> 'r list \<Rightarrow> 's \<Rightarrow> (u64 \<times> u64) list \<times> 's" where
  "alloc_all alloc length_of [] s = ([], s)"
| "alloc_all alloc length_of (r # rs) s =
     (let (p, s') = alloc r s; (ps, s'') = alloc_all alloc length_of rs s'
      in ((p, length_of r) # ps, s''))"

locale region_allocator =
  fixes alloc :: "'r \<Rightarrow> 's \<Rightarrow> u64 \<times> 's"
    and length_of :: "'r \<Rightarrow> u64"
    and taken :: "'s \<Rightarrow> nat set"
    and inv :: "'s \<Rightarrow> bool"
  assumes inv_alloc: "inv s \<Longrightarrow> alloc r s = (p, s') \<Longrightarrow> inv s'"
    and taken_mono: "inv s \<Longrightarrow> alloc r s = (p, s') \<Longrightarrow> taken s \<subseteq> taken s'"
    and alloc_fresh: "inv s \<Longrightarrow> alloc r s = (p, s') \<Longrightarrow> p \<noteq> 0 \<Longrightarrow>
          region p (length_of r) \<subseteq> taken s' - taken s"
begin

lemma alloc_all_fresh:
  "inv s \<Longrightarrow> alloc_all alloc length_of rs s = (ps, s') \<Longrightarrow> (p, n) \<in> set ps \<Longrightarrow> p \<noteq> 0 \<Longrightarrow> region p n \<inter> taken s = {}"
proof (induction rs arbitrary: s ps)
  case Nil
  then show ?case by simp
next
  case (Cons r rs)
  from Cons.prems(2) obtain q s1 qs where step: "alloc r s = (q, s1)" and rest: "alloc_all alloc length_of rs s1 = (qs, s')"
    and ps: "ps = (q, length_of r) # qs" by (auto split: prod.splits)
  have mono: "taken s \<subseteq> taken s1" using taken_mono [OF Cons.prems(1) step] .
  from Cons.prems(3) ps consider "(p, n) = (q, length_of r)" | "(p, n) \<in> set qs" by auto
  then show ?case
  proof cases
    case 1
    with alloc_fresh [OF Cons.prems(1) step] Cons.prems(4) show ?thesis by auto
  next
    case 2
    with Cons.IH [OF inv_alloc [OF Cons.prems(1) step] rest] Cons.prems(4) mono show ?thesis by blast
  qed
qed

lemma alloc_all_disjoint:
  "inv s \<Longrightarrow> alloc_all alloc length_of rs s = (ps, s') \<Longrightarrow>
     sorted_wrt (\<lambda>x y. fst x \<noteq> 0 \<longrightarrow> fst y \<noteq> 0 \<longrightarrow>
        region (fst x) (snd x) \<inter> region (fst y) (snd y) = {}) ps"
proof (induction rs arbitrary: s ps)
  case Nil
  then show ?case by simp
next
  case (Cons r rs)
  from Cons.prems(2) obtain q s1 qs where step: "alloc r s = (q, s1)" and rest: "alloc_all alloc length_of rs s1 = (qs, s')"
    and ps: "ps = (q, length_of r) # qs" by (auto split: prod.splits)
  have inv1: "inv s1" using inv_alloc [OF Cons.prems(1) step] .
  have "region q (length_of r) \<inter> region (fst y) (snd y) = {}"
    if "y \<in> set qs" "q \<noteq> 0" "fst y \<noteq> 0" for y
    using alloc_all_fresh [OF inv1 rest, of "fst y" "snd y"] that
      alloc_fresh [OF Cons.prems(1) step] by auto
  with Cons.IH [OF inv1 rest] show ?case by (simp add: ps)
qed

end

section \<open>The arena is a region allocator\<close>

text \<open>The whole state of a client: the C library, \<open>alignof(max_align_t)\<close>, the heap, the handle.\<close>

type_synonym 'h arena_sys = "'h libc \<times> u64 \<times> 'h \<times> topo_arena option"

definition arena_request :: "u64 \<times> u64 \<Rightarrow> 'h arena_sys \<Rightarrow> u64 \<times> 'h arena_sys" where
  "arena_request r s =
     (let (L, ma, h, a) = s; (p, h', a') = topo_arena_alloc L ma (fst r) (snd r) (h, a)
      in (p, L, ma, h', a'))"

definition arena_taken :: "'h arena_sys \<Rightarrow> nat set" where
  "arena_taken s = (case s of (L, ma, h, a) \<Rightarrow> (case a of None \<Rightarrow> {} | Some a \<Rightarrow> claimed a))"

definition arena_sys_ok :: "'h arena_sys \<Rightarrow> bool" where
  "arena_sys_ok s \<longleftrightarrow>
     (case s of (L, ma, h, a) \<Rightarrow>
        libc_ok L \<and> ma \<noteq> 0 \<and> (case a of None \<Rightarrow> True | Some a \<Rightarrow> arena_inv L (h, a)))"

lemma arena_request_spec:
  assumes ok: "arena_sys_ok s" and req: "arena_request r s = (p, s')"
  shows "arena_sys_ok s' \<and> arena_taken s \<subseteq> arena_taken s' \<and>
    (p \<noteq> 0 \<longrightarrow> region p (fst r) \<subseteq> arena_taken s' - arena_taken s)"
proof -
  obtain L ma h a where s: "s = (L, ma, h, a)" by (metis prod_cases4)
  show ?thesis
  proof (cases a)
    case None
    with req s ok show ?thesis
      by (auto simp: arena_request_def topo_arena_alloc_def arena_sys_ok_def arena_taken_def)
  next
    case (Some x)
    show ?thesis
    proof (cases "fst r = 0")
      case True
      with Some req s ok show ?thesis
        by (auto simp: arena_request_def topo_arena_alloc_def arena_sys_ok_def arena_taken_def)
    next
      case False
      let ?al = "if snd r = 0 then ma else snd r"
      obtain q h' x' where al: "arena_alloc L (fst r) ?al (h, x) = (q, h', x')" by (metis prod_cases3)
      from ok s Some have L: "libc_ok L" "ma \<noteq> 0" "arena_inv L (h, x)" by (simp_all add: arena_sys_ok_def)
      then have nz: "?al \<noteq> 0" by simp
      from req s Some False al have res: "p = q" "s' = (L, ma, h', Some x')"
        by (auto simp: arena_request_def topo_arena_alloc_def)
      from arena_alloc_cases [OF L(1,3) False nz al]
      show ?thesis
        by cases (use L res s Some in \<open>simp_all add: arena_sys_ok_def arena_taken_def\<close>)
    qed
  qed
qed

interpretation arena: region_allocator arena_request fst arena_taken arena_sys_ok
  by unfold_locales (use arena_request_spec in blast)+

section \<open>Ownership of the heap\<close>

text \<open>
  The arena's blocks are exactly what it added to the live blocks \<open>base\<close> of its surroundings.
  Every operation keeps this, and destroying the arena leaves exactly \<open>base\<close>.
\<close>

definition owns :: "'h libc \<Rightarrow> (u64 \<Rightarrow> u64 option) \<Rightarrow> 'h \<times> topo_arena \<Rightarrow> bool" where
  "owns L base s \<longleftrightarrow>
     arena_inv L s \<and>
     (\<forall>p. live_fn L (fst s) p =
        (if p \<in> data ` set (blocks (snd s)) then live_fn L (fst s) p else base p)) \<and>
     (\<forall>b\<in>set (blocks (snd s)). base (data b) = None)"

datatype arena_op = Alloc u64 u64 | Reset

fun arena_exec :: "'h libc \<Rightarrow> u64 \<Rightarrow> arena_op \<Rightarrow> 'h \<times> topo_arena option \<Rightarrow> 'h \<times> topo_arena option" where
  "arena_exec L ma (Alloc sz al) s = snd (topo_arena_alloc L ma sz al s)"
| "arena_exec L ma Reset s = topo_arena_reset L s"

definition arena_run :: "'h libc \<Rightarrow> u64 \<Rightarrow> arena_op list \<Rightarrow> 'h \<times> topo_arena option \<Rightarrow> 'h \<times> topo_arena option" where
  "arena_run L ma ops s = fold (arena_exec L ma) ops s"

lemma owns_alt:
  "owns L base (h, a) \<longleftrightarrow> arena_inv L (h, a) \<and>
     (\<forall>p. p \<notin> data ` set (blocks a) \<longrightarrow> live_fn L h p = base p) \<and>
     (\<forall>b\<in>set (blocks a). base (data b) = None)"
  by (auto simp: owns_def)

lemma arena_inv_reset:
  assumes L: "libc_ok L" and inv: "arena_inv L (h, a)"
  shows "arena_inv L (arena_reset L (h, a))"
proof (cases "blocks a")
  case Nil
  with inv show ?thesis by (simp add: arena_reset_def)
next
  case (Cons b bs)
  with inv have "data b \<notin> data ` set bs" by (auto simp: arena_inv_def)
  with inv Cons show ?thesis
    by (auto simp: arena_reset_def arena_inv_def live_free_all [OF L] block_ok_def)
qed

lemma owns_reset:
  assumes L: "libc_ok L" and own: "owns L base (h, a)"
  shows "owns L base (arena_reset L (h, a))"
proof -
  have inv: "arena_inv L (arena_reset L (h, a))"
    using own by (intro arena_inv_reset [OF L]) (simp add: owns_alt)
  show ?thesis
  proof (cases "blocks a")
    case Nil
    then show ?thesis using own by (simp add: arena_reset_def)
  next
    case (Cons b bs)
    then show ?thesis using own inv
      by (auto simp: arena_reset_def owns_alt live_free_all [OF L])
  qed
qed

text \<open>What \<open>alloc\<close> does to the live blocks: at most one new one, which the arena records.\<close>

lemma addBlock_live:
  assumes L: "libc_ok L" and add: "addBlock L n (h, a) = (ok, h', a')"
  shows "\<forall>p. p \<notin> data ` set (blocks a') \<longrightarrow> live_fn L h' p = live_fn L h p"
    and "\<forall>b\<in>set (blocks a'). b \<in> set (blocks a) \<or> live_fn L h (data b) = None"
    and "set (blocks a) \<subseteq> set (blocks a')"
proof -
  let ?n = "if n > defaultBlockSize a then n else defaultBlockSize a"
  obtain p g where m: "malloc_fn L ?n h = (p, g)" by (metis prod.exhaust)
  show "\<forall>p. p \<notin> data ` set (blocks a') \<longrightarrow> live_fn L h' p = live_fn L h p"
    using add m libc_ok_malloc(4) [OF L m] libc_ok_malloc_null [OF L, of ?n h h']
    by (auto simp: addBlock_def Let_def split: if_splits)
  show "\<forall>b\<in>set (blocks a'). b \<in> set (blocks a) \<or> live_fn L h (data b) = None"
    using add m libc_ok_malloc(2) [OF L m]
    by (auto simp: addBlock_def Let_def split: if_splits)
  show "set (blocks a) \<subseteq> set (blocks a')"
    using add m by (auto simp: addBlock_def Let_def split: if_splits)
qed

lemma data_image_update_last:
  "xs \<noteq> [] \<Longrightarrow> data ` set (butlast xs @ [last xs\<lparr>used := u\<rparr>]) = data ` set xs"
  by (cases xs rule: rev_cases) auto

lemma arena_alloc_live:
  assumes L: "libc_ok L" and alloc: "arena_alloc L sz al (h, a) = (p, h', a')"
  shows "(\<forall>q. q \<notin> data ` set (blocks a') \<longrightarrow> live_fn L h' q = live_fn L h q) \<and>
    (\<forall>d\<in>data ` set (blocks a'). d \<in> data ` set (blocks a) \<or> live_fn L h d = None) \<and>
    data ` set (blocks a) \<subseteq> data ` set (blocks a')"
proof (cases "blocks a = [] \<or> sz > SIZE_MAX - al")
  case True
  with alloc show ?thesis by (auto simp: arena_alloc_Nil arena_alloc_overflow)
next
  case False
  then obtain bs b where bs: "blocks a = bs @ [b]" and guard: "\<not> sz > SIZE_MAX - al"
    by (metis rev_exhaust)
  show ?thesis
  proof (cases "align_up (data b + used b) al - (data b + used b) + sz \<le> capacity b - used b")
    case True
    from alloc show ?thesis
      unfolding arena_alloc_fast [OF bs guard True] by (auto simp: bs bump_def)
  next
    case fits: False
    obtain ok h1 a1 where add: "addBlock L (sz + al) (h, a) = (ok, h1, a1)" by (metis prod_cases3)
    note live = addBlock_live [OF L add]
    have ne: "blocks a1 \<noteq> []" using live(3) bs by auto
    from alloc add have h': "h' = h1"
      and "a' = a1 \<or> (\<exists>u. a' = a1\<lparr>blocks := butlast (blocks a1) @ [last (blocks a1)\<lparr>used := u\<rparr>]\<rparr>)"
      unfolding arena_alloc_slow [OF bs guard fits] by (auto simp: Let_def split: if_splits)
    then have "data ` set (blocks a') = data ` set (blocks a1)"
      using data_image_update_last [OF ne] by (elim disjE exE) simp_all
    with live h' show ?thesis by auto
  qed
qed

lemma owns_alloc:
  assumes L: "libc_ok L" and own: "owns L base (h, a)" and req: "sz \<noteq> 0" "al \<noteq> 0"
    and alloc: "arena_alloc L sz al (h, a) = (p, h', a')"
  shows "owns L base (h', a')"
proof -
  have inv: "arena_inv L (h, a)" using own by (simp add: owns_alt)
  from arena_alloc_cases [OF L inv req alloc] have inv': "arena_inv L (h', a')"
    by cases auto
  note live = arena_alloc_live [OF L alloc]
  have "base d = None" if d: "d \<in> data ` set (blocks a')" for d
  proof (cases "d \<in> data ` set (blocks a)")
    case True
    then show ?thesis using own by (auto simp: owns_alt)
  next
    case False
    then have "base d = live_fn L h d" using own by (auto simp: owns_alt)
    with False d live show ?thesis by auto
  qed
  moreover have "live_fn L h' q = base q" if q: "q \<notin> data ` set (blocks a')" for q
  proof -
    from q live have "q \<notin> data ` set (blocks a)" and "live_fn L h' q = live_fn L h q" by auto
    with own show ?thesis by (auto simp: owns_alt)
  qed
  ultimately show ?thesis using inv' by (auto simp: owns_alt)
qed

lemma owns_exec:
  assumes L: "libc_ok L" and ma: "ma \<noteq> 0" and own: "owns L base (h, a)"
  shows "\<exists>h' a'. arena_exec L ma x (h, Some a) = (h', Some a') \<and> owns L base (h', a')"
proof (cases x)
  case Reset
  then show ?thesis
    using owns_reset [OF L own] by (cases "arena_reset L (h, a)") (simp add: topo_arena_reset_def)
next
  case (Alloc sz al)
  show ?thesis
  proof (cases "sz = 0")
    case True
    with Alloc own show ?thesis by (simp add: topo_arena_alloc_def)
  next
    case False
    let ?al = "if al = 0 then ma else al"
    obtain q h' a' where al: "arena_alloc L sz ?al (h, a) = (q, h', a')" by (metis prod_cases3)
    have "owns L base (h', a')"
      using ma by (intro owns_alloc [OF L own False _ al]) simp
    with Alloc False al show ?thesis by (auto simp: topo_arena_alloc_def)
  qed
qed

lemma owns_run:
  assumes "libc_ok L" and "ma \<noteq> 0"
  shows "owns L base (h, a) \<Longrightarrow>
    \<exists>h' a'. arena_run L ma ops (h, Some a) = (h', Some a') \<and> owns L base (h', a')"
proof (induction ops arbitrary: h a)
  case Nil
  then show ?case by (simp add: arena_run_def)
next
  case (Cons x ops)
  from owns_exec [OF assms Cons.prems] obtain h1 a1
    where "arena_exec L ma x (h, Some a) = (h1, Some a1)" and "owns L base (h1, a1)" by blast
  with Cons.IH show ?case by (simp add: arena_run_def)
qed

lemma owns_create:
  assumes L: "libc_ok L" and create: "topo_arena_create L new_ok n h = (Some a, h')"
  shows "owns L (live_fn L h) (h', a)"
proof -
  define cap where "cap = (if n = 0 then 4096 else n)"
  let ?a0 = "\<lparr>blocks = [], defaultBlockSize = cap\<rparr>"
  have inv: "arena_inv L (h, ?a0)" by (simp add: arena_inv_def cap_def word_gt_0)
  from create obtain ok where add: "addBlock L cap (h, ?a0) = (ok, h', a)"
    by (auto simp: topo_arena_create_def cap_def Let_def split: if_splits prod.splits)
  have "arena_inv L (h', a)"
  proof (cases ok)
    case True
    with add addBlock_ok [OF L inv] show ?thesis by metis
  next
    case False
    with add have "addBlock L cap (h, ?a0) = (False, h', a)" by simp
    with addBlock_fail(1,2) [OF L inv this] show ?thesis by simp
  qed
  then show ?thesis using addBlock_live [OF L add] by (auto simp: owns_alt)
qed

lemma owns_destroy:
  assumes "libc_ok L" and "owns L base (h, a)"
  shows "live_fn L (topo_arena_destroy L (h, Some a)) = base"
  using assms(2)
  by (auto simp: topo_arena_destroy_def arena_destructor_def live_free_all [OF assms(1)] owns_alt fun_eq_iff)

section \<open>Accounting\<close>

lemma blocks_card:
  "blocks_apart bs \<Longrightarrow> card (\<Union>b\<in>set bs. block_region b) = (\<Sum>b\<leftarrow>bs. unat (capacity b))"
proof (induction bs)
  case Nil
  then show ?case by simp
next
  case (Cons b bs)
  then have "block_region b \<inter> (\<Union>c\<in>set bs. block_region c) = {}" by auto
  then have "card (\<Union>c\<in>set (b # bs). block_region c)
      = card (block_region b) + card (\<Union>c\<in>set bs. block_region c)"
    by (simp, intro card_Un_disjoint) (auto simp: block_region_def region_def)
  with Cons show ?case by (simp add: block_region_def region_def)
qed

lemma capacity_sum:
  assumes "arena_inv L (h, a)"
  shows "(\<Sum>b\<leftarrow>blocks a. unat (capacity b)) < 2 ^ 64"
proof -
  have "(\<Union>b\<in>set (blocks a). block_region b) \<subseteq> {1..<2 ^ 64}"
    using assms by (fastforce simp: arena_inv_def block_ok_def block_region_def region_def
        unat_gt_0 [symmetric] Suc_le_eq)
  then have "card (\<Union>b\<in>set (blocks a). block_region b) \<le> card {1..<(2::nat) ^ 64}"
    by (intro card_mono) auto
  with assms show ?thesis by (simp add: arena_inv_def blocks_card)
qed

lemma foldl_sum_unat:
  "unat (acc :: u64) + (\<Sum>b\<leftarrow>bs. unat (f b)) < 2 ^ 64 \<Longrightarrow>
     unat (foldl (\<lambda>t b. t + f b) acc bs) = unat acc + (\<Sum>b\<leftarrow>bs. unat (f b))"
proof (induction bs arbitrary: acc)
  case Nil
  then show ?case by simp
next
  case (Cons b bs)
  then have "unat (acc + f b) = unat acc + unat (f b)" by (intro unat_add_u64) simp
  with Cons show ?case by simp
qed

lemma sum_list_le: "(\<And>b. b \<in> set bs \<Longrightarrow> f b \<le> (g b :: nat)) \<Longrightarrow> sum_list (map f bs) \<le> sum_list (map g bs)"
  by (induction bs) (auto intro: add_mono)

lemma accounting:
  assumes inv: "arena_inv L (h, a)"
  shows "unat (totalCapacity a) = (\<Sum>b\<leftarrow>blocks a. unat (capacity b))"
    and "unat (bytesUsed a) = (\<Sum>b\<leftarrow>blocks a. unat (used b))"
    and "bytesUsed a \<le> totalCapacity a"
proof -
  have le: "(\<Sum>b\<leftarrow>blocks a. unat (used b)) \<le> (\<Sum>b\<leftarrow>blocks a. unat (capacity b))"
    using inv by (intro sum_list_le) (auto simp: arena_inv_def block_ok_def word_le_nat_alt)
  show cap: "unat (totalCapacity a) = (\<Sum>b\<leftarrow>blocks a. unat (capacity b))"
    using capacity_sum [OF inv] foldl_sum_unat [of 0 capacity "blocks a"] by (simp add: totalCapacity_def)
  show use: "unat (bytesUsed a) = (\<Sum>b\<leftarrow>blocks a. unat (used b))"
    using capacity_sum [OF inv] le foldl_sum_unat [of 0 used "blocks a"] by (simp add: bytesUsed_def)
  show "bytesUsed a \<le> totalCapacity a" using cap use le by (simp add: word_le_nat_alt)
qed

section \<open>A concrete heap\<close>

text \<open>
  A heap that satisfies \<open>libc_ok\<close>, for the witnesses: live blocks in a list, each new one past the
  end of all the others.
\<close>

definition heap_top :: "(u64 \<times> u64) list \<Rightarrow> nat" where
  "heap_top h = foldr (\<lambda>(q, c) t. max t (unat q + unat c + 1)) h 4096"

definition list_libc :: "(u64 \<times> u64) list libc" where
  "list_libc =
     \<lparr>malloc_fn = (\<lambda>n h. let t = heap_top h in
        if t < 2 ^ 64 \<and> t + unat n \<le> 2 ^ 64 then (of_nat t, (of_nat t, n) # h) else (0, h)),
      free_fn = (\<lambda>p h. filter (\<lambda>x. fst x \<noteq> p) h),
      live_fn = map_of\<rparr>"

lemma heap_top_bound: "(q, c) \<in> set h \<Longrightarrow> unat q + unat c < heap_top h"
  by (induction h) (auto simp: heap_top_def max_def)

lemma heap_top_pos: "0 < heap_top h"
  by (induction h) (auto simp: heap_top_def)

lemma unat_of_nat_u64: "n < 2 ^ 64 \<Longrightarrow> unat (of_nat n :: u64) = n"
  by (simp add: unat_of_nat take_bit_eq_mod)

lemma map_of_filter_neq: "map_of (filter (\<lambda>x. fst x \<noteq> p) h) = (map_of h)(p := None)"
  by (induction h) auto

lemma list_libc_ok: "libc_ok list_libc"
proof -
  have "unat p + unat n \<le> 2 ^ 64 \<and> map_of h p = None \<and>
      (\<forall>q c. map_of h q = Some c \<longrightarrow> region q c \<inter> region p n = {})"
    if "t = heap_top h" "t < 2 ^ 64" "t + unat n \<le> 2 ^ 64" "p = of_nat t" for t h n p
  proof -
    have p: "unat p = heap_top h" using that by (simp add: unat_of_nat_u64)
    have "map_of h p = None"
      using p heap_top_bound [of p _ h] by (fastforce simp: map_of_eq_None_iff)
    moreover have "region q c \<inter> region p n = {}" if "map_of h q = Some c" for q c
      using heap_top_bound [OF map_of_SomeD [OF that]] p by (auto simp: region_def)
    ultimately show ?thesis using that p by simp
  qed
  moreover have "of_nat (heap_top h) \<noteq> (0 :: u64)" if "heap_top h < 2 ^ 64" for h
    using unat_of_nat_u64 [OF that] heap_top_pos [of h] by (metis less_irrefl unat_0)
  ultimately show ?thesis
    unfolding libc_ok_def list_libc_def
    by (auto simp: Let_def map_of_filter_neq split: if_splits)
qed

section \<open>Properties\<close>

text \<open>
  C2. Safety of the bump allocator: whatever sequence of requests (sizes and alignments) is made on
  an arena that \<open>topo_arena_create\<close> returned, the non-null pointers it hands out denote regions
  that are pairwise disjoint.
\<close>

theorem arena_allocations_disjoint:
  assumes "libc_ok L" and "ma \<noteq> 0"
    and "topo_arena_create L True n h0 = (Some a, h)"
    and "alloc_all arena_request fst rs (L, ma, h, Some a) = (ps, s')"
  shows "sorted_wrt (\<lambda>x y. fst x \<noteq> 0 \<longrightarrow> fst y \<noteq> 0 \<longrightarrow>
           region (fst x) (snd x) \<inter> region (fst y) (snd y) = {}) ps"
proof (rule arena.alloc_all_disjoint [OF _ assms(4)])
  have "arena_inv L (h, a)"
    using owns_create [OF assms(1,3)] by (simp add: owns_alt)
  then show "arena_sys_ok (L, ma, h, Some a)"
    using assms(1,2) by (simp add: arena_sys_ok_def)
qed

lemma arena_demo_create:
  "topo_arena_create list_libc True 64 [] =
     (Some \<lparr>blocks = [\<lparr>data = 4096, capacity = 64, used = 0\<rparr>], defaultBlockSize = 64\<rparr>, [(4096, 64)])"
  by (simp add: topo_arena_create_def addBlock_def list_libc_def heap_top_def)

lemma arena_demo_run:
  "fst (alloc_all arena_request fst [(24, 8), (3, 1), (16, 16), (40, 32)]
     (list_libc, 16, [(4096, 64)],
      Some \<lparr>blocks = [\<lparr>data = 4096, capacity = 64, used = 0\<rparr>], defaultBlockSize = 64\<rparr>))
   = [(4096, 24), (4120, 3), (4128, 16), (4192, 40)]"
  by (simp add: arena_request_def topo_arena_alloc_def arena_alloc_def align_up_def SIZE_MAX_def
      addBlock_def list_libc_def heap_top_def Let_def)


theorem arena_allocations_disjoint_witness:
  "\<exists>s'. alloc_all arena_request fst [(24, 8), (3, 1), (16, 16), (40, 32)]
     (list_libc, 16, [(4096, 64)],
      Some \<lparr>blocks = [\<lparr>data = 4096, capacity = 64, used = 0\<rparr>], defaultBlockSize = 64\<rparr>)
     = ([(4096, 24), (4120, 3), (4128, 16), (4192, 40)], s') \<and>
   sorted_wrt (\<lambda>x y. fst x \<noteq> 0 \<longrightarrow> fst y \<noteq> 0 \<longrightarrow>
           region (fst x) (snd x) \<inter> region (fst y) (snd y) = {})
     [(4096, 24), (4120, 3), (4128, 16), (4192, 40)]"
proof -
  let ?run = "alloc_all arena_request fst [(24, 8), (3, 1), (16, 16), (40, 32)]
     (list_libc, 16, [(4096, 64)],
      Some \<lparr>blocks = [\<lparr>data = 4096, capacity = 64, used = 0\<rparr>], defaultBlockSize = 64\<rparr>)"
  obtain s' where run: "?run = ([(4096, 24), (4120, 3), (4128, 16), (4192, 40)], s')"
    using arena_demo_run by (metis prod.collapse)
  have "sorted_wrt (\<lambda>x y. fst x \<noteq> 0 \<longrightarrow> fst y \<noteq> 0 \<longrightarrow>
           region (fst x) (snd x) \<inter> region (fst y) (snd y) = {})
     [(4096 :: u64, 24 :: u64), (4120, 3), (4128, 16), (4192, 40)]"
    by (rule arena_allocations_disjoint [OF list_libc_ok _ arena_demo_create run]) simp
  with run show ?thesis by blast
qed

text \<open>
  C17. What a successful \<open>topo_arena_alloc\<close> promises for a power-of-two alignment: the pointer is
  aligned, the requested bytes lie inside the used part of one live block of the arena, none of
  them was claimed before, and nothing claimed before is given up.
\<close>

theorem topo_arena_alloc_sound:
  assumes L: "libc_ok L" and inv: "arena_inv L (h, a)" and sz: "sz \<noteq> 0"
    and al: "al = 2 ^ k" "k < 64"
    and alloc: "topo_arena_alloc L ma sz al (h, Some a) = (p, h', Some a')" and p: "p \<noteq> 0"
  shows "unat p mod 2 ^ k = 0 \<and>
    (\<exists>b\<in>set (blocks a'). live_fn L h' (data b) = Some (capacity b) \<and> used b \<le> capacity b \<and>
        region p sz \<subseteq> region (data b) (used b)) \<and>
    region p sz \<inter> claimed a = {} \<and> claimed a \<subseteq> claimed a' \<and> arena_inv L (h', a')"
proof -
  have nz: "al \<noteq> 0" using al by simp
  with alloc sz have alloc': "arena_alloc L sz al (h, a) = (p, h', a')"
    by (auto simp: topo_arena_alloc_def split: prod.splits)
  from arena_alloc_cases [OF L inv sz nz alloc'] show ?thesis
  proof cases
    case 1
    with p show ?thesis by simp
  next
    case (2 addr)
    then show ?thesis
      using align_up_aligned [OF al] by (fastforce simp: arena_inv_def block_ok_def)
  qed
qed

theorem topo_arena_alloc_sound_witness:
  "\<exists>h' a'. topo_arena_alloc list_libc 16 16 16
      ([(4096, 64)], Some \<lparr>blocks = [\<lparr>data = 4096, capacity = 64, used = 27\<rparr>], defaultBlockSize = 64\<rparr>)
      = (4128, h', Some a') \<and> unat (4128 :: u64) mod 2 ^ 4 = 0 \<and>
      region 4128 16 \<inter> claimed \<lparr>blocks = [\<lparr>data = 4096, capacity = 64, used = 27\<rparr>], defaultBlockSize = 64\<rparr> = {}"
proof -
  let ?a = "\<lparr>blocks = [\<lparr>data = 4096, capacity = 64, used = 27\<rparr>], defaultBlockSize = 64\<rparr>"
  let ?a' = "\<lparr>blocks = [\<lparr>data = 4096, capacity = 64, used = 48\<rparr>], defaultBlockSize = 64\<rparr>"
  have inv: "arena_inv list_libc ([(4096, 64)], ?a)"
    by (simp add: arena_inv_def block_ok_def list_libc_def)
  have run: "topo_arena_alloc list_libc 16 16 16 ([(4096, 64)], Some ?a) = (4128, [(4096, 64)], Some ?a')"
    by (simp add: topo_arena_alloc_def arena_alloc_def align_up_def SIZE_MAX_def Let_def)
  have "(16 :: u64) = 2 ^ 4" by simp
  from topo_arena_alloc_sound [OF list_libc_ok inv _ this _ run] run show ?thesis by simp
qed

text \<open>
  No leak and no double release: after \<open>topo_arena_create\<close>, any sequence of allocations and
  resets, and \<open>topo_arena_destroy\<close>, the live blocks of the heap are exactly those from before the
  arena was made.
\<close>

theorem arena_lifecycle_no_leak:
  assumes L: "libc_ok L" and ma: "ma \<noteq> 0"
    and create: "topo_arena_create L new_ok n h0 = (Some a, h)"
  shows "live_fn L (topo_arena_destroy L (arena_run L ma ops (h, Some a))) = live_fn L h0"
proof -
  from owns_run [OF L ma owns_create [OF L create]] obtain h' a'
    where "arena_run L ma ops (h, Some a) = (h', Some a')" and "owns L (live_fn L h0) (h', a')" by blast
  then show ?thesis using owns_destroy [OF L] by simp
qed

theorem arena_lifecycle_no_leak_witness:
  "live_fn list_libc (topo_arena_destroy list_libc
     (arena_run list_libc 16 [Alloc 40 8, Alloc 100 64, Reset, Alloc 70 1]
        ([(4096, 64)], Some \<lparr>blocks = [\<lparr>data = 4096, capacity = 64, used = 0\<rparr>], defaultBlockSize = 64\<rparr>)))
   = live_fn list_libc []"
  by (rule arena_lifecycle_no_leak [OF list_libc_ok _ arena_demo_create]) simp

text \<open>
  Exactly when an allocation fails: the arena has no block (its creation could not get one),
  the size is so large that \<open>size + alignment\<close> does not fit in 64 bits, or the current block has no
  room and \<open>malloc\<close> refuses a new one. The check after \<open>addBlock\<close> never fails, and a failed
  allocation leaves the arena and the live blocks as they were.
\<close>

theorem arena_alloc_null_iff:
  assumes L: "libc_ok L" and inv: "arena_inv L (h, a)" and sz: "sz \<noteq> 0" and al: "al \<noteq> 0"
    and alloc: "arena_alloc L sz al (h, a) = (p, h', a')"
  defines "b \<equiv> last (blocks a)"
  shows "(p = 0 \<longleftrightarrow>
      blocks a = [] \<or> unat sz + unat al \<ge> 2 ^ 64 \<or>
      \<not> align_up (data b + used b) al - (data b + used b) + sz \<le> capacity b - used b \<and>
        fst (malloc_fn L (max (sz + al) (defaultBlockSize a)) h) = 0) \<and>
    (p = 0 \<longrightarrow> a' = a \<and> live_fn L h' = live_fn L h)"
proof -
  have over: "sz > SIZE_MAX - al \<longleftrightarrow> unat sz + unat al \<ge> 2 ^ 64"
  proof -
    have "unat (SIZE_MAX - al) = 2 ^ 64 - 1 - unat al"
      by (subst unat_sub) (simp_all add: SIZE_MAX_def unsigned_minus_1_eq_mask mask_eq_exp_minus_1)
    then show ?thesis using unat_u64_less [of al] by (simp add: word_less_nat_alt, linarith)
  qed
  have null: "p = 0 \<longrightarrow> a' = a \<and> live_fn L h' = live_fn L h"
    using arena_alloc_cases [OF L inv sz al alloc] by cases auto
  show ?thesis
  proof (cases "blocks a = [] \<or> sz > SIZE_MAX - al")
    case True
    then have "p = 0" using alloc by (auto simp: arena_alloc_Nil arena_alloc_overflow)
    with True null over show ?thesis by blast
  next
    case False
    then obtain bs where bs: "blocks a = bs @ [b]" and guard: "\<not> sz > SIZE_MAX - al"
      by (metis b_def append_butlast_last_id)
    show ?thesis
    proof (cases "align_up (data b + used b) al - (data b + used b) + sz \<le> capacity b - used b")
      case True
      with alloc have "p = align_up (data b + used b) al"
        by (simp add: arena_alloc_fast [OF bs guard True])
      with bump_last(4) [OF inv bs sz al guard True] null True bs guard over show ?thesis by auto
    next
      case fits: False
      obtain ok h1 a1 where add: "addBlock L (sz + al) (h, a) = (ok, h1, a1)" by (metis prod_cases3)
      note okm = addBlock_malloc [OF add]
      have "p = 0 \<longleftrightarrow> \<not> ok"
      proof (cases ok)
        case False
        then show ?thesis using alloc add by (auto simp: arena_alloc_slow [OF bs guard fits])
      next
        case True
        from arena_alloc_cases [OF L inv sz al alloc] show ?thesis
          by cases (use True okm bs guard in auto)
      qed
      with okm fits bs guard over null show ?thesis by auto
    qed
  qed
qed

text \<open>
  Accounting: \<open>topo_arena_bytes_used\<close> and \<open>topo_arena_capacity\<close> never wrap (they are the exact
  sums over the blocks), the first never exceeds the second, and after \<open>topo_arena_reset\<close> no byte is
  in use and only the first block is kept.
\<close>

theorem arena_accounting:
  assumes L: "libc_ok L" and inv: "arena_inv L (h, a)"
    and reset: "topo_arena_reset L (h, Some a) = (h', Some a')"
  shows "unat (topo_arena_capacity (Some a)) = (\<Sum>b\<leftarrow>blocks a. unat (capacity b)) \<and>
    unat (topo_arena_bytes_used (Some a)) = (\<Sum>b\<leftarrow>blocks a. unat (used b)) \<and>
    topo_arena_bytes_used (Some a) \<le> topo_arena_capacity (Some a) \<and>
    topo_arena_bytes_used (Some a') = 0 \<and>
    topo_arena_capacity (Some a') = (case blocks a of [] \<Rightarrow> 0 | b # _ \<Rightarrow> capacity b) \<and>
    claimed a' = {} \<and> arena_inv L (h', a') \<and>
    (\<forall>b\<in>set (tl (blocks a)). live_fn L h' (data b) = None)"
proof -
  from reset have r: "arena_reset L (h, a) = (h', a')"
    by (cases "arena_reset L (h, a)") (simp add: topo_arena_reset_def)
  have "arena_inv L (h', a')" using arena_inv_reset [OF L inv] r by simp
  with accounting [OF inv] r show ?thesis
    by (cases "blocks a")
      (auto simp: arena_reset_def topo_arena_capacity_def topo_arena_bytes_used_def bytesUsed_def
        totalCapacity_def claimed_def region_def live_free_all [OF L])
qed

theorem arena_accounting_witness:
  "let a = \<lparr>blocks = [\<lparr>data = 4096, capacity = 64, used = 27\<rparr>, \<lparr>data = 4161, capacity = 80, used = 80\<rparr>],
            defaultBlockSize = 64\<rparr>
   in topo_arena_bytes_used (Some a) \<le> topo_arena_capacity (Some a) \<and>
      topo_arena_bytes_used (snd (topo_arena_reset list_libc ([(4161, 80), (4096, 64)], Some a))) = 0"
proof -
  let ?a = "\<lparr>blocks = [\<lparr>data = 4096, capacity = 64, used = 27\<rparr>, \<lparr>data = 4161, capacity = 80, used = 80\<rparr>],
            defaultBlockSize = 64\<rparr>"
  have inv: "arena_inv list_libc ([(4161, 80), (4096, 64)], ?a)"
    by (simp add: arena_inv_def block_ok_def list_libc_def block_region_def region_def)
  have reset: "topo_arena_reset list_libc ([(4161, 80), (4096, 64)], Some ?a) =
      ([(4096, 64)], Some \<lparr>blocks = [\<lparr>data = 4096, capacity = 64, used = 0\<rparr>], defaultBlockSize = 64\<rparr>)"
    by (simp add: topo_arena_reset_def arena_reset_def free_all_def list_libc_def)
  from arena_accounting [OF list_libc_ok inv reset] reset show ?thesis by simp
qed

text \<open>
  \<open>topo_arena_create\<close> ignores the result of the first \<open>addBlock\<close>: when \<open>malloc\<close> fails it still returns
  a handle, of an arena without blocks on which every allocation fails.
\<close>

lemma arena_create_without_block:
  assumes m: "malloc_fn L (if n = 0 then 4096 else n) h = (0, h')"
  shows "topo_arena_create L True n h =
      (Some \<lparr>blocks = [], defaultBlockSize = (if n = 0 then 4096 else n)\<rparr>, h') \<and>
    fst (topo_arena_alloc L ma sz al (g, Some \<lparr>blocks = [], defaultBlockSize = d\<rparr>)) = 0"
  using m by (cases "n = 0") (simp_all add: topo_arena_create_def addBlock_def topo_arena_alloc_def arena_alloc_Nil)

end
