(* ===== verification/PassEvent.thy ===== *)
theory PassEvent
  imports StdFile
begin

text \<open>
  runtime/topo_pass_event.cpp: the NDJSON records a transform pass emits while the program runs.
  \<open>emitRecord\<close> is the shaper behind both entry points; the wall clock is an argument. The lemmas
  give the record back from the reference reader and the records from the lines of the stream.
\<close>

section \<open>The emitter\<close>

abbreviation (input) TOPO_PASS_EVENT_ABI_VERSION :: u32 where "TOPO_PASS_EVENT_ABI_VERSION \<equiv> 1"

definition topo_pass_event_version :: u32 where
  "topo_pass_event_version = TOPO_PASS_EVENT_ABI_VERSION"

text \<open>\<open>subject && subject[0] != 0\<close>.\<close>

definition hasSubject :: "string option \<Rightarrow> bool" where
  "hasSubject subject =
     (case subject of None \<Rightarrow> False | Some [] \<Rightarrow> False | Some (c # _) \<Rightarrow> c \<noteq> CHR 0x00)"

definition emitRecord ::
  "u64 \<Rightarrow> string option \<Rightarrow> string option \<Rightarrow> string option \<Rightarrow> string option \<Rightarrow> bool \<Rightarrow> u64 \<Rightarrow>
   std_file \<Rightarrow> std_file" where
  \<open>emitRecord epochNs pass src_state dst_state subject hasBytes bytes stdout0 =
     (let f = fputs ''{"kind":"pass_event","pass":'' stdout0;
          f = fputs (writeJsonString pass) f;
          f = fputs '',"from":'' f;
          f = fputs (writeJsonString src_state) f;
          f = fputs '',"to":'' f;
          f = fputs (writeJsonString dst_state) f;
          f = (if hasSubject subject
               then fputs (writeJsonString subject) (fputs '',"subject":'' f) else f);
          f = (if hasBytes then fputs ('',"bytes":'' @ show_s64 bytes) f else f);
          f = fputs ('',"ts_ns":'' @ show_s64 epochNs @ ''}'' @ [newline]) f
      in fflush f)\<close>

definition topo_pass_event_emit ::
  "u64 \<Rightarrow> string option \<Rightarrow> string option \<Rightarrow> string option \<Rightarrow> string option \<Rightarrow> std_file \<Rightarrow> std_file" where
  "topo_pass_event_emit epochNs pass src_state dst_state subject = emitRecord epochNs pass src_state dst_state subject False 0"

definition topo_pass_event_emit_sized ::
  "u64 \<Rightarrow> string option \<Rightarrow> string option \<Rightarrow> string option \<Rightarrow> string option \<Rightarrow> u64 \<Rightarrow> std_file \<Rightarrow> std_file" where
  "topo_pass_event_emit_sized epochNs pass src_state dst_state subject bytes =
     emitRecord epochNs pass src_state dst_state subject True bytes"

section \<open>What a consumer reads\<close>

text \<open>A call of one of the two entry points, and the JSON object the header documents for it.\<close>

record pass_call =
  ev_pass :: "string option"
  ev_from :: "string option"
  ev_to :: "string option"
  ev_subject :: "string option"
  ev_bytes :: "u64 option"
  ev_ts :: u64

definition emit_call :: "pass_call \<Rightarrow> std_file \<Rightarrow> std_file" where
  "emit_call e f =
     (case ev_bytes e of
        None \<Rightarrow> topo_pass_event_emit (ev_ts e) (ev_pass e) (ev_from e) (ev_to e) (ev_subject e) f
      | Some b \<Rightarrow> topo_pass_event_emit_sized (ev_ts e) (ev_pass e) (ev_from e) (ev_to e) (ev_subject e) b f)"

definition event_json :: "pass_call \<Rightarrow> json" where
  "event_json e = JObj
     ([(''kind'', JStr ''pass_event''),
       (''pass'', JStr (c_string (ev_pass e))),
       (''from'', JStr (c_string (ev_from e))),
       (''to'', JStr (c_string (ev_to e)))]
      @ (if c_string (ev_subject e) = [] then [] else [(''subject'', JStr (c_string (ev_subject e)))])
      @ (case ev_bytes e of None \<Rightarrow> [] | Some b \<Rightarrow> [(''bytes'', JInt (sint b))])
      @ [(''ts_ns'', JInt (sint (ev_ts e)))])"

text \<open>The line of a call: the text without its newline.\<close>

definition record_members :: "pass_call \<Rightarrow> string list" where
  \<open>record_members e =
     [''"kind":"pass_event"'',
      ''"pass":'' @ writeJsonString (ev_pass e),
      ''"from":'' @ writeJsonString (ev_from e),
      ''"to":'' @ writeJsonString (ev_to e)]
     @ (if hasSubject (ev_subject e) then [''"subject":'' @ writeJsonString (ev_subject e)] else [])
     @ (case ev_bytes e of None \<Rightarrow> [] | Some b \<Rightarrow> [''"bytes":'' @ show_s64 b])
     @ [''"ts_ns":'' @ show_s64 (ev_ts e)]\<close>

definition record_line :: "pass_call \<Rightarrow> string" where
  "record_line e = CHR 0x7B # comma_loop True (record_members e) @ [CHR 0x7D]"

lemma hasSubject_iff: "hasSubject s \<longleftrightarrow> c_string s \<noteq> []"
  by (auto simp: hasSubject_def c_string_def split: option.splits list.splits)

lemma comma_loop_append:
  "xs \<noteq> [] \<Longrightarrow> comma_loop first (xs @ ys) = comma_loop first xs @ comma_loop False ys"
  by (induction xs arbitrary: first) (auto simp: neq_Nil_conv, (case_tac xs; simp)+)

lemma emit_call_written: "written (emit_call e f) = written f @ record_line e @ [newline]"
  by (cases "ev_bytes e")
    (simp_all add: emit_call_def topo_pass_event_emit_def topo_pass_event_emit_sized_def
      emitRecord_def Let_def record_line_def record_members_def)

lemma emit_call_flushed: "pending (emit_call e f) = [] \<and> sink (emit_call e f) = written (emit_call e f)"
  by (cases "ev_bytes e")
    (simp_all add: emit_call_def topo_pass_event_emit_def topo_pass_event_emit_sized_def
      emitRecord_def Let_def written_def [of "fflush _"])

lemma comma_loop_no_newline:
  "\<forall>e\<in>set es. printable e \<Longrightarrow> printable (comma_loop first es)"
  by (induction es arbitrary: first) auto

lemma record_line_printable: "printable (record_line e)"
  unfolding record_line_def record_members_def
  by (auto intro!: comma_loop_no_newline split: option.splits)

text \<open>The literal keys of the record, as the reader sees them.\<close>

lemma literal_keys [simp]:
  \<open>read_string (''"kind"'' @ r) = Some (''kind'', r)\<close>
  \<open>read_string (''"pass"'' @ r) = Some (''pass'', r)\<close>
  \<open>read_string (''"from"'' @ r) = Some (''from'', r)\<close>
  \<open>read_string (''"to"'' @ r) = Some (''to'', r)\<close>
  \<open>read_string (''"subject"'' @ r) = Some (''subject'', r)\<close>
  \<open>read_string (''"bytes"'' @ r) = Some (''bytes'', r)\<close>
  \<open>read_string (''"ts_ns"'' @ r) = Some (''ts_ns'', r)\<close>
  by (simp_all add: read_string_def)

lemma reads_kind: \<open>reads ''"pass_event"'' (JStr ''pass_event'')\<close>
  using reads_writeJsonString [of "Some ''pass_event''"]
  by (simp add: writeJsonString_def c_string_def json_escape_char_def)

lemma members_read:
  assumes "reads v x"
  shows
    \<open>reads_member (''"kind":'' @ v) (''kind'', x)\<close>
    \<open>reads_member (''"pass":'' @ v) (''pass'', x)\<close>
    \<open>reads_member (''"from":'' @ v) (''from'', x)\<close>
    \<open>reads_member (''"to":'' @ v) (''to'', x)\<close>
    \<open>reads_member (''"subject":'' @ v) (''subject'', x)\<close>
    \<open>reads_member (''"bytes":'' @ v) (''bytes'', x)\<close>
    \<open>reads_member (''"ts_ns":'' @ v) (''ts_ns'', x)\<close>
  using reads_memberI [OF assms literal_keys(1)] reads_memberI [OF assms literal_keys(2)]
    reads_memberI [OF assms literal_keys(3)] reads_memberI [OF assms literal_keys(4)]
    reads_memberI [OF assms literal_keys(5)] reads_memberI [OF assms literal_keys(6)]
    reads_memberI [OF assms literal_keys(7)]
  by simp_all

lemma record_line_reads: "reads (record_line e) (event_json e)"
  unfolding record_line_def event_json_def record_members_def
  using members_read(1) [OF reads_kind]
    members_read(2) [OF reads_writeJsonString [of "ev_pass e"]]
    members_read(3) [OF reads_writeJsonString [of "ev_from e"]]
    members_read(4) [OF reads_writeJsonString [of "ev_to e"]]
    members_read(5) [OF reads_writeJsonString [of "ev_subject e"]]
    members_read(6) [OF reads_show_s64 [of "the (ev_bytes e)"]]
    members_read(7) [OF reads_show_s64 [of "ev_ts e"]]
  by (intro reads_object) (auto simp: hasSubject_iff split: option.splits)

section \<open>The stream of a run\<close>

lemma emit_calls_written:
  "written (fold emit_call es f) = written f @ concat (map (\<lambda>r. r @ [newline]) (map record_line es))"
  by (induction es arbitrary: f) (simp_all add: emit_call_written)

lemma emit_calls_flushed: "pending f = [] \<Longrightarrow> sink (fold emit_call es f) = written (fold emit_call es f)"
proof (induction es arbitrary: f)
  case Nil
  then show ?case by (simp add: written_def)
next
  case (Cons e es)
  then show ?case using emit_call_flushed [of e f] by simp
qed

lemma emit_calls_lines: "stream_lines (sink (fold emit_call es empty_file)) = map record_line es"
  by (subst emit_calls_flushed)
    (simp_all add: emit_calls_written stream_lines_records printable_no_newline record_line_printable
      del: map_map, simp add: empty_file_def)

text \<open>
  C18. Whatever the strings hold (quotes, backslashes, control characters, line breaks, null
  pointers), after any sequence of pass events the flushed stream has exactly one line per call,
  in the order of the calls, and the strict JSON reader reads each line completely as the object
  of that call: \<open>subject\<close> is there iff it is not empty, \<open>bytes\<close> iff the sized entry point was used.
\<close>

theorem pass_event_stream:
  "map read_json (stream_lines (sink (fold emit_call es empty_file)))
     = map (\<lambda>e. Some (event_json e, [])) es"
  using reads_read_json [OF record_line_reads, of "[]"] by (simp add: emit_calls_lines)

end
