(* ===== verification/Observe.thy ===== *)
theory Observe
  imports PassEvent Double64
begin

text \<open>
  runtime/topo_observe.cpp: trace spans. Every thread has its own span stack and random generator;
  the initialised flag, the sampling rate and the output stream are shared. The operations take
  the thread, and the readings of the clocks they make, as arguments; the random engine and the
  hash of a thread id are parameters. The lemmas show that span trees of many threads, interleaved
  in any way, are emitted in post-order and leave every stack as it was.
\<close>

section \<open>State and operations\<close>

record SpanEntry =
  se_name :: "string option"
  se_start :: u64
  se_sampled :: bool

text \<open>Time points and durations are 64-bit nanosecond counts.\<close>

record 'g trace_state =
  t_spanStack :: "nat \<Rightarrow> SpanEntry list"
  t_rng :: "nat \<Rightarrow> 'g"
  g_initialized :: bool
  g_samplingRate :: double
  trace_out :: std_file

abbreviation (input) TOPO_OBSERVE_ABI_VERSION :: u32 where "TOPO_OBSERVE_ABI_VERSION \<equiv> 1"

definition topo_trace_version :: u32 where
  "topo_trace_version = TOPO_OBSERVE_ABI_VERSION"

definition getThreadId :: "(nat \<Rightarrow> u64) \<Rightarrow> nat \<Rightarrow> u64" where
  "getThreadId hash_tid t = hash_tid t"

definition emitSpan :: "u64 \<Rightarrow> string option \<Rightarrow> u64 \<Rightarrow> u64 \<Rightarrow> std_file \<Rightarrow> std_file" where
  \<open>emitSpan epochNs name durationNs threadId stdout0 =
     (let f = fputs ''{"name":'' stdout0;
          f = fputs (writeJsonString name) f
      in fputs ('',"duration_ns":'' @ show_u64 durationNs @ '',"thread_id":'' @ show_u64 threadId
                @ '',"ts_ns":'' @ show_s64 epochNs @ ''}'' @ [newline]) f)\<close>

text \<open>\<open>dist(t_rng) < rate\<close> draws from the thread's generator; the two early returns do not.\<close>

definition shouldSample :: "('g \<Rightarrow> double \<times> 'g) \<Rightarrow> nat \<Rightarrow> 'g trace_state \<Rightarrow> bool \<times> 'g trace_state" where
  "shouldSample draw t s =
     (let rate = g_samplingRate s
      in if dle (Num 1) rate then (True, s)
         else if dle rate (Zero False) then (False, s)
         else (let (d, g) = draw (t_rng s t)
               in (dlt d rate, s\<lparr>t_rng := (t_rng s)(t := g)\<rparr>)))"

definition topo_trace_span_begin ::
  "('g \<Rightarrow> double \<times> 'g) \<Rightarrow> nat \<Rightarrow> u64 \<Rightarrow> string option \<Rightarrow> 'g trace_state \<Rightarrow> 'g trace_state" where
  "topo_trace_span_begin draw t now name s =
     (if \<not> g_initialized s then s
      else (let (sampled, s) = shouldSample draw t s;
                entry = \<lparr>se_name = name, se_start = now, se_sampled = sampled\<rparr>
            in s\<lparr>t_spanStack := (t_spanStack s)(t := t_spanStack s t @ [entry])\<rparr>))"

definition topo_trace_span_end ::
  "(nat \<Rightarrow> u64) \<Rightarrow> nat \<Rightarrow> u64 \<Rightarrow> u64 \<Rightarrow> 'g trace_state \<Rightarrow> 'g trace_state" where
  "topo_trace_span_end hash_tid t now epochNs s =
     (if \<not> g_initialized s then
        (if t_spanStack s t \<noteq> [] then s\<lparr>t_spanStack := (t_spanStack s)(t := butlast (t_spanStack s t))\<rparr> else s)
      else if t_spanStack s t = [] then s
      else
        (let entry = last (t_spanStack s t);
             s = s\<lparr>t_spanStack := (t_spanStack s)(t := butlast (t_spanStack s t))\<rparr>
         in if \<not> se_sampled entry then s
            else s\<lparr>trace_out :=
                     emitSpan epochNs (se_name entry) (now - se_start entry) (getThreadId hash_tid t) (trace_out s)\<rparr>))"

definition topo_trace_init :: "string option \<Rightarrow> double \<Rightarrow> 'g trace_state \<Rightarrow> 'g trace_state" where
  "topo_trace_init exporter sampling_rate s =
     (if g_initialized s then s
      else s\<lparr>g_initialized := True, g_samplingRate := sampling_rate\<rparr>)"

definition topo_trace_shutdown :: "'g trace_state \<Rightarrow> 'g trace_state" where
  "topo_trace_shutdown s =
     (if \<not> g_initialized s then s
      else s\<lparr>g_initialized := False, trace_out := fflush (trace_out s)\<rparr>)"

section \<open>Interleaved span trees\<close>

datatype trace_op = Begin nat u64 "string option" | End nat u64 u64

fun op_thread :: "trace_op \<Rightarrow> nat" where
  "op_thread (Begin t _ _) = t"
| "op_thread (End t _ _) = t"

fun trace_step ::
  "('g \<Rightarrow> double \<times> 'g) \<Rightarrow> (nat \<Rightarrow> u64) \<Rightarrow> trace_op \<Rightarrow> 'g trace_state \<Rightarrow> 'g trace_state" where
  "trace_step draw hash_tid (Begin t now name) s = topo_trace_span_begin draw t now name s"
| "trace_step draw hash_tid (End t now epochNs) s = topo_trace_span_end hash_tid t now epochNs s"

text \<open>A span with its clock readings and the spans inside it; the calls a thread makes for them.\<close>

datatype span_tree = Span "string option" u64 u64 u64 "span_tree list"

fun trace_of :: "nat \<Rightarrow> span_tree list \<Rightarrow> trace_op list" where
  "trace_of t [] = []"
| "trace_of t (Span name b e ep kids # ts) =
     Begin t b name # trace_of t kids @ End t e ep # trace_of t ts"

record span_rec =
  sr_thread :: nat
  sr_name :: "string option"
  sr_duration :: u64
  sr_ts :: u64

fun post_order :: "nat \<Rightarrow> span_tree list \<Rightarrow> span_rec list" where
  "post_order t [] = []"
| "post_order t (Span name b e ep kids # ts) =
     post_order t kids @
     \<lparr>sr_thread = t, sr_name = name, sr_duration = e - b, sr_ts = ep\<rparr> # post_order t ts"

definition span_members :: "(nat \<Rightarrow> u64) \<Rightarrow> span_rec \<Rightarrow> string list" where
  \<open>span_members hash_tid r =
     [''"name":'' @ writeJsonString (sr_name r),
      ''"duration_ns":'' @ show_u64 (sr_duration r),
      ''"thread_id":'' @ show_u64 (hash_tid (sr_thread r)),
      ''"ts_ns":'' @ show_s64 (sr_ts r)]\<close>

definition span_line :: "(nat \<Rightarrow> u64) \<Rightarrow> span_rec \<Rightarrow> string" where
  "span_line hash_tid r = CHR 0x7B # comma_loop True (span_members hash_tid r) @ [CHR 0x7D]"

definition span_json :: "(nat \<Rightarrow> u64) \<Rightarrow> span_rec \<Rightarrow> json" where
  "span_json hash_tid r = JObj
     [(''name'', JStr (c_string (sr_name r))),
      (''duration_ns'', JInt (uint (sr_duration r))),
      (''thread_id'', JInt (uint (hash_tid (sr_thread r)))),
      (''ts_ns'', JInt (sint (sr_ts r)))]"

lemma emitSpan_written:
  "written (emitSpan ep name d (getThreadId hash_tid t) f)
     = written f @ span_line hash_tid \<lparr>sr_thread = t, sr_name = name, sr_duration = d, sr_ts = ep\<rparr> @ [newline]"
  by (simp add: emitSpan_def span_line_def span_members_def getThreadId_def Let_def)

lemma span_line_printable: "printable (span_line hash_tid r)"
  unfolding span_line_def span_members_def by (auto intro!: comma_loop_no_newline)

lemma span_line_reads: "reads (span_line hash_tid r) (span_json hash_tid r)"
proof -
  have keys: \<open>read_string (''"name"'' @ s) = Some (''name'', s)\<close>
    \<open>read_string (''"duration_ns"'' @ s) = Some (''duration_ns'', s)\<close>
    \<open>read_string (''"thread_id"'' @ s) = Some (''thread_id'', s)\<close> for s
    by (simp_all add: read_string_def)
  show ?thesis
    unfolding span_line_def span_json_def span_members_def
    using reads_memberI [OF reads_writeJsonString [of "sr_name r"] keys(1)]
      reads_memberI [OF reads_show_u64 [of "sr_duration r"] keys(2)]
      reads_memberI [OF reads_show_u64 [of "hash_tid (sr_thread r)"] keys(3)]
      members_read(7) [OF reads_show_s64 [of "sr_ts r"]]
    by (intro reads_object) auto
qed

text \<open>What one thread's calls do to its own stack, and the records they emit.\<close>

fun thread_run :: "bool \<Rightarrow> trace_op list \<Rightarrow> SpanEntry list \<Rightarrow> SpanEntry list \<times> span_rec list" where
  "thread_run sm [] stk = (stk, [])"
| "thread_run sm (Begin t now name # ops) stk =
     thread_run sm ops (stk @ [\<lparr>se_name = name, se_start = now, se_sampled = sm\<rparr>])"
| "thread_run sm (End t now ep # ops) stk =
     (if stk = [] then thread_run sm ops stk
      else apsnd (append (if se_sampled (last stk)
                          then [\<lparr>sr_thread = t, sr_name = se_name (last stk),
                                 sr_duration = now - se_start (last stk), sr_ts = ep\<rparr>] else []))
             (thread_run sm ops (butlast stk)))"

lemma thread_run_tree:
  "thread_run sm (trace_of t ts @ rest) stk
     = apsnd (append (if sm then post_order t ts else [])) (thread_run sm rest stk)"
proof (induction t ts arbitrary: stk rest rule: trace_of.induct)
  case (1 t)
  then show ?case by (cases "thread_run sm rest stk") simp
next
  case (2 t name b e ep kids ts)
  let ?s = "stk @ [\<lparr>se_name = name, se_start = b, se_sampled = sm\<rparr>]"
  show ?case
    using "2.IH"(1) [of "End t e ep # trace_of t ts @ rest" ?s] "2.IH"(2) [of rest stk]
    by (cases sm; cases "thread_run sm rest stk") simp_all
qed

definition all_or_none :: "double \<Rightarrow> bool" where
  "all_or_none rate \<longleftrightarrow> dle (Num 1) rate \<or> dle rate (Zero False)"

lemma shouldSample_all_or_none:
  "all_or_none (g_samplingRate s) \<Longrightarrow> shouldSample draw t s = (dle (Num 1) (g_samplingRate s), s)"
  by (auto simp: shouldSample_def all_or_none_def Let_def)

lemma interleaved_run:
  assumes "g_initialized s" and "all_or_none (g_samplingRate s)"
  shows "\<exists>recs. written (trace_out (fold (trace_step draw hash_tid) ops s))
                  = written (trace_out s) @ concat (map (\<lambda>r. r @ [newline]) (map (span_line hash_tid) recs))
              \<and> (\<forall>t. (t_spanStack (fold (trace_step draw hash_tid) ops s) t, filter (\<lambda>r. sr_thread r = t) recs)
                  = thread_run (dle (Num 1) (g_samplingRate s)) (filter (\<lambda>x. op_thread x = t) ops) (t_spanStack s t))"
  using assms
proof (induction ops arbitrary: s)
  case Nil
  show ?case by (rule exI [of _ "[]"]) simp
next
  case (Cons x ops)
  let ?rate = "g_samplingRate s" and ?s' = "trace_step draw hash_tid x s"
  let ?own = "t_spanStack s (op_thread x)"
  define new where "new = (case x of Begin t now name \<Rightarrow> [] | End t now ep \<Rightarrow>
      if ?own = [] \<or> \<not> se_sampled (last ?own) then []
      else [\<lparr>sr_thread = t, sr_name = se_name (last ?own), sr_duration = now - se_start (last ?own), sr_ts = ep\<rparr>])"
  have keep: "g_initialized ?s' \<and> g_samplingRate ?s' = ?rate"
    using Cons.prems by (cases x)
      (auto simp: topo_trace_span_begin_def topo_trace_span_end_def shouldSample_all_or_none Let_def)
  with Cons obtain recs where recs:
    "written (trace_out (fold (trace_step draw hash_tid) ops ?s'))
       = written (trace_out ?s') @ concat (map (\<lambda>r. r @ [newline]) (map (span_line hash_tid) recs))"
    "\<And>t. (t_spanStack (fold (trace_step draw hash_tid) ops ?s') t, filter (\<lambda>r. sr_thread r = t) recs)
       = thread_run (dle (Num 1) ?rate) (filter (\<lambda>x. op_thread x = t) ops) (t_spanStack ?s' t)"
    by metis
  have out: "written (trace_out ?s')
      = written (trace_out s) @ concat (map (\<lambda>r. r @ [newline]) (map (span_line hash_tid) new))"
    using Cons.prems by (cases x)
      (auto simp: topo_trace_span_begin_def topo_trace_span_end_def shouldSample_all_or_none Let_def
        new_def emitSpan_written)
  have stk: "(t_spanStack (fold (trace_step draw hash_tid) ops ?s') t, filter (\<lambda>r. sr_thread r = t) (new @ recs))
      = thread_run (dle (Num 1) ?rate) (filter (\<lambda>x. op_thread x = t) (x # ops)) (t_spanStack s t)" for t
    using recs(2) [of t] Cons.prems
    by (cases x; cases "thread_run (dle (Num 1) ?rate) (filter (\<lambda>x. op_thread x = t) ops) (t_spanStack ?s' t)")
      (auto simp: topo_trace_span_begin_def topo_trace_span_end_def shouldSample_all_or_none Let_def new_def)
  show ?case
    by (rule exI [of _ "new @ recs"]) (use recs(1) out stk in simp)
qed

text \<open>Every line of a span is one the JSON reader reads as the record.\<close>

lemma span_line_round_trip:
  "read_json (span_line hash_tid r) = Some (span_json hash_tid r, []) \<and> newline \<notin> set (span_line hash_tid r)"
  using reads_read_json [OF span_line_reads, of "[]" hash_tid r] span_line_printable
  by (simp add: printable_no_newline)

text \<open>
  C16. Threads whose calls are well-nested span trees, interleaved in any order, with tracing
  initialised and a rate that keeps all or no spans: afterwards every thread's stack is what it was,
  the bytes added to the output are one line per span, each of which reads back as its record, and
  the records of each thread are its span trees in post-order, a child before the span around it (none of
  them at a rate of zero). A record has no reference to the span around it: its name, duration,
  thread and time are all it carries.
\<close>

theorem interleaved_span_trees:
  assumes "g_initialized s" and "all_or_none (g_samplingRate s)"
    and "\<And>t. filter (\<lambda>x. op_thread x = t) ops = trace_of t (forest t)"
  shows "\<exists>recs.
      written (trace_out (fold (trace_step draw hash_tid) ops s))
        = written (trace_out s) @ concat (map (\<lambda>r. r @ [newline]) (map (span_line hash_tid) recs))
    \<and> t_spanStack (fold (trace_step draw hash_tid) ops s) = t_spanStack s
    \<and> (\<forall>t. filter (\<lambda>r. sr_thread r = t) recs
             = (if dle (Num 1) (g_samplingRate s) then post_order t (forest t) else []))
    \<and> (\<forall>r\<in>set recs. read_json (span_line hash_tid r) = Some (span_json hash_tid r, [])
          \<and> newline \<notin> set (span_line hash_tid r))"
proof -
  obtain recs where recs:
    "written (trace_out (fold (trace_step draw hash_tid) ops s))
       = written (trace_out s) @ concat (map (\<lambda>r. r @ [newline]) (map (span_line hash_tid) recs))"
    "\<And>t. (t_spanStack (fold (trace_step draw hash_tid) ops s) t, filter (\<lambda>r. sr_thread r = t) recs)
       = thread_run (dle (Num 1) (g_samplingRate s)) (trace_of t (forest t)) (t_spanStack s t)"
    using interleaved_run [OF assms(1,2), of draw hash_tid ops] assms(3) by metis
  have "thread_run sm (trace_of t (forest t)) stk = (stk, if sm then post_order t (forest t) else [])" for sm t stk
    using thread_run_tree [of sm t "forest t" "[]" stk] by simp
  with recs show ?thesis by (intro exI [of _ recs]) (auto simp: span_line_round_trip)
qed

definition two_threads :: "trace_op list" where
  "two_threads =
     [Begin 1 10 (Some ''a''), Begin 2 11 (Some ''b''), Begin 1 12 None, End 2 15 0, End 1 20 0, End 1 30 0]"

definition trace_ready :: "unit trace_state" where
  "trace_ready = \<lparr>t_spanStack = (\<lambda>t. []), t_rng = (\<lambda>t. ()), g_initialized = True,
     g_samplingRate = Num 1, trace_out = empty_file\<rparr>"

theorem interleaved_span_trees_witness:
  "\<exists>recs. written (trace_out (fold (trace_step (\<lambda>g. (Num (1/2), g)) (\<lambda>t. 7)) two_threads trace_ready))
        = concat (map (\<lambda>r. r @ [newline]) (map (span_line (\<lambda>t. 7)) recs)) \<and>
     filter (\<lambda>r. sr_thread r = 1) recs =
       [\<lparr>sr_thread = 1, sr_name = None, sr_duration = 8, sr_ts = 0\<rparr>,
        \<lparr>sr_thread = 1, sr_name = Some ''a'', sr_duration = 20, sr_ts = 0\<rparr>]"
proof -
  define forest :: "nat \<Rightarrow> span_tree list" where
    "forest t = (if t = 1 then [Span (Some ''a'') 10 30 0 [Span None 12 20 0 []]]
                 else if t = 2 then [Span (Some ''b'') 11 15 0 []] else [])" for t
  have "filter (\<lambda>x. op_thread x = t) two_threads = trace_of t (forest t)" for t
    by (simp add: two_threads_def forest_def)
  then have "\<exists>recs. written (trace_out (fold (trace_step (\<lambda>g. (Num (1/2), g)) (\<lambda>t. 7)) two_threads trace_ready))
        = written (trace_out trace_ready) @ concat (map (\<lambda>r. r @ [newline]) (map (span_line (\<lambda>t. 7)) recs))
      \<and> t_spanStack (fold (trace_step (\<lambda>g. (Num (1/2), g)) (\<lambda>t. 7)) two_threads trace_ready) = t_spanStack trace_ready
      \<and> (\<forall>t. filter (\<lambda>r. sr_thread r = t) recs
              = (if dle (Num 1) (g_samplingRate trace_ready) then post_order t (forest t) else []))
      \<and> (\<forall>r\<in>set recs. read_json (span_line (\<lambda>t. 7) r) = Some (span_json (\<lambda>t. 7) r, [])
            \<and> newline \<notin> set (span_line (\<lambda>t. 7) r))"
    by (intro interleaved_span_trees) (simp_all add: trace_ready_def all_or_none_def)
  moreover have "post_order 1 (forest 1) = [\<lparr>sr_thread = 1, sr_name = None, sr_duration = 8, sr_ts = 0\<rparr>,
        \<lparr>sr_thread = 1, sr_name = Some ''a'', sr_duration = 20, sr_ts = 0\<rparr>]"
    by (simp add: forest_def)
  moreover have "dle (Num 1) (g_samplingRate trace_ready)" and "written (trace_out trace_ready) = []"
    by (simp_all add: trace_ready_def)
  ultimately show ?thesis by (metis append_Nil)
qed

section \<open>Lifecycle\<close>

text \<open>
  Once \<open>topo_trace_shutdown\<close> returns, tracing is off, every byte written before is visible to a
  reader of the descriptor, and no later sequence of span calls writes anything or grows a stack.
\<close>

theorem shutdown_silences:
  assumes "g_initialized s"
  shows "let s' = fold (trace_step draw hash_tid) ops (topo_trace_shutdown s)
         in \<not> g_initialized s' \<and> sink (trace_out s') = written (trace_out s) \<and> pending (trace_out s') = []
            \<and> (\<forall>t. \<exists>n. t_spanStack s' t = take n (t_spanStack s t))"
proof -
  have step: "\<not> g_initialized (trace_step draw hash_tid x s) \<and> trace_out (trace_step draw hash_tid x s) = trace_out s
      \<and> (\<forall>t. \<exists>n. t_spanStack (trace_step draw hash_tid x s) t = take n (t_spanStack s t))"
    if "\<not> g_initialized s" for x and s :: "'a trace_state"
  proof -
    have "\<exists>n. stk = take n stk" and "\<exists>n. butlast stk = take n stk" for stk :: "SpanEntry list"
      by (metis take_all_iff le_refl) (metis butlast_conv_take)
    with that show ?thesis
      by (cases x) (auto simp: topo_trace_span_begin_def topo_trace_span_end_def)
  qed
  have run: "\<not> g_initialized (fold (trace_step draw hash_tid) ops s) \<and>
      trace_out (fold (trace_step draw hash_tid) ops s) = trace_out s \<and>
      (\<forall>t. \<exists>n. t_spanStack (fold (trace_step draw hash_tid) ops s) t = take n (t_spanStack s t))"
    if "\<not> g_initialized s" for s :: "'a trace_state"
    using that
  proof (induction ops arbitrary: s)
    case Nil
    have "\<exists>n. stk = take n stk" for stk :: "SpanEntry list" by (metis take_all_iff le_refl)
    with Nil show ?case by simp
  next
    case (Cons x ops)
    then show ?case using step [OF Cons.prems, of x] by simp (metis take_take)
  qed
  with assms show ?thesis
    using run [of "topo_trace_shutdown s"] by (simp add: topo_trace_shutdown_def Let_def)
qed

theorem shutdown_silences_witness:
  "let s' = fold (trace_step (\<lambda>g. (Num (1/2), g)) (\<lambda>t. 7)) [Begin 1 10 None, End 1 12 0] (topo_trace_shutdown trace_ready)
   in \<not> g_initialized s' \<and> sink (trace_out s') = written (trace_out trace_ready)"
  using shutdown_silences [of trace_ready "\<lambda>g. (Num (1/2), g)" "\<lambda>t. 7" "[Begin 1 10 None, End 1 12 0]"]
  by (simp add: trace_ready_def Let_def)

text \<open>
  The pop that \<open>topo_trace_span_end\<close> makes while tracing is off takes an entry whose own end is still
  to come when the pair around it began after the shutdown: here the span \<open>outer\<close> is lost although
  its begin and end are both made with tracing on.
\<close>

definition off_pair :: "'g trace_state \<Rightarrow> ('g \<Rightarrow> double \<times> 'g) \<Rightarrow> (nat \<Rightarrow> u64) \<Rightarrow> 'g trace_state" where
  "off_pair s draw hash_tid =
     topo_trace_span_end hash_tid 1 50 0
       (topo_trace_init None (Num 1)
         (topo_trace_span_end hash_tid 1 40 0
           (topo_trace_span_begin draw 1 30 (Some ''inner'')
             (topo_trace_shutdown
               (topo_trace_span_begin draw 1 10 (Some ''outer'') s)))))"

text \<open>
  A begin/end pair made while tracing is off is not neutral: with a span open across a
  shutdown and a second init, the pair pops that span, and its own end then emits nothing.
\<close>

theorem off_pair_loses_open_span:
  "written (trace_out (off_pair trace_ready draw hash_tid)) = []
   \<and> g_initialized (off_pair trace_ready draw hash_tid)"
  by (simp add: off_pair_def trace_ready_def topo_trace_span_begin_def topo_trace_span_end_def
      topo_trace_init_def topo_trace_shutdown_def shouldSample_def Let_def)

end
