(* ===== verification/Containment.thy ===== *)
theory Containment
  imports StdFile
begin

text \<open>
  runtime/topo_containment.cpp: the store of containment violations behind the calls the
  interception pass injects. Recording, counting, dumping and resetting are all done under one
  mutex, so each is one step. The lemmas tie the store to the calls made, and the dump at exit to
  the store; the array of the dump is read with the reference reader after dropping the white
  space outside its strings.
\<close>

section \<open>State and operations\<close>

record ViolationEntry =
  v_caller :: string
  v_callee :: string

record containment_state =
  g_violations :: "ViolationEntry list"
  g_atexitRegistered :: bool
  atexit_handlers :: nat
  cont_err :: std_file

text \<open>\<open>atexit_handlers\<close> counts the registrations of \<open>__topo_containment_dump\<close> with \<open>std::atexit\<close>.\<close>

abbreviation (input) TOPO_CONTAINMENT_ABI_VERSION :: u32 where "TOPO_CONTAINMENT_ABI_VERSION \<equiv> 1"

definition topo_containment_version :: u32 where
  "topo_containment_version = TOPO_CONTAINMENT_ABI_VERSION"

definition name_or_unknown :: "string option \<Rightarrow> string" where
  "name_or_unknown s = (case s of None \<Rightarrow> ''<unknown>'' | Some _ \<Rightarrow> c_string s)"

definition topo_containment_violation ::
  "string option \<Rightarrow> string option \<Rightarrow> containment_state \<Rightarrow> containment_state" where
  "topo_containment_violation caller callee s =
     (let s = (if g_atexitRegistered s then s
               else s\<lparr>g_atexitRegistered := True, atexit_handlers := Suc (atexit_handlers s)\<rparr>)
      in s\<lparr>g_violations := g_violations s @
             [\<lparr>v_caller = name_or_unknown caller, v_callee = name_or_unknown callee\<rparr>]\<rparr>)"

text \<open>\<open>static_cast<int>\<close> of a \<open>size_t\<close>: the low 32 bits, signed.\<close>

definition topo_containment_get_violation_count :: "containment_state \<Rightarrow> int" where
  "topo_containment_get_violation_count s = sint (word_of_nat (length (g_violations s)) :: u32)"

definition dump_entry :: "bool \<Rightarrow> ViolationEntry \<Rightarrow> string" where
  \<open>dump_entry comma v =
     ''  {"caller": "'' @ v_caller v @ ''", "callee": "'' @ v_callee v @ ''"}''
     @ (if comma then '','' else []) @ [newline]\<close>

text \<open>The loop: \<open>i + 1 < size\<close> decides the comma.\<close>

fun dump_entries :: "ViolationEntry list \<Rightarrow> string" where
  "dump_entries [] = []"
| "dump_entries (v # vs) = dump_entry (vs \<noteq> []) v @ dump_entries vs"

definition dump_array :: "ViolationEntry list \<Rightarrow> string" where
  "dump_array vs = CHR 0x5B # newline # dump_entries vs @ [CHR 0x5D, newline]"

definition topo_containment_dump :: "containment_state \<Rightarrow> containment_state" where
  "topo_containment_dump s =
     (if g_violations s = [] then s
      else
        (let f = fputs (newline # ''=== Topo Containment Violations ==='' @ [newline]) (cont_err s);
             f = fputs (dump_array (g_violations s)) f;
             f = fputs (''Total violations: '' @ show_nat (length (g_violations s)) @ [newline]) f
         in s\<lparr>cont_err := f\<rparr>))"

definition topo_containment_reset :: "containment_state \<Rightarrow> containment_state" where
  "topo_containment_reset s = s\<lparr>g_violations := []\<rparr>"

definition containment_start :: containment_state where
  "containment_start =
     \<lparr>g_violations = [], g_atexitRegistered = False, atexit_handlers = 0, cont_err = empty_file\<rparr>"

section \<open>The store\<close>

datatype containment_op = Violation "string option" "string option" | Reset

fun containment_step :: "containment_op \<Rightarrow> containment_state \<Rightarrow> containment_state" where
  "containment_step (Violation caller callee) s = topo_containment_violation caller callee s"
| "containment_step Reset s = topo_containment_reset s"

text \<open>The violations of a sequence of calls: those after the last reset.\<close>

fun recorded :: "containment_op list \<Rightarrow> ViolationEntry list \<Rightarrow> ViolationEntry list" where
  "recorded [] vs = vs"
| "recorded (Violation caller callee # ops) vs =
     recorded ops (vs @ [\<lparr>v_caller = name_or_unknown caller, v_callee = name_or_unknown callee\<rparr>])"
| "recorded (Reset # ops) vs = recorded ops []"

lemma containment_run:
  "g_violations (fold containment_step ops s) = recorded ops (g_violations s)"
  by (induction ops "g_violations s" arbitrary: s rule: recorded.induct)
    (simp_all add: topo_containment_violation_def topo_containment_reset_def Let_def)

definition has_violation :: "containment_op list \<Rightarrow> bool" where
  "has_violation ops \<longleftrightarrow> (\<exists>x\<in>set ops. x \<noteq> Reset)"

lemma containment_handlers:
  "atexit_handlers (fold containment_step ops s)
     = (if g_atexitRegistered s \<or> \<not> has_violation ops then atexit_handlers s else Suc (atexit_handlers s))
   \<and> g_atexitRegistered (fold containment_step ops s) = (g_atexitRegistered s \<or> has_violation ops)"
proof (induction ops arbitrary: s)
  case Nil
  then show ?case by (simp add: has_violation_def)
next
  case (Cons x ops)
  then show ?case
    by (cases x)
      (auto simp: has_violation_def topo_containment_violation_def topo_containment_reset_def Let_def)
qed

lemma containment_count:
  assumes "length (g_violations s) < 2 ^ 31"
  shows "topo_containment_get_violation_count s = int (length (g_violations s))"
  using assms
  by (simp add: topo_containment_get_violation_count_def signed_of_nat signed_take_bit_int_eq_self)

section \<open>The dump as JSON\<close>

text \<open>JSON text without the insignificant white space.\<close>

definition is_ws :: "char \<Rightarrow> bool" where
  "is_ws c \<longleftrightarrow> c = CHR '' '' \<or> c = newline \<or> c = CHR 0x0D \<or> c = CHR 0x09"

fun compact :: "bool \<Rightarrow> string \<Rightarrow> string" where
  "compact in_str [] = []"
| "compact False (c # cs) =
     (if c = quote then c # compact True cs
      else if is_ws c then compact False cs else c # compact False cs)"
| "compact True (c # cs) =
     (if c = quote then c # compact False cs
      else if c = bslash then (case cs of [] \<Rightarrow> [c] | d # ds \<Rightarrow> c # d # compact True ds)
      else c # compact True cs)"

definition json_safe :: "string \<Rightarrow> bool" where
  "json_safe s \<longleftrightarrow> (\<forall>c\<in>set s. (0x20::nat) \<le> of_char c \<and> c \<noteq> quote \<and> c \<noteq> bslash)"

definition violation_json :: "ViolationEntry \<Rightarrow> json" where
  "violation_json v = JObj [(''caller'', JStr (v_caller v)), (''callee'', JStr (v_callee v))]"

definition violation_text :: "ViolationEntry \<Rightarrow> string" where
  \<open>violation_text v = CHR 0x7B # comma_loop True
     [''"caller":"'' @ v_caller v @ ''"'', ''"callee":"'' @ v_callee v @ ''"''] @ [CHR 0x7D]\<close>

lemma compact_safe: "json_safe s \<Longrightarrow> compact True (s @ quote # r) = s @ quote # compact False r"
  by (induction s) (auto simp: json_safe_def)

lemma json_body_safe: "json_safe s \<Longrightarrow> json_body (s @ quote # r) = Some (s, r)"
  by (induction s) (auto simp: json_safe_def)

lemma dump_entry_compact:
  assumes "json_safe (v_caller v)" and "json_safe (v_callee v)"
  shows "compact False (dump_entry comma v @ r) = violation_text v @ (if comma then '','' else []) @ compact False r"
  using assms by (simp add: dump_entry_def violation_text_def compact_safe is_ws_def)

lemma dump_entries_compact:
  assumes "\<forall>v\<in>set vs. json_safe (v_caller v) \<and> json_safe (v_callee v)"
  shows "compact False (dump_entries vs @ r) = comma_loop True (map violation_text vs) @ compact False r"
  using assms
proof (induction vs)
  case Nil
  then show ?case by simp
next
  case (Cons v vs)
  then show ?case by (cases vs) (simp_all add: dump_entry_compact)
qed

lemma reads_safe:
  assumes "json_safe s"
  shows "reads (quote # s @ [quote]) (JStr s)"
  unfolding reads_opt_def
proof (intro allI impI)
  fix n :: nat and rest
  assume "length (quote # s @ [quote]) < n"
  then obtain m where "n = Suc m" by (cases n) auto
  with assms show "parse_val n ((quote # s @ [quote]) @ rest) = map_option (\<lambda>v. (v, rest)) (Some (JStr s))"
    by (simp add: json_body_safe)
qed

lemma violation_text_reads:
  assumes "json_safe (v_caller v)" and "json_safe (v_callee v)"
  shows "reads (violation_text v) (violation_json v)"
proof -
  have keys: \<open>read_string (''"caller"'' @ s) = Some (''caller'', s)\<close>
    \<open>read_string (''"callee"'' @ s) = Some (''callee'', s)\<close> for s
    by (simp_all add: read_string_def)
  show ?thesis
    unfolding violation_text_def violation_json_def
    using reads_memberI [OF reads_safe [OF assms(1)] keys(1)] reads_memberI [OF reads_safe [OF assms(2)] keys(2)]
    by (intro reads_object) auto
qed

lemma dump_array_reads:
  assumes "\<forall>v\<in>set vs. json_safe (v_caller v) \<and> json_safe (v_callee v)"
  shows "read_json (compact False (dump_array vs)) = Some (JArr (map violation_json vs), [])"
proof -
  have "compact False (dump_array vs) = (CHR 0x5B # comma_loop True (map violation_text vs) @ [CHR 0x5D]) @ []"
    using dump_entries_compact [OF assms, of "[CHR 0x5D, newline]"] by (simp add: dump_array_def is_ws_def)
  moreover have "list_all2 reads (map violation_text vs) (map violation_json vs)"
    using assms by (auto simp: list_all2_conv_all_nth intro!: violation_text_reads)
  ultimately show ?thesis using reads_read_json [OF reads_array, of _ _ "[]"] by simp
qed

text \<open>
  After any sequence of violations and resets with JSON-safe names, the dump handler is
  registered with \<open>atexit\<close> exactly once iff a violation was ever recorded, the count is the number
  of violations since the last reset, and the array the dump writes reads back as exactly those
  violations, in order, null names as \<open><unknown>\<close>.
\<close>

theorem containment_dump_complete:
  assumes "s = fold containment_step ops containment_start"
    and "\<forall>v\<in>set (recorded ops []). json_safe (v_caller v) \<and> json_safe (v_callee v)"
    and "recorded ops [] \<noteq> []" and "length (recorded ops []) < 2 ^ 31"
  shows "atexit_handlers s = 1
     \<and> topo_containment_get_violation_count s = int (length (recorded ops []))
     \<and> (\<exists>pre post. written (cont_err (topo_containment_dump s)) = pre @ dump_array (recorded ops []) @ post)
     \<and> read_json (compact False (dump_array (recorded ops [])))
         = Some (JArr (map violation_json (recorded ops [])), [])"
proof -
  have vs: "g_violations s = recorded ops []" using assms(1) by (simp add: containment_run containment_start_def)
  have "has_violation ops"
  proof (rule ccontr)
    assume "\<not> has_violation ops"
    then have "recorded ops [] = []" by (induction ops) (auto simp: has_violation_def)
    with assms(3) show False by simp
  qed
  then have "atexit_handlers s = 1" using assms(1) containment_handlers [of ops containment_start]
    by (simp add: containment_start_def)
  moreover have "written (cont_err (topo_containment_dump s))
      = (written (cont_err s) @ newline # ''=== Topo Containment Violations ==='' @ [newline])
        @ dump_array (recorded ops [])
        @ (''Total violations: '' @ show_nat (length (recorded ops [])) @ [newline])"
    using assms(3) vs by (simp add: topo_containment_dump_def Let_def)
  ultimately show ?thesis
    using assms(4) vs containment_count [of s] dump_array_reads [OF assms(2)] by metis
qed

theorem containment_dump_complete_witness:
  "let ops = [Violation (Some ''a'') (Some ''open''), Reset, Violation (Some ''f'') None, Violation (Some ''g'') (Some ''exec'')];
       s = fold containment_step ops containment_start
   in atexit_handlers s = 1 \<and> topo_containment_get_violation_count s = 2
    \<and> read_json (compact False (dump_array (recorded ops [])))
        = Some (JArr [violation_json \<lparr>v_caller = ''f'', v_callee = ''<unknown>''\<rparr>,
                      violation_json \<lparr>v_caller = ''g'', v_callee = ''exec''\<rparr>], [])"
  using containment_dump_complete [OF refl,
      of "[Violation (Some ''a'') (Some ''open''), Reset, Violation (Some ''f'') None, Violation (Some ''g'') (Some ''exec'')]"]
  by (simp add: Let_def name_or_unknown_def c_string_def json_safe_def)

text \<open>
  The dump does not escape: with a quote in a recorded name the text is not the JSON the header
  promises (here the strict reader rejects it).
\<close>

theorem containment_dump_raw_quote:
  "read_json (compact False (dump_array (g_violations
     (topo_containment_violation (Some [quote]) (Some ''open'') containment_start)))) = None"
  by (simp add: topo_containment_violation_def containment_start_def name_or_unknown_def c_string_def
      dump_array_def dump_entry_def is_ws_def read_json_def read_string_def Let_def)

end
