(* ===== verification/CostSamples.thy ===== *)
theory CostSamples
  imports TopoPrelude
begin

text \<open>
  The cost sampler of runtime/topo_parallel.cpp (and its forwarders in topo_cost.cpp): per thread a
  stack of pending begins and a map of samples, enrolled in a registry the aggregator walks. Each
  operation is one step (the mutex of the registry covers every access to a sample map). The
  specification is a log of measured intervals; the implementation refines it, so the averages a
  caller gets are those of the intervals measured, whatever the threads and the order.
\<close>

section \<open>State and operations\<close>

record CostSample =
  cs_name :: string
  cs_total_ns :: u64
  cs_count :: u64

record PendingBegin =
  pb_name :: string
  pb_tp :: u64

record tls_state =
  tls_samples :: "(string \<times> CostSample) list"
  tls_registered :: bool
  tls_pending :: "PendingBegin list"

record cost_state =
  g_tls_registrations :: "nat list"
  tls :: "nat \<Rightarrow> tls_state"
  g_instrument :: bool

definition fresh_tls :: tls_state where
  "fresh_tls = \<lparr>tls_samples = [], tls_registered = False, tls_pending = []\<rparr>"

definition cost_start :: cost_state where
  "cost_start = \<lparr>g_tls_registrations = [], tls = (\<lambda>_. fresh_tls), g_instrument = True\<rparr>"

text \<open>The registry holds addresses of per-thread maps: here the thread.\<close>

definition enrol :: "nat \<Rightarrow> cost_state \<Rightarrow> cost_state" where
  "enrol t s =
     (if tls_registered (tls s t) then s
      else s\<lparr>g_tls_registrations := g_tls_registrations s @ [t],
             tls := (tls s)(t := (tls s t)\<lparr>tls_registered := True\<rparr>)\<rparr>)"

text \<open>The destructors of a thread's locals, at its exit.\<close>

definition tls_destroy :: "nat \<Rightarrow> cost_state \<Rightarrow> cost_state" where
  "tls_destroy t s =
     (let s = (if tls_registered (tls s t)
               then s\<lparr>g_tls_registrations := filter (\<lambda>u. u \<noteq> t) (g_tls_registrations s)\<rparr> else s)
      in s\<lparr>tls := (tls s)(t := fresh_tls)\<rparr>)"

definition topo_parallel_cost_begin_impl :: "nat \<Rightarrow> u64 \<Rightarrow> string \<Rightarrow> cost_state \<Rightarrow> cost_state" where
  "topo_parallel_cost_begin_impl t now func_name s =
     (if \<not> g_instrument s then s
      else (let s = enrol t s
            in s\<lparr>tls := (tls s)(t := (tls s t)
                   \<lparr>tls_pending := tls_pending (tls s t) @ [\<lparr>pb_name = func_name, pb_tp = now\<rparr>]\<rparr>)\<rparr>))"

text \<open>The search from the back: the begin it finds and the list without it.\<close>

fun take_last :: "string \<Rightarrow> PendingBegin list \<Rightarrow> (PendingBegin \<times> PendingBegin list) option" where
  "take_last name [] = None"
| "take_last name (p # ps) =
     (case take_last name ps of
        Some (q, qs) \<Rightarrow> Some (q, p # qs)
      | None \<Rightarrow> if pb_name p = name then Some (p, ps) else None)"

text \<open>\<open>auto& sample = samples[name]; ...\<close>: a missing entry starts as zeros.\<close>

definition add_sample :: "string \<Rightarrow> u64 \<Rightarrow> (string \<times> CostSample) list \<Rightarrow> (string \<times> CostSample) list" where
  "add_sample name duration_ns m =
     (let sample = (case map_of m name of Some c \<Rightarrow> c
                    | None \<Rightarrow> \<lparr>cs_name = [], cs_total_ns = 0, cs_count = 0\<rparr>);
          sample = sample\<lparr>cs_name := name\<rparr>;
          sample = sample\<lparr>cs_total_ns := cs_total_ns sample + duration_ns\<rparr>;
          sample = sample\<lparr>cs_count := cs_count sample + 1\<rparr>
      in AList.update name sample m)"

definition topo_parallel_cost_end_impl :: "nat \<Rightarrow> u64 \<Rightarrow> string \<Rightarrow> cost_state \<Rightarrow> cost_state" where
  "topo_parallel_cost_end_impl t end_tp func_name s =
     (if \<not> g_instrument s then s
      else
        (case take_last func_name (tls_pending (tls s t)) of
           None \<Rightarrow> s
         | Some (it, rest) \<Rightarrow>
             (let duration_ns = end_tp - pb_tp it
              in s\<lparr>tls := (tls s)(t := (tls s t)
                     \<lparr>tls_samples := add_sample func_name duration_ns (tls_samples (tls s t)),
                      tls_pending := rest\<rparr>)\<rparr>)))"

definition topo_cost_begin :: "nat \<Rightarrow> u64 \<Rightarrow> string \<Rightarrow> cost_state \<Rightarrow> cost_state" where
  "topo_cost_begin t now func_name = topo_parallel_cost_begin_impl t now func_name"

definition topo_cost_end :: "nat \<Rightarrow> u64 \<Rightarrow> string \<Rightarrow> cost_state \<Rightarrow> cost_state" where
  "topo_cost_end t now func_name = topo_parallel_cost_end_impl t now func_name"

definition add_accum :: "string \<times> CostSample \<Rightarrow> (string \<times> u64 \<times> u64) list \<Rightarrow> (string \<times> u64 \<times> u64) list" where
  "add_accum ns acc =
     (case ns of (name, sample) \<Rightarrow>
        if 0 < cs_count sample then
          (let (tot, cnt) = (case map_of acc name of Some a \<Rightarrow> a | None \<Rightarrow> (0, 0))
           in AList.update name (tot + cs_total_ns sample, cnt + cs_count sample) acc)
        else acc)"

definition get_cost_samples :: "cost_state \<Rightarrow> (string \<times> u64) list" where
  "get_cost_samples s =
     (let acc = fold (\<lambda>t acc. fold add_accum (tls_samples (tls s t)) acc) (g_tls_registrations s) []
      in map (\<lambda>(name, tot, cnt). (name, tot div cnt)) (filter (\<lambda>(name, tot, cnt). 0 < cnt) acc))"

definition reset_cost_samples :: "cost_state \<Rightarrow> cost_state" where
  "reset_cost_samples s =
     s\<lparr>tls := fold (\<lambda>t m. m(t := (m t)\<lparr>tls_samples := []\<rparr>)) (g_tls_registrations s) (tls s)\<rparr>"

definition sample_of_pipeline :: "string \<Rightarrow> string \<Rightarrow> bool" where
  "sample_of_pipeline name key \<longleftrightarrow>
     (let stagePrefix = name @ sep
      in key = name \<or> (length stagePrefix \<le> length key \<and> substr key 0 (length stagePrefix) = stagePrefix))"

definition reset_cost_samples_of :: "string \<Rightarrow> cost_state \<Rightarrow> cost_state" where
  "reset_cost_samples_of name s =
     s\<lparr>tls := fold (\<lambda>t m. m(t := (m t)\<lparr>tls_samples :=
                filter (\<lambda>(key, _). \<not> sample_of_pipeline name key) (tls_samples (m t))\<rparr>))
              (g_tls_registrations s) (tls s)\<rparr>"

section \<open>The log of intervals\<close>

record interval =
  iv_thread :: nat
  iv_name :: string
  iv_ns :: u64

record cost_log =
  lg_intervals :: "interval list"
  lg_open :: "nat \<Rightarrow> PendingBegin list"
  lg_on :: bool

datatype cost_op =
  CostBegin nat u64 string | CostEnd nat u64 string | ThreadExit nat | ResetAll | ResetOf string

fun cost_step :: "cost_op \<Rightarrow> cost_state \<Rightarrow> cost_state" where
  "cost_step (CostBegin t now n) s = topo_cost_begin t now n s"
| "cost_step (CostEnd t now n) s = topo_cost_end t now n s"
| "cost_step (ThreadExit t) s = tls_destroy t s"
| "cost_step ResetAll s = reset_cost_samples s"
| "cost_step (ResetOf n) s = reset_cost_samples_of n s"

text \<open>An end closes the innermost open begin of its name on its thread; a reset forgets intervals.\<close>

fun log_step :: "cost_op \<Rightarrow> cost_log \<Rightarrow> cost_log" where
  "log_step (CostBegin t now n) a =
     (if lg_on a then a\<lparr>lg_open := (lg_open a)(t := lg_open a t @ [\<lparr>pb_name = n, pb_tp = now\<rparr>])\<rparr> else a)"
| "log_step (CostEnd t now n) a =
     (if lg_on a then
        (case take_last n (lg_open a t) of None \<Rightarrow> a
         | Some (b, rest) \<Rightarrow>
             a\<lparr>lg_open := (lg_open a)(t := rest),
               lg_intervals := lg_intervals a @ [\<lparr>iv_thread = t, iv_name = n, iv_ns = now - pb_tp b\<rparr>]\<rparr>)
      else a)"
| "log_step (ThreadExit t) a =
     a\<lparr>lg_open := (lg_open a)(t := []), lg_intervals := filter (\<lambda>i. iv_thread i \<noteq> t) (lg_intervals a)\<rparr>"
| "log_step ResetAll a = a\<lparr>lg_intervals := []\<rparr>"
| "log_step (ResetOf n) a =
     a\<lparr>lg_intervals := filter (\<lambda>i. \<not> (iv_name i = n \<or> starts_with (n @ sep) (iv_name i))) (lg_intervals a)\<rparr>"

definition log_start :: cost_log where
  "log_start = \<lparr>lg_intervals = [], lg_open = (\<lambda>_. []), lg_on = True\<rparr>"

definition intervals_of :: "nat \<Rightarrow> string \<Rightarrow> interval list \<Rightarrow> interval list" where
  "intervals_of t n l = filter (\<lambda>i. iv_thread i = t \<and> iv_name i = n) l"

definition sample_of :: "string \<Rightarrow> interval list \<Rightarrow> CostSample option" where
  "sample_of n l =
     (if l = [] then None
      else Some \<lparr>cs_name = n, cs_total_ns = sum_list (map iv_ns l), cs_count = of_nat (length l)\<rparr>)"

text \<open>The refinement: every sample map holds the sums of the log; every thread in use is enrolled.\<close>

definition tls_refines :: "nat \<Rightarrow> tls_state \<Rightarrow> cost_log \<Rightarrow> bool" where
  "tls_refines t c a \<longleftrightarrow>
     lg_open a t = tls_pending c \<and> amap_ok (tls_samples c) \<and>
     (\<forall>n. map_of (tls_samples c) n = sample_of n (intervals_of t n (lg_intervals a))) \<and>
     (\<not> tls_registered c \<longrightarrow> tls_samples c = [] \<and> tls_pending c = [])"

definition cost_refines :: "cost_state \<Rightarrow> cost_log \<Rightarrow> bool" where
  "cost_refines s a \<longleftrightarrow>
     lg_on a = g_instrument s \<and> distinct (g_tls_registrations s) \<and>
     (\<forall>t. t \<in> set (g_tls_registrations s) \<longleftrightarrow> tls_registered (tls s t)) \<and>
     (\<forall>t. tls_refines t (tls s t) a)"

lemma intervals_of_Nil [simp]: "intervals_of t n [] = []"
  by (simp add: intervals_of_def)

lemma intervals_of_append [simp]: "intervals_of t n (l @ l') = intervals_of t n l @ intervals_of t n l'"
  by (simp add: intervals_of_def)

lemma intervals_of_Cons:
  "intervals_of t n (i # l) = (if iv_thread i = t \<and> iv_name i = n then i # intervals_of t n l else intervals_of t n l)"
  by (simp add: intervals_of_def)

lemma intervals_of_filter_thread:
  "intervals_of t n (filter (\<lambda>i. iv_thread i \<noteq> u) l) = (if t = u then [] else intervals_of t n l)"
  by (induction l) (auto simp: intervals_of_def)

lemma intervals_of_filter_name:
  "intervals_of t n (filter (\<lambda>i. P (iv_name i)) l) = (if P n then intervals_of t n l else [])"
  by (induction l) (auto simp: intervals_of_def)

lemma sample_of_Nil [simp]: "sample_of n [] = None"
  by (simp add: sample_of_def)

lemma map_of_add_sample:
  assumes "map_of m name = sample_of name l"
  shows "map_of (add_sample name d m) k
           = (if k = name then sample_of name (l @ [\<lparr>iv_thread = t, iv_name = name, iv_ns = d\<rparr>]) else map_of m k)"
  using assms by (auto simp: add_sample_def Let_def amap_simps sample_of_def)

lemma amap_ok_add_sample [simp]: "amap_ok m \<Longrightarrow> amap_ok (add_sample name d m)"
  by (simp add: add_sample_def Let_def)

lemma take_last_pending: "take_last n ps \<noteq> None \<Longrightarrow> ps \<noteq> []"
  by auto

lemma sample_of_pipeline_iff: "sample_of_pipeline p k \<longleftrightarrow> k = p \<or> starts_with (p @ sep) k"
  using starts_with_length [of "p @ sep" k] by (auto simp: sample_of_pipeline_def starts_with_def Let_def)

lemma fold_reset_samples:
  "fold (\<lambda>t m. m(t := (m t)\<lparr>tls_samples := f (tls_samples (m t))\<rparr>)) ts m t
     = (if t \<in> set ts then (m t)\<lparr>tls_samples := (f ^^ count_list ts t) (tls_samples (m t))\<rparr> else m t)"
  by (induction ts arbitrary: m) (auto simp: funpow_swap1)

lemma count_list_distinct: "distinct ts \<Longrightarrow> t \<in> set ts \<Longrightarrow> count_list ts t = Suc 0"
  by (induction ts) (auto simp: count_list_0_iff)

lemma reset_tls:
  assumes "distinct ts"
  shows "fold (\<lambda>t m. m(t := (m t)\<lparr>tls_samples := f (tls_samples (m t))\<rparr>)) ts m t
           = (if t \<in> set ts then (m t)\<lparr>tls_samples := f (tls_samples (m t))\<rparr> else m t)"
  using assms by (auto simp: fold_reset_samples count_list_distinct)

lemma cost_refines_start: "cost_refines cost_start log_start"
  by (simp add: cost_refines_def tls_refines_def cost_start_def log_start_def fresh_tls_def)

lemma begin_refines:
  assumes "cost_refines s a"
  shows "cost_refines (topo_cost_begin t now n s) (log_step (CostBegin t now n) a)"
  using assms
  by (auto simp: topo_cost_begin_def topo_parallel_cost_begin_impl_def enrol_def Let_def
      cost_refines_def tls_refines_def)

lemma end_refines:
  assumes "cost_refines s a"
  shows "cost_refines (topo_cost_end t now n s) (log_step (CostEnd t now n) a)"
proof (cases "g_instrument s \<and> take_last n (tls_pending (tls s t)) \<noteq> None")
  case False
  have "lg_on a = g_instrument s" and "lg_open a t = tls_pending (tls s t)"
    using assms by (auto simp: cost_refines_def tls_refines_def)
  with False have "log_step (CostEnd t now n) a = a" and "topo_cost_end t now n s = s"
    by (auto simp: topo_cost_end_def topo_parallel_cost_end_impl_def split: option.splits)
  with assms show ?thesis by simp
next
  case True
  then obtain b rest where b: "take_last n (tls_pending (tls s t)) = Some (b, rest)" by auto
  let ?new = "\<lparr>iv_thread = t, iv_name = n, iv_ns = now - pb_tp b\<rparr>"
  have t: "tls_refines t (tls s t) a" using assms by (simp add: cost_refines_def)
  have reg: "tls_registered (tls s t)" using t take_last_pending [of n] b by (auto simp: tls_refines_def)
  have m: "map_of (tls_samples (tls s t)) n = sample_of n (intervals_of t n (lg_intervals a))"
    using t by (simp add: tls_refines_def)
  show ?thesis
    using assms True b reg
    by (auto simp: topo_cost_end_def topo_parallel_cost_end_impl_def cost_refines_def tls_refines_def
        map_of_add_sample [OF m, of _ _ t] intervals_of_Cons)
qed

lemma exit_refines:
  assumes "cost_refines s a"
  shows "cost_refines (tls_destroy t s) (log_step (ThreadExit t) a)"
  using assms
  by (auto simp: tls_destroy_def Let_def cost_refines_def tls_refines_def fresh_tls_def
      intervals_of_filter_thread)

lemma reset_all_refines:
  assumes "cost_refines s a"
  shows "cost_refines (reset_cost_samples s) (log_step ResetAll a)"
  using assms reset_tls [of "g_tls_registrations s" "\<lambda>_. []" "tls s"]
  by (auto simp: reset_cost_samples_def cost_refines_def tls_refines_def)

lemma map_of_filter_not_pipeline:
  "map_of (filter (\<lambda>(key, _). \<not> sample_of_pipeline p key) m) k
     = (if k = p \<or> starts_with (p @ sep) k then None else map_of m k)"
  using map_of_filter_key [of "\<lambda>key. \<not> sample_of_pipeline p key" m k]
  by (simp add: case_prod_unfold sample_of_pipeline_iff)

lemma reset_of_refines:
  assumes "cost_refines s a"
  shows "cost_refines (reset_cost_samples_of p s) (log_step (ResetOf p) a)"
  using assms reset_tls [of "g_tls_registrations s" "filter (\<lambda>(key, _). \<not> sample_of_pipeline p key)" "tls s"]
  by (auto simp: reset_cost_samples_of_def cost_refines_def tls_refines_def map_of_filter_not_pipeline
      intervals_of_filter_name [where P = "\<lambda>k. \<not> (k = p \<or> starts_with (p @ sep) k)", simplified])

lemma cost_step_refines: "cost_refines s a \<Longrightarrow> cost_refines (cost_step x s) (log_step x a)"
  by (cases x) (simp_all only: cost_step.simps begin_refines end_refines exit_refines reset_all_refines
      reset_of_refines)

lemma cost_run_refines: "cost_refines s a \<Longrightarrow> cost_refines (fold cost_step ops s) (fold log_step ops a)"
  by (induction ops arbitrary: s a) (simp_all add: cost_step_refines)

section \<open>The averages\<close>

lemma unat_of_nat_small: "n < 2 ^ 64 \<Longrightarrow> unat (of_nat n :: u64) = n"
  by (simp add: unsigned_of_nat take_bit_nat_eq_self)

lemma map_of_add_accum:
  "map_of (add_accum (k, c) acc) n =
     (if n = k \<and> 0 < cs_count c
      then (let (a, b) = (case map_of acc n of Some x \<Rightarrow> x | None \<Rightarrow> (0, 0))
            in Some (a + cs_total_ns c, b + cs_count c))
      else map_of acc n)"
  by (simp add: add_accum_def amap_simps Let_def case_prod_unfold)

lemma fold_add_accum:
  assumes "amap_ok m"
  shows "map_of (fold add_accum m acc) n =
     (case map_of m n of
        Some c \<Rightarrow> if 0 < cs_count c
                   then (let (a, b) = (case map_of acc n of Some x \<Rightarrow> x | None \<Rightarrow> (0, 0))
                         in Some (a + cs_total_ns c, b + cs_count c))
                   else map_of acc n
      | None \<Rightarrow> map_of acc n)"
  using assms
proof (induction m arbitrary: acc)
  case Nil
  then show ?case by simp
next
  case (Cons p m)
  obtain k c where p: "p = (k, c)" by (cases p)
  have ok: "amap_ok m" and k: "map_of m k = None"
    using Cons.prems by (auto simp: p amap_ok_def map_of_eq_None_iff)
  show ?case
  proof (cases "n = k")
    case True
    with k have "map_of m n = None" by simp
    then show ?thesis by (simp add: p Cons.IH [OF ok] map_of_add_accum True [symmetric])
  next
    case False
    then show ?thesis by (cases "map_of m n") (simp_all add: p Cons.IH [OF ok] map_of_add_accum)
  qed
qed

lemma amap_ok_add_accum: "amap_ok acc \<Longrightarrow> amap_ok (add_accum p acc)"
  by (auto simp: add_accum_def Let_def split: prod.splits)

lemma amap_ok_fold_accum: "amap_ok acc \<Longrightarrow> amap_ok (fold add_accum m acc)"
  by (induction m arbitrary: acc) (simp_all add: amap_ok_add_accum)

text \<open>The intervals of a name on a list of threads.\<close>

definition intervals_on :: "nat list \<Rightarrow> string \<Rightarrow> interval list \<Rightarrow> interval list" where
  "intervals_on ts n l = filter (\<lambda>i. iv_thread i \<in> set ts \<and> iv_name i = n) l"

lemma intervals_on_snoc:
  assumes "t \<notin> set ts"
  shows "sum_list (map iv_ns (intervals_on (ts @ [t]) n l))
           = sum_list (map iv_ns (intervals_on ts n l)) + sum_list (map iv_ns (intervals_of t n l))"
    and "length (intervals_on (ts @ [t]) n l) = length (intervals_on ts n l) + length (intervals_of t n l)"
  using assms by (induction l) (auto simp: intervals_on_def intervals_of_def)

lemma intervals_of_small:
  assumes "length l < 2 ^ 64" and "intervals_of t n l \<noteq> []"
  shows "0 < (of_nat (length (intervals_of t n l)) :: u64)"
proof -
  have "length (intervals_of t n l) < 2 ^ 64"
    using assms(1) le_less_trans [OF length_filter_le] by (auto simp: intervals_of_def)
  with assms(2) show ?thesis by (simp add: word_less_nat_alt unat_of_nat_small)
qed

lemma accumulate:
  assumes "cost_refines s a" and "length (lg_intervals a) < 2 ^ 64" and "distinct ts"
  shows "map_of (fold (\<lambda>t acc. fold add_accum (tls_samples (tls s t)) acc) ts []) n =
     (let l = intervals_on ts n (lg_intervals a)
      in if l = [] then None else Some (sum_list (map iv_ns l), of_nat (length l)))"
  using assms(3)
proof (induction ts rule: rev_induct)
  case Nil
  then show ?case by (simp add: intervals_on_def)
next
  case (snoc t ts)
  have ok: "amap_ok (tls_samples (tls s t))"
    and m: "map_of (tls_samples (tls s t)) n = sample_of n (intervals_of t n (lg_intervals a))"
    using assms(1) by (auto simp: cost_refines_def tls_refines_def)
  have t: "t \<notin> set ts" and d: "distinct ts" using snoc.prems by auto
  note split = intervals_on_snoc [OF t, of n "lg_intervals a"]
  show ?case
  proof (cases "intervals_of t n (lg_intervals a) = []")
    case True
    then have "intervals_on (ts @ [t]) n (lg_intervals a) = [] \<longleftrightarrow> intervals_on ts n (lg_intervals a) = []"
      using split(2) by (metis add_is_0 length_0_conv)
    with True snoc.IH [OF d] split show ?thesis by (simp add: fold_add_accum [OF ok] m Let_def)
  next
    case False
    then have "intervals_on (ts @ [t]) n (lg_intervals a) \<noteq> []"
      using split(2) by (metis add_is_0 length_0_conv)
    with False intervals_of_small [OF assms(2) False] snoc.IH [OF d] split
    show ?thesis by (simp add: fold_add_accum [OF ok] m sample_of_def Let_def)
  qed
qed

lemma amap_ok_accumulate: "amap_ok (fold (\<lambda>t acc. fold add_accum (m t) acc) ts acc)" if "amap_ok acc"
  using that by (induction ts arbitrary: acc) (simp_all add: amap_ok_fold_accum)

lemma map_of_averages:
  "amap_ok acc \<Longrightarrow>
   map_of (map (\<lambda>(name, tot, cnt). (name, tot div cnt)) (filter (\<lambda>(name, tot, cnt). 0 < cnt) acc)) n
     = (case map_of acc n of None \<Rightarrow> None | Some (tot, cnt) \<Rightarrow> if 0 < cnt then Some (tot div cnt) else None)"
proof (induction acc)
  case Nil
  then show ?case by simp
next
  case (Cons p acc)
  obtain k t c where p: "p = (k, t, c)" by (cases p) auto
  have ok: "amap_ok acc" and k: "map_of acc k = None"
    using Cons.prems by (auto simp: p amap_ok_def map_of_eq_None_iff)
  show ?case using k Cons.IH [OF ok] by (cases "n = k"; cases "0 < c") (simp_all add: p)
qed

definition named :: "string \<Rightarrow> cost_log \<Rightarrow> interval list" where
  "named n a = filter (\<lambda>i. iv_name i = n) (lg_intervals a)"

lemma get_cost_samples_refines:
  assumes "cost_refines s a" and "length (lg_intervals a) < 2 ^ 64"
  shows "map_of (get_cost_samples s) n =
     (if named n a = [] then None
      else Some (sum_list (map iv_ns (named n a)) div of_nat (length (named n a))))"
proof -
  let ?ts = "g_tls_registrations s"
  have "intervals_on ?ts n (lg_intervals a) = named n a"
    unfolding intervals_on_def named_def
  proof (rule filter_cong [OF refl])
    fix i assume i: "i \<in> set (lg_intervals a)"
    then have "intervals_of (iv_thread i) (iv_name i) (lg_intervals a) \<noteq> []"
      by (auto simp: intervals_of_def filter_empty_conv)
    then have "map_of (tls_samples (tls s (iv_thread i))) (iv_name i) \<noteq> None"
      using assms(1) by (simp add: cost_refines_def tls_refines_def sample_of_def)
    then have "iv_thread i \<in> set ?ts"
      using assms(1) by (auto simp: cost_refines_def tls_refines_def)
    then show "(iv_thread i \<in> set ?ts \<and> iv_name i = n) = (iv_name i = n)" by simp
  qed
  moreover have "length (named n a) < 2 ^ 64"
    using assms(2) le_less_trans [OF length_filter_le] by (auto simp: named_def)
  moreover have "distinct ?ts" using assms(1) by (simp add: cost_refines_def)
  ultimately show ?thesis
    using accumulate [OF assms, of ?ts n]
    by (cases "named n a = []")
      (simp_all add: get_cost_samples_def Let_def map_of_averages amap_ok_accumulate unat_of_nat_small
        word_less_nat_alt [of 0 "of_nat _"])
qed

lemma amap_ok_get_cost_samples: "amap_ok (get_cost_samples s)"
proof -
  have "amap_ok acc \<Longrightarrow> amap_ok (map (\<lambda>(name, tot, cnt). (name, tot div cnt)) (filter (\<lambda>(name, tot, cnt). 0 < cnt) acc))"
    for acc :: "(string \<times> u64 \<times> u64) list"
    by (drule amap_ok_filter [of _ "\<lambda>(name, tot, cnt). 0 < cnt"])
      (simp add: amap_ok_def case_prod_unfold comp_def)
  then show ?thesis by (simp add: get_cost_samples_def Let_def amap_ok_accumulate)
qed

lemma unat_sum_list:
  "sum_list (map (unat :: u64 \<Rightarrow> nat) ws) < 2 ^ 64 \<Longrightarrow> unat (sum_list ws) = sum_list (map unat ws)"
  by (induction ws) (simp_all add: unat_add_u64)

text \<open>
  C8. Whatever threads run and however their begins, ends, exits and the resets interleave,
  \<open>get_cost_samples\<close> gives for every name the integer average of all intervals measured for it since
  they were last reset, over all live threads, and nothing for a name with no interval.
\<close>

theorem cost_samples_average:
  assumes "a = fold log_step ops log_start" and "length (lg_intervals a) < 2 ^ 64"
    and "sum_list (map (\<lambda>i. unat (iv_ns i)) (named n a)) < 2 ^ 64"
  shows "map_option unat (map_of (get_cost_samples (fold cost_step ops cost_start)) n) =
     (if named n a = [] then None
      else Some (sum_list (map (\<lambda>i. unat (iv_ns i)) (named n a)) div length (named n a)))"
proof -
  have "cost_refines (fold cost_step ops cost_start) a"
    using cost_run_refines [OF cost_refines_start] assms(1) by simp
  note get = get_cost_samples_refines [OF this assms(2)]
  have "length (named n a) < 2 ^ 64"
    using assms(2) le_less_trans [OF length_filter_le] by (auto simp: named_def)
  moreover have "unat (sum_list (map iv_ns (named n a))) = sum_list (map (\<lambda>i. unat (iv_ns i)) (named n a))"
    using unat_sum_list [of "map iv_ns (named n a)"] assms(3) by (simp add: comp_def)
  ultimately show ?thesis by (simp add: get unat_div_distrib unat_of_nat_small)
qed

definition cost_demo :: "cost_op list" where
  "cost_demo =
     [CostBegin 1 100 ''p'', CostBegin 1 110 ''p'', CostEnd 1 130 ''p'', CostBegin 2 50 ''q'',
      CostEnd 1 200 ''p'', CostBegin 2 60 ''p'', CostEnd 2 65 ''p'', CostEnd 2 90 ''q'', CostEnd 2 95 ''zz'',
      ResetOf ''q'']"

theorem cost_samples_average_witness:
  "map_option unat (map_of (get_cost_samples (fold cost_step cost_demo cost_start)) ''p'') = Some 41"
  by (subst cost_samples_average [OF refl])
    (simp_all add: cost_demo_def log_start_def named_def starts_with_def)

section \<open>The contract the adaptive monitor uses\<close>

text \<open>
  A cost source: the averages by name, and a reset that forgets one pipeline and its stages and
  nothing else.
\<close>

locale cost_source =
  fixes ok :: "'s \<Rightarrow> bool"
    and get :: "'s \<Rightarrow> (string \<times> u64) list"
    and reset :: "string \<Rightarrow> 's \<Rightarrow> 's"
  assumes reset_ok: "ok s \<Longrightarrow> ok (reset p s)"
    and reset_get: "ok s \<Longrightarrow>
      map_of (get (reset p s)) n = (if n = p \<or> starts_with (p @ sep) n then None else map_of (get s) n)"
begin

lemma reset_sibling:
  "ok s \<Longrightarrow> n \<noteq> p \<Longrightarrow> \<not> starts_with (p @ sep) n \<Longrightarrow> map_of (get (reset p s)) n = map_of (get s) n"
  by (simp add: reset_get)

lemma resets_ok: "ok s \<Longrightarrow> ok (fold reset ps s)"
  by (induction ps arbitrary: s) (simp_all add: reset_ok)

lemma resets_get:
  "ok s \<Longrightarrow> map_of (get (fold reset ps s)) n =
     (if \<exists>p\<in>set ps. n = p \<or> starts_with (p @ sep) n then None else map_of (get s) n)"
  by (induction ps arbitrary: s) (auto simp: reset_ok reset_get)

end

definition cost_ok :: "cost_state \<Rightarrow> bool" where
  "cost_ok s \<longleftrightarrow> (\<exists>a. cost_refines s a \<and> length (lg_intervals a) < 2 ^ 64)"

interpretation sampler: cost_source cost_ok get_cost_samples reset_cost_samples_of
proof unfold_locales
  fix s p n
  assume "cost_ok s"
  then obtain a where a: "cost_refines s a" "length (lg_intervals a) < 2 ^ 64" by (auto simp: cost_ok_def)
  let ?a = "log_step (ResetOf p) a"
  have len: "length (lg_intervals ?a) < 2 ^ 64" using a(2) le_less_trans [OF length_filter_le] by auto
  then show "cost_ok (reset_cost_samples_of p s)"
    using reset_of_refines [OF a(1), of p] unfolding cost_ok_def by blast
  have "named n ?a = (if n = p \<or> starts_with (p @ sep) n then [] else named n a)"
    by (auto simp: named_def filter_empty_conv intro: filter_cong)
  then show "map_of (get_cost_samples (reset_cost_samples_of p s)) n
      = (if n = p \<or> starts_with (p @ sep) n then None else map_of (get_cost_samples s) n)"
    by (simp add: get_cost_samples_refines [OF reset_of_refines [OF a(1)] len]
        get_cost_samples_refines [OF a])
qed

end
