(* ===== verification/TaskPool.thy ===== *)
theory TaskPool
  imports TopoPrelude
begin

text \<open>
  The work-stealing task pool of runtime/topo_parallel.cpp. Tasks live in an explicit heap; every
  critical section of the code is one step, so queue pops, completions, awaits, detaches, spawns and
  the pool's own lifecycle interleave as the threads do. A worker is an agent running \<open>worker_loop\<close>,
  a call of \<open>topo_task_await\<close> is an agent running that function; both scan the queues one lock at a
  time. A task body is opaque: it may throw, and what it throws is the outcome fixed at the spawn.
  Ghost logs record the bodies started, the tasks freed and the tasks lost with their queue.
\<close>

section \<open>State\<close>

record 'e task =
  tk_outcome :: "'e option"
  tk_priority :: int
  tk_done :: bool
  tk_detached :: bool
  tk_exception :: "'e option"

text \<open>
  Where a thread is. Workers carry their index, a steal scan its start and offset; an await carries
  the task it waits for and, inside \<open>try_steal_any\<close>, the generation of the pool it snapshotted.
\<close>

datatype 'e pc =
  W_own nat | W_steal nat nat nat | W_body nat nat | W_free nat nat | W_check nat | W_wait nat | W_exited nat
| A_loop nat | A_seed nat nat | A_scan nat nat nat nat | A_body nat nat | A_free nat nat | A_park nat
| A_barrier nat | A_delete nat "'e option" | A_done nat "'e option"

record 'e pool =
  heap :: "nat \<Rightarrow> 'e task option"
  fresh :: nat
  g_pool :: bool
  stopping :: bool
  generation :: nat
  num_workers :: nat
  queues :: "nat list list"
  shutdown_flag :: bool
  submit_counter :: u64
  agents :: "'e pc list"
  handles :: "nat list"
  lost :: "nat list"
  starts :: "nat list"
  frees :: "nat list"
  outcomes :: "nat \<Rightarrow> 'e option"
  bad :: bool

text \<open>
  \<open>g_pool\<close>: the published pointer is not null. \<open>stopping\<close>: \<open>shutdown\<close> holds the lifecycle lock
  between nulling the pointer and deleting the pool. \<open>bad\<close>: memory already freed was used.
\<close>

definition pool_start :: "'e pool" where
  "pool_start =
     \<lparr>heap = (\<lambda>_. None), fresh = 0, g_pool = False, stopping = False, generation = 0, num_workers = 0,
      queues = [], shutdown_flag = False, submit_counter = 0, agents = [], handles = [], lost = [],
      starts = [], frees = [], outcomes = (\<lambda>_. None), bad = False\<rparr>"

abbreviation (input) pool_exists :: "'e pool \<Rightarrow> bool" where
  "pool_exists s \<equiv> g_pool s \<or> stopping s"

section \<open>Operations\<close>

definition pool_size :: "int \<Rightarrow> int \<Rightarrow> nat" where
  "pool_size num_threads hardware_concurrency =
     (let n = num_threads;
          n = (if n \<le> 0 then hardware_concurrency else n);
          n = (if n \<le> 0 then 2 else n)
      in nat n)"

text \<open>\<open>do_init\<close>: a new pool, started before it is published.\<close>

definition do_init :: "int \<Rightarrow> int \<Rightarrow> 'e pool \<Rightarrow> 'e pool" where
  "do_init num_threads hw s =
     (let n = pool_size num_threads hw
      in s\<lparr>generation := Suc (generation s), num_workers := n, queues := replicate n [],
           shutdown_flag := False, submit_counter := 0,
           agents := agents s @ map W_own [0..<n], g_pool := True\<rparr>)"

text \<open>\<open>ThreadPool::submit\<close>: round robin, high priorities to the front.\<close>

definition submit :: "nat \<Rightarrow> int \<Rightarrow> 'e pool \<Rightarrow> 'e pool" where
  "submit t priority s =
     (let idx = submit_counter s;
          target = unat idx mod num_workers s;
          q = queues s ! target
      in s\<lparr>submit_counter := idx + 1,
           queues := (queues s)[target := (if priority < 2 then t # q else q @ [t])]\<rparr>)"

text \<open>The spawn functions, after \<open>ensure_init\<close>: a new task, submitted; the caller gets its handle.\<close>

definition topo_task_spawn_ret_pri :: "'e option \<Rightarrow> int \<Rightarrow> 'e pool \<Rightarrow> 'e pool" where
  "topo_task_spawn_ret_pri outcome priority s =
     (let t = fresh s;
          s = s\<lparr>fresh := Suc t,
                heap := (heap s)(t \<mapsto> \<lparr>tk_outcome = outcome, tk_priority = priority, tk_done = False,
                                     tk_detached = False, tk_exception = None\<rparr>),
                outcomes := (outcomes s)(t := outcome)\<rparr>;
          s = submit t priority s
      in s\<lparr>handles := handles s @ [t]\<rparr>)"

definition topo_task_spawn :: "'e option \<Rightarrow> 'e pool \<Rightarrow> 'e pool" where
  "topo_task_spawn outcome s = topo_task_spawn_ret_pri outcome 2 s"

definition topo_parallel_ensure_init :: "int \<Rightarrow> int \<Rightarrow> 'e pool \<Rightarrow> 'e pool" where
  "topo_parallel_ensure_init num_threads hw s = (if g_pool s then s else do_init num_threads hw s)"

definition delete_task :: "nat \<Rightarrow> 'e pool \<Rightarrow> 'e pool" where
  "delete_task t s =
     (case heap s t of
        None \<Rightarrow> s\<lparr>bad := True\<rparr>
      | Some _ \<Rightarrow> s\<lparr>heap := (heap s)(t := None), frees := frees s @ [t]\<rparr>)"

text \<open>The critical section of \<open>run_task_safely\<close>; the result is \<open>freeHere\<close>.\<close>

definition run_task_safely :: "nat \<Rightarrow> 'e pool \<Rightarrow> bool \<times> 'e pool" where
  "run_task_safely t s =
     (case heap s t of
        None \<Rightarrow> (False, s\<lparr>bad := True\<rparr>)
      | Some k \<Rightarrow>
          (let k' = (case tk_outcome k of None \<Rightarrow> k | Some e \<Rightarrow> k\<lparr>tk_exception := Some e\<rparr>);
               k' = k'\<lparr>tk_done := True\<rparr>
           in (tk_detached k', s\<lparr>heap := (heap s)(t \<mapsto> k')\<rparr>)))"

definition topo_task_detach :: "nat \<Rightarrow> 'e pool \<Rightarrow> 'e pool" where
  "topo_task_detach t s =
     (let s = s\<lparr>handles := remove1 t (handles s)\<rparr>
      in case heap s t of
           None \<Rightarrow> s\<lparr>bad := True\<rparr>
         | Some k \<Rightarrow>
             if tk_done k then delete_task t s
             else s\<lparr>heap := (heap s)(t \<mapsto> k\<lparr>tk_detached := True\<rparr>)\<rparr>)"

definition set_pc :: "nat \<Rightarrow> 'e pc \<Rightarrow> 'e pool \<Rightarrow> 'e pool" where
  "set_pc i p s = s\<lparr>agents := (agents s)[i := p]\<rparr>"

definition begin_body :: "nat \<Rightarrow> 'e pool \<Rightarrow> 'e pool" where
  "begin_body t s = s\<lparr>starts := starts s @ [t]\<rparr>"

definition pop_front :: "nat \<Rightarrow> 'e pool \<Rightarrow> nat option \<times> 'e pool" where
  "pop_front v s =
     (case queues s ! v of
        [] \<Rightarrow> (None, s)
      | t # q \<Rightarrow> (Some t, s\<lparr>queues := (queues s)[v := q]\<rparr>))"

definition pop_back :: "nat \<Rightarrow> 'e pool \<Rightarrow> nat option \<times> 'e pool" where
  "pop_back v s =
     (if queues s ! v = [] then (None, s)
      else (Some (last (queues s ! v)), s\<lparr>queues := (queues s)[v := butlast (queues s ! v)]\<rparr>))"

text \<open>One step of \<open>worker_loop(id)\<close>; \<open>r\<close> is the next value of its random engine.\<close>

fun worker_loop :: "nat \<Rightarrow> nat \<Rightarrow> 'e pc \<Rightarrow> 'e pool \<Rightarrow> 'e pool" where
  "worker_loop r i (W_own wid) s =
     (case pop_front wid s of
        (Some t, s) \<Rightarrow> begin_body t (set_pc i (W_body wid t) s)
      | (None, s) \<Rightarrow>
          if num_workers s > 1 then set_pc i (W_steal wid (r mod num_workers s) 0) s
          else set_pc i (W_check wid) s)"
| "worker_loop r i (W_steal wid start k) s =
     (if k \<ge> num_workers s then set_pc i (W_check wid) s
      else
        (let victim = (start + k) mod num_workers s
         in if victim = wid then set_pc i (W_steal wid start (Suc k)) s
            else
              (case pop_back victim s of
                 (Some t, s) \<Rightarrow> begin_body t (set_pc i (W_body wid t) s)
               | (None, s) \<Rightarrow> set_pc i (W_steal wid start (Suc k)) s)))"
| "worker_loop r i (W_body wid t) s =
     (let (freeHere, s) = run_task_safely t s
      in set_pc i (if freeHere then W_free wid t else W_own wid) s)"
| "worker_loop r i (W_free wid t) s = delete_task t (set_pc i (W_own wid) s)"
| "worker_loop r i (W_check wid) s = set_pc i (if shutdown_flag s then W_exited wid else W_wait wid) s"
| "worker_loop r i (W_wait wid) s = set_pc i (if shutdown_flag s then W_exited wid else W_own wid) s"
| "worker_loop r i p s = s"

text \<open>One step of \<open>topo_task_await(task)\<close>, the loop of \<open>try_steal_any\<close> included.\<close>

fun topo_task_await :: "nat \<Rightarrow> 'e pc \<Rightarrow> 'e pool \<Rightarrow> 'e pool" where
  "topo_task_await i (A_loop t) s =
     (case heap s t of
        None \<Rightarrow> s\<lparr>bad := True\<rparr>
      | Some k \<Rightarrow>
          if tk_done k then set_pc i (A_barrier t) s
          else if g_pool s then set_pc i (A_seed t (generation s)) s
          else set_pc i (A_park t) s)"
| "topo_task_await i (A_seed t gen) s =
     (if \<not> (pool_exists s \<and> gen = generation s) then s\<lparr>bad := True\<rparr>
      else if num_workers s \<le> 0 then set_pc i (A_park t) s
      else
        (let seed = submit_counter s
         in set_pc i (A_scan t gen (unat seed mod num_workers s) 0) (s\<lparr>submit_counter := seed + 1\<rparr>)))"
| "topo_task_await i (A_scan t gen start k) s =
     (if \<not> (pool_exists s \<and> gen = generation s) then s\<lparr>bad := True\<rparr>
      else if k \<ge> num_workers s then set_pc i (A_park t) s
      else
        (case pop_back ((start + k) mod num_workers s) s of
           (Some h, s) \<Rightarrow> begin_body h (set_pc i (A_body t h) s)
         | (None, s) \<Rightarrow> set_pc i (A_scan t gen start (Suc k)) s))"
| "topo_task_await i (A_body t h) s =
     (let (freeHere, s) = run_task_safely h s
      in set_pc i (if freeHere then A_free t h else A_loop t) s)"
| "topo_task_await i (A_free t h) s = delete_task h (set_pc i (A_loop t) s)"
| "topo_task_await i (A_park t) s =
     (if heap s t = None then s\<lparr>bad := True\<rparr> else set_pc i (A_loop t) s)"
| "topo_task_await i (A_barrier t) s =
     (case heap s t of
        None \<Rightarrow> s\<lparr>bad := True\<rparr>
      | Some k \<Rightarrow>
          set_pc i (A_delete t (tk_exception k)) (s\<lparr>heap := (heap s)(t \<mapsto> k\<lparr>tk_exception := None\<rparr>)\<rparr>))"
| "topo_task_await i (A_delete t e) s = delete_task t (set_pc i (A_done t e) s)"
| "topo_task_await i p s = s"

text \<open>\<open>shutdown\<close> up to the joins, and from the joins on: the queues go with the pool.\<close>

definition shutdown_begin :: "'e pool \<Rightarrow> 'e pool" where
  "shutdown_begin s = s\<lparr>g_pool := False, stopping := True, shutdown_flag := True\<rparr>"

definition shutdown_end :: "'e pool \<Rightarrow> 'e pool" where
  "shutdown_end s = s\<lparr>stopping := False, lost := lost s @ concat (queues s), queues := []\<rparr>"

section \<open>Interleavings\<close>

datatype 'e action =
  Spawn "'e option" int int int | Worker nat nat | BeginAwait nat | Await nat | Detach nat
| ShutBegin | ShutEnd

fun is_worker :: "'e pc \<Rightarrow> bool" where
  "is_worker (W_own _) = True" | "is_worker (W_steal _ _ _) = True" | "is_worker (W_body _ _) = True"
| "is_worker (W_free _ _) = True" | "is_worker (W_check _) = True" | "is_worker (W_wait _) = True"
| "is_worker _ = False"

fun in_pool :: "'e pc \<Rightarrow> bool" where
  "in_pool (A_seed _ _) = True" | "in_pool (A_scan _ _ _ _) = True" | "in_pool _ = False"

text \<open>
  When a step can happen: a spawn needs a pool, or the lifecycle lock to make one; a handle is
  given up once; the pool is deleted when its workers have been joined.
\<close>

fun enabled :: "'e action \<Rightarrow> 'e pool \<Rightarrow> bool" where
  "enabled (Spawn oc pri n hw) s \<longleftrightarrow> \<not> stopping s"
| "enabled (Worker r i) s \<longleftrightarrow> i < length (agents s) \<and> is_worker (agents s ! i)"
| "enabled (BeginAwait t) s \<longleftrightarrow> t \<in> set (handles s)"
| "enabled (Await i) s \<longleftrightarrow> i < length (agents s)"
| "enabled (Detach t) s \<longleftrightarrow> t \<in> set (handles s)"
| "enabled ShutBegin s \<longleftrightarrow> g_pool s \<and> \<not> stopping s"
| "enabled ShutEnd s \<longleftrightarrow> stopping s \<and> \<not> list_ex is_worker (agents s)"

fun exec :: "'e action \<Rightarrow> 'e pool \<Rightarrow> 'e pool" where
  "exec (Spawn oc pri n hw) s = topo_task_spawn_ret_pri oc pri (topo_parallel_ensure_init n hw s)"
| "exec (Worker r i) s = worker_loop r i (agents s ! i) s"
| "exec (BeginAwait t) s = s\<lparr>handles := remove1 t (handles s), agents := agents s @ [A_loop t]\<rparr>"
| "exec (Await i) s = topo_task_await i (agents s ! i) s"
| "exec (Detach t) s = topo_task_detach t s"
| "exec ShutBegin s = shutdown_begin s"
| "exec ShutEnd s = shutdown_end s"

text \<open>The discipline of a client: the pool is not deleted under a thread that is inside an await's scan.\<close>

fun quiet :: "'e action \<Rightarrow> 'e pool \<Rightarrow> bool" where
  "quiet ShutEnd s \<longleftrightarrow> \<not> list_ex in_pool (agents s)"
| "quiet _ s \<longleftrightarrow> True"

inductive reach :: "bool \<Rightarrow> 'e pool \<Rightarrow> bool" for disciplined where
  reach_start: "reach disciplined pool_start"
| reach_step: "reach disciplined s \<Longrightarrow> enabled a s \<Longrightarrow> (disciplined \<longrightarrow> quiet a s) \<Longrightarrow> reach disciplined (exec a s)"

section \<open>Where a task is\<close>

text \<open>How often a task occurs in the parts \<open>f x\<close> of a list.\<close>

definition occ :: "('a \<Rightarrow> nat list) \<Rightarrow> 'a list \<Rightarrow> nat \<Rightarrow> int" where
  "occ f xs t = sum_list (map (\<lambda>x. int (count_list (f x) t)) xs)"

abbreviation (input) cnt :: "nat list \<Rightarrow> nat \<Rightarrow> int" where
  "cnt xs t \<equiv> int (count_list xs t)"

fun body_of :: "'e pc \<Rightarrow> nat list" where
  "body_of (W_body _ t) = [t]" | "body_of (A_body _ t) = [t]" | "body_of _ = []"

fun free_of :: "'e pc \<Rightarrow> nat list" where
  "free_of (W_free _ t) = [t]" | "free_of (A_free _ t) = [t]" | "free_of _ = []"

fun wait_of :: "'e pc \<Rightarrow> nat list" where
  "wait_of (A_loop t) = [t]" | "wait_of (A_seed t _) = [t]" | "wait_of (A_scan t _ _ _) = [t]"
| "wait_of (A_body t _) = [t]" | "wait_of (A_free t _) = [t]" | "wait_of (A_park t) = [t]"
| "wait_of _ = []"

fun barrier_of :: "'e pc \<Rightarrow> nat list" where
  "barrier_of (A_barrier t) = [t]" | "barrier_of _ = []"

fun delete_of :: "'e pc \<Rightarrow> nat list" where
  "delete_of (A_delete t _) = [t]" | "delete_of _ = []"

lemma occ_Nil [simp]: "occ f [] t = 0"
  by (simp add: occ_def)

lemma occ_Cons [simp]: "occ f (x # xs) t = cnt (f x) t + occ f xs t"
  by (simp add: occ_def)

lemma occ_append [simp]: "occ f (xs @ ys) t = occ f xs t + occ f ys t"
  by (simp add: occ_def)

lemma occ_nonneg [simp]: "0 \<le> occ f xs t"
  by (induction xs) simp_all

lemma occ_update:
  "i < length xs \<Longrightarrow> occ f (xs[i := y]) t = occ f xs t - cnt (f (xs ! i)) t + cnt (f y) t"
  by (induction xs arbitrary: i) (auto split: nat.splits)

lemma occ_member: "i < length xs \<Longrightarrow> cnt (f (xs ! i)) t \<le> occ f xs t"
proof (induction xs arbitrary: i)
  case Nil
  then show ?case by simp
next
  case (Cons x xs)
  then show ?case
  proof (cases i)
    case 0
    then show ?thesis by simp
  next
    case (Suc j)
    then show ?thesis using Cons.IH [of j] Cons.prems by simp
  qed
qed

lemma occ_concat: "occ (\<lambda>q. q) qs t = cnt (concat qs) t"
  by (induction qs) (simp_all add: count_list_append)

lemma occ_map_none: "(\<And>x. f (g x) = []) \<Longrightarrow> occ f (map g xs) t = 0"
  by (induction xs) simp_all

lemma occ_replicate_Nil: "occ (\<lambda>q. q) (replicate n []) t = 0"
  by (induction n) simp_all

lemma cnt_butlast: "q \<noteq> [] \<Longrightarrow> cnt (butlast q) t = cnt q t - (if last q = t then 1 else 0)"
  by (induction q rule: rev_induct) (auto simp: count_list_append)

lemma cnt_remove1: "t \<in> set xs \<Longrightarrow> cnt (remove1 t xs) u = cnt xs u - (if u = t then 1 else 0)"
  by (induction xs) auto

lemma cnt_pos: "t \<in> set xs \<Longrightarrow> 1 \<le> cnt xs t"
  by (induction xs) auto

text \<open>
  The balance of a task, in the numbers of places it occurs in: queues \<open>q\<close>, lost \<open>l\<close>, running
  \<open>b\<close>, to be freed by its runner \<open>f\<close>, client handles \<open>h\<close>, awaits before the barrier \<open>w\<close>, at it \<open>r\<close>
  and behind it \<open>d\<close>, starts \<open>st\<close> and frees \<open>fr\<close>.
\<close>

definition balance ::
  "'e task option \<Rightarrow> 'e option \<Rightarrow> bool \<Rightarrow> int \<Rightarrow> int \<Rightarrow> int \<Rightarrow> int \<Rightarrow> int \<Rightarrow> int \<Rightarrow> int \<Rightarrow> int \<Rightarrow> int \<Rightarrow> int \<Rightarrow> bool"
where
  "balance k outc spawned q l b f h w r d st fr \<longleftrightarrow>
     (case k of
        None \<Rightarrow> q = 0 \<and> l = 0 \<and> b = 0 \<and> f = 0 \<and> h = 0 \<and> w = 0 \<and> r = 0 \<and> d = 0 \<and> fr = of_bool spawned
      | Some k \<Rightarrow>
          spawned \<and> tk_outcome k = outc \<and> fr = 0 \<and>
          q + l + b = of_bool (\<not> tk_done k) \<and> f = of_bool (tk_done k \<and> tk_detached k) \<and>
          h + w + r + d = of_bool (\<not> tk_detached k) \<and>
          (\<not> tk_done k \<longrightarrow> r = 0 \<and> d = 0 \<and> tk_exception k = None) \<and>
          (tk_done k \<and> d = 0 \<longrightarrow> tk_exception k = outc)) \<and>
     st = of_bool spawned - q - l \<and>
     0 \<le> q \<and> 0 \<le> l \<and> 0 \<le> b \<and> 0 \<le> f \<and> 0 \<le> h \<and> 0 \<le> w \<and> 0 \<le> r \<and> 0 \<le> d"

lemma balance_pending:
  assumes "balance x outc sp q l b f h w r d st fr" and "1 \<le> q + l + b"
  obtains k where "x = Some k" "\<not> tk_done k"
proof (cases x)
  case None
  with assms show thesis by (simp add: balance_def)
next
  case (Some k)
  with assms have "\<not> tk_done k" by (cases "tk_done k") (auto simp: balance_def)
  with Some that show thesis by simp
qed

lemma balance_freeing:
  assumes "balance x outc sp q l b f h w r d st fr" and "1 \<le> f + r + d"
  obtains k where "x = Some k" "tk_done k"
proof (cases x)
  case None
  with assms show thesis by (simp add: balance_def)
next
  case (Some k)
  with assms have "tk_done k" by (cases "tk_done k") (auto simp: balance_def)
  with Some that show thesis by simp
qed

lemma balance_held:
  assumes "balance x outc sp q l b f h w r d st fr" and "1 \<le> h + w + r + d"
  obtains k where "x = Some k" "\<not> tk_detached k"
proof (cases x)
  case None
  with assms show thesis by (simp add: balance_def)
next
  case (Some k)
  with assms have "\<not> tk_detached k" by (cases "tk_detached k") (auto simp: balance_def)
  with Some that show thesis by simp
qed

lemma balance_barrier:
  assumes "balance (Some k) outc sp q l b f h w r d st fr" and "1 \<le> r"
  shows "tk_done k" and "tk_exception k = outc" and sp
  using assms by (cases "tk_done k"; cases "tk_detached k"; auto simp: balance_def)+

lemma balance_free:
  assumes "balance (Some k) outc sp q l b f h w r d st fr" and "tk_done k"
    and "x + y = 1" and "0 \<le> x" and "x \<le> f" and "0 \<le> y" and "y \<le> d"
  shows "balance None outc sp q l b (f - x) h w r (d - y) st (fr + 1)"
proof -
  have *: "q + l + b = 0" "f = of_bool (tk_detached k)" "h + w + r + d = of_bool (\<not> tk_detached k)" "fr = 0" "sp"
    "st = of_bool sp - q - l" "0 \<le> q" "0 \<le> l" "0 \<le> b" "0 \<le> f" "0 \<le> h" "0 \<le> w" "0 \<le> r" "0 \<le> d"
    using assms(1,2) by (simp_all add: balance_def)
  have "q = 0 \<and> l = 0 \<and> b = 0" using * by linarith
  moreover have "f = x \<and> h = 0 \<and> w = 0 \<and> r = 0 \<and> d = y"
    using * assms(3-7) by (cases "tk_detached k"; simp; linarith)
  ultimately show ?thesis using * by (simp add: balance_def)
qed

lemma balance_capture:
  assumes "balance (Some k) outc sp q l b f h w r d st fr" and "1 \<le> r"
  shows "balance (Some (k\<lparr>tk_exception := None\<rparr>)) outc sp q l b f h w (r - 1) (d + 1) st fr"
  using assms balance_barrier(1) [OF assms] by (simp add: balance_def)

definition task_inv :: "'e pool \<Rightarrow> nat \<Rightarrow> bool" where
  "task_inv s t \<longleftrightarrow>
     balance (heap s t) (outcomes s t) (t < fresh s) (occ (\<lambda>q. q) (queues s) t) (cnt (lost s) t)
       (occ body_of (agents s) t) (occ free_of (agents s) t) (cnt (handles s) t)
       (occ wait_of (agents s) t) (occ barrier_of (agents s) t) (occ delete_of (agents s) t)
       (cnt (starts s) t) (cnt (frees s) t)"

definition agent_ok :: "'e pool \<Rightarrow> 'e pc \<Rightarrow> bool" where
  "agent_ok s p \<longleftrightarrow>
     (case p of
        W_own w \<Rightarrow> pool_exists s \<and> w < num_workers s
      | W_steal w st k \<Rightarrow> pool_exists s \<and> w < num_workers s
      | W_body w t \<Rightarrow> pool_exists s \<and> w < num_workers s
      | W_free w t \<Rightarrow> pool_exists s \<and> w < num_workers s
      | W_check w \<Rightarrow> pool_exists s \<and> w < num_workers s
      | W_wait w \<Rightarrow> pool_exists s \<and> w < num_workers s
      | A_seed t g \<Rightarrow> pool_exists s \<and> g = generation s
      | A_scan t g st k \<Rightarrow> pool_exists s \<and> g = generation s
      | A_delete t e \<Rightarrow> t < fresh s \<and> e = outcomes s t
      | A_done t e \<Rightarrow> t < fresh s \<and> e = outcomes s t \<and> heap s t = None
      | _ \<Rightarrow> True)"

definition pool_ok :: "'e pool \<Rightarrow> bool" where
  "pool_ok s \<longleftrightarrow>
     \<not> (g_pool s \<and> stopping s) \<and> \<not> bad s \<and>
     (if pool_exists s then length (queues s) = num_workers s \<and> 0 < num_workers s else queues s = [])"

definition pool_inv :: "'e pool \<Rightarrow> bool" where
  "pool_inv s \<longleftrightarrow> (\<forall>t. task_inv s t) \<and> (\<forall>p\<in>set (agents s). agent_ok s p) \<and> pool_ok s"

lemma pool_inv_start: "pool_inv pool_start"
  by (simp add: pool_inv_def task_inv_def balance_def pool_ok_def pool_start_def)

lemma pool_size_pos: "0 < pool_size n hw"
  by (simp add: pool_size_def Let_def)

lemma init_inv:
  assumes "pool_inv s" and "\<not> stopping s"
  shows "pool_inv (topo_parallel_ensure_init n hw s) \<and> g_pool (topo_parallel_ensure_init n hw s)
         \<and> \<not> stopping (topo_parallel_ensure_init n hw s)"
proof (cases "g_pool s")
  case True
  with assms show ?thesis by (simp add: topo_parallel_ensure_init_def)
next
  case False
  then have none: "\<not> pool_exists s" using assms(2) by simp
  then have q: "queues s = []" using assms(1) by (simp add: pool_inv_def pool_ok_def)
  have old: "agent_ok (do_init n hw s) p" if "p \<in> set (agents s)" for p
    using assms(1) that none by (cases p) (auto simp: pool_inv_def agent_ok_def do_init_def Let_def)
  have new: "agent_ok (do_init n hw s) (W_own w)" if "w < pool_size n hw" for w
    using that by (simp add: agent_ok_def do_init_def Let_def)
  have "task_inv (do_init n hw s) t" for t
  proof -
    have "task_inv s t" using assms(1) by (simp add: pool_inv_def)
    then show ?thesis using q by (simp add: task_inv_def do_init_def Let_def occ_map_none occ_replicate_Nil)
  qed
  with old new False show ?thesis using assms pool_size_pos [of n hw]
    by (auto simp: pool_inv_def pool_ok_def topo_parallel_ensure_init_def do_init_def Let_def)
qed

lemma spawn_inv:
  assumes "pool_inv s" and "g_pool s"
  shows "pool_inv (topo_task_spawn_ret_pri oc pri s)"
proof -
  let ?t = "fresh s"
  have ok: "pool_ok s" using assms(1) by (simp add: pool_inv_def)
  then have n: "0 < num_workers s" "length (queues s) = num_workers s" using assms(2) by (auto simp: pool_ok_def)
  then have target: "unat c mod num_workers s < length (queues s)" for c :: u64 by simp
  have "task_inv s ?t" using assms(1) by (simp add: pool_inv_def)
  then have fresh: "heap s ?t = None" by (auto simp: task_inv_def balance_def split: option.splits)
  have "agent_ok (topo_task_spawn_ret_pri oc pri s) p" if "p \<in> set (agents s)" for p
  proof -
    have "agent_ok s p" using assms(1) that by (simp add: pool_inv_def)
    then show ?thesis
      by (cases p) (auto simp: agent_ok_def topo_task_spawn_ret_pri_def submit_def Let_def)
  qed
  moreover have "task_inv (topo_task_spawn_ret_pri oc pri s) t" for t
  proof -
    have "task_inv s t" using assms(1) by (simp add: pool_inv_def)
    note defs = task_inv_def topo_task_spawn_ret_pri_def submit_def Let_def occ_update [OF target] count_list_append
    show ?thesis
    proof (cases "t = ?t")
      case True
      with \<open>task_inv s t\<close> fresh show ?thesis by (simp add: defs) (simp add: balance_def)
    next
      case False
      with \<open>task_inv s t\<close> show ?thesis by (simp add: defs less_Suc_eq)
    qed
  qed
  moreover have "pool_ok (topo_task_spawn_ret_pri oc pri s)"
    using ok assms(2) by (auto simp: pool_ok_def topo_task_spawn_ret_pri_def submit_def Let_def)
  moreover have "agents (topo_task_spawn_ret_pri oc pri s) = agents s"
    by (simp add: topo_task_spawn_ret_pri_def submit_def Let_def)
  ultimately show ?thesis by (simp add: pool_inv_def)
qed

section \<open>Steps of the agents\<close>

lemmas set_pc_simps [simp] = set_pc_def begin_body_def

lemma agent_ok_keep:
  assumes "agent_ok s p" and "pool_exists s' = pool_exists s" and "num_workers s' = num_workers s"
    and "generation s' = generation s" and "fresh s' = fresh s" and "outcomes s' = outcomes s"
    and "\<And>t. t < fresh s \<Longrightarrow> heap s t = None \<Longrightarrow> heap s' t = None"
  shows "agent_ok s' p"
  using assms by (cases p) (auto simp: agent_ok_def)

lemma agents_keep:
  assumes "pool_inv s" and "agents s' = (agents s)[i := p']" and "agent_ok s' p'"
    and "pool_exists s' = pool_exists s" and "num_workers s' = num_workers s"
    and "generation s' = generation s" and "fresh s' = fresh s" and "outcomes s' = outcomes s"
    and "\<And>t. t < fresh s \<Longrightarrow> heap s t = None \<Longrightarrow> heap s' t = None"
  shows "\<forall>p\<in>set (agents s'). agent_ok s' p"
proof
  fix p assume "p \<in> set (agents s')"
  then have "p = p' \<or> p \<in> set (agents s)" using assms(2) set_update_subset_insert [of "agents s" i p'] by auto
  then show "agent_ok s' p"
  proof
    assume "p \<in> set (agents s)"
    then have "agent_ok s p" using assms(1) by (simp add: pool_inv_def)
    then show ?thesis by (rule agent_ok_keep) (use assms in auto)
  qed (use assms(3) in simp)
qed

text \<open>A step that only moves the program counter.\<close>

lemma move_inv:
  assumes "pool_inv s" and "i < length (agents s)" and "agent_ok s p'"
    and "body_of p' = body_of (agents s ! i)" and "free_of p' = free_of (agents s ! i)"
    and "wait_of p' = wait_of (agents s ! i)" and "barrier_of p' = barrier_of (agents s ! i)"
    and "delete_of p' = delete_of (agents s ! i)"
  shows "pool_inv (set_pc i p' s)"
proof -
  have "task_inv (set_pc i p' s) t" for t
    using assms(1,2) by (simp add: pool_inv_def task_inv_def occ_update assms(4-8))
  moreover have "agent_ok (set_pc i p' s) p'" using assms(3) by (cases p') (simp_all add: agent_ok_def)
  then have "\<forall>p\<in>set (agents (set_pc i p' s)). agent_ok (set_pc i p' s) p"
    by (intro agents_keep [OF assms(1), where i = i and p' = p']) simp_all
  ultimately show ?thesis using assms(1) by (simp add: pool_inv_def pool_ok_def)
qed

text \<open>A pop that finds a task, by a worker or a helper.\<close>

definition popped :: "'e pool \<Rightarrow> nat \<Rightarrow> 'e pool \<Rightarrow> bool" where
  "popped s t s' \<longleftrightarrow>
     (\<exists>qs. s' = s\<lparr>queues := qs\<rparr> \<and> length qs = length (queues s) \<and>
           (\<forall>u. occ (\<lambda>q. q) qs u = occ (\<lambda>q. q) (queues s) u - (if u = t then 1 else 0)))"

lemma pop_front_Some:
  "v < length (queues s) \<Longrightarrow> pop_front v s = (Some t, s') \<Longrightarrow> popped s t s'"
  by (auto simp: pop_front_def popped_def occ_update split: list.splits)

lemma pop_back_Some:
  "v < length (queues s) \<Longrightarrow> pop_back v s = (Some t, s') \<Longrightarrow> popped s t s'"
  by (auto simp: pop_back_def popped_def occ_update cnt_butlast split: if_splits)

lemma pop_None: "pop_front v s = (None, s') \<Longrightarrow> s' = s" "pop_back v s = (None, s') \<Longrightarrow> s' = s"
  by (auto simp: pop_front_def pop_back_def split: list.splits if_splits)

lemma take_inv:
  assumes "pool_inv s" and "i < length (agents s)" and "popped s t s1" and "agent_ok s p'"
    and "body_of p' = [t]" and "body_of (agents s ! i) = []" and "free_of p' = free_of (agents s ! i)"
    and "wait_of p' = wait_of (agents s ! i)" and "barrier_of p' = barrier_of (agents s ! i)"
    and "delete_of p' = delete_of (agents s ! i)"
  shows "pool_inv (begin_body t (set_pc i p' s1))"
proof -
  obtain qs where s1: "s1 = s\<lparr>queues := qs\<rparr>" and len: "length qs = length (queues s)"
    and q: "\<And>u. occ (\<lambda>q. q) qs u = occ (\<lambda>q. q) (queues s) u - (if u = t then 1 else 0)"
    using assms(3) by (auto simp: popped_def)
  have "task_inv (begin_body t (set_pc i p' s1)) u" for u
  proof -
    have B: "task_inv s u" using assms(1) by (simp add: pool_inv_def)
    have nonneg: "0 \<le> occ (\<lambda>q. q) qs u" by simp
    note eqs = task_inv_def s1 occ_update q assms(5-10) count_list_append
    show ?thesis
    proof (cases "u = t")
      case True
      with B nonneg assms(2) show ?thesis by (simp add: eqs) (auto simp: balance_def split: option.splits)
    next
      case False
      with B assms(2) show ?thesis by (simp add: eqs)
    qed
  qed
  moreover have "agent_ok (begin_body t (set_pc i p' s1)) p'"
    using assms(4) by (cases p') (simp_all add: agent_ok_def s1)
  then have "\<forall>p\<in>set (agents (begin_body t (set_pc i p' s1))). agent_ok (begin_body t (set_pc i p' s1)) p"
    by (intro agents_keep [OF assms(1), where i = i and p' = p']) (simp_all add: s1)
  ultimately show ?thesis using assms(1) len by (auto simp: pool_inv_def pool_ok_def s1)
qed

text \<open>The body has returned or thrown.\<close>

lemma finish_inv:
  assumes "pool_inv s" and "i < length (agents s)" and "run_task_safely t s = (freeHere, s1)"
    and "body_of (agents s ! i) = [t]" and "free_of (agents s ! i) = []"
    and "agent_ok s p'" and "body_of p' = []" and "free_of p' = (if freeHere then [t] else [])"
    and "wait_of p' = wait_of (agents s ! i)" and "barrier_of p' = barrier_of (agents s ! i)"
    and "delete_of p' = delete_of (agents s ! i)"
  shows "pool_inv (set_pc i p' s1)"
proof -
  have Bt: "task_inv s t" using assms(1) by (simp add: pool_inv_def)
  have b: "1 \<le> occ body_of (agents s) t" using occ_member [OF assms(2), of body_of t] assms(4) by simp
  have "1 \<le> occ (\<lambda>q. q) (queues s) t + cnt (lost s) t + occ body_of (agents s) t"
    using b occ_nonneg [of "\<lambda>q. q" "queues s" t] by linarith
  then obtain k where k: "heap s t = Some k" "\<not> tk_done k"
    using balance_pending Bt unfolding task_inv_def by metis
  define k' where "k' = (case tk_outcome k of None \<Rightarrow> k | Some e \<Rightarrow> k\<lparr>tk_exception := Some e\<rparr>)\<lparr>tk_done := True\<rparr>"
  have s1: "s1 = s\<lparr>heap := (heap s)(t \<mapsto> k')\<rparr>" and fh: "freeHere = tk_detached k'"
    using assms(3) k by (auto simp: run_task_safely_def k'_def Let_def)
  have k': "tk_done k'" "tk_detached k' = tk_detached k" "tk_outcome k' = tk_outcome k"
    and ex: "tk_exception k = None \<Longrightarrow> tk_exception k' = tk_outcome k"
    by (auto simp: k'_def split: option.splits)
  have "task_inv (set_pc i p' s1) u" for u
  proof -
    have B: "task_inv s u" using assms(1) by (simp add: pool_inv_def)
    note eqs = task_inv_def s1 occ_update assms(4,5,7-11)
    show ?thesis
    proof (cases "u = t")
      case True
      with B b k k' ex assms(2) show ?thesis
        by (simp add: eqs) (auto simp: balance_def fh split: if_splits)
    next
      case False
      with B assms(2) show ?thesis by (simp add: eqs)
    qed
  qed
  moreover have "agent_ok (set_pc i p' s1) p'"
  proof -
    have "agent_ok (set_pc i p' s1) p' = agent_ok s p'"
      using assms(6) k by (cases p') (auto simp: agent_ok_def s1)
    with assms(6) show ?thesis by simp
  qed
  then have "\<forall>p\<in>set (agents (set_pc i p' s1)). agent_ok (set_pc i p' s1) p"
    using k by (intro agents_keep [OF assms(1), where i = i and p' = p']) (auto simp: s1)
  ultimately show ?thesis using assms(1) by (auto simp: pool_inv_def pool_ok_def s1)
qed

text \<open>The runner of a detached task, or the awaiter behind the barrier, frees it.\<close>

lemma delete_inv:
  assumes "pool_inv s" and "i < length (agents s)"
    and "free_of (agents s ! i) @ delete_of (agents s ! i) = [t]" and "free_of p' = []" and "delete_of p' = []"
    and "body_of p' = body_of (agents s ! i)"
    and "wait_of p' = wait_of (agents s ! i)" and "barrier_of p' = barrier_of (agents s ! i)"
    and ok: "agent_ok (s\<lparr>heap := (heap s)(t := None)\<rparr>) p'"
  shows "pool_inv (delete_task t (set_pc i p' s))"
proof -
  have Bt: "task_inv s t" using assms(1) by (simp add: pool_inv_def)
  have fd: "1 \<le> occ free_of (agents s) t + occ delete_of (agents s) t"
    using occ_member [OF assms(2), of free_of t] occ_member [OF assms(2), of delete_of t]
      arg_cong [OF assms(3), of "\<lambda>l. cnt l t"]
    by (simp add: count_list_append)
  have "1 \<le> occ free_of (agents s) t + occ barrier_of (agents s) t + occ delete_of (agents s) t"
    using fd occ_nonneg [of barrier_of "agents s" t] by linarith
  then obtain k where k: "heap s t = Some k" "tk_done k"
    using balance_freeing Bt unfolding task_inv_def by metis
  have del: "delete_task t (set_pc i p' s)
      = s\<lparr>heap := (heap s)(t := None), frees := frees s @ [t], agents := (agents s)[i := p']\<rparr>" (is "_ = ?s")
    using k by (simp add: delete_task_def)
  have "task_inv ?s u" for u
  proof -
    have B: "task_inv s u" using assms(1) by (simp add: pool_inv_def)
    have split: "cnt (free_of (agents s ! i)) u + cnt (delete_of (agents s ! i)) u = (if u = t then 1 else 0)"
      using arg_cong [OF assms(3), of "\<lambda>l. cnt l u"] by (simp add: count_list_append)
    have "0 \<le> occ free_of ((agents s)[i := p']) u" and "0 \<le> occ delete_of ((agents s)[i := p']) u" by simp_all
    with assms(2) have nonneg: "cnt (free_of (agents s ! i)) u \<le> occ free_of (agents s) u"
      "cnt (delete_of (agents s ! i)) u \<le> occ delete_of (agents s) u"
      by (simp_all add: occ_update assms(4,5))
    note eqs = task_inv_def occ_update assms(4-8) count_list_append
    show ?thesis
    proof (cases "u = t")
      case True
      have "balance None (outcomes s u) (u < fresh s) (occ (\<lambda>q. q) (queues s) u) (cnt (lost s) u)
          (occ body_of (agents s) u) (occ free_of (agents s) u - cnt (free_of (agents s ! i)) u) (cnt (handles s) u)
          (occ wait_of (agents s) u) (occ barrier_of (agents s) u)
          (occ delete_of (agents s) u - cnt (delete_of (agents s ! i)) u) (cnt (starts s) u) (cnt (frees s) u + 1)"
        using B k True split nonneg by (intro balance_free [of k]) (simp_all add: task_inv_def)
      with True assms(2) show ?thesis by (simp add: eqs add_ac)
    next
      case False
      with split have "count_list (free_of (agents s ! i)) u = 0 \<and> count_list (delete_of (agents s ! i)) u = 0" by simp
      with False B assms(2) show ?thesis by (simp add: eqs)
    qed
  qed
  moreover have "agent_ok ?s p'" using ok by (cases p') (simp_all add: agent_ok_def)
  then have "\<forall>p\<in>set (agents ?s). agent_ok ?s p"
    by (intro agents_keep [OF assms(1), where i = i and p' = p']) auto
  ultimately have "pool_inv ?s" using assms(1) by (auto simp: pool_inv_def pool_ok_def)
  then show ?thesis by (simp only: del)
qed

lemma waiting_alloc:
  assumes "pool_inv s" and "i < length (agents s)"
    and "wait_of (agents s ! i) @ barrier_of (agents s ! i) = [t]"
  obtains k where "heap s t = Some k" "\<not> tk_detached k" "barrier_of (agents s ! i) = [t] \<longrightarrow> tk_done k"
proof -
  have B: "task_inv s t" using assms(1) by (simp add: pool_inv_def)
  have w: "1 \<le> occ wait_of (agents s) t + occ barrier_of (agents s) t"
    using occ_member [OF assms(2), of wait_of t] occ_member [OF assms(2), of barrier_of t]
      arg_cong [OF assms(3), of "\<lambda>l. cnt l t"]
    by (simp add: count_list_append)
  then have "1 \<le> cnt (handles s) t + occ wait_of (agents s) t + occ barrier_of (agents s) t + occ delete_of (agents s) t"
    using occ_nonneg [of delete_of "agents s" t] by linarith
  then obtain k where k: "heap s t = Some k" "\<not> tk_detached k"
    using balance_held B unfolding task_inv_def by metis
  have "tk_done k" if "barrier_of (agents s ! i) = [t]"
  proof -
    have "1 \<le> occ barrier_of (agents s) t" using occ_member [OF assms(2), of barrier_of t] that by simp
    then have "1 \<le> occ free_of (agents s) t + occ barrier_of (agents s) t + occ delete_of (agents s) t"
      using occ_nonneg [of free_of "agents s" t] occ_nonneg [of delete_of "agents s" t] by linarith
    then show ?thesis using balance_freeing B k unfolding task_inv_def by (metis option.inject)
  qed
  with k that show thesis by blast
qed

text \<open>\<open>done\<close> seen: to the barrier; the exception taken at it.\<close>

lemma to_barrier_inv:
  assumes "pool_inv s" and "i < length (agents s)" and "agents s ! i = A_loop t"
    and "heap s t = Some k" and "tk_done k"
  shows "pool_inv (set_pc i (A_barrier t) s)"
proof -
  have "task_inv (set_pc i (A_barrier t) s) u" for u
  proof -
    have B: "task_inv s u" using assms(1) by (simp add: pool_inv_def)
    have "cnt (wait_of (agents s ! i)) u \<le> occ wait_of (agents s) u" using assms(2) by (rule occ_member)
    with B assms(2-5) show ?thesis
      by (cases "u = t") (simp_all add: task_inv_def occ_update, simp add: balance_def)
  qed
  moreover have "\<forall>p\<in>set (agents (set_pc i (A_barrier t) s)). agent_ok (set_pc i (A_barrier t) s) p"
    by (intro agents_keep [OF assms(1), where i = i and p' = "A_barrier t"]) (simp_all add: agent_ok_def)
  ultimately show ?thesis using assms(1) by (simp add: pool_inv_def pool_ok_def)
qed

lemma barrier_inv:
  assumes "pool_inv s" and "i < length (agents s)" and "agents s ! i = A_barrier t" and k: "heap s t = Some k"
    and s': "s' = set_pc i (A_delete t (tk_exception k)) (s\<lparr>heap := (heap s)(t \<mapsto> k\<lparr>tk_exception := None\<rparr>)\<rparr>)"
  shows "pool_inv s'"
proof -
  have Bt: "task_inv s t" using assms(1) by (simp add: pool_inv_def)
  have r: "1 \<le> occ barrier_of (agents s) t" using occ_member [OF assms(2), of barrier_of t] assms(3) by simp
  then have k_facts: "tk_done k" "tk_exception k = outcomes s t" "t < fresh s"
    using balance_barrier Bt k unfolding task_inv_def by metis+
  have "task_inv s' u" for u
  proof -
    have B: "task_inv s u" using assms(1) by (simp add: pool_inv_def)
    show ?thesis
    proof (cases "u = t")
      case True
      have "balance (Some (k\<lparr>tk_exception := None\<rparr>)) (outcomes s u) (u < fresh s) (occ (\<lambda>q. q) (queues s) u)
          (cnt (lost s) u) (occ body_of (agents s) u) (occ free_of (agents s) u) (cnt (handles s) u)
          (occ wait_of (agents s) u) (occ barrier_of (agents s) u - 1) (occ delete_of (agents s) u + 1)
          (cnt (starts s) u) (cnt (frees s) u)"
        using B k r True by (intro balance_capture) (simp_all add: task_inv_def)
      with True assms(2,3) show ?thesis by (simp add: task_inv_def s' occ_update)
    next
      case False
      with B k assms(2,3) show ?thesis by (simp add: task_inv_def s' occ_update)
    qed
  qed
  moreover have "\<forall>p\<in>set (agents s'). agent_ok s' p"
    using k k_facts
    by (intro agents_keep [OF assms(1), where i = i and p' = "A_delete t (tk_exception k)"])
      (auto simp: s' agent_ok_def)
  ultimately show ?thesis using assms(1) by (simp add: pool_inv_def pool_ok_def s')
qed

section \<open>Every step keeps the balance\<close>

lemma agent_ok_at: "pool_inv s \<Longrightarrow> i < length (agents s) \<Longrightarrow> agent_ok s (agents s ! i)"
  by (simp add: pool_inv_def)

lemma queue_index:
  "pool_inv s \<Longrightarrow> pool_exists s \<Longrightarrow> w < num_workers s \<Longrightarrow> w < length (queues s)"
  by (simp add: pool_inv_def pool_ok_def)

lemma queue_scan_index:
  "pool_inv s \<Longrightarrow> pool_exists s \<Longrightarrow> n mod num_workers s < length (queues s)"
  by (simp add: pool_inv_def pool_ok_def)

lemma worker_inv:
  assumes "pool_inv s" and "i < length (agents s)" and "is_worker (agents s ! i)"
  shows "pool_inv (worker_loop r i (agents s ! i) s)"
proof -
  note ok = agent_ok_at [OF assms(1,2)]
  note move = move_inv [OF assms(1,2)] and take = take_inv [OF assms(1,2)]
    and finish = finish_inv [OF assms(1,2)] and free = delete_inv [OF assms(1,2)]
  show ?thesis
  proof (cases "agents s ! i")
    case (W_own w)
    with ok have w: "pool_exists s" "w < num_workers s" by (auto simp: agent_ok_def)
    show ?thesis
    proof (cases "pop_front w s")
      case (Pair x s1)
      show ?thesis
      proof (cases x)
        case None
        with Pair pop_None(1) have "s1 = s" by metis
        then show ?thesis using None Pair W_own w
          by (auto simp del: set_pc_simps simp: agent_ok_def intro!: move)
      next
        case (Some t)
        with Pair have "popped s t s1" using pop_front_Some queue_index [OF assms(1) w] by metis
        then show ?thesis using Some Pair W_own w
          by (auto simp del: set_pc_simps simp: agent_ok_def intro!: take)
      qed
    qed
  next
    case (W_steal w st k)
    with ok have w: "pool_exists s" "w < num_workers s" by (auto simp: agent_ok_def)
    let ?v = "(st + k) mod num_workers s"
    show ?thesis
    proof (cases "pop_back ?v s")
      case (Pair x s1)
      show ?thesis
      proof (cases x)
        case None
        with Pair pop_None(2) have "s1 = s" by metis
        then show ?thesis using None Pair W_steal w
          by (auto simp del: set_pc_simps simp: agent_ok_def Let_def intro!: move)
      next
        case (Some t)
        with Pair have "popped s t s1" using pop_back_Some queue_scan_index [OF assms(1) w(1)] by metis
        then show ?thesis using Some Pair W_steal w
          by (auto simp del: set_pc_simps simp: agent_ok_def Let_def intro!: move take)
      qed
    qed
  next
    case (W_body w t)
    with ok show ?thesis
      by (cases "run_task_safely t s") (auto simp del: set_pc_simps simp: agent_ok_def intro!: finish)
  next
    case (W_free w t)
    with ok show ?thesis by (auto simp del: set_pc_simps simp: agent_ok_def intro!: free)
  next
    case (W_check w)
    with ok show ?thesis by (auto simp del: set_pc_simps simp: agent_ok_def intro!: move)
  next
    case (W_wait w)
    with ok show ?thesis by (auto simp del: set_pc_simps simp: agent_ok_def intro!: move)
  qed (use assms(3) in simp_all)
qed

lemma await_inv:
  assumes "pool_inv s" and "i < length (agents s)"
  shows "pool_inv (topo_task_await i (agents s ! i) s)"
proof -
  note ok = agent_ok_at [OF assms]
  note move = move_inv [OF assms] and take = take_inv [OF assms]
    and finish = finish_inv [OF assms] and free = delete_inv [OF assms]
  note held = waiting_alloc [OF assms]
  show ?thesis
  proof (cases "agents s ! i")
    case (A_loop t)
    then obtain k where k: "heap s t = Some k" using held [of t] by auto
    show ?thesis
    proof (cases "tk_done k")
      case True
      with k A_loop to_barrier_inv [OF assms A_loop k] show ?thesis by (simp del: set_pc_simps)
    next
      case False
      with k A_loop show ?thesis by (auto simp del: set_pc_simps simp: agent_ok_def intro!: move)
    qed
  next
    case (A_seed t g)
    with ok have g: "pool_exists s" "g = generation s" by (auto simp: agent_ok_def)
    let ?s = "s\<lparr>submit_counter := submit_counter s + 1\<rparr>"
    have "agent_ok ?s = agent_ok s" by (rule ext) (simp add: agent_ok_def split: pc.split)
    then have "pool_inv ?s" using assms(1) by (simp add: pool_inv_def task_inv_def pool_ok_def)
    then have "pool_inv (set_pc i (A_scan t g (unat (submit_counter s) mod num_workers s) 0) ?s)"
      using A_seed assms(2) g by (intro move_inv) (simp_all add: agent_ok_def)
    moreover have "0 < num_workers s" using assms(1) g by (auto simp: pool_inv_def pool_ok_def)
    ultimately show ?thesis using A_seed g by (simp add: Let_def)
  next
    case (A_scan t g st k)
    with ok have g: "pool_exists s" "g = generation s" by (auto simp: agent_ok_def)
    let ?v = "(st + k) mod num_workers s"
    show ?thesis
    proof (cases "pop_back ?v s")
      case (Pair x s1)
      show ?thesis
      proof (cases x)
        case None
        with Pair pop_None(2) have "s1 = s" by metis
        then show ?thesis using None Pair A_scan g
          by (auto simp del: set_pc_simps simp: agent_ok_def Let_def intro!: move)
      next
        case (Some h)
        with Pair have "popped s h s1" using pop_back_Some queue_scan_index [OF assms(1) g(1)] by metis
        then show ?thesis using Some Pair A_scan g
          by (auto simp del: set_pc_simps simp: agent_ok_def Let_def intro!: move take)
      qed
    qed
  next
    case (A_body t h)
    then show ?thesis
      by (cases "run_task_safely h s") (auto simp del: set_pc_simps simp: agent_ok_def intro!: finish)
  next
    case (A_free t h)
    then show ?thesis by (auto simp del: set_pc_simps simp: agent_ok_def intro!: free)
  next
    case (A_park t)
    then obtain k where k: "heap s t = Some k" using held [of t] by auto
    with A_park show ?thesis by (auto simp del: set_pc_simps simp: agent_ok_def intro!: move)
  next
    case (A_barrier t)
    then obtain k where k: "heap s t = Some k" using held [of t] by auto
    with A_barrier barrier_inv [OF assms A_barrier k refl] show ?thesis by (simp del: set_pc_simps)
  next
    case (A_delete t e)
    with ok show ?thesis by (auto simp del: set_pc_simps simp: agent_ok_def intro!: free)
  qed (use assms(1) in simp_all)
qed

lemma begin_await_inv:
  assumes "pool_inv s" and "t \<in> set (handles s)"
  shows "pool_inv (exec (BeginAwait t) s)"
proof -
  have "task_inv (exec (BeginAwait t) s) u" for u
  proof -
    have B: "task_inv s u" using assms(1) by (simp add: pool_inv_def)
    have h: "1 \<le> cnt (handles s) t" using assms(2) by (rule cnt_pos)
    have shift: "balance x outc sp q l b f (h - 1) (w + 1) r d st fr"
      if "balance x outc sp q l b f h w r d st fr" and "1 \<le> h" for x :: "'a task option" and outc sp q l b f h w r d st fr
      using that by (auto simp: balance_def split: option.splits)
    show ?thesis
    proof (cases "u = t")
      case True
      with shift [OF B [unfolded task_inv_def]] h show ?thesis
        by (simp add: task_inv_def cnt_remove1 [OF assms(2)])
    next
      case False
      with B show ?thesis by (simp add: task_inv_def cnt_remove1 [OF assms(2)])
    qed
  qed
  moreover have "agent_ok (exec (BeginAwait t) s) p" if "agent_ok s p" for p
    using that by (rule agent_ok_keep) simp_all
  moreover have "agent_ok (exec (BeginAwait t) s) (A_loop t)" by (simp add: agent_ok_def)
  ultimately show ?thesis using assms(1) by (auto simp: pool_inv_def pool_ok_def)
qed

lemma detach_inv:
  assumes "pool_inv s" and "t \<in> set (handles s)"
  shows "pool_inv (topo_task_detach t s)"
proof -
  have Bt: "task_inv s t" using assms(1) by (simp add: pool_inv_def)
  have h: "1 \<le> cnt (handles s) t" using assms(2) by (rule cnt_pos)
  have "1 \<le> cnt (handles s) t + occ wait_of (agents s) t + occ barrier_of (agents s) t + occ delete_of (agents s) t"
    using h occ_nonneg [of wait_of "agents s" t] occ_nonneg [of barrier_of "agents s" t]
      occ_nonneg [of delete_of "agents s" t] by linarith
  then obtain k where k: "heap s t = Some k" "\<not> tk_detached k"
    using balance_held Bt unfolding task_inv_def by metis
  define s' where "s' = topo_task_detach t s"
  have heap': "heap s' = (heap s)(t := if tk_done k then None else Some (k\<lparr>tk_detached := True\<rparr>))"
    and rest: "handles s' = remove1 t (handles s)" "agents s' = agents s" "queues s' = queues s" "lost s' = lost s"
      "starts s' = starts s" "frees s' = frees s @ (if tk_done k then [t] else [])" "fresh s' = fresh s"
      "outcomes s' = outcomes s" "bad s' = bad s" "g_pool s' = g_pool s" "stopping s' = stopping s"
      "num_workers s' = num_workers s" "generation s' = generation s"
    using k by (simp_all add: s'_def topo_task_detach_def delete_task_def Let_def)
  have "task_inv s' u" for u
  proof (cases "u = t")
    case True
    have "balance (if tk_done k then None else Some (k\<lparr>tk_detached := True\<rparr>)) outc sp q l b f (h - 1) w r d st
        (fr + (if tk_done k then 1 else 0))"
      if "balance (Some k) outc sp q l b f h w r d st fr" and "1 \<le> h" for outc sp q l b f h w r d st fr
      using that k(2) by (cases "tk_done k"; auto simp: balance_def)
    from this [OF Bt [unfolded task_inv_def k(1)] h] True h show ?thesis
      by (cases "tk_done k")
        (simp_all add: task_inv_def heap' rest cnt_remove1 [OF assms(2)] count_list_append add_ac of_nat_diff)
  next
    case False
    have "task_inv s u" using assms(1) by (simp add: pool_inv_def)
    with False show ?thesis
      by (simp add: task_inv_def heap' rest cnt_remove1 [OF assms(2)] count_list_append)
  qed
  moreover have "agent_ok s' p" if "agent_ok s p" for p
    using that by (rule agent_ok_keep) (auto simp: heap' rest k)
  ultimately have "pool_inv s'" using assms(1) by (simp add: pool_inv_def pool_ok_def rest)
  then show ?thesis by (simp add: s'_def)
qed

lemma shutdown_begin_inv:
  assumes "pool_inv s" and "g_pool s"
  shows "pool_inv (shutdown_begin s)"
proof -
  have "agent_ok (shutdown_begin s) p" if "agent_ok s p" for p
    using that by (rule agent_ok_keep) (use assms(2) in \<open>auto simp: shutdown_begin_def\<close>)
  with assms show ?thesis
    by (auto simp: pool_inv_def task_inv_def pool_ok_def shutdown_begin_def)
qed

lemma shutdown_end_inv:
  assumes "pool_inv s" and "enabled ShutEnd s" and "quiet ShutEnd s"
  shows "pool_inv (shutdown_end s)"
proof -
  have "balance x outc sp 0 (q + l) b f h w r d st fr"
    if "balance x outc sp q l b f h w r d st fr" for x :: "'a task option" and outc sp q l b f h w r d st fr
    using that by (auto simp: balance_def split: option.splits)
  note shift = this
  have "task_inv (shutdown_end s) t" for t
  proof -
    have "task_inv s t" using assms(1) by (simp add: pool_inv_def)
    then show ?thesis
      using shift by (fastforce simp: task_inv_def shutdown_end_def occ_concat count_list_append add_ac)
  qed
  moreover have "agent_ok (shutdown_end s) p" if "p \<in> set (agents s)" for p
  proof -
    have "agent_ok s p" using assms(1) that by (simp add: pool_inv_def)
    moreover have "\<not> is_worker p" and "\<not> in_pool p" using assms(2,3) that by (auto simp: list_ex_iff)
    ultimately show ?thesis by (cases p) (auto simp: agent_ok_def shutdown_end_def)
  qed
  ultimately show ?thesis using assms(1,2) by (auto simp: pool_inv_def pool_ok_def shutdown_end_def)
qed

lemma exec_inv:
  assumes "pool_inv s" and "enabled a s" and "quiet a s"
  shows "pool_inv (exec a s)"
proof (cases a)
  case (Spawn oc pri n hw)
  with assms init_inv [OF assms(1), of n hw] show ?thesis by (auto intro: spawn_inv)
next
  case (Worker r i)
  with assms worker_inv [of s i r] show ?thesis by simp
next
  case (BeginAwait t)
  with assms begin_await_inv show ?thesis by (metis enabled.simps(3))
next
  case (Await i)
  with assms await_inv show ?thesis by simp
next
  case (Detach t)
  with assms detach_inv show ?thesis by simp
next
  case ShutBegin
  with assms show ?thesis by (simp add: shutdown_begin_inv)
next
  case ShutEnd
  with assms show ?thesis by (simp del: enabled.simps quiet.simps add: shutdown_end_inv)
qed

lemma reach_inv: "reach True s \<Longrightarrow> pool_inv s"
  by (induction rule: reach.induct) (simp_all add: pool_inv_start exec_inv)

section \<open>Runs\<close>

fun run :: "bool \<Rightarrow> 'e action list \<Rightarrow> 'e pool \<Rightarrow> 'e pool option" where
  "run d [] s = Some s"
| "run d (a # as) s = (if enabled a s \<and> (d \<longrightarrow> quiet a s) then run d as (exec a s) else None)"

lemma run_reach: "reach d s \<Longrightarrow> run d as s = Some s' \<Longrightarrow> reach d s'"
  by (induction as arbitrary: s) (auto split: if_splits intro: reach_step)

section \<open>What the client gets\<close>

lemma count_le_1_distinct: "(\<And>t. count_list xs t \<le> 1) \<Longrightarrow> distinct xs"
proof (induction xs)
  case Nil
  then show ?case by simp
next
  case (Cons x xs)
  have "count_list xs t \<le> 1" for t using Cons.prems [of t] by (simp split: if_splits)
  moreover have "x \<notin> set xs" using Cons.prems [of x] by (simp add: count_list_0_iff [symmetric])
  ultimately show ?case using Cons.IH by simp
qed

lemma reach_task: "reach True s \<Longrightarrow> task_inv s t"
  using reach_inv by (auto simp: pool_inv_def)

text \<open>
  C1. Memory safety and exactly-once execution, for every interleaving of workers, awaits, spawns,
  detaches and shutdowns that does not delete the pool under an awaiting thread's scan: no step
  uses a freed task, no body is started twice, no task is freed twice, and every freed task had
  its body started.
\<close>

theorem pool_exactly_once:
  assumes "reach True s"
  shows "\<not> bad s \<and> distinct (starts s) \<and> distinct (frees s) \<and> set (frees s) \<subseteq> set (starts s)"
proof -
  have "count_list (starts s) t \<le> 1 \<and> count_list (frees s) t \<le> 1 \<and>
      (t \<in> set (frees s) \<longrightarrow> t \<in> set (starts s))" for t
  proof -
    have B: "task_inv s t" using assms by (rule reach_task)
    have "cnt (starts s) t \<le> 1 \<and> cnt (frees s) t \<le> 1 \<and> (cnt (frees s) t \<noteq> 0 \<longrightarrow> cnt (starts s) t \<noteq> 0)"
      if "balance x outc sp q l b f h w r d (cnt (starts s) t) (cnt (frees s) t)" for x :: "'a task option" and outc sp q l b f h w r d
      using that by (auto simp: balance_def of_bool_def split: option.splits if_splits)
    from this [OF B [unfolded task_inv_def]] show ?thesis by (auto simp: count_list_0_iff)
  qed
  moreover have "\<not> bad s" using reach_inv [OF assms] by (simp add: pool_inv_def pool_ok_def)
  ultimately show ?thesis by (auto intro: count_le_1_distinct)
qed

text \<open>A run of one worker and two awaiters over three tasks, one of them throwing and one detached.\<close>

definition pool_demo :: "string action list" where
  "pool_demo =
     [Spawn None 2 1 4, Spawn (Some ''boom'') 0 1 4, Spawn None 3 1 4, BeginAwait 1, Detach 2,
      Await 1, Await 1, Await 1, Worker 0 0, Worker 0 0, Await 1, Await 1, Await 1, Await 1,
      Await 1, Await 1]"

lemmas run_simps = pool_demo_def pool_start_def topo_parallel_ensure_init_def do_init_def pool_size_def
  topo_task_spawn_ret_pri_def submit_def topo_task_detach_def delete_task_def run_task_safely_def
  pop_front_def pop_back_def shutdown_begin_def shutdown_end_def Let_def

theorem pool_exactly_once_witness:
  "\<exists>s. run True pool_demo pool_start = Some s \<and> \<not> bad s \<and> distinct (starts s) \<and> starts s = [2, 1]"
proof -
  obtain s where s: "run True pool_demo pool_start = Some s" "starts s = [2, 1]"
    by (simp add: run_simps upt_rec)
  with pool_exactly_once [OF run_reach [OF reach_start s(1)]] show ?thesis by blast
qed

text \<open>
  C10. When an await returns, its task's body was started exactly once, the task has been freed
  exactly once, and what the await rethrows is exactly what the body threw (nothing when it
  returned normally).
\<close>

theorem await_returns_outcome:
  assumes "reach True s" and "A_done t e \<in> set (agents s)"
  shows "e = outcomes s t \<and> count_list (starts s) t = 1 \<and> count_list (frees s) t = 1"
proof -
  have "agent_ok s (A_done t e)" using reach_inv [OF assms(1)] assms(2) by (simp add: pool_inv_def)
  then have a: "t < fresh s" "e = outcomes s t" "heap s t = None" by (simp_all add: agent_ok_def)
  from reach_task [OF assms(1), of t] a show ?thesis
    by (simp add: task_inv_def balance_def)
qed

theorem await_returns_outcome_witness:
  "\<exists>s. run True pool_demo pool_start = Some s \<and> A_done 1 (Some ''boom'') \<in> set (agents s)
     \<and> outcomes s 1 = Some ''boom'' \<and> count_list (starts s) 1 = 1 \<and> count_list (frees s) 1 = 1"
proof -
  obtain s where s: "run True pool_demo pool_start = Some s" "A_done 1 (Some ''boom'') \<in> set (agents s)"
    by (simp add: run_simps upt_rec)
  with await_returns_outcome [OF run_reach [OF reach_start s(1)] s(2)] show ?thesis by auto
qed

fun idle :: "'e pc \<Rightarrow> bool" where
  "idle (A_done _ _) = True" | "idle (W_own _) = True" | "idle (W_steal _ _ _) = True"
| "idle (W_check _) = True" | "idle (W_wait _) = True" | "idle (W_exited _) = True" | "idle _ = False"

text \<open>
  No leak: once no client holds a handle, no await is under way, no task is queued or running
  and none was lost to a shutdown, every task ever spawned has been freed.
\<close>

theorem pool_no_leak:
  assumes "reach True s" and "handles s = []" and "list_all idle (agents s)"
    and "concat (queues s) = []" and "lost s = []"
  shows "heap s t = None \<and> (t < fresh s \<longrightarrow> count_list (frees s) t = 1)"
proof -
  have "list_all idle ps \<Longrightarrow> occ f ps t = 0" if "\<And>p. idle p \<Longrightarrow> f p = []" for f and ps :: "'a pc list"
    using that by (induction ps) simp_all
  with assms(3) have z: "occ f (agents s) t = 0" if "\<And>p. idle p \<Longrightarrow> f p = []" for f
    using that by blast
  have "occ f (agents s) t = 0" if "f = body_of \<or> f = free_of \<or> f = wait_of \<or> f = barrier_of \<or> f = delete_of" for f
    using that by (intro z) (auto elim: idle.elims)
  moreover have "occ (\<lambda>q. q) (queues s) t = 0" by (simp only: occ_concat assms(4)) simp
  ultimately show ?thesis
    using reach_task [OF assms(1), of t] assms(2,5)
    by (auto simp: task_inv_def balance_def of_bool_def split: option.splits if_splits)
qed

theorem pool_no_leak_witness:
  "\<exists>s :: string pool. run True [Spawn None 2 1 4, Detach 0, Worker 0 0, Worker 0 0, Worker 0 0] pool_start = Some s
     \<and> fresh s = 1 \<and> heap s 0 = None"
proof -
  obtain s :: "string pool" where s:
    "run True [Spawn None 2 1 4, Detach 0, Worker 0 0, Worker 0 0, Worker 0 0] pool_start = Some s"
    "handles s = []" "list_all idle (agents s)" "concat (queues s) = []" "lost s = []" "fresh s = 1"
    by (simp add: run_simps upt_rec)
  with pool_no_leak [OF run_reach [OF reach_start s(1)] s(2-5), of 0] show ?thesis by blast
qed

text \<open>
  C14. Nobody waits for nothing: while a task somebody awaits is not done and no shutdown has lost
  it, it is in a queue, where any awaiting thread's scan can pop it, or its body is running.
\<close>

theorem awaited_task_runs_or_queued:
  assumes "reach True s" and "p \<in> set (agents s)" and "wait_of p = [t]" and "t \<notin> set (lost s)"
  shows "\<exists>k. heap s t = Some k \<and>
     (tk_done k \<or> (\<exists>q\<in>set (queues s). t \<in> set q) \<or> (\<exists>p\<in>set (agents s). body_of p = [t]))"
proof -
  obtain i where i: "i < length (agents s)" "agents s ! i = p" using assms(2) by (auto simp: in_set_conv_nth)
  have "barrier_of p = []" using assms(3) by (cases p) auto
  with assms(3) i obtain k where k: "heap s t = Some k"
    using waiting_alloc [OF reach_inv [OF assms(1)] i(1), of t] by auto
  have B: "task_inv s t" using assms(1) by (rule reach_task)
  have "tk_done k \<or> 0 < occ (\<lambda>q. q) (queues s) t \<or> 0 < occ body_of (agents s) t"
  proof -
    have "cnt (lost s) t = 0" using assms(4) by (simp add: count_list_0_iff)
    with B k show ?thesis by (cases "tk_done k") (auto simp: task_inv_def balance_def)
  qed
  moreover have "\<exists>x\<in>set xs. t \<in> set (f x)" if "0 < occ f xs t" for f :: "'b \<Rightarrow> nat list" and xs
  proof (rule ccontr)
    assume "\<not> (\<exists>x\<in>set xs. t \<in> set (f x))"
    then have "occ f xs t = 0" by (induction xs) (simp_all add: count_list_0_iff)
    with that show False by simp
  qed
  moreover have "body_of p = [t]" if "t \<in> set (body_of p)" for p :: "'a pc"
    using that by (cases p) auto
  ultimately show ?thesis using k by metis
qed

theorem awaited_task_runs_or_queued_witness:
  "\<exists>s :: unit pool. run True [Spawn None 2 1 4, BeginAwait 0] pool_start = Some s
     \<and> (\<exists>k. heap s 0 = Some k \<and>
          (tk_done k \<or> (\<exists>q\<in>set (queues s). 0 \<in> set q) \<or> (\<exists>p\<in>set (agents s). body_of p = [0])))"
proof -
  obtain s :: "unit pool" where s: "run True [Spawn None 2 1 4, BeginAwait 0] pool_start = Some s"
    "A_loop 0 \<in> set (agents s)" "lost s = []"
    by (simp add: run_simps upt_rec)
  with awaited_task_runs_or_queued [OF run_reach [OF reach_start s(1)] s(2), of 0] show ?thesis by simp
qed

text \<open>What \<open>topo_task_await_all\<close> does with the awaits' exceptions: all are awaited, the first is kept.\<close>

fun topo_task_await_all :: "'e option list \<Rightarrow> 'e option \<Rightarrow> 'e option" where
  "topo_task_await_all [] first_exc = first_exc"
| "topo_task_await_all (e # es) first_exc =
     topo_task_await_all es (case e of None \<Rightarrow> first_exc | Some x \<Rightarrow> if first_exc = None then Some x else first_exc)"

lemma await_all_first:
  "topo_task_await_all es None = (case filter (\<lambda>e. e \<noteq> None) es of [] \<Rightarrow> None | e # _ \<Rightarrow> e)"
proof -
  have keep: "topo_task_await_all es (Some x) = Some x" for es and x :: 'a
    by (induction es) (auto split: option.splits)
  show ?thesis by (induction es) (auto simp: keep split: option.splits list.splits)
qed

section \<open>Where the pool falls short of its comments\<close>

text \<open>
  A task submitted while all workers are in their timed wait, with a shutdown right behind it: the
  worker wakes, sees the flag and leaves without looking at its queue again.
\<close>

definition lost_demo :: "unit action list" where
  "lost_demo =
     [Spawn None 2 1 4, Worker 0 0, Worker 0 0, Worker 0 0, Worker 0 0, Spawn None 2 1 4, ShutBegin, Worker 0 0, ShutEnd]"

lemma lost_never_done:
  assumes "reach True s" and "t \<in> set (lost s)"
  obtains k where "heap s t = Some k" "\<not> tk_done k"
proof -
  have "1 \<le> cnt (lost s) t" using assms(2) by (rule cnt_pos)
  then have "1 \<le> occ (\<lambda>q. q) (queues s) t + cnt (lost s) t + occ body_of (agents s) t"
    using occ_nonneg [of "\<lambda>q. q" "queues s" t] occ_nonneg [of body_of "agents s" t] by linarith
  then show thesis using balance_pending reach_task [OF assms(1), of t] that unfolding task_inv_def by metis
qed

text \<open>
  A shutdown can drop a queued task: there is a run after which the task is lost with its
  queue, its handle still held; and in every reachable state a lost task is not done, so an await
  of it never returns.
\<close>

theorem shutdown_loses_task:
  "(\<exists>s. run True lost_demo pool_start = Some s \<and> lost s = [1] \<and> 1 \<in> set (handles s))
   \<and> \<not> (\<exists>(s :: unit pool) t e. reach True s \<and> t \<in> set (lost s) \<and> A_done t e \<in> set (agents s))"
proof
  show "\<exists>s. run True lost_demo pool_start = Some s \<and> lost s = [1] \<and> 1 \<in> set (handles s)"
    by (simp add: lost_demo_def run_simps upt_rec)
  show "\<not> (\<exists>(s :: unit pool) t e. reach True s \<and> t \<in> set (lost s) \<and> A_done t e \<in> set (agents s))"
  proof clarify
    fix s :: "unit pool" and t e
    assume r: "reach True s" and l: "t \<in> set (lost s)" and a: "A_done t e \<in> set (agents s)"
    obtain k where "heap s t = Some k" using lost_never_done [OF r l] .
    moreover have "agent_ok s (A_done t e)" using reach_inv [OF r] a by (simp add: pool_inv_def)
    ultimately show False by (simp add: agent_ok_def)
  qed
qed

text \<open>
  Snapshotting the pool does not close the race of an await with a shutdown: there is a run in
  which the awaiting thread has taken its snapshot, the pool is deleted, and the scan then uses it.
\<close>

definition race_demo :: "unit action list" where
  "race_demo =
     [Spawn None 2 1 4, BeginAwait 0, Await 1, ShutBegin, Worker 0 0, Worker 0 0, Worker 0 0, Worker 0 0,
      ShutEnd, Await 1]"

theorem await_shutdown_race:
  "\<exists>s. run False race_demo pool_start = Some s \<and> bad s"
  by (simp add: race_demo_def run_simps upt_rec)

text \<open>
  Priorities are two classes, and the high class is served last-in first-out: on a pool of one
  worker, a Critical task (0) followed by a High task (1) is dequeued after it.
\<close>

theorem high_before_critical:
  assumes "num_workers s = 1" and "queues s = [q]"
  shows "fst (pop_front 0 (submit high 1 (submit critical 0 s))) = Some high"
  using assms by (simp add: submit_def pop_front_def Let_def)

theorem high_before_critical_witness:
  "fst (pop_front 0 (submit 8 1 (submit 7 0 (do_init 1 4 (pool_start :: unit pool))))) = Some 8"
  by (rule high_before_critical [of _ "[]"]) (simp_all add: do_init_def pool_size_def pool_start_def)

end
