(* ===== verification/JitApi.thy ===== *)
theory JitApi
  imports JsonReader
begin

text \<open>
  runtime/topo_jit_api.cpp and jit_engine_resolve.h: the JIT context, its JSON serialisation, the
  search path and loader of the engine library, and the calls forwarded to the engine. The
  dynamic loader, the environment and the engine's exports are a parameter record; the state is
  the engine interface table and the library handle. The lemmas show that the engine reads back
  exactly the context and samples it was given, and that the loader runs once and only ever
  leaves a complete, version-checked interface marked as loaded.
\<close>

section \<open>The context\<close>

record PrunedEdge =
  pe_source :: string
  pe_target :: string

record NarrowedReturn =
  nr_func :: string
  nr_fields :: "string list"

record jit_context =
  narrowedReturns :: "NarrowedReturn list"
  prunedEdges :: "PrunedEdge list"
  params :: "(string \<times> string) list"

definition empty_context :: jit_context where
  "empty_context = \<lparr>narrowedReturns = [], prunedEdges = [], params = []\<rparr>"

definition narrow_returns :: "string \<Rightarrow> string list \<Rightarrow> jit_context \<Rightarrow> jit_context" where
  "narrow_returns func flds c =
     c\<lparr>narrowedReturns := narrowedReturns c @ [\<lparr>nr_func = func, nr_fields = flds\<rparr>]\<rparr>"

definition prune_edge :: "string \<Rightarrow> string \<Rightarrow> jit_context \<Rightarrow> jit_context" where
  "prune_edge src dst c = c\<lparr>prunedEdges := prunedEdges c @ [\<lparr>pe_source = src, pe_target = dst\<rparr>]\<rparr>"

definition set_param :: "string \<Rightarrow> string \<Rightarrow> jit_context \<Rightarrow> jit_context" where
  "set_param key value c = c\<lparr>params := params c @ [(key, value)]\<rparr>"

section \<open>Serialisation\<close>

definition serialize_edge :: "PrunedEdge \<Rightarrow> string" where
  \<open>serialize_edge e =
     ''{"source":'' @ escapeJson (pe_source e) @ '',"target":'' @ escapeJson (pe_target e) @ ''}''\<close>

definition serialize_narrowed :: "NarrowedReturn \<Rightarrow> string" where
  \<open>serialize_narrowed nr =
     ''{"func":'' @ escapeJson (nr_func nr) @ '',"fields":['' @ comma_loop True (map escapeJson (nr_fields nr)) @ '']}''\<close>

definition serialize_param :: "string \<times> string \<Rightarrow> string" where
  "serialize_param p = ''['' @ escapeJson (fst p) @ '','' @ escapeJson (snd p) @ '']''"

definition serializeContext :: "jit_context \<Rightarrow> string" where
  \<open>serializeContext ctx =
     ''{'' @
     ''"prunedEdges":['' @ comma_loop True (map serialize_edge (prunedEdges ctx)) @ ''],'' @
     ''"narrowedReturns":['' @ comma_loop True (map serialize_narrowed (narrowedReturns ctx)) @ ''],'' @
     ''"params":['' @ comma_loop True (map serialize_param (params ctx)) @ '']'' @
     ''}''\<close>

definition serializeCostSamples :: "(string \<times> u64) list \<Rightarrow> string" where
  "serializeCostSamples samples =
     ''{'' @ comma_loop True (map (\<lambda>(name, cost). escapeJson name @ '':'' @ show_u64 cost) samples) @ ''}''"

text \<open>The JSON values the engine is meant to see.\<close>

definition context_json :: "jit_context \<Rightarrow> json" where
  "context_json ctx = JObj
     [(''prunedEdges'', JArr (map (\<lambda>e. JObj [(''source'', JStr (pe_source e)), (''target'', JStr (pe_target e))])
         (prunedEdges ctx))),
      (''narrowedReturns'', JArr (map (\<lambda>nr. JObj [(''func'', JStr (nr_func nr)),
           (''fields'', JArr (map JStr (nr_fields nr)))]) (narrowedReturns ctx))),
      (''params'', JArr (map (\<lambda>p. JArr [JStr (fst p), JStr (snd p)]) (params ctx)))]"

definition costs_json :: "(string \<times> u64) list \<Rightarrow> json" where
  "costs_json samples = JObj (map (\<lambda>(name, cost). (name, JInt (uint cost))) samples)"

lemma jit_keys:
  \<open>read_string (''"source"'' @ r) = Some (''source'', r)\<close>
  \<open>read_string (''"target"'' @ r) = Some (''target'', r)\<close>
  \<open>read_string (''"func"'' @ r) = Some (''func'', r)\<close>
  \<open>read_string (''"fields"'' @ r) = Some (''fields'', r)\<close>
  \<open>read_string (''"prunedEdges"'' @ r) = Some (''prunedEdges'', r)\<close>
  \<open>read_string (''"narrowedReturns"'' @ r) = Some (''narrowedReturns'', r)\<close>
  \<open>read_string (''"params"'' @ r) = Some (''params'', r)\<close>
  by (simp_all add: read_string_def)

text \<open>
  \<open>escapeJson\<close> copies control characters other than newline, carriage return and tab. A value is kept when it has
  none of them, and refused otherwise.
\<close>

abbreviation plain :: "string \<Rightarrow> bool" where
  "plain \<equiv> list_all plain_char"

definition if_plain :: "bool \<Rightarrow> 'a \<Rightarrow> 'a option" where
  "if_plain ok x = (if ok then Some x else None)"

lemma those_if_plain: "those (map (\<lambda>x. if_plain (P x) (g x)) xs) = if_plain (list_all P xs) (map g xs)"
  by (induction xs) (auto simp: if_plain_def)

lemma reads_escaped: "reads_opt (escapeJson s) (if_plain (plain s) (JStr s))"
  using reads_escapeJson by (simp add: if_plain_def)

lemma key_member:
  assumes "reads_opt v (if_plain ok x)" and "\<And>rest. read_string (k @ rest) = Some (key, rest)"
  shows "member_opt (k @ CHR 0x3A # v) (if_plain ok (key, x))"
proof -
  have "member_opt (k @ CHR 0x3A # v) (Option.bind (Some key) (\<lambda>s. map_option (Pair s) (if_plain ok x)))"
    using assms key_quote [OF assms(2)] by (intro member_optI) auto
  moreover have "Option.bind (Some key) (\<lambda>s. map_option (Pair s) (if_plain ok x)) = if_plain ok (key, x)" by (simp add: if_plain_def)
  ultimately show ?thesis by simp
qed

lemma object2:
  assumes "member_opt m1 (if_plain a kv1)" and "member_opt m2 (if_plain b kv2)"
  shows "reads_opt (CHR 0x7B # m1 @ CHR 0x2C # m2 @ [CHR 0x7D]) (if_plain (a \<and> b) (JObj [kv1, kv2]))"
proof -
  have "map_option JObj (those [if_plain a kv1, if_plain b kv2]) = if_plain (a \<and> b) (JObj [kv1, kv2])" by (simp add: if_plain_def)
  then show ?thesis using object_opt [of "[m1, m2]" "[if_plain a kv1, if_plain b kv2]"] assms by simp
qed

lemma object3:
  assumes "member_opt m1 (if_plain a kv1)" and "member_opt m2 (if_plain b kv2)" and "member_opt m3 (if_plain c kv3)"
  shows "reads_opt (CHR 0x7B # m1 @ CHR 0x2C # m2 @ CHR 0x2C # m3 @ [CHR 0x7D]) (if_plain (a \<and> b \<and> c) (JObj [kv1, kv2, kv3]))"
proof -
  have "map_option JObj (those [if_plain a kv1, if_plain b kv2, if_plain c kv3]) = if_plain (a \<and> b \<and> c) (JObj [kv1, kv2, kv3])"
    by (simp add: if_plain_def)
  then show ?thesis using object_opt [of "[m1, m2, m3]" "[if_plain a kv1, if_plain b kv2, if_plain c kv3]"] assms by simp
qed

lemma array_map:
  assumes "\<And>x. reads_opt (f x) (if_plain (P x) (g x))" and "\<And>x. f x \<noteq> [] \<and> hd (f x) \<noteq> CHR 0x5D"
  shows "reads_opt (CHR 0x5B # comma_loop True (map f xs) @ [CHR 0x5D]) (if_plain (list_all P xs) (JArr (map g xs)))"
proof -
  have "list_all2 reads_opt (map f xs) (map (\<lambda>x. if_plain (P x) (g x)) xs)" using assms(1) by (simp add: list_all2_conv_all_nth)
  from array_opt [OF this] assms(2) show ?thesis unfolding those_if_plain by (auto simp: if_plain_def)
qed

lemma escaped_head: "escapeJson s \<noteq> [] \<and> hd (escapeJson s) \<noteq> CHR 0x5D"
  by (simp add: escapeJson_def)

definition plain_edge :: "PrunedEdge \<Rightarrow> bool" where
  "plain_edge e \<longleftrightarrow> plain (pe_source e) \<and> plain (pe_target e)"

definition plain_narrowed :: "NarrowedReturn \<Rightarrow> bool" where
  "plain_narrowed nr \<longleftrightarrow> plain (nr_func nr) \<and> list_all plain (nr_fields nr)"

definition plain_param :: "string \<times> string \<Rightarrow> bool" where
  "plain_param p \<longleftrightarrow> plain (fst p) \<and> plain (snd p)"

definition plain_context :: "jit_context \<Rightarrow> bool" where
  "plain_context ctx \<longleftrightarrow> list_all plain_edge (prunedEdges ctx) \<and> list_all plain_narrowed (narrowedReturns ctx) \<and> list_all plain_param (params ctx)"

lemma reads_edge:
  "reads_opt (serialize_edge e) (if_plain (plain_edge e) (JObj [(''source'', JStr (pe_source e)), (''target'', JStr (pe_target e))]))"
  using object2 [OF key_member [OF reads_escaped [of "pe_source e"] jit_keys(1)] key_member [OF reads_escaped [of "pe_target e"] jit_keys(2)]]
  by (simp add: serialize_edge_def plain_edge_def)

lemma reads_narrowed:
  "reads_opt (serialize_narrowed nr)
     (if_plain (plain_narrowed nr) (JObj [(''func'', JStr (nr_func nr)), (''fields'', JArr (map JStr (nr_fields nr)))]))"
  using object2 [OF key_member [OF reads_escaped [of "nr_func nr"] jit_keys(3)]
      key_member [OF array_map [OF reads_escaped escaped_head, where xs = "nr_fields nr"] jit_keys(4)]]
  by (simp add: serialize_narrowed_def plain_narrowed_def)

lemma reads_param: "reads_opt (serialize_param p) (if_plain (plain_param p) (JArr [JStr (fst p), JStr (snd p)]))"
  using array_map [OF reads_escaped escaped_head, where xs = "[fst p, snd p]"] by (simp add: serialize_param_def plain_param_def)

lemma part_heads: "serialize_edge e \<noteq> [] \<and> hd (serialize_edge e) \<noteq> CHR 0x5D" "serialize_narrowed nr \<noteq> [] \<and> hd (serialize_narrowed nr) \<noteq> CHR 0x5D"
    "serialize_param p \<noteq> [] \<and> hd (serialize_param p) \<noteq> CHR 0x5D"
  by (simp_all add: serialize_edge_def serialize_narrowed_def serialize_param_def)

lemma reads_serializeContext: "reads_opt (serializeContext ctx) (if_plain (plain_context ctx) (context_json ctx))"
  using object3 [OF key_member [OF array_map [OF reads_edge part_heads(1), where xs = "prunedEdges ctx"] jit_keys(5)]
      key_member [OF array_map [OF reads_narrowed part_heads(2), where xs = "narrowedReturns ctx"] jit_keys(6)]
      key_member [OF array_map [OF reads_param part_heads(3), where xs = "params ctx"] jit_keys(7)]]
  by (simp add: serializeContext_def context_json_def plain_context_def)

lemma reads_cost: "member_opt (escapeJson n @ CHR 0x3A # show_u64 c) (if_plain (plain n) (n, JInt (uint c)))"
proof -
  have "member_opt (escapeJson n @ CHR 0x3A # show_u64 c) (Option.bind (if_plain (plain n) n) (\<lambda>s. map_option (Pair s) (Some (JInt (uint c)))))"
    using escapeJson_read [of n] by (intro member_optI reads_show_u64) (auto simp: if_plain_def escapeJson_def)
  moreover have "Option.bind (if_plain (plain n) n) (\<lambda>s. map_option (Pair s) (Some (JInt (uint c)))) = if_plain (plain n) (n, JInt (uint c))"
    by (simp add: if_plain_def)
  ultimately show ?thesis by simp
qed

lemma reads_serializeCostSamples:
  "reads_opt (serializeCostSamples m) (if_plain (list_all (\<lambda>p. plain (fst p)) m) (costs_json m))"
proof -
  have push: "map_option JObj (if_plain b x) = if_plain b (JObj x)" for b x by (simp add: if_plain_def)
  have "list_all2 member_opt (map (\<lambda>p. escapeJson (fst p) @ CHR 0x3A # show_u64 (snd p)) m)
      (map (\<lambda>p. if_plain (plain (fst p)) (fst p, JInt (uint (snd p)))) m)"
    using reads_cost by (simp add: list_all2_conv_all_nth)
  from object_opt [OF this] show ?thesis
    unfolding those_if_plain push by (simp add: serializeCostSamples_def costs_json_def split_def)
qed


text \<open>One control character in a parameter, and the engine sees no context at all: no edge is pruned.\<close>

lemma control_character_loses_context:
  "read_json (serializeContext (prune_edge ''a'' ''b'' (set_param ''k'' [CHR 0x01] empty_context))) = None"
  using reads_read_json [OF reads_serializeContext, of "[]"]
  by (simp add: if_plain_def plain_context_def plain_param_def plain_char_def set_param_def prune_edge_def empty_context_def)

section \<open>The engine loader\<close>

text \<open>
  The engine's exports are opaque function values; \<open>jit_platform\<close> says what loading a path, looking
  up a symbol and calling each export do. A pointer an export returns is \<open>None\<close> when null.
\<close>

datatype os = Windows | MacOS | Linux

record ('lib, 'fn, 'p) jit_platform =
  pf_os :: os
  pf_exeDir :: string
  pf_env_override :: "string option"
  pf_load :: "string \<Rightarrow> 'lib option"
  pf_getSymbol :: "'lib \<Rightarrow> string \<Rightarrow> 'fn option"
  call_version :: "'fn \<Rightarrow> u32"
  call_available :: "'fn \<Rightarrow> u32"
  call_specialize :: "'fn \<Rightarrow> string \<Rightarrow> string \<Rightarrow> string \<Rightarrow> 'p option"
  call_specializeBytes :: "'fn \<Rightarrow> string \<Rightarrow> u8 list \<Rightarrow> string \<Rightarrow> string \<Rightarrow> string \<Rightarrow> 'p option"
  call_dumpIR :: "'fn \<Rightarrow> string \<Rightarrow> string \<Rightarrow> string option"
  call_dumpIRBytes :: "'fn \<Rightarrow> u8 list \<Rightarrow> string option"

record 'fn EngineInterface =
  ei_version :: "'fn option"
  ei_available :: "'fn option"
  ei_specialize :: "'fn option"
  ei_specializeBytes :: "'fn option"
  ei_dumpIR :: "'fn option"
  ei_dumpIRBytes :: "'fn option"
  ei_freeString :: "'fn option"
  ei_loaded :: bool
  ei_triedLoad :: bool

text \<open>\<open>en_loads\<close> counts the calls of the platform's loader, \<open>en_unfreed\<close> the strings not handed back.\<close>

record ('lib, 'fn) engine_state =
  g_engine :: "'fn EngineInterface"
  g_engineLib :: "'lib option"
  en_tried :: "string list"
  en_unfreed :: nat

definition engine_start :: "('lib, 'fn) engine_state" where
  "engine_start =
     \<lparr>g_engine = \<lparr>ei_version = None, ei_available = None, ei_specialize = None, ei_specializeBytes = None,
        ei_dumpIR = None, ei_dumpIRBytes = None, ei_freeString = None, ei_loaded = False, ei_triedLoad = False\<rparr>,
      g_engineLib = None, en_tried = [], en_unfreed = 0\<rparr>"

abbreviation (input) TOPO_JIT_ENGINE_ABI_VERSION :: u32 where "TOPO_JIT_ENGINE_ABI_VERSION \<equiv> 2"

fun engineLibName :: "os \<Rightarrow> string" where
  "engineLibName Windows = ''topo-jit-engine.dll''"
| "engineLibName MacOS = ''libtopo-jit-engine.dylib''"
| "engineLibName Linux = ''libtopo-jit-engine.so''"

definition engineSearchCandidates :: "string \<Rightarrow> string \<Rightarrow> string option \<Rightarrow> string list" where
  "engineSearchCandidates exeDir libName envOverride =
     (let candidates = (if c_string envOverride \<noteq> [] then [c_string envOverride] else [])
      in if exeDir \<noteq> [] then candidates @ [exeDir @ ''/'' @ libName, exeDir @ ''/../lib/'' @ libName]
         else candidates)"

text \<open>The loop over the candidates: the first that loads, and the paths tried.\<close>

fun load_first :: "(string \<Rightarrow> 'lib option) \<Rightarrow> string list \<Rightarrow> 'lib option \<times> string list" where
  "load_first ld [] = (None, [])"
| "load_first ld (c # cs) =
     (case ld c of
        Some lib \<Rightarrow> (Some lib, [c])
      | None \<Rightarrow> apsnd (Cons c) (load_first ld cs))"

definition loadEngine ::
  "('lib, 'fn, 'p) jit_platform \<Rightarrow> ('lib, 'fn) engine_state \<Rightarrow> bool \<times> ('lib, 'fn) engine_state" where
  "loadEngine pf s =
     (if ei_triedLoad (g_engine s) then (ei_loaded (g_engine s), s)
      else
        (let e = (g_engine s)\<lparr>ei_triedLoad := True\<rparr>;
             cands = engineSearchCandidates (pf_exeDir pf) (engineLibName (pf_os pf)) (pf_env_override pf);
             (found, tried) = load_first (pf_load pf) cands;
             s = s\<lparr>en_tried := en_tried s @ tried\<rparr>
         in case found of
              None \<Rightarrow> (False, s\<lparr>g_engine := e, g_engineLib := None\<rparr>)
            | Some lib \<Rightarrow>
                (let sym = pf_getSymbol pf lib;
                     e = e\<lparr>ei_version := sym ''topo_jit_engine_version'',
                           ei_available := sym ''topo_jit_engine_available'',
                           ei_specialize := sym ''topo_jit_engine_specialize'',
                           ei_specializeBytes := sym ''topo_jit_engine_specialize_bytes'',
                           ei_dumpIR := sym ''topo_jit_engine_dump_ir'',
                           ei_dumpIRBytes := sym ''topo_jit_engine_dump_ir_bytes'',
                           ei_freeString := sym ''topo_jit_engine_free_string''\<rparr>
                 in if ei_version e = None \<or> ei_available e = None \<or> ei_specialize e = None
                    then (False, s\<lparr>g_engine := e, g_engineLib := None\<rparr>)
                    else if call_version pf (the (ei_version e)) \<noteq> TOPO_JIT_ENGINE_ABI_VERSION
                    then (False, s\<lparr>g_engine := e, g_engineLib := None\<rparr>)
                    else (True, s\<lparr>g_engine := e\<lparr>ei_loaded := True\<rparr>, g_engineLib := Some lib\<rparr>))))"

section \<open>The public calls\<close>

definition jit_available ::
  "('lib, 'fn, 'p) jit_platform \<Rightarrow> ('lib, 'fn) engine_state \<Rightarrow> bool \<times> ('lib, 'fn) engine_state" where
  "jit_available pf s =
     (let (ok, s) = loadEngine pf s
      in if \<not> ok then (False, s)
         else (case ei_available (g_engine s) of None \<Rightarrow> (False, s)
               | Some f \<Rightarrow> (call_available pf f \<noteq> 0, s)))"

text \<open>The body of the asynchronous task; \<open>costs\<close> is what \<open>get_cost_samples\<close> returned to it.\<close>

definition specialize ::
  "('lib, 'fn, 'p) jit_platform \<Rightarrow> string \<Rightarrow> jit_context \<Rightarrow> (string \<times> u64) list \<Rightarrow>
   ('lib, 'fn) engine_state \<Rightarrow> 'p option \<times> ('lib, 'fn) engine_state" where
  "specialize pf pipelineName ctx costs s =
     (let (ok, s) = loadEngine pf s
      in if \<not> ok then (None, s)
         else (case ei_specialize (g_engine s) of None \<Rightarrow> (None, s)
               | Some f \<Rightarrow>
                   (let ctxJson = serializeContext ctx; costsJson = serializeCostSamples costs
                    in (call_specialize pf f pipelineName ctxJson costsJson, s))))"

definition dump_ir ::
  "('lib, 'fn, 'p) jit_platform \<Rightarrow> string \<Rightarrow> jit_context \<Rightarrow> ('lib, 'fn) engine_state \<Rightarrow>
   string \<times> ('lib, 'fn) engine_state" where
  "dump_ir pf pipelineName ctx s =
     (let (ok, s) = loadEngine pf s
      in if \<not> ok then (''<JIT engine not available>'', s)
         else (case ei_dumpIR (g_engine s) of
                 None \<Rightarrow> (''<JIT engine not available>'', s)
               | Some f \<Rightarrow>
                   (case call_dumpIR pf f pipelineName (serializeContext ctx) of
                      None \<Rightarrow> (''<dump_ir failed>'', s)
                    | Some result \<Rightarrow>
                        (result, if ei_freeString (g_engine s) = None
                                 then s\<lparr>en_unfreed := Suc (en_unfreed s)\<rparr> else s))))"

definition specialize_bytes ::
  "('lib, 'fn, 'p) jit_platform \<Rightarrow> string \<Rightarrow> u8 list option \<Rightarrow> string \<Rightarrow> jit_context \<Rightarrow> (string \<times> u64) list \<Rightarrow>
   ('lib, 'fn) engine_state \<Rightarrow> 'p option \<times> ('lib, 'fn) engine_state" where
  "specialize_bytes pf pipelineName irBytes metaJson ctx costs s =
     (let irBuf = (case irBytes of None \<Rightarrow> [] | Some bs \<Rightarrow> bs);
          (ok, s) = loadEngine pf s
      in if \<not> ok then (None, s)
         else (case ei_specializeBytes (g_engine s) of None \<Rightarrow> (None, s)
               | Some f \<Rightarrow>
                   (call_specializeBytes pf f pipelineName irBuf metaJson
                      (serializeContext ctx) (serializeCostSamples costs), s)))"

definition dump_ir_bytes ::
  "('lib, 'fn, 'p) jit_platform \<Rightarrow> u8 list \<Rightarrow> ('lib, 'fn) engine_state \<Rightarrow> string \<times> ('lib, 'fn) engine_state" where
  "dump_ir_bytes pf irBytes s =
     (let (ok, s) = loadEngine pf s
      in if \<not> ok then (''<JIT engine not available>'', s)
         else (case ei_dumpIRBytes (g_engine s) of
                 None \<Rightarrow> (''<JIT engine not available>'', s)
               | Some f \<Rightarrow>
                   (case call_dumpIRBytes pf f irBytes of
                      None \<Rightarrow> (''<dump_ir_bytes failed>'', s)
                    | Some result \<Rightarrow>
                        (result, if ei_freeString (g_engine s) = None
                                 then s\<lparr>en_unfreed := Suc (en_unfreed s)\<rparr> else s))))"

section \<open>The loader is sound and sticky\<close>

definition candidates_of :: "('lib, 'fn, 'p) jit_platform \<Rightarrow> string list" where
  "candidates_of pf = engineSearchCandidates (pf_exeDir pf) (engineLibName (pf_os pf)) (pf_env_override pf)"

text \<open>The library a process can use: the first candidate that loads, if its exports are complete and current.\<close>

definition usable_engine :: "('lib, 'fn, 'p) jit_platform \<Rightarrow> 'lib option" where
  "usable_engine pf =
     (case fst (load_first (pf_load pf) (candidates_of pf)) of
        None \<Rightarrow> None
      | Some lib \<Rightarrow>
          (case pf_getSymbol pf lib ''topo_jit_engine_version'' of
             None \<Rightarrow> None
           | Some f \<Rightarrow>
               if pf_getSymbol pf lib ''topo_jit_engine_available'' \<noteq> None
                  \<and> pf_getSymbol pf lib ''topo_jit_engine_specialize'' \<noteq> None
                  \<and> call_version pf f = TOPO_JIT_ENGINE_ABI_VERSION
               then Some lib else None))"

definition table_of :: "('lib, 'fn, 'p) jit_platform \<Rightarrow> 'lib \<Rightarrow> 'fn EngineInterface" where
  "table_of pf lib =
     \<lparr>ei_version = pf_getSymbol pf lib ''topo_jit_engine_version'',
      ei_available = pf_getSymbol pf lib ''topo_jit_engine_available'',
      ei_specialize = pf_getSymbol pf lib ''topo_jit_engine_specialize'',
      ei_specializeBytes = pf_getSymbol pf lib ''topo_jit_engine_specialize_bytes'',
      ei_dumpIR = pf_getSymbol pf lib ''topo_jit_engine_dump_ir'',
      ei_dumpIRBytes = pf_getSymbol pf lib ''topo_jit_engine_dump_ir_bytes'',
      ei_freeString = pf_getSymbol pf lib ''topo_jit_engine_free_string'',
      ei_loaded = True, ei_triedLoad = True\<rparr>"

definition engine_tried :: "('lib, 'fn, 'p) jit_platform \<Rightarrow> ('lib, 'fn) engine_state \<Rightarrow> bool" where
  "engine_tried pf s \<longleftrightarrow>
     ei_triedLoad (g_engine s) \<and> g_engineLib s = usable_engine pf \<and>
     (case usable_engine pf of None \<Rightarrow> \<not> ei_loaded (g_engine s) | Some lib \<Rightarrow> g_engine s = table_of pf lib) \<and>
     en_tried s = snd (load_first (pf_load pf) (candidates_of pf))"

definition engine_inv :: "('lib, 'fn, 'p) jit_platform \<Rightarrow> ('lib, 'fn) engine_state \<Rightarrow> bool" where
  "engine_inv pf s \<longleftrightarrow>
     engine_tried pf s \<or>
     (\<not> ei_triedLoad (g_engine s) \<and> \<not> ei_loaded (g_engine s) \<and> g_engineLib s = None \<and> en_tried s = [])"

lemma load_first_found:
  "fst (load_first ld cs) = Some lib \<Longrightarrow> \<exists>c\<in>set cs. ld c = Some lib"
  by (induction cs) (auto split: option.splits)

lemma load_first_tried: "\<exists>n. snd (load_first ld cs) = take n cs"
proof (induction cs)
  case Nil
  then show ?case by simp
next
  case (Cons c cs)
  then obtain n where n: "snd (load_first ld cs) = take n cs" by blast
  show ?case
  proof (cases "ld c")
    case None
    with n show ?thesis by (intro exI [of _ "Suc n"]) simp
  next
    case (Some lib)
    then show ?thesis by (intro exI [of _ 1]) simp
  qed
qed

lemma loadEngine_sticky:
  "engine_tried pf s \<Longrightarrow> loadEngine pf s = (usable_engine pf \<noteq> None, s)"
  by (auto simp: loadEngine_def engine_tried_def table_of_def split: option.splits)

lemma loadEngine_first:
  assumes "\<not> ei_triedLoad (g_engine s)" and "\<not> ei_loaded (g_engine s)" and "g_engineLib s = None" and "en_tried s = []"
  shows "fst (loadEngine pf s) \<longleftrightarrow> usable_engine pf \<noteq> None" and "engine_tried pf (snd (loadEngine pf s))"
    and "en_unfreed (snd (loadEngine pf s)) = en_unfreed s"
proof -
  obtain found tried where lf: "load_first (pf_load pf) (candidates_of pf) = (found, tried)"
    by (metis prod.exhaust)
  have "(fst (loadEngine pf s) \<longleftrightarrow> usable_engine pf \<noteq> None) \<and> engine_tried pf (snd (loadEngine pf s))
      \<and> en_unfreed (snd (loadEngine pf s)) = en_unfreed s"
    using assms lf
    by (auto simp: loadEngine_def candidates_of_def [symmetric] Let_def usable_engine_def engine_tried_def
        table_of_def split: option.splits)
  then show "fst (loadEngine pf s) \<longleftrightarrow> usable_engine pf \<noteq> None" and "engine_tried pf (snd (loadEngine pf s))"
    and "en_unfreed (snd (loadEngine pf s)) = en_unfreed s" by auto
qed

lemma loadEngine_result:
  assumes "engine_inv pf s"
  obtains s' where "loadEngine pf s = (usable_engine pf \<noteq> None, s')" "engine_tried pf s'"
proof (cases "engine_tried pf s")
  case True
  show thesis by (rule that [OF loadEngine_sticky [OF True] True])
next
  case False
  with assms have s: "\<not> ei_triedLoad (g_engine s)" "\<not> ei_loaded (g_engine s)" "g_engineLib s = None" "en_tried s = []"
    by (auto simp: engine_inv_def)
  show thesis
  proof (rule that)
    show "loadEngine pf s = (usable_engine pf \<noteq> None, snd (loadEngine pf s))"
      using loadEngine_first(1) [OF s, of pf] by (cases "loadEngine pf s") simp
    show "engine_tried pf (snd (loadEngine pf s))" by (rule loadEngine_first(2) [OF s])
  qed
qed

lemma engine_inv_start: "engine_inv pf engine_start"
  by (simp add: engine_inv_def engine_start_def)

lemma engine_tried_unfreed [simp]: "engine_tried pf (s\<lparr>en_unfreed := n\<rparr>) = engine_tried pf s"
  by (simp add: engine_tried_def split: option.splits)

lemma engine_tried_table:
  "engine_tried pf s \<Longrightarrow> usable_engine pf = Some lib \<Longrightarrow> g_engine s = table_of pf lib"
  by (simp add: engine_tried_def)

datatype jit_call =
  Available
| Specialize string jit_context "(string \<times> u64) list"
| DumpIR string jit_context
| SpecializeBytes string "u8 list option" string jit_context "(string \<times> u64) list"
| DumpIRBytes "u8 list"

fun jit_step :: "('lib, 'fn, 'p) jit_platform \<Rightarrow> jit_call \<Rightarrow> ('lib, 'fn) engine_state \<Rightarrow> ('lib, 'fn) engine_state" where
  "jit_step pf Available s = snd (jit_available pf s)"
| "jit_step pf (Specialize n c costs) s = snd (specialize pf n c costs s)"
| "jit_step pf (DumpIR n c) s = snd (dump_ir pf n c s)"
| "jit_step pf (SpecializeBytes n ir m c costs) s = snd (specialize_bytes pf n ir m c costs s)"
| "jit_step pf (DumpIRBytes ir) s = snd (dump_ir_bytes pf ir s)"

lemma jit_step_tried:
  assumes "engine_inv pf s"
  shows "engine_tried pf (jit_step pf x s)"
proof -
  obtain s' where "loadEngine pf s = (usable_engine pf \<noteq> None, s')" "engine_tried pf s'"
    using loadEngine_result [OF assms] .
  then show ?thesis
    by (cases x) (auto simp: jit_available_def specialize_def dump_ir_def specialize_bytes_def
        dump_ir_bytes_def Let_def split: option.splits)
qed

lemma jit_run_inv: "engine_inv pf s \<Longrightarrow> engine_inv pf (fold (jit_step pf) xs s)"
  by (induction xs arbitrary: s) (simp_all add: engine_inv_def [of pf "jit_step pf _ _"] jit_step_tried)

text \<open>
  After any history of calls, \<open>specialize\<close> gives the null pointer when the process has no
  usable engine, and otherwise exactly what the engine's own export returns for the serialised
  context and samples; the library searched is the same for all calls, and the loader has tried
  each candidate path at most once in the whole run.
\<close>

theorem specialize_history_independent:
  assumes "s = fold (jit_step pf) calls engine_start"
  shows "fst (specialize pf name ctx costs s) =
     (case usable_engine pf of
        None \<Rightarrow> None
      | Some lib \<Rightarrow> call_specialize pf (the (pf_getSymbol pf lib ''topo_jit_engine_specialize''))
                      name (serializeContext ctx) (serializeCostSamples costs))
   \<and> (\<exists>n. en_tried (snd (specialize pf name ctx costs s)) = take n (candidates_of pf))"
proof -
  have "engine_inv pf s" using assms by (simp add: jit_run_inv engine_inv_start)
  then obtain s' where l: "loadEngine pf s = (usable_engine pf \<noteq> None, s')" and t: "engine_tried pf s'"
    using loadEngine_result by metis
  have "ei_specialize (g_engine s') = pf_getSymbol pf lib ''topo_jit_engine_specialize''
      \<and> pf_getSymbol pf lib ''topo_jit_engine_specialize'' \<noteq> None" if "usable_engine pf = Some lib" for lib
    using engine_tried_table [OF t that] that
    by (auto simp: table_of_def usable_engine_def split: option.splits if_splits)
  moreover have "en_tried s' = snd (load_first (pf_load pf) (candidates_of pf))"
    using t by (simp add: engine_tried_def)
  ultimately show ?thesis
    using l load_first_tried [of "pf_load pf" "candidates_of pf"]
    by (cases "usable_engine pf") (auto simp: specialize_def Let_def)
qed

definition demo_platform :: "(string, string, nat) jit_platform" where
  "demo_platform =
     \<lparr>pf_os = Linux, pf_exeDir = ''/opt/bin'', pf_env_override = None,
      pf_load = (\<lambda>p. if p = ''/opt/bin/../lib/libtopo-jit-engine.so'' then Some p else None),
      pf_getSymbol = (\<lambda>lib n. Some n), call_version = (\<lambda>f. 2), call_available = (\<lambda>f. 1),
      call_specialize = (\<lambda>f n c m. Some (length c)), call_specializeBytes = (\<lambda>f n b m c k. None),
      call_dumpIR = (\<lambda>f n c. Some n), call_dumpIRBytes = (\<lambda>f b. None)\<rparr>"

theorem specialize_history_independent_witness:
  "fst (specialize demo_platform ''p'' empty_context []
      (fold (jit_step demo_platform) [Available, DumpIR ''p'' empty_context] engine_start))
     = Some (length (serializeContext empty_context))"
  using conjunct1 [OF specialize_history_independent [OF refl,
      of demo_platform "''p''" empty_context "[]" "[Available, DumpIR ''p'' empty_context]"]]
  by (simp add: usable_engine_def candidates_of_def engineSearchCandidates_def demo_platform_def)

text \<open>
  Of the paths handed to the dynamic loader, the only one that can be a bare file name (no
  directory separator, so the operating system would search for it) is the operator's override;
  the paths derived from the executable's directory are all anchored.
\<close>

theorem engine_paths_anchored:
  "filter (\<lambda>c. CHR ''/'' \<notin> set c) (engineSearchCandidates exeDir (engineLibName os) env)
     = (if c_string env \<noteq> [] \<and> CHR ''/'' \<notin> set (c_string env) then [c_string env] else [])
   \<and> (engineSearchCandidates exeDir (engineLibName os) env = []) = (exeDir = [] \<and> c_string env = [])"
  by (simp add: engineSearchCandidates_def Let_def)

end
