(* ===== verification/Adaptive.thy ===== *)
theory Adaptive
  imports CostSamples JitApi PassEvent Double64
begin

text \<open>
  runtime/topo_adaptive.cpp, topo_adaptive_register.cpp and topo_adaptive_internal.h: the state
  machine that decides when a pipeline runs its JIT version. Every section under \<open>g_mutex\<close> is one
  step: a monitor pass (with the cost samples it read before taking the lock), the two halves of
  \<open>force_specialize\<close> around the compile, registration, and the parts of \<open>init\<close> and \<open>shutdown\<close>. The
  asynchronous compile is a future that the environment completes; the dispatch pointers are a
  memory of their own. The cost sampler is the one of CostSamples, the constraint context that of
  JitApi, the events that of PassEvent, the ratios are binary64 as in Double64. Diagnostics on
  stderr are left out.
\<close>

section \<open>State\<close>

datatype PipelineState = WARMUP | MONITORING | SPECIALIZING | VERIFYING | ACTIVE

text \<open>\<open>std::future<void*>\<close>: without a state, compiling, or ready with a (possibly null) pointer.\<close>

datatype jit_future = NoFuture | Compiling | Ready "nat option"

record PipelineEntry =
  mangledName :: string
  pipelineName :: string
  jitPtr :: nat
  aotTTICost :: u64
  ps_state :: PipelineState
  callCount :: u32
  jitVersions :: u32
  aotBaselineNS :: u64
  jitBaselineNS :: u64
  verifyCount :: u32
  jitFuture :: jit_future

record adaptive_config =
  monitor_ms :: u32
  min_trigger_ns :: u64
  deviation_ratio :: double
  deopt_ratio :: double
  max_versions :: u32
  verify_calls :: u32

text \<open>A compile handed to the JIT API.\<close>

datatype jit_request =
  Specialize_req string jit_context
| Specialize_bytes_req string "u8 list option" string jit_context

record adaptive_state =
  g_pipelines :: "PipelineEntry list"
  ad_initialized :: bool
  ad_shutdown :: bool
  g_config :: adaptive_config
  g_specializations :: u32
  g_deoptimizations :: u32
  g_activeJit :: u32
  jit_mem :: "nat \<Rightarrow> nat option"
  ad_costs :: cost_state
  ad_out :: std_file
  ad_requests :: "jit_request list"
  forces :: "string list"
  draining :: bool

text \<open>
  \<open>forces\<close> are the pipelines whose \<open>force_specialize\<close> is between its two critical sections;
  \<open>draining\<close> marks a shutdown between its first and its second.
\<close>

definition set_entry :: "nat \<Rightarrow> PipelineEntry \<Rightarrow> adaptive_state \<Rightarrow> adaptive_state" where
  "set_entry i e s = s\<lparr>g_pipelines := (g_pipelines s)[i := e]\<rparr>"

definition store_ptr :: "PipelineEntry \<Rightarrow> nat option \<Rightarrow> adaptive_state \<Rightarrow> adaptive_state" where
  "store_ptr e p s = s\<lparr>jit_mem := (jit_mem s)(jitPtr e := p)\<rparr>"

section \<open>Constraints and triggers\<close>

definition stage_costs :: "string \<Rightarrow> (string \<times> u64) list \<Rightarrow> (string \<times> u64) list" where
  "stage_costs pname costs =
     (let pfx = pname @ sep
      in map (\<lambda>(name, ns). (substr_from name (length pfx), ns)) (filter (\<lambda>(name, ns). starts_with pfx name) costs))"

definition cold_ratio :: double where
  "cold_ratio = round_double (1 / 10)"

definition cold_threshold :: "(string \<times> u64) list \<Rightarrow> double" where
  "cold_threshold stageCosts =
     (let total_ns = fold (\<lambda>(_, ns) a. a + ns) stageCosts 0;
          mean = ddiv (double_of_u64 total_ns) (double_of_u64 (of_nat (length stageCosts)))
      in dmul mean cold_ratio)"

definition buildConstraintsFromCosts :: "PipelineEntry \<Rightarrow> (string \<times> u64) list \<Rightarrow> jit_context" where
  "buildConstraintsFromCosts entry costs =
     (let ctx = empty_context;
          stageCosts = stage_costs (pipelineName entry) costs
      in if stageCosts = [] then ctx
         else
           (let threshold = cold_threshold stageCosts;
                ctx = fold (\<lambda>(stage, ns) ctx.
                        if dlt (double_of_u64 ns) threshold then prune_edge ''*'' stage ctx else ctx)
                      stageCosts ctx;
                ctx = set_param ''aot_tti_cost'' (show_u64 (aotTTICost entry)) ctx
            in case map_of costs (pipelineName entry) of
                 None \<Rightarrow> ctx
               | Some ns \<Rightarrow> set_param ''runtime_cost_ns'' (show_u64 ns) ctx))"

definition emitVariantSwitch :: "u64 \<Rightarrow> PipelineEntry \<Rightarrow> string \<Rightarrow> string \<Rightarrow> adaptive_state \<Rightarrow> adaptive_state" where
  "emitVariantSwitch now entry frm dst s =
     s\<lparr>ad_out := topo_pass_event_emit now (Some ''AdaptiveDispatchPass'') (Some frm) (Some dst)
                  (Some (pipelineName entry)) (ad_out s)\<rparr>"

definition shouldRespecialize :: "adaptive_config \<Rightarrow> PipelineEntry \<Rightarrow> (string \<times> u64) list \<Rightarrow> bool" where
  "shouldRespecialize cfg entry costs =
     (case map_of costs (pipelineName entry) of
        None \<Rightarrow> False
      | Some runtimeNS \<Rightarrow>
          if jitVersions entry = 0 then min_trigger_ns cfg < runtimeNS
          else if 0 < aotBaselineNS entry then
            (let ratio = ddiv (double_of_u64 runtimeNS) (double_of_u64 (aotBaselineNS entry))
             in dlt (deviation_ratio cfg) ratio \<or> dlt ratio (ddiv (Num 1) (deviation_ratio cfg)))
          else False)"

section \<open>The monitor\<close>

text \<open>The JIT is rejected, or has degraded: back to the AOT version.\<close>

definition deoptimize :: "u64 \<Rightarrow> nat \<Rightarrow> PipelineEntry \<Rightarrow> adaptive_state \<Rightarrow> adaptive_state" where
  "deoptimize now i entry s =
     (let s = store_ptr entry None s;
          s = s\<lparr>g_deoptimizations := g_deoptimizations s + 1, g_activeJit := g_activeJit s - 1\<rparr>;
          s = emitVariantSwitch now entry ''jit'' ''aot'' s
      in set_entry i (entry\<lparr>ps_state := MONITORING\<rparr>) s)"

text \<open>\<open>max(1u, (verify_calls + 9) / 10)\<close>, in 32 bits.\<close>

definition requiredCycles :: "u32 \<Rightarrow> u32" where
  "requiredCycles verify = max 1 ((verify + 9) div 10)"

text \<open>The body of the loop over the pipelines: one \<open>switch\<close> on the state of entry \<open>i\<close>.\<close>

definition monitor_entry :: "u64 \<Rightarrow> (string \<times> u64) list \<Rightarrow> nat \<Rightarrow> adaptive_state \<Rightarrow> adaptive_state" where
  "monitor_entry now costs i s =
     (let entry = g_pipelines s ! i; it = map_of costs (pipelineName entry); cfg = g_config s
      in case ps_state entry of
           WARMUP \<Rightarrow>
             (case it of
                None \<Rightarrow> s
              | Some ns \<Rightarrow>
                  if 0 < ns then set_entry i (entry\<lparr>aotBaselineNS := ns, ps_state := MONITORING\<rparr>) s else s)
         | MONITORING \<Rightarrow>
             if max_versions cfg \<le> jitVersions entry then s
             else if shouldRespecialize cfg entry costs
               then (let ctx = buildConstraintsFromCosts entry costs;
                         s = s\<lparr>ad_requests := ad_requests s @ [Specialize_req (pipelineName entry) ctx]\<rparr>
                     in set_entry i (entry\<lparr>ps_state := SPECIALIZING, jitFuture := Compiling\<rparr>) s)
               else s
         | SPECIALIZING \<Rightarrow>
             (case jitFuture entry of
                NoFuture \<Rightarrow> s
              | Compiling \<Rightarrow> s
              | Ready None \<Rightarrow> set_entry i (entry\<lparr>jitFuture := NoFuture, ps_state := MONITORING\<rparr>) s
              | Ready (Some ptr) \<Rightarrow>
                  (let s = store_ptr entry (Some ptr) s;
                       entry = entry\<lparr>jitFuture := NoFuture, jitVersions := jitVersions entry + 1\<rparr>;
                       s = s\<lparr>g_specializations := g_specializations s + 1, g_activeJit := g_activeJit s + 1\<rparr>;
                       s = emitVariantSwitch now entry ''aot'' ''jit'' s;
                       s = s\<lparr>ad_costs := reset_cost_samples_of (pipelineName entry) (ad_costs s)\<rparr>
                   in set_entry i (entry\<lparr>verifyCount := 0, ps_state := VERIFYING\<rparr>) s))
         | VERIFYING \<Rightarrow>
             (case it of
                None \<Rightarrow> s
              | Some ns \<Rightarrow>
                  (let entry = entry\<lparr>jitBaselineNS := ns, verifyCount := verifyCount entry + 1\<rparr>
                   in if verifyCount entry < requiredCycles (verify_calls cfg) then set_entry i entry s
                      else if 0 < aotBaselineNS entry \<and> 0 < jitBaselineNS entry then
                        (let improvement = ddiv (double_of_u64 (jitBaselineNS entry)) (double_of_u64 (aotBaselineNS entry))
                         in if dle (deopt_ratio cfg) improvement then deoptimize now i entry s
                            else set_entry i (entry\<lparr>ps_state := ACTIVE\<rparr>) s)
                      else set_entry i (entry\<lparr>ps_state := ACTIVE\<rparr>) s))
         | ACTIVE \<Rightarrow>
             (case it of
                None \<Rightarrow> s
              | Some currentNS \<Rightarrow>
                  if 0 < jitBaselineNS entry then
                    (let ratio = ddiv (double_of_u64 currentNS) (double_of_u64 (jitBaselineNS entry))
                     in if dlt (deviation_ratio cfg) ratio then deoptimize now i entry s else s)
                  else s))"

text \<open>One pass: \<open>now i\<close> is the clock when entry \<open>i\<close> emits.\<close>

definition monitor_pass :: "(nat \<Rightarrow> u64) \<Rightarrow> (string \<times> u64) list \<Rightarrow> adaptive_state \<Rightarrow> adaptive_state" where
  "monitor_pass now costs s = fold (\<lambda>i s. monitor_entry (now i) costs i s) [0..<length (g_pipelines s)] s"

section \<open>The API\<close>

definition new_entry :: "string \<Rightarrow> string \<Rightarrow> nat \<Rightarrow> u64 \<Rightarrow> PipelineEntry" where
  "new_entry mangled pname ptr tti =
     \<lparr>mangledName = mangled, pipelineName = pname, jitPtr = ptr, aotTTICost = tti, ps_state = WARMUP,
      callCount = 0, jitVersions = 0, aotBaselineNS = 0, jitBaselineNS = 0, verifyCount = 0, jitFuture = NoFuture\<rparr>"

definition topo_adaptive_register :: "string \<Rightarrow> string \<Rightarrow> nat \<Rightarrow> u64 \<Rightarrow> adaptive_state \<Rightarrow> adaptive_state" where
  "topo_adaptive_register mangled pname ptr tti s =
     s\<lparr>g_pipelines := g_pipelines s @ [new_entry mangled pname ptr tti]\<rparr>"

definition adaptive_init :: "adaptive_config \<Rightarrow> adaptive_state \<Rightarrow> adaptive_state" where
  "adaptive_init cfg s =
     (if ad_initialized s then s
      else s\<lparr>ad_initialized := True, ad_shutdown := False, g_config := cfg\<rparr>)"

definition adaptive_shutdown_signal :: "adaptive_state \<Rightarrow> adaptive_state" where
  "adaptive_shutdown_signal s =
     (if ad_initialized s then s\<lparr>ad_shutdown := True, ad_initialized := False, draining := True\<rparr>
      else s\<lparr>draining := True\<rparr>)"

definition adaptive_shutdown_drain :: "adaptive_state \<Rightarrow> adaptive_state" where
  "adaptive_shutdown_drain s =
     s\<lparr>g_pipelines := [], g_specializations := 0, g_deoptimizations := 0, g_activeJit := 0, draining := False\<rparr>"

definition adaptive_stats :: "adaptive_state \<Rightarrow> u32 \<times> u32 \<times> u32" where
  "adaptive_stats s = (g_specializations s, g_deoptimizations s, g_activeJit s)"

definition commitSpecialization :: "u64 \<Rightarrow> nat \<Rightarrow> nat option \<Rightarrow> adaptive_state \<Rightarrow> adaptive_state" where
  "commitSpecialization now i ptr s =
     (case ptr of
        None \<Rightarrow> s
      | Some p \<Rightarrow>
          (let entry = g_pipelines s ! i;
               wasActive = (ps_state entry = ACTIVE);
               s = store_ptr entry (Some p) s;
               entry = entry\<lparr>jitVersions := jitVersions entry + 1\<rparr>;
               s = s\<lparr>g_specializations := g_specializations s + 1\<rparr>;
               s = (if \<not> wasActive then s\<lparr>g_activeJit := g_activeJit s + 1\<rparr> else s);
               entry = entry\<lparr>ps_state := ACTIVE\<rparr>;
               s = set_entry i entry s
           in emitVariantSwitch now entry ''aot'' ''jit'' s))"

text \<open>The index of the first pipeline of that name.\<close>

fun find_from :: "nat \<Rightarrow> string \<Rightarrow> PipelineEntry list \<Rightarrow> nat option" where
  "find_from i name [] = None"
| "find_from i name (e # es) = (if pipelineName e = name then Some i else find_from (Suc i) name es)"

definition findPipeline :: "string \<Rightarrow> adaptive_state \<Rightarrow> nat option" where
  "findPipeline name s = find_from 0 name (g_pipelines s)"

definition monitorSpecializationInFlight :: "PipelineEntry \<Rightarrow> bool" where
  "monitorSpecializationInFlight e \<longleftrightarrow> ps_state e = SPECIALIZING \<and> jitFuture e \<noteq> NoFuture"

definition may_force :: "string \<Rightarrow> adaptive_state \<Rightarrow> nat option" where
  "may_force name s =
     (case findPipeline name s of
        None \<Rightarrow> None
      | Some i \<Rightarrow>
          if max_versions (g_config s) \<le> jitVersions (g_pipelines s ! i) then None
          else if monitorSpecializationInFlight (g_pipelines s ! i) then None
          else Some i)"

text \<open>
  \<open>force_specialize\<close> up to the unlock, where the compile is requested unless it returns early; and
  from the relock on, with the pointer the compile gave. \<open>force_specialize_bytes\<close> differs in the
  request.
\<close>

definition force_specialize_begin :: "string \<Rightarrow> adaptive_state \<Rightarrow> adaptive_state" where
  "force_specialize_begin name s =
     (case may_force name s of
        None \<Rightarrow> s
      | Some i \<Rightarrow>
          (let entry = g_pipelines s ! i;
               costs = get_cost_samples (ad_costs s);
               ctx = buildConstraintsFromCosts entry costs
           in s\<lparr>ad_requests := ad_requests s @ [Specialize_req (pipelineName entry) ctx],
                forces := forces s @ [name]\<rparr>))"

definition force_specialize_bytes_begin ::
  "string \<Rightarrow> u8 list option \<Rightarrow> string \<Rightarrow> adaptive_state \<Rightarrow> adaptive_state" where
  "force_specialize_bytes_begin name irBytes metaJson s =
     (case may_force name s of
        None \<Rightarrow> s
      | Some i \<Rightarrow>
          (let entry = g_pipelines s ! i;
               costs = get_cost_samples (ad_costs s);
               ctx = buildConstraintsFromCosts entry costs
           in s\<lparr>ad_requests := ad_requests s @ [Specialize_bytes_req (pipelineName entry) irBytes metaJson ctx],
                forces := forces s @ [name]\<rparr>))"

definition force_specialize_end :: "u64 \<Rightarrow> string \<Rightarrow> nat option \<Rightarrow> adaptive_state \<Rightarrow> adaptive_state" where
  "force_specialize_end now name ptr s =
     (let s = s\<lparr>forces := remove1 name (forces s)\<rparr>
      in case may_force name s of
           None \<Rightarrow> s
         | Some i \<Rightarrow> commitSpecialization now i ptr s)"

section \<open>Interleavings\<close>

datatype adaptive_action =
  Register string string nat u64 | Init adaptive_config | ShutdownSignal | ShutdownDrain
| MonitorPass "nat \<Rightarrow> u64" "(string \<times> u64) list" | CompileDone nat "nat option" | Cost cost_op
| ForceBegin string | ForceBytesBegin string "u8 list option" string | ForceEnd u64 string "nat option"

definition compile_done :: "nat \<Rightarrow> nat option \<Rightarrow> adaptive_state \<Rightarrow> adaptive_state" where
  "compile_done i r s = set_entry i ((g_pipelines s ! i)\<lparr>jitFuture := Ready r\<rparr>) s"

fun ad_exec :: "adaptive_action \<Rightarrow> adaptive_state \<Rightarrow> adaptive_state" where
  "ad_exec (Register m n p c) s = topo_adaptive_register m n p c s"
| "ad_exec (Init cfg) s = adaptive_init cfg s"
| "ad_exec ShutdownSignal s = adaptive_shutdown_signal s"
| "ad_exec ShutdownDrain s = adaptive_shutdown_drain s"
| "ad_exec (MonitorPass now costs) s = monitor_pass now costs s"
| "ad_exec (CompileDone i r) s = compile_done i r s"
| "ad_exec (Cost x) s = s\<lparr>ad_costs := cost_step x (ad_costs s)\<rparr>"
| "ad_exec (ForceBegin n) s = force_specialize_begin n s"
| "ad_exec (ForceBytesBegin n ir m) s = force_specialize_bytes_begin n ir m s"
| "ad_exec (ForceEnd now n p) s = force_specialize_end now n p s"

text \<open>
  Every pipeline registers a pointer of its own, null at first (a global the pass creates); \<open>init\<close>
  is not called inside a shutdown; a compile finishes once; \<open>max_versions\<close> is at most \<open>B\<close> in every
  configuration used.
\<close>

fun ad_enabled :: "u32 \<Rightarrow> adaptive_action \<Rightarrow> adaptive_state \<Rightarrow> bool" where
  "ad_enabled B (Register m n p c) s \<longleftrightarrow> p \<notin> jitPtr ` set (g_pipelines s) \<and> jit_mem s p = None"
| "ad_enabled B (Init cfg) s \<longleftrightarrow> \<not> draining s \<and> max_versions cfg \<le> B"
| "ad_enabled B ShutdownSignal s \<longleftrightarrow> \<not> draining s"
| "ad_enabled B ShutdownDrain s \<longleftrightarrow> draining s"
| "ad_enabled B (MonitorPass now costs) s \<longleftrightarrow> ad_initialized s \<or> draining s"
| "ad_enabled B (CompileDone i r) s \<longleftrightarrow> i < length (g_pipelines s) \<and> jitFuture (g_pipelines s ! i) = Compiling"
| "ad_enabled B (ForceEnd now n p) s \<longleftrightarrow> n \<in> set (forces s)"
| "ad_enabled B _ s \<longleftrightarrow> True"

text \<open>A forced commit that does not hit an entry under verification.\<close>

fun tame :: "adaptive_action \<Rightarrow> adaptive_state \<Rightarrow> bool" where
  "tame (ForceEnd now n p) s \<longleftrightarrow>
     (case findPipeline n s of None \<Rightarrow> True | Some i \<Rightarrow> ps_state (g_pipelines s ! i) \<noteq> VERIFYING)"
| "tame _ s \<longleftrightarrow> True"

definition adaptive_start :: "adaptive_config \<Rightarrow> adaptive_state" where
  "adaptive_start cfg =
     \<lparr>g_pipelines = [], ad_initialized = False, ad_shutdown = False, g_config = cfg, g_specializations = 0,
      g_deoptimizations = 0, g_activeJit = 0, jit_mem = (\<lambda>_. None), ad_costs = cost_start,
      ad_out = empty_file, ad_requests = [], forces = [], draining = False\<rparr>"

inductive ad_reach :: "u32 \<Rightarrow> bool \<Rightarrow> adaptive_state \<Rightarrow> bool" for B tamed where
  ad_reach_start: "max_versions cfg \<le> B \<Longrightarrow> ad_reach B tamed (adaptive_start cfg)"
| ad_reach_step:
    "ad_reach B tamed s \<Longrightarrow> ad_enabled B a s \<Longrightarrow> (tamed \<longrightarrow> tame a s) \<Longrightarrow> ad_reach B tamed (ad_exec a s)"

section \<open>The invariant\<close>

definition live :: "PipelineEntry \<Rightarrow> bool" where
  "live e \<longleftrightarrow> ps_state e = VERIFYING \<or> ps_state e = ACTIVE"

definition live_count :: "PipelineEntry list \<Rightarrow> u32" where
  "live_count es = sum_list (map (\<lambda>e. if live e then 1 else 0) es)"

definition entry_ok :: "u32 \<Rightarrow> (nat \<Rightarrow> nat option) \<Rightarrow> PipelineEntry \<Rightarrow> bool" where
  "entry_ok B mem e \<longleftrightarrow>
     jitVersions e \<le> B \<and>
     (if ps_state e = SPECIALIZING then jitFuture e \<noteq> NoFuture \<and> jitVersions e < B else jitFuture e = NoFuture) \<and>
     (live e \<longleftrightarrow> mem (jitPtr e) \<noteq> None)"

definition ad_inv :: "u32 \<Rightarrow> bool \<Rightarrow> adaptive_state \<Rightarrow> bool" where
  "ad_inv B tamed s \<longleftrightarrow>
     distinct (map jitPtr (g_pipelines s)) \<and> (\<forall>e\<in>set (g_pipelines s). entry_ok B (jit_mem s) e) \<and>
     max_versions (g_config s) \<le> B \<and> (tamed \<longrightarrow> g_activeJit s = live_count (g_pipelines s))"

lemma live_count_of_nat: "live_count es = of_nat (length (filter live es))"
  by (induction es) (simp_all add: live_count_def)

lemma live_count_append [simp]: "live_count (es @ fs) = live_count es + live_count fs"
  by (simp add: live_count_def)

lemma live_count_update:
  "i < length es \<Longrightarrow> live_count (es[i := e]) = live_count es - (if live (es ! i) then 1 else 0) + (if live e then 1 else 0)"
proof (induction es arbitrary: i)
  case Nil
  then show ?case by simp
next
  case (Cons x es)
  then show ?case by (cases i) (simp_all add: live_count_def algebra_simps)
qed

lemma u32_Suc_le: "(v :: u32) < B \<Longrightarrow> v + 1 \<le> B"
  by (rule inc_le)

text \<open>An operation on one entry and its own pointer.\<close>

lemma entry_update_inv:
  assumes "ad_inv B tamed s" and "i < length (g_pipelines s)"
    and "g_pipelines s' = (g_pipelines s)[i := e]" and "jitPtr e = jitPtr (g_pipelines s ! i)"
    and "jit_mem s' = (jit_mem s)(jitPtr e := p)" and "entry_ok B (jit_mem s') e"
    and "g_config s' = g_config s"
    and "tamed \<longrightarrow> g_activeJit s' = g_activeJit s - (if live (g_pipelines s ! i) then 1 else 0) + (if live e then 1 else 0)"
  shows "ad_inv B tamed s'"
proof -
  let ?es = "g_pipelines s"
  have d: "distinct (map jitPtr ?es)" using assms(1) by (simp add: ad_inv_def)
  have ptrs: "map jitPtr (g_pipelines s') = map jitPtr ?es"
    using assms(2-4) list_update_id [of "map jitPtr ?es" i] by (simp add: map_update del: list_update_id)
  have "entry_ok B (jit_mem s') x" if x: "x \<in> set (g_pipelines s')" for x
  proof -
    obtain j where j: "j < length ?es" "x = (?es[i := e]) ! j"
      using x assms(3) by (auto simp: in_set_conv_nth)
    show ?thesis
    proof (cases "j = i")
      case True
      with j assms(6) show ?thesis by simp
    next
      case False
      with j have x': "x = ?es ! j" by simp
      have "jitPtr x \<noteq> jitPtr e"
        using d j(1) assms(2,4) False x' by (simp add: distinct_conv_nth)
      moreover have "entry_ok B (jit_mem s) x" using assms(1) j(1) x' by (simp add: ad_inv_def)
      ultimately show ?thesis by (simp add: entry_ok_def assms(5))
    qed
  qed
  with ptrs d assms(1,2,3,7,8) show ?thesis
    by (auto simp: ad_inv_def live_count_update)
qed

lemma entry_keep_inv:
  assumes "ad_inv B tamed s" and "i < length (g_pipelines s)"
    and "g_pipelines s' = (g_pipelines s)[i := e]" and "jitPtr e = jitPtr (g_pipelines s ! i)"
    and "jit_mem s' = jit_mem s" and "entry_ok B (jit_mem s) e"
    and "g_config s' = g_config s" and "g_activeJit s' = g_activeJit s" and "live e = live (g_pipelines s ! i)"
  shows "ad_inv B tamed s'"
  using assms(3-9) by (intro entry_update_inv [OF assms(1,2), of _ e "jit_mem s (jitPtr e)"]) auto

lemma entry_ok_at: "ad_inv B tamed s \<Longrightarrow> i < length (g_pipelines s) \<Longrightarrow> entry_ok B (jit_mem s) (g_pipelines s ! i)"
  by (simp add: ad_inv_def)

lemmas ad_fields [simp] = set_entry_def store_ptr_def emitVariantSwitch_def

lemma deoptimize_inv:
  assumes "ad_inv B tamed s" and "i < length (g_pipelines s)" and "live (g_pipelines s ! i)"
    and "jitPtr e = jitPtr (g_pipelines s ! i)" and "jitVersions e \<le> B" and "jitFuture e = NoFuture"
  shows "ad_inv B tamed (deoptimize now i e s)"
  using assms(3-6)
  by (intro entry_update_inv [OF assms(1,2), of _ "e\<lparr>ps_state := MONITORING\<rparr>" None])
    (auto simp: deoptimize_def Let_def entry_ok_def live_def)

lemma monitor_entry_inv:
  assumes "ad_inv B tamed s" and "i < length (g_pipelines s)"
  shows "ad_inv B tamed (monitor_entry now costs i s)"
proof -
  let ?e = "g_pipelines s ! i"
  note ok = entry_ok_at [OF assms]
  note keep = entry_keep_inv [OF assms]
  have max: "max_versions (g_config s) \<le> B" using assms(1) by (simp add: ad_inv_def)
  show ?thesis
  proof (cases "ps_state ?e")
    case WARMUP
    with ok assms(1) show ?thesis
      by (auto simp: monitor_entry_def Let_def entry_ok_def live_def split: option.splits intro!: keep)
  next
    case MONITORING
    with ok assms(1) max show ?thesis
      by (auto simp: monitor_entry_def Let_def entry_ok_def live_def not_le intro!: keep intro: less_le_trans)
  next
    case SPECIALIZING
    show ?thesis
    proof (cases "jitFuture ?e")
      case (Ready r)
      show ?thesis
      proof (cases r)
        case None
        with Ready SPECIALIZING ok show ?thesis
          by (auto simp: monitor_entry_def Let_def entry_ok_def live_def intro!: keep)
      next
        case (Some ptr)
        with Ready SPECIALIZING ok show ?thesis
          by (intro entry_update_inv [OF assms, of _ "?e\<lparr>jitFuture := NoFuture, jitVersions := jitVersions ?e + 1,
                verifyCount := 0, ps_state := VERIFYING\<rparr>" "Some ptr"])
            (auto simp: monitor_entry_def Let_def entry_ok_def live_def u32_Suc_le)
      qed
    qed (use SPECIALIZING assms(1) in \<open>simp_all add: monitor_entry_def Let_def\<close>)
  next
    case VERIFYING
    then have l: "live ?e" by (simp add: live_def)
    with VERIFYING ok assms(1) show ?thesis
      by (auto simp: monitor_entry_def Let_def entry_ok_def live_def split: option.splits
          intro!: keep deoptimize_inv [OF assms])
  next
    case ACTIVE
    then have l: "live ?e" by (simp add: live_def)
    with ACTIVE ok assms(1) show ?thesis
      by (auto simp: monitor_entry_def Let_def entry_ok_def live_def split: option.splits
          intro!: deoptimize_inv [OF assms])
  qed
qed

lemma monitor_entry_length [simp]: "length (g_pipelines (monitor_entry now costs i s)) = length (g_pipelines s)"
  by (auto simp: monitor_entry_def deoptimize_def Let_def split: option.splits PipelineState.splits jit_future.splits)

lemma monitor_pass_inv:
  assumes "ad_inv B tamed s"
  shows "ad_inv B tamed (monitor_pass now costs s)"
proof -
  have "ad_inv B tamed (fold (\<lambda>i s. monitor_entry (now i) costs i s) is s) \<and>
      length (g_pipelines (fold (\<lambda>i s. monitor_entry (now i) costs i s) is s)) = length (g_pipelines s)"
    if "ad_inv B tamed s" and "\<forall>i\<in>set is. i < length (g_pipelines s)" for "is" and s
    using that by (induction "is" arbitrary: s) (simp_all add: monitor_entry_inv)
  from this [of s "[0..<length (g_pipelines s)]"] assms show ?thesis by (simp add: monitor_pass_def)
qed

lemma find_from_Some:
  "find_from i n es = Some j \<Longrightarrow> i \<le> j \<and> j - i < length es \<and> pipelineName (es ! (j - i)) = n"
proof (induction es arbitrary: i)
  case Nil
  then show ?case by simp
next
  case (Cons e es)
  show ?case
  proof (cases "pipelineName e = n")
    case True
    with Cons.prems show ?thesis by simp
  next
    case False
    with Cons.prems Cons.IH [of "Suc i"] have "Suc i \<le> j \<and> j - Suc i < length es \<and> pipelineName (es ! (j - Suc i)) = n"
      by simp
    then show ?thesis by (auto simp: nth_Cons' Suc_diff_Suc)
  qed
qed

lemma may_force_Some:
  assumes "may_force n s = Some i"
  shows "i < length (g_pipelines s)" and "pipelineName (g_pipelines s ! i) = n"
    and "jitVersions (g_pipelines s ! i) < max_versions (g_config s)"
    and "\<not> monitorSpecializationInFlight (g_pipelines s ! i)" and "findPipeline n s = Some i"
  using assms find_from_Some [of 0 n "g_pipelines s" i]
  by (auto simp: may_force_def findPipeline_def not_le split: option.splits if_splits)

lemma commit_inv:
  assumes "ad_inv B tamed s" and "may_force n s = Some i"
    and "tamed \<longrightarrow> ps_state (g_pipelines s ! i) \<noteq> VERIFYING"
  shows "ad_inv B tamed (commitSpecialization now i ptr s)"
proof (cases ptr)
  case None
  with assms(1) show ?thesis by (simp add: commitSpecialization_def)
next
  case (Some p)
  let ?e = "g_pipelines s ! i"
  note mf = may_force_Some [OF assms(2)]
  note ok = entry_ok_at [OF assms(1) mf(1)]
  have max: "max_versions (g_config s) \<le> B" using assms(1) by (simp add: ad_inv_def)
  have ns: "ps_state ?e \<noteq> SPECIALIZING"
    using mf(4) ok by (auto simp: monitorSpecializationInFlight_def entry_ok_def)
  with Some ok mf(3) max assms(3) show ?thesis
    by (intro entry_update_inv [OF assms(1) mf(1), of _ "?e\<lparr>jitVersions := jitVersions ?e + 1, ps_state := ACTIVE\<rparr>" "Some p"])
      (auto simp: commitSpecialization_def Let_def entry_ok_def live_def intro: u32_Suc_le less_le_trans
        split: PipelineState.splits)
qed

lemma ad_inv_cong:
  "ad_inv B tamed s \<Longrightarrow> g_pipelines s' = g_pipelines s \<Longrightarrow> jit_mem s' = jit_mem s \<Longrightarrow>
   g_activeJit s' = g_activeJit s \<Longrightarrow> g_config s' = g_config s \<Longrightarrow> ad_inv B tamed s'"
  by (simp add: ad_inv_def)

lemma may_force_forces [simp]: "may_force n (s\<lparr>forces := fs\<rparr>) = may_force n s"
  by (simp add: may_force_def findPipeline_def split: option.split)

lemma ad_exec_inv:
  assumes "ad_inv B tamed s" and "ad_enabled B a s" and "tamed \<longrightarrow> tame a s"
  shows "ad_inv B tamed (ad_exec a s)"
proof (cases a)
  case (Register m n p c)
  then show ?thesis using assms
    by (auto simp: ad_inv_def topo_adaptive_register_def new_entry_def entry_ok_def live_def live_count_def)
next
  case (Init cfg)
  then show ?thesis using assms by (auto simp: adaptive_init_def ad_inv_def)
next
  case ShutdownSignal
  then show ?thesis using assms(1) by (auto simp: adaptive_shutdown_signal_def intro: ad_inv_cong)
next
  case ShutdownDrain
  then show ?thesis using assms(1) by (simp add: adaptive_shutdown_drain_def ad_inv_def live_count_def)
next
  case (MonitorPass now costs)
  then show ?thesis using assms(1) by (simp add: monitor_pass_inv)
next
  case (CompileDone i r)
  then have i: "i < length (g_pipelines s)" "jitFuture (g_pipelines s ! i) = Compiling" using assms(2) by auto
  note ok = entry_ok_at [OF assms(1) i(1)]
  show ?thesis using CompileDone i ok
    by (auto simp: compile_done_def entry_ok_def live_def split: if_splits
        intro!: entry_keep_inv [OF assms(1) i(1)])
next
  case (Cost x)
  then show ?thesis using assms(1) by (auto intro: ad_inv_cong)
next
  case (ForceBegin n)
  then show ?thesis using assms(1)
    by (auto simp: force_specialize_begin_def Let_def split: option.splits intro: ad_inv_cong)
next
  case (ForceBytesBegin n ir m)
  then show ?thesis using assms(1)
    by (auto simp: force_specialize_bytes_begin_def Let_def split: option.splits intro: ad_inv_cong)
next
  case (ForceEnd now n p)
  let ?s = "s\<lparr>forces := remove1 n (forces s)\<rparr>"
  have inv: "ad_inv B tamed ?s" using assms(1) by (rule ad_inv_cong) simp_all
  show ?thesis
  proof (cases "may_force n s")
    case None
    with ForceEnd inv show ?thesis by (simp add: force_specialize_end_def Let_def)
  next
    case (Some i)
    have "tamed \<longrightarrow> ps_state (g_pipelines ?s ! i) \<noteq> VERIFYING"
      using assms(3) ForceEnd may_force_Some(5) [OF Some] by simp
    with Some inv have "ad_inv B tamed (commitSpecialization now i p ?s)" by (intro commit_inv [of _ _ _ n]) simp_all
    with Some ForceEnd show ?thesis by (simp add: force_specialize_end_def Let_def)
  qed
qed

lemma ad_reach_inv: "ad_reach B tamed s \<Longrightarrow> ad_inv B tamed s"
proof (induction rule: ad_reach.induct)
  case (ad_reach_start cfg)
  then show ?case by (simp add: ad_inv_def adaptive_start_def live_count_def)
next
  case (ad_reach_step s a)
  then show ?case by (simp add: ad_exec_inv)
qed

section \<open>What the subsystem guarantees\<close>

text \<open>
  As long as no forced specialisation commits to a pipeline under verification, the statistic
  \<open>active_jit\<close> is the number of pipelines whose JIT pointer is live (modulo 2^32).
\<close>

lemma active_jit_exact:
  assumes "ad_reach B True s"
  shows "g_activeJit s = of_nat (length (filter (\<lambda>e. jit_mem s (jitPtr e) \<noteq> None) (g_pipelines s)))"
proof -
  have inv: "ad_inv B True s" using assms by (rule ad_reach_inv)
  have "filter (\<lambda>e. jit_mem s (jitPtr e) \<noteq> None) (g_pipelines s) = filter live (g_pipelines s)"
    using inv by (intro filter_cong) (auto simp: ad_inv_def entry_ok_def)
  with inv show ?thesis by (simp add: ad_inv_def live_count_of_nat)
qed

text \<open>
  C5. For every interleaving of monitor passes, compiles, forced specialisations, registrations,
  restarts and cost activity: no pipeline is specialised more often than the budget, a pipeline
  being specialised has a future that will be consumed, and the dispatch pointer is set exactly in
  the two states that run the JIT version. In the interleavings where no forced specialisation commits to a
  pipeline under verification, the statistic \<open>active_jit\<close> is the number of live pointers; the other statistics
  are not constrained.
\<close>

theorem adaptive_safety:
  assumes "ad_reach B tamed s" and "e \<in> set (g_pipelines s)"
  shows "jitVersions e \<le> B \<and> (ps_state e = SPECIALIZING) = (jitFuture e \<noteq> NoFuture)
     \<and> (jit_mem s (jitPtr e) \<noteq> None) = (ps_state e \<in> {VERIFYING, ACTIVE})
     \<and> (tamed \<longrightarrow> g_activeJit s = of_nat (length (filter (\<lambda>e. jit_mem s (jitPtr e) \<noteq> None) (g_pipelines s))))"
proof -
  have "entry_ok B (jit_mem s) e" using ad_reach_inv [OF assms(1)] assms(2) by (simp add: ad_inv_def)
  moreover have "tamed \<longrightarrow> g_activeJit s = of_nat (length (filter (\<lambda>e. jit_mem s (jitPtr e) \<noteq> None) (g_pipelines s)))"
    using assms(1) active_jit_exact by (cases tamed) auto
  ultimately show ?thesis by (auto simp: entry_ok_def live_def split: if_splits)
qed

definition demo_config :: adaptive_config where
  "demo_config =
     \<lparr>monitor_ms = 100, min_trigger_ns = 1000, deviation_ratio = Num 2, deopt_ratio = Num 1,
      max_versions = 3, verify_calls = 20\<rparr>"

fun ad_run :: "u32 \<Rightarrow> bool \<Rightarrow> adaptive_action list \<Rightarrow> adaptive_state \<Rightarrow> adaptive_state option" where
  "ad_run B tamed [] s = Some s"
| "ad_run B tamed (a # as) s =
     (if ad_enabled B a s \<and> (tamed \<longrightarrow> tame a s) then ad_run B tamed as (ad_exec a s) else None)"

lemma ad_run_reach: "ad_reach B tamed s \<Longrightarrow> ad_run B tamed as s = Some s' \<Longrightarrow> ad_reach B tamed s'"
  by (induction as arbitrary: s) (auto split: if_splits intro: ad_reach_step)

text \<open>One pipeline taken to verification by the monitor.\<close>

definition to_verifying :: "adaptive_action list" where
  "to_verifying =
     [Register ''_Zp'' ''p'' 8 5, Init demo_config, MonitorPass (\<lambda>_. 1) [(''p'', 5000)],
      MonitorPass (\<lambda>_. 2) [(''p'', 5000)], CompileDone 0 (Some 77), MonitorPass (\<lambda>_. 3) [(''p'', 5000)]]"

lemma monitor_pass_one:
  "g_pipelines s = [e] \<Longrightarrow> monitor_pass now costs s = monitor_entry (now 0) costs 0 s"
  by (simp add: monitor_pass_def)

lemmas ad_run_simps = to_verifying_def demo_config_def adaptive_start_def monitor_pass_one monitor_entry_def
  topo_adaptive_register_def new_entry_def adaptive_init_def compile_done_def shouldRespecialize_def
  commitSpecialization_def force_specialize_begin_def force_specialize_end_def may_force_def findPipeline_def
  monitorSpecializationInFlight_def Let_def

lemma to_verifying_run:
  "\<exists>s. ad_run 3 True to_verifying (adaptive_start demo_config) = Some s
     \<and> map ps_state (g_pipelines s) = [VERIFYING] \<and> g_activeJit s = 1 \<and> jit_mem s 8 = Some 77
     \<and> map jitPtr (g_pipelines s) = [8]"
  by (simp add: ad_run_simps)

theorem adaptive_safety_witness:
  "\<exists>s e. ad_run 3 True to_verifying (adaptive_start demo_config) = Some s \<and> e \<in> set (g_pipelines s)
     \<and> jitVersions e \<le> 3 \<and> jit_mem s (jitPtr e) \<noteq> None \<and> ps_state e \<in> {VERIFYING, ACTIVE}
     \<and> g_activeJit s = of_nat (length (filter (\<lambda>e. jit_mem s (jitPtr e) \<noteq> None) (g_pipelines s)))"
proof -
  have start: "ad_reach 3 True (adaptive_start demo_config)"
    by (rule ad_reach_start) (simp add: demo_config_def)
  obtain s where s: "ad_run 3 True to_verifying (adaptive_start demo_config) = Some s"
    "map ps_state (g_pipelines s) = [VERIFYING]"
    using to_verifying_run by (elim exE conjE) (rule that)
  then obtain e where e: "e \<in> set (g_pipelines s)" "ps_state e = VERIFYING" by (cases "g_pipelines s") auto
  from adaptive_safety [OF ad_run_reach [OF start s(1)] e(1)] s(1) e show ?thesis
    by (intro exI [of _ s] exI [of _ e]) simp
qed

text \<open>
  The excluded case is real: a forced specialisation that commits while the pipeline is under
  verification counts it twice, and when the pipeline is later deoptimised the statistic stays at
  one with no JIT version live.
\<close>

definition double_count :: "adaptive_action list" where
  "double_count =
     to_verifying @ [ForceBegin ''p'', ForceEnd 4 ''p'' (Some 78)]"

theorem forced_commit_double_counts:
  "\<exists>s. ad_run 3 False double_count (adaptive_start demo_config) = Some s
     \<and> adaptive_stats s = (2, 0, 2) \<and> length (filter (\<lambda>e. jit_mem s (jitPtr e) \<noteq> None) (g_pipelines s)) = 1"
  by (simp add: double_count_def adaptive_stats_def ad_run_simps word_le_nat_alt)

lemma dlt_ratio_le_1:
  assumes "v \<noteq> 0" and "v \<le> w" and "dle (Num 1) b"
  shows "\<not> dlt b (ddiv (double_of_u64 v) (double_of_u64 w))"
proof -
  have w: "w \<noteq> 0" using assms(1,2) by auto
  have "ratio_rat v w \<le> 1" using ratio_rat_le_1 [OF assms(1,2)] .
  with assms(3) show ?thesis by (cases b) (auto simp: ddiv_costs [OF assms(1) w])
qed

lemma dle_ratio_lt:
  assumes "v \<noteq> 0" and "v \<le> w" and "dlt (Num 1) b"
  shows "\<not> dle b (ddiv (double_of_u64 v) (double_of_u64 w))"
proof -
  have w: "w \<noteq> 0" using assms(1,2) by auto
  have "ratio_rat v w \<le> 1" using ratio_rat_le_1 [OF assms(1,2)] .
  with assms(3) show ?thesis by (cases b) (auto simp: ddiv_costs [OF assms(1) w])
qed

text \<open>
  A faster JIT version is never thrown away: with a deopt ratio above 1, a verification whose
  measured cost is at most the AOT baseline ends in \<open>ACTIVE\<close>; and with a deviation ratio of at least
  1, an active pipeline whose cost is at most its JIT baseline is left alone. (In binary64
  arithmetic, for all 64-bit costs.)
\<close>

theorem faster_version_kept:
  assumes "i < length (g_pipelines s)" and "map_of costs (pipelineName (g_pipelines s ! i)) = Some ns" and "0 < ns"
    and "ps_state (g_pipelines s ! i) = VERIFYING \<Longrightarrow>
           ns \<le> aotBaselineNS (g_pipelines s ! i) \<and> dlt (Num 1) (deopt_ratio (g_config s))"
    and "ps_state (g_pipelines s ! i) = ACTIVE \<Longrightarrow>
           ns \<le> jitBaselineNS (g_pipelines s ! i) \<and> dle (Num 1) (deviation_ratio (g_config s))"
    and "live (g_pipelines s ! i)"
  shows "live (g_pipelines (monitor_entry now costs i s) ! i)
     \<and> jit_mem (monitor_entry now costs i s) = jit_mem s
     \<and> g_deoptimizations (monitor_entry now costs i s) = g_deoptimizations s"
proof -
  have ns: "ns \<noteq> 0" using assms(3) by auto
  from assms(6) consider "ps_state (g_pipelines s ! i) = VERIFYING" | "ps_state (g_pipelines s ! i) = ACTIVE"
    by (auto simp: live_def)
  then show ?thesis
  proof cases
    case 1
    with assms(4) have "ns \<le> aotBaselineNS (g_pipelines s ! i)" "dlt (Num 1) (deopt_ratio (g_config s))" by auto
    from dle_ratio_lt [OF ns this] 1 assms(1,2) show ?thesis
      by (simp add: monitor_entry_def Let_def live_def)
  next
    case 2
    with assms(5) have "ns \<le> jitBaselineNS (g_pipelines s ! i)" "dle (Num 1) (deviation_ratio (g_config s))" by auto
    from dlt_ratio_le_1 [OF ns this] 2 assms(1,2) show ?thesis
      by (simp add: monitor_entry_def Let_def live_def)
  qed
qed

definition verifying_state :: adaptive_state where
  "verifying_state = (adaptive_start (demo_config\<lparr>deopt_ratio := Num 2\<rparr>))
     \<lparr>g_pipelines := [(new_entry ''_Zp'' ''p'' 8 5)\<lparr>ps_state := VERIFYING, aotBaselineNS := 900, verifyCount := 5\<rparr>]\<rparr>"

theorem faster_version_kept_witness:
  "live (g_pipelines (monitor_entry 1 [(''p'', 800)] 0 verifying_state) ! 0)"
  by (rule conjunct1 [OF faster_version_kept [of 0 _ _ 800]])
    (simp_all add: verifying_state_def new_entry_def adaptive_start_def demo_config_def live_def)

text \<open>
  Committing a version re-measures that pipeline only: after the monitor's commit the averages
  of the pipeline and its stages are gone, and every other name has the average it had.
\<close>

theorem commit_resets_own_costs:
  assumes "cost_ok (ad_costs s)" and "ps_state (g_pipelines s ! i) = SPECIALIZING"
    and "jitFuture (g_pipelines s ! i) = Ready (Some ptr)" and "p = pipelineName (g_pipelines s ! i)"
  shows "map_of (get_cost_samples (ad_costs (monitor_entry now costs i s))) n =
     (if n = p \<or> starts_with (p @ sep) n then None else map_of (get_cost_samples (ad_costs s)) n)"
  using assms sampler.reset_get [OF assms(1), of p n] by (simp add: monitor_entry_def Let_def)

definition committing_state :: adaptive_state where
  "committing_state = (adaptive_start demo_config)
     \<lparr>g_pipelines := [(new_entry ''_Zp'' ''p'' 8 5)\<lparr>ps_state := SPECIALIZING, jitFuture := Ready (Some 7)\<rparr>],
      ad_costs := fold cost_step cost_demo cost_start\<rparr>"

theorem commit_resets_own_costs_witness:
  "map_of (get_cost_samples (ad_costs (monitor_entry 1 [] 0 committing_state))) ''p'' = None"
proof -
  have "cost_ok (fold cost_step cost_demo cost_start)"
    unfolding cost_ok_def
    by (intro exI [of _ "fold log_step cost_demo log_start"] conjI cost_run_refines cost_refines_start)
      (simp add: cost_demo_def log_start_def starts_with_def)
  then show ?thesis
    by (subst commit_resets_own_costs [of _ 0 7 "''p''"])
      (simp_all add: committing_state_def new_entry_def adaptive_start_def)
qed

text \<open>
  The verification takes \<open>verify_calls / 10\<close> monitor cycles, rounded up, and at least one,
  except for the nine largest values of the field, where the 32-bit sum wraps and one cycle is enough.
\<close>

theorem required_cycles:
  "unat (requiredCycles v) =
     (if unat v + 9 < 2 ^ 32 then max 1 ((unat v + 9) div 10) else 1)"
proof (cases "unat v + 9 < 2 ^ 32")
  case True
  then have "unat (v + 9) = unat v + 9" by (simp add: unat_add_lem [THEN iffD1])
  with True show ?thesis by (simp add: requiredCycles_def unat_div_distrib max_def word_le_nat_alt)
next
  case False
  have "unat (v + 9) = (unat v + 9) mod 2 ^ 32" by (simp add: unat_word_ariths)
  also have "\<dots> = unat v + 9 - 2 ^ 32"
    using False unat_u32_less [of v] by (simp add: mod_if)
  finally have "unat (v + 9) div 10 = 0" using unat_u32_less [of v] by simp
  with False show ?thesis by (simp add: requiredCycles_def unat_div_distrib max_def word_le_nat_alt)
qed

text \<open>
  A shutdown empties the registry and zeroes the statistics but leaves the dispatch pointers: a
  pipeline whose JIT version was live still dispatches to it, with nothing monitoring it.
\<close>

lemma shutdown_leaves_live_pointer:
  "\<exists>s. ad_run 3 True (to_verifying @ [ShutdownSignal, ShutdownDrain]) (adaptive_start demo_config) = Some s
     \<and> adaptive_stats s = (0, 0, 0) \<and> g_pipelines s = [] \<and> jit_mem s 8 = Some 77"
  by (simp add: ad_run_simps adaptive_shutdown_signal_def adaptive_shutdown_drain_def adaptive_stats_def)

end
