(* ===== verification/LlvmIr.thy ===== *)
theory LlvmIr
  imports TopoPrelude
begin

text \<open>
  The part of an LLVM module the backend reads, and the declarations of the front end (topo-core)
  it reads beside it: functions with their arguments, attributes and instructions; type nodes,
  function, class and logic-block symbols with the fields the sources use. A function is identified
  by its name, which LLVM keeps unique in a module. The tables are association lists whose order
  is the iteration order of the container.
\<close>

section \<open>Modules\<close>

datatype ll_type = VoidTy | IntegerTy nat | FloatTy | DoubleTy | OtherFPTy | PointerTy | StructTy | ArrayTy | OtherTy

fun isFloatingPointTy :: "ll_type \<Rightarrow> bool" where
  "isFloatingPointTy FloatTy = True"
| "isFloatingPointTy DoubleTy = True"
| "isFloatingPointTy OtherFPTy = True"
| "isFloatingPointTy _ = False"

fun isIntegerTy :: "ll_type \<Rightarrow> bool" where
  "isIntegerTy (IntegerTy _) = True"
| "isIntegerTy _ = False"

record ll_arg =
  arg_type :: ll_type
  arg_sret :: bool
  arg_readonly :: bool

text \<open>An operand is a global variable, the result of an instruction of the function, or something else.\<close>

datatype ll_operand = Global string | Result nat | OtherOperand

datatype ll_kind = CallInst | InvokeInst | OtherInst

record ll_inst =
  in_id :: nat
  in_kind :: ll_kind
  in_callee :: "string option"
  in_operands :: "ll_operand list"
  in_debug :: "(nat \<times> nat) option"

datatype ll_linkage = ExternalLinkage | InternalLinkage | PrivateLinkage | OtherLinkage
datatype ll_visibility = DefaultVisibility | HiddenVisibility | ProtectedVisibility

record ll_function =
  fn_name :: string
  fn_blocks :: "ll_inst list list"
  fn_args :: "ll_arg list"
  fn_ret :: ll_type
  fn_only_reads :: bool

definition isDeclaration :: "ll_function \<Rightarrow> bool" where
  "isDeclaration f \<longleftrightarrow> fn_blocks f = []"

type_synonym ll_module = "ll_function list"

definition module_ok :: "ll_module \<Rightarrow> bool" where
  "module_ok m \<longleftrightarrow> distinct (map fn_name m)"

text \<open>\<open>module.getFunction(name)\<close>.\<close>

definition getFunction :: "ll_module \<Rightarrow> string \<Rightarrow> ll_function option" where
  "getFunction m n = find (\<lambda>f. fn_name f = n) m"

text \<open>The instructions of a function in emission order, and the callee of a call or an invoke.\<close>

definition fn_insts :: "ll_function \<Rightarrow> ll_inst list" where
  "fn_insts f = concat (fn_blocks f)"

definition called_function :: "ll_inst \<Rightarrow> string option" where
  "called_function i =
     (case in_kind i of CallInst \<Rightarrow> in_callee i | InvokeInst \<Rightarrow> in_callee i | OtherInst \<Rightarrow> None)"

lemma getFunction_Some: "getFunction m n = Some f \<Longrightarrow> f \<in> set m \<and> fn_name f = n"
  by (auto simp: getFunction_def find_Some_iff)

lemma getFunction_unique:
  assumes "module_ok m" and "f \<in> set m"
  shows "getFunction m (fn_name f) = Some f"
  using assms
  by (induction m) (auto simp: module_ok_def getFunction_def)

section \<open>Front-end declarations\<close>

datatype type_modifier = NoModifier | Ref | Ptr

datatype TypeNode = TypeNode (nameParts: "string list") (templateArgs: "TypeNode list") (modifier: type_modifier)

datatype Visibility = Public | Protected | Private | Internal | Ignore

record ParamConst =
  pc_isConst :: bool
  pc_modifier :: type_modifier
  pc_ownership :: "string option"

record VisibilityEntry =
  ve_qualifiedName :: string
  ve_visibility :: Visibility
  ve_bindingTarget :: "string option"
  ve_paramConsts :: "ParamConst list"

end
