(* ===== verification/SymbolMapper.thy ===== *)
theory SymbolMapper
  imports LlvmIr
begin

text \<open>
  lib/Backend/SymbolMapper.cpp: which LLVM function implements which Topo declaration. The demanglers
  of LLVM are parameters: \<open>dm\<close> for \<open>llvm::demangle\<close>, \<open>ms\<close> for \<open>microsoftDemangle\<close> with the flags the
  code passes (\<open>None\<close> when it fails). The lemmas characterise the demangled map and the four ways an
  entry is matched, and show that matched and unmatched names partition the entries.
\<close>

section \<open>Names\<close>

definition rustImplCandidates :: "string \<Rightarrow> string list" where
  "rustImplCandidates qualified =
     (if length qualified < 4 \<or> hd qualified \<noteq> CHR ''<'' then []
      else
        (case str_rfind ''>::'' qualified of
           None \<Rightarrow> []
         | Some split \<Rightarrow>
             (let self = substr qualified 1 (split - 1);
                  method = substr_from qualified (split + 3)
              in if self = [] \<or> method = [] then []
                 else
                   (let self = (case str_find '' as '' self of None \<Rightarrow> self | Some asPos \<Rightarrow> substr self 0 asPos)
                    in if self = [] then []
                       else
                         (self @ sep @ method) #
                         (case str_rfind sep self of
                            None \<Rightarrow> []
                          | Some lastSep \<Rightarrow> [substr_from self (lastSep + 2) @ sep @ method])))))"

definition isxdigit :: "char \<Rightarrow> bool" where
  "isxdigit c \<longleftrightarrow> c \<in> set ''0123456789abcdefABCDEF''"

definition isalpha :: "char \<Rightarrow> bool" where
  "isalpha c \<longleftrightarrow>
     (let n = (of_char c :: nat) in (0x41 \<le> n \<and> n \<le> 0x5A) \<or> (0x61 \<le> n \<and> n \<le> 0x7A))"

text \<open>\<open>while (!s.empty() && s.back() == ' ') s.pop_back();\<close>\<close>

definition trim_right :: "string \<Rightarrow> string" where
  "trim_right s = rev (dropWhile (\<lambda>c. c = CHR '' '') (rev s))"

text \<open>\<open>s.substr(0, s.find('('))\<close> when there is one.\<close>

definition before_paren :: "string \<Rightarrow> string" where
  "before_paren s = (case str_find ''('' s of None \<Rightarrow> s | Some i \<Rightarrow> substr s 0 i)"

definition strip_rust_hash :: "string \<Rightarrow> string" where
  "strip_rust_hash demangled =
     (case str_rfind ''::h'' demangled of
        None \<Rightarrow> demangled
      | Some hashPos \<Rightarrow>
          (let suffix = substr_from demangled (hashPos + 3)
           in if suffix \<noteq> [] \<and> list_all isxdigit suffix then substr demangled 0 hashPos else demangled))"

definition strip_ms_result :: "string \<Rightarrow> string" where
  "strip_ms_result r =
     (let r = before_paren r;
          r = (if length r > 6 \<and> substr_from r (length r - 6) = '' const'' then substr r 0 (length r - 6) else r)
      in trim_right r)"

definition strip_return_type :: "string \<Rightarrow> string" where
  "strip_return_type demangled =
     (case str_rfind '' '' demangled of
        None \<Rightarrow> demangled
      | Some lastSpace \<Rightarrow>
          (let beforeSpace = substr demangled 0 lastSpace
           in if str_find sep beforeSpace = None \<and> str_find ''<'' beforeSpace = None then
                (let candidate = substr_from demangled (lastSpace + 1)
                 in if candidate \<noteq> [] \<and> (isalpha (hd candidate) \<or> hd candidate = CHR ''_'') then candidate
                    else demangled)
              else demangled))"

definition demangleToQualified :: "(string \<Rightarrow> string) \<Rightarrow> (string \<Rightarrow> string option) \<Rightarrow> string \<Rightarrow> string" where
  "demangleToQualified dm ms mangledName =
     (let demangled = dm mangledName
      in if demangled = mangledName then []
         else
           (let demangled = trim_right (before_paren demangled)
            in if starts_with ''_R'' mangledName then strip_rust_hash demangled
               else if starts_with ''?'' mangledName \<and> ms mangledName \<noteq> None
               then strip_ms_result (the (ms mangledName))
               else strip_return_type demangled))"

definition shouldSkip :: "ll_function \<Rightarrow> bool" where
  "shouldSkip func \<longleftrightarrow>
     (let name = fn_name func in
      list_ex (\<lambda>p. starts_with p name)
        [''llvm.'', ''__cxa_'', ''__gxx_'', ''_Unwind_'', ''__local_stdio'', ''_vfprintf'', ''__acrt_'', ''__std_'',
         ''_RN4core'', ''_RN3std'', ''_RN5alloc'', ''_RNvNtN4core'', ''_RNvNtN3std'', ''_RNvNtN5alloc'']
      \<or> name \<in> set
        [''rust_begin_unwind'', ''rust_panic'', ''__rust_alloc'', ''__rust_dealloc'', ''__rust_realloc'',
         ''__rust_alloc_zeroed'', ''printf'', ''_printf'', ''puts'', ''main'', ''_main'', ''mainCRTStartup'']
      \<or> isDeclaration func)"

section \<open>The demangled map\<close>

definition primary_name :: "(string \<Rightarrow> string) \<Rightarrow> (string \<Rightarrow> string option) \<Rightarrow> ll_function \<Rightarrow> string" where
  "primary_name dm ms func =
     (let qualified = demangleToQualified dm ms (fn_name func)
      in if qualified = [] then fn_name func else qualified)"

definition register_function ::
  "(string \<Rightarrow> string) \<Rightarrow> (string \<Rightarrow> string option) \<Rightarrow> ll_function \<Rightarrow> (string \<times> string) list \<Rightarrow> (string \<times> string) list" where
  "register_function dm ms func m =
     (if shouldSkip func then m
      else
        (let qualified = primary_name dm ms func;
             m = AList.update qualified (fn_name func) m
         in fold (\<lambda>candidate m. amap_emplace candidate (fn_name func) m) (rustImplCandidates qualified) m))"

definition buildDemangledMap ::
  "(string \<Rightarrow> string) \<Rightarrow> (string \<Rightarrow> string option) \<Rightarrow> ll_module \<Rightarrow> (string \<times> string) list" where
  "buildDemangledMap dm ms module = fold (register_function dm ms) module []"

section \<open>Matching\<close>

record SymbolMapping =
  sm_matched :: "(string \<times> string) list"
  sm_unmatchedTopo :: "string list"
  sm_unmatchedIR :: "string list"

text \<open>The loop of fallback 1: the shortest key that ends with the suffix, the first of them.\<close>

definition better_suffix :: "string \<Rightarrow> string \<times> string \<Rightarrow> (string \<times> string) option \<Rightarrow> (string \<times> string) option" where
  "better_suffix suffix e best =
     (case e of (irName, func) \<Rightarrow>
        if length irName > length suffix \<and> ends_with suffix irName then
          (case best of
             None \<Rightarrow> Some (irName, func)
           | Some (bestIRName, bestFunc) \<Rightarrow>
               if length irName < length bestIRName then Some (irName, func) else best)
        else best)"

definition best_suffix :: "string \<Rightarrow> (string \<times> string) list \<Rightarrow> (string \<times> string) option" where
  "best_suffix suffix m = fold (better_suffix suffix) m None"

definition resolve_entry :: "(string \<times> string) list \<Rightarrow> string \<Rightarrow> string option" where
  "resolve_entry m qualifiedName =
     (case map_of m qualifiedName of
        Some func \<Rightarrow> Some func
      | None \<Rightarrow>
          (case best_suffix (sep @ qualifiedName) m of
             Some (_, func) \<Rightarrow> Some func
           | None \<Rightarrow>
               (case str_rfind sep qualifiedName of
                  None \<Rightarrow> None
                | Some lastSep \<Rightarrow> map_of m (substr_from qualifiedName (lastSep + 2)))))"

text \<open>The pass over the explicit binding targets.\<close>

definition bind_entry :: "(string \<times> string) list \<Rightarrow> VisibilityEntry \<Rightarrow> (string \<times> string) list \<Rightarrow> (string \<times> string) list" where
  "bind_entry m entry matched =
     (case ve_bindingTarget entry of
        None \<Rightarrow> matched
      | Some target \<Rightarrow>
          (case map_of m target of
             None \<Rightarrow> matched
           | Some func \<Rightarrow> AList.update (ve_qualifiedName entry) func matched))"

text \<open>The main pass: matched names and the names without a function.\<close>

definition match_entry ::
  "(string \<times> string) list \<Rightarrow> VisibilityEntry \<Rightarrow> (string \<times> string) list \<times> string list \<Rightarrow>
   (string \<times> string) list \<times> string list" where
  "match_entry m entry acc =
     (case acc of (matched, unmatched) \<Rightarrow>
        if map_of matched (ve_qualifiedName entry) \<noteq> None then (matched, unmatched)
        else
          (case resolve_entry m (ve_qualifiedName entry) of
             Some func \<Rightarrow> (AList.update (ve_qualifiedName entry) func matched, unmatched)
           | None \<Rightarrow> (matched, unmatched @ [ve_qualifiedName entry])))"

text \<open>\<open>matchedFuncs\<close> also keeps the functions of overwritten bindings: the list of all functions inserted.\<close>

definition bound_functions :: "(string \<times> string) list \<Rightarrow> VisibilityEntry list \<Rightarrow> string list" where
  "bound_functions m entries =
     List.map_filter (\<lambda>entry. Option.bind (ve_bindingTarget entry) (map_of m)) entries"

definition mapSymbols ::
  "(string \<Rightarrow> string) \<Rightarrow> (string \<Rightarrow> string option) \<Rightarrow> ll_module \<Rightarrow> VisibilityEntry list \<Rightarrow> SymbolMapping" where
  "mapSymbols dm ms module entries =
     (let m = buildDemangledMap dm ms module;
          bound = fold (bind_entry m) entries [];
          (matched, unmatched) = fold (match_entry m) entries (bound, []);
          matchedFuncs = bound_functions m entries @ map snd matched;
          unmatchedIR = map (primary_name dm ms)
            (filter (\<lambda>func. \<not> shouldSkip func \<and> fn_name func \<notin> set matchedFuncs
                       \<and> map_of m (primary_name dm ms func) = Some (fn_name func)) module)
      in \<lparr>sm_matched = matched, sm_unmatchedTopo = unmatched, sm_unmatchedIR = unmatchedIR\<rparr>)"

text \<open>\<open>SymbolMapping::rebind\<close>.\<close>

definition rebind :: "SymbolMapping \<Rightarrow> ll_module \<Rightarrow> SymbolMapping" where
  "rebind sm target =
     \<lparr>sm_matched = filter (\<lambda>(q, func). getFunction target func \<noteq> None) (sm_matched sm),
      sm_unmatchedTopo = sm_unmatchedTopo sm, sm_unmatchedIR = sm_unmatchedIR sm\<rparr>"

section \<open>What the map holds\<close>

text \<open>A key under which a function may be registered.\<close>

definition key_of :: "(string \<Rightarrow> string) \<Rightarrow> (string \<Rightarrow> string option) \<Rightarrow> ll_module \<Rightarrow> string \<Rightarrow> string \<Rightarrow> bool" where
  "key_of dm ms module k f \<longleftrightarrow>
     (\<exists>func\<in>set module. fn_name func = f \<and> \<not> shouldSkip func \<and>
        (k = primary_name dm ms func \<or> k \<in> set (rustImplCandidates (primary_name dm ms func))))"

lemma fold_emplace:
  "amap_ok m \<Longrightarrow> amap_ok (fold (\<lambda>c m. amap_emplace c v m) cs m)"
  "map_of (fold (\<lambda>c m. amap_emplace c v m) cs m) k =
     (case map_of m k of Some w \<Rightarrow> Some w | None \<Rightarrow> if k \<in> set cs then Some v else None)"
  by (induction cs arbitrary: m) (auto simp: amap_simps split: option.splits)

lemma register_ok: "amap_ok m \<Longrightarrow> amap_ok (register_function dm ms func m)"
  by (simp add: register_function_def Let_def fold_emplace)

lemma map_of_register:
  "map_of (register_function dm ms func m) k =
     (if shouldSkip func then map_of m k
      else if k = primary_name dm ms func then Some (fn_name func)
      else (case map_of m k of Some w \<Rightarrow> Some w
            | None \<Rightarrow> if k \<in> set (rustImplCandidates (primary_name dm ms func)) then Some (fn_name func) else None))"
  by (simp add: register_function_def Let_def fold_emplace amap_simps)

lemma fold_register_ok: "amap_ok m \<Longrightarrow> amap_ok (fold (register_function dm ms) fs m)"
  by (induction fs arbitrary: m) (simp_all add: register_ok)

lemma buildDemangledMap_ok: "amap_ok (buildDemangledMap dm ms module)"
  by (simp add: buildDemangledMap_def fold_register_ok)

lemma fold_register_sound:
  assumes "map_of (fold (register_function dm ms) fs m) k = Some f"
  shows "map_of m k = Some f \<or> key_of dm ms fs k f"
  using assms
proof (induction fs arbitrary: m)
  case Nil
  then show ?case by simp
next
  case (Cons func fs)
  then have "map_of (register_function dm ms func m) k = Some f \<or> key_of dm ms fs k f" by simp
  then show ?case
    by (auto simp: map_of_register key_of_def split: if_splits option.splits)
qed

lemma buildDemangledMap_sound: "map_of (buildDemangledMap dm ms module) k = Some f \<Longrightarrow> key_of dm ms module k f"
  using fold_register_sound [of dm ms module "[]"] by (auto simp: buildDemangledMap_def)

lemma fold_register_keeps: "map_of m k \<noteq> None \<Longrightarrow> map_of (fold (register_function dm ms) fs m) k \<noteq> None"
  by (induction fs arbitrary: m) (auto simp: map_of_register split: option.splits)

lemma buildDemangledMap_complete:
  assumes "func \<in> set module" and "\<not> shouldSkip func"
  shows "map_of (buildDemangledMap dm ms module) (primary_name dm ms func) \<noteq> None"
proof -
  obtain xs ys where module: "module = xs @ func # ys" using assms(1) by (metis split_list)
  have "map_of (fold (register_function dm ms) ys (register_function dm ms func (fold (register_function dm ms) xs [])))
      (primary_name dm ms func) \<noteq> None"
    by (rule fold_register_keeps) (simp add: map_of_register assms(2))
  then show ?thesis by (simp add: buildDemangledMap_def module)
qed

section \<open>The suffix fallback\<close>

definition suffix_key :: "string \<Rightarrow> string \<Rightarrow> bool" where
  "suffix_key suffix k \<longleftrightarrow> length suffix < length k \<and> ends_with suffix k"

lemma fold_better_suffix:
  assumes "case best of None \<Rightarrow> True | Some (k, f) \<Rightarrow> suffix_key suffix k \<and> (k, f) \<in> S \<and> (\<forall>(k', f')\<in>S. suffix_key suffix k' \<longrightarrow> length k \<le> length k')"
    and "best = None \<Longrightarrow> \<forall>(k', f')\<in>S. \<not> suffix_key suffix k'"
  shows "case fold (better_suffix suffix) m best of
           None \<Rightarrow> (\<forall>(k', f')\<in>S \<union> set m. \<not> suffix_key suffix k')
         | Some (k, f) \<Rightarrow> suffix_key suffix k \<and> (k, f) \<in> S \<union> set m \<and>
             (\<forall>(k', f')\<in>S \<union> set m. suffix_key suffix k' \<longrightarrow> length k \<le> length k')"
  using assms
proof (induction m arbitrary: best S)
  case Nil
  then show ?case by (auto split: option.splits)
next
  case (Cons e m)
  have "case fold (better_suffix suffix) m (better_suffix suffix e best) of
      None \<Rightarrow> (\<forall>(k', f')\<in>(insert e S) \<union> set m. \<not> suffix_key suffix k')
    | Some (k, f) \<Rightarrow> suffix_key suffix k \<and> (k, f) \<in> (insert e S) \<union> set m \<and>
        (\<forall>(k', f')\<in>(insert e S) \<union> set m. suffix_key suffix k' \<longrightarrow> length k \<le> length k')"
  proof (rule Cons.IH)
    show "case better_suffix suffix e best of None \<Rightarrow> True
      | Some (k, f) \<Rightarrow> suffix_key suffix k \<and> (k, f) \<in> insert e S \<and>
          (\<forall>(k', f')\<in>insert e S. suffix_key suffix k' \<longrightarrow> length k \<le> length k')"
      using Cons.prems
      by (cases e; cases best) (fastforce simp: better_suffix_def suffix_key_def split: if_splits)+
    show "better_suffix suffix e best = None \<Longrightarrow> \<forall>(k', f')\<in>insert e S. \<not> suffix_key suffix k'"
      using Cons.prems
      by (cases e; cases best) (auto simp: better_suffix_def suffix_key_def split: if_splits prod.splits)
  qed
  moreover have "insert e S \<union> set m = S \<union> set (e # m)" by simp
  ultimately show ?case by (simp only: fold.simps comp_apply)
qed

lemma best_suffix_Some:
  assumes "best_suffix suffix m = Some (k, f)"
  shows "suffix_key suffix k" and "(k, f) \<in> set m"
    and "(k', f') \<in> set m \<Longrightarrow> suffix_key suffix k' \<Longrightarrow> length k \<le> length k'"
  using fold_better_suffix [where best = None and suffix = suffix and S = "{}" and m = m] assms by (auto simp: best_suffix_def)

lemma best_suffix_None: "best_suffix suffix m = None \<Longrightarrow> (k, f) \<in> set m \<Longrightarrow> \<not> suffix_key suffix k"
  using fold_better_suffix [where best = None and suffix = suffix and S = "{}" and m = m] by (auto simp: best_suffix_def)

section \<open>Matched and unmatched\<close>

text \<open>The key through which a name is resolved: itself, the shortest longer spelling, or its simple name.\<close>

definition resolves_by :: "(string \<times> string) list \<Rightarrow> string \<Rightarrow> string \<Rightarrow> bool" where
  "resolves_by m q k \<longleftrightarrow>
     k = q
     \<or> (map_of m q = None \<and> suffix_key (sep @ q) k \<and>
          (\<forall>(k', f')\<in>set m. suffix_key (sep @ q) k' \<longrightarrow> length k \<le> length k'))
     \<or> (map_of m q = None \<and> (\<forall>(k', f')\<in>set m. \<not> suffix_key (sep @ q) k') \<and>
          (\<exists>i. str_rfind sep q = Some i \<and> k = drop (i + 2) q))"

lemma resolve_entry_by:
  assumes "amap_ok m" and "resolve_entry m q = Some f"
  shows "\<exists>k. map_of m k = Some f \<and> resolves_by m q k"
proof (cases "map_of m q")
  case (Some g)
  with assms(2) show ?thesis by (auto simp: resolve_entry_def resolves_by_def)
next
  case None
  show ?thesis
  proof (cases "best_suffix (sep @ q) m")
    case (Some kf)
    obtain k g where kf: "kf = (k, g)" by (cases kf)
    with Some None assms have "g = f" by (simp add: resolve_entry_def)
    with best_suffix_Some [OF Some [unfolded kf]] assms(1) None kf show ?thesis
      by (auto simp: resolves_by_def amap_ok_map_of)
  next
    case no: None
    with None assms(2) obtain i where "str_rfind sep q = Some i" "map_of m (drop (i + 2) q) = Some f"
      by (auto simp: resolve_entry_def split: option.splits)
    with None best_suffix_None [OF no] show ?thesis by (auto simp: resolves_by_def)
  qed
qed

lemma resolve_entry_complete:
  assumes "resolve_entry m q = None"
  shows "map_of m q = None" and "(k, f) \<in> set m \<Longrightarrow> \<not> suffix_key (sep @ q) k"
    and "str_rfind sep q = Some i \<Longrightarrow> map_of m (drop (i + 2) q) = None"
  using assms best_suffix_None [of "sep @ q" m k f] by (auto simp: resolve_entry_def split: option.splits)

definition bound_to :: "(string \<times> string) list \<Rightarrow> VisibilityEntry list \<Rightarrow> string \<Rightarrow> string \<Rightarrow> bool" where
  "bound_to m entries q f \<longleftrightarrow>
     (\<exists>e\<in>set entries. ve_qualifiedName e = q \<and>
        (\<exists>t. ve_bindingTarget e = Some t \<and> map_of m t = Some f))"

lemma bind_entries:
  "map_of (fold (bind_entry m) es acc) q = Some f \<Longrightarrow> map_of acc q = Some f \<or> bound_to m es q f"
proof (induction es arbitrary: acc)
  case Nil
  then show ?case by simp
next
  case (Cons e es)
  then have "map_of (bind_entry m e acc) q = Some f \<or> bound_to m es q f" by simp
  then show ?case
    by (auto simp: bind_entry_def bound_to_def amap_simps split: option.splits if_splits)
qed

lemma bind_ok: "amap_ok acc \<Longrightarrow> amap_ok (fold (bind_entry m) es acc)"
  by (induction es arbitrary: acc) (auto simp: bind_entry_def split: option.splits)

lemma match_entries_aux:
  assumes "fold (match_entry m) es (acc, un) = (acc', un')"
  shows "(amap_ok acc \<longrightarrow> amap_ok acc') \<and>
     (\<forall>q f. map_of acc' q = Some f \<longleftrightarrow> map_of acc q = Some f \<or>
        (map_of acc q = None \<and> q \<in> ve_qualifiedName ` set es \<and> resolve_entry m q = Some f)) \<and>
     (\<forall>q. q \<in> set un' \<longleftrightarrow> q \<in> set un \<or>
        (map_of acc q = None \<and> q \<in> ve_qualifiedName ` set es \<and> resolve_entry m q = None))"
  using assms
proof (induction es arbitrary: acc un)
  case Nil
  then show ?case by simp
next
  case (Cons e es)
  obtain a u where au: "match_entry m e (acc, un) = (a, u)" by (metis prod.exhaust)
  have step: "amap_ok acc \<longrightarrow> amap_ok a"
    "map_of a q = (if map_of acc q = None \<and> q = ve_qualifiedName e then resolve_entry m q else map_of acc q)"
    "q \<in> set u \<longleftrightarrow> q \<in> set un \<or> (map_of acc q = None \<and> q = ve_qualifiedName e \<and> resolve_entry m q = None)" for q
    using au by (auto simp: match_entry_def amap_simps split: if_splits option.splits)
  have rest: "fold (match_entry m) es (a, u) = (acc', un')" using Cons.prems by (simp add: au)
  note ih = Cons.IH [OF rest]
  have 1: "amap_ok acc \<longrightarrow> amap_ok acc'" using ih step(1) by blast
  have 2: "map_of acc' q = Some f \<longleftrightarrow> map_of acc q = Some f \<or>
      (map_of acc q = None \<and> q \<in> ve_qualifiedName ` set (e # es) \<and> resolve_entry m q = Some f)" for q f
  proof -
    have "map_of acc' q = Some f \<longleftrightarrow> map_of a q = Some f \<or>
        (map_of a q = None \<and> q \<in> ve_qualifiedName ` set es \<and> resolve_entry m q = Some f)" using ih by blast
    then show ?thesis unfolding step(2) by auto
  qed
  have 3: "q \<in> set un' \<longleftrightarrow> q \<in> set un \<or>
      (map_of acc q = None \<and> q \<in> ve_qualifiedName ` set (e # es) \<and> resolve_entry m q = None)" for q
  proof -
    have "q \<in> set un' \<longleftrightarrow> q \<in> set u \<or>
        (map_of a q = None \<and> q \<in> ve_qualifiedName ` set es \<and> resolve_entry m q = None)" using ih by blast
    then show ?thesis unfolding step(2,3) by auto
  qed
  from 1 2 3 show ?case by blast
qed

lemma match_entries:
  assumes "fold (match_entry m) es (acc, un) = (acc', un')"
  shows "amap_ok acc \<Longrightarrow> amap_ok acc'"
    and "map_of acc' q = Some f \<longleftrightarrow> map_of acc q = Some f \<or>
           (map_of acc q = None \<and> q \<in> ve_qualifiedName ` set es \<and> resolve_entry m q = Some f)"
    and "q \<in> set un' \<longleftrightarrow> q \<in> set un \<or>
           (map_of acc q = None \<and> q \<in> ve_qualifiedName ` set es \<and> resolve_entry m q = None)"
  using match_entries_aux [OF assms] by blast+

lemma mapSymbols_parts:
  fixes module entries dm ms
  defines "m \<equiv> buildDemangledMap dm ms module" and "sm \<equiv> mapSymbols dm ms module entries"
  defines "bound \<equiv> fold (bind_entry m) entries []"
  shows "map_of (sm_matched sm) q = Some f \<longleftrightarrow> map_of bound q = Some f \<or>
           (map_of bound q = None \<and> q \<in> ve_qualifiedName ` set entries \<and> resolve_entry m q = Some f)"
    and "q \<in> set (sm_unmatchedTopo sm) \<longleftrightarrow>
           map_of bound q = None \<and> q \<in> ve_qualifiedName ` set entries \<and> resolve_entry m q = None"
    and "amap_ok (sm_matched sm)"
proof -
  obtain acc un where r: "fold (match_entry m) entries (bound, []) = (acc, un)" by (metis prod.exhaust)
  have sm: "sm_matched sm = acc" "sm_unmatchedTopo sm = un"
    using r by (simp_all add: sm_def mapSymbols_def Let_def m_def [symmetric] bound_def [symmetric])
  have "amap_ok bound" by (simp add: bound_def bind_ok)
  with match_entries [OF r] show
    "map_of (sm_matched sm) q = Some f \<longleftrightarrow> map_of bound q = Some f \<or>
       (map_of bound q = None \<and> q \<in> ve_qualifiedName ` set entries \<and> resolve_entry m q = Some f)"
    "q \<in> set (sm_unmatchedTopo sm) \<longleftrightarrow>
       map_of bound q = None \<and> q \<in> ve_qualifiedName ` set entries \<and> resolve_entry m q = None"
    "amap_ok (sm_matched sm)"
    by (simp_all add: sm)
qed

text \<open>
  C7. Every match is justified: the function is a body in the module that is not a runtime symbol,
  it is registered under some key (its demangled name or a spelling derived from a Rust impl path),
  and that key is the entry's explicit binding target, the entry's own name, the shortest key that
  ends with it behind a separator, or, when there is none of these, its unqualified name.
\<close>

theorem symbol_match_justified:
  assumes "map_of (sm_matched (mapSymbols dm ms module entries)) q = Some f"
  shows "\<exists>k. key_of dm ms module k f \<and>
     ((\<exists>e\<in>set entries. ve_qualifiedName e = q \<and> ve_bindingTarget e = Some k)
      \<or> resolves_by (buildDemangledMap dm ms module) q k)"
proof -
  let ?m = "buildDemangledMap dm ms module"
  from mapSymbols_parts(1) [of dm ms module entries q f] assms
  consider "map_of (fold (bind_entry ?m) entries []) q = Some f" | "resolve_entry ?m q = Some f" by auto
  then show ?thesis
  proof cases
    case 1
    then have "bound_to ?m entries q f" using bind_entries by fastforce
    then show ?thesis using buildDemangledMap_sound by (fastforce simp: bound_to_def)
  next
    case 2
    then show ?thesis using resolve_entry_by [OF buildDemangledMap_ok] buildDemangledMap_sound by metis
  qed
qed

text \<open>
  Matched and unmatched names partition the declared entries, and a name is reported unmatched
  only when the module offers nothing for it: no key equal to it, none that ends with it, and no
  key equal to its unqualified name.
\<close>

theorem symbol_match_partition:
  "set (map fst (sm_matched (mapSymbols dm ms module entries))) \<inter> set (sm_unmatchedTopo (mapSymbols dm ms module entries)) = {}
   \<and> set (map fst (sm_matched (mapSymbols dm ms module entries))) \<union> set (sm_unmatchedTopo (mapSymbols dm ms module entries))
       = ve_qualifiedName ` set entries"
proof -
  let ?sm = "mapSymbols dm ms module entries" and ?m = "buildDemangledMap dm ms module"
  let ?bound = "fold (bind_entry ?m) entries []"
  define b where "b q \<longleftrightarrow> map_of ?bound q \<noteq> None" for q
  define rs where "rs q \<longleftrightarrow> resolve_entry ?m q \<noteq> None" for q
  have bound: "q \<in> ve_qualifiedName ` set entries" if bq: "b q" for q
  proof -
    obtain f where "map_of ?bound q = Some f" using bq by (auto simp: b_def)
    from bind_entries [OF this] show ?thesis by (auto simp: bound_to_def)
  qed
  have dom: "q \<in> set (map fst (sm_matched ?sm)) \<longleftrightarrow> b q \<or> (q \<in> ve_qualifiedName ` set entries \<and> rs q)" for q
  proof -
    have "q \<in> set (map fst (sm_matched ?sm)) \<longleftrightarrow> (\<exists>f. map_of (sm_matched ?sm) q = Some f)"
      using map_of_eq_None_iff [of "sm_matched ?sm" q] by (cases "map_of (sm_matched ?sm) q") auto
    then show ?thesis unfolding mapSymbols_parts(1) b_def rs_def by (cases "map_of ?bound q") auto
  qed
  have un: "q \<in> set (sm_unmatchedTopo ?sm) \<longleftrightarrow> \<not> b q \<and> q \<in> ve_qualifiedName ` set entries \<and> \<not> rs q" for q
    unfolding mapSymbols_parts(2) b_def rs_def by simp
  show ?thesis
  proof (intro conjI set_eqI)
    fix q
    show "q \<in> set (map fst (sm_matched ?sm)) \<inter> set (sm_unmatchedTopo ?sm) \<longleftrightarrow> q \<in> {}"
      unfolding Int_iff dom un by blast
    show "q \<in> set (map fst (sm_matched ?sm)) \<union> set (sm_unmatchedTopo ?sm) \<longleftrightarrow> q \<in> ve_qualifiedName ` set entries"
      unfolding Un_iff dom un using bound [of q] by blast
  qed
qed

theorem symbol_match_justified_witness:
  "let f = \<lparr>fn_name = ''_ZN1a1fEv'', fn_blocks = [[]], fn_args = [], fn_ret = VoidTy, fn_only_reads = False\<rparr>;
       dm = (\<lambda>s. if s = ''_ZN1a1fEv'' then ''a::f()'' else s)
   in map_of (sm_matched (mapSymbols dm (\<lambda>_. None) [f]
        [\<lparr>ve_qualifiedName = ''f'', ve_visibility = Public, ve_bindingTarget = None, ve_paramConsts = []\<rparr>])) ''f''
      = Some ''_ZN1a1fEv''
      \<and> key_of dm (\<lambda>_. None) [f] ''a::f'' ''_ZN1a1fEv''"
proof -
  let ?f = "\<lparr>fn_name = ''_ZN1a1fEv'', fn_blocks = [[]], fn_args = [], fn_ret = VoidTy, fn_only_reads = False\<rparr>"
  let ?dm = "\<lambda>s. if s = ''_ZN1a1fEv'' then ''a::f()'' else s"
  let ?es = "[\<lparr>ve_qualifiedName = ''f'', ve_visibility = Public, ve_bindingTarget = None, ve_paramConsts = []\<rparr>]"
  have prim: "primary_name ?dm (\<lambda>_. None) ?f = ''a::f''"
    by (simp add: primary_name_def demangleToQualified_def before_paren_def trim_right_def starts_with_def
        strip_return_type_def)
  have skip: "\<not> shouldSkip ?f" by (simp add: shouldSkip_def isDeclaration_def starts_with_def)
  have m: "buildDemangledMap ?dm (\<lambda>_. None) [?f] = [(''a::f'', ''_ZN1a1fEv'')]"
    by (simp add: buildDemangledMap_def register_function_def skip prim rustImplCandidates_def)
  have r: "map_of (sm_matched (mapSymbols ?dm (\<lambda>_. None) [?f] ?es)) ''f'' = Some ''_ZN1a1fEv''"
    by (simp add: mapSymbols_def m bind_entry_def match_entry_def resolve_entry_def best_suffix_def
        better_suffix_def ends_with_def)
  from symbol_match_justified [OF r] obtain k where
    "key_of ?dm (\<lambda>_. None) [?f] k ''_ZN1a1fEv''" by blast
  then have "key_of ?dm (\<lambda>_. None) [?f] ''a::f'' ''_ZN1a1fEv''"
    by (auto simp: key_of_def prim rustImplCandidates_def skip)
  with r show ?thesis by simp
qed

text \<open>
  Rebinding to a module that has the functions of the mapping changes nothing, and rebinding to
  any module keeps exactly the entries whose function it has: every rebound function exists there.
\<close>

theorem rebind_round_trip:
  "(list_all (\<lambda>(q, f). getFunction target f \<noteq> None) (sm_matched sm)) = (rebind sm target = sm)
   \<and> list_all (\<lambda>(q, f). getFunction target f \<noteq> None) (sm_matched (rebind sm target))
   \<and> rebind (rebind sm target) target = rebind sm target"
proof -
  have "(filter P xs = xs) = list_all P xs" for P and xs :: "(string \<times> string) list"
    by (metis filter_id_conv list_all_iff)
  then show ?thesis by (cases sm) (auto simp: rebind_def list_all_iff)
qed

end
