(* ===== verification/VerifierModel.thy ===== *)
theory VerifierModel
  imports SymbolMapper "HOL-Library.Product_Lexorder" "HOL-Library.Monad_Syntax"
begin

text \<open>
  lib/Backend/Verifier.cpp: the ten checks of an LLVM module against the Topo declarations. A check
  is the list of its findings in emission order, each a diagnostic and the number its counter goes
  up by (0 for the diagnostics that count nothing). The symbol table of topo-core is a record of
  its tables and lookup functions; containers with an unspecified iteration order are lists, whose
  order is that order. The two recursions through type aliases may not end: there the value is
  \<open>None\<close>, as it is for the undefined behaviour of \<open>back()\<close> on an alias without a name.
\<close>

section \<open>Declarations\<close>

record ParamSymbol =
  pa_name :: string
  pa_type :: TypeNode

record TemplateParamDecl =
  tp_isTypeParam :: bool
  tp_constraintType :: TypeNode

record FunctionSymbol =
  fs_simpleName :: string
  fs_location :: nat
  fs_visibility :: Visibility
  fs_templateParams :: "TemplateParamDecl list"
  fs_params :: "ParamSymbol list"
  fs_returnType :: TypeNode
  fs_isConst :: bool
  fs_isMultiReturn :: bool

record ClassSymbol =
  cs_simpleName :: string
  cs_location :: nat
  cs_templateParams :: "TemplateParamDecl list"
  cs_memberFunctions :: "string list"
  cs_constructors :: "string list"
  cs_destructor :: string

record PipelineEdge =
  ed_source :: string
  ed_isTerminal :: bool

record LogicBlock =
  lb_qualifiedName :: string
  lb_location :: nat
  lb_isPipeline :: bool
  lb_calledFunctions :: "string list"
  lb_stages :: "int list"
  lb_edges :: "PipelineEdge list"

record Instantiate =
  it_type :: TypeNode
  it_qualifiedName :: string
  it_location :: nat

record ConstraintSymbol =
  ct_members :: "string list"
  ct_parent :: "string option"

record AdaptEntry =
  ad_constraintName :: string
  ad_targetType :: TypeNode
  ad_location :: nat
  ad_targetNames :: "string list"

datatype LogicalTypeKind = LInteger | LUnsignedInteger | LFloating | LBoolean | LText | LOther

record SymbolTable =
  st_functions :: "(string \<times> FunctionSymbol) list"
  classSymbols :: "(string \<times> ClassSymbol) list"
  logicBlocks :: "(string \<times> LogicBlock) list"
  instantiates :: "Instantiate list"
  findTypeAlias :: "string \<Rightarrow> TypeNode option"
  findClassSymbol :: "string \<Rightarrow> ClassSymbol option"
  findFunction :: "string \<Rightarrow> FunctionSymbol option"
  constraintSymbols :: "(string \<times> ConstraintSymbol) list"
  findAdaptsForConstraint :: "string \<Rightarrow> AdaptEntry list"
  tn_toString :: "TypeNode \<Rightarrow> string"
  classifyAbstractName :: "string \<Rightarrow> LogicalTypeKind option"

definition findConstraintSymbol :: "SymbolTable \<Rightarrow> string \<Rightarrow> ConstraintSymbol option" where
  "findConstraintSymbol st name = map_of (constraintSymbols st) name"

section \<open>Findings\<close>

datatype severity = Error | Warning

record Diag =
  dg_severity :: severity
  dg_location :: nat
  dg_message :: string

type_synonym finding = "Diag \<times> nat"

definition counted_error :: "nat \<Rightarrow> string \<Rightarrow> finding" where
  "counted_error loc msg = (\<lparr>dg_severity = Error, dg_location = loc, dg_message = msg\<rparr>, 1)"

definition counted_warning :: "nat \<Rightarrow> string \<Rightarrow> finding" where
  "counted_warning loc msg = (\<lparr>dg_severity = Warning, dg_location = loc, dg_message = msg\<rparr>, 1)"

definition plain_warning :: "nat \<Rightarrow> string \<Rightarrow> finding" where
  "plain_warning loc msg = (\<lparr>dg_severity = Warning, dg_location = loc, dg_message = msg\<rparr>, 0)"

definition total_count :: "finding list \<Rightarrow> nat" where
  "total_count fs = sum_list (map snd fs)"

text \<open>The matched functions of a mapping, as the pointers it holds.\<close>

definition matched_functions :: "ll_module \<Rightarrow> SymbolMapping \<Rightarrow> (string \<times> ll_function) list" where
  "matched_functions module sm =
     List.map_filter (\<lambda>(q, f). map_option (Pair q) (getFunction module f)) (sm_matched sm)"

text \<open>The reverse map from LLVM names to Topo names that five checks build.\<close>

definition llvmToTopo :: "(string \<times> ll_function) list \<Rightarrow> (string \<times> string) list" where
  "llvmToTopo matched = fold (\<lambda>(topoName, func). AList.update (fn_name func) topoName) matched []"

text \<open>\<open>blockName.substr(0, lastSep + 2)\<close>, empty without a separator.\<close>

definition ns_prefix :: "string \<Rightarrow> string" where
  "ns_prefix name = (case str_rfind sep name of None \<Rightarrow> [] | Some lastSep \<Rightarrow> substr name 0 (lastSep + 2))"

definition qualify :: "bool \<Rightarrow> string \<Rightarrow> string \<Rightarrow> string" where
  "qualify isPipeline nsPrefix callee = (if isPipeline then callee else nsPrefix @ callee)"

definition topo_callee :: "(string \<times> string) list \<Rightarrow> ll_inst \<Rightarrow> string option" where
  "topo_callee rev_map inst = Option.bind (called_function inst) (map_of rev_map)"

section \<open>Checks 1 and 2: public symbols and fn blocks\<close>

definition quoted :: "string \<Rightarrow> string" where
  "quoted s = [CHR 0x27] @ s @ [CHR 0x27]"

definition in_template_class :: "SymbolTable \<Rightarrow> string \<Rightarrow> bool" where
  "in_template_class st name \<longleftrightarrow>
     list_ex (\<lambda>(clsName, cls). cs_templateParams cls \<noteq> [] \<and>
                length (clsName @ sep) < length name \<and> starts_with (clsName @ sep) name)
       (classSymbols st)"

definition check_public :: "SymbolTable \<Rightarrow> SymbolMapping \<Rightarrow> string \<Rightarrow> FunctionSymbol \<Rightarrow> finding list" where
  "check_public st sm name fsym =
     (if fs_visibility fsym \<noteq> Public then []
      else if fs_templateParams fsym \<noteq> [] then []
      else if in_template_class st name then []
      else if CHR ''<'' \<in> set name then []
      else if name \<notin> set (map fst (sm_matched sm) @ sm_unmatchedTopo sm) then []
      else if name \<notin> set (map fst (sm_matched sm)) then
        [counted_error (fs_location fsym)
           (''public function '' @ quoted name @ '' declared in .topo but missing in LLVM IR'')]
      else [])"

definition checkPublicSymbols :: "SymbolTable \<Rightarrow> SymbolMapping \<Rightarrow> finding list" where
  "checkPublicSymbols st sm = concat (map (\<lambda>(name, fsym). check_public st sm name fsym) (st_functions st))"

definition block_calls :: "(string \<times> string) list \<Rightarrow> ll_function \<Rightarrow> string list" where
  "block_calls rev_map func = remdups (List.map_filter (topo_callee rev_map) (fn_insts func))"

definition declared_callees :: "string \<Rightarrow> LogicBlock \<Rightarrow> string list" where
  "declared_callees blockName block =
     remdups (map (qualify (lb_isPipeline block) (ns_prefix blockName)) (lb_calledFunctions block))"

definition check_block :: "(string \<times> string) list \<Rightarrow> string \<Rightarrow> LogicBlock \<Rightarrow> ll_function \<Rightarrow> finding list" where
  "check_block rev_map blockName block llvmFunc =
     (let irCalledTopo = block_calls rev_map llvmFunc;
          declaredCallees = declared_callees blockName block
      in map (\<lambda>declared. counted_error (lb_location block)
                (''fn block '' @ quoted blockName @ '' declares operation '' @ quoted declared
                 @ '' but IR does not call it''))
           (filter (\<lambda>d. d \<notin> set irCalledTopo) declaredCallees)
         @ map (\<lambda>called. counted_error (lb_location block)
                (''fn block '' @ quoted blockName @ '': IR calls '' @ quoted called
                 @ '' but it is not declared in the fn block''))
           (filter (\<lambda>c. c \<notin> set declaredCallees) irCalledTopo))"

definition checkLogicBlockConsistency :: "SymbolTable \<Rightarrow> (string \<times> ll_function) list \<Rightarrow> finding list" where
  "checkLogicBlockConsistency st matched =
     (let rev_map = llvmToTopo matched
      in concat (map (\<lambda>(blockName, block).
           if lb_isPipeline block then []
           else (case map_of matched blockName of
                   None \<Rightarrow> []
                 | Some llvmFunc \<Rightarrow> check_block rev_map blockName block llvmFunc)) (logicBlocks st)))"

section \<open>Checks 3 and 4: signatures and const\<close>

lemma size_last_TypeNode: "ts \<noteq> [] \<Longrightarrow> size (last ts) < Suc (size_list size ts)"
  by (induction ts) auto

function topoTypeToLLVMDesc :: "SymbolTable \<Rightarrow> TypeNode \<Rightarrow> string" where
  "topoTypeToLLVMDesc st (TypeNode ps targs md) =
     (if ps = [] then ''void''
      else if ps = [''lifetime''] \<and> targs \<noteq> [] then topoTypeToLLVMDesc st (last targs)
      else
        (let name = last ps in
         if name = ''void'' then ''void''
         else if name = ''bool'' then ''i1''
         else if name \<in> set [''char'', ''int8'', ''i8'', ''u8''] then ''i8''
         else if name \<in> set [''short'', ''int16'', ''i16'', ''u16''] then ''i16''
         else if name \<in> set [''int'', ''int32'', ''i32'', ''u32''] then ''i32''
         else if name \<in> set [''long'', ''int64'', ''i64'', ''u64''] then ''i64''
         else if name \<in> set [''float'', ''f32''] then ''float''
         else if name \<in> set [''double'', ''f64''] then ''double''
         else if name \<in> set [''integer'', ''unsigned''] then ''i32''
         else if name = ''floating'' then ''double''
         else if name = ''boolean'' then ''i1''
         else if name = ''text'' then ''ptr''
         else if md = Ref \<or> md = Ptr then ''ptr''
         else tn_toString st (TypeNode ps targs md)))"
  by pat_completeness auto

termination
  by (relation "measure (\<lambda>(st, t). size t)") (auto simp: size_last_TypeNode less_SucI)

text \<open>The comparisons of a built-in name; \<open>None\<close> when the name is not built in.\<close>

definition builtin_match :: "ll_type \<Rightarrow> string \<Rightarrow> bool option" where
  "builtin_match lt name =
     (if name \<in> set [''bool'', ''Bool''] then Some (lt = IntegerTy 1)
      else if name \<in> set [''char'', ''Char'', ''int8'', ''Int8'', ''i8'', ''u8''] then Some (lt = IntegerTy 8)
      else if name \<in> set [''short'', ''int16'', ''Int16'', ''i16'', ''u16''] then Some (lt = IntegerTy 16)
      else if name \<in> set [''int'', ''Int'', ''int32'', ''Int32'', ''i32'', ''u32''] then Some (lt = IntegerTy 32)
      else if name \<in> set [''long'', ''Int64'', ''int64'', ''i64'', ''u64''] then Some (lt = IntegerTy 64)
      else if name \<in> set [''isize'', ''usize''] then Some (lt = IntegerTy 64 \<or> lt = IntegerTy 32)
      else if name \<in> set [''float'', ''Float'', ''f32''] then Some (lt = FloatTy)
      else if name \<in> set [''double'', ''Double'', ''f64''] then Some (lt = DoubleTy)
      else None)"

fun abstract_match :: "ll_type \<Rightarrow> LogicalTypeKind \<Rightarrow> bool" where
  "abstract_match lt LInteger = isIntegerTy lt"
| "abstract_match lt LUnsignedInteger = isIntegerTy lt"
| "abstract_match lt LFloating = isFloatingPointTy lt"
| "abstract_match lt LBoolean = (lt = IntegerTy 1)"
| "abstract_match lt LText = (lt = PointerTy \<or> lt = StructTy)"
| "abstract_match lt LOther = True"

definition join_parts :: "string list \<Rightarrow> string" where
  "join_parts ps = foldl (\<lambda>qualName part. (if qualName = [] then [] else qualName @ sep) @ part) [] ps"

definition custom_match :: "SymbolTable \<Rightarrow> ll_type \<Rightarrow> string list \<Rightarrow> bool" where
  "custom_match st lt ps \<longleftrightarrow>
     lt = StructTy \<or> lt = PointerTy \<or> findClassSymbol st (join_parts ps) \<noteq> None \<or>
     list_ex (\<lambda>(cls, _). cls = last ps \<or>
        (length (sep @ last ps) < length cls \<and> ends_with (sep @ last ps) cls)) (classSymbols st)"

partial_function (option) typesMatch :: "SymbolTable \<Rightarrow> ll_type \<Rightarrow> TypeNode \<Rightarrow> bool option" where
  "typesMatch st lt t =
     (if nameParts t = [] \<or> nameParts t = [''void''] then Some (lt = VoidTy)
      else if nameParts t = [''lifetime''] \<and> templateArgs t \<noteq> [] then typesMatch st lt (last (templateArgs t))
      else if modifier t = Ref \<or> modifier t = Ptr then Some (lt = PointerTy)
      else
        (let name = last (nameParts t);
             rest = (case classifyAbstractName st name of
                       Some k \<Rightarrow> Some (abstract_match lt k)
                     | None \<Rightarrow>
                         (case builtin_match lt name of
                            Some b \<Rightarrow> Some b
                          | None \<Rightarrow> Some (custom_match st lt (nameParts t))))
         in case findTypeAlias st name of
              None \<Rightarrow> rest
            | Some target \<Rightarrow>
                if nameParts target = [] then None
                else if last (nameParts target) \<noteq> name then typesMatch st lt target
                else rest))"

declare typesMatch.simps [simp del]

text \<open>The implicit parameters: sret, then \<open>this\<close>.\<close>

definition has_sret :: "ll_function \<Rightarrow> bool" where
  "has_sret func \<longleftrightarrow> (case fn_args func of [] \<Rightarrow> False | a # _ \<Rightarrow> arg_sret a)"

definition has_this :: "SymbolTable \<Rightarrow> string \<Rightarrow> ll_function \<Rightarrow> bool" where
  "has_this st name func \<longleftrightarrow>
     (let thisIdx = (if has_sret func then 1 else 0)
      in thisIdx < length (fn_args func) \<and> arg_type (fn_args func ! thisIdx) = PointerTy \<and>
         (case str_rfind sep name of None \<Rightarrow> False
          | Some lastSep \<Rightarrow> findClassSymbol st (substr name 0 lastSep) \<noteq> None))"

definition skip_count :: "SymbolTable \<Rightarrow> string \<Rightarrow> ll_function \<Rightarrow> nat" where
  "skip_count st name func = of_bool (has_sret func) + of_bool (has_this st name func)"

definition check_return ::
  "SymbolTable \<Rightarrow> string \<Rightarrow> FunctionSymbol \<Rightarrow> ll_function \<Rightarrow> finding list option" where
  "check_return st name fsym func =
     (if \<not> fs_isMultiReturn fsym then
        (if has_sret func \<and> fn_ret func = VoidTy then Some []
         else
           (case typesMatch st (fn_ret func) (fs_returnType fsym) of
              None \<Rightarrow> None
            | Some ok \<Rightarrow> Some (if ok then [] else
                [counted_error (fs_location fsym)
                   (''function '' @ quoted name @ '' declared with return type ''
                    @ quoted (tn_toString st (fs_returnType fsym)) @ '' (expected ''
                    @ topoTypeToLLVMDesc st (fs_returnType fsym) @ '') but IR returns a different type'')])))
      else Some (if \<not> has_sret func \<and> fn_ret func = VoidTy then
             [counted_error (fs_location fsym)
                (''function '' @ quoted name
                 @ '' declared with multiple return values but IR returns void without sret'')] else []))"

text \<open>The loop over the parameters from index \<open>i\<close>, with the IR arguments behind the offset.\<close>

fun check_params ::
  "SymbolTable \<Rightarrow> string \<Rightarrow> nat \<Rightarrow> nat \<Rightarrow> ParamSymbol list \<Rightarrow> ll_arg list \<Rightarrow> finding list option" where
  "check_params st name loc i [] args = Some []"
| "check_params st name loc i (p # ps) [] = Some []"
| "check_params st name loc i (p # ps) (a # args) =
     (case typesMatch st (arg_type a) (pa_type p) of
        None \<Rightarrow> None
      | Some ok \<Rightarrow>
          (case check_params st name loc (Suc i) ps args of
             None \<Rightarrow> None
           | Some fs \<Rightarrow>
               Some ((if ok then [] else
                  [counted_warning loc
                     (''function '' @ quoted name @ '' parameter '' @ show_nat i @ '' ('' @ quoted (pa_name p)
                      @ ''): declared as '' @ quoted (tn_toString st (pa_type p)) @ '' but IR has a different type'')])
                  @ fs)))"

definition check_signature ::
  "SymbolTable \<Rightarrow> string \<Rightarrow> FunctionSymbol \<Rightarrow> ll_function \<Rightarrow> finding list option" where
  "check_signature st name fsym func =
     (let expectedArgs = length (fs_params fsym);
          actualArgs = length (fn_args func);
          skipCount = skip_count st name func;
          adjustedActual = (if skipCount \<le> actualArgs then actualArgs - skipCount else actualArgs)
      in if adjustedActual \<noteq> expectedArgs then
           Some [counted_error (fs_location fsym)
             (''function '' @ quoted name @ '' declared with '' @ show_nat expectedArgs
              @ '' parameter(s) but IR has '' @ show_nat adjustedActual @ '' (excluding implicit this/sret)'')]
         else
           (case check_return st name fsym func of
              None \<Rightarrow> None
            | Some rs \<Rightarrow>
                (case check_params st name (fs_location fsym) 0 (fs_params fsym) (drop skipCount (fn_args func)) of
                   None \<Rightarrow> None
                 | Some ps \<Rightarrow> Some (rs @ ps))))"

fun concat_opt :: "'a list option list \<Rightarrow> 'a list option" where
  "concat_opt [] = Some []"
| "concat_opt (None # xs) = None"
| "concat_opt (Some x # xs) = map_option (append x) (concat_opt xs)"

definition checkSignatures :: "SymbolTable \<Rightarrow> (string \<times> ll_function) list \<Rightarrow> finding list option" where
  "checkSignatures st matched =
     concat_opt (map (\<lambda>(name, fsym).
       case map_of matched name of None \<Rightarrow> Some [] | Some func \<Rightarrow> check_signature st name fsym func) (st_functions st))"

definition check_const ::
  "string \<Rightarrow> FunctionSymbol \<Rightarrow> VisibilityEntry \<Rightarrow> ll_function \<Rightarrow> finding list" where
  "check_const name fsym entry func =
     (if fs_isConst fsym \<and> \<not> fn_only_reads func then
        [counted_warning (fs_location fsym)
           (''function '' @ quoted name @ '' declared as const but IR does not have memory(read) attribute''
            @ '' -- const contract not verifiable at -O0'')] else [])
     @ concat (map (\<lambda>(i, pc).
          if \<not> pc_isConst pc \<or> (pc_modifier pc \<noteq> Ref \<and> pc_modifier pc \<noteq> Ptr) then []
          else if length (fn_args func) \<le> i then []
          else if \<not> arg_readonly (fn_args func ! i) then
            [counted_warning (fs_location fsym)
               (''function '' @ quoted name @ '' parameter '' @ show_nat i
                @ '' declared as const ref/ptr but IR argument lacks readonly attribute''
                @ '' -- const contract not verifiable at -O0'')]
          else []) (enumerate 0 (ve_paramConsts entry)))"

definition checkConstConsistency ::
  "SymbolTable \<Rightarrow> (string \<times> ll_function) list \<Rightarrow> VisibilityEntry list \<Rightarrow> finding list" where
  "checkConstConsistency st matched entries =
     (let entryMap = fold (\<lambda>e. AList.update (ve_qualifiedName e) e) entries []
      in concat (map (\<lambda>(name, fsym).
           case map_of matched name of
             None \<Rightarrow> []
           | Some func \<Rightarrow>
               (case map_of entryMap name of
                  None \<Rightarrow> []
                | Some entry \<Rightarrow> check_const name fsym entry func)) (st_functions st)))"

section \<open>Check 5: class members\<close>

definition check_member ::
  "SymbolTable \<Rightarrow> (string \<times> ll_function) list \<Rightarrow> string \<Rightarrow> ClassSymbol \<Rightarrow> string \<Rightarrow> finding list" where
  "check_member st matched className cls memberName =
     (if map_of matched memberName \<noteq> None then []
      else
        (case findFunction st memberName of
           None \<Rightarrow> []
         | Some funcSym \<Rightarrow>
             if fs_templateParams funcSym \<noteq> [] then []
             else if fs_visibility funcSym = Public then
               [counted_error (cs_location cls)
                  (''class '' @ quoted className @ '' public member function '' @ quoted memberName
                   @ '' missing in LLVM IR'')]
             else
               [plain_warning (cs_location cls)
                  (''class '' @ quoted className @ '' member function '' @ quoted memberName
                   @ '' missing in LLVM IR'')]))"

definition check_class ::
  "SymbolTable \<Rightarrow> (string \<times> ll_function) list \<Rightarrow> string \<Rightarrow> ClassSymbol \<Rightarrow> finding list" where
  "check_class st matched className cls =
     concat (map (check_member st matched className cls) (cs_memberFunctions cls))
     @ (if cs_constructors cls \<noteq> [] \<and> \<not> list_ex (\<lambda>c. map_of matched c \<noteq> None) (cs_constructors cls) then
          [plain_warning (cs_location cls)
             (''class '' @ quoted className @ '' declares constructor(s) but none found in IR'')] else [])
     @ (if cs_destructor cls \<noteq> [] \<and> map_of matched (cs_destructor cls) = None then
          [plain_warning (cs_location cls)
             (''class '' @ quoted className @ '' declares destructor '' @ quoted (cs_destructor cls)
              @ '' but it was not found in IR'')] else [])"

definition checkClassMembers :: "SymbolTable \<Rightarrow> (string \<times> ll_function) list \<Rightarrow> finding list" where
  "checkClassMembers st matched =
     concat (map (\<lambda>(className, cls).
       if cs_templateParams cls \<noteq> [] then []
       else if CHR ''<'' \<in> set className then []
       else check_class st matched className cls) (classSymbols st))"

section \<open>Lemmas\<close>

named_theorems finding_simps "the count a finding adds"

lemma snd_finding [finding_simps, simp]:
  "snd (counted_error l m) = 1" "snd (counted_warning l m) = 1" "snd (plain_warning l m) = 0"
  by (simp_all add: counted_error_def counted_warning_def plain_warning_def)

lemma total_count_append [simp]: "total_count (xs @ ys) = total_count xs + total_count ys"
  by (simp add: total_count_def)

lemma total_count_Nil [simp]: "total_count [] = 0"
  by (simp add: total_count_def)

lemma total_count_Cons [simp]: "total_count (x # xs) = snd x + total_count xs"
  by (simp add: total_count_def)

lemma total_count_concat: "total_count (concat xss) = sum_list (map total_count xss)"
  by (induction xss) simp_all

lemma total_count_zero_iff: "total_count fs = 0 \<longleftrightarrow> (\<forall>f\<in>set fs. snd f = 0)"
  by (induction fs) auto

lemma check_block_empty:
  "check_block rev_map blockName block func = [] \<longleftrightarrow>
     set (declared_callees blockName block) = set (block_calls rev_map func)"
  by (auto simp: check_block_def Let_def filter_empty_conv)

lemma check_block_counts:
  "total_count (check_block rev_map blockName block func) =
     card (set (declared_callees blockName block) - set (block_calls rev_map func)) +
     card (set (block_calls rev_map func) - set (declared_callees blockName block))"
proof -
  have c: "total_count (map (\<lambda>x. counted_error l (g x)) (filter P xs)) = card {x \<in> set xs. P x}"
    if "distinct xs" for l g P and xs :: "string list"
    using distinct_card [of "filter P xs"] that
    by (simp add: total_count_def o_def sum_list_triv)
  show ?thesis
    unfolding check_block_def Let_def total_count_append
    by (simp add: c declared_callees_def block_calls_def set_diff_eq)
qed

lemma set_map_filter: "set (List.map_filter f xs) = {y. \<exists>x\<in>set xs. f x = Some y}"
  by (force simp: List.map_filter_def image_iff)

lemma set_block_calls:
  "q \<in> set (block_calls rev_map func) \<longleftrightarrow>
     (\<exists>i\<in>set (fn_insts func). \<exists>c. called_function i = Some c \<and> map_of rev_map c = Some q)"
  by (simp add: block_calls_def topo_callee_def set_map_filter bind_eq_Some_conv)

lemma set_declared_callees:
  "set (declared_callees blockName block) =
     qualify (lb_isPipeline block) (ns_prefix blockName) ` set (lb_calledFunctions block)"
  by (simp add: declared_callees_def)

definition publicly_required :: "SymbolTable \<Rightarrow> SymbolMapping \<Rightarrow> string \<Rightarrow> FunctionSymbol \<Rightarrow> bool" where
  "publicly_required st sm name fsym \<longleftrightarrow>
     fs_visibility fsym = Public \<and> fs_templateParams fsym = [] \<and> \<not> in_template_class st name \<and>
     CHR ''<'' \<notin> set name \<and> name \<in> fst ` set (sm_matched sm) \<union> set (sm_unmatchedTopo sm)"

lemma check_public_count:
  "total_count (check_public st sm name fsym) =
     of_bool (publicly_required st sm name fsym \<and> name \<notin> fst ` set (sm_matched sm))"
  by (simp add: check_public_def publicly_required_def)

lemma sum_list_of_bool: "sum_list (map (\<lambda>x. of_bool (P x)) xs) = length (filter P xs)"
  by (induction xs) simp_all

lemma checkPublicSymbols_count:
  "total_count (checkPublicSymbols st sm) =
     length (filter (\<lambda>(name, f). publicly_required st sm name f \<and> name \<notin> fst ` set (sm_matched sm))
       (st_functions st))"
  by (simp add: checkPublicSymbols_def total_count_concat o_def case_prod_unfold check_public_count sum_list_of_bool)

subsection \<open>Type matching\<close>

text \<open>
  The name a type is resolved by, through the lifetime wrappers, and aliases that lead downwards in
  some rank: the condition under which following them ends.
\<close>

lemma size_last_template: "targs \<noteq> [] \<Longrightarrow> size (last targs) < size (TypeNode ps targs md)"
  by (auto simp: size_last_TypeNode less_SucI)

function head_name :: "TypeNode \<Rightarrow> string" where
  "head_name (TypeNode ps targs md) =
     (if ps = [] then []
      else if ps = [''lifetime''] \<and> targs \<noteq> [] then head_name (last targs)
      else last ps)"
  by pat_completeness auto

termination
  by (relation "measure size") (auto simp: size_last_TypeNode less_SucI)

definition aliases_ranked :: "SymbolTable \<Rightarrow> (string \<Rightarrow> nat) \<Rightarrow> bool" where
  "aliases_ranked st rk \<longleftrightarrow>
     (\<forall>n t. findTypeAlias st n = Some t \<longrightarrow>
        nameParts t \<noteq> [] \<and> (last (nameParts t) \<noteq> n \<longrightarrow> rk (head_name t) < rk n))"

lemma typesMatch_total:
  assumes ok: "aliases_ranked st rk"
  shows "\<exists>b. typesMatch st lt t = Some b"
proof (induction "(rk (head_name t), size t)" arbitrary: t rule: less_induct)
  case less
  obtain ps targs md where t: "t = TypeNode ps targs md" by (cases t)
  show ?case
  proof (cases "ps = [''lifetime''] \<and> targs \<noteq> []")
    case True
    then have "(rk (head_name (last targs)), size (last targs)) < (rk (head_name t), size t)"
      using t size_last_template by simp
    from less [OF this] True t show ?thesis by (subst typesMatch.simps) simp
  next
    case False
    show ?thesis
    proof (cases "ps = [] \<or> ps = [''void''] \<or> md = Ref \<or> md = Ptr")
      case True
      with False t show ?thesis by (subst typesMatch.simps) auto
    next
      case no: False
      then have h: "head_name t = last ps" using False t by auto
      show ?thesis
      proof (cases "findTypeAlias st (last ps)")
        case None
        with no False t show ?thesis
          by (subst typesMatch.simps) (auto simp: Let_def split: option.splits)
      next
        case (Some target)
        with ok have tg: "nameParts target \<noteq> []"
          "last (nameParts target) \<noteq> last ps \<Longrightarrow> rk (head_name target) < rk (last ps)"
          by (auto simp: aliases_ranked_def)
        show ?thesis
        proof (cases "last (nameParts target) = last ps")
          case True
          with no False t Some tg show ?thesis
            by (subst typesMatch.simps) (auto simp: Let_def split: option.splits)
        next
          case ne: False
          with tg h have "(rk (head_name target), size target) < (rk (head_name t), size t)" by simp
          from less [OF this] obtain b where b: "typesMatch st lt target = Some b" by blast
          from no False t Some tg ne b show ?thesis
            by (subst typesMatch.simps) (auto simp: Let_def)
        qed
      qed
    qed
  qed
qed

text \<open>Two aliases that name each other: the comparison has no value.\<close>

lemma typesMatch_cycle_aux:
  assumes "typesMatch st lt t = Some v"
    and "findTypeAlias st a = Some (TypeNode [b] [] NoModifier)"
    and "findTypeAlias st b = Some (TypeNode [a] [] NoModifier)"
    and "a \<noteq> b" and "a \<noteq> ''void''" and "b \<noteq> ''void''"
  shows "t \<noteq> TypeNode [a] [] NoModifier \<and> t \<noteq> TypeNode [b] [] NoModifier"
  using assms
proof (induction rule: typesMatch.raw_induct [rotated 1, consumes 1, case_names step])
  case (step tm st' lt' t' v)
  show ?case
  proof (intro conjI notI)
    assume "t' = TypeNode [a] [] NoModifier"
    with step.hyps step.prems have "tm st' lt' (TypeNode [b] [] NoModifier) = Some v"
      by (simp add: Let_def)
    from step.IH [OF this step.prems] show False by simp
  next
    assume "t' = TypeNode [b] [] NoModifier"
    with step.hyps step.prems have "tm st' lt' (TypeNode [a] [] NoModifier) = Some v"
      by (simp add: Let_def)
    from step.IH [OF this step.prems] show False by simp
  qed
qed

lemma typesMatch_cycle:
  assumes "findTypeAlias st a = Some (TypeNode [b] [] NoModifier)"
    and "findTypeAlias st b = Some (TypeNode [a] [] NoModifier)"
    and "a \<noteq> b" and "a \<noteq> ''void''" and "b \<noteq> ''void''"
  shows "typesMatch st lt (TypeNode [a] [] NoModifier) = None"
  using typesMatch_cycle_aux [OF _ assms] by (cases "typesMatch st lt (TypeNode [a] [] NoModifier)") blast+

subsection \<open>Signatures\<close>

lemma skip_count_le: "skip_count st name func \<le> length (fn_args func)"
proof -
  have "of_bool (has_sret func) \<le> length (fn_args func)"
    by (cases "fn_args func") (auto simp: has_sret_def)
  moreover have "has_this st name func \<Longrightarrow> of_bool (has_sret func) < length (fn_args func)"
    by (simp add: has_this_def Let_def split: if_splits)
  ultimately show ?thesis
    unfolding skip_count_def by (cases "has_this st name func") auto
qed

lemma check_params_empty:
  "length ps = length args \<Longrightarrow>
   check_params st name loc i ps args = Some [] \<longleftrightarrow>
     list_all2 (\<lambda>p a. typesMatch st (arg_type a) (pa_type p) = Some True) ps args"
  by (induction st name loc i ps args rule: check_params.induct)
     (auto split: option.splits if_splits)

definition return_accepted :: "SymbolTable \<Rightarrow> FunctionSymbol \<Rightarrow> ll_function \<Rightarrow> bool" where
  "return_accepted st fsym func \<longleftrightarrow>
     (has_sret func \<and> fn_ret func = VoidTy) \<or>
     (if fs_isMultiReturn fsym then has_sret func \<or> fn_ret func \<noteq> VoidTy
      else typesMatch st (fn_ret func) (fs_returnType fsym) = Some True)"

lemma check_return_empty:
  "check_return st name fsym func = Some [] \<longleftrightarrow> return_accepted st fsym func"
  by (auto simp: check_return_def return_accepted_def split: option.splits)

lemma check_signature_empty:
  "check_signature st name fsym func = Some [] \<longleftrightarrow>
     length (fs_params fsym) + skip_count st name func = length (fn_args func) \<and>
     return_accepted st fsym func \<and>
     list_all2 (\<lambda>p a. typesMatch st (arg_type a) (pa_type p) = Some True)
       (fs_params fsym) (drop (skip_count st name func) (fn_args func))"
proof (cases "length (fn_args func) - skip_count st name func = length (fs_params fsym)")
  case True
  then have l: "length (fs_params fsym) = length (drop (skip_count st name func) (fn_args func))" by simp
  have n: "length (fs_params fsym) + skip_count st name func = length (fn_args func)"
    using True skip_count_le [of st name func] by simp
  note c = check_params_empty [OF l, of st name "fs_location fsym" 0]
  have "check_signature st name fsym func = Some [] \<longleftrightarrow>
     check_return st name fsym func = Some [] \<and>
     check_params st name (fs_location fsym) 0 (fs_params fsym)
       (drop (skip_count st name func) (fn_args func)) = Some []"
    using True skip_count_le [of st name func]
    by (auto simp: check_signature_def Let_def split: option.splits)
  then show ?thesis using c n by (simp add: check_return_empty)
next
  case False
  then show ?thesis
    using skip_count_le [of st name func] by (auto simp: check_signature_def Let_def)
qed

subsection \<open>What a compiled signature looks like\<close>

text \<open>A specification of signatures that does not refer to the comparisons of the code. The layouts the
built-in names have, one by one:\<close>

definition scalar_layout :: "(string \<times> ll_type set) list" where
  "scalar_layout =
     [(''bool'', {IntegerTy 1}), (''Bool'', {IntegerTy 1}),
      (''i8'', {IntegerTy 8}), (''u8'', {IntegerTy 8}), (''int8'', {IntegerTy 8}), (''Int8'', {IntegerTy 8}),
      (''char'', {IntegerTy 8}), (''Char'', {IntegerTy 8}),
      (''i16'', {IntegerTy 16}), (''u16'', {IntegerTy 16}), (''int16'', {IntegerTy 16}),
      (''Int16'', {IntegerTy 16}), (''short'', {IntegerTy 16}),
      (''i32'', {IntegerTy 32}), (''u32'', {IntegerTy 32}), (''int32'', {IntegerTy 32}),
      (''Int32'', {IntegerTy 32}), (''int'', {IntegerTy 32}), (''Int'', {IntegerTy 32}),
      (''i64'', {IntegerTy 64}), (''u64'', {IntegerTy 64}), (''int64'', {IntegerTy 64}),
      (''Int64'', {IntegerTy 64}), (''long'', {IntegerTy 64}),
      (''isize'', {IntegerTy 32, IntegerTy 64}), (''usize'', {IntegerTy 32, IntegerTy 64}),
      (''f32'', {FloatTy}), (''float'', {FloatTy}), (''Float'', {FloatTy}),
      (''f64'', {DoubleTy}), (''double'', {DoubleTy}), (''Double'', {DoubleTy})]"

text \<open>The layouts of an abstract name.\<close>

definition logical_layout :: "LogicalTypeKind \<Rightarrow> ll_type set" where
  "logical_layout k =
     (case k of
        LInteger \<Rightarrow> range IntegerTy
      | LUnsignedInteger \<Rightarrow> range IntegerTy
      | LFloating \<Rightarrow> {FloatTy, DoubleTy, OtherFPTy}
      | LBoolean \<Rightarrow> {IntegerTy 1}
      | LText \<Rightarrow> {PointerTy, StructTy}
      | LOther \<Rightarrow> UNIV)"

text \<open>A name that stands for itself: it has no alias, or one whose target ends in the name again.\<close>

definition own_name :: "SymbolTable \<Rightarrow> string \<Rightarrow> bool" where
  "own_name st n \<longleftrightarrow> (\<forall>u. findTypeAlias st n = Some u \<longrightarrow> (\<exists>ps. nameParts u = ps @ [n]))"

text \<open>A class with the qualified name, with the last name, or with the last name in some namespace.\<close>

definition names_class :: "SymbolTable \<Rightarrow> string list \<Rightarrow> bool" where
  "names_class st ps \<longleftrightarrow>
     findClassSymbol st (join_parts ps) \<noteq> None \<or>
     (\<exists>(cls, c)\<in>set (classSymbols st). cls = last ps \<or> (\<exists>ns. ns \<noteq> [] \<and> cls = ns @ sep @ last ps))"

definition by_value :: "TypeNode \<Rightarrow> string \<Rightarrow> bool" where
  "by_value t n \<longleftrightarrow>
     (\<exists>ps. nameParts t = ps @ [n]) \<and> nameParts t \<noteq> [''void''] \<and>
     (nameParts t = [''lifetime''] \<longrightarrow> templateArgs t = []) \<and> modifier t \<noteq> Ref \<and> modifier t \<noteq> Ptr"

text \<open>\<open>lays_out st t lt\<close>: a compiler may give a value of the declared type \<open>t\<close> the LLVM type \<open>lt\<close>. A
\<open>lifetime\<close> is laid out like what it wraps, a reference or pointer is a pointer, an alias is laid out like
its target; a small class may be flattened to anything.\<close>

inductive lays_out :: "SymbolTable \<Rightarrow> TypeNode \<Rightarrow> ll_type \<Rightarrow> bool" for st where
  lays_nothing: "nameParts t = [] \<or> nameParts t = [''void''] \<Longrightarrow> lays_out st t VoidTy"
| lays_wrapped: "nameParts t = [''lifetime''] \<Longrightarrow> templateArgs t = ts @ [u] \<Longrightarrow> lays_out st u lt \<Longrightarrow>
     lays_out st t lt"
| lays_address: "nameParts t \<noteq> [] \<Longrightarrow> nameParts t \<noteq> [''void''] \<Longrightarrow>
     nameParts t \<noteq> [''lifetime''] \<or> templateArgs t = [] \<Longrightarrow> modifier t \<in> {Ref, Ptr} \<Longrightarrow>
     lays_out st t PointerTy"
| lays_alias: "by_value t n \<Longrightarrow> findTypeAlias st n = Some u \<Longrightarrow> nameParts u = ps @ [n'] \<Longrightarrow> n' \<noteq> n \<Longrightarrow>
     lays_out st u lt \<Longrightarrow> lays_out st t lt"
| lays_abstract: "by_value t n \<Longrightarrow> own_name st n \<Longrightarrow> classifyAbstractName st n = Some k \<Longrightarrow>
     lt \<in> logical_layout k \<Longrightarrow> lays_out st t lt"
| lays_scalar: "by_value t n \<Longrightarrow> own_name st n \<Longrightarrow> classifyAbstractName st n = None \<Longrightarrow>
     (n, lts) \<in> set scalar_layout \<Longrightarrow> lt \<in> lts \<Longrightarrow> lays_out st t lt"
| lays_record: "by_value t n \<Longrightarrow> own_name st n \<Longrightarrow> classifyAbstractName st n = None \<Longrightarrow>
     n \<notin> fst ` set scalar_layout \<Longrightarrow> lt \<in> {StructTy, PointerTy} \<or> names_class st (nameParts t) \<Longrightarrow>
     lays_out st t lt"

text \<open>A name is that of a method when everything before its last separator names a class.\<close>

definition method_name :: "SymbolTable \<Rightarrow> string \<Rightarrow> bool" where
  "method_name st name \<longleftrightarrow>
     (\<exists>cls m. name = cls @ sep @ m \<and> \<not> contains sep (CHR '':'' # m) \<and> findClassSymbol st cls \<noteq> None)"

text \<open>\<open>compiled_as st name fsym func\<close>: the arguments of the function are the return slot, where there is
one, the object, where a method has a pointer at that place, and then one argument for each declared
parameter, laid out like it; the result is returned through the slot, or by value like the declared type,
or, for several results, somehow.\<close>

definition compiled_as :: "SymbolTable \<Rightarrow> string \<Rightarrow> FunctionSymbol \<Rightarrow> ll_function \<Rightarrow> bool" where
  "compiled_as st name fsym func \<longleftrightarrow>
     (\<exists>slot object args.
        fn_args func = slot @ object @ args \<and>
        (if \<exists>a as. fn_args func = a # as \<and> arg_sret a then length slot = 1 else slot = []) \<and>
        (if method_name st name \<and> (\<exists>a as. object @ args = a # as \<and> arg_type a = PointerTy)
           then length object = 1 else object = []) \<and>
        list_all2 (\<lambda>p a. lays_out st (pa_type p) (arg_type a)) (fs_params fsym) args \<and>
        (slot \<noteq> [] \<and> fn_ret func = VoidTy \<or>
         (if fs_isMultiReturn fsym then slot \<noteq> [] \<or> fn_ret func \<noteq> VoidTy
          else lays_out st (fs_returnType fsym) (fn_ret func))))"

lemma builtin_layout: "builtin_match lt n = map_option (\<lambda>lts. lt \<in> lts) (map_of scalar_layout n)"
  by (simp add: builtin_match_def scalar_layout_def) (auto simp: disj_commute)

lemma scalar_layout_distinct: "distinct (map fst scalar_layout)"
  unfolding scalar_layout_def by code_simp

lemma abstract_layout: "abstract_match lt k \<longleftrightarrow> lt \<in> logical_layout k"
  by (cases k; cases lt) (auto simp: logical_layout_def)

lemma custom_layout:
  "custom_match st lt ps \<longleftrightarrow> lt \<in> {StructTy, PointerTy} \<or> names_class st ps"
proof -
  have "length (sep @ n) < length cls \<and> ends_with (sep @ n) cls \<longleftrightarrow> (\<exists>ns. ns \<noteq> [] \<and> cls = ns @ sep @ n)"
    for n cls :: string
    by (auto simp: ends_with_iff)
  then show ?thesis
    by (auto simp: custom_match_def names_class_def list_ex_iff split_beta Bex_def)
qed

lemma last_snoc_iff: "xs \<noteq> [] \<and> last xs = n \<longleftrightarrow> (\<exists>ys. xs = ys @ [n])"
  by (metis append_butlast_last_id last_snoc snoc_eq_iff_butlast)

lemma scalar_layout_mem: "(n, lts) \<in> set scalar_layout \<longleftrightarrow> map_of scalar_layout n = Some lts"
  using scalar_layout_distinct by simp

text \<open>The comparison of the code accepts exactly the layouts.\<close>

lemma typesMatch_sound:
  assumes "typesMatch st lt t = Some b" shows "b \<longrightarrow> lays_out st t lt"
  using assms
proof (induction rule: typesMatch.raw_induct [rotated 1, consumes 1, case_names step])
  case (step tm st lt t b)
  show ?case
  proof (cases "nameParts t = [] \<or> nameParts t = [''void'']")
    case True
    with step.hyps show ?thesis by (auto intro: lays_nothing)
  next
    case some: False
    show ?thesis
    proof (cases "nameParts t = [''lifetime''] \<and> templateArgs t \<noteq> []")
      case True
      then obtain ts u where u: "templateArgs t = ts @ [u]" by (metis rev_exhaust)
      with some True step.hyps have "tm st lt u = Some b" by auto
      from step.IH [OF this] True u show ?thesis by (auto intro: lays_wrapped)
    next
      case plain: False
      show ?thesis
      proof (cases "modifier t = Ref \<or> modifier t = Ptr")
        case True
        with some plain step.hyps show ?thesis by (auto intro: lays_address)
      next
        case val: False
        define n where "n = last (nameParts t)"
        have v: "by_value t n"
          using some plain val unfolding by_value_def n_def by (metis append_butlast_last_id)
        show ?thesis
        proof (cases "\<exists>u. findTypeAlias st n = Some u \<and> (nameParts u = [] \<or> last (nameParts u) \<noteq> n)")
          case True
          then obtain u where u: "findTypeAlias st n = Some u" "nameParts u = [] \<or> last (nameParts u) \<noteq> n"
            by blast
          with some plain val step.hyps have ne: "nameParts u \<noteq> []" "tm st lt u = Some b"
            by (auto simp: n_def Let_def split: if_splits)
          then have "nameParts u = butlast (nameParts u) @ [last (nameParts u)]" by simp
          with step.IH [OF ne(2)] u ne v show ?thesis by (blast intro: lays_alias)
        next
          case False
          then have own: "own_name st n" unfolding own_name_def by (metis last_snoc_iff)
          from False some plain val step.hyps have
            "(case classifyAbstractName st n of Some k \<Rightarrow> Some (abstract_match lt k)
              | None \<Rightarrow> (case builtin_match lt n of Some b \<Rightarrow> Some b
                         | None \<Rightarrow> Some (custom_match st lt (nameParts t)))) = Some b"
            by (auto simp: n_def [symmetric] Let_def split: option.splits if_splits)
          then show ?thesis
            using lays_abstract [OF v own] lays_scalar [OF v own] lays_record [OF v own]
            by (auto simp: abstract_layout custom_layout builtin_layout scalar_layout_mem
                map_of_eq_None_iff split: option.splits)
        qed
      qed
    qed
  qed
qed

lemma typesMatch_complete: "lays_out st t lt \<Longrightarrow> typesMatch st lt t = Some True"
proof (induction rule: lays_out.induct)
  case (lays_nothing t)
  then show ?case by (subst typesMatch.simps) auto
next
  case (lays_wrapped t ts u lt)
  then show ?case by (subst typesMatch.simps) simp
next
  case (lays_address t)
  then show ?case by (subst typesMatch.simps) auto
next
  case (lays_alias t n u ps n' lt)
  then show ?case by (subst typesMatch.simps) (auto simp: by_value_def Let_def)
next
  case (lays_abstract t n k lt)
  then show ?case
    by (subst typesMatch.simps) (auto simp: by_value_def own_name_def Let_def abstract_layout split: option.splits)
next
  case (lays_scalar t n lts lt)
  then show ?case
    by (subst typesMatch.simps)
       (auto simp: by_value_def own_name_def Let_def builtin_layout scalar_layout_mem split: option.splits)
next
  case (lays_record t n lt)
  then have "builtin_match lt n = None" by (simp add: builtin_layout map_of_eq_None_iff)
  with lays_record show ?case
    by (subst typesMatch.simps)
       (auto simp: by_value_def own_name_def Let_def custom_layout split: option.splits)
qed

lemma typesMatch_layout: "typesMatch st lt t = Some True \<longleftrightarrow> lays_out st t lt"
  using typesMatch_sound typesMatch_complete by blast

lemma rfind_last_part:
  "str_rfind sep name = Some i \<longleftrightarrow>
     (\<exists>m. name = take i name @ sep @ m \<and> i \<le> length name \<and> \<not> contains sep (CHR '':'' # m))"
proof
  assume r: "str_rfind sep name = Some i"
  from str_rfind_Some [OF r] have i: "i + 2 \<le> length name" "starts_with sep (drop i name)"
    and later: "\<And>j. i < j \<Longrightarrow> j \<le> length name \<Longrightarrow> \<not> starts_with sep (drop j name)" by auto
  obtain m where m: "drop i name = sep @ m" using i(2) by (auto simp: starts_with_iff)
  then have d: "drop (Suc i) name = CHR '':'' # m" by (metis append_Cons drop_Suc drop_tl list.sel(3) self_append_conv2)
  have "\<not> starts_with sep (drop j (CHR '':'' # m))" for j
  proof (cases "Suc i + j \<le> length name")
    case True
    with later [of "Suc i + j"] d show ?thesis by (metis add.commute drop_drop less_add_Suc1 add_Suc)
  next
    case False
    then have "drop j (CHR '':'' # m) = []" using arg_cong [OF d, of length] by simp
    then show ?thesis by (simp add: starts_with_def)
  qed
  then have "\<not> contains sep (CHR '':'' # m)" unfolding contains_def not_not str_find_None by blast
  with m i show "\<exists>m. name = take i name @ sep @ m \<and> i \<le> length name \<and> \<not> contains sep (CHR '':'' # m)"
    by (metis append_take_drop_id add_leD1)
next
  assume "\<exists>m. name = take i name @ sep @ m \<and> i \<le> length name \<and> \<not> contains sep (CHR '':'' # m)"
  then obtain m where m: "name = take i name @ sep @ m" "i \<le> length name" "\<not> contains sep (CHR '':'' # m)" by blast
  have "drop i name = sep @ m" using m(1,2) by (metis append_eq_conv_conj length_take min.absorb2)
  then have d: "drop i name = sep @ m" "drop (Suc i) name = CHR '':'' # m"
    by (auto simp: drop_Suc drop_tl)
  have no: "\<not> starts_with sep (drop j (CHR '':'' # m))" for j
  proof (cases "j \<le> length (CHR '':'' # m)")
    case True
    with m(3) show ?thesis unfolding contains_def not_not str_find_None by blast
  next
    case False
    then show ?thesis by (simp add: starts_with_def)
  qed
  have later: "\<not> starts_with sep (drop j name)" if "i < j" for j
    using no [of "j - Suc i"] that d(2) by (metis Suc_leI drop_drop le_add_diff_inverse2)
  have here: "starts_with sep (drop i name)" unfolding d(1) by (rule starts_with_append)
  show "str_rfind sep name = Some i"
  proof (cases "str_rfind sep name")
    case None
    from str_rfind_None [OF this m(2)] here show ?thesis by simp
  next
    case (Some k)
    note k = str_rfind_Some [OF Some]
    have "\<not> i < k" using later k by blast
    moreover have "\<not> k < i" using k here m(2) by blast
    ultimately show ?thesis using Some by simp
  qed
qed

lemma method_name_iff:
  "method_name st name \<longleftrightarrow>
     (case str_rfind sep name of None \<Rightarrow> False
      | Some i \<Rightarrow> findClassSymbol st (substr name 0 i) \<noteq> None)"
proof -
  have "method_name st name \<longleftrightarrow>
      (\<exists>i. str_rfind sep name = Some i \<and> findClassSymbol st (take i name) \<noteq> None)"
    unfolding method_name_def rfind_last_part
    by (metis append_eq_conv_conj append_take_drop_id length_append le_add1)
  then show ?thesis by (auto split: option.splits)
qed

lemma concat_opt_Some: "concat_opt xs = Some ys \<longleftrightarrow> (\<forall>x\<in>set xs. x \<noteq> None) \<and> ys = concat (map the xs)"
proof (induction xs arbitrary: ys rule: concat_opt.induct)
  case (3 x xs)
  then show ?case by (cases "concat_opt xs") auto
qed auto

lemma check_params_total:
  "aliases_ranked st rk \<Longrightarrow> check_params st name loc i ps args \<noteq> None"
proof (induction st name loc i ps args rule: check_params.induct)
  case (3 st name loc i p ps a args)
  obtain b where "typesMatch st (arg_type a) (pa_type p) = Some b"
    using typesMatch_total [OF 3(2)] by blast
  with 3(1) [OF this] 3(2) show ?case by auto
qed simp_all

lemma check_signature_total:
  assumes "aliases_ranked st rk"
  shows "check_signature st name fsym func \<noteq> None"
proof -
  obtain b where b: "typesMatch st (fn_ret func) (fs_returnType fsym) = Some b"
    using typesMatch_total [OF assms] by blast
  then have "check_return st name fsym func \<noteq> None" by (auto simp: check_return_def)
  moreover note check_params_total [OF assms, of name "fs_location fsym" 0 "fs_params fsym"
    "drop (skip_count st name func) (fn_args func)"]
  ultimately show ?thesis by (auto simp: check_signature_def Let_def split: option.splits)
qed

lemma checkSignatures_total:
  assumes "aliases_ranked st rk"
  shows "checkSignatures st matched \<noteq> None"
proof -
  have "\<exists>ys. checkSignatures st matched = Some ys"
    unfolding checkSignatures_def concat_opt_Some
    by (auto simp: check_signature_total [OF assms, simplified not_None_eq] split: option.splits)
  then show ?thesis by auto
qed

text \<open>A table without declarations, the base of the concrete tables of the witnesses.\<close>

definition empty_table :: SymbolTable where
  "empty_table =
     \<lparr>st_functions = [], classSymbols = [], logicBlocks = [], instantiates = [],
      findTypeAlias = (\<lambda>_. None), findClassSymbol = (\<lambda>_. None), findFunction = (\<lambda>_. None),
      constraintSymbols = [], findAdaptsForConstraint = (\<lambda>_. []),
      tn_toString = (\<lambda>t. join_parts (nameParts t)), classifyAbstractName = (\<lambda>_. None)\<rparr>"

section \<open>What the checks decide\<close>

text \<open>Check 1 counts exactly the declarations it has to find and does not: the public functions the
visibility collection knows, that are no templates, in no template class and no specialisation, and
that the mapping lists as unmatched and has no function for.\<close>

theorem public_check_counts:
  "total_count (checkPublicSymbols st sm) =
     length (filter (\<lambda>(name, f). publicly_required st sm name f \<and> name \<notin> fst ` set (sm_matched sm))
       (st_functions st))"
  by (rule checkPublicSymbols_count)

text \<open>C12. Check 2 reports nothing exactly when, in every fn block that is no pipeline and has a function
in the module, the operations the block declares are the known functions its code calls.\<close>

theorem logic_blocks_agree:
  "checkLogicBlockConsistency st matched = [] \<longleftrightarrow>
     (\<forall>(blockName, block) \<in> set (logicBlocks st). \<forall>func.
        \<not> lb_isPipeline block \<and> map_of matched blockName = Some func \<longrightarrow>
        (append (ns_prefix blockName)) ` set (lb_calledFunctions block) =
        {q. \<exists>i\<in>set (fn_insts func). \<exists>c. called_function i = Some c \<and> map_of (llvmToTopo matched) c = Some q})"
proof -
  have q: "qualify False p = append p" for p by (auto simp: qualify_def)
  have s: "set (block_calls rev_map func) =
      {q. \<exists>i\<in>set (fn_insts func). \<exists>c. called_function i = Some c \<and> map_of rev_map c = Some q}" for rev_map func
    by (simp only: set_block_calls set_eq_iff mem_Collect_eq simp_thms)
  show ?thesis
    unfolding checkLogicBlockConsistency_def Let_def concat_eq_Nil_conv set_map ball_simps
    by (intro ball_cong refl)
       (simp add: split_beta check_block_empty set_declared_callees q s [symmetric] split: option.split)
qed

definition example_call :: "nat \<Rightarrow> string \<Rightarrow> (nat \<times> nat) option \<Rightarrow> ll_operand list \<Rightarrow> ll_inst" where
  "example_call i callee loc ops =
     \<lparr>in_id = i, in_kind = CallInst, in_callee = Some callee, in_operands = ops, in_debug = loc\<rparr>"

definition example_function :: "string \<Rightarrow> ll_inst list \<Rightarrow> ll_function" where
  "example_function n is =
     \<lparr>fn_name = n, fn_blocks = [is], fn_args = [], fn_ret = VoidTy, fn_only_reads = False\<rparr>"

definition example_block :: "string list \<Rightarrow> int list \<Rightarrow> LogicBlock" where
  "example_block calls stages =
     \<lparr>lb_qualifiedName = ''run'', lb_location = 1, lb_isPipeline = False, lb_calledFunctions = calls, lb_stages = stages, lb_edges = []\<rparr>"

theorem logic_blocks_agree_witness:
  "(append (ns_prefix ''m::run'')) ` set [''f''] =
     {q. \<exists>i\<in>set [example_call 0 ''_f'' None []]. \<exists>c. called_function i = Some c \<and>
        map_of [(''_run'', ''m::run''), (''_f'', ''m::f'')] c = Some q}"
proof -
  let ?st = "empty_table \<lparr>logicBlocks := [(''m::run'', example_block [''f''] [])]\<rparr>"
  let ?run = "example_function ''_run'' [example_call 0 ''_f'' None []]"
  let ?m = "[(''m::run'', ?run), (''m::f'', example_function ''_f'' [])]"
  have rev_map: "llvmToTopo ?m = [(''_run'', ''m::run''), (''_f'', ''m::f'')]"
    by (simp add: llvmToTopo_def example_function_def)
  have "checkLogicBlockConsistency ?st ?m = []" by code_simp
  from this [unfolded logic_blocks_agree rev_map] show ?thesis
    by (simp add: empty_table_def example_block_def example_function_def fn_insts_def)
qed

lemma skip_count_split:
  "fn_args func = slot @ object @ args \<Longrightarrow>
   (if \<exists>a as. fn_args func = a # as \<and> arg_sret a then length slot = 1 else slot = []) \<Longrightarrow>
   (if method_name st name \<and> (\<exists>a as. object @ args = a # as \<and> arg_type a = PointerTy)
      then length object = 1 else object = []) \<Longrightarrow>
   skip_count st name func = length slot + length object \<and> (has_sret func \<longleftrightarrow> slot \<noteq> [])"
  by (cases "object @ args"; cases slot; cases "fn_args func")
     (auto simp: skip_count_def has_sret_def has_this_def method_name_iff [symmetric] nth_append
        split: if_splits)

lemma skip_count_exists:
  obtains slot object where
    "fn_args func = slot @ object @ drop (skip_count st name func) (fn_args func)"
    "if \<exists>a as. fn_args func = a # as \<and> arg_sret a then length slot = 1 else slot = []"
    "if method_name st name \<and>
        (\<exists>a as. object @ drop (skip_count st name func) (fn_args func) = a # as \<and> arg_type a = PointerTy)
      then length object = 1 else object = []"
proof -
  define n where "n = (of_bool (has_sret func) :: nat)"
  define k where "k = (of_bool (has_this st name func) :: nat)"
  define slot where "slot = take n (fn_args func)"
  define object where "object = take k (drop n (fn_args func))"
  have sk: "skip_count st name func = n + k" by (simp add: skip_count_def n_def k_def)
  have rest: "object @ drop (skip_count st name func) (fn_args func) = drop n (fn_args func)"
    unfolding object_def sk by (metis add.commute append_take_drop_id drop_drop)
  have s: "(\<exists>a as. fn_args func = a # as \<and> arg_sret a) \<longleftrightarrow> has_sret func"
    by (auto simp: has_sret_def split: list.splits)
  have "fn_args func = slot @ object @ drop (skip_count st name func) (fn_args func)"
    unfolding rest slot_def by simp
  moreover have "if \<exists>a as. fn_args func = a # as \<and> arg_sret a then length slot = 1 else slot = []"
    unfolding s by (auto simp: slot_def n_def has_sret_def split: list.splits)
  moreover have "has_this st name func \<longleftrightarrow>
      method_name st name \<and> (\<exists>a as. drop n (fn_args func) = a # as \<and> arg_type a = PointerTy)"
  proof (cases "drop n (fn_args func)")
    case Nil
    then show ?thesis by (auto simp: has_this_def n_def split: if_splits)
  next
    case (Cons a as)
    then have "n < length (fn_args func)" "fn_args func ! n = a"
      by (metis drop_all list.distinct(1) not_le, metis drop_eq_Nil hd_drop_conv_nth list.distinct(1) list.sel(1) not_le)
    with Cons show ?thesis
      by (auto simp: has_this_def method_name_iff n_def Let_def of_bool_def)
  qed
  then have "if method_name st name \<and>
        (\<exists>a as. object @ drop (skip_count st name func) (fn_args func) = a # as \<and> arg_type a = PointerTy)
      then length object = 1 else object = []"
    unfolding rest by (cases "drop n (fn_args func)") (auto simp: object_def k_def)
  ultimately show ?thesis using that by blast
qed

lemma check_signature_compiled:
  "check_signature st name fsym func = Some [] \<longleftrightarrow> compiled_as st name fsym func"
proof -
  let ?rest = "drop (skip_count st name func) (fn_args func)"
  have "compiled_as st name fsym func \<longleftrightarrow>
      list_all2 (\<lambda>p a. lays_out st (pa_type p) (arg_type a)) (fs_params fsym) ?rest \<and>
      return_accepted st fsym func" (is "?c \<longleftrightarrow> ?r")
  proof
    assume ?c
    then obtain slot object args where c: "fn_args func = slot @ object @ args"
      "if \<exists>a as. fn_args func = a # as \<and> arg_sret a then length slot = 1 else slot = []"
      "if method_name st name \<and> (\<exists>a as. object @ args = a # as \<and> arg_type a = PointerTy)
         then length object = 1 else object = []"
      "list_all2 (\<lambda>p a. lays_out st (pa_type p) (arg_type a)) (fs_params fsym) args"
      "slot \<noteq> [] \<and> fn_ret func = VoidTy \<or>
         (if fs_isMultiReturn fsym then slot \<noteq> [] \<or> fn_ret func \<noteq> VoidTy
          else lays_out st (fs_returnType fsym) (fn_ret func))"
      unfolding compiled_as_def by (elim exE conjE)
    from skip_count_split [OF c(1-3)] have "?rest = args" "has_sret func \<longleftrightarrow> slot \<noteq> []"
      using c(1) by auto
    with c(4,5) show ?r by (auto simp: return_accepted_def typesMatch_layout split: if_splits)
  next
    assume r: ?r
    obtain slot object where c: "fn_args func = slot @ object @ ?rest"
      "if \<exists>a as. fn_args func = a # as \<and> arg_sret a then length slot = 1 else slot = []"
      "if method_name st name \<and> (\<exists>a as. object @ ?rest = a # as \<and> arg_type a = PointerTy)
         then length object = 1 else object = []"
      by (rule skip_count_exists)
    from skip_count_split [OF c] have "has_sret func \<longleftrightarrow> slot \<noteq> []" by blast
    with r have "slot \<noteq> [] \<and> fn_ret func = VoidTy \<or>
         (if fs_isMultiReturn fsym then slot \<noteq> [] \<or> fn_ret func \<noteq> VoidTy
          else lays_out st (fs_returnType fsym) (fn_ret func))"
      by (auto simp: return_accepted_def typesMatch_layout split: if_splits)
    with c r show ?c unfolding compiled_as_def by blast
  qed
  then show ?thesis
    unfolding check_signature_empty typesMatch_layout
    using skip_count_le [of st name func] by (auto dest: list_all2_lengthD)
qed


definition alias_table :: SymbolTable where
  "alias_table = empty_table
     \<lparr>findTypeAlias := (\<lambda>n. if n = ''Meters'' then Some (TypeNode [''double''] [] NoModifier) else None)\<rparr>"

lemma alias_table_ranked: "aliases_ranked alias_table (\<lambda>n. if n = ''Meters'' then 1 else 0)"
  by (simp add: aliases_ranked_def alias_table_def empty_table_def)

lemma meters_layout:
  "lays_out alias_table (TypeNode [''Meters''] [] NoModifier) lt \<longleftrightarrow> lt = DoubleTy"
proof -
  have d: "typesMatch alias_table lt (TypeNode [''double''] [] NoModifier) = Some (lt = DoubleTy)"
    by (subst typesMatch.simps) (simp add: alias_table_def empty_table_def builtin_match_def)
  show ?thesis
    unfolding typesMatch_layout [symmetric]
    by (subst typesMatch.simps)
       (simp add: d [unfolded alias_table_def empty_table_def, simplified] alias_table_def empty_table_def)
qed

definition meters_symbol :: FunctionSymbol where
  "meters_symbol =
     \<lparr>fs_simpleName = ''g'', fs_location = 1, fs_visibility = Public, fs_templateParams = [],
      fs_params = [\<lparr>pa_name = ''x'', pa_type = TypeNode [''Meters''] [] NoModifier\<rparr>],
      fs_returnType = TypeNode [] [] NoModifier, fs_isConst = False, fs_isMultiReturn = False\<rparr>"

definition meters_function :: "ll_type \<Rightarrow> ll_function" where
  "meters_function lt =
     \<lparr>fn_name = ''g'', fn_blocks = [], fn_args = [\<lparr>arg_type = lt, arg_sret = False, arg_readonly = False\<rparr>],
      fn_ret = VoidTy, fn_only_reads = False\<rparr>"

lemma meters_compiled:
  "compiled_as alias_table ''g'' meters_symbol (meters_function lt) \<longleftrightarrow> lt = DoubleTy"
proof -
  have m: "\<not> method_name alias_table ''g''" by (simp add: method_name_iff starts_with_def)
  have r: "lays_out alias_table (TypeNode [] [] NoModifier) VoidTy" by (rule lays_nothing) simp
  show ?thesis
    by (auto simp: compiled_as_def m r meters_symbol_def meters_function_def meters_layout)
qed


text \<open>A function of a class without an object, whose first parameter is a pointer, is compiled as it is
declared and reported all the same: the parameter is taken for the object.\<close>

lemma static_member_reported:
  "check_signature (empty_table \<lparr>findClassSymbol := (\<lambda>n. if n = ''Box'' then Some cls else None)\<rparr>) ''Box::make''
     (meters_symbol \<lparr>fs_params := [\<lparr>pa_name = ''p'', pa_type = TypeNode [''int''] [] Ptr\<rparr>]\<rparr>)
     (meters_function PointerTy) \<noteq> Some []"
  by (simp add: check_signature_def skip_count_def has_sret_def has_this_def meters_symbol_def
      meters_function_def starts_with_def)

text \<open>Two type aliases that name each other: for a function without parameters that is declared to
return one of them the comparison of return types never returns, and neither does the check of the
module. The guard of the code stops only an alias whose target has the alias's own name.\<close>

theorem mutual_aliases_never_return:
  "checkSignatures
     (empty_table
        \<lparr>findTypeAlias := (\<lambda>n. if n = ''A'' then Some (TypeNode [''B''] [] NoModifier)
                           else if n = ''B'' then Some (TypeNode [''A''] [] NoModifier) else None),
         st_functions := [(''g'', \<lparr>fs_simpleName = ''g'', fs_location = 1, fs_visibility = Public,
            fs_templateParams = [], fs_params = [], fs_returnType = TypeNode [''A''] [] NoModifier,
            fs_isConst = False, fs_isMultiReturn = False\<rparr>)]\<rparr>)
     [(''g'', \<lparr>fn_name = ''g'', fn_blocks = [[]], fn_args = [], fn_ret = IntegerTy 32, fn_only_reads = False\<rparr>)]
   = None"
proof -
  let ?st = "empty_table
        \<lparr>findTypeAlias := (\<lambda>n. if n = ''A'' then Some (TypeNode [''B''] [] NoModifier)
                           else if n = ''B'' then Some (TypeNode [''A''] [] NoModifier) else None),
         st_functions := [(''g'', \<lparr>fs_simpleName = ''g'', fs_location = 1, fs_visibility = Public,
            fs_templateParams = [], fs_params = [], fs_returnType = TypeNode [''A''] [] NoModifier,
            fs_isConst = False, fs_isMultiReturn = False\<rparr>)]\<rparr>"
  have "typesMatch ?st (IntegerTy 32) (TypeNode [''A''] [] NoModifier) = None"
    by (rule typesMatch_cycle [of _ _ "''B''"]) simp_all
  then show ?thesis
    by (simp add: checkSignatures_def check_signature_def skip_count_def has_sret_def has_this_def check_return_def)
qed

end
