(* ===== verification/VerifierOrder.thy ===== *)
theory VerifierOrder
  imports VerifierModel "HOL-Library.Multiset"
begin

text \<open>
  lib/Backend/Verifier.cpp, the checks on the order of calls: stages in source order (check 6), the
  terminal node of a pipeline (check 7) and the independence of the calls of one stage (check 10).
  The lemmas characterise the findings of each; the first is shown to depend on the source positions
  of the calls alone.
\<close>

section \<open>Check 6: stages\<close>

record StagedCall =
  sc_line :: nat
  sc_col :: nat
  sc_emitIdx :: nat
  sc_stage :: int
  sc_name :: string

definition calleeStage :: "string \<Rightarrow> LogicBlock \<Rightarrow> (string \<times> int) list" where
  "calleeStage blockName block =
     fold (\<lambda>(callee, stage). AList.update (qualify (lb_isPipeline block) (ns_prefix blockName) callee) stage)
       (zip (lb_calledFunctions block) (lb_stages block)) []"

definition source_pos :: "ll_inst \<Rightarrow> nat \<times> nat" where
  "source_pos i = (case in_debug i of None \<Rightarrow> (0, 0) | Some p \<Rightarrow> p)"

fun staged_calls ::
  "(string \<times> string) list \<Rightarrow> (string \<times> int) list \<Rightarrow> nat \<Rightarrow> ll_inst list \<Rightarrow> StagedCall list" where
  "staged_calls rev_map stage_of emitIdx [] = []"
| "staged_calls rev_map stage_of emitIdx (inst # insts) =
     (case topo_callee rev_map inst of
        None \<Rightarrow> staged_calls rev_map stage_of emitIdx insts
      | Some q \<Rightarrow>
          (case map_of stage_of q of
             None \<Rightarrow> staged_calls rev_map stage_of emitIdx insts
           | Some stage \<Rightarrow>
               \<lparr>sc_line = fst (source_pos inst), sc_col = snd (source_pos inst), sc_emitIdx = emitIdx,
                sc_stage = stage, sc_name = q\<rparr> # staged_calls rev_map stage_of (Suc emitIdx) insts))"

definition source_order :: "StagedCall list \<Rightarrow> StagedCall list" where
  "source_order = sort_key (\<lambda>c. (sc_line c, sc_col c, sc_emitIdx c))"

fun stage_walk :: "nat \<Rightarrow> string \<Rightarrow> int \<Rightarrow> StagedCall list \<Rightarrow> finding list" where
  "stage_walk loc blockName maxStageSeen [] = []"
| "stage_walk loc blockName maxStageSeen (c # cs) =
     (if sc_stage c < maxStageSeen then
        [counted_error loc
           (''fn block '' @ quoted blockName @ '': IR calls '' @ quoted (sc_name c) @ '' (stage ''
            @ show_int (sc_stage c) @ '') after a stage '' @ show_int maxStageSeen
            @ '' operation -- violates stage ordering'')] else [])
     @ stage_walk loc blockName (if sc_stage c > maxStageSeen then sc_stage c else maxStageSeen) cs"

definition check_stages ::
  "(string \<times> string) list \<Rightarrow> string \<Rightarrow> LogicBlock \<Rightarrow> ll_function \<Rightarrow> finding list" where
  "check_stages rev_map blockName block func =
     stage_walk (lb_location block) blockName (-1)
       (source_order (staged_calls rev_map (calleeStage blockName block) 0 (fn_insts func)))"

definition checkStageOrdering :: "SymbolTable \<Rightarrow> (string \<times> ll_function) list \<Rightarrow> finding list" where
  "checkStageOrdering st matched =
     concat (map (\<lambda>(blockName, block).
       if lb_stages block = [] then []
       else (case map_of matched blockName of
               None \<Rightarrow> []
             | Some func \<Rightarrow> check_stages (llvmToTopo matched) blockName block func)) (logicBlocks st))"

section \<open>Check 7: the terminal node of a pipeline\<close>

definition terminal_node :: "string \<Rightarrow> LogicBlock \<Rightarrow> string" where
  "terminal_node blockName block =
     (case find ed_isTerminal (lb_edges block) of
        None \<Rightarrow> [] | Some edge \<Rightarrow> ns_prefix blockName @ ed_source edge)"

definition last_pipeline_call :: "(string \<times> string) list \<Rightarrow> string list \<Rightarrow> ll_inst list \<Rightarrow> string" where
  "last_pipeline_call rev_map nodes insts =
     fold (\<lambda>inst lastCalled.
        case topo_callee rev_map inst of
          None \<Rightarrow> lastCalled | Some q \<Rightarrow> if q \<in> set nodes then q else lastCalled) insts []"

definition check_pipeline ::
  "(string \<times> string) list \<Rightarrow> string \<Rightarrow> LogicBlock \<Rightarrow> ll_function \<Rightarrow> finding list" where
  "check_pipeline rev_map blockName block func =
     (let terminalNode = terminal_node blockName block;
          lastCalled = last_pipeline_call rev_map (lb_calledFunctions block) (fn_insts func)
      in if lastCalled \<noteq> [] \<and> lastCalled \<noteq> terminalNode then
           [counted_error (lb_location block)
              (''pipeline '' @ quoted blockName @ '': terminal node '' @ quoted terminalNode
               @ '' should be the last called pipeline node, but '' @ quoted lastCalled @ '' is called after it'')]
         else [])"

definition checkPipelineEdges :: "SymbolTable \<Rightarrow> (string \<times> ll_function) list \<Rightarrow> finding list" where
  "checkPipelineEdges st matched =
     concat (map (\<lambda>(blockName, block).
       if \<not> lb_isPipeline block then []
       else if lb_edges block = [] then []
       else if terminal_node blockName block = [] then []
       else (case map_of matched blockName of
               None \<Rightarrow> []
             | Some func \<Rightarrow> check_pipeline (llvmToTopo matched) blockName block func)) (logicBlocks st))"

section \<open>Check 10: independence inside a stage\<close>

record IRCallInfo =
  ci_call :: ll_inst
  ci_topoName :: string
  ci_orderInBB :: nat

fun topo_calls :: "(string \<times> string) list \<Rightarrow> nat \<Rightarrow> ll_inst list \<Rightarrow> IRCallInfo list" where
  "topo_calls rev_map order [] = []"
| "topo_calls rev_map order (inst # insts) =
     (case called_function inst of
        None \<Rightarrow> topo_calls rev_map order insts
      | Some callee \<Rightarrow>
          (case map_of rev_map callee of
             None \<Rightarrow> topo_calls rev_map (Suc order) insts
           | Some q \<Rightarrow> \<lparr>ci_call = inst, ci_topoName = q, ci_orderInBB = order\<rparr>
                        # topo_calls rev_map (Suc order) insts))"

definition findTopoCallsInFunction :: "ll_function \<Rightarrow> (string \<times> string) list \<Rightarrow> IRCallInfo list" where
  "findTopoCallsInFunction func rev_map = topo_calls rev_map 0 (fn_insts func)"

definition add_stage_op :: "string \<Rightarrow> string \<times> int \<Rightarrow> (int \<times> string list) list \<Rightarrow> (int \<times> string list) list" where
  "add_stage_op nsPrefix e m =
     (case e of (callee, stage) \<Rightarrow>
        if length callee > 8 \<and> substr callee 0 8 = ''<assign:'' then m
        else AList.update stage ((case map_of m stage of None \<Rightarrow> [] | Some ops \<Rightarrow> ops) @ [nsPrefix @ callee]) m)"

definition stageOps :: "string \<Rightarrow> LogicBlock \<Rightarrow> (int \<times> string list) list" where
  "stageOps blockName block =
     fold (add_stage_op (ns_prefix blockName)) (zip (lb_calledFunctions block) (lb_stages block)) []"

text \<open>The pairs \<open>i < j\<close> in the order of the two loops, and the uses of a result as operands.\<close>

fun pairs :: "'a list \<Rightarrow> ('a \<times> 'a) list" where
  "pairs [] = []"
| "pairs (x # xs) = map (Pair x) xs @ pairs xs"

definition use_count :: "ll_inst \<Rightarrow> ll_inst \<Rightarrow> nat" where
  "use_count a b = length (filter (\<lambda>r. r = Result (in_id a)) (in_operands b))"

definition dependency_finding :: "nat \<Rightarrow> string \<Rightarrow> int \<Rightarrow> IRCallInfo \<Rightarrow> IRCallInfo \<Rightarrow> finding" where
  "dependency_finding loc blockName stage a b =
     counted_error loc
       (''fn block '' @ quoted blockName @ '': stage '' @ show_int stage @ '' operations ''
        @ quoted (ci_topoName a) @ '' and '' @ quoted (ci_topoName b)
        @ '' have direct data dependency -- return value of the former feeds the latter'')"

definition check_dependency :: "nat \<Rightarrow> string \<Rightarrow> int \<Rightarrow> IRCallInfo \<times> IRCallInfo \<Rightarrow> finding list" where
  "check_dependency loc blockName stage p =
     (case p of (a, b) \<Rightarrow>
        replicate (use_count (ci_call a) (ci_call b)) (dependency_finding loc blockName stage a b)
        @ replicate (use_count (ci_call b) (ci_call a)) (dependency_finding loc blockName stage b a))"

definition fn_globals :: "ll_function \<Rightarrow> string list" where
  "fn_globals func =
     List.map_filter (\<lambda>r. case r of Global g \<Rightarrow> Some g | _ \<Rightarrow> None) (concat (map in_operands (fn_insts func)))"

definition shared_global :: "ll_function \<Rightarrow> ll_function \<Rightarrow> string option" where
  "shared_global funcA funcB = find (\<lambda>g. g \<in> set (fn_globals funcA)) (fn_globals funcB)"

definition call_target :: "ll_module \<Rightarrow> IRCallInfo \<Rightarrow> ll_function option" where
  "call_target module c = Option.bind (called_function (ci_call c)) (getFunction module)"

definition check_globals ::
  "ll_module \<Rightarrow> nat \<Rightarrow> string \<Rightarrow> int \<Rightarrow> IRCallInfo \<times> IRCallInfo \<Rightarrow> finding list" where
  "check_globals module loc blockName stage p =
     (case p of (a, b) \<Rightarrow>
        (case (call_target module a, call_target module b) of
           (Some funcA, Some funcB) \<Rightarrow>
             if isDeclaration funcA \<or> isDeclaration funcB then []
             else
               (case shared_global funcA funcB of
                  None \<Rightarrow> []
                | Some g \<Rightarrow>
                    if \<not> fn_only_reads funcA \<or> \<not> fn_only_reads funcB then
                      [plain_warning loc
                         (''fn block '' @ quoted blockName @ '': stage '' @ show_int stage @ '' operations ''
                          @ quoted (ci_topoName a) @ '' and '' @ quoted (ci_topoName b)
                          @ '' both access global '' @ quoted g @ '' -- potential data race'')]
                    else [])
         | _ \<Rightarrow> []))"

definition stage_calls :: "string list \<Rightarrow> IRCallInfo list \<Rightarrow> IRCallInfo list" where
  "stage_calls ops irCalls = filter (\<lambda>call. ci_topoName call \<in> set ops) irCalls"

definition check_parallel_block ::
  "ll_module \<Rightarrow> (string \<times> string) list \<Rightarrow> string \<Rightarrow> LogicBlock \<Rightarrow> ll_function \<Rightarrow> finding list" where
  "check_parallel_block module rev_map blockName block func =
     (let irCalls = findTopoCallsInFunction func rev_map
      in concat (map (\<lambda>(stage, ops).
           if length ops < 2 then []
           else
             (let ps = pairs (stage_calls ops irCalls)
              in concat (map (check_dependency (lb_location block) blockName stage) ps)
                 @ concat (map (check_globals module (lb_location block) blockName stage) ps)))
           (stageOps blockName block)))"

definition checkStageParallelSafety ::
  "SymbolTable \<Rightarrow> ll_module \<Rightarrow> (string \<times> ll_function) list \<Rightarrow> finding list" where
  "checkStageParallelSafety st module matched =
     concat (map (\<lambda>(blockName, block).
       if lb_stages block = [] then []
       else if lb_isPipeline block then []
       else (case map_of matched blockName of
               None \<Rightarrow> []
             | Some func \<Rightarrow> check_parallel_block module (llvmToTopo matched) blockName block func))
       (logicBlocks st))"

section \<open>Lemmas\<close>

subsection \<open>The stage walk\<close>

lemma stage_walk_empty: "stage_walk loc b m cs = [] \<longleftrightarrow> sorted (m # map sc_stage cs)"
  by (induction loc b m cs rule: stage_walk.induct)
     (auto simp: not_less intro: order_trans less_imp_le)

lemma sorted_map_by_key:
  fixes k :: "'a \<Rightarrow> 'k::linorder" and f :: "'a \<Rightarrow> 'b::linorder"
  assumes "sorted (map k ys)" and "distinct (map k ys)"
  shows "sorted (map f ys) \<longleftrightarrow> (\<forall>a\<in>set ys. \<forall>b\<in>set ys. k a < k b \<longrightarrow> f a \<le> f b)"
  using assms
proof (induction ys)
  case (Cons y ys)
  then have less: "k y < k z" if "z \<in> set ys" for z
    using that by (auto simp: order_less_le image_iff)
  from Cons have IH: "sorted (map f ys) \<longleftrightarrow> (\<forall>a\<in>set ys. \<forall>b\<in>set ys. k a < k b \<longrightarrow> f a \<le> f b)" by simp
  show ?case
  proof
    assume "sorted (map f (y # ys))"
    then show "\<forall>a\<in>set (y # ys). \<forall>b\<in>set (y # ys). k a < k b \<longrightarrow> f a \<le> f b"
      using IH less by (auto dest: order_less_asym)
  next
    assume *: "\<forall>a\<in>set (y # ys). \<forall>b\<in>set (y # ys). k a < k b \<longrightarrow> f a \<le> f b"
    then have "sorted (map f ys)" using IH by simp
    moreover have "\<forall>z\<in>set ys. f y \<le> f z" using * less by simp
    ultimately show "sorted (map f (y # ys))" by simp
  qed
qed simp

abbreviation sc_key :: "StagedCall \<Rightarrow> nat \<times> nat \<times> nat" where
  "sc_key c \<equiv> (sc_line c, sc_col c, sc_emitIdx c)"

abbreviation sc_pos :: "StagedCall \<Rightarrow> nat \<times> nat" where
  "sc_pos c \<equiv> (sc_line c, sc_col c)"

abbreviation strip_idx :: "StagedCall \<Rightarrow> StagedCall" where
  "strip_idx c \<equiv> c \<lparr>sc_emitIdx := 0\<rparr>"

lemma staged_calls_idx:
  "\<forall>c\<in>set (staged_calls r s n is). n \<le> sc_emitIdx c"
  "distinct (map sc_emitIdx (staged_calls r s n is))"
proof -
  have "(\<forall>c\<in>set (staged_calls r s n is). n \<le> sc_emitIdx c) \<and> distinct (map sc_emitIdx (staged_calls r s n is))"
  proof (induction r s n "is" rule: staged_calls.induct)
    case (2 r s n i "is")
    show ?case
    proof (cases "Option.bind (topo_callee r i) (map_of s)")
      case None
      with 2 show ?thesis by (cases "topo_callee r i") auto
    next
      case (Some st)
      then obtain q where q: "topo_callee r i = Some q" "map_of s q = Some st"
        by (cases "topo_callee r i") auto
      with 2(3) have IH: "\<forall>c\<in>set (staged_calls r s (Suc n) is). Suc n \<le> sc_emitIdx c"
        "distinct (map sc_emitIdx (staged_calls r s (Suc n) is))" by simp_all
      then have "n \<notin> sc_emitIdx ` set (staged_calls r s (Suc n) is)"
        by (force dest: bspec)
      with q IH show ?thesis by (auto dest: Suc_leD)
    qed
  qed simp
  then show "\<forall>c\<in>set (staged_calls r s n is). n \<le> sc_emitIdx c"
    "distinct (map sc_emitIdx (staged_calls r s n is))" by simp_all
qed

lemma distinct_sc_key: "distinct (map sc_emitIdx cs) \<Longrightarrow> distinct (map sc_key cs)"
  by (auto simp: distinct_map inj_on_def)

lemma source_order_sorted [simp]: "sorted (map sc_key (source_order cs))"
  by (simp add: source_order_def)

lemma mset_source_order [simp]: "mset (source_order cs) = mset cs"
  by (simp add: source_order_def)

lemma set_source_order [simp]: "set (source_order cs) = set cs"
  by (simp add: source_order_def)

lemma sorted_source_order_stages:
  assumes "distinct (map sc_emitIdx cs)"
  shows "sorted (map sc_stage (source_order cs)) \<longleftrightarrow>
     (\<forall>a\<in>set cs. \<forall>b\<in>set cs. sc_key a < sc_key b \<longrightarrow> sc_stage a \<le> sc_stage b)"
proof -
  have e: "mset (map sc_key (source_order cs)) = mset (map sc_key cs)"
    by (simp only: mset_map mset_source_order)
  have "distinct (map sc_key (source_order cs))"
    using distinct_sc_key [OF assms] mset_eq_imp_distinct_iff [OF e] by blast
  from sorted_map_by_key [OF source_order_sorted this, of sc_stage] show ?thesis
    by (simp only: set_source_order)
qed

definition stages_respected :: "StagedCall list \<Rightarrow> bool" where
  "stages_respected cs \<longleftrightarrow>
     (\<forall>c\<in>set cs. -1 \<le> sc_stage c) \<and>
     (\<forall>a\<in>set cs. \<forall>b\<in>set cs. sc_key a < sc_key b \<longrightarrow> sc_stage a \<le> sc_stage b)"

lemma check_stages_empty:
  "check_stages rev_map blockName block func = [] \<longleftrightarrow>
     stages_respected (staged_calls rev_map (calleeStage blockName block) 0 (fn_insts func))"
  unfolding check_stages_def stage_walk_empty stages_respected_def
  using sorted_source_order_stages [OF staged_calls_idx(2)] by simp

subsection \<open>The walk does not depend on the emission order\<close>

lemma stage_walk_strip:
  "map strip_idx cs = map strip_idx ds \<Longrightarrow> stage_walk loc b m cs = stage_walk loc b m ds"
proof (induction cs arbitrary: m ds)
  case (Cons c cs)
  then obtain d ds' where d: "ds = d # ds'" "strip_idx c = strip_idx d" "map strip_idx cs = map strip_idx ds'"
    by (cases ds) auto
  from d(2) have "sc_stage c = sc_stage d" "sc_name c = sc_name d"
    by (metis StagedCall.select_convs StagedCall.surjective StagedCall.update_convs(3))+
  with d Cons.IH [OF d(3)] show ?case by simp
qed simp

definition staged_inst :: "(string \<times> string) list \<Rightarrow> (string \<times> int) list \<Rightarrow> ll_inst \<Rightarrow> StagedCall option" where
  "staged_inst r s i =
     Option.bind (topo_callee r i) (\<lambda>q. map_option (\<lambda>stage.
       \<lparr>sc_line = fst (source_pos i), sc_col = snd (source_pos i), sc_emitIdx = 0, sc_stage = stage, sc_name = q\<rparr>)
       (map_of s q))"

lemma staged_calls_strip:
  "map strip_idx (staged_calls r s n is) = List.map_filter (staged_inst r s) is"
  by (induction r s n "is" rule: staged_calls.induct)
     (auto simp: staged_inst_def map_filter_simps split: option.splits)

lemma mset_map_filter_cong: "mset xs = mset ys \<Longrightarrow> mset (List.map_filter f xs) = mset (List.map_filter f ys)"
  by (simp add: List.map_filter_def)

lemma source_order_unique:
  assumes m: "mset (map strip_idx cs) = mset (map strip_idx ds)"
    and d: "distinct (map sc_pos cs)"
  shows "map strip_idx (source_order cs) = map strip_idx (source_order ds)"
proof -
  have pos: "sc_pos (strip_idx c) = sc_pos c" for c by simp
  have srt: "sorted (map sc_pos (map strip_idx (source_order es)))" for es
  proof -
    have "sorted (map sc_pos (source_order es))"
      using source_order_sorted [of es]
      by (auto simp: sorted_map intro: sorted_wrt_mono_rel [rotated])
    then show ?thesis by (simp add: o_def)
  qed
  have dis: "distinct (map sc_pos (map strip_idx (source_order es)))"
    if "mset (map sc_pos es) = mset (map sc_pos cs)" for es
  proof -
    have e: "mset (map sc_pos (map strip_idx (source_order es))) = mset (map sc_pos cs)"
      using that by (simp add: o_def)
    show ?thesis using d mset_eq_imp_distinct_iff [OF e] by blast
  qed
  have "mset (map sc_pos (map strip_idx ds)) = mset (map sc_pos (map strip_idx cs))"
    using m by (metis mset_map)
  then have e: "mset (map sc_pos ds) = mset (map sc_pos cs)" by (simp add: o_def)
  have s: "set (map strip_idx (source_order cs)) = set (map strip_idx (source_order ds))"
    using m by (metis mset_eq_setD set_map set_source_order)
  show ?thesis
  proof (rule map_sorted_distinct_set_unique [OF _ srt dis srt dis s])
    show "inj_on sc_pos (set (map strip_idx (source_order cs)) \<union> set (map strip_idx (source_order ds)))"
      using dis [OF refl] unfolding s Un_absorb by (metis distinct_map s)
  qed (use e in simp_all)
qed

lemma check_stages_emission:
  assumes "mset (fn_insts f) = mset (fn_insts g)"
    and "distinct (map sc_pos (staged_calls rev_map (calleeStage blockName block) 0 (fn_insts f)))"
  shows "check_stages rev_map blockName block f = check_stages rev_map blockName block g"
  unfolding check_stages_def
  by (intro stage_walk_strip source_order_unique)
     (simp_all only: staged_calls_strip mset_map_filter_cong [OF assms(1)] assms(2))

subsection \<open>Pairs of calls\<close>

lemma set_pairs: "(a, b) \<in> set (pairs xs) \<longleftrightarrow> (\<exists>i j. i < j \<and> j < length xs \<and> a = xs ! i \<and> b = xs ! j)"
proof (induction xs)
  case (Cons x xs)
  show ?case
  proof
    assume "(a, b) \<in> set (pairs (x # xs))"
    then consider "a = x" "b \<in> set xs" | "(a, b) \<in> set (pairs xs)" by auto
    then show "\<exists>i j. i < j \<and> j < length (x # xs) \<and> a = (x # xs) ! i \<and> b = (x # xs) ! j"
    proof cases
      case 1
      then obtain k where "k < length xs" "b = xs ! k" by (auto simp: in_set_conv_nth)
      with 1 show ?thesis by (intro exI [of _ 0] exI [of _ "Suc k"]) simp
    next
      case 2
      with Cons obtain i j where "i < j" "j < length xs" "a = xs ! i" "b = xs ! j" by auto
      then show ?thesis by (intro exI [of _ "Suc i"] exI [of _ "Suc j"]) simp
    qed
  next
    assume "\<exists>i j. i < j \<and> j < length (x # xs) \<and> a = (x # xs) ! i \<and> b = (x # xs) ! j"
    then obtain i j where ij: "i < j" "j < length (x # xs)" "a = (x # xs) ! i" "b = (x # xs) ! j" by blast
    show "(a, b) \<in> set (pairs (x # xs))"
    proof (cases i)
      case 0
      with ij show ?thesis by (cases j) auto
    next
      case (Suc i')
      with ij obtain j' where "j = Suc j'" by (cases j) auto
      with ij Suc Cons show ?thesis by auto
    qed
  qed
qed simp

definition independent_results :: "IRCallInfo \<Rightarrow> IRCallInfo \<Rightarrow> bool" where
  "independent_results a b \<longleftrightarrow>
     Result (in_id (ci_call a)) \<notin> set (in_operands (ci_call b)) \<and>
     Result (in_id (ci_call b)) \<notin> set (in_operands (ci_call a))"

definition independent_globals :: "ll_module \<Rightarrow> IRCallInfo \<Rightarrow> IRCallInfo \<Rightarrow> bool" where
  "independent_globals module a b \<longleftrightarrow>
     (\<forall>f g. call_target module a = Some f \<and> call_target module b = Some g \<longrightarrow>
        set (fn_globals f) \<inter> set (fn_globals g) = {} \<or> (fn_only_reads f \<and> fn_only_reads g))"

lemma use_count_zero: "use_count a b = 0 \<longleftrightarrow> Result (in_id a) \<notin> set (in_operands b)"
  by (auto simp: use_count_def filter_empty_conv)

lemma check_dependency_empty:
  "check_dependency loc blockName stage (a, b) = [] \<longleftrightarrow> independent_results a b"
  by (auto simp: check_dependency_def independent_results_def use_count_zero)

lemma fn_globals_declaration: "isDeclaration f \<Longrightarrow> fn_globals f = []"
  by (simp add: isDeclaration_def fn_globals_def fn_insts_def List.map_filter_def)

lemma check_globals_empty:
  "check_globals module loc blockName stage (a, b) = [] \<longleftrightarrow> independent_globals module a b"
proof (cases "call_target module a")
  case (Some f)
  show ?thesis
  proof (cases "call_target module b")
    case g: (Some g)
    show ?thesis
    proof (cases "shared_global f g")
      case None
      then have "set (fn_globals f) \<inter> set (fn_globals g) = {}"
        by (auto simp: shared_global_def find_None_iff)
      with None Some g show ?thesis by (simp add: check_globals_def independent_globals_def)
    next
      case (Some x)
      then have x: "x \<in> set (fn_globals f)" "x \<in> set (fn_globals g)"
        by (auto simp: shared_global_def find_Some_iff)
      then have "\<not> isDeclaration f" "\<not> isDeclaration g"
        using fn_globals_declaration by fastforce+
      with Some x \<open>call_target module a = Some f\<close> g show ?thesis
        by (auto simp: check_globals_def independent_globals_def)
    qed
  qed (simp add: Some check_globals_def independent_globals_def)
qed (simp add: check_globals_def independent_globals_def)

definition stage_independent :: "ll_module \<Rightarrow> IRCallInfo list \<Rightarrow> bool" where
  "stage_independent module cs \<longleftrightarrow>
     (\<forall>j<length cs. \<forall>i<j. independent_results (cs ! i) (cs ! j) \<and> independent_globals module (cs ! i) (cs ! j))"

lemma pairs_all:
  "(\<forall>p\<in>set (pairs cs). P p) \<longleftrightarrow> (\<forall>j<length cs. \<forall>i<j. P (cs ! i, cs ! j))"
proof
  assume l: "\<forall>p\<in>set (pairs cs). P p"
  show "\<forall>j<length cs. \<forall>i<j. P (cs ! i, cs ! j)"
    using l set_pairs [of _ _ cs] by blast
next
  assume r: "\<forall>j<length cs. \<forall>i<j. P (cs ! i, cs ! j)"
  show "\<forall>p\<in>set (pairs cs). P p"
  proof
    fix p assume "p \<in> set (pairs cs)"
    moreover obtain a b where "p = (a, b)" by (cases p)
    ultimately show "P p" using r set_pairs [of a b cs] by blast
  qed
qed

lemma check_parallel_block_empty:
  "check_parallel_block module rev_map blockName block func = [] \<longleftrightarrow>
     (\<forall>(stage, ops)\<in>set (stageOps blockName block). 2 \<le> length ops \<longrightarrow>
        stage_independent module (stage_calls ops (findTopoCallsInFunction func rev_map)))"
proof -
  have "concat (map (check_dependency loc blockName stage) (pairs cs))
      @ concat (map (check_globals module loc blockName stage) (pairs cs)) = [] \<longleftrightarrow> stage_independent module cs"
    for loc stage cs
    unfolding append_is_Nil_conv concat_eq_Nil_conv set_map ball_simps pairs_all
    by (auto simp: check_dependency_empty check_globals_empty stage_independent_def)
  then show ?thesis
    unfolding check_parallel_block_def Let_def concat_eq_Nil_conv set_map ball_simps
    by (intro ball_cong refl) (simp add: split_beta)
qed

text \<open>The operations a block declares for a stage, in declaration order.\<close>

definition declared_in_stage :: "string \<Rightarrow> LogicBlock \<Rightarrow> int \<Rightarrow> string list" where
  "declared_in_stage blockName block stage =
     map (\<lambda>(callee, _). ns_prefix blockName @ callee)
       (filter (\<lambda>(callee, s). s = stage \<and> \<not> (length callee > 8 \<and> take 8 callee = ''<assign:''))
         (zip (lb_calledFunctions block) (lb_stages block)))"

lemma add_stage_op_fold:
  "amap_ok m \<Longrightarrow>
   amap_ok (fold (add_stage_op ns) es m) \<and>
   (let ops = map (\<lambda>(callee, _). ns @ callee)
        (filter (\<lambda>(callee, s). s = stage \<and> \<not> (length callee > 8 \<and> take 8 callee = ''<assign:'')) es)
    in map_of (fold (add_stage_op ns) es m) stage =
       (case map_of m stage of None \<Rightarrow> if ops = [] then None else Some ops | Some ops0 \<Rightarrow> Some (ops0 @ ops)))"
proof (induction es arbitrary: m)
  case Nil
  then show ?case by (simp split: option.split)
next
  case (Cons e es)
  obtain callee s where e: "e = (callee, s)" by (cases e)
  have "amap_ok (add_stage_op ns e m)" using Cons.prems by (simp add: add_stage_op_def e)
  from Cons.IH [OF this] show ?case
    by (auto simp: add_stage_op_def e Let_def amap_simps split: option.splits)
qed

lemma set_stageOps:
  "(stage, ops) \<in> set (stageOps blockName block) \<longleftrightarrow>
     ops = declared_in_stage blockName block stage \<and> ops \<noteq> []"
  using add_stage_op_fold [OF amap_ok_Nil, of "ns_prefix blockName"
    "zip (lb_calledFunctions block) (lb_stages block)" stage]
  by (auto simp: stageOps_def declared_in_stage_def Let_def amap_ok_map_of)

section \<open>What the checks decide\<close>

text \<open>C11. Check 6 reports nothing exactly when, in every block with stages and a function, each staged
call has a stage of at least -1 and no call stands in the source (by line, column, then emission)
before a call of a lower stage.\<close>

theorem stage_order_decides:
  "checkStageOrdering st matched = [] \<longleftrightarrow>
     (\<forall>(blockName, block) \<in> set (logicBlocks st). \<forall>func.
        lb_stages block \<noteq> [] \<and> map_of matched blockName = Some func \<longrightarrow>
        stages_respected
          (staged_calls (llvmToTopo matched) (calleeStage blockName block) 0 (fn_insts func)))"
  unfolding checkStageOrdering_def concat_eq_Nil_conv set_map ball_simps
  by (intro ball_cong refl) (simp add: split_beta check_stages_empty split: option.split)

text \<open>The sample: \<open>sum(scale(), negate())\<close> emitted right to left.\<close>

definition example_matched :: "ll_inst list \<Rightarrow> (string \<times> ll_function) list" where
  "example_matched is =
     [(''run'', example_function ''_run'' is), (''scale'', example_function ''_scale'' []),
      (''negate'', example_function ''_negate'' [])]"

definition example_staged :: "ll_inst list" where
  "example_staged =
     [example_call 0 ''_negate'' (Some (3, 20)) [], example_call 1 ''_scale'' (Some (3, 10)) []]"

definition example_stage_table :: SymbolTable where
  "example_stage_table =
     empty_table \<lparr>logicBlocks := [(''run'', example_block [''scale'', ''negate''] [0, 1])]\<rparr>"

theorem stage_order_decides_witness:
  "stages_respected (staged_calls (llvmToTopo (example_matched example_staged))
     (calleeStage ''run'' (example_block [''scale'', ''negate''] [0, 1])) 0 example_staged)"
proof -
  have "checkStageOrdering example_stage_table (example_matched example_staged) = []"
    by code_simp
  from this [unfolded stage_order_decides] show ?thesis
    by (simp add: example_stage_table_def empty_table_def example_block_def example_matched_def
        example_function_def fn_insts_def)
qed

text \<open>C3. Two functions whose instructions are the same in another order, with their staged calls at
different source positions, get the same findings, messages and order included: the check does not
see the order a compiler emits the arguments of a call in.\<close>

theorem stage_order_emission_independent:
  assumes "mset (fn_insts f) = mset (fn_insts g)"
    and "distinct (map sc_pos (staged_calls rev_map (calleeStage blockName block) 0 (fn_insts f)))"
  shows "check_stages rev_map blockName block f = check_stages rev_map blockName block g"
  by (rule check_stages_emission [OF assms])

theorem stage_order_emission_independent_witness:
  "check_stages (llvmToTopo (example_matched [])) ''run'' (example_block [''scale'', ''negate''] [0, 1])
     (example_function ''_run'' example_staged) =
   check_stages (llvmToTopo (example_matched [])) ''run'' (example_block [''scale'', ''negate''] [0, 1])
     (example_function ''_run'' (rev example_staged))"
proof (rule stage_order_emission_independent)
  show "mset (fn_insts (example_function ''_run'' example_staged)) =
      mset (fn_insts (example_function ''_run'' (rev example_staged)))"
    by (simp add: fn_insts_def example_function_def)
  show "distinct (map sc_pos (staged_calls (llvmToTopo (example_matched []))
      (calleeStage ''run'' (example_block [''scale'', ''negate''] [0, 1])) 0
      (fn_insts (example_function ''_run'' example_staged))))"
    by code_simp
qed

text \<open>C6. Check 10 reports nothing exactly when, in every block with stages that is no pipeline and has a
function, the calls of each stage with two or more declared operations are pairwise independent:
neither uses the other's result as an operand, and the two functions name no common global
variable unless both only read.\<close>

theorem stage_parallel_decides:
  "checkStageParallelSafety st module matched = [] \<longleftrightarrow>
     (\<forall>(blockName, block) \<in> set (logicBlocks st). \<forall>func stage.
        lb_stages block \<noteq> [] \<and> \<not> lb_isPipeline block \<and> map_of matched blockName = Some func \<and>
        2 \<le> length (declared_in_stage blockName block stage) \<longrightarrow>
        stage_independent module
          (stage_calls (declared_in_stage blockName block stage)
            (findTopoCallsInFunction func (llvmToTopo matched))))"
proof -
  have e: "(\<forall>(stage, ops)\<in>set (stageOps blockName block). 2 \<le> length ops \<longrightarrow> P ops) \<longleftrightarrow>
      (\<forall>stage. 2 \<le> length (declared_in_stage blockName block stage) \<longrightarrow>
         P (declared_in_stage blockName block stage))" for blockName block P
  proof -
    have "(\<forall>(stage, ops)\<in>set (stageOps blockName block). 2 \<le> length ops \<longrightarrow> P ops) \<longleftrightarrow>
        (\<forall>stage ops. (stage, ops) \<in> set (stageOps blockName block) \<longrightarrow> 2 \<le> length ops \<longrightarrow> P ops)"
      by blast
    also have "\<dots> \<longleftrightarrow> (\<forall>stage. 2 \<le> length (declared_in_stage blockName block stage) \<longrightarrow>
         P (declared_in_stage blockName block stage))"
      unfolding set_stageOps by (metis list.size(3) not_numeral_le_zero)
    finally show ?thesis .
  qed
  show ?thesis
    unfolding checkStageParallelSafety_def concat_eq_Nil_conv set_map ball_simps
    by (intro ball_cong refl) (simp add: split_beta check_parallel_block_empty [unfolded e] split: option.split)
qed

theorem stage_parallel_decides_witness:
  "\<not> stage_independent []
     (stage_calls [''scale'', ''negate'']
       (findTopoCallsInFunction
         (example_function ''_run''
           [example_call 0 ''_scale'' None [], example_call 1 ''_negate'' None [Result 0]])
         (llvmToTopo (example_matched []))))"
proof -
  define dep where "dep = [example_call 0 ''_scale'' None [], example_call 1 ''_negate'' None [Result 0]]"
  let ?st = "empty_table \<lparr>logicBlocks := [(''run'', example_block [''scale'', ''negate''] [1, 1])]\<rparr>"
  have rev_map: "llvmToTopo (example_matched dep) = llvmToTopo (example_matched [])"
    by (simp add: example_matched_def llvmToTopo_def example_function_def)
  have run: "map_of (example_matched dep) ''run'' = Some (example_function ''_run'' dep)"
    by (simp add: example_matched_def)
  have ops: "declared_in_stage ''run'' (example_block [''scale'', ''negate''] [1, 1]) s =
      (if s = 1 then [''scale'', ''negate''] else [])" for s
    by (simp add: declared_in_stage_def example_block_def ns_prefix_def starts_with_def)
  have "checkStageParallelSafety ?st [] (example_matched dep) = []"
    if "stage_independent []
     (stage_calls [''scale'', ''negate'']
       (findTopoCallsInFunction (example_function ''_run'' dep) (llvmToTopo (example_matched []))))"
    using that unfolding stage_parallel_decides by (simp add: empty_table_def run ops rev_map)
  moreover have "total_count (checkStageParallelSafety ?st [] (example_matched dep)) = 1"
    unfolding dep_def by code_simp
  ultimately show ?thesis unfolding dep_def by force
qed

end
