(* ===== verification/VerifierTemplates.thy ===== *)
theory VerifierTemplates
  imports VerifierModel "HOL-Library.Transitive_Closure_Table"
begin

text \<open>
  lib/Backend/Verifier.cpp, the checks on templates: every \<open>instantiate\<close> has a symbol in the module
  (check 8) and the constraints of its parameters are adapted by functions that exist (check 9), with
  the helpers that spell a Topo type as the demangler does and collect inherited constraint members.
  The lemmas show that collecting ends on cyclic inheritance and yields the members of all
  ancestors, and where the spelling of a type and the demangler's do not meet.
\<close>

section \<open>Type names\<close>

definition canonicalizeTypeName :: "string \<Rightarrow> string" where
  "canonicalizeTypeName name =
     (case map_of
        [(''int32_t'', ''int''), (''uint32_t'', ''unsigned int''), (''int64_t'', ''long''),
         (''uint64_t'', ''unsigned long''), (''int16_t'', ''short''), (''uint16_t'', ''unsigned short''),
         (''int8_t'', ''signed char''), (''uint8_t'', ''unsigned char''), (''size_t'', ''unsigned long''),
         (''float32_t'', ''float''), (''float64_t'', ''double'')] name of
        None \<Rightarrow> name | Some c \<Rightarrow> c)"

definition basic_type_name :: "string \<Rightarrow> string option" where
  "basic_type_name name =
     map_of
       [(''Int'', ''int''), (''int'', ''int''), (''Bool'', ''bool''), (''bool'', ''bool''),
        (''Char'', ''char''), (''char'', ''char''), (''Float'', ''float''), (''float'', ''float''),
        (''Double'', ''double''), (''double'', ''double''), (''String'', ''std::string''),
        (''Int8'', ''int8_t''), (''int8'', ''int8_t''), (''Int16'', ''int16_t''), (''int16'', ''int16_t''),
        (''Int32'', ''int32_t''), (''int32'', ''int32_t''), (''Int64'', ''int64_t''), (''int64'', ''int64_t'')] name"

definition join_seps :: "string list \<Rightarrow> string" where
  "join_seps ps = concat (case ps of [] \<Rightarrow> [] | p # ps \<Rightarrow> p # map (append sep) ps)"

partial_function (option) resolveTopoTypeName :: "SymbolTable \<Rightarrow> TypeNode \<Rightarrow> string option" where
  "resolveTopoTypeName st t =
     (if nameParts t = [] then Some []
      else
        (let name = last (nameParts t);
             rest =
               (case basic_type_name name of
                  Some b \<Rightarrow> Some b
                | None \<Rightarrow>
                    if length (nameParts t) > 1 then
                      (if canonicalizeTypeName name \<noteq> name then Some (canonicalizeTypeName name)
                       else Some (join_seps (nameParts t)))
                    else Some (canonicalizeTypeName name))
         in case findTypeAlias st name of
              None \<Rightarrow> rest
            | Some target \<Rightarrow>
                if nameParts target = [] then None
                else if last (nameParts target) \<noteq> name then resolveTopoTypeName st target
                else rest))"

declare resolveTopoTypeName.simps [simp del]

text \<open>The scan of \<open>normalizeTemplateArgs\<close> from position \<open>i\<close>: the rest of the name.\<close>

function normalizeTemplateArgs :: "string \<Rightarrow> string" where
  "normalizeTemplateArgs [] = []"
| "normalizeTemplateArgs (c # cs) =
     (if c = CHR ''<'' \<or> c = CHR '','' then
        (let start = dropWhile (\<lambda>x. x = CHR '' '') cs;
             in_token = (\<lambda>x. x \<noteq> CHR '','' \<and> x \<noteq> CHR ''>'' \<and> x \<noteq> CHR ''<'' \<and> x \<noteq> CHR '' '');
             token = takeWhile in_token start;
             rest = dropWhile (\<lambda>x. x = CHR '' '') (dropWhile in_token start)
         in c # (if token \<noteq> [] then canonicalizeTypeName token else []) @ normalizeTemplateArgs rest)
      else c # normalizeTemplateArgs cs)"
  by pat_completeness auto

termination
proof (relation "measure length", goal_cases)
  case (2 c cs start in_token token rest)
  have "length rest \<le> length cs"
    unfolding 2 by (meson length_dropWhile_le order_trans)
  then show ?case by simp
qed auto

section \<open>Check 8: template instantiations\<close>

fun comma_args :: "string list \<Rightarrow> string" where
  "comma_args [] = []"
| "comma_args [a] = a"
| "comma_args (a # as) = a @ '', '' @ comma_args as"

definition template_arg_string :: "SymbolTable \<Rightarrow> TypeNode \<Rightarrow> string option" where
  "template_arg_string st t =
     (if templateArgs t = [] then Some []
      else map_option (\<lambda>args. ''<'' @ comma_args args @ ''>'') (those (map (resolveTopoTypeName st) (templateArgs t))))"

definition instantiate_prefix :: "string \<Rightarrow> string" where
  "instantiate_prefix qualifiedName =
     (let beforeArgs = (case str_find ''<'' qualifiedName of
                          None \<Rightarrow> qualifiedName | Some angleBracket \<Rightarrow> substr qualifiedName 0 angleBracket)
      in ns_prefix beforeArgs)"

definition strict_prefix :: "string \<Rightarrow> string \<Rightarrow> bool" where
  "strict_prefix p s \<longleftrightarrow> length s > length p \<and> starts_with p s"

definition strict_suffix :: "string \<Rightarrow> string \<Rightarrow> bool" where
  "strict_suffix p s \<longleftrightarrow> length s > length p \<and> ends_with p s"

text \<open>Strategies 3 and 5 compare a name without its namespace: equal, a suffix, or a class prefix anywhere.\<close>

definition matches_short :: "string \<Rightarrow> string \<Rightarrow> bool" where
  "matches_short shortName dname \<longleftrightarrow>
     dname = shortName \<or> strict_suffix (sep @ shortName) dname \<or> contains (shortName @ sep) dname"

definition instantiation_found :: "string list \<Rightarrow> string \<Rightarrow> string \<Rightarrow> bool" where
  "instantiation_found dnames nsPrefix shortName \<longleftrightarrow>
     (let expectedFull = nsPrefix @ shortName;
          normalized = normalizeTemplateArgs expectedFull
      in list_ex (\<lambda>d. d = expectedFull) dnames
       \<or> list_ex (strict_prefix (expectedFull @ sep)) dnames
       \<or> (nsPrefix \<noteq> [] \<and> list_ex (matches_short shortName) dnames)
       \<or> list_ex (\<lambda>d. normalizeTemplateArgs d = normalized
            \<or> strict_prefix (normalized @ sep) (normalizeTemplateArgs d)) dnames
       \<or> (nsPrefix \<noteq> [] \<and>
          list_ex (\<lambda>d. matches_short (normalizeTemplateArgs shortName) (normalizeTemplateArgs d)) dnames))"

definition check_instantiate :: "SymbolTable \<Rightarrow> string list \<Rightarrow> Instantiate \<Rightarrow> finding list option" where
  "check_instantiate st dnames inst =
     (if nameParts (it_type inst) = [] then Some []
      else
        (case template_arg_string st (it_type inst) of
           None \<Rightarrow> None
         | Some templateArgStr \<Rightarrow>
             (let shortName = last (nameParts (it_type inst)) @ templateArgStr;
                  nsPrefix = instantiate_prefix (it_qualifiedName inst)
              in Some (if instantiation_found dnames nsPrefix shortName then []
                   else [counted_error (it_location inst)
                     (''instantiate '' @ quoted (it_qualifiedName inst)
                      @ '' -- no matching instantiation found in IR (expected '' @ quoted (nsPrefix @ shortName)
                      @ '' or member prefix)'')]))))"

definition checkTemplateInstantiations :: "SymbolTable \<Rightarrow> string list \<Rightarrow> finding list option" where
  "checkTemplateInstantiations st dnames = concat_opt (map (check_instantiate st dnames) (instantiates st))"

section \<open>Check 9: constraints\<close>

function collect_members :: "SymbolTable \<Rightarrow> string \<Rightarrow> string list \<Rightarrow> string list" where
  "collect_members st current visited =
     (if current = [] \<or> current \<in> set visited then []
      else
        (case findConstraintSymbol st current of
           None \<Rightarrow> []
         | Some cs \<Rightarrow>
             ct_members cs
             @ collect_members st (case ct_parent cs of None \<Rightarrow> [] | Some p \<Rightarrow> p) (current # visited)))"
  by pat_completeness auto

termination
proof (relation "measure (\<lambda>(st, current, visited). card (fst ` set (constraintSymbols st) - set visited))",
    goal_cases)
  case (2 st current visited cs)
  then have "current \<in> fst ` set (constraintSymbols st) - set visited"
    by (auto simp: findConstraintSymbol_def dest!: map_of_SomeD intro: rev_image_eqI)
  moreover have "fst ` set (constraintSymbols st) - set (current # visited) =
      (fst ` set (constraintSymbols st) - set visited) - {current}" by auto
  ultimately show ?case
    using card_Diff1_less [of "fst ` set (constraintSymbols st) - set visited" current]
    by (simp del: set_simps card_Diff_insert)
qed auto

declare collect_members.simps [simp del]

definition collectConstraintMembers :: "SymbolTable \<Rightarrow> string \<Rightarrow> string list" where
  "collectConstraintMembers st constraintName = collect_members st constraintName []"

definition template_params_of :: "SymbolTable \<Rightarrow> string \<Rightarrow> TemplateParamDecl list option" where
  "template_params_of st typeName =
     (case find (\<lambda>(qname, cs). cs_simpleName cs = typeName \<and> cs_templateParams cs \<noteq> []) (classSymbols st) of
        Some (qname, cls) \<Rightarrow> Some (cs_templateParams cls)
      | None \<Rightarrow>
          (case find (\<lambda>(qname, fs). fs_simpleName fs = typeName \<and> fs_templateParams fs \<noteq> []) (st_functions st) of
             Some (qname, funcTmpl) \<Rightarrow> Some (fs_templateParams funcTmpl)
           | None \<Rightarrow> None))"

fun matching_adapt :: "SymbolTable \<Rightarrow> string \<Rightarrow> AdaptEntry list \<Rightarrow> AdaptEntry option option" where
  "matching_adapt st actual [] = Some None"
| "matching_adapt st actual (a # as) =
     (case resolveTopoTypeName st (ad_targetType a) of
        None \<Rightarrow> None
      | Some adaptTarget \<Rightarrow> if adaptTarget = actual then Some (Some a) else matching_adapt st actual as)"

definition target_found :: "string list \<Rightarrow> string list \<Rightarrow> string \<Rightarrow> bool" where
  "target_found dnames matchedNames targetName \<longleftrightarrow>
     list_ex (\<lambda>d. d = targetName \<or> contains (sep @ targetName) d) dnames
     \<or> list_ex (\<lambda>n. n = targetName \<or> contains (sep @ targetName) n) matchedNames"

definition check_adapt :: "string list \<Rightarrow> string list \<Rightarrow> string \<Rightarrow> AdaptEntry \<Rightarrow> finding list" where
  "check_adapt dnames matchedNames actualTypeName a =
     map (\<lambda>t. counted_error (ad_location a)
            (''adapt '' @ quoted (ad_constraintName a) @ '' for '' @ quoted actualTypeName
             @ '': mapping target '' @ quoted t @ '' not found in IR''))
       (filter (\<lambda>t. \<not> target_found dnames matchedNames t) (ad_targetNames a))"

definition check_constraint ::
  "SymbolTable \<Rightarrow> string list \<Rightarrow> string list \<Rightarrow> Instantiate \<Rightarrow> TemplateParamDecl \<times> TypeNode \<Rightarrow> finding list option" where
  "check_constraint st dnames matchedNames inst p =
     (case p of (param, actualArg) \<Rightarrow>
        if \<not> tp_isTypeParam param then Some []
        else if nameParts (tp_constraintType param) = [] then Some []
        else
          (let constraintName = hd (nameParts (tp_constraintType param))
           in case resolveTopoTypeName st actualArg of
                None \<Rightarrow> None
              | Some actualTypeName \<Rightarrow>
                  if collectConstraintMembers st constraintName = [] then Some []
                  else
                    (case matching_adapt st actualTypeName (findAdaptsForConstraint st constraintName) of
                       None \<Rightarrow> None
                     | Some None \<Rightarrow>
                         Some [plain_warning (it_location inst)
                           (''instantiate '' @ quoted (it_qualifiedName inst) @ '': type argument ''
                            @ quoted (tn_toString st actualArg) @ '' has no adapt for constraint ''
                            @ quoted constraintName)]
                     | Some (Some a) \<Rightarrow> Some (check_adapt dnames matchedNames actualTypeName a))))"

definition check_instantiate_constraints ::
  "SymbolTable \<Rightarrow> string list \<Rightarrow> string list \<Rightarrow> Instantiate \<Rightarrow> finding list option" where
  "check_instantiate_constraints st dnames matchedNames inst =
     (if nameParts (it_type inst) = [] \<or> templateArgs (it_type inst) = [] then Some []
      else
        (case template_params_of st (last (nameParts (it_type inst))) of
           None \<Rightarrow> Some []
         | Some templateParams \<Rightarrow>
             concat_opt (map (check_constraint st dnames matchedNames inst)
               (zip templateParams (templateArgs (it_type inst))))))"

definition checkConstraintSatisfaction :: "SymbolTable \<Rightarrow> string list \<Rightarrow> string list \<Rightarrow> finding list option" where
  "checkConstraintSatisfaction st dnames matchedNames =
     concat_opt (map (check_instantiate_constraints st dnames matchedNames) (instantiates st))"

section \<open>Lemmas\<close>

text \<open>Aliases that lead downwards: resolving a name ends.\<close>

definition alias_chains_end :: "SymbolTable \<Rightarrow> (string \<Rightarrow> nat) \<Rightarrow> bool" where
  "alias_chains_end st rk \<longleftrightarrow>
     (\<forall>n t. findTypeAlias st n = Some t \<longrightarrow>
        nameParts t \<noteq> [] \<and> (last (nameParts t) \<noteq> n \<longrightarrow> rk (last (nameParts t)) < rk n))"

lemma resolve_total:
  assumes ok: "alias_chains_end st rk"
  shows "\<exists>s. resolveTopoTypeName st t = Some s"
proof (induction "rk (last (nameParts t))" arbitrary: t rule: less_induct)
  case less
  show ?case
  proof (cases "nameParts t = []")
    case False
    show ?thesis
    proof (cases "findTypeAlias st (last (nameParts t))")
      case None
      with False show ?thesis
        by (subst resolveTopoTypeName.simps) (simp add: Let_def split: option.split)
    next
      case (Some target)
      with ok have tg: "nameParts target \<noteq> []"
        "last (nameParts target) \<noteq> last (nameParts t) \<Longrightarrow> rk (last (nameParts target)) < rk (last (nameParts t))"
        by (auto simp: alias_chains_end_def)
      show ?thesis
      proof (cases "last (nameParts target) = last (nameParts t)")
        case True
        with False Some tg show ?thesis
          by (subst resolveTopoTypeName.simps) (simp add: Let_def split: option.split)
      next
        case ne: False
        obtain s where "resolveTopoTypeName st target = Some s" using less [OF tg(2) [OF ne]] by blast
        with False Some tg ne show ?thesis by (subst resolveTopoTypeName.simps) (simp add: Let_def)
      qed
    qed
  qed (subst resolveTopoTypeName.simps, simp)
qed

lemma those_total: "(\<forall>x\<in>set xs. f x \<noteq> None) \<Longrightarrow> those (map f xs) \<noteq> None"
  by (induction xs) (auto split: option.splits)

lemma checkTemplateInstantiations_total:
  assumes "alias_chains_end st rk"
  shows "checkTemplateInstantiations st dnames \<noteq> None"
proof -
  have "template_arg_string st t \<noteq> None" for t
    using those_total [of "templateArgs t" "resolveTopoTypeName st"] resolve_total [OF assms]
    by (auto simp: template_arg_string_def)
  then have "\<forall>x\<in>set (map (check_instantiate st dnames) (instantiates st)). x \<noteq> None"
    by (fastforce simp: check_instantiate_def Let_def split: option.splits)
  then show ?thesis unfolding checkTemplateInstantiations_def using concat_opt_Some by blast
qed

lemma matching_adapt_total:
  assumes "alias_chains_end st rk"
  shows "matching_adapt st actual as \<noteq> None"
  using resolve_total [OF assms] by (induction "as") (fastforce split: option.splits)+

lemma check_constraint_total:
  assumes "alias_chains_end st rk"
  shows "check_constraint st dnames matchedNames inst p \<noteq> None"
proof -
  obtain param arg where p: "p = (param, arg)" by (cases p)
  obtain s where s: "resolveTopoTypeName st arg = Some s" using resolve_total [OF assms] by blast
  show ?thesis
    using matching_adapt_total [OF assms, of s
        "findAdaptsForConstraint st (hd (nameParts (tp_constraintType param)))"]
    by (auto simp: p check_constraint_def s Let_def split: option.splits)
qed

lemma concat_opt_total: "(\<forall>x\<in>set xs. f x \<noteq> None) \<Longrightarrow> concat_opt (map f xs) \<noteq> None"
  by (induction xs) (auto split: option.splits)

lemma checkConstraintSatisfaction_total:
  assumes "alias_chains_end st rk"
  shows "checkConstraintSatisfaction st dnames matchedNames \<noteq> None"
  unfolding checkConstraintSatisfaction_def
proof (rule concat_opt_total, rule ballI)
  fix inst
  have "concat_opt (map (check_constraint st dnames matchedNames inst) ps) \<noteq> None" for ps
    by (rule concat_opt_total) (simp add: check_constraint_total [OF assms])
  then show "check_instantiate_constraints st dnames matchedNames inst \<noteq> None"
    by (simp add: check_instantiate_constraints_def split: option.split)
qed

subsection \<open>Inherited constraint members\<close>

definition constraint_parent :: "SymbolTable \<Rightarrow> string \<Rightarrow> string \<Rightarrow> bool" where
  "constraint_parent st a b \<longleftrightarrow>
     a \<noteq> [] \<and> b \<noteq> [] \<and> (\<exists>cs. findConstraintSymbol st a = Some cs \<and> ct_parent cs = Some b)"

definition own_members :: "SymbolTable \<Rightarrow> string \<Rightarrow> string set" where
  "own_members st c = (case findConstraintSymbol st c of None \<Rightarrow> {} | Some cs \<Rightarrow> set (ct_members cs))"

lemma collect_members_sound:
  "m \<in> set (collect_members st cur vis) \<Longrightarrow>
     \<exists>a. (constraint_parent st)\<^sup>*\<^sup>* cur a \<and> m \<in> own_members st a"
proof (induction st cur vis rule: collect_members.induct)
  case (1 st cur vis)
  have "cur \<noteq> [] \<and> cur \<notin> set vis \<and> findConstraintSymbol st cur \<noteq> None"
    using "1.prems" by (subst (asm) collect_members.simps) (cases "findConstraintSymbol st cur"; auto split: if_splits)
  then obtain cs where c: "cur \<noteq> []" "cur \<notin> set vis" "findConstraintSymbol st cur = Some cs" by blast
  let ?p = "case ct_parent cs of None \<Rightarrow> [] | Some p \<Rightarrow> p"
  from "1.prems" c consider "m \<in> set (ct_members cs)" | "m \<in> set (collect_members st ?p (cur # vis))"
    by (subst (asm) collect_members.simps) auto
  then show ?case
  proof cases
    case 1
    with c show ?thesis by (intro exI [of _ cur]) (simp add: own_members_def)
  next
    case 2
    have "?p \<noteq> []"
    proof
      assume "?p = []"
      with 2 show False by (subst (asm) collect_members.simps) simp
    qed
    with c have "constraint_parent st cur ?p"
      by (auto simp: constraint_parent_def split: option.splits)
    moreover obtain a where "(constraint_parent st)\<^sup>*\<^sup>* ?p a" "m \<in> own_members st a"
      using "1.IH" [OF _ c(3) 2] c by auto
    ultimately show ?thesis by (meson converse_rtranclp_into_rtranclp)
  qed
qed

lemma collect_members_path:
  "rtrancl_path (constraint_parent st) cur path a \<Longrightarrow> distinct (cur # path) \<Longrightarrow>
   set (cur # path) \<inter> set vis = {} \<Longrightarrow> cur \<noteq> [] \<Longrightarrow>
   own_members st a \<subseteq> set (collect_members st cur vis)"
proof (induction path arbitrary: cur vis)
  case Nil
  then have "a = cur" by (auto elim: rtrancl_path.cases)
  with Nil show ?case
    by (subst collect_members.simps) (auto simp: own_members_def split: option.splits)
next
  case (Cons p path)
  from Cons.prems(1) have s: "constraint_parent st cur p" "rtrancl_path (constraint_parent st) p path a"
    by (auto elim: rtrancl_path.cases)
  then obtain cs where cs: "findConstraintSymbol st cur = Some cs" "ct_parent cs = Some p" "p \<noteq> []"
    by (auto simp: constraint_parent_def)
  have "own_members st a \<subseteq> set (collect_members st p (cur # vis))"
    using Cons.prems s cs by (intro Cons.IH) auto
  with cs Cons.prems show ?case by (subst collect_members.simps) auto
qed

lemma set_collectConstraintMembers:
  assumes "name \<noteq> []"
  shows "set (collectConstraintMembers st name) =
     (\<Union>a\<in>{a. (constraint_parent st)\<^sup>*\<^sup>* name a}. own_members st a)"
proof (intro equalityI subsetI)
  fix m assume "m \<in> set (collectConstraintMembers st name)"
  from collect_members_sound [OF this [unfolded collectConstraintMembers_def]]
  show "m \<in> (\<Union>a\<in>{a. (constraint_parent st)\<^sup>*\<^sup>* name a}. own_members st a)" by blast
next
  fix m assume "m \<in> (\<Union>a\<in>{a. (constraint_parent st)\<^sup>*\<^sup>* name a}. own_members st a)"
  then obtain a where a: "(constraint_parent st)\<^sup>*\<^sup>* name a" "m \<in> own_members st a" by blast
  from a(1) obtain path0 where "rtrancl_path (constraint_parent st) name path0 a"
    by (auto simp: rtranclp_eq_rtrancl_path)
  from rtrancl_path_distinct [OF this] obtain path where
    "rtrancl_path (constraint_parent st) name path a" "distinct (name # path)" by blast
  from collect_members_path [OF this, of "[]"] assms a(2)
  show "m \<in> set (collectConstraintMembers st name)" by (auto simp: collectConstraintMembers_def)
qed

section \<open>What the checks decide\<close>

text \<open>C15. Collecting the members of a constraint ends on every table, cyclic inheritance included, and
yields exactly the members the constraint and its ancestors declare.\<close>

theorem constraint_members_inherited:
  assumes "name \<noteq> []"
  shows "set (collectConstraintMembers st name) =
     (\<Union>a\<in>{a. (constraint_parent st)\<^sup>*\<^sup>* name a}. own_members st a)"
  by (rule set_collectConstraintMembers [OF assms])

definition cyclic_constraints :: SymbolTable where
  "cyclic_constraints = empty_table
     \<lparr>constraintSymbols :=
        [(''Ord'', \<lparr>ct_members = [''less''], ct_parent = Some ''Eq''\<rparr>),
         (''Eq'', \<lparr>ct_members = [''equal''], ct_parent = Some ''Ord''\<rparr>)]\<rparr>"

theorem constraint_members_inherited_witness:
  "(\<Union>a\<in>{a. (constraint_parent cyclic_constraints)\<^sup>*\<^sup>* ''Ord'' a}. own_members cyclic_constraints a) =
     {''less'', ''equal''}"
proof -
  have "set (collectConstraintMembers cyclic_constraints ''Ord'') = {''less'', ''equal''}"
    by code_simp
  then show ?thesis using constraint_members_inherited [of "''Ord''" cyclic_constraints] by simp
qed

text \<open>An instantiation over \<open>Int8\<close> is reported missing although the module holds it: the check spells
the argument \<open>int8_t\<close> where the demangler spells \<open>signed char\<close>, and the normal form that is meant to
bring the two together drops the space of the demangler's spelling but not its own. The same
module passes for \<open>Int16\<close>.\<close>

theorem int8_instantiation_reported_missing:
  "checkTemplateInstantiations
     (empty_table \<lparr>instantiates :=
        [\<lparr>it_type = TypeNode [''V''] [TypeNode [''Int8''] [] NoModifier] NoModifier,
          it_qualifiedName = ''V<Int8>'', it_location = 1\<rparr>]\<rparr>) [''V<signed char>::get'']
   = Some [counted_error 1
       (''instantiate '' @ quoted ''V<Int8>'' @ '' -- no matching instantiation found in IR (expected ''
        @ quoted ''V<int8_t>'' @ '' or member prefix)'')]
   \<and> checkTemplateInstantiations
     (empty_table \<lparr>instantiates :=
        [\<lparr>it_type = TypeNode [''V''] [TypeNode [''Int16''] [] NoModifier] NoModifier,
          it_qualifiedName = ''V<Int16>'', it_location = 1\<rparr>]\<rparr>) [''V<short>::get''] = Some []"
proof -
  have r: "resolveTopoTypeName st (TypeNode [n] [] NoModifier) = basic_type_name n"
    if "findTypeAlias st n = None" "basic_type_name n \<noteq> None" for st n
    using that by (subst resolveTopoTypeName.simps) (auto split: option.splits)
  have b: "basic_type_name ''Int8'' = Some ''int8_t''" "basic_type_name ''Int16'' = Some ''int16_t''"
    by (simp_all add: basic_type_name_def)
  have missing: "\<not> instantiation_found [''V<signed char>::get''] [] ''V<int8_t>''"
    by code_simp
  have found: "instantiation_found [''V<short>::get''] [] ''V<int16_t>''"
    by code_simp
  have p: "instantiate_prefix ''V<Int8>'' = []" "instantiate_prefix ''V<Int16>'' = []"
    by code_simp+
  show ?thesis
    using missing found
    by (simp add: checkTemplateInstantiations_def check_instantiate_def empty_table_def
        template_arg_string_def r b p)
qed

end
