(* ===== verification/Verifier.thy ===== *)
theory Verifier
  imports VerifierOrder VerifierTemplates
begin

text \<open>
  lib/Backend/Verifier.cpp, \<open>Verifier::verify\<close>: the checks in their order over one module and one
  mapping, the diagnostics in emission order and the counters of the result. The demanglers are
  parameters. The lemmas show that the whole verification ends when type aliases do, and that the
  counters are sums of the findings.
\<close>

record VerifyResult =
  publicMissing :: nat
  blockMismatches :: nat
  signatureMismatches :: nat
  constMismatches :: nat
  classMemberMissing :: nat
  stageOrderViolations :: nat
  pipelineEdgeMismatches :: nat
  templateInstantiationMissing :: nat
  constraintViolations :: nat
  stageParallelViolations :: nat

text \<open>The common part of the two overloads; the first has no const check.\<close>

definition verify_with ::
  "(string \<Rightarrow> string) \<Rightarrow> (string \<Rightarrow> string option) \<Rightarrow> SymbolTable \<Rightarrow> ll_module \<Rightarrow> SymbolMapping \<Rightarrow>
   VisibilityEntry list option \<Rightarrow> (Diag list \<times> VerifyResult) option" where
  "verify_with dm ms st module sm entries =
     (let matched = matched_functions module sm;
          dnames = map fst (buildDemangledMap dm ms module);
          pub = checkPublicSymbols st sm;
          blocks = checkLogicBlockConsistency st matched;
          consts = (case entries of None \<Rightarrow> [] | Some es \<Rightarrow> checkConstConsistency st matched es);
          members = checkClassMembers st matched;
          stages = checkStageOrdering st matched;
          edges = checkPipelineEdges st matched;
          parallel = checkStageParallelSafety st module matched
      in case checkSignatures st matched of
           None \<Rightarrow> None
         | Some sigs \<Rightarrow>
             (case checkTemplateInstantiations st dnames of
                None \<Rightarrow> None
              | Some insts \<Rightarrow>
                  (case checkConstraintSatisfaction st dnames (map fst matched) of
                     None \<Rightarrow> None
                   | Some cons \<Rightarrow>
                       Some (map fst (pub @ blocks @ sigs @ consts @ members @ stages @ edges @ insts @ cons @ parallel),
                         \<lparr>publicMissing = total_count pub, blockMismatches = total_count blocks,
                          signatureMismatches = total_count sigs, constMismatches = total_count consts,
                          classMemberMissing = total_count members, stageOrderViolations = total_count stages,
                          pipelineEdgeMismatches = total_count edges,
                          templateInstantiationMissing = total_count insts,
                          constraintViolations = total_count cons, stageParallelViolations = total_count parallel\<rparr>))))"

definition verify where
  "verify dm ms st module sm = verify_with dm ms st module sm None"

definition verify_entries where
  "verify_entries dm ms st module sm entries = verify_with dm ms st module sm (Some entries)"

section \<open>Lemmas\<close>

definition result_sum :: "VerifyResult \<Rightarrow> nat" where
  "result_sum r =
     publicMissing r + blockMismatches r + signatureMismatches r + constMismatches r + classMemberMissing r
     + stageOrderViolations r + pipelineEdgeMismatches r + templateInstantiationMissing r
     + constraintViolations r + stageParallelViolations r"

lemma verify_with_total:
  assumes "aliases_ranked st rk" and "alias_chains_end st rk'"
  shows "\<exists>ds r. verify_with dm ms st module sm entries = Some (ds, r)"
proof -
  obtain a b c where
    "checkSignatures st (matched_functions module sm) = Some a"
    "checkTemplateInstantiations st (map fst (buildDemangledMap dm ms module)) = Some b"
    "checkConstraintSatisfaction st (map fst (buildDemangledMap dm ms module))
       (map fst (matched_functions module sm)) = Some c"
    using checkSignatures_total [OF assms(1)] checkTemplateInstantiations_total [OF assms(2)]
      checkConstraintSatisfaction_total [OF assms(2)] by blast
  then show ?thesis by (simp add: verify_with_def Let_def)
qed

text \<open>Every error is counted, so a result of zeros means no error diagnostic.\<close>

definition errors_counted :: "finding list \<Rightarrow> bool" where
  "errors_counted fs \<longleftrightarrow> (\<forall>f\<in>set fs. dg_severity (fst f) = Error \<longrightarrow> snd f = 1)"

lemma errors_counted_Nil [finding_simps]: "errors_counted []"
  by (simp add: errors_counted_def)

lemma errors_counted_Cons [finding_simps]:
  "errors_counted (counted_error l m # fs) = errors_counted fs"
  "errors_counted (counted_warning l m # fs) = errors_counted fs"
  "errors_counted (plain_warning l m # fs) = errors_counted fs"
  by (auto simp: errors_counted_def counted_error_def counted_warning_def plain_warning_def)

lemma errors_counted_append [finding_simps]: "errors_counted (xs @ ys) \<longleftrightarrow> errors_counted xs \<and> errors_counted ys"
  by (auto simp: errors_counted_def)

lemma errors_counted_concat: "(\<And>x. x \<in> set xs \<Longrightarrow> errors_counted (f x)) \<Longrightarrow> errors_counted (concat (map f xs))"
  by (induction xs) (auto simp: finding_simps)

lemma errors_counted_map: "errors_counted (map (\<lambda>x. counted_error l (g x)) xs)"
  by (induction xs) (simp_all add: finding_simps)

lemma errors_counted_replicate: "errors_counted (replicate n (counted_error l m))"
  by (induction n) (simp_all add: finding_simps)

lemma errors_counted_concat_opt:
  "(\<And>x fs. x \<in> set xs \<Longrightarrow> f x = Some fs \<Longrightarrow> errors_counted fs) \<Longrightarrow>
   concat_opt (map f xs) = Some ys \<Longrightarrow> errors_counted ys"
proof (induction xs arbitrary: ys)
  case (Cons x xs)
  from Cons.prems(2) obtain fs rest where
    fs: "f x = Some fs" "concat_opt (map f xs) = Some rest" "ys = fs @ rest"
    by (cases "f x") (auto simp: map_option_case split: option.splits)
  then show ?case using Cons by (auto simp: finding_simps)
qed (simp add: finding_simps)

lemma errors_counted_checks:
  "errors_counted (checkPublicSymbols st sm)"
  "errors_counted (checkLogicBlockConsistency st matched)"
  "errors_counted (checkConstConsistency st matched es)"
  "errors_counted (checkClassMembers st matched)"
  "errors_counted (checkStageOrdering st matched)"
  "errors_counted (checkPipelineEdges st matched)"
  "errors_counted (checkStageParallelSafety st module matched)"
proof -
  show "errors_counted (checkPublicSymbols st sm)"
    unfolding checkPublicSymbols_def
    by (intro errors_counted_concat) (auto simp: check_public_def finding_simps)
  show "errors_counted (checkLogicBlockConsistency st matched)"
    unfolding checkLogicBlockConsistency_def Let_def check_block_def
    by (intro errors_counted_concat)
       (auto simp: finding_simps errors_counted_map split: option.splits)
  show "errors_counted (checkConstConsistency st matched es)"
    unfolding checkConstConsistency_def Let_def
  proof (intro errors_counted_concat, clarsimp split: option.split simp: finding_simps)
    fix name fsym func entry
    show "errors_counted (check_const name fsym entry func)"
      unfolding check_const_def errors_counted_append
      by (intro conjI errors_counted_concat) (auto simp: finding_simps)
  qed
  show "errors_counted (checkClassMembers st matched)"
    unfolding checkClassMembers_def check_class_def
    by (intro errors_counted_concat)
       (auto simp: finding_simps check_member_def intro!: errors_counted_concat split: option.split)
  have w: "errors_counted (stage_walk l b m cs)" for l b m cs
    by (induction l b m cs rule: stage_walk.induct) (auto simp: finding_simps)
  show "errors_counted (checkStageOrdering st matched)"
    unfolding checkStageOrdering_def check_stages_def
    by (intro errors_counted_concat) (auto simp: finding_simps w split: option.split)
  show "errors_counted (checkPipelineEdges st matched)"
    unfolding checkPipelineEdges_def check_pipeline_def
    by (intro errors_counted_concat) (auto simp: finding_simps Let_def split: option.split)
  show "errors_counted (checkStageParallelSafety st module matched)"
    unfolding checkStageParallelSafety_def check_parallel_block_def Let_def
  proof (intro errors_counted_concat, clarsimp split: option.split simp: finding_simps)
    fix stage :: int and ops :: "string list" and blockName block func
    let ?ps = "pairs (stage_calls ops (findTopoCallsInFunction func (llvmToTopo matched)))"
    have d: "errors_counted (check_dependency l b s p)" for l b s p
      by (auto simp: check_dependency_def dependency_finding_def finding_simps errors_counted_replicate split: prod.split)
    have g: "errors_counted (check_globals module l b s p)" for l b s p
      by (auto simp: check_globals_def finding_simps split: prod.split option.split)
    show "errors_counted (concat (map (\<lambda>(stage, ops).
        if length ops < 2 then []
        else concat (map (check_dependency (lb_location block) blockName stage)
               (pairs (stage_calls ops (findTopoCallsInFunction func (llvmToTopo matched))))) @
             concat (map (check_globals module (lb_location block) blockName stage)
               (pairs (stage_calls ops (findTopoCallsInFunction func (llvmToTopo matched))))))
        (stageOps blockName block)))"
      by (intro errors_counted_concat)
         (auto simp: finding_simps d g intro!: errors_counted_concat)
  qed
qed

lemma errors_counted_check_params:
  "check_params st name loc i ps args = Some fs \<Longrightarrow> errors_counted fs"
proof (induction st name loc i ps args arbitrary: fs rule: check_params.induct)
  case (3 st name loc i p ps a args)
  then obtain ok rest where r: "typesMatch st (arg_type a) (pa_type p) = Some ok"
    "check_params st name loc (Suc i) ps args = Some rest"
    by (auto split: option.splits)
  from "3.IH" [OF this] "3.prems" r show ?case by (auto simp: finding_simps)
qed (simp_all add: finding_simps)

lemma errors_counted_fallible:
  "checkSignatures st matched = Some a \<Longrightarrow> errors_counted a"
  "checkTemplateInstantiations st dnames = Some b \<Longrightarrow> errors_counted b"
  "checkConstraintSatisfaction st dnames names = Some c \<Longrightarrow> errors_counted c"
proof -
  have r: "check_return st name fsym func = Some rs \<Longrightarrow> errors_counted rs" for name fsym func rs
    by (auto simp: check_return_def finding_simps split: if_splits option.splits)
  have s: "check_signature st name fsym func = Some fs \<Longrightarrow> errors_counted fs" for name fsym func fs
    by (auto simp: check_signature_def Let_def finding_simps r dest!: r errors_counted_check_params
        split: if_splits option.splits)
  show "checkSignatures st matched = Some a \<Longrightarrow> errors_counted a"
    unfolding checkSignatures_def
    by (erule errors_counted_concat_opt [rotated]) (auto simp: finding_simps intro: s split: option.splits)
  show "checkTemplateInstantiations st dnames = Some b \<Longrightarrow> errors_counted b"
    unfolding checkTemplateInstantiations_def
    by (erule errors_counted_concat_opt [rotated])
       (auto simp: check_instantiate_def Let_def finding_simps split: if_splits option.splits)
  have k: "check_constraint st dnames names inst p = Some fs \<Longrightarrow> errors_counted fs" for inst p fs
    by (auto simp: check_constraint_def check_adapt_def Let_def finding_simps errors_counted_map
        split: if_splits option.splits prod.splits)
  show "checkConstraintSatisfaction st dnames names = Some c \<Longrightarrow> errors_counted c"
    unfolding checkConstraintSatisfaction_def
  proof (erule errors_counted_concat_opt [rotated])
    fix inst fs assume "check_instantiate_constraints st dnames names inst = Some fs"
    then show "errors_counted fs"
      by (auto simp: check_instantiate_constraints_def finding_simps split: if_splits option.splits
          elim!: errors_counted_concat_opt [rotated] intro: k)
  qed
qed

lemma errors_counted_length:
  "errors_counted fs \<Longrightarrow> length (filter (\<lambda>d. dg_severity d = Error) (map fst fs)) \<le> total_count fs"
  by (induction fs) (auto simp: errors_counted_def)

lemma verify_with_errors:
  assumes "verify_with dm ms st module sm entries = Some (ds, r)"
  shows "length (filter (\<lambda>d. dg_severity d = Error) ds) \<le> result_sum r"
proof -
  let ?m = "matched_functions module sm"
  let ?d = "map fst (buildDemangledMap dm ms module)"
  obtain a b c where f: "checkSignatures st ?m = Some a" "checkTemplateInstantiations st ?d = Some b"
    "checkConstraintSatisfaction st ?d (map fst ?m) = Some c"
    using assms by (auto simp: verify_with_def Let_def split: option.splits)
  let ?k = "case entries of None \<Rightarrow> [] | Some es \<Rightarrow> checkConstConsistency st ?m es"
  let ?all = "checkPublicSymbols st sm @ checkLogicBlockConsistency st ?m @ a @ ?k @ checkClassMembers st ?m
    @ checkStageOrdering st ?m @ checkPipelineEdges st ?m @ b @ c @ checkStageParallelSafety st module ?m"
  have "ds = map fst ?all" "result_sum r = total_count ?all"
    using assms f by (auto simp: verify_with_def Let_def result_sum_def)
  moreover have "errors_counted ?k"
    by (simp add: finding_simps errors_counted_checks split: option.split)
  then have "errors_counted ?all"
    unfolding errors_counted_append
    by (intro conjI errors_counted_checks errors_counted_fallible(1) [OF f(1)] errors_counted_fallible(2) [OF f(2)]
        errors_counted_fallible(3) [OF f(3)])
  ultimately show ?thesis using errors_counted_length by metis
qed

section \<open>The verification as a whole\<close>

text \<open>C4. Verification of a module always returns when type aliases lead downwards, and every error it
prints is counted: a result whose counters are all zero comes with no error diagnostic.\<close>

theorem verify_returns_counted:
  assumes "aliases_ranked st rk" and "alias_chains_end st rk'"
  shows "\<exists>ds r. verify_entries dm ms st module sm entries = Some (ds, r) \<and>
     length (filter (\<lambda>d. dg_severity d = Error) ds) \<le> result_sum r"
proof -
  obtain ds r where v: "verify_with dm ms st module sm (Some entries) = Some (ds, r)"
    using verify_with_total [OF assms] by blast
  with verify_with_errors [OF v] show ?thesis by (auto simp: verify_entries_def)
qed

theorem verify_returns_counted_witness:
  "\<exists>ds r. verify_entries id (\<lambda>_. None) alias_table
      [example_function ''run'' []] \<lparr>sm_matched = [(''run'', ''run'')], sm_unmatchedTopo = [], sm_unmatchedIR = []\<rparr> []
      = Some (ds, r) \<and> length (filter (\<lambda>d. dg_severity d = Error) ds) \<le> result_sum r"
  by (rule verify_returns_counted [OF alias_table_ranked, of "\<lambda>n. if n = ''Meters'' then 1 else 0"])
     (simp add: alias_chains_end_def alias_table_def empty_table_def)

end
