(* ===== verification/IrModule.thy ===== *)
theory IrModule
  imports SymbolMapper
begin

text \<open>
  The module as the transformation passes see it: functions with an identity that renaming keeps (the
  \<open>llvm::Function*\<close>), their linkage, attributes and the calls in their bodies. A declaration is a
  function without a body. Lookup of an identity that is not in the module is lookup of a null or
  erased pointer. \<open>setName\<close> keeps names unique the way LLVM does: a name that is taken gets a fresh
  variant, which is a parameter.
\<close>

datatype fn_attr = OptimizeNone | NoInline | InlineHint | AlwaysInline

record ir_function =
  if_id :: nat
  if_name :: string
  if_declaration :: bool
  if_linkage :: ll_linkage
  if_visibility :: ll_visibility
  if_dllexport :: bool
  if_dso_local :: bool
  if_attrs :: "fn_attr set"
  if_subprogram :: bool
  if_only_reads :: bool
  if_readonly_args :: "bool list"
  if_metadata :: "string set"
  if_section :: string
  if_calls :: "nat option list"

record ir_module =
  im_triple :: string
  im_functions :: "ir_function list"
  im_globals :: "string list"

record pass_mapping =
  pm_matched :: "(string \<times> nat) list"
  pm_unmatchedTopo :: "string list"

definition ids_ok :: "ir_module \<Rightarrow> bool" where
  "ids_ok m \<longleftrightarrow> distinct (map if_id (im_functions m))"

definition names_ok :: "ir_module \<Rightarrow> bool" where
  "names_ok m \<longleftrightarrow> distinct (map if_name (im_functions m) @ im_globals m)"

definition find_fn :: "ir_module \<Rightarrow> nat \<Rightarrow> ir_function option" where
  "find_fn m i = find (\<lambda>f. if_id f = i) (im_functions m)"

definition upd_fn :: "nat \<Rightarrow> (ir_function \<Rightarrow> ir_function) \<Rightarrow> ir_module \<Rightarrow> ir_module" where
  "upd_fn i g m = m\<lparr>im_functions := map (\<lambda>f. if if_id f = i then g f else f) (im_functions m)\<rparr>"

definition taken_names :: "ir_module \<Rightarrow> nat \<Rightarrow> string set" where
  "taken_names m i = if_name ` {f \<in> set (im_functions m). if_id f \<noteq> i} \<union> set (im_globals m)"

definition fresh_name :: "(string set \<Rightarrow> string \<Rightarrow> string) \<Rightarrow> ir_module \<Rightarrow> nat \<Rightarrow> string \<Rightarrow> string" where
  "fresh_name uniq m i n = (if n \<in> taken_names m i then uniq (taken_names m i) n else n)"

definition setName :: "(string set \<Rightarrow> string \<Rightarrow> string) \<Rightarrow> nat \<Rightarrow> string \<Rightarrow> ir_module \<Rightarrow> ir_module" where
  "setName uniq i n m = upd_fn i (\<lambda>f. f\<lparr>if_name := fresh_name uniq m i n\<rparr>) m"

text \<open>The view of the symbol mapper, and its mapping by identity.\<close>

definition mapper_view :: "ir_module \<Rightarrow> ll_module" where
  "mapper_view m = map (\<lambda>f.
     \<lparr>fn_name = if_name f, fn_blocks = (if if_declaration f then [] else [[]]), fn_args = [],
      fn_ret = VoidTy, fn_only_reads = if_only_reads f\<rparr>) (im_functions m)"

definition mapping_of ::
  "(string \<Rightarrow> string) \<Rightarrow> (string \<Rightarrow> string option) \<Rightarrow> ir_module \<Rightarrow> VisibilityEntry list \<Rightarrow> pass_mapping" where
  "mapping_of dm ms m entries =
     (let sm = mapSymbols dm ms (mapper_view m) entries
      in \<lparr>pm_matched = List.map_filter (\<lambda>(q, n). map_option (\<lambda>f. (q, if_id f))
             (find (\<lambda>f. if_name f = n) (im_functions m))) (sm_matched sm),
          pm_unmatchedTopo = sm_unmatchedTopo sm\<rparr>)"

section \<open>Lemmas\<close>

named_theorems ir_simps "lookup after an update of the module"

lemma find_fn_Some: "find_fn m i = Some f \<Longrightarrow> f \<in> set (im_functions m) \<and> if_id f = i"
  by (auto simp: find_fn_def find_Some_iff)

lemma find_fn_unique: "ids_ok m \<Longrightarrow> f \<in> set (im_functions m) \<Longrightarrow> find_fn m (if_id f) = Some f"
proof -
  have "distinct (map if_id fs) \<Longrightarrow> f \<in> set fs \<Longrightarrow> find (\<lambda>g. if_id g = if_id f) fs = Some f" for fs
    by (induction fs) auto
  then show "ids_ok m \<Longrightarrow> f \<in> set (im_functions m) \<Longrightarrow> find_fn m (if_id f) = Some f"
    by (simp add: ids_ok_def find_fn_def)
qed

text \<open>An update that keeps the identity.\<close>

definition keeps_id :: "(ir_function \<Rightarrow> ir_function) \<Rightarrow> bool" where
  "keeps_id g \<longleftrightarrow> (\<forall>f. if_id (g f) = if_id f)"

lemma find_fn_upd [ir_simps]:
  assumes "keeps_id g"
  shows "find_fn (upd_fn i g m) j = (if j = i then map_option g (find_fn m j) else find_fn m j)"
proof -
  have "find (\<lambda>f. if_id f = j) (map (\<lambda>f. if if_id f = i then g f else f) fs) =
      (if j = i then map_option g (find (\<lambda>f. if_id f = j) fs) else find (\<lambda>f. if_id f = j) fs)" for fs
    using assms by (induction fs) (auto simp: keeps_id_def)
  then show ?thesis by (simp add: find_fn_def upd_fn_def)
qed

lemma ids_upd [ir_simps]:
  assumes "keeps_id g"
  shows "map if_id (im_functions (upd_fn i g m)) = map if_id (im_functions m)"
  using assms by (simp add: upd_fn_def keeps_id_def o_def if_distrib cong: if_cong)

lemma ids_ok_upd [ir_simps]: "keeps_id g \<Longrightarrow> ids_ok (upd_fn i g m) = ids_ok m"
  by (simp add: ids_ok_def ids_upd)

lemma upd_fn_frame [simp]: "im_triple (upd_fn i g m) = im_triple m" "im_globals (upd_fn i g m) = im_globals m"
  by (simp_all add: upd_fn_def)

lemma keeps_id_setName [simp]: "keeps_id (\<lambda>f. f\<lparr>if_name := n\<rparr>)"
  by (simp add: keeps_id_def)

lemma find_fn_setName [ir_simps]:
  "find_fn (setName uniq i n m) j =
     (if j = i then map_option (\<lambda>f. f\<lparr>if_name := fresh_name uniq m i n\<rparr>) (find_fn m j) else find_fn m j)"
  by (simp add: setName_def find_fn_upd)

lemma ids_ok_setName [simp]: "ids_ok (setName uniq i n m) = ids_ok m"
  by (simp add: setName_def ids_ok_upd)

lemma setName_frame [simp]: "im_triple (setName uniq i n m) = im_triple m"
  "im_globals (setName uniq i n m) = im_globals m"
  by (simp_all add: setName_def)

end
