(* ===== verification/InlinePass.thy ===== *)
theory InlinePass
  imports IrModule VerifierModel
begin

text \<open>
  lib/Transforms/TopoInlinePass.cpp: inline attributes from the declared visibilities, and the forced
  inlining of everything a pipeline functor calls. The traversal of the call graph is the explicit
  stack of the code; it ends because every function is visited once. The lemmas show that it finds
  all transitive callees and that every call cycle it can reach has a function it marks recursive, so
  that what is forced to be inlined can be.
\<close>

section \<open>Transitive callees\<close>

text \<open>The defined functions a function calls directly, in the order of the calls.\<close>

definition defined_callees :: "ir_module \<Rightarrow> ir_function \<Rightarrow> nat list" where
  "defined_callees m f =
     filter (\<lambda>c. case find_fn m c of None \<Rightarrow> False | Some g \<Rightarrow> \<not> if_declaration g)
       (List.map_filter (\<lambda>c. c) (if_calls f))"

record dfs =
  d_visited :: "nat set"
  d_onStack :: "nat set"
  d_stack :: "(nat \<times> bool) list"
  d_callees :: "nat set"
  d_recursive :: "nat set"

definition scan_call :: "nat \<Rightarrow> nat \<Rightarrow> dfs \<Rightarrow> dfs" where
  "scan_call func callee s =
     (if callee \<in> d_onStack s then s\<lparr>d_recursive := insert func (insert callee (d_recursive s))\<rparr>
      else
        (let s = s\<lparr>d_callees := insert callee (d_callees s)\<rparr>
         in if callee \<notin> d_visited s then s\<lparr>d_stack := (callee, False) # d_stack s\<rparr> else s))"

definition pre_visit :: "ir_module \<Rightarrow> nat \<Rightarrow> ir_function \<Rightarrow> dfs \<Rightarrow> dfs" where
  "pre_visit m func f s =
     (let s = s\<lparr>d_visited := insert func (d_visited s)\<rparr>;
          s = s\<lparr>d_onStack := insert func (d_onStack s)\<rparr>;
          s = s\<lparr>d_stack := (func, True) # d_stack s\<rparr>
      in fold (scan_call func) (defined_callees m f) s)"

text \<open>One round of the loop: the popped entry is a post-visit marker or a function.\<close>

definition dfs_step :: "ir_module \<Rightarrow> nat \<Rightarrow> bool \<Rightarrow> dfs \<Rightarrow> dfs" where
  "dfs_step m func postVisit s =
     (if postVisit then s\<lparr>d_onStack := d_onStack s - {func}\<rparr>
      else if func \<in> d_visited s then s
      else (case find_fn m func of None \<Rightarrow> s | Some f \<Rightarrow> pre_visit m func f s))"

lemma d_visited_fold_scan [simp]: "d_visited (fold (scan_call func) cs s) = d_visited s"
  by (induction cs arbitrary: s) (simp_all add: scan_call_def Let_def)

function dfs_loop :: "ir_module \<Rightarrow> dfs \<Rightarrow> dfs" where
  "dfs_loop m s =
     (case d_stack s of
        [] \<Rightarrow> s
      | (func, postVisit) # rest \<Rightarrow> dfs_loop m (dfs_step m func postVisit (s\<lparr>d_stack := rest\<rparr>)))"
  by pat_completeness auto

text \<open>Each round visits a new function of the module or shortens the stack.\<close>

termination
proof (relation "inv_image (less_than <*lex*> less_than)
    (\<lambda>(m, s). (card (if_id ` set (im_functions m) - d_visited s), length (d_stack s)))", goal_cases)
  case (2 m s e rest func postVisit)
  let ?s = "s\<lparr>d_stack := rest\<rparr>"
  show ?case
  proof (cases "\<not> postVisit \<and> func \<notin> d_visited s \<and> find_fn m func \<noteq> None")
    case True
    then obtain f where f: "find_fn m func = Some f" by auto
    from find_fn_Some [OF this] have "func \<in> if_id ` set (im_functions m)" by auto
    with True have "func \<in> if_id ` set (im_functions m) - d_visited s" by simp
    from card_Diff1_less [OF _ this]
    have "card (if_id ` set (im_functions m) - d_visited s - {func}) < card (if_id ` set (im_functions m) - d_visited s)"
      by simp
    moreover have "d_visited (dfs_step m func postVisit ?s) = insert func (d_visited s)"
      using True f by (simp add: dfs_step_def pre_visit_def Let_def)
    ultimately show ?thesis
      by (simp add: Diff_insert [symmetric] del: card_Diff_insert)
  next
    case False
    then have "dfs_step m func postVisit ?s = (if postVisit then ?s\<lparr>d_onStack := d_onStack s - {func}\<rparr> else ?s)"
      by (auto simp: dfs_step_def)
    with 2 show ?thesis by simp
  qed
qed (intro wf_inv_image wf_lex_prod wf_less_than)

declare dfs_loop.simps [simp del]

definition collectTransitiveCallees :: "ir_module \<Rightarrow> nat \<Rightarrow> nat set \<times> nat set \<Rightarrow> nat set \<times> nat set" where
  "collectTransitiveCallees m root acc =
     (let s = dfs_loop m \<lparr>d_visited = {}, d_onStack = {}, d_stack = [(root, False)],
                          d_callees = fst acc, d_recursive = snd acc\<rparr>
      in (d_callees s, d_recursive s))"

section \<open>The pass\<close>

datatype OptLevel = O0 | O1 | O2 | O3

record TopoInlineEntry =
  ti_callee :: string
  ti_reason :: string

definition entry_visibilities :: "VisibilityEntry list \<Rightarrow> pass_mapping \<Rightarrow> (nat \<times> Visibility) list" where
  "entry_visibilities entries pm =
     fold (\<lambda>e m. case map_of (pm_matched pm) (ve_qualifiedName e) of
             None \<Rightarrow> m | Some i \<Rightarrow> AList.update i (ve_visibility e) m) entries []"

definition entry_names :: "VisibilityEntry list \<Rightarrow> pass_mapping \<Rightarrow> (nat \<times> string) list" where
  "entry_names entries pm =
     fold (\<lambda>e m. case map_of (pm_matched pm) (ve_qualifiedName e) of
             None \<Rightarrow> m | Some i \<Rightarrow> AList.update i (ve_qualifiedName e) m) entries []"

definition recordEntry :: "(nat \<times> string) list \<Rightarrow> ir_function \<Rightarrow> string \<Rightarrow> TopoInlineEntry" where
  "recordEntry funcQualName f reason =
     \<lparr>ti_callee = (case map_of funcQualName (if_id f) of Some q \<Rightarrow> q | None \<Rightarrow> if_name f), ti_reason = reason\<rparr>"

definition call_count :: "ir_module \<Rightarrow> nat \<Rightarrow> nat" where
  "call_count m i =
     count_list (concat (map (defined_callees m) (filter (\<lambda>f. \<not> if_declaration f) (im_functions m)))) i"

text \<open>The attribute and the reason step 1 gives a function.\<close>

definition inline_decision :: "OptLevel \<Rightarrow> Visibility \<Rightarrow> nat \<Rightarrow> (fn_attr \<times> string) option" where
  "inline_decision level vis uses =
     (if vis = Internal then Some (AlwaysInline, ''internal'')
      else if vis = Private then
        (if uses \<le> 1 then Some (AlwaysInline, ''private_single_caller'')
         else Some (InlineHint, ''private_multi_caller''))
      else if vis = Protected \<and> (level = O2 \<or> level = O3) then Some (InlineHint, ''protected'')
      else None)"

definition annotate_function ::
  "OptLevel \<Rightarrow> (nat \<Rightarrow> nat) \<Rightarrow> (nat \<times> string) list \<Rightarrow> nat \<times> Visibility \<Rightarrow>
   ir_module \<times> TopoInlineEntry list \<Rightarrow> ir_module \<times> TopoInlineEntry list" where
  "annotate_function level callCount funcQualName e acc =
     (case (e, acc) of ((i, vis), (m, report)) \<Rightarrow>
        (case find_fn m i of
           None \<Rightarrow> (m, report)
         | Some f \<Rightarrow>
             if if_declaration f then (m, report)
             else if if_attrs f \<inter> {AlwaysInline, InlineHint, NoInline} \<noteq> {} then (m, report)
             else
               (case inline_decision level vis (callCount i) of
                  None \<Rightarrow> (m, report)
                | Some (attr, reason) \<Rightarrow>
                    (upd_fn i (\<lambda>f. f\<lparr>if_attrs := insert attr (if_attrs f)\<rparr>) m,
                     report @ [recordEntry funcQualName f reason]))))"

text \<open>Step 2 over the functor callees, in the iteration order \<open>order\<close> of their set.\<close>

definition force_function ::
  "(nat \<times> Visibility) list \<Rightarrow> (nat \<times> string) list \<Rightarrow> nat set \<Rightarrow> nat \<Rightarrow>
   ir_module \<times> TopoInlineEntry list \<Rightarrow> ir_module \<times> TopoInlineEntry list" where
  "force_function funcVis funcQualName recursive callee acc =
     (case acc of (m, report) \<Rightarrow>
        if callee \<in> recursive then (m, report)
        else
          (case find_fn m callee of
             None \<Rightarrow> (m, report)
           | Some f \<Rightarrow>
               if if_declaration f then (m, report)
               else
                 (case map_of funcVis callee of
                    None \<Rightarrow> (m, report)
                  | Some vis \<Rightarrow>
                      if vis \<noteq> Private \<and> vis \<noteq> Internal then (m, report)
                      else if AlwaysInline \<in> if_attrs f then (m, report)
                      else
                        (upd_fn callee (\<lambda>f. f\<lparr>if_attrs := insert AlwaysInline (if_attrs f - {InlineHint})\<rparr>) m,
                         report @ [recordEntry funcQualName f ''pipeline_functor'']))))"

text \<open>The roots: the functions of the pipeline blocks that have a body.\<close>

definition functor_roots :: "ir_module \<Rightarrow> pass_mapping \<Rightarrow> (string \<times> LogicBlock) list \<Rightarrow> nat list" where
  "functor_roots m pm blocks =
     List.map_filter (\<lambda>(_, lb).
       if \<not> lb_isPipeline lb then None
       else (case map_of (pm_matched pm) (lb_qualifiedName lb) of
               None \<Rightarrow> None
             | Some i \<Rightarrow> (case find_fn m i of None \<Rightarrow> None | Some f \<Rightarrow> if if_declaration f then None else Some i)))
       blocks"

definition functor_callees :: "ir_module \<Rightarrow> nat list \<Rightarrow> nat set \<times> nat set" where
  "functor_callees m roots = fold (collectTransitiveCallees m) roots ({}, {})"

definition inline_run ::
  "(nat set \<Rightarrow> nat list) \<Rightarrow> ir_module \<Rightarrow> OptLevel \<Rightarrow> VisibilityEntry list \<Rightarrow> pass_mapping \<Rightarrow>
   (string \<times> LogicBlock) list option \<Rightarrow> ir_module \<times> TopoInlineEntry list" where
  "inline_run order m level entries pm symbols =
     (let funcVis = entry_visibilities entries pm;
          funcQualName = entry_names entries pm;
          callCount = call_count m;
          (m, report) = fold (annotate_function level callCount funcQualName) funcVis (m, [])
      in case symbols of
           None \<Rightarrow> (m, report)
         | Some blocks \<Rightarrow>
             (let (functorCallees, recursive) = functor_callees m (functor_roots m pm blocks)
              in fold (force_function funcVis funcQualName recursive) (order functorCallees) (m, report)))"

section \<open>Lemmas on the traversal\<close>

text \<open>The call graph between functions with bodies.\<close>

definition calls :: "ir_module \<Rightarrow> nat \<Rightarrow> nat \<Rightarrow> bool" where
  "calls m f g \<longleftrightarrow> (\<exists>h. find_fn m f = Some h \<and> g \<in> set (defined_callees m h))"

lemma calls_defined: "calls m f g \<Longrightarrow> \<exists>h. find_fn m g = Some h \<and> \<not> if_declaration h"
  by (auto simp: calls_def defined_callees_def split: option.splits)

lemma finite_calls: "finite {g. calls m f g}"
proof (cases "find_fn m f")
  case (Some h)
  then have "{g. calls m f g} = set (defined_callees m h)" by (auto simp: calls_def)
  then show ?thesis by simp
qed (simp add: calls_def)

text \<open>What scanning the calls of one function adds.\<close>

lemma scan_call_fields:
  "d_onStack (scan_call func c s) = d_onStack s" "d_visited (scan_call func c s) = d_visited s"
  "d_stack (scan_call func c s) =
     (if c \<notin> d_onStack s \<and> c \<notin> d_visited s then [(c, False)] else []) @ d_stack s"
  "d_callees (scan_call func c s) = d_callees s \<union> (if c \<in> d_onStack s then {} else {c})"
  "d_recursive (scan_call func c s) = d_recursive s \<union> (if c \<in> d_onStack s then {func, c} else {})"
  by (auto simp: scan_call_def Let_def)

lemma fold_scan:
  "d_onStack (fold (scan_call func) cs s) = d_onStack s"
  "d_stack (fold (scan_call func) cs s) =
     map (\<lambda>c. (c, False)) (rev (filter (\<lambda>c. c \<notin> d_onStack s \<and> c \<notin> d_visited s) cs)) @ d_stack s"
  "d_callees (fold (scan_call func) cs s) = d_callees s \<union> (set cs - d_onStack s)"
  "d_recursive (fold (scan_call func) cs s) =
     d_recursive s \<union> (if set cs \<inter> d_onStack s = {} then {} else insert func (set cs \<inter> d_onStack s))"
  by (induction cs arbitrary: s) (auto simp: scan_call_fields)

lemma pre_visit_fields:
  "d_visited (pre_visit m func f s) = insert func (d_visited s)"
  "d_onStack (pre_visit m func f s) = insert func (d_onStack s)"
  "d_stack (pre_visit m func f s) =
     map (\<lambda>c. (c, False)) (rev (filter (\<lambda>c. c \<notin> insert func (d_onStack s) \<and> c \<notin> insert func (d_visited s))
       (defined_callees m f))) @ (func, True) # d_stack s"
  "d_callees (pre_visit m func f s) = d_callees s \<union> (set (defined_callees m f) - insert func (d_onStack s))"
  "d_recursive (pre_visit m func f s) = d_recursive s \<union>
     (if set (defined_callees m f) \<inter> insert func (d_onStack s) = {} then {}
      else insert func (set (defined_callees m f) \<inter> insert func (d_onStack s)))"
  by (simp_all add: pre_visit_def Let_def fold_scan)

text \<open>An edge that no back edge has marked at both ends.\<close>

definition clean :: "ir_module \<Rightarrow> nat set \<Rightarrow> nat \<Rightarrow> nat \<Rightarrow> bool" where
  "clean m rec_set f g \<longleftrightarrow> calls m f g \<and> \<not> (f \<in> rec_set \<and> g \<in> rec_set)"

text \<open>The functions whose traversal is over.\<close>

abbreviation finished :: "dfs \<Rightarrow> nat set" where
  "finished s \<equiv> d_visited s - d_onStack s"

definition markers_ok :: "dfs \<Rightarrow> bool" where
  "markers_ok s \<longleftrightarrow>
     d_onStack s \<subseteq> d_visited s \<and> (\<forall>f. (f, True) \<in> set (d_stack s) \<longleftrightarrow> f \<in> d_onStack s) \<and>
     distinct (map fst (filter snd (d_stack s)))"

text \<open>
  For every post-visit marker on the stack: a clean callee is finished or stands above the marker, and
  is the function of no marker from there down.
\<close>

definition pending_ok :: "ir_module \<Rightarrow> dfs \<Rightarrow> bool" where
  "pending_ok m s \<longleftrightarrow>
     (\<forall>upper f lower g. d_stack s = upper @ (f, True) # lower \<and> clean m (d_recursive s) f g \<longrightarrow>
        (g \<in> finished s \<or> g \<in> fst ` set upper) \<and> g \<noteq> f \<and> (g, True) \<notin> set lower)"

text \<open>A rank that falls along the clean calls of finished functions.\<close>

definition ranked :: "ir_module \<Rightarrow> nat set \<Rightarrow> nat set \<Rightarrow> bool" where
  "ranked m fin rec_set \<longleftrightarrow>
     (\<exists>rank :: nat \<Rightarrow> nat. \<forall>f\<in>fin. \<forall>g. clean m rec_set f g \<longrightarrow> g \<in> fin \<and> rank g < rank f)"

lemma ranked_mono: "ranked m fin rec_set \<Longrightarrow> rec_set \<subseteq> rec_set' \<Longrightarrow> ranked m fin rec_set'"
  unfolding ranked_def clean_def by blast

lemma ranked_insert:
  assumes "ranked m fin rec_set" and "f \<notin> fin" and "\<And>g. clean m rec_set f g \<Longrightarrow> g \<in> fin"
  shows "ranked m (insert f fin) rec_set"
proof -
  from assms(1) obtain rank :: "nat \<Rightarrow> nat" where
    rank: "\<And>h g. h \<in> fin \<Longrightarrow> clean m rec_set h g \<Longrightarrow> g \<in> fin \<and> rank g < rank h"
    unfolding ranked_def by blast
  have fin: "finite (rank ` {g. calls m f g})" using finite_calls by blast
  define rank' where "rank' = rank(f := Suc (Max (insert 0 (rank ` {g. calls m f g}))))"
  have "g \<in> insert f fin \<and> rank' g < rank' h" if "h \<in> insert f fin" "clean m rec_set h g" for h g
  proof (cases "h = f")
    case True
    then have g: "g \<in> fin" "calls m f g" using assms(3) that(2) by (auto simp: clean_def)
    then have "rank g \<le> Max (insert 0 (rank ` {g. calls m f g}))"
      using fin by (intro Max_ge) auto
    with g True assms(2) show ?thesis by (auto simp: rank'_def)
  next
    case False
    with that rank [of h g] assms(2) show ?thesis by (auto simp: rank'_def)
  qed
  then show ?thesis unfolding ranked_def by blast
qed

definition dfs_inv :: "ir_module \<Rightarrow> dfs \<Rightarrow> bool" where
  "dfs_inv m s \<longleftrightarrow> markers_ok s \<and> pending_ok m s \<and> ranked m (finished s) (d_recursive s)"

lemma pending_okD:
  assumes "pending_ok m s" and "d_stack s = upper @ (f, True) # lower" and "clean m (d_recursive s) f g"
  shows "g \<in> finished s \<or> g \<in> fst ` set upper" and "g \<noteq> f" and "(g, True) \<notin> set lower"
  using assms unfolding pending_ok_def by blast+

lemma post_visit_inv:
  assumes inv: "dfs_inv m s" and st: "d_stack s = (f, True) # rest"
  shows "dfs_inv m (s\<lparr>d_stack := rest, d_onStack := d_onStack s - {f}\<rparr>)"
proof -
  let ?s = "s\<lparr>d_stack := rest, d_onStack := d_onStack s - {f}\<rparr>"
  from inv st have mk: "d_onStack s \<subseteq> d_visited s" "f \<in> d_onStack s" "(f, True) \<notin> set rest"
    "distinct (map fst (filter snd rest))"
    by (force simp: dfs_inv_def markers_ok_def)+
  have fin: "finished ?s = insert f (finished s)" using mk(1,2) by auto
  have p: "pending_ok m s" and r: "ranked m (finished s) (d_recursive s)" using inv by (simp_all add: dfs_inv_def)
  have "markers_ok ?s"
    using inv st mk by (auto simp: dfs_inv_def markers_ok_def)
  moreover have "pending_ok m ?s"
    unfolding pending_ok_def
  proof (intro allI impI, elim conjE)
    fix upper f' lower g
    assume a: "d_stack ?s = upper @ (f', True) # lower" "clean m (d_recursive ?s) f' g"
    then have "d_stack s = ((f, True) # upper) @ (f', True) # lower" "clean m (d_recursive s) f' g" using st by simp_all
    from pending_okD [OF p this] show "(g \<in> finished ?s \<or> g \<in> fst ` set upper) \<and> g \<noteq> f' \<and> (g, True) \<notin> set lower"
      unfolding fin by auto
  qed
  moreover have "ranked m (finished ?s) (d_recursive ?s)"
    unfolding fin
  proof (simp, rule ranked_insert [OF r])
    show "f \<notin> finished s" using mk(2) by simp
    fix g assume "clean m (d_recursive s) f g"
    from pending_okD(1) [OF p _ this, of "[]" rest] st show "g \<in> finished s" by simp
  qed
  ultimately show ?thesis by (simp add: dfs_inv_def)
qed

lemma skip_inv:
  assumes inv: "dfs_inv m s" and st: "d_stack s = (f, False) # rest" and v: "f \<in> d_visited s"
  shows "dfs_inv m (s\<lparr>d_stack := rest\<rparr>)"
proof -
  let ?s = "s\<lparr>d_stack := rest\<rparr>"
  have p: "pending_ok m s" using inv by (simp add: dfs_inv_def)
  have "markers_ok ?s"
    using inv st by (auto simp: dfs_inv_def markers_ok_def)
  moreover have "pending_ok m ?s"
    unfolding pending_ok_def
  proof (intro allI impI, elim conjE)
    fix upper f' lower g
    assume a: "d_stack ?s = upper @ (f', True) # lower" "clean m (d_recursive ?s) f' g"
    then have s: "d_stack s = ((f, False) # upper) @ (f', True) # lower" "clean m (d_recursive s) f' g" using st by simp_all
    note g = pending_okD [OF p s]
    have "g \<in> finished s \<or> g \<in> fst ` set upper"
    proof (cases "g = f \<and> g \<notin> finished s")
      case True
      then have "(g, True) \<in> set (d_stack s)" using v inv by (auto simp: dfs_inv_def markers_ok_def)
      with s(1) g(2,3) have "(g, True) \<in> set upper" by auto
      then show ?thesis by force
    next
      case False
      with g(1) show ?thesis by auto
    qed
    with g(2,3) show "(g \<in> finished ?s \<or> g \<in> fst ` set upper) \<and> g \<noteq> f' \<and> (g, True) \<notin> set lower" by simp
  qed
  ultimately show ?thesis using inv by (simp add: dfs_inv_def)
qed

lemma append_marker_cases:
  assumes "map (\<lambda>c. (c, False)) xs @ (f, True) # rest = upper @ (f', True) # lower"
  shows "(upper = map (\<lambda>c. (c, False)) xs \<and> f' = f \<and> lower = rest) \<or>
     (\<exists>mid. upper = map (\<lambda>c. (c, False)) xs @ (f, True) # mid \<and> rest = mid @ (f', True) # lower)"
  using assms
proof (induction xs arbitrary: upper)
  case Nil
  then show ?case by (cases upper) auto
next
  case (Cons x xs)
  then show ?case by (cases upper) auto
qed

lemma pre_visit_inv:
  assumes inv: "dfs_inv m (s\<lparr>d_stack := (f, False) # d_stack s\<rparr>)" and new: "f \<notin> d_visited s"
    and h: "find_fn m f = Some h"
  shows "dfs_inv m (pre_visit m f h s)"
proof -
  let ?prev = "s\<lparr>d_stack := (f, False) # d_stack s\<rparr>"
  let ?s = "pre_visit m f h s"
  let ?pend = "rev (filter (\<lambda>c. c \<notin> insert f (d_onStack s) \<and> c \<notin> insert f (d_visited s)) (defined_callees m h))"
  note flds = pre_visit_fields [of m f h s]
  have mk: "d_onStack s \<subseteq> d_visited s" "\<And>g. (g, True) \<in> set (d_stack s) \<longleftrightarrow> g \<in> d_onStack s"
    "distinct (map fst (filter snd (d_stack s)))"
    using inv by (auto simp: dfs_inv_def markers_ok_def)
  have p: "pending_ok m ?prev" and r: "ranked m (finished s) (d_recursive s)" using inv by (simp_all add: dfs_inv_def)
  have fin: "finished ?s = finished s" using new mk(1) by (auto simp: flds)
  have stk: "d_stack ?s = map (\<lambda>c. (c, False)) ?pend @ (f, True) # d_stack s" by (simp add: flds)
  have rc: "d_recursive s \<subseteq> d_recursive ?s" by (auto simp: flds)
  have nf: "(f, True) \<notin> set (d_stack s)" using mk(1,2) new by auto
  have "markers_ok ?s"
    unfolding markers_ok_def stk
    using mk nf by (auto simp: flds filter_map o_def)
  moreover have "pending_ok m ?s"
    unfolding pending_ok_def
  proof (intro allI impI, elim conjE)
    fix upper f' lower g
    assume a: "d_stack ?s = upper @ (f', True) # lower" and c: "clean m (d_recursive ?s) f' g"
    from append_marker_cases [OF a [unfolded stk]]
    consider (new) "upper = map (\<lambda>c. (c, False)) ?pend" "f' = f" "lower = d_stack s"
      | (old) mid where "upper = map (\<lambda>c. (c, False)) ?pend @ (f, True) # mid" "d_stack s = mid @ (f', True) # lower"
      by blast
    then show "(g \<in> finished ?s \<or> g \<in> fst ` set upper) \<and> g \<noteq> f' \<and> (g, True) \<notin> set lower"
    proof cases
      case new
      have g: "g \<in> set (defined_callees m h)" using c new(2) h by (simp add: clean_def calls_def)
      have "g \<notin> insert f (d_onStack s)"
      proof
        assume "g \<in> insert f (d_onStack s)"
        with g have "g \<in> d_recursive ?s" "f \<in> d_recursive ?s" by (auto simp: flds)
        with c new(2) show False by (simp add: clean_def)
      qed
      moreover from this g have "g \<in> d_visited s \<or> g \<in> set ?pend" by auto
      ultimately show ?thesis
        unfolding fin new using mk(2) by (auto simp: image_iff)
    next
      case old
      have "clean m (d_recursive ?prev) f' g" using c rc by (auto simp: clean_def)
      with pending_okD [OF p, of "(f, False) # mid" f' lower g] old(2)
      have "g \<in> finished s \<or> g = f \<or> g \<in> fst ` set mid" "g \<noteq> f'" "(g, True) \<notin> set lower" by auto
      then show ?thesis unfolding fin old(1) by auto
    qed
  qed
  moreover have "ranked m (finished ?s) (d_recursive ?s)"
    unfolding fin by (rule ranked_mono [OF r rc])
  ultimately show ?thesis by (simp add: dfs_inv_def)
qed

definition cover_inv :: "ir_module \<Rightarrow> nat \<Rightarrow> nat set \<times> nat set \<Rightarrow> dfs \<Rightarrow> bool" where
  "cover_inv m root acc s \<longleftrightarrow>
     (\<forall>e\<in>set (d_stack s). (calls m)\<^sup>*\<^sup>* root (fst e)) \<and>
     (\<forall>f\<in>d_visited s. (calls m)\<^sup>*\<^sup>* root f) \<and>
     (\<forall>f\<in>d_visited s. \<forall>g. calls m f g \<longrightarrow>
        g \<in> d_callees s \<union> d_recursive s \<and> (g \<in> d_visited s \<or> g \<in> fst ` set (d_stack s))) \<and>
     (root \<in> d_visited s \<or> root \<in> fst ` set (d_stack s)) \<and>
     fst acc \<subseteq> d_callees s \<and> snd acc \<subseteq> d_recursive s \<and>
     d_callees s \<subseteq> fst acc \<union> {g. (calls m)\<^sup>+\<^sup>+ root g} \<and>
     d_onStack s \<subseteq> d_visited s"

lemma calls_present: "find_fn m f = None \<Longrightarrow> \<not> calls m f g"
  by (simp add: calls_def)

lemma reach_present:
  "(calls m)\<^sup>*\<^sup>* root f \<Longrightarrow> find_fn m root \<noteq> None \<Longrightarrow> find_fn m f \<noteq> None"
  by (induction rule: rtranclp_induct) (auto dest: calls_defined)

lemma cover_pre_visit:
  assumes c: "cover_inv m root acc (s\<lparr>d_stack := (f, False) # d_stack s\<rparr>)" and h: "find_fn m f = Some h"
  shows "cover_inv m root acc (pre_visit m f h s)"
proof -
  let ?s = "pre_visit m f h s"
  note flds = pre_visit_fields [of m f h s]
  from c have r: "(calls m)\<^sup>*\<^sup>* root f" by (simp add: cover_inv_def)
  have e: "set (defined_callees m h) = {g. calls m f g}" using h by (auto simp: calls_def)
  have r': "(calls m)\<^sup>+\<^sup>+ root g" if "calls m f g" for g
    using r that by (rule rtranclp_into_tranclp1)
  have r'': "(calls m)\<^sup>*\<^sup>* root g" if "calls m f g" for g
    using r' [OF that] by (rule tranclp_into_rtranclp)
  have 1: "\<forall>e\<in>set (d_stack ?s). (calls m)\<^sup>*\<^sup>* root (fst e)"
    using c r r'' e by (auto simp: flds cover_inv_def)
  have 2: "\<forall>f\<in>d_visited ?s. (calls m)\<^sup>*\<^sup>* root f"
    using c r by (auto simp: flds cover_inv_def)
  have 3: "g \<in> d_callees ?s \<union> d_recursive ?s \<and> (g \<in> d_visited ?s \<or> g \<in> fst ` set (d_stack ?s))"
    if k: "k \<in> d_visited ?s" "calls m k g" for k g
  proof (cases "k = f")
    case True
    with k(2) e have "g \<in> set (defined_callees m h)" by simp
    moreover have "d_onStack s \<subseteq> d_visited s" using c by (simp add: cover_inv_def)
    ultimately have "g \<in> d_callees ?s \<union> d_recursive ?s" "g \<in> d_visited ?s \<or> (g, False) \<in> set (d_stack ?s)"
      by (auto simp: flds)
    then show ?thesis by force
  next
    case False
    with k(1) have "k \<in> d_visited s" by (simp add: flds)
    with c k(2) have "g \<in> d_callees s \<union> d_recursive s" "g \<in> d_visited s \<or> g = f \<or> g \<in> fst ` set (d_stack s)"
      by (auto simp: cover_inv_def)
    then show ?thesis by (auto simp: flds)
  qed
  have 4: "root \<in> d_visited ?s \<or> root \<in> fst ` set (d_stack ?s)"
    using c by (auto simp: flds cover_inv_def)
  have 5: "fst acc \<subseteq> d_callees ?s" "snd acc \<subseteq> d_recursive ?s"
    using c by (auto simp: flds cover_inv_def)
  have 6: "d_callees ?s \<subseteq> fst acc \<union> {g. (calls m)\<^sup>+\<^sup>+ root g}"
    using c r' e by (auto simp: flds cover_inv_def)
  have 7: "d_onStack ?s \<subseteq> d_visited ?s" using c by (auto simp: flds cover_inv_def)
  show ?thesis unfolding cover_inv_def using 1 2 3 4 5 6 7 by blast
qed

lemma dfs_step_inv:
  assumes "dfs_inv m s" and "cover_inv m root acc s" and "find_fn m root \<noteq> None"
    and st: "d_stack s = (f, post) # rest"
  shows "dfs_inv m (dfs_step m f post (s\<lparr>d_stack := rest\<rparr>)) \<and>
    cover_inv m root acc (dfs_step m f post (s\<lparr>d_stack := rest\<rparr>))"
proof (cases post)
  case True
  with assms(1) st have on: "f \<in> d_visited s" by (force simp: dfs_inv_def markers_ok_def)
  have "dfs_step m f post (s\<lparr>d_stack := rest\<rparr>) = s\<lparr>d_stack := rest, d_onStack := d_onStack s - {f}\<rparr>"
    using True by (simp add: dfs_step_def)
  with post_visit_inv [OF assms(1)] st True assms(2) on show ?thesis
    by (auto simp: cover_inv_def)
next
  case False
  show ?thesis
  proof (cases "f \<in> d_visited s")
    case True
    with False have "dfs_step m f post (s\<lparr>d_stack := rest\<rparr>) = s\<lparr>d_stack := rest\<rparr>" by (simp add: dfs_step_def)
    with skip_inv [OF assms(1)] st False True assms(2) show ?thesis
      by (auto simp: cover_inv_def)
  next
    case new: False
    have "(calls m)\<^sup>*\<^sup>* root f" using assms(2) st by (auto simp: cover_inv_def)
    then obtain h where h: "find_fn m f = Some h" using reach_present [OF _ assms(3)] by auto
    have s: "s = (s\<lparr>d_stack := rest\<rparr>)\<lparr>d_stack := (f, False) # d_stack (s\<lparr>d_stack := rest\<rparr>)\<rparr>"
      using st False by simp
    have "dfs_step m f post (s\<lparr>d_stack := rest\<rparr>) = pre_visit m f h (s\<lparr>d_stack := rest\<rparr>)"
      using False new h by (simp add: dfs_step_def)
    with pre_visit_inv [where m = m and s = "s\<lparr>d_stack := rest\<rparr>" and f = f and h = h]
      cover_pre_visit [where m = m and s = "s\<lparr>d_stack := rest\<rparr>" and f = f and h = h]
      assms(1,2) s h new show ?thesis by simp
  qed
qed

lemma dfs_loop_inv:
  "dfs_inv m s \<Longrightarrow> cover_inv m root acc s \<Longrightarrow> find_fn m root \<noteq> None \<Longrightarrow>
   dfs_inv m (dfs_loop m s) \<and> cover_inv m root acc (dfs_loop m s) \<and> d_stack (dfs_loop m s) = []"
proof (induction m s rule: dfs_loop.induct)
  case (1 m s)
  show ?case
  proof (cases "d_stack s")
    case Nil
    with 1 show ?thesis by (subst (1 2 3) dfs_loop.simps) simp
  next
    case (Cons e rest)
    obtain f post where e: "e = (f, post)" by (cases e)
    note st = Cons [unfolded e]
    have "dfs_loop m s = dfs_loop m (dfs_step m f post (s\<lparr>d_stack := rest\<rparr>))"
      by (subst dfs_loop.simps) (simp add: st)
    with "1.IH" [OF st refl] dfs_step_inv [OF "1.prems" st] "1.prems"(3) show ?thesis by simp
  qed
qed

lemma collect_correct:
  assumes root: "find_fn m root \<noteq> None" and res: "collectTransitiveCallees m root acc = (cs, rs)"
  shows "fst acc \<subseteq> cs \<and> snd acc \<subseteq> rs \<and> cs \<subseteq> fst acc \<union> {g. (calls m)\<^sup>+\<^sup>+ root g} \<and>
     {g. (calls m)\<^sup>+\<^sup>+ root g} \<subseteq> cs \<union> rs \<and> ranked m {g. (calls m)\<^sup>*\<^sup>* root g} rs"
proof -
  let ?i = "\<lparr>d_visited = {}, d_onStack = {}, d_stack = [(root, False)], d_callees = fst acc, d_recursive = snd acc\<rparr>"
  let ?s = "dfs_loop m ?i"
  have "dfs_inv m ?i"
    by (auto simp: dfs_inv_def markers_ok_def pending_ok_def ranked_def Cons_eq_append_conv)
  moreover have "cover_inv m root acc ?i" by (simp add: cover_inv_def)
  ultimately have I: "dfs_inv m ?s" "cover_inv m root acc ?s" "d_stack ?s = []"
    using dfs_loop_inv root by blast+
  have on: "d_onStack ?s = {}" using I(1,3) by (auto simp: dfs_inv_def markers_ok_def)
  have vis: "(calls m)\<^sup>*\<^sup>* root g \<Longrightarrow> g \<in> d_visited ?s" for g
  proof (induction rule: rtranclp_induct)
    case base
    with I(2,3) show ?case by (simp add: cover_inv_def)
  next
    case (step f g)
    with I(2,3) show ?case by (auto simp: cover_inv_def)
  qed
  have reach: "{g. (calls m)\<^sup>*\<^sup>* root g} = finished ?s"
    using vis I(2) on by (auto simp: cover_inv_def)
  have "g \<in> d_callees ?s \<union> d_recursive ?s" if "(calls m)\<^sup>+\<^sup>+ root g" for g
  proof -
    from that obtain f where "(calls m)\<^sup>*\<^sup>* root f" "calls m f g" 
      by (metis tranclp.simps tranclp_into_rtranclp rtranclp.rtrancl_refl)
    with vis I(2) show ?thesis by (auto simp: cover_inv_def)
  qed
  then show ?thesis
    using I(1,2) res unfolding reach
    by (auto simp: collectTransitiveCallees_def Let_def cover_inv_def dfs_inv_def)
qed

subsection \<open>All functors together\<close>

lemma functor_roots_present: "r \<in> set (functor_roots m pm blocks) \<Longrightarrow> find_fn m r \<noteq> None"
  by (auto simp: functor_roots_def List.map_filter_def split: if_splits option.splits)

lemma functor_callees_fold:
  assumes "\<forall>r\<in>set roots. find_fn m r \<noteq> None" and "fold (collectTransitiveCallees m) roots acc = (cs, rs)"
  shows "snd acc \<subseteq> rs \<and> cs \<subseteq> fst acc \<union> {g. \<exists>r\<in>set roots. (calls m)\<^sup>+\<^sup>+ r g} \<and>
     fst acc \<subseteq> cs \<and> {g. \<exists>r\<in>set roots. (calls m)\<^sup>+\<^sup>+ r g} \<subseteq> cs \<union> rs \<and>
     (\<forall>r\<in>set roots. ranked m {g. (calls m)\<^sup>*\<^sup>* r g} rs)"
  using assms
proof (induction roots arbitrary: acc)
  case Nil
  then show ?case by auto
next
  case (Cons r roots)
  obtain cs1 rs1 where 1: "collectTransitiveCallees m r acc = (cs1, rs1)" by fastforce
  from Cons.prems(1) have "find_fn m r \<noteq> None" by simp
  note c = collect_correct [OF this 1]
  from Cons.prems 1 have "\<forall>r\<in>set roots. find_fn m r \<noteq> None"
    "fold (collectTransitiveCallees m) roots (cs1, rs1) = (cs, rs)" by simp_all
  note IH = Cons.IH [OF this, unfolded fst_conv snd_conv]
  have "ranked m {g. (calls m)\<^sup>*\<^sup>* r g} rs" using c IH ranked_mono by blast
  moreover have "snd acc \<subseteq> rs" "fst acc \<subseteq> cs" using c IH by blast+
  moreover have "cs \<subseteq> fst acc \<union> {g. \<exists>r\<in>set (r # roots). (calls m)\<^sup>+\<^sup>+ r g}" using c IH by auto
  moreover have "{g. \<exists>r\<in>set (r # roots). (calls m)\<^sup>+\<^sup>+ r g} \<subseteq> cs \<union> rs" using c IH by auto
  ultimately show ?case using IH by simp
qed

lemma ranked_acyclic:
  assumes "\<forall>r\<in>R. ranked m {g. (calls m)\<^sup>*\<^sup>* r g} rs" and "F \<subseteq> {g. \<exists>r\<in>R. (calls m)\<^sup>*\<^sup>* r g}" and "F \<inter> rs = {}"
  shows "acyclic {(f, g). calls m f g \<and> f \<in> F \<and> g \<in> F}"
proof (rule acyclicI, rule allI, rule notI)
  let ?E = "{(f, g). calls m f g \<and> f \<in> F \<and> g \<in> F}"
  fix x assume x: "(x, x) \<in> ?E\<^sup>+"
  from tranclD [OF this] have "x \<in> F" by auto
  with assms(2) obtain r where r: "r \<in> R" "(calls m)\<^sup>*\<^sup>* r x" by blast
  from assms(1) r(1) obtain rank :: "nat \<Rightarrow> nat" where
    rank: "\<And>f g. (calls m)\<^sup>*\<^sup>* r f \<Longrightarrow> clean m rs f g \<Longrightarrow> rank g < rank f"
    unfolding ranked_def by blast
  have along: "(calls m)\<^sup>*\<^sup>* r g \<and> rank g < rank f" if "(calls m)\<^sup>*\<^sup>* r f" "(f, g) \<in> ?E" for f g
  proof -
    have "clean m rs f g" using that(2) assms(3) by (auto simp: clean_def)
    moreover have "(calls m)\<^sup>*\<^sup>* r g" using that by (auto intro: rtranclp.rtrancl_into_rtrancl)
    ultimately show ?thesis using rank that(1) by blast
  qed
  have "(calls m)\<^sup>*\<^sup>* r y \<and> rank y < rank x" if "(x, y) \<in> ?E\<^sup>+" for y
    using that
  proof (induction rule: trancl_induct)
    case (base y)
    with along [OF r(2)] show ?case by blast
  next
    case (step y z)
    from along [of y z] step.IH step.hyps(2) show ?case by auto
  qed
  from this [OF x] show False by simp
qed

subsection \<open>What is marked recursive is on a cycle\<close>

text \<open>Everything above a post-visit marker is called from the marked function, directly or not.\<close>

definition chain_inv :: "ir_module \<Rightarrow> nat set \<times> nat set \<Rightarrow> dfs \<Rightarrow> bool" where
  "chain_inv m acc s \<longleftrightarrow>
     sorted_wrt (\<lambda>e e'. snd e' \<longrightarrow> (calls m)\<^sup>+\<^sup>+ (fst e') (fst e)) (d_stack s) \<and>
     d_recursive s \<subseteq> snd acc \<union> {g. (calls m)\<^sup>+\<^sup>+ g g}"

lemma chain_pre_visit:
  assumes c: "chain_inv m acc (s\<lparr>d_stack := (f, False) # d_stack s\<rparr>)" and h: "find_fn m f = Some h"
    and on: "\<And>g. g \<in> d_onStack s \<Longrightarrow> (g, True) \<in> set (d_stack s)"
  shows "chain_inv m acc (pre_visit m f h s)"
proof -
  note flds = pre_visit_fields [of m f h s]
  have e: "g \<in> set (defined_callees m h) \<longleftrightarrow> calls m f g" for g using h by (auto simp: calls_def)
  have below: "(calls m)\<^sup>+\<^sup>+ g f" if "(g, True) \<in> set (d_stack s)" for g
    using c that by (auto simp: chain_inv_def)
  then have beyond: "(calls m)\<^sup>+\<^sup>+ g k" if "(g, True) \<in> set (d_stack s)" "calls m f k" for g k
    using that by (meson tranclp.trancl_into_trancl)
  have "sorted_wrt (\<lambda>e e'. snd e' \<longrightarrow> (calls m)\<^sup>+\<^sup>+ (fst e') (fst e)) (d_stack (pre_visit m f h s))"
    using c e below beyond
    by (auto simp: flds chain_inv_def sorted_wrt_append sorted_wrt_map sorted_wrt_true)
  moreover have "(calls m)\<^sup>+\<^sup>+ g g \<and> (calls m)\<^sup>+\<^sup>+ f f" if "calls m f g" "g \<in> insert f (d_onStack s)" for g
  proof (cases "g = f")
    case True
    with that show ?thesis by auto
  next
    case False
    with that on have "(g, True) \<in> set (d_stack s)" by blast
    from below [OF this] that(1) show ?thesis
      by (meson tranclp.trancl_into_trancl tranclp_into_tranclp2)
  qed
  then have "d_recursive (pre_visit m f h s) \<subseteq> snd acc \<union> {g. (calls m)\<^sup>+\<^sup>+ g g}"
    using c e by (auto simp: flds chain_inv_def split: if_splits)
  ultimately show ?thesis by (simp add: chain_inv_def)
qed

lemma chain_step:
  assumes c: "chain_inv m acc s" and mk: "markers_ok s" and st: "d_stack s = (f, post) # rest"
  shows "chain_inv m acc (dfs_step m f post (s\<lparr>d_stack := rest\<rparr>))"
proof (cases "\<not> post \<and> f \<notin> d_visited s \<and> find_fn m f \<noteq> None")
  case True
  then obtain h where h: "find_fn m f = Some h" by auto
  have "chain_inv m acc ((s\<lparr>d_stack := rest\<rparr>)\<lparr>d_stack := (f, False) # d_stack (s\<lparr>d_stack := rest\<rparr>)\<rparr>)"
    using c st True by (simp add: chain_inv_def)
  from chain_pre_visit [OF this h] have "chain_inv m acc (pre_visit m f h (s\<lparr>d_stack := rest\<rparr>))"
    using mk st True by (auto simp: markers_ok_def)
  with True h show ?thesis by (simp add: dfs_step_def)
next
  case False
  with c st show ?thesis by (auto simp: dfs_step_def chain_inv_def)
qed

lemma chain_loop:
  "chain_inv m acc s \<Longrightarrow> dfs_inv m s \<Longrightarrow> cover_inv m root acc' s \<Longrightarrow> find_fn m root \<noteq> None \<Longrightarrow>
   chain_inv m acc (dfs_loop m s)"
proof (induction m s rule: dfs_loop.induct)
  case (1 m s)
  show ?case
  proof (cases "d_stack s")
    case Nil
    with 1 show ?thesis by (subst dfs_loop.simps) simp
  next
    case (Cons e rest)
    obtain f post where e: "e = (f, post)" by (cases e)
    note st = Cons [unfolded e]
    have "dfs_loop m s = dfs_loop m (dfs_step m f post (s\<lparr>d_stack := rest\<rparr>))"
      by (subst dfs_loop.simps) (simp add: st)
    with "1.IH" [OF st refl] dfs_step_inv [OF "1.prems"(2-4) st] chain_step [OF "1.prems"(1) _ st] "1.prems"
    show ?thesis by (simp add: dfs_inv_def)
  qed
qed

lemma functor_recursive:
  "\<forall>r\<in>set roots. find_fn m r \<noteq> None \<Longrightarrow> snd acc \<subseteq> {g. (calls m)\<^sup>+\<^sup>+ g g} \<Longrightarrow>
   snd (fold (collectTransitiveCallees m) roots acc) \<subseteq> {g. (calls m)\<^sup>+\<^sup>+ g g}"
proof (induction roots arbitrary: acc)
  case (Cons r roots)
  let ?i = "\<lparr>d_visited = {}, d_onStack = {}, d_stack = [(r, False)], d_callees = fst acc, d_recursive = snd acc\<rparr>"
  have "dfs_inv m ?i"
    by (auto simp: dfs_inv_def markers_ok_def pending_ok_def ranked_def Cons_eq_append_conv)
  moreover have "cover_inv m r acc ?i" by (simp add: cover_inv_def)
  moreover have "chain_inv m acc ?i" by (simp add: chain_inv_def)
  ultimately have "chain_inv m acc (dfs_loop m ?i)" using chain_loop Cons.prems(1) by simp
  with Cons.prems(2) have "snd (collectTransitiveCallees m r acc) \<subseteq> {g. (calls m)\<^sup>+\<^sup>+ g g}"
    by (auto simp: collectTransitiveCallees_def Let_def chain_inv_def)
  from Cons.IH [OF _ this] Cons.prems(1) show ?case by simp
qed simp

subsection \<open>Attributes leave the call graph alone\<close>

definition body_of :: "ir_module \<Rightarrow> nat \<Rightarrow> (nat option list \<times> bool) option" where
  "body_of m i = map_option (\<lambda>f. (if_calls f, if_declaration f)) (find_fn m i)"

definition always_inline :: "ir_module \<Rightarrow> nat set" where
  "always_inline m = {i. \<exists>f. find_fn m i = Some f \<and> AlwaysInline \<in> if_attrs f}"

lemma calls_body:
  "calls m f g \<longleftrightarrow> (\<exists>cs d. body_of m f = Some (cs, d) \<and> Some g \<in> set cs) \<and> (\<exists>cs. body_of m g = Some (cs, False))"
  by (auto simp: calls_def body_of_def defined_callees_def List.map_filter_def image_iff split: option.splits)
    (metis option.sel)+

lemma functor_roots_body:
  assumes "body_of m = body_of m'"
  shows "functor_roots m pm blocks = functor_roots m' pm blocks"
proof -
  have r: "functor_roots m pm blocks = List.map_filter (\<lambda>(_, lb).
       if \<not> lb_isPipeline lb then None
       else (case map_of (pm_matched pm) (lb_qualifiedName lb) of
               None \<Rightarrow> None
             | Some i \<Rightarrow> (case body_of m i of None \<Rightarrow> None | Some (_, d) \<Rightarrow> if d then None else Some i))) blocks"
    for m
    unfolding functor_roots_def
    by (intro arg_cong2 [where f = List.map_filter] ext refl) (auto simp: body_of_def split: option.splits)
  show ?thesis unfolding r assms ..
qed

lemma annotate_body: "body_of (fst (annotate_function level cc q e acc)) = body_of (fst acc)"
  by (auto simp: annotate_function_def body_of_def fun_eq_iff find_fn_upd keeps_id_def option.map_comp o_def
      split: option.splits prod.splits)

lemma annotate_fold_body: "body_of (fst (fold (annotate_function level cc q) es acc)) = body_of (fst acc)"
  by (induction es arbitrary: acc) (simp_all add: annotate_body)

text \<open>What step 2 does to one collected function.\<close>

definition may_force :: "(nat \<times> Visibility) list \<Rightarrow> nat set \<Rightarrow> (nat \<Rightarrow> (nat option list \<times> bool) option) \<Rightarrow> nat set" where
  "may_force funcVis recursive body =
     {g. g \<notin> recursive \<and> map_of funcVis g \<in> {Some Private, Some Internal} \<and> (\<exists>cs. body g = Some (cs, False))}"

lemma force_attrs:
  "always_inline (fst (force_function funcVis q recursive c acc)) =
     always_inline (fst acc) \<union> ({c} \<inter> may_force funcVis recursive (body_of (fst acc))) \<and>
   body_of (fst (force_function funcVis q recursive c acc)) = body_of (fst acc)"
proof (cases acc)
  case (Pair m report)
  show ?thesis
  proof (cases "c \<in> recursive \<or> find_fn m c = None \<or> map_of funcVis c = None")
    case True
    with Pair show ?thesis
      by (auto simp: force_function_def may_force_def body_of_def split: option.splits)
  next
    case False
    then obtain f vis where f: "c \<notin> recursive" "find_fn m c = Some f" "map_of funcVis c = Some vis" by auto
    then show ?thesis
      using Pair
      by (auto simp: force_function_def may_force_def body_of_def always_inline_def fun_eq_iff find_fn_upd
          keeps_id_def split: if_splits)
  qed
qed

lemma force_fold_attrs:
  "always_inline (fst (fold (force_function funcVis q recursive) cs acc)) =
     always_inline (fst acc) \<union> (set cs \<inter> may_force funcVis recursive (body_of (fst acc)))"
  by (induction cs arbitrary: acc) (auto simp: force_attrs)

lemma reached_finite: "finite {g. (calls m)\<^sup>+\<^sup>+ r g}"
proof (rule finite_subset)
  show "{g. (calls m)\<^sup>+\<^sup>+ r g} \<subseteq> if_id ` set (im_functions m)"
  proof
    fix g assume "g \<in> {g. (calls m)\<^sup>+\<^sup>+ r g}"
    then obtain f where "calls m f g" by (auto elim: tranclp.cases)
    from calls_defined [OF this] show "g \<in> if_id ` set (im_functions m)" using find_fn_Some by blast
  qed
qed simp

section \<open>What the pass guarantees\<close>

text \<open>C19. The forced inlining of pipeline functors can be carried out and leaves nothing out. The functions
that step 2 makes \<open>alwaysinline\<close>, beyond those step 1 has made so, never call each other in a cycle, each of
them is reached by a functor, and of the private and internal functions a functor reaches, every one that
is on no cycle of calls is \<open>alwaysinline\<close> at the end. The iteration order of the set of callees is any.\<close>

theorem functor_inlining_acyclic:
  assumes "\<And>S. finite S \<Longrightarrow> set (order S) = S"
    and "m1 = fst (inline_run order m level entries pm None)"
    and "m2 = fst (inline_run order m level entries pm (Some blocks))"
    and "reached = {g. \<exists>r\<in>set (functor_roots m pm blocks). (calls m)\<^sup>+\<^sup>+ r g}"
  shows "acyclic {(f, g). calls m f g \<and> {f, g} \<subseteq> always_inline m2 - always_inline m1} \<and>
    always_inline m2 - always_inline m1 \<subseteq> reached \<and>
    {g \<in> reached. \<not> (calls m)\<^sup>+\<^sup>+ g g \<and> map_of (entry_visibilities entries pm) g \<in> {Some Private, Some Internal}}
      \<subseteq> always_inline m2"
proof -
  let ?roots = "functor_roots m pm blocks" and ?vis = "entry_visibilities entries pm"
  obtain report where a: "fold (annotate_function level (call_count m) (entry_names entries pm)) ?vis (m, []) = (m1, report)"
    using assms(2) by (cases "fold (annotate_function level (call_count m) (entry_names entries pm)) ?vis (m, [])")
      (simp add: inline_run_def)
  have b: "body_of m1 = body_of m" using annotate_fold_body [of level "call_count m" "entry_names entries pm" ?vis "(m, [])"] a by simp
  then have cl: "calls m1 = calls m" and rt: "functor_roots m1 pm blocks = ?roots"
    by (auto simp: fun_eq_iff calls_body intro: functor_roots_body)
  obtain cs rs where c: "functor_callees m1 ?roots = (cs, rs)" by fastforce
  have pr: "\<forall>r\<in>set ?roots. find_fn m1 r \<noteq> None" using functor_roots_present [of _ m1 pm blocks] rt by auto
  from functor_callees_fold [OF pr c [unfolded functor_callees_def]]
  have f: "cs \<subseteq> reached" "reached \<subseteq> cs \<union> rs" "\<forall>r\<in>set ?roots. ranked m1 {g. (calls m1)\<^sup>*\<^sup>* r g} rs"
    by (auto simp: assms(4) cl)
  have rs: "rs \<subseteq> {g. (calls m)\<^sup>+\<^sup>+ g g}"
    using functor_recursive [OF pr, of "({}, {})"] c cl by (simp add: functor_callees_def)
  have "finite reached" unfolding assms(4) using reached_finite [of m] by simp
  with f(1) have "set (order cs) = cs" using assms(1) finite_subset by blast
  then have m2: "always_inline m2 = always_inline m1 \<union> (cs \<inter> may_force ?vis rs (body_of m1))"
    using assms(3) a c rt by (simp add: inline_run_def force_fold_attrs)
  have new: "always_inline m2 - always_inline m1 \<subseteq> cs - rs" unfolding m2 by (auto simp: may_force_def)
  have "cs - rs \<subseteq> {g. \<exists>r\<in>set ?roots. (calls m1)\<^sup>*\<^sup>* r g}"
    using f(1) by (auto simp: assms(4) cl intro: tranclp_into_rtranclp)
  then have "acyclic {(f, g). calls m f g \<and> f \<in> cs - rs \<and> g \<in> cs - rs}"
    using ranked_acyclic [OF f(3), of "cs - rs"] cl by auto
  then have "acyclic {(f, g). calls m f g \<and> {f, g} \<subseteq> always_inline m2 - always_inline m1}"
    by (rule acyclic_subset) (use new in auto)
  moreover have "g \<in> always_inline m2"
    if g: "g \<in> reached" "\<not> (calls m)\<^sup>+\<^sup>+ g g" "map_of ?vis g \<in> {Some Private, Some Internal}" for g
  proof -
    from g(1,2) f(2) rs have "g \<in> cs" "g \<notin> rs" by auto
    moreover from g(1) obtain k where "calls m k g" by (auto simp: assms(4) elim: tranclp.cases)
    then have "\<exists>cs. body_of m1 g = Some (cs, False)" unfolding b calls_body by blast
    ultimately show ?thesis using g(3) by (simp add: m2 may_force_def)
  qed
  ultimately show ?thesis using new f(1) by blast
qed

text \<open>Only the two ends of a back edge are marked: in a cycle of three functions the middle one is not,
and is forced to be inlined, although it is part of the cycle.\<close>

definition cycle_fn :: "nat \<Rightarrow> nat \<Rightarrow> ir_function" where
  "cycle_fn i j =
     \<lparr>if_id = i, if_name = [], if_declaration = False, if_linkage = ExternalLinkage,
      if_visibility = DefaultVisibility, if_dllexport = False, if_dso_local = False, if_attrs = {},
      if_subprogram = True, if_only_reads = False, if_readonly_args = [], if_metadata = {}, if_section = [],
      if_calls = [Some j]\<rparr>"

lemma cycle_member_forced:
  "collectTransitiveCallees
     \<lparr>im_triple = [], im_functions = [cycle_fn 0 1, cycle_fn 1 2, cycle_fn 2 0], im_globals = []\<rparr> 0 ({}, {})
   = ({1, 2}, {0, 2})"
  by code_simp

definition functor_module :: ir_module where
  "functor_module =
     \<lparr>im_triple = [], im_functions = [cycle_fn 0 1, (cycle_fn 1 0)\<lparr>if_calls := []\<rparr>, cycle_fn 2 1], im_globals = []\<rparr>"

definition functor_entries :: "VisibilityEntry list" where
  "functor_entries = [\<lparr>ve_qualifiedName = ''helper'', ve_visibility = Private, ve_bindingTarget = None, ve_paramConsts = []\<rparr>]"

definition functor_block :: LogicBlock where
  "functor_block =
     \<lparr>lb_qualifiedName = ''run'', lb_location = 1, lb_isPipeline = True, lb_calledFunctions = [], lb_stages = [], lb_edges = []\<rparr>"

text \<open>A private function with two callers gets a hint in step 1; a functor calls it, and step 2 forces it.\<close>

theorem functor_inlining_acyclic_witness:
  "1 \<in> always_inline (fst (inline_run sorted_list_of_set functor_module O0 functor_entries
     \<lparr>pm_matched = [(''helper'', 1), (''run'', 0)], pm_unmatchedTopo = []\<rparr> (Some [(''run'', functor_block)])))"
proof -
  let ?pm = "\<lparr>pm_matched = [(''helper'', 1), (''run'', 0)], pm_unmatchedTopo = []\<rparr>"
  have c: "calls functor_module f g \<longleftrightarrow> f \<in> {0, 2} \<and> g = 1" for f g
    by (auto simp: calls_def find_fn_def functor_module_def cycle_fn_def defined_callees_def List.map_filter_def)
  have r: "functor_roots functor_module ?pm [(''run'', functor_block)] = [0]"
    by (simp add: functor_roots_def functor_block_def functor_module_def find_fn_def cycle_fn_def List.map_filter_def)
  have v: "map_of (entry_visibilities functor_entries ?pm) 1 = Some Private"
    by (simp add: entry_visibilities_def functor_entries_def )
  have "\<not> (calls functor_module)\<^sup>+\<^sup>+ 1 1" by (auto simp: c dest: tranclpD)
  moreover have "(calls functor_module)\<^sup>+\<^sup>+ 0 1" by (rule tranclp.r_into_trancl) (simp add: c)
  moreover have "set (sorted_list_of_set S) = S" if "finite S" for S :: "nat set" using that by simp
  from functor_inlining_acyclic [of sorted_list_of_set _ functor_module O0 functor_entries ?pm _
      "[(''run'', functor_block)]", OF this refl refl refl, THEN conjunct2, THEN conjunct2]
  have "1 \<in> always_inline (fst (inline_run sorted_list_of_set functor_module O0 functor_entries ?pm
      (Some [(''run'', functor_block)])))"
    if "(calls functor_module)\<^sup>+\<^sup>+ 0 1" "\<not> (calls functor_module)\<^sup>+\<^sup>+ 1 1"
    by (rule subsetD) (use r v that in simp_all)
  ultimately show ?thesis by blast
qed

end
