(* ===== verification/PassReports.thy ===== *)
theory PassReports
  imports InlinePass Double64
begin

text \<open>
  include/topo/Backend/PassReports.h: what the passes that judge report. Every one of the eleven
  reports has a header; the headers are a map from the pass, the details a field per report.
\<close>

record PassReportHeader =
  hd_passName :: string
  hd_category :: string
  hd_fired :: bool
  hd_firedCount :: int
  hd_decision :: string
  hd_reason :: string
  hd_elapsedNs :: int

definition empty_header :: PassReportHeader where
  "empty_header = \<lparr>hd_passName = [], hd_category = [], hd_fired = False, hd_firedCount = 0,
     hd_decision = [], hd_reason = [], hd_elapsedNs = 0\<rparr>"

datatype judging =
  DataLayoutPass | IndirectionPass | TopoParallelPass | LifetimeArenaPass | ReturnSpecializationPass
| TopoInlinePass | TopoFlattenPass | AdaptiveDispatchPass | PrefetchPass | ContainmentInterceptionPass
| LoopParallelizePass

fun pass_name :: "judging \<Rightarrow> string" where
  "pass_name DataLayoutPass = ''DataLayoutPass''"
| "pass_name IndirectionPass = ''IndirectionPass''"
| "pass_name TopoParallelPass = ''TopoParallelPass''"
| "pass_name LifetimeArenaPass = ''LifetimeArenaPass''"
| "pass_name ReturnSpecializationPass = ''ReturnSpecializationPass''"
| "pass_name TopoInlinePass = ''TopoInlinePass''"
| "pass_name TopoFlattenPass = ''TopoFlattenPass''"
| "pass_name AdaptiveDispatchPass = ''AdaptiveDispatchPass''"
| "pass_name PrefetchPass = ''PrefetchPass''"
| "pass_name ContainmentInterceptionPass = ''ContainmentInterceptionPass''"
| "pass_name LoopParallelizePass = ''LoopParallelizePass''"

lemma pass_name_inject [simp]: "pass_name p = pass_name q \<longleftrightarrow> p = q"
  by (cases p; cases q) simp_all

text \<open>
  A benchmarked candidate: a pipeline for \<open>TopoParallelCandidate\<close>, an owner for
  \<open>LifetimeArenaCandidate\<close>.
\<close>

record Candidate =
  ca_name :: string
  ca_baselineNs :: int
  ca_variantNs :: int
  ca_speedup :: double
  ca_winner :: string
  ca_applied :: bool

record DataLayoutCandidate =
  dl_pipelineName :: string
  dl_wrapperIRType :: string
  dl_elementIRType :: string
  dl_arraySize :: u64
  dl_baselineNs :: int
  dl_variantNs :: int
  dl_speedup :: double
  dl_winner :: string
  dl_applied :: bool

record IndirectionStats =
  is_uniquePtrPromoted :: int
  is_sharedPtrOptimized :: int
  is_sharedPtrDereferenced :: int
  is_refcountEliminated :: int
  is_vectorLowered :: int
  is_pointerAttrsAdded :: int
  is_callsDevirtualized :: int
  is_vtableConstantsAnnotated :: int

definition no_indirection :: IndirectionStats where
  "no_indirection = \<lparr>is_uniquePtrPromoted = 0, is_sharedPtrOptimized = 0, is_sharedPtrDereferenced = 0,
     is_refcountEliminated = 0, is_vectorLowered = 0, is_pointerAttrsAdded = 0, is_callsDevirtualized = 0,
     is_vtableConstantsAnnotated = 0\<rparr>"

definition stats_total :: "IndirectionStats \<Rightarrow> int" where
  "stats_total s = is_uniquePtrPromoted s + is_sharedPtrOptimized s + is_sharedPtrDereferenced s
     + is_refcountEliminated s + is_vectorLowered s + is_pointerAttrsAdded s + is_callsDevirtualized s
     + is_vtableConstantsAnnotated s"

record ReturnSpecializationEntry =
  rs_hostFunction :: string
  rs_eliminated :: "int list"
  rs_kept :: "int list"

record AdaptiveDispatchEntry =
  ade_stageName :: string
  ade_defaultVariant :: string

record PrefetchEntry =
  pf_hostFunction :: string
  pf_insertedHints :: int
  pf_distance :: int

record ContainmentInterceptionEntry =
  ci_callerFunction :: string
  ci_interceptedCallee :: string

record LoopParallelizeEntry =
  lp_hostFunction :: string
  lp_annotatedLoops :: int

record PassReports =
  rp_headers :: "judging \<Rightarrow> PassReportHeader"
  rp_dataLayout :: "DataLayoutCandidate list"
  rp_indirection :: IndirectionStats
  rp_topoParallel :: "Candidate list"
  rp_lifetimeArena :: "Candidate list"
  rp_returnSpecialization :: "ReturnSpecializationEntry list"
  rp_topoInline :: "TopoInlineEntry list"
  rp_topoFlatten :: "string list"
  rp_adaptiveDispatch :: "AdaptiveDispatchEntry list"
  rp_prefetch :: "PrefetchEntry list"
  rp_containmentInterception :: "ContainmentInterceptionEntry list"
  rp_loopParallelize :: "LoopParallelizeEntry list"

definition empty_reports :: PassReports where
  "empty_reports = \<lparr>rp_headers = (\<lambda>_. empty_header), rp_dataLayout = [], rp_indirection = no_indirection,
     rp_topoParallel = [], rp_lifetimeArena = [], rp_returnSpecialization = [], rp_topoInline = [],
     rp_topoFlatten = [], rp_adaptiveDispatch = [], rp_prefetch = [], rp_containmentInterception = [],
     rp_loopParallelize = []\<rparr>"

end
