(* ===== verification/FlowSymbols.thy ===== *)
theory FlowSymbols
  imports TopoPrelude
begin

text \<open>
  The declarations of pipelines as the embedding, the JIT engine and the passes on pipelines read them
  (topo-core's \<open>SymbolTable\<close>): logic blocks with their graph and its analysis, functions with their hints.
  Tables are association lists in the iteration order of the container; a set of strings is a list in
  increasing order.
\<close>

datatype FeatureMode = Off | Auto | Force

datatype AccessPattern = NoPattern | Streaming | Random | GatherScatter | Tiled

type_synonym CardinalityHint = "int \<times> int"

record FlowEdge =
  fe_source :: string
  fe_target :: string

record PipelineAnalysis =
  an_stages :: "(string \<times> int) list"
  an_sourceNodes :: "string list"
  an_terminalNode :: string
  an_terminalType :: string
  an_demand :: "(string \<times> string list) list"

record FlowBlock =
  fb_qualifiedName :: string
  fb_simpleName :: string
  fb_isPipeline :: bool
  fb_calledFunctions :: "string list"
  fb_stages :: "int list"
  fb_edges :: "FlowEdge list"
  fb_analysis :: "PipelineAnalysis option"

record FlowParam =
  fp_name :: string
  fp_ownership :: "string option"

record FlowFunction =
  ff_qualifiedName :: string
  ff_params :: "FlowParam list"
  ff_cardinality :: "CardinalityHint option"
  ff_accessPattern :: AccessPattern
  ff_tiledSize :: int
  ff_bindingTarget :: "string option"

record FlowAdapt =
  fa_constraintName :: string
  fa_targetType :: string
  fa_mappings :: "(string \<times> string) list"

record FlowSymbols =
  fl_blocks :: "(string \<times> FlowBlock) list"
  fl_functions :: "(string \<times> FlowFunction) list"
  fl_adapts :: "FlowAdapt list"

definition fl_findFunction :: "FlowSymbols \<Rightarrow> string \<Rightarrow> FlowFunction option" where
  "fl_findFunction symbols n = map_of (fl_functions symbols) n"

record ParallelConfig =
  pl_mode :: FeatureMode
  pl_instrument :: bool
  pl_exclude :: "string list"

text \<open>The name after the last \<open>::\<close>.\<close>

definition simple_name :: "string \<Rightarrow> string" where
  "simple_name q = (case str_rfind sep q of None \<Rightarrow> q | Some pos \<Rightarrow> substr_from q (pos + 2))"

text \<open>The symbol mapping by name; \<open>None\<close> is a null pointer.\<close>

type_synonym em_mapping = "(string \<times> string option) list"

definition mapped :: "em_mapping \<Rightarrow> string \<Rightarrow> string option" where
  "mapped mp n = (case map_of mp n of None \<Rightarrow> None | Some f \<Rightarrow> f)"

end
