(* ===== verification/Markers.thy ===== *)
theory Markers
  imports TopoPrelude
begin

text \<open>
  What the passes leave in a module for others to see: lib/Transforms/PassFiredMarker.cpp counts the
  transformations of a pass in named metadata, lib/Transforms/RuntimeAbiCheck.cpp injects the
  constructor that compares the version of a runtime library with the one the pass was built
  against. The constructor is a small program whose runs are modelled.
\<close>

section \<open>Fired markers\<close>

text \<open>Named metadata: nodes, each a list of operands, an integer constant or something else.\<close>

datatype md_operand = ConstInt u64 | OtherMetadata

type_synonym named_metadata = "(string \<times> md_operand list list) list"

definition existing_count :: "md_operand list list \<Rightarrow> u32" where
  "existing_count named =
     (case named of
        node # _ \<Rightarrow> (case node of ConstInt c # _ \<Rightarrow> ucast c | _ \<Rightarrow> 0)
      | [] \<Rightarrow> 0)"

definition markPassFired :: "string \<Rightarrow> u32 \<Rightarrow> named_metadata \<Rightarrow> named_metadata" where
  "markPassFired passName count md =
     (if count = 0 then md
      else
        (let mdName = ''topo.fired.'' @ passName;
             named = (case map_of md mdName of Some n \<Rightarrow> n | None \<Rightarrow> []);
             total_fired = existing_count named + count
         in AList.update mdName [[ConstInt (ucast total_fired)]] md))"

definition fired :: "named_metadata \<Rightarrow> string \<Rightarrow> u32" where
  "fired md passName =
     (case map_of md (''topo.fired.'' @ passName) of None \<Rightarrow> 0 | Some n \<Rightarrow> existing_count n)"

lemma ucast_ucast_u32 [simp]: "(ucast (ucast (w :: u32) :: u64) :: u32) = w"
  by transfer simp

lemma fired_markPassFired:
  "fired (markPassFired p c md) q = (if q = p then fired md q + c else fired md q)"
  by (auto simp: fired_def markPassFired_def existing_count_def Let_def amap_simps split: option.splits)

lemma fired_fold:
  "fired (fold (\<lambda>(p, c). markPassFired p c) runs md) q =
     fired md q + sum_list (map snd (filter (\<lambda>(p, _). p = q) runs))"
  by (induction runs arbitrary: md) (auto simp: fired_markPassFired)

section \<open>ABI checks of the runtime libraries\<close>

record abi_module =
  am_values :: "string list"
  am_strings :: "(string \<times> string) list"
  am_ctors :: "(string \<times> (string \<times> u32 \<times> string)) list"

text \<open>
  A constructor is its name, the version symbol it calls, the version it expects and the global
  string it writes. \<open>am_values\<close> are the names of the other globals and functions of the module.
\<close>

definition runtimeAbiCheckCtorName :: "string \<Rightarrow> string" where
  "runtimeAbiCheckCtorName libName = ''topo_'' @ libName @ ''_abi_check_ctor''"

definition buildDiagnostic :: "string \<Rightarrow> u32 \<Rightarrow> string" where
  "buildDiagnostic libName expectedVersion =
     ''topo: libtopo-'' @ libName @ '' ABI mismatch (expected v'' @ show_nat (unat expectedVersion)
     @ ''); rebuild caller and runtime from a matching commit. See topo-llvm/runtime/ABI-COMPAT.md'' @ [CHR 0x0A]"

definition getOrCreateGlobalCString :: "string \<Rightarrow> string \<Rightarrow> abi_module \<Rightarrow> abi_module" where
  "getOrCreateGlobalCString name val m =
     (if map_of (am_strings m) name \<noteq> None then m
      else m\<lparr>am_strings := am_strings m @ [(name, val)]\<rparr>)"

definition has_named_value :: "abi_module \<Rightarrow> string \<Rightarrow> bool" where
  "has_named_value m n \<longleftrightarrow> n \<in> set (am_values m) \<or> n \<in> fst ` set (am_ctors m) \<or> n \<in> fst ` set (am_strings m)"

definition declare_value :: "string \<Rightarrow> abi_module \<Rightarrow> abi_module" where
  "declare_value n m = (if has_named_value m n then m else m\<lparr>am_values := am_values m @ [n]\<rparr>)"

definition injectAbiCheckCtor :: "string \<Rightarrow> string \<Rightarrow> u32 \<Rightarrow> abi_module \<Rightarrow> abi_module" where
  "injectAbiCheckCtor libName versionSymbol expectedVersion m =
     (let ctorName = runtimeAbiCheckCtorName libName
      in if has_named_value m ctorName then m
         else
           (let m = declare_value ''abort'' (declare_value ''write'' (declare_value versionSymbol m));
                msg = ''.str.topo_abi.'' @ libName;
                m = getOrCreateGlobalCString msg (buildDiagnostic libName expectedVersion) m
            in m\<lparr>am_ctors := am_ctors m @ [(ctorName, (versionSymbol, expectedVersion, msg))]\<rparr>))"

text \<open>The start of a program: the constructors in order; the first mismatch writes and aborts.\<close>

datatype startup = Started | Aborted "string option"

fun run_ctors :: "(string \<Rightarrow> u32) \<Rightarrow> (string \<times> string) list \<Rightarrow> (string \<times> (string \<times> u32 \<times> string)) list \<Rightarrow> startup" where
  "run_ctors version strings [] = Started"
| "run_ctors version strings ((_, (vsym, expected, msg)) # ctors) =
     (if version vsym \<noteq> expected then Aborted (map_of strings msg) else run_ctors version strings ctors)"

section \<open>Lemmas\<close>

text \<open>The requests for one library agree, and the names the helper makes up are not in the module.\<close>

definition requests_agree :: "(string \<times> string \<times> u32) list \<Rightarrow> bool" where
  "requests_agree reqs \<longleftrightarrow> (\<forall>l s v s' v'. (l, s, v) \<in> set reqs \<and> (l, s', v') \<in> set reqs \<longrightarrow> s = s' \<and> v = v')"

definition reserved :: "string \<Rightarrow> bool" where
  "reserved n \<longleftrightarrow> starts_with ''.str.topo_abi.'' n \<or> ends_with ''_abi_check_ctor'' n"

definition plain_module :: "abi_module \<Rightarrow> bool" where
  "plain_module m \<longleftrightarrow> list_all (\<lambda>n. \<not> reserved n) (am_values m) \<and> am_ctors m = [] \<and> am_strings m = []"

definition abi_inv :: "(string \<times> string \<times> u32) list \<Rightarrow> abi_module \<Rightarrow> bool" where
  "abi_inv reqs m \<longleftrightarrow>
     list_all (\<lambda>n. \<not> reserved n) (am_values m) \<and>
     (\<exists>libs. distinct (map fst libs) \<and> set libs = set reqs \<and>
        am_ctors m = map (\<lambda>(l, s, v). (runtimeAbiCheckCtorName l, (s, v, ''.str.topo_abi.'' @ l))) libs \<and>
        am_strings m = map (\<lambda>(l, s, v). (''.str.topo_abi.'' @ l, buildDiagnostic l v)) libs)"

lemma requests_agreeD:
  "\<lbrakk>requests_agree reqs; (l, s, v) \<in> set reqs; (l, s', v') \<in> set reqs\<rbrakk> \<Longrightarrow> s = s' \<and> v = v'"
  unfolding requests_agree_def by blast

lemma requests_agreeI:
  assumes "\<And>l s v s' v'. \<lbrakk>(l, s, v) \<in> set reqs; (l, s', v') \<in> set reqs\<rbrakk> \<Longrightarrow> s = s' \<and> v = v'"
  shows "requests_agree reqs"
  unfolding requests_agree_def using assms by blast

lemma requests_agree_butlast: "requests_agree (reqs @ [r]) \<Longrightarrow> requests_agree reqs"
proof (rule requests_agreeI)
  fix l s v s' v'
  assume "requests_agree (reqs @ [r])" "(l, s, v) \<in> set reqs" "(l, s', v') \<in> set reqs"
  then show "s = s' \<and> v = v'" using requests_agreeD [of "reqs @ [r]" l s v s' v'] by simp
qed

lemma ctor_name_inject [simp]: "runtimeAbiCheckCtorName l = runtimeAbiCheckCtorName l' \<longleftrightarrow> l = l'"
  by (simp add: runtimeAbiCheckCtorName_def)

lemma reserved_names [simp]: "reserved (runtimeAbiCheckCtorName l)" "reserved (''.str.topo_abi.'' @ l)"
proof -
  have "runtimeAbiCheckCtorName l = (''topo_'' @ l) @ ''_abi_check_ctor''" by (simp add: runtimeAbiCheckCtorName_def)
  then show "reserved (runtimeAbiCheckCtorName l)" unfolding reserved_def by (simp only: ends_with_append simp_thms)
  show "reserved (''.str.topo_abi.'' @ l)" unfolding reserved_def by (simp only: starts_with_append simp_thms)
qed

lemma ctor_name_not_string: "runtimeAbiCheckCtorName l \<noteq> ''.str.topo_abi.'' @ l'"
  by (simp add: runtimeAbiCheckCtorName_def)

lemma declare_value_fields:
  "am_ctors (declare_value n m) = am_ctors m" "am_strings (declare_value n m) = am_strings m"
  "\<not> reserved n \<Longrightarrow> list_all (\<lambda>n. \<not> reserved n) (am_values m) \<Longrightarrow> list_all (\<lambda>n. \<not> reserved n) (am_values (declare_value n m))"
  by (simp_all add: declare_value_def)

lemma not_reserved_libc: "\<not> reserved ''write''" "\<not> reserved ''abort''"
  by (simp_all add: reserved_def starts_with_def ends_with_def)

lemma inject_inv:
  assumes "abi_inv reqs m" and "requests_agree (reqs @ [(l, s, v)])" and "\<not> reserved s"
  shows "abi_inv (reqs @ [(l, s, v)]) (injectAbiCheckCtor l s v m)"
proof -
  from assms(1) obtain libs where vals: "list_all (\<lambda>n. \<not> reserved n) (am_values m)"
    and libs: "distinct (map fst libs)" "set libs = set reqs"
      "am_ctors m = map (\<lambda>(l, s, v). (runtimeAbiCheckCtorName l, (s, v, ''.str.topo_abi.'' @ l))) libs"
      "am_strings m = map (\<lambda>(l, s, v). (''.str.topo_abi.'' @ l, buildDiagnostic l v)) libs"
    unfolding abi_inv_def by blast
  have "runtimeAbiCheckCtorName l \<notin> set (am_values m)" using vals by (auto simp: list_all_iff)
  then have has: "has_named_value m (runtimeAbiCheckCtorName l) \<longleftrightarrow> l \<in> fst ` set libs"
    using ctor_name_not_string by (auto simp: has_named_value_def libs(3,4) image_image split_beta image_iff)
  show ?thesis
  proof (cases "l \<in> fst ` set libs")
    case True
    then obtain s' v' where "(l, s', v') \<in> set reqs" by (auto simp: libs(2))
    moreover from this have "s = s' \<and> v = v'" using requests_agreeD [OF assms(2), of l s v s' v'] by simp
    ultimately have "(l, s, v) \<in> set reqs" by simp
    then have "set (reqs @ [(l, s, v)]) = set reqs" by auto
    with assms(1) True has show ?thesis by (simp add: injectAbiCheckCtor_def Let_def abi_inv_def)
  next
    case False
    let ?m = "declare_value ''abort'' (declare_value ''write'' (declare_value s m))"
    have str: "map_of (am_strings m) (''.str.topo_abi.'' @ l) = None"
      using False by (auto simp: libs(4) map_of_eq_None_iff image_image split_beta image_iff)
    have "injectAbiCheckCtor l s v m = ?m
        \<lparr>am_strings := am_strings m @ [(''.str.topo_abi.'' @ l, buildDiagnostic l v)],
         am_ctors := am_ctors m @ [(runtimeAbiCheckCtorName l, (s, v, ''.str.topo_abi.'' @ l))]\<rparr>"
      using False has str by (simp add: injectAbiCheckCtor_def Let_def getOrCreateGlobalCString_def declare_value_fields)
    moreover have "list_all (\<lambda>n. \<not> reserved n) (am_values ?m)"
      by (intro declare_value_fields(3) not_reserved_libc assms(3) vals)
    ultimately show ?thesis
      unfolding abi_inv_def using False libs
      by (auto intro!: exI [of _ "libs @ [(l, s, v)]"])
  qed
qed

lemma inject_all_inv:
  assumes "plain_module m" and "requests_agree reqs" and "list_all (\<lambda>(_, s, _). \<not> reserved s) reqs"
  shows "abi_inv reqs (fold (\<lambda>(l, s, v). injectAbiCheckCtor l s v) reqs m)"
  using assms(2,3)
proof (induction reqs rule: rev_induct)
  case Nil
  then show ?case using assms(1) by (auto simp: abi_inv_def plain_module_def intro!: exI [of _ "[]"])
next
  case (snoc r reqs)
  obtain l s v where r: "r = (l, s, v)" by (cases r)
  have "requests_agree reqs" using snoc.prems(1) by (rule requests_agree_butlast)
  with snoc r have "abi_inv reqs (fold (\<lambda>(l, s, v). injectAbiCheckCtor l s v) reqs m)" by simp
  from inject_inv [OF this] snoc.prems r show ?case by simp
qed

lemma run_ctors_libs:
  assumes "distinct (map fst libs)" and "set libs \<subseteq> set all_libs" and "distinct (map fst all_libs)"
  shows "run_ctors version (map (\<lambda>(l, s, v). (''.str.topo_abi.'' @ l, buildDiagnostic l v)) all_libs)
      (map (\<lambda>(l, s, v). (runtimeAbiCheckCtorName l, (s, v, ''.str.topo_abi.'' @ l))) libs) =
    (case find (\<lambda>(l, s, v). version s \<noteq> v) libs of
       None \<Rightarrow> Started | Some (l, s, v) \<Rightarrow> Aborted (Some (buildDiagnostic l v)))"
  using assms(1,2)
proof (induction libs)
  case (Cons e libs)
  obtain l s v where e: "e = (l, s, v)" by (cases e)
  have "map_of (map (\<lambda>(l, s, v). (''.str.topo_abi.'' @ l, buildDiagnostic l v)) all_libs) (''.str.topo_abi.'' @ l)
      = Some (buildDiagnostic l v)"
  proof (rule map_of_is_SomeI)
    show "distinct (map fst (map (\<lambda>(l, s, v). (''.str.topo_abi.'' @ l, buildDiagnostic l v)) all_libs))"
      using assms(3) by (simp add: distinct_map o_def split_beta inj_on_def)
    show "(''.str.topo_abi.'' @ l, buildDiagnostic l v)
        \<in> set (map (\<lambda>(l, s, v). (''.str.topo_abi.'' @ l, buildDiagnostic l v)) all_libs)"
      using Cons.prems(2) e by (auto simp: image_iff intro!: bexI [of _ "(l, s, v)"])
  qed
  with Cons e show ?case by simp
qed simp


text \<open>
  The fired marker of a pass counts all the transformations its runs reported, whatever the order of
  the runs and of the other passes, modulo the 32 bits of the counter; the markers of other passes
  are left alone.
\<close>

theorem fired_counts_all_runs:
  "fired (fold (\<lambda>(p, c). markPassFired p c) runs md) q =
     fired md q + sum_list (map snd (filter (\<lambda>(p, _). p = q) runs))"
  by (rule fired_fold)

text \<open>
  C23. The ABI check at start-up: after the passes have requested their runtime libraries, the program
  starts if and only if each library reports the version it was compiled against, and otherwise it is
  aborted with the diagnostic of a library whose version differs.
\<close>

theorem abi_check_guards_startup:
  assumes "plain_module m" and "requests_agree reqs" and "list_all (\<lambda>(_, s, _). \<not> reserved s) reqs"
  defines "m' \<equiv> fold (\<lambda>(l, s, v). injectAbiCheckCtor l s v) reqs m"
  shows "(run_ctors version (am_strings m') (am_ctors m') = Started \<longleftrightarrow>
        (\<forall>(l, s, v) \<in> set reqs. version s = v)) \<and>
    (\<forall>d. run_ctors version (am_strings m') (am_ctors m') = Aborted d \<longrightarrow>
        (\<exists>(l, s, v) \<in> set reqs. version s \<noteq> v \<and> d = Some (buildDiagnostic l v)))"
proof -
  from inject_all_inv [OF assms(1,2,3)] obtain libs where libs: "distinct (map fst libs)" "set libs = set reqs"
      "am_ctors m' = map (\<lambda>(l, s, v). (runtimeAbiCheckCtorName l, (s, v, ''.str.topo_abi.'' @ l))) libs"
      "am_strings m' = map (\<lambda>(l, s, v). (''.str.topo_abi.'' @ l, buildDiagnostic l v)) libs"
    unfolding abi_inv_def m'_def by blast
  have run: "run_ctors version (am_strings m') (am_ctors m') =
      (case find (\<lambda>(l, s, v). version s \<noteq> v) libs of
         None \<Rightarrow> Started | Some (l, s, v) \<Rightarrow> Aborted (Some (buildDiagnostic l v)))"
    unfolding libs(3,4) by (rule run_ctors_libs [OF libs(1) subset_refl libs(1)])
  show ?thesis
  proof (cases "find (\<lambda>(l, s, v). version s \<noteq> v) libs")
    case None
    then have "run_ctors version (am_strings m') (am_ctors m') = Started" using run by simp
    moreover from None have "\<forall>(l, s, v) \<in> set reqs. version s = v" by (auto simp: find_None_iff libs(2))
    ultimately show ?thesis by simp
  next
    case (Some e)
    obtain l s v where e: "e = (l, s, v)" by (cases e)
    from Some e libs(2) have "(l, s, v) \<in> set reqs" "version s \<noteq> v"
      by (auto simp: find_Some_iff in_set_conv_nth)
    moreover from this have "\<not> (\<forall>(l, s, v) \<in> set reqs. version s = v)" by fast
    moreover have "run_ctors version (am_strings m') (am_ctors m') = Aborted (Some (buildDiagnostic l v))"
      using run Some e by simp
    ultimately show ?thesis by auto
  qed
qed

lemma abi_check_guards_startup_witness:
  "let m = \<lparr>am_values = [''main''], am_strings = [], am_ctors = []\<rparr>;
       reqs = [(''parallel'', ''topo_parallel_version'', 3), (''arena'', ''topo_arena_version'', 2),
               (''parallel'', ''topo_parallel_version'', 3)];
       m' = fold (\<lambda>(l, s, v). injectAbiCheckCtor l s v) reqs m;
       version = (\<lambda>s. if s = ''topo_arena_version'' then 2 else 4)
   in run_ctors version (am_strings m') (am_ctors m') \<noteq> Started \<and> length (am_ctors m') = 2"
proof -
  let ?m = "\<lparr>am_values = [''main''], am_strings = [], am_ctors = []\<rparr>"
  let ?reqs = "[(''parallel'', ''topo_parallel_version'', 3), (''arena'', ''topo_arena_version'', 2),
               (''parallel'', ''topo_parallel_version'', 3)] :: (string \<times> string \<times> u32) list"
  have "plain_module ?m" by code_simp
  moreover have "requests_agree ?reqs" by (rule requests_agreeI) auto
  moreover have "list_all (\<lambda>(_, s, _). \<not> reserved s) ?reqs" by code_simp
  moreover have "length (am_ctors (fold (\<lambda>(l, s, v). injectAbiCheckCtor l s v) ?reqs ?m)) = 2" by code_simp
  ultimately show ?thesis
    using abi_check_guards_startup [of ?m ?reqs "\<lambda>s. if s = ''topo_arena_version'' then 2 else 4"]
    unfolding Let_def by simp
qed

end
