(* ===== verification/InsIr.thy ===== *)
theory InsIr
  imports LlvmIr FlowSymbols Markers
begin

text \<open>
  Functions as blocks of instructions, for the passes that insert calls into code or rewrite it:
  values, instructions with an identity, blocks with a label, and the editing of LLVM's IRBuilder.
  The passes share the helpers getOrDeclareFunc and getOrCreateGlobalString, which each of their
  files repeats. The lemmas say that what an edit inserts can be taken out again, and follow the
  paths of a function.
\<close>

section \<open>Code\<close>

datatype ir_value = VInst nat | VArg nat | VGlobal string | VConst int | VNull | VUndef ll_type

text \<open>The callee of a call is a function of the module, as \<open>getCalledFunction\<close> returns it, or a value.\<close>

datatype callee = Direct string | Indirect ir_value

datatype opcode =
  OCall callee | OInvoke callee nat nat | OLoad | OStore | OGep | OBitCast | OPhi | OSelect | OAlloca
| OInsertValue "nat list" | OExtractValue nat | OLandingPad | OIcmpEq | OIcmpNe | OZExt
| ORet | OBr nat | OCondBr nat nat | OTerm "nat list" | OOther

text \<open>Operands: a load has the address, a store the value and the address, a GEP its base first.\<close>

record ins =
  ii_id :: nat
  ii_op :: opcode
  ii_args :: "ir_value list"
  ii_type :: ll_type

type_synonym blocks = "(nat \<times> ins list) list"

record ifun =
  iu_name :: string
  iu_params :: "(ll_type \<times> bool) list"
  iu_ret :: ll_type
  iu_linkage :: ll_linkage
  iu_vararg :: bool
  iu_blocks :: blocks

text \<open>A global variable; a string constant has its text.\<close>

record iglobal =
  ig_name :: string
  ig_linkage :: ll_linkage
  ig_text :: "string option"

record imod =
  im_triple :: string
  im_funs :: "ifun list"
  im_globals :: "iglobal list"
  im_next :: nat
  im_abi :: abi_module

definition iu_declaration :: "ifun \<Rightarrow> bool" where
  "iu_declaration f \<longleftrightarrow> iu_blocks f = []"

definition code_of :: "ifun \<Rightarrow> ins list" where
  "code_of f = concat (map snd (iu_blocks f))"

definition find_fun :: "imod \<Rightarrow> string \<Rightarrow> ifun option" where
  "find_fun m n = find (\<lambda>f. iu_name f = n) (im_funs m)"

definition value_set :: "imod \<Rightarrow> string set" where
  "value_set m = iu_name ` set (im_funs m) \<union> ig_name ` set (im_globals m)"

text \<open>\<open>call->getCalledFunction()\<close> of a \<open>CallInst\<close>, and of a call or an invoke.\<close>

definition called :: "ins \<Rightarrow> string option" where
  "called i = (case ii_op i of OCall (Direct f) \<Rightarrow> Some f | _ \<Rightarrow> None)"

definition called_or_invoked :: "ins \<Rightarrow> string option" where
  "called_or_invoked i = (case ii_op i of OCall (Direct f) \<Rightarrow> Some f | OInvoke (Direct f) _ _ \<Rightarrow> Some f | _ \<Rightarrow> None)"

section \<open>Helpers of the passes\<close>

text \<open>LLVM's renaming of a name that is taken is a parameter; \<open>ie_uniq taken name\<close> is only used for a taken name.\<close>

definition fresh_name :: "(string set \<Rightarrow> string \<Rightarrow> string) \<Rightarrow> imod \<Rightarrow> string \<Rightarrow> string" where
  "fresh_name uniq m n = (if n \<in> value_set m then uniq (value_set m) n else n)"

definition new_ifun :: "string \<Rightarrow> ll_type list \<Rightarrow> ll_type \<Rightarrow> ifun" where
  "new_ifun n ps r = \<lparr>iu_name = n, iu_params = map (\<lambda>t. (t, False)) ps, iu_ret = r, iu_linkage = ExternalLinkage,
     iu_vararg = False, iu_blocks = []\<rparr>"

definition getOrDeclareFunc :: "string \<Rightarrow> ll_type list \<Rightarrow> ll_type \<Rightarrow> imod \<Rightarrow> imod" where
  "getOrDeclareFunc n ps r m =
     (if n \<in> value_set m then m else m\<lparr>im_funs := im_funs m @ [new_ifun n ps r]\<rparr>)"

definition add_iglobal :: "(string set \<Rightarrow> string \<Rightarrow> string) \<Rightarrow> string \<Rightarrow> ll_linkage \<Rightarrow> string option \<Rightarrow> imod \<Rightarrow> string \<times> imod" where
  "add_iglobal uniq n l txt m =
     (let n' = fresh_name uniq m n
      in (n', m\<lparr>im_globals := im_globals m @ [\<lparr>ig_name = n', ig_linkage = l, ig_text = txt\<rparr>]\<rparr>))"

text \<open>
  \<open>module.getGlobalVariable(name)\<close> does not return a variable with local linkage. The strings it makes
  are private, so it makes a new one every time.
\<close>

definition local_linkage :: "ll_linkage \<Rightarrow> bool" where
  "local_linkage l \<longleftrightarrow> l = InternalLinkage \<or> l = PrivateLinkage"

definition getOrCreateGlobalString :: "(string set \<Rightarrow> string \<Rightarrow> string) \<Rightarrow> string \<Rightarrow> string \<Rightarrow> imod \<Rightarrow> string \<times> imod" where
  "getOrCreateGlobalString uniq str pre m =
     (let globalName = pre @ str
      in if \<exists>g\<in>set (im_globals m). ig_name g = globalName \<and> \<not> local_linkage (ig_linkage g) then (globalName, m)
         else add_iglobal uniq globalName PrivateLinkage (Some str) m)"

definition global_text :: "imod \<Rightarrow> string \<Rightarrow> string option" where
  "global_text m n = (case find (\<lambda>g. ig_name g = n) (im_globals m) of None \<Rightarrow> None | Some g \<Rightarrow> ig_text g)"

section \<open>Editing\<close>

type_synonym proto = "opcode \<times> ir_value list \<times> ll_type"

definition new_ins :: "nat \<Rightarrow> proto \<Rightarrow> ins" where
  "new_ins k p = \<lparr>ii_id = k, ii_op = fst p, ii_args = fst (snd p), ii_type = snd (snd p)\<rparr>"

definition call_proto :: "string \<Rightarrow> ir_value list \<Rightarrow> ll_type \<Rightarrow> proto" where
  "call_proto f args ty = (OCall (Direct f), args, ty)"

definition on_ins :: "(ins \<Rightarrow> ins list) \<Rightarrow> blocks \<Rightarrow> blocks" where
  "on_ins g bs = map (\<lambda>(b, is). (b, concat (map g is))) bs"

definition insert_before :: "nat \<Rightarrow> ins list \<Rightarrow> blocks \<Rightarrow> blocks" where
  "insert_before k xs = on_ins (\<lambda>i. if ii_id i = k then xs @ [i] else [i])"

definition insert_after :: "nat \<Rightarrow> ins list \<Rightarrow> blocks \<Rightarrow> blocks" where
  "insert_after k xs = on_ins (\<lambda>i. if ii_id i = k then i # xs else [i])"

definition upd_fun :: "string \<Rightarrow> (ifun \<Rightarrow> ifun) \<Rightarrow> imod \<Rightarrow> imod" where
  "upd_fun n g m = m\<lparr>im_funs := map (\<lambda>f. if iu_name f = n then g f else f) (im_funs m)\<rparr>"

definition upd_blocks :: "string \<Rightarrow> (blocks \<Rightarrow> blocks) \<Rightarrow> imod \<Rightarrow> imod" where
  "upd_blocks n g = upd_fun n (\<lambda>f. f\<lparr>iu_blocks := g (iu_blocks f)\<rparr>)"

definition bump :: "nat \<Rightarrow> imod \<Rightarrow> imod" where
  "bump k m = m\<lparr>im_next := im_next m + k\<rparr>"

definition inject_abi :: "string \<Rightarrow> string \<Rightarrow> u32 \<Rightarrow> imod \<Rightarrow> imod" where
  "inject_abi lib vsym v m = m\<lparr>im_abi := injectAbiCheckCtor lib vsym v (im_abi m)\<rparr>"

text \<open>Names are unique, instructions have one identity each, and the next ones are unused.\<close>

definition ids_of :: "imod \<Rightarrow> nat list" where
  "ids_of m = map ii_id (concat (map code_of (im_funs m)))"

definition imod_ok :: "imod \<Rightarrow> bool" where
  "imod_ok m \<longleftrightarrow> distinct (map iu_name (im_funs m)) \<and> distinct (ids_of m) \<and> (\<forall>k\<in>set (ids_of m). k < im_next m)"

section \<open>Taking insertions out\<close>

definition older :: "nat \<Rightarrow> blocks \<Rightarrow> blocks" where
  "older n bs = map (\<lambda>(b, is). (b, filter (\<lambda>i. ii_id i < n) is)) bs"

definition older_fun :: "nat \<Rightarrow> ifun \<Rightarrow> ifun" where
  "older_fun n f = f\<lparr>iu_blocks := older n (iu_blocks f)\<rparr>"

lemma older_on_ins:
  assumes "\<And>i. filter (\<lambda>j. ii_id j < n) (g i) = (if ii_id i < n then [i] else [])"
  shows "older n (on_ins g bs) = older n bs"
proof -
  have "filter (\<lambda>j. ii_id j < n) (concat (map g is)) = filter (\<lambda>j. ii_id j < n) is" for "is"
    by (induction "is") (simp_all add: assms)
  then show ?thesis by (simp add: older_def on_ins_def split_def)
qed

lemma filter_newer: "\<forall>x\<in>set xs. n \<le> ii_id x \<Longrightarrow> filter (\<lambda>j. ii_id j < n) xs = []"
  by (auto simp: filter_empty_conv)

lemma older_insert_before: "\<forall>x\<in>set xs. n \<le> ii_id x \<Longrightarrow> older n (insert_before k xs bs) = older n bs"
  unfolding insert_before_def by (rule older_on_ins) (auto simp: filter_newer)

lemma older_insert_after: "\<forall>x\<in>set xs. n \<le> ii_id x \<Longrightarrow> older n (insert_after k xs bs) = older n bs"
  unfolding insert_after_def by (rule older_on_ins) (auto simp: filter_newer)

lemma older_all: "\<forall>i\<in>set (concat (map snd bs)). ii_id i < n \<Longrightarrow> older n bs = bs"
  by (induction bs) (auto simp: older_def filter_id_conv)

lemma older_older: "n \<le> k \<Longrightarrow> older n (older k bs) = older n bs"
proof -
  assume "n \<le> k"
  then have "filter (\<lambda>i. ii_id i < k \<and> ii_id i < n) is = filter (\<lambda>i. ii_id i < n) is" for "is" :: "ins list" by (intro filter_cong) auto
  then show ?thesis by (simp add: older_def split_def)
qed

lemma code_on_ins: "concat (map snd (on_ins g bs)) = concat (map g (concat (map snd bs)))"
  by (induction bs) (auto simp: on_ins_def)

lemma upd_fun_frame [simp]:
  "im_next (upd_fun n g m) = im_next m" "im_globals (upd_fun n g m) = im_globals m" "im_abi (upd_fun n g m) = im_abi m"
  "im_triple (upd_fun n g m) = im_triple m"
  by (simp_all add: upd_fun_def)

lemma add_iglobal_frame [simp]:
  "im_next (snd (add_iglobal u n l t m)) = im_next m" "im_funs (snd (add_iglobal u n l t m)) = im_funs m"
  "im_abi (snd (add_iglobal u n l t m)) = im_abi m" "im_triple (snd (add_iglobal u n l t m)) = im_triple m"
  by (simp_all add: add_iglobal_def Let_def)

lemma getOrCreateGlobalString_frame [simp]:
  "im_next (snd (getOrCreateGlobalString u s p m)) = im_next m" "im_funs (snd (getOrCreateGlobalString u s p m)) = im_funs m"
  "im_abi (snd (getOrCreateGlobalString u s p m)) = im_abi m" "im_triple (snd (getOrCreateGlobalString u s p m)) = im_triple m"
  by (simp_all add: getOrCreateGlobalString_def Let_def)

lemma find_fun_upd:
  assumes "\<And>f. iu_name (g f) = iu_name f"
  shows "find_fun (upd_fun n g m) k = (if k = n then map_option g (find_fun m k) else find_fun m k)"
proof -
  have "find (\<lambda>f. iu_name f = k) (map (\<lambda>f. if iu_name f = n then g f else f) fs) =
      (if k = n then map_option g (find (\<lambda>f. iu_name f = k) fs) else find (\<lambda>f. iu_name f = k) fs)" for fs
    by (induction fs) (auto simp: assms)
  then show ?thesis by (simp add: find_fun_def upd_fun_def)
qed

lemma find_fun_Some: "find_fun m n = Some f \<Longrightarrow> f \<in> set (im_funs m) \<and> iu_name f = n"
  by (auto simp: find_fun_def find_Some_iff)

lemma find_fun_append: "find_fun m n = Some f \<Longrightarrow> find_fun (m\<lparr>im_funs := im_funs m @ fs\<rparr>) n = Some f"
  by (auto simp: find_fun_def find_Some_iff nth_append)

lemma find_fun_declare: "find_fun m n = Some f \<Longrightarrow> find_fun (getOrDeclareFunc k ps r m) n = Some f"
  by (simp add: getOrDeclareFunc_def find_fun_append)

lemma find_fun_funs: "im_funs m' = im_funs m \<Longrightarrow> find_fun m' n = find_fun m n"
  by (simp add: find_fun_def)

lemma find_fun_bump [simp]: "find_fun (bump d m) k = find_fun m k"
  by (simp add: find_fun_def bump_def)

lemma find_fun_upd_blocks:
  "find_fun (upd_blocks n h m) k = (if k = n then map_option (\<lambda>f. f\<lparr>iu_blocks := h (iu_blocks f)\<rparr>) (find_fun m k) else find_fun m k)"
  unfolding upd_blocks_def by (rule find_fun_upd) simp

text \<open>Strings whose names start with a prefix of the passes are private, as the passes make them.\<close>

definition strings_private :: "string \<Rightarrow> imod \<Rightarrow> bool" where
  "strings_private pre m \<longleftrightarrow> (\<forall>g\<in>set (im_globals m). starts_with pre (ig_name g) \<longrightarrow> local_linkage (ig_linkage g))"

definition text_kept :: "imod \<Rightarrow> imod \<Rightarrow> bool" where
  "text_kept m m' \<longleftrightarrow> (\<forall>k t. global_text m k = Some t \<longrightarrow> global_text m' k = Some t)"

lemma text_kept_trans: "text_kept a b \<Longrightarrow> text_kept b c \<Longrightarrow> text_kept a c"
  by (simp add: text_kept_def)

lemma text_kept_globals: "im_globals m' = im_globals m \<Longrightarrow> text_kept m m'"
  by (simp add: text_kept_def global_text_def)

lemma strings_private_globals: "im_globals m' = im_globals m \<Longrightarrow> strings_private pre m' = strings_private pre m"
  by (simp add: strings_private_def)

lemma find_fresh: "k \<notin> ig_name ` set gs \<Longrightarrow> find (\<lambda>g. ig_name g = k) (gs @ [g]) = (if ig_name g = k then Some g else None)"
  by (induction gs) auto

lemma find_kept: "find P gs = Some x \<Longrightarrow> find P (gs @ hs) = Some x"
  by (induction gs) (auto split: if_splits)

text \<open>A renaming that is fresh, and the one of the examples: dots up to more than the longest name.\<close>

definition renames_fresh :: "(string set \<Rightarrow> string \<Rightarrow> string) \<Rightarrow> bool" where
  "renames_fresh uniq \<longleftrightarrow> (\<forall>N n. finite N \<longrightarrow> uniq N n \<notin> N)"

definition dotted_name :: "string set \<Rightarrow> string \<Rightarrow> string" where
  "dotted_name N n = n @ replicate (Suc (Max (insert 0 (length ` N)))) CHR ''.''"

lemma dotted_name_fresh: "renames_fresh dotted_name"
proof -
  have "dotted_name N n \<notin> N" if "finite N" for N n
  proof
    assume "dotted_name N n \<in> N"
    then have "length (dotted_name N n) \<le> Max (insert 0 (length ` N))" using that by (intro Max_ge) auto
    then show False by (simp add: dotted_name_def)
  qed
  then show ?thesis by (simp add: renames_fresh_def)
qed

lemma finite_value_set [simp]: "finite (value_set m)"
  by (simp add: value_set_def)

lemma add_iglobal_text:
  assumes "renames_fresh uniq" and "add_iglobal uniq n PrivateLinkage t m = (g, m')"
  shows "global_text m' g = t" and "text_kept m m'" and "strings_private pre m \<Longrightarrow> strings_private pre m'"
proof -
  have g: "g = fresh_name uniq m n" and m': "m' = m\<lparr>im_globals := im_globals m @ [\<lparr>ig_name = g, ig_linkage = PrivateLinkage, ig_text = t\<rparr>]\<rparr>"
    using assms(2) by (auto simp: add_iglobal_def Let_def)
  have "g \<notin> value_set m" using assms(1) by (auto simp: g fresh_name_def renames_fresh_def)
  then have "g \<notin> ig_name ` set (im_globals m)" by (simp add: value_set_def)
  then show "global_text m' g = t" by (simp add: m' global_text_def find_fresh)
  show "text_kept m m'" by (auto simp: text_kept_def m' global_text_def find_kept split: option.splits)
  show "strings_private pre m \<Longrightarrow> strings_private pre m'" by (simp add: strings_private_def m' local_linkage_def)
qed

lemma getOrCreateGlobalString_text:
  assumes "renames_fresh uniq" and "strings_private pre m" and "getOrCreateGlobalString uniq str pre m = (g, m')"
  shows "global_text m' g = Some str" and "text_kept m m'" and "strings_private pre' m \<Longrightarrow> strings_private pre' m'"
proof -
  have "add_iglobal uniq (pre @ str) PrivateLinkage (Some str) m = (g, m')"
    using assms(2,3) by (auto simp: getOrCreateGlobalString_def strings_private_def Let_def split: if_splits)
  from add_iglobal_text [OF assms(1) this] show "global_text m' g = Some str" "text_kept m m'"
    "strings_private pre' m \<Longrightarrow> strings_private pre' m'" by blast+
qed

text \<open>The helper never finds the string it made before: every use adds a global.\<close>

lemma strings_never_shared:
  assumes "strings_private pre m"
  shows "im_globals (snd (getOrCreateGlobalString uniq str pre m)) =
    im_globals m @ [\<lparr>ig_name = fst (getOrCreateGlobalString uniq str pre m), ig_linkage = PrivateLinkage, ig_text = Some str\<rparr>]"
  using assms by (auto simp: getOrCreateGlobalString_def strings_private_def add_iglobal_def Let_def)

definition other_functions_kept :: "string \<Rightarrow> imod \<Rightarrow> imod \<Rightarrow> bool" where
  "other_functions_kept n m m' \<longleftrightarrow> (\<forall>k. k \<noteq> n \<longrightarrow> (\<forall>g. find_fun m k = Some g \<longrightarrow> find_fun m' k = Some g) \<and>
     (\<forall>g. find_fun m' k = Some g \<longrightarrow> find_fun m k = Some g \<or> iu_blocks g = []))"

lemma other_functions_kept_trans: "other_functions_kept n a b \<Longrightarrow> other_functions_kept n b c \<Longrightarrow> other_functions_kept n a c"
  unfolding other_functions_kept_def by blast

lemma other_functions_kept_update:
  assumes "\<And>k g. find_fun m k = Some g \<Longrightarrow> find_fun m1 k = Some g" and "\<And>k g. find_fun m1 k = Some g \<Longrightarrow> find_fun m k = Some g \<or> iu_blocks g = []"
  shows "other_functions_kept n m (upd_blocks n h m1)"
  using assms by (simp add: other_functions_kept_def find_fun_upd_blocks)

lemma other_functions_kept_bump: "other_functions_kept n m (bump d m') = other_functions_kept n m m'"
  by (simp add: other_functions_kept_def)

lemma find_fun_declare_back:
  "find_fun (getOrDeclareFunc n ps r m) k = Some f \<Longrightarrow> find_fun m k = Some f \<or> iu_blocks f = []"
  by (auto simp: getOrDeclareFunc_def find_fun_def new_ifun_def find_app split: if_splits option.splits)

definition text_within :: "imod \<Rightarrow> (string \<Rightarrow> string option) \<Rightarrow> bool" where
  "text_within m strs \<longleftrightarrow> (\<forall>k t. global_text m k = Some t \<longrightarrow> strs k = Some t)"

lemma text_within_kept: "text_within m' strs \<Longrightarrow> text_kept m m' \<Longrightarrow> text_within m strs"
  by (simp add: text_within_def text_kept_def)

section \<open>Weaving\<close>

text \<open>Code with instructions put before and after those it has.\<close>

definition weave :: "(nat \<Rightarrow> ins list) \<Rightarrow> (nat \<Rightarrow> ins list) \<Rightarrow> blocks \<Rightarrow> blocks" where
  "weave B E = on_ins (\<lambda>i. B (ii_id i) @ [i] @ E (ii_id i))"

definition others :: "nat \<Rightarrow> (nat \<Rightarrow> ins list) \<Rightarrow> bool" where
  "others k B \<longleftrightarrow> (\<forall>j. \<forall>x\<in>set (B j). ii_id x \<noteq> k)"

lemma on_ins_on_ins: "on_ins g (on_ins h bs) = on_ins (\<lambda>i. concat (map g (h i))) bs"
proof -
  have "concat (map g (concat (map h is))) = concat (map (\<lambda>i. concat (map g (h i))) is)" for "is"
    by (induction "is") auto
  then show ?thesis by (simp add: on_ins_def split_def)
qed

lemma map_others: "\<forall>x\<in>set xs. ii_id x \<noteq> k \<Longrightarrow> concat (map (\<lambda>i. if ii_id i = k then f i else [i]) xs) = xs"
  by (induction xs) auto

lemma insert_before_weave:
  assumes "others k B" and "others k E"
  shows "insert_before k xs (weave B E bs) = weave (\<lambda>j. B j @ (if j = k then xs else [])) E bs"
proof -
  have "concat (map (\<lambda>i. if ii_id i = k then xs @ [i] else [i]) (B (ii_id i) @ [i] @ E (ii_id i))) = (B (ii_id i) @ (if ii_id i = k then xs else [])) @ [i] @ E (ii_id i)" for i
    using assms by (simp add: map_others others_def)
  then show ?thesis unfolding insert_before_def weave_def on_ins_on_ins by presburger
qed

lemma insert_after_weave:
  assumes "others k B" and "others k E"
  shows "insert_after k xs (weave B E bs) = weave B (\<lambda>j. (if j = k then xs else []) @ E j) bs"
proof -
  have "concat (map (\<lambda>i. if ii_id i = k then i # xs else [i]) (B (ii_id i) @ [i] @ E (ii_id i))) = B (ii_id i) @ [i] @ (if ii_id i = k then xs else []) @ E (ii_id i)" for i
    using assms by (simp add: map_others others_def)
  then show ?thesis unfolding insert_after_def weave_def on_ins_on_ins by presburger
qed

lemma weave_upd: "B k = [] \<Longrightarrow> weave (\<lambda>j. B j @ (if j = k then xs else [])) E bs = weave (B(k := xs)) E bs"
proof -
  assume "B k = []"
  then have "(\<lambda>j. B j @ (if j = k then xs else [])) = B(k := xs)" by auto
  then show ?thesis by simp
qed

lemma weave_none: "weave (\<lambda>_. []) (\<lambda>_. []) bs = bs"
  by (induction bs) (auto simp: weave_def on_ins_def)

lemma older_weave:
  assumes "\<And>j x. x \<in> set (B j) \<union> set (E j) \<Longrightarrow> n \<le> ii_id x"
  shows "older n (weave B E bs) = older n bs"
proof -
  have "filter (\<lambda>i. ii_id i < n) (B j) = []" "filter (\<lambda>i. ii_id i < n) (E j) = []" for j
    by (auto intro!: filter_newer assms)
  then show ?thesis unfolding weave_def by (intro older_on_ins) simp
qed

section \<open>Paths\<close>

fun succs :: "opcode \<Rightarrow> nat list" where
  "succs (OBr t) = [t]"
| "succs (OCondBr t f) = [t, f]"
| "succs (OInvoke c t u) = [t, u]"
| "succs (OTerm ts) = ts"
| "succs _ = []"

text \<open>The complete paths of a function from a block: the instructions up to a return.\<close>

inductive path :: "blocks \<Rightarrow> nat \<Rightarrow> ins list \<Rightarrow> bool" for bs where
  path_ret: "map_of bs b = Some is \<Longrightarrow> is \<noteq> [] \<Longrightarrow> ii_op (last is) = ORet \<Longrightarrow> path bs b is"
| path_go: "map_of bs b = Some is \<Longrightarrow> is \<noteq> [] \<Longrightarrow> t \<in> set (succs (ii_op (last is))) \<Longrightarrow> path bs t tr \<Longrightarrow> path bs b (is @ tr)"

inductive_cases path_cases: "path bs b tr"

section \<open>Passes that put code before instructions\<close>

text \<open>
  The contract of a step that puts new code before one instruction of a function and otherwise adds only
  declarations and private strings; what any sequence of such steps makes of the function.
\<close>

locale before_inserter =
  fixes n :: string
    and step :: "'x \<Rightarrow> imod \<Rightarrow> imod"
    and key :: "'x \<Rightarrow> nat"
    and good :: "(string \<Rightarrow> string option) \<Rightarrow> 'x \<Rightarrow> ins list \<Rightarrow> bool"
    and inv :: "imod \<Rightarrow> bool"
  assumes step_law: "inv m \<Longrightarrow> find_fun m n = Some f \<Longrightarrow>
      \<exists>xs. find_fun (step x m) n = Some (f\<lparr>iu_blocks := insert_before (key x) xs (iu_blocks f)\<rparr>) \<and>
        (\<forall>i\<in>set xs. im_next m \<le> ii_id i) \<and> good (global_text (step x m)) x xs \<and> im_next m \<le> im_next (step x m) \<and>
        text_kept m (step x m) \<and> inv (step x m) \<and> other_functions_kept n m (step x m)"
    and good_mono: "good t x xs \<Longrightarrow> (\<forall>k v. t k = Some v \<longrightarrow> t' k = Some v) \<Longrightarrow> good t' x xs"
begin

lemma steps:
  assumes "inv m" and "find_fun m n = Some f" and "\<forall>x\<in>set xs. key x < im_next m" and "distinct (map key xs)"
  shows "\<exists>B. find_fun (fold step xs m) n = Some (f\<lparr>iu_blocks := weave B (\<lambda>_. []) (iu_blocks f)\<rparr>) \<and>
    (\<forall>x\<in>set xs. good (global_text (fold step xs m)) x (B (key x))) \<and> (\<forall>k. k \<notin> key ` set xs \<longrightarrow> B k = []) \<and>
    (\<forall>k. \<forall>i\<in>set (B k). im_next m \<le> ii_id i) \<and> im_next m \<le> im_next (fold step xs m) \<and>
    text_kept m (fold step xs m) \<and> inv (fold step xs m) \<and> other_functions_kept n m (fold step xs m)"
  using assms(3,4)
proof (induction xs rule: rev_induct)
  case Nil
  show ?case using assms(1,2)
    by (intro exI [of _ "\<lambda>_. []"]) (simp add: weave_none text_kept_def other_functions_kept_def)
next
  case (snoc x xs)
  let ?m = "fold step xs m"
  have "\<forall>x\<in>set xs. key x < im_next m" "distinct (map key xs)" using snoc.prems by auto
  then obtain B where B: "find_fun ?m n = Some (f\<lparr>iu_blocks := weave B (\<lambda>_. []) (iu_blocks f)\<rparr>)"
    "\<forall>x\<in>set xs. good (global_text ?m) x (B (key x))" "\<forall>k. k \<notin> key ` set xs \<longrightarrow> B k = []" "\<forall>k. \<forall>i\<in>set (B k). im_next m \<le> ii_id i"
    "im_next m \<le> im_next ?m" "text_kept m ?m" "inv ?m" "other_functions_kept n m ?m"
    using snoc.IH by blast
  obtain ys where y: "find_fun (step x ?m) n = Some (f\<lparr>iu_blocks := insert_before (key x) ys (weave B (\<lambda>_. []) (iu_blocks f))\<rparr>)"
    "\<forall>i\<in>set ys. im_next ?m \<le> ii_id i" "good (global_text (step x ?m)) x ys" "im_next ?m \<le> im_next (step x ?m)"
    "text_kept ?m (step x ?m)" "inv (step x ?m)" "other_functions_kept n ?m (step x ?m)"
    using step_law [OF B(7,1), of x] by auto
  have "others (key x) B" using B(4) snoc.prems(1) by (fastforce simp: others_def)
  moreover have new: "B (key x) = []" using B(3) snoc.prems(2) by auto
  ultimately have "insert_before (key x) ys (weave B (\<lambda>_. []) (iu_blocks f)) = weave (B(key x := ys)) (\<lambda>_. []) (iu_blocks f)"
    by (subst insert_before_weave) (simp_all add: others_def weave_upd)
  then have "find_fun (fold step (xs @ [x]) m) n = Some (f\<lparr>iu_blocks := weave (B(key x := ys)) (\<lambda>_. []) (iu_blocks f)\<rparr>)" using y(1) by simp
  moreover have "\<forall>z\<in>set (xs @ [x]). good (global_text (fold step (xs @ [x]) m)) z ((B(key x := ys)) (key z))"
  proof
    fix z
    assume z: "z \<in> set (xs @ [x])"
    have "z \<in> set xs \<Longrightarrow> key z \<noteq> key x" using snoc.prems(2) by (auto simp: image_iff)
    with z consider "z = x" | "z \<in> set xs" "key z \<noteq> key x" by auto
    then show "good (global_text (fold step (xs @ [x]) m)) z ((B(key x := ys)) (key z))"
      using y(3) good_mono [of "global_text ?m" z "B (key z)" "global_text (step x ?m)"] B(2) y(5) by cases (simp_all add: text_kept_def)
  qed
  moreover have "\<forall>k. k \<notin> key ` set (xs @ [x]) \<longrightarrow> (B(key x := ys)) k = []" using B(3) by simp
  moreover have "\<forall>k. \<forall>i\<in>set ((B(key x := ys)) k). im_next m \<le> ii_id i" using B(4,5) y(2) order_trans by (fastforce split: if_splits)
  moreover have "text_kept m (fold step (xs @ [x]) m)" "other_functions_kept n m (fold step (xs @ [x]) m)"
    using text_kept_trans [OF B(6) y(5)] other_functions_kept_trans [OF B(8) y(7)] by simp_all
  ultimately show ?case using B(5) y(4,6) by (intro exI [of _ "B(key x := ys)"]) (simp del: fun_upd_apply)
qed

end

end
