(* ===== verification/SsaForm.thy ===== *)
theory SsaForm
  imports InsIr
begin

text \<open>
  SSA form: every operand that is an instruction is computed before it is used, in the block or in a block
  that dominates it. Code put before an instruction keeps the form when its own operands are available there;
  so do the natural loops of LLVM's LoopInfo.
\<close>

section \<open>Dominance\<close>

definition edges :: "blocks \<Rightarrow> (nat \<times> nat) set" where
  "edges bs = {(b, t). \<exists>is. (b, is) \<in> set bs \<and> is \<noteq> [] \<and> t \<in> set (succs (ii_op (last is)))}"

definition entry :: "blocks \<Rightarrow> nat" where
  "entry bs = fst (hd bs)"

inductive walk :: "(nat \<times> nat) set \<Rightarrow> nat \<Rightarrow> nat list \<Rightarrow> nat \<Rightarrow> bool" for E where
  walk_one: "walk E a [a] a"
| walk_step: "walk E a ns b \<Longrightarrow> (b, c) \<in> E \<Longrightarrow> walk E a (ns @ [c]) c"

definition dominates :: "blocks \<Rightarrow> nat \<Rightarrow> nat \<Rightarrow> bool" where
  "dominates bs a b \<longleftrightarrow> (\<forall>ns. walk (edges bs) (entry bs) ns b \<longrightarrow> a \<in> set ns)"

lemma walk_start: "walk E a ns b \<Longrightarrow> a \<in> set ns"
  by (induction rule: walk.induct) auto

lemma dominates_entry: "dominates bs (entry bs) b"
  by (simp add: dominates_def walk_start)

lemma walk_append: "walk E b ms c \<Longrightarrow> walk E a ns b \<Longrightarrow> \<exists>ks. walk E a ks c \<and> set ks \<subseteq> set ns \<union> set ms"
proof (induction rule: walk.induct)
  case (walk_one b)
  then show ?case by auto
next
  case (walk_step b ms c d)
  then obtain ks where "walk E a ks c" "set ks \<subseteq> set ns \<union> set ms" by blast
  with walk_step.hyps(2) show ?case using walk.walk_step [of E a ks c d] by (intro exI [of _ "ks @ [d]"]) auto
qed

section \<open>The form\<close>

definition avail :: "blocks \<Rightarrow> nat \<Rightarrow> nat set \<Rightarrow> ir_value \<Rightarrow> bool" where
  "avail bs b seen v \<longleftrightarrow> (case v of
     VInst k \<Rightarrow> k \<in> seen \<or> (\<exists>p\<in>set bs. fst p \<noteq> b \<and> k \<in> ii_id ` set (snd p) \<and> dominates bs (fst p) b)
   | _ \<Rightarrow> True)"

fun ssa_from :: "blocks \<Rightarrow> nat \<Rightarrow> nat set \<Rightarrow> ins list \<Rightarrow> bool" where
  "ssa_from bs b seen [] = True"
| "ssa_from bs b seen (i # is) \<longleftrightarrow>
     (ii_op i \<noteq> OPhi \<longrightarrow> list_all (avail bs b seen) (ii_args i)) \<and> ssa_from bs b (insert (ii_id i) seen) is"

definition ssa_ok :: "blocks \<Rightarrow> bool" where
  "ssa_ok bs \<longleftrightarrow> (\<forall>p\<in>set bs. ssa_from bs (fst p) {} (snd p))"

lemma avail_mono: "seen \<subseteq> seen' \<Longrightarrow> avail bs b seen v \<Longrightarrow> avail bs b seen' v"
  by (auto simp: avail_def split: ir_value.splits)

lemma ssa_from_append: "ssa_from bs b seen (xs @ ys) \<longleftrightarrow> ssa_from bs b seen xs \<and> ssa_from bs b (seen \<union> ii_id ` set xs) ys"
  by (induction xs arbitrary: seen) (auto simp: insert_commute)

lemma ssa_from_mono: "ssa_from bs b seen xs \<Longrightarrow> seen \<subseteq> seen' \<Longrightarrow> ssa_from bs b seen' xs"
proof (induction xs arbitrary: seen seen')
  case (Cons i xs)
  have "list_all (avail bs b seen') (ii_args i)" if "ii_op i \<noteq> OPhi"
    using Cons.prems that avail_mono [OF Cons.prems(2)] by (auto simp: list_all_iff)
  moreover have "ssa_from bs b (insert (ii_id i) seen') xs" using Cons.IH Cons.prems by (metis insert_mono ssa_from.simps(2))
  ultimately show ?case by simp
qed simp

section \<open>Insertion\<close>

definition put :: "nat \<Rightarrow> ins list \<Rightarrow> ins list \<Rightarrow> ins list" where
  "put k xs is = concat (map (\<lambda>i. if ii_id i = k then xs @ [i] else [i]) is)"

lemma insert_before_split:
  assumes "distinct (map ii_id is)"
  obtains "k \<notin> ii_id ` set is" "put k xs is = is"
  | p j q where "is = p @ j # q" "ii_id j = k" "put k xs is = p @ xs @ j # q"
proof (cases "k \<in> ii_id ` set is")
  case True
  then obtain j p q where j: "is = p @ j # q" "ii_id j = k" by (metis imageE split_list)
  then have "\<forall>x\<in>set p. ii_id x \<noteq> k" "\<forall>x\<in>set q. ii_id x \<noteq> k" using assms by (auto simp: image_iff)
  with j show ?thesis using that(2) [of p j q] by (simp add: put_def map_others)
next
  case False
  then have "\<forall>x\<in>set is. ii_id x \<noteq> k" by force
  then show ?thesis using that(1) False by (simp add: put_def map_others)
qed

lemma insert_before_block:
  "(b, is') \<in> set (insert_before k xs bs) \<longleftrightarrow> (\<exists>is. (b, is) \<in> set bs \<and> is' = put k xs is)"
  by (auto simp: insert_before_def on_ins_def put_def)

lemma inserted_last: "is \<noteq> [] \<Longrightarrow> last (put k xs is) = last is"
  by (induction "is" rule: rev_induct) (auto simp: put_def)

lemma inserted_empty: "put k xs is = [] \<longleftrightarrow> is = []"
  by (induction "is") (auto simp: put_def)

lemma edges_insert [simp]: "edges (insert_before k xs bs) = edges bs"
proof -
  have "(\<exists>is'. (b, is') \<in> set (insert_before k xs bs) \<and> is' \<noteq> [] \<and> t \<in> set (succs (ii_op (last is')))) \<longleftrightarrow>
      (\<exists>is. (b, is) \<in> set bs \<and> is \<noteq> [] \<and> t \<in> set (succs (ii_op (last is))))" for b t
    unfolding insert_before_block by (metis inserted_last inserted_empty)
  then show ?thesis by (simp add: edges_def)
qed

lemma entry_insert: "bs \<noteq> [] \<Longrightarrow> entry (insert_before k xs bs) = entry bs"
  by (cases bs) (auto simp: entry_def insert_before_def on_ins_def)

lemma dominates_insert: "bs \<noteq> [] \<Longrightarrow> dominates (insert_before k xs bs) a b = dominates bs a b"
  by (simp add: dominates_def entry_insert)

lemma inserted_ids: "ii_id ` set is \<subseteq> ii_id ` set (put k xs is)"
  by (auto simp: put_def)

lemma avail_insert:
  assumes "bs \<noteq> []" and "avail bs b seen v"
  shows "avail (insert_before k xs bs) b seen v"
proof (cases v)
  case (VInst n)
  show ?thesis
  proof (cases "n \<in> seen")
    case False
    with VInst assms(2) obtain c "is" where c: "(c, is) \<in> set bs" "c \<noteq> b" "n \<in> ii_id ` set is" "dominates bs c b"
      by (auto simp: avail_def)
    let ?is = "put k xs is"
    have "(c, ?is) \<in> set (insert_before k xs bs)" using c(1) insert_before_block by blast
    moreover have "n \<in> ii_id ` set ?is" using c(3) inserted_ids by blast
    ultimately show ?thesis using VInst c(2,4) dominates_insert [OF assms(1)] unfolding avail_def by force
  qed (simp add: VInst avail_def)
qed (simp_all add: avail_def)

lemma ssa_from_insert: "bs \<noteq> [] \<Longrightarrow> ssa_from bs b seen ys \<Longrightarrow> ssa_from (insert_before k xs bs) b seen ys"
proof (induction ys arbitrary: seen)
  case (Cons i ys)
  then show ?case using avail_insert [OF Cons.prems(1)] by (auto simp: list_all_iff)
qed simp

text \<open>The code that is put in front of an instruction uses what is available there.\<close>

definition fits_before :: "blocks \<Rightarrow> nat \<Rightarrow> ins list \<Rightarrow> bool" where
  "fits_before bs k xs \<longleftrightarrow> (\<forall>b p j q. (b, p @ j # q) \<in> set bs \<longrightarrow> ii_id j = k \<longrightarrow> ssa_from bs b (ii_id ` set p) xs)"

lemma ssa_insert_before:
  assumes "ssa_ok bs" and "\<forall>p\<in>set bs. distinct (map ii_id (snd p))" and "fits_before bs k xs"
  shows "ssa_ok (insert_before k xs bs)"
  unfolding ssa_ok_def
proof
  fix p
  assume p: "p \<in> set (insert_before k xs bs)"
  obtain b "is" where b: "p = (b, put k xs is)" "(b, is) \<in> set bs"
    using p insert_before_block by (metis surj_pair)
  have ne: "bs \<noteq> []" using b(2) by auto
  have old: "ssa_from bs b {} is" using assms(1) b(2) by (force simp: ssa_ok_def)
  have d: "distinct (map ii_id is)" using assms(2) b(2) by force
  show "ssa_from (insert_before k xs bs) (fst p) {} (snd p)"
  proof (rule insert_before_split [OF d, of k xs])
    assume "k \<notin> ii_id ` set is" "put k xs is = is"
    then show ?thesis using b ssa_from_insert [OF ne old] by simp
  next
    fix pre j q
    assume s: "is = pre @ j # q" "ii_id j = k" "put k xs is = pre @ xs @ j # q"
    have "ssa_from bs b (ii_id ` set pre) xs" using assms(3) b(2) s by (auto simp: fits_before_def)
    moreover have "ssa_from bs b {} pre" "ssa_from bs b (ii_id ` set pre) (j # q)" using old s(1) by (simp_all add: ssa_from_append)
    moreover have "ssa_from bs b (ii_id ` set (pre @ xs)) (j # q)"
      by (rule ssa_from_mono [OF calculation(3)]) auto
    ultimately have "ssa_from bs b {} (pre @ xs @ j # q)" by (simp add: ssa_from_append image_Un Un_ac del: ssa_from.simps)
    then show ?thesis using b(1) s(3) ssa_from_insert [OF ne] by simp
  qed
qed

text \<open>An operand of an instruction is available before it.\<close>

lemma operand_fits:
  assumes "ssa_ok bs" and "(b, p @ j # q) \<in> set bs" and "ii_op j \<noteq> OPhi" and "v \<in> set (ii_args j)"
  shows "avail bs b (ii_id ` set p) v"
  using assms by (force simp: ssa_ok_def ssa_from_append list_all_iff)

section \<open>Natural loops\<close>

record loop =
  lo_header :: nat
  lo_blocks :: "nat list"
  lo_preheader :: "nat option"

text \<open>
  What LoopInfo promises: the header is a block of the loop and reaches every block of it inside the loop; a
  preheader is outside the loop, and its only way out is a branch to the header.
\<close>

definition loop_ok :: "blocks \<Rightarrow> loop \<Rightarrow> bool" where
  "loop_ok bs l \<longleftrightarrow> lo_header l \<in> set (lo_blocks l) \<and> lo_header l \<in> fst ` set bs \<and>
     (\<forall>u\<in>set (lo_blocks l). \<exists>ns. walk (edges bs) (lo_header l) ns u \<and> set ns \<subseteq> set (lo_blocks l)) \<and>
     (\<forall>p. lo_preheader l = Some p \<longrightarrow> p \<notin> set (lo_blocks l) \<and> p \<in> fst ` set bs \<and>
        (\<forall>is. (p, is) \<in> set bs \<longrightarrow> is \<noteq> [] \<and> ii_op (last is) = OBr (lo_header l)))"

lemma loop_ok_insert: "loop_ok bs l \<Longrightarrow> loop_ok (insert_before k xs bs) l"
proof -
  assume l: "loop_ok bs l"
  have fst: "fst ` set (insert_before k xs bs) = fst ` set bs" by (force simp: insert_before_def on_ins_def)
  have last: "is' \<noteq> [] \<and> ii_op (last is') = OBr h"
    if "\<forall>is. (p, is) \<in> set bs \<longrightarrow> is \<noteq> [] \<and> ii_op (last is) = OBr h" "(p, is') \<in> set (insert_before k xs bs)" for p h is'
    using that unfolding insert_before_block by (metis inserted_last inserted_empty)
  show ?thesis using l last unfolding loop_ok_def fst edges_insert by blast
qed

text \<open>A block outside a loop that dominates a block of it dominates the header and the preheader.\<close>

lemma dominates_header:
  assumes "loop_ok bs l" and "u \<in> set (lo_blocks l)" and "d \<notin> set (lo_blocks l)" and "dominates bs d u"
  shows "dominates bs d (lo_header l)"
  unfolding dominates_def
proof (intro allI impI)
  fix ns
  assume ns: "walk (edges bs) (entry bs) ns (lo_header l)"
  obtain ms where ms: "walk (edges bs) (lo_header l) ms u" "set ms \<subseteq> set (lo_blocks l)" using assms(1,2) by (auto simp: loop_ok_def)
  obtain ks where "walk (edges bs) (entry bs) ks u" "set ks \<subseteq> set ns \<union> set ms" using walk_append [OF ms(1) ns] by blast
  then show "d \<in> set ns" using assms(3,4) ms(2) by (auto simp: dominates_def)
qed

lemma dominates_preheader:
  assumes "loop_ok bs l" and "u \<in> set (lo_blocks l)" and "d \<notin> set (lo_blocks l)" and "dominates bs d u" and "lo_preheader l = Some p"
  shows "dominates bs d p"
  unfolding dominates_def
proof (intro allI impI)
  fix ns
  assume ns: "walk (edges bs) (entry bs) ns p"
  obtain "is" where "(p, is) \<in> set bs" "is \<noteq> []" "ii_op (last is) = OBr (lo_header l)" using assms(1,5) by (fastforce simp: loop_ok_def)
  then have "(p, lo_header l) \<in> edges bs" by (auto simp: edges_def)
  then have "walk (edges bs) (entry bs) (ns @ [lo_header l]) (lo_header l)" using ns walk_step by blast
  then have "d \<in> set (ns @ [lo_header l])" using dominates_header [OF assms(1-4)] unfolding dominates_def by blast
  moreover have "d \<noteq> lo_header l" using assms(1,3) by (auto simp: loop_ok_def)
  ultimately show "d \<in> set ns" by simp
qed

end
