(* ===== verification/AdaptiveDispatch.thy ===== *)
theory AdaptiveDispatch
  imports PassReports SsaForm
begin

text \<open>
  lib/Transforms/AdaptiveDispatchPass.cpp: a pipeline is given a new entry that jumps to the version the
  runtime has compiled, when there is one, and otherwise runs the function as it was, between a begin and an
  end of the cost measurement. A constructor registers the pointer that the entry reads.
\<close>

section \<open>The pass\<close>

text \<open>\<open>ds_ctors\<close> is the initialiser of \<open>llvm.global_ctors\<close>: priorities and functions.\<close>

record dispatch_env =
  de_uniq :: "string set \<Rightarrow> string \<Rightarrow> string"
  de_enabled :: bool
  de_excludeFuncs :: "string list option"

record dispatch_state =
  ds_mod :: imod
  ds_ctors :: "(nat \<times> string) list"
  ds_count :: int
  ds_report :: "AdaptiveDispatchEntry list"

text \<open>The strings of the pass events, made once per run.\<close>

record dispatch_strings =
  dt_pass :: string
  dt_from :: string
  dt_to :: string

definition dispatch_excluded :: "dispatch_env \<Rightarrow> FlowBlock \<Rightarrow> bool" where
  "dispatch_excluded env lb = (case de_excludeFuncs env of None \<Rightarrow> False
     | Some ps \<Rightarrow> \<exists>p\<in>set ps. contains p (fb_qualifiedName lb))"

definition estimatePipelineTTICost :: "ifun \<Rightarrow> nat" where
  "estimatePipelineTTICost f = length (code_of f)"

definition addGlobalCtor :: "string \<Rightarrow> (nat \<times> string) list \<Rightarrow> (nat \<times> string) list" where
  "addGlobalCtor c ctors = ctors @ [(65535, c)]"

text \<open>
  The dispatch: the labels of the new blocks are \<open>k\<close> (entry), \<open>k + 1\<close> (\<open>jit_path\<close>), \<open>k + 2\<close> (\<open>pe_done\<close>) and
  \<open>k + 3\<close> (\<open>pe_emit\<close>), their instructions count from \<open>k\<close>.
\<close>

definition entry_code :: "nat \<Rightarrow> string \<Rightarrow> nat \<Rightarrow> ins list" where
  "entry_code k jitPtr orig =
     [new_ins k (OLoad, [VGlobal jitPtr], PointerTy), new_ins (k + 1) (OIcmpNe, [VInst k, VNull], IntegerTy 1),
      new_ins (k + 2) (OCondBr (k + 1) orig, [VInst (k + 1)], VoidTy)]"

definition jit_code :: "nat \<Rightarrow> string \<Rightarrow> ins list" where
  "jit_code k emitted =
     [new_ins (k + 3) (OLoad, [VGlobal emitted], IntegerTy 8), new_ins (k + 4) (OIcmpEq, [VInst (k + 3), VConst 0], IntegerTy 1),
      new_ins (k + 5) (OCondBr (k + 3) (k + 2), [VInst (k + 4)], VoidTy)]"

definition emit_code :: "nat \<Rightarrow> string \<Rightarrow> dispatch_strings \<Rightarrow> string \<Rightarrow> ins list" where
  "emit_code k emitted dt name =
     [new_ins (k + 6) (OStore, [VConst 1, VGlobal emitted], VoidTy),
      new_ins (k + 7) (call_proto ''topo_pass_event_emit'' [VGlobal (dt_pass dt), VGlobal (dt_from dt), VGlobal (dt_to dt), VGlobal name] VoidTy),
      new_ins (k + 8) (OBr (k + 2), [], VoidTy)]"

definition done_code :: "nat \<Rightarrow> ifun \<Rightarrow> ins list" where
  "done_code k f =
     [new_ins (k + 9) (OCall (Indirect (VInst k)), map VArg [0..<length (iu_params f)], iu_ret f),
      new_ins (k + 10) (ORet, (if iu_ret f = VoidTy then [] else [VInst (k + 9)]), VoidTy)]"

definition cost_begin :: "nat \<Rightarrow> string \<Rightarrow> ins" where
  "cost_begin k name = new_ins k (call_proto ''topo_cost_begin'' [VGlobal name] VoidTy)"

definition cost_end :: "nat \<Rightarrow> string \<Rightarrow> ins" where
  "cost_end k name = new_ins k (call_proto ''topo_cost_end'' [VGlobal name] VoidTy)"

text \<open>Before the return of a block, when it has one.\<close>

definition end_block :: "nat \<Rightarrow> string \<Rightarrow> ins list \<Rightarrow> ins list" where
  "end_block k name is = (if is \<noteq> [] \<and> ii_op (last is) = ORet then butlast is @ [cost_end k name, last is] else is)"

definition end_blocks :: "nat set \<Rightarrow> nat \<Rightarrow> string \<Rightarrow> blocks \<Rightarrow> blocks" where
  "end_blocks skipped k name bs =
     map (\<lambda>(j, b). (fst b, if fst b \<in> skipped then snd b else end_block (k + j) name (snd b))) (enumerate 0 bs)"

definition begin_block :: "nat \<Rightarrow> string \<Rightarrow> nat \<Rightarrow> blocks \<Rightarrow> blocks" where
  "begin_block k name orig = map (\<lambda>b. (fst b, if fst b = orig then cost_begin k name # snd b else snd b))"

definition dispatch_blocks :: "nat \<Rightarrow> string \<Rightarrow> string \<Rightarrow> dispatch_strings \<Rightarrow> string \<Rightarrow> ifun \<Rightarrow> blocks" where
  "dispatch_blocks k jitPtr emitted dt name f =
     end_blocks {k + 1, k + 2} (k + 12) name
       (begin_block (k + 11) name (entry (iu_blocks f))
         ((k, entry_code k jitPtr (entry (iu_blocks f))) # (k + 1, jit_code k emitted) # iu_blocks f @
          [(k + 2, done_code k f), (k + 3, emit_code k emitted dt name)]))"

definition ctor_code :: "nat \<Rightarrow> string \<Rightarrow> string \<Rightarrow> string \<Rightarrow> nat \<Rightarrow> ins list" where
  "ctor_code k mangled name jitPtr cost =
     [new_ins k (call_proto ''topo_adaptive_register'' [VGlobal mangled, VGlobal name, VGlobal jitPtr, VConst (int cost)] VoidTy),
      new_ins (k + 1) (ORet, [], VoidTy)]"

text \<open>The constructor's function is made before the string of the name it registers.\<close>

definition register_ctor :: "dispatch_env \<Rightarrow> string \<Rightarrow> string \<Rightarrow> string \<Rightarrow> nat \<Rightarrow> imod \<Rightarrow> string \<times> imod" where
  "register_ctor env n name jitPtr cost m =
     (let c = fresh_name (de_uniq env) m (n @ ''.__adaptive_ctor'');
          m1 = m\<lparr>im_funs := im_funs m @ [(new_ifun c [] VoidTy)\<lparr>iu_linkage := InternalLinkage\<rparr>]\<rparr>
      in case getOrCreateGlobalString (de_uniq env) n ''.str.topo_mangled.'' m1 of
           (mangled, m2) \<Rightarrow> (c, bump 2 (upd_blocks c (\<lambda>_. [(0, ctor_code (im_next m2) mangled name jitPtr cost)]) m2)))"

definition dispatch_function :: "dispatch_env \<Rightarrow> dispatch_strings \<Rightarrow> string \<Rightarrow> ifun \<Rightarrow> imod \<Rightarrow> string \<times> imod" where
  "dispatch_function env dt q f m =
     (case getOrCreateGlobalString (de_uniq env) q ''.str.topo_adaptive.'' m of
        (name, m1) \<Rightarrow>
          (case add_iglobal (de_uniq env) (iu_name f @ ''.__jit_ptr'') InternalLinkage None m1 of
             (jitPtr, m2) \<Rightarrow>
               (case add_iglobal (de_uniq env) (iu_name f @ ''.__pe_emitted'') InternalLinkage None m2 of
                  (emitted, m3) \<Rightarrow>
                    register_ctor env (iu_name f) name jitPtr
                      (estimatePipelineTTICost (f\<lparr>iu_blocks := dispatch_blocks (im_next m3) jitPtr emitted dt name f\<rparr>))
                      (bump (16 + length (iu_blocks f))
                        (upd_blocks (iu_name f) (\<lambda>_. dispatch_blocks (im_next m3) jitPtr emitted dt name f) m3)))))"

definition dispatch_block :: "dispatch_env \<Rightarrow> em_mapping \<Rightarrow> dispatch_strings \<Rightarrow> FlowBlock \<Rightarrow> dispatch_state \<Rightarrow> dispatch_state" where
  "dispatch_block env mp dt lb s =
     (case mapped mp (fb_qualifiedName lb) of
        None \<Rightarrow> s
      | Some n \<Rightarrow>
          (case find_fun (ds_mod s) n of
             None \<Rightarrow> s
           | Some f \<Rightarrow>
               if \<not> fb_isPipeline lb \<or> iu_declaration f \<or> dispatch_excluded env lb then s
               else (case dispatch_function env dt (fb_qualifiedName lb) f (ds_mod s) of
                       (c, m) \<Rightarrow> \<lparr>ds_mod = m, ds_ctors = addGlobalCtor c (ds_ctors s), ds_count = ds_count s + 1,
                         ds_report = ds_report s @ [\<lparr>ade_stageName = fb_qualifiedName lb, ade_defaultVariant = ''aot''\<rparr>]\<rparr>)))"

definition declare_dispatch :: "imod \<Rightarrow> imod" where
  "declare_dispatch m =
     getOrDeclareFunc ''topo_pass_event_emit'' [PointerTy, PointerTy, PointerTy, PointerTy] VoidTy
       (getOrDeclareFunc ''topo_adaptive_register'' [PointerTy, PointerTy, PointerTy, IntegerTy 64] VoidTy
         (getOrDeclareFunc ''topo_cost_end'' [PointerTy] VoidTy (getOrDeclareFunc ''topo_cost_begin'' [PointerTy] VoidTy m)))"

definition event_names :: "dispatch_env \<Rightarrow> imod \<Rightarrow> dispatch_strings \<times> imod" where
  "event_names env m =
     (case getOrCreateGlobalString (de_uniq env) ''AdaptiveDispatchPass'' ''.str.topo_pass.'' m of
        (a, m1) \<Rightarrow>
          (case getOrCreateGlobalString (de_uniq env) ''aot'' ''.str.topo_pe.'' m1 of
             (b, m2) \<Rightarrow>
               (case getOrCreateGlobalString (de_uniq env) ''jit'' ''.str.topo_pe.'' m2 of
                  (c, m3) \<Rightarrow> (\<lparr>dt_pass = a, dt_from = b, dt_to = c\<rparr>, m3))))"

definition finish_dispatch :: "dispatch_state \<Rightarrow> dispatch_state" where
  "finish_dispatch s = (if ds_count s > 0 then s\<lparr>ds_mod := inject_abi ''adaptive'' ''topo_adaptive_version'' 1 (ds_mod s)\<rparr> else s)"

definition dispatch_run :: "dispatch_env \<Rightarrow> FlowSymbols \<Rightarrow> em_mapping \<Rightarrow> dispatch_state \<Rightarrow> dispatch_state" where
  "dispatch_run env symbols mp s =
     (if \<not> de_enabled env then s
      else (case event_names env (declare_dispatch (ds_mod s)) of
              (dt, m) \<Rightarrow> finish_dispatch (fold (dispatch_block env mp dt) (map snd (fl_blocks symbols)) (s\<lparr>ds_mod := m\<rparr>))))"

section \<open>Paths\<close>

text \<open>What a path does: operations and operands, without the identities of the instructions.\<close>

definition view :: "ins \<Rightarrow> opcode \<times> ir_value list" where
  "view i = (ii_op i, ii_args i)"

definition runs_from :: "blocks \<Rightarrow> nat \<Rightarrow> (opcode \<times> ir_value list) list set" where
  "runs_from bs b = {map view tr |tr. path bs b tr}"

definition runs_of :: "blocks \<Rightarrow> (opcode \<times> ir_value list) list set" where
  "runs_of bs = runs_from bs (entry bs)"

text \<open>Labels are unique and below \<open>k\<close>, branches stay in the function and never lead to its entry.\<close>

definition cfg_ok :: "nat \<Rightarrow> blocks \<Rightarrow> bool" where
  "cfg_ok k bs \<longleftrightarrow> bs \<noteq> [] \<and> distinct (map fst bs) \<and> (\<forall>b\<in>set bs. fst b < k) \<and> snd ` edges bs \<subseteq> fst ` set bs - {entry bs}"

definition ending :: "string \<Rightarrow> (opcode \<times> ir_value list) list \<Rightarrow> (opcode \<times> ir_value list) list" where
  "ending name tr = butlast tr @ [(OCall (Direct ''topo_cost_end''), [VGlobal name]), last tr]"

definition timed :: "string \<Rightarrow> (opcode \<times> ir_value list) list \<Rightarrow> (opcode \<times> ir_value list) list" where
  "timed name tr = (OCall (Direct ''topo_cost_begin''), [VGlobal name]) # ending name tr"

definition opened :: "blocks \<Rightarrow> nat \<Rightarrow> string \<Rightarrow> (opcode \<times> ir_value list) list" where
  "opened bs b name = (if b = entry bs then [(OCall (Direct ''topo_cost_begin''), [VGlobal name])] else [])"

lemma runs_from_unfold:
  "runs_from bs b = (case map_of bs b of None \<Rightarrow> {}
     | Some is \<Rightarrow> if is = [] then {} else if ii_op (last is) = ORet then {map view is}
       else {map view is @ v |t v. t \<in> set (succs (ii_op (last is))) \<and> v \<in> runs_from bs t})"
proof (cases "map_of bs b")
  case None
  then show ?thesis by (auto simp: runs_from_def elim: path.cases)
next
  case (Some "is")
  have "path bs b tr \<longleftrightarrow> is \<noteq> [] \<and> (if ii_op (last is) = ORet then tr = is
      else \<exists>t tr'. tr = is @ tr' \<and> t \<in> set (succs (ii_op (last is))) \<and> path bs t tr')" for tr
  proof
    assume "path bs b tr"
    then show "is \<noteq> [] \<and> (if ii_op (last is) = ORet then tr = is
      else \<exists>t tr'. tr = is @ tr' \<and> t \<in> set (succs (ii_op (last is))) \<and> path bs t tr')"
      using Some by cases auto
  qed (use Some in \<open>auto intro: path.intros split: if_splits\<close>)
  note step = this
  show ?thesis
  proof (cases "is \<noteq> [] \<and> ii_op (last is) \<noteq> ORet")
    case True
    have "runs_from bs b = {map view is @ v |t v. t \<in> set (succs (ii_op (last is))) \<and> v \<in> runs_from bs t}"
    proof (intro equalityI subsetI)
      fix v
      assume "v \<in> runs_from bs b"
      then obtain tr where "v = map view tr" "path bs b tr" by (auto simp: runs_from_def)
      moreover from this(2) obtain t tr' where t: "tr = is @ tr'" "t \<in> set (succs (ii_op (last is)))" "path bs t tr'"
        using step True by auto
      ultimately have "v = map view is @ map view tr'" "map view tr' \<in> runs_from bs t" by (auto simp: runs_from_def)
      then show "v \<in> {map view is @ v |t v. t \<in> set (succs (ii_op (last is))) \<and> v \<in> runs_from bs t}" using t(2) by blast
    next
      fix v
      assume "v \<in> {map view is @ v |t v. t \<in> set (succs (ii_op (last is))) \<and> v \<in> runs_from bs t}"
      then obtain t tr where t: "v = map view (is @ tr)" "t \<in> set (succs (ii_op (last is)))" "path bs t tr" by (auto simp: runs_from_def)
      then have "path bs b (is @ tr)" using step [of "is @ tr"] True by auto
      then show "v \<in> runs_from bs b" using t(1) unfolding runs_from_def by blast
    qed
    then show ?thesis using Some True by simp
  next
    case False
    then show ?thesis using Some step by (auto simp: runs_from_def)
  qed
qed

lemma runs_from_nonempty: "v \<in> runs_from bs b \<Longrightarrow> v \<noteq> []"
  by (subst (asm) runs_from_unfold) (auto split: option.splits if_splits)

lemma path_nonempty: "path bs b tr \<Longrightarrow> tr \<noteq> []"
  by (induction rule: path.induct) auto

lemma runs_ret: "map_of bs b = Some (is @ [r]) \<Longrightarrow> ii_op r = ORet \<Longrightarrow> runs_from bs b = {map view (is @ [r])}"
  by (subst runs_from_unfold) simp

lemma runs_jump: "map_of bs b = Some (is @ [r]) \<Longrightarrow> ii_op r \<noteq> ORet \<Longrightarrow>
    runs_from bs b = (\<Union>t\<in>set (succs (ii_op r)). (\<lambda>v. map view (is @ [r]) @ v) ` runs_from bs t)"
  by (subst runs_from_unfold) auto

section \<open>Lookups in the new blocks\<close>

lemma map_of_begin: "map_of (begin_block k name orig bs) b = map_option (\<lambda>is. if b = orig then cost_begin k name # is else is) (map_of bs b)"
  by (induction bs) (auto simp: begin_block_def)

lemma map_of_end:
  "\<exists>j. map_of (end_blocks S k name bs) b = map_option (\<lambda>is. if b \<in> S then is else end_block (k + j) name is) (map_of bs b)"
proof -
  have "\<exists>j. map_of (map (\<lambda>(j, b). (fst b, if fst b \<in> S then snd b else end_block (k + j) name (snd b))) (enumerate n bs)) b =
      map_option (\<lambda>is. if b \<in> S then is else end_block (k + j) name is) (map_of bs b)" for n
    by (induction bs arbitrary: n) auto
  then show ?thesis by (simp add: end_blocks_def)
qed

text \<open>The blocks of a function between the new ones.\<close>

definition around :: "nat \<Rightarrow> string \<Rightarrow> string \<Rightarrow> dispatch_strings \<Rightarrow> string \<Rightarrow> ifun \<Rightarrow> blocks" where
  "around k jitPtr emitted dt name f =
     (k, entry_code k jitPtr (entry (iu_blocks f))) # (k + 1, jit_code k emitted) # iu_blocks f @
       [(k + 2, done_code k f), (k + 3, emit_code k emitted dt name)]"

lemma dispatch_lookup:
  "\<exists>j. map_of (dispatch_blocks k jp em dt name f) b =
     map_option (\<lambda>is. if b \<in> {k + 1, k + 2} then is else end_block (k + 12 + j) name is)
       (map_option (\<lambda>is. if b = entry (iu_blocks f) then cost_begin (k + 11) name # is else is) (map_of (around k jp em dt name f) b))"
proof -
  have e: "dispatch_blocks k jp em dt name f =
      end_blocks {k + 1, k + 2} (k + 12) name (begin_block (k + 11) name (entry (iu_blocks f)) (around k jp em dt name f))"
    by (simp add: dispatch_blocks_def around_def)
  show ?thesis unfolding e map_of_begin [symmetric] by (rule map_of_end)
qed

lemma cfg_entry: "cfg_ok k bs \<Longrightarrow> entry bs < k \<and> entry bs \<in> fst ` set bs"
  by (cases bs) (auto simp: cfg_ok_def entry_def)

lemma around_old:
  assumes "cfg_ok k (iu_blocks f)" and "b < k"
  shows "map_of (around k jp em dt name f) b = map_of (iu_blocks f) b"
  using assms(2) by (auto simp: around_def map_add_def split: option.splits)

lemma around_new:
  assumes "cfg_ok k (iu_blocks f)"
  shows "map_of (around k jp em dt name f) k = Some (entry_code k jp (entry (iu_blocks f)))"
    and "map_of (around k jp em dt name f) (k + 1) = Some (jit_code k em)"
    and "map_of (around k jp em dt name f) (k + 2) = Some (done_code k f)"
    and "map_of (around k jp em dt name f) (k + 3) = Some (emit_code k em dt name)"
proof -
  have "map_of (iu_blocks f) (k + d) = None" for d
    using assms by (auto simp: map_of_eq_None_iff cfg_ok_def)
  from this [of 2] this [of 3] show "map_of (around k jp em dt name f) k = Some (entry_code k jp (entry (iu_blocks f)))"
    "map_of (around k jp em dt name f) (k + 1) = Some (jit_code k em)"
    "map_of (around k jp em dt name f) (k + 2) = Some (done_code k f)"
    "map_of (around k jp em dt name f) (k + 3) = Some (emit_code k em dt name)"
    by (auto simp: around_def map_add_def)
qed

section \<open>Paths of a dispatched function\<close>

lemma view_new [simp]: "view (new_ins k p) = (fst p, fst (snd p))"
  by (simp add: view_def new_ins_def)

lemma ending_append: "v \<noteq> [] \<Longrightarrow> ending name (xs @ v) = xs @ ending name v"
  by (simp add: ending_def butlast_append)

lemma view_end_block:
  "is \<noteq> [] \<Longrightarrow> ii_op (last is) = ORet \<Longrightarrow> map view (end_block k name is) = ending name (map view is)"
  by (simp add: end_block_def ending_def cost_end_def call_proto_def map_butlast last_map)

lemma end_block_shape:
  "end_block k name is = [] \<longleftrightarrow> is = []" "is \<noteq> [] \<Longrightarrow> last (end_block k name is) = last is"
  "is = [] \<or> ii_op (last is) \<noteq> ORet \<Longrightarrow> end_block k name is = is"
  by (auto simp: end_block_def)

definition opened_code :: "nat \<Rightarrow> string \<Rightarrow> nat \<Rightarrow> nat \<Rightarrow> ins list" where
  "opened_code k name orig b = (if b = orig then [cost_begin k name] else [])"

text \<open>The instrumented block of an old label.\<close>

lemma dispatch_old:
  assumes "cfg_ok k (iu_blocks f)" and "b < k"
  shows "\<exists>j. map_of (dispatch_blocks k jp em dt name f) b =
    map_option (\<lambda>is. end_block j name (opened_code (k + 11) name (entry (iu_blocks f)) b @ is)) (map_of (iu_blocks f) b)"
  using dispatch_lookup [of k jp em dt name f b] assms around_old [OF assms, of jp em dt name]
  by (auto simp: option.map_comp comp_def opened_code_def cong: option.map_cong)

lemma cfg_target:
  assumes "cfg_ok k bs" and "map_of bs b = Some is" and "is \<noteq> []" and "t \<in> set (succs (ii_op (last is)))"
  shows "t < k" and "t \<noteq> entry bs"
proof -
  have "t \<in> snd ` edges bs" using map_of_SomeD [OF assms(2)] assms(3,4) by (force simp: edges_def)
  then have "t \<in> fst ` set bs - {entry bs}" using assms(1) unfolding cfg_ok_def by blast
  then show "t < k" "t \<noteq> entry bs" using assms(1) by (auto simp: cfg_ok_def)
qed

lemma view_opened: "map view (opened_code k name (entry bs) b) = opened bs b name"
  by (simp add: opened_code_def opened_def cost_begin_def call_proto_def)

lemma last_opened: "is \<noteq> [] \<Longrightarrow> last (opened_code k name orig b @ is) = last is"
  by (simp add: opened_code_def)

lemma path_dispatched:
  assumes "cfg_ok k (iu_blocks f)" and "path (iu_blocks f) b tr" and "b < k"
  shows "opened (iu_blocks f) b name @ ending name (map view tr) \<in> runs_from (dispatch_blocks k jp em dt name f) b"
  using assms(2,3)
proof (induction rule: path.induct)
  case (path_ret b "is")
  obtain j where "map_of (dispatch_blocks k jp em dt name f) b =
      Some (end_block j name (opened_code (k + 11) name (entry (iu_blocks f)) b @ is))"
    using dispatch_old [OF assms(1) path_ret.prems, of jp em dt name] path_ret.hyps(1) by auto
  then show ?case using path_ret.hyps(2,3)
    by (subst runs_from_unfold) (simp add: end_block_shape last_opened view_end_block ending_append view_opened)
next
  case (path_go b "is" t tr)
  note t = cfg_target [OF assms(1) path_go.hyps(1-3)]
  have ne: "ii_op (last is) \<noteq> ORet" using path_go.hyps(3) by auto
  obtain j where "map_of (dispatch_blocks k jp em dt name f) b =
      Some (end_block j name (opened_code (k + 11) name (entry (iu_blocks f)) b @ is))"
    using dispatch_old [OF assms(1) path_go.prems, of jp em dt name] path_go.hyps(1) by auto
  moreover have "ending name (map view tr) \<in> runs_from (dispatch_blocks k jp em dt name f) t"
    using path_go.IH t by (simp add: opened_def)
  moreover have "map view tr \<noteq> []" using path_nonempty [OF path_go.hyps(4)] by simp
  ultimately show ?case using path_go.hyps(2,3) ne
    by (subst runs_from_unfold) (auto simp: end_block_shape last_opened ending_append view_opened)
qed

lemma dispatched_path:
  assumes "cfg_ok k (iu_blocks f)" and "path (dispatch_blocks k jp em dt name f) b tr" and "b < k"
  shows "\<exists>tr0. path (iu_blocks f) b tr0 \<and> map view tr = opened (iu_blocks f) b name @ ending name (map view tr0)"
  using assms(2,3)
proof (induction rule: path.induct)
  case (path_ret b bis)
  then obtain j "is" where b: "map_of (iu_blocks f) b = Some is"
      "bis = end_block j name (opened_code (k + 11) name (entry (iu_blocks f)) b @ is)"
    using dispatch_old [OF assms(1) path_ret.prems, of jp em dt name] path_ret.hyps(1)
    by (cases "map_of (iu_blocks f) b") auto
  have "is \<noteq> []" using path_ret.hyps(2,3) b(2)
    by (auto simp: end_block_shape opened_code_def cost_begin_def new_ins_def call_proto_def end_block_def split: if_splits)
  moreover from this have "ii_op (last is) = ORet" using path_ret.hyps(3) b(2) by (simp add: end_block_shape last_opened)
  ultimately show ?case using b
    by (intro exI [of _ "is"] conjI path.path_ret) (simp_all add: last_opened view_end_block ending_append view_opened)
next
  case (path_go b bis t tr)
  then obtain j "is" where b: "map_of (iu_blocks f) b = Some is"
      "bis = end_block j name (opened_code (k + 11) name (entry (iu_blocks f)) b @ is)"
    using dispatch_old [OF assms(1) path_go.prems, of jp em dt name] path_go.hyps(1)
    by (cases "map_of (iu_blocks f) b") auto
  have i: "is \<noteq> []" using path_go.hyps(2,3) b(2)
    by (auto simp: end_block_shape opened_code_def cost_begin_def new_ins_def call_proto_def end_block_def split: if_splits)
  then have s: "t \<in> set (succs (ii_op (last is)))" using path_go.hyps(3) b(2) by (simp add: end_block_shape last_opened)
  note t = cfg_target [OF assms(1) b(1) i s]
  obtain tr0 where tr0: "path (iu_blocks f) t tr0" "map view tr = ending name (map view tr0)"
    using path_go.IH t by (auto simp: opened_def)
  have "map view tr0 \<noteq> []" using path_nonempty [OF tr0(1)] by simp
  moreover have "ii_op (last is) \<noteq> ORet" using s by auto
  ultimately show ?case using b(2) tr0 i
    by (intro exI [of _ "is @ tr0"] conjI path.path_go [OF b(1) i s tr0(1)])
      (simp add: end_block_shape last_opened ending_append view_opened)
qed

lemma runs_old:
  assumes "cfg_ok k (iu_blocks f)"
  shows "runs_from (dispatch_blocks k jp em dt name f) (entry (iu_blocks f)) = timed name ` runs_of (iu_blocks f)"
proof -
  have e: "entry (iu_blocks f) < k" using cfg_entry [OF assms] by simp
  have o: "opened (iu_blocks f) (entry (iu_blocks f)) name @ ending name v = timed name v" for v
    by (simp add: opened_def timed_def)
  show ?thesis
  proof (intro equalityI subsetI)
    fix v
    assume "v \<in> runs_from (dispatch_blocks k jp em dt name f) (entry (iu_blocks f))"
    then obtain tr where "v = map view tr" "path (dispatch_blocks k jp em dt name f) (entry (iu_blocks f)) tr"
      unfolding runs_from_def by blast
    moreover from dispatched_path [OF assms this(2) e] obtain tr0
      where "path (iu_blocks f) (entry (iu_blocks f)) tr0" "map view tr = timed name (map view tr0)" unfolding o by blast
    ultimately show "v \<in> timed name ` runs_of (iu_blocks f)" unfolding runs_of_def runs_from_def by blast
  next
    fix v
    assume "v \<in> timed name ` runs_of (iu_blocks f)"
    then obtain tr where "v = timed name (map view tr)" "path (iu_blocks f) (entry (iu_blocks f)) tr"
      unfolding runs_of_def runs_from_def by blast
    then show "v \<in> runs_from (dispatch_blocks k jp em dt name f) (entry (iu_blocks f))"
      using path_dispatched [OF assms _ e, where name = name] unfolding o by blast
  qed
qed

text \<open>The runs through the compiled version: the first one reports the switch, the others only call.\<close>

definition compiled_runs :: "nat \<Rightarrow> string \<Rightarrow> string \<Rightarrow> dispatch_strings \<Rightarrow> string \<Rightarrow> ifun \<Rightarrow> (opcode \<times> ir_value list) list set" where
  "compiled_runs k jp em dt name f =
     {map view (entry_code k jp (entry (iu_blocks f)) @ jit_code k em @ emit_code k em dt name @ done_code k f),
      map view (entry_code k jp (entry (iu_blocks f)) @ jit_code k em @ done_code k f)}"

definition original_runs :: "nat \<Rightarrow> string \<Rightarrow> string \<Rightarrow> ifun \<Rightarrow> (opcode \<times> ir_value list) list set" where
  "original_runs k jp name f = (\<lambda>v. map view (entry_code k jp (entry (iu_blocks f))) @ timed name v) ` runs_of (iu_blocks f)"

lemma dispatch_new:
  assumes "cfg_ok k (iu_blocks f)"
  shows "map_of (dispatch_blocks k jp em dt name f) k = Some (entry_code k jp (entry (iu_blocks f)))"
    and "map_of (dispatch_blocks k jp em dt name f) (k + 1) = Some (jit_code k em)"
    and "map_of (dispatch_blocks k jp em dt name f) (k + 2) = Some (done_code k f)"
    and "map_of (dispatch_blocks k jp em dt name f) (k + 3) = Some (emit_code k em dt name)"
proof -
  have e: "entry (iu_blocks f) < k" using cfg_entry [OF assms] by simp
  have keep: "end_block j name (entry_code k jp (entry (iu_blocks f))) = entry_code k jp (entry (iu_blocks f))"
    "end_block j name (emit_code k em dt name) = emit_code k em dt name" for j
    by (simp_all add: end_block_def entry_code_def emit_code_def new_ins_def)
  note look = dispatch_lookup [of k jp em dt name f]
  show "map_of (dispatch_blocks k jp em dt name f) k = Some (entry_code k jp (entry (iu_blocks f)))"
    using look [of k] around_new(1) [OF assms, of jp em dt name] e keep by auto
  show "map_of (dispatch_blocks k jp em dt name f) (k + 1) = Some (jit_code k em)"
    using look [of "k + 1"] around_new(2) [OF assms, of jp em dt name] e by auto
  show "map_of (dispatch_blocks k jp em dt name f) (k + 2) = Some (done_code k f)"
    using look [of "k + 2"] around_new(3) [OF assms, of jp em dt name] e by auto
  show "map_of (dispatch_blocks k jp em dt name f) (k + 3) = Some (emit_code k em dt name)"
    using look [of "k + 3"] around_new(4) [OF assms, of jp em dt name] e keep by auto
qed

lemma entry_dispatched: "entry (dispatch_blocks k jp em dt name f) = k"
  by (simp add: entry_def dispatch_blocks_def end_blocks_def begin_block_def)

lemma dispatched_runs:
  assumes "cfg_ok k (iu_blocks f)"
  shows "runs_of (dispatch_blocks k jp em dt name f) = compiled_runs k jp em dt name f \<union> original_runs k jp name f"
proof -
  let ?bs = "dispatch_blocks k jp em dt name f"
  note new = dispatch_new [OF assms, of jp em dt name]
  have fin: "runs_from ?bs (k + 2) = {map view (done_code k f)}"
    by (subst runs_from_unfold) (simp add: new(3) [simplified] done_code_def new_ins_def)
  have emit: "runs_from ?bs (k + 3) = {map view (emit_code k em dt name @ done_code k f)}"
    by (subst runs_from_unfold) (simp add: new(4) [simplified] fin [simplified], simp add: emit_code_def new_ins_def fin [simplified])
  have "runs_from ?bs (k + 1) = {map view (jit_code k em) @ v |t v. t \<in> {k + 3, k + 2} \<and> v \<in> runs_from ?bs t}"
    by (subst runs_from_unfold) (simp add: new(2) [simplified], simp add: jit_code_def new_ins_def)
  also have "\<dots> = {map view (jit_code k em @ emit_code k em dt name @ done_code k f), map view (jit_code k em @ done_code k f)}"
    using fin emit by auto
  finally have jit: "runs_from ?bs (k + 1) = {map view (jit_code k em @ emit_code k em dt name @ done_code k f), map view (jit_code k em @ done_code k f)}" .
  have "runs_from ?bs k = {map view (entry_code k jp (entry (iu_blocks f))) @ v |t v.
      t \<in> {k + 1, entry (iu_blocks f)} \<and> v \<in> runs_from ?bs t}"
    by (subst runs_from_unfold) (simp add: new(1), simp add: entry_code_def new_ins_def)
  also have "\<dots> = (\<lambda>v. map view (entry_code k jp (entry (iu_blocks f))) @ v) ` runs_from ?bs (k + 1) \<union>
      (\<lambda>v. map view (entry_code k jp (entry (iu_blocks f))) @ v) ` runs_from ?bs (entry (iu_blocks f))" by blast
  also have "\<dots> = compiled_runs k jp em dt name f \<union> original_runs k jp name f"
    unfolding jit using runs_old [OF assms, of jp em dt name] by (auto simp: compiled_runs_def original_runs_def)
  finally show ?thesis by (simp add: runs_of_def entry_dispatched)
qed

section \<open>The module\<close>

definition dispatch_private :: "imod \<Rightarrow> bool" where
  "dispatch_private m \<longleftrightarrow> strings_private ''.str.topo_pass.'' m \<and> strings_private ''.str.topo_pe.'' m \<and>
     strings_private ''.str.topo_adaptive.'' m \<and> strings_private ''.str.topo_mangled.'' m"

text \<open>What a step that works on the functions \<open>A\<close> leaves alone.\<close>

definition mod_frame :: "string set \<Rightarrow> imod \<Rightarrow> imod \<Rightarrow> bool" where
  "mod_frame A m m' \<longleftrightarrow> (\<forall>x g. find_fun m x = Some g \<longrightarrow> (x \<notin> A \<longrightarrow> find_fun m' x = Some g) \<and> find_fun m' x \<noteq> None) \<and>
     text_kept m m' \<and> dispatch_private m' \<and> im_next m \<le> im_next m'"

lemma mod_frame_trans: "mod_frame A a b \<Longrightarrow> mod_frame B b c \<Longrightarrow> mod_frame (A \<union> B) a c"
  unfolding mod_frame_def by (auto dest: text_kept_trans; blast)

lemma mod_frame_same: "im_funs m' = im_funs m \<Longrightarrow> text_kept m m' \<Longrightarrow> dispatch_private m' \<Longrightarrow> im_next m \<le> im_next m' \<Longrightarrow> mod_frame A m m'"
  by (simp add: mod_frame_def find_fun_def)

lemma add_iglobal_kept:
  assumes "renames_fresh uniq" and "add_iglobal uniq n InternalLinkage t m = (g, m')"
  shows "text_kept m m'" and "strings_private pre m \<Longrightarrow> strings_private pre m'"
proof -
  have m': "m' = m\<lparr>im_globals := im_globals m @ [\<lparr>ig_name = g, ig_linkage = InternalLinkage, ig_text = t\<rparr>]\<rparr>"
    using assms(2) by (auto simp: add_iglobal_def Let_def)
  show "text_kept m m'" by (auto simp: text_kept_def m' global_text_def find_kept split: option.splits)
  show "strings_private pre m \<Longrightarrow> strings_private pre m'" by (simp add: strings_private_def m' local_linkage_def)
qed

lemma string_frame:
  assumes "renames_fresh uniq" and "dispatch_private m" and "strings_private pre m" and "getOrCreateGlobalString uniq str pre m = (g, m')"
  shows "mod_frame A m m'" and "global_text m' g = Some str" and "im_funs m' = im_funs m" and "im_next m' = im_next m"
proof -
  note string = getOrCreateGlobalString_text [OF assms(1,3,4)]
  have f: "im_funs m' = im_funs m" "im_next m' = im_next m" using getOrCreateGlobalString_frame [of uniq str pre m] assms(4) by simp_all
  then show "mod_frame A m m'" using string(2,3) assms(2) by (intro mod_frame_same) (simp_all add: dispatch_private_def)
  show "global_text m' g = Some str" "im_funs m' = im_funs m" "im_next m' = im_next m" using string(1) f by simp_all
qed

lemma flag_frame:
  assumes "renames_fresh uniq" and "dispatch_private m" and "add_iglobal uniq n InternalLinkage t m = (g, m')"
  shows "mod_frame A m m'" and "im_funs m' = im_funs m"
proof -
  note kept = add_iglobal_kept [OF assms(1,3)]
  have f: "im_funs m' = im_funs m" "im_next m' = im_next m" using add_iglobal_frame [of uniq n InternalLinkage t m] assms(3) by simp_all
  then show "mod_frame A m m'" using kept assms(2) by (intro mod_frame_same) (simp_all add: dispatch_private_def)
  show "im_funs m' = im_funs m" by (rule f(1))
qed

lemma next_frame: "im_next (bump k m) = im_next m + k" "im_next (upd_blocks n h m) = im_next m"
  by (simp_all add: bump_def upd_blocks_def)

lemma private_frame: "dispatch_private (bump k m) = dispatch_private m" "dispatch_private (upd_blocks n h m) = dispatch_private m"
    "dispatch_private (m\<lparr>im_funs := fs\<rparr>) = dispatch_private m"
  by (simp_all add: dispatch_private_def strings_private_def bump_def upd_blocks_def)

lemma text_frame: "global_text (bump k m) = global_text m" "global_text (upd_blocks n h m) = global_text m"
    "global_text (m\<lparr>im_funs := fs\<rparr>) = global_text m"
  by (simp_all add: global_text_def fun_eq_iff bump_def upd_blocks_def)

lemma blocks_frame:
  assumes "dispatch_private m"
  shows "mod_frame {n} m (bump k (upd_blocks n h m))"
  using assms by (auto simp: mod_frame_def find_fun_upd_blocks private_frame text_kept_def text_frame next_frame)

lemma fresh_name_new: "renames_fresh uniq \<Longrightarrow> fresh_name uniq m n \<notin> value_set m"
  by (auto simp: fresh_name_def renames_fresh_def)

lemma find_fun_new: "iu_name g \<notin> value_set m \<Longrightarrow> find_fun (m\<lparr>im_funs := im_funs m @ [g]\<rparr>) x = (if x = iu_name g then Some g else find_fun m x)"
proof -
  assume "iu_name g \<notin> value_set m"
  then have "find (\<lambda>f. iu_name f = iu_name g) (im_funs m) = None"
    unfolding find_None_iff value_set_def by (metis UnI1 image_eqI)
  then show ?thesis by (cases "x = iu_name g") (auto simp: find_fun_def find_app split: option.splits)
qed

lemma register_ctor_frame:
  assumes "renames_fresh (de_uniq env)" and "dispatch_private m" and "register_ctor env n name jp cost m = (c, m')"
  shows "find_fun m c = None" and "mod_frame {} m m'"
    and "\<exists>k mangled cf. find_fun m' c = Some cf \<and> iu_blocks cf = [(0, ctor_code k mangled name jp cost)] \<and> global_text m' mangled = Some n"
proof -
  let ?g = "(new_ifun c [] VoidTy)\<lparr>iu_linkage := InternalLinkage\<rparr>"
  let ?m1 = "m\<lparr>im_funs := im_funs m @ [?g]\<rparr>"
  have c: "c = fresh_name (de_uniq env) m (n @ ''.__adaptive_ctor'')"
    using assms(3) by (auto simp: register_ctor_def Let_def split: prod.splits)
  obtain mangled m2 where s: "getOrCreateGlobalString (de_uniq env) n ''.str.topo_mangled.'' ?m1 = (mangled, m2)"
    by (meson surj_pair)
  have m': "m' = bump 2 (upd_blocks c (\<lambda>_. [(0, ctor_code (im_next m2) mangled name jp cost)]) m2)"
    using assms(3) s by (auto simp: register_ctor_def Let_def c [symmetric])
  have new: "c \<notin> value_set m" using fresh_name_new [OF assms(1)] by (simp add: c)
  then show n: "find_fun m c = None" unfolding find_fun_def find_None_iff value_set_def by (metis UnI1 image_eqI)
  have find: "find_fun ?m1 x = (if x = c then Some ?g else find_fun m x)" for x
    using find_fun_new [of ?g m x] new by (simp add: new_ifun_def)
  have p1: "dispatch_private ?m1" using assms(2) by (simp add: private_frame)
  then have "strings_private ''.str.topo_mangled.'' ?m1" by (simp add: dispatch_private_def)
  note s = string_frame [OF assms(1) p1 this s]
  have f2: "find_fun m2 x = find_fun ?m1 x" for x using s(3) by (simp add: find_fun_def)
  have t2: "text_kept m m2" "dispatch_private m2" "im_next m2 = im_next m"
    using s(1) [of "{}"] s(4) by (simp_all add: mod_frame_def text_kept_def text_frame)
  then show "mod_frame {} m m'" using n
    by (auto simp: mod_frame_def m' find_fun_upd_blocks f2 find private_frame text_kept_def text_frame next_frame)
  show "\<exists>k mangled cf. find_fun m' c = Some cf \<and> iu_blocks cf = [(0, ctor_code k mangled name jp cost)] \<and> global_text m' mangled = Some n"
    using s(2) by (auto simp: m' find_fun_upd_blocks f2 find text_frame)
qed

text \<open>
  A function with its dispatch: the code, its name in the string constant, and a constructor that registers
  the pointer the dispatch reads.
\<close>

definition dispatched :: "nat \<Rightarrow> dispatch_strings \<Rightarrow> string \<Rightarrow> ifun \<Rightarrow> string \<Rightarrow> imod \<Rightarrow> bool" where
  "dispatched lo dt q f c m \<longleftrightarrow> (\<exists>k jp em name f'. lo \<le> k \<and> f' = f\<lparr>iu_blocks := dispatch_blocks k jp em dt name f\<rparr> \<and>
     find_fun m (iu_name f) = Some f' \<and> global_text m name = Some q \<and>
     (\<exists>k' mangled cf. find_fun m c = Some cf \<and> global_text m mangled = Some (iu_name f) \<and>
        iu_blocks cf = [(0, ctor_code k' mangled name jp (estimatePipelineTTICost f'))]))"

lemma dispatched_frame: "dispatched lo dt q f c m \<Longrightarrow> mod_frame A m m' \<Longrightarrow> iu_name f \<notin> A \<Longrightarrow> c \<notin> A \<Longrightarrow> dispatched lo dt q f c m'"
  unfolding dispatched_def mod_frame_def text_kept_def by blast

lemma dispatch_function_frame:
  assumes "renames_fresh (de_uniq env)" and "dispatch_private m" and "find_fun m (iu_name f) = Some f"
    and "dispatch_function env dt q f m = (c, m')"
  shows "find_fun m c = None" and "mod_frame {iu_name f} m m'" and "dispatched (im_next m) dt q f c m'"
proof -
  let ?n = "iu_name f"
  obtain name m1 where s1: "getOrCreateGlobalString (de_uniq env) q ''.str.topo_adaptive.'' m = (name, m1)" by (meson surj_pair)
  obtain jp m2 where s2: "add_iglobal (de_uniq env) (?n @ ''.__jit_ptr'') InternalLinkage None m1 = (jp, m2)" by (meson surj_pair)
  obtain em m3 where s3: "add_iglobal (de_uniq env) (?n @ ''.__pe_emitted'') InternalLinkage None m2 = (em, m3)" by (meson surj_pair)
  let ?bs = "dispatch_blocks (im_next m3) jp em dt name f"
  let ?f = "f\<lparr>iu_blocks := ?bs\<rparr>"
  let ?m4 = "bump (16 + length (iu_blocks f)) (upd_blocks ?n (\<lambda>_. ?bs) m3)"
  have r: "register_ctor env ?n name jp (estimatePipelineTTICost ?f) ?m4 = (c, m')"
    using assms(4) by (simp add: dispatch_function_def s1 s2 s3)
  have "strings_private ''.str.topo_adaptive.'' m" using assms(2) by (simp add: dispatch_private_def)
  note a1 = string_frame [OF assms(1,2) this s1]
  have p1: "dispatch_private m1" using a1(1) [of "{}"] by (simp add: mod_frame_def)
  note a2 = flag_frame [OF assms(1) p1 s2]
  have p2: "dispatch_private m2" using a2(1) [of "{}"] by (simp add: mod_frame_def)
  note a3 = flag_frame [OF assms(1) p2 s3]
  have p3: "dispatch_private m3" using a3(1) [of "{}"] by (simp add: mod_frame_def)
  have "im_funs m3 = im_funs m" using a1(3) a2(2) a3(2) by simp
  then have f3: "find_fun m3 x = find_fun m x" for x by (simp add: find_fun_def)
  have p4: "dispatch_private ?m4" using p3 by (simp add: private_frame)
  note ctor = register_ctor_frame [OF assms(1) p4 r]
  have m13: "mod_frame {} m1 m3" using mod_frame_trans [OF a2(1) a3(1), of "{}" "{}"] by simp
  have m14: "mod_frame {?n} m1 ?m4" using mod_frame_trans [OF m13 blocks_frame [OF p3]] by simp
  have m1': "mod_frame {?n} m1 m'" using mod_frame_trans [OF m14 ctor(2)] by simp
  then show "mod_frame {?n} m m'" using mod_frame_trans [OF a1(1) m1', of "{}"] by simp
  show n: "find_fun m c = None" using ctor(1) by (auto simp: find_fun_upd_blocks f3 split: if_splits)
  have "find_fun ?m4 ?n = Some ?f" using assms(3) by (simp add: find_fun_upd_blocks f3)
  then have "find_fun m' ?n = Some ?f" using ctor(2) by (simp add: mod_frame_def)
  moreover have "global_text m' name = Some q" using m1' a1(2) by (simp add: mod_frame_def text_kept_def)
  moreover have "im_next m \<le> im_next m3" using a1(4) m13 by (simp add: mod_frame_def)
  ultimately show "dispatched (im_next m) dt q f c m'" using ctor(3) unfolding dispatched_def by blast
qed

definition mapped_names :: "em_mapping \<Rightarrow> FlowBlock list \<Rightarrow> string set" where
  "mapped_names mp lbs = {n. \<exists>lb\<in>set lbs. mapped mp (fb_qualifiedName lb) = Some n}"

definition dispatch_on :: "dispatch_env \<Rightarrow> FlowBlock \<Rightarrow> ifun \<Rightarrow> bool" where
  "dispatch_on env lb f \<longleftrightarrow> fb_isPipeline lb \<and> \<not> iu_declaration f \<and> \<not> dispatch_excluded env lb"

lemma mod_frame_refl: "dispatch_private m \<Longrightarrow> mod_frame A m m"
  by (simp add: mod_frame_def text_kept_def)

lemma dispatch_block_frame:
  assumes "renames_fresh (de_uniq env)" and "dispatch_private (ds_mod s)"
  shows "mod_frame (mapped_names mp [lb]) (ds_mod s) (ds_mod (dispatch_block env mp dt lb s)) \<and>
    set (ds_ctors s) \<subseteq> set (ds_ctors (dispatch_block env mp dt lb s))"
proof (cases "\<exists>n f. mapped mp (fb_qualifiedName lb) = Some n \<and> find_fun (ds_mod s) n = Some f \<and> dispatch_on env lb f")
  case True
  then obtain n f where f: "mapped mp (fb_qualifiedName lb) = Some n" "find_fun (ds_mod s) n = Some f" "dispatch_on env lb f" by blast
  obtain c m' where r: "dispatch_function env dt (fb_qualifiedName lb) f (ds_mod s) = (c, m')" by (meson surj_pair)
  have n: "iu_name f = n" using find_fun_Some [OF f(2)] by simp
  show ?thesis using f r dispatch_function_frame(2) [OF assms _ r] n
    by (auto simp: dispatch_block_def dispatch_on_def mapped_names_def addGlobalCtor_def)
next
  case False
  then show ?thesis using mod_frame_refl [OF assms(2)] by (auto simp: dispatch_block_def dispatch_on_def split: option.splits)
qed

lemma dispatch_blocks_frame:
  assumes "renames_fresh (de_uniq env)" and "dispatch_private (ds_mod s)"
  shows "mod_frame (mapped_names mp lbs) (ds_mod s) (ds_mod (fold (dispatch_block env mp dt) lbs s)) \<and>
    set (ds_ctors s) \<subseteq> set (ds_ctors (fold (dispatch_block env mp dt) lbs s))"
  using assms(2)
proof (induction lbs arbitrary: s)
  case Nil
  then show ?case using mod_frame_refl by simp
next
  case (Cons lb lbs)
  let ?s = "dispatch_block env mp dt lb s"
  note step = dispatch_block_frame [OF assms(1) Cons.prems, of mp lb dt]
  then have "dispatch_private (ds_mod ?s)" by (simp add: mod_frame_def)
  note rest = Cons.IH [OF this]
  have "mapped_names mp (lb # lbs) = mapped_names mp [lb] \<union> mapped_names mp lbs" by (auto simp: mapped_names_def)
  then show ?case using step rest mod_frame_trans by auto
qed

lemma declare_frame: "dispatch_private m \<Longrightarrow> mod_frame {} m (getOrDeclareFunc n ps r m)"
  using find_fun_declare [of m]
  by (auto simp: mod_frame_def text_kept_def getOrDeclareFunc_def private_frame text_frame)

lemma declare_dispatch_frame: "dispatch_private m \<Longrightarrow> mod_frame {} m (declare_dispatch m)"
proof -
  have step: "mod_frame {} m (getOrDeclareFunc n ps r m')" if "mod_frame {} m m'" for n ps r m'
    using mod_frame_trans [OF that declare_frame [of m']] that by (simp add: mod_frame_def)
  assume "dispatch_private m"
  then show ?thesis unfolding declare_dispatch_def by (intro step mod_frame_refl)
qed

lemma event_names_frame:
  assumes "renames_fresh (de_uniq env)" and "dispatch_private m" and "event_names env m = (dt, m')"
  shows "mod_frame {} m m'"
proof -
  have step: "mod_frame {} m m2" if "mod_frame {} m m1" and "pre \<in> {''.str.topo_pass.'', ''.str.topo_pe.''}"
    and "getOrCreateGlobalString (de_uniq env) str pre m1 = (g, m2)" for m1 m2 pre str g
  proof -
    have "dispatch_private m1" using that(1) by (simp add: mod_frame_def)
    moreover from this have "strings_private pre m1" using that(2) by (auto simp: dispatch_private_def)
    ultimately show ?thesis using mod_frame_trans [OF that(1) string_frame(1) [OF assms(1) _ _ that(3)], of "{}"] by simp
  qed
  obtain a m1 b m2 c where g: "getOrCreateGlobalString (de_uniq env) ''AdaptiveDispatchPass'' ''.str.topo_pass.'' m = (a, m1)"
    "getOrCreateGlobalString (de_uniq env) ''aot'' ''.str.topo_pe.'' m1 = (b, m2)"
    "getOrCreateGlobalString (de_uniq env) ''jit'' ''.str.topo_pe.'' m2 = (c, m')"
    using assms(3) by (auto simp: event_names_def split: prod.splits)
  have "mod_frame {} m m1" using step [OF mod_frame_refl [OF assms(2)] _ g(1)] by simp
  then have "mod_frame {} m m2" using step [OF _ _ g(2)] by simp
  then show ?thesis using step [OF _ _ g(3)] by simp
qed

lemma finish_dispatch_frame:
  "find_fun (ds_mod (finish_dispatch s)) = find_fun (ds_mod s)" "global_text (ds_mod (finish_dispatch s)) = global_text (ds_mod s)"
  "ds_ctors (finish_dispatch s) = ds_ctors s"
  by (simp_all add: finish_dispatch_def inject_abi_def find_fun_def global_text_def fun_eq_iff)

lemma cfg_ok_mono: "cfg_ok k bs \<Longrightarrow> k \<le> k' \<Longrightarrow> cfg_ok k' bs"
  by (auto simp: cfg_ok_def)

lemma dispatched_run:
  assumes "renames_fresh (de_uniq env)" and "de_enabled env" and "dispatch_private (ds_mod s)"
    and "map snd (fl_blocks symbols) = pre @ lb # post" and "mapped mp (fb_qualifiedName lb) = Some n"
    and "find_fun (ds_mod s) n = Some f" and "dispatch_on env lb f"
    and "n \<notin> mapped_names mp (pre @ post)" and "\<forall>x\<in>mapped_names mp post. find_fun (ds_mod s) x \<noteq> None"
  shows "\<exists>dt c. dispatched (im_next (ds_mod s)) dt (fb_qualifiedName lb) f c (ds_mod (dispatch_run env symbols mp s)) \<and>
    (65535, c) \<in> set (ds_ctors (dispatch_run env symbols mp s))"
proof -
  obtain dt m1 where ev: "event_names env (declare_dispatch (ds_mod s)) = (dt, m1)" by (meson surj_pair)
  note d = declare_dispatch_frame [OF assms(3)]
  then have "dispatch_private (declare_dispatch (ds_mod s))" by (simp add: mod_frame_def)
  from mod_frame_trans [OF d event_names_frame [OF assms(1) this ev]] have f1: "mod_frame {} (ds_mod s) m1" by simp
  let ?step = "dispatch_block env mp dt"
  let ?s1 = "s\<lparr>ds_mod := m1\<rparr>"
  let ?s2 = "fold ?step pre ?s1"
  let ?s3 = "?step lb ?s2"
  let ?s4 = "fold ?step post ?s3"
  have run: "dispatch_run env symbols mp s = finish_dispatch ?s4" by (simp add: dispatch_run_def assms(2,4) ev)
  have p1: "dispatch_private (ds_mod ?s1)" using f1 by (simp add: mod_frame_def)
  have f12: "mod_frame (mapped_names mp pre) (ds_mod s) (ds_mod ?s2)"
    using dispatch_blocks_frame [OF assms(1) p1, where mp = mp and dt = dt and lbs = pre] mod_frame_trans [OF f1] by simp
  then have p2: "dispatch_private (ds_mod ?s2)" by (simp add: mod_frame_def)
  have "n \<notin> mapped_names mp pre" using assms(8) by (auto simp: mapped_names_def)
  then have f: "find_fun (ds_mod ?s2) n = Some f" using f12 assms(6) by (simp add: mod_frame_def)
  then have name: "iu_name f = n" using find_fun_Some by blast
  obtain c m' where call: "dispatch_function env dt (fb_qualifiedName lb) f (ds_mod ?s2) = (c, m')" by (meson surj_pair)
  note made = dispatch_function_frame [OF assms(1) p2 _ call, unfolded name, OF f]
  have s3: "ds_mod ?s3 = m'" "(65535, c) \<in> set (ds_ctors ?s3)"
    using assms(5,7) f call by (simp_all add: dispatch_block_def dispatch_on_def addGlobalCtor_def)
  have p3: "dispatch_private (ds_mod ?s3)" using made(2) s3(1) by (simp add: mod_frame_def)
  note f34 = dispatch_blocks_frame [OF assms(1) p3, where mp = mp and dt = dt and lbs = post]
  have "find_fun (ds_mod ?s2) x \<noteq> None" if "x \<in> mapped_names mp post" for x
    using assms(9) that f12 unfolding mod_frame_def by blast
  then have "c \<notin> mapped_names mp post" using made(1) by blast
  moreover have "n \<notin> mapped_names mp post" using assms(8) by (auto simp: mapped_names_def)
  ultimately have "dispatched (im_next (ds_mod ?s2)) dt (fb_qualifiedName lb) f c (ds_mod ?s4)"
    using dispatched_frame [OF made(3), of "mapped_names mp post" "ds_mod ?s4"] f34 s3(1) by (simp add: name)
  moreover have "im_next (ds_mod s) \<le> im_next (ds_mod ?s2)" using f12 by (simp add: mod_frame_def)
  ultimately have "dispatched (im_next (ds_mod s)) dt (fb_qualifiedName lb) f c (ds_mod ?s4)"
    unfolding dispatched_def by (meson order_trans)
  moreover have "(65535, c) \<in> set (ds_ctors ?s4)" using s3(2) f34 by blast
  ultimately show ?thesis unfolding run finish_dispatch_frame dispatched_def by blast
qed

text \<open>
  C39. The complete runs of an instrumented pipeline, whatever else the pass does to the module: when the runtime has
  put a version into the pointer, a run calls it and returns what it returns, without any measurement; otherwise it
  is a run of the function as it was, with the begin of the measurement before it and the end before its return,
  both for the pipeline's name. A constructor registers that very pointer under the names of the pipeline and of its function.
\<close>

theorem adaptive_dispatch_runs:
  assumes "renames_fresh (de_uniq env)" and "de_enabled env" and "dispatch_private (ds_mod s)"
    and "map snd (fl_blocks symbols) = pre @ lb # post" and "mapped mp (fb_qualifiedName lb) = Some n"
    and "find_fun (ds_mod s) n = Some f" and "dispatch_on env lb f"
    and "n \<notin> mapped_names mp (pre @ post)" and "\<forall>x\<in>mapped_names mp post. find_fun (ds_mod s) x \<noteq> None"
    and "cfg_ok (im_next (ds_mod s)) (iu_blocks f)" and "s' = dispatch_run env symbols mp s"
  shows "\<exists>k jp em dt name f'. find_fun (ds_mod s') n = Some f' \<and> global_text (ds_mod s') name = Some (fb_qualifiedName lb) \<and>
    runs_of (iu_blocks f') = compiled_runs k jp em dt name f \<union> original_runs k jp name f \<and>
    (\<exists>c cf k' mangled. (65535, c) \<in> set (ds_ctors s') \<and> find_fun (ds_mod s') c = Some cf \<and> global_text (ds_mod s') mangled = Some n \<and>
       runs_of (iu_blocks cf) = {map view (ctor_code k' mangled name jp (length (code_of f')))})"
proof -
  have name: "iu_name f = n" using find_fun_Some [OF assms(6)] by simp
  have ctor: "runs_of [(0, ctor_code k' mangled name jp cost)] = {map view (ctor_code k' mangled name jp cost)}" for k' mangled name jp cost
    unfolding runs_of_def by (subst runs_from_unfold) (simp add: entry_def ctor_code_def new_ins_def)
  from dispatched_run [OF assms(1-9)] obtain dt c where d: "dispatched (im_next (ds_mod s)) dt (fb_qualifiedName lb) f c (ds_mod s')"
    "(65535, c) \<in> set (ds_ctors s')" unfolding assms(11) by blast
  from d(1) obtain k jp em name f' k' mangled cf where k: "im_next (ds_mod s) \<le> k" "f' = f\<lparr>iu_blocks := dispatch_blocks k jp em dt name f\<rparr>"
    "find_fun (ds_mod s') n = Some f'" "global_text (ds_mod s') name = Some (fb_qualifiedName lb)"
    "find_fun (ds_mod s') c = Some cf" "global_text (ds_mod s') mangled = Some n"
    "iu_blocks cf = [(0, ctor_code k' mangled name jp (estimatePipelineTTICost f'))]"
    unfolding dispatched_def name by blast
  have "runs_of (iu_blocks f') = compiled_runs k jp em dt name f \<union> original_runs k jp name f"
    using dispatched_runs [OF cfg_ok_mono [OF assms(10) k(1)]] by (simp add: k(2))
  moreover have "runs_of (iu_blocks cf) = {map view (ctor_code k' mangled name jp (length (code_of f')))}"
    by (simp add: k(7) ctor estimatePipelineTTICost_def)
  ultimately show ?thesis using k(3-6) d(2) by blast
qed

section \<open>Examples\<close>

definition dispatch_example_flow :: FlowSymbols where
  "dispatch_example_flow = \<lparr>fl_blocks = [(''flow'', \<lparr>fb_qualifiedName = ''flow'', fb_simpleName = ''flow'', fb_isPipeline = True,
     fb_calledFunctions = [''load''], fb_stages = [0], fb_edges = [], fb_analysis = None\<rparr>)], fl_functions = [], fl_adapts = []\<rparr>"

definition dispatch_example_env :: dispatch_env where
  "dispatch_example_env = \<lparr>de_uniq = dotted_name, de_enabled = True, de_excludeFuncs = None\<rparr>"

text \<open>A pipeline that calls \<open>load\<close>, which may throw: then it cleans up and goes on unwinding.\<close>

definition throwing_flow :: ifun where
  "throwing_flow = (new_ifun ''flow'' [PointerTy] (IntegerTy 32))\<lparr>iu_blocks :=
     [(0, [new_ins 0 (OInvoke (Direct ''load'') 1 2, [VArg 0], IntegerTy 32)]),
      (1, [new_ins 1 (ORet, [VInst 0], VoidTy)]),
      (2, [new_ins 2 (OLandingPad, [], StructTy), new_ins 3 (OTerm [], [VInst 2], VoidTy)])]\<rparr>"

definition dispatch_example_state :: dispatch_state where
  "dispatch_example_state = \<lparr>ds_mod = \<lparr>im_triple = [], im_funs = [throwing_flow, new_ifun ''load'' [PointerTy] (IntegerTy 32)],
     im_globals = [], im_next = 4, im_abi = \<lparr>am_values = [], am_strings = [], am_ctors = []\<rparr>\<rparr>, ds_ctors = [], ds_count = 0, ds_report = []\<rparr>"

text \<open>A measurement that begins before an exception is never ended: the cleanup block is left as it was.\<close>

lemma unwinding_leaves_measurement_open:
  "map_of (dispatch_blocks 4 ''jp'' ''em'' dt ''name'' throwing_flow) 2 = map_of (iu_blocks throwing_flow) 2"
  "map_of (dispatch_blocks 4 ''jp'' ''em'' dt ''name'' throwing_flow) 0 =
     map_option (\<lambda>is. cost_begin 15 ''name'' # is) (map_of (iu_blocks throwing_flow) 0)"
  by (simp_all add: dispatch_blocks_def end_blocks_def begin_block_def end_block_def throwing_flow_def entry_def entry_code_def jit_code_def
      emit_code_def done_code_def new_ins_def cost_begin_def call_proto_def)

lemma adaptive_dispatch_runs_witness:
  "\<exists>k jp name f'. find_fun (ds_mod (dispatch_run dispatch_example_env dispatch_example_flow [(''flow'', Some ''flow'')] dispatch_example_state)) ''flow'' = Some f' \<and>
    map view (entry_code k jp 0) @ timed name [(OInvoke (Direct ''load'') 1 2, [VArg 0]), (ORet, [VInst 0])] \<in> runs_of (iu_blocks f')"
proof -
  let ?lb = "snd (hd (fl_blocks dispatch_example_flow))"
  have "path (iu_blocks throwing_flow) 0 ([new_ins 0 (OInvoke (Direct ''load'') 1 2, [VArg 0], IntegerTy 32)] @ [new_ins 1 (ORet, [VInst 0], VoidTy)])"
    by (rule path_go [where t = 1]) (auto simp: throwing_flow_def new_ins_def intro!: path_ret)
  then have "map view ([new_ins 0 (OInvoke (Direct ''load'') 1 2, [VArg 0], IntegerTy 32)] @ [new_ins 1 (ORet, [VInst 0], VoidTy)]) \<in> runs_from (iu_blocks throwing_flow) 0"
    unfolding runs_from_def by blast
  then have run: "[(OInvoke (Direct ''load'') 1 2, [VArg 0]), (ORet, [VInst 0])] \<in> runs_of (iu_blocks throwing_flow)"
    by (simp add: runs_of_def entry_def throwing_flow_def)
  have cfg: "cfg_ok 4 (iu_blocks throwing_flow)"
    by (auto simp: cfg_ok_def edges_def entry_def throwing_flow_def new_ins_def)
  have h1: "renames_fresh (de_uniq dispatch_example_env)" "de_enabled dispatch_example_env"
    using dotted_name_fresh by (simp_all add: dispatch_example_env_def)
  have h2: "dispatch_private (ds_mod dispatch_example_state)"
    by (simp add: dispatch_example_state_def dispatch_private_def strings_private_def)
  have h3: "map snd (fl_blocks dispatch_example_flow) = [] @ ?lb # []" by (simp add: dispatch_example_flow_def)
  have h4: "mapped [(''flow'', Some ''flow'')] (fb_qualifiedName ?lb) = Some ''flow''" by (simp add: dispatch_example_flow_def mapped_def)
  have h5: "find_fun (ds_mod dispatch_example_state) ''flow'' = Some throwing_flow"
  proof -
    have "iu_name throwing_flow = ''flow''" by (simp add: throwing_flow_def new_ifun_def)
    then show ?thesis by (simp add: dispatch_example_state_def find_fun_def)
  qed
  have h6: "dispatch_on dispatch_example_env ?lb throwing_flow"
    by (simp add: dispatch_on_def dispatch_example_flow_def dispatch_example_env_def dispatch_excluded_def iu_declaration_def throwing_flow_def)
  have n: "''flow'' \<notin> mapped_names mp ([] @ [])" "\<forall>x\<in>mapped_names mp []. find_fun m x \<noteq> None" for mp m
    by (simp_all add: mapped_names_def)
  have k: "cfg_ok (im_next (ds_mod dispatch_example_state)) (iu_blocks throwing_flow)"
    using cfg by (simp add: dispatch_example_state_def)
  let ?s = "dispatch_run dispatch_example_env dispatch_example_flow [(''flow'', Some ''flow'')] dispatch_example_state"
  obtain k' jp em dt name f' where f: "find_fun (ds_mod ?s) ''flow'' = Some f'"
      "runs_of (iu_blocks f') = compiled_runs k' jp em dt name throwing_flow \<union> original_runs k' jp name throwing_flow"
    by (rule exE [OF adaptive_dispatch_runs [OF h1 h2 h3 h4 h5 h6 n k refl]]) (elim exE conjE, rule that)
  have "entry (iu_blocks throwing_flow) = 0" by (simp add: entry_def throwing_flow_def)
  then have "map view (entry_code k' jp 0) @ timed name [(OInvoke (Direct ''load'') 1 2, [VArg 0]), (ORet, [VInst 0])] \<in> runs_of (iu_blocks f')"
    using run unfolding f(2) original_runs_def by (metis UnI2 imageI)
  then show ?thesis using f(1) by (intro exI conjI)
qed

end
