(* ===== verification/CloneModule.thy ===== *)
theory CloneModule
  imports LlvmIr "HOL-Library.Monad_Syntax"
begin

text \<open>
  The snapshot of a module that is embedded for the JIT, and what both the embedding (IREmbed.cpp) and
  the JIT engine (topo_jit_engine.cpp) do to strip it. A value of the module is known by its name, which
  is unique; a function body, an initialiser or an alias is the list of the values it refers to. Erasing
  a value that is still referred to is undefined, \<open>None\<close>.
\<close>

section \<open>Modules\<close>

text \<open>A use in a body: whether it is the callee of a direct \<open>CallInst\<close>, and the value. \<open>None\<close> is a declaration.\<close>

record em_function =
  ef_name :: string
  ef_body :: "(bool \<times> string) list option"
  ef_linkage :: ll_linkage
  ef_personality :: "string option"
  ef_uwtable :: bool
  ef_comdat :: bool

record em_global =
  eg_name :: string
  eg_init :: "string list"
  eg_data :: "u8 list"
  eg_section :: string
  eg_linkage :: ll_linkage
  eg_visibility :: ll_visibility
  eg_comdat :: bool

record em_alias =
  ea_name :: string
  ea_aliasee :: "string option"

record em_module =
  em_triple :: string
  em_functions :: "em_function list"
  em_globals :: "em_global list"
  em_aliases :: "em_alias list"

definition ef_declaration :: "em_function \<Rightarrow> bool" where
  "ef_declaration f \<longleftrightarrow> ef_body f = None"

definition body_refs :: "em_function \<Rightarrow> string list" where
  "body_refs f = (case ef_body f of None \<Rightarrow> [] | Some b \<Rightarrow> map snd b)"

definition fn_refs :: "em_function \<Rightarrow> string list" where
  "fn_refs f = body_refs f @ (case ef_personality f of None \<Rightarrow> [] | Some p \<Rightarrow> [p])"

definition alias_refs :: "em_alias \<Rightarrow> string list" where
  "alias_refs a = (case ea_aliasee a of None \<Rightarrow> [] | Some n \<Rightarrow> [n])"

definition refs :: "em_module \<Rightarrow> string set" where
  "refs m = (\<Union>f\<in>set (em_functions m). set (fn_refs f)) \<union> (\<Union>g\<in>set (em_globals m). set (eg_init g))
     \<union> (\<Union>a\<in>set (em_aliases m). set (alias_refs a))"

definition value_names :: "em_module \<Rightarrow> string list" where
  "value_names m = map ef_name (em_functions m) @ map eg_name (em_globals m) @ map ea_name (em_aliases m)"

text \<open>Names are unique and every value that is referred to is in the module.\<close>

definition em_ok :: "em_module \<Rightarrow> bool" where
  "em_ok m \<longleftrightarrow> distinct (value_names m) \<and> refs m \<subseteq> set (value_names m)"

section \<open>Removing values\<close>

text \<open>\<open>v->replaceAllUsesWith(UndefValue::get(...))\<close>.\<close>

definition undef_fn :: "string set \<Rightarrow> em_function \<Rightarrow> em_function" where
  "undef_fn S f = f\<lparr>ef_body := map_option (filter (\<lambda>u. snd u \<notin> S)) (ef_body f),
     ef_personality := (case ef_personality f of None \<Rightarrow> None | Some p \<Rightarrow> if p \<in> S then None else Some p)\<rparr>"

definition undef_global :: "string set \<Rightarrow> em_global \<Rightarrow> em_global" where
  "undef_global S g = g\<lparr>eg_init := filter (\<lambda>n. n \<notin> S) (eg_init g)\<rparr>"

definition undef_alias :: "string set \<Rightarrow> em_alias \<Rightarrow> em_alias" where
  "undef_alias S a = a\<lparr>ea_aliasee := (case ea_aliasee a of None \<Rightarrow> None | Some p \<Rightarrow> if p \<in> S then None else Some p)\<rparr>"

definition replaceUsesWithUndef :: "string \<Rightarrow> em_module \<Rightarrow> em_module" where
  "replaceUsesWithUndef n m = m\<lparr>em_functions := map (undef_fn {n}) (em_functions m),
     em_globals := map (undef_global {n}) (em_globals m), em_aliases := map (undef_alias {n}) (em_aliases m)\<rparr>"

text \<open>\<open>v->eraseFromParent()\<close>.\<close>

definition remove_value :: "string \<Rightarrow> em_module \<Rightarrow> em_module" where
  "remove_value n m = m\<lparr>em_functions := filter (\<lambda>f. ef_name f \<noteq> n) (em_functions m),
     em_globals := filter (\<lambda>g. eg_name g \<noteq> n) (em_globals m), em_aliases := filter (\<lambda>a. ea_name a \<noteq> n) (em_aliases m)\<rparr>"

definition eraseValue :: "string \<Rightarrow> em_module \<Rightarrow> em_module option" where
  "eraseValue n m = (if n \<in> refs m then None else Some (remove_value n m))"

definition drop_value :: "string \<Rightarrow> em_module \<Rightarrow> em_module option" where
  "drop_value n m = eraseValue n (replaceUsesWithUndef n m)"

fun each :: "('a \<Rightarrow> 'm \<Rightarrow> 'm option) \<Rightarrow> 'a list \<Rightarrow> 'm \<Rightarrow> 'm option" where
  "each f [] m = Some m"
| "each f (x # xs) m = (case f x m of None \<Rightarrow> None | Some m \<Rightarrow> each f xs m)"

section \<open>Stripping\<close>

text \<open>\<open>if (auto* g = module->getNamedGlobal(name)) g->eraseFromParent()\<close>.\<close>

definition erase_named :: "string \<Rightarrow> em_module \<Rightarrow> em_module option" where
  "erase_named n m = (if n \<in> set (map eg_name (em_globals m)) then eraseValue n m else Some m)"

definition tool_globals :: "string list" where
  "tool_globals = [''llvm.used'', ''llvm.compiler.used'', ''llvm.global_ctors'', ''llvm.global_dtors'']"

definition is_rtti :: "string \<Rightarrow> bool" where
  "is_rtti n \<longleftrightarrow> starts_with ''??_R'' n \<or> starts_with ''_CT??_R'' n \<or> starts_with ''??_7type_info'' n"

definition rtti_globals :: "em_module \<Rightarrow> string list" where
  "rtti_globals m = filter is_rtti (map eg_name (em_globals m))"

text \<open>The globals one round of the clean-up removes, and the rounds.\<close>

definition unused_globals :: "em_module \<Rightarrow> string list" where
  "unused_globals m = filter (\<lambda>n. n \<notin> refs m \<and> \<not> starts_with ''llvm.'' n) (map eg_name (em_globals m))"

partial_function (option) sweep :: "em_module \<Rightarrow> em_module option" where
  "sweep m = (if unused_globals m = [] then Some m
     else (case each eraseValue (unused_globals m) m of None \<Rightarrow> None | Some m \<Rightarrow> sweep m))"

definition strip_module :: "em_module \<Rightarrow> em_module option" where
  "strip_module m =
     do { m \<leftarrow> each erase_named tool_globals m;
          m \<leftarrow> each drop_value (map ea_name (em_aliases m)) m;
          m \<leftarrow> each drop_value (rtti_globals m) m;
          sweep m }"

section \<open>Removal in closed form\<close>

text \<open>The module without the values named in a set, and without references to them.\<close>

definition without :: "string set \<Rightarrow> em_module \<Rightarrow> em_module" where
  "without S m = m\<lparr>em_functions := map (undef_fn S) (filter (\<lambda>f. ef_name f \<notin> S) (em_functions m)),
     em_globals := map (undef_global S) (filter (\<lambda>g. eg_name g \<notin> S) (em_globals m)),
     em_aliases := map (undef_alias S) (filter (\<lambda>a. ea_name a \<notin> S) (em_aliases m))\<rparr>"

lemma undef_names [simp]:
  "ef_name (undef_fn S f) = ef_name f" "eg_name (undef_global S g) = eg_name g" "ea_name (undef_alias S a) = ea_name a"
  by (simp_all add: undef_fn_def undef_global_def undef_alias_def)

lemma undef_undef:
  "undef_fn S (undef_fn T f) = undef_fn (S \<union> T) f" "undef_global S (undef_global T g) = undef_global (S \<union> T) g"
  "undef_alias S (undef_alias T a) = undef_alias (S \<union> T) a"
proof -
  have body: "filter (\<lambda>u. snd u \<notin> S) (filter (\<lambda>u. snd u \<notin> T) b) = filter (\<lambda>u. snd u \<notin> S \<union> T) b" for b :: "(bool \<times> string) list"
    by (simp, rule filter_cong) auto
  show "undef_fn S (undef_fn T f) = undef_fn (S \<union> T) f"
    by (simp add: undef_fn_def option.map_comp o_def conj_commute split: option.split)
  show "undef_global S (undef_global T g) = undef_global (S \<union> T) g"
    by (simp add: undef_global_def conj_commute)
  show "undef_alias S (undef_alias T a) = undef_alias (S \<union> T) a"
    by (simp add: undef_alias_def split: option.split)
qed

lemma undef_refs:
  "set (fn_refs (undef_fn S f)) = set (fn_refs f) - S" "set (eg_init (undef_global S g)) = set (eg_init g) - S"
  "set (alias_refs (undef_alias S a)) = set (alias_refs a) - S"
  by (auto simp: undef_fn_def undef_global_def undef_alias_def fn_refs_def body_refs_def alias_refs_def split: option.splits)

lemma without_without: "without S (without T m) = without (S \<union> T) m"
proof -
  have fn: "(\<lambda>f. undef_fn S (undef_fn T f)) = undef_fn (S \<union> T)" "(\<lambda>g. undef_global S (undef_global T g)) = undef_global (S \<union> T)"
    "(\<lambda>a. undef_alias S (undef_alias T a)) = undef_alias (S \<union> T)"
    by (auto simp: undef_undef)
  show ?thesis by (simp add: without_def filter_map o_def fn conj_commute)
qed

lemma refs_without: "refs (without S m) \<subseteq> refs m - S"
  by (force simp: refs_def without_def undef_refs)

lemma names_without: "value_names (without S m) = filter (\<lambda>n. n \<notin> S) (value_names m)"
  by (simp add: value_names_def without_def filter_map o_def)

lemma em_ok_without:
  assumes "em_ok m"
  shows "em_ok (without S m)"
proof -
  have "refs (without S m) \<subseteq> set (value_names m) - S"
    using assms refs_without [of S m] by (auto simp: em_ok_def)
  then show ?thesis using assms by (auto simp: em_ok_def names_without)
qed

lemma undef_unused:
  "set (fn_refs f) \<inter> S = {} \<Longrightarrow> undef_fn S f = f" "set (eg_init g) \<inter> S = {} \<Longrightarrow> undef_global S g = g"
  "set (alias_refs a) \<inter> S = {} \<Longrightarrow> undef_alias S a = a"
proof -
  assume f: "set (fn_refs f) \<inter> S = {}"
  have "map_option (filter (\<lambda>u. snd u \<notin> S)) (ef_body f) = ef_body f"
    using f by (cases "ef_body f") (auto simp: fn_refs_def body_refs_def filter_id_conv)
  then show "undef_fn S f = f"
    using f by (cases "ef_personality f") (auto simp: undef_fn_def fn_refs_def)
next
  assume "set (eg_init g) \<inter> S = {}"
  then have "filter (\<lambda>n. n \<notin> S) (eg_init g) = eg_init g" by (auto simp: filter_id_conv)
  then show "undef_global S g = g" by (simp add: undef_global_def)
next
  assume "set (alias_refs a) \<inter> S = {}"
  then show "undef_alias S a = a" by (cases "ea_aliasee a") (auto simp: undef_alias_def alias_refs_def)
qed

lemma drop_value_eq: "drop_value n m = Some (without {n} m)"
proof -
  have "n \<notin> refs (replaceUsesWithUndef n m)"
    by (auto simp: refs_def replaceUsesWithUndef_def undef_refs)
  then show ?thesis
    by (simp add: drop_value_def eraseValue_def remove_value_def replaceUsesWithUndef_def without_def filter_map o_def)
qed

lemma each_drop: "each drop_value ns m = Some (without (set ns) m)"
proof (induction ns arbitrary: m)
  case Nil
  have "undef_fn {} = id" "undef_global {} = id" "undef_alias {} = id" by (rule ext, simp add: undef_unused)+
  then show ?case by (simp add: without_def)
next
  case (Cons n ns)
  then show ?case by (simp add: drop_value_eq without_without insert_is_Un [of n "set ns", symmetric] Un_commute)
qed

section \<open>Erasing globals\<close>

definition drop_globals :: "string set \<Rightarrow> em_module \<Rightarrow> em_module" where
  "drop_globals S m = m\<lparr>em_globals := filter (\<lambda>g. eg_name g \<notin> S) (em_globals m)\<rparr>"

lemma drop_globals_frame [simp]:
  "em_functions (drop_globals S m) = em_functions m" "em_aliases (drop_globals S m) = em_aliases m"
  "em_triple (drop_globals S m) = em_triple m"
  "em_globals (drop_globals S m) = filter (\<lambda>g. eg_name g \<notin> S) (em_globals m)"
  by (simp_all add: drop_globals_def)

lemma drop_globals_twice: "drop_globals S (drop_globals T m) = drop_globals (S \<union> T) m"
  by (simp add: drop_globals_def conj_commute)

lemma drop_globals_none: "drop_globals {} m = m"
  by (simp add: drop_globals_def)

lemma refs_drop_globals: "refs (drop_globals S m) \<subseteq> refs m"
  by (auto simp: refs_def)

lemma names_drop_globals: "distinct (value_names m) \<Longrightarrow> distinct (value_names (drop_globals S m))"
  by (force simp: value_names_def distinct_map_filter)

lemma em_ok_drop_globals:
  assumes "em_ok m" and "S \<inter> refs (drop_globals S m) = {}"
  shows "em_ok (drop_globals S m)"
proof -
  have "refs (drop_globals S m) \<subseteq> set (value_names m) - S"
    using assms refs_drop_globals [of S m] by (auto simp: em_ok_def)
  also have "\<dots> \<subseteq> set (value_names (drop_globals S m))" by (auto simp: value_names_def)
  finally show ?thesis using assms(1) names_drop_globals by (simp add: em_ok_def)
qed

lemma eraseValue_global:
  assumes "distinct (value_names m)" and "n \<in> set (map eg_name (em_globals m))" and "n \<notin> refs m"
  shows "eraseValue n m = Some (drop_globals {n} m)"
proof -
  have "ef_name ` set (em_functions m) \<inter> eg_name ` set (em_globals m) = {}"
    "ea_name ` set (em_aliases m) \<inter> eg_name ` set (em_globals m) = {}"
    using assms(1) by (auto simp: value_names_def)
  then have "\<forall>f\<in>set (em_functions m). ef_name f \<noteq> n" "\<forall>a\<in>set (em_aliases m). ea_name a \<noteq> n"
    using assms(2) by (auto simp: disjoint_iff)
  then have "filter (\<lambda>f. ef_name f \<noteq> n) (em_functions m) = em_functions m"
    "filter (\<lambda>a. ea_name a \<noteq> n) (em_aliases m) = em_aliases m"
    by (simp_all add: filter_id_conv)
  then show ?thesis using assms(3) by (simp add: eraseValue_def remove_value_def drop_globals_def)
qed

lemma each_erase:
  assumes "distinct (value_names m)" and "distinct ns" and "set ns \<subseteq> set (map eg_name (em_globals m))" and "set ns \<inter> refs m = {}"
  shows "each eraseValue ns m = Some (drop_globals (set ns) m)"
  using assms
proof (induction ns arbitrary: m)
  case (Cons n ns)
  let ?m = "drop_globals {n} m"
  have e: "eraseValue n m = Some ?m" using Cons.prems by (intro eraseValue_global) auto
  have "each eraseValue ns ?m = Some (drop_globals (set ns) ?m)"
  proof (rule Cons.IH)
    show "distinct (value_names ?m)" using Cons.prems(1) by (rule names_drop_globals)
    show "set ns \<subseteq> set (map eg_name (em_globals ?m))" using Cons.prems(2,3) by (auto simp: image_iff Ball_def subset_eq) metis
  qed (use Cons.prems refs_drop_globals [of "{n}" m] in auto)
  then show ?case by (simp add: e drop_globals_twice insert_is_Un [of n "set ns", symmetric] Un_commute)
qed (simp add: drop_globals_none)

lemma erase_named_globals:
  assumes "distinct (value_names m)" and "distinct ns" and "set ns \<inter> refs m = {}"
  shows "each erase_named ns m = Some (drop_globals (set ns) m)"
  using assms
proof (induction ns arbitrary: m)
  case (Cons n ns)
  let ?m = "drop_globals {n} m"
  have e: "erase_named n m = Some ?m"
  proof (cases "n \<in> set (map eg_name (em_globals m))")
    case True
    then show ?thesis using Cons.prems eraseValue_global [of m n] by (simp add: erase_named_def)
  next
    case False
    then have "filter (\<lambda>g. eg_name g \<noteq> n) (em_globals m) = em_globals m" by (auto simp: filter_id_conv)
    then show ?thesis using False by (simp add: erase_named_def drop_globals_def)
  qed
  have "each erase_named ns ?m = Some (drop_globals (set ns) ?m)"
    using Cons.prems refs_drop_globals [of "{n}" m] by (intro Cons.IH names_drop_globals) auto
  then show ?case by (simp add: e drop_globals_twice insert_is_Un [of n "set ns", symmetric] Un_commute)
qed (simp add: drop_globals_none)

section \<open>The clean-up\<close>

text \<open>
  Globals that support each other: every one has a reserved name, or a function, an alias or one of them
  refers to it. The clean-up keeps the largest such set.
\<close>

definition root_refs :: "em_module \<Rightarrow> string set" where
  "root_refs m = (\<Union>f\<in>set (em_functions m). set (fn_refs f)) \<union> (\<Union>a\<in>set (em_aliases m). set (alias_refs a))"

definition supported :: "em_module \<Rightarrow> string set \<Rightarrow> bool" where
  "supported m L \<longleftrightarrow> L \<subseteq> set (map eg_name (em_globals m)) \<and>
     (\<forall>n\<in>L. starts_with ''llvm.'' n \<or> n \<in> root_refs m \<or> (\<exists>g\<in>set (em_globals m). eg_name g \<in> L \<and> n \<in> set (eg_init g)))"

lemma supported_kept:
  assumes "supported m L" and "L \<inter> S = {}"
  shows "supported (drop_globals S m) L"
  using assms unfolding supported_def root_refs_def by (auto, blast+)

lemma unused_not_supported:
  assumes "supported m L"
  shows "L \<inter> set (unused_globals m) = {}"
  using assms by (auto simp: supported_def unused_globals_def root_refs_def refs_def)

lemma sweep_spec:
  assumes "distinct (value_names m)"
  shows "\<exists>S. sweep m = Some (drop_globals S m) \<and> S \<subseteq> set (map eg_name (em_globals m)) \<and>
     S \<inter> refs (drop_globals S m) = {} \<and> unused_globals (drop_globals S m) = [] \<and> (\<forall>L. supported m L \<longrightarrow> L \<inter> S = {})"
  using assms
proof (induction "length (em_globals m)" arbitrary: m rule: less_induct)
  case less
  show ?case
  proof (cases "unused_globals m = []")
    case True
    then show ?thesis by (intro exI [of _ "{}"]) (simp add: drop_globals_none sweep.simps [of m])
  next
    case False
    let ?U = "set (unused_globals m)" and ?m = "drop_globals (set (unused_globals m)) m"
    have U: "?U \<subseteq> set (map eg_name (em_globals m))" "?U \<inter> refs m = {}" by (auto simp: unused_globals_def)
    have "distinct (unused_globals m)" using less.prems by (simp add: unused_globals_def value_names_def)
    then have e: "each eraseValue (unused_globals m) m = Some ?m" using less.prems U by (intro each_erase) auto
    obtain n where "n \<in> ?U" using False by (cases "unused_globals m") auto
    then obtain g where "g \<in> set (em_globals m)" "eg_name g \<in> ?U" using U(1) by auto
    then have "length (em_globals ?m) < length (em_globals m)"
      by (auto intro: length_filter_less)
    from less.hyps [OF this names_drop_globals [OF less.prems]]
    obtain S where S: "sweep ?m = Some (drop_globals S ?m)" "S \<subseteq> set (map eg_name (em_globals ?m))"
      "S \<inter> refs (drop_globals S ?m) = {}" "unused_globals (drop_globals S ?m) = []" "\<forall>L. supported ?m L \<longrightarrow> L \<inter> S = {}" by blast
    have eq: "drop_globals S ?m = drop_globals (S \<union> ?U) m" by (simp add: drop_globals_twice)
    have "refs (drop_globals (S \<union> ?U) m) \<subseteq> refs m" by (rule refs_drop_globals)
    then have "(S \<union> ?U) \<inter> refs (drop_globals (S \<union> ?U) m) = {}" using S(3) U(2) unfolding eq by blast
    moreover have "L \<inter> (S \<union> ?U) = {}" if "supported m L" for L
      using unused_not_supported [OF that] supported_kept [OF that] S(5) by blast
    ultimately show ?thesis
      using S(1,2,4) U(1) False e by (intro exI [of _ "S \<union> ?U"]) (auto simp: eq sweep.simps [of m])
  qed
qed

text \<open>What stripping takes away besides the globals nothing supports: aliases, run-time type information.\<close>

definition stripped_names :: "em_module \<Rightarrow> string set" where
  "stripped_names m = set (map ea_name (em_aliases m)) \<union> set (rtti_globals m)"

definition strip_base :: "em_module \<Rightarrow> em_module" where
  "strip_base m = without (stripped_names m) (drop_globals (set tool_globals) m)"

lemma tools_not_rtti: "n \<in> set tool_globals \<Longrightarrow> \<not> is_rtti n"
  by (auto simp: tool_globals_def is_rtti_def starts_with_def)

lemma rtti_names_kept:
  "(\<And>n. n \<in> set (map eg_name (em_globals m)) \<Longrightarrow> is_rtti n \<Longrightarrow> n \<notin> S) \<Longrightarrow> rtti_globals (without S m) = rtti_globals m"
  by (auto simp: rtti_globals_def without_def filter_map o_def intro!: arg_cong [where f = "map eg_name"] filter_cong)

text \<open>
  Stripping never erases a value in use. What is left is well-formed, has no alias, and every global in it
  is supported; every set of globals that support each other is left.
\<close>

lemma strip_spec:
  assumes ok: "em_ok m" and tools: "set tool_globals \<inter> refs m = {}"
  shows "\<exists>S. strip_module m = Some (drop_globals S (strip_base m)) \<and> em_ok (drop_globals S (strip_base m)) \<and>
     unused_globals (drop_globals S (strip_base m)) = [] \<and>
     (\<forall>L. supported (strip_base m) L \<longrightarrow> L \<inter> S = {})"
proof -
  let ?m1 = "drop_globals (set tool_globals) m" and ?A = "set (map ea_name (em_aliases m))"
  have d: "distinct (value_names m)" using ok by (simp add: em_ok_def)
  have t: "each erase_named tool_globals m = Some ?m1"
    using tools by (intro erase_named_globals d) (simp_all add: tool_globals_def)
  have ok1: "em_ok ?m1" using ok tools refs_drop_globals [of _ m] by (intro em_ok_drop_globals) auto
  have "rtti_globals (without ?A ?m1) = rtti_globals ?m1"
    using d by (intro rtti_names_kept) (auto simp: value_names_def)
  also have "\<dots> = rtti_globals m"
    using tools_not_rtti by (auto simp: rtti_globals_def filter_map o_def intro!: arg_cong [where f = "map eg_name"] filter_cong)
  finally have r: "rtti_globals (without ?A ?m1) = rtti_globals m" .
  have okb: "em_ok (strip_base m)" unfolding strip_base_def by (intro em_ok_without ok1)
  obtain S where S: "sweep (strip_base m) = Some (drop_globals S (strip_base m))"
    "S \<inter> refs (drop_globals S (strip_base m)) = {}" "unused_globals (drop_globals S (strip_base m)) = []"
    "\<forall>L. supported (strip_base m) L \<longrightarrow> L \<inter> S = {}"
    using sweep_spec [of "strip_base m"] okb by (auto simp: em_ok_def)
  have "strip_module m = Some (drop_globals S (strip_base m))"
    using S(1) by (simp add: strip_module_def t each_drop r [unfolded set_map] without_without strip_base_def stripped_names_def Un_commute)
  then show ?thesis using S em_ok_drop_globals [OF okb S(2)] by blast
qed

lemma strip_base_frame:
  assumes "em_ok m"
  shows "em_functions (strip_base m) = map (undef_fn (stripped_names m)) (em_functions m)" and "em_aliases (strip_base m) = []"
    and "em_triple (strip_base m) = em_triple m"
proof -
  have "\<forall>f\<in>set (em_functions m). ef_name f \<notin> stripped_names m"
  proof
    fix f assume "f \<in> set (em_functions m)"
    then have "ef_name f \<in> ef_name ` set (em_functions m)" by simp
    then show "ef_name f \<notin> stripped_names m"
      using assms unfolding em_ok_def value_names_def stripped_names_def rtti_globals_def by (auto simp: disjoint_iff)
  qed
  then show "em_functions (strip_base m) = map (undef_fn (stripped_names m)) (em_functions m)"
    by (simp add: strip_base_def without_def filter_id_conv)
  show "em_aliases (strip_base m) = []"
    by (simp add: strip_base_def without_def stripped_names_def filter_empty_conv)
  show "em_triple (strip_base m) = em_triple m" by (simp add: strip_base_def without_def)
qed

end
