(* ===== verification/ContainmentPass.thy ===== *)
theory ContainmentPass
  imports InsIr
begin

text \<open>
  lib/Transforms/ContainmentInterceptionPass.cpp: a call of an external API from a function that is not
  declared external is preceded by a report to the runtime. The catalogue of APIs, the demangler and the
  lookup of external types are topo-core's or LLVM's, parameters.
\<close>

section \<open>The pass\<close>

record ext_function =
  xf_qualifiedName :: string
  xf_isExternal :: bool
  xf_externalOwner :: string

record cont_env =
  ce_uniq :: "string set \<Rightarrow> string \<Rightarrow> string"
  ce_demangle :: "string \<Rightarrow> string"
  ce_isApi :: "string \<Rightarrow> bool"
  ce_functions :: "(string \<times> ext_function) list"
  ce_externalType :: "string \<Rightarrow> bool"

definition normalizeIRName :: "cont_env \<Rightarrow> string \<Rightarrow> string \<Rightarrow> string" where
  "normalizeIRName env triple name =
     (let isMachO = contains ''apple'' triple \<or> contains ''darwin'' triple \<or> contains ''macho'' triple;
          raw = (if isMachO \<and> name \<noteq> [] \<and> hd name = CHR ''_'' \<and> \<not> starts_with ''_Z'' name then tl name else name);
          demangled = ce_demangle env raw
      in if demangled \<noteq> raw then takeWhile (\<lambda>c. c \<noteq> CHR ''('') demangled else raw)"

definition isExternalName :: "cont_env \<Rightarrow> string \<Rightarrow> bool" where
  "isExternalName env q \<longleftrightarrow> (case map_of (ce_functions env) q of Some fn \<Rightarrow> xf_isExternal fn | None \<Rightarrow> False) \<or> ce_externalType env q"

definition declared_externals :: "cont_env \<Rightarrow> em_mapping \<Rightarrow> string \<Rightarrow> string list" where
  "declared_externals env mp triple = List.map_filter (\<lambda>(_, fn).
     if \<not> xf_isExternal fn then None
     else (case mapped mp (xf_qualifiedName fn) of
             None \<Rightarrow> None
           | Some f \<Rightarrow> if xf_externalOwner fn \<noteq> [] \<and> \<not> ce_externalType env (normalizeIRName env triple f) then None else Some f))
     (ce_functions env)"

definition external_funcs :: "cont_env \<Rightarrow> em_mapping \<Rightarrow> imod \<Rightarrow> string list" where
  "external_funcs env mp m = declared_externals env mp (im_triple m)
     @ filter (\<lambda>f. isExternalName env (normalizeIRName env (im_triple m) f)) (map iu_name (im_funs m))"

definition func_qual_names :: "em_mapping \<Rightarrow> (string \<times> string) list" where
  "func_qual_names mp = fold (\<lambda>(qname, f) t. case f of None \<Rightarrow> t | Some f \<Rightarrow> AList.update f qname t) mp []"

text \<open>The API a call or an invoke reaches without permission.\<close>

definition violation :: "cont_env \<Rightarrow> string list \<Rightarrow> string \<Rightarrow> ins \<Rightarrow> string option" where
  "violation env externals triple i =
     (case called_or_invoked i of
        None \<Rightarrow> None
      | Some callee \<Rightarrow>
          (let calleeName = normalizeIRName env triple callee
           in if \<not> ce_isApi env calleeName then None
              else if callee \<in> set externals \<or> isExternalName env calleeName then None
              else Some calleeName))"

definition violation_sites :: "cont_env \<Rightarrow> string list \<Rightarrow> string \<Rightarrow> ifun \<Rightarrow> (nat \<times> string) list" where
  "violation_sites env externals triple f =
     List.map_filter (\<lambda>i. map_option (\<lambda>c. (ii_id i, c)) (violation env externals triple i)) (code_of f)"

definition report_ins :: "nat \<Rightarrow> string \<Rightarrow> string \<Rightarrow> ins" where
  "report_ins k a b = new_ins k (call_proto ''__topo_containment_violation'' [VGlobal a, VGlobal b] VoidTy)"

definition intercept :: "cont_env \<Rightarrow> string \<Rightarrow> nat \<times> string \<Rightarrow> imod \<Rightarrow> imod" where
  "intercept env funcName site m =
     (let m = getOrDeclareFunc ''__topo_containment_violation'' [PointerTy, PointerTy] VoidTy m;
          (callerStr, m) = getOrCreateGlobalString (ce_uniq env) funcName ''.str.topo_cont_caller.'' m;
          (calleeStr, m) = getOrCreateGlobalString (ce_uniq env) (snd site) ''.str.topo_cont_callee.'' m
      in bump 1 (upd_blocks funcName (insert_before (fst site) [report_ins (im_next m) callerStr calleeStr]) m))"

definition intercept_function :: "cont_env \<Rightarrow> em_mapping \<Rightarrow> string list \<Rightarrow> string \<Rightarrow> ifun \<Rightarrow>
    imod \<times> int \<times> (string \<times> string) list \<Rightarrow> imod \<times> int \<times> (string \<times> string) list" where
  "intercept_function env mp externals triple f s =
     (case s of (m, instrumented, entries) \<Rightarrow>
        if iu_declaration f \<or> iu_name f \<in> set externals then s
        else
          (let sites = violation_sites env externals triple f;
               caller = (case map_of (func_qual_names mp) (iu_name f) of Some q \<Rightarrow> q | None \<Rightarrow> iu_name f)
           in (fold (intercept env (iu_name f)) sites m, instrumented + int (length sites), entries @ map (\<lambda>(_, c). (caller, c)) sites)))"

definition containment_run :: "cont_env \<Rightarrow> em_mapping \<Rightarrow> imod \<Rightarrow> imod \<times> int \<times> (string \<times> string) list" where
  "containment_run env mp m =
     (case fold (intercept_function env mp (external_funcs env mp m) (im_triple m)) (im_funs m) (m, 0, []) of
        (m, instrumented, entries) \<Rightarrow>
          (if instrumented > 0 then inject_abi ''containment'' ''topo_containment_version'' 1 m else m, instrumented, entries))"

section \<open>Reports over code\<close>

text \<open>A report names a caller and an API; it is due directly before the call it is about.\<close>

definition report_of :: "(string \<Rightarrow> string option) \<Rightarrow> ins \<Rightarrow> (string option \<times> string option) option" where
  "report_of strs i = (if called i = Some ''__topo_containment_violation''
     then (case ii_args i of [VGlobal a, VGlobal b] \<Rightarrow> Some (strs a, strs b) | _ \<Rightarrow> Some (None, None)) else None)"

fun reported :: "(string \<Rightarrow> string option) \<Rightarrow> (ins \<Rightarrow> string option) \<Rightarrow> string \<Rightarrow> (string option \<times> string option) option \<Rightarrow> ins list \<Rightarrow> bool" where
  "reported strs viol caller due [] \<longleftrightarrow> due = None"
| "reported strs viol caller due (i # is) \<longleftrightarrow>
     (case report_of strs i of
        Some r \<Rightarrow> due = None \<and> reported strs viol caller (Some r) is
      | None \<Rightarrow> due = map_option (\<lambda>c. (Some caller, Some c)) (viol i) \<and> reported strs viol caller None is)"

definition cont_private :: "cont_env \<Rightarrow> imod \<Rightarrow> bool" where
  "cont_private env m \<longleftrightarrow> renames_fresh (ce_uniq env) \<and> strings_private ''.str.topo_cont_caller.'' m \<and> strings_private ''.str.topo_cont_callee.'' m"

definition good_report :: "string \<Rightarrow> (string \<Rightarrow> string option) \<Rightarrow> nat \<times> string \<Rightarrow> ins list \<Rightarrow> bool" where
  "good_report caller strs site xs \<longleftrightarrow> (\<exists>k a b. xs = [report_ins k a b] \<and> strs a = Some caller \<and> strs b = Some (snd site))"

lemma intercept_law:
  assumes inv: "cont_private env m" and f: "find_fun m n = Some f"
  shows "\<exists>xs. find_fun (intercept env n site m) n = Some (f\<lparr>iu_blocks := insert_before (fst site) xs (iu_blocks f)\<rparr>) \<and>
    (\<forall>i\<in>set xs. im_next m \<le> ii_id i) \<and> good_report n (global_text (intercept env n site m)) site xs \<and>
    im_next m \<le> im_next (intercept env n site m) \<and> text_kept m (intercept env n site m) \<and>
    cont_private env (intercept env n site m) \<and> other_functions_kept n m (intercept env n site m)"
proof -
  let ?m1 = "getOrDeclareFunc ''__topo_containment_violation'' [PointerTy, PointerTy] VoidTy m"
  obtain a m2 where a: "getOrCreateGlobalString (ce_uniq env) n ''.str.topo_cont_caller.'' ?m1 = (a, m2)" by fastforce
  obtain b m3 where b: "getOrCreateGlobalString (ce_uniq env) (snd site) ''.str.topo_cont_callee.'' m2 = (b, m3)" by fastforce
  have g1: "im_globals ?m1 = im_globals m" "im_next ?m1 = im_next m" by (simp_all add: getOrDeclareFunc_def)
  have p1: "renames_fresh (ce_uniq env)" "strings_private ''.str.topo_cont_caller.'' ?m1" "strings_private ''.str.topo_cont_callee.'' ?m1"
    using inv by (simp_all add: cont_private_def strings_private_globals [OF g1(1)])
  note ta = getOrCreateGlobalString_text [OF p1(1,2) a]
  note tb = getOrCreateGlobalString_text [OF p1(1) ta(3) [OF p1(3)] b]
  have fr: "im_next m3 = im_next m" "im_funs m3 = im_funs ?m1"
    using getOrCreateGlobalString_frame [of "ce_uniq env" n "''.str.topo_cont_caller.''" ?m1]
      getOrCreateGlobalString_frame [of "ce_uniq env" "snd site" "''.str.topo_cont_callee.''" m2] a b g1 by simp_all
  let ?r = "report_ins (im_next m) a b"
  have m': "intercept env n site m = bump 1 (upd_blocks n (insert_before (fst site) [?r]) m3)"
    by (simp add: intercept_def a b fr(1))
  have find3: "find_fun m3 k = find_fun ?m1 k" for k by (rule find_fun_funs) (rule fr(2))
  have text': "global_text (intercept env n site m) = global_text m3" by (simp add: m' fun_eq_iff global_text_def bump_def upd_blocks_def)
  have "find_fun (intercept env n site m) n = Some (f\<lparr>iu_blocks := insert_before (fst site) [?r] (iu_blocks f)\<rparr>)"
    using f by (simp add: m' find_fun_upd_blocks find3 find_fun_declare)
  moreover have "good_report n (global_text (intercept env n site m)) site [?r]"
    unfolding text' good_report_def using ta(1) tb(1,2) unfolding text_kept_def by blast
  moreover have "text_kept m (intercept env n site m)"
    using text_kept_trans [OF text_kept_globals [OF g1(1)] text_kept_trans [OF ta(2) tb(2)]] unfolding text_kept_def text' by blast
  moreover have "cont_private env (intercept env n site m)"
  proof -
    have "im_globals (intercept env n site m) = im_globals m3" by (simp add: m' bump_def upd_blocks_def)
    from strings_private_globals [OF this] show ?thesis
      unfolding cont_private_def using tb(3) [OF ta(3) [OF p1(2)]] tb(3) [OF ta(3) [OF p1(3)]] p1(1) by blast
  qed
  moreover have "other_functions_kept n m (intercept env n site m)"
    unfolding m' other_functions_kept_bump
    by (rule other_functions_kept_update) (simp_all only: find3, erule find_fun_declare, erule find_fun_declare_back)
  moreover have "\<forall>i\<in>set [?r]. im_next m \<le> ii_id i" "im_next m \<le> im_next (intercept env n site m)"
    by (simp_all add: report_ins_def new_ins_def m' bump_def upd_blocks_def fr)
  ultimately show ?thesis by blast
qed

interpretation reports: before_inserter n "intercept env n" fst "good_report n" "cont_private env" for n env
proof
  show "\<exists>xs. find_fun (intercept env n x m) n = Some (f\<lparr>iu_blocks := insert_before (fst x) xs (iu_blocks f)\<rparr>) \<and>
    (\<forall>i\<in>set xs. im_next m \<le> ii_id i) \<and> good_report n (global_text (intercept env n x m)) x xs \<and>
    im_next m \<le> im_next (intercept env n x m) \<and> text_kept m (intercept env n x m) \<and>
    cont_private env (intercept env n x m) \<and> other_functions_kept n m (intercept env n x m)"
    if "cont_private env m" "find_fun m n = Some f" for m f x
    using that by (rule intercept_law)
  show "good_report n t' x xs" if "good_report n t x xs" "\<forall>k v. t k = Some v \<longrightarrow> t' k = Some v" for t x xs t'
    using that unfolding good_report_def by blast
qed

section \<open>What the pass does\<close>

definition unreported :: "imod \<Rightarrow> ifun \<Rightarrow> bool" where
  "unreported m f \<longleftrightarrow> distinct (map ii_id (code_of f)) \<and>
     (\<forall>i\<in>set (code_of f). ii_id i < im_next m \<and> called i \<noteq> Some ''__topo_containment_violation'')"

lemma unreported_later: "unreported m f \<Longrightarrow> im_next m \<le> im_next m' \<Longrightarrow> unreported m' f"
  by (auto simp: unreported_def)

lemma report_of_plain: "called i \<noteq> Some ''__topo_containment_violation'' \<Longrightarrow> report_of strs i = None"
  by (simp add: report_of_def)

lemma reported_woven:
  assumes "\<And>i. i \<in> set code \<Longrightarrow> called i \<noteq> Some ''__topo_containment_violation''"
    and "\<And>i. i \<in> set code \<Longrightarrow> viol i = None \<Longrightarrow> B (ii_id i) = []"
    and "\<And>i c. i \<in> set code \<Longrightarrow> viol i = Some c \<Longrightarrow> good_report caller strs (ii_id i, c) (B (ii_id i))"
  shows "reported strs viol caller None (concat (map (\<lambda>i. B (ii_id i) @ [i]) code))"
  using assms
proof (induction code)
  case (Cons i code)
  have rest: "reported strs viol caller None (concat (map (\<lambda>i. B (ii_id i) @ [i]) code))" using Cons by simp
  have i: "report_of strs i = None" using Cons.prems(1) by (simp add: report_of_plain)
  show ?case
  proof (cases "viol i")
    case None
    then show ?thesis using rest i Cons.prems(2) [of i] by simp
  next
    case (Some c)
    then obtain k a b where B: "B (ii_id i) = [report_ins k a b]" "strs a = Some caller" "strs b = Some c"
      using Cons.prems(3) [of i c] by (auto simp: good_report_def)
    have "report_of strs (report_ins k a b) = Some (Some caller, Some c)"
      using B by (simp add: report_of_def report_ins_def called_def new_ins_def call_proto_def)
    with B Some rest i show ?thesis by simp
  qed
qed simp

text \<open>What has become of a function.\<close>

definition intercepted :: "cont_env \<Rightarrow> string list \<Rightarrow> string \<Rightarrow> imod \<Rightarrow> (string \<Rightarrow> string option) \<Rightarrow> ifun \<Rightarrow> ifun \<Rightarrow> bool" where
  "intercepted env externals triple m strs f f' \<longleftrightarrow> f'\<lparr>iu_blocks := older (im_next m) (iu_blocks f')\<rparr> = f \<and>
     (if iu_declaration f \<or> iu_name f \<in> set externals then f' = f
      else reported strs (violation env externals triple) (iu_name f) None (code_of f'))"

lemma sites_distinct: "distinct (map ii_id (code_of f)) \<Longrightarrow> distinct (map fst (violation_sites env ext triple f))"
proof -
  have "distinct (map ii_id xs) \<Longrightarrow> distinct (map fst (List.map_filter (\<lambda>i. map_option (\<lambda>c. (ii_id i, c)) (V i)) xs)) \<and>
      fst ` set (List.map_filter (\<lambda>i. map_option (\<lambda>c. (ii_id i, c)) (V i)) xs) \<subseteq> ii_id ` set xs" for xs :: "ins list" and V :: "ins \<Rightarrow> string option"
    by (induction xs) (auto simp: map_filter_simps split: option.splits)
  then show "distinct (map ii_id (code_of f)) \<Longrightarrow> ?thesis" by (simp add: violation_sites_def)
qed

lemma set_sites: "set (violation_sites env ext triple f) = {(ii_id i, c) |i c. i \<in> set (code_of f) \<and> violation env ext triple i = Some c}"
  by (auto simp: violation_sites_def List.map_filter_def image_iff split: option.splits) force

lemma intercept_function_spec:
  assumes "cont_private env m" and "find_fun m (iu_name f) = Some f" and "unreported m f"
  shows "\<exists>m' n' es' f'. intercept_function env mp ext triple f (m, n, es) = (m', n', es') \<and> find_fun m' (iu_name f) = Some f' \<and>
    (\<forall>strs. text_within m' strs \<longrightarrow> intercepted env ext triple m strs f f') \<and>
    im_next m \<le> im_next m' \<and> text_kept m m' \<and> cont_private env m' \<and> other_functions_kept (iu_name f) m m'"
proof (cases "iu_declaration f \<or> iu_name f \<in> set ext")
  case True
  have "older (im_next m) (iu_blocks f) = iu_blocks f"
    using assms(3) by (intro older_all) (simp add: unreported_def code_of_def)
  then show ?thesis using True assms(1,2)
    by (auto simp: intercept_function_def intercepted_def text_kept_def other_functions_kept_def)
next
  case False
  let ?V = "violation env ext triple" and ?n = "iu_name f"
  let ?m = "fold (intercept env ?n) (violation_sites env ext triple f) m"
  have d: "distinct (map fst (violation_sites env ext triple f))" using assms(3) by (intro sites_distinct) (simp add: unreported_def)
  have k: "\<forall>x\<in>set (violation_sites env ext triple f). fst x < im_next m" using assms(3) by (auto simp: set_sites unreported_def)
  obtain B where B: "find_fun ?m ?n = Some (f\<lparr>iu_blocks := weave B (\<lambda>_. []) (iu_blocks f)\<rparr>)"
    "\<forall>x\<in>set (violation_sites env ext triple f). good_report ?n (global_text ?m) x (B (fst x))"
    "\<forall>k. k \<notin> fst ` set (violation_sites env ext triple f) \<longrightarrow> B k = []" "\<forall>k. \<forall>i\<in>set (B k). im_next m \<le> ii_id i"
    "im_next m \<le> im_next ?m" "text_kept m ?m" "cont_private env ?m" "other_functions_kept ?n m ?m"
    using reports.steps [OF assms(1,2) k d] by blast
  let ?f' = "f\<lparr>iu_blocks := weave B (\<lambda>_. []) (iu_blocks f)\<rparr>"
  have "older (im_next m) (iu_blocks ?f') = older (im_next m) (iu_blocks f)" using B(4) by (simp, intro older_weave) auto
  also have "\<dots> = iu_blocks f" using assms(3) by (intro older_all) (simp add: unreported_def code_of_def)
  finally have old: "?f'\<lparr>iu_blocks := older (im_next m) (iu_blocks ?f')\<rparr> = f" by simp
  have code: "code_of ?f' = concat (map (\<lambda>i. B (ii_id i) @ [i]) (code_of f))"
    by (simp add: code_of_def weave_def code_on_ins)
  have dist: "i = j" if "i \<in> set (code_of f)" "j \<in> set (code_of f)" "ii_id i = ii_id j" for i j
    using assms(3) that by (simp add: unreported_def distinct_map inj_on_def)
  have "reported strs ?V ?n None (code_of ?f')" if strs: "text_within ?m strs" for strs
    unfolding code
  proof (rule reported_woven)
    show "called i \<noteq> Some ''__topo_containment_violation''" if "i \<in> set (code_of f)" for i
      using assms(3) that by (simp add: unreported_def)
    show "B (ii_id i) = []" if "i \<in> set (code_of f)" "?V i = None" for i
      using B(3) that dist by (force simp: set_sites)
    show "good_report ?n strs (ii_id i, c) (B (ii_id i))" if "i \<in> set (code_of f)" "?V i = Some c" for i c
    proof -
      have "(ii_id i, c) \<in> set (violation_sites env ext triple f)" using that by (auto simp: set_sites)
      then have "good_report ?n (global_text ?m) (ii_id i, c) (B (ii_id i))" using B(2) by fastforce
      then show ?thesis by (rule reports.good_mono) (use strs in \<open>simp add: text_within_def\<close>)
    qed
  qed
  then have "\<forall>strs. text_within ?m strs \<longrightarrow> intercepted env ext triple m strs f ?f'" using old False by (simp add: intercepted_def)
  moreover have "\<exists>n' es'. intercept_function env mp ext triple f (m, n, es) = (?m, n', es')"
    using False by (simp add: intercept_function_def Let_def)
  ultimately show ?thesis using B(1,5-8) by blast
qed

text \<open>All functions, one after the other; names are unique.\<close>

lemma intercept_functions_spec:
  assumes "cont_private env m" and "distinct (map iu_name fs)"
    and "\<forall>f\<in>set fs. find_fun m (iu_name f) = Some f \<and> unreported m f"
  shows "\<exists>m' n' es'. fold (intercept_function env mp ext triple) fs (m, n, es) = (m', n', es') \<and> text_kept m m' \<and>
    (\<forall>f\<in>set fs. \<exists>f'. find_fun m' (iu_name f) = Some f' \<and> (\<forall>strs. text_within m' strs \<longrightarrow> intercepted env ext triple m strs f f')) \<and>
    (\<forall>k g. k \<notin> iu_name ` set fs \<longrightarrow> find_fun m k = Some g \<longrightarrow> find_fun m' k = Some g)"
  using assms
proof (induction fs arbitrary: m n es)
  case Nil
  then show ?case by (simp add: text_kept_def)
next
  case (Cons f fs)
  obtain m1 n1 es1 f1 where s: "intercept_function env mp ext triple f (m, n, es) = (m1, n1, es1)" "find_fun m1 (iu_name f) = Some f1"
    "\<forall>strs. text_within m1 strs \<longrightarrow> intercepted env ext triple m strs f f1"
    "im_next m \<le> im_next m1" "text_kept m m1" "cont_private env m1" "other_functions_kept (iu_name f) m m1"
    using intercept_function_spec [OF Cons.prems(1), of f mp ext triple n es] Cons.prems(3) by auto
  have keep: "\<forall>g\<in>set fs. find_fun m1 (iu_name g) = Some g \<and> unreported m1 g"
  proof
    fix g
    assume g: "g \<in> set fs"
    moreover have "iu_name g \<noteq> iu_name f" using Cons.prems(2) imageI [OF g, of iu_name] by auto
    ultimately show "find_fun m1 (iu_name g) = Some g \<and> unreported m1 g"
      using Cons.prems(3) s(4,7) unreported_later [of m g m1] by (simp add: other_functions_kept_def)
  qed
  obtain m' n' es' where r: "fold (intercept_function env mp ext triple) fs (m1, n1, es1) = (m', n', es')" "text_kept m1 m'"
    "\<forall>g\<in>set fs. \<exists>g'. find_fun m' (iu_name g) = Some g' \<and> (\<forall>strs. text_within m' strs \<longrightarrow> intercepted env ext triple m1 strs g g')"
    "\<forall>k g. k \<notin> iu_name ` set fs \<longrightarrow> find_fun m1 k = Some g \<longrightarrow> find_fun m' k = Some g"
    using Cons.IH [OF s(6) _ keep, of n1 es1] Cons.prems(2) by auto
  have head: "find_fun m' (iu_name f) = Some f1" using r(4) s(2) Cons.prems(2) by simp
  have earlier: "intercepted env ext triple m strs g g'" if "intercepted env ext triple m1 strs g g'" "g \<in> set fs" for g g' strs
  proof -
    have g: "g'\<lparr>iu_blocks := older (im_next m1) (iu_blocks g')\<rparr> = g" using that(1) by (simp add: intercepted_def)
    then have gb: "iu_blocks g = older (im_next m1) (iu_blocks g')" by (metis ifun.select_convs(6) ifun.surjective ifun.update_convs(6))
    have "unreported m g" using Cons.prems(3) that(2) by simp
    then have "older (im_next m) (iu_blocks g) = iu_blocks g" by (intro older_all) (simp add: unreported_def code_of_def)
    then have "older (im_next m) (iu_blocks g') = iu_blocks g" unfolding gb by (simp add: older_older s(4))
    then have "g'\<lparr>iu_blocks := older (im_next m) (iu_blocks g')\<rparr> = g" using g gb by simp
    with that(1) show ?thesis by (simp add: intercepted_def)
  qed
  have "\<forall>g\<in>set (f # fs). \<exists>g'. find_fun m' (iu_name g) = Some g' \<and> (\<forall>strs. text_within m' strs \<longrightarrow> intercepted env ext triple m strs g g')"
    using head s(3) r(3) earlier text_within_kept [OF _ r(2)] by (metis set_ConsD)
  moreover have "text_kept m m'" using s(5) r(2) by (rule text_kept_trans)
  moreover have "\<forall>k g. k \<notin> iu_name ` set (f # fs) \<longrightarrow> find_fun m k = Some g \<longrightarrow> find_fun m' k = Some g"
    using r(4) s(7) by (simp add: other_functions_kept_def)
  ultimately show ?case using s(1) r(1) by simp
qed


definition cont_example_env :: cont_env where
  "cont_example_env = \<lparr>ce_uniq = dotted_name, ce_demangle = (\<lambda>n. n), ce_isApi = (\<lambda>n. n = ''fopen''),
     ce_functions = [(''files'', \<lparr>xf_qualifiedName = ''files'', xf_isExternal = True, xf_externalOwner = []\<rparr>)], ce_externalType = (\<lambda>_. False)\<rparr>"

definition cont_example_body :: "nat \<Rightarrow> blocks" where
  "cont_example_body k = [(0, [new_ins k (call_proto ''hash'' [] VoidTy), new_ins (k + 1) (OInvoke (Direct ''fopen'') 1 2, [], PointerTy)]),
     (1, [new_ins (k + 2) (call_proto ''fopen'' [] PointerTy), new_ins (k + 3) (ORet, [], VoidTy)]), (2, [new_ins (k + 4) (OTerm [], [], VoidTy)])]"

definition cont_example_module :: "string \<Rightarrow> imod" where
  "cont_example_module triple = \<lparr>im_triple = triple, im_funs = [(new_ifun ''sneaky'' [] VoidTy)\<lparr>iu_blocks := cont_example_body 0\<rparr>,
     (new_ifun ''files'' [] VoidTy)\<lparr>iu_blocks := cont_example_body 5\<rparr>, new_ifun ''fopen'' [] PointerTy, new_ifun ''hash'' [] VoidTy],
     im_globals = [], im_next = 10, im_abi = \<lparr>am_values = [], am_strings = [], am_ctors = []\<rparr>\<rparr>"

definition cont_example_mapping :: em_mapping where
  "cont_example_mapping = [(''app::sneaky'', Some ''sneaky''), (''files'', Some ''files'')]"


text \<open>On Apple targets a function of the program whose name is that of an API after an underscore is taken for it.\<close>

lemma own_function_taken_for_api:
  "violation cont_example_env [] ''arm64-apple-macosx'' (new_ins 0 (call_proto ''_fopen'' [] PointerTy)) = Some ''fopen''"
  by code_simp

end
