(* ===== verification/JsonValue.thy ===== *)
theory JsonValue
  imports Double64 "HOL-Library.Char_ord" "HOL-Library.List_Lexorder"
begin

text \<open>
  The values of nlohmann::json as the backend builds and reads them. An object is a \<open>std::map\<close>, a list
  with increasing keys; an \<open>ordered_json\<close> object is a list in insertion order.
\<close>

section \<open>Values\<close>

datatype json = JNull | JBool bool | JInt int | JUnsigned u64 | JDouble double | JString string | JArray "json list"
  | JObject "(string \<times> json) list"

text \<open>\<open>j[k] = v\<close> on a sorted object, and on an ordered one.\<close>

fun map_set :: "string \<Rightarrow> 'v \<Rightarrow> (string \<times> 'v) list \<Rightarrow> (string \<times> 'v) list" where
  "map_set k v [] = [(k, v)]"
| "map_set k v ((k', v') # m) =
     (if k < k' then (k, v) # (k', v') # m else if k = k' then (k, v) # m else (k', v') # map_set k v m)"

definition json_object :: "(string \<times> json) list \<Rightarrow> json" where
  "json_object flds = JObject (fold (\<lambda>(k, v). map_set k v) flds [])"

definition ordered_object :: "(string \<times> json) list \<Rightarrow> json" where
  "ordered_object flds = JObject (fold (\<lambda>(k, v). AList.update k v) flds [])"

fun sortKeys :: "json \<Rightarrow> json" where
  "sortKeys (JObject ps) = ordered_object (sort_key fst (map (\<lambda>(k, v). (k, sortKeys v)) ps))"
| "sortKeys (JArray xs) = JArray (map sortKeys xs)"
| "sortKeys j = j"

section \<open>Sorted objects\<close>

fun sorted_json :: "json \<Rightarrow> bool" where
  "sorted_json (JObject ps) \<longleftrightarrow> sorted_wrt (<) (map fst ps) \<and> list_all sorted_json (map snd ps)"
| "sorted_json (JArray xs) \<longleftrightarrow> list_all sorted_json xs"
| "sorted_json _ \<longleftrightarrow> True"

lemma map_set_keys: "fst ` set (map_set k v m) = insert k (fst ` set m)"
  by (induction k v m rule: map_set.induct) (simp_all add: insert_commute)

lemma map_set_sorted:
  "sorted_wrt (<) (map fst m) \<Longrightarrow> sorted_wrt (<) (map fst (map_set k v m))"
proof (induction m)
  case (Cons e m)
  then show ?case using map_set_keys [of k v m] by (cases e) (auto simp: not_less order_le_less)
qed simp

lemma map_set_values: "sorted_json v \<Longrightarrow> list_all sorted_json (map snd m) \<Longrightarrow> list_all sorted_json (map snd (map_set k v m))"
  by (induction m) auto

lemma sorted_json_object: "list_all sorted_json (map snd flds) \<Longrightarrow> sorted_json (json_object flds)"
proof -
  have "sorted_wrt (<) (map fst m) \<Longrightarrow> list_all sorted_json (map snd m) \<Longrightarrow> list_all sorted_json (map snd flds) \<Longrightarrow>
      sorted_json (JObject (fold (\<lambda>(k, v). map_set k v) flds m))" for m
    by (induction flds arbitrary: m) (auto simp: map_set_sorted map_set_values)
  then show "list_all sorted_json (map snd flds) \<Longrightarrow> ?thesis" by (simp add: json_object_def)
qed

lemma sorted_object_fields: "list_all (\<lambda>(_, v). sorted_json v) flds \<Longrightarrow> sorted_json (json_object flds)"
  by (rule sorted_json_object) (auto simp: list_all_iff)

lemma sorted_array: "(\<And>x. x \<in> set xs \<Longrightarrow> sorted_json (f x)) \<Longrightarrow> sorted_json (JArray (map f xs))"
  by (simp add: list_all_iff)

lemma sorted_leaf: "sorted_json (JString s)" "sorted_json (JInt i)" "sorted_json (JBool b)" "sorted_json (JDouble d)"
  "sorted_json (JUnsigned u)" "sorted_json JNull"
  by simp_all

lemma sorted_fields:
  "list_all (\<lambda>(_, v). sorted_json v) []"
  "sorted_json v \<Longrightarrow> list_all (\<lambda>(_, v). sorted_json v) flds \<Longrightarrow> list_all (\<lambda>(_, v). sorted_json v) ((k, v) # flds)"
  by simp_all

lemmas sorted_intros = sorted_object_fields sorted_array sorted_leaf sorted_fields

text \<open>Sorting keys changes nothing that is sorted.\<close>

lemma update_append: "k \<notin> set (map fst m) \<Longrightarrow> AList.update k v m = m @ [(k, v)]"
  by (induction m) auto

lemma fold_update_distinct:
  "distinct (map fst (m @ ps)) \<Longrightarrow> fold (\<lambda>(k, v). AList.update k v) ps m = m @ ps"
  by (induction ps arbitrary: m) (auto simp: update_append)

lemma sort_key_sorted:
  fixes ps :: "('a :: linorder \<times> 'b) list"
  assumes "sorted_wrt (<) (map fst ps)"
  shows "sort_key fst ps = ps"
  using assms
proof (induction ps)
  case (Cons p ps)
  then have "\<forall>q\<in>set ps. fst p \<le> fst q" by auto
  with Cons show ?case by (simp add: insort_is_Cons)
qed simp

lemma sortKeys_sorted: "sorted_json j \<Longrightarrow> sortKeys j = j"
proof (induction j rule: sortKeys.induct)
  case (1 ps)
  have "map (\<lambda>(k, v). (k, sortKeys v)) ps = ps"
    using 1 by (intro map_idI) (force simp: list_all_iff)
  moreover have "distinct (map fst ps)" using 1(2) by (simp add: strict_sorted_iff)
  ultimately show ?case
    using 1(2) sort_key_sorted [of ps] fold_update_distinct [of "[]" ps] by (simp add: ordered_object_def)
next
  case (2 xs)
  then show ?case by (simp add: list_all_iff map_idI)
qed simp_all

section \<open>Lookup in objects\<close>

lemma map_of_map_set: "map_of (map_set k v m) k' = (if k' = k then Some v else map_of m k')"
  by (induction m) auto

definition map_object :: "(string \<times> 'v) list \<Rightarrow> (string \<times> 'v) list" where
  "map_object flds = fold (\<lambda>(k, v). map_set k v) flds []"

lemma json_object_map: "json_object flds = JObject (map_object flds)"
  by (simp add: json_object_def map_object_def)

lemma map_of_fold_map_set:
  "map_of (fold (\<lambda>(k, v). map_set k v) flds m) k = (case map_of (rev flds) k of None \<Rightarrow> map_of m k | Some v \<Rightarrow> Some v)"
  by (induction flds arbitrary: m) (auto simp: map_of_map_set map_add_def split: option.split)

lemma map_of_map_object: "map_of (map_object flds) k = map_of (rev flds) k"
  unfolding map_object_def map_of_fold_map_set by (simp split: option.split)

lemma map_of_map_object_distinct: "distinct (map fst flds) \<Longrightarrow> map_of (map_object flds) = map_of flds"
  by (rule ext) (simp add: map_of_map_object map_of_inject_set [THEN iffD2, of "rev flds" flds] rev_map [symmetric])

lemma map_object_sorted: "sorted_wrt (<) (map fst (map_object flds))"
proof -
  have "sorted_wrt (<) (map fst m) \<Longrightarrow> sorted_wrt (<) (map fst (fold (\<lambda>(k, v). map_set k v) flds m))" for m :: "(string \<times> 'a) list"
    by (induction flds arbitrary: m) (auto simp: map_set_sorted)
  then show ?thesis by (simp add: map_object_def)
qed

lemma map_object_ok: "amap_ok (map_object flds)"
  using map_object_sorted [of flds] by (simp add: amap_ok_def strict_sorted_iff)

lemma map_set_map: "map_set k (F v) (map (\<lambda>(n, x). (n, F x)) m) = map (\<lambda>(n, x). (n, F x)) (map_set k v m)"
  by (induction m) auto

lemma map_object_map: "map_object (map (\<lambda>(n, x). (n, F x)) flds) = map (\<lambda>(n, x). (n, F x)) (map_object flds)"
proof -
  have "fold (\<lambda>(k, v). map_set k v) (map (\<lambda>(n, x). (n, F x)) flds) (map (\<lambda>(n, x). (n, F x)) m) =
      map (\<lambda>(n, x). (n, F x)) (fold (\<lambda>(k, v). map_set k v) flds m)" for m
    by (induction flds arbitrary: m) (auto simp: map_set_map)
  from this [of "[]"] show ?thesis by (simp add: map_object_def)
qed

lemma map_object_Nil [simp]: "map_object [] = []"
  by (simp add: map_object_def)

lemma map_set_not_Nil [simp]: "map_set k v m \<noteq> []"
  by (cases m) (auto split: if_splits)

lemma map_object_eq_Nil [simp]: "map_object flds = [] \<longleftrightarrow> flds = []"
proof (cases flds)
  case (Cons p ps)
  then have "map_of (map_object flds) (fst p) \<noteq> None"
    by (auto simp: map_of_map_object map_of_eq_None_iff)
  then show ?thesis using Cons by auto
qed simp

section \<open>Printing and parsing\<close>

text \<open>
  What the parser gives for the text of a value: a number that is not negative is unsigned. Texts that the
  library writes and reads back: no floating-point number, integers of 64 bits, strings of ASCII.
\<close>

fun reparsed :: "json \<Rightarrow> json" where
  "reparsed (JInt i) = (if 0 \<le> i then JUnsigned (word_of_int i) else JInt i)"
| "reparsed (JArray xs) = JArray (map reparsed xs)"
| "reparsed (JObject ps) = JObject (map (\<lambda>(k, v). (k, reparsed v)) ps)"
| "reparsed j = j"

definition ascii :: "string \<Rightarrow> bool" where
  "ascii s \<longleftrightarrow> (\<forall>c\<in>set s. (of_char c :: nat) < 128)"

fun plain_json :: "json \<Rightarrow> bool" where
  "plain_json (JDouble d) \<longleftrightarrow> False"
| "plain_json (JInt i) \<longleftrightarrow> - (2 ^ 63) \<le> i \<and> i < 2 ^ 63"
| "plain_json (JString s) \<longleftrightarrow> ascii s"
| "plain_json (JArray xs) \<longleftrightarrow> list_all plain_json xs"
| "plain_json (JObject ps) \<longleftrightarrow> list_all (\<lambda>(k, v). ascii k \<and> plain_json v) ps"
| "plain_json j \<longleftrightarrow> True"

lemma reparsed_object: "reparsed (JObject ps) = JObject (map (\<lambda>(k, v). (k, reparsed v)) ps)"
  by simp

end
