(* ===== verification/IrEmbed.thy ===== *)
theory IrEmbed
  imports CloneModule FlowSymbols JsonValue
begin

text \<open>
  lib/Backend/IREmbed.cpp: the module that is embedded for the JIT, the metadata beside it, and the two
  sections. The bitcode writer, the printing of JSON and LLVM's renaming of a name that is taken are
  parameters, and so are topo-core's answers on configurations and abstract type names.
\<close>

record embed_env =
  ev_writeBitcode :: "em_module \<Rightarrow> u8 list"
  ev_dump :: "json \<Rightarrow> string"
  ev_isEnabled :: "ParallelConfig \<Rightarrow> bool"
  ev_isAbstractName :: "string \<Rightarrow> bool"
  ev_uniq :: "string set \<Rightarrow> string \<Rightarrow> string"

section \<open>The functions to keep\<close>

definition callees :: "em_module \<Rightarrow> string \<Rightarrow> string list" where
  "callees m n =
     (case find (\<lambda>f. ef_name f = n) (em_functions m) of
        None \<Rightarrow> []
      | Some f \<Rightarrow> (case ef_body f of None \<Rightarrow> [] | Some b \<Rightarrow> map snd (filter fst b)))"

definition is_defined :: "em_module \<Rightarrow> string \<Rightarrow> bool" where
  "is_defined m n \<longleftrightarrow> (\<exists>f\<in>set (em_functions m). ef_name f = n \<and> \<not> ef_declaration f)"

text \<open>
  The recursion visits every definition once; the fuel is the depth left, for which one more than the
  number of functions is enough.
\<close>

fun collect :: "nat \<Rightarrow> em_module \<Rightarrow> string \<Rightarrow> string set \<Rightarrow> string set" where
  "collect 0 m func collected = collected"
| "collect (Suc n) m func collected =
     (if \<not> is_defined m func \<or> func \<in> collected then collected
      else fold (\<lambda>callee c. collect n m callee c) (callees m func) (insert func collected))"

definition collectCallees :: "em_module \<Rightarrow> string \<Rightarrow> string set \<Rightarrow> string set" where
  "collectCallees m func collected = collect (Suc (length (em_functions m))) m func collected"

definition collect_stub :: "em_module \<Rightarrow> em_mapping \<Rightarrow> FlowBlock \<Rightarrow> string set \<Rightarrow> string set" where
  "collect_stub m mp lb c =
     (if \<not> fb_isPipeline lb then c
      else (case mapped mp (fb_qualifiedName lb) of None \<Rightarrow> c | Some f \<Rightarrow> collectCallees m f c))"

definition keep_bodies :: "em_module \<Rightarrow> FlowSymbols \<Rightarrow> em_mapping \<Rightarrow> string set" where
  "keep_bodies m symbols mp = fold (collect_stub m mp) (map snd (fl_blocks symbols)) {}"

definition keep_declarations :: "FlowSymbols \<Rightarrow> em_mapping \<Rightarrow> string list" where
  "keep_declarations symbols mp =
     concat (map (\<lambda>lb. if fb_isPipeline lb then List.map_filter (mapped mp) (fb_calledFunctions lb) else [])
       (map snd (fl_blocks symbols)))"

section \<open>The embedded module\<close>

definition serializePipelineIR :: "embed_env \<Rightarrow> em_module \<Rightarrow> FlowSymbols \<Rightarrow> em_mapping \<Rightarrow> u8 list option" where
  "serializePipelineIR ev m symbols mp =
     (let keep = keep_bodies m symbols mp
      in if keep = {} then Some []
         else map_option (ev_writeBitcode ev)
           (each drop_value (map ef_name (filter (\<lambda>f. \<not> ef_declaration f \<and> ef_name f \<notin> keep) (em_functions m))) m))"

text \<open>\<open>func.deleteBody()\<close>, which also makes the function external and drops its personality.\<close>

definition deleteBody :: "em_function \<Rightarrow> em_function" where
  "deleteBody f = f\<lparr>ef_body := None, ef_linkage := ExternalLinkage, ef_personality := None\<rparr>"

definition strip_bodies :: "string set \<Rightarrow> string set \<Rightarrow> em_module \<Rightarrow> em_module" where
  "strip_bodies bodies decls m = m\<lparr>em_functions := map (\<lambda>f.
     if \<not> ef_declaration f \<and> ef_name f \<notin> bodies \<and> ef_name f \<in> decls then deleteBody f else f) (em_functions m)\<rparr>"

definition functions_to_remove :: "string set \<Rightarrow> string set \<Rightarrow> em_module \<Rightarrow> string list" where
  "functions_to_remove bodies decls m =
     map ef_name (filter (\<lambda>f. \<not> ef_declaration f \<and> ef_name f \<notin> bodies \<and> ef_name f \<notin> decls) (em_functions m))"

definition preCodegenModule :: "string set \<Rightarrow> string set \<Rightarrow> em_module \<Rightarrow> em_module option" where
  "preCodegenModule bodies decls m =
     do { m' \<leftarrow> each drop_value (functions_to_remove bodies decls m) (strip_bodies bodies decls m);
          strip_module m' }"

definition serializePreCodegenIR :: "embed_env \<Rightarrow> em_module \<Rightarrow> FlowSymbols \<Rightarrow> em_mapping \<Rightarrow> u8 list option" where
  "serializePreCodegenIR ev m symbols mp =
     (let bodies = keep_bodies m symbols mp; decls = set (keep_declarations symbols mp)
      in if bodies = {} \<and> decls = {} then Some []
         else map_option (ev_writeBitcode ev) (preCodegenModule bodies decls m))"

section \<open>The metadata\<close>

text \<open>\<open>j[k] = v\<close> starting from a null value: nothing assigned leaves it null.\<close>

definition assigned :: "(string \<times> json) list \<Rightarrow> json" where
  "assigned flds = (if flds = [] then JNull else json_object flds)"

definition edge_json :: "FlowEdge \<Rightarrow> json" where
  "edge_json e = json_object [(''source'', JString (fe_source e)), (''target'', JString (fe_target e))]"

definition strings_json :: "string list \<Rightarrow> json" where
  "strings_json xs = JArray (map JString xs)"

fun pattern_name :: "AccessPattern \<Rightarrow> string" where
  "pattern_name Streaming = ''streaming''"
| "pattern_name Random = ''random''"
| "pattern_name Tiled = ''tiled''"
| "pattern_name GatherScatter = ''gather_scatter''"
| "pattern_name NoPattern = ''none''"

definition hint_fields :: "FlowFunction \<Rightarrow> (string \<times> json) list" where
  "hint_fields fn =
     (case ff_cardinality fn of None \<Rightarrow> [] | Some (lo, hi) \<Rightarrow> [(''cardinality_min'', JInt lo), (''cardinality_max'', JInt hi)])
     @ (if ff_accessPattern fn = NoPattern then []
        else (''access_pattern'', JString (pattern_name (ff_accessPattern fn)))
          # (if ff_accessPattern fn = Tiled \<and> ff_tiledSize fn > 0 then [(''tile_size'', JInt (ff_tiledSize fn))] else []))"

definition node_hints :: "FlowSymbols \<Rightarrow> FlowBlock \<Rightarrow> (string \<times> json) list" where
  "node_hints symbols lb = List.map_filter (\<lambda>cf.
     (case fl_findFunction symbols cf of
        None \<Rightarrow> None
      | Some fn \<Rightarrow> if hint_fields fn = [] then None else Some (cf, json_object (hint_fields fn)))) (fb_calledFunctions lb)"

definition pipeline_json :: "FlowSymbols \<Rightarrow> FlowBlock \<Rightarrow> PipelineAnalysis \<Rightarrow> json" where
  "pipeline_json symbols lb an = json_object (
     [(''name'', JString (fb_qualifiedName lb)), (''simpleName'', JString (fb_simpleName lb)),
      (''edges'', JArray (map edge_json (fb_edges lb))),
      (''stages'', assigned (map (\<lambda>(node, stage). (node, JInt stage)) (an_stages an))),
      (''sourceNodes'', strings_json (an_sourceNodes an)), (''terminalNode'', JString (an_terminalNode an)),
      (''terminalType'', JString (an_terminalType an)),
      (''demand'', assigned (map (\<lambda>(node, flds). (node, strings_json flds)) (an_demand an))),
      (''calledFunctions'', strings_json (fb_calledFunctions lb))]
     @ (if node_hints symbols lb = [] then [] else [(''hints'', json_object (node_hints symbols lb))]))"

definition pipelines_json :: "FlowSymbols \<Rightarrow> json list" where
  "pipelines_json symbols = List.map_filter (\<lambda>(name, lb).
     (if fb_isPipeline lb then map_option (pipeline_json symbols lb) (fb_analysis lb) else None)) (fl_blocks symbols)"

definition param_json :: "FlowParam \<Rightarrow> json" where
  "param_json p = json_object ((''name'', JString (fp_name p))
     # (case fp_ownership p of None \<Rightarrow> [] | Some own \<Rightarrow> [(''ownership'', JString own)]))"

definition ownership_fields :: "FlowSymbols \<Rightarrow> (string \<times> json) list" where
  "ownership_fields symbols = List.map_filter (\<lambda>(name, fn).
     (if \<exists>p\<in>set (ff_params fn). fp_ownership p \<noteq> None
      then Some (ff_qualifiedName fn, json_object [(''params'', JArray (map param_json (ff_params fn)))]) else None))
     (fl_functions symbols)"

definition binding_fields :: "FlowSymbols \<Rightarrow> (string \<times> json) list" where
  "binding_fields symbols = List.map_filter (\<lambda>(name, fn).
     map_option (\<lambda>b. (ff_qualifiedName fn, JString b)) (ff_bindingTarget fn)) (fl_functions symbols)"

definition adapter_json :: "FlowAdapt \<Rightarrow> json" where
  "adapter_json adp = json_object ([(''abstractType'', JString (fa_constraintName adp)), (''targetType'', JString (fa_targetType adp))]
     @ map (\<lambda>(member, target). (member, JString target)) (fa_mappings adp))"

definition type_adapters :: "embed_env \<Rightarrow> FlowSymbols \<Rightarrow> json list" where
  "type_adapters ev symbols = map adapter_json (filter (\<lambda>adp. ev_isAbstractName ev (fa_constraintName adp)) (fl_adapts symbols))"

definition metadata_json :: "embed_env \<Rightarrow> FlowSymbols \<Rightarrow> ParallelConfig \<Rightarrow> bool option \<Rightarrow> json" where
  "metadata_json ev symbols parallelCfg adaptiveEnabled = json_object (
     [(''pipelines'', JArray (pipelines_json symbols))]
     @ (if ownership_fields symbols = [] then [] else [(''functions'', json_object (ownership_fields symbols))])
     @ [(''parallel'', json_object [(''enabled'', JBool (ev_isEnabled ev parallelCfg)), (''instrument'', JBool (pl_instrument parallelCfg)),
          (''exclude'', strings_json (pl_exclude parallelCfg))])]
     @ (case adaptiveEnabled of None \<Rightarrow> [] | Some en \<Rightarrow> [(''adaptive'', json_object [(''enabled'', JBool en)])])
     @ (if binding_fields symbols = [] then [] else [(''bindings'', json_object (binding_fields symbols))])
     @ (if type_adapters ev symbols = [] then [] else [(''typeAdapters'', JArray (type_adapters ev symbols))]))"

definition serializeMetadata :: "embed_env \<Rightarrow> FlowSymbols \<Rightarrow> ParallelConfig \<Rightarrow> bool option \<Rightarrow> string" where
  "serializeMetadata ev symbols parallelCfg adaptiveEnabled = ev_dump ev (metadata_json ev symbols parallelCfg adaptiveEnabled)"

section \<open>The sections\<close>

definition getSectionName :: "string \<Rightarrow> string \<Rightarrow> string" where
  "getSectionName base triple =
     (if contains ''win32'' triple \<or> contains ''windows'' triple \<or> contains ''mingw'' triple then base @ ''$''
      else if contains ''apple'' triple \<or> contains ''darwin'' triple \<or> contains ''macos'' triple
      then ''__DATA,'' @ (if base \<noteq> [] \<and> base ! 0 = CHR ''.'' then ''__'' @ substr_from base 1 else ''__'' @ base)
      else base)"

definition new_global :: "string \<Rightarrow> string list \<Rightarrow> em_global" where
  "new_global n init = \<lparr>eg_name = n, eg_init = init, eg_data = [], eg_section = [], eg_linkage = ExternalLinkage,
     eg_visibility = DefaultVisibility, eg_comdat = False\<rparr>"

definition add_global :: "em_global \<Rightarrow> em_module \<Rightarrow> em_module" where
  "add_global g m = m\<lparr>em_globals := em_globals m @ [g]\<rparr>"

definition addToUsed :: "string \<Rightarrow> em_module \<Rightarrow> em_module option" where
  "addToUsed gv m =
     (let entries = (case find (\<lambda>g. eg_name g = ''llvm.used'') (em_globals m) of None \<Rightarrow> [] | Some g \<Rightarrow> eg_init g)
      in map_option (add_global ((new_global ''llvm.used'' (entries @ [gv]))\<lparr>eg_linkage := OtherLinkage, eg_section := ''llvm.metadata''\<rparr>))
           (erase_named ''llvm.used'' m))"

definition embed_section :: "embed_env \<Rightarrow> string \<Rightarrow> string \<Rightarrow> u8 list \<Rightarrow> em_module \<Rightarrow> em_module option" where
  "embed_section ev base name payload m =
     (let n = (if name \<in> set (value_names m) then ev_uniq ev (set (value_names m)) name else name);
          gv = (new_global n [])\<lparr>eg_data := payload, eg_section := getSectionName base (em_triple m), eg_visibility := HiddenVisibility\<rparr>
      in addToUsed n (add_global gv m))"

definition string_bytes :: "string \<Rightarrow> u8 list" where
  "string_bytes = map of_char"

definition embed :: "embed_env \<Rightarrow> em_module \<Rightarrow> u8 list \<Rightarrow> string \<Rightarrow> em_module option" where
  "embed ev m bitcode metadata =
     do { m \<leftarrow> (if bitcode = [] then Some m else embed_section ev ''.topo_ir'' ''topo_embedded_ir'' bitcode m);
          if metadata = [] then Some m
          else embed_section ev ''.tp_meta'' ''topo_embedded_meta'' (string_bytes metadata @ [0]) m }"

section \<open>The functions to keep, as reachability\<close>

definition definitions :: "em_module \<Rightarrow> string set" where
  "definitions m = {n. is_defined m n}"

definition calls :: "em_module \<Rightarrow> (string \<times> string) set" where
  "calls m = {(a, b). is_defined m a \<and> is_defined m b \<and> b \<in> set (callees m a)}"

lemma definitions_subset: "definitions m \<subseteq> set (map ef_name (em_functions m))"
  by (auto simp: definitions_def is_defined_def)

lemma finite_definitions [simp]: "finite (definitions m)"
  using definitions_subset by (rule finite_subset) simp

lemma card_definitions: "card (definitions m - c) \<le> length (em_functions m)"
proof -
  have "card (definitions m - c) \<le> card (set (map ef_name (em_functions m)))"
    using definitions_subset by (intro card_mono) auto
  also have "\<dots> \<le> length (em_functions m)" using card_length [of "map ef_name (em_functions m)"] by simp
  finally show ?thesis .
qed

text \<open>
  What one call of the recursion adds: functions reachable from its argument, whose calls all lead to
  functions collected by then.
\<close>

definition collects :: "em_module \<Rightarrow> string set \<Rightarrow> string set \<Rightarrow> string set \<Rightarrow> bool" where
  "collects m fs c r \<longleftrightarrow> c \<subseteq> r \<and> r \<subseteq> c \<union> (calls m)\<^sup>* `` (fs \<inter> definitions m) \<and> fs \<inter> definitions m \<subseteq> r \<and>
     (\<forall>x\<in>r - c. \<forall>y. (x, y) \<in> calls m \<longrightarrow> y \<in> r)"

lemma collectsI:
  assumes "c \<subseteq> r" and "r \<subseteq> c \<union> (calls m)\<^sup>* `` (fs \<inter> definitions m)" and "fs \<inter> definitions m \<subseteq> r"
    and "\<And>x y. x \<in> r \<Longrightarrow> x \<notin> c \<Longrightarrow> (x, y) \<in> calls m \<Longrightarrow> y \<in> r"
  shows "collects m fs c r"
  unfolding collects_def using assms by (intro conjI ballI allI impI) (blast+)

lemma collectsD:
  assumes "collects m fs c r"
  shows "c \<subseteq> r" and "r \<subseteq> c \<union> (calls m)\<^sup>* `` (fs \<inter> definitions m)" and "fs \<inter> definitions m \<subseteq> r"
    and "x \<in> r \<Longrightarrow> x \<notin> c \<Longrightarrow> (x, y) \<in> calls m \<Longrightarrow> y \<in> r"
  using assms unfolding collects_def by simp_all

lemma collects_Nil: "collects m {} c c"
  by (simp add: collects_def)

lemma collects_more:
  assumes 1: "collects m {f} c c'" and 2: "collects m fs c' r"
  shows "collects m (insert f fs) c r"
proof (rule collectsI)
  have i: "insert f fs \<inter> definitions m = {f} \<inter> definitions m \<union> fs \<inter> definitions m" by blast
  show "c \<subseteq> r" using collectsD(1) [OF 1] collectsD(1) [OF 2] by (rule subset_trans)
  show "insert f fs \<inter> definitions m \<subseteq> r"
    unfolding i using collectsD(3) [OF 1] collectsD(1) [OF 2] collectsD(3) [OF 2] by blast
  show "r \<subseteq> c \<union> (calls m)\<^sup>* `` (insert f fs \<inter> definitions m)"
    unfolding i Image_Un using collectsD(2) [OF 1] collectsD(2) [OF 2] by blast
next
  fix x y assume x: "x \<in> r" "x \<notin> c" "(x, y) \<in> calls m"
  show "y \<in> r"
  proof (cases "x \<in> c'")
    case True
    then show ?thesis using collectsD(4) [OF 1 True x(2,3)] collectsD(1) [OF 2] by blast
  next
    case False
    then show ?thesis by (rule collectsD(4) [OF 2 x(1) _ x(3)])
  qed
qed

lemma collects_fold:
  assumes "\<And>g c. g \<in> set gs \<Longrightarrow> c\<^sub>0 \<subseteq> c \<Longrightarrow> collects m {g} c (F g c)" and "c\<^sub>0 \<subseteq> c"
  shows "collects m (set gs) c (fold F gs c)"
  using assms
proof (induction gs arbitrary: c)
  case (Cons g gs)
  have 1: "collects m {g} c (F g c)" using Cons.prems by simp
  then have "c\<^sub>0 \<subseteq> F g c" using Cons.prems(2) by (auto simp: collects_def)
  then have "collects m (set gs) (F g c) (fold F gs (F g c))" using Cons.prems(1) by (intro Cons.IH) auto
  with 1 show ?case by (simp add: collects_more)
qed (simp add: collects_Nil)

lemma collects_collect:
  assumes "card (definitions m - c) < n"
  shows "collects m {func} c (collect n m func c)"
  using assms
proof (induction n arbitrary: func c)
  case (Suc n)
  show ?case
  proof (cases "\<not> is_defined m func \<or> func \<in> c")
    case True
    then show ?thesis by (auto simp: collects_def definitions_def)
  next
    case False
    let ?c = "insert func c"
    have "definitions m - ?c \<subset> definitions m - c" using False by (auto simp: definitions_def)
    then have "card (definitions m - ?c) < card (definitions m - c)" by (intro psubset_card_mono) auto
    then have n: "card (definitions m - ?c) < n" using Suc.prems by simp
    have step: "collects m {g} d (collect n m g d)" if "?c \<subseteq> d" for g d
    proof (rule Suc.IH)
      have "card (definitions m - d) \<le> card (definitions m - ?c)" using that by (intro card_mono) auto
      with n show "card (definitions m - d) < n" by simp
    qed
    let ?r = "fold (\<lambda>g d. collect n m g d) (callees m func) ?c"
    have r: "collects m (set (callees m func)) ?c ?r"
      by (rule collects_fold [of _ ?c]) (use step in auto)
    have reach: "x \<in> (calls m)\<^sup>* `` {func}" if "x \<in> (calls m)\<^sup>* `` (set (callees m func) \<inter> definitions m)" for x
      
    proof -
      from that obtain g where g: "g \<in> set (callees m func)" "is_defined m g" "(g, x) \<in> (calls m)\<^sup>*"
        by (auto simp: definitions_def)
      then have "(func, g) \<in> calls m" using False by (simp add: calls_def)
      then show ?thesis using g(3) by (auto intro: converse_rtrancl_into_rtrancl)
    qed
    have "collects m {func} c ?r"
    proof (rule collectsI)
      have f: "{func} \<inter> definitions m = {func}" using False by (auto simp: definitions_def)
      show "c \<subseteq> ?r" "{func} \<inter> definitions m \<subseteq> ?r" using collectsD(1) [OF r] by auto
      show "?r \<subseteq> c \<union> (calls m)\<^sup>* `` ({func} \<inter> definitions m)"
        unfolding f using collectsD(2) [OF r] reach by blast
      fix x y assume x: "x \<in> ?r" "x \<notin> c" "(x, y) \<in> calls m"
      show "y \<in> ?r"
      proof (cases "x = func")
        case True
        then have "y \<in> set (callees m func) \<inter> definitions m" using x(3) by (simp add: calls_def definitions_def)
        then show ?thesis using collectsD(3) [OF r] by blast
      next
        case False
        then show ?thesis using collectsD(4) [OF r x(1) _ x(3)] x(2) by simp
      qed
    qed
    then show ?thesis using False by simp
  qed
qed simp

lemma collects_collectCallees: "collects m {func} c (collectCallees m func c)"
  unfolding collectCallees_def by (rule collects_collect) (simp add: card_definitions less_Suc_eq_le)

text \<open>The stubs of the pipelines, and what is kept for them.\<close>

definition stubs :: "FlowSymbols \<Rightarrow> em_mapping \<Rightarrow> string set" where
  "stubs symbols mp = {f. \<exists>lb\<in>snd ` set (fl_blocks symbols). fb_isPipeline lb \<and> mapped mp (fb_qualifiedName lb) = Some f}"

lemma keep_bodies_collects: "collects m (stubs symbols mp) {} (keep_bodies m symbols mp)"
proof -
  have "collects m {f. \<exists>lb\<in>set lbs. fb_isPipeline lb \<and> mapped mp (fb_qualifiedName lb) = Some f} c (fold (collect_stub m mp) lbs c)" for lbs c
  proof (induction lbs arbitrary: c)
    case (Cons lb lbs)
    show ?case
    proof (cases "if fb_isPipeline lb then mapped mp (fb_qualifiedName lb) else None")
      case None
      then have "{f. \<exists>l\<in>set (lb # lbs). fb_isPipeline l \<and> mapped mp (fb_qualifiedName l) = Some f} =
          {f. \<exists>l\<in>set lbs. fb_isPipeline l \<and> mapped mp (fb_qualifiedName l) = Some f}" by (auto split: if_splits)
      then show ?thesis using Cons.IH None by (simp add: collect_stub_def split: if_splits)
    next
      case (Some f)
      then have "{f. \<exists>l\<in>set (lb # lbs). fb_isPipeline l \<and> mapped mp (fb_qualifiedName l) = Some f} =
          insert f {f. \<exists>l\<in>set lbs. fb_isPipeline l \<and> mapped mp (fb_qualifiedName l) = Some f}" by (auto split: if_splits)
      moreover have "collect_stub m mp lb c = collectCallees m f c" using Some by (simp add: collect_stub_def split: if_splits)
      ultimately show ?thesis using collects_more [OF collects_collectCallees Cons.IH] by simp
    qed
  qed (simp add: collects_Nil)
  from this [of "map snd (fl_blocks symbols)" "{}"] show ?thesis unfolding keep_bodies_def stubs_def set_map .
qed

lemma keep_bodies_reachable: "keep_bodies m symbols mp = (calls m)\<^sup>* `` (stubs symbols mp \<inter> definitions m)"
proof -
  have k: "collects m (stubs symbols mp) {} (keep_bodies m symbols mp)" by (rule keep_bodies_collects)
  have "y \<in> keep_bodies m symbols mp" if "(x, y) \<in> (calls m)\<^sup>*" "x \<in> keep_bodies m symbols mp" for x y
    using that by (induction rule: rtrancl_induct) (use collectsD(4) [OF k] in auto)
  then show ?thesis using collectsD(2,3) [OF k] by blast
qed

section \<open>The snapshot\<close>

text \<open>\<open>getCalledFunction\<close> answers a function of the module.\<close>

definition direct_calls :: "em_module \<Rightarrow> bool" where
  "direct_calls m \<longleftrightarrow> (\<forall>f\<in>set (em_functions m). \<forall>b. ef_body f = Some b \<longrightarrow>
     (\<forall>u\<in>set b. fst u \<longrightarrow> snd u \<in> ef_name ` set (em_functions m)))"

definition direct_of :: "em_function \<Rightarrow> string list" where
  "direct_of f = (case ef_body f of None \<Rightarrow> [] | Some b \<Rightarrow> map snd (filter fst b))"

lemma direct_calls_names:
  assumes "direct_calls m" and "f \<in> set (em_functions m)" and "b \<in> set (direct_of f)"
  shows "b \<in> ef_name ` set (em_functions m)"
proof (cases "ef_body f")
  case (Some body)
  then obtain u where "u \<in> set body" "fst u" "b = snd u" using assms(3) by (auto simp: direct_of_def)
  then show ?thesis using assms(1,2) Some unfolding direct_calls_def by blast
qed (use assms(3) in \<open>simp add: direct_of_def\<close>)

lemma callees_of: "distinct (map ef_name (em_functions m)) \<Longrightarrow> f \<in> set (em_functions m) \<Longrightarrow> callees m (ef_name f) = direct_of f"
  using find_key [of ef_name "em_functions m" "ef_name f" f] by (simp add: callees_def direct_of_def)

lemma direct_of_undef: "set (direct_of f) \<inter> S = {} \<Longrightarrow> direct_of (undef_fn S f) = direct_of f"
  by (cases "ef_body f") (auto simp: direct_of_def undef_fn_def o_def intro!: arg_cong [where f = "map snd"] filter_cong)

lemma direct_refs: "set (direct_of f) \<subseteq> set (fn_refs f)"
  by (auto simp: direct_of_def fn_refs_def body_refs_def split: option.splits)

lemma distinct_names: "em_ok m \<Longrightarrow> distinct (map ef_name (em_functions m))"
  by (simp add: em_ok_def value_names_def)

definition strip_one :: "string set \<Rightarrow> string set \<Rightarrow> em_function \<Rightarrow> em_function" where
  "strip_one bodies decls f =
     (if \<not> ef_declaration f \<and> ef_name f \<notin> bodies \<and> ef_name f \<in> decls then deleteBody f else f)"

lemma strip_one_simps [simp]: "ef_name (strip_one B D f) = ef_name f"
  by (simp add: strip_one_def deleteBody_def)

lemma strip_one_refs: "set (fn_refs (strip_one B D f)) \<subseteq> set (fn_refs f)"
  by (auto simp: strip_one_def deleteBody_def fn_refs_def body_refs_def)

lemma strip_bodies_eq: "em_functions (strip_bodies B D m) = map (strip_one B D) (em_functions m)"
  by (simp add: strip_bodies_def strip_one_def)

lemma strip_bodies_refs: "refs (strip_bodies B D m) \<subseteq> refs m"
proof -
  have "em_globals (strip_bodies B D m) = em_globals m" "em_aliases (strip_bodies B D m) = em_aliases m"
    by (simp_all add: strip_bodies_def)
  then show ?thesis using strip_one_refs [of B D] by (fastforce simp: refs_def strip_bodies_eq)
qed

lemma strip_bodies_ok: "em_ok m \<Longrightarrow> em_ok (strip_bodies B D m)"
proof -
  have "value_names (strip_bodies B D m) = value_names m" by (simp add: value_names_def strip_bodies_def deleteBody_def o_def if_distrib cong: if_cong)
  then show "em_ok m \<Longrightarrow> ?thesis" using strip_bodies_refs [of B D m] by (auto simp: em_ok_def)
qed

lemma without_functions: "em_functions (without S m) = map (undef_fn S) (filter (\<lambda>f. ef_name f \<notin> S) (em_functions m))"
  by (simp add: without_def)

text \<open>The functions of the result.\<close>

lemma preCodegen_functions:
  assumes ok: "em_ok m" and tools: "set tool_globals \<inter> refs m = {}"
  shows "\<exists>M T. preCodegenModule B D m = Some M \<and> em_ok M \<and> em_aliases M = [] \<and> unused_globals M = [] \<and>
     em_functions M = map (\<lambda>f. undef_fn T (strip_one B D f)) (filter (\<lambda>f. ef_name f \<notin> set (functions_to_remove B D m)) (em_functions m)) \<and>
     T \<inter> ef_name ` set (em_functions m) \<subseteq> set (functions_to_remove B D m)"
proof -
  let ?m1 = "strip_bodies B D m" and ?R = "set (functions_to_remove B D m)"
  let ?m2 = "without ?R ?m1"
  have ok2: "em_ok ?m2" by (intro em_ok_without strip_bodies_ok ok)
  have t2: "set tool_globals \<inter> refs ?m2 = {}"
    using tools refs_without [of ?R ?m1] strip_bodies_refs [of B D m] by blast
  obtain S where S: "strip_module ?m2 = Some (drop_globals S (strip_base ?m2))" "em_ok (drop_globals S (strip_base ?m2))"
    "unused_globals (drop_globals S (strip_base ?m2)) = []"
    using strip_spec [OF ok2 t2] by blast
  have fns: "em_functions (strip_base ?m2) =
      map (\<lambda>f. undef_fn (stripped_names ?m2 \<union> ?R) (strip_one B D f)) (filter (\<lambda>f. ef_name f \<notin> ?R) (em_functions m))"
    unfolding strip_base_frame(1) [OF ok2] without_functions strip_bodies_eq by (simp add: undef_undef filter_map o_def)
  have "stripped_names ?m2 \<subseteq> ea_name ` set (em_aliases m) \<union> eg_name ` set (em_globals m)"
    by (auto simp: stripped_names_def rtti_globals_def without_def strip_bodies_def)
  moreover have "(ea_name ` set (em_aliases m) \<union> eg_name ` set (em_globals m)) \<inter> ef_name ` set (em_functions m) = {}"
    using ok by (auto simp: em_ok_def value_names_def)
  ultimately have T: "(stripped_names ?m2 \<union> ?R) \<inter> ef_name ` set (em_functions m) \<subseteq> ?R" by blast
  have "preCodegenModule B D m = Some (drop_globals S (strip_base ?m2))" by (simp add: preCodegenModule_def each_drop S(1))
  moreover have "em_aliases (drop_globals S (strip_base ?m2)) = []" by (simp add: strip_base_frame [OF ok2])
  ultimately show ?thesis using S(2,3) T fns by (intro exI [of _ "drop_globals S (strip_base ?m2)"] exI [of _ "stripped_names ?m2 \<union> ?R"]) simp
qed

lemma used_globals: "unused_globals m = [] \<Longrightarrow> g \<in> set (em_globals m) \<Longrightarrow> starts_with ''llvm.'' (eg_name g) \<or> eg_name g \<in> refs m"
  by (auto simp: unused_globals_def filter_empty_conv)

text \<open>The definitions that are left, with the calls they had, when those lead to functions that are left.\<close>

lemma preCodegen_calls:
  assumes ok: "em_ok m" and dc: "direct_calls m" and tools: "set tool_globals \<inter> refs m = {}"
    and closed: "\<forall>a\<in>B. \<forall>b. (a, b) \<in> calls m \<longrightarrow> b \<in> B" and defs: "B \<subseteq> definitions m"
  shows "\<exists>M. preCodegenModule B D m = Some M \<and> em_ok M \<and> em_aliases M = [] \<and> unused_globals M = [] \<and>
     definitions M = B \<and> (\<forall>n\<in>B. callees M n = callees m n) \<and>
     ef_name ` set (em_functions M) = B \<union> {n \<in> ef_name ` set (em_functions m). \<not> is_defined m n \<or> n \<in> D} \<and>
     (\<forall>f\<in>set (em_functions M). is_defined m (ef_name f) \<and> ef_name f \<in> D - B \<longrightarrow> ef_linkage f = ExternalLinkage)"
proof -
  let ?R = "set (functions_to_remove B D m)"
  obtain M T where M: "preCodegenModule B D m = Some M" "em_ok M" "em_aliases M = []" "unused_globals M = []"
    and fns: "em_functions M = map (\<lambda>f. undef_fn T (strip_one B D f)) (filter (\<lambda>f. ef_name f \<notin> ?R) (em_functions m))"
    and T: "T \<inter> ef_name ` set (em_functions m) \<subseteq> ?R"
    using preCodegen_functions [OF ok tools] by blast
  have dm: "distinct (map ef_name (em_functions m))" using ok by (rule distinct_names)
  have def: "is_defined m (ef_name f) \<longleftrightarrow> \<not> ef_declaration f" if "f \<in> set (em_functions m)" for f
    using that dm by (auto simp: is_defined_def distinct_map inj_on_def)
  have R: "ef_name f \<in> ?R \<longleftrightarrow> \<not> ef_declaration f \<and> ef_name f \<notin> B \<and> ef_name f \<notin> D" if "f \<in> set (em_functions m)" for f
  proof -
    have "ef_name f \<in> ?R \<longleftrightarrow> (\<exists>g\<in>set (em_functions m). ef_name g = ef_name f \<and> \<not> ef_declaration g \<and> ef_name g \<notin> B \<and> ef_name g \<notin> D)"
      by (auto simp: functions_to_remove_def image_iff)
    also have "\<dots> \<longleftrightarrow> \<not> ef_declaration f \<and> ef_name f \<notin> B \<and> ef_name f \<notin> D"
      using that inj_onD [of ef_name "set (em_functions m)"] dm by (auto simp: distinct_map)
    finally show ?thesis .
  qed
  have decl: "ef_declaration (undef_fn T (strip_one B D f)) \<longleftrightarrow> ef_declaration f \<or> ef_name f \<notin> B \<and> ef_name f \<in> D" for f
    by (auto simp: undef_fn_def strip_one_def deleteBody_def ef_declaration_def)
  have defM: "definitions M = B"
  proof (rule set_eqI)
    fix n
    have "n \<in> definitions M \<longleftrightarrow> (\<exists>f\<in>set (em_functions m). ef_name f = n \<and> ef_name f \<notin> ?R \<and> \<not> (ef_declaration f \<or> ef_name f \<notin> B \<and> ef_name f \<in> D))"
      by (auto simp: definitions_def is_defined_def fns decl)
    also have "\<dots> \<longleftrightarrow> (\<exists>f\<in>set (em_functions m). ef_name f = n \<and> \<not> ef_declaration f \<and> ef_name f \<in> B)" using R by blast
    also have "\<dots> \<longleftrightarrow> n \<in> B" using defs by (auto simp: definitions_def is_defined_def)
    finally show "n \<in> definitions M \<longleftrightarrow> n \<in> B" .
  qed
  have cal: "callees M n = callees m n" if n: "n \<in> B" for n
  proof -
    obtain f where f: "f \<in> set (em_functions m)" "ef_name f = n" "\<not> ef_declaration f"
      using n defs by (auto simp: definitions_def is_defined_def)
    have "b \<notin> T" if b: "b \<in> set (direct_of f)" for b
    proof
      assume "b \<in> T"
      have "b \<in> ef_name ` set (em_functions m)"
        using direct_calls_names [OF dc f(1) b] .
      then obtain g where g: "g \<in> set (em_functions m)" "ef_name g = b" "b \<in> ?R" using \<open>b \<in> T\<close> T by auto
      then have "(n, b) \<in> calls m"
        using f b callees_of [OF dm f(1)] R [OF g(1)] def [OF g(1)] def [OF f(1)] by (simp add: calls_def)
      then show False using closed n g R [OF g(1)] by blast
    qed
    then have d: "direct_of (undef_fn T f) = direct_of f" by (intro direct_of_undef) blast
    have "strip_one B D f = f" using n f(2) by (simp add: strip_one_def)
    moreover have "ef_name f \<notin> ?R" using R [OF f(1)] n f(2) by simp
    ultimately have "undef_fn T f \<in> set (em_functions M)" using f(1) unfolding fns by force
    from callees_of [OF distinct_names [OF M(2)] this] show ?thesis
      using callees_of [OF dm f(1)] f(2) d by simp
  qed
  have names: "ef_name ` set (em_functions M) = B \<union> {n \<in> ef_name ` set (em_functions m). \<not> is_defined m n \<or> n \<in> D}"
  proof (rule set_eqI)
    fix n
    have "n \<in> ef_name ` set (em_functions M) \<longleftrightarrow> (\<exists>f\<in>set (em_functions m). ef_name f = n \<and> ef_name f \<notin> ?R)"
      by (auto simp: fns image_iff)
    also have "\<dots> \<longleftrightarrow> (\<exists>f\<in>set (em_functions m). ef_name f = n \<and> (\<not> is_defined m n \<or> n \<in> B \<or> n \<in> D))" using R def by blast
    also have "\<dots> \<longleftrightarrow> n \<in> B \<union> {n \<in> ef_name ` set (em_functions m). \<not> is_defined m n \<or> n \<in> D}"
      using defs by (auto simp: definitions_def is_defined_def)
    finally show "n \<in> ef_name ` set (em_functions M) \<longleftrightarrow> n \<in> B \<union> {n \<in> ef_name ` set (em_functions m). \<not> is_defined m n \<or> n \<in> D}" .
  qed
  have ext: "\<forall>f\<in>set (em_functions M). is_defined m (ef_name f) \<and> ef_name f \<in> D - B \<longrightarrow> ef_linkage f = ExternalLinkage"
    by (auto simp: fns def undef_fn_def strip_one_def deleteBody_def)
  show ?thesis using M defM cal names ext by (intro exI [of _ M]) simp
qed

text \<open>
  C30. The snapshot for the JIT: the module that is written has exactly the pipeline stubs and the functions
  they reach as definitions, with the calls they had; the stages of the pipelines are in it as functions;
  it has no reference to a value that was removed, no alias, and no global that nothing refers to.
\<close>

theorem snapshot_is_call_closure:
  assumes "em_ok m" and "direct_calls m" and "set tool_globals \<inter> refs m = {}"
    and "stubs symbols mp \<inter> definitions m \<noteq> {} \<or> keep_declarations symbols mp \<noteq> []"
  shows "\<exists>M. serializePreCodegenIR ev m symbols mp = Some (ev_writeBitcode ev M) \<and> em_ok M \<and>
     definitions M = (calls m)\<^sup>* `` (stubs symbols mp \<inter> definitions m) \<and>
     (\<forall>n\<in>definitions M. callees M n = callees m n) \<and>
     set (keep_declarations symbols mp) \<inter> ef_name ` set (em_functions m) \<subseteq> ef_name ` set (em_functions M) \<and>
     (\<forall>g\<in>set (em_globals M). starts_with ''llvm.'' (eg_name g) \<or> eg_name g \<in> refs M) \<and> em_aliases M = []"
proof -
  let ?B = "keep_bodies m symbols mp" and ?D = "set (keep_declarations symbols mp)"
  have B: "?B = (calls m)\<^sup>* `` (stubs symbols mp \<inter> definitions m)" by (rule keep_bodies_reachable)
  have closed: "\<forall>a\<in>?B. \<forall>b. (a, b) \<in> calls m \<longrightarrow> b \<in> ?B"
    unfolding B by (auto intro: rtrancl_into_rtrancl)
  have "y \<in> definitions m" if "(x, y) \<in> (calls m)\<^sup>*" "x \<in> definitions m" for x y
    using that by (induction rule: rtrancl_induct) (auto simp: calls_def definitions_def)
  then have "?B \<subseteq> definitions m" unfolding B by auto
  from preCodegen_calls [where D = ?D, OF assms(1-3) closed this]
  obtain M where M: "preCodegenModule ?B ?D m = Some M" "em_ok M" "em_aliases M = []" "unused_globals M = []"
    "definitions M = ?B" "\<forall>n\<in>?B. callees M n = callees m n"
    "ef_name ` set (em_functions M) = ?B \<union> {n \<in> ef_name ` set (em_functions m). \<not> is_defined m n \<or> n \<in> ?D}" by blast
  have "\<not> (?B = {} \<and> ?D = {})" using assms(4) unfolding B by auto
  then have "serializePreCodegenIR ev m symbols mp = Some (ev_writeBitcode ev M)"
    using M(1) by (auto simp: serializePreCodegenIR_def Let_def)
  then show ?thesis using M B used_globals [OF M(4)] by (intro exI [of _ M]) auto
qed

definition embed_example_env :: embed_env where
  "embed_example_env = \<lparr>ev_writeBitcode = (\<lambda>m. concat (map (\<lambda>f. map of_char (ef_name f) @ [0]) (em_functions m))),
     ev_dump = (\<lambda>_. ''{}''), ev_isEnabled = (\<lambda>c. pl_mode c \<noteq> Off), ev_isAbstractName = (\<lambda>n. n = ''List''),
     ev_uniq = (\<lambda>_ n. n @ ''.1'')\<rparr>"

definition embed_example_function :: "string \<Rightarrow> (bool \<times> string) list option \<Rightarrow> em_function" where
  "embed_example_function n b = \<lparr>ef_name = n, ef_body = b, ef_linkage = InternalLinkage, ef_personality = None, ef_uwtable = True,
     ef_comdat = False\<rparr>"

definition embed_example_module :: em_module where
  "embed_example_module = \<lparr>em_triple = ''x86_64-linux'',
     em_functions = [embed_example_function ''_Z4flow'' (Some [(True, ''_Z11placeholder'')]), embed_example_function ''_Z11placeholder'' None,
       embed_example_function ''_Z5stage'' (Some [(False, ''.str'')]), embed_example_function ''main'' (Some [(True, ''_Z4flow'')])],
     em_globals = [new_global ''.str'' [], new_global ''llvm.used'' [''main'']], em_aliases = []\<rparr>"

definition embed_example_flow :: FlowSymbols where
  "embed_example_flow = \<lparr>fl_blocks = [(''flow'', \<lparr>fb_qualifiedName = ''app::flow'', fb_simpleName = ''flow'', fb_isPipeline = True,
       fb_calledFunctions = [''app::stage''], fb_stages = [0], fb_edges = [],
       fb_analysis = Some \<lparr>an_stages = [(''stage'', 0)], an_sourceNodes = [''stage''], an_terminalNode = ''stage'',
         an_terminalType = ''int'', an_demand = []\<rparr>\<rparr>)], fl_functions = [], fl_adapts = []\<rparr>"

definition embed_example_mapping :: em_mapping where
  "embed_example_mapping = [(''app::flow'', Some ''_Z4flow''), (''app::stage'', Some ''_Z5stage'')]"

lemma snapshot_is_call_closure_witness:
  "\<exists>M. serializePreCodegenIR embed_example_env embed_example_module embed_example_flow embed_example_mapping = Some (ev_writeBitcode embed_example_env M) \<and>
     em_ok M \<and> ''_Z5stage'' \<in> ef_name ` set (em_functions M)"
proof -
  have "em_ok embed_example_module" "direct_calls embed_example_module" "set tool_globals \<inter> refs embed_example_module = {}"
    by (simp_all add: em_ok_def embed_example_module_def embed_example_function_def value_names_def refs_def fn_refs_def body_refs_def
        new_global_def alias_refs_def direct_calls_def tool_globals_def)
  moreover have "keep_declarations embed_example_flow embed_example_mapping = [''_Z5stage'']"
    by (simp add: keep_declarations_def embed_example_flow_def embed_example_mapping_def mapped_def List.map_filter_def)
  ultimately show ?thesis
    using snapshot_is_call_closure [of embed_example_module embed_example_flow embed_example_mapping embed_example_env]
    by (auto simp: embed_example_module_def embed_example_function_def)
qed

end
