(* ===== verification/JitEngine.thy ===== *)
theory JitEngine
  imports IrEmbed
begin

text \<open>
  lib/JitEngine/topo_jit_engine.cpp: reading the embedded sections, the metadata and the context,
  rebuilding the declarations of the pipelines, and preparing the module that is compiled. An exception
  thrown through the C interface ends the process, \<open>None\<close>. The JSON parser, the bitcode reader, the
  demangler, the two passes, and ORC are parameters.
\<close>

record jit_state =
  js_initialized :: bool
  js_jit :: bool
  js_counter :: u32
  js_dylibs :: "string list"

record jit_env =
  je_createJIT :: bool
  je_parse :: "string \<Rightarrow> json option"
  je_readBitcode :: "u8 list \<Rightarrow> em_module option"
  je_printModule :: "em_module \<Rightarrow> string"
  je_demangle :: "string \<Rightarrow> string"
  je_defaultParallel :: ParallelConfig
  je_isEnabled :: "ParallelConfig \<Rightarrow> bool"
  je_pipelineCodeGen :: "FlowSymbols \<Rightarrow> em_mapping \<Rightarrow> em_module \<Rightarrow> em_module"
  je_topoParallel :: "FlowSymbols \<Rightarrow> em_mapping \<Rightarrow> ParallelConfig \<Rightarrow> em_module \<Rightarrow> em_module"
  je_uniq :: "string set \<Rightarrow> string \<Rightarrow> string"
  je_compile :: "string \<Rightarrow> em_module \<Rightarrow> u64 option"

section \<open>Sections\<close>

text \<open>The image of the running program: the name and the contents of its sections.\<close>

datatype platform = Windows | Apple | Elf

definition section_matches :: "platform \<Rightarrow> string \<Rightarrow> string \<times> u8 list \<Rightarrow> bool" where
  "section_matches pf s p \<longleftrightarrow>
     (case pf of
        Windows \<Rightarrow> (let name = takeWhile (\<lambda>c. c \<noteq> CHR 0x00) (take 8 (fst p)) in name = s \<or> name = s @ ''$'')
      | Apple \<Rightarrow> fst p = ''__DATA,'' @ (if s ! 0 = CHR ''.'' then ''__'' @ substr_from s 1 else ''__'' @ s) \<and> snd p \<noteq> []
      | Elf \<Rightarrow> fst p = s \<and> snd p \<noteq> [])"

definition readSection :: "platform \<Rightarrow> (string \<times> u8 list) list \<Rightarrow> string \<Rightarrow> u8 list" where
  "readSection pf secs sectionName =
     (case find (section_matches pf sectionName) secs of None \<Rightarrow> [] | Some p \<Rightarrow> snd p)"

section \<open>Reading JSON values\<close>

text \<open>\<open>j.contains(k)\<close>, \<open>j.value(k, default)\<close>, \<open>j.get<T>()\<close>; the last two throw on another type.\<close>

definition json_contains :: "string \<Rightarrow> json \<Rightarrow> bool" where
  "json_contains k j = (case j of JObject ps \<Rightarrow> map_of ps k \<noteq> None | _ \<Rightarrow> False)"

definition value_json :: "string \<Rightarrow> json \<Rightarrow> json \<Rightarrow> json option" where
  "value_json k dflt j = (case j of JObject ps \<Rightarrow> Some (case map_of ps k of None \<Rightarrow> dflt | Some v \<Rightarrow> v) | _ \<Rightarrow> None)"

fun get_string :: "json \<Rightarrow> string option" where
  "get_string (JString s) = Some s"
| "get_string _ = None"

fun get_bool :: "json \<Rightarrow> bool option" where
  "get_bool (JBool b) = Some b"
| "get_bool _ = None"

definition to_int32 :: "int \<Rightarrow> int" where
  "to_int32 i = sint (word_of_int i :: u32)"

fun get_int :: "json \<Rightarrow> int option" where
  "get_int (JInt i) = Some (to_int32 i)"
| "get_int (JUnsigned u) = Some (to_int32 (uint u))"
| "get_int (JBool b) = Some (if b then 1 else 0)"
| "get_int (JDouble d) = Some (to_int64 d)"
| "get_int _ = None"

definition value_string :: "string \<Rightarrow> json \<Rightarrow> string option" where
  "value_string k j = Option.bind (value_json k (JString []) j) get_string"

definition value_bool :: "string \<Rightarrow> bool \<Rightarrow> json \<Rightarrow> bool option" where
  "value_bool k dflt j = Option.bind (value_json k (JBool dflt) j) get_bool"

text \<open>\<open>for (const auto& e : j)\<close> and \<open>j.items()\<close>.\<close>

fun elements :: "json \<Rightarrow> json list" where
  "elements (JArray xs) = xs"
| "elements (JObject ps) = map snd ps"
| "elements JNull = []"
| "elements j = [j]"

fun items :: "json \<Rightarrow> (string \<times> json) list" where
  "items (JObject ps) = ps"
| "items (JArray xs) = zip (map show_nat [0..<length xs]) xs"
| "items JNull = []"
| "items j = [([], j)]"

text \<open>\<open>j[k]\<close> on a value that can be changed: a missing key is inserted with a null.\<close>

definition json_index :: "string \<Rightarrow> json \<Rightarrow> (json \<times> json) option" where
  "json_index k j =
     (case j of
        JObject ps \<Rightarrow> Some (case map_of ps k of Some v \<Rightarrow> (v, j) | None \<Rightarrow> (JNull, JObject (map_set k JNull ps)))
      | JNull \<Rightarrow> Some (JNull, JObject [(k, JNull)])
      | _ \<Rightarrow> None)"

fun all_of :: "('a \<Rightarrow> 'b option) \<Rightarrow> 'a list \<Rightarrow> 'b list option" where
  "all_of f [] = Some []"
| "all_of f (x # xs) = do { y \<leftarrow> f x; ys \<leftarrow> all_of f xs; Some (y # ys) }"

definition string_set :: "string list \<Rightarrow> string list" where
  "string_set xs = sorted_list_of_set (set xs)"

section \<open>Metadata\<close>

record PipelineMeta =
  mt_name :: string
  mt_stages :: json
  mt_edges :: json
  mt_demand :: json
  mt_sourceNodes :: "string list"
  mt_terminalNode :: string
  mt_terminalType :: string
  mt_calledFunctions :: "string list"

definition strings_at :: "string \<Rightarrow> json \<Rightarrow> string list option" where
  "strings_at k p = (if json_contains k p then Option.bind (value_json k JNull p) (\<lambda>v. all_of get_string (elements v)) else Some [])"

definition parse_pipeline :: "json \<Rightarrow> PipelineMeta option" where
  "parse_pipeline p =
     do { name \<leftarrow> value_string ''name'' p;
          stages \<leftarrow> value_json ''stages'' (JObject []) p;
          edges \<leftarrow> value_json ''edges'' (JArray []) p;
          demand \<leftarrow> value_json ''demand'' (JObject []) p;
          terminalNode \<leftarrow> value_string ''terminalNode'' p;
          terminalType \<leftarrow> value_string ''terminalType'' p;
          sources \<leftarrow> strings_at ''sourceNodes'' p;
          called \<leftarrow> strings_at ''calledFunctions'' p;
          Some \<lparr>mt_name = name, mt_stages = stages, mt_edges = edges, mt_demand = demand, mt_sourceNodes = sources,
                mt_terminalNode = terminalNode, mt_terminalType = terminalType, mt_calledFunctions = called\<rparr> }"

text \<open>
  The result: whether the text is JSON, the pipelines and the configuration. The constant access
  \<open>doc["pipelines"]\<close> is made after \<open>contains\<close>.
\<close>

definition parseMetadata :: "jit_env \<Rightarrow> string \<Rightarrow> (bool \<times> PipelineMeta list \<times> json) option" where
  "parseMetadata env text =
     (case je_parse env text of
        None \<Rightarrow> Some (False, [], JNull)
      | Some doc \<Rightarrow>
          do { cfg \<leftarrow> (if json_contains ''parallel'' doc then value_json ''parallel'' JNull doc else Some JNull);
               pipelines \<leftarrow> (if json_contains ''pipelines'' doc
                 then Option.bind (value_json ''pipelines'' JNull doc) (\<lambda>ps. all_of parse_pipeline (elements ps)) else Some []);
               Some (True, pipelines, cfg) })"

record ContextData =
  cx_prunedEdges :: "(string \<times> string) list"
  cx_narrowedReturns :: "(string \<times> string list) list"

definition parse_pruned :: "json \<Rightarrow> (string \<times> string) option" where
  "parse_pruned e = do { src \<leftarrow> value_string ''source'' e; tgt \<leftarrow> value_string ''target'' e; Some (src, tgt) }"

definition parse_narrowed :: "json \<Rightarrow> (string \<times> string list) option" where
  "parse_narrowed nr = do { func \<leftarrow> value_string ''func'' nr; flds \<leftarrow> strings_at ''fields'' nr; Some (func, flds) }"

definition array_at :: "string \<Rightarrow> (json \<Rightarrow> 'a option) \<Rightarrow> json \<Rightarrow> 'a list option" where
  "array_at k f doc =
     (if json_contains k doc then Option.bind (value_json k JNull doc) (\<lambda>v. all_of f (elements v)) else Some [])"

definition deserializeContext :: "jit_env \<Rightarrow> string \<Rightarrow> ContextData option" where
  "deserializeContext env text =
     (case je_parse env text of
        None \<Rightarrow> Some \<lparr>cx_prunedEdges = [], cx_narrowedReturns = []\<rparr>
      | Some doc \<Rightarrow>
          do { pruned \<leftarrow> array_at ''prunedEdges'' parse_pruned doc;
               narrowed \<leftarrow> array_at ''narrowedReturns'' parse_narrowed doc;
               Some \<lparr>cx_prunedEdges = pruned, cx_narrowedReturns = narrowed\<rparr> })"

definition deserializeCosts :: "jit_env \<Rightarrow> string \<Rightarrow> (string \<times> u64) list" where
  "deserializeCosts env text =
     (case je_parse env text of
        None \<Rightarrow> []
      | Some doc \<Rightarrow> fold (\<lambda>(k, v) costs. case v of JUnsigned u \<Rightarrow> AList.update k u costs | _ \<Rightarrow> costs) (items doc) [])"

section \<open>Constraints\<close>

definition match_end :: "string \<Rightarrow> string \<Rightarrow> json \<Rightarrow> (bool \<times> json) option" where
  "match_end pat k e =
     (if pat = ''*'' then Some (True, e) else map_option (\<lambda>(v, e). (v = JString pat, e)) (json_index k e))"

definition match_edge :: "string \<times> string \<Rightarrow> json \<Rightarrow> (bool \<times> json) option" where
  "match_edge pruned e =
     do { (s, e) \<leftarrow> match_end (fst pruned) ''source'' e;
          (t, e) \<leftarrow> match_end (snd pruned) ''target'' e;
          Some (s \<and> t, e) }"

fun prune_list :: "string \<times> string \<Rightarrow> json list \<Rightarrow> json list option" where
  "prune_list pruned [] = Some []"
| "prune_list pruned (e # es) =
     do { (hit, e) \<leftarrow> match_edge pruned e; es \<leftarrow> prune_list pruned es; Some (if hit then es else e # es) }"

fun prune_fields :: "string \<times> string \<Rightarrow> (string \<times> json) list \<Rightarrow> (string \<times> json) list option" where
  "prune_fields pruned [] = Some []"
| "prune_fields pruned ((k, e) # es) =
     do { (hit, e) \<leftarrow> match_edge pruned e; es \<leftarrow> prune_fields pruned es; Some (if hit then es else (k, e) # es) }"

fun prune_edges :: "string \<times> string \<Rightarrow> json \<Rightarrow> json option" where
  "prune_edges pruned (JArray es) = map_option JArray (prune_list pruned es)"
| "prune_edges pruned (JObject es) = map_option JObject (prune_fields pruned es)"
| "prune_edges pruned JNull = Some JNull"
| "prune_edges pruned j = map_option (\<lambda>(hit, j). if hit then JNull else j) (match_edge pruned j)"

definition narrow_demand :: "string \<times> string list \<Rightarrow> json \<Rightarrow> json" where
  "narrow_demand nr demand =
     (case demand of
        JObject ps \<Rightarrow> if map_of ps (fst nr) = None then demand else JObject (map_set (fst nr) (strings_json (snd nr)) ps)
      | _ \<Rightarrow> demand)"

fun prune_all :: "(string \<times> string) list \<Rightarrow> json \<Rightarrow> json option" where
  "prune_all [] edges = Some edges"
| "prune_all (p # ps) edges = Option.bind (prune_edges p edges) (prune_all ps)"

definition constrain :: "ContextData \<Rightarrow> PipelineMeta \<Rightarrow> PipelineMeta option" where
  "constrain ctx meta =
     map_option (\<lambda>edges. meta\<lparr>mt_edges := edges, mt_demand := fold narrow_demand (cx_narrowedReturns ctx) (mt_demand meta)\<rparr>)
       (prune_all (cx_prunedEdges ctx) (mt_edges meta))"

definition applyConstraints :: "PipelineMeta list \<Rightarrow> ContextData \<Rightarrow> PipelineMeta list option" where
  "applyConstraints pipelines ctx = all_of (constrain ctx) pipelines"

section \<open>The symbols of the pipelines\<close>

text \<open>The worklist is a stack; the loop over the edges pushes what is new.\<close>

definition visit_edge :: "string \<Rightarrow> FlowEdge \<Rightarrow> string set \<times> string list \<Rightarrow> string set \<times> string list" where
  "visit_edge cur e st =
     (case st of (reachable, worklist) \<Rightarrow>
        if fe_source e = cur \<and> fe_target e \<notin> reachable
        then (insert (fe_target e) reachable, fe_target e # worklist) else (reachable, worklist))"

partial_function (option) reach_loop :: "FlowEdge list \<Rightarrow> string set \<Rightarrow> string list \<Rightarrow> string set option" where
  "reach_loop edges reachable worklist =
     (case worklist of
        [] \<Rightarrow> Some reachable
      | cur # rest \<Rightarrow> (case fold (visit_edge cur) edges (reachable, rest) of (r, w) \<Rightarrow> reach_loop edges r w))"

definition read_edge :: "json \<Rightarrow> FlowEdge option" where
  "read_edge e = do { src \<leftarrow> value_string ''source'' e; tgt \<leftarrow> value_string ''target'' e; Some \<lparr>fe_source = src, fe_target = tgt\<rparr> }"

definition read_stage :: "string \<times> json \<Rightarrow> (string \<times> int) option" where
  "read_stage p = map_option (Pair (fst p)) (get_int (snd p))"

definition read_demand :: "string \<times> json \<Rightarrow> (string \<times> string list) option" where
  "read_demand p = map_option (\<lambda>fs. (fst p, string_set fs)) (all_of get_string (elements (snd p)))"

definition table_of :: "(string \<times> 'a) list \<Rightarrow> (string \<times> 'a) list" where
  "table_of ps = fold (\<lambda>(k, v). AList.update k v) ps []"

definition synthetic_block :: "PipelineMeta \<Rightarrow> FlowBlock option" where
  "synthetic_block meta =
     do { edges \<leftarrow> all_of read_edge (elements (mt_edges meta));
          stages \<leftarrow> all_of read_stage (items (mt_stages meta));
          demand \<leftarrow> all_of read_demand (items (mt_demand meta));
          reachable \<leftarrow> reach_loop edges (set (mt_sourceNodes meta)) (rev (mt_sourceNodes meta));
          Some \<lparr>fb_qualifiedName = mt_name meta, fb_simpleName = simple_name (mt_name meta), fb_isPipeline = True,
                fb_calledFunctions = mt_calledFunctions meta, fb_stages = [], fb_edges = edges,
                fb_analysis = Some \<lparr>an_stages = filter (\<lambda>p. fst p \<in> reachable) (table_of stages),
                  an_sourceNodes = mt_sourceNodes meta, an_terminalNode = mt_terminalNode meta,
                  an_terminalType = mt_terminalType meta, an_demand = table_of demand\<rparr>\<rparr> }"

definition synthetic_symbols :: "PipelineMeta list \<Rightarrow> FlowSymbols option" where
  "synthetic_symbols pipelines =
     map_option (\<lambda>lbs. \<lparr>fl_blocks = table_of (map (\<lambda>lb. (fb_qualifiedName lb, lb)) lbs), fl_functions = [], fl_adapts = []\<rparr>)
       (all_of synthetic_block pipelines)"

definition json_empty :: "json \<Rightarrow> bool" where
  "json_empty j = (case j of JNull \<Rightarrow> True | JArray xs \<Rightarrow> xs = [] | JObject ps \<Rightarrow> ps = [] | _ \<Rightarrow> False)"

definition read_parallel :: "jit_env \<Rightarrow> json \<Rightarrow> ParallelConfig option" where
  "read_parallel env j =
     (if json_empty j then Some (je_defaultParallel env)
      else
        do { en \<leftarrow> value_bool ''enabled'' True j;
             instr \<leftarrow> value_bool ''instrument'' True j;
             ex \<leftarrow> strings_at ''exclude'' j;
             Some ((je_defaultParallel env)\<lparr>pl_mode := (if en then Auto else Off), pl_instrument := instr,
               pl_exclude := pl_exclude (je_defaultParallel env) @ ex\<rparr>) })"

section \<open>Specialisation\<close>

definition isalpha_or_underscore :: "char \<Rightarrow> bool" where
  "isalpha_or_underscore c =
     (let code = (of_char c :: nat) in 65 \<le> code \<and> code \<le> 90 \<or> code = 95 \<or> 97 \<le> code \<and> code \<le> 122)"

definition rstrip_spaces :: "string \<Rightarrow> string" where
  "rstrip_spaces s = rev (dropWhile (\<lambda>c. c = CHR '' '') (rev s))"

definition demangleQualified :: "jit_env \<Rightarrow> string \<Rightarrow> string" where
  "demangleQualified env mangled =
     (let dem = je_demangle env mangled
      in if dem = mangled then []
         else
           (let d = rstrip_spaces (takeWhile (\<lambda>c. c \<noteq> CHR ''('') dem)
            in case str_rfind '' '' d of
                 None \<Rightarrow> d
               | Some i \<Rightarrow>
                   (let candidate = substr_from d (i + 1)
                    in if candidate \<noteq> [] \<and> isalpha_or_underscore (candidate ! 0) then candidate else d)))"

definition ensureJIT :: "jit_env \<Rightarrow> jit_state \<Rightarrow> bool \<times> jit_state" where
  "ensureJIT env s =
     (if js_initialized s then (js_jit s, s)
      else (je_createJIT env, s\<lparr>js_initialized := True, js_jit := je_createJIT env\<rparr>))"

definition find_pipeline :: "jit_env \<Rightarrow> string \<Rightarrow> em_module \<Rightarrow> string" where
  "find_pipeline env pipelineName m =
     (case find (\<lambda>f. \<not> ef_declaration f \<and> demangleQualified env (ef_name f) = pipelineName) (em_functions m) of
        None \<Rightarrow> [] | Some f \<Rightarrow> ef_name f)"

definition jit_mapping :: "jit_env \<Rightarrow> em_module \<Rightarrow> em_mapping" where
  "jit_mapping env m = fold (\<lambda>f mp.
     let demangled = demangleQualified env (ef_name f) in if demangled = [] then mp else AList.update demangled (Some (ef_name f)) mp)
     (em_functions m) []"

text \<open>\<open>func.setName(name)\<close>: the references follow; a name that is taken gets a fresh variant.\<close>

definition rename_value :: "string \<Rightarrow> string \<Rightarrow> string \<Rightarrow> string" where
  "rename_value old new n = (if n = old then new else n)"

definition rename_in_module :: "string \<Rightarrow> string \<Rightarrow> em_module \<Rightarrow> em_module" where
  "rename_in_module old new m =
     (let r = rename_value old new
      in m\<lparr>em_functions := map (\<lambda>f. f\<lparr>ef_name := r (ef_name f), ef_body := map_option (map (\<lambda>u. (fst u, r (snd u)))) (ef_body f),
               ef_personality := map_option r (ef_personality f)\<rparr>) (em_functions m),
             em_globals := map (\<lambda>g. g\<lparr>eg_init := map r (eg_init g)\<rparr>) (em_globals m),
             em_aliases := map (\<lambda>a. a\<lparr>ea_aliasee := map_option r (ea_aliasee a)\<rparr>) (em_aliases m)\<rparr>)"

definition em_setName :: "jit_env \<Rightarrow> string \<Rightarrow> string \<Rightarrow> em_module \<Rightarrow> em_module" where
  "em_setName env old new m =
     (if old \<in> set (map ef_name (em_functions m))
      then (let others = set (value_names m) - {old}
            in rename_in_module old (if new \<in> others then je_uniq env others new else new) m)
      else m)"

definition only_body :: "string \<Rightarrow> em_function \<Rightarrow> em_function" where
  "only_body jitName f = (if ef_declaration f \<or> ef_name f = jitName then f else deleteBody f)"

definition clear_function :: "em_function \<Rightarrow> em_function" where
  "clear_function f = f\<lparr>ef_personality := None, ef_uwtable := False, ef_comdat := False\<rparr>"

definition prepare_module :: "jit_env \<Rightarrow> string \<Rightarrow> string \<Rightarrow> em_module \<Rightarrow> em_module option" where
  "prepare_module env mangledName jitName m =
     (let m = em_setName env mangledName jitName m;
          m = m\<lparr>em_functions := map (\<lambda>f. clear_function (only_body jitName f)) (em_functions m),
                em_globals := map (\<lambda>g. g\<lparr>eg_comdat := False\<rparr>) (em_globals m)\<rparr>
      in strip_module m)"

definition jit_symbol_name :: "string \<Rightarrow> u32 \<Rightarrow> string" where
  "jit_symbol_name mangledName c = mangledName @ ''.jit.'' @ show_int (sint (c + 1))"

text \<open>The module after the two passes.\<close>

definition transform_module :: "jit_env \<Rightarrow> PipelineMeta list \<Rightarrow> json \<Rightarrow> em_module \<Rightarrow> em_module option" where
  "transform_module env pipelines cfg m =
     do { symbols \<leftarrow> synthetic_symbols pipelines;
          par \<leftarrow> read_parallel env cfg;
          let mp = jit_mapping env m in
          let m = je_pipelineCodeGen env symbols mp m in
          Some (if je_isEnabled env par then je_topoParallel env symbols mp par m else m) }"

text \<open>Under the lock: the library is created, which fails when there is one of that name, and compiled.\<close>

definition compile_module :: "jit_env \<Rightarrow> string \<Rightarrow> em_module \<Rightarrow> jit_state \<Rightarrow> u64 option \<times> jit_state" where
  "compile_module env jitName m s =
     (if jitName \<in> set (js_dylibs s) then (None, s)
      else (je_compile env jitName m, s\<lparr>js_dylibs := js_dylibs s @ [jitName]\<rparr>))"

definition read_pipelines :: "jit_env \<Rightarrow> u8 list \<Rightarrow> ContextData \<Rightarrow> (PipelineMeta list \<times> json) option" where
  "read_pipelines env metaData ctx =
     do { (pipelines, cfg) \<leftarrow> (if metaData = [] then Some ([], JNull)
            else map_option snd (parseMetadata env (map (\<lambda>b. char_of (unat b)) metaData)));
          pipelines \<leftarrow> applyConstraints pipelines ctx;
          Some (pipelines, cfg) }"

definition doSpecializeImpl :: "jit_env \<Rightarrow> string \<Rightarrow> ContextData \<Rightarrow> u8 list \<Rightarrow> u8 list \<Rightarrow> jit_state \<Rightarrow> (u64 option \<times> jit_state) option" where
  "doSpecializeImpl env pipelineName ctx irData metaData s =
     (case ensureJIT env s of (ok, s) \<Rightarrow>
        if \<not> ok \<or> irData = [] then Some (None, s)
        else (case read_pipelines env metaData ctx of
          None \<Rightarrow> None
        | Some (pipelines, cfg) \<Rightarrow>
            (case je_readBitcode env irData of
               None \<Rightarrow> Some (None, s)
             | Some parsed \<Rightarrow>
                 (let mangledName = find_pipeline env pipelineName parsed
                  in if mangledName = [] then Some (None, s)
                     else
                       do { m \<leftarrow> transform_module env pipelines cfg parsed;
                            let jitName = jit_symbol_name mangledName (js_counter s) in
                            let s = s\<lparr>js_counter := js_counter s + 1\<rparr> in
                            do { m \<leftarrow> prepare_module env mangledName jitName m;
                                 Some (compile_module env jitName m s) } }))))"

section \<open>The C interface\<close>

definition topo_jit_engine_available :: "jit_env \<Rightarrow> jit_state \<Rightarrow> int \<times> jit_state" where
  "topo_jit_engine_available env s = (case ensureJIT env s of (ok, s) \<Rightarrow> (if ok then 1 else 0, s))"

definition topo_jit_engine_specialize_bytes ::
  "jit_env \<Rightarrow> string option \<Rightarrow> u8 list \<Rightarrow> u8 list \<Rightarrow> string \<Rightarrow> jit_state \<Rightarrow> (u64 option \<times> jit_state) option" where
  "topo_jit_engine_specialize_bytes env name irData metaJson ctxJson s =
     do { ctx \<leftarrow> deserializeContext env ctxJson;
          doSpecializeImpl env (case name of None \<Rightarrow> [] | Some n \<Rightarrow> n) ctx irData metaJson s }"

definition topo_jit_engine_specialize ::
  "jit_env \<Rightarrow> platform \<Rightarrow> (string \<times> u8 list) list \<Rightarrow> string \<Rightarrow> string \<Rightarrow> jit_state \<Rightarrow> (u64 option \<times> jit_state) option" where
  "topo_jit_engine_specialize env pf secs name ctxJson s =
     do { ctx \<leftarrow> deserializeContext env ctxJson;
          doSpecializeImpl env name ctx (readSection pf secs ''.topo_ir'') (readSection pf secs ''.tp_meta'') s }"

definition dumpIRBytes :: "jit_env \<Rightarrow> u8 list \<Rightarrow> string option" where
  "dumpIRBytes env irData =
     (if irData = [] then None else map_option (je_printModule env) (je_readBitcode env irData))"

definition topo_jit_engine_dump_ir :: "jit_env \<Rightarrow> platform \<Rightarrow> (string \<times> u8 list) list \<Rightarrow> string option" where
  "topo_jit_engine_dump_ir env pf secs = dumpIRBytes env (readSection pf secs ''.topo_ir'')"

section \<open>The module that is compiled\<close>

lemma rename_refs:
  "refs (rename_in_module old new m) = rename_value old new ` refs m"
proof -
  have "set (fn_refs (f\<lparr>ef_name := x, ef_body := map_option (map (\<lambda>u. (fst u, r (snd u)))) (ef_body f),
      ef_personality := map_option r (ef_personality f)\<rparr>)) = r ` set (fn_refs f)" for f x r
    by (auto simp: fn_refs_def body_refs_def image_image split: option.splits)
  moreover have "set (alias_refs (a\<lparr>ea_aliasee := map_option r (ea_aliasee a)\<rparr>)) = r ` set (alias_refs a)" for a r
    by (auto simp: alias_refs_def split: option.splits)
  ultimately show ?thesis by (simp add: refs_def rename_in_module_def Let_def image_Un image_UN)
qed

lemma rename_names:
  assumes "distinct (value_names m)" and "old \<in> set (map ef_name (em_functions m))"
  shows "value_names (rename_in_module old new m) = map (rename_value old new) (value_names m)"
proof -
  have "\<forall>n\<in>set (map eg_name (em_globals m)) \<union> set (map ea_name (em_aliases m)). n \<noteq> old"
    using assms by (auto simp: value_names_def)
  then have "map eg_name (em_globals m) = map (rename_value old new) (map eg_name (em_globals m))"
    "map ea_name (em_aliases m) = map (rename_value old new) (map ea_name (em_aliases m))"
    by (auto simp: rename_value_def)
  then show ?thesis by (simp add: value_names_def rename_in_module_def Let_def o_def)
qed

lemma rename_inj: "new \<notin> N \<Longrightarrow> inj_on (rename_value old new) N"
  by (auto simp: inj_on_def rename_value_def)

lemma rename_ok:
  assumes "em_ok m" and "old \<in> set (map ef_name (em_functions m))" and "new \<notin> set (value_names m)"
  shows "em_ok (rename_in_module old new m)"
  using assms rename_names [of m old new] rename_inj [of new "set (value_names m)" old]
  by (auto simp: em_ok_def rename_refs distinct_map)

text \<open>An update of every function that takes references away, and one of the globals that keeps them.\<close>

definition map_functions :: "(em_function \<Rightarrow> em_function) \<Rightarrow> em_module \<Rightarrow> em_module" where
  "map_functions g m = m\<lparr>em_functions := map g (em_functions m), em_globals := map (\<lambda>g. g\<lparr>eg_comdat := False\<rparr>) (em_globals m)\<rparr>"

lemma map_functions_refs:
  assumes "\<And>f. set (fn_refs (g f)) \<subseteq> set (fn_refs f)"
  shows "refs (map_functions g m) \<subseteq> refs m"
  using assms by (fastforce simp: refs_def map_functions_def)

lemma map_functions_ok:
  assumes "\<And>f. set (fn_refs (g f)) \<subseteq> set (fn_refs f)" and "\<And>f. ef_name (g f) = ef_name f" and "em_ok m"
  shows "em_ok (map_functions g m)"
proof -
  have "value_names (map_functions g m) = value_names m" by (simp add: value_names_def map_functions_def o_def assms(2))
  then show ?thesis using assms(3) map_functions_refs [OF assms(1)] unfolding em_ok_def by (metis subset_trans)
qed

definition jit_function :: "string \<Rightarrow> em_function \<Rightarrow> em_function" where
  "jit_function jitName f = clear_function (only_body jitName f)"

lemma jit_function_simps [simp]:
  "ef_name (jit_function n f) = ef_name f" "ef_declaration (jit_function n f) \<longleftrightarrow> ef_declaration f \<or> ef_name f \<noteq> n"
  "ef_personality (jit_function n f) = None" "\<not> ef_comdat (jit_function n f)"
  by (auto simp: jit_function_def clear_function_def only_body_def deleteBody_def ef_declaration_def)

lemma jit_function_refs: "set (fn_refs (jit_function n f)) \<subseteq> set (fn_refs f)"
  by (auto simp: jit_function_def clear_function_def only_body_def deleteBody_def fn_refs_def body_refs_def)

lemma prepare_module_eq:
  "prepare_module env old new m = strip_module (map_functions (jit_function new) (em_setName env old new m))"
proof -
  have "jit_function new = (\<lambda>f. clear_function (only_body new f))" by (rule ext) (simp add: jit_function_def)
  then show ?thesis by (simp add: prepare_module_def map_functions_def Let_def)
qed

lemma definitions_member: "g \<in> set (em_functions m) \<Longrightarrow> \<not> ef_declaration g \<Longrightarrow> ef_name g \<in> definitions m"
  by (auto simp: definitions_def is_defined_def)

lemma prepare_single:
  assumes ok: "em_ok m" and dc: "direct_calls m" and tools: "set tool_globals \<inter> refs m = {}"
    and old: "is_defined m old" and new: "new \<notin> set (value_names m)" "new \<notin> set tool_globals"
  shows "\<exists>M. prepare_module env old new m = Some M \<and> em_ok M \<and> definitions M = {new} \<and>
     callees M new = map (rename_value old new) (callees m old) \<and> em_aliases M = [] \<and> unused_globals M = [] \<and>
     (\<forall>f\<in>set (em_functions M). ef_personality f = None \<and> \<not> ef_comdat f)"
proof -
  let ?r = "rename_value old new" and ?m1 = "rename_in_module old new m"
  let ?m2 = "map_functions (jit_function new) ?m1"
  have oldf: "old \<in> set (map ef_name (em_functions m))" using old by (auto simp: is_defined_def)
  have e: "em_setName env old new m = ?m1" using oldf new(1) by (simp add: em_setName_def Let_def)
  have ok2: "em_ok ?m2" using ok oldf new(1) by (intro map_functions_ok jit_function_refs rename_ok) auto
  have "set tool_globals \<inter> refs ?m1 = {}"
    using tools new(2) by (auto simp: rename_refs rename_value_def disjoint_iff)
  then have t2: "set tool_globals \<inter> refs ?m2 = {}"
    using map_functions_refs [of "jit_function new" ?m1, OF jit_function_refs] by blast
  obtain S where S: "strip_module ?m2 = Some (drop_globals S (strip_base ?m2))" "em_ok (drop_globals S (strip_base ?m2))"
    "unused_globals (drop_globals S (strip_base ?m2)) = []"
    using strip_spec [OF ok2 t2] by blast
  let ?M = "drop_globals S (strip_base ?m2)" and ?T = "stripped_names ?m2"
  have fns: "em_functions ?M = map (undef_fn ?T) (map (jit_function new) (em_functions ?m1))"
    using strip_base_frame(1) [OF ok2] by (simp add: map_functions_def)
  have al: "em_aliases ?M = []" using strip_base_frame(2) [OF ok2] by simp
  have decl: "ef_declaration (undef_fn T f) = ef_declaration f" for T f by (simp add: ef_declaration_def undef_fn_def)
  have fn1: "em_functions ?m1 = map (\<lambda>f. f\<lparr>ef_name := ?r (ef_name f), ef_body := map_option (map (\<lambda>u. (fst u, ?r (snd u)))) (ef_body f),
      ef_personality := map_option ?r (ef_personality f)\<rparr>) (em_functions m)" by (simp add: rename_in_module_def Let_def)
  obtain f where f: "f \<in> set (em_functions m)" "ef_name f = old" "\<not> ef_declaration f"
    using old by (auto simp: is_defined_def)
  let ?f1 = "f\<lparr>ef_name := new, ef_body := map_option (map (\<lambda>u. (fst u, ?r (snd u)))) (ef_body f), ef_personality := map_option ?r (ef_personality f)\<rparr>"
  have f1: "?f1 \<in> set (em_functions ?m1)" using f unfolding fn1 by (force simp: rename_value_def)
  have defs: "definitions ?M = {new}"
  proof -
    have sub: "definitions ?M \<subseteq> {new}" by (auto simp: definitions_def is_defined_def fns decl simp del: drop_globals_frame)
    have "undef_fn ?T (jit_function new ?f1) \<in> set (em_functions ?M)" using f1 unfolding fns by simp
    moreover have "\<not> ef_declaration (undef_fn ?T (jit_function new ?f1))" using f(3) by (simp add: decl) (simp add: ef_declaration_def)
    ultimately have "ef_name (undef_fn ?T (jit_function new ?f1)) \<in> definitions ?M" by (intro definitions_member)
    then have "new \<in> definitions ?M" by simp
    then show ?thesis using sub by blast
  qed
  have "set (direct_of (jit_function new ?f1)) \<inter> ?T = {}"
  proof -
    have "direct_of (jit_function new ?f1) = map ?r (direct_of f)"
      by (simp add: direct_of_def jit_function_def only_body_def clear_function_def filter_map o_def split: option.split)
    then have "set (direct_of (jit_function new ?f1)) \<subseteq> ?r ` ef_name ` set (em_functions m)"
      using direct_calls_names [OF dc f(1)] by auto
    also have "\<dots> = ef_name ` set (em_functions ?m2)" unfolding map_functions_def fn1 by (simp add: image_image)
    finally have "set (direct_of (jit_function new ?f1)) \<subseteq> ef_name ` set (em_functions ?m2)" .
    moreover have "ef_name ` set (em_functions ?m2) \<inter> ?T = {}"
      using ok2 by (auto simp: em_ok_def value_names_def stripped_names_def rtti_globals_def disjoint_iff)
    ultimately show ?thesis by blast
  qed
  then have "direct_of (undef_fn ?T (jit_function new ?f1)) = direct_of (jit_function new ?f1)" by (rule direct_of_undef)
  also have "\<dots> = map ?r (direct_of f)"
    by (simp add: direct_of_def jit_function_def only_body_def clear_function_def filter_map o_def split: option.split)
  finally have d: "direct_of (undef_fn ?T (jit_function new ?f1)) = map ?r (direct_of f)" .
  have "undef_fn ?T (jit_function new ?f1) \<in> set (em_functions ?M)" using f1 unfolding fns by simp
  from callees_of [OF distinct_names [OF S(2)] this] have "callees ?M new = map ?r (direct_of f)" using d by simp
  moreover have "callees m old = direct_of f" using callees_of [OF distinct_names [OF ok] f(1)] f(2) by simp
  moreover have "\<forall>f\<in>set (em_functions ?M). ef_personality f = None \<and> \<not> ef_comdat f"
    unfolding fns by (auto simp: undef_fn_def)
  moreover have "prepare_module env old new m = Some ?M" by (simp add: prepare_module_eq e S(1))
  ultimately show ?thesis using S(2,3) defs al by (intro exI [of _ ?M]) simp
qed

section \<open>Metadata read back\<close>

lemma all_of_map: "(\<And>x. x \<in> set xs \<Longrightarrow> f (g x) = Some (h x)) \<Longrightarrow> all_of f (map g xs) = Some (map h xs)"
  by (induction xs) auto

lemma all_of_id: "(\<And>x. x \<in> set xs \<Longrightarrow> f x = Some (h x)) \<Longrightarrow> all_of f xs = Some (map h xs)"
  using all_of_map [of xs f "\<lambda>x. x" h] by simp

text \<open>The value an object has at a key after it was printed and parsed.\<close>

definition fld :: "string \<Rightarrow> json \<Rightarrow> json option" where
  "fld k j = (case j of JObject ps \<Rightarrow> map_of ps k | _ \<Rightarrow> None)"

definition is_object :: "json \<Rightarrow> bool" where
  "is_object j \<longleftrightarrow> (\<exists>ps. j = JObject ps)"

lemma map_of_snd: "map_of (map (\<lambda>(k, v). (k, f v)) ps) k = map_option f (map_of ps k)"
  by (induction ps) auto

lemma fld_reparsed: "fld k (reparsed (json_object flds)) = map_option reparsed (map_of (rev flds) k)"
  by (simp add: fld_def json_object_map map_of_snd map_of_map_object)

lemma is_object_reparsed [simp]: "is_object (reparsed (json_object flds))"
  by (simp add: is_object_def json_object_map)

lemma fld_access:
  assumes "is_object j"
  shows "value_json k d j = Some (case fld k j of None \<Rightarrow> d | Some v \<Rightarrow> v)"
    and "json_contains k j \<longleftrightarrow> fld k j \<noteq> None"
    and "fld k j = Some v \<Longrightarrow> json_index k j = Some (v, j)"
  using assms by (auto simp: is_object_def value_json_def json_contains_def json_index_def fld_def)

lemma value_string_fld: "is_object j \<Longrightarrow> fld k j = Some (JString s) \<Longrightarrow> value_string k j = Some s"
  by (simp add: value_string_def fld_access)

lemma value_bool_fld: "is_object j \<Longrightarrow> fld k j = Some (JBool s) \<Longrightarrow> value_bool k d j = Some s"
  by (simp add: value_bool_def fld_access)

lemma reparsed_strings [simp]: "reparsed (strings_json xs) = strings_json xs"
  by (simp add: strings_json_def)

lemma strings_back [simp]: "all_of get_string (elements (strings_json xs)) = Some xs"
  using all_of_map [of xs get_string JString "\<lambda>s. s"] by (simp add: strings_json_def)

lemma strings_at_fld: "is_object j \<Longrightarrow> fld k j = Some (strings_json xs) \<Longrightarrow> strings_at k j = Some xs"
  by (simp add: strings_at_def fld_access)

text \<open>A table that starts as null.\<close>

definition table_json :: "('v \<Rightarrow> json) \<Rightarrow> (string \<times> 'v) list \<Rightarrow> json" where
  "table_json F qs = (if qs = [] then JNull else JObject (map (\<lambda>(n, x). (n, F x)) qs))"

lemma assigned_table:
  "reparsed (assigned (map (\<lambda>(n, x). (n, F x)) flds)) = table_json (\<lambda>x. reparsed (F x)) (map_object flds)"
  by (simp add: assigned_def table_json_def json_object_map map_object_map o_def case_prod_beta)

lemma items_table: "items (table_json F qs) = map (\<lambda>(n, x). (n, F x)) qs"
  by (simp add: table_json_def)

section \<open>One pipeline\<close>

definition pipeline_meta :: "FlowBlock \<Rightarrow> PipelineAnalysis \<Rightarrow> PipelineMeta" where
  "pipeline_meta lb an = \<lparr>mt_name = fb_qualifiedName lb,
     mt_stages = table_json (\<lambda>i. reparsed (JInt i)) (map_object (an_stages an)),
     mt_edges = JArray (map (\<lambda>e. reparsed (edge_json e)) (fb_edges lb)),
     mt_demand = table_json strings_json (map_object (an_demand an)),
     mt_sourceNodes = an_sourceNodes an, mt_terminalNode = an_terminalNode an, mt_terminalType = an_terminalType an,
     mt_calledFunctions = fb_calledFunctions lb\<rparr>"

lemma pipeline_fields:
  fixes symbols lb an
  defines "j \<equiv> reparsed (pipeline_json symbols lb an)"
  shows "is_object j" "fld ''name'' j = Some (JString (fb_qualifiedName lb))"
    "fld ''stages'' j = Some (table_json (\<lambda>i. reparsed (JInt i)) (map_object (an_stages an)))"
    "fld ''edges'' j = Some (JArray (map (\<lambda>e. reparsed (edge_json e)) (fb_edges lb)))"
    "fld ''demand'' j = Some (table_json strings_json (map_object (an_demand an)))"
    "fld ''sourceNodes'' j = Some (strings_json (an_sourceNodes an))"
    "fld ''terminalNode'' j = Some (JString (an_terminalNode an))" "fld ''terminalType'' j = Some (JString (an_terminalType an))"
    "fld ''calledFunctions'' j = Some (strings_json (fb_calledFunctions lb))"
  unfolding j_def pipeline_json_def
  by (simp_all add: fld_reparsed assigned_table o_def del: reparsed.simps(1))

lemma parse_pipeline_json: "parse_pipeline (reparsed (pipeline_json symbols lb an)) = Some (pipeline_meta lb an)"
  using pipeline_fields [of symbols lb an]
  by (simp add: parse_pipeline_def pipeline_meta_def value_string_fld strings_at_fld fld_access)

lemma edge_fields:
  "is_object (reparsed (edge_json e))" "fld ''source'' (reparsed (edge_json e)) = Some (JString (fe_source e))"
  "fld ''target'' (reparsed (edge_json e)) = Some (JString (fe_target e))"
  by (simp_all add: edge_json_def fld_reparsed)

lemma read_edge_json: "read_edge (reparsed (edge_json e)) = Some e"
  using edge_fields [of e] by (simp add: read_edge_def value_string_fld)

text \<open>Pruning keeps the edges no pattern matches.\<close>

definition pattern_matches :: "string \<times> string \<Rightarrow> FlowEdge \<Rightarrow> bool" where
  "pattern_matches p e \<longleftrightarrow> (fst p = ''*'' \<or> fst p = fe_source e) \<and> (snd p = ''*'' \<or> snd p = fe_target e)"

lemma match_edge_json: "match_edge p (reparsed (edge_json e)) = Some (pattern_matches p e, reparsed (edge_json e))"
  using edge_fields [of e] fld_access(3) [OF edge_fields(1)]
  by (auto simp: match_edge_def match_end_def pattern_matches_def)

lemma prune_list_json:
  "prune_list p (map (\<lambda>e. reparsed (edge_json e)) es) =
     Some (map (\<lambda>e. reparsed (edge_json e)) (filter (\<lambda>e. \<not> pattern_matches p e) es))"
  by (induction es) (simp_all add: match_edge_json)

lemma prune_edges_json:
  "prune_edges p (JArray (map (\<lambda>e. reparsed (edge_json e)) es)) =
     Some (JArray (map (\<lambda>e. reparsed (edge_json e)) (filter (\<lambda>e. \<not> pattern_matches p e) es)))"
  by (simp add: prune_list_json)

definition kept_edges :: "ContextData \<Rightarrow> FlowEdge list \<Rightarrow> FlowEdge list" where
  "kept_edges ctx es = filter (\<lambda>e. \<not> (\<exists>p\<in>set (cx_prunedEdges ctx). pattern_matches p e)) es"

lemma prune_all_json:
  "prune_all ps (JArray (map (\<lambda>e. reparsed (edge_json e)) es)) =
     Some (JArray (map (\<lambda>e. reparsed (edge_json e)) (filter (\<lambda>e. \<not> (\<exists>p\<in>set ps. pattern_matches p e)) es)))"
  by (induction ps arbitrary: es) (simp_all add: prune_list_json conj_commute)

text \<open>A narrowed return replaces the demand on a node that has one.\<close>

definition narrow :: "string \<times> string list \<Rightarrow> (string \<times> string list) list \<Rightarrow> (string \<times> string list) list" where
  "narrow nr qs = (if map_of qs (fst nr) = None then qs else map_set (fst nr) (snd nr) qs)"

lemma narrow_demand_table: "narrow_demand nr (table_json strings_json qs) = table_json strings_json (narrow nr qs)"
  by (simp add: narrow_demand_def table_json_def narrow_def map_of_snd map_set_map)

lemma narrow_demands: "fold narrow_demand nrs (table_json strings_json qs) = table_json strings_json (fold narrow nrs qs)"
  by (induction nrs arbitrary: qs) (simp_all add: narrow_demand_table)

lemma narrow_sorted: "sorted_wrt (<) (map fst qs) \<Longrightarrow> sorted_wrt (<) (map fst (fold narrow nrs qs))"
  by (induction nrs arbitrary: qs) (simp_all add: narrow_def map_set_sorted)

lemma narrow_lookup:
  "map_of (fold narrow nrs qs) n = (if map_of qs n = None then None
     else (case map_of (rev nrs) n of None \<Rightarrow> map_of qs n | Some fs \<Rightarrow> Some fs))"
  by (induction nrs arbitrary: qs) (auto simp: narrow_def map_of_map_set map_add_def split: option.splits)

section \<open>Reachable nodes\<close>

definition edge_rel :: "FlowEdge list \<Rightarrow> (string \<times> string) set" where
  "edge_rel edges = (\<lambda>e. (fe_source e, fe_target e)) ` set edges"

lemma visit_edge_eq:
  "visit_edge cur e (r, w) =
     (if fe_source e = cur \<and> fe_target e \<notin> r then (insert (fe_target e) r, fe_target e # w) else (r, w))"
  by (simp add: visit_edge_def)

lemma visit_edges:
  assumes "set es \<subseteq> set edges" and "fold (visit_edge cur) es (r, w) = (r', w')"
  shows "r' = r \<union> fe_target ` {e \<in> set es. fe_source e = cur}" and "set w' = set w \<union> (r' - r)"
    and "2 * card (fe_target ` set edges - r') + length w' \<le> 2 * card (fe_target ` set edges - r) + length w"
  using assms
proof (induction es arbitrary: r w)
  case (Cons e es)
  let ?T = "fe_target ` set edges"
  { case 1 then show ?case using Cons.IH(1) by (auto simp: visit_edge_eq split: if_splits)
  next
    case 2
    then show ?case
    proof (cases "fe_source e = cur \<and> fe_target e \<notin> r")
      case True
      then have f: "fold (visit_edge cur) es (insert (fe_target e) r, fe_target e # w) = (r', w')"
        using 2 by (simp add: visit_edge_eq)
      have "r' = insert (fe_target e) r \<union> fe_target ` {e \<in> set es. fe_source e = cur}" using Cons.IH(1) [OF _ f] 2 by simp
      then show ?thesis using Cons.IH(2) [OF _ f] 2 True by auto
    next
      case False
      then have "fold (visit_edge cur) es (r, w) = (r', w')" using 2 by (auto simp: visit_edge_eq)
      then show ?thesis using Cons.IH(2) 2 by simp
    qed
  next
    case 3
    then show ?case
    proof (cases "fe_source e = cur \<and> fe_target e \<notin> r")
      case True
      then have f: "fold (visit_edge cur) es (insert (fe_target e) r, fe_target e # w) = (r', w')"
        using 3 by (simp add: visit_edge_eq)
      have e: "fe_target e \<in> ?T - r" using True 3 by auto
      have "?T - insert (fe_target e) r = (?T - r) - {fe_target e}" by blast
      then have "card (?T - insert (fe_target e) r) = card (?T - r) - 1" using e by simp
      moreover have "card (?T - r) > 0" using e by (auto simp: card_gt_0_iff)
      ultimately show ?thesis using Cons.IH(3) [OF _ f] 3 by simp
    next
      case False
      then have "fold (visit_edge cur) es (r, w) = (r', w')" using 3 by (auto simp: visit_edge_eq)
      then show ?thesis using Cons.IH(3) 3 by simp
    qed
  }
qed auto

lemma reach_loop_spec:
  assumes "set w \<subseteq> r" and "src \<subseteq> r" and "r \<subseteq> (edge_rel edges)\<^sup>* `` src"
    and "\<forall>x\<in>r - set w. edge_rel edges `` {x} \<subseteq> r"
  shows "reach_loop edges r w = Some ((edge_rel edges)\<^sup>* `` src)"
  using assms
proof (induction "2 * card (fe_target ` set edges - r) + length w" arbitrary: r w rule: less_induct)
  case less
  let ?E = "edge_rel edges"
  show ?case
  proof (cases w)
    case Nil
    have "y \<in> r" if "(x, y) \<in> ?E\<^sup>*" "x \<in> src" for x y
      using that by (induction rule: rtrancl_induct) (use less.prems Nil in auto)
    then have "r = ?E\<^sup>* `` src" using less.prems(3) by auto
    then show ?thesis using Nil by (simp add: reach_loop.simps)
  next
    case (Cons cur rest)
    obtain r' w' where f: "fold (visit_edge cur) edges (r, rest) = (r', w')" by fastforce
    note v = visit_edges [OF subset_refl f]
    have succ: "?E `` {cur} = fe_target ` {e \<in> set edges. fe_source e = cur}" by (force simp: edge_rel_def)
    have cur: "cur \<in> r" using less.prems(1) Cons by simp
    have "?E `` {cur} \<subseteq> ?E\<^sup>* `` src" using cur less.prems(3) by (auto intro: rtrancl_into_rtrancl)
    then have r': "r' \<subseteq> ?E\<^sup>* `` src" using v(1) less.prems(3) unfolding succ by blast
    have "\<forall>x\<in>r' - set w'. ?E `` {x} \<subseteq> r'"
    proof
      fix x assume "x \<in> r' - set w'"
      then have "x \<in> r" "x \<notin> set rest" using v(2) by auto
      then show "?E `` {x} \<subseteq> r'"
        using less.prems(4) Cons succ v(1) by (cases "x = cur") auto
    qed
    moreover have "set w' \<subseteq> r'" using v(1,2) less.prems(1) Cons by auto
    moreover have "src \<subseteq> r'" using v(1) less.prems(2) by auto
    ultimately have "reach_loop edges r' w' = Some (?E\<^sup>* `` src)"
      using v(3) Cons r' by (intro less.hyps) auto
    then show ?thesis unfolding Cons using f by (subst reach_loop.simps) simp
  qed
qed

lemma reach_loop_reachable:
  "reach_loop edges (set src) (rev src) = Some ((edge_rel edges)\<^sup>* `` set src)"
  by (rule reach_loop_spec) auto

section \<open>The rebuilt symbols\<close>

definition reachable_nodes :: "ContextData \<Rightarrow> FlowBlock \<Rightarrow> PipelineAnalysis \<Rightarrow> string set" where
  "reachable_nodes ctx lb an = (edge_rel (kept_edges ctx (fb_edges lb)))\<^sup>* `` set (an_sourceNodes an)"

definition demanded :: "ContextData \<Rightarrow> PipelineAnalysis \<Rightarrow> string \<Rightarrow> string list option" where
  "demanded ctx an n =
     (case map_of (an_demand an) n of
        None \<Rightarrow> None
      | Some fs \<Rightarrow> Some (string_set (case map_of (rev (cx_narrowedReturns ctx)) n of None \<Rightarrow> fs | Some gs \<Rightarrow> gs)))"

text \<open>A pipeline and the one the engine rebuilds from its metadata under a context.\<close>

definition agrees :: "ContextData \<Rightarrow> FlowBlock \<times> PipelineAnalysis \<Rightarrow> FlowBlock \<Rightarrow> bool" where
  "agrees ctx p lb' \<longleftrightarrow>
     (case p of (lb, an) \<Rightarrow>
        fb_qualifiedName lb' = fb_qualifiedName lb \<and> fb_isPipeline lb' \<and> fb_calledFunctions lb' = fb_calledFunctions lb \<and>
        fb_edges lb' = kept_edges ctx (fb_edges lb) \<and>
        (\<exists>an'. fb_analysis lb' = Some an' \<and> an_sourceNodes an' = an_sourceNodes an \<and> an_terminalNode an' = an_terminalNode an \<and>
           an_terminalType an' = an_terminalType an \<and>
           (\<forall>n. map_of (an_stages an') n = (if n \<in> reachable_nodes ctx lb an then map_of (an_stages an) n else None)) \<and>
           (\<forall>n. map_of (an_demand an') n = demanded ctx an n)))"

definition analysed :: "FlowSymbols \<Rightarrow> (FlowBlock \<times> PipelineAnalysis) list" where
  "analysed symbols = List.map_filter (\<lambda>(name, lb).
     if fb_isPipeline lb then map_option (Pair lb) (fb_analysis lb) else None) (fl_blocks symbols)"

definition flow_ok :: "FlowSymbols \<Rightarrow> bool" where
  "flow_ok symbols \<longleftrightarrow> distinct (map (\<lambda>(lb, an). fb_qualifiedName lb) (analysed symbols)) \<and>
     (\<forall>(lb, an)\<in>set (analysed symbols). amap_ok (an_stages an) \<and> amap_ok (an_demand an) \<and>
        (\<forall>(n, i)\<in>set (an_stages an). - (2 ^ 31) \<le> i \<and> i < 2 ^ 31))"

lemma to_int32_id: "- (2 ^ 31) \<le> i \<Longrightarrow> i < 2 ^ 31 \<Longrightarrow> to_int32 i = i"
  by (simp add: to_int32_def sint_sbintrunc' signed_take_bit_int_eq_self)

lemma get_int_back:
  assumes "- (2 ^ 31) \<le> i" and "i < 2 ^ 31"
  shows "get_int (reparsed (JInt i)) = Some i"
proof (cases "0 \<le> i")
  case True
  then have "uint (word_of_int i :: u64) = i" using assms(2) by (simp add: uint_word_of_int)
  then show ?thesis using True assms by (simp add: to_int32_id)
qed (use assms in \<open>simp add: to_int32_id\<close>)

lemma table_of_ok: "amap_ok qs \<Longrightarrow> table_of qs = qs"
  using fold_update_distinct [of "[]" qs] by (simp add: table_of_def amap_ok_def)

lemma map_object_members: "distinct (map fst flds) \<Longrightarrow> set (map_object flds) = set flds"
  using map_of_map_object_distinct [of flds] map_object_ok [of flds] by (simp add: amap_ok_def map_of_inject_set)

lemma rebuilt_agrees:
  assumes "amap_ok (an_stages an)" and "amap_ok (an_demand an)" and "\<forall>(n, i)\<in>set (an_stages an). - (2 ^ 31) \<le> i \<and> i < 2 ^ 31"
  shows "\<exists>meta lb'. constrain ctx (pipeline_meta lb an) = Some meta \<and> synthetic_block meta = Some lb' \<and> agrees ctx (lb, an) lb'"
proof -
  let ?stages = "map_object (an_stages an)"
  let ?demand = "fold narrow (cx_narrowedReturns ctx) (map_object (an_demand an))"
  let ?edges = "kept_edges ctx (fb_edges lb)"
  let ?meta = "(pipeline_meta lb an)\<lparr>mt_edges := JArray (map (\<lambda>e. reparsed (edge_json e)) ?edges),
      mt_demand := table_json strings_json ?demand\<rparr>"
  have c: "constrain ctx (pipeline_meta lb an) = Some ?meta"
    by (simp add: constrain_def pipeline_meta_def prune_all_json narrow_demands kept_edges_def)
  have e: "all_of read_edge (elements (mt_edges ?meta)) = Some ?edges"
    using all_of_map [of ?edges read_edge "\<lambda>e. reparsed (edge_json e)" "\<lambda>e. e"] by (simp add: read_edge_json)
  have "all_of read_stage (map (\<lambda>(n, i). (n, reparsed (JInt i))) ?stages) = Some (map (\<lambda>p. p) ?stages)"
  proof (rule all_of_map)
    fix p assume "p \<in> set ?stages"
    then have "p \<in> set (an_stages an)" using assms(1) by (simp add: map_object_members amap_ok_def)
    then show "read_stage (case p of (n, i) \<Rightarrow> (n, reparsed (JInt i))) = Some p"
      using assms(3) get_int_back [of "snd p"] by (auto simp: read_stage_def simp del: reparsed.simps)
  qed
  then have s: "all_of read_stage (items (mt_stages ?meta)) = Some ?stages"
    by (simp add: pipeline_meta_def items_table del: reparsed.simps)
  have "all_of read_demand (map (\<lambda>(n, fs). (n, strings_json fs)) ?demand) = Some (map (\<lambda>(n, fs). (n, string_set fs)) ?demand)"
    by (rule all_of_map) (auto simp: read_demand_def)
  then have d: "all_of read_demand (items (mt_demand ?meta)) = Some (map (\<lambda>(n, fs). (n, string_set fs)) ?demand)"
    by (simp add: items_table)
  have dok: "amap_ok (map (\<lambda>(n, fs). (n, string_set fs)) ?demand)"
    using narrow_sorted [OF map_object_sorted] by (simp add: amap_ok_def strict_sorted_iff o_def case_prod_beta)
  let ?R = "reachable_nodes ctx lb an"
  let ?an = "\<lparr>an_stages = filter (\<lambda>p. fst p \<in> ?R) ?stages, an_sourceNodes = an_sourceNodes an, an_terminalNode = an_terminalNode an,
      an_terminalType = an_terminalType an, an_demand = map (\<lambda>(n, fs). (n, string_set fs)) ?demand\<rparr>"
  let ?lb = "\<lparr>fb_qualifiedName = fb_qualifiedName lb, fb_simpleName = simple_name (fb_qualifiedName lb), fb_isPipeline = True,
      fb_calledFunctions = fb_calledFunctions lb, fb_stages = [], fb_edges = ?edges, fb_analysis = Some ?an\<rparr>"
  have b: "synthetic_block ?meta = Some ?lb"
    unfolding synthetic_block_def e s d
    by (simp add: pipeline_meta_def reach_loop_reachable reachable_nodes_def table_of_ok [OF map_object_ok] table_of_ok [OF dok])
  have st: "map_of (an_stages ?an) n = (if n \<in> ?R then map_of (an_stages an) n else None)" for n
    using assms(1) map_of_filter_key [of "\<lambda>m. m \<in> ?R" ?stages n] by (simp add: map_of_map_object_distinct amap_ok_def)
  have dm: "map_of (an_demand ?an) n = demanded ctx an n" for n
    using assms(2) by (auto simp: demanded_def map_of_snd narrow_lookup map_of_map_object_distinct amap_ok_def dest: map_of_SomeD split: option.split)
  have "agrees ctx (lb, an) ?lb"
    unfolding agrees_def prod.case using st dm by (intro conjI exI [of _ ?an]) simp_all
  then show ?thesis using c b by blast
qed

section \<open>The whole payload\<close>

lemma bytes_back: "map (\<lambda>b. char_of (unat b)) (string_bytes s) = s"
proof -
  have "unat (of_char c :: u8) = of_char c" for c
  proof -
    have "unat (of_char c :: u8) = unat (of_nat (of_char c) :: u8)" by (simp add: of_nat_of_char)
    also have "\<dots> = of_char c mod 256" by (simp add: unat_of_nat)
    finally show ?thesis by simp
  qed
  then show ?thesis by (simp add: string_bytes_def o_def)
qed

lemma pipelines_json_analysed: "pipelines_json symbols = map (\<lambda>(lb, an). pipeline_json symbols lb an) (analysed symbols)"
proof -
  have "List.map_filter (\<lambda>(name, lb). if fb_isPipeline lb then map_option (pipeline_json symbols lb) (fb_analysis lb) else None) xs =
      map (\<lambda>(lb, an). pipeline_json symbols lb an) (List.map_filter (\<lambda>(name, lb). if fb_isPipeline lb then map_option (Pair lb) (fb_analysis lb) else None) xs)"
    for xs :: "(string \<times> FlowBlock) list"
    by (induction xs) (auto simp: List.map_filter_simps split: option.splits if_splits)
  then show ?thesis by (simp add: pipelines_json_def analysed_def)
qed

lemma metadata_fields:
  fixes ev symbols pcfg ad
  defines "j \<equiv> reparsed (metadata_json ev symbols pcfg ad)"
  shows "is_object j" "fld ''pipelines'' j = Some (JArray (map (\<lambda>(lb, an). reparsed (pipeline_json symbols lb an)) (analysed symbols)))"
    "fld ''parallel'' j = Some (reparsed (json_object [(''enabled'', JBool (ev_isEnabled ev pcfg)), (''instrument'', JBool (pl_instrument pcfg)),
        (''exclude'', strings_json (pl_exclude pcfg))]))"
  unfolding j_def metadata_json_def
  by (auto simp: fld_reparsed pipelines_json_analysed case_prod_beta map_add_def split: option.split)

lemma pipelines_parsed:
  "all_of parse_pipeline (map (\<lambda>(lb, an). reparsed (pipeline_json symbols lb an)) ps) = Some (map (\<lambda>(lb, an). pipeline_meta lb an) ps)"
  by (rule all_of_map) (auto simp: parse_pipeline_json)

lemma all_rebuilt:
  assumes "\<forall>(lb, an)\<in>set ps. amap_ok (an_stages an) \<and> amap_ok (an_demand an) \<and>
     (\<forall>(n, i)\<in>set (an_stages an). - (2 ^ 31) \<le> i \<and> i < 2 ^ 31)"
  shows "\<exists>ms lbs. applyConstraints (map (\<lambda>(lb, an). pipeline_meta lb an) ps) ctx = Some ms \<and> all_of synthetic_block ms = Some lbs \<and>
     list_all2 (agrees ctx) ps lbs"
  using assms
proof (induction ps)
  case (Cons p ps)
  obtain lb an where p: "p = (lb, an)" by fastforce
  obtain meta lb' where "constrain ctx (pipeline_meta lb an) = Some meta" "synthetic_block meta = Some lb'" "agrees ctx (lb, an) lb'"
    using rebuilt_agrees [of an ctx lb] Cons.prems p by auto
  moreover obtain ms lbs where "applyConstraints (map (\<lambda>(lb, an). pipeline_meta lb an) ps) ctx = Some ms" "all_of synthetic_block ms = Some lbs"
    "list_all2 (agrees ctx) ps lbs" using Cons by auto
  ultimately show ?case by (intro exI [of _ "meta # ms"] exI [of _ "lb' # lbs"]) (simp add: applyConstraints_def p)
qed (simp add: applyConstraints_def)

lemma agrees_names: "list_all2 (agrees ctx) ps lbs \<Longrightarrow> map fb_qualifiedName lbs = map (\<lambda>(lb, an). fb_qualifiedName lb) ps"
  by (induction rule: list_all2_induct) (auto simp: agrees_def)

text \<open>
  The JSON library on a value: the parser reads the printed text back. The NUL that ends the embedded string
  ends the input.
\<close>

definition reads_back :: "jit_env \<Rightarrow> embed_env \<Rightarrow> json \<Rightarrow> bool" where
  "reads_back env ev j \<longleftrightarrow> (plain_json j \<longrightarrow> je_parse env (ev_dump ev j @ [CHR 0x00]) = Some (reparsed j))"

text \<open>
  C29. What the engine rebuilds from the metadata that was embedded: the pipelines that were analysed, in their
  order, with the edges the context does not prune, the stages of the nodes that the sources still reach,
  the demand narrowed by the context, and the parallel configuration.
\<close>

theorem jit_rebuilds_pipelines:
  assumes lib: "reads_back env ev (metadata_json ev symbols pcfg ad)"
    and plain: "plain_json (metadata_json ev symbols pcfg ad)" and flow: "flow_ok symbols"
  shows "\<exists>ms cfg syms par. read_pipelines env (string_bytes (serializeMetadata ev symbols pcfg ad) @ [0]) ctx = Some (ms, cfg) \<and>
     synthetic_symbols ms = Some syms \<and> list_all2 (agrees ctx) (analysed symbols) (map snd (fl_blocks syms)) \<and>
     read_parallel env cfg = Some par \<and> (pl_mode par \<noteq> Off \<longleftrightarrow> ev_isEnabled ev pcfg) \<and> pl_instrument par = pl_instrument pcfg \<and>
     pl_exclude par = pl_exclude (je_defaultParallel env) @ pl_exclude pcfg"
proof -
  let ?j = "reparsed (metadata_json ev symbols pcfg ad)"
  let ?par = "[(''enabled'', JBool (ev_isEnabled ev pcfg)), (''instrument'', JBool (pl_instrument pcfg)), (''exclude'', strings_json (pl_exclude pcfg))]"
  let ?cfg = "reparsed (json_object ?par)"
  have nul: "char_of (0 :: nat) = CHR 0x00" by (simp add: char_of_def)
  note f = metadata_fields [of ev symbols pcfg ad]
  obtain ms lbs where ms: "applyConstraints (map (\<lambda>(lb, an). pipeline_meta lb an) (analysed symbols)) ctx = Some ms"
    "all_of synthetic_block ms = Some lbs" "list_all2 (agrees ctx) (analysed symbols) lbs"
    using all_rebuilt [of "analysed symbols" ctx] flow by (auto simp: flow_ok_def)
  have "je_parse env (map (\<lambda>b. char_of (unat b)) (string_bytes (serializeMetadata ev symbols pcfg ad) @ [0])) = Some ?j"
    using lib plain by (simp add: bytes_back serializeMetadata_def nul reads_back_def)
  then have "parseMetadata env (map (\<lambda>b. char_of (unat b)) (string_bytes (serializeMetadata ev symbols pcfg ad) @ [0])) =
      Some (True, map (\<lambda>(lb, an). pipeline_meta lb an) (analysed symbols), ?cfg)"
    using f(2,3) by (simp add: parseMetadata_def fld_access [OF f(1)] pipelines_parsed)
  then have r: "read_pipelines env (string_bytes (serializeMetadata ev symbols pcfg ad) @ [0]) ctx = Some (ms, ?cfg)"
    using ms(1) by (simp add: read_pipelines_def)
  have "distinct (map fb_qualifiedName lbs)" using flow agrees_names [OF ms(3)] by (simp add: flow_ok_def)
  then have "table_of (map (\<lambda>lb. (fb_qualifiedName lb, lb)) lbs) = map (\<lambda>lb. (fb_qualifiedName lb, lb)) lbs"
    by (intro table_of_ok) (simp add: amap_ok_def o_def)
  then have s: "synthetic_symbols ms = Some \<lparr>fl_blocks = map (\<lambda>lb. (fb_qualifiedName lb, lb)) lbs, fl_functions = [], fl_adapts = []\<rparr>"
    by (simp add: synthetic_symbols_def ms(2))
  have ob: "is_object ?cfg" "fld ''enabled'' ?cfg = Some (JBool (ev_isEnabled ev pcfg))" "fld ''instrument'' ?cfg = Some (JBool (pl_instrument pcfg))"
    "fld ''exclude'' ?cfg = Some (strings_json (pl_exclude pcfg))" by (simp_all add: fld_reparsed)
  have ne: "\<not> json_empty ?cfg" by (simp add: json_empty_def json_object_map)
  have p: "read_parallel env ?cfg = Some ((je_defaultParallel env)\<lparr>pl_mode := (if ev_isEnabled ev pcfg then Auto else Off),
      pl_instrument := pl_instrument pcfg, pl_exclude := pl_exclude (je_defaultParallel env) @ pl_exclude pcfg\<rparr>)"
    using ob ne by (simp add: read_parallel_def value_bool_fld strings_at_fld)
  show ?thesis using r s p ms(3) by (intro exI conjI) (assumption | simp add: o_def)+
qed

definition jit_example_env :: jit_env where
  "jit_example_env = \<lparr>je_createJIT = True,
     je_parse = (\<lambda>t. if t = ''{}'' @ [CHR 0x00] then Some (reparsed (metadata_json embed_example_env embed_example_flow
       \<lparr>pl_mode = Auto, pl_instrument = True, pl_exclude = []\<rparr> None)) else None),
     je_readBitcode = (\<lambda>_. None), je_printModule = em_triple, je_demangle = (\<lambda>n. n),
     je_defaultParallel = \<lparr>pl_mode = Off, pl_instrument = True, pl_exclude = []\<rparr>, je_isEnabled = (\<lambda>c. pl_mode c \<noteq> Off),
     je_pipelineCodeGen = (\<lambda>_ _ m. m), je_topoParallel = (\<lambda>_ _ _ m. m), je_uniq = (\<lambda>_ n. n @ ''.1''), je_compile = (\<lambda>_ _. Some 64)\<rparr>"

lemma jit_rebuilds_pipelines_witness:
  "\<exists>ms cfg syms. read_pipelines jit_example_env
       (string_bytes (serializeMetadata embed_example_env embed_example_flow \<lparr>pl_mode = Auto, pl_instrument = True, pl_exclude = []\<rparr> None) @ [0])
       \<lparr>cx_prunedEdges = [(''*'', ''sink'')], cx_narrowedReturns = []\<rparr> = Some (ms, cfg) \<and>
     synthetic_symbols ms = Some syms \<and> length (fl_blocks syms) = 1"
proof -
  let ?p = "\<lparr>pl_mode = Auto, pl_instrument = True, pl_exclude = []\<rparr>"
  have an: "analysed embed_example_flow = [(snd (hd (fl_blocks embed_example_flow)), the (fb_analysis (snd (hd (fl_blocks embed_example_flow)))))]"
    by (simp add: analysed_def embed_example_flow_def List.map_filter_simps)
  have "reads_back jit_example_env embed_example_env (metadata_json embed_example_env embed_example_flow ?p None)"
    by (simp add: reads_back_def jit_example_env_def embed_example_env_def)
  moreover have "plain_json (metadata_json embed_example_env embed_example_flow ?p None)"
    by code_simp
  moreover have "flow_ok embed_example_flow" unfolding flow_ok_def an by (simp add: embed_example_flow_def amap_ok_def)
  ultimately obtain ms cfg syms where "read_pipelines jit_example_env
       (string_bytes (serializeMetadata embed_example_env embed_example_flow ?p None) @ [0])
       \<lparr>cx_prunedEdges = [(''*'', ''sink'')], cx_narrowedReturns = []\<rparr> = Some (ms, cfg)" "synthetic_symbols ms = Some syms"
    "list_all2 (agrees \<lparr>cx_prunedEdges = [(''*'', ''sink'')], cx_narrowedReturns = []\<rparr>) (analysed embed_example_flow) (map snd (fl_blocks syms))"
    using jit_rebuilds_pipelines [of jit_example_env embed_example_env embed_example_flow ?p None
      "\<lparr>cx_prunedEdges = [(''*'', ''sink'')], cx_narrowedReturns = []\<rparr>"] by blast
  moreover from this(3) have "length (fl_blocks syms) = 1" using list_all2_lengthD an by fastforce
  ultimately show ?thesis by blast
qed

section \<open>Names of the libraries\<close>

lemma jit_suffix: "takeWhile (\<lambda>c. c \<noteq> CHR ''.'') (rev (m @ ''.jit.'' @ show_int i)) = rev (show_int i)"
proof -
  have "\<forall>c\<in>set (rev (show_int i)). c \<noteq> CHR ''.''"
    using show_int_chars [of _ i] by (auto simp: is_digit_def)
  then have "takeWhile (\<lambda>c. c \<noteq> CHR ''.'') (rev (show_int i) @ rev (m @ ''.jit.'')) = rev (show_int i)"
    by (subst takeWhile_append2) auto
  then show ?thesis by simp
qed

lemma show_int_inject: "0 \<le> a \<Longrightarrow> 0 \<le> b \<Longrightarrow> show_int a = show_int b \<Longrightarrow> a = b"
  by (simp add: show_int_def)

text \<open>Every library was named by a number the counter has passed.\<close>

definition numbered :: "u32 \<Rightarrow> string \<Rightarrow> bool" where
  "numbered c d \<longleftrightarrow> (\<exists>m i. d = m @ ''.jit.'' @ show_int i \<and> 1 \<le> i \<and> i \<le> sint c)"

definition jit_inv :: "jit_state \<Rightarrow> bool" where
  "jit_inv s \<longleftrightarrow> distinct (js_dylibs s) \<and> (\<forall>d\<in>set (js_dylibs s). numbered (js_counter s) d) \<and> 0 \<le> sint (js_counter s)"

lemma sint_Suc:
  assumes "0 \<le> sint (c :: u32)" and "sint c < 2 ^ 31 - 1"
  shows "sint (c + 1) = sint c + 1"
proof -
  have "sint (c + 1) = signed_take_bit 31 (sint c + 1)" by (simp add: sint_word_ariths)
  then show ?thesis using assms by (simp add: signed_take_bit_int_eq_self)
qed

lemma jit_name_fresh:
  assumes "jit_inv s" and "sint (js_counter s) < 2 ^ 31 - 1"
  shows "jit_symbol_name m (js_counter s) \<notin> set (js_dylibs s)" and "numbered (js_counter s + 1) (jit_symbol_name m (js_counter s))"
    and "d \<in> set (js_dylibs s) \<Longrightarrow> numbered (js_counter s + 1) d"
proof -
  have c: "0 \<le> sint (js_counter s)" "sint (js_counter s + 1) = sint (js_counter s) + 1"
    using assms sint_Suc by (auto simp: jit_inv_def)
  show "jit_symbol_name m (js_counter s) \<notin> set (js_dylibs s)"
  proof
    assume "jit_symbol_name m (js_counter s) \<in> set (js_dylibs s)"
    then obtain m' i where i: "jit_symbol_name m (js_counter s) = m' @ ''.jit.'' @ show_int i" "1 \<le> i" "i \<le> sint (js_counter s)"
      using assms(1) by (auto simp: jit_inv_def numbered_def)
    then have "show_int (sint (js_counter s) + 1) = show_int i"
      using jit_suffix [of m "sint (js_counter s) + 1"] jit_suffix [of m' i] unfolding jit_symbol_name_def c(2) by simp
    then show False using show_int_inject [of "sint (js_counter s) + 1" i] i c by simp
  qed
  show "numbered (js_counter s + 1) (jit_symbol_name m (js_counter s))"
    unfolding numbered_def jit_symbol_name_def c(2) using c(1) by (intro exI [of _ m] exI [of _ "sint (js_counter s) + 1"]) simp
  show "numbered (js_counter s + 1) d" if "d \<in> set (js_dylibs s)"
    using assms(1) that c by (force simp: jit_inv_def numbered_def)
qed

section \<open>The outcome of a specialisation\<close>

definition jit_module_ok :: "em_module \<Rightarrow> bool" where
  "jit_module_ok m \<longleftrightarrow> em_ok m \<and> direct_calls m \<and> set tool_globals \<inter> refs m = {} \<and>
     (\<forall>n\<in>set (value_names m). \<not> contains ''.jit.'' n)"

text \<open>What the two passes keep of a module: it stays well-formed and its definitions stay definitions.\<close>

definition passes_preserve :: "jit_env \<Rightarrow> bool" where
  "passes_preserve env \<longleftrightarrow> (\<forall>symbols mp par m. jit_module_ok m \<longrightarrow>
     jit_module_ok (je_pipelineCodeGen env symbols mp m) \<and> definitions m \<subseteq> definitions (je_pipelineCodeGen env symbols mp m) \<and>
     jit_module_ok (je_topoParallel env symbols mp par m) \<and> definitions m \<subseteq> definitions (je_topoParallel env symbols mp par m))"

lemma transform_keeps:
  assumes "passes_preserve env" and "jit_module_ok m" and "transform_module env pipelines cfg m = Some m'"
  shows "jit_module_ok m'" and "definitions m \<subseteq> definitions m'"
proof -
  obtain symbols par where "m' = (if je_isEnabled env par
      then je_topoParallel env symbols (jit_mapping env m) par (je_pipelineCodeGen env symbols (jit_mapping env m) m)
      else je_pipelineCodeGen env symbols (jit_mapping env m) m)"
    using assms(3) by (auto simp: transform_module_def Let_def split: Option.bind_splits)
  then show "jit_module_ok m'" "definitions m \<subseteq> definitions m'"
    using assms(1,2) unfolding passes_preserve_def by (metis, metis subset_trans)
qed

lemma find_pipeline_defined: "find_pipeline env n m = f \<Longrightarrow> f \<noteq> [] \<Longrightarrow> f \<in> definitions m"
  by (auto simp: find_pipeline_def definitions_def is_defined_def find_Some_iff split: option.splits)

lemma jit_name_contains: "contains ''.jit.'' (jit_symbol_name m c)"
proof -
  have "starts_with ''.jit.'' (drop (length m) (jit_symbol_name m c))" by (simp add: jit_symbol_name_def starts_with_def)
  moreover have "length m \<le> length (jit_symbol_name m c)" by (simp add: jit_symbol_name_def)
  ultimately show ?thesis unfolding contains_def using str_find_None by blast
qed

lemma tools_no_jit: "n \<in> set tool_globals \<Longrightarrow> \<not> contains ''.jit.'' n"
  by (auto simp: tool_globals_def contains_def starts_with_def)

lemma jit_prepare:
  assumes "jit_module_ok m" and "old \<in> definitions m"
  shows "\<exists>M. prepare_module env old (jit_symbol_name old c) m = Some M \<and> em_ok M \<and> definitions M = {jit_symbol_name old c} \<and>
     callees M (jit_symbol_name old c) = map (rename_value old (jit_symbol_name old c)) (callees m old) \<and>
     em_aliases M = [] \<and> unused_globals M = [] \<and> (\<forall>f\<in>set (em_functions M). ef_personality f = None \<and> \<not> ef_comdat f)"
proof (rule prepare_single)
  show "jit_symbol_name old c \<notin> set (value_names m)" using assms(1) jit_name_contains by (auto simp: jit_module_ok_def)
  show "jit_symbol_name old c \<notin> set tool_globals" using tools_no_jit jit_name_contains by blast
qed (use assms in \<open>auto simp: jit_module_ok_def definitions_def\<close>)

lemma find_pipeline_name:
  assumes "find_pipeline env n m \<noteq> []"
  shows "demangleQualified env (find_pipeline env n m) = n"
proof (cases "find (\<lambda>f. \<not> ef_declaration f \<and> demangleQualified env (ef_name f) = n) (em_functions m)")
  case (Some f)
  then have "demangleQualified env (ef_name f) = n" unfolding find_Some_iff by blast
  then show ?thesis by (simp add: find_pipeline_def Some)
qed (use assms in \<open>simp add: find_pipeline_def\<close>)

lemma ensureJIT_frame:
  "ensureJIT env s = (ok, s') \<Longrightarrow> js_dylibs s' = js_dylibs s \<and> js_counter s' = js_counter s"
  by (auto simp: ensureJIT_def split: if_splits)

lemma jit_inv_frame: "js_dylibs s' = js_dylibs s \<Longrightarrow> js_counter s' = js_counter s \<Longrightarrow> jit_inv s' = jit_inv s"
  by (simp add: jit_inv_def)

text \<open>A run either stops before it names a library, or compiles one module under a new name.\<close>

lemma specialize_cases:
  assumes run: "doSpecializeImpl env name ctx irData metaData s = Some (r, s')"
    and inv: "jit_inv s" "sint (js_counter s) < 2 ^ 31 - 1"
  shows "r = None \<and> js_dylibs s' = js_dylibs s \<and> js_counter s' = js_counter s \<or>
    (\<exists>pipelines cfg parsed m M. read_pipelines env metaData ctx = Some (pipelines, cfg) \<and> je_readBitcode env irData = Some parsed \<and>
       find_pipeline env name parsed \<noteq> [] \<and> transform_module env pipelines cfg parsed = Some m \<and>
       prepare_module env (find_pipeline env name parsed) (jit_symbol_name (find_pipeline env name parsed) (js_counter s)) m = Some M \<and>
       r = je_compile env (jit_symbol_name (find_pipeline env name parsed) (js_counter s)) M \<and>
       js_dylibs s' = js_dylibs s @ [jit_symbol_name (find_pipeline env name parsed) (js_counter s)] \<and>
       js_counter s' = js_counter s + 1)"
proof -
  obtain ok s1 where e: "ensureJIT env s = (ok, s1)" by fastforce
  note f = ensureJIT_frame [OF e]
  show ?thesis
  proof (cases "\<not> ok \<or> irData = []")
    case True
    then have "r = None" "s' = s1" using run e by (auto simp: doSpecializeImpl_def)
    then show ?thesis using f by simp
  next
    case False
    then obtain pipelines cfg where p: "read_pipelines env metaData ctx = Some (pipelines, cfg)"
      using run e by (auto simp: doSpecializeImpl_def split: option.splits)
    show ?thesis
    proof (cases "je_readBitcode env irData")
      case None
      then have "r = None" "s' = s1" using run e False p by (auto simp: doSpecializeImpl_def)
      then show ?thesis using f by simp
    next
      case (Some parsed)
      let ?n = "find_pipeline env name parsed"
      let ?j = "jit_symbol_name ?n (js_counter s)"
      show ?thesis
      proof (cases "?n = []")
        case True
        then have "r = None" "s' = s1" using run e False p Some by (auto simp: doSpecializeImpl_def)
        then show ?thesis using f by simp
      next
        case ne: False
        then obtain m M where m: "transform_module env pipelines cfg parsed = Some m" "prepare_module env ?n ?j m = Some M"
          and c: "compile_module env ?j M (s1\<lparr>js_counter := js_counter s + 1\<rparr>) = (r, s')"
          using run e False p Some f by (auto simp: doSpecializeImpl_def Let_def split: Option.bind_splits)
        have "?j \<notin> set (js_dylibs s1)" using jit_name_fresh(1) [OF inv] f by simp
        then have "r = je_compile env ?j M" "js_dylibs s' = js_dylibs s @ [?j]" "js_counter s' = js_counter s + 1"
          using c f by (auto simp: compile_module_def)
        then show ?thesis using p Some ne m by blast
      qed
    qed
  qed
qed

lemma specialize_inv:
  assumes "doSpecializeImpl env name ctx irData metaData s = Some (r, s')" and "jit_inv s" and "sint (js_counter s) < 2 ^ 31 - 1"
  shows "jit_inv s'"
  using specialize_cases [OF assms]
proof
  assume "r = None \<and> js_dylibs s' = js_dylibs s \<and> js_counter s' = js_counter s"
  then show ?thesis using assms(2) jit_inv_frame [of s' s] by simp
next
  assume "\<exists>pipelines cfg parsed m M. read_pipelines env metaData ctx = Some (pipelines, cfg) \<and> je_readBitcode env irData = Some parsed \<and>
       find_pipeline env name parsed \<noteq> [] \<and> transform_module env pipelines cfg parsed = Some m \<and>
       prepare_module env (find_pipeline env name parsed) (jit_symbol_name (find_pipeline env name parsed) (js_counter s)) m = Some M \<and>
       r = je_compile env (jit_symbol_name (find_pipeline env name parsed) (js_counter s)) M \<and>
       js_dylibs s' = js_dylibs s @ [jit_symbol_name (find_pipeline env name parsed) (js_counter s)] \<and>
       js_counter s' = js_counter s + 1"
  then obtain n where n: "js_dylibs s' = js_dylibs s @ [jit_symbol_name n (js_counter s)]" "js_counter s' = js_counter s + 1" by blast
  have "0 \<le> sint (js_counter s + 1)" using assms(2,3) sint_Suc by (simp add: jit_inv_def)
  then show ?thesis
    using assms(2) jit_name_fresh [OF assms(2,3)] n by (auto simp: jit_inv_def)
qed

text \<open>
  C31. A specialisation that returns code: the compiled module defines exactly one function, under a name no
  earlier library has, whose calls are those of the pipeline after the passes; it is closed, without
  aliases and without globals that nothing refers to. The counter's numbers stay unique.
\<close>

theorem specialize_compiles_one_function:
  assumes "doSpecializeImpl env name ctx irData metaData s = Some (Some addr, s')"
    and "jit_inv s" and "sint (js_counter s) < 2 ^ 31 - 1" and "passes_preserve env"
    and "\<forall>m. je_readBitcode env irData = Some m \<longrightarrow> jit_module_ok m"
  shows "jit_inv s' \<and> (\<exists>m M old n. je_compile env n M = Some addr \<and> js_dylibs s' = js_dylibs s @ [n] \<and> n \<notin> set (js_dylibs s) \<and>
     demangleQualified env old = name \<and> em_ok M \<and> definitions M = {n} \<and> callees M n = map (rename_value old n) (callees m old) \<and>
     em_aliases M = [] \<and> (\<forall>g\<in>set (em_globals M). starts_with ''llvm.'' (eg_name g) \<or> eg_name g \<in> refs M))"
proof (intro conjI)
  show "jit_inv s'" by (rule specialize_inv [OF assms(1-3)])
  obtain pipelines cfg parsed m M where "je_readBitcode env irData = Some parsed" and ne: "find_pipeline env name parsed \<noteq> []"
    and t: "transform_module env pipelines cfg parsed = Some m"
    and p: "prepare_module env (find_pipeline env name parsed) (jit_symbol_name (find_pipeline env name parsed) (js_counter s)) m = Some M"
    and c: "je_compile env (jit_symbol_name (find_pipeline env name parsed) (js_counter s)) M = Some addr"
    "js_dylibs s' = js_dylibs s @ [jit_symbol_name (find_pipeline env name parsed) (js_counter s)]"
    using specialize_cases [OF assms(1-3)] by auto
  then have parsed: "jit_module_ok parsed" using assms(5) by blast
  let ?old = "find_pipeline env name parsed"
  have "?old \<in> definitions m" using transform_keeps(2) [OF assms(4) parsed t] find_pipeline_defined [OF refl ne] by blast
  from jit_prepare [OF transform_keeps(1) [OF assms(4) parsed t] this, of env "js_counter s"] p
  have M: "em_ok M" "definitions M = {jit_symbol_name ?old (js_counter s)}" "em_aliases M = []" "unused_globals M = []"
    "callees M (jit_symbol_name ?old (js_counter s)) = map (rename_value ?old (jit_symbol_name ?old (js_counter s))) (callees m ?old)"
    by auto
  have "demangleQualified env ?old = name" by (rule find_pipeline_name [OF ne])
  then show "\<exists>m M old n. je_compile env n M = Some addr \<and> js_dylibs s' = js_dylibs s @ [n] \<and> n \<notin> set (js_dylibs s) \<and>
     demangleQualified env old = name \<and> em_ok M \<and> definitions M = {n} \<and> callees M n = map (rename_value old n) (callees m old) \<and>
     em_aliases M = [] \<and> (\<forall>g\<in>set (em_globals M). starts_with ''llvm.'' (eg_name g) \<or> eg_name g \<in> refs M)"
    using c M jit_name_fresh(1) [OF assms(2,3)] used_globals [OF M(4)] by blast
qed

text \<open>A run on a payload with one pipeline and no metadata.\<close>

definition jit_example_run :: jit_env where
  "jit_example_run = jit_example_env\<lparr>je_readBitcode := (\<lambda>_. Some embed_example_module),
     je_demangle := (\<lambda>n. if n = ''_Z4flow'' then ''app::flow(int)'' else n)\<rparr>"

definition jit_example_state :: jit_state where
  "jit_example_state = \<lparr>js_initialized = False, js_jit = False, js_counter = 0, js_dylibs = []\<rparr>"

lemma specialize_compiles_one_function_witness:
  "\<exists>s' n M. doSpecializeImpl jit_example_run ''app::flow'' \<lparr>cx_prunedEdges = [], cx_narrowedReturns = []\<rparr> [1] [] jit_example_state = Some (Some 64, s') \<and>
     js_dylibs s' = [n] \<and> je_compile jit_example_run n M = Some 64 \<and> definitions M = {n}"
proof -
  let ?ctx = "\<lparr>cx_prunedEdges = [], cx_narrowedReturns = []\<rparr>"
  have ok: "jit_module_ok embed_example_module"
    by (simp add: jit_module_ok_def em_ok_def embed_example_module_def embed_example_function_def value_names_def refs_def fn_refs_def
        body_refs_def new_global_def alias_refs_def direct_calls_def tool_globals_def contains_def starts_with_def)
  have f: "find_pipeline jit_example_run ''app::flow'' embed_example_module = ''_Z4flow''"
    by code_simp
  have t: "transform_module jit_example_run [] JNull embed_example_module = Some embed_example_module"
    by (simp add: transform_module_def synthetic_symbols_def table_of_def read_parallel_def json_empty_def jit_example_run_def jit_example_env_def)
  have inv: "jit_inv jit_example_state" "sint (js_counter jit_example_state) < 2 ^ 31 - 1"
    by (simp_all add: jit_inv_def jit_example_state_def)
  have pp: "passes_preserve jit_example_run" by (simp add: passes_preserve_def jit_example_run_def jit_example_env_def)
  have "''_Z4flow'' \<in> definitions embed_example_module" using find_pipeline_defined [OF f] by simp
  then obtain M where M: "prepare_module jit_example_run ''_Z4flow'' (jit_symbol_name ''_Z4flow'' (js_counter jit_example_state)) embed_example_module = Some M"
    using jit_prepare [OF ok, of "''_Z4flow''"] by blast
  have "read_pipelines jit_example_run [] ?ctx = Some ([], JNull)" by (simp add: read_pipelines_def applyConstraints_def)
  then have run: "\<exists>s'. doSpecializeImpl jit_example_run ''app::flow'' ?ctx [1] [] jit_example_state = Some (Some 64, s')"
    using f t M by (simp add: doSpecializeImpl_def ensureJIT_def jit_example_state_def jit_example_run_def jit_example_env_def compile_module_def Let_def)
  have read: "\<forall>m. je_readBitcode jit_example_run [1] = Some m \<longrightarrow> jit_module_ok m"
    using ok by (simp add: jit_example_run_def)
  from run obtain s' where s': "doSpecializeImpl jit_example_run ''app::flow'' ?ctx [1] [] jit_example_state = Some (Some 64, s')" by blast
  from specialize_compiles_one_function [OF s' inv pp read] show ?thesis
    using s' by (auto simp: jit_example_state_def)
qed

section \<open>The payload in the image\<close>

definition platform_of :: "string \<Rightarrow> platform" where
  "platform_of triple =
     (if contains ''win32'' triple \<or> contains ''windows'' triple \<or> contains ''mingw'' triple then Windows
      else if contains ''apple'' triple \<or> contains ''darwin'' triple \<or> contains ''macos'' triple then Apple else Elf)"

text \<open>
  The linker keeps the name of a section; on Windows it merges the sections that differ after a dollar sign
  into the one without.
\<close>

definition linked_name :: "platform \<Rightarrow> string \<Rightarrow> string" where
  "linked_name pf s = (if pf = Windows then takeWhile (\<lambda>c. c \<noteq> CHR ''$'') s else s)"

definition linked_sections :: "em_module \<Rightarrow> (string \<times> u8 list) list" where
  "linked_sections m = map (\<lambda>g. (linked_name (platform_of (em_triple m)) (eg_section g), eg_data g)) (em_globals m)"

definition used_entries :: "em_module \<Rightarrow> string list" where
  "used_entries m = (case find (\<lambda>g. eg_name g = ''llvm.used'') (em_globals m) of None \<Rightarrow> [] | Some g \<Rightarrow> eg_init g)"

definition used_global :: "string list \<Rightarrow> em_global" where
  "used_global entries = (new_global ''llvm.used'' entries)\<lparr>eg_linkage := OtherLinkage, eg_section := ''llvm.metadata''\<rparr>"

definition payload_global :: "em_module \<Rightarrow> string \<Rightarrow> string \<Rightarrow> u8 list \<Rightarrow> em_global" where
  "payload_global m base name payload =
     (new_global name [])\<lparr>eg_data := payload, eg_section := getSectionName base (em_triple m), eg_visibility := HiddenVisibility\<rparr>"

text \<open>The module with a payload in a section of its own, and the list of used globals with it at the end.\<close>

definition after_embed :: "em_module \<Rightarrow> string \<Rightarrow> string \<Rightarrow> u8 list \<Rightarrow> em_module" where
  "after_embed m base name payload = m\<lparr>em_globals := filter (\<lambda>g. eg_name g \<noteq> ''llvm.used'') (em_globals m) @
     [payload_global m base name payload, used_global (used_entries m @ [name])]\<rparr>"

lemma embed_section_spec:
  assumes ok: "distinct (value_names m)" and used: "''llvm.used'' \<notin> refs m" and fresh: "name \<notin> set (value_names m)" "name \<noteq> ''llvm.used''"
    and fns: "''llvm.used'' \<notin> ef_name ` set (em_functions m)" "''llvm.used'' \<notin> ea_name ` set (em_aliases m)"
  shows "embed_section ev base name payload m = Some (after_embed m base name payload)"
proof -
  let ?gv = "payload_global m base name payload"
  let ?m = "add_global ?gv m"
  have n: "eg_name ?gv = name" "eg_init ?gv = []" by (simp_all add: payload_global_def new_global_def)
  have "value_names ?m = map ef_name (em_functions m) @ map eg_name (em_globals m) @ [name] @ map ea_name (em_aliases m)"
    by (simp add: value_names_def add_global_def n)
  then have d: "distinct (value_names ?m)" using ok fresh(1) by (auto simp: value_names_def)
  have r: "''llvm.used'' \<notin> refs ?m" using used by (auto simp: refs_def add_global_def n)
  have "each erase_named [''llvm.used''] ?m = Some (drop_globals {''llvm.used''} ?m)"
    using erase_named_globals [OF d, of "[''llvm.used'']"] r by simp
  then have e: "erase_named ''llvm.used'' ?m = Some (drop_globals {''llvm.used''} ?m)" by (simp split: option.splits)
  have u: "find (\<lambda>g. eg_name g = ''llvm.used'') (em_globals ?m) = find (\<lambda>g. eg_name g = ''llvm.used'') (em_globals m)"
    using fresh(2) by (simp add: add_global_def n find_app split: option.split)
  have g: "(new_global name [])\<lparr>eg_data := payload, eg_section := getSectionName base (em_triple m), eg_visibility := HiddenVisibility\<rparr> = ?gv"
    by (simp add: payload_global_def)
  have "embed_section ev base name payload m = addToUsed name ?m"
    using fresh(1) by (simp add: embed_section_def Let_def g)
  also have "\<dots> = Some (add_global (used_global (used_entries m @ [name])) (drop_globals {''llvm.used''} ?m))"
    by (simp add: addToUsed_def e u used_entries_def used_global_def)
  finally show ?thesis using fresh(2) by (simp add: add_global_def drop_globals_def n after_embed_def)
qed

text \<open>A module into which a payload can be embedded: the names of the payload and of the used list are free for it.\<close>

definition embeddable :: "em_module \<Rightarrow> bool" where
  "embeddable m \<longleftrightarrow> distinct (value_names m) \<and> ''llvm.used'' \<notin> refs m \<and>
     ''llvm.used'' \<notin> ef_name ` set (em_functions m) \<and> ''llvm.used'' \<notin> ea_name ` set (em_aliases m)"

lemma used_refs: "set (used_entries m) \<subseteq> refs m"
proof (cases "find (\<lambda>g. eg_name g = ''llvm.used'') (em_globals m)")
  case (Some g)
  then have "g \<in> set (em_globals m)" by (auto simp: find_Some_iff)
  then show ?thesis using Some by (auto simp: used_entries_def refs_def)
qed (simp add: used_entries_def)

lemma embeddable_after:
  assumes "embeddable m" and "name \<notin> set (value_names m)" and "name \<noteq> ''llvm.used''" and m': "m' = after_embed m base name payload"
  shows "embeddable m'" and "set (value_names m') \<subseteq> insert name (insert ''llvm.used'' (set (value_names m)))"
    and "used_entries m' = used_entries m @ [name]"
proof -
  note m'_def = m' [unfolded after_embed_def]
  have n: "eg_name (payload_global m base name payload) = name" "eg_init (payload_global m base name payload) = []"
    "eg_name (used_global es) = ''llvm.used''" "eg_init (used_global es) = es" for es
    by (simp_all add: payload_global_def used_global_def new_global_def)
  have v: "value_names m' = map ef_name (em_functions m) @ (filter (\<lambda>n. n \<noteq> ''llvm.used'') (map eg_name (em_globals m)) @ [name, ''llvm.used''])
      @ map ea_name (em_aliases m)"
    by (simp add: value_names_def m'_def n filter_map o_def)
  have "distinct (value_names m')"
    using assms(1-3) unfolding v embeddable_def by (auto simp: value_names_def)
  moreover have "''llvm.used'' \<notin> refs m'"
    using assms(1,3) used_refs [of m] by (auto simp: m'_def refs_def n embeddable_def)
  moreover have "em_functions m' = em_functions m" "em_aliases m' = em_aliases m" by (simp_all add: m'_def)
  ultimately show "embeddable m'" using assms(1) by (simp add: embeddable_def)
  show "set (value_names m') \<subseteq> insert name (insert ''llvm.used'' (set (value_names m)))" unfolding v by (auto simp: value_names_def)
  have "find (\<lambda>g. eg_name g = ''llvm.used'') (filter (\<lambda>g. eg_name g \<noteq> ''llvm.used'') gs) = None" for gs :: "em_global list"
    by (auto simp: find_None_iff)
  then show "used_entries m' = used_entries m @ [name]"
    using assms(3) unfolding used_entries_def [of m'] by (simp add: m'_def find_app n)
qed

lemma find_section:
  "(\<forall>g\<in>set gs. \<not> P (F g)) \<Longrightarrow> P (F g) \<Longrightarrow> find P (map F (gs @ g # rest)) = Some (F g)"
  by (induction gs) auto

lemma section_names:
  "linked_name (platform_of t) (getSectionName ''.topo_ir'' t) =
     (if platform_of t = Apple then ''__DATA,__topo_ir'' else ''.topo_ir'')"
  "linked_name (platform_of t) (getSectionName ''.tp_meta'' t) =
     (if platform_of t = Apple then ''__DATA,__tp_meta'' else ''.tp_meta'')"
  by (simp_all add: platform_of_def getSectionName_def linked_name_def)

text \<open>
  C33. What embedding writes is what the engine reads from the running program, on every platform, when the
  module had no such sections; and both globals are in the list that keeps them alive.
\<close>

theorem embedded_payload_is_read:
  assumes "embeddable m" and "bitcode \<noteq> []" and "metadata \<noteq> []"
    and "''topo_embedded_ir'' \<notin> set (value_names m)" and "''topo_embedded_meta'' \<notin> set (value_names m)"
    and "\<forall>p\<in>set (linked_sections m). \<not> section_matches (platform_of (em_triple m)) ''.topo_ir'' p \<and>
       \<not> section_matches (platform_of (em_triple m)) ''.tp_meta'' p"
  shows "\<exists>M. embed ev m bitcode metadata = Some M \<and>
     readSection (platform_of (em_triple m)) (linked_sections M) ''.topo_ir'' = bitcode \<and>
     readSection (platform_of (em_triple m)) (linked_sections M) ''.tp_meta'' = string_bytes metadata @ [0] \<and>
     used_entries M = used_entries m @ [''topo_embedded_ir'', ''topo_embedded_meta'']"
proof -
  let ?ir = "payload_global m ''.topo_ir'' ''topo_embedded_ir'' bitcode"
  let ?keep = "\<lambda>g :: em_global. eg_name g \<noteq> ''llvm.used''"
  let ?m1 = "after_embed m ''.topo_ir'' ''topo_embedded_ir'' bitcode"
  have e1: "embed_section ev ''.topo_ir'' ''topo_embedded_ir'' bitcode m = Some ?m1"
    using assms(1,4) by (intro embed_section_spec) (simp_all add: embeddable_def)
  note a = embeddable_after [OF assms(1,4) _ refl, of "''.topo_ir''" bitcode, simplified]
  let ?meta = "payload_global ?m1 ''.tp_meta'' ''topo_embedded_meta'' (string_bytes metadata @ [0])"
  let ?m2 = "after_embed ?m1 ''.tp_meta'' ''topo_embedded_meta'' (string_bytes metadata @ [0])"
  have fresh: "''topo_embedded_meta'' \<notin> set (value_names ?m1)" using a(2) assms(5) by auto
  have e2: "embed_section ev ''.tp_meta'' ''topo_embedded_meta'' (string_bytes metadata @ [0]) ?m1 = Some ?m2"
    using a(1) fresh unfolding embeddable_def by (intro embed_section_spec) simp_all
  have u: "used_entries ?m2 = used_entries m @ [''topo_embedded_ir'', ''topo_embedded_meta'']"
    using embeddable_after(3) [OF a(1) fresh _ refl, of "''.tp_meta''" "string_bytes metadata @ [0]"] a(3) by simp
  let ?F = "\<lambda>g. (linked_name (platform_of (em_triple m)) (eg_section g), eg_data g)"
  have g2: "em_globals ?m2 = filter ?keep (em_globals m) @ ?ir # ?meta # [used_global (used_entries ?m1 @ [''topo_embedded_meta''])]"
    by (simp add: after_embed_def payload_global_def used_global_def new_global_def)
  have t2: "em_triple ?m1 = em_triple m" "em_triple ?m2 = em_triple m" by (simp_all add: after_embed_def)
  have l2: "linked_sections ?m2 = map ?F (em_globals ?m2)" unfolding linked_sections_def t2 by simp
  have sir: "?F ?ir = (if platform_of (em_triple m) = Apple then ''__DATA,__topo_ir'' else ''.topo_ir'', bitcode)"
    by (simp add: payload_global_def section_names)
  have smeta: "?F ?meta = (if platform_of (em_triple m) = Apple then ''__DATA,__tp_meta'' else ''.tp_meta'', string_bytes metadata @ [0])"
    by (simp add: payload_global_def section_names t2)
  have old: "\<not> section_matches (platform_of (em_triple m)) s (?F g)" if "g \<in> set (em_globals m)" "s \<in> {''.topo_ir'', ''.tp_meta''}" for g s
    using assms(6) that by (auto simp: linked_sections_def)
  have m1: "section_matches (platform_of (em_triple m)) ''.topo_ir'' (?F ?ir)"
    unfolding sir using assms(2) by (cases "platform_of (em_triple m)") (simp_all add: section_matches_def)
  have m2: "section_matches (platform_of (em_triple m)) ''.tp_meta'' (?F ?meta)"
    unfolding smeta by (cases "platform_of (em_triple m)") (simp_all add: section_matches_def)
  have m3: "\<not> section_matches (platform_of (em_triple m)) ''.tp_meta'' (?F ?ir)"
    unfolding sir by (cases "platform_of (em_triple m)") (simp_all add: section_matches_def)
  have r1: "readSection (platform_of (em_triple m)) (linked_sections ?m2) ''.topo_ir'' = bitcode"
  proof -
    have "find (section_matches (platform_of (em_triple m)) ''.topo_ir'') (linked_sections ?m2) = Some (?F ?ir)"
      unfolding l2 g2 using old m1 by (intro find_section) auto
    then show ?thesis by (simp add: readSection_def sir)
  qed
  have r2: "readSection (platform_of (em_triple m)) (linked_sections ?m2) ''.tp_meta'' = string_bytes metadata @ [0]"
  proof -
    have "em_globals ?m2 = (filter ?keep (em_globals m) @ [?ir]) @ ?meta # [used_global (used_entries ?m1 @ [''topo_embedded_meta''])]"
      unfolding g2 by simp
    then have "find (section_matches (platform_of (em_triple m)) ''.tp_meta'') (linked_sections ?m2) = Some (?F ?meta)"
      unfolding l2 using old m2 m3 by (simp only:) (intro find_section, auto)
    then show ?thesis by (simp add: readSection_def smeta)
  qed
  have "embed ev m bitcode metadata = Some ?m2" using assms(2,3) e1 e2 by (simp add: embed_def)
  then show ?thesis using r1 r2 u t2 by (intro exI [of _ ?m2]) simp
qed

lemma embedded_payload_is_read_witness:
  "\<exists>M. embed embed_example_env embed_example_module [1, 2] ''{}'' = Some M \<and>
     readSection Elf (linked_sections M) ''.topo_ir'' = [1, 2] \<and> used_entries M = [''main'', ''topo_embedded_ir'', ''topo_embedded_meta'']"
proof -
  have "platform_of (em_triple embed_example_module) = Elf" by code_simp
  moreover have "embeddable embed_example_module"
    by (simp add: embeddable_def embed_example_module_def embed_example_function_def value_names_def refs_def fn_refs_def body_refs_def
        new_global_def)
  moreover have "\<forall>p\<in>set (linked_sections embed_example_module). \<not> section_matches Elf ''.topo_ir'' p \<and> \<not> section_matches Elf ''.tp_meta'' p"
    by code_simp
  moreover have "used_entries embed_example_module = [''main'']" by code_simp
  moreover have "''topo_embedded_ir'' \<notin> set (value_names embed_example_module)" "''topo_embedded_meta'' \<notin> set (value_names embed_example_module)"
    by code_simp+
  ultimately show ?thesis
    using embedded_payload_is_read [of embed_example_module "[1, 2]" "''{}''" embed_example_env] by auto
qed

section \<open>What is not checked\<close>

text \<open>Metadata that cannot be parsed are ignored: the pipeline is compiled as it was before code generation.\<close>

lemma unreadable_metadata_ignored:
  assumes "je_parse env (map (\<lambda>b. char_of (unat b)) metaData) = None" and "metaData \<noteq> []"
  shows "doSpecializeImpl env name ctx irData metaData s = doSpecializeImpl env name ctx irData [] s"
proof -
  have "read_pipelines env metaData ctx = read_pipelines env [] ctx" using assms by (simp add: read_pipelines_def parseMetadata_def)
  then show ?thesis by (simp only: doSpecializeImpl_def)
qed

text \<open>
  An edge without a source is read as one from the empty name; comparing it with a pattern first leaves a null
  in it, and reading that throws.
\<close>

lemma pruning_breaks_partial_edge:
  "read_edge (JObject [(''target'', JString ''b'')]) = Some \<lparr>fe_source = [], fe_target = ''b''\<rparr>"
  "prune_edges (''x'', ''y'') (JArray [JObject [(''target'', JString ''b'')]]) =
     Some (JArray [JObject [(''source'', JNull), (''target'', JString ''b'')]])"
  "read_edge (JObject [(''source'', JNull), (''target'', JString ''b'')]) = None"
  by (code_simp, code_simp, code_simp)

end
