(* ===== verification/VariantBench.thy ===== *)
theory VariantBench
  imports Double64 "HOL-Library.Multiset" "HOL-Library.Monad_Syntax"
begin

text \<open>
  lib/Backend/VariantBenchmark.cpp: a function is compiled into a self-contained program that prints
  its median time; a transformation wins when the transformed module is more than a tenth faster.
  Modules, LLVM, the compiler and the program that is run are parameters; the files of a measurement
  and the cache of baselines are state. The outer \<open>None\<close> of a result is not returning, which the
  search for the type behind a pointer argument can do.
\<close>

section \<open>The wrapper that calls the function\<close>

text \<open>
  What uses an argument: an address computation over a type, a call that passes the argument at
  some operand positions, or something else.
\<close>

datatype 'ty arg_user = GepUser 'ty | CallUser "string option" "nat list" | OtherUser

record 'ty bench_param =
  bp_pointer :: bool
  bp_users :: "'ty arg_user list"

record 'ty bench_function =
  bf_name :: string
  bf_params :: "'ty bench_param list"

definition users_of :: "'ty bench_function list \<Rightarrow> string \<Rightarrow> nat \<Rightarrow> 'ty arg_user list" where
  "users_of m f i =
     (case find (\<lambda>g. bf_name g = f) m of
        None \<Rightarrow> []
      | Some g \<Rightarrow> if i < length (bf_params g) then bp_users (bf_params g ! i) else [])"

text \<open>
  The recursion of \<open>inferPointeeType\<close> with the users that are still to be looked at: those of the
  callees come before the remaining users of the caller.
\<close>

partial_function (option) infer_users :: "'ty bench_function list \<Rightarrow> 'ty arg_user list \<Rightarrow> 'ty option option" where
  "infer_users m users =
     (case users of
        [] \<Rightarrow> Some None
      | user # rest \<Rightarrow>
          (case user of
             GepUser ty \<Rightarrow> Some (Some ty)
           | OtherUser \<Rightarrow> infer_users m rest
           | CallUser callee positions \<Rightarrow>
               (case callee of
                  None \<Rightarrow> infer_users m rest
                | Some f \<Rightarrow> infer_users m (concat (map (users_of m f) positions) @ rest))))"

definition inferPointeeType :: "'ty bench_function list \<Rightarrow> string \<Rightarrow> nat \<Rightarrow> 'ty option option" where
  "inferPointeeType m f i = infer_users m (users_of m f i)"

text \<open>An argument of the call: a buffer of bytes, an array of elements of a type, or a null value.\<close>

datatype 'ty bench_arg = ByteBuffer u64 | TypedBuffer 'ty u64 | NullValue

definition numElems :: "u64 option \<Rightarrow> u64 \<Rightarrow> u64" where
  "numElems bufferSizeBytes elemSize =
     (case bufferSizeBytes of
        Some bytes \<Rightarrow> if 0 < elemSize then (let n = bytes div elemSize in if n = 0 then 1 else n) else 1
      | None \<Rightarrow> 1)"

definition bench_arg ::
  "('ty \<Rightarrow> u64) \<Rightarrow> 'ty bench_function list \<Rightarrow> string \<Rightarrow> u64 option \<Rightarrow> nat \<times> 'ty bench_param \<Rightarrow> 'ty bench_arg option" where
  "bench_arg getTypeAllocSize m f bufferSizeBytes p =
     (if bp_pointer (snd p) then
        do { pointeeTy \<leftarrow> inferPointeeType m f (fst p);
             Some (case pointeeTy of
                None \<Rightarrow> ByteBuffer (case bufferSizeBytes of Some b \<Rightarrow> b | None \<Rightarrow> 256 * 1024)
              | Some ty \<Rightarrow> TypedBuffer ty (numElems bufferSizeBytes (getTypeAllocSize ty))) }
      else Some NullValue)"

fun all_some :: "'a option list \<Rightarrow> 'a list option" where
  "all_some [] = Some []"
| "all_some (None # xs) = None"
| "all_some (Some x # xs) = map_option ((#) x) (all_some xs)"

definition createBenchWrapper ::
  "('ty \<Rightarrow> u64) \<Rightarrow> 'ty bench_function list \<Rightarrow> string \<Rightarrow> u64 option \<Rightarrow> 'ty bench_arg list option option" where
  "createBenchWrapper getTypeAllocSize m target bufferSizeBytes =
     (case find (\<lambda>g. bf_name g = target) m of
        None \<Rightarrow> Some None
      | Some g \<Rightarrow>
          map_option Some
            (all_some (map (bench_arg getTypeAllocSize m target bufferSizeBytes) (enumerate 0 (bf_params g)))))"

section \<open>The program that is timed\<close>

text \<open>The embedded stub: seven samples of \<open>itersPerSample\<close> calls each, the median of the averages.\<close>

definition itersPerSample :: "int \<Rightarrow> int" where
  "itersPerSample iterations = (if iterations > 7 then iterations div 7 else 1)"

definition stub_calls :: "int \<Rightarrow> int \<Rightarrow> int" where
  "stub_calls warmup iterations = max 0 warmup + 7 * itersPerSample iterations"

section \<open>Measuring\<close>

record ('m, 'ty) bench_env =
  be_session :: bool
  be_clone :: "'m \<Rightarrow> 'm option"
  be_functions :: "'m \<Rightarrow> 'ty bench_function list"
  be_alloc_size :: "'ty \<Rightarrow> u64"
  be_add_wrapper :: "'ty bench_arg list \<Rightarrow> 'm \<Rightarrow> 'm"
  be_erase :: "string \<Rightarrow> 'm \<Rightarrow> 'm"
  be_optimize :: "nat \<Rightarrow> 'm \<Rightarrow> 'm"
  be_write :: "'m \<Rightarrow> bool"
  be_compile :: "'m \<Rightarrow> bool"
  be_link :: "'m \<Rightarrow> bool"
  be_execute :: "'m \<Rightarrow> int \<Rightarrow> int \<Rightarrow> nat \<Rightarrow> int \<times> string"
  be_strtod :: "string \<Rightarrow> double \<times> nat"
  be_objSuffix :: string
  be_exeSuffix :: string
  be_triple :: "'m \<Rightarrow> string"
  be_arch :: "string \<Rightarrow> string option"
  be_hostTriple :: string

record bench_state =
  bs_counter :: nat
  bs_files :: "string set"

definition isNativeTarget :: "('m, 'ty) bench_env \<Rightarrow> 'm \<Rightarrow> bool" where
  "isNativeTarget be m =
     (case be_arch be (be_triple be m) of
        None \<Rightarrow> True
      | Some arch \<Rightarrow> Some arch = be_arch be (be_hostTriple be))"

definition runOptPipeline :: "('m, 'ty) bench_env \<Rightarrow> int \<Rightarrow> 'm \<Rightarrow> 'm" where
  "runOptPipeline be optLevel m =
     (if optLevel \<le> 0 then m
      else be_optimize be (if optLevel = 1 then 1 else if optLevel = 3 then 3 else 2) m)"

text \<open>The program is run, and what it prints must start with a positive number.\<close>

definition parse_median :: "('m, 'ty) bench_env \<Rightarrow> int \<times> string \<Rightarrow> double option" where
  "parse_median be out =
     (case out of (exitCode, stdoutOutput) \<Rightarrow>
        if exitCode = 0 \<and> stdoutOutput \<noteq> [] then
          (let (val, consumed) = be_strtod be stdoutOutput
           in if consumed \<noteq> 0 \<and> dlt (Zero False) val then Some val else None)
        else None)"

text \<open>
  The steps from the finished module to the median, with the files they leave. A compiler or linker
  that fails leaves no output file. What a program prints depends on the run, which its number tells
  apart: the same module timed twice may give two medians.
\<close>

definition build_and_time ::
  "('m, 'ty) bench_env \<Rightarrow> int \<Rightarrow> int \<Rightarrow> 'm \<Rightarrow> bench_state \<Rightarrow> double option \<times> bench_state" where
  "build_and_time be warmup iterations m s =
     (let run = bs_counter s;
          prefix = ''bench_'' @ show_nat run;
          s = s\<lparr>bs_counter := bs_counter s + 1\<rparr>;
          bcPath = prefix @ ''.bc'';
          objPath = prefix @ be_objSuffix be;
          exePath = prefix @ be_exeSuffix be
      in if \<not> be_write be m then (None, s)
         else
           (let s = s\<lparr>bs_files := insert bcPath (bs_files s)\<rparr>
            in if \<not> be_compile be m then (None, s\<lparr>bs_files := bs_files s - {bcPath}\<rparr>)
               else
                 (let s = s\<lparr>bs_files := insert objPath (bs_files s)\<rparr>
                  in if \<not> be_link be m then (None, s\<lparr>bs_files := bs_files s - {bcPath} - {objPath}\<rparr>)
                     else
                       (let s = s\<lparr>bs_files := insert exePath (bs_files s)\<rparr>;
                            median = parse_median be (be_execute be m warmup iterations run)
                        in (median, s\<lparr>bs_files := bs_files s - {bcPath} - {objPath} - {exePath}\<rparr>)))))"

definition compileAndMeasure ::
  "('m, 'ty) bench_env \<Rightarrow> 'm \<Rightarrow> string \<Rightarrow> int \<Rightarrow> int \<Rightarrow> int \<Rightarrow> u64 option \<Rightarrow> bench_state \<Rightarrow>
   (double option \<times> bench_state) option" where
  "compileAndMeasure be srcModule target warmup iterations optLevel bufferElements s =
     (if \<not> be_session be then Some (None, s)
      else
        (case be_clone be srcModule of
           None \<Rightarrow> Some (None, s)
         | Some m \<Rightarrow>
             do { wrapper \<leftarrow> createBenchWrapper (be_alloc_size be) (be_functions be m) target
                    (map_option (\<lambda>n. n * 16) bufferElements);
                  Some (case wrapper of
                     None \<Rightarrow> (None, s)
                   | Some args \<Rightarrow>
                       (let m = be_add_wrapper be args m;
                            m = (if find (\<lambda>g. bf_name g = ''main'') (be_functions be m) \<noteq> None
                                 then be_erase be ''main'' m else m);
                            m = runOptPipeline be optLevel m
                        in build_and_time be warmup iterations m s)) }))"

section \<open>Comparing\<close>

datatype Winner = Baseline | Variant

record BenchmarkResult =
  br_winner :: Winner
  br_baselineMedianNs :: double
  br_variantMedianNs :: double
  br_speedup :: double

definition threshold :: double where
  "threshold = round_double (11 / 10)"

definition compare_medians :: "double \<Rightarrow> double \<Rightarrow> BenchmarkResult option" where
  "compare_medians baselineNs variantNs =
     (if dle baselineNs (Zero False) \<or> dle variantNs (Zero False) then None
      else
        (let speedup = ddiv baselineNs variantNs;
             winner = (if dlt threshold speedup then Variant else Baseline)
         in Some \<lparr>br_winner = winner, br_baselineMedianNs = baselineNs, br_variantMedianNs = variantNs,
                  br_speedup = speedup\<rparr>))"

text \<open>From the median of the baseline on, the two overloads of \<open>run\<close> are the same.\<close>

definition measure_variant ::
  "('m, 'ty) bench_env \<Rightarrow> 'm \<Rightarrow> string \<Rightarrow> ('m \<Rightarrow> 'm) \<Rightarrow> int \<Rightarrow> int \<Rightarrow> int \<Rightarrow> double \<Rightarrow> bench_state \<Rightarrow>
   (BenchmarkResult option \<times> bench_state) option" where
  "measure_variant be baseModule target applyVariant warmup iterations optLevel baselineNs s =
     (case be_clone be baseModule of
        None \<Rightarrow> Some (None, s)
      | Some cloned \<Rightarrow>
          do { (variantNs, s) \<leftarrow> compileAndMeasure be (applyVariant cloned) target warmup iterations optLevel None s;
               Some (case variantNs of
                  None \<Rightarrow> (None, s)
                | Some v \<Rightarrow> (compare_medians baselineNs v, s)) })"

definition run_benchmark ::
  "('m, 'ty) bench_env \<Rightarrow> 'm \<Rightarrow> string \<Rightarrow> ('m \<Rightarrow> 'm) \<Rightarrow> int \<Rightarrow> int \<Rightarrow> int \<Rightarrow> bench_state \<Rightarrow>
   (BenchmarkResult option \<times> bench_state) option" where
  "run_benchmark be baseModule target applyVariant warmup iterations optLevel s =
     (if \<not> isNativeTarget be baseModule then Some (None, s)
      else
        do { (baselineNs, s) \<leftarrow> compileAndMeasure be baseModule target warmup iterations optLevel None s;
             (case baselineNs of
                None \<Rightarrow> Some (None, s)
              | Some b \<Rightarrow> measure_variant be baseModule target applyVariant warmup iterations optLevel b s) })"

type_synonym BaselineCache = "(string \<times> double) list"

definition run_cached ::
  "('m, 'ty) bench_env \<Rightarrow> 'm \<Rightarrow> string \<Rightarrow> ('m \<Rightarrow> 'm) \<Rightarrow> int \<Rightarrow> int \<Rightarrow> int \<Rightarrow> BaselineCache \<times> bench_state \<Rightarrow>
   (BenchmarkResult option \<times> BaselineCache \<times> bench_state) option" where
  "run_cached be baseModule target applyVariant warmup iterations optLevel cs =
     (case cs of (cache, s) \<Rightarrow>
        if \<not> isNativeTarget be baseModule then Some (None, cache, s)
        else
          (case map_of cache target of
             Some b \<Rightarrow>
               map_option (\<lambda>(r, s). (r, cache, s))
                 (measure_variant be baseModule target applyVariant warmup iterations optLevel b s)
           | None \<Rightarrow>
               do { (baselineNs, s) \<leftarrow> compileAndMeasure be baseModule target warmup iterations optLevel None s;
                    (case baselineNs of
                       None \<Rightarrow> Some (None, cache, s)
                     | Some b \<Rightarrow>
                         map_option (\<lambda>(r, s). (r, AList.update target b cache, s))
                           (measure_variant be baseModule target applyVariant warmup iterations optLevel b s)) }))"

section \<open>The search for a pointee type ends\<close>

text \<open>
  A rank of the arguments that goes down along calls: it exists when no argument is handed around in
  a circle.
\<close>

definition args_ranked :: "'ty bench_function list \<Rightarrow> (string \<times> nat \<Rightarrow> nat) \<Rightarrow> bool" where
  "args_ranked m rank \<longleftrightarrow>
     (\<forall>f i g ps. CallUser (Some g) ps \<in> set (users_of m f i) \<longrightarrow> (\<forall>j\<in>set ps. rank (g, j) < rank (f, i)))"

fun user_rank :: "(string \<times> nat \<Rightarrow> nat) \<Rightarrow> 'ty arg_user \<Rightarrow> nat" where
  "user_rank rank (CallUser (Some g) ps) = Suc (Max (insert 0 ((\<lambda>j. Suc (rank (g, j))) ` set ps)))"
| "user_rank rank user = 0"

lemma user_rank_le:
  assumes "args_ranked m rank" and "user \<in> set (users_of m g j)"
  shows "user_rank rank user \<le> Suc (rank (g, j))"
proof (cases user)
  case (CallUser callee ps)
  show ?thesis
  proof (cases callee)
    case (Some h)
    have "\<forall>k\<in>set ps. rank (h, k) < rank (g, j)"
      using assms CallUser Some unfolding args_ranked_def by blast
    then have "Max (insert 0 ((\<lambda>k. Suc (rank (h, k))) ` set ps)) \<le> rank (g, j)" by auto
    with CallUser Some show ?thesis by simp
  qed (simp add: CallUser)
qed simp_all

lemma user_rank_call:
  assumes "args_ranked m rank" and "j \<in> set ps" and "user \<in> set (users_of m g j)"
  shows "user_rank rank user < user_rank rank (CallUser (Some g) ps)"
proof -
  have "Suc (rank (g, j)) \<le> Max (insert 0 ((\<lambda>j. Suc (rank (g, j))) ` set ps))"
    using assms(2) by (intro Max_ge) auto
  with user_rank_le [OF assms(1,3)] show ?thesis by simp
qed

lemma infer_users_returns:
  assumes "args_ranked m rank"
  shows "\<exists>r. infer_users m users = Some r"
proof (induction "mset (map (user_rank rank) users)" arbitrary: users
    rule: wf_induct_rule [OF wf_mult [OF wf_less_than]])
  case (1 users)
  show ?case
  proof (cases users)
    case Nil
    then show ?thesis by (subst infer_users.simps) simp
  next
    case (Cons user rest)
    have drop: "\<exists>r. infer_users m rest = Some r"
    proof (rule 1)
      show "(mset (map (user_rank rank) rest), mset (map (user_rank rank) users)) \<in> mult less_than"
        using one_step_implies_mult [of "{#user_rank rank user#}" "{#}" less_than "mset (map (user_rank rank) rest)"]
        by (simp add: Cons)
    qed
    show ?thesis
    proof (cases user)
      case (CallUser callee ps)
      show ?thesis
      proof (cases callee)
        case None
        with drop Cons CallUser show ?thesis by (subst infer_users.simps) simp
      next
        case (Some g)
        let ?new = "concat (map (users_of m g) ps)"
        have "\<exists>r. infer_users m (?new @ rest) = Some r"
        proof (rule 1)
          have "\<forall>k\<in>set_mset (mset (map (user_rank rank) ?new)). \<exists>j\<in>set_mset {#user_rank rank user#}. (k, j) \<in> less_than"
            using user_rank_call [OF assms] CallUser Some by auto
          then show "(mset (map (user_rank rank) (?new @ rest)), mset (map (user_rank rank) users)) \<in> mult less_than"
            using one_step_implies_mult [of "{#user_rank rank user#}" "mset (map (user_rank rank) ?new)" less_than
                "mset (map (user_rank rank) rest)"]
            by (simp add: Cons union_commute)
        qed
        then show ?thesis using Cons CallUser Some by (subst infer_users.simps) simp
      qed
    next
      case (GepUser ty)
      then show ?thesis using Cons by (subst infer_users.simps) simp
    next
      case OtherUser
      then show ?thesis using drop Cons by (subst infer_users.simps) simp
    qed
  qed
qed

lemma all_some_Some: "\<forall>x\<in>set xs. x \<noteq> None \<Longrightarrow> \<exists>ys. all_some xs = Some ys \<and> length ys = length xs"
proof (induction xs)
  case (Cons x xs)
  then show ?case by (cases x) auto
qed simp

lemma createBenchWrapper_returns:
  assumes "args_ranked m rank"
  shows "\<exists>w. createBenchWrapper sz m target buf = Some w"
proof (cases "find (\<lambda>g. bf_name g = target) m")
  case (Some g)
  have "bench_arg sz m target buf p \<noteq> None" for p
    using infer_users_returns [OF assms, of "users_of m target (fst p)"]
    by (auto simp: bench_arg_def inferPointeeType_def)
  then have "\<exists>ys. all_some (map (bench_arg sz m target buf) (enumerate 0 (bf_params g))) = Some ys"
    using all_some_Some [of "map (bench_arg sz m target buf) (enumerate 0 (bf_params g))"] by auto
  with Some show ?thesis by (auto simp: createBenchWrapper_def)
qed (simp add: createBenchWrapper_def)

text \<open>A function that hands an argument on to itself is searched for ever.\<close>

definition self_caller :: "string \<Rightarrow> 'ty bench_function" where
  "self_caller f = \<lparr>bf_name = f, bf_params = [\<lparr>bp_pointer = True, bp_users = [CallUser (Some f) [0]]\<rparr>]\<rparr>"


lemma infer_users_circle:
  assumes "infer_users m us = Some r"
  shows "us \<noteq> [] \<longrightarrow> users_of m f 0 = [CallUser (Some f) [0]] \<longrightarrow> list_all (\<lambda>u. u = CallUser (Some f) [0]) us \<longrightarrow> False"
proof (rule infer_users.raw_induct [OF _ assms], intro impI)
  fix infer :: "'a bench_function list \<Rightarrow> 'a arg_user list \<Rightarrow> 'a option option" and m us r
  assume ih: "\<And>m us r. infer m us = Some r \<Longrightarrow>
      us \<noteq> [] \<longrightarrow> users_of m f 0 = [CallUser (Some f) [0]] \<longrightarrow> list_all (\<lambda>u. u = CallUser (Some f) [0]) us \<longrightarrow> False"
    and step: "(case us of
        [] \<Rightarrow> Some None
      | user # rest \<Rightarrow>
          (case user of
             GepUser ty \<Rightarrow> Some (Some ty)
           | OtherUser \<Rightarrow> infer m rest
           | CallUser callee positions \<Rightarrow>
               (case callee of
                  None \<Rightarrow> infer m rest
                | Some f \<Rightarrow> infer m (concat (map (users_of m f) positions) @ rest)))) = Some r"
    and us: "us \<noteq> []" "users_of m f 0 = [CallUser (Some f) [0]]" "list_all (\<lambda>u. u = CallUser (Some f) [0]) us"
  then obtain rest where rest: "us = CallUser (Some f) [0] # rest" by (cases us) auto
  have "infer m (CallUser (Some f) [0] # rest) = Some r" using step us unfolding rest by simp
  from ih [OF this] us show False by (simp add: rest)
qed

lemma circular_argument_never_returns:
  assumes "users_of m f 0 = [CallUser (Some f) [0]]"
  shows "inferPointeeType m f 0 = None"
proof (cases "inferPointeeType m f 0")
  case (Some r)
  then have "infer_users m [CallUser (Some f) [0]] = Some r" by (simp add: inferPointeeType_def assms)
  from infer_users_circle [OF this, of f] assms show ?thesis by simp
qed

section \<open>Measuring leaves nothing behind\<close>

text \<open>The median a module gives when it is timed in the run of a number; it does not depend on the files.\<close>

definition median_at ::
  "('m, 'ty) bench_env \<Rightarrow> int \<Rightarrow> int \<Rightarrow> int \<Rightarrow> 'm \<Rightarrow> string \<Rightarrow> nat \<Rightarrow> double option option" where
  "median_at be w i lvl m target run =
     map_option fst (compileAndMeasure be m target w i lvl None \<lparr>bs_counter = run, bs_files = {}\<rparr>)"

lemma build_and_time_result:
  "bs_counter s = bs_counter s' \<Longrightarrow> fst (build_and_time be w i m s) = fst (build_and_time be w i m s')"
  by (simp add: build_and_time_def Let_def)

lemma compileAndMeasure_median:
  "map_option fst (compileAndMeasure be m target w i lvl None s) = median_at be w i lvl m target (bs_counter s)"
  using build_and_time_result [of s "\<lparr>bs_counter = bs_counter s, bs_files = {}\<rparr>"]
  by (auto simp: median_at_def compileAndMeasure_def Let_def option.map_comp o_def split: option.splits bind_splits)

text \<open>A program is timed at most once, and one that gives a median was.\<close>

lemma compileAndMeasure_counter:
  assumes "compileAndMeasure be m target w i lvl buf s = Some (r, s')"
  shows "bs_counter s \<le> bs_counter s' \<and> bs_counter s' \<le> bs_counter s + 1 \<and> (r \<noteq> None \<longrightarrow> bs_counter s' = bs_counter s + 1)"
  using assms
  by (auto simp: compileAndMeasure_def build_and_time_def Let_def split: option.splits if_splits bind_splits)

lemma compileAndMeasure_files:
  assumes "compileAndMeasure be m target w i lvl buf s = Some (r, s')" and "bs_files s = {}"
  shows "bs_files s' = {}"
  using assms
  by (auto simp: compileAndMeasure_def build_and_time_def Let_def split: option.splits if_splits bind_splits)

lemma measure_variant_files:
  assumes "measure_variant be m target f w i lvl b s = Some (r, s')" and "bs_files s = {}"
  shows "bs_files s' = {}"
  using assms compileAndMeasure_files
  by (fastforce simp: measure_variant_def split: option.splits bind_splits)

section \<open>Winners are faster\<close>

lemma threshold_Num: "\<exists>t. threshold = Num t \<and> 1 \<le> t"
proof -
  have "two_pow (- 1022) \<le> two_pow 0" "two_pow 1 \<le> two_pow 1023" by (rule two_pow_mono, simp)+
  moreover have "two_pow 1 = 2" by (simp add: two_pow_def)
  ultimately have "threshold = Num (round_pos (11 / 10))"
    unfolding threshold_def by (intro round_double_normal) simp_all
  moreover have "1 \<le> round_pos (11 / 10)" using round_pos_ge [of 0 "11 / 10"] by simp
  ultimately show ?thesis by blast
qed

lemma dlt_NaN [simp]: "\<not> dlt x NaN"
  by (cases x) simp_all

lemma round_double_le_1:
  assumes "0 < r" and "r \<le> 1"
  shows "\<not> dlt threshold (round_double r)"
proof -
  obtain t where t: "threshold = Num t" "1 \<le> t" using threshold_Num by blast
  have p: "round_pos r \<le> 1" using round_pos_le [of r 0] assms by simp
  moreover have "(1 :: rat) < two_pow 1024" by (simp add: two_pow_def)
  ultimately have "\<not> two_pow 1024 \<le> round_pos r" by linarith
  with assms p t(2) show ?thesis unfolding t(1) by (simp add: round_double_def Let_def)
qed

lemma speedup_means_faster:
  assumes "dlt threshold (ddiv b v)" and "\<not> dle b (Zero False)" and "\<not> dle v (Zero False)"
  shows "dlt v b"
proof -
  obtain t where t: "threshold = Num t" "1 \<le> t" using threshold_Num by blast
  note assms = assms [unfolded t(1)]
  show ?thesis
  proof (cases b)
    case (Num r)
    show ?thesis
    proof (cases v)
      case (Num q)
      with \<open>b = Num r\<close> assms have pos: "0 < r" "0 < q" by auto
      show ?thesis
      proof (rule ccontr)
        assume "\<not> dlt v b"
        with Num \<open>b = Num r\<close> have "r / q \<le> 1" using pos by (simp add: divide_le_eq)
        with round_double_le_1 [of "r / q", unfolded t(1)] pos Num \<open>b = Num r\<close> assms(1) show False by simp
      qed
    qed (use assms Num t(2) in auto)
  next
    case (Infinity s)
    then show ?thesis using assms by (cases v) auto
  qed (use assms in auto)
qed

section \<open>Cached baselines\<close>

definition measured :: "('m, 'ty) bench_env \<Rightarrow> int \<Rightarrow> int \<Rightarrow> int \<Rightarrow> 'm \<Rightarrow> string \<Rightarrow> double \<Rightarrow> bool" where
  "measured be w i lvl m target b \<longleftrightarrow> (\<exists>run. median_at be w i lvl m target run = Some (Some b))"

text \<open>Every cached baseline was measured on this module in some run.\<close>

definition cache_current :: "('m, 'ty) bench_env \<Rightarrow> int \<Rightarrow> int \<Rightarrow> int \<Rightarrow> 'm \<Rightarrow> BaselineCache \<Rightarrow> bool" where
  "cache_current be w i lvl m cache \<longleftrightarrow>
     (\<forall>target b. map_of cache target = Some b \<longrightarrow> measured be w i lvl m target b)"

text \<open>The benchmark of a module returns when no pointer argument of its clone is handed round in a circle.\<close>

definition bench_returns :: "('m, 'ty) bench_env \<Rightarrow> 'm \<Rightarrow> bool" where
  "bench_returns be m \<longleftrightarrow> (\<forall>c. be_clone be m = Some c \<longrightarrow> (\<exists>rank. args_ranked (be_functions be c) rank))"

definition benchmarks_return :: "('m, 'ty) bench_env \<Rightarrow> bool" where
  "benchmarks_return be \<longleftrightarrow> (\<forall>m. \<exists>rank. args_ranked (be_functions be m) rank)"

lemma benchmarks_return_all: "benchmarks_return be \<Longrightarrow> bench_returns be m"
  by (simp add: benchmarks_return_def bench_returns_def)

lemma bench_returns_measures:
  assumes "bench_returns be m"
  shows "\<exists>r s'. compileAndMeasure be m target w i lvl n s = Some (r, s')"
proof (cases "be_clone be m")
  case (Some c)
  obtain rank where "args_ranked (be_functions be c) rank" using assms Some by (auto simp: bench_returns_def)
  from createBenchWrapper_returns [OF this, of "be_alloc_size be" target "map_option (\<lambda>n. n * 16) n"] Some
  show ?thesis by (auto simp: compileAndMeasure_def Let_def split: option.splits)
qed (simp add: compileAndMeasure_def)

lemma compileAndMeasure_returns:
  assumes "bench_returns be m"
  obtains r s' where "compileAndMeasure be m target w i lvl None s = Some (r, s')"
    and "median_at be w i lvl m target (bs_counter s) = Some r"
proof -
  obtain r s' where r: "compileAndMeasure be m target w i lvl None s = Some (r, s')"
    using bench_returns_measures [OF assms] by blast
  with compileAndMeasure_median [of be m target w i lvl s] show thesis by (intro that) auto
qed

text \<open>What the comparison says of the two medians.\<close>

lemma compare_medians_faster:
  "compare_medians b v = Some r \<Longrightarrow>
   br_baselineMedianNs r = b \<and> br_variantMedianNs r = v \<and> (br_winner r = Variant \<longleftrightarrow> dlt threshold (ddiv b v)) \<and>
   (br_winner r = Variant \<longrightarrow> dlt v b)"
  by (auto simp: compare_medians_def Let_def intro: speedup_means_faster split: if_splits)

definition variant_faster ::
  "('m, 'ty) bench_env \<Rightarrow> int \<Rightarrow> int \<Rightarrow> int \<Rightarrow> 'm \<Rightarrow> ('m \<Rightarrow> 'm) \<Rightarrow> string \<Rightarrow> bool" where
  "variant_faster be w i lvl m f target \<longleftrightarrow>
     (\<exists>c b v. be_clone be m = Some c \<and> measured be w i lvl m target b \<and>
        measured be w i lvl (f c) target v \<and> dlt v b)"

text \<open>What a result says: the baseline it was compared with, and a run of the variant between two states.\<close>

definition fair_result ::
  "('m, 'ty) bench_env \<Rightarrow> int \<Rightarrow> int \<Rightarrow> int \<Rightarrow> 'm \<Rightarrow> ('m \<Rightarrow> 'm) \<Rightarrow> string \<Rightarrow> double \<Rightarrow> nat \<Rightarrow> nat \<Rightarrow> BenchmarkResult \<Rightarrow> bool" where
  "fair_result be w i lvl m f target b lo hi r \<longleftrightarrow>
     br_baselineMedianNs r = b \<and>
     (\<exists>c run. be_clone be m = Some c \<and> lo \<le> run \<and> run < hi \<and>
        median_at be w i lvl (f c) target run = Some (Some (br_variantMedianNs r))) \<and>
     (br_winner r = Variant \<longleftrightarrow> dlt threshold (ddiv b (br_variantMedianNs r))) \<and>
     (br_winner r = Variant \<longrightarrow> dlt (br_variantMedianNs r) b)"

lemma measure_variant_fair:
  assumes "\<And>c. be_clone be m = Some c \<Longrightarrow> bench_returns be (f c)"
  obtains res s' where "measure_variant be m target f w i lvl b s = Some (res, s')"
    and "bs_counter s \<le> bs_counter s' \<and> bs_counter s' \<le> bs_counter s + 1"
    and "\<forall>r. res = Some r \<longrightarrow> fair_result be w i lvl m f target b (bs_counter s) (bs_counter s') r"
proof (cases "be_clone be m")
  case None
  then show thesis by (intro that) (auto simp: measure_variant_def)
next
  case (Some c)
  obtain v s' where v: "compileAndMeasure be (f c) target w i lvl None s = Some (v, s')"
      "median_at be w i lvl (f c) target (bs_counter s) = Some v"
    by (rule compileAndMeasure_returns [OF assms [OF Some]])
  note n = compileAndMeasure_counter [OF v(1)]
  let ?res = "case v of None \<Rightarrow> None | Some v \<Rightarrow> compare_medians b v"
  show thesis
  proof (rule that)
    show "measure_variant be m target f w i lvl b s = Some (?res, s')"
      using Some v(1) by (simp add: measure_variant_def split: option.split)
    show "bs_counter s \<le> bs_counter s' \<and> bs_counter s' \<le> bs_counter s + 1" using n by blast
    show "\<forall>r. ?res = Some r \<longrightarrow> fair_result be w i lvl m f target b (bs_counter s) (bs_counter s') r"
    proof (intro allI impI)
      fix r assume r: "?res = Some r"
      then obtain x where x: "v = Some x" "compare_medians b x = Some r" by (auto split: option.splits)
      from compare_medians_faster [OF x(2)] v(2) x(1) n Some
      show "fair_result be w i lvl m f target b (bs_counter s) (bs_counter s') r"
        unfolding fair_result_def by (intro conjI exI [of _ c] exI [of _ "bs_counter s"]) auto
    qed
  qed
qed

text \<open>What a call does with the cache, the clock and the files.\<close>

definition cached_run_ok ::
  "('m, 'ty) bench_env \<Rightarrow> int \<Rightarrow> int \<Rightarrow> int \<Rightarrow> 'm \<Rightarrow> ('m \<Rightarrow> 'm) \<Rightarrow> string \<Rightarrow>
   BaselineCache \<times> bench_state \<Rightarrow> BenchmarkResult option \<times> BaselineCache \<times> bench_state \<Rightarrow> bool" where
  "cached_run_ok be w i lvl m f target before after \<longleftrightarrow>
     (case (before, after) of ((cache, s), (res, cache', s')) \<Rightarrow>
        (\<forall>t b. map_of cache t = Some b \<longrightarrow> map_of cache' t = Some b) \<and>
        (\<forall>t b. map_of cache' t = Some b \<longrightarrow> map_of cache t = Some b \<or>
           t = target \<and> median_at be w i lvl m target (bs_counter s) = Some (Some b)) \<and>
        (\<forall>r. res = Some r \<longrightarrow> isNativeTarget be m \<and>
           (\<exists>b. map_of cache' target = Some b \<and> fair_result be w i lvl m f target b (bs_counter s) (bs_counter s') r)) \<and>
        bs_counter s' \<le> bs_counter s + (if map_of cache target = None then 2 else 1) \<and>
        (bs_files s = {} \<longrightarrow> bs_files s' = {}))"

lemma fair_result_mono: "fair_result be w i lvl m f target b lo hi r \<Longrightarrow> lo' \<le> lo \<Longrightarrow> fair_result be w i lvl m f target b lo' hi r"
  unfolding fair_result_def using order_trans by blast

lemma run_cached_ok:
  assumes "bench_returns be m" and "\<And>c. be_clone be m = Some c \<Longrightarrow> bench_returns be (f c)"
  shows "\<exists>after. run_cached be m target f w i lvl (cache, s) = Some after \<and>
    cached_run_ok be w i lvl m f target (cache, s) after"
proof (cases "isNativeTarget be m")
  case True
  show ?thesis
  proof (cases "map_of cache target")
    case (Some b)
    obtain res s' where res: "measure_variant be m target f w i lvl b s = Some (res, s')"
        "bs_counter s \<le> bs_counter s' \<and> bs_counter s' \<le> bs_counter s + 1"
        "\<forall>r. res = Some r \<longrightarrow> fair_result be w i lvl m f target b (bs_counter s) (bs_counter s') r"
      by (rule measure_variant_fair [where f = f, OF assms(2)])
    show ?thesis
    proof (intro exI conjI)
      show "run_cached be m target f w i lvl (cache, s) = Some (res, cache, s')"
        using True Some res(1) by (simp add: run_cached_def)
      show "cached_run_ok be w i lvl m f target (cache, s) (res, cache, s')"
        using True Some res(2,3) measure_variant_files [OF res(1)] by (simp add: cached_run_ok_def)
    qed
  next
    case None
    obtain v s1 where v: "compileAndMeasure be m target w i lvl None s = Some (v, s1)"
        "median_at be w i lvl m target (bs_counter s) = Some v"
      by (rule compileAndMeasure_returns [OF assms(1)])
    note n = compileAndMeasure_counter [OF v(1)]
    show ?thesis
    proof (cases v)
      case None
      with True v(1) \<open>map_of cache target = None\<close> n compileAndMeasure_files [OF v(1)]
      show ?thesis by (simp add: run_cached_def cached_run_ok_def)
    next
      case (Some b)
      obtain res s' where res: "measure_variant be m target f w i lvl b s1 = Some (res, s')"
          "bs_counter s1 \<le> bs_counter s' \<and> bs_counter s' \<le> bs_counter s1 + 1"
          "\<forall>r. res = Some r \<longrightarrow> fair_result be w i lvl m f target b (bs_counter s1) (bs_counter s') r"
        by (rule measure_variant_fair [where f = f, OF assms(2)])
      have fair: "\<forall>r. res = Some r \<longrightarrow> fair_result be w i lvl m f target b (bs_counter s) (bs_counter s') r"
      proof (intro allI impI)
        fix r assume "res = Some r"
        with res(3) have "fair_result be w i lvl m f target b (bs_counter s1) (bs_counter s') r" by simp
        from fair_result_mono [OF this conjunct1 [OF n]]
        show "fair_result be w i lvl m f target b (bs_counter s) (bs_counter s') r" .
      qed
      show ?thesis
      proof (intro exI conjI)
        show "run_cached be m target f w i lvl (cache, s) = Some (res, AList.update target b cache, s')"
          using True None Some v(1) res(1) by (simp add: run_cached_def)
        show "cached_run_ok be w i lvl m f target (cache, s) (res, AList.update target b cache, s')"
          using True None Some v(2) n res(2) fair compileAndMeasure_files [OF v(1)] measure_variant_files [OF res(1)]
          by (auto simp: cached_run_ok_def amap_simps)
      qed
    qed
  qed
next
  case False
  then show ?thesis by (simp add: run_cached_def cached_run_ok_def)
qed

lemma run_cached_miss:
  assumes "map_of cache target = None"
  shows "map_option (\<lambda>(res, cache', s'). (res, s')) (run_cached be m target f w i lvl (cache, s)) =
    run_benchmark be m target f w i lvl s"
proof (cases "isNativeTarget be m")
  case True
  have e: "map_option (\<lambda>(res, cache', s'). (res, s')) (map_option (\<lambda>(r, s). (r, c, s)) x) = x"
    for x :: "(BenchmarkResult option \<times> bench_state) option" and c :: BaselineCache
    by (cases x) auto
  show ?thesis
  proof (cases "compileAndMeasure be m target w i lvl None s")
    case (Some rs)
    then show ?thesis using True assms e by (cases rs; cases "fst rs") (auto simp: run_cached_def run_benchmark_def)
  qed (use True assms in \<open>simp add: run_cached_def run_benchmark_def\<close>)
qed (simp add: run_cached_def run_benchmark_def)

text \<open>For the passes: a current cache stays current, and a variant that wins was measured faster.\<close>

lemma run_cached_sound:
  assumes "benchmarks_return be" and "cache_current be w i lvl m cache"
  shows "\<exists>res cache' s'. run_cached be m target f w i lvl (cache, s) = Some (res, cache', s') \<and>
    cache_current be w i lvl m cache' \<and>
    (\<forall>r. res = Some r \<and> br_winner r = Variant \<longrightarrow> variant_faster be w i lvl m f target)"
proof -
  obtain res cache' s' where run: "run_cached be m target f w i lvl (cache, s) = Some (res, cache', s')"
    and ok: "cached_run_ok be w i lvl m f target (cache, s) (res, cache', s')"
    using run_cached_ok [of be m f, OF benchmarks_return_all benchmarks_return_all, OF assms(1,1)] by (metis surj_pair)
  have cur: "cache_current be w i lvl m cache'"
    unfolding cache_current_def
  proof (intro allI impI)
    fix t b assume "map_of cache' t = Some b"
    with ok have "map_of cache t = Some b \<or> t = target \<and> median_at be w i lvl m target (bs_counter s) = Some (Some b)"
      by (simp add: cached_run_ok_def)
    with assms(2) show "measured be w i lvl m t b" by (auto simp: cache_current_def measured_def)
  qed
  have "variant_faster be w i lvl m f target" if r: "res = Some r" "br_winner r = Variant" for r
  proof -
    from ok r(1) obtain b where b: "map_of cache' target = Some b"
      "fair_result be w i lvl m f target b (bs_counter s) (bs_counter s') r"
      unfolding cached_run_ok_def by auto
    from b(2) r(2) obtain c run where "be_clone be m = Some c"
      "median_at be w i lvl (f c) target run = Some (Some (br_variantMedianNs r))" "dlt (br_variantMedianNs r) b"
      by (auto simp: fair_result_def)
    moreover have "measured be w i lvl m target b" using cur b(1) by (simp add: cache_current_def)
    ultimately show ?thesis unfolding variant_faster_def measured_def by blast
  qed
  with run cur show ?thesis by blast
qed

text \<open>
  C26. A cached benchmark of a module, when no pointer argument is handed round in a circle in its clone or in the
  variant, returns. Baselines in the cache stay; at most the one of the function is added, as the first
  run of the call measured it. A result compares the cached baseline with a run of the variant in this
  very call, the variant wins exactly above the threshold, and then it was strictly faster. A hit runs one program,
  a miss two and is the uncached benchmark; no temporary file is left. Medians differ from run to run.
\<close>

theorem cached_benchmark_sound:
  assumes "bench_returns be m" and "\<And>c. be_clone be m = Some c \<Longrightarrow> bench_returns be (f c)"
  shows "\<exists>res cache' s'. run_cached be m target f w i lvl (cache, s) = Some (res, cache', s') \<and>
    (\<forall>t b. map_of cache t = Some b \<longrightarrow> map_of cache' t = Some b) \<and>
    (\<forall>t b. map_of cache' t = Some b \<longrightarrow> map_of cache t = Some b \<or>
       t = target \<and> median_at be w i lvl m target (bs_counter s) = Some (Some b)) \<and>
    (\<forall>r. res = Some r \<longrightarrow> isNativeTarget be m \<and>
       (\<exists>b. map_of cache' target = Some b \<and> fair_result be w i lvl m f target b (bs_counter s) (bs_counter s') r)) \<and>
    (if map_of cache target = None
     then bs_counter s' \<le> bs_counter s + 2 \<and> run_benchmark be m target f w i lvl s = Some (res, s')
     else bs_counter s' \<le> bs_counter s + 1) \<and>
    (bs_files s = {} \<longrightarrow> bs_files s' = {})"
proof -
  obtain res cache' s' where run: "run_cached be m target f w i lvl (cache, s) = Some (res, cache', s')"
    and ok: "cached_run_ok be w i lvl m f target (cache, s) (res, cache', s')"
    using run_cached_ok [of be m f, OF assms] by (metis surj_pair)
  have "map_of cache target = None \<Longrightarrow> run_benchmark be m target f w i lvl s = Some (res, s')"
    using run_cached_miss [of cache target be m f w i lvl s] run by simp
  with run ok show ?thesis by (intro exI [of _ res] exI [of _ cache'] exI [of _ s']) (auto simp: cached_run_ok_def)
qed

text \<open>A module is a number: the transformation makes 0, which takes 100 ns, into 1, which takes 50.\<close>

definition example_bench :: "(nat, nat) bench_env" where
  "example_bench =
     \<lparr>be_session = True, be_clone = Some, be_functions = (\<lambda>_. [\<lparr>bf_name = ''run'', bf_params = []\<rparr>]),
      be_alloc_size = (\<lambda>_. 8), be_add_wrapper = (\<lambda>_ m. m), be_erase = (\<lambda>_ m. m), be_optimize = (\<lambda>_ m. m),
      be_write = (\<lambda>_. True), be_compile = (\<lambda>_. True), be_link = (\<lambda>_. True),
      be_execute = (\<lambda>m _ _ _. (0, if m = 0 then ''100.00'' else ''50.00'')),
      be_strtod = (\<lambda>t. (if t = ''100.00'' then Num 100 else Num 50, length t)),
      be_objSuffix = ''.o'', be_exeSuffix = [], be_triple = (\<lambda>_. ''x86_64''), be_arch = Some, be_hostTriple = ''x86_64''\<rparr>"

lemma example_bench_ranked: "bench_returns example_bench m"
  by (auto simp: bench_returns_def args_ranked_def example_bench_def users_of_def)

lemma cached_benchmark_sound_witness:
  "\<exists>res cache' s'. run_cached example_bench 0 ''run'' Suc 3 7 2 ([(''run'', Num 70)], \<lparr>bs_counter = 0, bs_files = {}\<rparr>) = Some (res, cache', s') \<and>
     map_of cache' ''run'' = Some (Num 70) \<and> bs_counter s' \<le> 1 \<and> bs_files s' = {}"
proof -
  have "map_of [(''run'', Num 70)] ''run'' = Some (Num 70)" by simp
  with cached_benchmark_sound [of example_bench 0 Suc, OF example_bench_ranked example_bench_ranked,
      of "''run''" 3 7 2 "[(''run'', Num 70)]" "\<lparr>bs_counter = 0, bs_files = {}\<rparr>"]
  show ?thesis by (auto split: if_splits)
qed

text \<open>
  A cache kept over a change of the module: a variant that does not differ from the module wins when
  the cached baseline is that of a slower module.
\<close>

lemma threshold_less_4: "dlt threshold (ddiv (Num 200) (Num 50))"
proof -
  have "two_pow (- 1022) \<le> two_pow 0" "two_pow 2 \<le> two_pow 1023" by (rule two_pow_mono, simp)+
  moreover have "two_pow 2 = 4" "two_pow 1 = 2" by (simp_all add: two_pow_def)
  ultimately have t: "threshold = Num (round_pos (11 / 10))" and "round_double 4 = Num (round_pos 4)"
    unfolding threshold_def by (intro round_double_normal; simp)+
  moreover have "round_pos (11 / 10) \<le> 2" using round_pos_le [of "11 / 10" 1] \<open>two_pow 1 = 2\<close> by simp
  moreover have "4 \<le> round_pos 4" using round_pos_ge [of 2 4] \<open>two_pow 2 = 4\<close> by simp
  ultimately show ?thesis unfolding t by simp
qed

lemma stale_baseline_wins:
  assumes "k \<noteq> 0"
  shows "\<exists>r s'. run_cached example_bench k ''run'' (\<lambda>m. m) 3 7 2 ([(''run'', Num 200)], s) = Some (Some r, [(''run'', Num 200)], s') \<and>
     br_winner r = Variant \<and> br_variantMedianNs r = Num 50 \<and> (\<forall>run. median_at example_bench 3 7 2 k ''run'' run = Some (Some (Num 50)))"
proof -
  have m: "fst (build_and_time example_bench 3 7 k s) = Some (Num 50)" for s
    using assms by (simp add: build_and_time_def example_bench_def parse_median_def Let_def)
  have c: "compileAndMeasure example_bench k ''run'' 3 7 2 None s = Some (build_and_time example_bench 3 7 k s)" for s
    by (simp add: compileAndMeasure_def createBenchWrapper_def example_bench_def runOptPipeline_def Let_def)
  have "compare_medians (Num 200) (Num 50) = Some \<lparr>br_winner = Variant, br_baselineMedianNs = Num 200,
      br_variantMedianNs = Num 50, br_speedup = ddiv (Num 200) (Num 50)\<rparr>"
    using threshold_less_4 by (simp add: compare_medians_def Let_def)
  moreover have "isNativeTarget example_bench k" "be_clone example_bench k = Some k"
    by (simp_all add: isNativeTarget_def example_bench_def)
  ultimately show ?thesis
    using m [of s] m
    by (auto simp: run_cached_def measure_variant_def c median_at_def split_beta split: prod.split option.split)
qed

end
