(* ===== verification/LayoutCost.thy ===== *)
theory LayoutCost
  imports VariantBench FlowSymbols
begin

text \<open>
  lib/Backend/LayoutCostModel.cpp and LayoutBenchmark.cpp: the choice between an array of structs and a
  struct of arrays, by measuring both or by a static cost model. The answers of LLVM's target information
  and the target registry are parameters; the arithmetic is that of \<open>double\<close>.
\<close>

section \<open>Sums, square roots and conversions of doubles\<close>

fun dadd :: "double \<Rightarrow> double \<Rightarrow> double" where
  "dadd NaN y = NaN"
| "dadd x NaN = NaN"
| "dadd (Infinity s) (Infinity t) = (if s = t then Infinity s else NaN)"
| "dadd (Infinity s) y = Infinity s"
| "dadd x (Infinity t) = Infinity t"
| "dadd (Zero s) (Zero t) = Zero (s \<and> t)"
| "dadd (Zero s) y = y"
| "dadd x (Zero t) = x"
| "dadd (Num r) (Num s) = round_double (r + s)"

fun isqrt :: "nat \<Rightarrow> nat" where
  "isqrt n = (if n = 0 then 0 else (let r = 2 * isqrt (n div 4) in if (r + 1) * (r + 1) \<le> n then r + 1 else r))"

declare isqrt.simps [simp del]

text \<open>\<open>std::sqrt\<close> rounds correctly: 53 bits of the root, and the next bit decides.\<close>

definition sqrt_pos :: "rat \<Rightarrow> rat" where
  "sqrt_pos r =
     (let q = two_pow (rat_log2 r div 2 - 52); x = r / (q * q); f = rat_of_nat (isqrt (nat \<lfloor>x\<rfloor>))
      in (if x < (f + 1 / 2) * (f + 1 / 2) then f else f + 1) * q)"

fun dsqrt :: "double \<Rightarrow> double" where
  "dsqrt NaN = NaN"
| "dsqrt (Infinity s) = (if s then NaN else Infinity s)"
| "dsqrt (Zero s) = Zero s"
| "dsqrt (Num r) = (if r < 0 then NaN else Num (sqrt_pos r))"

definition double_of_int :: "int \<Rightarrow> double" where
  "double_of_int k = round_double (of_int k)"

definition lit :: "rat \<Rightarrow> double" where
  "lit r = round_double r"

text \<open>\<open>static_cast<uint64_t>(d)\<close> and \<open>static_cast<int>(d)\<close>: undefined out of range.\<close>

definition cast_u64 :: "double \<Rightarrow> u64 option" where
  "cast_u64 d = (case d of
     Zero _ \<Rightarrow> Some 0
   | Num r \<Rightarrow> if - 1 < r \<and> r < 2 ^ 64 then Some (word_of_int (to_int64 d)) else None
   | _ \<Rightarrow> None)"

definition cast_int :: "double \<Rightarrow> int option" where
  "cast_int d = (case d of
     Zero _ \<Rightarrow> Some 0
   | Num r \<Rightarrow> if - (2 ^ 31) - 1 < r \<and> r < 2 ^ 31 then Some (to_int64 d) else None
   | _ \<Rightarrow> None)"

definition std_min :: "double \<Rightarrow> double \<Rightarrow> double" where
  "std_min a b = (if dlt b a then b else a)"

definition std_max :: "double \<Rightarrow> double \<Rightarrow> double" where
  "std_max a b = (if dlt a b then b else a)"

section \<open>The cost model\<close>

text \<open>Target information of a function, as \<open>TargetTransformInfo\<close> answers; an invalid cost is \<open>None\<close>.\<close>

record 'i tti =
  tt_instructionCost :: "'i \<Rightarrow> u64 option"
  tt_memoryOpCost :: "'i \<Rightarrow> u64 option"
  tt_arithmeticInstrCost :: "'i \<Rightarrow> u64 option"
  tt_cacheLineSize :: u32
  tt_registerBitWidth :: u64

datatype ins_class = LoadClass | StoreClass | BinaryClass | UnaryClass | CmpClass | OtherClass

text \<open>What the code asks of an instruction: its class, and the type it reads or writes (its size, \<open>None\<close> for void).\<close>

record 'i ins_info =
  in_class :: "'i \<Rightarrow> ins_class"
  in_storeSize :: "'i \<Rightarrow> u64 option"

record 'i layout_fun =
  lf_name :: string
  lf_code :: "'i list"

record 'i LayoutVariantPair =
  lv_aosFn :: "'i layout_fun option"
  lv_soaFn :: "'i layout_fun option"

record FunctionCostDetail =
  fd_memory :: u64
  fd_arithmetic :: u64
  fd_other :: u64

definition or_cost :: "u64 option \<Rightarrow> u64 \<Rightarrow> u64" where
  "or_cost c d = (case c of Some c \<Rightarrow> c | None \<Rightarrow> d)"

definition add_cost :: "'i ins_info \<Rightarrow> 'i tti \<Rightarrow> 'i \<Rightarrow> FunctionCostDetail \<Rightarrow> FunctionCostDetail" where
  "add_cost info TTI i d =
     (let cost = or_cost (tt_instructionCost TTI i) 1
      in case in_class info i of
           LoadClass \<Rightarrow> d\<lparr>fd_memory := fd_memory d + or_cost (tt_memoryOpCost TTI i) cost\<rparr>
         | StoreClass \<Rightarrow> d\<lparr>fd_memory := fd_memory d + or_cost (tt_memoryOpCost TTI i) cost\<rparr>
         | BinaryClass \<Rightarrow> d\<lparr>fd_arithmetic := fd_arithmetic d + or_cost (tt_arithmeticInstrCost TTI i) cost\<rparr>
         | UnaryClass \<Rightarrow> d\<lparr>fd_arithmetic := fd_arithmetic d + cost\<rparr>
         | CmpClass \<Rightarrow> d\<lparr>fd_arithmetic := fd_arithmetic d + cost\<rparr>
         | OtherClass \<Rightarrow> d\<lparr>fd_other := fd_other d + cost\<rparr>)"

definition computeFunctionTTICostDetailed :: "'i ins_info \<Rightarrow> 'i tti \<Rightarrow> 'i layout_fun \<Rightarrow> FunctionCostDetail" where
  "computeFunctionTTICostDetailed info TTI f =
     fold (add_cost info TTI) (lf_code f) \<lparr>fd_memory = 0, fd_arithmetic = 0, fd_other = 0\<rparr>"

text \<open>Bytes and cache lines; both layouts count a line for each access.\<close>

definition add_access :: "'i ins_info \<Rightarrow> 'i \<Rightarrow> u64 \<times> u64 \<Rightarrow> u64 \<times> u64" where
  "add_access info i s =
     (case s of (totalBytesAccessed, totalCacheLinesUsed) \<Rightarrow>
        if in_class info i \<in> {LoadClass, StoreClass} then
          (case in_storeSize info i of
             None \<Rightarrow> s
           | Some accessSize \<Rightarrow> (totalBytesAccessed + accessSize, totalCacheLinesUsed + 1))
        else s)"

definition estimateCacheUtilization :: "'i ins_info \<Rightarrow> 'i tti \<Rightarrow> 'i layout_fun \<Rightarrow> bool \<Rightarrow> double" where
  "estimateCacheUtilization info TTI f isSoA =
     (let cacheLineSize = (if tt_cacheLineSize TTI = 0 then 64 else tt_cacheLineSize TTI);
          (totalBytesAccessed, totalCacheLinesUsed) = fold (add_access info) (lf_code f) (0, 0)
      in if totalCacheLinesUsed = 0 \<or> totalBytesAccessed = 0 then lit (1 / 2)
         else if isSoA then lit (9 / 10)
         else (let avgAccess = ddiv (double_of_u64 totalBytesAccessed) (double_of_u64 totalCacheLinesUsed);
                   utilization = ddiv avgAccess (double_of_u64 (ucast cacheLineSize))
               in std_max (lit (1 / 20)) (std_min (lit 1) utilization)))"

definition estimateVectorWidth :: "'i tti \<Rightarrow> u32" where
  "estimateVectorWidth TTI = (if tt_registerBitWidth TTI \<noteq> 0 then ucast (tt_registerBitWidth TTI div 32) else 4)"

definition applyVectorizationFactor :: "double \<Rightarrow> u32 \<Rightarrow> bool \<Rightarrow> double" where
  "applyVectorizationFactor cost vectorWidth isSoA =
     (if vectorWidth \<le> 1 then cost
      else if isSoA then
        (let factor = ddiv (lit 1) (double_of_u64 (ucast vectorWidth))
         in dmul cost (dadd (lit (3 / 10)) (dmul (lit (7 / 10)) factor)))
      else dmul cost (lit (12 / 10)))"

definition access_factor :: "double \<Rightarrow> AccessPattern \<Rightarrow> double" where
  "access_factor cost p = (case p of
     Streaming \<Rightarrow> dmul cost (lit (7 / 10)) | Random \<Rightarrow> dmul cost (lit (15 / 10)) | GatherScatter \<Rightarrow> dmul cost (lit 2)
   | Tiled \<Rightarrow> cost | NoPattern \<Rightarrow> cost)"

definition hint_lo :: "CardinalityHint \<Rightarrow> int" where
  "hint_lo h = (if 0 < fst h then fst h else 1)"

definition hint_hi :: "CardinalityHint \<Rightarrow> int" where
  "hint_hi h = (if 0 < snd h then snd h else hint_lo h)"

definition adjustSoACost :: "double \<Rightarrow> CardinalityHint option \<Rightarrow> AccessPattern \<Rightarrow> double" where
  "adjustSoACost rawCost hint accessPattern =
     (let adjusted = access_factor rawCost accessPattern
      in case hint of
           None \<Rightarrow> adjusted
         | Some h \<Rightarrow>
             (let representative = dsqrt (dmul (double_of_int (hint_lo h)) (double_of_int (hint_hi h)))
              in if dlt representative (lit 1000) then dmul adjusted (lit (13 / 10))
                 else if dlt (lit 10000) representative then dmul adjusted (lit (8 / 10))
                 else adjusted))"

section \<open>Estimates\<close>

datatype LayoutWinner = AoS | SoA

record LayoutBenchmarkResult =
  lr_winner :: LayoutWinner
  lr_aos :: double
  lr_soa :: double
  lr_speedup :: double

record LayoutCostBreakdown =
  lb_aosMemoryCost :: u64
  lb_aosArithmeticCost :: u64
  lb_aosOtherCost :: u64
  lb_soaMemoryCost :: u64
  lb_soaArithmeticCost :: u64
  lb_soaOtherCost :: u64
  lb_aosCacheUtilization :: double
  lb_soaCacheUtilization :: double
  lb_targetVectorWidth :: u32
  lb_isCrossCompilation :: bool

text \<open>The target registry makes a machine from a triple and a processor; the machine gives the target information.\<close>

record ('m, 'ty, 'i, 't) layout_env =
  le_bench :: "('m, 'ty) bench_env"
  le_machine :: "string \<Rightarrow> string \<Rightarrow> 't option"
  le_hostCPU :: string
  le_tti :: "'t \<Rightarrow> 'i layout_fun \<Rightarrow> 'i tti"
  le_info :: "'i ins_info"

definition createTargetMachineForModule :: "('m, 'ty, 'i, 't) layout_env \<Rightarrow> 'm \<Rightarrow> 't option" where
  "createTargetMachineForModule env m =
     (let be = le_bench env;
          triple = (if be_arch be (be_triple be m) = None then be_hostTriple be else be_triple be m);
          cpu = (if be_arch be triple = be_arch be (be_hostTriple be) then le_hostCPU env else ''generic'')
      in le_machine env triple cpu)"

definition isCrossCompilation :: "('m, 'ty, 'i, 't) layout_env \<Rightarrow> 'm \<Rightarrow> bool" where
  "isCrossCompilation env m =
     (let be = le_bench env
      in if be_arch be (be_triple be m) = None then False else be_arch be (be_triple be m) \<noteq> be_arch be (be_hostTriple be))"

definition weighted :: "u64 \<Rightarrow> double \<Rightarrow> double" where
  "weighted memoryCost util =
     (let c = double_of_u64 memoryCost in if dlt (Zero False) util then ddiv c util else c)"

definition total_cost :: "FunctionCostDetail \<Rightarrow> double \<Rightarrow> double" where
  "total_cost d util =
     dadd (dadd (weighted (fd_memory d) util) (double_of_u64 (fd_arithmetic d))) (double_of_u64 (fd_other d))"

definition breakdown_of :: "FunctionCostDetail \<Rightarrow> FunctionCostDetail \<Rightarrow> double \<Rightarrow> double \<Rightarrow> u32 \<Rightarrow> bool \<Rightarrow> LayoutCostBreakdown" where
  "breakdown_of aos soa aosUtil soaUtil width cross =
     \<lparr>lb_aosMemoryCost = fd_memory aos, lb_aosArithmeticCost = fd_arithmetic aos, lb_aosOtherCost = fd_other aos,
      lb_soaMemoryCost = fd_memory soa, lb_soaArithmeticCost = fd_arithmetic soa, lb_soaOtherCost = fd_other soa,
      lb_aosCacheUtilization = aosUtil, lb_soaCacheUtilization = soaUtil, lb_targetVectorWidth = width,
      lb_isCrossCompilation = cross\<rparr>"

definition judge :: "rat \<Rightarrow> double \<Rightarrow> double \<Rightarrow> LayoutBenchmarkResult" where
  "judge bar aos soa =
     (let speedup = ddiv aos soa
      in \<lparr>lr_winner = (if dlt (lit bar) speedup then SoA else AoS), lr_aos = aos, lr_soa = soa, lr_speedup = speedup\<rparr>)"

definition estimate_costs :: "('m, 'ty, 'i, 't) layout_env \<Rightarrow> 'm \<Rightarrow> 't \<Rightarrow> 'i layout_fun \<Rightarrow> 'i layout_fun \<Rightarrow>
    CardinalityHint option \<Rightarrow> AccessPattern \<Rightarrow> LayoutBenchmarkResult option \<times> LayoutCostBreakdown" where
  "estimate_costs env m TM aosFn soaFn hint accessPattern =
     (let aosTTI = le_tti env TM aosFn; soaTTI = le_tti env TM soaFn;
          aosDetail = computeFunctionTTICostDetailed (le_info env) aosTTI aosFn;
          soaDetail = computeFunctionTTICostDetailed (le_info env) soaTTI soaFn;
          aosUtil = estimateCacheUtilization (le_info env) aosTTI aosFn False;
          soaUtil = estimateCacheUtilization (le_info env) soaTTI soaFn True;
          vectorWidth = estimateVectorWidth aosTTI;
          aosCost = applyVectorizationFactor (total_cost aosDetail aosUtil) vectorWidth False;
          soaCostRaw = applyVectorizationFactor (total_cost soaDetail soaUtil) vectorWidth True
      in (if dle aosCost (Zero False) \<or> dle soaCostRaw (Zero False) then None
          else Some (judge (13 / 10) aosCost (adjustSoACost soaCostRaw hint accessPattern)),
          breakdown_of aosDetail soaDetail aosUtil soaUtil vectorWidth (isCrossCompilation env m)))"

text \<open>The breakdown is filled only when the analysis gets that far.\<close>

definition estimateWithBreakdown :: "('m, 'ty, 'i, 't) layout_env \<Rightarrow> 'm \<Rightarrow> 'i LayoutVariantPair \<Rightarrow> CardinalityHint option \<Rightarrow>
    AccessPattern \<Rightarrow> LayoutCostBreakdown \<Rightarrow> LayoutBenchmarkResult option \<times> LayoutCostBreakdown" where
  "estimateWithBreakdown env m variant hint accessPattern breakdown =
     (case (createTargetMachineForModule env m, lv_aosFn variant, lv_soaFn variant) of
        (Some TM, Some aosFn, Some soaFn) \<Rightarrow>
          if lf_code aosFn = [] \<or> lf_code soaFn = [] then (None, breakdown)
          else estimate_costs env m TM aosFn soaFn hint accessPattern
      | _ \<Rightarrow> (None, breakdown))"

definition no_breakdown :: LayoutCostBreakdown where
  "no_breakdown = breakdown_of \<lparr>fd_memory = 0, fd_arithmetic = 0, fd_other = 0\<rparr> \<lparr>fd_memory = 0, fd_arithmetic = 0, fd_other = 0\<rparr>
     (Zero False) (Zero False) 0 False"

definition estimate :: "('m, 'ty, 'i, 't) layout_env \<Rightarrow> 'm \<Rightarrow> 'i LayoutVariantPair \<Rightarrow> CardinalityHint option \<Rightarrow>
    AccessPattern \<Rightarrow> LayoutBenchmarkResult option" where
  "estimate env m variant hint accessPattern = fst (estimateWithBreakdown env m variant hint accessPattern no_breakdown)"

definition show_u64 :: "u64 \<Rightarrow> string" where
  "show_u64 w = show_nat (unat w)"

definition remark_line :: "string \<Rightarrow> u64 \<Rightarrow> u64 \<Rightarrow> u64 \<Rightarrow> double \<Rightarrow> string option" where
  "remark_line label mem arith other util =
     map_option (\<lambda>percent. ''  '' @ label @ '': memory='' @ show_u64 mem @ '' arith='' @ show_u64 arith @ '' other='' @ show_u64 other @
        '' total='' @ show_u64 (mem + arith + other) @ '' cache_util='' @ show_int percent @ ''%'' @ [CHR 10])
       (cast_int (dmul util (lit 100)))"

definition formatRemark :: "LayoutCostBreakdown \<Rightarrow> string option" where
  "formatRemark b =
     do { aos \<leftarrow> remark_line ''AoS'' (lb_aosMemoryCost b) (lb_aosArithmeticCost b) (lb_aosOtherCost b) (lb_aosCacheUtilization b);
          soa \<leftarrow> remark_line ''SoA'' (lb_soaMemoryCost b) (lb_soaArithmeticCost b) (lb_soaOtherCost b) (lb_soaCacheUtilization b);
          Some (''DataLayout TTI cost analysis'' @ (if lb_isCrossCompilation b then '' (cross-compilation fallback)'' else []) @
            '':'' @ [CHR 10] @ aos @ soa @ ''  target_vector_width='' @ show_nat (unat (lb_targetVectorWidth b)) @ '' (x32-bit lanes)'') }"

section \<open>The benchmark with its fallbacks\<close>

definition computeBufferElements :: "CardinalityHint option \<Rightarrow> u64 option option" where
  "computeBufferElements hint =
     (case hint of
        None \<Rightarrow> Some None
      | Some h \<Rightarrow>
          if fst h \<le> 0 \<and> snd h \<le> 0 then Some None
          else
            (let lo = hint_lo h; hi = hint_hi h; (lo, hi) = (if hi < lo then (hi, lo) else (lo, hi))
             in do { geoMean \<leftarrow> cast_u64 (dsqrt (dmul (double_of_int lo) (double_of_int hi)));
                     Some (Some (min (if geoMean = 0 then 1 else geoMean) (256 * 1024))) }))"

definition keep_aos :: LayoutBenchmarkResult where
  "keep_aos = \<lparr>lr_winner = AoS, lr_aos = Zero False, lr_soa = Zero False, lr_speedup = lit 1\<rparr>"

definition static_choice :: "('m, 'ty, 'i, 't) layout_env \<Rightarrow> 'm \<Rightarrow> 'i LayoutVariantPair \<Rightarrow> CardinalityHint option \<Rightarrow>
    AccessPattern \<Rightarrow> LayoutBenchmarkResult" where
  "static_choice env m variant hint accessPattern =
     (case estimate env m variant hint accessPattern of Some r \<Rightarrow> r | None \<Rightarrow> keep_aos)"

text \<open>\<open>None\<close> is a run that does not return or dereferences a null function.\<close>

definition layout_run :: "('m, 'ty, 'i, 't) layout_env \<Rightarrow> 'm \<Rightarrow> 'i LayoutVariantPair \<Rightarrow> int \<Rightarrow> int \<Rightarrow> CardinalityHint option \<Rightarrow>
    AccessPattern \<Rightarrow> bench_state \<Rightarrow> (LayoutBenchmarkResult \<times> bench_state) option" where
  "layout_run env m variant warmup iterations hint accessPattern s =
     (let be = le_bench env; static = static_choice env m variant hint accessPattern
      in if isNativeTarget be m then
           do { bufferElements \<leftarrow> computeBufferElements hint;
                aosFn \<leftarrow> lv_aosFn variant;
                soaFn \<leftarrow> lv_soaFn variant;
                (aosMedianNs, s) \<leftarrow> compileAndMeasure be m (lf_name aosFn) warmup iterations 2 bufferElements s;
                (case aosMedianNs of
                   None \<Rightarrow> Some (static, s)
                 | Some aos \<Rightarrow>
                     do { (soaMedianNs, s) \<leftarrow> compileAndMeasure be m (lf_name soaFn) warmup iterations 2 bufferElements s;
                          Some (case soaMedianNs of
                             None \<Rightarrow> (static, s)
                           | Some soa \<Rightarrow>
                               (if dle aos (Zero False) \<or> dle soa (Zero False) then keep_aos else judge (11 / 10) aos soa, s)) }) }
         else Some (static, s))"

section \<open>Square roots and casts\<close>

lemma isqrt_square: "isqrt n * isqrt n \<le> n"
proof (induction n rule: isqrt.induct)
  case (1 n)
  show ?case
  proof (cases "n = 0")
    case False
    let ?s = "isqrt (n div 4)"
    have "?s * ?s \<le> n div 4" using 1 [OF False] by simp
    then have "(2 * ?s) * (2 * ?s) \<le> n" by simp
    then show ?thesis using False by (simp add: isqrt.simps [of n] Let_def)
  qed (simp add: isqrt.simps [of 0])
qed

lemma isqrt_le: "n \<le> k * k \<Longrightarrow> isqrt n \<le> k"
  using isqrt_square [of n] by (metis le_trans linorder_not_less mult_strict_mono' not_le zero_le)

lemma sqrt_pos_bounds:
  assumes "0 < r" and "r \<le> two_pow (2 * k)"
  shows "0 \<le> sqrt_pos r" and "sqrt_pos r \<le> two_pow k"
proof -
  let ?e = "rat_log2 r div 2"
  let ?q = "two_pow (?e - 52)"
  let ?x = "r / (?q * ?q)"
  let ?f = "isqrt (nat \<lfloor>?x\<rfloor>)"
  have q: "0 < ?q" by simp
  have "rat_log2 r \<le> 2 * k"
    using rat_log2_bounds [OF assms(1)] assms(2) rat_log2_mono [OF assms(1) assms(2)] by simp
  then have ek: "?e \<le> k" by linarith
  define n where "n = (2 :: nat) ^ nat (k - ?e + 52)"
  have n: "two_pow k = rat_of_nat n * ?q"
    using two_pow_add_nat [of "?e - 52" "nat (k - ?e + 52)"] ek by (simp add: n_def)
  have "r \<le> (rat_of_nat n * ?q) * (rat_of_nat n * ?q)"
    using assms(2) two_pow_add [of k k] by (simp add: n [symmetric])
  then have x: "?x \<le> rat_of_nat n * rat_of_nat n" using q by (simp add: divide_le_eq ac_simps)
  have x0: "0 \<le> ?x" using assms(1) by simp
  have "nat \<lfloor>?x\<rfloor> \<le> n * n"
  proof -
    have "\<lfloor>?x\<rfloor> \<le> \<lfloor>rat_of_nat (n * n)\<rfloor>" using x by (intro floor_mono) simp
    then have "\<lfloor>?x\<rfloor> \<le> int (n * n)" by (simp only: floor_of_nat)
    then show ?thesis by linarith
  qed
  then have f: "?f \<le> n" by (rule isqrt_le)
  let ?y = "if ?x < (rat_of_nat ?f + 1 / 2) * (rat_of_nat ?f + 1 / 2) then rat_of_nat ?f else rat_of_nat ?f + 1"
  have y: "?y \<le> rat_of_nat n"
  proof (cases "?f = n")
    case True
    have "rat_of_nat n * rat_of_nat n < (rat_of_nat n + 1 / 2) * (rat_of_nat n + 1 / 2)"
      by (simp add: algebra_simps add_pos_nonneg)
    then show ?thesis using True x by (simp del: times_divide_eq_right)
  next
    case False
    then have "rat_of_nat ?f + 1 \<le> rat_of_nat n" using f by (metis Suc_leI le_neq_implies_less of_nat_Suc of_nat_le_iff add.commute)
    then show ?thesis by simp
  qed
  have eq: "sqrt_pos r = ?y * ?q" by (simp only: sqrt_pos_def Let_def)
  show "0 \<le> sqrt_pos r" unfolding eq using q by (intro mult_nonneg_nonneg) auto
  show "sqrt_pos r \<le> two_pow k" unfolding eq n using y q by (intro mult_right_mono) auto
qed

lemma double_of_int_bounds:
  assumes "1 \<le> k" and "k < 2 ^ 63"
  shows "\<exists>r. double_of_int k = Num r \<and> 1 \<le> r \<and> r \<le> two_pow 63"
proof -
  have k: "1 \<le> (of_int k :: rat)" "(of_int k :: rat) \<le> two_pow 63"
  proof -
    have "of_int k \<le> (of_int (2 ^ 63) :: rat)" using assms(2) by (simp only: of_int_le_iff)
    then show "(of_int k :: rat) \<le> two_pow 63" by (simp add: two_pow_def)
  qed (use assms(1) in simp)
  have "two_pow (- 1022) \<le> two_pow 0" "two_pow 63 \<le> two_pow 1023" by (rule two_pow_mono; simp)+
  then have "double_of_int k = Num (round_pos (of_int k))"
    unfolding double_of_int_def using k by (intro round_double_normal) auto
  moreover have "1 \<le> round_pos (of_int k)" using round_pos_ge [of 0] k(1) by simp
  moreover have "round_pos (of_int k) \<le> two_pow 63" using k by (intro round_pos_le) auto
  ultimately show ?thesis by blast
qed

lemma mean_bounds:
  assumes "1 \<le> lo" and "lo < 2 ^ 63" and "1 \<le> hi" and "hi < 2 ^ 63"
  shows "\<exists>r. dsqrt (dmul (double_of_int lo) (double_of_int hi)) = Num r \<and> 0 \<le> r \<and> r \<le> two_pow 63"
proof -
  obtain a where a: "double_of_int lo = Num a" "1 \<le> a" "a \<le> two_pow 63" using double_of_int_bounds [OF assms(1,2)] by blast
  obtain b where b: "double_of_int hi = Num b" "1 \<le> b" "b \<le> two_pow 63" using double_of_int_bounds [OF assms(3,4)] by blast
  have ab: "1 \<le> a * b" "a * b \<le> two_pow 126"
  proof -
    show "1 \<le> a * b" using a(2) b(2) mult_mono [of 1 a 1 b] by simp
    have "a * b \<le> two_pow 63 * two_pow 63" using a b by (intro mult_mono) auto
    then show "a * b \<le> two_pow 126" by (simp add: two_pow_add [symmetric])
  qed
  have "two_pow (- 1022) \<le> two_pow 0" "two_pow 126 \<le> two_pow 1023" by (rule two_pow_mono; simp)+
  then have "round_double (a * b) = Num (round_pos (a * b))" using ab by (intro round_double_normal) auto
  moreover have p: "1 \<le> round_pos (a * b)" using round_pos_ge [of 0] ab(1) by simp
  moreover have "round_pos (a * b) \<le> two_pow (2 * 63)" using round_pos_le [of "a * b" 126] ab by simp
  ultimately show ?thesis using sqrt_pos_bounds [of "round_pos (a * b)" 63] a(1) b(1) by auto
qed

definition hint_int64 :: "CardinalityHint option \<Rightarrow> bool" where
  "hint_int64 hint \<longleftrightarrow> (\<forall>h. hint = Some h \<longrightarrow> fst h < 2 ^ 63 \<and> snd h < 2 ^ 63)"

lemma buffer_elements_defined:
  assumes "hint_int64 hint"
  shows "\<exists>n. computeBufferElements hint = Some n \<and> (\<forall>k. n = Some k \<longrightarrow> 1 \<le> k \<and> k \<le> 256 * 1024)"
proof (cases hint)
  case (Some h)
  show ?thesis
  proof (cases "fst h \<le> 0 \<and> snd h \<le> 0")
    case True
    then show ?thesis using Some by (simp add: computeBufferElements_def)
  next
    case False
    have lo: "1 \<le> hint_lo h" "hint_lo h < 2 ^ 63" "1 \<le> hint_hi h" "hint_hi h < 2 ^ 63"
      using assms Some by (auto simp: hint_int64_def hint_lo_def hint_hi_def)
    let ?lo = "if hint_hi h < hint_lo h then hint_hi h else hint_lo h"
    let ?hi = "if hint_hi h < hint_lo h then hint_lo h else hint_hi h"
    obtain r where r: "dsqrt (dmul (double_of_int ?lo) (double_of_int ?hi)) = Num r" "0 \<le> r" "r \<le> two_pow 63"
    proof -
      have "1 \<le> ?lo" "?lo < 2 ^ 63" "1 \<le> ?hi" "?hi < 2 ^ 63" using lo by auto
      from mean_bounds [OF this] show thesis using that by blast
    qed
    have "two_pow 63 < 2 ^ 64" by (simp add: two_pow_def)
    then have "r < 2 ^ 64" using r(3) by linarith
    then obtain w where w: "cast_u64 (Num r) = Some w" using r(2) by (simp add: cast_u64_def)
    have "computeBufferElements hint = Some (Some (min (if w = 0 then 1 else w) (256 * 1024)))"
      using Some False r(1) w by (auto simp: computeBufferElements_def Let_def)
    moreover have "1 \<le> min (if w = 0 then 1 else w) (256 * 1024)" by (auto simp: word_le_nat_alt unat_gt_0 Suc_le_eq min_def)
    ultimately show ?thesis by auto
  qed
qed (simp add: computeBufferElements_def)

section \<open>The faster layout wins\<close>

lemma not_above_rounded: "0 < r \<Longrightarrow> r \<le> 1 \<Longrightarrow> 1 \<le> t \<Longrightarrow> \<not> dlt (Num t) (round_double r)"
proof -
  assume r: "0 < r" "r \<le> 1" "1 \<le> t"
  have "two_pow 0 < two_pow 1024" using two_pow_mono [of 1 1024] two_pow_Suc [of 0] by simp
  then show ?thesis using r round_pos_le [of r 0] by (auto simp: round_double_def Let_def)
qed

lemma is_neg_round: "\<not> is_neg (round_double r) \<longleftrightarrow> 0 \<le> r"
proof -
  have "0 \<le> round_pos \<bar>r\<bar>" if "r \<noteq> 0"
  proof -
    have "0 \<le> round_half_even (\<bar>r\<bar> / ulp \<bar>r\<bar>)" using round_half_even_mono [of 0 "\<bar>r\<bar> / ulp \<bar>r\<bar>"] round_half_even_of_int [of 0]
        ulp_pos [of "\<bar>r\<bar>"] by (simp add: zero_le_divide_iff less_imp_le)
    then have "0 \<le> rat_of_int (round_half_even (\<bar>r\<bar> / ulp \<bar>r\<bar>))" by simp
    then show ?thesis unfolding round_pos_ulp by (rule mult_nonneg_nonneg) (rule less_imp_le, rule ulp_pos)
  qed
  then show ?thesis by (force simp: round_double_def Let_def)
qed

lemma dmul_nonneg: "\<not> is_neg x \<Longrightarrow> \<not> is_neg y \<Longrightarrow> \<not> is_neg (dmul x y)"
  by (cases x; cases y) (simp_all add: is_neg_round)

lemma lit_nonneg: "0 \<le> r \<Longrightarrow> \<not> is_neg (lit r)"
  by (simp add: lit_def is_neg_round)

lemma adjust_nonneg: "\<not> is_neg c \<Longrightarrow> \<not> is_neg (adjustSoACost c hint p)"
proof -
  assume c: "\<not> is_neg c"
  have f: "\<not> is_neg (dmul x (lit k))" if "\<not> is_neg x" "0 \<le> k" for x k using dmul_nonneg [OF that(1) lit_nonneg [OF that(2)]] .
  have "\<not> is_neg (access_factor c p)" using f [OF c] c by (cases p) (simp_all add: access_factor_def)
  then show ?thesis using f [of "access_factor c p"] by (simp add: adjustSoACost_def Let_def split: option.split)
qed

lemma positive_not_neg: "\<not> dle c (Zero False) \<Longrightarrow> \<not> is_neg c"
  by (cases c) auto

lemma quotient_means_faster:
  assumes "dlt (Num t) (ddiv a b)" and "1 \<le> t" and "\<not> dle a (Zero False)" and "\<not> is_neg b"
  shows "dlt b a"
proof (cases a)
  case (Num r)
  show ?thesis
  proof (cases b)
    fix q
    assume b: "b = Num q"
    then have pos: "0 < r" "0 < q \<or> q = 0" using assms Num by auto
    show ?thesis
    proof (rule ccontr)
      assume "\<not> dlt b a"
      then have "0 < r / q" "r / q \<le> 1" using b Num pos by (auto simp: divide_le_eq)
      then show False using not_above_rounded [of "r / q" t] assms(1,2) b Num by simp
    qed
  qed (use assms Num in auto)
next
  case (Infinity s)
  then show ?thesis using assms by (cases b) auto
qed (use assms in auto)

lemma lit_bar: "bar \<in> {11 / 10, 13 / 10} \<Longrightarrow> \<exists>t. lit bar = Num t \<and> 1 \<le> t"
proof -
  assume b: "bar \<in> {11 / 10, 13 / 10}"
  have "two_pow (- 1022) \<le> two_pow 0" "two_pow 1 \<le> two_pow 1023" by (rule two_pow_mono; simp)+
  moreover have "two_pow 1 = 2" by (simp add: two_pow_def)
  ultimately have "round_double bar = Num (round_pos bar)" using b by (intro round_double_normal) auto
  moreover have "1 \<le> round_pos bar" using round_pos_ge [of 0 bar] b by auto
  ultimately show ?thesis by (simp add: lit_def)
qed

lemma judge_faster:
  assumes "bar \<in> {11 / 10, 13 / 10}" and "\<not> dle a (Zero False)" and "\<not> is_neg b" and "lr_winner (judge bar a b) = SoA"
  shows "dlt (lr_soa (judge bar a b)) (lr_aos (judge bar a b))"
proof -
  obtain t where t: "lit bar = Num t" "1 \<le> t" using lit_bar [OF assms(1)] by blast
  have "dlt (Num t) (ddiv a b)" using assms(4) t(1) by (simp add: judge_def Let_def split: if_splits)
  from quotient_means_faster [OF this t(2) assms(2,3)] show ?thesis by (simp add: judge_def Let_def)
qed

definition cheaper_wins :: "LayoutBenchmarkResult \<Rightarrow> bool" where
  "cheaper_wins r \<longleftrightarrow> (lr_winner r = SoA \<longrightarrow> dlt (lr_soa r) (lr_aos r))"

lemma static_cheaper: "cheaper_wins (static_choice env m variant hint p)"
proof (cases "estimate env m variant hint p")
  case None
  then show ?thesis by (simp add: static_choice_def cheaper_wins_def keep_aos_def)
next
  case (Some r)
  then obtain a b where "\<not> dle a (Zero False)" "\<not> dle b (Zero False)" "r = judge (13 / 10) a (adjustSoACost b hint p)"
    by (auto simp: estimate_def estimateWithBreakdown_def estimate_costs_def Let_def split: option.splits if_splits)
  then show ?thesis using Some judge_faster [of "13 / 10" a "adjustSoACost b hint p"] adjust_nonneg [OF positive_not_neg]
    by (simp add: static_choice_def cheaper_wins_def)
qed

lemma measured_cheaper:
  "cheaper_wins (if dle a (Zero False) \<or> dle b (Zero False) then keep_aos else judge (11 / 10) a b)"
  using judge_faster [of "11 / 10" a b] positive_not_neg [of b] by (simp add: cheaper_wins_def keep_aos_def)

text \<open>
  C38. A layout is changed only when the new one was measured or estimated to be strictly cheaper, whichever of
  the three levels decided, and for a foreign target nothing is run. The choice comes to a result when both
  functions are there, the hint fits 64 bits and, where the module is run, no pointer argument of its
  clone is handed round in a circle: then the search of the benchmark for a pointee type does not
  return (\<open>circular_argument_never_returns\<close>).
\<close>

theorem layout_choice_cheaper:
  assumes "isNativeTarget (le_bench env) m \<longrightarrow> bench_returns (le_bench env) m" and "hint_int64 hint" and "lv_aosFn variant = Some aosFn" and "lv_soaFn variant = Some soaFn"
  shows "\<exists>r s'. layout_run env m variant warmup iterations hint p s = Some (r, s') \<and>
    (lr_winner r = SoA \<longrightarrow> dlt (lr_soa r) (lr_aos r)) \<and> (isCrossCompilation env m \<longrightarrow> s' = s)"
proof (cases "isNativeTarget (le_bench env) m")
  case False
  then show ?thesis using static_cheaper [of env m variant hint p] by (simp add: layout_run_def Let_def cheaper_wins_def)
next
  case True
  then have native: "\<not> isCrossCompilation env m"
    by (simp add: isNativeTarget_def isCrossCompilation_def Let_def split: option.splits)
  obtain n where n: "computeBufferElements hint = Some n" using buffer_elements_defined [OF assms(2)] by blast
  let ?measure = "\<lambda>f. compileAndMeasure (le_bench env) m (lf_name f) warmup iterations 2 n"
  obtain a s1 where a: "?measure aosFn s = Some (a, s1)" using bench_returns_measures [OF assms(1) [rule_format, OF True]] by blast
  obtain b s2 where b: "?measure soaFn s1 = Some (b, s2)" using bench_returns_measures [OF assms(1) [rule_format, OF True]] by blast
  have "\<exists>r s'. layout_run env m variant warmup iterations hint p s = Some (r, s') \<and> cheaper_wins r"
    using True n assms(3,4) a b static_cheaper [of env m variant hint p] measured_cheaper
    by (auto simp: layout_run_def Let_def split: option.splits)
  then show ?thesis using native by (auto simp: cheaper_wins_def)
qed


section \<open>Evaluated roundings\<close>

lemma rat_log2_eq:
  assumes "two_pow e \<le> r" and "r < two_pow (e + 1)"
  shows "rat_log2 r = e"
proof -
  have r: "0 < r" using assms(1) two_pow_pos [of e] by linarith
  note b = rat_log2_bounds [OF r]
  have "\<not> rat_log2 r + 1 \<le> e" using two_pow_mono [of "rat_log2 r + 1" e] b assms by linarith
  moreover have "\<not> e + 1 \<le> rat_log2 r" using two_pow_mono [of "e + 1" "rat_log2 r"] b assms by linarith
  ultimately show ?thesis by linarith
qed

lemma rounds_to:
  assumes "two_pow e \<le> r" and "r < two_pow (e + 1)" and "- 1022 \<le> e" and "e < 1023"
    and "round_half_even (r / two_pow (e - 52)) = k"
  shows "round_double r = Num (of_int k * two_pow (e - 52))"
proof -
  have "two_pow (- 1022) \<le> r" using two_pow_mono [OF assms(3)] assms(1) by linarith
  moreover have "r \<le> two_pow 1023" using two_pow_mono [of "e + 1" 1023] assms(2,4) by linarith
  ultimately have "round_double r = Num (round_pos r)" by (rule round_double_normal)
  then show ?thesis using assms(3,5) by (simp add: round_pos_def rat_log2_eq [OF assms(1,2)] max_def)
qed

lemma whole_doubles:
  "round_double 1 = Num 1" "round_double 2 = Num 2" "round_double 4 = Num 4" "round_double 16 = Num 16" "round_double 64 = Num 64"
  "round_double 1000 = Num 1000" "round_double 13 = Num 13" "round_double (1 / 16) = Num (1 / 16)"
  by (simp_all add: rounds_to [of 0 1] rounds_to [of 1 2] rounds_to [of 2 4] rounds_to [of 4 16] rounds_to [of 6 64] rounds_to [of 9 1000]
    rounds_to [of 3 13] rounds_to [of "- 4" "1 / 16"] two_pow_def round_half_even_def Let_def)

lemma round_half_even_near: "of_int k - 1 / 2 < x \<Longrightarrow> x < of_int k + 1 / 2 \<Longrightarrow> round_half_even x = k"
proof -
  assume x: "of_int k - 1 / 2 < x" "x < of_int k + 1 / 2"
  consider "\<lfloor>x\<rfloor> = k" | "\<lfloor>x\<rfloor> = k - 1" using x by linarith
  then show ?thesis using x by cases (auto simp: round_half_even_def Let_def)
qed

lemma literals:
  "lit (1 / 20) = Num (3602879701896397 / 72057594037927936)" "lit (9 / 10) = Num (8106479329266893 / 9007199254740992)"
  "lit (13 / 10) = Num (5854679515581645 / 4503599627370496)" "lit (1 / 2) = Num (1 / 2)" "lit 1 = Num 1" "lit 1000 = Num 1000"
  using rounds_to [of "- 5" "1 / 20", OF _ _ _ _ round_half_even_near [of 7205759403792794]]
    rounds_to [of "- 1" "9 / 10", OF _ _ _ _ round_half_even_near [of 8106479329266893]]
    rounds_to [of 0 "13 / 10", OF _ _ _ _ round_half_even_near [of 5854679515581645]]
    rounds_to [of "- 1" "1 / 2", OF _ _ _ _ round_half_even_near [of 4503599627370496]]
  by (simp_all add: lit_def whole_doubles two_pow_def)

lemma rounded_quotients:
  "round_double (9007199254740992 / 8106479329266893) = Num (2501999792983609 / 2251799813685248)"
  "round_double (36028797018963968 / 2501999792983609) = Num (2026619832316723 / 140737488355328)"
  "round_double (29273397577908225 / 2251799813685248) = Num 13"
  using rounds_to [of 0 "9007199254740992 / 8106479329266893", OF _ _ _ _ round_half_even_near [of 5003999585967218]]
    rounds_to [of 3 "36028797018963968 / 2501999792983609", OF _ _ _ _ round_half_even_near [of 8106479329266892]]
    rounds_to [of 3 "29273397577908225 / 2251799813685248", OF _ _ _ _ round_half_even_near [of 7318349394477056]]
  by (simp_all add: two_pow_def)

lemma cost_doubles: "double_of_u64 1 = Num 1" "double_of_u64 2 = Num 2" "double_of_u64 4 = Num 4" "double_of_u64 64 = Num 64"
  by (simp_all add: double_of_u64_def whole_doubles)

section \<open>Examples\<close>

text \<open>Instructions are their costs and read four bytes, on a target with lines of 64 bytes and no vectors.\<close>

definition layout_example_tti :: "u64 tti" where
  "layout_example_tti = \<lparr>tt_instructionCost = Some, tt_memoryOpCost = Some, tt_arithmeticInstrCost = Some,
     tt_cacheLineSize = 64, tt_registerBitWidth = 32\<rparr>"

definition layout_example_env :: "ins_class \<Rightarrow> (nat, nat, u64, unit) layout_env" where
  "layout_example_env c = \<lparr>le_bench = example_bench\<lparr>be_hostTriple := ''aarch64''\<rparr>, le_machine = (\<lambda>_ _. Some ()), le_hostCPU = ''generic'',
     le_tti = (\<lambda>_ _. layout_example_tti), le_info = \<lparr>in_class = (\<lambda>_. c), in_storeSize = (\<lambda>_. Some 4)\<rparr>\<rparr>"

definition layout_example_pair :: "u64 \<Rightarrow> u64 \<Rightarrow> u64 LayoutVariantPair" where
  "layout_example_pair a b = \<lparr>lv_aosFn = Some \<lparr>lf_name = ''aos'', lf_code = [a]\<rparr>, lv_soaFn = Some \<lparr>lf_name = ''soa'', lf_code = [b]\<rparr>\<rparr>"

lemmas layout_example_defs = estimate_def estimateWithBreakdown_def estimate_costs_def createTargetMachineForModule_def layout_example_env_def
  layout_example_pair_def layout_example_tti_def example_bench_def computeFunctionTTICostDetailed_def add_cost_def or_cost_def
  estimateCacheUtilization_def add_access_def estimateVectorWidth_def applyVectorizationFactor_def total_cost_def weighted_def
  adjustSoACost_def access_factor_def judge_def std_min_def std_max_def

text \<open>The model asks which layout a function is said to have, not what it does: the same code is faster as a struct of arrays.\<close>

lemma same_code_layout_wins:
  "map_option lr_winner (estimate (layout_example_env LoadClass) 0 (layout_example_pair 1 1) None NoPattern) = Some SoA"
  by (simp add: layout_example_defs Let_def cost_doubles literals rounded_quotients whole_doubles)

text \<open>
  A hint without bounds is no hint to the benchmark, but a single element to the cost model, which then counts
  the struct of arrays as dearer.
\<close>

lemma empty_hint_penalised:
  "computeBufferElements (Some (0, 0)) = Some None" "adjustSoACost (Num 10) (Some (0, 0)) NoPattern = Num 13"
  "adjustSoACost (Num 10) None NoPattern = Num 10"
proof -
  show "computeBufferElements (Some (0, 0)) = Some None" by (simp add: computeBufferElements_def)
  have "rat_log2 1 = 0" by (rule rat_log2_eq) (simp_all add: two_pow_def)
  then have "sqrt_pos 1 \<le> two_pow 0" using sqrt_pos_bounds(2) [of 1 0] by simp
  then show "adjustSoACost (Num 10) (Some (0, 0)) NoPattern = Num 13"
    by (simp add: adjustSoACost_def access_factor_def hint_lo_def hint_hi_def double_of_int_def whole_doubles literals rounded_quotients Let_def)
  show "adjustSoACost (Num 10) None NoPattern = Num 10" by (simp add: adjustSoACost_def access_factor_def)
qed

lemma layout_example_returns: "isNativeTarget (le_bench (layout_example_env c)) m \<longrightarrow> bench_returns (le_bench (layout_example_env c)) m"
  by (auto simp: bench_returns_def args_ranked_def layout_example_env_def example_bench_def users_of_def)

lemma layout_choice_cheaper_witness:
  "\<exists>r. layout_run (layout_example_env CmpClass) 0 (layout_example_pair 4 2) 3 7 None NoPattern \<lparr>bs_counter = 0, bs_files = {}\<rparr> =
       Some (r, \<lparr>bs_counter = 0, bs_files = {}\<rparr>) \<and> lr_winner r = SoA \<and> dlt (lr_soa r) (lr_aos r)"
proof -
  let ?run = "layout_run (layout_example_env CmpClass) 0 (layout_example_pair 4 2) 3 7 None NoPattern \<lparr>bs_counter = 0, bs_files = {}\<rparr>"
  have c: "isCrossCompilation (layout_example_env CmpClass) 0" "\<not> isNativeTarget (le_bench (layout_example_env CmpClass)) 0"
    by (simp_all add: isCrossCompilation_def isNativeTarget_def layout_example_env_def example_bench_def)
  have "map_option lr_winner (estimate (layout_example_env CmpClass) 0 (layout_example_pair 4 2) None NoPattern) = Some SoA"
    by (simp add: layout_example_defs Let_def cost_doubles literals whole_doubles)
  then have w: "map_option (\<lambda>r. lr_winner (fst r)) ?run = Some SoA"
    using c(2) by (auto simp: layout_run_def static_choice_def Let_def)
  have h: "hint_int64 None" and v: "lv_aosFn (layout_example_pair 4 2) = Some \<lparr>lf_name = ''aos'', lf_code = [4]\<rparr>"
    "lv_soaFn (layout_example_pair 4 2) = Some \<lparr>lf_name = ''soa'', lf_code = [2]\<rparr>"
    by (simp_all add: hint_int64_def layout_example_pair_def)
  from layout_choice_cheaper [OF layout_example_returns h v, of CmpClass 0 3 7 NoPattern "\<lparr>bs_counter = 0, bs_files = {}\<rparr>"] w c(1)
  show ?thesis by auto
qed

end
