(* ===== verification/ObservabilityPass.thy ===== *)
theory ObservabilityPass
  imports InsIr
begin

text \<open>
  lib/Transforms/ObservabilityPass.cpp: trace spans around the stages of a logic block. The calls of a
  function to declared functions are grouped by stage; a span begins before the first call of a group and
  ends after its last. The order in which the C++ library visits a hash map is a parameter.
\<close>

section \<open>The pass\<close>

record obs_env =
  oe_uniq :: "string set \<Rightarrow> string \<Rightarrow> string"
  oe_order :: "(string \<times> int) list \<Rightarrow> (string \<times> int) list"
  oe_enabled :: bool
  oe_internalStages :: bool

type_synonym StageGroup = "int \<times> ins list"

definition is_mapped :: "em_mapping \<Rightarrow> string \<Rightarrow> bool" where
  "is_mapped mp n \<longleftrightarrow> Some n \<in> set (map snd mp)"

definition mapped_calls :: "em_mapping \<Rightarrow> ins list \<Rightarrow> ins list" where
  "mapped_calls mp = filter (\<lambda>i. case called i of None \<Rightarrow> False | Some c \<Rightarrow> is_mapped mp c)"

definition func_to_stage :: "FlowBlock \<Rightarrow> (string \<times> int) list" where
  "func_to_stage lb = fold (\<lambda>(f, s). AList.update f s) (zip (fb_calledFunctions lb) (fb_stages lb)) []"

definition ir_name_to_stage :: "obs_env \<Rightarrow> em_mapping \<Rightarrow> FlowBlock \<Rightarrow> (string \<times> int) list" where
  "ir_name_to_stage env mp lb = fold (\<lambda>(topoName, stage) t.
     case mapped mp topoName of None \<Rightarrow> t | Some f \<Rightarrow> AList.update f stage t) (oe_order env (func_to_stage lb)) []"

definition call_stage :: "(string \<times> int) list \<Rightarrow> ins \<Rightarrow> int" where
  "call_stage irStage i = (case called i of None \<Rightarrow> - 1 | Some c \<Rightarrow> (case map_of irStage c of None \<Rightarrow> - 1 | Some s \<Rightarrow> s))"

definition group_step :: "(ins \<Rightarrow> int) \<Rightarrow> ins \<Rightarrow> StageGroup list \<times> int \<Rightarrow> StageGroup list \<times> int" where
  "group_step st call s =
     (case s of (groups, currentStage) \<Rightarrow>
        let stage = st call
        in if stage < 0 then (groups, currentStage)
           else if groups = [] \<or> stage \<noteq> currentStage then (groups @ [(stage, [call])], stage)
           else (butlast groups @ [(fst (last groups), snd (last groups) @ [call])], currentStage))"

definition stage_groups :: "(ins \<Rightarrow> int) \<Rightarrow> ins list \<Rightarrow> StageGroup list" where
  "stage_groups st calls = fst (fold (group_step st) calls ([], - 1))"

definition buildStageGroups :: "obs_env \<Rightarrow> ifun \<Rightarrow> FlowBlock \<Rightarrow> em_mapping \<Rightarrow> StageGroup list" where
  "buildStageGroups env f lb mp = stage_groups (call_stage (ir_name_to_stage env mp lb)) (mapped_calls mp (code_of f))"

definition span_name :: "FlowBlock \<Rightarrow> int \<Rightarrow> string" where
  "span_name lb stage = fb_qualifiedName lb @ ''::stage'' @ show_int stage"

text \<open>The runtime functions are declared when the first group is instrumented, and found after that.\<close>

definition ensureRuntimeDeclared :: "imod \<Rightarrow> imod" where
  "ensureRuntimeDeclared m =
     getOrDeclareFunc ''topo_trace_span_end'' [] VoidTy (getOrDeclareFunc ''topo_trace_span_begin'' [PointerTy] VoidTy m)"

definition begin_ins :: "nat \<Rightarrow> string \<Rightarrow> ins" where
  "begin_ins k g = new_ins k (call_proto ''topo_trace_span_begin'' [VGlobal g] VoidTy)"

definition end_ins :: "nat \<Rightarrow> ins" where
  "end_ins k = new_ins k (call_proto ''topo_trace_span_end'' [] VoidTy)"

definition instrument_group :: "obs_env \<Rightarrow> string \<Rightarrow> FlowBlock \<Rightarrow> StageGroup \<Rightarrow> imod \<times> int \<Rightarrow> imod \<times> int" where
  "instrument_group env f lb sg s =
     (case s of (m, instrumented) \<Rightarrow>
        if snd sg = [] then s
        else
          (case getOrCreateGlobalString (oe_uniq env) (span_name lb (fst sg)) ''.str.topo_trace.'' (ensureRuntimeDeclared m) of
             (g, m) \<Rightarrow>
               (bump 2 (upd_blocks f (\<lambda>bs. insert_after (ii_id (last (snd sg))) [end_ins (im_next m + 1)]
                  (insert_before (ii_id (hd (snd sg))) [begin_ins (im_next m) g] bs)) m),
                instrumented + 1)))"

definition instrument_block :: "obs_env \<Rightarrow> em_mapping \<Rightarrow> FlowBlock \<Rightarrow> imod \<times> int \<Rightarrow> imod \<times> int" where
  "instrument_block env mp lb s =
     (case mapped mp (fb_qualifiedName lb) of
        None \<Rightarrow> s
      | Some n \<Rightarrow>
          (case find_fun (fst s) n of
             None \<Rightarrow> s
           | Some f \<Rightarrow>
               if iu_declaration f \<or> \<not> oe_internalStages env \<and> local_linkage (iu_linkage f) \<or> fb_stages lb = [] then s
               else fold (instrument_group env n lb) (buildStageGroups env f lb mp) s))"

definition observability_run :: "obs_env \<Rightarrow> FlowSymbols \<Rightarrow> em_mapping \<Rightarrow> imod \<Rightarrow> imod \<times> int" where
  "observability_run env symbols mp m =
     (if \<not> oe_enabled env then (m, 0)
      else (case fold (instrument_block env mp) (map snd (fl_blocks symbols)) (m, 0) of
              (m, instrumented) \<Rightarrow>
                (if instrumented > 0 then inject_abi ''observe'' ''topo_trace_version'' 1 m else m, instrumented)))"

section \<open>Spans over code\<close>

text \<open>The name a call begins a span with, and what a stretch of code does to the open span.\<close>

definition begun :: "(string \<Rightarrow> string option) \<Rightarrow> ins \<Rightarrow> string option" where
  "begun strs i = (if called i = Some ''topo_trace_span_begin''
     then (case ii_args i of [VGlobal g] \<Rightarrow> strs g | _ \<Rightarrow> None) else None)"

definition span_step :: "(string \<Rightarrow> string option) \<Rightarrow> (ins \<Rightarrow> int) \<Rightarrow> (int \<Rightarrow> string) \<Rightarrow> ins \<Rightarrow> string option \<Rightarrow> string option option" where
  "span_step strs st nm i cur =
     (case begun strs i of
        Some n \<Rightarrow> if cur = None then Some (Some n) else None
      | None \<Rightarrow>
          if called i = Some ''topo_trace_span_end'' then (if cur = None then None else Some None)
          else if st i \<ge> 0 then (if cur = Some (nm (st i)) then Some cur else None)
          else Some cur)"

fun spans :: "(string \<Rightarrow> string option) \<Rightarrow> (ins \<Rightarrow> int) \<Rightarrow> (int \<Rightarrow> string) \<Rightarrow> ins list \<Rightarrow> string option \<Rightarrow> string option option" where
  "spans strs st nm [] cur = Some cur"
| "spans strs st nm (i # is) cur = Option.bind (span_step strs st nm i cur) (spans strs st nm is)"

lemma spans_append: "spans strs st nm (xs @ ys) cur = Option.bind (spans strs st nm xs cur) (spans strs st nm ys)"
proof (induction xs arbitrary: cur)
  case (Cons i xs)
  then show ?case by (cases "span_step strs st nm i cur") auto
qed simp

text \<open>Code with instructions put before and after those it has.\<close>

definition woven :: "(nat \<Rightarrow> ins list) \<Rightarrow> (nat \<Rightarrow> ins list) \<Rightarrow> ins list \<Rightarrow> ins list" where
  "woven B E code = concat (map (\<lambda>i. B (ii_id i) @ [i] @ E (ii_id i)) code)"

definition group_begins :: "(StageGroup \<times> ins \<times> ins) list \<Rightarrow> nat \<Rightarrow> ins list" where
  "group_begins gs k = concat (map (\<lambda>(g, b, e). if ii_id (hd (snd g)) = k then [b] else []) gs)"

definition group_ends :: "(StageGroup \<times> ins \<times> ins) list \<Rightarrow> nat \<Rightarrow> ins list" where
  "group_ends gs k = concat (map (\<lambda>(g, b, e). if ii_id (last (snd g)) = k then [e] else []) (rev gs))"

lemma woven_cong: "(\<And>i. i \<in> set code \<Longrightarrow> B (ii_id i) = B' (ii_id i) \<and> E (ii_id i) = E' (ii_id i)) \<Longrightarrow> woven B E code = woven B' E' code"
  by (simp add: woven_def cong: map_cong)

lemma woven_snoc: "woven B E (code @ [i]) = woven B E code @ B (ii_id i) @ [i] @ E (ii_id i)"
  by (simp add: woven_def)

text \<open>The calls that are grouped are calls of the code, the last one is the last with a stage.\<close>

definition groups_of :: "(ins \<Rightarrow> int) \<Rightarrow> ins list \<Rightarrow> StageGroup list \<times> int \<Rightarrow> bool" where
  "groups_of st code s \<longleftrightarrow> (\<forall>g\<in>set (fst s). snd g \<noteq> [] \<and> set (snd g) \<subseteq> set code \<and> fst g \<ge> 0) \<and>
     (fst s \<noteq> [] \<longrightarrow> snd s = fst (last (fst s)))"

lemma group_step_cases:
  "st i < 0 \<Longrightarrow> group_step st i (gs, c) = (gs, c)"
  "st i \<ge> 0 \<Longrightarrow> gs = [] \<or> st i \<noteq> c \<Longrightarrow> group_step st i (gs, c) = (gs @ [(st i, [i])], st i)"
  "st i \<ge> 0 \<Longrightarrow> st i = c \<Longrightarrow> group_step st i (hs @ [(k, cs)], c) = (hs @ [(k, cs @ [i])], c)"
  by (auto simp: group_step_def Let_def)

lemma groups_fold: "groups_of st code (fold (group_step st) code ([], - 1))"
proof (induction code rule: rev_induct)
  case Nil
  then show ?case by (simp add: groups_of_def)
next
  case (snoc i code)
  obtain gs c where s: "fold (group_step st) code ([], - 1) = (gs, c)" by fastforce
  have old: "\<forall>g\<in>set gs. snd g \<noteq> [] \<and> set (snd g) \<subseteq> set code \<and> fst g \<ge> 0" "gs \<noteq> [] \<longrightarrow> c = fst (last gs)"
    using snoc s by (simp_all add: groups_of_def)
  then have grow: "\<forall>g\<in>set gs. snd g \<noteq> [] \<and> set (snd g) \<subseteq> set (code @ [i]) \<and> fst g \<ge> 0" by auto
  consider (skip) "st i < 0" | (new) "st i \<ge> 0" "gs = [] \<or> st i \<noteq> c" | (same) hs k cs where "st i \<ge> 0" "st i = c" "gs = hs @ [(k, cs)]"
    by (metis linorder_not_le rev_exhaust surj_pair)
  then show ?case
  proof cases
    case skip
    then show ?thesis using grow old(2) s by (simp add: groups_of_def group_step_cases)
  next
    case new
    then show ?thesis using grow s by (auto simp: groups_of_def group_step_cases)
  next
    case same
    then show ?thesis using grow old(2) s by (auto simp: groups_of_def group_step_cases)
  qed
qed

lemma groups_members:
  assumes "g \<in> set (stage_groups st code)"
  shows "snd g \<noteq> []" "set (snd g) \<subseteq> set code" "fst g \<ge> 0"
  using assms groups_fold [of st code] by (auto simp: groups_of_def stage_groups_def)

lemma no_group_at:
  assumes "\<forall>g\<in>set gs. snd g \<noteq> [] \<and> set (snd g) \<subseteq> set code" and "k \<notin> ii_id ` set code"
  shows "group_begins (zip gs bes) k = []" "group_ends (zip gs bes) k = []"
proof -
  have "ii_id (hd (snd g)) \<noteq> k \<and> ii_id (last (snd g)) \<noteq> k" if "g \<in> set gs" for g
    using assms that by (metis hd_in_set image_eqI last_in_set subsetD)
  then show "group_begins (zip gs bes) k = []" "group_ends (zip gs bes) k = []"
    by (auto simp: group_begins_def group_ends_def dest!: set_zip_leftD)
qed

definition bracket :: "(string \<Rightarrow> string option) \<Rightarrow> (int \<Rightarrow> string) \<Rightarrow> StageGroup \<Rightarrow> ins \<times> ins \<Rightarrow> bool" where
  "bracket strs nm g p \<longleftrightarrow> begun strs (fst p) = Some (nm (fst g)) \<and> begun strs (snd p) = None \<and> called (snd p) = Some ''topo_trace_span_end''"

lemma groups_spans:
  assumes "distinct (map ii_id code)" and "\<forall>i\<in>set code. begun strs i = None \<and> called i \<noteq> Some ''topo_trace_span_end''"
    and "list_all2 (bracket strs nm) (stage_groups st code) bes"
  shows "spans strs st nm (woven (group_begins (zip (stage_groups st code) bes)) (group_ends (zip (stage_groups st code) bes)) code) None = Some None \<and>
    (stage_groups st code \<noteq> [] \<longrightarrow>
       spans strs st nm (woven (group_begins (zip (stage_groups st code) bes)) (group_ends (butlast (zip (stage_groups st code) bes))) code) None
         = Some (Some (nm (fst (last (stage_groups st code))))))"
  using assms
proof (induction code arbitrary: bes rule: rev_induct)
  case Nil
  then show ?case by (simp add: woven_def stage_groups_def)
next
  case (snoc i code)
  obtain gs c where s: "fold (group_step st) code ([], - 1) = (gs, c)" by fastforce
  have gs: "stage_groups st code = gs" by (simp add: stage_groups_def s)
  have last_c: "gs \<noteq> [] \<longrightarrow> c = fst (last gs)" using groups_fold [of st code] s by (simp add: groups_of_def)
  have mem: "\<forall>g\<in>set gs. snd g \<noteq> [] \<and> set (snd g) \<subseteq> set code" using groups_members [of _ st code] gs by simp
  have new: "ii_id i \<notin> ii_id ` set code" using snoc.prems(1) by auto
  note none = no_group_at [OF mem new]
  have i: "begun strs i = None" "called i \<noteq> Some ''topo_trace_span_end''" using snoc.prems(2) by auto
  have code: "distinct (map ii_id code)" "\<forall>i\<in>set code. begun strs i = None \<and> called i \<noteq> Some ''topo_trace_span_end''"
    using snoc.prems by auto
  consider (skip) "st i < 0" | (new) "st i \<ge> 0" "gs = [] \<or> st i \<noteq> c" | (same) hs k cs where "st i \<ge> 0" "st i = c" "gs = hs @ [(k, cs)]"
    by (metis linorder_not_le rev_exhaust surj_pair)
  then show ?case
  proof cases
    case skip
    then have g: "stage_groups st (code @ [i]) = gs" by (simp add: stage_groups_def s group_step_cases)
    have zb: "butlast (zip gs bes) = zip (butlast gs) (butlast bes)" using snoc.prems(3) g by (simp add: butlast_conv_take list_all2_lengthD take_zip)
    have mb: "\<forall>g\<in>set (butlast gs). snd g \<noteq> [] \<and> set (snd g) \<subseteq> set code" using mem by (auto dest: in_set_butlastD)
    show ?thesis using snoc.IH [of bes] snoc.prems(3) code skip i none no_group_at [OF mb new]
      by (simp add: g gs zb woven_snoc spans_append span_step_def)
  next
    case new
    then have g: "stage_groups st (code @ [i]) = gs @ [(st i, [i])]" by (simp add: stage_groups_def s group_step_cases)
    then obtain bes0 b e where bes: "bes = bes0 @ [(b, e)]" and l0: "list_all2 (bracket strs nm) gs bes0" and be: "bracket strs nm (st i, [i]) (b, e)"
      using snoc.prems(3) by (auto simp: list_all2_append1 list_all2_Cons1)
    have z: "zip (gs @ [(st i, [i])]) bes = zip gs bes0 @ [((st i, [i]), b, e)]" using bes l0 by (simp add: list_all2_lengthD)
    have "woven (group_begins (zip gs bes0 @ [((st i, [i]), b, e)])) E code = woven (group_begins (zip gs bes0)) E code" for E
      using \<open>ii_id i \<notin> ii_id ` set code\<close> by (intro woven_cong) (auto simp: group_begins_def)
    moreover have "woven B (group_ends (zip gs bes0 @ [((st i, [i]), b, e)])) code = woven B (group_ends (zip gs bes0)) code" for B
      using \<open>ii_id i \<notin> ii_id ` set code\<close> by (intro woven_cong) (auto simp: group_ends_def)
    moreover have "group_begins (zip gs bes0 @ [((st i, [i]), b, e)]) (ii_id i) = [b]" "group_ends (zip gs bes0 @ [((st i, [i]), b, e)]) (ii_id i) = [e]"
      using none [of bes0] by (simp_all add: group_begins_def group_ends_def)
    moreover have "spans strs st nm (woven (group_begins (zip gs bes0)) (group_ends (zip gs bes0)) code) None = Some None"
      using snoc.IH [of bes0] l0 code gs by simp
    moreover have "begun strs b = Some (nm (st i))" "begun strs e = None" "called e = Some ''topo_trace_span_end''"
      using be by (simp_all add: bracket_def)
    ultimately show ?thesis using new i none [of bes0]
      by (simp add: g z woven_snoc spans_append span_step_def)
  next
    case same
    then have g: "stage_groups st (code @ [i]) = hs @ [(k, cs @ [i])]" and kc: "k = c" using last_c by (simp_all add: stage_groups_def s group_step_cases)
    then obtain bes0 b e where bes: "bes = bes0 @ [(b, e)]" and l0: "list_all2 (bracket strs nm) hs bes0" and be: "bracket strs nm (k, cs @ [i]) (b, e)"
      using snoc.prems(3) by (auto simp: list_all2_append1 list_all2_Cons1)
    have z: "zip gs bes = zip hs bes0 @ [((k, cs), b, e)]" "zip (hs @ [(k, cs @ [i])]) bes = zip hs bes0 @ [((k, cs @ [i]), b, e)]"
      using bes l0 same by (simp_all add: list_all2_lengthD)
    have l1: "list_all2 (bracket strs nm) gs bes" using l0 be bes same by (simp add: list_all2_appendI bracket_def)
    have cs: "cs \<noteq> []" using mem same by simp
    have B: "group_begins (zip (hs @ [(k, cs @ [i])]) bes) = group_begins (zip gs bes)"
      using cs by (simp add: z group_begins_def fun_eq_iff)
    have E: "woven B' (group_ends (zip (hs @ [(k, cs @ [i])]) bes)) code = woven B' (group_ends (zip hs bes0)) code" for B'
      unfolding z(2) using \<open>ii_id i \<notin> ii_id ` set code\<close> by (intro woven_cong) (auto simp: group_ends_def)
    have mh: "\<forall>g\<in>set hs. snd g \<noteq> [] \<and> set (snd g) \<subseteq> set code" using mem same by simp
    have Ei: "group_ends (zip (hs @ [(k, cs @ [i])]) bes) (ii_id i) = [e]" "group_ends (zip hs bes0) (ii_id i) = []"
      using no_group_at [OF mh new] by (simp_all add: z group_ends_def)
    have "spans strs st nm (woven (group_begins (zip gs bes)) (group_ends (zip hs bes0)) code) None = Some (Some (nm k))"
      using snoc.IH [of bes] l1 code gs same(3) z(1) by simp
    moreover have "begun strs e = None" "called e = Some ''topo_trace_span_end''" using be by (simp_all add: bracket_def)
    moreover have but: "butlast (zip (hs @ [(k, cs @ [i])]) bes) = zip hs bes0" by (simp add: z)
    ultimately show ?thesis unfolding g woven_snoc spans_append B E Ei but none [of bes]
      using same(1,2) kc i by (simp add: span_step_def)
  qed
qed

text \<open>
  Code that begins as many spans as it ends leaves open what was open, so the blocks of code whose spans are in order
  can each be run on their own, and so can any path through them.
\<close>

definition begins :: "(string \<Rightarrow> string option) \<Rightarrow> ins list \<Rightarrow> nat" where
  "begins strs is = length (filter (\<lambda>i. begun strs i \<noteq> None) is)"

definition ends :: "(string \<Rightarrow> string option) \<Rightarrow> ins list \<Rightarrow> nat" where
  "ends strs is = length (filter (\<lambda>i. begun strs i = None \<and> called i = Some ''topo_trace_span_end'') is)"

lemma spans_count:
  "spans strs st nm is cur = Some cur' \<Longrightarrow>
    begins strs is + (if cur = None then 0 else 1) = ends strs is + (if cur' = None then 0 else 1)"
proof (induction "is" arbitrary: cur)
  case (Cons i "is")
  then obtain mid where "span_step strs st nm i cur = Some mid" "spans strs st nm is mid = Some cur'"
    by (auto simp: bind_eq_Some_conv)
  with Cons.IH [of mid] show ?case
    by (auto simp: span_step_def begins_def ends_def split: option.splits if_splits)
qed (simp add: begins_def ends_def)

lemma blocks_spans:
  assumes "spans strs st nm (concat (map snd bs)) None = Some None" and "\<forall>b\<in>set bs. begins strs (snd b) = ends strs (snd b)"
  shows "\<forall>b\<in>set bs. spans strs st nm (snd b) None = Some None"
  using assms
proof (induction bs)
  case (Cons b bs)
  then obtain mid where mid: "spans strs st nm (snd b) None = Some mid" "spans strs st nm (concat (map snd bs)) mid = Some None"
    by (auto simp: spans_append bind_eq_Some_conv)
  then have "mid = None" using spans_count [OF mid(1)] Cons.prems(2) by (simp split: if_splits)
  with mid Cons show ?case by simp
qed simp

lemma path_spans:
  "path bs b tr \<Longrightarrow> \<forall>b\<in>set bs. spans strs st nm (snd b) None = Some None \<Longrightarrow> spans strs st nm tr None = Some None"
  by (induction rule: path.induct) (force simp: spans_append dest!: map_of_SomeD)+

text \<open>What is woven into a block are the begins and ends of the groups whose first or last call it has.\<close>

lemma length_filter_in:
  "k \<notin> S \<Longrightarrow> length (filter (\<lambda>x. f x = k \<or> f x \<in> S) z) = length (filter (\<lambda>x. f x = k) z) + length (filter (\<lambda>x. f x \<in> S) z)"
  by (induction z) auto

lemma group_parts:
  assumes "\<forall>x\<in>set z. bracket strs nm (fst x) (snd x)"
  shows "begins strs (group_begins z k) = length (filter (\<lambda>x. ii_id (hd (snd (fst x))) = k) z)" "begins strs (group_ends z k) = 0"
    "ends strs (group_ends z k) = length (filter (\<lambda>x. ii_id (last (snd (fst x))) = k) z)" "ends strs (group_begins z k) = 0"
  using assms by (induction z) (auto simp: begins_def ends_def group_begins_def group_ends_def bracket_def)

lemma woven_parts:
  assumes "distinct (map ii_id is)" and "\<forall>i\<in>set is. begun strs i = None \<and> called i \<noteq> Some ''topo_trace_span_end''"
    and "\<forall>x\<in>set z. bracket strs nm (fst x) (snd x)"
  shows "begins strs (woven (group_begins z) (group_ends z) is) = length (filter (\<lambda>x. ii_id (hd (snd (fst x))) \<in> ii_id ` set is) z) \<and>
    ends strs (woven (group_begins z) (group_ends z) is) = length (filter (\<lambda>x. ii_id (last (snd (fst x))) \<in> ii_id ` set is) z)"
  using assms(1,2)
proof (induction "is")
  case (Cons i "is")
  then show ?case
    using group_parts [OF assms(3), of "ii_id i"] by (simp add: woven_def begins_def ends_def length_filter_in)
qed (simp add: woven_def begins_def ends_def)

lemma one_block:
  "distinct (map ii_id (concat (map snd bs))) \<Longrightarrow> b \<in> set bs \<Longrightarrow> c \<in> set bs \<Longrightarrow> k \<in> ii_id ` set (snd b) \<Longrightarrow> k \<in> ii_id ` set (snd c) \<Longrightarrow> b = c"
proof (induction bs)
  case (Cons d bs)
  have later: "k \<in> ii_id ` set (snd x) \<Longrightarrow> x \<in> set bs \<Longrightarrow> k \<in> set (map ii_id (concat (map snd bs)))" for x
    by (simp only: set_map set_concat image_UN) blast
  have "k \<in> set (map ii_id (snd d)) \<Longrightarrow> k \<notin> set (map ii_id (concat (map snd bs)))"
    using Cons.prems(1) unfolding list.map concat.simps map_append distinct_append by blast
  then have "k \<in> ii_id ` set (snd d) \<Longrightarrow> x \<in> set bs \<Longrightarrow> k \<notin> ii_id ` set (snd x)" for x using later [of x] by auto
  moreover have "distinct (map ii_id (concat (map snd bs)))" using Cons.prems(1) by simp
  ultimately show ?case using Cons.IH Cons.prems(2-) by (metis set_ConsD)
qed simp

definition stages_in_blocks :: "(ins \<Rightarrow> int) \<Rightarrow> ifun \<Rightarrow> bool" where
  "stages_in_blocks st f \<longleftrightarrow> (\<forall>g\<in>set (stage_groups st (code_of f)). \<exists>b\<in>set (iu_blocks f). set (snd g) \<subseteq> set (snd b))"

lemma blocks_balanced:
  assumes "distinct (map ii_id (code_of f))" and "\<forall>i\<in>set (code_of f). begun strs i = None \<and> called i \<noteq> Some ''topo_trace_span_end''"
    and "list_all2 (bracket strs nm) (stage_groups st (code_of f)) bes" and "stages_in_blocks st f" and "b \<in> set (iu_blocks f)"
  defines "z \<equiv> zip (stage_groups st (code_of f)) bes"
  shows "begins strs (woven (group_begins z) (group_ends z) (snd b)) = ends strs (woven (group_begins z) (group_ends z) (snd b))"
proof -
  have z: "\<forall>x\<in>set z. bracket strs nm (fst x) (snd x)" using assms(3) by (auto simp: z_def list_all2_iff)
  have sub: "set (snd b) \<subseteq> set (code_of f)" using assms(5) by (auto simp: code_of_def)
  have d: "distinct (map ii_id (snd b))" using assms(1,5) by (auto simp: code_of_def distinct_map distinct_concat_iff inj_on_def)
  have "ii_id (hd (snd (fst x))) \<in> ii_id ` set (snd b) \<longleftrightarrow> ii_id (last (snd (fst x))) \<in> ii_id ` set (snd b)" if x: "x \<in> set z" for x
  proof -
    have g: "fst x \<in> set (stage_groups st (code_of f))" using x unfolding z_def by (metis in_set_zipE prod.collapse)
    then obtain c where c: "c \<in> set (iu_blocks f)" "set (snd (fst x)) \<subseteq> set (snd c)" using assms(4) by (auto simp: stages_in_blocks_def)
    then have "ii_id (hd (snd (fst x))) \<in> ii_id ` set (snd c)" "ii_id (last (snd (fst x))) \<in> ii_id ` set (snd c)"
      using groups_members(1) [OF g] by (auto intro!: imageI)
    then show ?thesis using one_block [OF assms(1) [unfolded code_of_def] assms(5) c(1)] by blast
  qed
  then have "filter (\<lambda>x. ii_id (hd (snd (fst x))) \<in> ii_id ` set (snd b)) z = filter (\<lambda>x. ii_id (last (snd (fst x))) \<in> ii_id ` set (snd b)) z"
    by (intro filter_cong) auto
  then show ?thesis using woven_parts [OF d _ z] assms(2) sub by (simp add: subset_iff)
qed

section \<open>What the pass does\<close>

definition names_fresh :: "obs_env \<Rightarrow> bool" where
  "names_fresh env \<longleftrightarrow> renames_fresh (oe_uniq env)"

definition spans_ahead :: "(string \<Rightarrow> string option) \<Rightarrow> imod \<Rightarrow> bool" where
  "spans_ahead strs m \<longleftrightarrow> (\<forall>k t. global_text m k = Some t \<longrightarrow> strs k = Some t)"

lemma ensure_frame [simp]:
  "im_next (ensureRuntimeDeclared m) = im_next m" "im_globals (ensureRuntimeDeclared m) = im_globals m"
  by (simp_all add: ensureRuntimeDeclared_def getOrDeclareFunc_def)

lemma find_fun_ensure:
  "find_fun m n = Some f \<Longrightarrow> find_fun (ensureRuntimeDeclared m) n = Some f"
  by (simp add: ensureRuntimeDeclared_def find_fun_declare)

lemma find_fun_ensure_back:
  "find_fun (ensureRuntimeDeclared m) n = Some f \<Longrightarrow> find_fun m n = Some f \<or> iu_blocks f = []"
  by (auto simp: ensureRuntimeDeclared_def getOrDeclareFunc_def find_fun_def new_ifun_def find_app split: if_splits option.splits)

text \<open>One group: the new instructions, the function, the other functions, the strings.\<close>

lemma instrument_group_step:
  assumes "names_fresh env" and "strings_private ''.str.topo_trace.'' m" and "snd sg \<noteq> []" and "find_fun m n = Some f"
    and "iu_blocks f = weave B E bs" and "\<forall>k\<in>ii_id ` set (snd sg). others k B \<and> others k E \<and> k < im_next m"
  obtains m' b e where "instrument_group env n lb sg (m, c) = (m', c + 1)"
    and "find_fun m' n = Some (f\<lparr>iu_blocks := weave (\<lambda>j. B j @ (if j = ii_id (hd (snd sg)) then [b] else []))
           (\<lambda>j. (if j = ii_id (last (snd sg)) then [e] else []) @ E j) bs\<rparr>)"
    and "bracket (global_text m') (span_name lb) sg (b, e)" and "ii_id b = im_next m" and "ii_id e = im_next m + 1"
    and "im_next m' = im_next m + 2" and "text_kept m m'" and "strings_private ''.str.topo_trace.'' m'"
    and "other_functions_kept n m m'"
proof -
  let ?m1 = "ensureRuntimeDeclared m"
  obtain g m2 where s: "getOrCreateGlobalString (oe_uniq env) (span_name lb (fst sg)) ''.str.topo_trace.'' ?m1 = (g, m2)" by fastforce
  have p1: "strings_private ''.str.topo_trace.'' ?m1" using assms(2) by (simp add: strings_private_def)
  note strs = getOrCreateGlobalString_text [OF assms(1) [unfolded names_fresh_def] p1 s]
  have fr: "im_next m2 = im_next m" "im_funs m2 = im_funs ?m1" using getOrCreateGlobalString_frame [of "oe_uniq env" "span_name lb (fst sg)" "''.str.topo_trace.''" ?m1] s by simp_all
  let ?b = "begin_ins (im_next m) g" and ?e = "end_ins (Suc (im_next m))"
  let ?h = "\<lambda>bs. insert_after (ii_id (last (snd sg))) [?e] (insert_before (ii_id (hd (snd sg))) [?b] bs)"
  let ?m' = "bump 2 (upd_blocks n ?h m2)"
  have run: "instrument_group env n lb sg (m, c) = (?m', c + 1)" using assms(3) fr(1) by (simp add: instrument_group_def s)
  have hl: "hd (snd sg) \<in> set (snd sg)" "last (snd sg) \<in> set (snd sg)" using assms(3) by simp_all
  have "others (ii_id (last (snd sg))) (\<lambda>j. B j @ (if j = ii_id (hd (snd sg)) then [?b] else []))"
    using assms(6) hl by (auto simp: others_def begin_ins_def new_ins_def)
  then have h: "?h (weave B E bs) = weave (\<lambda>j. B j @ (if j = ii_id (hd (snd sg)) then [?b] else []))
      (\<lambda>j. (if j = ii_id (last (snd sg)) then [?e] else []) @ E j) bs"
    using assms(6) hl by (simp add: insert_before_weave insert_after_weave)
  have find2: "find_fun m2 k = find_fun ?m1 k" for k by (rule find_fun_funs) (rule fr(2))
  have find': "find_fun ?m' k = (if k = n then map_option (\<lambda>f. f\<lparr>iu_blocks := ?h (iu_blocks f)\<rparr>) (find_fun ?m1 k) else find_fun ?m1 k)" for k
    by (simp only: find_fun_bump find_fun_upd_blocks find2)
  have text': "global_text ?m' = global_text m2" by (simp add: fun_eq_iff global_text_def bump_def upd_blocks_def)
  show ?thesis
  proof (rule that [OF run, of ?b ?e])
    show "find_fun ?m' n = Some (f\<lparr>iu_blocks := weave (\<lambda>j. B j @ (if j = ii_id (hd (snd sg)) then [?b] else []))
        (\<lambda>j. (if j = ii_id (last (snd sg)) then [?e] else []) @ E j) bs\<rparr>)"
      using find' [of n] find_fun_ensure [OF assms(4)] h assms(5) by simp
    show "bracket (global_text ?m') (span_name lb) sg (?b, ?e)"
      unfolding text' using strs(1) by (simp add: bracket_def begun_def called_def begin_ins_def end_ins_def new_ins_def call_proto_def)
    show "ii_id ?b = im_next m" "ii_id ?e = im_next m + 1" by (simp_all add: begin_ins_def end_ins_def new_ins_def)
    show "im_next ?m' = im_next m + 2" by (simp add: bump_def fr upd_blocks_def)
    show "text_kept m ?m'" using strs(2) unfolding text_kept_def text' by (simp add: global_text_def)
    show "strings_private ''.str.topo_trace.'' ?m'" using strs(3) [OF p1] by (simp add: strings_private_def bump_def upd_blocks_def)
    show "other_functions_kept n m ?m'" unfolding other_functions_kept_def
      using find_fun_ensure [of m] find_fun_ensure_back [of m] by (auto simp: find' simp del: find_fun_bump)
  qed
qed

lemma bracket_text: "text_kept m m' \<Longrightarrow> bracket (global_text m) nm g p \<Longrightarrow> bracket (global_text m') nm g p"
  by (auto simp: bracket_def begun_def text_kept_def called_def split: if_splits list.splits ir_value.splits opcode.splits callee.splits)

text \<open>All groups of a function.\<close>

lemma instrument_groups:
  assumes "names_fresh env" and "strings_private ''.str.topo_trace.'' m" and "find_fun m n = Some f"
    and "\<forall>g\<in>set gs. snd g \<noteq> [] \<and> (\<forall>i\<in>set (snd g). ii_id i < im_next m)"
  shows "\<exists>m' bes. fold (instrument_group env n lb) gs (m, c) = (m', c + int (length gs)) \<and>
    list_all2 (bracket (global_text m') (span_name lb)) gs bes \<and>
    (\<forall>p\<in>set bes. im_next m \<le> ii_id (fst p) \<and> im_next m \<le> ii_id (snd p)) \<and>
    find_fun m' n = Some (f\<lparr>iu_blocks := weave (group_begins (zip gs bes)) (group_ends (zip gs bes)) (iu_blocks f)\<rparr>) \<and>
    im_next m \<le> im_next m' \<and> text_kept m m' \<and> strings_private ''.str.topo_trace.'' m' \<and> other_functions_kept n m m'"
  using assms(4)
proof (induction gs rule: rev_induct)
  case Nil
  then show ?case using assms(2,3)
    by (simp add: group_begins_def group_ends_def weave_none [unfolded fun_eq_iff] text_kept_def other_functions_kept_def)
next
  case (snoc g gs)
  then obtain m1 bes where IH: "fold (instrument_group env n lb) gs (m, c) = (m1, c + int (length gs))"
    "list_all2 (bracket (global_text m1) (span_name lb)) gs bes" "\<forall>p\<in>set bes. im_next m \<le> ii_id (fst p) \<and> im_next m \<le> ii_id (snd p)"
    "find_fun m1 n = Some (f\<lparr>iu_blocks := weave (group_begins (zip gs bes)) (group_ends (zip gs bes)) (iu_blocks f)\<rparr>)"
    "im_next m \<le> im_next m1" "text_kept m m1" "strings_private ''.str.topo_trace.'' m1" "other_functions_kept n m m1"
    by auto
  have old: "\<forall>i\<in>set (snd g). ii_id i < im_next m" "snd g \<noteq> []" using snoc.prems by auto
  have others: "others k (group_begins (zip gs bes)) \<and> others k (group_ends (zip gs bes))" if "k < im_next m" for k
    using IH(3) that by (auto simp: others_def group_begins_def group_ends_def dest!: set_zip_rightD split: if_splits)
  have ids: "\<forall>k\<in>ii_id ` set (snd g). others k (group_begins (zip gs bes)) \<and> others k (group_ends (zip gs bes)) \<and> k < im_next m1"
    using old(1) others IH(5) by fastforce
  have blk: "iu_blocks (f\<lparr>iu_blocks := weave (group_begins (zip gs bes)) (group_ends (zip gs bes)) (iu_blocks f)\<rparr>) =
      weave (group_begins (zip gs bes)) (group_ends (zip gs bes)) (iu_blocks f)" by simp
  obtain m' b e where st: "instrument_group env n lb g (m1, c + int (length gs)) = (m', c + int (length gs) + 1)"
    "find_fun m' n = Some (f\<lparr>iu_blocks := weave (group_begins (zip gs bes)) (group_ends (zip gs bes)) (iu_blocks f)\<rparr>
       \<lparr>iu_blocks := weave (\<lambda>j. group_begins (zip gs bes) j @ (if j = ii_id (hd (snd g)) then [b] else []))
       (\<lambda>j. (if j = ii_id (last (snd g)) then [e] else []) @ group_ends (zip gs bes) j) (iu_blocks f)\<rparr>)"
    "bracket (global_text m') (span_name lb) g (b, e)" "ii_id b = im_next m1" "ii_id e = im_next m1 + 1" "im_next m' = im_next m1 + 2"
    "text_kept m1 m'" "strings_private ''.str.topo_trace.'' m'" "other_functions_kept n m1 m'"
    by (rule instrument_group_step [where lb = lb and c = "c + int (length gs)", OF assms(1) IH(7) old(2) IH(4) blk ids])
  have len: "length gs = length bes" using IH(2) by (rule list_all2_lengthD)
  have be: "(\<lambda>j. group_begins (zip gs bes) j @ (if j = ii_id (hd (snd g)) then [b] else [])) = group_begins (zip (gs @ [g]) (bes @ [(b, e)]))"
    "(\<lambda>j. (if j = ii_id (last (snd g)) then [e] else []) @ group_ends (zip gs bes) j) = group_ends (zip (gs @ [g]) (bes @ [(b, e)]))"
    using len by (auto simp: group_begins_def group_ends_def fun_eq_iff)
  have "list_all2 (bracket (global_text m') (span_name lb)) gs bes"
    using IH(2) by (rule list_all2_mono) (rule bracket_text [OF st(7)])
  then have "list_all2 (bracket (global_text m') (span_name lb)) (gs @ [g]) (bes @ [(b, e)])" using st(3) by (simp add: list_all2_appendI)
  moreover have "\<forall>p\<in>set (bes @ [(b, e)]). im_next m \<le> ii_id (fst p) \<and> im_next m \<le> ii_id (snd p)" using IH(3,5) st(4,5) by auto
  moreover have "text_kept m m'" "other_functions_kept n m m'"
    using IH(6,8) st(7,9) text_kept_trans other_functions_kept_trans by blast+
  ultimately show ?case using IH(1,5) st(1,2,6,8) by (intro exI [of _ m'] exI [of _ "bes @ [(b, e)]"]) (simp add: be add.assoc)
qed

lemma map_of_fold_update:
  "map_of (fold (\<lambda>(k, v) t. case F k of None \<Rightarrow> t | Some f \<Rightarrow> AList.update f v t) kvs t0) c = Some s \<Longrightarrow>
    map_of t0 c = Some s \<or> (\<exists>k. F k = Some c)"
proof (induction kvs arbitrary: t0)
  case (Cons p kvs)
  obtain k v where p: "p = (k, v)" by fastforce
  show ?case
  proof (cases "F k")
    case None
    then show ?thesis using Cons.IH [of t0] Cons.prems p by simp
  next
    case (Some f)
    then show ?thesis using Cons.IH [of "AList.update f v t0"] Cons.prems p by (cases "f = c") (auto simp: update_conv')
  qed
qed simp

lemma mapped_is_mapped: "mapped mp k = Some c \<Longrightarrow> is_mapped mp c"
  by (auto simp: mapped_def is_mapped_def image_iff dest!: map_of_SomeD split: option.splits intro!: bexI [of _ "(k, Some c)"])

lemma staged_mapped: "call_stage (ir_name_to_stage env mp lb) i \<ge> 0 \<Longrightarrow> \<exists>c. called i = Some c \<and> is_mapped mp c"
proof -
  assume "call_stage (ir_name_to_stage env mp lb) i \<ge> 0"
  then obtain c s where c: "called i = Some c" "map_of (ir_name_to_stage env mp lb) c = Some s"
    by (auto simp: call_stage_def split: option.splits)
  then obtain k where "mapped mp k = Some c" using map_of_fold_update [of "mapped mp" _ "[]" c s] by (auto simp: ir_name_to_stage_def)
  with c(1) mapped_is_mapped show ?thesis by blast
qed

lemma fold_group_filter: "\<forall>i\<in>set code. \<not> P i \<longrightarrow> st i < 0 \<Longrightarrow> fold (group_step st) (filter P code) s = fold (group_step st) code s"
proof (induction code arbitrary: s)
  case (Cons i code)
  then show ?case by (cases s) (simp add: group_step_cases)
qed simp

lemma stage_groups_filter: "\<forall>i\<in>set code. \<not> P i \<longrightarrow> st i < 0 \<Longrightarrow> stage_groups st (filter P code) = stage_groups st code"
  by (simp add: stage_groups_def fold_group_filter)

lemma buildStageGroups_all: "buildStageGroups env f lb mp = stage_groups (call_stage (ir_name_to_stage env mp lb)) (code_of f)"
  unfolding buildStageGroups_def mapped_calls_def
proof (intro stage_groups_filter ballI impI)
  fix i
  assume "\<not> (case called i of None \<Rightarrow> False | Some c \<Rightarrow> is_mapped mp c)"
  then show "call_stage (ir_name_to_stage env mp lb) i < 0" using staged_mapped [of env mp lb i] by (cases "call_stage (ir_name_to_stage env mp lb) i \<ge> 0") auto
qed

definition plain_fun :: "imod \<Rightarrow> ifun \<Rightarrow> bool" where
  "plain_fun m f \<longleftrightarrow> distinct (map ii_id (code_of f)) \<and> (\<forall>i\<in>set (code_of f). ii_id i < im_next m \<and>
     called i \<noteq> Some ''topo_trace_span_begin'' \<and> called i \<noteq> Some ''topo_trace_span_end'')"

definition traced :: "obs_env \<Rightarrow> ifun \<Rightarrow> FlowBlock \<Rightarrow> bool" where
  "traced env f lb \<longleftrightarrow> \<not> iu_declaration f \<and> (oe_internalStages env \<or> \<not> local_linkage (iu_linkage f)) \<and> fb_stages lb \<noteq> []"

definition in_spans :: "obs_env \<Rightarrow> em_mapping \<Rightarrow> FlowBlock \<Rightarrow> (string \<Rightarrow> string option) \<Rightarrow> ifun \<Rightarrow> ifun \<Rightarrow> bool" where
  "in_spans env mp lb strs f f' \<longleftrightarrow> (let st = call_stage (ir_name_to_stage env mp lb) in
     spans strs st (span_name lb) (code_of f') None = Some None \<and>
     (stages_in_blocks st f \<longrightarrow> (\<forall>b\<in>set (iu_blocks f'). spans strs st (span_name lb) (snd b) None = Some None)))"

lemma instrument_block_spec:
  assumes "names_fresh env" and "strings_private ''.str.topo_trace.'' m" and "mapped mp (fb_qualifiedName lb) = Some n"
    and "find_fun m n = Some f" and "plain_fun m f"
  shows "\<exists>m' c' f'. instrument_block env mp lb (m, c) = (m', c') \<and> find_fun m' n = Some f' \<and>
    f'\<lparr>iu_blocks := older (im_next m) (iu_blocks f')\<rparr> = f \<and>
    (traced env f lb \<longrightarrow> (\<forall>strs. text_within m' strs \<longrightarrow> in_spans env mp lb strs f f')) \<and>
    im_next m \<le> im_next m' \<and> text_kept m m' \<and> strings_private ''.str.topo_trace.'' m' \<and> other_functions_kept n m m'"
proof (cases "traced env f lb")
  case False
  have "older (im_next m) (iu_blocks f) = iu_blocks f"
    using assms(5) by (intro older_all) (simp add: plain_fun_def code_of_def)
  then show ?thesis using assms(2,3,4) False
    by (auto simp: instrument_block_def traced_def text_kept_def other_functions_kept_def)
next
  case True
  let ?st = "call_stage (ir_name_to_stage env mp lb)"
  let ?gs = "stage_groups ?st (code_of f)"
  have mem: "\<forall>g\<in>set ?gs. snd g \<noteq> [] \<and> (\<forall>i\<in>set (snd g). ii_id i < im_next m)"
    using groups_members [of _ ?st "code_of f"] assms(5) unfolding plain_fun_def by (meson subsetD)
  obtain m' bes where r: "fold (instrument_group env n lb) ?gs (m, c) = (m', c + int (length ?gs))"
    "list_all2 (bracket (global_text m') (span_name lb)) ?gs bes" "\<forall>p\<in>set bes. im_next m \<le> ii_id (fst p) \<and> im_next m \<le> ii_id (snd p)"
    "find_fun m' n = Some (f\<lparr>iu_blocks := weave (group_begins (zip ?gs bes)) (group_ends (zip ?gs bes)) (iu_blocks f)\<rparr>)"
    "im_next m \<le> im_next m'" "text_kept m m'" "strings_private ''.str.topo_trace.'' m'" "other_functions_kept n m m'"
    using instrument_groups [OF assms(1,2,4) mem, of lb c] by blast
  let ?f' = "f\<lparr>iu_blocks := weave (group_begins (zip ?gs bes)) (group_ends (zip ?gs bes)) (iu_blocks f)\<rparr>"
  have "older (im_next m) (iu_blocks ?f') = older (im_next m) (iu_blocks f)"
    using r(3) by (simp, intro older_weave) (auto simp: group_begins_def group_ends_def dest!: set_zip_rightD split: if_splits)
  also have "\<dots> = iu_blocks f" using assms(5) by (intro older_all) (simp add: plain_fun_def code_of_def)
  finally have old: "?f'\<lparr>iu_blocks := older (im_next m) (iu_blocks ?f')\<rparr> = f" by simp
  have code: "code_of ?f' = woven (group_begins (zip ?gs bes)) (group_ends (zip ?gs bes)) (code_of f)"
    by (simp add: code_of_def weave_def code_on_ins woven_def)
  have "in_spans env mp lb strs f ?f'" if "text_within m' strs" for strs
  proof -
    have "bracket strs nm g p" if "bracket (global_text m') nm g p" for nm g p
      using that \<open>text_within m' strs\<close>
      by (auto simp: bracket_def begun_def text_within_def split: if_splits list.splits ir_value.splits)
    then have l: "list_all2 (bracket strs (span_name lb)) ?gs bes" using r(2) by (rule list_all2_mono [rotated])
    have pl: "distinct (map ii_id (code_of f))" "\<forall>i\<in>set (code_of f). begun strs i = None \<and> called i \<noteq> Some ''topo_trace_span_end''"
      using assms(5) by (auto simp: plain_fun_def begun_def)
    have whole: "spans strs ?st (span_name lb) (code_of ?f') None = Some None" using groups_spans [OF pl l] unfolding code by blast
    moreover have "\<forall>b\<in>set (iu_blocks ?f'). begins strs (snd b) = ends strs (snd b)" if "stages_in_blocks ?st f"
      using blocks_balanced [OF pl l that] by (auto simp: weave_def on_ins_def woven_def)
    ultimately show ?thesis unfolding in_spans_def Let_def
      using blocks_spans [of strs ?st "span_name lb" "iu_blocks ?f'"] by (auto simp: code_of_def)
  qed
  moreover have "instrument_block env mp lb (m, c) = (m', c + int (length ?gs))"
    using True assms(3,4) r(1) by (auto simp: instrument_block_def traced_def buildStageGroups_all)
  ultimately show ?thesis using r(4-8) old by blast
qed

lemma plain_fun_later: "plain_fun m f \<Longrightarrow> im_next m \<le> im_next m' \<Longrightarrow> plain_fun m' f"
  by (auto simp: plain_fun_def)

lemma plain_fun_empty: "iu_blocks f = [] \<Longrightarrow> plain_fun m f"
  by (simp add: plain_fun_def code_of_def)

definition target :: "em_mapping \<Rightarrow> FlowBlock \<Rightarrow> string option" where
  "target mp lb = mapped mp (fb_qualifiedName lb)"

text \<open>What has become of a function: it is as it was, or its code runs in the spans of its block.\<close>

definition followed :: "obs_env \<Rightarrow> em_mapping \<Rightarrow> FlowBlock list \<Rightarrow> imod \<Rightarrow> imod \<Rightarrow> string \<Rightarrow> ifun \<Rightarrow> ifun \<Rightarrow> bool" where
  "followed env mp lbs m m' k f f' \<longleftrightarrow> ((\<forall>lb\<in>set lbs. target mp lb \<noteq> Some k) \<longrightarrow> f' = f) \<and>
     (\<forall>lb\<in>set lbs. target mp lb = Some k \<longrightarrow> f'\<lparr>iu_blocks := older (im_next m) (iu_blocks f')\<rparr> = f \<and>
        (traced env f lb \<longrightarrow> (\<forall>strs. text_within m' strs \<longrightarrow> in_spans env mp lb strs f f')))"

lemma instrument_blocks_spec:
  assumes "names_fresh env" and "strings_private ''.str.topo_trace.'' m" and "distinct (List.map_filter (target mp) lbs)"
    and "\<forall>lb\<in>set lbs. \<forall>n f. target mp lb = Some n \<longrightarrow> find_fun m n = Some f \<longrightarrow> plain_fun m f"
  shows "\<exists>m' c'. fold (instrument_block env mp) lbs (m, c) = (m', c') \<and> text_kept m m' \<and>
    (\<forall>k f. find_fun m k = Some f \<longrightarrow> (\<exists>f'. find_fun m' k = Some f' \<and> followed env mp lbs m m' k f f'))"
  using assms(2-4)
proof (induction lbs arbitrary: m c)
  case Nil
  then show ?case by (simp add: text_kept_def followed_def)
next
  case (Cons lb lbs)
  have rest: "distinct (List.map_filter (target mp) lbs)" using Cons.prems(2) by (simp add: map_filter_simps split: option.splits)
  show ?case
  proof (cases "\<exists>n f. target mp lb = Some n \<and> find_fun m n = Some f")
    case False
    then have "instrument_block env mp lb (m, c) = (m, c)" by (auto simp: instrument_block_def target_def split: option.splits)
    moreover obtain m' c' where "fold (instrument_block env mp) lbs (m, c) = (m', c')" "text_kept m m'"
      "\<forall>k f. find_fun m k = Some f \<longrightarrow> (\<exists>f'. find_fun m' k = Some f' \<and> followed env mp lbs m m' k f f')"
      using Cons.IH [OF Cons.prems(1) rest, of c] Cons.prems(3) by auto
    moreover have "followed env mp (lb # lbs) m m' k f f'" if "find_fun m k = Some f" "followed env mp lbs m m' k f f'" for k f f'
      using that False by (auto simp: followed_def)
    ultimately show ?thesis by fastforce
  next
    case True
    then obtain n f where n: "target mp lb = Some n" "find_fun m n = Some f" by blast
    have fresh: "\<forall>l\<in>set lbs. target mp l \<noteq> Some n"
      using Cons.prems(2) n(1) by (auto simp: map_filter_simps List.map_filter_def image_iff)
    obtain m1 c1 f1 where b: "instrument_block env mp lb (m, c) = (m1, c1)" "find_fun m1 n = Some f1"
      "f1\<lparr>iu_blocks := older (im_next m) (iu_blocks f1)\<rparr> = f"
      "traced env f lb \<longrightarrow> (\<forall>strs. text_within m1 strs \<longrightarrow> in_spans env mp lb strs f f1)"
      "im_next m \<le> im_next m1" "text_kept m m1" "strings_private ''.str.topo_trace.'' m1" "other_functions_kept n m m1"
      using instrument_block_spec [OF assms(1) Cons.prems(1) n(1) [unfolded target_def] n(2), of c] Cons.prems(3) n by fastforce
    have plain: "\<forall>l\<in>set lbs. \<forall>k g. target mp l = Some k \<longrightarrow> find_fun m1 k = Some g \<longrightarrow> plain_fun m1 g"
      using b(5,8) fresh Cons.prems(3) plain_fun_later plain_fun_empty unfolding other_functions_kept_def
      by (metis list.set_intros(2))
    obtain m' c' where r: "fold (instrument_block env mp) lbs (m1, c1) = (m', c')" "text_kept m1 m'"
      "\<forall>k f. find_fun m1 k = Some f \<longrightarrow> (\<exists>f'. find_fun m' k = Some f' \<and> followed env mp lbs m1 m' k f f')"
      using Cons.IH [OF b(7) rest plain, of c1] by blast
    have "\<exists>g'. find_fun m' k = Some g' \<and> followed env mp (lb # lbs) m m' k g g'" if g: "find_fun m k = Some g" for k g
    proof (cases "k = n")
      case True
      then have "find_fun m' k = Some f1" using r(3) b(2) fresh by (fastforce simp: followed_def)
      moreover have "followed env mp (lb # lbs) m m' k g f1"
        using True g n b(3,4) fresh text_within_kept [OF _ r(2)] by (auto simp: followed_def)
      ultimately show ?thesis by blast
    next
      case False
      then have "find_fun m1 k = Some g" using b(8) g by (simp add: other_functions_kept_def)
      then obtain g' where g': "find_fun m' k = Some g'" "followed env mp lbs m1 m' k g g'" using r(3) by blast
      have old: "iu_blocks g = older (im_next m) (iu_blocks g')"
        if "l \<in> set lbs" "target mp l = Some k" for l
      proof -
        have "g = g'\<lparr>iu_blocks := older (im_next m1) (iu_blocks g')\<rparr>" using g'(2) that by (simp add: followed_def)
        then have gb: "iu_blocks g = older (im_next m1) (iu_blocks g')" by (metis ifun.select_convs(6) ifun.surjective ifun.update_convs(6))
        have "older (im_next m) (iu_blocks g) = iu_blocks g"
          using Cons.prems(3) that g by (intro older_all) (auto simp: plain_fun_def code_of_def)
        then show ?thesis unfolding gb by (simp add: older_older b(5))
      qed
      have "followed env mp (lb # lbs) m m' k g g'"
        using g'(2) False n(1) old by (fastforce simp: followed_def)
      with g'(1) show ?thesis by blast
    qed
    moreover have "text_kept m m'" using b(6) r(2) by (rule text_kept_trans)
    ultimately show ?thesis using b(1) r(1) by auto
  qed
qed


definition trace_example_env :: obs_env where
  "trace_example_env = \<lparr>oe_uniq = dotted_name, oe_order = (\<lambda>xs. xs), oe_enabled = True, oe_internalStages = False\<rparr>"

definition trace_example_call :: "nat \<Rightarrow> string \<Rightarrow> ins" where
  "trace_example_call k f = new_ins k (call_proto f [] VoidTy)"

definition trace_example_fun :: "blocks \<Rightarrow> ifun" where
  "trace_example_fun bs = (new_ifun ''flow'' [] VoidTy)\<lparr>iu_blocks := bs\<rparr>"

definition trace_example_module :: "blocks \<Rightarrow> imod" where
  "trace_example_module bs = \<lparr>im_triple = [], im_funs = [trace_example_fun bs, new_ifun ''load'' [] VoidTy, new_ifun ''mix'' [] VoidTy],
     im_globals = [], im_next = 10, im_abi = \<lparr>am_values = [], am_strings = [], am_ctors = []\<rparr>\<rparr>"

definition trace_example_flow :: FlowSymbols where
  "trace_example_flow = \<lparr>fl_blocks = [(''flow'', \<lparr>fb_qualifiedName = ''flow'', fb_simpleName = ''flow'', fb_isPipeline = True,
     fb_calledFunctions = [''load'', ''mix''], fb_stages = [0, 1], fb_edges = [], fb_analysis = None\<rparr>)], fl_functions = [], fl_adapts = []\<rparr>"

definition trace_example_mapping :: em_mapping where
  "trace_example_mapping = [(''flow'', Some ''flow''), (''load'', Some ''load''), (''mix'', Some ''mix'')]"

text \<open>Two calls of the first stage with another call between them, and one of the second.\<close>

definition trace_example_line :: blocks where
  "trace_example_line = [(0, [trace_example_call 0 ''load'', trace_example_call 1 ''print'', trace_example_call 2 ''load'',
     trace_example_call 3 ''mix'', new_ins 4 (ORet, [], VoidTy)])]"


section \<open>Spans over branches\<close>

text \<open>
  The group of a stage may begin on one branch and end on another: a path that takes the first branch begins
  the span and never ends it.
\<close>

definition trace_example_branches :: blocks where
  "trace_example_branches =
     [(0, [new_ins 0 (OCondBr 1 2, [VArg 0], VoidTy)]),
      (1, [trace_example_call 1 ''load'', new_ins 2 (ORet, [], VoidTy)]),
      (2, [trace_example_call 3 ''load'', new_ins 4 (ORet, [], VoidTy)])]"

lemma span_left_open:
  "iu_blocks (the (find_fun (fst (observability_run trace_example_env trace_example_flow trace_example_mapping
       (trace_example_module trace_example_branches))) ''flow'')) =
     [(0, [new_ins 0 (OCondBr 1 2, [VArg 0], VoidTy)]),
      (1, [begin_ins 10 ''.str.topo_trace.flow::stage0'', trace_example_call 1 ''load'', new_ins 2 (ORet, [], VoidTy)]),
      (2, [trace_example_call 3 ''load'', end_ins 11, new_ins 4 (ORet, [], VoidTy)])]"
  by code_simp

lemma span_left_open_path:
  "path [(0, [new_ins 0 (OCondBr 1 2, [VArg 0], VoidTy)]),
      (1, [begin_ins 10 ''.str.topo_trace.flow::stage0'', trace_example_call 1 ''load'', new_ins 2 (ORet, [], VoidTy)]),
      (2, [trace_example_call 3 ''load'', end_ins 11, new_ins 4 (ORet, [], VoidTy)])] 0
     ([new_ins 0 (OCondBr 1 2, [VArg 0], VoidTy)] @
      [begin_ins 10 ''.str.topo_trace.flow::stage0'', trace_example_call 1 ''load'', new_ins 2 (ORet, [], VoidTy)])"
  by (rule path_go [where t = 1]) (auto simp: new_ins_def intro!: path_ret)

end
