(* ===== verification/ParallelPass.thy ===== *)
theory ParallelPass
  imports SsaForm
begin

text \<open>
  lib/Transforms/TopoParallelPass.cpp: the calls of a pipeline's stage become tasks of the task pool, spawned and
  awaited at the first of them. The priority analysis and the sizes of types are parameters; so is LLVM's
  dominance check, with what it promises about availability.
\<close>

section \<open>Candidates\<close>

record parallel_env =
  pe_uniq :: "string set \<Rightarrow> string \<Rightarrow> string"
  pe_priority :: "FlowSymbols \<Rightarrow> string \<Rightarrow> int option"
  pe_normal :: int
  pe_resultSize :: "ifun \<Rightarrow> int"
  pe_dominates :: "blocks \<Rightarrow> ir_value \<Rightarrow> nat \<Rightarrow> bool"

definition isExcluded :: "string \<Rightarrow> string list \<Rightarrow> bool" where
  "isExcluded n exclude \<longleftrightarrow> (\<exists>ex\<in>set exclude. n = ex \<or> (str_rfind sep n \<noteq> None \<and> simple_name n = ex))"

definition groupNodesByStage :: "PipelineAnalysis \<Rightarrow> (int \<times> string list) list" where
  "groupNodesByStage an =
     map (\<lambda>s. (s, map fst (filter (\<lambda>p. snd p = s) (an_stages an)))) (sort (remdups (map snd (an_stages an))))"

definition resolveNodeToQualified :: "string \<Rightarrow> FlowBlock \<Rightarrow> string" where
  "resolveNodeToQualified node lb =
     (case find (\<lambda>f. simple_name f = node) (fb_calledFunctions lb) of Some f \<Rightarrow> f | None \<Rightarrow> node)"

record NodeInfo =
  ni_simple :: string
  ni_qualified :: string
  ni_fun :: string

definition stage_candidates :: "ParallelConfig \<Rightarrow> imod \<Rightarrow> em_mapping \<Rightarrow> FlowBlock \<Rightarrow> string list \<Rightarrow> NodeInfo list" where
  "stage_candidates config m mp lb nodes =
     List.map_filter (\<lambda>node.
       let qual = resolveNodeToQualified node lb
       in case mapped mp qual of
            None \<Rightarrow> None
          | Some n \<Rightarrow>
              (case find_fun m n of
                 None \<Rightarrow> None
               | Some g \<Rightarrow>
                   if iu_declaration g \<or> iu_vararg g \<or> isExcluded qual (pl_exclude config) \<or> isExcluded node (pl_exclude config) then None
                   else Some \<lparr>ni_simple = node, ni_qualified = qual, ni_fun = n\<rparr>)) nodes"

definition target_calls :: "NodeInfo list \<Rightarrow> ifun \<Rightarrow> (ins \<times> NodeInfo) list" where
  "target_calls cands f =
     List.map_filter (\<lambda>i. case called i of None \<Rightarrow> None | Some c \<Rightarrow> map_option (Pair i) (find (\<lambda>n. ni_fun n = c) cands)) (code_of f)"

definition operands_dominate :: "parallel_env \<Rightarrow> ifun \<Rightarrow> ins \<Rightarrow> (ins \<times> NodeInfo) list \<Rightarrow> bool" where
  "operands_dominate env f firstCall targets \<longleftrightarrow>
     (\<forall>tc\<in>set targets. \<forall>v\<in>set (ii_args (fst tc)). pe_dominates env (iu_blocks f) v (ii_id firstCall))"

section \<open>Wrappers\<close>

definition declareRuntime :: "imod \<Rightarrow> imod" where
  "declareRuntime =
     getOrDeclareFunc ''topo_pass_event_emit'' [PointerTy, PointerTy, PointerTy, PointerTy] VoidTy \<circ>
     getOrDeclareFunc ''topo_cost_end'' [PointerTy] VoidTy \<circ>
     getOrDeclareFunc ''topo_cost_begin'' [PointerTy] VoidTy \<circ>
     getOrDeclareFunc ''topo_task_await_all'' [PointerTy, IntegerTy 32] VoidTy \<circ>
     getOrDeclareFunc ''topo_task_spawn_ret_pri'' [PointerTy, PointerTy, PointerTy, IntegerTy 64, IntegerTy 32] PointerTy \<circ>
     getOrDeclareFunc ''topo_task_spawn_ret'' [PointerTy, PointerTy, PointerTy, IntegerTy 64] PointerTy \<circ>
     getOrDeclareFunc ''topo_parallel_ensure_init'' [] VoidTy"

definition returns_struct :: "ifun \<Rightarrow> bool" where
  "returns_struct g \<longleftrightarrow> (case iu_params g of p # _ \<Rightarrow> snd p | [] \<Rightarrow> False)"

text \<open>The fields of the argument struct: the parameters that are not sret.\<close>

definition field_types :: "ifun \<Rightarrow> ll_type list" where
  "field_types g = map fst (filter (\<lambda>p. \<not> snd p) (iu_params g))"

definition load_fields :: "nat \<Rightarrow> ll_type list \<Rightarrow> ins list" where
  "load_fields k ts = concat (map (\<lambda>(j, t). [new_ins (k + 2 * j) (OGep, [VArg 0, VConst (int j)], PointerTy),
     new_ins (k + 2 * j + 1) (OLoad, [VInst (k + 2 * j)], t)]) (enumerate 0 ts))"

text \<open>The arguments in the order of the parameters: the result buffer for sret, the loaded fields for the others.\<close>

fun call_args :: "nat \<Rightarrow> nat \<Rightarrow> (ll_type \<times> bool) list \<Rightarrow> ir_value list" where
  "call_args k j [] = []"
| "call_args k j (p # ps) = (if snd p then VArg 1 # call_args k j ps else VInst (k + 2 * j + 1) # call_args k (j + 1) ps)"

definition wrapper_code :: "nat \<Rightarrow> ifun \<Rightarrow> (string \<times> string) option \<Rightarrow> ins list" where
  "wrapper_code k g cost =
     (let n = length (field_types g); c = k + 1 + 2 * n
      in (case cost of Some s \<Rightarrow> [new_ins k (call_proto ''topo_cost_begin'' [VGlobal (fst s)] VoidTy)] | None \<Rightarrow> []) @
         load_fields (k + 1) (field_types g) @
         [new_ins c (call_proto (iu_name g) (call_args (k + 1) 0 (iu_params g)) (iu_ret g))] @
         (if iu_ret g \<noteq> VoidTy \<and> \<not> returns_struct g then [new_ins (c + 1) (OStore, [VInst c, VArg 1], VoidTy)] else []) @
         (case cost of Some s \<Rightarrow> [new_ins (c + 2) (call_proto ''topo_cost_end'' [VGlobal (snd s)] VoidTy)] | None \<Rightarrow> []) @
         [new_ins (c + 3) (ORet, [], VoidTy)])"

definition createTaskWrapper :: "parallel_env \<Rightarrow> ifun \<Rightarrow> string \<Rightarrow> bool \<Rightarrow> imod \<Rightarrow> string \<times> imod" where
  "createTaskWrapper env g funcName instrument m =
     (let n = fresh_name (pe_uniq env) m (funcName @ ''.topo_parallel_wrap'');
          m0 = m\<lparr>im_funs := im_funs m @ [(new_ifun n [PointerTy, PointerTy] VoidTy)\<lparr>iu_linkage := InternalLinkage\<rparr>]\<rparr>;
          (cost, m1) =
            (if instrument then
               (let (s, m) = getOrCreateGlobalString (pe_uniq env) funcName ''.str.topo_cost.'' m0;
                    (e, m) = getOrCreateGlobalString (pe_uniq env) funcName ''.str.topo_cost.'' m
                in (Some (s, e), m))
             else (None, m0))
      in (n, bump (2 * length (field_types g) + 5) (upd_blocks n (\<lambda>_. [(0, wrapper_code (im_next m) g cost)]) m1)))"

section \<open>Spawning and awaiting\<close>

record spawn =
  sp_call :: nat
  sp_callee :: ifun
  sp_wrapper :: string
  sp_values :: "ir_value list"
  sp_arg :: nat
  sp_result :: nat
  sp_task :: nat
  sp_code :: "ins list"

definition store_fields :: "nat \<Rightarrow> nat \<Rightarrow> ir_value list \<Rightarrow> ins list" where
  "store_fields k a vs = concat (map (\<lambda>(j, v). [new_ins (k + 2 * j) (OGep, [VInst a, VConst (int j)], PointerTy),
     new_ins (k + 2 * j + 1) (OStore, [v, VInst (k + 2 * j)], VoidTy)]) (enumerate 0 vs))"

definition spawn_proto :: "parallel_env \<Rightarrow> int \<Rightarrow> string \<Rightarrow> nat \<Rightarrow> nat \<Rightarrow> int \<Rightarrow> proto" where
  "spawn_proto env prio w a r sz =
     (if prio \<noteq> pe_normal env then call_proto ''topo_task_spawn_ret_pri'' [VGlobal w, VInst a, VInst r, VConst sz, VConst prio] PointerTy
      else call_proto ''topo_task_spawn_ret'' [VGlobal w, VInst a, VInst r, VConst sz] PointerTy)"

definition spawn_call :: "parallel_env \<Rightarrow> FlowSymbols \<Rightarrow> ParallelConfig \<Rightarrow> ins \<times> NodeInfo \<Rightarrow> imod \<times> spawn list \<Rightarrow> imod \<times> spawn list" where
  "spawn_call env symbols config tc s =
     (case s of (m, sps) \<Rightarrow>
        case find_fun m (ni_fun (snd tc)) of
          None \<Rightarrow> s
        | Some g \<Rightarrow>
            (let k = im_next m;
                 vs = map fst (filter (\<lambda>p. \<not> snd (snd p)) (zip (ii_args (fst tc)) (iu_params g)));
                 (w, m) = createTaskWrapper env g (ni_simple (snd tc)) (pl_instrument config) (bump (3 + 2 * length vs) m);
                 sz = (if iu_ret g = VoidTy \<and> \<not> returns_struct g then 0 else pe_resultSize env g);
                 prio = (case pe_priority env symbols (ni_qualified (snd tc)) of Some p \<Rightarrow> p | None \<Rightarrow> pe_normal env);
                 t = k + 2 + 2 * length vs
             in (m, sps @ [\<lparr>sp_call = ii_id (fst tc), sp_callee = g, sp_wrapper = w, sp_values = vs, sp_arg = k, sp_result = k + 1,
                  sp_task = t, sp_code = store_fields (k + 2) k vs @ [new_ins t (spawn_proto env prio w k (k + 1) sz)]\<rparr>])))"

definition has_result :: "ifun \<Rightarrow> bool" where
  "has_result g \<longleftrightarrow> iu_ret g \<noteq> VoidTy \<and> \<not> returns_struct g"

definition spawn_allocas :: "spawn \<Rightarrow> ins list" where
  "spawn_allocas sp = [new_ins (sp_arg sp) (OAlloca, [VUndef StructTy], PointerTy),
     new_ins (sp_result sp) (OAlloca, [VUndef (if iu_ret (sp_callee sp) = VoidTy \<and> \<not> returns_struct (sp_callee sp) then IntegerTy 8
       else if returns_struct (sp_callee sp) then StructTy else iu_ret (sp_callee sp))], PointerTy)]"

text \<open>The array of handles is at \<open>arr\<close>, its slots are filled by instructions from \<open>arr + 1\<close> on; the await comes last.\<close>

definition store_handles :: "nat \<Rightarrow> nat list \<Rightarrow> ins list" where
  "store_handles arr ts = concat (map (\<lambda>(i, t). [new_ins (arr + 1 + 2 * i) (OGep, [VInst arr, VConst (int i)], PointerTy),
     new_ins (arr + 2 + 2 * i) (OStore, [VInst t, VInst (arr + 1 + 2 * i)], VoidTy)]) (enumerate 0 ts))"

definition await_code :: "nat \<Rightarrow> nat list \<Rightarrow> ins list" where
  "await_code arr ts = store_handles arr ts @
     [new_ins (arr + 1 + 2 * length ts) (call_proto ''topo_task_await_all'' [VInst arr, VConst (int (length ts))] VoidTy)]"

definition spawn_all_code :: "nat \<Rightarrow> spawn list \<Rightarrow> ins list" where
  "spawn_all_code arr sps = concat (map sp_code sps) @ await_code arr (map sp_task sps)"

text \<open>The loads that replace the calls.\<close>

definition result_loads :: "nat \<Rightarrow> spawn list \<Rightarrow> (nat \<times> ins) list" where
  "result_loads k sps = List.map_filter (\<lambda>(i, sp). if has_result (sp_callee sp)
     then Some (sp_call sp, new_ins (k + i) (OLoad, [VInst (sp_result sp)], iu_ret (sp_callee sp))) else None) (enumerate 0 sps)"

definition subst_value :: "nat \<Rightarrow> nat \<Rightarrow> ir_value \<Rightarrow> ir_value" where
  "subst_value c l v = (if v = VInst c then VInst l else v)"

definition replaceAllUsesWith :: "nat \<times> ins \<Rightarrow> blocks \<Rightarrow> blocks" where
  "replaceAllUsesWith p = on_ins (\<lambda>i. [i\<lparr>ii_args := map (subst_value (fst p) (ii_id (snd p))) (ii_args i),
     ii_op := (case ii_op i of OCall (Indirect v) \<Rightarrow> OCall (Indirect (subst_value (fst p) (ii_id (snd p)) v))
       | OInvoke (Indirect v) t u \<Rightarrow> OInvoke (Indirect (subst_value (fst p) (ii_id (snd p)) v)) t u | op \<Rightarrow> op)\<rparr>])"

definition erase_ins :: "nat set \<Rightarrow> blocks \<Rightarrow> blocks" where
  "erase_ins ks = on_ins (\<lambda>i. if ii_id i \<in> ks then [] else [i])"

section \<open>Events\<close>

text \<open>\<open>SplitBlockAndInsertIfThen\<close> at an instruction: its block ends in a branch round a block of its own.\<close>

definition split_if_then :: "nat \<Rightarrow> ins list \<Rightarrow> ins \<Rightarrow> nat \<Rightarrow> ins list \<Rightarrow> nat \<Rightarrow> blocks \<Rightarrow> blocks" where
  "split_if_then k heads branch lthen thens ltail bs =
     concat (map (\<lambda>(b, is). if k \<in> ii_id ` set is
       then [(b, takeWhile (\<lambda>i. ii_id i \<noteq> k) is @ heads @ [branch]), (lthen, thens), (ltail, dropWhile (\<lambda>i. ii_id i \<noteq> k) is)]
       else [(b, is)]) bs)"

definition emitParallelEvent :: "string \<Rightarrow> nat \<Rightarrow> string \<Rightarrow> ir_value list \<Rightarrow> imod \<Rightarrow> imod" where
  "emitParallelEvent n anchor flag args m =
     (let k = im_next m
      in bump 6 (upd_blocks n (split_if_then anchor
           [new_ins k (OLoad, [VGlobal flag], IntegerTy 8), new_ins (k + 1) (OIcmpEq, [VInst k, VConst 0], IntegerTy 1)]
           (new_ins (k + 2) (OCondBr k (k + 1), [VInst (k + 1)], VoidTy)) k
           [new_ins (k + 3) (OStore, [VConst 1, VGlobal flag], VoidTy), new_ins (k + 4) (call_proto ''topo_pass_event_emit'' args VoidTy),
            new_ins (k + 5) (OBr (k + 1), [], VoidTy)] (k + 1)) m))"

record pass_strings =
  pt_name :: string
  pt_subject :: string
  pt_serial :: string
  pt_spawned :: string
  pt_joined :: string

definition event_strings :: "parallel_env \<Rightarrow> string \<Rightarrow> imod \<Rightarrow> pass_strings \<times> imod" where
  "event_strings env subject m =
     (let (a, m) = getOrCreateGlobalString (pe_uniq env) ''TopoParallelPass'' ''.str.topo_pass.'' m;
          (b, m) = getOrCreateGlobalString (pe_uniq env) subject ''.str.topo_pe.subject.'' m;
          (c, m) = getOrCreateGlobalString (pe_uniq env) ''serial'' ''.str.topo_pe.'' m;
          (d, m) = getOrCreateGlobalString (pe_uniq env) ''spawned'' ''.str.topo_pe.'' m;
          (e, m) = getOrCreateGlobalString (pe_uniq env) ''joined'' ''.str.topo_pe.'' m
      in (\<lparr>pt_name = a, pt_subject = b, pt_serial = c, pt_spawned = d, pt_joined = e\<rparr>, m))"

section \<open>The pass\<close>

definition prepend_entry :: "ins list \<Rightarrow> blocks \<Rightarrow> blocks" where
  "prepend_entry xs bs = (case bs of [] \<Rightarrow> [] | (b, is) # rest \<Rightarrow> (b, xs @ is) # rest)"

text \<open>From the first task to the end of the await, and the results after it; \<open>fc\<close> is the first call.\<close>

definition await_stage :: "string \<Rightarrow> nat \<Rightarrow> spawn list \<Rightarrow> imod \<Rightarrow> imod" where
  "await_stage n fc sps m =
     bump (2 + 2 * length sps) (upd_blocks n (prepend_entry (concat (map spawn_allocas sps) @ [new_ins (im_next m) (OAlloca, [VConst (int (length sps))], PointerTy)])
       \<circ> insert_before fc (spawn_all_code (im_next m) sps)) m)"

definition load_results :: "string \<Rightarrow> nat \<Rightarrow> spawn list \<Rightarrow> imod \<Rightarrow> imod" where
  "load_results n fc sps m =
     bump (length sps) (upd_blocks n (erase_ins (sp_call ` set sps) \<circ> fold replaceAllUsesWith (result_loads (im_next m) sps) \<circ>
       insert_before fc (map snd (result_loads (im_next m) sps))) m)"

definition spawn_stage :: "parallel_env \<Rightarrow> FlowSymbols \<Rightarrow> ParallelConfig \<Rightarrow> string \<Rightarrow> nat \<Rightarrow> (ins \<times> NodeInfo) list \<Rightarrow> string \<Rightarrow>
    ir_value list \<Rightarrow> imod \<Rightarrow> imod" where
  "spawn_stage env symbols config n fc targets joinFlag joinArgs m =
     (case fold (spawn_call env symbols config) targets (m, []) of
        (m, sps) \<Rightarrow> load_results n fc sps (emitParallelEvent n fc joinFlag joinArgs (await_stage n fc sps m)))"

definition insert_init :: "string \<Rightarrow> nat \<Rightarrow> imod \<Rightarrow> imod" where
  "insert_init n fc m =
     bump 1 (upd_blocks n (insert_before fc [new_ins (im_next m) (call_proto ''topo_parallel_ensure_init'' [] VoidTy)]) m)"

definition stage_events :: "parallel_env \<Rightarrow> string \<Rightarrow> string \<Rightarrow> nat \<Rightarrow> pass_strings \<Rightarrow> imod \<Rightarrow> string \<times> imod" where
  "stage_events env n flagSuffix fc pt m =
     (case add_iglobal (pe_uniq env) (''topo.parallel.pe.spawn.'' @ flagSuffix) InternalLinkage None m of
        (spawnFlag, m1) \<Rightarrow>
          (case add_iglobal (pe_uniq env) (''topo.parallel.pe.join.'' @ flagSuffix) InternalLinkage None m1 of
             (joinFlag, m2) \<Rightarrow>
               (joinFlag, emitParallelEvent n fc spawnFlag
                  [VGlobal (pt_name pt), VGlobal (pt_serial pt), VGlobal (pt_spawned pt), VGlobal (pt_subject pt)] m2)))"

definition transform_stage :: "parallel_env \<Rightarrow> FlowSymbols \<Rightarrow> ParallelConfig \<Rightarrow> FlowBlock \<Rightarrow> string \<Rightarrow> int \<Rightarrow> (ins \<times> NodeInfo) list \<Rightarrow> imod \<Rightarrow> imod" where
  "transform_stage env symbols config lb n stage targets m =
     (case event_strings env (fb_qualifiedName lb) (insert_init n (ii_id (fst (hd targets))) m) of
        (pt, m1) \<Rightarrow>
          (case stage_events env n (fb_qualifiedName lb @ ''.s'' @ show_int stage) (ii_id (fst (hd targets))) pt m1 of
             (joinFlag, m2) \<Rightarrow>
               spawn_stage env symbols config n (ii_id (fst (hd targets))) targets joinFlag
                 [VGlobal (pt_name pt), VGlobal (pt_spawned pt), VGlobal (pt_joined pt), VGlobal (pt_subject pt)] m2))"

definition parallel_stage :: "parallel_env \<Rightarrow> FlowSymbols \<Rightarrow> ParallelConfig \<Rightarrow> em_mapping \<Rightarrow> FlowBlock \<Rightarrow> string \<Rightarrow> int \<times> string list \<Rightarrow>
    imod \<times> int \<Rightarrow> imod \<times> int" where
  "parallel_stage env symbols config mp lb n st s =
     (case find_fun (fst s) n of
        None \<Rightarrow> s
      | Some f \<Rightarrow>
          (case stage_candidates config (fst s) mp lb (snd st) of
             [] \<Rightarrow> s
           | c # cands \<Rightarrow>
               (case target_calls (c # cands) f of
                  [] \<Rightarrow> s
                | t # targets \<Rightarrow>
                    if operands_dominate env f (fst t) (t # targets)
                    then (transform_stage env symbols config lb n (fst st) (t # targets) (fst s), snd s + 1) else s)))"

definition parallel_block :: "parallel_env \<Rightarrow> FlowSymbols \<Rightarrow> ParallelConfig \<Rightarrow> em_mapping \<Rightarrow> FlowBlock \<Rightarrow> imod \<times> int \<Rightarrow> imod \<times> int" where
  "parallel_block env symbols config mp lb s =
     (case (fb_isPipeline lb, fb_analysis lb, mapped mp (fb_qualifiedName lb)) of
        (True, Some an, Some n) \<Rightarrow>
          (case find_fun (fst s) n of
             None \<Rightarrow> s
           | Some f \<Rightarrow> if iu_declaration f then s else fold (parallel_stage env symbols config mp lb n) (groupNodesByStage an) s)
      | _ \<Rightarrow> s)"

definition parallel_run :: "parallel_env \<Rightarrow> FlowSymbols \<Rightarrow> ParallelConfig \<Rightarrow> em_mapping \<Rightarrow> imod \<Rightarrow> imod \<times> int" where
  "parallel_run env symbols config mp m =
     (if pl_mode config = Off then (m, 0)
      else (case fold (parallel_block env symbols config mp) (map snd (fl_blocks symbols)) (declareRuntime m, 0) of
              (m, parallelized) \<Rightarrow>
                (if parallelized > 0 then inject_abi ''parallel'' ''topo_parallel_version'' 1 m else m, parallelized)))"

section \<open>Examples\<close>

text \<open>A pipeline with one stage, the nodes \<open>load\<close> and \<open>mix\<close>; nothing is excluded, operands are arguments.\<close>

definition par_example_env :: parallel_env where
  "par_example_env = \<lparr>pe_uniq = dotted_name, pe_priority = (\<lambda>_ q. if q = ''mix'' then Some 3 else None), pe_normal = 1,
     pe_resultSize = (\<lambda>_. 4), pe_dominates = (\<lambda>_ v _. case v of VInst _ \<Rightarrow> False | _ \<Rightarrow> True)\<rparr>"

definition par_example_config :: ParallelConfig where
  "par_example_config = \<lparr>pl_mode = Force, pl_instrument = True, pl_exclude = []\<rparr>"

definition par_example_fun :: "string \<Rightarrow> (ll_type \<times> bool) list \<Rightarrow> ll_type \<Rightarrow> blocks \<Rightarrow> ifun" where
  "par_example_fun n ps r bs = (new_ifun n [] r)\<lparr>iu_params := ps, iu_blocks := bs\<rparr>"

definition par_example_stub :: "nat \<Rightarrow> blocks" where
  "par_example_stub k = [(0, [new_ins k (ORet, [VConst 0], VoidTy)])]"

definition par_example_module :: "(ll_type \<times> bool) list \<Rightarrow> ll_type \<Rightarrow> blocks \<Rightarrow> imod" where
  "par_example_module ps r bs = \<lparr>im_triple = [],
     im_funs = [par_example_fun ''flow'' [(PointerTy, False), (IntegerTy 32, False)] (IntegerTy 32) bs,
       par_example_fun ''load'' ps r (par_example_stub 10), par_example_fun ''mix'' [(PointerTy, False), (IntegerTy 32, False)] (IntegerTy 32) (par_example_stub 11)],
     im_globals = [], im_next = 12, im_abi = \<lparr>am_values = [], am_strings = [], am_ctors = []\<rparr>\<rparr>"

definition par_example_flow :: FlowSymbols where
  "par_example_flow = \<lparr>fl_blocks = [(''flow'', \<lparr>fb_qualifiedName = ''flow'', fb_simpleName = ''flow'', fb_isPipeline = True,
     fb_calledFunctions = [''load'', ''mix''], fb_stages = [0, 0], fb_edges = [], fb_analysis = Some \<lparr>an_stages = [(''load'', 0), (''mix'', 0)],
     an_sourceNodes = [], an_terminalNode = ''mix'', an_terminalType = [], an_demand = []\<rparr>\<rparr>)], fl_functions = [], fl_adapts = []\<rparr>"

definition par_example_mapping :: em_mapping where
  "par_example_mapping = [(''flow'', Some ''flow''), (''load'', Some ''load''), (''mix'', Some ''mix'')]"

definition par_example_run :: "(ll_type \<times> bool) list \<Rightarrow> ll_type \<Rightarrow> blocks \<Rightarrow> imod \<times> int" where
  "par_example_run ps r bs = parallel_block par_example_env par_example_flow par_example_config par_example_mapping
     (snd (hd (fl_blocks par_example_flow))) (par_example_module ps r bs, 0)"

definition blocks_after :: "imod \<times> int \<Rightarrow> blocks" where
  "blocks_after s = (case find_fun (fst s) ''flow'' of Some f \<Rightarrow> iu_blocks f | None \<Rightarrow> [])"

text \<open>A call on each of two branches.\<close>

definition two_branches :: blocks where
  "two_branches = [(0, [new_ins 0 (OCondBr 1 2, [VArg 1], VoidTy)]),
     (1, [new_ins 1 (call_proto ''load'' [VArg 0] (IntegerTy 32)), new_ins 2 (ORet, [VInst 1], VoidTy)]),
     (2, [new_ins 3 (call_proto ''mix'' [VArg 0, VArg 1] (IntegerTy 32)), new_ins 4 (ORet, [VInst 3], VoidTy)])]"

text \<open>
  Both become tasks on the first branch. The second keeps only its return, of a value that is computed on the
  first branch: the code is no longer in SSA form, and the first branch runs a function it did not call.
\<close>

definition block_args :: "nat \<Rightarrow> blocks \<Rightarrow> (nat \<times> ir_value list) list" where
  "block_args l bs = concat (map (\<lambda>p. if fst p = l then map (\<lambda>i. (ii_id i, ii_args i)) (snd p) else []) bs)"

definition hoisted_view :: "blocks \<Rightarrow> (nat \<times> ir_value list) list \<times> (nat \<times> ir_value list) list \<times> (nat \<times> ir_value list) list" where
  "hoisted_view bs = (block_args 2 bs, block_args 54 bs,
     filter (\<lambda>p. snd p \<noteq> [] \<and> hd (snd p) \<in> {VGlobal ''load.topo_parallel_wrap'', VGlobal ''mix.topo_parallel_wrap''}) (block_args 14 bs))"

lemma branch_calls_hoisted:
  "hoisted_view (blocks_after (par_example_run [(PointerTy, False)] (IntegerTy 32) two_branches)) =
   ([(4, [VInst 60])], [(59, [VInst 20]), (60, [VInst 32]), (2, [VInst 59])],
    [(23, [VGlobal ''load.topo_parallel_wrap'', VInst 19, VInst 20, VConst 4]),
     (37, [VGlobal ''mix.topo_parallel_wrap'', VInst 31, VInst 32, VConst 4, VConst 3])])"
  by code_simp

text \<open>One call is enough to make a stage parallel.\<close>

definition one_call :: blocks where
  "one_call = [(0, [new_ins 0 (call_proto ''load'' [VArg 0] (IntegerTy 32)), new_ins 1 (ORet, [VInst 0], VoidTy)])]"

lemma single_call_spawned: "snd (par_example_run [(PointerTy, False)] (IntegerTy 32) one_call) = 1"
  by code_simp

text \<open>
  A function that returns a struct is given a new buffer, and the caller's buffer is not mentioned any more: what
  the caller reads from it was never written.
\<close>

definition struct_call :: blocks where
  "struct_call = [(0, [new_ins 0 (OAlloca, [], PointerTy), new_ins 1 (call_proto ''load'' [VArg 0, VArg 1] VoidTy), new_ins 2 (ORet, [], VoidTy)])]"

lemma struct_result_lost:
  "let r = par_example_run [(PointerTy, True), (IntegerTy 32, False)] VoidTy struct_call
   in snd r = 1 \<and> (\<forall>i\<in>set (concat (map snd (blocks_after r))). VArg 0 \<notin> set (ii_args i))"
  by code_simp

end
