(* ===== verification/ParallelTasks.thy ===== *)
theory ParallelTasks
  imports ParallelPass
begin

text \<open>
  What the code of \<open>ParallelPass\<close> computes. A machine runs the spawning code of a stage while the pool runs the
  spawned tasks, each at any moment between its spawn and the end of the await. The functions of the stage compute
  a value from their arguments. Whatever the order of the tasks, each call's result is what the call itself would return.
\<close>

section \<open>A machine with tasks\<close>

datatype 'v rt_value = Val 'v | Ptr nat nat | Handle nat | NoValue

type_synonym 'v regs = "nat \<Rightarrow> 'v rt_value"
type_synonym 'v cells = "nat \<times> nat \<Rightarrow> 'v rt_value"

text \<open>A task: its wrapper, its argument struct, its result buffer and its handle.\<close>

type_synonym task = "string \<times> nat \<times> nat \<times> nat"

definition handle_of :: "task \<Rightarrow> nat" where
  "handle_of t = snd (snd (snd t))"

definition val_of :: "(ir_value \<Rightarrow> 'v rt_value) \<Rightarrow> 'v regs \<Rightarrow> ir_value \<Rightarrow> 'v rt_value" where
  "val_of base R v = (case v of VInst k \<Rightarrow> R k | _ \<Rightarrow> base v)"

definition plain_ins :: "(string \<Rightarrow> 'v rt_value list \<Rightarrow> 'v rt_value) \<Rightarrow> (ir_value \<Rightarrow> 'v rt_value) \<Rightarrow> ins \<Rightarrow> 'v regs \<times> 'v cells \<Rightarrow> 'v regs \<times> 'v cells" where
  "plain_ins F base i s =
     (case s of (R, M) \<Rightarrow>
        case (ii_op i, ii_args i) of
          (OGep, [p, VConst j]) \<Rightarrow> (R(ii_id i := (case val_of base R p of Ptr a y \<Rightarrow> Ptr a (y + nat j) | _ \<Rightarrow> NoValue)), M)
        | (OStore, [v, p]) \<Rightarrow> (R, (case val_of base R p of Ptr a y \<Rightarrow> M((a, y) := val_of base R v) | _ \<Rightarrow> M))
        | (OLoad, [p]) \<Rightarrow> (R(ii_id i := (case val_of base R p of Ptr a y \<Rightarrow> M (a, y) | _ \<Rightarrow> NoValue)), M)
        | (OCall (Direct f), vs) \<Rightarrow> (R(ii_id i := F f (map (val_of base R) vs)), M)
        | _ \<Rightarrow> (R, M))"

text \<open>A task runs its wrapper on its struct and its buffer.\<close>

definition wrapper_args :: "nat \<Rightarrow> nat \<Rightarrow> ir_value \<Rightarrow> 'v rt_value" where
  "wrapper_args a r v = (if v = VArg 0 then Ptr a 0 else if v = VArg 1 then Ptr r 0 else NoValue)"

definition run_task :: "(string \<Rightarrow> 'v rt_value list \<Rightarrow> 'v rt_value) \<Rightarrow> (string \<Rightarrow> ifun option) \<Rightarrow> task \<Rightarrow> 'v cells \<Rightarrow> 'v cells" where
  "run_task F fs t M =
     (case t of (w, a, r, h) \<Rightarrow>
        case fs w of None \<Rightarrow> M | Some f \<Rightarrow> snd (fold (plain_ins F (wrapper_args a r)) (code_of f) ((\<lambda>_. NoValue), M)))"

definition is_spawn :: "ins \<Rightarrow> bool" where
  "is_spawn i \<longleftrightarrow> called i = Some ''topo_task_spawn_ret'' \<or> called i = Some ''topo_task_spawn_ret_pri''"

definition is_await :: "ins \<Rightarrow> bool" where
  "is_await i \<longleftrightarrow> called i = Some ''topo_task_await_all''"

type_synonym 'v state = "ins list \<times> 'v regs \<times> 'v cells \<times> task set"

inductive pstep :: "(string \<Rightarrow> 'v rt_value list \<Rightarrow> 'v rt_value) \<Rightarrow> (string \<Rightarrow> ifun option) \<Rightarrow> (ir_value \<Rightarrow> 'v rt_value) \<Rightarrow>
    'v state \<Rightarrow> 'v state \<Rightarrow> bool" for F fs base where
  pstep_task: "t \<in> P \<Longrightarrow> pstep F fs base (c, R, M, P) (c, R, run_task F fs t M, P - {t})"
| pstep_plain: "\<not> is_spawn i \<Longrightarrow> \<not> is_await i \<Longrightarrow> plain_ins F base i (R, M) = (R', M') \<Longrightarrow> pstep F fs base (i # c, R, M, P) (c, R', M', P)"
| pstep_spawn: "is_spawn i \<Longrightarrow> ii_args i = VGlobal w # VInst x # VInst y # vs \<Longrightarrow> R x = Ptr a 0 \<Longrightarrow> R y = Ptr r 0 \<Longrightarrow>
    pstep F fs base (i # c, R, M, P) (c, R(ii_id i := Handle (ii_id i)), M, insert (w, a, r, ii_id i) P)"
| pstep_await: "is_await i \<Longrightarrow> ii_args i = [VInst x, VConst n] \<Longrightarrow> R x = Ptr a 0 \<Longrightarrow>
    \<forall>j<nat n. \<forall>t\<in>P. M (a, j) \<noteq> Handle (handle_of t) \<Longrightarrow> pstep F fs base (i # c, R, M, P) (c, R, M, P)"

inductive_cases pstep_cases: "pstep F fs base (c, R, M, P) s'"

section \<open>Wrappers run their function\<close>

lemma load_fields_snoc:
  "load_fields k (ts @ [t]) = load_fields k ts @ [new_ins (k + 2 * length ts) (OGep, [VArg 0, VConst (int (length ts))], PointerTy),
     new_ins (k + 2 * length ts + 1) (OLoad, [VInst (k + 2 * length ts)], t)]"
  by (simp add: load_fields_def enumerate_append_eq)

lemma run_load_fields:
  "\<exists>R'. fold (plain_ins F (wrapper_args a r)) (load_fields k ts) (R, M) = (R', M) \<and> (\<forall>j<length ts. R' (k + 2 * j + 1) = M (a, j))"
proof (induction ts rule: rev_induct)
  case Nil
  show ?case by (simp add: load_fields_def)
next
  case (snoc t ts)
  then obtain R' where R: "fold (plain_ins F (wrapper_args a r)) (load_fields k ts) (R, M) = (R', M)" "\<forall>j<length ts. R' (k + 2 * j + 1) = M (a, j)"
    by blast
  let ?n = "length ts"
  let ?R = "R'(k + 2 * ?n := Ptr a ?n, k + 2 * ?n + 1 := M (a, ?n))"
  have "fold (plain_ins F (wrapper_args a r)) (load_fields k (ts @ [t])) (R, M) = (?R, M)"
    by (simp add: load_fields_snoc R(1) plain_ins_def new_ins_def val_of_def wrapper_args_def)
  moreover have "\<forall>j<length (ts @ [t]). ?R (k + 2 * j + 1) = M (a, j)"
  proof (intro allI impI)
    fix j
    assume "j < length (ts @ [t])"
    then consider "j = ?n" | "j < ?n" by fastforce
    then show "?R (k + 2 * j + 1) = M (a, j)"
    proof cases
      case 2
      then have "k + 2 * j + 1 \<noteq> k + 2 * ?n" "k + 2 * j + 1 \<noteq> k + 2 * ?n + 1" by presburger+
      then show ?thesis using R(2) 2 by simp
    qed simp
  qed
  ultimately show ?case by blast
qed

definition no_sret :: "ifun \<Rightarrow> bool" where
  "no_sret g \<longleftrightarrow> (\<forall>p\<in>set (iu_params g). \<not> snd p)"

lemma no_sret_facts:
  assumes "no_sret g"
  shows "\<not> returns_struct g" and "length (field_types g) = length (iu_params g)" and "has_result g \<longleftrightarrow> iu_ret g \<noteq> VoidTy"
  using assms by (auto simp: no_sret_def returns_struct_def field_types_def has_result_def split: list.splits)

lemma call_args_fields: "\<forall>p\<in>set ps. \<not> snd p \<Longrightarrow> call_args k j ps = map (\<lambda>i. VInst (k + 2 * i + 1)) [j..<j + length ps]"
proof (induction ps arbitrary: j)
  case (Cons p ps)
  then show ?case by (simp add: upt_conv_Cons del: upt_Suc)
qed simp

definition task_result :: "(string \<Rightarrow> 'v rt_value list \<Rightarrow> 'v rt_value) \<Rightarrow> ifun \<Rightarrow> 'v rt_value list \<Rightarrow> nat \<Rightarrow> 'v cells \<Rightarrow> 'v cells" where
  "task_result F g vs r M = (if has_result g then M((r, 0) := F (iu_name g) vs) else M)"

lemma run_wrapper:
  assumes "fs w = Some f" and "iu_blocks f = [(0, wrapper_code k g cost)]" and "no_sret g"
  shows "run_task F fs (w, a, r, h) M = task_result F g (map (\<lambda>j. M (a, j)) [0..<length (iu_params g)]) r M"
proof -
  let ?n = "length (iu_params g)"
  let ?run = "plain_ins F (wrapper_args a r)"
  let ?first = "case cost of Some s \<Rightarrow> [new_ins k (call_proto ''topo_cost_begin'' [VGlobal (fst s)] VoidTy)] | None \<Rightarrow> []"
  note ns = no_sret_facts [OF assms(3)]
  have len: "length (field_types g) = ?n" by (rule ns(2))
  obtain R0 where R0: "fold ?run ?first ((\<lambda>_. NoValue), M) = (R0, M)"
    by (cases cost) (auto simp: plain_ins_def new_ins_def call_proto_def)
  obtain R1 where R1: "fold ?run (load_fields (k + 1) (field_types g)) (R0, M) = (R1, M)" "\<forall>j<?n. R1 (k + 1 + 2 * j + 1) = M (a, j)"
    using run_load_fields [of F a r "k + 1" "field_types g" R0 M] len by auto
  let ?c = "k + 1 + 2 * ?n"
  have args: "map (val_of (wrapper_args a r) R1) (call_args (k + 1) 0 (iu_params g)) = map (\<lambda>j. M (a, j)) [0..<?n]"
    using assms(3) R1(2) by (simp add: no_sret_def call_args_fields val_of_def)
  let ?v = "F (iu_name g) (map (\<lambda>j. M (a, j)) [0..<?n])"
  have "fold ?run [new_ins ?c (call_proto (iu_name g) (call_args (k + 1) 0 (iu_params g)) (iu_ret g))] (R1, M) = (R1(?c := ?v), M)"
    using args by (simp add: plain_ins_def new_ins_def call_proto_def)
  moreover have "fold ?run (if iu_ret g \<noteq> VoidTy \<and> \<not> returns_struct g then [new_ins (?c + 1) (OStore, [VInst ?c, VArg 1], VoidTy)] else [])
      (R1(?c := ?v), M) = (R1(?c := ?v), task_result F g (map (\<lambda>j. M (a, j)) [0..<?n]) r M)"
    using ns by (simp add: plain_ins_def new_ins_def val_of_def wrapper_args_def task_result_def)
  moreover have "snd (fold ?run ((case cost of Some s \<Rightarrow> [new_ins (?c + 2) (call_proto ''topo_cost_end'' [VGlobal (snd s)] VoidTy)] | None \<Rightarrow> []) @
      [new_ins (?c + 3) (ORet, [], VoidTy)]) (R, M')) = M'" for R M'
    by (cases cost) (auto simp: plain_ins_def new_ins_def call_proto_def)
  ultimately have "snd (fold ?run (wrapper_code k g cost) ((\<lambda>_. NoValue), M)) = task_result F g (map (\<lambda>j. M (a, j)) [0..<?n]) r M"
    by (simp add: wrapper_code_def Let_def R0 R1(1) len del: One_nat_def)
  then show ?thesis using assms(1,2) by (simp add: run_task_def code_of_def)
qed

section \<open>Plans\<close>

text \<open>
  A plan says which value every register and every cell of a stage's code ends up with. Code that follows a plan
  reaches those values in every order of its tasks.
\<close>

record 'v plan =
  pn_old :: nat
  pn_allocas :: "nat set"
  pn_regs :: "'v regs"
  pn_cells :: "'v cells"
  pn_spawns :: "spawn list"
  pn_base :: "ir_value \<Rightarrow> 'v rt_value"

definition has_value :: "ins \<Rightarrow> bool" where
  "has_value i \<longleftrightarrow> ii_op i \<in> {OGep, OLoad} \<or> is_spawn i"

definition known :: "'v plan \<Rightarrow> ins list \<Rightarrow> nat \<Rightarrow> bool" where
  "known pn d k \<longleftrightarrow> k < pn_old pn \<or> k \<in> pn_allocas pn \<or> (\<exists>i\<in>set d. has_value i \<and> ii_id i = k)"

definition stored :: "'v plan \<Rightarrow> ins list \<Rightarrow> (nat \<times> nat) set" where
  "stored pn d = {(a, y). \<exists>i\<in>set d. \<exists>v g. ii_op i = OStore \<and> ii_args i = [v, VInst g] \<and> pn_regs pn g = Ptr a y}"

definition task_of :: "spawn \<Rightarrow> task" where
  "task_of sp = (sp_wrapper sp, sp_arg sp, sp_result sp, sp_task sp)"

definition arguments_stored :: "'v plan \<Rightarrow> ins list \<Rightarrow> spawn \<Rightarrow> bool" where
  "arguments_stored pn d sp \<longleftrightarrow> (\<forall>j<length (sp_values sp). (sp_arg sp, j) \<in> stored pn d)"

definition spawned_in :: "'v plan \<Rightarrow> ins list \<Rightarrow> spawn \<Rightarrow> bool" where
  "spawned_in pn d sp \<longleftrightarrow> sp \<in> set (pn_spawns pn) \<and> sp_task sp \<in> ii_id ` set d \<and> arguments_stored pn d sp"

definition ok_gep :: "'v plan \<Rightarrow> ins list \<Rightarrow> ins \<Rightarrow> bool" where
  "ok_gep pn d i \<longleftrightarrow> ii_op i = OGep \<and> (\<exists>x j a y. ii_args i = [VInst x, VConst j] \<and> known pn d x \<and> pn_regs pn x = Ptr a y \<and>
     pn_regs pn (ii_id i) = Ptr a (y + nat j))"

definition ok_store :: "'v plan \<Rightarrow> ins list \<Rightarrow> ins \<Rightarrow> bool" where
  "ok_store pn d i \<longleftrightarrow> ii_op i = OStore \<and> (\<exists>v g a y. ii_args i = [v, VInst g] \<and> (\<forall>k. v = VInst k \<longrightarrow> known pn d k) \<and> known pn d g \<and>
     pn_regs pn g = Ptr a y \<and> pn_cells pn (a, y) = val_of (pn_base pn) (pn_regs pn) v \<and> a \<notin> sp_result ` set (pn_spawns pn))"

definition ok_load :: "'v plan \<Rightarrow> ins list \<Rightarrow> ins \<Rightarrow> bool" where
  "ok_load pn d i \<longleftrightarrow> ii_op i = OLoad \<and> (\<exists>g sp. ii_args i = [VInst g] \<and> known pn d g \<and> sp \<in> set (pn_spawns pn) \<and> has_result (sp_callee sp) \<and>
     pn_regs pn g = Ptr (sp_result sp) 0 \<and> (\<exists>j\<in>set d. is_await j) \<and> pn_regs pn (ii_id i) = pn_cells pn (sp_result sp, 0))"

definition ok_spawn :: "'v plan \<Rightarrow> ins list \<Rightarrow> ins \<Rightarrow> bool" where
  "ok_spawn pn d i \<longleftrightarrow> is_spawn i \<and> (\<exists>sp vs. sp \<in> set (pn_spawns pn) \<and> ii_id i = sp_task sp \<and>
     ii_args i = VGlobal (sp_wrapper sp) # VInst (sp_arg sp) # VInst (sp_result sp) # vs \<and> known pn d (sp_arg sp) \<and> known pn d (sp_result sp) \<and>
     pn_regs pn (sp_arg sp) = Ptr (sp_arg sp) 0 \<and> pn_regs pn (sp_result sp) = Ptr (sp_result sp) 0 \<and>
     arguments_stored pn d sp \<and> pn_regs pn (ii_id i) = Handle (ii_id i))"

definition ok_await :: "'v plan \<Rightarrow> ins list \<Rightarrow> ins \<Rightarrow> bool" where
  "ok_await pn d i \<longleftrightarrow> is_await i \<and> (\<exists>x n a. ii_args i = [VInst x, VConst n] \<and> known pn d x \<and> pn_regs pn x = Ptr a 0 \<and>
     (\<forall>sp\<in>set (pn_spawns pn). sp_task sp \<in> ii_id ` set d \<and> (\<exists>j<nat n. (a, j) \<in> stored pn d \<and> pn_cells pn (a, j) = Handle (sp_task sp))))"

definition ok_ins :: "'v plan \<Rightarrow> ins list \<Rightarrow> ins \<Rightarrow> bool" where
  "ok_ins pn d i \<longleftrightarrow> \<not> known pn d (ii_id i) \<and> ii_id i \<notin> ii_id ` set d \<and> (ok_spawn pn d i \<or>
     ii_id i \<notin> sp_task ` set (pn_spawns pn) \<and> (ok_gep pn d i \<or> ok_store pn d i \<or> ok_load pn d i \<or> ok_await pn d i))"

fun flow :: "'v plan \<Rightarrow> ins list \<Rightarrow> ins list \<Rightarrow> bool" where
  "flow pn d [] \<longleftrightarrow> True"
| "flow pn d (i # c) \<longleftrightarrow> ok_ins pn d i \<and> flow pn (d @ [i]) c"

lemma flow_append: "flow pn d (xs @ ys) \<longleftrightarrow> flow pn d xs \<and> flow pn (d @ xs) ys"
  by (induction xs arbitrary: d) auto

definition tasks_compute :: "(string \<Rightarrow> 'v rt_value list \<Rightarrow> 'v rt_value) \<Rightarrow> (string \<Rightarrow> ifun option) \<Rightarrow> 'v plan \<Rightarrow> bool" where
  "tasks_compute F fs pn \<longleftrightarrow> distinct (map sp_task (pn_spawns pn)) \<and> (\<forall>sp\<in>set (pn_spawns pn).
     (\<forall>M. run_task F fs (task_of sp) M = task_result F (sp_callee sp) (map (\<lambda>j. M (sp_arg sp, j)) [0..<length (sp_values sp)]) (sp_result sp) M) \<and>
     (has_result (sp_callee sp) \<longrightarrow>
        pn_cells pn (sp_result sp, 0) = F (iu_name (sp_callee sp)) (map (\<lambda>j. pn_cells pn (sp_arg sp, j)) [0..<length (sp_values sp)])))"

section \<open>The invariant of a run\<close>

definition results_in :: "'v plan \<Rightarrow> ins list \<Rightarrow> 'v cells \<Rightarrow> task set \<Rightarrow> bool" where
  "results_in pn d M P \<longleftrightarrow> (\<forall>sp\<in>set (pn_spawns pn). sp_task sp \<in> ii_id ` set d \<longrightarrow> has_result (sp_callee sp) \<longrightarrow>
     task_of sp \<in> P \<or> M (sp_result sp, 0) = pn_cells pn (sp_result sp, 0))"

definition on_plan :: "'v plan \<Rightarrow> ins list \<Rightarrow> 'v regs \<Rightarrow> 'v cells \<Rightarrow> task set \<Rightarrow> bool" where
  "on_plan pn d R M P \<longleftrightarrow> (\<forall>k. known pn d k \<longrightarrow> R k = pn_regs pn k) \<and>
     (\<forall>p\<in>stored pn d. M p = pn_cells pn p \<and> fst p \<notin> sp_result ` set (pn_spawns pn)) \<and> results_in pn d M P \<and>
     (\<forall>t\<in>P. \<exists>sp. t = task_of sp \<and> spawned_in pn d sp) \<and>
     ((\<exists>j\<in>set d. is_await j) \<longrightarrow> P = {} \<and> (\<forall>sp\<in>set (pn_spawns pn). sp_task sp \<in> ii_id ` set d))"

lemma on_plan_task:
  assumes "on_plan pn d R M P" and "tasks_compute F fs pn" and "t \<in> P"
  shows "on_plan pn d R (run_task F fs t M) (P - {t})"
proof -
  obtain sp where sp: "t = task_of sp" "spawned_in pn d sp" using assms(1,3) unfolding on_plan_def by blast
  have mem: "sp \<in> set (pn_spawns pn)" using sp(2) by (simp add: spawned_in_def)
  have eq: "map (\<lambda>j. M (sp_arg sp, j)) [0..<length (sp_values sp)] = map (\<lambda>j. pn_cells pn (sp_arg sp, j)) [0..<length (sp_values sp)]"
    using assms(1) sp(2) by (auto simp: on_plan_def spawned_in_def arguments_stored_def)
  have r: "run_task F fs t M = task_result F (sp_callee sp) (map (\<lambda>j. M (sp_arg sp, j)) [0..<length (sp_values sp)]) (sp_result sp) M"
    and c: "has_result (sp_callee sp) \<longrightarrow>
      pn_cells pn (sp_result sp, 0) = F (iu_name (sp_callee sp)) (map (\<lambda>j. pn_cells pn (sp_arg sp, j)) [0..<length (sp_values sp)])"
    using assms(2) mem sp(1) unfolding tasks_compute_def by blast+
  have run: "run_task F fs t M = (if has_result (sp_callee sp) then M((sp_result sp, 0) := pn_cells pn (sp_result sp, 0)) else M)"
    unfolding r eq task_result_def using c by simp
  have "run_task F fs t M p = M p" if "p \<in> stored pn d" for p
    using that assms(1) mem unfolding run on_plan_def by auto
  moreover have "results_in pn d (run_task F fs t M) (P - {t})"
    unfolding results_in_def
  proof (intro ballI impI)
    fix q
    assume q: "q \<in> set (pn_spawns pn)" "sp_task q \<in> ii_id ` set d" "has_result (sp_callee q)"
    have "q = sp" if "task_of q = t"
    proof -
      have "sp_task q = sp_task sp" using that sp(1) by (simp add: task_of_def)
      moreover have "inj_on sp_task (set (pn_spawns pn))" using assms(2) unfolding tasks_compute_def distinct_map by blast
      ultimately show ?thesis using q(1) mem by (meson inj_onD)
    qed
    moreover have "task_of q \<in> P \<or> M (sp_result q, 0) = pn_cells pn (sp_result q, 0)"
      using assms(1) q unfolding on_plan_def results_in_def by blast
    ultimately show "task_of q \<in> P - {t} \<or> run_task F fs t M (sp_result q, 0) = pn_cells pn (sp_result q, 0)"
      using q(3) unfolding run by auto
  qed
  ultimately show ?thesis using assms(1) unfolding on_plan_def by auto
qed

lemma known_snoc: "known pn (d @ [i]) k \<longleftrightarrow> known pn d k \<or> has_value i \<and> k = ii_id i"
  by (auto simp: known_def)

lemma stored_snoc: "stored pn (d @ [i]) = stored pn d \<union> stored pn [i]"
  by (auto simp: stored_def)

lemma spawned_snoc: "spawned_in pn d sp \<Longrightarrow> spawned_in pn (d @ [i]) sp"
  by (auto simp: spawned_in_def arguments_stored_def stored_snoc)

text \<open>An instruction that is not a spawn keeps to the plan when it writes what the plan says.\<close>

lemma on_plan_write:
  assumes "on_plan pn d R M P" and "ii_id i \<notin> sp_task ` set (pn_spawns pn)"
    and "has_value i \<longrightarrow> R' (ii_id i) = pn_regs pn (ii_id i)" and "\<forall>k. known pn d k \<longrightarrow> R' k = R k"
    and "\<forall>p\<in>stored pn d. M' p = M p" and "\<forall>p\<in>stored pn [i]. M' p = pn_cells pn p \<and> fst p \<notin> sp_result ` set (pn_spawns pn)"
    and "\<forall>sp\<in>set (pn_spawns pn). M' (sp_result sp, 0) = M (sp_result sp, 0)"
    and "is_await i \<longrightarrow> P = {} \<and> (\<forall>sp\<in>set (pn_spawns pn). sp_task sp \<in> ii_id ` set d)"
  shows "on_plan pn (d @ [i]) R' M' P"
proof -
  have "sp_task sp \<in> ii_id ` set (d @ [i]) \<longleftrightarrow> sp_task sp \<in> ii_id ` set d" if "sp \<in> set (pn_spawns pn)" for sp
  proof -
    have "sp_task sp \<noteq> ii_id i" using assms(2) that by (metis imageI)
    then show ?thesis by auto
  qed
  then have "results_in pn (d @ [i]) M' P" using assms(1,7) by (simp add: on_plan_def results_in_def)
  moreover have "\<forall>t\<in>P. \<exists>sp. t = task_of sp \<and> spawned_in pn (d @ [i]) sp" using assms(1) spawned_snoc unfolding on_plan_def by blast
  moreover have "(\<exists>j\<in>set (d @ [i]). is_await j) \<longrightarrow> P = {} \<and> (\<forall>sp\<in>set (pn_spawns pn). sp_task sp \<in> ii_id ` set (d @ [i]))"
    using assms(1,8) unfolding on_plan_def by auto
  ultimately show ?thesis using assms(1,3-6) unfolding on_plan_def known_snoc stored_snoc by auto
qed

lemma not_special: "ii_op i \<in> {OGep, OStore, OLoad} \<Longrightarrow> \<not> is_spawn i \<and> \<not> is_await i"
  by (auto simp: is_spawn_def is_await_def called_def)

lemma spawn_not_await: "is_spawn i \<Longrightarrow> \<not> is_await i"
  by (auto simp: is_spawn_def is_await_def)

lemma on_plan_gep:
  assumes "on_plan pn d R M P" and "ok_gep pn d i" and "\<not> known pn d (ii_id i)" and "ii_id i \<notin> sp_task ` set (pn_spawns pn)"
    and "plain_ins F (pn_base pn) i (R, M) = (R', M')"
  shows "on_plan pn (d @ [i]) R' M' P"
proof -
  obtain x j a y where i: "ii_op i = OGep" "ii_args i = [VInst x, VConst j]" "known pn d x" "pn_regs pn x = Ptr a y"
    "pn_regs pn (ii_id i) = Ptr a (y + nat j)" using assms(2) unfolding ok_gep_def by blast
  have "R x = Ptr a y" using assms(1) i(3,4) unfolding on_plan_def by metis
  then have "R' = R(ii_id i := Ptr a (y + nat j))" "M' = M" using assms(5) i by (auto simp: plain_ins_def val_of_def)
  moreover have "stored pn [i] = {}" using i(1) by (simp add: stored_def)
  ultimately show ?thesis using i not_special [of i] assms(3)
    by (intro on_plan_write [OF assms(1,4)]) auto
qed

lemma on_plan_store:
  assumes "on_plan pn d R M P" and "ok_store pn d i" and "\<not> known pn d (ii_id i)" and "ii_id i \<notin> sp_task ` set (pn_spawns pn)"
    and "plain_ins F (pn_base pn) i (R, M) = (R', M')"
  shows "on_plan pn (d @ [i]) R' M' P"
proof -
  obtain v g a y where i: "ii_op i = OStore" "ii_args i = [v, VInst g]" "\<forall>k. v = VInst k \<longrightarrow> known pn d k" "known pn d g"
    "pn_regs pn g = Ptr a y" "pn_cells pn (a, y) = val_of (pn_base pn) (pn_regs pn) v" "a \<notin> sp_result ` set (pn_spawns pn)"
    using assms(2) unfolding ok_store_def by blast
  have "R g = Ptr a y" using assms(1) i(4,5) unfolding on_plan_def by metis
  moreover have "val_of (pn_base pn) R v = val_of (pn_base pn) (pn_regs pn) v"
    using assms(1) i(3) by (cases v) (auto simp: val_of_def on_plan_def)
  ultimately have s: "R' = R" "M' = M((a, y) := pn_cells pn (a, y))" using assms(5) i by (auto simp: plain_ins_def val_of_def)
  moreover have "stored pn [i] = {(a, y)}" using i by (auto simp: stored_def)
  moreover have "\<forall>p\<in>stored pn d. M p = pn_cells pn p" using assms(1) by (simp add: on_plan_def)
  moreover have "\<not> has_value i" using i(1) not_special [of i] by (simp add: has_value_def)
  ultimately show ?thesis using i not_special [of i]
    by (intro on_plan_write [OF assms(1,4)]) auto
qed

lemma on_plan_load:
  assumes "on_plan pn d R M P" and "ok_load pn d i" and "\<not> known pn d (ii_id i)" and "ii_id i \<notin> sp_task ` set (pn_spawns pn)"
    and "plain_ins F (pn_base pn) i (R, M) = (R', M')"
  shows "on_plan pn (d @ [i]) R' M' P"
proof -
  obtain g sp where i: "ii_op i = OLoad" "ii_args i = [VInst g]" "known pn d g" "sp \<in> set (pn_spawns pn)" "has_result (sp_callee sp)"
    "pn_regs pn g = Ptr (sp_result sp) 0" "\<exists>j\<in>set d. is_await j" "pn_regs pn (ii_id i) = pn_cells pn (sp_result sp, 0)"
    using assms(2) unfolding ok_load_def by blast
  have "R g = Ptr (sp_result sp) 0" using assms(1) i(3,6) unfolding on_plan_def by metis
  moreover have "M (sp_result sp, 0) = pn_cells pn (sp_result sp, 0)"
    using assms(1) i(4,5,7) unfolding on_plan_def results_in_def by blast
  ultimately have "R' = R(ii_id i := pn_regs pn (ii_id i))" "M' = M" using assms(5) i by (auto simp: plain_ins_def val_of_def)
  moreover have "stored pn [i] = {}" using i(1) by (simp add: stored_def)
  ultimately show ?thesis using i not_special [of i] assms(3)
    by (intro on_plan_write [OF assms(1,4)]) auto
qed

lemma on_plan_spawn:
  assumes "on_plan pn d R M P" and "ok_spawn pn d i" and "\<not> known pn d (ii_id i)" and "ii_id i \<notin> ii_id ` set d"
    and "ii_args i = VGlobal w # VInst x # VInst y # vs" and "R x = Ptr a 0" and "R y = Ptr r 0"
    and "distinct (map sp_task (pn_spawns pn))"
  shows "on_plan pn (d @ [i]) (R(ii_id i := Handle (ii_id i))) M (insert (w, a, r, ii_id i) P)"
proof -
  obtain sp where sp: "is_spawn i" "sp \<in> set (pn_spawns pn)" "ii_id i = sp_task sp" "w = sp_wrapper sp" "x = sp_arg sp" "y = sp_result sp"
    "known pn d x" "known pn d y" "pn_regs pn (sp_arg sp) = Ptr (sp_arg sp) 0" "pn_regs pn (sp_result sp) = Ptr (sp_result sp) 0"
    "arguments_stored pn d sp" "pn_regs pn (ii_id i) = Handle (ii_id i)"
    using assms(2,5) unfolding ok_spawn_def by auto
  have "R x = pn_regs pn x" "R y = pn_regs pn y" using assms(1) sp(7,8) unfolding on_plan_def by blast+
  then have t: "(w, a, r, ii_id i) = task_of sp" using sp assms(6,7) by (simp add: task_of_def)
  have no_await: "\<not> (\<exists>j\<in>set d. is_await j)" using assms(1,4) sp(2,3) unfolding on_plan_def by metis
  have st: "stored pn [i] = {}" using not_special [of i] sp(1) by (auto simp: stored_def)
  have new: "spawned_in pn (d @ [i]) sp" using sp(2,3,11) by (simp add: spawned_in_def arguments_stored_def stored_snoc)
  have "results_in pn (d @ [i]) M (insert (task_of sp) P)" unfolding results_in_def
  proof (intro ballI impI)
    fix q
    assume q: "q \<in> set (pn_spawns pn)" "sp_task q \<in> ii_id ` set (d @ [i])" "has_result (sp_callee q)"
    have inj: "inj_on sp_task (set (pn_spawns pn))" using assms(8) by (simp add: distinct_map)
    consider "sp_task q = sp_task sp" | "sp_task q \<in> ii_id ` set d" using q(2) sp(3) by auto
    then show "task_of q \<in> insert (task_of sp) P \<or> M (sp_result q, 0) = pn_cells pn (sp_result q, 0)"
    proof cases
      case 1
      then show ?thesis using inj q(1) sp(2) by (metis inj_onD insertI1)
    next
      case 2
      then show ?thesis using assms(1) q(1,3) unfolding on_plan_def results_in_def by blast
    qed
  qed
  moreover have "\<forall>u\<in>insert (task_of sp) P. \<exists>q. u = task_of q \<and> spawned_in pn (d @ [i]) q"
    using new assms(1) spawned_snoc unfolding on_plan_def by blast
  moreover have "\<not> (\<exists>j\<in>set (d @ [i]). is_await j)" using no_await spawn_not_await [OF sp(1)] by auto
  ultimately show ?thesis unfolding t using assms(1,3) sp(12) unfolding on_plan_def known_snoc stored_snoc st by auto
qed

lemma on_plan_await:
  assumes "on_plan pn d R M P" and "ok_await pn d i" and "ii_id i \<notin> sp_task ` set (pn_spawns pn)"
    and "ii_args i = [VInst x, VConst n]" and "R x = Ptr a 0" and "\<forall>j<nat n. \<forall>t\<in>P. M (a, j) \<noteq> Handle (handle_of t)"
  shows "on_plan pn (d @ [i]) R M P"
proof -
  have i: "is_await i" "known pn d x" "pn_regs pn x = Ptr a 0"
    "\<forall>sp\<in>set (pn_spawns pn). sp_task sp \<in> ii_id ` set d \<and> (\<exists>j<nat n. (a, j) \<in> stored pn d \<and> pn_cells pn (a, j) = Handle (sp_task sp))"
  proof -
    obtain x' n' a' where i: "is_await i" "ii_args i = [VInst x', VConst n']" "known pn d x'" "pn_regs pn x' = Ptr a' 0"
      "\<forall>sp\<in>set (pn_spawns pn). sp_task sp \<in> ii_id ` set d \<and> (\<exists>j<nat n'. (a', j) \<in> stored pn d \<and> pn_cells pn (a', j) = Handle (sp_task sp))"
      using assms(2) unfolding ok_await_def by blast
    have "x' = x" "n' = n" using i(2) assms(4) by auto
    moreover have "R x' = pn_regs pn x'" using assms(1) i(3) unfolding on_plan_def by blast
    ultimately have "a' = a" using i(4) assms(5) by auto
    then show "is_await i" "known pn d x" "pn_regs pn x = Ptr a 0"
      "\<forall>sp\<in>set (pn_spawns pn). sp_task sp \<in> ii_id ` set d \<and> (\<exists>j<nat n. (a, j) \<in> stored pn d \<and> pn_cells pn (a, j) = Handle (sp_task sp))"
      using i \<open>x' = x\<close> \<open>n' = n\<close> by auto
  qed
  have "P = {}"
  proof (rule ccontr)
    assume "P \<noteq> {}"
    then obtain t sp where t: "t \<in> P" "t = task_of sp" "sp \<in> set (pn_spawns pn)" using assms(1) unfolding on_plan_def spawned_in_def by blast
    then obtain j where j: "j < nat n" "(a, j) \<in> stored pn d" "pn_cells pn (a, j) = Handle (sp_task sp)" using i(4) by blast
    then have "M (a, j) = Handle (sp_task sp)" using assms(1) unfolding on_plan_def by metis
    moreover have "handle_of t = sp_task sp" using t(2) by (simp add: task_of_def handle_of_def)
    ultimately show False using assms(6) j(1) t(1) by metis
  qed
  moreover have "\<not> has_value i" "stored pn [i] = {}"
    using i(1) spawn_not_await [of i] by (auto simp: has_value_def stored_def is_await_def called_def)
  ultimately show ?thesis using i by (intro on_plan_write [OF assms(1,3)]) auto
qed

section \<open>Runs\<close>

definition run_inv :: "'v plan \<Rightarrow> ins list \<Rightarrow> 'v state \<Rightarrow> bool" where
  "run_inv pn C s \<longleftrightarrow> (case s of (c, R, M, P) \<Rightarrow> finite P \<and> (\<exists>d. C = d @ c \<and> flow pn d c \<and> on_plan pn d R M P))"

lemma pstep_keeps_plan:
  assumes "pstep F fs (pn_base pn) s s'" and "tasks_compute F fs pn" and "run_inv pn C s"
  shows "run_inv pn C s'"
  using assms(1,3)
proof (cases rule: pstep.cases)
  case (pstep_task t P c R M)
  then obtain d where d: "C = d @ c" "flow pn d c" "on_plan pn d R M P" "finite P" using assms(3) unfolding run_inv_def by auto
  from on_plan_task [OF d(3) assms(2) pstep_task(3)] show ?thesis using d pstep_task(2) unfolding run_inv_def by auto
next
  case (pstep_plain i R M R' M' c P)
  then obtain d where d: "C = d @ i # c" "flow pn d (i # c)" "on_plan pn d R M P" "finite P" using assms(3) unfolding run_inv_def by auto
  have "ok_ins pn d i" using d(2) by simp
  then have ok: "\<not> known pn d (ii_id i)" "ii_id i \<notin> sp_task ` set (pn_spawns pn)" "ok_gep pn d i \<or> ok_store pn d i \<or> ok_load pn d i"
    using pstep_plain(3,4) unfolding ok_ins_def ok_spawn_def ok_await_def by blast+
  then have "on_plan pn (d @ [i]) R' M' P"
    using on_plan_gep [OF d(3) _ ok(1,2) pstep_plain(5)] on_plan_store [OF d(3) _ ok(1,2) pstep_plain(5)]
      on_plan_load [OF d(3) _ ok(1,2) pstep_plain(5)] by blast
  then show ?thesis using d pstep_plain(2) unfolding run_inv_def by auto
next
  case (pstep_spawn i w x y vs R a r c M P)
  then obtain d where d: "C = d @ i # c" "flow pn d (i # c)" "on_plan pn d R M P" "finite P" using assms(3) unfolding run_inv_def by auto
  have "ok_ins pn d i" using d(2) by simp
  then have ok: "\<not> known pn d (ii_id i)" "ii_id i \<notin> ii_id ` set d" "ok_spawn pn d i"
    using pstep_spawn(3) not_special [of i] spawn_not_await [of i] unfolding ok_ins_def ok_gep_def ok_store_def ok_load_def ok_await_def by auto
  have "distinct (map sp_task (pn_spawns pn))" using assms(2) by (simp add: tasks_compute_def)
  from on_plan_spawn [OF d(3) ok(3,1,2) pstep_spawn(4,5,6) this] show ?thesis using d pstep_spawn(2) unfolding run_inv_def by auto
next
  case (pstep_await i x n R a P M c)
  then obtain d where d: "C = d @ i # c" "flow pn d (i # c)" "on_plan pn d R M P" "finite P" using assms(3) unfolding run_inv_def by auto
  have "ok_ins pn d i" using d(2) by simp
  then have ok: "ii_id i \<notin> sp_task ` set (pn_spawns pn)" "ok_await pn d i"
    using pstep_await(3) not_special [of i] spawn_not_await [of i] unfolding ok_ins_def ok_gep_def ok_store_def ok_load_def ok_spawn_def by auto
  from on_plan_await [OF d(3) ok(2,1) pstep_await(4,5,6)] show ?thesis using d pstep_await(2) unfolding run_inv_def by auto
qed

text \<open>A run is never stuck.\<close>

lemma plan_drains:
  assumes "tasks_compute F fs pn" and "run_inv pn C (c, R, M, P)"
  shows "\<exists>M'. (pstep F fs (pn_base pn))\<^sup>*\<^sup>* (c, R, M, P) (c, R, M', {}) \<and> run_inv pn C (c, R, M', {})"
proof -
  have "finite P" using assms(2) by (simp add: run_inv_def)
  then show ?thesis using assms(2)
  proof (induction "card P" arbitrary: M P)
    case 0
    then show ?case by auto
  next
    case (Suc n)
    then have "P \<noteq> {}" by auto
    then obtain t where t: "t \<in> P" by blast
    let ?s = "(c, R, run_task F fs t M, P - {t})"
    have st: "pstep F fs (pn_base pn) (c, R, M, P) ?s" using t by (rule pstep_task)
    have "n = card (P - {t})" using Suc(2,3) t by simp
    from Suc(1) [OF this _ pstep_keeps_plan [OF st assms(1) Suc(4)]] Suc(3) show ?case
      using converse_rtranclp_into_rtranclp [of "pstep F fs (pn_base pn)", OF st] by blast
  qed
qed

lemma plan_goes_on:
  assumes "run_inv pn C (i # c, R, M, {})"
  shows "\<exists>R' M' P'. pstep F fs (pn_base pn) (i # c, R, M, {}) (c, R', M', P')"
proof -
  obtain d where d: "flow pn d (i # c)" "on_plan pn d R M {}" using assms unfolding run_inv_def by auto
  have "ok_ins pn d i" using d(1) by simp
  then consider "ok_spawn pn d i" | "ok_await pn d i" | "\<not> is_spawn i" "\<not> is_await i"
    using not_special [of i] unfolding ok_ins_def ok_gep_def ok_store_def ok_load_def by blast
  then show ?thesis
  proof cases
    case 1
    then obtain sp :: spawn and vs where sp: "is_spawn i" "ii_args i = VGlobal (sp_wrapper sp) # VInst (sp_arg sp) # VInst (sp_result sp) # vs"
      and k: "known pn d (sp_arg sp)" "known pn d (sp_result sp)"
      "pn_regs pn (sp_arg sp) = Ptr (sp_arg sp) 0" "pn_regs pn (sp_result sp) = Ptr (sp_result sp) 0" unfolding ok_spawn_def by metis
    have "R (sp_arg sp) = Ptr (sp_arg sp) 0" "R (sp_result sp) = Ptr (sp_result sp) 0" using k d(2) unfolding on_plan_def by metis+
    from pstep_spawn [OF sp this] show ?thesis by blast
  next
    case 2
    then obtain x n a where i: "is_await i" "ii_args i = [VInst x, VConst n]" and k: "known pn d x" "pn_regs pn x = Ptr a 0"
      unfolding ok_await_def by metis
    have "R x = Ptr a 0" using d(2) k unfolding on_plan_def by metis
    then show ?thesis using pstep_await [of i x n R a "{}" M F fs "pn_base pn" c] i by auto
  next
    case 3
    then show ?thesis using pstep_plain by (metis surj_pair)
  qed
qed

lemma plan_finishes:
  assumes "tasks_compute F fs pn" and "run_inv pn C (c, R, M, P)"
  shows "\<exists>R' M'. (pstep F fs (pn_base pn))\<^sup>*\<^sup>* (c, R, M, P) ([], R', M', {})"
  using assms(2)
proof (induction c arbitrary: R M P)
  case Nil
  then show ?case using plan_drains [OF assms(1)] by blast
next
  case (Cons i c)
  obtain M1 where d: "(pstep F fs (pn_base pn))\<^sup>*\<^sup>* (i # c, R, M, P) (i # c, R, M1, {})" "run_inv pn C (i # c, R, M1, {})"
    using plan_drains [OF assms(1) Cons.prems] by blast
  obtain R2 M2 P2 where st: "pstep F fs (pn_base pn) (i # c, R, M1, {}) (c, R2, M2, P2)" using plan_goes_on [OF d(2)] by blast
  from Cons.IH [OF pstep_keeps_plan [OF st assms(1) d(2)]] show ?case
    using rtranclp_trans [OF rtranclp.rtrancl_into_rtrancl [OF d(1) st]] by blast
qed

text \<open>Every complete run reaches the planned values, and there is one.\<close>

lemma plan_reached:
  assumes "tasks_compute F fs pn" and "flow pn [] C" and "\<exists>i\<in>set C. is_await i" and "\<forall>k. known pn [] k \<longrightarrow> R k = pn_regs pn k"
  shows "(\<exists>R' M'. (pstep F fs (pn_base pn))\<^sup>*\<^sup>* (C, R, M, {}) ([], R', M', {})) \<and>
    (\<forall>R' M' P'. (pstep F fs (pn_base pn))\<^sup>*\<^sup>* (C, R, M, {}) ([], R', M', P') \<longrightarrow>
       P' = {} \<and> (\<forall>i\<in>set C. has_value i \<longrightarrow> R' (ii_id i) = pn_regs pn (ii_id i)))"
proof -
  have start: "run_inv pn C (C, R, M, {})"
    using assms(2,4) by (auto simp: run_inv_def on_plan_def stored_def results_in_def intro!: exI [of _ "[]"])
  have keep: "run_inv pn C s" if "(pstep F fs (pn_base pn))\<^sup>*\<^sup>* (C, R, M, {}) s" for s
    using that
  proof (induction rule: rtranclp_induct)
    case (step s s')
    then show ?case using pstep_keeps_plan assms(1) by blast
  qed (rule start)
  have "P' = {} \<and> (\<forall>i\<in>set C. has_value i \<longrightarrow> R' (ii_id i) = pn_regs pn (ii_id i))"
    if "(pstep F fs (pn_base pn))\<^sup>*\<^sup>* (C, R, M, {}) ([], R', M', P')" for R' M' P'
  proof -
    have "on_plan pn C R' M' P'" using keep [OF that] unfolding run_inv_def by auto
    then show ?thesis using assms(3) unfolding on_plan_def known_def by blast
  qed
  then show ?thesis using plan_finishes [OF assms(1) start] by blast
qed

section \<open>The plan of a stage\<close>

definition is_spawn_of :: "spawn \<Rightarrow> ins \<Rightarrow> bool" where
  "is_spawn_of sp i \<longleftrightarrow> is_spawn i \<and> ii_id i = sp_task sp \<and>
     (\<exists>vs. ii_args i = VGlobal (sp_wrapper sp) # VInst (sp_arg sp) # VInst (sp_result sp) # vs)"

definition spawn_ok :: "spawn \<Rightarrow> bool" where
  "spawn_ok sp \<longleftrightarrow> sp_result sp = sp_arg sp + 1 \<and> sp_task sp = sp_arg sp + 2 + 2 * length (sp_values sp) \<and>
     (\<exists>i. is_spawn_of sp i \<and> sp_code sp = store_fields (sp_arg sp + 2) (sp_arg sp) (sp_values sp) @ [i])"

text \<open>The spawns of a stage use identities from \<open>lo\<close> on, one after the other.\<close>

fun laid :: "nat \<Rightarrow> spawn list \<Rightarrow> nat \<Rightarrow> bool" where
  "laid lo [] hi \<longleftrightarrow> lo \<le> hi"
| "laid lo (sp # sps) hi \<longleftrightarrow> lo \<le> sp_arg sp \<and> spawn_ok sp \<and> laid (sp_task sp + 1) sps hi"

lemma laid_le: "laid lo sps hi \<Longrightarrow> lo \<le> hi"
proof (induction sps arbitrary: lo)
  case (Cons q sps)
  then have "sp_task q + 1 \<le> hi" "lo \<le> sp_arg q" "spawn_ok q" by auto
  then show ?case by (simp add: spawn_ok_def)
qed simp

lemma laid_range: "laid lo sps hi \<Longrightarrow> sp \<in> set sps \<Longrightarrow> lo \<le> sp_arg sp \<and> sp_task sp < hi \<and> spawn_ok sp"
proof (induction sps arbitrary: lo)
  case (Cons q sps)
  then have q: "sp_task q + 1 \<le> hi" "lo \<le> sp_arg q" "spawn_ok q" using laid_le [of "sp_task q + 1" sps hi] by auto
  then have "lo \<le> sp_task q + 1" by (simp add: spawn_ok_def)
  then show ?case using Cons q by fastforce
qed simp

lemma laid_snoc: "laid lo sps mid \<Longrightarrow> mid \<le> sp_arg sp \<Longrightarrow> spawn_ok sp \<Longrightarrow> sp_task sp < hi \<Longrightarrow> laid lo (sps @ [sp]) hi"
  by (induction sps arbitrary: lo) auto

definition owner :: "spawn list \<Rightarrow> nat \<Rightarrow> spawn option" where
  "owner sps k = find (\<lambda>sp. sp_arg sp \<le> k \<and> k \<le> sp_task sp) sps"

lemma owner_in: "laid lo sps hi \<Longrightarrow> sp \<in> set sps \<Longrightarrow> sp_arg sp \<le> k \<Longrightarrow> k \<le> sp_task sp \<Longrightarrow> owner sps k = Some sp"
proof (induction sps arbitrary: lo)
  case (Cons q sps)
  then show ?case
  proof (cases "sp = q")
    case False
    then have "sp_task q + 1 \<le> sp_arg sp" using laid_range [of "sp_task q + 1" sps hi sp] Cons.prems by auto
    then show ?thesis using Cons False by (auto simp: owner_def)
  qed (simp add: owner_def)
qed simp

lemma owner_out: "laid lo sps hi \<Longrightarrow> k < lo \<or> hi \<le> k \<Longrightarrow> owner sps k = None"
  using laid_range by (fastforce simp: owner_def find_None_iff)

definition result_of :: "(string \<Rightarrow> 'v rt_value list \<Rightarrow> 'v rt_value) \<Rightarrow> (ir_value \<Rightarrow> 'v rt_value) \<Rightarrow> 'v regs \<Rightarrow> spawn \<Rightarrow> 'v rt_value" where
  "result_of F base R sp = F (iu_name (sp_callee sp)) (map (val_of base R) (sp_values sp))"

definition stage_regs :: "(string \<Rightarrow> 'v rt_value list \<Rightarrow> 'v rt_value) \<Rightarrow> (ir_value \<Rightarrow> 'v rt_value) \<Rightarrow> 'v regs \<Rightarrow> spawn list \<Rightarrow> nat \<Rightarrow> nat \<Rightarrow> 'v regs" where
  "stage_regs F base R sps arr L k =
     (case owner sps k of
        Some sp \<Rightarrow> if k = sp_task sp then Handle k else if k < sp_arg sp + 2 then Ptr k 0 else Ptr (sp_arg sp) ((k - sp_arg sp - 2) div 2)
      | None \<Rightarrow> if k = arr then Ptr arr 0
          else if arr < k \<and> k < arr + 1 + 2 * length sps then Ptr arr ((k - arr - 1) div 2)
          else if L \<le> k \<and> k < L + length sps then result_of F base R (sps ! (k - L)) else R k)"

definition stage_cells :: "(string \<Rightarrow> 'v rt_value list \<Rightarrow> 'v rt_value) \<Rightarrow> (ir_value \<Rightarrow> 'v rt_value) \<Rightarrow> 'v regs \<Rightarrow> spawn list \<Rightarrow> 'v cells" where
  "stage_cells F base R sps p =
     (case owner sps (fst p) of
        Some sp \<Rightarrow> if fst p = sp_arg sp then val_of base R (sp_values sp ! snd p) else result_of F base R sp
      | None \<Rightarrow> Handle (sp_task (sps ! snd p)))"

definition alloca_ids :: "nat \<Rightarrow> spawn list \<Rightarrow> nat set" where
  "alloca_ids arr sps = insert arr (sp_arg ` set sps \<union> sp_result ` set sps)"

definition stage_plan :: "(string \<Rightarrow> 'v rt_value list \<Rightarrow> 'v rt_value) \<Rightarrow> (ir_value \<Rightarrow> 'v rt_value) \<Rightarrow> 'v regs \<Rightarrow> nat \<Rightarrow> spawn list \<Rightarrow> nat \<Rightarrow> nat \<Rightarrow> 'v plan" where
  "stage_plan F base R lo sps arr L =
     \<lparr>pn_old = lo, pn_allocas = alloca_ids arr sps, pn_regs = stage_regs F base R sps arr L,
      pn_cells = stage_cells F base R sps, pn_spawns = sps, pn_base = base\<rparr>"

definition old_operands :: "nat \<Rightarrow> spawn list \<Rightarrow> bool" where
  "old_operands lo sps \<longleftrightarrow> (\<forall>sp\<in>set sps. \<forall>v\<in>set (sp_values sp). \<forall>x. v = VInst x \<longrightarrow> x < lo)"

lemma regs_of_spawn:
  assumes "laid lo sps hi" and "sp \<in> set sps"
  shows "stage_regs F base R sps arr L (sp_arg sp) = Ptr (sp_arg sp) 0" "stage_regs F base R sps arr L (sp_result sp) = Ptr (sp_result sp) 0"
    "stage_regs F base R sps arr L (sp_task sp) = Handle (sp_task sp)"
    "j < length (sp_values sp) \<Longrightarrow> stage_regs F base R sps arr L (sp_arg sp + 2 + 2 * j) = Ptr (sp_arg sp) j"
    "stage_cells F base R sps (sp_arg sp, j) = val_of base R (sp_values sp ! j)" "stage_cells F base R sps (sp_result sp, y) = result_of F base R sp"
  using owner_in [OF assms] laid_range [OF assms] by (simp_all add: stage_regs_def stage_cells_def spawn_ok_def)

lemma regs_outside:
  assumes "laid lo sps hi" and "hi \<le> arr" and "arr + 1 + 2 * length sps < L"
  shows "k < lo \<Longrightarrow> stage_regs F base R sps arr L k = R k" "stage_regs F base R sps arr L arr = Ptr arr 0"
    "j < length sps \<Longrightarrow> stage_regs F base R sps arr L (arr + 1 + 2 * j) = Ptr arr j"
    "j < length sps \<Longrightarrow> stage_cells F base R sps (arr, j) = Handle (sp_task (sps ! j))"
    "j < length sps \<Longrightarrow> stage_regs F base R sps arr L (L + j) = result_of F base R (sps ! j)"
  using owner_out [OF assms(1)] laid_le [OF assms(1)] assms(2,3) by (simp_all add: stage_regs_def stage_cells_def)

section \<open>The code of a stage follows its plan\<close>

lemma store_fields_snoc:
  "store_fields k a (vs @ [v]) = store_fields k a vs @ [new_ins (k + 2 * length vs) (OGep, [VInst a, VConst (int (length vs))], PointerTy),
     new_ins (k + 2 * length vs + 1) (OStore, [v, VInst (k + 2 * length vs)], VoidTy)]"
  by (simp add: store_fields_def enumerate_append_eq)

lemma store_handles_snoc:
  "store_handles arr (ts @ [t]) = store_handles arr ts @ [new_ins (arr + 1 + 2 * length ts) (OGep, [VInst arr, VConst (int (length ts))], PointerTy),
     new_ins (arr + 2 + 2 * length ts) (OStore, [VInst t, VInst (arr + 1 + 2 * length ts)], VoidTy)]"
  by (simp add: store_handles_def enumerate_append_eq)

text \<open>A field is addressed and stored: two instructions that follow a plan.\<close>

definition field_pair :: "nat \<Rightarrow> nat \<Rightarrow> nat \<Rightarrow> ir_value \<Rightarrow> ins list" where
  "field_pair k a n v = [new_ins k (OGep, [VInst a, VConst (int n)], PointerTy), new_ins (k + 1) (OStore, [v, VInst k], VoidTy)]"

definition ids_below :: "nat \<Rightarrow> ins list \<Rightarrow> bool" where
  "ids_below k d \<longleftrightarrow> (\<forall>i\<in>set d. ii_id i < k)"

lemma ids_below_le: "ids_below a d \<Longrightarrow> a \<le> b \<Longrightarrow> ids_below b d"
  by (force simp: ids_below_def)

lemma ids_below_snoc: "ids_below k d \<Longrightarrow> ii_id i < k' \<Longrightarrow> k \<le> k' \<Longrightarrow> ids_below k' (d @ [i])"
  by (force simp: ids_below_def)

lemma id_is_new: "ids_below k d \<Longrightarrow> pn_old pn \<le> k \<Longrightarrow> k \<notin> pn_allocas pn \<Longrightarrow> \<not> known pn d k \<and> k \<notin> ii_id ` set d"
  by (force simp: ids_below_def known_def)

lemma flow_pair:
  assumes "known pn d a" and "pn_regs pn a = Ptr a 0" and "pn_regs pn k = Ptr a n" and "\<forall>x. v = VInst x \<longrightarrow> known pn d x"
    and "pn_cells pn (a, n) = val_of (pn_base pn) (pn_regs pn) v" and "a \<notin> sp_result ` set (pn_spawns pn)"
    and "pn_old pn \<le> k" and "k \<notin> pn_allocas pn" and "k + 1 \<notin> pn_allocas pn" and "ids_below k d"
    and "k \<notin> sp_task ` set (pn_spawns pn)" and "k + 1 \<notin> sp_task ` set (pn_spawns pn)"
  shows "flow pn d (field_pair k a n v)" and "(a, n) \<in> stored pn (d @ field_pair k a n v)" and "ids_below (k + 2) (d @ field_pair k a n v)"
proof -
  let ?g = "new_ins k (OGep, [VInst a, VConst (int n)], PointerTy)"
  have new: "\<not> known pn d k" "k \<notin> ii_id ` set d" "\<not> known pn (d @ [?g]) (k + 1)" "k + 1 \<notin> ii_id ` set (d @ [?g])"
    using assms(7-10) by (auto simp: known_def ids_below_def new_ins_def)
  have "ok_gep pn d ?g" using assms(1-3) by (simp add: ok_gep_def new_ins_def)
  moreover have "known pn (d @ [?g]) k" by (simp add: known_snoc has_value_def new_ins_def)
  then have "ok_store pn (d @ [?g]) (new_ins (k + 1) (OStore, [v, VInst k], VoidTy))"
    using assms(3-6) by (auto simp: ok_store_def new_ins_def known_snoc)
  ultimately show "flow pn d (field_pair k a n v)"
    using new assms(11,12) by (simp add: field_pair_def ok_ins_def new_ins_def)
  show "(a, n) \<in> stored pn (d @ field_pair k a n v)" using assms(3) by (force simp: stored_def field_pair_def new_ins_def)
  show "ids_below (k + 2) (d @ field_pair k a n v)" using assms(10) by (auto simp: ids_below_def field_pair_def new_ins_def)
qed

text \<open>Fields written one after the other.\<close>

definition fields_from :: "nat \<Rightarrow> nat \<Rightarrow> ir_value list \<Rightarrow> ins list" where
  "fields_from k a vs = concat (map (\<lambda>(j, v). field_pair (k + 2 * j) a j v) (enumerate 0 vs))"

lemma fields_from_snoc: "fields_from k a (vs @ [v]) = fields_from k a vs @ field_pair (k + 2 * length vs) a (length vs) v"
  by (simp add: fields_from_def enumerate_append_eq)

lemma store_fields_from: "store_fields k a vs = fields_from k a vs" "store_handles arr ts = fields_from (arr + 1) arr (map VInst ts)"
proof -
  show "store_fields k a vs = fields_from k a vs" by (simp add: store_fields_def fields_from_def field_pair_def)
  show "store_handles arr ts = fields_from (arr + 1) arr (map VInst ts)"
    by (induction ts rule: rev_induct) (simp_all add: store_handles_def fields_from_def enumerate_append_eq field_pair_def)
qed

definition field_law :: "'v plan \<Rightarrow> ins list \<Rightarrow> nat \<Rightarrow> nat \<Rightarrow> ir_value list \<Rightarrow> bool" where
  "field_law pn d k a vs \<longleftrightarrow> known pn d a \<and> pn_regs pn a = Ptr a 0 \<and> a \<notin> sp_result ` set (pn_spawns pn) \<and> pn_old pn \<le> k \<and> ids_below k d \<and>
     (\<forall>j<length vs. pn_regs pn (k + 2 * j) = Ptr a j \<and> pn_cells pn (a, j) = val_of (pn_base pn) (pn_regs pn) (vs ! j)) \<and>
     (\<forall>v\<in>set vs. \<forall>x. v = VInst x \<longrightarrow> known pn d x) \<and>
     (\<forall>i. k \<le> i \<longrightarrow> i < k + 2 * length vs \<longrightarrow> i \<notin> pn_allocas pn \<and> i \<notin> sp_task ` set (pn_spawns pn))"

lemma known_app: "known pn d k \<Longrightarrow> known pn (d @ e) k"
  by (auto simp: known_def)

lemma stored_app: "p \<in> stored pn d \<Longrightarrow> p \<in> stored pn (d @ e)"
  by (auto simp: stored_def)

lemma flow_fields:
  "field_law pn d k a vs \<Longrightarrow> flow pn d (fields_from k a vs) \<and> (\<forall>j<length vs. (a, j) \<in> stored pn (d @ fields_from k a vs)) \<and>
     ids_below (k + 2 * length vs) (d @ fields_from k a vs)"
proof (induction vs rule: rev_induct)
  case Nil
  then show ?case by (simp add: fields_from_def field_law_def)
next
  case (snoc v vs)
  let ?d = "d @ fields_from k a vs" and ?n = "length vs"
  have "field_law pn d k a vs" using snoc.prems by (auto simp: field_law_def nth_append)
  with snoc.IH have ih: "flow pn d (fields_from k a vs)" "\<forall>j<?n. (a, j) \<in> stored pn ?d" "ids_below (k + 2 * ?n) ?d" by blast+
  have law: "known pn ?d a" "pn_regs pn a = Ptr a 0" "pn_regs pn (k + 2 * ?n) = Ptr a ?n" "\<forall>x. v = VInst x \<longrightarrow> known pn ?d x"
    "pn_cells pn (a, ?n) = val_of (pn_base pn) (pn_regs pn) v" "a \<notin> sp_result ` set (pn_spawns pn)" "pn_old pn \<le> k + 2 * ?n"
    "k + 2 * ?n \<notin> pn_allocas pn" "k + 2 * ?n + 1 \<notin> pn_allocas pn"
    "k + 2 * ?n \<notin> sp_task ` set (pn_spawns pn)" "k + 2 * ?n + 1 \<notin> sp_task ` set (pn_spawns pn)"
    using snoc.prems known_app [of pn d] by (auto simp: field_law_def all_conj_distrib)
  note pr = flow_pair [OF law(1-9) ih(3) law(10,11)]
  have "\<forall>j<Suc ?n. (a, j) \<in> stored pn (?d @ field_pair (k + 2 * ?n) a ?n v)"
    using ih(2) pr(2) stored_app [of _ pn ?d] by (simp add: less_Suc_eq)
  then show ?case using pr(1,3) ih(1) by (simp add: fields_from_snoc flow_append)
qed

lemma known_old: "x < lo \<Longrightarrow> known (stage_plan F base R lo sps arr L) d x"
  by (simp add: known_def stage_plan_def)

lemma val_of_stage:
  assumes "laid lo sps hi" and "hi \<le> arr" and "arr + 1 + 2 * length sps < L" and "\<forall>x. v = VInst x \<longrightarrow> x < lo"
  shows "val_of base (stage_regs F base R sps arr L) v = val_of base R v"
  using regs_outside(1) [OF assms(1-3)] assms(4) by (cases v) (auto simp: val_of_def)

text \<open>Identities inside a spawn are not those of allocas or tasks.\<close>

lemma inner_ids:
  assumes "laid lo sps hi" and "hi \<le> arr" and "sp \<in> set sps" and "sp_arg sp + 2 \<le> k" and "k < sp_task sp"
  shows "k \<notin> alloca_ids arr sps" "k \<notin> sp_task ` set sps"
proof -
  have own: "owner sps k = Some sp" using owner_in [OF assms(1,3)] assms(4,5) by simp
  have other: "q = sp" if "q \<in> set sps" "sp_arg q \<le> k" "k \<le> sp_task q" for q using owner_in [OF assms(1) that] own by simp
  have r: "\<forall>q\<in>set sps. sp_arg q \<le> sp_result q \<and> sp_result q \<le> sp_task q \<and> sp_arg q \<le> sp_task q \<and> sp_result q < sp_arg q + 2"
    using laid_range [OF assms(1)] by (fastforce simp: spawn_ok_def)
  have "k \<notin> sp_arg ` set sps" "k \<notin> sp_result ` set sps" "k \<notin> sp_task ` set sps"
    using other r assms(4,5) by fastforce+
  moreover have "k \<noteq> arr" using assms(2,5) laid_range [OF assms(1,3)] by simp
  ultimately show "k \<notin> alloca_ids arr sps" "k \<notin> sp_task ` set sps" by (simp_all add: alloca_ids_def)
qed

lemma arg_not_result:
  assumes "laid lo sps hi" and "sp \<in> set sps"
  shows "sp_arg sp \<notin> sp_result ` set sps"
proof
  assume "sp_arg sp \<in> sp_result ` set sps"
  then obtain q where q: "q \<in> set sps" "sp_arg sp = sp_result q" by blast
  have "owner sps (sp_arg sp) = Some q" using owner_in [OF assms(1) q(1)] laid_range [OF assms(1) q(1)] q(2) by (simp add: spawn_ok_def)
  moreover have "owner sps (sp_arg sp) = Some sp" using owner_in [OF assms] laid_range [OF assms] by (simp add: spawn_ok_def)
  ultimately show False using q laid_range [OF assms(1,2)] by (simp add: spawn_ok_def)
qed

lemma task_not_alloca:
  assumes "laid lo sps hi" and "hi \<le> arr" and "sp \<in> set sps"
  shows "sp_task sp \<notin> alloca_ids arr sps" "distinct (map sp_task sps)"
proof -
  have own: "owner sps (sp_task sp) = Some sp" using owner_in [OF assms(1,3)] laid_range [OF assms(1,3)] by (simp add: spawn_ok_def)
  have r: "\<forall>q\<in>set sps. sp_arg q \<le> sp_result q \<and> sp_result q < sp_task q \<and> sp_arg q < sp_task q"
    using laid_range [OF assms(1)] by (fastforce simp: spawn_ok_def)
  have "sp_task sp \<noteq> sp_arg q \<and> sp_task sp \<noteq> sp_result q" if "q \<in> set sps" for q
  proof -
    have "q = sp" if "sp_task sp = sp_arg q \<or> sp_task sp = sp_result q"
    proof -
      have "owner sps (sp_task sp) = Some q" using owner_in [OF assms(1) \<open>q \<in> set sps\<close>] r \<open>q \<in> set sps\<close> that by fastforce
      then show ?thesis using own by simp
    qed
    then show ?thesis using r that by fastforce
  qed
  moreover have "sp_task sp \<noteq> arr" using assms(2) laid_range [OF assms(1,3)] by simp
  ultimately show "sp_task sp \<notin> alloca_ids arr sps" by (auto simp: alloca_ids_def)
  show "distinct (map sp_task sps)" using assms(1)
  proof (induction sps arbitrary: lo)
    case (Cons q sps)
    then have "sp_task q \<notin> sp_task ` set sps" using laid_range [of "sp_task q + 1" sps hi] by (fastforce simp: spawn_ok_def)
    then show ?case using Cons by auto
  qed simp
qed

lemma flow_spawn:
  assumes "laid lo sps hi" and "hi \<le> arr" and "arr + 1 + 2 * length sps < L" and "old_operands lo sps" and "sp \<in> set sps"
    and "ids_below (sp_arg sp) d"
  shows "flow (stage_plan F base R lo sps arr L) d (sp_code sp)" and "ids_below (sp_task sp + 1) (d @ sp_code sp)"
proof -
  let ?pn = "stage_plan F base R lo sps arr L"
  note pn = stage_plan_def [of F base R lo sps arr L] alloca_ids_def [of arr sps]
  have sp: "lo \<le> sp_arg sp" "sp_task sp < hi" "spawn_ok sp" using laid_range [OF assms(1,5)] by simp_all
  then obtain i where i: "is_spawn_of sp i" "sp_code sp = store_fields (sp_arg sp + 2) (sp_arg sp) (sp_values sp) @ [i]"
    and t: "sp_task sp = sp_arg sp + 2 + 2 * length (sp_values sp)" by (auto simp: spawn_ok_def)
  let ?n = "length (sp_values sp)" and ?fs = "fields_from (sp_arg sp + 2) (sp_arg sp) (sp_values sp)"
  have al: "sp_arg sp \<in> pn_allocas ?pn" "sp_result sp \<in> pn_allocas ?pn" using assms(5) by (auto simp: pn)
  have vals: "\<forall>j<?n. val_of base (stage_regs F base R sps arr L) (sp_values sp ! j) = val_of base R (sp_values sp ! j)"
    using val_of_stage [OF assms(1-3)] assms(4,5) nth_mem unfolding old_operands_def by blast
  have "field_law ?pn d (sp_arg sp + 2) (sp_arg sp) (sp_values sp)"
    unfolding field_law_def
  proof (intro conjI)
    show "known ?pn d (sp_arg sp)" using al by (simp add: known_def)
    show "pn_regs ?pn (sp_arg sp) = Ptr (sp_arg sp) 0" using regs_of_spawn(1) [OF assms(1,5)] by (simp add: pn)
    show "sp_arg sp \<notin> sp_result ` set (pn_spawns ?pn)" using arg_not_result [OF assms(1,5)] by (simp add: pn)
    show "pn_old ?pn \<le> sp_arg sp + 2" using sp(1) by (simp add: pn)
    show "ids_below (sp_arg sp + 2) d" using assms(6) by (auto simp: ids_below_def)
    show "\<forall>j<?n. pn_regs ?pn (sp_arg sp + 2 + 2 * j) = Ptr (sp_arg sp) j \<and>
      pn_cells ?pn (sp_arg sp, j) = val_of (pn_base ?pn) (pn_regs ?pn) (sp_values sp ! j)"
    proof (intro allI impI conjI)
      fix j
      assume j: "j < ?n"
      show "pn_regs ?pn (sp_arg sp + 2 + 2 * j) = Ptr (sp_arg sp) j" unfolding stage_plan_def plan.simps by (rule regs_of_spawn(4) [OF assms(1,5) j])
      show "pn_cells ?pn (sp_arg sp, j) = val_of (pn_base ?pn) (pn_regs ?pn) (sp_values sp ! j)"
        unfolding stage_plan_def plan.simps regs_of_spawn(5) [OF assms(1,5)] using vals j by simp
    qed
    show "\<forall>v\<in>set (sp_values sp). \<forall>x. v = VInst x \<longrightarrow> known ?pn d x" using assms(4,5) by (auto simp: old_operands_def known_old)
    show "\<forall>k. sp_arg sp + 2 \<le> k \<longrightarrow> k < sp_arg sp + 2 + 2 * ?n \<longrightarrow> k \<notin> pn_allocas ?pn \<and> k \<notin> sp_task ` set (pn_spawns ?pn)"
    proof (intro allI impI)
      fix k
      assume k: "sp_arg sp + 2 \<le> k" "k < sp_arg sp + 2 + 2 * ?n"
      then have "k < sp_task sp" by (simp add: t)
      from inner_ids [OF assms(1,2,5) k(1) this] show "k \<notin> pn_allocas ?pn \<and> k \<notin> sp_task ` set (pn_spawns ?pn)" by (simp add: pn)
    qed
  qed
  from flow_fields [OF this] have f: "flow ?pn d ?fs" "\<forall>j<?n. (sp_arg sp, j) \<in> stored ?pn (d @ ?fs)" "ids_below (sp_task sp) (d @ ?fs)"
    by (simp_all add: t)
  have "ii_id i = sp_task sp" using i(1) by (simp add: is_spawn_of_def)
  then have new: "\<not> known ?pn (d @ ?fs) (ii_id i)" "ii_id i \<notin> ii_id ` set (d @ ?fs)"
    using id_is_new [OF f(3), of ?pn] task_not_alloca(1) [OF assms(1,2,5)] sp(1) t by (simp_all add: stage_plan_def)
  have "ok_spawn ?pn (d @ ?fs) i"
  proof -
    obtain vs where vs: "ii_args i = VGlobal (sp_wrapper sp) # VInst (sp_arg sp) # VInst (sp_result sp) # vs" "is_spawn i" "ii_id i = sp_task sp"
      using i(1) unfolding is_spawn_of_def by blast
    have m: "sp \<in> set (pn_spawns ?pn)" using assms(5) by (simp add: stage_plan_def)
    have k: "known ?pn (d @ ?fs) (sp_arg sp)" "known ?pn (d @ ?fs) (sp_result sp)" using al by (simp_all add: known_def)
    have r: "pn_regs ?pn (sp_arg sp) = Ptr (sp_arg sp) 0" "pn_regs ?pn (sp_result sp) = Ptr (sp_result sp) 0"
      "pn_regs ?pn (ii_id i) = Handle (ii_id i)" by (simp_all add: stage_plan_def vs(3) regs_of_spawn(1-3) [OF assms(1,5)])
    have "arguments_stored ?pn (d @ ?fs) sp" using f(2) by (simp add: arguments_stored_def)
    then show ?thesis using vs m k r unfolding ok_spawn_def by blast
  qed
  then show "flow ?pn d (sp_code sp)" using f(1) new by (simp add: i(2) store_fields_from flow_append ok_ins_def)
  show "ids_below (sp_task sp + 1) (d @ sp_code sp)"
    using ids_below_snoc [OF f(3), of i] \<open>ii_id i = sp_task sp\<close> by (simp add: i(2) store_fields_from)
qed

lemma flow_spawns:
  assumes "laid lo sps hi" and "hi \<le> arr" and "arr + 1 + 2 * length sps < L" and "old_operands lo sps"
  shows "laid l qs hi \<Longrightarrow> set qs \<subseteq> set sps \<Longrightarrow> ids_below l d \<Longrightarrow>
    flow (stage_plan F base R lo sps arr L) d (concat (map sp_code qs)) \<and> ids_below hi (d @ concat (map sp_code qs))"
proof (induction qs arbitrary: l d)
  case Nil
  then show ?case by (auto simp: ids_below_def)
next
  case (Cons q qs)
  have "ids_below (sp_arg q) d" using Cons.prems(1,3) by (auto simp: ids_below_def)
  have q: "q \<in> set sps" using Cons.prems(2) by simp
  note f = flow_spawn(1) [OF assms q \<open>ids_below (sp_arg q) d\<close>, of F base R] flow_spawn(2) [OF assms q \<open>ids_below (sp_arg q) d\<close>]
  from f(2) have "ids_below (sp_task q + 1) (d @ sp_code q)" .
  with Cons.IH [of "sp_task q + 1" "d @ sp_code q"] Cons.prems f(1) show ?case by (simp add: flow_append)
qed

text \<open>The spawns are over when the await comes, with every handle in the array.\<close>

lemma spawn_codes_have:
  assumes "laid lo sps hi" and "sp \<in> set sps"
  shows "\<exists>i\<in>set (concat (map sp_code sps)). is_spawn i \<and> ii_id i = sp_task sp"
proof -
  obtain i where i: "is_spawn_of sp i" "sp_code sp = store_fields (sp_arg sp + 2) (sp_arg sp) (sp_values sp) @ [i]"
    using laid_range [OF assms] by (auto simp: spawn_ok_def)
  have "i \<in> set (concat (map sp_code sps))" using i(2) assms(2) by force
  then show ?thesis using i(1) unfolding is_spawn_of_def by blast
qed

lemma flow_await:
  assumes "laid lo sps hi" and "hi \<le> arr" and "arr + 1 + 2 * length sps < L" and "old_operands lo sps"
  defines "d \<equiv> concat (map sp_code sps)"
  shows "flow (stage_plan F base R lo sps arr L) d (await_code arr (map sp_task sps))"
    and "ids_below (arr + 2 + 2 * length sps) (d @ await_code arr (map sp_task sps))"
proof -
  let ?pn = "stage_plan F base R lo sps arr L"
  note pn = stage_plan_def [of F base R lo sps arr L] alloca_ids_def [of arr sps]
  let ?vs = "map VInst (map sp_task sps)"
  have below: "ids_below hi d" using flow_spawns [OF assms(1-4,1) subset_refl, of "[]" F base R] by (simp add: ids_below_def d_def)
  have kn: "known ?pn d (sp_task sp)" if "sp \<in> set sps" for sp
    using spawn_codes_have [OF assms(1) that] by (auto simp: known_def has_value_def d_def)
  have "field_law ?pn d (arr + 1) arr ?vs"
    unfolding field_law_def
  proof (intro conjI)
    show "known ?pn d arr" by (simp add: known_def pn)
    show "pn_regs ?pn arr = Ptr arr 0" using regs_outside(2) [OF assms(1-3)] by (simp add: pn)
    have "\<forall>q\<in>set sps. sp_result q < arr" using laid_range [OF assms(1)] assms(2) by (fastforce simp: spawn_ok_def)
    then show "arr \<notin> sp_result ` set (pn_spawns ?pn)" by (auto simp: pn)
    show "pn_old ?pn \<le> arr + 1" using laid_le [OF assms(1)] assms(2) by (simp add: pn)
    show "ids_below (arr + 1) d" using below assms(2) by (auto simp: ids_below_def)
    show "\<forall>j<length ?vs. pn_regs ?pn (arr + 1 + 2 * j) = Ptr arr j \<and> pn_cells ?pn (arr, j) = val_of (pn_base ?pn) (pn_regs ?pn) (?vs ! j)"
    proof (intro allI impI conjI)
      fix j
      assume "j < length ?vs"
      then have j: "j < length sps" "sps ! j \<in> set sps" by simp_all
      show "pn_regs ?pn (arr + 1 + 2 * j) = Ptr arr j" unfolding stage_plan_def plan.simps by (rule regs_outside(3) [OF assms(1-3) j(1)])
      show "pn_cells ?pn (arr, j) = val_of (pn_base ?pn) (pn_regs ?pn) (?vs ! j)"
        unfolding stage_plan_def plan.simps regs_outside(4) [OF assms(1-3) j(1)] using j(1) by (simp add: val_of_def regs_of_spawn(3) [OF assms(1) j(2)])
    qed
    show "\<forall>v\<in>set ?vs. \<forall>x. v = VInst x \<longrightarrow> known ?pn d x" using kn by auto
    have "\<forall>q\<in>set sps. sp_arg q < arr \<and> sp_result q < arr \<and> sp_task q < arr" using laid_range [OF assms(1)] assms(2) by (fastforce simp: spawn_ok_def)
    then show "\<forall>i. arr + 1 \<le> i \<longrightarrow> i < arr + 1 + 2 * length ?vs \<longrightarrow> i \<notin> pn_allocas ?pn \<and> i \<notin> sp_task ` set (pn_spawns ?pn)"
      by (fastforce simp: pn)
  qed
  from flow_fields [OF this] have f: "flow ?pn d (fields_from (arr + 1) arr ?vs)"
    "\<forall>j<length sps. (arr, j) \<in> stored ?pn (d @ fields_from (arr + 1) arr ?vs)"
    "ids_below (arr + 1 + 2 * length sps) (d @ fields_from (arr + 1) arr ?vs)" by simp_all
  let ?d = "d @ fields_from (arr + 1) arr ?vs"
  let ?i = "new_ins (arr + 1 + 2 * length sps) (call_proto ''topo_task_await_all'' [VInst arr, VConst (int (length sps))] VoidTy)"
  have aw: "is_await ?i" by (simp add: is_await_def called_def new_ins_def call_proto_def)
  have lt: "\<forall>q\<in>set sps. sp_arg q < arr \<and> sp_result q < arr \<and> sp_task q < arr" using laid_range [OF assms(1)] assms(2) by (fastforce simp: spawn_ok_def)
  have new: "\<not> known ?pn ?d (ii_id ?i)" "ii_id ?i \<notin> ii_id ` set ?d" "ii_id ?i \<notin> sp_task ` set sps"
    using f(3) lt laid_le [OF assms(1)] assms(2) by (force simp: known_def ids_below_def pn new_ins_def)+
  have "ok_await ?pn ?d ?i"
    unfolding ok_await_def
  proof (intro conjI exI)
    show "is_await ?i" by (rule aw)
    show "ii_args ?i = [VInst arr, VConst (int (length sps))]" by (simp add: new_ins_def call_proto_def)
    show "known ?pn ?d arr" by (simp add: known_def pn)
    show "pn_regs ?pn arr = Ptr arr 0" using regs_outside(2) [OF assms(1-3)] by (simp add: pn)
    show "\<forall>sp\<in>set (pn_spawns ?pn). sp_task sp \<in> ii_id ` set ?d \<and>
      (\<exists>j<nat (int (length sps)). (arr, j) \<in> stored ?pn ?d \<and> pn_cells ?pn (arr, j) = Handle (sp_task sp))"
    proof
      fix sp
      assume "sp \<in> set (pn_spawns ?pn)"
      then have m: "sp \<in> set sps" by (simp add: pn)
      then obtain j where j: "j < length sps" "sps ! j = sp" by (metis in_set_conv_nth)
      have "pn_cells ?pn (arr, j) = Handle (sp_task sp)" unfolding stage_plan_def plan.simps regs_outside(4) [OF assms(1-3) j(1)] using j(2) by simp
      moreover have "sp_task sp \<in> ii_id ` set ?d" using spawn_codes_have [OF assms(1) m] by (force simp: d_def)
      ultimately show "sp_task sp \<in> ii_id ` set ?d \<and>
        (\<exists>j<nat (int (length sps)). (arr, j) \<in> stored ?pn ?d \<and> pn_cells ?pn (arr, j) = Handle (sp_task sp))" using f(2) j(1) by auto
    qed
  qed
  then have "ok_ins ?pn ?d ?i" using new by (simp add: ok_ins_def pn)
  then show "flow ?pn d (await_code arr (map sp_task sps))" using f(1) by (simp add: await_code_def store_fields_from flow_append)
  show "ids_below (arr + 2 + 2 * length sps) (d @ await_code arr (map sp_task sps))"
    using f(3) by (auto simp: await_code_def store_fields_from ids_below_def new_ins_def dest!: bspec)
qed

lemma result_loads_set:
  "p \<in> set (result_loads L sps) \<longleftrightarrow> (\<exists>j<length sps. has_result (sp_callee (sps ! j)) \<and>
     p = (sp_call (sps ! j), new_ins (L + j) (OLoad, [VInst (sp_result (sps ! j))], iu_ret (sp_callee (sps ! j)))))"
proof -
  have "set (List.map_filter f xs) = {y. \<exists>x\<in>set xs. f x = Some y}" for f :: "nat \<times> spawn \<Rightarrow> (nat \<times> ins) option" and xs
    by (force simp: List.map_filter_def image_iff)
  note set_mf = this
  show ?thesis
  proof
    assume "p \<in> set (result_loads L sps)"
    then show "\<exists>j<length sps. has_result (sp_callee (sps ! j)) \<and>
        p = (sp_call (sps ! j), new_ins (L + j) (OLoad, [VInst (sp_result (sps ! j))], iu_ret (sp_callee (sps ! j))))"
      by (auto simp: result_loads_def set_mf in_set_enumerate_eq split: if_splits)
  next
    assume "\<exists>j<length sps. has_result (sp_callee (sps ! j)) \<and>
        p = (sp_call (sps ! j), new_ins (L + j) (OLoad, [VInst (sp_result (sps ! j))], iu_ret (sp_callee (sps ! j))))"
    then obtain j where j: "j < length sps" "has_result (sp_callee (sps ! j))"
        "p = (sp_call (sps ! j), new_ins (L + j) (OLoad, [VInst (sp_result (sps ! j))], iu_ret (sp_callee (sps ! j))))" by blast
    have "(j, sps ! j) \<in> set (enumerate 0 sps)" using j(1) by (simp add: in_set_enumerate_eq)
    then show "p \<in> set (result_loads L sps)" unfolding result_loads_def set_mf using j(2,3) by force
  qed
qed

lemma result_loads_snoc:
  "result_loads L (sps @ [sp]) = result_loads L sps @ (if has_result (sp_callee sp)
     then [(sp_call sp, new_ins (L + length sps) (OLoad, [VInst (sp_result sp)], iu_ret (sp_callee sp)))] else [])"
  by (simp add: result_loads_def List.map_filter_def enumerate_append_eq)

lemma flow_loads:
  assumes "laid lo sps hi" and "hi \<le> arr" and "arr + 1 + 2 * length sps < L" and "\<exists>j\<in>set d. is_await j" and "ids_below L d"
  shows "n \<le> length sps \<Longrightarrow> flow (stage_plan F base R lo sps arr L) d (map snd (result_loads L (take n sps))) \<and>
    ids_below (L + n) (d @ map snd (result_loads L (take n sps)))"
proof (induction n)
  case 0
  then show ?case using assms(5) by (simp add: result_loads_def List.map_filter_def)
next
  case (Suc n)
  let ?pn = "stage_plan F base R lo sps arr L"
  note pn = stage_plan_def [of F base R lo sps arr L] alloca_ids_def [of arr sps]
  let ?d = "d @ map snd (result_loads L (take n sps))" and ?sp = "sps ! n"
  have n: "n < length sps" "?sp \<in> set sps" using Suc.prems by auto
  have ih: "flow ?pn d (map snd (result_loads L (take n sps)))" "ids_below (L + n) ?d" using Suc by simp_all
  have step: "result_loads L (take (Suc n) sps) = result_loads L (take n sps) @ (if has_result (sp_callee ?sp)
     then [(sp_call ?sp, new_ins (L + n) (OLoad, [VInst (sp_result ?sp)], iu_ret (sp_callee ?sp)))] else [])"
    using n(1) by (simp add: take_Suc_conv_app_nth result_loads_snoc min_absorb2)
  let ?i = "new_ins (L + n) (OLoad, [VInst (sp_result ?sp)], iu_ret (sp_callee ?sp))"
  have lt: "\<forall>q\<in>set sps. sp_arg q < arr \<and> sp_result q < arr \<and> sp_task q < arr" using laid_range [OF assms(1)] assms(2) by (fastforce simp: spawn_ok_def)
  have new: "\<not> known ?pn ?d (L + n)" "L + n \<notin> ii_id ` set ?d" "L + n \<notin> sp_task ` set sps"
    using ih(2) lt laid_le [OF assms(1)] assms(2,3) by (force simp: known_def ids_below_def pn)+
  have "ok_load ?pn ?d ?i" if "has_result (sp_callee ?sp)"
    unfolding ok_load_def
  proof (intro conjI exI)
    show "ii_op ?i = OLoad" "ii_args ?i = [VInst (sp_result ?sp)]" by (simp_all add: new_ins_def)
    show "known ?pn ?d (sp_result ?sp)" using n(2) by (simp add: known_def pn)
    show "?sp \<in> set (pn_spawns ?pn)" using n(2) by (simp add: pn)
    show "has_result (sp_callee ?sp)" by (rule that)
    show "pn_regs ?pn (sp_result ?sp) = Ptr (sp_result ?sp) 0" by (simp add: pn regs_of_spawn(2) [OF assms(1) n(2)])
    show "\<exists>j\<in>set ?d. is_await j" using assms(4) by auto
    show "pn_regs ?pn (ii_id ?i) = pn_cells ?pn (sp_result ?sp, 0)"
      by (simp add: pn new_ins_def regs_of_spawn(6) [OF assms(1) n(2)] regs_outside(5) [OF assms(1-3) n(1)])
  qed
  then have "has_result (sp_callee ?sp) \<longrightarrow> ok_ins ?pn ?d ?i" using new by (simp add: ok_ins_def pn new_ins_def)
  moreover have "ids_below (L + Suc n) (?d @ [?i])" "ids_below (L + Suc n) ?d"
    using ih(2) by (auto simp: ids_below_def new_ins_def dest!: bspec)
  ultimately show ?case using ih(1) unfolding step by (auto simp: flow_append)
qed

text \<open>The code of a stage, from the first spawn to the loads of the results.\<close>

definition stage_code :: "nat \<Rightarrow> nat \<Rightarrow> spawn list \<Rightarrow> ins list" where
  "stage_code arr L sps = spawn_all_code arr sps @ map snd (result_loads L sps)"

lemma stage_code_flows:
  assumes "laid lo sps hi" and "hi \<le> arr" and "arr + 1 + 2 * length sps < L" and "old_operands lo sps"
  shows "flow (stage_plan F base R lo sps arr L) [] (stage_code arr L sps)" and "\<exists>i\<in>set (stage_code arr L sps). is_await i"
proof -
  let ?pn = "stage_plan F base R lo sps arr L" and ?s = "concat (map sp_code sps)" and ?a = "await_code arr (map sp_task sps)"
  have aw: "\<exists>i\<in>set (?s @ ?a). is_await i" by (auto simp: await_code_def is_await_def called_def new_ins_def call_proto_def)
  then show "\<exists>i\<in>set (stage_code arr L sps). is_await i" by (auto simp: stage_code_def spawn_all_code_def)
  have "flow ?pn [] ?s" using flow_spawns [OF assms assms(1) subset_refl, of "[]" F base R] by (simp add: ids_below_def)
  moreover note flow_await(1) [OF assms, of F base R]
  moreover have "ids_below L (?s @ ?a)" using flow_await(2) [OF assms] by (rule ids_below_le) (use assms(3) in simp)
  from flow_loads [OF assms(1-3) aw this, of "length sps" F base R] have "flow ?pn (?s @ ?a) (map snd (result_loads L sps))" by simp
  ultimately show "flow ?pn [] (stage_code arr L sps)" by (simp add: stage_code_def spawn_all_code_def flow_append)
qed

section \<open>What the pass lays out\<close>

text \<open>A wrapper made by the pass, in a module that still has it.\<close>

definition has_wrapper :: "imod \<Rightarrow> spawn \<Rightarrow> bool" where
  "has_wrapper m sp \<longleftrightarrow> (\<exists>f k cost. find_fun m (sp_wrapper sp) = Some f \<and> iu_blocks f = [(0, wrapper_code k (sp_callee sp) cost)])"

lemma find_fun_fresh:
  assumes "renames_fresh uniq" and "n' = fresh_name uniq m n"
  shows "find_fun m n' = None" and "n' \<notin> value_set m"
proof -
  show new: "n' \<notin> value_set m" using assms by (auto simp: fresh_name_def renames_fresh_def)
  then show "find_fun m n' = None" by (auto simp: find_fun_def find_None_iff value_set_def)
qed

lemma createTaskWrapper_makes:
  assumes "renames_fresh (pe_uniq env)" and "createTaskWrapper env g f inst m = (w, m')"
  shows "\<exists>h k cost. find_fun m' w = Some h \<and> iu_blocks h = [(0, wrapper_code k g cost)]"
    and "find_fun m k = Some q \<Longrightarrow> find_fun m' k = Some q" and "im_next m \<le> im_next m'" and "find_fun m w = None"
proof -
  let ?new = "\<lambda>n. (new_ifun n [PointerTy, PointerTy] VoidTy)\<lparr>iu_linkage := InternalLinkage\<rparr>"
  let ?m0 = "m\<lparr>im_funs := im_funs m @ [?new w]\<rparr>"
  obtain cost m1 where w: "w = fresh_name (pe_uniq env) m (f @ ''.topo_parallel_wrap'')" and m1: "im_funs m1 = im_funs ?m0" "im_next m1 = im_next m"
    and m': "m' = bump (2 * length (field_types g) + 5) (upd_blocks w (\<lambda>_. [(0, wrapper_code (im_next m1) g cost)]) m1)"
  proof (cases inst)
    case True
    obtain s ma where a: "getOrCreateGlobalString (pe_uniq env) f ''.str.topo_cost.''
      (m\<lparr>im_funs := im_funs m @ [?new (fresh_name (pe_uniq env) m (f @ ''.topo_parallel_wrap''))]\<rparr>) = (s, ma)" by fastforce
    obtain e mb where b: "getOrCreateGlobalString (pe_uniq env) f ''.str.topo_cost.'' ma = (e, mb)" by fastforce
    from getOrCreateGlobalString_frame [of "pe_uniq env" f "''.str.topo_cost.''"
        "m\<lparr>im_funs := im_funs m @ [?new (fresh_name (pe_uniq env) m (f @ ''.topo_parallel_wrap''))]\<rparr>"]
      getOrCreateGlobalString_frame [of "pe_uniq env" f "''.str.topo_cost.''" ma] a b
    show ?thesis using assms(2) True by (intro that [of mb "Some (s, e)"]) (auto simp: createTaskWrapper_def Let_def)
  next
    case False
    then show ?thesis using assms(2)
      by (intro that [of "m\<lparr>im_funs := im_funs m @ [?new w]\<rparr>" None]) (auto simp: createTaskWrapper_def Let_def)
  qed
  show none: "find_fun m w = None" by (rule find_fun_fresh(1) [OF assms(1) w])
  have find: "find_fun m1 k = (case find_fun m k of Some q \<Rightarrow> Some q | None \<Rightarrow> if k = w then Some (?new w) else None)" for k
    using m1(1) by (simp add: find_fun_def find_app new_ifun_def split: option.split)
  show "\<exists>h k cost. find_fun m' w = Some h \<and> iu_blocks h = [(0, wrapper_code k g cost)]"
    using none by (auto simp: m' find_fun_upd_blocks find)
  show "find_fun m k = Some q \<Longrightarrow> find_fun m' k = Some q" using none by (auto simp: m' find_fun_upd_blocks find)
  show "im_next m \<le> im_next m'" using m1(2) by (simp add: m' bump_def upd_blocks_def)
qed

lemma spawn_call_adds:
  assumes "renames_fresh (pe_uniq env)" and "spawn_call env symbols config tc (m, sps) = (m', sps')" and "find_fun m (ni_fun (snd tc)) = Some g"
  shows "\<exists>sp. sps' = sps @ [sp] \<and> im_next m \<le> sp_arg sp \<and> spawn_ok sp \<and> sp_task sp < im_next m' \<and> sp_call sp = ii_id (fst tc) \<and>
    sp_callee sp = g \<and> sp_values sp = map fst (filter (\<lambda>p. \<not> snd (snd p)) (zip (ii_args (fst tc)) (iu_params g))) \<and> has_wrapper m' sp"
    and "find_fun m k = Some q \<Longrightarrow> find_fun m' k = Some q"
proof -
  let ?vs = "map fst (filter (\<lambda>p. \<not> snd (snd p)) (zip (ii_args (fst tc)) (iu_params g)))"
  let ?m = "bump (3 + 2 * length ?vs) m"
  obtain w mw where w: "createTaskWrapper env g (ni_simple (snd tc)) (pl_instrument config) ?m = (w, mw)" by fastforce
  note made = createTaskWrapper_makes [OF assms(1) w]
  define sz where "sz = (if iu_ret g = VoidTy \<and> \<not> returns_struct g then 0 else pe_resultSize env g)"
  define prio where "prio = (case pe_priority env symbols (ni_qualified (snd tc)) of Some p \<Rightarrow> p | None \<Rightarrow> pe_normal env)"
  let ?t = "im_next m + 2 + 2 * length ?vs"
  define sp where "sp = \<lparr>sp_call = ii_id (fst tc), sp_callee = g, sp_wrapper = w, sp_values = ?vs, sp_arg = im_next m, sp_result = im_next m + 1,
    sp_task = ?t, sp_code = store_fields (im_next m + 2) (im_next m) ?vs @ [new_ins ?t (spawn_proto env prio w (im_next m) (im_next m + 1) sz)]\<rparr>"
  have res: "m' = mw" "sps' = sps @ [sp]" using assms(2,3) w by (auto simp: spawn_call_def Let_def sp_def sz_def prio_def)
  have "is_spawn_of sp (new_ins ?t (spawn_proto env prio w (im_next m) (im_next m + 1) sz))"
    by (auto simp: sp_def is_spawn_of_def is_spawn_def spawn_proto_def called_def new_ins_def call_proto_def)
  then have "spawn_ok sp" by (auto simp: spawn_ok_def sp_def)
  moreover have "sp_task sp < im_next m'" using made(3) by (simp add: bump_def res(1) sp_def)
  moreover have "has_wrapper m' sp" using made(1) by (auto simp: has_wrapper_def res(1) sp_def)
  ultimately show "\<exists>sp. sps' = sps @ [sp] \<and> im_next m \<le> sp_arg sp \<and> spawn_ok sp \<and> sp_task sp < im_next m' \<and> sp_call sp = ii_id (fst tc) \<and>
    sp_callee sp = g \<and> sp_values sp = ?vs \<and> has_wrapper m' sp"
    using res(2) by (intro exI [of _ sp]) (simp add: sp_def)
  show "find_fun m k = Some q \<Longrightarrow> find_fun m' k = Some q" using made(2) by (simp add: res(1))
qed

text \<open>A call that the pass can make into a task: its function is there, takes that many arguments, and returns no struct.\<close>

definition task_call :: "imod \<Rightarrow> ins \<times> NodeInfo \<Rightarrow> ifun \<Rightarrow> bool" where
  "task_call m tc g \<longleftrightarrow> find_fun m (ni_fun (snd tc)) = Some g \<and> no_sret g \<and> length (ii_args (fst tc)) = length (iu_params g) \<and>
     (\<forall>x. VInst x \<in> set (ii_args (fst tc)) \<longrightarrow> x < im_next m)"

definition spawn_for :: "imod \<Rightarrow> imod \<Rightarrow> ins \<times> NodeInfo \<Rightarrow> spawn \<Rightarrow> bool" where
  "spawn_for m m' tc sp \<longleftrightarrow> sp_call sp = ii_id (fst tc) \<and> find_fun m (ni_fun (snd tc)) = Some (sp_callee sp) \<and>
     sp_values sp = ii_args (fst tc) \<and> has_wrapper m' sp"

lemma spawn_for_kept:
  assumes "\<And>k q. find_fun m1 k = Some q \<longrightarrow> find_fun m' k = Some q"
  shows "list_all2 (spawn_for m m1) targets sps \<Longrightarrow> list_all2 (spawn_for m m') targets sps"
proof (rule list_all2_mono)
  fix tc sp
  assume "spawn_for m m1 tc sp"
  then show "spawn_for m m' tc sp" using assms unfolding spawn_for_def has_wrapper_def by blast
qed

lemma spawn_calls_lay:
  assumes "renames_fresh (pe_uniq env)" and "\<forall>tc\<in>set targets. \<exists>g. task_call m tc g"
  shows "\<exists>m' sps. fold (spawn_call env symbols config) targets (m, []) = (m', sps) \<and> laid (im_next m) sps (im_next m') \<and>
    list_all2 (spawn_for m m') targets sps \<and> (\<forall>k q. find_fun m k = Some q \<longrightarrow> find_fun m' k = Some q)"
  using assms(2)
proof (induction targets rule: rev_induct)
  case (snoc tc targets)
  then obtain m1 sps where s: "fold (spawn_call env symbols config) targets (m, []) = (m1, sps)" "laid (im_next m) sps (im_next m1)"
    "list_all2 (spawn_for m m1) targets sps" "\<forall>k q. find_fun m k = Some q \<longrightarrow> find_fun m1 k = Some q" by auto
  obtain g where g: "task_call m tc g" using snoc.prems by auto
  then have g1: "find_fun m1 (ni_fun (snd tc)) = Some g" using s(4) by (simp add: task_call_def)
  obtain m' sps' where c: "spawn_call env symbols config tc (m1, sps) = (m', sps')" by fastforce
  obtain sp where sp: "sps' = sps @ [sp]" "im_next m1 \<le> sp_arg sp" "spawn_ok sp" "sp_task sp < im_next m'" "sp_call sp = ii_id (fst tc)"
    "sp_callee sp = g" "sp_values sp = map fst (filter (\<lambda>p. \<not> snd (snd p)) (zip (ii_args (fst tc)) (iu_params g)))" "has_wrapper m' sp"
    using spawn_call_adds(1) [OF assms(1) c g1] by blast
  have kept: "find_fun m1 k = Some q \<longrightarrow> find_fun m' k = Some q" for k q using spawn_call_adds(2) [OF assms(1) c g1] by blast
  have "filter (\<lambda>p. \<not> snd (snd p)) (zip (ii_args (fst tc)) (iu_params g)) = zip (ii_args (fst tc)) (iu_params g)"
    using g by (auto simp: task_call_def no_sret_def filter_id_conv dest!: set_zip_rightD)
  then have "sp_values sp = ii_args (fst tc)" using sp(7) g by (simp add: task_call_def)
  then have "spawn_for m m' tc sp" using sp(5,6,8) g by (simp add: spawn_for_def task_call_def)
  moreover have "list_all2 (spawn_for m m') targets sps"
    using spawn_for_kept [OF kept s(3)] .
  ultimately have "list_all2 (spawn_for m m') (targets @ [tc]) sps'" by (simp add: sp(1) list_all2_appendI)
  moreover have "laid (im_next m) sps' (im_next m')" using laid_snoc [OF s(2) sp(2-4)] by (simp add: sp(1))
  ultimately show ?case using s(1,4) c kept by auto
qed simp

section \<open>The theorem\<close>

text \<open>
  C37. The code of a stage, with the wrappers the pass makes: from any state in which the allocations have their
  addresses, the code comes to its end; whenever it does, in whatever order the pool ran the tasks, no task is left,
  and each load holds what the call it replaces returns for the call's own arguments.
\<close>

theorem parallel_stage_computes_calls:
  fixes F :: "string \<Rightarrow> 'v rt_value list \<Rightarrow> 'v rt_value"
  assumes "renames_fresh (pe_uniq env)" and "\<forall>tc\<in>set targets. \<exists>g. task_call m tc g"
    and "fold (spawn_call env symbols config) targets (m, []) = (m', sps)" and "im_next m' \<le> arr" and "arr + 1 + 2 * length sps < L"
    and "\<forall>a\<in>alloca_ids arr sps. R a = Ptr a 0"
  shows "(\<exists>R' M'. (pstep F (find_fun m') base)\<^sup>*\<^sup>* (stage_code arr L sps, R, M, {}) ([], R', M', {})) \<and>
    (\<forall>R' M' P. (pstep F (find_fun m') base)\<^sup>*\<^sup>* (stage_code arr L sps, R, M, {}) ([], R', M', P) \<longrightarrow> P = {} \<and>
       (\<forall>c l. (c, l) \<in> set (result_loads L sps) \<longrightarrow> (\<exists>i n g. (i, n) \<in> set targets \<and> ii_id i = c \<and> find_fun m (ni_fun n) = Some g \<and>
          R' (ii_id l) = F (iu_name g) (map (val_of base R) (ii_args i)))))"
proof -
  have lay: "laid (im_next m) sps (im_next m')" "list_all2 (spawn_for m m') targets sps"
    using spawn_calls_lay [OF assms(1,2), of symbols config] assms(3) by auto
  have origin: "\<exists>tc\<in>set targets. spawn_for m m' tc sp \<and> (\<exists>g. task_call m tc g)" if "sp \<in> set sps" for sp
    using that lay(2) assms(2) by (metis in_set_conv_nth list_all2_conv_all_nth)
  let ?pn = "stage_plan F base R (im_next m) sps arr L"
  have "old_operands (im_next m) sps" using origin unfolding old_operands_def spawn_for_def task_call_def by metis
  note flows = stage_code_flows [OF lay(1) assms(4,5) this]
  have comp: "tasks_compute F (find_fun m') ?pn"
    unfolding tasks_compute_def
  proof (intro conjI ballI allI impI)
    have "distinct (map sp_task sps)" using task_not_alloca(2) [OF lay(1) assms(4)] by (cases sps) auto
    then show "distinct (map sp_task (pn_spawns ?pn))" by (simp add: stage_plan_def)
  next
    fix sp M
    assume "sp \<in> set (pn_spawns ?pn)"
    then have "sp \<in> set sps" by (simp add: stage_plan_def)
    then obtain tc g where o: "spawn_for m m' tc sp" "task_call m tc g" using origin by blast
    then have "sp_callee sp = g" "length (sp_values sp) = length (iu_params g)" by (simp_all add: spawn_for_def task_call_def)
    moreover obtain f k cost where "find_fun m' (sp_wrapper sp) = Some f" "iu_blocks f = [(0, wrapper_code k (sp_callee sp) cost)]"
      using o(1) by (auto simp: spawn_for_def has_wrapper_def)
    ultimately show "run_task F (find_fun m') (task_of sp) M =
        task_result F (sp_callee sp) (map (\<lambda>j. M (sp_arg sp, j)) [0..<length (sp_values sp)]) (sp_result sp) M"
      using run_wrapper [of "find_fun m'" "sp_wrapper sp" f k g cost F "sp_arg sp" "sp_result sp" "sp_task sp" M] o(2)
      by (simp add: task_of_def task_call_def)
  next
    fix sp
    assume "sp \<in> set (pn_spawns ?pn)"
    then have sp: "sp \<in> set sps" by (simp add: stage_plan_def)
    have "map (\<lambda>j. pn_cells ?pn (sp_arg sp, j)) [0..<length (sp_values sp)] = map (val_of base R) (sp_values sp)"
      by (rule nth_equalityI) (simp_all add: stage_plan_def regs_of_spawn(5) [OF lay(1) sp])
    then show "pn_cells ?pn (sp_result sp, 0) = F (iu_name (sp_callee sp)) (map (\<lambda>j. pn_cells ?pn (sp_arg sp, j)) [0..<length (sp_values sp)])"
      by (simp add: stage_plan_def regs_of_spawn(6) [OF lay(1) sp] result_of_def)
  qed
  have start: "\<forall>k. known ?pn [] k \<longrightarrow> R k = pn_regs ?pn k"
    using assms(6)
    by (auto simp: known_def stage_plan_def alloca_ids_def regs_of_spawn(1,2) [OF lay(1)] regs_outside(1,2) [OF lay(1) assms(4,5)])
  note reached = plan_reached [OF comp flows start, of M]
  have loaded: "R' (ii_id l) = pn_regs ?pn (ii_id l) \<longrightarrow> (\<exists>i n g. (i, n) \<in> set targets \<and> ii_id i = c \<and> find_fun m (ni_fun n) = Some g \<and>
      R' (ii_id l) = F (iu_name g) (map (val_of base R) (ii_args i)))" if l: "(c, l) \<in> set (result_loads L sps)" for c l R'
  proof -
    obtain j where j: "j < length sps" "c = sp_call (sps ! j)" "ii_id l = L + j"
      using l by (auto simp: result_loads_set new_ins_def)
    then obtain tc where tc: "tc \<in> set targets" "spawn_for m m' tc (sps ! j)" using origin [of "sps ! j"] by auto
    have "pn_regs ?pn (ii_id l) = result_of F base R (sps ! j)" by (simp add: j(3) stage_plan_def regs_outside(5) [OF lay(1) assms(4,5) j(1)])
    then show ?thesis using tc j(2) by (auto simp: spawn_for_def result_of_def intro!: exI [of _ "fst tc"] exI [of _ "snd tc"])
  qed
  have has: "l \<in> set (stage_code arr L sps) \<and> has_value l" if "(c, l) \<in> set (result_loads L sps)" for c l
    using that by (force simp: stage_code_def result_loads_set has_value_def new_ins_def)
  have base: "pn_base ?pn = base" by (simp add: stage_plan_def)
  show ?thesis using reached loaded has unfolding base by blast
qed

text \<open>Two calls of the example, the second's result the larger task: \<open>load\<close> of its pointer, \<open>mix\<close> of the pointer and 3.\<close>

definition two_targets :: "(ins \<times> NodeInfo) list" where
  "two_targets = [(new_ins 0 (call_proto ''load'' [VArg 0] (IntegerTy 32)), \<lparr>ni_simple = ''load'', ni_qualified = ''load'', ni_fun = ''load''\<rparr>),
     (new_ins 1 (call_proto ''mix'' [VArg 0, VConst 3] (IntegerTy 32)), \<lparr>ni_simple = ''mix'', ni_qualified = ''mix'', ni_fun = ''mix''\<rparr>)]"

definition two_calls :: imod where
  "two_calls = par_example_module [(PointerTy, False)] (IntegerTy 32) [(0, map fst two_targets)]"

definition two_spawned :: "imod \<times> spawn list" where
  "two_spawned = fold (spawn_call par_example_env par_example_flow (par_example_config\<lparr>pl_instrument := False\<rparr>)) two_targets (two_calls, [])"

definition two_summary :: "imod \<times> spawn list \<Rightarrow> nat \<times> nat \<times> (nat \<times> nat) list \<times> (nat \<times> nat) list" where
  "two_summary s = (im_next (fst s), length (snd s), map (\<lambda>sp. (sp_arg sp, sp_result sp)) (snd s), map (\<lambda>p. (fst p, ii_id (snd p))) (result_loads 60 (snd s)))"

lemma two_summary_eq: "two_summary two_spawned = (40, 2, [(12, 13), (24, 25)], [(0, 60), (1, 61)])"
  by code_simp

definition two_regs :: "nat \<Rightarrow> nat rt_value" where
  "two_regs k = Ptr k 0"

definition two_base :: "ir_value \<Rightarrow> nat rt_value" where
  "two_base v = (case v of VArg k \<Rightarrow> Val (10 + k) | VConst c \<Rightarrow> Val (nat c) | _ \<Rightarrow> NoValue)"

lemma two_tasks: "\<forall>tc\<in>set two_targets. \<exists>g. task_call two_calls tc g"
  by (simp add: two_targets_def task_call_def two_calls_def par_example_module_def par_example_fun_def find_fun_def no_sret_def call_proto_def new_ins_def new_ifun_def)

theorem parallel_stage_computes_calls_witness:
  "\<exists>R' M'. (pstep (\<lambda>f vs. if vs = [Val 10] then Val 1 else if vs = [Val 10, Val 3] then Val 2 else NoValue) (find_fun (fst two_spawned)) two_base)\<^sup>*\<^sup>*
     (stage_code 40 60 (snd two_spawned), two_regs, (\<lambda>_. NoValue), {}) ([], R', M', {}) \<and> R' 60 = Val 1 \<and> R' 61 = Val 2"
proof -
  let ?F = "\<lambda>f vs. if vs = [Val 10] then Val 1 else if vs = [Val 10, Val 3] then Val 2 else NoValue :: nat rt_value"
  obtain m' sps where s: "two_spawned = (m', sps)" by (cases two_spawned)
  have sum: "im_next m' = 40" "length sps = 2" "map (\<lambda>p. (fst p, ii_id (snd p))) (result_loads 60 sps) = [(0, 60), (1, 61)]"
    using two_summary_eq by (simp_all add: s two_summary_def)
  note run = parallel_stage_computes_calls [where env = par_example_env and arr = 40 and L = 60 and R = two_regs and F = ?F and base = two_base and M = "\<lambda>_. NoValue",
      OF _ two_tasks two_spawned_def [symmetric, unfolded s]]
  have fresh: "renames_fresh (pe_uniq par_example_env)" using dotted_name_fresh by (simp add: par_example_env_def)
  obtain R' M' where R': "(pstep ?F (find_fun m') two_base)\<^sup>*\<^sup>* (stage_code 40 60 sps, two_regs, (\<lambda>_. NoValue), {}) ([], R', M', {})"
    and all: "\<forall>c l. (c, l) \<in> set (result_loads 60 sps) \<longrightarrow> (\<exists>i n g. (i, n) \<in> set two_targets \<and> ii_id i = c \<and>
      find_fun two_calls (ni_fun n) = Some g \<and> R' (ii_id l) = ?F (iu_name g) (map (val_of two_base two_regs) (ii_args i)))"
    using run fresh sum by (auto simp: two_regs_def)
  obtain l where l: "result_loads 60 sps = [(0, fst l), (1, snd l)]" "ii_id (fst l) = 60" "ii_id (snd l) = 61"
    using sum(3) by (auto simp: map_eq_Cons_conv)
  have "(0, fst l) \<in> set (result_loads 60 sps)" "(1, snd l) \<in> set (result_loads 60 sps)" by (simp_all add: l(1))
  note these = this [THEN all [rule_format]]
  have "R' 60 = Val 1"
    using these(1) unfolding l by (auto simp: two_targets_def new_ins_def call_proto_def val_of_def two_base_def)
  moreover have "R' 61 = Val 2"
    using these(2) unfolding l by (auto simp: two_targets_def new_ins_def call_proto_def val_of_def two_base_def)
  ultimately show ?thesis using R' by (auto simp: s)
qed

end
