(* ===== verification/VisibilityPasses.thy ===== *)
theory VisibilityPasses
  imports IrModule
begin

text \<open>
  What the declared visibilities do to a module, and the check that they did it:
  lib/Backend/VisibilityApplier.cpp, lib/Transforms/TopoFlattenPass.cpp,
  lib/Transforms/SymbolObfuscator.cpp and lib/Backend/PostTransformVerifier.cpp. The visibility policy,
  SipHash, the file system and the bitcode reader are parameters. The lemmas give the final state of
  every function after each pass and show that the post-transform check accepts what the passes made.
\<close>

section \<open>Applying visibility actions\<close>

record VisibilityAction =
  va_internalLinkage :: bool
  va_isExport :: bool
  va_dsoLocal :: bool
  va_inlineHint :: bool
  va_alwaysInline :: bool
  va_stripDebug :: bool
  va_isConst :: bool
  va_paramConsts :: "ParamConst list"

record ApplyStats =
  publicCount :: nat
  protectedCount :: nat
  privateCount :: nat
  internalCount :: nat

definition isCOFFTarget :: "ir_module \<Rightarrow> bool" where
  "isCOFFTarget m \<longleftrightarrow> contains ''windows'' (im_triple m) \<or> contains ''win32'' (im_triple m)"

definition stripO0Blockers :: "ir_module \<Rightarrow> ir_module" where
  "stripO0Blockers m =
     m\<lparr>im_functions := map (\<lambda>f. if if_declaration f then f
          else f\<lparr>if_attrs := if_attrs f - {OptimizeNone, NoInline}\<rparr>) (im_functions m)\<rparr>"

text \<open>The loop over the arguments: readonly marks and ownership metadata.\<close>

fun param_attributes :: "ParamConst list \<Rightarrow> bool list \<Rightarrow> string set \<Rightarrow> bool list \<times> string set" where
  "param_attributes (pc # pcs) (ro # ros) md =
     (let ro' = (if pc_isConst pc \<and> (pc_modifier pc = Ref \<or> pc_modifier pc = Ptr) then True else ro);
          md' = (case pc_ownership pc of None \<Rightarrow> md | Some k \<Rightarrow> insert (''topo.ownership.'' @ k) md);
          (ros', md'') = param_attributes pcs ros md'
      in (ro' # ros', md''))"
| "param_attributes pcs ros md = (ros, md)"

definition action_linkage :: "VisibilityAction \<Rightarrow> bool \<Rightarrow> ir_function \<Rightarrow> ir_function" where
  "action_linkage action isCOFF f =
     (let f = (if va_internalLinkage action then f\<lparr>if_linkage := InternalLinkage\<rparr> else f);
          f = (if va_isExport action then
                 (if isCOFF then f\<lparr>if_dllexport := True\<rparr> else f\<lparr>if_visibility := DefaultVisibility\<rparr>) else f);
          f = (if va_dsoLocal action then f\<lparr>if_dso_local := True\<rparr> else f);
          f = (if va_inlineHint action then f\<lparr>if_attrs := insert InlineHint (if_attrs f)\<rparr> else f)
      in if va_alwaysInline action then
           (let f = f\<lparr>if_attrs := insert AlwaysInline (if_attrs f)\<rparr>
            in if va_stripDebug action then f\<lparr>if_subprogram := False\<rparr> else f)
         else f)"

definition action_params :: "VisibilityAction \<Rightarrow> ir_function \<Rightarrow> ir_function" where
  "action_params action f =
     (let f = (if va_isConst action then f\<lparr>if_only_reads := True\<rparr> else f);
          (ros, md) = param_attributes (va_paramConsts action) (if_readonly_args f) (if_metadata f)
      in f\<lparr>if_readonly_args := ros, if_metadata := md\<rparr>)"

definition applyAction ::
  "(string set \<Rightarrow> string \<Rightarrow> string) \<Rightarrow> nat \<Rightarrow> VisibilityAction \<Rightarrow> bool \<Rightarrow> ir_module \<Rightarrow> ir_module" where
  "applyAction uniq i action isCOFF m =
     (let m = upd_fn i (action_linkage action isCOFF) m;
          m = (if va_alwaysInline action \<and> \<not> va_stripDebug action then
                 (case find_fn m i of
                    None \<Rightarrow> m | Some f \<Rightarrow> setName uniq i (''__topo_internal_'' @ if_name f) m)
               else m)
      in upd_fn i (action_params action) m)"

definition count_visibility :: "Visibility \<Rightarrow> ApplyStats \<Rightarrow> ApplyStats" where
  "count_visibility v s =
     (case v of
        Public \<Rightarrow> s\<lparr>publicCount := publicCount s + 1\<rparr>
      | Protected \<Rightarrow> s\<lparr>protectedCount := protectedCount s + 1\<rparr>
      | Private \<Rightarrow> s\<lparr>privateCount := privateCount s + 1\<rparr>
      | Internal \<Rightarrow> s\<lparr>internalCount := internalCount s + 1\<rparr>
      | Ignore \<Rightarrow> s)"

definition apply_entry ::
  "(string set \<Rightarrow> string \<Rightarrow> string) \<Rightarrow> pass_mapping \<Rightarrow> bool \<Rightarrow> VisibilityEntry \<times> VisibilityAction \<Rightarrow>
   ir_module \<times> ApplyStats \<Rightarrow> ir_module \<times> ApplyStats" where
  "apply_entry uniq pm isCOFF e acc =
     (case (e, acc) of ((entry, action), (m, stats)) \<Rightarrow>
        (case map_of (pm_matched pm) (ve_qualifiedName entry) of
           None \<Rightarrow> (m, stats)
         | Some i \<Rightarrow> (applyAction uniq i action isCOFF m, count_visibility (ve_visibility entry) stats)))"

text \<open>\<open>actions[i]\<close> past the end is undefined behaviour, the value \<open>None\<close>.\<close>

definition apply_actions ::
  "(string set \<Rightarrow> string \<Rightarrow> string) \<Rightarrow> ir_module \<Rightarrow> pass_mapping \<Rightarrow> VisibilityEntry list \<Rightarrow>
   VisibilityAction list \<Rightarrow> (ir_module \<times> ApplyStats) option" where
  "apply_actions uniq m pm entries actions =
     (let stats = \<lparr>publicCount = 0, protectedCount = 0, privateCount = 0, internalCount = 0\<rparr>;
          isCOFF = isCOFFTarget m
      in if length actions < length entries then None
         else Some (fold (apply_entry uniq pm isCOFF) (zip entries actions) (stripO0Blockers m, stats)))"

datatype OutputType = Exe | Shared | Static
datatype PolicyOutputType = Executable | SharedLibrary | StaticLibrary
datatype TargetPlatform = COFF | ELF

definition apply_visibility ::
  "(VisibilityEntry list \<Rightarrow> PolicyOutputType \<Rightarrow> TargetPlatform \<Rightarrow> bool \<Rightarrow> VisibilityAction list) \<Rightarrow>
   (string set \<Rightarrow> string \<Rightarrow> string) \<Rightarrow> ir_module \<Rightarrow> pass_mapping \<Rightarrow> VisibilityEntry list \<Rightarrow> OutputType \<Rightarrow> bool \<Rightarrow>
   (ir_module \<times> ApplyStats) option" where
  "apply_visibility computeVisibilityActions uniq m pm entries outputType debugInternal =
     (let platform = (if isCOFFTarget m then COFF else ELF);
          policyOutput = (case outputType of
             Shared \<Rightarrow> SharedLibrary | Static \<Rightarrow> StaticLibrary | _ \<Rightarrow> Executable)
      in apply_actions uniq m pm entries (computeVisibilityActions entries policyOutput platform debugInternal))"

section \<open>Flattening\<close>

datatype BuildMode = Dev | Aggressive

definition flatten_eligible :: "BuildMode \<Rightarrow> Visibility \<Rightarrow> bool" where
  "flatten_eligible mode v \<longleftrightarrow> v = Private \<or> (mode = Aggressive \<and> v = Protected)"

definition flatten_candidates ::
  "BuildMode \<Rightarrow> VisibilityEntry list \<Rightarrow> pass_mapping \<Rightarrow> (nat \<times> string) list" where
  "flatten_candidates mode entries pm =
     fold (\<lambda>entry candidates.
        if \<not> flatten_eligible mode (ve_visibility entry) then candidates
        else (case map_of (pm_matched pm) (ve_qualifiedName entry) of
                None \<Rightarrow> candidates
              | Some i \<Rightarrow> AList.update i (ve_qualifiedName entry) candidates)) entries []"

fun demote :: "(nat \<times> string) list \<Rightarrow> ir_module \<times> string list \<Rightarrow> ir_module \<times> string list" where
  "demote [] acc = acc"
| "demote ((i, name) # candidates) (m, report) =
     (case find_fn m i of
        None \<Rightarrow> demote candidates (m, report)
      | Some f \<Rightarrow>
          if if_linkage f \<noteq> InternalLinkage then
            demote candidates (upd_fn i (\<lambda>f. f\<lparr>if_linkage := InternalLinkage\<rparr>) m, report @ [name])
          else demote candidates (m, report))"

text \<open>The report lists the demoted functions; the pass returns their number.\<close>

definition flatten_run ::
  "ir_module \<Rightarrow> VisibilityEntry list \<Rightarrow> pass_mapping \<Rightarrow> BuildMode \<Rightarrow> ir_module \<times> string list" where
  "flatten_run m entries pm mode = demote (flatten_candidates mode entries pm) (m, [])"

section \<open>Obfuscation\<close>

type_synonym bytes = "u8 list"

definition hex_digit :: "nat \<Rightarrow> char" where
  "hex_digit d = ''0123456789abcdef'' ! d"

definition hex_byte :: "u8 \<Rightarrow> string" where
  "hex_byte b = [hex_digit (unat b div 16), hex_digit (unat b mod 16)]"

definition hash_key :: "string \<Rightarrow> bytes" where
  "hash_key salt = map of_char (take 16 salt) @ replicate (16 - length salt) 0"

definition computeHash :: "(bytes \<Rightarrow> bytes \<Rightarrow> bytes) \<Rightarrow> string \<Rightarrow> string \<Rightarrow> string" where
  "computeHash siphash qualifiedName salt =
     concat (map hex_byte (siphash (map of_char qualifiedName) (hash_key salt)))"

datatype ObfuscationMode = Normal | Salted

definition obfuscation_prefix :: "ObfuscationMode \<Rightarrow> string \<Rightarrow> string" where
  "obfuscation_prefix mode salt =
     (if mode = Salted \<and> salt \<noteq> [] then
        ''_Z'' @ [char_of (0x74 + (of_char (hd salt) :: nat) mod 7)]
      else ''_Zt'')"

definition obfuscated_name :: "(bytes \<Rightarrow> bytes \<Rightarrow> bytes) \<Rightarrow> ObfuscationMode \<Rightarrow> string \<Rightarrow> string \<Rightarrow> string" where
  "obfuscated_name siphash mode salt qualifiedName =
     obfuscation_prefix mode salt
     @ computeHash siphash qualifiedName (if mode = Salted then salt else [])"

record ObfuscationResult =
  renamedCount :: nat
  protectedMapping :: "(string \<times> string) list"

definition obfuscate_entry ::
  "(bytes \<Rightarrow> bytes \<Rightarrow> bytes) \<Rightarrow> (string set \<Rightarrow> string \<Rightarrow> string) \<Rightarrow> pass_mapping \<Rightarrow> nat set \<Rightarrow> ObfuscationMode \<Rightarrow> string \<Rightarrow>
   VisibilityEntry \<Rightarrow> ir_module \<times> ObfuscationResult \<Rightarrow> ir_module \<times> ObfuscationResult" where
  "obfuscate_entry siphash uniq pm validFuncs mode salt entry acc =
     (case acc of (m, r) \<Rightarrow>
        if ve_visibility entry = Public then (m, r)
        else
          (case map_of (pm_matched pm) (ve_qualifiedName entry) of
             None \<Rightarrow> (m, r)
           | Some i \<Rightarrow>
               if i \<notin> validFuncs then (m, r)
               else
                 (case find_fn m i of
                    None \<Rightarrow> (m, r)
                  | Some func \<Rightarrow>
                      if if_declaration func then (m, r)
                      else
                        (let obfuscatedName = obfuscated_name siphash mode salt (ve_qualifiedName entry);
                             m = setName uniq i obfuscatedName m;
                             r = r\<lparr>renamedCount := renamedCount r + 1\<rparr>
                         in if ve_visibility entry = Protected then
                              (m, r\<lparr>protectedMapping :=
                                 AList.update (ve_qualifiedName entry) obfuscatedName (protectedMapping r)\<rparr>)
                            else (m, r)))))"

definition obfuscate ::
  "(bytes \<Rightarrow> bytes \<Rightarrow> bytes) \<Rightarrow> (string set \<Rightarrow> string \<Rightarrow> string) \<Rightarrow> ir_module \<Rightarrow> VisibilityEntry list \<Rightarrow> pass_mapping \<Rightarrow>
   ObfuscationMode \<Rightarrow> string \<Rightarrow> ir_module \<times> ObfuscationResult" where
  "obfuscate siphash uniq m entries pm mode salt =
     fold (obfuscate_entry siphash uniq pm (if_id ` set (im_functions m)) mode salt) entries
       (m, \<lparr>renamedCount = 0, protectedMapping = []\<rparr>)"

section \<open>The post-transform check\<close>

datatype check_severity = CheckError | CheckWarning

record CheckDiagnostic =
  cd_severity :: check_severity
  cd_check :: string
  cd_message :: string

record PostTransformResult =
  visibilityVerified :: nat
  visibilityMismatch :: nat
  obfuscationVerified :: nat
  obfuscationMismatch :: nat
  diagnostics :: "CheckDiagnostic list"

definition no_findings :: PostTransformResult where
  "no_findings = \<lparr>visibilityVerified = 0, visibilityMismatch = 0, obfuscationVerified = 0,
     obfuscationMismatch = 0, diagnostics = []\<rparr>"

definition add_diagnostic :: "check_severity \<Rightarrow> string \<Rightarrow> string \<Rightarrow> PostTransformResult \<Rightarrow> PostTransformResult" where
  "add_diagnostic sev chk msg r =
     r\<lparr>diagnostics := diagnostics r @ [\<lparr>cd_severity = sev, cd_check = chk, cd_message = msg\<rparr>]\<rparr>"

fun actual_linkage :: "ll_linkage \<Rightarrow> string" where
  "actual_linkage ExternalLinkage = ''public''"
| "actual_linkage InternalLinkage = ''private''"
| "actual_linkage PrivateLinkage = ''private''"
| "actual_linkage OtherLinkage = ''internal''"

fun linkage_matches :: "Visibility \<Rightarrow> ll_linkage \<Rightarrow> bool" where
  "linkage_matches Public l = (l = ExternalLinkage)"
| "linkage_matches Private l = (l = InternalLinkage \<or> l = PrivateLinkage)"
| "linkage_matches Protected l = (l = InternalLinkage \<or> l = PrivateLinkage)"
| "linkage_matches Internal l = (l \<noteq> ExternalLinkage)"
| "linkage_matches Ignore l = True"

definition in_quotes :: "string \<Rightarrow> string" where
  "in_quotes s = [CHR 0x27] @ s @ [CHR 0x27]"

definition verify_linkage ::
  "(Visibility \<Rightarrow> string) \<Rightarrow> string \<Rightarrow> Visibility \<Rightarrow> ir_function \<Rightarrow> PostTransformResult \<Rightarrow> PostTransformResult" where
  "verify_linkage visibilityName topoName expected f r =
     (if linkage_matches expected (if_linkage f) then r\<lparr>visibilityVerified := visibilityVerified r + 1\<rparr>
      else add_diagnostic CheckError ''post-transform-visibility''
             (''linkage mismatch for '' @ in_quotes topoName @ '': expected '' @ visibilityName expected
              @ '' but got '' @ actual_linkage (if_linkage f))
             (r\<lparr>visibilityMismatch := visibilityMismatch r + 1\<rparr>))"

definition nameIsObfuscated :: "string \<Rightarrow> bool" where
  "nameIsObfuscated n \<longleftrightarrow> starts_with ''_topo_'' n \<or> length n > 20"

definition verify_obfuscated ::
  "string \<Rightarrow> Visibility \<Rightarrow> ir_function \<Rightarrow> PostTransformResult \<Rightarrow> PostTransformResult" where
  "verify_obfuscated topoName vis f r =
     (if (vis = Private \<or> vis = Internal) \<and> \<not> nameIsObfuscated (if_name f) then
        add_diagnostic CheckWarning ''post-transform-obfuscation''
          (in_quotes topoName @ '' should be obfuscated but retains original name: '' @ if_name f)
          (r\<lparr>obfuscationMismatch := obfuscationMismatch r + 1\<rparr>)
      else r\<lparr>obfuscationVerified := obfuscationVerified r + 1\<rparr>)"

definition verify_function ::
  "(Visibility \<Rightarrow> string) \<Rightarrow> ir_module \<Rightarrow> (string \<times> Visibility) list \<Rightarrow> bool \<Rightarrow> string \<times> nat \<Rightarrow>
   PostTransformResult \<Rightarrow> PostTransformResult" where
  "verify_function visibilityName m expectedVisibility obfuscationEnabled e r =
     (case e of (topoName, i) \<Rightarrow>
        (case find_fn m i of
           None \<Rightarrow> r
         | Some f \<Rightarrow>
             (case map_of expectedVisibility topoName of
                None \<Rightarrow> r
              | Some vis \<Rightarrow>
                  (let r = verify_linkage visibilityName topoName vis f r
                   in if obfuscationEnabled then verify_obfuscated topoName vis f r else r))))"

definition verifyModule ::
  "(Visibility \<Rightarrow> string) \<Rightarrow> ir_module \<Rightarrow> pass_mapping \<Rightarrow> VisibilityEntry list \<Rightarrow> bool \<Rightarrow> PostTransformResult" where
  "verifyModule visibilityName m pm visEntries obfuscationEnabled =
     (let expectedVisibility = fold (\<lambda>e. AList.update (ve_qualifiedName e) (ve_visibility e)) visEntries [];
          r = fold (verify_function visibilityName m expectedVisibility obfuscationEnabled) (pm_matched pm) no_findings
      in fold (\<lambda>unmapped. add_diagnostic CheckWarning ''post-transform-existence''
            (''function '' @ in_quotes unmapped
             @ '' declared in .topo but not found in transformed IR (may have been inlined or dead-code eliminated)''))
           (pm_unmatchedTopo pm) r)"

text \<open>\<open>std::filesystem::path::extension\<close>: from the last dot of the file name, which is not its first character.\<close>

definition path_filename :: "string \<Rightarrow> string" where
  "path_filename p = rev (takeWhile (\<lambda>c. c \<noteq> CHR ''/'') (rev p))"

definition path_extension :: "string \<Rightarrow> string" where
  "path_extension p =
     (let n = path_filename p
      in if n = ''.'' \<or> n = ''..'' then []
         else (case str_rfind ''.'' n of None \<Rightarrow> [] | Some i \<Rightarrow> if i = 0 then [] else substr_from n i))"

definition single_diagnostic :: "check_severity \<Rightarrow> string \<Rightarrow> PostTransformResult" where
  "single_diagnostic sev msg = add_diagnostic sev ''post-transform'' msg no_findings"

definition verify_artifact ::
  "(Visibility \<Rightarrow> string) \<Rightarrow> (string \<Rightarrow> string) \<Rightarrow> (string \<Rightarrow> string option) \<Rightarrow> (string \<Rightarrow> string list) \<Rightarrow>
   (string \<Rightarrow> bytes option) \<Rightarrow> (bytes \<Rightarrow> ir_module option) \<Rightarrow> VisibilityEntry list \<Rightarrow> string \<Rightarrow> PostTransformResult" where
  "verify_artifact visibilityName dm ms list_dir read_file parse_bitcode visEntries artifactDir =
     (case find (\<lambda>p. path_extension p = ''.bc'' \<or> path_extension p = ''.ll'') (list_dir artifactDir) of
        None \<Rightarrow> single_diagnostic CheckWarning
          (''no bitcode file found in '' @ artifactDir @ '' -- skipping post-transform verification'')
      | Some bcPath \<Rightarrow>
          (case read_file bcPath of
             None \<Rightarrow> single_diagnostic CheckError (''failed to read bitcode: '' @ bcPath)
           | Some buf \<Rightarrow>
               (case parse_bitcode buf of
                  None \<Rightarrow> single_diagnostic CheckError (''failed to parse bitcode: '' @ bcPath)
                | Some m \<Rightarrow> verifyModule visibilityName m (mapping_of dm ms m visEntries) visEntries False)))"

section \<open>Lemmas\<close>

subsection \<open>The linkage a function ends with\<close>

definition linkage_of :: "ir_module \<Rightarrow> nat \<Rightarrow> ll_linkage option" where
  "linkage_of m j = map_option if_linkage (find_fn m j)"

lemma keeps_id_actions [simp]:
  "keeps_id (action_linkage a c)" "keeps_id (action_params a)"
  "keeps_id (\<lambda>f. f\<lparr>if_linkage := l\<rparr>)"
  by (simp_all add: keeps_id_def action_linkage_def action_params_def Let_def split: prod.split)

lemma if_linkage_actions [simp]:
  "if_linkage (action_linkage a c f) = (if va_internalLinkage a then InternalLinkage else if_linkage f)"
  "if_linkage (action_params a f) = if_linkage f"
  by (simp_all add: action_linkage_def action_params_def Let_def split: prod.split)

lemma if_name_actions [simp]:
  "if_name (action_linkage a c f) = if_name f" "if_name (action_params a f) = if_name f"
  "if_declaration (action_linkage a c f) = if_declaration f" "if_declaration (action_params a f) = if_declaration f"
  by (simp_all add: action_linkage_def action_params_def Let_def split: prod.split)

lemma find_fn_map:
  assumes "keeps_id g"
  shows "find_fn (m\<lparr>im_functions := map g (im_functions m)\<rparr>) j = map_option g (find_fn m j)"
proof -
  have "find (\<lambda>f. if_id f = j) (map g fs) = map_option g (find (\<lambda>f. if_id f = j) fs)" for fs
    using assms by (induction fs) (auto simp: keeps_id_def)
  then show ?thesis by (simp add: find_fn_def)
qed

lemma linkage_stripO0 [simp]: "linkage_of (stripO0Blockers m) j = linkage_of m j"
  unfolding stripO0Blockers_def linkage_of_def
  by (subst find_fn_map) (auto simp: keeps_id_def option.map_comp o_def intro: option.map_cong0)

lemma linkage_upd:
  "keeps_id g \<Longrightarrow> (\<And>f. if_linkage (g f) = h (if_linkage f)) \<Longrightarrow>
   linkage_of (upd_fn i g m) j = (if j = i then map_option h (linkage_of m j) else linkage_of m j)"
  by (simp add: linkage_of_def find_fn_upd option.map_comp o_def)

lemma linkage_setName [simp]: "linkage_of (setName uniq i n m) j = linkage_of m j"
  unfolding setName_def by (subst linkage_upd [where h = "\<lambda>l. l"]) (auto simp: option.map_ident)

lemma linkage_applyAction:
  "linkage_of (applyAction uniq i a c m) j =
     (if j = i \<and> va_internalLinkage a then map_option (\<lambda>_. InternalLinkage) (linkage_of m j) else linkage_of m j)"
proof -
  let ?m1 = "upd_fn i (action_linkage a c) m"
  have 1: "linkage_of ?m1 j =
      (if j = i \<and> va_internalLinkage a then map_option (\<lambda>_. InternalLinkage) (linkage_of m j) else linkage_of m j)"
    by (cases "va_internalLinkage a")
       (simp_all add: linkage_of_def find_fn_upd option.map_comp o_def)
  have 2: "linkage_of (upd_fn i (action_params a) m') j = linkage_of m' j" for m'
    by (simp add: linkage_of_def find_fn_upd option.map_comp o_def)
  have 3: "linkage_of (if b then case find_fn ?m1 i of None \<Rightarrow> ?m1
      | Some f \<Rightarrow> setName uniq i (''__topo_internal_'' @ if_name f) ?m1 else ?m1) j = linkage_of ?m1 j" for b
    by (simp split: option.split)
  show ?thesis
    unfolding applyAction_def Let_def 2 3 by (rule 1)
qed

text \<open>An entry of the list that asks for internal linkage of the function \<open>j\<close>.\<close>

definition wants_internal :: "pass_mapping \<Rightarrow> (VisibilityEntry \<times> VisibilityAction) list \<Rightarrow> nat \<Rightarrow> bool" where
  "wants_internal pm es j \<longleftrightarrow>
     (\<exists>(entry, action)\<in>set es. map_of (pm_matched pm) (ve_qualifiedName entry) = Some j \<and> va_internalLinkage action)"

lemma linkage_apply_fold:
  "linkage_of (fst (fold (apply_entry uniq pm c) es (m, st))) j =
     (if wants_internal pm es j then map_option (\<lambda>_. InternalLinkage) (linkage_of m j) else linkage_of m j)"
proof (induction es arbitrary: m st)
  case Nil
  then show ?case by (simp add: wants_internal_def)
next
  case (Cons e es)
  obtain entry action where e: "e = (entry, action)" by (cases e)
  obtain m' st' where a: "apply_entry uniq pm c e (m, st) = (m', st')" by fastforce
  have l: "linkage_of m' j =
      (if map_of (pm_matched pm) (ve_qualifiedName entry) = Some j \<and> va_internalLinkage action
       then map_option (\<lambda>_. InternalLinkage) (linkage_of m j) else linkage_of m j)"
    using a by (auto simp: apply_entry_def e linkage_applyAction split: option.splits)
  have w: "wants_internal pm (e # es) j \<longleftrightarrow>
      (map_of (pm_matched pm) (ve_qualifiedName entry) = Some j \<and> va_internalLinkage action) \<or> wants_internal pm es j"
    by (auto simp: wants_internal_def e)
  show ?case
    by (simp only: fold_simps o_apply a Cons.IH l w)
       (simp add: option.map_comp o_def)
qed

lemma linkage_apply_actions:
  "apply_actions uniq m pm entries actions = Some (m', st) \<Longrightarrow>
   linkage_of m' j =
     (if wants_internal pm (zip entries actions) j then map_option (\<lambda>_. InternalLinkage) (linkage_of m j)
      else linkage_of m j)"
  using linkage_apply_fold [of uniq pm "isCOFFTarget m" "zip entries actions" "stripO0Blockers m"]
  by (auto simp: apply_actions_def Let_def split: if_splits dest!: arg_cong [where f = fst])

lemma linkage_demote:
  "linkage_of (fst (demote cs (m, rep))) j =
     (if j \<in> fst ` set cs then map_option (\<lambda>_. InternalLinkage) (linkage_of m j) else linkage_of m j)"
proof (induction cs "(m, rep)" arbitrary: m rep rule: demote.induct)
  case (2 i name cs m rep)
  show ?case
  proof (cases "find_fn m i")
    case None
    with 2(1) [OF None] show ?thesis by (auto simp: linkage_of_def)
  next
    case (Some f)
    show ?thesis
    proof (cases "if_linkage f = InternalLinkage")
      case True
      with 2(3) [OF Some] Some show ?thesis by (auto simp: linkage_of_def)
    next
      case False
      with 2(2) [OF Some False] Some show ?thesis
        by (auto simp: linkage_upd [where h = "\<lambda>_. InternalLinkage"] option.map_comp o_def)
    qed
  qed
qed simp

lemma flatten_candidates_keys:
  "i \<in> fst ` set (flatten_candidates mode entries pm) \<longleftrightarrow>
     (\<exists>e\<in>set entries. flatten_eligible mode (ve_visibility e) \<and> map_of (pm_matched pm) (ve_qualifiedName e) = Some i)"
proof -
  have "i \<in> fst ` set (fold (\<lambda>entry candidates.
        if \<not> flatten_eligible mode (ve_visibility entry) then candidates
        else (case map_of (pm_matched pm) (ve_qualifiedName entry) of
                None \<Rightarrow> candidates
              | Some i \<Rightarrow> AList.update i (ve_qualifiedName entry) candidates)) entries cs) \<longleftrightarrow>
     i \<in> fst ` set cs \<or>
     (\<exists>e\<in>set entries. flatten_eligible mode (ve_visibility e) \<and> map_of (pm_matched pm) (ve_qualifiedName e) = Some i)"
    for cs
    by (induction entries arbitrary: cs) (auto simp: dom_update split: option.splits)
  from this [of "[]"] show ?thesis by (simp add: flatten_candidates_def)
qed

lemma linkage_flatten:
  "linkage_of (fst (flatten_run m entries pm mode)) j =
     (if \<exists>e\<in>set entries. flatten_eligible mode (ve_visibility e) \<and> map_of (pm_matched pm) (ve_qualifiedName e) = Some j
      then map_option (\<lambda>_. InternalLinkage) (linkage_of m j) else linkage_of m j)"
  by (simp add: flatten_run_def linkage_demote flatten_candidates_keys)

lemma linkage_obfuscate_entry:
  "linkage_of (fst (obfuscate_entry sh uniq pm V mode salt e (m, r))) j = linkage_of m j"
  by (simp add: obfuscate_entry_def Let_def split: option.split)

lemma linkage_obfuscate: "linkage_of (fst (obfuscate sh uniq m entries pm mode salt)) j = linkage_of m j"
proof -
  have "linkage_of (fst (fold (obfuscate_entry sh uniq pm V mode salt) es (m, r))) j = linkage_of m j" for es V r
  proof (induction es arbitrary: m r)
    case (Cons e es)
    obtain m' r' where a: "obfuscate_entry sh uniq pm V mode salt e (m, r) = (m', r')" by fastforce
    with linkage_obfuscate_entry [of sh uniq pm V mode salt e m r j] show ?case by (simp add: Cons.IH)
  qed simp
  then show ?thesis by (simp add: obfuscate_def)
qed

subsection \<open>What the check counts\<close>

definition linkage_mismatch :: "ir_module \<Rightarrow> (string \<times> Visibility) list \<Rightarrow> string \<times> nat \<Rightarrow> bool" where
  "linkage_mismatch m ev e \<longleftrightarrow>
     (case (linkage_of m (snd e), map_of ev (fst e)) of
        (Some l, Some v) \<Rightarrow> \<not> linkage_matches v l | _ \<Rightarrow> False)"

lemma visibilityMismatch_simps [simp]:
  "visibilityMismatch (add_diagnostic s k g r) = visibilityMismatch r"
  "obfuscationMismatch (add_diagnostic s k g r) = obfuscationMismatch r"
  by (simp_all add: add_diagnostic_def)

lemma verify_function_mismatch:
  "visibilityMismatch (verify_function vn m ev ob e r) =
     visibilityMismatch r + of_bool (linkage_mismatch m ev e)"
  by (auto simp: verify_function_def verify_linkage_def verify_obfuscated_def linkage_mismatch_def linkage_of_def
      Let_def split: prod.split option.split)

definition expected_visibility :: "VisibilityEntry list \<Rightarrow> (string \<times> Visibility) list" where
  "expected_visibility es = fold (\<lambda>e. AList.update (ve_qualifiedName e) (ve_visibility e)) es []"

lemma fold_diagnostics [simp]:
  "visibilityMismatch (fold (\<lambda>u. add_diagnostic s k (g u)) us r) = visibilityMismatch r"
  "obfuscationMismatch (fold (\<lambda>u. add_diagnostic s k (g u)) us r) = obfuscationMismatch r"
  by (induction us arbitrary: r) simp_all

lemma verifyModule_mismatch:
  "visibilityMismatch (verifyModule vn m pm es ob) =
     length (filter (linkage_mismatch m (expected_visibility es)) (pm_matched pm))"
proof -
  have "visibilityMismatch (fold (verify_function vn m ev ob) xs r) =
      visibilityMismatch r + length (filter (linkage_mismatch m ev) xs)" for ev xs r
    by (induction xs arbitrary: r) (simp_all add: verify_function_mismatch)
  then show ?thesis by (simp add: verifyModule_def Let_def expected_visibility_def no_findings_def)
qed

lemma map_of_expected:
  "distinct (map ve_qualifiedName es) \<Longrightarrow>
   map_of (expected_visibility es) q = Some v \<longleftrightarrow> (\<exists>e\<in>set es. ve_qualifiedName e = q \<and> ve_visibility e = v)"
proof -
  have "distinct (map ve_qualifiedName es) \<Longrightarrow>
     map_of (fold (\<lambda>e. AList.update (ve_qualifiedName e) (ve_visibility e)) es ev) q =
       (case find (\<lambda>e. ve_qualifiedName e = q) es of Some e \<Rightarrow> Some (ve_visibility e) | None \<Rightarrow> map_of ev q)" for ev
  proof (induction es arbitrary: ev)
    case (Cons e es)
    have "find (\<lambda>e. ve_qualifiedName e = q) es = None" if "ve_qualifiedName e = q"
      using Cons.prems that by (auto simp: find_key_None)
    with Cons show ?case by (auto simp: amap_simps split: option.split)
  qed simp
  note m = this [of "[]"]
  assume d: "distinct (map ve_qualifiedName es)"
  have "(\<exists>e\<in>set es. ve_qualifiedName e = q \<and> ve_visibility e = v) \<longleftrightarrow>
     (\<exists>e. find (\<lambda>e. ve_qualifiedName e = q) es = Some e \<and> ve_visibility e = v)"
    unfolding find_key [OF d] by blast
  then show "map_of (expected_visibility es) q = Some v \<longleftrightarrow>
     (\<exists>e\<in>set es. ve_qualifiedName e = q \<and> ve_visibility e = v)"
    by (simp add: expected_visibility_def m [OF d] split: option.splits)
qed

subsection \<open>Names after obfuscation\<close>

text \<open>The entry renames the function \<open>i\<close> of the module: not public, matched, with a body.\<close>

definition renames :: "pass_mapping \<Rightarrow> ir_module \<Rightarrow> VisibilityEntry \<Rightarrow> nat \<Rightarrow> bool" where
  "renames pm m e i \<longleftrightarrow>
     ve_visibility e \<noteq> Public \<and> map_of (pm_matched pm) (ve_qualifiedName e) = Some i \<and>
     (\<exists>f. find_fn m i = Some f \<and> \<not> if_declaration f)"

text \<open>No two entries name one function, and the new names are new and different.\<close>

definition targets_distinct :: "pass_mapping \<Rightarrow> VisibilityEntry list \<Rightarrow> bool" where
  "targets_distinct pm es \<longleftrightarrow>
     distinct (map ve_qualifiedName es) \<and> distinct (map snd (pm_matched pm)) \<and> distinct (map fst (pm_matched pm))"

definition names_fresh :: "(VisibilityEntry \<Rightarrow> string) \<Rightarrow> ir_module \<Rightarrow> VisibilityEntry list \<Rightarrow> bool" where
  "names_fresh obf m es \<longleftrightarrow>
     distinct (map obf es) \<and>
     (\<forall>e\<in>set es. obf e \<notin> if_name ` set (im_functions m) \<union> set (im_globals m))"

lemma matched_inj:
  assumes "targets_distinct pm es" and "map_of (pm_matched pm) p = Some i" and "map_of (pm_matched pm) q = Some i"
  shows "p = q"
proof -
  have "inj_on snd (set (pm_matched pm))"
    using assms(1) by (simp add: targets_distinct_def distinct_map)
  from inj_onD [OF this] map_of_SomeD [OF assms(2)] map_of_SomeD [OF assms(3)] show ?thesis by fastforce
qed

definition obf_inv ::
  "(VisibilityEntry \<Rightarrow> string) \<Rightarrow> pass_mapping \<Rightarrow> ir_module \<Rightarrow> VisibilityEntry list \<Rightarrow>
   ir_module \<times> ObfuscationResult \<Rightarrow> bool" where
  "obf_inv obf pm m es acc \<longleftrightarrow>
     (\<forall>e\<in>set es. \<forall>i. renames pm m e i \<longrightarrow>
        find_fn (fst acc) i = map_option (\<lambda>f. f\<lparr>if_name := obf e\<rparr>) (find_fn m i)) \<and>
     (\<forall>i. (\<forall>e\<in>set es. \<not> renames pm m e i) \<longrightarrow> find_fn (fst acc) i = find_fn m i) \<and>
     if_name ` set (im_functions (fst acc)) \<subseteq> if_name ` set (im_functions m) \<union> obf ` set es \<and>
     im_globals (fst acc) = im_globals m \<and>
     (\<forall>q n. map_of (protectedMapping (snd acc)) q = Some n \<longleftrightarrow>
        (\<exists>e\<in>set es. \<exists>i. ve_visibility e = Protected \<and> renames pm m e i \<and> q = ve_qualifiedName e \<and> n = obf e)) \<and>
     renamedCount (snd acc) = length (filter (\<lambda>e. \<exists>i. renames pm m e i) es)"

lemma taken_names_subset: "taken_names m i \<subseteq> if_name ` set (im_functions m) \<union> set (im_globals m)"
  by (auto simp: taken_names_def)

lemma if_name_setName:
  "if_name ` set (im_functions (setName uniq i n m)) \<subseteq> insert (fresh_name uniq m i n) (if_name ` set (im_functions m))"
  by (auto simp: setName_def upd_fn_def)

lemma obfuscate_entry_skip:
  assumes "\<And>i. \<not> renames pm m e i" and "i_ok = if_id ` set (im_functions m)"
    and "\<And>i. map_option if_declaration (find_fn m' i) = map_option if_declaration (find_fn m i)"
  shows "obfuscate_entry sh uniq pm i_ok mode salt e (m', r) = (m', r)"
proof (cases "map_of (pm_matched pm) (ve_qualifiedName e)")
  case (Some i)
  show ?thesis
  proof (cases "find_fn m' i")
    case f: (Some f)
    with assms(3) [of i] obtain g where "find_fn m i = Some g" "if_declaration g = if_declaration f"
      by (cases "find_fn m i") auto
    with assms(1) [of i] Some f show ?thesis by (auto simp: obfuscate_entry_def renames_def)
  qed (simp add: obfuscate_entry_def Some)
qed (simp add: obfuscate_entry_def)

lemma obfuscate_entry_step:
  assumes "renames pm m e i" and "i_ok = if_id ` set (im_functions m)"
    and "find_fn m' i = find_fn m i"
  shows "obfuscate_entry sh uniq pm i_ok mode salt e (m', r) =
     (let n = obfuscated_name sh mode salt (ve_qualifiedName e);
          r' = r\<lparr>renamedCount := renamedCount r + 1\<rparr>
      in (setName uniq i n m',
          if ve_visibility e = Protected
          then r'\<lparr>protectedMapping := AList.update (ve_qualifiedName e) n (protectedMapping r')\<rparr> else r'))"
proof -
  from assms(1) obtain f where "find_fn m i = Some f" "\<not> if_declaration f" by (auto simp: renames_def)
  moreover from find_fn_Some [OF this(1)] have "i \<in> i_ok" by (auto simp: assms(2))
  ultimately show ?thesis
    using assms(1,3) by (simp add: obfuscate_entry_def renames_def Let_def)
qed

lemma obf_inv_find:
  assumes "obf_inv obf pm m es acc"
  shows "map_option if_declaration (find_fn (fst acc) i) = map_option if_declaration (find_fn m i)"
proof (cases "\<exists>e\<in>set es. renames pm m e i")
  case True
  with assms show ?thesis by (auto simp: obf_inv_def option.map_comp o_def)
next
  case False
  with assms show ?thesis by (auto simp: obf_inv_def)
qed

lemma if_or_split: "(B \<Longrightarrow> \<not> E) \<Longrightarrow> (if A \<and> B then C else E) \<longleftrightarrow> (A \<and> B \<and> C) \<or> E"
  by auto

lemma not_in_extension: "x \<notin> A \<union> G \<Longrightarrow> x \<notin> B \<Longrightarrow> S \<subseteq> A \<union> B \<Longrightarrow> x \<notin> S \<union> G"
  by blast

lemma obf_inv_fold:
  assumes obf: "obf = (\<lambda>e. obfuscated_name sh mode salt (ve_qualifiedName e))"
  shows "targets_distinct pm es \<Longrightarrow> names_fresh obf m es \<Longrightarrow>
   obf_inv obf pm m es
     (fold (obfuscate_entry sh uniq pm (if_id ` set (im_functions m)) mode salt) es
       (m, \<lparr>renamedCount = 0, protectedMapping = []\<rparr>))"
proof (induction es rule: rev_induct)
  case Nil
  then show ?case by (simp add: obf_inv_def)
next
  case (snoc e es)
  let ?V = "if_id ` set (im_functions m)"
  let ?acc = "fold (obfuscate_entry sh uniq pm ?V mode salt) es (m, \<lparr>renamedCount = 0, protectedMapping = []\<rparr>)"
  obtain m' r where acc: "?acc = (m', r)" by fastforce
  have inv: "obf_inv obf pm m es (m', r)"
    using snoc.IH snoc.prems unfolding acc by (simp add: targets_distinct_def names_fresh_def)
  show ?case
  proof (cases "\<exists>i. renames pm m e i")
    case False
    with obf_inv_find [OF inv] have s: "obfuscate_entry sh uniq pm ?V mode salt e (m', r) = (m', r)"
      by (intro obfuscate_entry_skip [of pm m]) auto
    show ?thesis
      using inv False by (auto simp: acc s obf_inv_def)
  next
    case True
    then obtain i where i: "renames pm m e i" by blast
    have u: "j = i" if "renames pm m e j" for j using that i by (simp add: renames_def)
    have nq: "ve_qualifiedName e \<notin> ve_qualifiedName ` set es"
      using snoc.prems(1) by (auto simp: targets_distinct_def)
    have other: "\<not> renames pm m e' i" if "e' \<in> set es" for e'
    proof
      assume "renames pm m e' i"
      with i matched_inj [OF snoc.prems(1)] have "ve_qualifiedName e' = ve_qualifiedName e"
        by (simp add: renames_def)
      with nq that show False by (metis image_eqI)
    qed
    note I = inv [unfolded obf_inv_def fst_conv snd_conv]
    note I1 = I [THEN conjunct1]
    note I2 = I [THEN conjunct2, THEN conjunct1]
    note I3 = I [THEN conjunct2, THEN conjunct2, THEN conjunct1]
    note I4 = I [THEN conjunct2, THEN conjunct2, THEN conjunct2, THEN conjunct1]
    note I5 = I [THEN conjunct2, THEN conjunct2, THEN conjunct2, THEN conjunct2, THEN conjunct1]
    note I6 = I [THEN conjunct2, THEN conjunct2, THEN conjunct2, THEN conjunct2, THEN conjunct2]
    from I2 other have fi: "find_fn m' i = find_fn m i" by blast
    have n: "obf e \<notin> if_name ` set (im_functions m) \<union> set (im_globals m)" "obf e \<notin> obf ` set es"
      using snoc.prems(2) by (simp_all add: names_fresh_def)
    have "obf e \<notin> if_name ` set (im_functions m') \<union> set (im_globals m')"
      unfolding I4 by (rule not_in_extension [OF n I3])
    then have fresh: "fresh_name uniq m' i (obf e) = obf e"
      using taken_names_subset [of m' i] by (auto simp: fresh_name_def)
    have e: "obfuscated_name sh mode salt (ve_qualifiedName e) = obf e" by (simp add: obf)
    show ?thesis
      unfolding obf_inv_def
    proof (intro conjI)
      let ?new = "fold (obfuscate_entry sh uniq pm ?V mode salt) (es @ [e]) (m, \<lparr>renamedCount = 0, protectedMapping = []\<rparr>)"
      have new: "?new = (setName uniq i (obf e) m',
          if ve_visibility e = Protected
          then r\<lparr>renamedCount := renamedCount r + 1,
                 protectedMapping := AList.update (ve_qualifiedName e) (obf e) (protectedMapping r)\<rparr>
          else r\<lparr>renamedCount := renamedCount r + 1\<rparr>)"
        by (simp add: acc obfuscate_entry_step [OF i refl fi] e Let_def)
      show "\<forall>e'\<in>set (es @ [e]). \<forall>j. renames pm m e' j \<longrightarrow>
          find_fn (fst ?new) j = map_option (\<lambda>f. f\<lparr>if_name := obf e'\<rparr>) (find_fn m j)"
      proof (intro ballI allI impI)
        fix e' j assume e': "e' \<in> set (es @ [e])" and j: "renames pm m e' j"
        show "find_fn (fst ?new) j = map_option (\<lambda>f. f\<lparr>if_name := obf e'\<rparr>) (find_fn m j)"
        proof (cases "e' = e")
          case True
          with j u fi fresh show ?thesis unfolding new by (simp add: find_fn_setName)
        next
          case False
          with e' j other have "e' \<in> set es" "j \<noteq> i" by auto
          with I1 j show ?thesis unfolding new by (simp add: find_fn_setName)
        qed
      qed
      show "\<forall>j. (\<forall>e'\<in>set (es @ [e]). \<not> renames pm m e' j) \<longrightarrow> find_fn (fst ?new) j = find_fn m j"
      proof (intro allI impI)
        fix j assume n: "\<forall>e'\<in>set (es @ [e]). \<not> renames pm m e' j"
        with i have "j \<noteq> i" by auto
        with I2 n show "find_fn (fst ?new) j = find_fn m j" unfolding new by (simp add: find_fn_setName)
      qed
      show "if_name ` set (im_functions (fst ?new)) \<subseteq> if_name ` set (im_functions m) \<union> obf ` set (es @ [e])"
        unfolding new fst_conv
        by (rule order_trans [OF if_name_setName [of uniq i "obf e" m', unfolded fresh]])
           (rule insert_subset [THEN iffD2], rule conjI, simp, rule order_trans [OF I3], simp add: subset_insertI2)
      show "im_globals (fst ?new) = im_globals m"
        using I4 unfolding new by simp
      show "renamedCount (snd ?new) = length (filter (\<lambda>e. \<exists>i. renames pm m e i) (es @ [e]))"
        using I6 True unfolding new by simp
      note pmap = I5 [rule_format]
      have pm': "map_of (protectedMapping (snd ?new)) q = Some n \<longleftrightarrow>
          (if ve_visibility e = Protected \<and> q = ve_qualifiedName e then n = obf e
           else map_of (protectedMapping r) q = Some n)" for q n
        unfolding new by (auto simp: amap_simps)
      show "\<forall>q n. map_of (protectedMapping (snd ?new)) q = Some n \<longleftrightarrow>
          (\<exists>e\<in>set (es @ [e]). \<exists>i. ve_visibility e = Protected \<and> renames pm m e i \<and> q = ve_qualifiedName e \<and> n = obf e)"
      proof (intro allI)
        fix q n
        let ?P = "\<lambda>e'. \<exists>j. ve_visibility e' = Protected \<and> renames pm m e' j \<and> q = ve_qualifiedName e' \<and> n = obf e'"
        have Pe: "?P e \<longleftrightarrow> ve_visibility e = Protected \<and> q = ve_qualifiedName e \<and> n = obf e" using i by blast
        have no: "\<not> (\<exists>e'\<in>set es. ?P e')" if "q = ve_qualifiedName e" using nq that by (metis image_eqI)
        have "map_of (protectedMapping (snd ?new)) q = Some n \<longleftrightarrow> ?P e \<or> (\<exists>e'\<in>set es. ?P e')"
          unfolding pm' pmap Pe by (rule if_or_split) (rule no)
        then show "map_of (protectedMapping (snd ?new)) q = Some n \<longleftrightarrow> (\<exists>e'\<in>set (es @ [e]). ?P e')"
          by simp
      qed
    qed
  qed
qed

subsection \<open>Names that count as obfuscated\<close>

lemma length_obfuscated_name:
  assumes "\<And>msg key. length (siphash msg key) = 16"
  shows "length (obfuscated_name siphash mode salt q) = 35"
proof -
  have "length (concat (map hex_byte bs)) = 2 * length bs" for bs
    by (induction bs) (simp_all add: hex_byte_def)
  then show ?thesis
    by (simp add: obfuscated_name_def obfuscation_prefix_def computeHash_def assms)
qed

lemma obfuscationMismatch_verify_function:
  assumes "\<And>f v. find_fn m (snd e) = Some f \<Longrightarrow> map_of ev (fst e) = Some v \<Longrightarrow> v = Private \<or> v = Internal \<Longrightarrow>
     nameIsObfuscated (if_name f)"
  shows "obfuscationMismatch (verify_function vn m ev ob e r) = obfuscationMismatch r"
  using assms
  by (auto simp: verify_function_def verify_linkage_def verify_obfuscated_def Let_def
      split: prod.split option.split)

lemma obfuscationMismatch_verifyModule:
  assumes "\<And>e f v. e \<in> set (pm_matched pm) \<Longrightarrow> find_fn m (snd e) = Some f \<Longrightarrow>
     map_of (expected_visibility es) (fst e) = Some v \<Longrightarrow> v = Private \<or> v = Internal \<Longrightarrow> nameIsObfuscated (if_name f)"
  shows "obfuscationMismatch (verifyModule vn m pm es ob) = 0"
proof -
  have "set xs \<subseteq> set (pm_matched pm) \<Longrightarrow>
     obfuscationMismatch (fold (verify_function vn m (expected_visibility es) ob) xs r) = obfuscationMismatch r" for xs r
  proof (induction xs arbitrary: r)
    case (Cons x xs)
    then have x: "x \<in> set (pm_matched pm)" by simp
    show ?case
      using Cons obfuscationMismatch_verify_function [OF assms [OF x]] by simp
  qed simp
  then show ?thesis
    by (simp add: verifyModule_def Let_def expected_visibility_def [symmetric] no_findings_def)
qed

lemma map_of_matched:
  assumes "targets_distinct pm es" and "(q, i) \<in> set (pm_matched pm)"
  shows "map_of (pm_matched pm) q = Some i"
  using assms by (simp add: targets_distinct_def)

text \<open>Names stay unique whatever the hashes are: a name that is taken is made unique by the module.\<close>

lemma map_name_upd:
  "map if_name (map (\<lambda>f. if if_id f = i then f\<lparr>if_name := n\<rparr> else f) fs) =
     map (\<lambda>f. if if_id f = i then n else if_name f) fs"
  by (induction fs) auto

lemma names_ok_setName:
  assumes "ids_ok m" and "names_ok m" and "\<And>N n. finite N \<Longrightarrow> uniq N n \<notin> N"
  shows "names_ok (setName uniq i n m)"
proof -
  have fin: "finite (taken_names m i)" by (simp add: taken_names_def)
  let ?n = "fresh_name uniq m i n"
  have new: "?n \<notin> taken_names m i" using assms(3) [OF fin] by (simp add: fresh_name_def)
  have "distinct (map (\<lambda>f. if if_id f = i then ?n else if_name f) fs)"
    if "distinct (map if_id fs)" "distinct (map if_name fs)" "\<forall>f\<in>set fs. if_id f \<noteq> i \<longrightarrow> if_name f \<noteq> ?n" for fs
    using that
  proof (induction fs)
    case (Cons f fs)
    then have "distinct (map (\<lambda>f. if if_id f = i then ?n else if_name f) fs)" by simp
    moreover have "(if if_id f = i then ?n else if_name f) \<notin> (\<lambda>f. if if_id f = i then ?n else if_name f) ` set fs"
    proof
      assume "(if if_id f = i then ?n else if_name f) \<in> (\<lambda>f. if if_id f = i then ?n else if_name f) ` set fs"
      then obtain g where g: "g \<in> set fs" "(if if_id f = i then ?n else if_name f) = (if if_id g = i then ?n else if_name g)"
        by auto
      from imageI [OF g(1), of if_id] imageI [OF g(1), of if_name] Cons.prems(1,2)
      have "if_id g \<noteq> if_id f" "if_name g \<noteq> if_name f" by auto
      with g Cons.prems(3) show False by (auto split: if_splits)
    qed
    ultimately show ?case by simp
  qed simp
  moreover have "\<forall>f\<in>set (im_functions m). if_id f \<noteq> i \<longrightarrow> if_name f \<noteq> ?n" "?n \<notin> set (im_globals m)"
    using new unfolding taken_names_def by (metis (mono_tags, lifting) UnI1 imageI mem_Collect_eq, blast)
  ultimately show ?thesis
    using assms(1,2)
    by (auto simp: names_ok_def ids_ok_def setName_def upd_fn_def map_name_upd comp_def
        simp del: map_map split: if_splits)
qed

lemma obfuscate_names_ok:
  assumes "ids_ok m" and "names_ok m" and "\<And>N n. finite N \<Longrightarrow> uniq N n \<notin> N"
  shows "names_ok (fst (obfuscate siphash uniq m es pm mode salt))"
proof -
  have "ids_ok (fst acc) \<and> names_ok (fst acc) \<Longrightarrow>
      ids_ok (fst (fold (obfuscate_entry siphash uniq pm V mode salt) es acc)) \<and>
      names_ok (fst (fold (obfuscate_entry siphash uniq pm V mode salt) es acc))" for V acc
  proof (induction es arbitrary: acc)
    case (Cons e es)
    have "ids_ok (fst (obfuscate_entry siphash uniq pm V mode salt e acc)) \<and>
        names_ok (fst (obfuscate_entry siphash uniq pm V mode salt e acc))"
      using Cons.prems names_ok_setName [where uniq = uniq, OF _ _ assms(3)]
      by (auto simp: obfuscate_entry_def Let_def split: prod.splits option.splits)
    from Cons.IH [OF this] show ?case by simp
  qed simp
  from this [of "(m, _)"] assms(1,2) show ?thesis by (simp add: obfuscate_def)
qed

section \<open>What the passes and the check guarantee\<close>

text \<open>C21. Obfuscation over entries that name different functions, with hashes that are different and
not yet names of the module: every matched function with a body that is not public gets its hash as name and
nothing else changes, the count is right, the mapping handed on for protected functions holds
exactly the names they now have, the post-transform check finds no private or internal name left
when those functions have bodies, and a module whose names are unique keeps unique names, which
\<open>obfuscate_names_ok\<close> shows for colliding hashes too.\<close>

theorem obfuscation_renames:
  fixes siphash mode salt
  defines "obf \<equiv> \<lambda>e. obfuscated_name siphash mode salt (ve_qualifiedName e)"
  assumes "targets_distinct pm es" and "names_fresh obf m es"
    and "\<And>msg key. length (siphash msg key) = 16"
    and "obfuscate siphash uniq m es pm mode salt = (m', r)"
  shows "(\<forall>e\<in>set es. \<forall>i. renames pm m e i \<longrightarrow>
        find_fn m' i = map_option (\<lambda>f. f\<lparr>if_name := obf e\<rparr>) (find_fn m i)) \<and>
     (\<forall>i. (\<forall>e\<in>set es. \<not> renames pm m e i) \<longrightarrow> find_fn m' i = find_fn m i) \<and>
     renamedCount r = length (filter (\<lambda>e. \<exists>i. renames pm m e i) es) \<and>
     (\<forall>q n. map_of (protectedMapping r) q = Some n \<longleftrightarrow>
        (\<exists>e\<in>set es. \<exists>i. ve_visibility e = Protected \<and> renames pm m e i \<and> q = ve_qualifiedName e \<and> n = obf e)) \<and>
     ((\<forall>e\<in>set es. \<forall>i f. (ve_visibility e = Private \<or> ve_visibility e = Internal) \<and>
          map_of (pm_matched pm) (ve_qualifiedName e) = Some i \<and> find_fn m i = Some f \<longrightarrow> \<not> if_declaration f) \<longrightarrow>
        obfuscationMismatch (verifyModule vn m' pm es True) = 0) \<and>
     (ids_ok m \<and> names_ok m \<and> (\<forall>N n. finite N \<longrightarrow> uniq N n \<notin> N) \<longrightarrow> names_ok m')"
proof -
  have N: "names_ok m'" if "ids_ok m" "names_ok m" "\<forall>N n. finite N \<longrightarrow> uniq N n \<notin> N"
    using obfuscate_names_ok [of m uniq siphash es pm mode salt] that assms(5) by simp
  have I: "obf_inv obf pm m es (m', r)"
    using obf_inv_fold [OF assms(1) [THEN meta_eq_to_obj_eq] assms(2,3), of uniq] assms(5)
    by (simp add: obfuscate_def)
  have "obfuscationMismatch (verifyModule vn m' pm es True) = 0"
    if body: "\<forall>e\<in>set es. \<forall>i f. (ve_visibility e = Private \<or> ve_visibility e = Internal) \<and>
          map_of (pm_matched pm) (ve_qualifiedName e) = Some i \<and> find_fn m i = Some f \<longrightarrow> \<not> if_declaration f"
  proof (rule obfuscationMismatch_verifyModule)
    fix x f v
    assume x: "x \<in> set (pm_matched pm)" "find_fn m' (snd x) = Some f"
      "map_of (expected_visibility es) (fst x) = Some v" "v = Private \<or> v = Internal"
    have d: "distinct (map ve_qualifiedName es)" using assms(2) by (simp add: targets_distinct_def)
    obtain e where e: "e \<in> set es" "ve_qualifiedName e = fst x" "ve_visibility e = v"
      using x(3) by (auto simp: map_of_expected [OF d])
    have q: "map_of (pm_matched pm) (ve_qualifiedName e) = Some (snd x)"
      using map_of_matched [OF assms(2)] x(1) e(2) by simp
    obtain f0 where f0: "find_fn m (snd x) = Some f0"
      using obf_inv_find [OF I, of "snd x"] x(2) by (cases "find_fn m (snd x)") auto
    have "renames pm m e (snd x)"
      using body e q f0 x(4) by (auto simp: renames_def)
    with I e(1) have "find_fn m' (snd x) = map_option (\<lambda>f. f\<lparr>if_name := obf e\<rparr>) (find_fn m (snd x))"
      by (simp add: obf_inv_def)
    with x(2) f0 have "if_name f = obf e" by auto
    then show "nameIsObfuscated (if_name f)"
      by (simp add: nameIsObfuscated_def assms(1) length_obfuscated_name [OF assms(4)])
  qed
  with I N show ?thesis by (simp add: obf_inv_def)
qed

definition example_fn :: "nat \<Rightarrow> string \<Rightarrow> ll_linkage \<Rightarrow> ir_function" where
  "example_fn i n l =
     \<lparr>if_id = i, if_name = n, if_declaration = False, if_linkage = l, if_visibility = DefaultVisibility,
      if_dllexport = False, if_dso_local = False, if_attrs = {OptimizeNone}, if_subprogram = True,
      if_only_reads = False, if_readonly_args = [], if_metadata = {}, if_section = [], if_calls = []\<rparr>"

definition example_entry :: "string \<Rightarrow> Visibility \<Rightarrow> VisibilityEntry" where
  "example_entry q v = \<lparr>ve_qualifiedName = q, ve_visibility = v, ve_bindingTarget = None, ve_paramConsts = []\<rparr>"

definition example_module :: ir_module where
  "example_module = \<lparr>im_triple = ''x86_64-linux'', im_functions =
     [example_fn 0 ''_open'' ExternalLinkage, example_fn 1 ''_step'' ExternalLinkage], im_globals = []\<rparr>"

definition example_mapping :: pass_mapping where
  "example_mapping = \<lparr>pm_matched = [(''m::open'', 0), (''m::step'', 1)], pm_unmatchedTopo = []\<rparr>"

definition example_entries :: "VisibilityEntry list" where
  "example_entries = [example_entry ''m::open'' Public, example_entry ''m::step'' Private]"

text \<open>A hash that keeps the length and the first bytes of the message.\<close>

definition example_hash :: "bytes \<Rightarrow> bytes \<Rightarrow> bytes" where
  "example_hash msg key = take 16 (rev msg @ replicate 16 0)"

theorem obfuscation_renames_witness:
  "find_fn (fst (obfuscate example_hash (\<lambda>_ n. n) example_module example_entries example_mapping Normal [])) 1 =
     Some (example_fn 1 (obfuscated_name example_hash Normal [] ''m::step'') ExternalLinkage)"
proof -
  obtain m' r where o: "obfuscate example_hash (\<lambda>_ n. n) example_module example_entries example_mapping Normal [] = (m', r)"
    by fastforce
  have t: "targets_distinct example_mapping example_entries"
    by (simp add: targets_distinct_def example_mapping_def example_entries_def example_entry_def)
  have n: "names_fresh (\<lambda>e. obfuscated_name example_hash Normal [] (ve_qualifiedName e)) example_module example_entries"
    unfolding names_fresh_def by code_simp
  have h: "length (example_hash msg key) = 16" for msg key
    by (simp add: example_hash_def)
  have "renames example_mapping example_module (example_entry ''m::step'' Private) 1"
    by (simp add: renames_def example_mapping_def example_entry_def example_module_def find_fn_def example_fn_def)
  moreover have "example_entry ''m::step'' Private \<in> set example_entries" by (simp add: example_entries_def)
  ultimately have "find_fn m' 1 =
      map_option (\<lambda>f. f\<lparr>if_name := obfuscated_name example_hash Normal []
        (ve_qualifiedName (example_entry ''m::step'' Private))\<rparr>) (find_fn example_module 1)"
    using obfuscation_renames [OF t n h o] by blast
  moreover have "find_fn example_module 1 = Some (example_fn 1 ''_step'' ExternalLinkage)"
    by (simp add: example_module_def find_fn_def example_fn_def)
  ultimately show ?thesis
    unfolding o fst_conv by (simp add: example_fn_def example_entry_def)
qed

text \<open>C20. Applying the visibility actions, flattening and obfuscating, in this order, leaves a module the
post-transform check accepts: no function has a linkage that contradicts its declared visibility.
Required are entries and functions one to one, public functions that start with external linkage, and
a policy that asks for internal linkage for internal functions, never for public ones, and for
protected ones in the development mode (in the aggressive mode flattening does it).\<close>

theorem visibility_passes_verified:
  assumes "targets_distinct pm es" and "length actions = length es"
    and policy: "\<And>e a. (e, a) \<in> set (zip es actions) \<Longrightarrow>
        (va_internalLinkage a \<longrightarrow> ve_visibility e \<noteq> Public) \<and>
        (ve_visibility e = Internal \<or> (ve_visibility e = Protected \<and> mode = Dev) \<longrightarrow> va_internalLinkage a)"
    and public: "\<And>e i. e \<in> set es \<Longrightarrow> ve_visibility e = Public \<Longrightarrow>
        map_of (pm_matched pm) (ve_qualifiedName e) = Some i \<Longrightarrow> linkage_of m i \<in> {None, Some ExternalLinkage}"
    and run: "apply_actions uniq m pm es actions = Some (m1, stats)" "flatten_run m1 es pm mode = (m2, rep)"
      "obfuscate siphash uniq m2 es pm omode salt = (m3, r)"
  shows "visibilityMismatch (verifyModule vn m3 pm es ob) = 0"
proof -
  have d: "distinct (map ve_qualifiedName es)" using assms(1) by (simp add: targets_distinct_def)
  have "\<not> linkage_mismatch m3 (expected_visibility es) (q, i)" if x: "(q, i) \<in> set (pm_matched pm)" for q i
  proof
    assume "linkage_mismatch m3 (expected_visibility es) (q, i)"
    then obtain l v where l: "linkage_of m3 i = Some l" "map_of (expected_visibility es) q = Some v"
      "\<not> linkage_matches v l"
      by (auto simp: linkage_mismatch_def split: option.splits)
    then obtain e where e: "e \<in> set es" "ve_qualifiedName e = q" "ve_visibility e = v"
      by (auto simp: map_of_expected [OF d])
    have q: "map_of (pm_matched pm) (ve_qualifiedName e) = Some i"
      using map_of_matched [OF assms(1) x] e(2) by simp
    have unique: "e' = e" if "e' \<in> set es" "map_of (pm_matched pm) (ve_qualifiedName e') = Some i" for e'
      by (rule inj_onD [OF d [unfolded distinct_map, THEN conjunct2] matched_inj [OF assms(1) that(2) q] that(1) e(1)])
    obtain a where a: "(e, a) \<in> set (zip es actions)"
      using e(1) assms(2) by (metis in_set_impl_in_set_zip1)
    have 3: "linkage_of m3 i = linkage_of m2 i"
      using linkage_obfuscate [of siphash uniq m2 es pm omode salt i] run(3) by simp
    have 2: "linkage_of m2 i = (if flatten_eligible mode v then map_option (\<lambda>_. InternalLinkage) (linkage_of m1 i)
        else linkage_of m1 i)"
    proof -
      have "(\<exists>e'\<in>set es. flatten_eligible mode (ve_visibility e') \<and>
          map_of (pm_matched pm) (ve_qualifiedName e') = Some i) \<longleftrightarrow> flatten_eligible mode v"
      proof
        assume "\<exists>e'\<in>set es. flatten_eligible mode (ve_visibility e') \<and>
          map_of (pm_matched pm) (ve_qualifiedName e') = Some i"
        then obtain e' where e': "e' \<in> set es" "flatten_eligible mode (ve_visibility e')"
          "map_of (pm_matched pm) (ve_qualifiedName e') = Some i" by blast
        from e'(2) show "flatten_eligible mode v" unfolding unique [OF e'(1,3)] e(3) .
      next
        assume "flatten_eligible mode v"
        with e(1,3) q show "\<exists>e'\<in>set es. flatten_eligible mode (ve_visibility e') \<and>
          map_of (pm_matched pm) (ve_qualifiedName e') = Some i" by auto
      qed
      then show ?thesis
        using linkage_flatten [of m1 es pm mode i] run(2) by simp
    qed
    note 1 = linkage_apply_actions [OF run(1), of i]
    show False
    proof (cases v)
      case Public
      have "\<not> wants_internal pm (zip es actions) i"
      proof
        assume "wants_internal pm (zip es actions) i"
        then obtain e' a' where e': "(e', a') \<in> set (zip es actions)"
          "map_of (pm_matched pm) (ve_qualifiedName e') = Some i" "va_internalLinkage a'"
          by (auto simp: wants_internal_def)
        from unique [OF set_zip_leftD [OF e'(1)] e'(2)] policy [OF e'(1)] e'(3) Public e(3)
        show False by simp
      qed
      with 1 have "linkage_of m1 i = linkage_of m i" by simp
      with 2 3 Public have "linkage_of m i = Some l" using l(1) by (simp add: flatten_eligible_def)
      with public [OF e(1) _ q] e(3) Public l(3) show False by simp
    next
      case Protected
      have "linkage_of m2 i = Some InternalLinkage"
      proof (cases "mode = Aggressive")
        case True
        with 2 3 l(1) Protected show ?thesis
          by (cases "linkage_of m1 i") (auto simp: flatten_eligible_def)
      next
        case False
        then have "wants_internal pm (zip es actions) i"
          using policy [OF a] a q e(3) Protected BuildMode.exhaust [of mode]
          unfolding wants_internal_def by blast
        with 1 2 3 l(1) show ?thesis by (cases "linkage_of m i") (auto split: if_splits)
      qed
      with 3 l(1,3) Protected show False by simp
    next
      case Private
      with 2 3 l show False by (cases "linkage_of m1 i") (auto simp: flatten_eligible_def)
    next
      case Internal
      then have "wants_internal pm (zip es actions) i"
        using policy [OF a] a q e(3) unfolding wants_internal_def by blast
      with 1 2 3 l Internal show False by (cases "linkage_of m i") (auto split: if_splits)
    next
      case Ignore
      with l(3) show False by simp
    qed
  qed
  then have "filter (linkage_mismatch m3 (expected_visibility es)) (pm_matched pm) = []"
    by (auto simp: filter_empty_conv)
  then show ?thesis by (simp add: verifyModule_mismatch)
qed

definition example_actions :: "VisibilityAction list" where
  "example_actions =
     [\<lparr>va_internalLinkage = False, va_isExport = False, va_dsoLocal = True, va_inlineHint = False,
       va_alwaysInline = False, va_stripDebug = False, va_isConst = False, va_paramConsts = []\<rparr>,
      \<lparr>va_internalLinkage = True, va_isExport = False, va_dsoLocal = True, va_inlineHint = True,
       va_alwaysInline = False, va_stripDebug = False, va_isConst = False, va_paramConsts = []\<rparr>]"

theorem visibility_passes_verified_witness:
  "\<exists>m1 st m2 rep m3 r.
     apply_actions (\<lambda>_ n. n) example_module example_mapping example_entries example_actions = Some (m1, st) \<and>
     flatten_run m1 example_entries example_mapping Dev = (m2, rep) \<and>
     obfuscate example_hash (\<lambda>_ n. n) m2 example_entries example_mapping Normal [] = (m3, r) \<and>
     visibilityMismatch (verifyModule (\<lambda>_. []) m3 example_mapping example_entries True) = 0"
proof -
  obtain m1 st where 1: "apply_actions (\<lambda>_ n. n) example_module example_mapping example_entries example_actions = Some (m1, st)"
    by (cases "apply_actions (\<lambda>_ n. n) example_module example_mapping example_entries example_actions")
       (auto simp: apply_actions_def example_entries_def example_actions_def Let_def)
  obtain m2 rep where 2: "flatten_run m1 example_entries example_mapping Dev = (m2, rep)" by fastforce
  obtain m3 r where 3: "obfuscate example_hash (\<lambda>_ n. n) m2 example_entries example_mapping Normal [] = (m3, r)"
    by fastforce
  have "visibilityMismatch (verifyModule (\<lambda>_. []) m3 example_mapping example_entries True) = 0"
  proof (rule visibility_passes_verified [OF _ _ _ _ 1 2 3])
    show "targets_distinct example_mapping example_entries"
      by (simp add: targets_distinct_def example_mapping_def example_entries_def example_entry_def)
    show "length example_actions = length example_entries"
      by (simp add: example_actions_def example_entries_def)
  next
    fix e a assume "(e, a) \<in> set (zip example_entries example_actions)"
    then show "(va_internalLinkage a \<longrightarrow> ve_visibility e \<noteq> Public) \<and>
        (ve_visibility e = Internal \<or> (ve_visibility e = Protected \<and> Dev = Dev) \<longrightarrow> va_internalLinkage a)"
      by (auto simp: example_entries_def example_actions_def example_entry_def)
  next
    fix e i assume "e \<in> set example_entries" "ve_visibility e = Public"
      "map_of (pm_matched example_mapping) (ve_qualifiedName e) = Some i"
    then have "i = 0" by (auto simp: example_entries_def example_entry_def example_mapping_def split: if_splits)
    then show "linkage_of example_module i \<in> {None, Some ExternalLinkage}"
      by (simp add: linkage_of_def example_module_def find_fn_def example_fn_def)
  qed
  with 1 2 3 show ?thesis by blast
qed

section \<open>Where the passes and the check do not meet\<close>

text \<open>The key is the first sixteen bytes of the salt: two builds whose salts share them get the same names.\<close>

lemma long_salts_collide:
  assumes "take 16 salt = take 16 salt'" and "16 \<le> length salt" and "16 \<le> length salt'"
  shows "computeHash siphash q salt = computeHash siphash q salt'"
  using assms by (simp add: computeHash_def hash_key_def)

text \<open>The check takes every name of more than twenty characters as obfuscated, an ordinary mangled one too.\<close>

lemma long_name_counts_as_obfuscated:
  "nameIsObfuscated ''_ZN6engine4core4math6detail5clampEfff''"
  by (simp add: nameIsObfuscated_def)

text \<open>Two protected entries bound to one function: it is renamed twice, and the mapping handed on keeps
for the first entry a name no function has.\<close>

lemma shared_function_stale_mapping:
  defines "es \<equiv> [example_entry ''m::a'' Protected, example_entry ''m::b'' Protected]"
    and "pm \<equiv> \<lparr>pm_matched = [(''m::a'', 1), (''m::b'', 1)], pm_unmatchedTopo = []\<rparr>"
  shows "\<exists>m' r n. obfuscate example_hash (\<lambda>_ n. n) example_module es pm Normal [] = (m', r) \<and>
     map_of (protectedMapping r) ''m::a'' = Some n \<and> n \<notin> if_name ` set (im_functions m')"
proof -
  let ?o = "obfuscate example_hash (\<lambda>_ n. n) example_module es pm Normal []"
  have "(case map_of (protectedMapping (snd ?o)) ''m::a'' of
      None \<Rightarrow> False | Some n \<Rightarrow> n \<notin> set (map if_name (im_functions (fst ?o))))"
    unfolding assms by code_simp
  then show ?thesis
    by (intro exI [of _ "fst ?o"] exI [of _ "snd ?o"]) (auto split: option.splits)
qed

end
