(* ===== verification/StagePasses.thy ===== *)
theory StagePasses
  imports InlinePass VisibilityPasses
begin

text \<open>
  The passes that carry the declared stages into a module: lib/Transforms/TopoReorderPass.cpp tags the
  calls in logic blocks with their stage, lib/Transforms/TopoLayoutPass.cpp puts every staged function
  into the section of its earliest stage. The stage analysis of topo-core is a parameter. An index
  past the end of a vector, which the layout pass does not check, is the value \<open>None\<close>.
\<close>

section \<open>Stage metadata\<close>

record StageAnalysisResult =
  logicBlockFunctions :: "string list"
  calleeStageMap :: "(string \<times> int) list"

definition funcToName :: "pass_mapping \<Rightarrow> (nat \<times> string) list" where
  "funcToName pm = fold (\<lambda>(name, func). AList.update func name) (pm_matched pm) []"

text \<open>A tag is the function, the number of the call in it and the value of \<open>!topo.stage\<close>.\<close>

definition stage_of_call :: "StageAnalysisResult \<Rightarrow> (nat \<times> string) list \<Rightarrow> nat option \<Rightarrow> int option" where
  "stage_of_call an names callee =
     Option.bind callee (\<lambda>c. Option.bind (map_of names c) (map_of (calleeStageMap an)))"

definition tag_calls :: "StageAnalysisResult \<Rightarrow> (nat \<times> string) list \<Rightarrow> ir_function \<Rightarrow> (nat \<times> nat \<times> 32 word) list" where
  "tag_calls an names f =
     List.map_filter (\<lambda>(k, callee). map_option (\<lambda>stage. (if_id f, k, word_of_int stage)) (stage_of_call an names callee))
       (enumerate 0 (if_calls f))"

definition reorder_run :: "ir_module \<Rightarrow> StageAnalysisResult \<Rightarrow> pass_mapping \<Rightarrow> (nat \<times> nat \<times> 32 word) list" where
  "reorder_run m an pm =
     (let names = funcToName pm
      in concat (map (\<lambda>f.
           if if_declaration f then []
           else (case map_of names (if_id f) of
                   None \<Rightarrow> []
                 | Some name \<Rightarrow> if name \<notin> set (logicBlockFunctions an) then [] else tag_calls an names f))
           (im_functions m)))"

section \<open>Stage sections\<close>

definition makeStageSectionName :: "int \<Rightarrow> string \<Rightarrow> string" where
  "makeStageSectionName stage triple =
     (let suffix = show_int stage
      in if contains ''apple'' triple \<or> contains ''darwin'' triple \<or> contains ''macos'' triple then
           ''__TEXT,__topo_stg'' @ suffix @ '',regular,pure_instructions''
         else if contains ''win32'' triple \<or> contains ''windows'' triple \<or> contains ''mingw'' triple then
           ''.text.topo.stage'' @ suffix @ ''$''
         else ''.text.topo.stage'' @ suffix)"

definition is_assign :: "string \<Rightarrow> bool" where
  "is_assign callee \<longleftrightarrow> length callee > 8 \<and> substr callee 0 8 = ''<assign:''"

definition lower_stage :: "string \<Rightarrow> int \<Rightarrow> (string \<times> int) list \<Rightarrow> (string \<times> int) list" where
  "lower_stage q stage m =
     (case map_of m q of
        None \<Rightarrow> AList.update q stage m
      | Some s \<Rightarrow> if stage < s then AList.update q stage m else m)"

text \<open>The loop over the called functions of one block, with \<open>block.stages[i]\<close> for every real call.\<close>

fun block_min_stages ::
  "string \<Rightarrow> string list \<Rightarrow> int list \<Rightarrow> (string \<times> int) list \<Rightarrow> (string \<times> int) list option" where
  "block_min_stages nsPrefix [] stages m = Some m"
| "block_min_stages nsPrefix (callee # callees) stages m =
     (if is_assign callee then block_min_stages nsPrefix callees (tl stages) m
      else (case stages of
              [] \<Rightarrow> None
            | stage # rest \<Rightarrow> block_min_stages nsPrefix callees rest (lower_stage (nsPrefix @ callee) stage m)))"

fun calleeMinStage :: "(string \<times> LogicBlock) list \<Rightarrow> (string \<times> int) list \<Rightarrow> (string \<times> int) list option" where
  "calleeMinStage [] m = Some m"
| "calleeMinStage ((blockName, block) # blocks) m =
     Option.bind (block_min_stages (ns_prefix blockName) (lb_calledFunctions block) (lb_stages block) m)
       (calleeMinStage blocks)"

definition set_section :: "(nat \<times> string) list \<Rightarrow> (string \<times> int) list \<Rightarrow> string \<Rightarrow> ir_function \<Rightarrow> ir_function" where
  "set_section names minStage triple f =
     (if if_declaration f then f
      else (case map_of names (if_id f) of
              None \<Rightarrow> f
            | Some name \<Rightarrow>
                (case map_of minStage name of
                   None \<Rightarrow> f
                 | Some stage \<Rightarrow> f\<lparr>if_section := makeStageSectionName stage triple\<rparr>)))"

definition layout_run :: "ir_module \<Rightarrow> (string \<times> LogicBlock) list \<Rightarrow> pass_mapping \<Rightarrow> ir_module option" where
  "layout_run m blocks pm =
     map_option (\<lambda>minStage.
       m\<lparr>im_functions := map (set_section (funcToName pm) minStage (im_triple m)) (im_functions m)\<rparr>)
       (calleeMinStage blocks [])"

section \<open>Lemmas\<close>

text \<open>The stages the blocks declare for a qualified name.\<close>

definition declared_stages :: "(string \<times> LogicBlock) list \<Rightarrow> string \<Rightarrow> int set" where
  "declared_stages blocks q =
     {stage. \<exists>(blockName, block)\<in>set blocks. \<exists>i<length (lb_calledFunctions block).
        \<not> is_assign (lb_calledFunctions block ! i) \<and> q = ns_prefix blockName @ lb_calledFunctions block ! i \<and>
        stage = lb_stages block ! i}"

definition stages_given :: "(string \<times> LogicBlock) list \<Rightarrow> bool" where
  "stages_given blocks \<longleftrightarrow>
     (\<forall>(_, block)\<in>set blocks. length (lb_calledFunctions block) \<le> length (lb_stages block))"

text \<open>A map whose entries are the least elements of the sets \<open>S\<close>.\<close>

definition least_of :: "(string \<times> int) list \<Rightarrow> (string \<Rightarrow> int set) \<Rightarrow> bool" where
  "least_of m S \<longleftrightarrow>
     (\<forall>q. case map_of m q of
            None \<Rightarrow> S q = {} | Some s \<Rightarrow> s \<in> S q \<and> (\<forall>t\<in>S q. s \<le> t))"

lemma least_of_lower:
  "least_of m S \<Longrightarrow> least_of (lower_stage q stage m) (S(q := insert stage (S q)))"
  unfolding least_of_def lower_stage_def
  by (fastforce simp: amap_simps split: option.splits)

lemma collect_less_Suc:
  "{f i | i. i < Suc n \<and> P i} = (if P 0 then {f 0} else {}) \<union> {f (Suc i) | i. i < n \<and> P (Suc i)}"
proof -
  have "{f i | i. i < Suc n \<and> P i} = {x. \<exists>i<Suc n. P i \<and> x = f i}" by blast
  also have "\<dots> = {x. (P 0 \<and> x = f 0) \<or> (\<exists>i<n. P (Suc i) \<and> x = f (Suc i))}"
    by (simp only: Ex_less_Suc2)
  finally show ?thesis by auto
qed

lemma block_min_stages_least:
  "length callees \<le> length stages \<Longrightarrow> least_of m S \<Longrightarrow>
   \<exists>m'. block_min_stages ns callees stages m = Some m' \<and>
     least_of m' (\<lambda>q. S q \<union> {stages ! i | i. i < length callees \<and> \<not> is_assign (callees ! i) \<and> q = ns @ callees ! i})"
proof (induction ns callees stages m arbitrary: S rule: block_min_stages.induct)
  case (1 ns stages m)
  then show ?case by simp
next
  case (2 ns callee callees stages m)
  then obtain stage rest where st: "stages = stage # rest" by (cases stages) auto
  have ex: "{(stage # rest) ! i | i. i < length (callee # callees) \<and> \<not> is_assign ((callee # callees) ! i) \<and>
        q = ns @ (callee # callees) ! i} =
      (if \<not> is_assign callee \<and> q = ns @ callee then {stage} else {}) \<union>
      {rest ! i | i. i < length callees \<and> \<not> is_assign (callees ! i) \<and> q = ns @ callees ! i}" for q
    using collect_less_Suc [of "\<lambda>i. (stage # rest) ! i" "length callees"
        "\<lambda>i. \<not> is_assign ((callee # callees) ! i) \<and> q = ns @ (callee # callees) ! i"] by simp
  show ?case
  proof (cases "is_assign callee")
    case True
    with 2(1) [OF True _ 2(4)] 2(3) st show ?thesis unfolding st ex by simp
  next
    case False
    have l: "length callees \<le> length rest" using 2(3) st by simp
    from 2(2) [OF False st l least_of_lower [OF 2(4), where q = "ns @ callee" and stage = stage]]
    obtain m' where m': "block_min_stages ns callees rest (lower_stage (ns @ callee) stage m) = Some m'"
      "least_of m' (\<lambda>q. (S(ns @ callee := insert stage (S (ns @ callee)))) q \<union>
         {rest ! i | i. i < length callees \<and> \<not> is_assign (callees ! i) \<and> q = ns @ callees ! i})" by auto
    moreover have "(\<lambda>q. (S(ns @ callee := insert stage (S (ns @ callee)))) q \<union>
         {rest ! i | i. i < length callees \<and> \<not> is_assign (callees ! i) \<and> q = ns @ callees ! i}) =
      (\<lambda>q. S q \<union> ((if \<not> is_assign callee \<and> q = ns @ callee then {stage} else {}) \<union>
         {rest ! i | i. i < length callees \<and> \<not> is_assign (callees ! i) \<and> q = ns @ callees ! i}))"
      using False by (intro ext) auto
    ultimately show ?thesis unfolding st ex using False by simp
  qed
qed

lemma calleeMinStage_least:
  "stages_given blocks \<Longrightarrow> least_of m S \<Longrightarrow>
   \<exists>m'. calleeMinStage blocks m = Some m' \<and> least_of m' (\<lambda>q. S q \<union> declared_stages blocks q)"
proof (induction blocks m arbitrary: S rule: calleeMinStage.induct)
  case (1 m)
  then show ?case by (simp add: declared_stages_def)
next
  case (2 blockName block blocks m)
  from 2(2) have l: "length (lb_calledFunctions block) \<le> length (lb_stages block)" and g: "stages_given blocks"
    by (simp_all add: stages_given_def)
  from block_min_stages_least [OF l 2(3), of "ns_prefix blockName"] obtain m1 where
    m1: "block_min_stages (ns_prefix blockName) (lb_calledFunctions block) (lb_stages block) m = Some m1"
    "least_of m1 (\<lambda>q. S q \<union> {lb_stages block ! i | i. i < length (lb_calledFunctions block) \<and>
       \<not> is_assign (lb_calledFunctions block ! i) \<and> q = ns_prefix blockName @ lb_calledFunctions block ! i})" by blast
  have e: "declared_stages ((blockName, block) # blocks) q =
      {lb_stages block ! i | i. i < length (lb_calledFunctions block) \<and>
        \<not> is_assign (lb_calledFunctions block ! i) \<and> q = ns_prefix blockName @ lb_calledFunctions block ! i}
      \<union> declared_stages blocks q" for q
    by (auto simp: declared_stages_def)
  from 2(1) [OF m1(1) g m1(2)] show ?case by (simp add: m1(1) e Un_assoc)
qed

lemma least_of_None: "least_of m S \<Longrightarrow> map_of m q = None \<Longrightarrow> S q = {}"
  and least_of_Some: "least_of m S \<Longrightarrow> map_of m q = Some s \<Longrightarrow> s \<in> S q \<and> (\<forall>t\<in>S q. s \<le> t)"
  by (drule least_of_def [THEN iffD1, THEN spec, of _ _ q], simp)+

section \<open>What the passes do\<close>



text \<open>The layout pass reads the stage of every call without looking whether the block has stages: a block
that calls something and has none is read past the end.\<close>

lemma layout_reads_past_stages:
  "layout_run m [(''m::run'', example_block [''f''] [])] pm = None"
  by (simp add: layout_run_def example_block_def is_assign_def)

text \<open>A pipeline block stores qualified names; the pass qualifies them again, so that the stages of its
nodes are recorded for names no function has.\<close>

lemma pipeline_stages_misqualified:
  "calleeMinStage [(''m::flow'', (example_block [''m::f''] [0]) \<lparr>lb_isPipeline := True\<rparr>)] [] =
     Some [(''m::m::f'', 0)]"
  by code_simp

end
