(* ===== verification/PassPipeline.thy ===== *)
theory PassPipeline
  imports PassReports VariantBench StagePasses Markers FlowSymbols
begin

text \<open>
  lib/Backend/PassPipeline.cpp: the order of the passes, the choices of the passes in auto mode, the
  markers and the reports. The inline, flatten, reorder and layout passes, the markers and the
  benchmarks are those of their theories; the other passes, LLVM's passes, the category registry
  and the clock are parameters, each pass with its configuration. A pointer in the mapping whose
  function is erased is an identity the module does not have; where the code follows it, the value
  is \<open>None\<close>, as it is where a benchmark does not return.
\<close>

section \<open>Configuration and state\<close>

record FeatureConfig =
  fc_enabled :: bool
  fc_mode :: FeatureMode
  fc_benchmarkWarmup :: int
  fc_benchmarkIterations :: int

record PassPipelineConfig =
  pc_entries :: "VisibilityEntry list option"
  pc_mapping :: "pass_mapping option"
  pc_symbols :: "SymbolTable option"
  pc_mode :: BuildMode
  pc_parallelCfg :: "FeatureConfig option"
  pc_adaptiveCfg :: "FeatureConfig option"
  pc_dataLayoutCfg :: "FeatureConfig option"
  pc_indirectionCfg :: "FeatureConfig option"
  pc_indirectionExplicit :: bool
  pc_observabilityCfg :: "FeatureConfig option"
  pc_lifetimeCfg :: "FeatureConfig option"
  pc_loopParallelCfg :: "FeatureConfig option"
  pc_prefetchCfg :: "FeatureConfig option"
  pc_pipelineCfg :: "FeatureConfig option"
  pc_containmentCfg :: "FeatureConfig option"

definition enabled :: "FeatureConfig option \<Rightarrow> bool" where
  "enabled cfg \<longleftrightarrow> (case cfg of None \<Rightarrow> False | Some c \<Rightarrow> fc_enabled c)"

record LayoutVariantPair =
  lv_aosFn :: nat
  lv_soaFn :: nat
  lv_pipelineName :: string

datatype LayoutWinner = AoS | SoA

record LayoutBenchmarkResult =
  lr_winner :: LayoutWinner
  lr_aosMedianNs :: double
  lr_soaMedianNs :: double
  lr_speedup :: double

record pass_env =
  pv_bench :: "(ir_module, string) bench_env"
  pv_categoryOf :: "string \<Rightarrow> string option"
  pv_elapsed :: "string \<Rightarrow> int"
  pv_lookupTarget :: "string \<Rightarrow> bool"
  pv_standardPipeline :: "OptLevel \<Rightarrow> BuildMode \<Rightarrow> bool \<Rightarrow> ir_module \<Rightarrow> ir_module"
  pv_alwaysInlinerAndSROA :: "ir_module \<Rightarrow> ir_module"
  pv_analyzeStages :: "SymbolTable \<Rightarrow> StageAnalysisResult"
  pv_setOrder :: "nat set \<Rightarrow> nat list"
  pv_toString :: "double \<Rightarrow> string"
  pv_functionHints :: "string \<Rightarrow> (CardinalityHint option \<times> AccessPattern) option"
  pv_containment :: "ir_module \<Rightarrow> ir_module \<times> int \<times> ContainmentInterceptionEntry list"
  pv_pipelineCodeGen :: "ir_module \<Rightarrow> ir_module \<times> int"
  pv_returnSpecialization :: "bool \<Rightarrow> ir_module \<Rightarrow> ir_module \<times> int \<times> ReturnSpecializationEntry list"
  pv_prefetch :: "ir_module \<Rightarrow> ir_module \<times> int \<times> PrefetchEntry list"
  pv_generateVariants :: "ir_module \<Rightarrow> ir_module \<times> LayoutVariantPair list"
  pv_layoutBenchmark :: "ir_module \<Rightarrow> LayoutVariantPair \<Rightarrow> CardinalityHint option \<Rightarrow> AccessPattern \<Rightarrow> LayoutBenchmarkResult option"
  pv_crossRemark :: "ir_module \<Rightarrow> LayoutVariantPair \<Rightarrow> CardinalityHint option \<Rightarrow> AccessPattern \<Rightarrow> string option"
  pv_runForceSoA :: "ir_module \<Rightarrow> ir_module \<times> int"
  pv_indirection :: "pass_mapping \<Rightarrow> ir_module \<Rightarrow> ir_module \<times> IndirectionStats"
  pv_diagnose :: "ir_module \<Rightarrow> string list"
  pv_parallel :: "pass_mapping \<Rightarrow> ir_module \<Rightarrow> ir_module \<times> int"
  pv_loopParallelize :: "ir_module \<Rightarrow> ir_module \<times> int \<times> LoopParallelizeEntry list"
  pv_adaptiveDispatch :: "ir_module \<Rightarrow> ir_module \<times> int \<times> AdaptiveDispatchEntry list"
  pv_observability :: "ir_module \<Rightarrow> ir_module \<times> int"
  pv_lifetimeArena :: "pass_mapping \<Rightarrow> ir_module \<Rightarrow> ir_module \<times> int"
  pv_ownerFunctions :: "ir_module \<Rightarrow> string list"

record pipeline_state =
  ps_module :: ir_module
  ps_md :: named_metadata
  ps_tags :: "(nat \<times> nat \<times> 32 word) list"
  ps_reports :: "PassReports option"
  ps_bench :: "BaselineCache \<times> bench_state"
  ps_applied :: nat
  ps_skippedNoBenefit :: nat
  ps_skippedBenchFail :: nat
  ps_log :: "string list"

definition mark :: "judging \<Rightarrow> int \<Rightarrow> pipeline_state \<Rightarrow> pipeline_state" where
  "mark p n st = st\<lparr>ps_md := markPassFired (pass_name p) (word_of_int n) (ps_md st)\<rparr>"

definition mark_other :: "string \<Rightarrow> int \<Rightarrow> pipeline_state \<Rightarrow> pipeline_state" where
  "mark_other p n st = st\<lparr>ps_md := markPassFired p (word_of_int n) (ps_md st)\<rparr>"

definition update_reports :: "(PassReports \<Rightarrow> PassReports) \<Rightarrow> pipeline_state \<Rightarrow> pipeline_state" where
  "update_reports f st = st\<lparr>ps_reports := map_option f (ps_reports st)\<rparr>"

definition stampHeader :: "pass_env \<Rightarrow> judging \<Rightarrow> int \<Rightarrow> string \<Rightarrow> string \<Rightarrow> int \<Rightarrow> pipeline_state \<Rightarrow> pipeline_state" where
  "stampHeader env p firedCount decision reason elapsedNs st =
     update_reports (\<lambda>r. r\<lparr>rp_headers := (rp_headers r)(p :=
       \<lparr>hd_passName = pass_name p,
        hd_category = (case pv_categoryOf env (pass_name p) of Some c \<Rightarrow> c | None \<Rightarrow> hd_category (rp_headers r p)),
        hd_fired = firedCount > 0, hd_firedCount = firedCount,
        hd_decision = decision, hd_reason = reason, hd_elapsedNs = elapsedNs\<rparr>)\<rparr>) st"

text \<open>\<open>h.passName = name\<close> and so on, with the time the pass took.\<close>

definition stamp_timed :: "pass_env \<Rightarrow> judging \<Rightarrow> int \<Rightarrow> string \<Rightarrow> string \<Rightarrow> pipeline_state \<Rightarrow> pipeline_state" where
  "stamp_timed env p n decision reason st = stampHeader env p n decision reason (pv_elapsed env (pass_name p)) st"

definition stamp_off :: "pass_env \<Rightarrow> judging \<Rightarrow> string \<Rightarrow> FeatureConfig option \<Rightarrow> pipeline_state \<Rightarrow> pipeline_state" where
  "stamp_off env p section_name cfg st =
     stampHeader env p 0 ''disabled''
       (if cfg \<noteq> None then section_name @ ''.mode = off'' else ''no '' @ section_name @ '' config'') 0 st"

section \<open>The passes before the benchmarks\<close>

definition set_module :: "ir_module \<Rightarrow> pipeline_state \<Rightarrow> pipeline_state" where
  "set_module m st = st\<lparr>ps_module := m\<rparr>"

definition containment_step :: "pass_env \<Rightarrow> PassPipelineConfig \<Rightarrow> pipeline_state \<Rightarrow> pipeline_state" where
  "containment_step env cfg st =
     (if enabled (pc_containmentCfg cfg) then
        (let (m, n, found) = pv_containment env (ps_module st);
             st = update_reports (\<lambda>r. r\<lparr>rp_containmentInterception := rp_containmentInterception r @ found\<rparr>) (set_module m st);
             st = mark ContainmentInterceptionPass n st
         in stamp_timed env ContainmentInterceptionPass n
              (if n > 0 then ''intercepted'' else ''no_targets'')
              (if n > 0 then ''wrapped restricted-API call sites in __topo_containment_violation''
               else ''no calls to restricted APIs'') st)
      else stamp_off env ContainmentInterceptionPass ''[containment]'' (pc_containmentCfg cfg) st)"

definition pipelineCodeGen_step :: "pass_env \<Rightarrow> PassPipelineConfig \<Rightarrow> pipeline_state \<Rightarrow> pipeline_state" where
  "pipelineCodeGen_step env cfg st =
     (if pc_pipelineCfg cfg = None \<or> enabled (pc_pipelineCfg cfg) then
        (let (m, n) = pv_pipelineCodeGen env (ps_module st)
         in mark_other ''PipelineCodeGenPass'' n (set_module m st))
      else st)"

definition returnSpecialization_step :: "pass_env \<Rightarrow> pipeline_state \<Rightarrow> pipeline_state" where
  "returnSpecialization_step env st =
     (let (m, n, found) = pv_returnSpecialization env True (ps_module st);
          st = update_reports (\<lambda>r. r\<lparr>rp_returnSpecialization := rp_returnSpecialization r @ found\<rparr>) (set_module m st);
          st = mark ReturnSpecializationPass n st
      in stamp_timed env ReturnSpecializationPass n
           (if n > 0 then ''eliminated'' else ''no_eliminations'')
           (if n > 0 then ''dead return-struct fields removed'' else ''no unused fields on sret/direct returns'') st)"

definition inline_step ::
  "pass_env \<Rightarrow> OptLevel \<Rightarrow> VisibilityEntry list \<Rightarrow> pass_mapping \<Rightarrow> SymbolTable \<Rightarrow> pipeline_state \<Rightarrow> pipeline_state" where
  "inline_step env level entries pm symbols st =
     (let (m, found) = inline_run (pv_setOrder env) (ps_module st) level entries pm (Some (logicBlocks symbols));
          n = int (length found);
          st = update_reports (\<lambda>r. r\<lparr>rp_topoInline := rp_topoInline r @ found\<rparr>) (set_module m st);
          st = mark TopoInlinePass n st
      in stamp_timed env TopoInlinePass n
           (if n > 0 then ''marked_alwaysinline'' else ''no_inlines'')
           (if n > 0 then ''private / protected / pipeline-functor callees marked alwaysinline''
            else ''no callees eligible for forced inlining'') st)"

definition prefetch_step :: "pass_env \<Rightarrow> PassPipelineConfig \<Rightarrow> pipeline_state \<Rightarrow> pipeline_state" where
  "prefetch_step env cfg st =
     (if enabled (pc_prefetchCfg cfg) then
        (let (m, n, found) = pv_prefetch env (ps_module st);
             st = update_reports (\<lambda>r. r\<lparr>rp_prefetch := rp_prefetch r @ found\<rparr>) (set_module m st);
             st = mark PrefetchPass n st
         in stamp_timed env PrefetchPass n
              (if n > 0 then ''inserted'' else ''no_streaming_loops'')
              (if n > 0 then ''llvm.prefetch intrinsics inserted at streaming/tiled loop heads''
               else ''no functions with access(streaming|tiled) attribute'') st)
      else stamp_off env PrefetchPass ''[prefetch]'' (pc_prefetchCfg cfg) st)"

definition alwaysInliner_step :: "pass_env \<Rightarrow> pipeline_state \<Rightarrow> pipeline_state" where
  "alwaysInliner_step env st = set_module (pv_alwaysInlinerAndSROA env (ps_module st)) st"

section \<open>Data layout\<close>

text \<open>The first hint and the first access pattern among the functions the pipeline calls.\<close>

definition merge_hints ::
  "CardinalityHint option \<times> AccessPattern \<Rightarrow> CardinalityHint option \<times> AccessPattern \<Rightarrow> CardinalityHint option \<times> AccessPattern" where
  "merge_hints acc h =
     (if fst acc = None then fst h else fst acc, if snd acc = NoPattern then snd h else snd acc)"

definition variant_hints :: "pass_env \<Rightarrow> SymbolTable \<Rightarrow> string \<Rightarrow> CardinalityHint option \<times> AccessPattern" where
  "variant_hints env symbols name =
     (case map_of (logicBlocks symbols) name of
        None \<Rightarrow> (None, NoPattern)
      | Some lb \<Rightarrow>
          fold (\<lambda>cf acc. case pv_functionHints env cf of None \<Rightarrow> acc | Some h \<Rightarrow> merge_hints acc h)
            (lb_calledFunctions lb) (None, NoPattern))"

definition layout_candidate :: "string \<Rightarrow> LayoutBenchmarkResult option \<Rightarrow> DataLayoutCandidate" where
  "layout_candidate name result =
     (let c = \<lparr>dl_pipelineName = name, dl_wrapperIRType = [], dl_elementIRType = [], dl_arraySize = 0,
        dl_baselineNs = 0, dl_variantNs = 0, dl_speedup = Num 1, dl_winner = [], dl_applied = False\<rparr>
      in case result of
           Some r \<Rightarrow> c\<lparr>dl_baselineNs := to_int64 (lr_aosMedianNs r), dl_variantNs := to_int64 (lr_soaMedianNs r),
             dl_speedup := lr_speedup r, dl_winner := (if lr_winner r = SoA then ''soa'' else ''aos''),
             dl_applied := lr_winner r = SoA\<rparr>
         | None \<Rightarrow> c\<lparr>dl_winner := ''benchmark_failed'', dl_applied := False\<rparr>)"

definition eraseFromParent :: "nat \<Rightarrow> ir_module \<Rightarrow> ir_module" where
  "eraseFromParent i m = m\<lparr>im_functions := filter (\<lambda>f. if_id f \<noteq> i) (im_functions m)\<rparr>"

text \<open>\<open>replaceAllUsesWith\<close> as the calls of a module show it, and \<open>takeName\<close>.\<close>

definition replaceAllUsesWith :: "nat \<Rightarrow> nat \<Rightarrow> ir_module \<Rightarrow> ir_module" where
  "replaceAllUsesWith old new m =
     m\<lparr>im_functions := map (\<lambda>f. f\<lparr>if_calls := map (\<lambda>c. if c = Some old then Some new else c) (if_calls f)\<rparr>) (im_functions m)\<rparr>"

definition takeName :: "nat \<Rightarrow> nat \<Rightarrow> ir_module \<Rightarrow> ir_module" where
  "takeName new old m =
     (case find_fn m old of
        None \<Rightarrow> m
      | Some f \<Rightarrow> upd_fn new (\<lambda>g. g\<lparr>if_name := if_name f\<rparr>) (upd_fn old (\<lambda>g. g\<lparr>if_name := []\<rparr>) m))"

definition soa_wins :: "LayoutBenchmarkResult option \<Rightarrow> bool" where
  "soa_wins result \<longleftrightarrow> (case result of None \<Rightarrow> False | Some r \<Rightarrow> lr_winner r = SoA)"

definition settle_variant :: "LayoutVariantPair \<Rightarrow> LayoutBenchmarkResult option \<Rightarrow> ir_module \<Rightarrow> ir_module" where
  "settle_variant v result m =
     (if soa_wins result then
        eraseFromParent (lv_aosFn v) (takeName (lv_soaFn v) (lv_aosFn v) (replaceAllUsesWith (lv_aosFn v) (lv_soaFn v) m))
      else eraseFromParent (lv_soaFn v) m)"

definition layout_remark :: "pass_env \<Rightarrow> string \<Rightarrow> string \<Rightarrow> LayoutBenchmarkResult option \<Rightarrow> string" where
  "layout_remark env name remark result =
     ''remark: '' @ name @ '': '' @ remark @
       (case result of
          None \<Rightarrow> []
        | Some r \<Rightarrow> [CHR 0x0A] @ ''  decision='' @ (if lr_winner r = SoA then ''SoA'' else ''AoS'')
            @ '' speedup='' @ pv_toString env (lr_speedup r))"

definition variant_step ::
  "pass_env \<Rightarrow> SymbolTable \<Rightarrow> LayoutVariantPair \<Rightarrow> pipeline_state \<times> nat \<Rightarrow> pipeline_state \<times> nat" where
  "variant_step env symbols v acc =
     (case acc of (st, soaAccepted) \<Rightarrow>
        let (hint, accessPat) = variant_hints env symbols (lv_pipelineName v);
            result = pv_layoutBenchmark env (ps_module st) v hint accessPat;
            st = (case pv_crossRemark env (ps_module st) v hint accessPat of
                    None \<Rightarrow> st
                  | Some remark \<Rightarrow> st\<lparr>ps_log := ps_log st @ [layout_remark env (lv_pipelineName v) remark result]\<rparr>);
            st = update_reports (\<lambda>r. r\<lparr>rp_dataLayout := rp_dataLayout r @ [layout_candidate (lv_pipelineName v) result]\<rparr>) st
        in (set_module (settle_variant v result (ps_module st)) st,
            if soa_wins result then Suc soaAccepted else soaAccepted))"

definition auto_layout_decision :: "nat \<Rightarrow> nat \<Rightarrow> string \<times> string" where
  "auto_layout_decision variants soaAccepted =
     (if variants = 0 then (''no_candidates'', ''no pipeline with topo::array<Struct, N> found'')
      else if soaAccepted = variants then (''auto_soa'', ''benchmark selected SoA for every candidate'')
      else if soaAccepted = 0 then (''auto_aos'', ''benchmark kept AoS for every candidate'')
      else (''auto_mixed'', ''benchmark selected SoA for '' @ show_nat soaAccepted @ '' of '' @ show_nat variants @ '' candidates''))"

definition forced_layout_candidate :: "int \<Rightarrow> DataLayoutCandidate" where
  "forced_layout_candidate n =
     \<lparr>dl_pipelineName = ''<module-wide>'', dl_wrapperIRType = [], dl_elementIRType = [], dl_arraySize = 0,
      dl_baselineNs = 0, dl_variantNs = 0, dl_speedup = Num 1, dl_winner = ''forced_soa'', dl_applied = n > 0\<rparr>"

definition dataLayout_step :: "pass_env \<Rightarrow> PassPipelineConfig \<Rightarrow> SymbolTable \<Rightarrow> pipeline_state \<Rightarrow> pipeline_state" where
  "dataLayout_step env cfg symbols st =
     (case pc_dataLayoutCfg cfg of
        Some c \<Rightarrow>
          if fc_enabled c then
            (case fc_mode c of
               Auto \<Rightarrow>
                 (let (m, variants) = pv_generateVariants env (ps_module st);
                      (st, soaAccepted) = fold (variant_step env symbols) variants (set_module m st, 0);
                      st = mark DataLayoutPass (int soaAccepted) st;
                      (decision, reason) = auto_layout_decision (length variants) soaAccepted
                  in stamp_timed env DataLayoutPass (int soaAccepted) decision reason st)
             | Force \<Rightarrow>
                 (let (m, n) = pv_runForceSoA env (ps_module st);
                      st = mark DataLayoutPass n (set_module m st);
                      st = update_reports (\<lambda>r. r\<lparr>rp_dataLayout := rp_dataLayout r @ [forced_layout_candidate n]\<rparr>) st
                  in stamp_timed env DataLayoutPass n ''forced_soa'' ''[optimize.data-layout].mode = force'' st)
             | Off \<Rightarrow> stamp_timed env DataLayoutPass 0 [] [] st)
          else stamp_off env DataLayoutPass ''[optimize.data-layout]'' (pc_dataLayoutCfg cfg) st
      | None \<Rightarrow> stamp_off env DataLayoutPass ''[optimize.data-layout]'' (pc_dataLayoutCfg cfg) st)"

section \<open>Passes that benchmark themselves\<close>

text \<open>
  \<open>SymbolMapping::rebind\<close> by identity. (An entry whose function is erased is dropped.)
\<close>

definition rebind_module :: "ir_module \<Rightarrow> pass_mapping \<Rightarrow> ir_module \<Rightarrow> pass_mapping" where
  "rebind_module m pm target =
     pm\<lparr>pm_matched := List.map_filter (\<lambda>(q, i).
        Option.bind (find_fn m i) (\<lambda>f. map_option (\<lambda>g. (q, if_id g)) (find (\<lambda>g. if_name g = if_name f) (im_functions target))))
        (pm_matched pm)\<rparr>"

text \<open>The pipeline functions: the name of the block and the name of its function if it is in the module.\<close>

definition pipeline_targets :: "ir_module \<Rightarrow> pass_mapping \<Rightarrow> SymbolTable \<Rightarrow> (string \<times> string option) list" where
  "pipeline_targets m pm symbols =
     List.map_filter (\<lambda>(name, lb).
       if \<not> lb_isPipeline lb then None
       else (case map_of (pm_matched pm) (lb_qualifiedName lb) of
               None \<Rightarrow> None
             | Some i \<Rightarrow> Some (name, map_option if_name (find_fn m i))))
       (logicBlocks symbols)"

text \<open>
  The loop over the candidates, which ends at the first that wins: the results in order, failed
  benchmarks left out.
\<close>

fun benchmark_search ::
  "pass_env \<Rightarrow> FeatureConfig \<Rightarrow> ir_module \<Rightarrow> (ir_module \<Rightarrow> ir_module) \<Rightarrow> (string \<times> string option) list \<Rightarrow>
   BaselineCache \<times> bench_state \<Rightarrow> ((string \<times> BenchmarkResult) list \<times> BaselineCache \<times> bench_state) option" where
  "benchmark_search env c m applyVariant [] cs = Some ([], cs)"
| "benchmark_search env c m applyVariant ((label, target) # targets) cs =
     do { targetFunc \<leftarrow> target;
          (result, cs) \<leftarrow> run_cached (pv_bench env) m targetFunc applyVariant (fc_benchmarkWarmup c) (fc_benchmarkIterations c) 2 cs;
          (case result of
             None \<Rightarrow> benchmark_search env c m applyVariant targets cs
           | Some r \<Rightarrow>
               if br_winner r = Variant then Some ([(label, r)], cs)
               else map_option (\<lambda>(rs, cs). ((label, r) # rs, cs)) (benchmark_search env c m applyVariant targets cs)) }"

definition beneficial :: "(string \<times> BenchmarkResult) list \<Rightarrow> bool" where
  "beneficial results \<longleftrightarrow> list_ex (\<lambda>(_, r). br_winner r = Variant) results"

text \<open>The verdict: beneficial, measured without benefit, or not measured.\<close>

datatype verdict = Applied | SkippedNoBenefit | SkippedBenchFail

definition auto_verdict :: "(string \<times> BenchmarkResult) list \<Rightarrow> verdict" where
  "auto_verdict results =
     (if beneficial results then Applied else if results \<noteq> [] then SkippedNoBenefit else SkippedBenchFail)"

definition count_verdict :: "verdict \<Rightarrow> pipeline_state \<Rightarrow> pipeline_state" where
  "count_verdict v st =
     (case v of
        Applied \<Rightarrow> st\<lparr>ps_applied := ps_applied st + 1\<rparr>
      | SkippedNoBenefit \<Rightarrow> st\<lparr>ps_skippedNoBenefit := ps_skippedNoBenefit st + 1\<rparr>
      | SkippedBenchFail \<Rightarrow> st\<lparr>ps_skippedBenchFail := ps_skippedBenchFail st + 1\<rparr>)"

definition auto_decision :: "verdict \<Rightarrow> string \<Rightarrow> string" where
  "auto_decision v applied =
     (case v of Applied \<Rightarrow> applied | SkippedNoBenefit \<Rightarrow> ''auto_skipped_no_benefit''
      | SkippedBenchFail \<Rightarrow> ''auto_skipped_bench_fail'')"

definition auto_reason :: "verdict \<Rightarrow> string \<Rightarrow> string" where
  "auto_reason v what =
     (case v of Applied \<Rightarrow> ''benchmark showed '' @ what @ '' beneficial''
      | SkippedNoBenefit \<Rightarrow> ''benchmark showed no improvement from '' @ what
      | SkippedBenchFail \<Rightarrow> ''benchmark could not run to completion'')"

text \<open>A candidate is recorded as not applied; the winners are marked when the pass is run.\<close>

definition bench_candidate :: "string \<Rightarrow> string \<Rightarrow> string \<times> BenchmarkResult \<Rightarrow> Candidate" where
  "bench_candidate won lost e =
     (case e of (name, r) \<Rightarrow>
        \<lparr>ca_name = name, ca_baselineNs = to_int64 (br_baselineMedianNs r), ca_variantNs = to_int64 (br_variantMedianNs r),
         ca_speedup = br_speedup r, ca_winner = (if br_winner r = Variant then won else lost), ca_applied = False\<rparr>)"

definition apply_winners :: "string \<Rightarrow> Candidate list \<Rightarrow> Candidate list" where
  "apply_winners won cs = map (\<lambda>c. if ca_winner c = won then c\<lparr>ca_applied := True\<rparr> else c) cs"

definition forced_candidate :: "string \<Rightarrow> Candidate" where
  "forced_candidate name =
     \<lparr>ca_name = name, ca_baselineNs = 0, ca_variantNs = 0, ca_speedup = Num 1, ca_winner = ''forced'', ca_applied = True\<rparr>"

subsection \<open>Indirection\<close>

definition apply_indirection :: "pass_env \<Rightarrow> pass_mapping \<Rightarrow> pipeline_state \<Rightarrow> pipeline_state \<times> IndirectionStats" where
  "apply_indirection env pm st =
     (let (m, stats) = pv_indirection env pm (ps_module st)
      in (mark IndirectionPass (stats_total stats) (set_module m st), stats))"

definition report_indirection :: "pass_env \<Rightarrow> IndirectionStats \<Rightarrow> string \<Rightarrow> string \<Rightarrow> pipeline_state \<Rightarrow> pipeline_state" where
  "report_indirection env stats decision reason st =
     stamp_timed env IndirectionPass (stats_total stats) decision reason
       (update_reports (\<lambda>r. r\<lparr>rp_indirection := stats\<rparr>) st)"

definition indirection_auto ::
  "pass_env \<Rightarrow> FeatureConfig \<Rightarrow> pass_mapping \<Rightarrow> SymbolTable \<Rightarrow> pipeline_state \<Rightarrow> pipeline_state option" where
  "indirection_auto env c pm symbols st =
     do { (results, cs) \<leftarrow> benchmark_search env c (ps_module st)
            (\<lambda>clone. fst (pv_indirection env (rebind_module (ps_module st) pm clone) clone))
            (pipeline_targets (ps_module st) pm symbols) (ps_bench st);
          let st = st\<lparr>ps_bench := cs\<rparr>;
          let v = auto_verdict results;
          let (st, stats) = (if v = Applied then apply_indirection env pm st else (st, no_indirection));
          Some (report_indirection env stats (auto_decision v ''auto_applied'')
                  (auto_reason v ''indirection optimisations'') (count_verdict v st)) }"

definition indirection_step ::
  "pass_env \<Rightarrow> PassPipelineConfig \<Rightarrow> pass_mapping \<Rightarrow> SymbolTable \<Rightarrow> pipeline_state \<Rightarrow> pipeline_state option" where
  "indirection_step env cfg pm symbols st =
     (case (if enabled (pc_indirectionCfg cfg) then pc_indirectionCfg cfg else None) of
        Some c \<Rightarrow>
          if fc_mode c = Auto then indirection_auto env c pm symbols st
          else
            (let (st, stats) = apply_indirection env pm st
             in Some (report_indirection env stats
                  (if stats_total stats > 0 then ''forced_applied'' else ''forced_no_targets'')
                  ''[optimize.indirection].mode = force'' st))
      | None \<Rightarrow>
          if \<not> pc_indirectionExplicit cfg then
            Some (stampHeader env IndirectionPass 0 ''diagnostic_only''
              (''no [optimize.indirection] config '' @ [CHR 0xE2, CHR 0x80, CHR 0x94] @ '' Pass ran in diagnose-only mode'') 0
              (st\<lparr>ps_log := ps_log st @ pv_diagnose env (ps_module st)\<rparr>))
          else Some (stampHeader env IndirectionPass 0 ''disabled'' ''[optimize.indirection].mode = off'' 0 st))"

subsection \<open>Parallel stages and lifetime arenas\<close>

definition parallel_auto ::
  "pass_env \<Rightarrow> FeatureConfig \<Rightarrow> pass_mapping \<Rightarrow> SymbolTable \<Rightarrow> pipeline_state \<Rightarrow> pipeline_state option" where
  "parallel_auto env c pm symbols st =
     do { (results, cs) \<leftarrow> benchmark_search env c (ps_module st)
            (\<lambda>clone. fst (pv_parallel env (rebind_module (ps_module st) pm clone) clone))
            (pipeline_targets (ps_module st) pm symbols) (ps_bench st);
          let st = update_reports (\<lambda>r. r\<lparr>rp_topoParallel := rp_topoParallel r @ map (bench_candidate ''parallel'' ''serial'') results\<rparr>)
                     (st\<lparr>ps_bench := cs\<rparr>);
          let v = auto_verdict results;
          let st = count_verdict v st;
          let (st, n) =
            (if v = Applied then
               (let (m, n) = pv_parallel env pm (ps_module st);
                    st = mark TopoParallelPass n (set_module m st)
                in (update_reports (\<lambda>r. r\<lparr>rp_topoParallel := apply_winners ''parallel'' (rp_topoParallel r)\<rparr>) st, n))
             else (st, 0));
          Some (stamp_timed env TopoParallelPass n (auto_decision v ''auto_parallel'') (auto_reason v ''parallelisation'') st) }"

definition parallel_forced ::
  "pass_env \<Rightarrow> pass_mapping \<Rightarrow> SymbolTable \<Rightarrow> pipeline_state \<Rightarrow> pipeline_state" where
  "parallel_forced env pm symbols st =
     (let (m, n) = pv_parallel env pm (ps_module st);
          st = mark TopoParallelPass n (set_module m st);
          st = (if n > 0 then
                  update_reports (\<lambda>r. r\<lparr>rp_topoParallel := rp_topoParallel r @
                    map (\<lambda>(name, _). forced_candidate name) (filter (\<lambda>(_, lb). lb_isPipeline lb) (logicBlocks symbols))\<rparr>) st
                else st)
      in stamp_timed env TopoParallelPass n (if n > 0 then ''forced_applied'' else ''forced_no_targets'')
           ''[parallel].mode = force'' st)"

definition parallel_step ::
  "pass_env \<Rightarrow> PassPipelineConfig \<Rightarrow> pass_mapping \<Rightarrow> SymbolTable \<Rightarrow> pipeline_state \<Rightarrow> pipeline_state option" where
  "parallel_step env cfg pm symbols st =
     (case (if enabled (pc_parallelCfg cfg) then pc_parallelCfg cfg else None) of
        Some c \<Rightarrow> if fc_mode c = Auto then parallel_auto env c pm symbols st
                  else Some (parallel_forced env pm symbols st)
      | None \<Rightarrow> Some (stamp_off env TopoParallelPass ''[parallel]'' (pc_parallelCfg cfg) st))"

definition lifetime_auto ::
  "pass_env \<Rightarrow> FeatureConfig \<Rightarrow> pass_mapping \<Rightarrow> pipeline_state \<Rightarrow> pipeline_state option" where
  "lifetime_auto env c pm st =
     do { (results, cs) \<leftarrow> benchmark_search env c (ps_module st)
            (\<lambda>clone. fst (pv_lifetimeArena env (rebind_module (ps_module st) pm clone) clone))
            (map (\<lambda>owner. (owner, Some owner)) (pv_ownerFunctions env (ps_module st))) (ps_bench st);
          let st = update_reports (\<lambda>r. r\<lparr>rp_lifetimeArena := rp_lifetimeArena r @ map (bench_candidate ''arena'' ''heap'') results\<rparr>)
                     (st\<lparr>ps_bench := cs\<rparr>);
          let v = auto_verdict results;
          let st = count_verdict v st;
          let (st, n) =
            (if v = Applied then
               (let (m, n) = pv_lifetimeArena env pm (ps_module st);
                    st = mark LifetimeArenaPass n (set_module m st)
                in (update_reports (\<lambda>r. r\<lparr>rp_lifetimeArena := apply_winners ''arena'' (rp_lifetimeArena r)\<rparr>) st, n))
             else (st, 0));
          Some (stamp_timed env LifetimeArenaPass n (auto_decision v ''auto_arena'') (auto_reason v ''arena allocation'') st) }"

definition lifetime_forced :: "pass_env \<Rightarrow> pass_mapping \<Rightarrow> pipeline_state \<Rightarrow> pipeline_state" where
  "lifetime_forced env pm st =
     (let (m, n) = pv_lifetimeArena env pm (ps_module st);
          st = mark LifetimeArenaPass n (set_module m st);
          st = (if n > 0 then
                  update_reports (\<lambda>r. r\<lparr>rp_lifetimeArena := rp_lifetimeArena r @
                    map forced_candidate (pv_ownerFunctions env (ps_module st))\<rparr>) st
                else st)
      in stamp_timed env LifetimeArenaPass n (if n > 0 then ''forced_applied'' else ''forced_no_targets'')
           ''[lifetime].mode = force'' st)"

definition lifetime_step ::
  "pass_env \<Rightarrow> PassPipelineConfig \<Rightarrow> pass_mapping \<Rightarrow> pipeline_state \<Rightarrow> pipeline_state option" where
  "lifetime_step env cfg pm st =
     (case (if enabled (pc_lifetimeCfg cfg) then pc_lifetimeCfg cfg else None) of
        Some c \<Rightarrow> if fc_mode c = Auto then lifetime_auto env c pm st else Some (lifetime_forced env pm st)
      | None \<Rightarrow> Some (stamp_off env LifetimeArenaPass ''[lifetime]'' (pc_lifetimeCfg cfg) st))"

section \<open>The other passes\<close>

definition loopParallelize_step :: "pass_env \<Rightarrow> PassPipelineConfig \<Rightarrow> pipeline_state \<Rightarrow> pipeline_state" where
  "loopParallelize_step env cfg st =
     (if enabled (pc_loopParallelCfg cfg) then
        (let (m, n, found) = pv_loopParallelize env (ps_module st);
             st = update_reports (\<lambda>r. r\<lparr>rp_loopParallelize := rp_loopParallelize r @ found\<rparr>) (set_module m st);
             st = mark LoopParallelizePass n st
         in stamp_timed env LoopParallelizePass n
              (if n > 0 then ''annotated'' else ''no_targets'')
              (if n > 0 then ''loop metadata (parallel_accesses + unroll) injected'' else ''no eligible loops'') st)
      else stamp_off env LoopParallelizePass ''[loop_parallel]'' (pc_loopParallelCfg cfg) st)"

definition adaptiveDispatch_step :: "pass_env \<Rightarrow> PassPipelineConfig \<Rightarrow> pipeline_state \<Rightarrow> pipeline_state" where
  "adaptiveDispatch_step env cfg st =
     (case (if enabled (pc_adaptiveCfg cfg) then pc_adaptiveCfg cfg else None) of
        Some c \<Rightarrow>
          (let (m, n, found) = pv_adaptiveDispatch env (ps_module st);
               st = update_reports (\<lambda>r. r\<lparr>rp_adaptiveDispatch := rp_adaptiveDispatch r @ found\<rparr>) (set_module m st);
               st = mark AdaptiveDispatchPass n st;
               st = (if fc_mode c = Auto then st\<lparr>ps_applied := ps_applied st + 1\<rparr> else st)
           in stamp_timed env AdaptiveDispatchPass n
                (if n > 0 then ''instrumented'' else ''no_targets'')
                (if n > 0 then ''JIT dispatch pointer + cost_begin/end inserted at pipeline entries''
                 else ''no pipeline entries to instrument'') st)
      | None \<Rightarrow> stamp_off env AdaptiveDispatchPass ''[adaptive]'' (pc_adaptiveCfg cfg) st)"

definition observability_step :: "pass_env \<Rightarrow> PassPipelineConfig \<Rightarrow> pipeline_state \<Rightarrow> pipeline_state" where
  "observability_step env cfg st =
     (if enabled (pc_observabilityCfg cfg) then
        (let (m, n) = pv_observability env (ps_module st) in mark_other ''ObservabilityPass'' n (set_module m st))
      else st)"

definition flatten_step ::
  "pass_env \<Rightarrow> PassPipelineConfig \<Rightarrow> VisibilityEntry list \<Rightarrow> pass_mapping \<Rightarrow> pipeline_state \<Rightarrow> pipeline_state" where
  "flatten_step env cfg entries pm st =
     (let (m, demoted) = flatten_run (ps_module st) entries pm (pc_mode cfg);
          n = int (length demoted);
          st = update_reports (\<lambda>r. r\<lparr>rp_topoFlatten := rp_topoFlatten r @ demoted\<rparr>) (set_module m st);
          st = mark TopoFlattenPass n st
      in stamp_timed env TopoFlattenPass n
           (if n > 0 then ''demoted'' else ''no_targets'')
           (if n > 0 then ''private/protected functions demoted to internal linkage for GlobalDCE''
            else ''no functions eligible for linkage demotion'') st)"

section \<open>The pipeline\<close>

definition topo_passes ::
  "pass_env \<Rightarrow> OptLevel \<Rightarrow> PassPipelineConfig \<Rightarrow> VisibilityEntry list \<Rightarrow> pass_mapping \<Rightarrow> SymbolTable \<Rightarrow>
   pipeline_state \<Rightarrow> pipeline_state option" where
  "topo_passes env level cfg entries pm symbols st =
     do { let st = containment_step env cfg st;
          let st = pipelineCodeGen_step env cfg st;
          let st = returnSpecialization_step env st;
          let st = inline_step env level entries pm symbols st;
          let st = prefetch_step env cfg st;
          let st = alwaysInliner_step env st;
          let st = dataLayout_step env cfg symbols st;
          st \<leftarrow> indirection_step env cfg pm symbols (st\<lparr>ps_bench := ([], snd (ps_bench st))\<rparr>);
          st \<leftarrow> parallel_step env cfg pm symbols st;
          let st = loopParallelize_step env cfg st;
          let st = adaptiveDispatch_step env cfg st;
          let st = observability_step env cfg st;
          st \<leftarrow> lifetime_step env cfg pm st;
          Some (flatten_step env cfg entries pm st) }"

text \<open>Without a symbol table three passes run, and none of them reports.\<close>

definition bare_passes ::
  "pass_env \<Rightarrow> OptLevel \<Rightarrow> PassPipelineConfig \<Rightarrow> VisibilityEntry list \<Rightarrow> pass_mapping \<Rightarrow> pipeline_state \<Rightarrow> pipeline_state" where
  "bare_passes env level cfg entries pm st =
     (let (m, n, _) = pv_returnSpecialization env False (ps_module st);
          st = mark ReturnSpecializationPass n (set_module m st);
          (m, found) = inline_run (pv_setOrder env) (ps_module st) level entries pm None;
          st = mark TopoInlinePass (int (length found)) (set_module m st);
          (m, demoted) = flatten_run (ps_module st) entries pm (pc_mode cfg)
      in mark TopoFlattenPass (int (length demoted)) (set_module m st))"

definition strip_noinline :: "ir_module \<Rightarrow> ir_module" where
  "strip_noinline m =
     m\<lparr>im_functions := map (\<lambda>f. if if_declaration f then f else f\<lparr>if_attrs := if_attrs f - {NoInline}\<rparr>) (im_functions m)\<rparr>"

definition reorder_step :: "pass_env \<Rightarrow> pass_mapping \<Rightarrow> SymbolTable \<Rightarrow> pipeline_state \<Rightarrow> pipeline_state" where
  "reorder_step env pm symbols st =
     (let tags = reorder_run (ps_module st) (pv_analyzeStages env symbols) pm
      in mark_other ''TopoReorderPass'' (int (length tags)) (st\<lparr>ps_tags := ps_tags st @ tags\<rparr>))"

text \<open>\<open>createTargetMachine\<close> gives a machine for a triple that is set and whose target is registered.\<close>

definition createTargetMachine :: "pass_env \<Rightarrow> ir_module \<Rightarrow> bool" where
  "createTargetMachine env m \<longleftrightarrow> im_triple m \<noteq> [] \<and> pv_lookupTarget env (im_triple m)"

definition runStandardPipeline :: "pass_env \<Rightarrow> OptLevel \<Rightarrow> BuildMode \<Rightarrow> pipeline_state \<Rightarrow> pipeline_state" where
  "runStandardPipeline env level mode st =
     (let tm = createTargetMachine env (ps_module st);
          st = (if \<not> tm then st\<lparr>ps_log := ps_log st @
                  [''topo: standard pipeline running WITHOUT target machine (triple='' @ [CHR 0x27] @ im_triple (ps_module st) @
                   [CHR 0x27] @ '') '' @ [CHR 0xE2, CHR 0x80, CHR 0x94] @ '' cost model degraded to PassBuilder defaults'']\<rparr>
                else st)
      in set_module (pv_standardPipeline env level mode tm (ps_module st)) st)"

definition layout_count :: "(string \<times> LogicBlock) list \<Rightarrow> pass_mapping \<Rightarrow> ir_module \<Rightarrow> nat option" where
  "layout_count blocks pm m =
     map_option (\<lambda>minStage. length (filter (\<lambda>f. \<not> if_declaration f \<and>
         (case map_of (funcToName pm) (if_id f) of None \<Rightarrow> False | Some name \<Rightarrow> map_of minStage name \<noteq> None))
         (im_functions m)))
       (calleeMinStage blocks [])"

definition layout_step :: "pass_mapping \<Rightarrow> SymbolTable \<Rightarrow> pipeline_state \<Rightarrow> pipeline_state option" where
  "layout_step pm symbols st =
     do { m \<leftarrow> layout_run (ps_module st) (logicBlocks symbols) pm;
          n \<leftarrow> layout_count (logicBlocks symbols) pm (ps_module st);
          Some (mark_other ''TopoLayoutPass'' (int n) (set_module m st)) }"

definition pass_summary :: "pipeline_state \<Rightarrow> pipeline_state" where
  "pass_summary st =
     (if ps_applied st + ps_skippedNoBenefit st + ps_skippedBenchFail st > 0 then
        st\<lparr>ps_log := ps_log st @ [''topo: pass summary: '' @ show_nat (ps_applied st) @ '' applied, ''
          @ show_nat (ps_skippedNoBenefit st) @ '' skipped (no benefit), ''
          @ show_nat (ps_skippedBenchFail st) @ '' skipped (benchmark failed)'']\<rparr>
      else st)"

text \<open>The headers that are still empty at the end; the data layout report is not among them.\<close>

definition stampFallback :: "pass_env \<Rightarrow> judging \<Rightarrow> pipeline_state \<Rightarrow> pipeline_state" where
  "stampFallback env p st =
     (case ps_reports st of
        None \<Rightarrow> st
      | Some r \<Rightarrow>
          if hd_passName (rp_headers r p) \<noteq> [] then st
          else stampHeader env p 0 ''not_yet_reported'' ''Pass executed but detail capture not yet implemented'' 0 st)"

definition fallback_passes :: "judging list" where
  "fallback_passes = [IndirectionPass, TopoParallelPass, LifetimeArenaPass, ReturnSpecializationPass, TopoInlinePass,
     TopoFlattenPass, AdaptiveDispatchPass, PrefetchPass, ContainmentInterceptionPass, LoopParallelizePass]"

definition run_pipeline :: "pass_env \<Rightarrow> OptLevel \<Rightarrow> PassPipelineConfig \<Rightarrow> pipeline_state \<Rightarrow> pipeline_state option" where
  "run_pipeline env level cfg st =
     (if level = O0 then Some st
      else
        do { st \<leftarrow> (case (pc_entries cfg, pc_mapping cfg, pc_symbols cfg) of
                (Some entries, Some pm, Some symbols) \<Rightarrow> topo_passes env level cfg entries pm symbols st
              | (Some entries, Some pm, None) \<Rightarrow> Some (bare_passes env level cfg entries pm st)
              | _ \<Rightarrow> Some st);
             let st = set_module (strip_noinline (ps_module st)) st;
             let st = (case (pc_symbols cfg, pc_mapping cfg) of
                (Some symbols, Some pm) \<Rightarrow> reorder_step env pm symbols st
              | _ \<Rightarrow> st);
             let st = runStandardPipeline env level (pc_mode cfg) st;
             st \<leftarrow> (case (pc_symbols cfg, pc_mapping cfg) of
                (Some symbols, Some pm) \<Rightarrow> layout_step pm symbols st
              | _ \<Rightarrow> Some st);
             Some (fold (stampFallback env) fallback_passes (pass_summary st)) })"

text \<open>The overload without a configuration.\<close>

definition run_standard :: "pass_env \<Rightarrow> OptLevel \<Rightarrow> pipeline_state \<Rightarrow> pipeline_state" where
  "run_standard env level st = (if level = O0 then st else runStandardPipeline env level Dev st)"

section \<open>Reports and markers\<close>

text \<open>The headers of the reports, and what each operation does to them and to the markers.\<close>

definition hdrs :: "pipeline_state \<Rightarrow> (judging \<Rightarrow> PassReportHeader) option" where
  "hdrs st = map_option rp_headers (ps_reports st)"

definition marks :: "pipeline_state \<Rightarrow> judging \<Rightarrow> u32" where
  "marks st p = fired (ps_md st) (pass_name p)"

named_theorems pipeline_simps "headers and markers after an operation of the pipeline"

lemma hdrs_simps [pipeline_simps]:
  "hdrs (set_module m st) = hdrs st"
  "hdrs (mark p n st) = hdrs st"
  "hdrs (mark_other s n st) = hdrs st"
  "(\<And>r. rp_headers (f r) = rp_headers r) \<Longrightarrow> hdrs (update_reports f st) = hdrs st"
  "hdrs (st\<lparr>ps_log := l\<rparr>) = hdrs st"
  "hdrs (st\<lparr>ps_bench := b\<rparr>) = hdrs st"
  "hdrs (st\<lparr>ps_tags := tg\<rparr>) = hdrs st"
  "hdrs (st\<lparr>ps_applied := a\<rparr>) = hdrs st"
  "hdrs (count_verdict v st) = hdrs st"
  by (simp_all add: hdrs_def set_module_def mark_def mark_other_def update_reports_def option.map_comp o_def
      count_verdict_def split: verdict.split)

lemma marks_simps [pipeline_simps]:
  "marks (set_module m st) = marks st"
  "marks (update_reports f st) = marks st"
  "marks (st\<lparr>ps_log := l\<rparr>) = marks st"
  "marks (st\<lparr>ps_bench := b\<rparr>) = marks st"
  "marks (st\<lparr>ps_tags := tg\<rparr>) = marks st"
  "marks (st\<lparr>ps_applied := a\<rparr>) = marks st"
  "marks (count_verdict v st) = marks st"
  "marks (stampHeader env p n d e t st) = marks st"
  "marks (stamp_timed env p n d e st) = marks st"
  "marks (stamp_off env p s c st) = marks st"
  "marks (mark p n st) = (marks st)(p := marks st p + word_of_int n)"
  by (simp_all add: marks_def [abs_def] set_module_def update_reports_def count_verdict_def stampHeader_def stamp_timed_def
      stamp_off_def mark_def fired_markPassFired fun_eq_iff split: verdict.split)

lemma marks_mark_other:
  "(\<And>p. pass_name p \<noteq> s) \<Longrightarrow> marks (mark_other s n st) = marks st"
  by (simp add: marks_def [abs_def] mark_other_def fired_markPassFired)

lemma other_names [simp]:
  "pass_name p \<noteq> ''PipelineCodeGenPass''" "pass_name p \<noteq> ''ObservabilityPass''"
  "pass_name p \<noteq> ''TopoReorderPass''" "pass_name p \<noteq> ''TopoLayoutPass''" "pass_name p \<noteq> []"
  by (cases p; simp)+

definition header_ok :: "judging \<Rightarrow> int \<Rightarrow> PassReportHeader \<Rightarrow> bool" where
  "header_ok p n h \<longleftrightarrow> hd_passName h = pass_name p \<and> hd_firedCount h = n \<and> hd_fired h = (0 < n)"

lemma hdrs_stamp:
  "hdrs st = Some h \<Longrightarrow> \<exists>x. hdrs (stampHeader env p n d e t st) = Some (h(p := x)) \<and> header_ok p n x"
  "hdrs st = Some h \<Longrightarrow> \<exists>x. hdrs (stamp_timed env p n d e st) = Some (h(p := x)) \<and> header_ok p n x"
  "hdrs st = Some h \<Longrightarrow> \<exists>x. hdrs (stamp_off env p s c st) = Some (h(p := x)) \<and> header_ok p 0 x"
  by (auto simp: hdrs_def stampHeader_def stamp_timed_def stamp_off_def update_reports_def header_ok_def)

text \<open>
  A step of a pass: it stamps its own header with the number it adds to its own marker, and touches
  no other. A neutral step touches none.
\<close>

definition judged :: "judging \<Rightarrow> pipeline_state \<Rightarrow> pipeline_state \<Rightarrow> bool" where
  "judged p st st' \<longleftrightarrow>
     (\<forall>h. hdrs st = Some h \<longrightarrow>
        (\<exists>x n. hdrs st' = Some (h(p := x)) \<and> header_ok p n x \<and> marks st' = (marks st)(p := marks st p + word_of_int n)))"

definition neutral :: "pipeline_state \<Rightarrow> pipeline_state \<Rightarrow> bool" where
  "neutral st st' \<longleftrightarrow> hdrs st' = hdrs st \<and> marks st' = marks st"

lemma judged_timed:
  assumes "hdrs st1 = hdrs st" and "marks st1 = (marks st)(p := marks st p + word_of_int n)"
  shows "judged p st (stamp_timed env p n d e st1)"
  using hdrs_stamp(2) assms unfolding judged_def by (simp add: pipeline_simps) metis

lemma judged_off: "judged p st (stamp_off env p s c st)"
  unfolding judged_def using hdrs_stamp(3) by (simp add: pipeline_simps) (metis add_0_right fun_upd_triv word_of_int_0)

lemma judged_stamp0:
  assumes "hdrs st1 = hdrs st" and "marks st1 = marks st"
  shows "judged p st (stampHeader env p 0 d e t st1)"
  unfolding judged_def using hdrs_stamp(1) [of st1] assms
  by (simp add: pipeline_simps) (metis add_0_right fun_upd_triv word_of_int_0)

lemma judged_timed0:
  assumes "hdrs st1 = hdrs st" and "marks st1 = marks st"
  shows "judged p st (stamp_timed env p 0 d e st1)"
  using judged_stamp0 [OF assms] by (simp add: stamp_timed_def)

lemma containment_judged: "judged ContainmentInterceptionPass st (containment_step env cfg st)"
  by (auto simp: containment_step_def Let_def split_beta pipeline_simps intro!: judged_timed judged_off)

lemma returnSpecialization_judged: "judged ReturnSpecializationPass st (returnSpecialization_step env st)"
  by (auto simp: returnSpecialization_step_def Let_def split_beta pipeline_simps intro!: judged_timed)

lemma inline_judged: "judged TopoInlinePass st (inline_step env level entries pm symbols st)"
  by (auto simp: inline_step_def Let_def split_beta pipeline_simps intro!: judged_timed)

lemma prefetch_judged: "judged PrefetchPass st (prefetch_step env cfg st)"
  by (auto simp: prefetch_step_def Let_def split_beta pipeline_simps intro!: judged_timed judged_off)

lemma loopParallelize_judged: "judged LoopParallelizePass st (loopParallelize_step env cfg st)"
  by (auto simp: loopParallelize_step_def Let_def split_beta pipeline_simps intro!: judged_timed judged_off)

lemma adaptiveDispatch_judged: "judged AdaptiveDispatchPass st (adaptiveDispatch_step env cfg st)"
  by (auto simp: adaptiveDispatch_step_def Let_def split_beta pipeline_simps intro!: judged_timed judged_off split: option.split)

lemma flatten_judged: "judged TopoFlattenPass st (flatten_step env cfg entries pm st)"
  by (auto simp: flatten_step_def Let_def split_beta pipeline_simps intro!: judged_timed)

lemma variant_steps_neutral:
  "neutral st (fst (fold (variant_step env symbols) vs (st, k)))"
proof (induction vs arbitrary: st k)
  case (Cons v vs)
  obtain st1 k1 where s: "variant_step env symbols v (st, k) = (st1, k1)" by (cases "variant_step env symbols v (st, k)")
  have "neutral st (fst (variant_step env symbols v (st, k)))"
    by (auto simp: neutral_def variant_step_def Let_def split_beta pipeline_simps split: option.split)
  with Cons [of st1 k1] s show ?case by (simp add: neutral_def)
qed (simp add: neutral_def)

lemma dataLayout_judged: "judged DataLayoutPass st (dataLayout_step env cfg symbols st)"
proof -
  have "neutral (set_module m st) (fst (fold (variant_step env symbols) vs (set_module m st, 0)))" for m vs
    by (rule variant_steps_neutral)
  then show ?thesis
    by (auto simp: dataLayout_step_def Let_def split_beta neutral_def pipeline_simps
        intro!: judged_timed judged_timed0 judged_off split: option.split FeatureMode.split)
qed

lemma indirection_judged:
  assumes "indirection_step env cfg pm symbols st = Some st'"
  shows "judged IndirectionPass st st'"
proof -
  have marks_apply: "marks (fst (apply_indirection env pm s)) =
      (marks s)(IndirectionPass := marks s IndirectionPass + word_of_int (stats_total (snd (apply_indirection env pm s))))"
    and hdrs_apply: "hdrs (fst (apply_indirection env pm s)) = hdrs s" for s
    by (simp_all add: apply_indirection_def split_beta Let_def pipeline_simps)
  have zero: "stats_total no_indirection = 0" by (simp add: stats_total_def no_indirection_def)
  show ?thesis
    using assms
    by (auto simp: indirection_step_def indirection_auto_def report_indirection_def Let_def split_beta zero
        pipeline_simps marks_apply hdrs_apply
        intro!: judged_timed judged_stamp0 split: option.splits if_splits bind_splits)
qed

lemma parallel_judged:
  assumes "parallel_step env cfg pm symbols st = Some st'"
  shows "judged TopoParallelPass st st'"
  using assms
  by (auto simp: parallel_step_def parallel_auto_def parallel_forced_def Let_def split_beta pipeline_simps
      intro!: judged_timed judged_off split: option.splits if_splits bind_splits)

lemma lifetime_judged:
  assumes "lifetime_step env cfg pm st = Some st'"
  shows "judged LifetimeArenaPass st st'"
  using assms
  by (auto simp: lifetime_step_def lifetime_auto_def lifetime_forced_def Let_def split_beta pipeline_simps
      intro!: judged_timed judged_off split: option.splits if_splits bind_splits)

lemma neutral_steps:
  "neutral st (pipelineCodeGen_step env cfg st)"
  "neutral st (alwaysInliner_step env st)"
  "neutral st (observability_step env cfg st)"
  "neutral st (reorder_step env pm symbols st)"
  "neutral st (runStandardPipeline env level mode st)"
  "neutral st (pass_summary st)"
  "neutral st (set_module m st)"
  "neutral st (st\<lparr>ps_bench := b\<rparr>)"
  by (simp_all add: neutral_def pipelineCodeGen_step_def alwaysInliner_step_def observability_step_def reorder_step_def
      runStandardPipeline_def pass_summary_def Let_def split_beta pipeline_simps marks_mark_other)

lemma neutral_layout: "layout_step pm symbols st = Some st' \<Longrightarrow> neutral st st'"
  by (auto simp: neutral_def layout_step_def Let_def pipeline_simps marks_mark_other split: bind_splits)

text \<open>The passes of \<open>S\<close> have reported what they marked since \<open>m0\<close>; the others have done neither.\<close>

definition reported :: "judging set \<Rightarrow> (judging \<Rightarrow> u32) \<Rightarrow> pipeline_state \<Rightarrow> bool" where
  "reported S m0 st \<longleftrightarrow>
     (\<exists>h. hdrs st = Some h \<and>
        (\<forall>p. if p \<in> S then header_ok p (hd_firedCount (h p)) (h p) \<and> marks st p = m0 p + word_of_int (hd_firedCount (h p))
             else marks st p = m0 p))"

lemma reported_judged:
  assumes "reported S m0 st" and "judged p st st'" and "p \<notin> S"
  shows "reported (insert p S) m0 st'"
proof -
  obtain h where h: "hdrs st = Some h"
      "\<And>q. if q \<in> S then header_ok q (hd_firedCount (h q)) (h q) \<and> marks st q = m0 q + word_of_int (hd_firedCount (h q))
           else marks st q = m0 q"
    using assms(1) unfolding reported_def by blast
  obtain x n where x: "hdrs st' = Some (h(p := x))" "header_ok p n x" "marks st' = (marks st)(p := marks st p + word_of_int n)"
    using assms(2) h(1) unfolding judged_def by blast
  have n: "hd_firedCount x = n" using x(2) by (simp add: header_ok_def)
  have "if q \<in> insert p S then header_ok q (hd_firedCount ((h(p := x)) q)) ((h(p := x)) q) \<and>
          marks st' q = m0 q + word_of_int (hd_firedCount ((h(p := x)) q))
        else marks st' q = m0 q" for q
    using h(2) [of q] h(2) [of p] assms(3) x(2,3) n by (cases "q = p") auto
  with x(1) show ?thesis unfolding reported_def by blast
qed

lemma reported_neutral: "reported S m0 st \<Longrightarrow> neutral st st' \<Longrightarrow> reported S m0 st'"
  unfolding reported_def neutral_def by metis

lemma topo_passes_reported:
  assumes "reported {} m0 st" and "topo_passes env level cfg entries pm symbols st = Some st'"
  shows "reported UNIV m0 st'"
proof -
  define t8 where "t8 = dataLayout_step env cfg symbols (alwaysInliner_step env (prefetch_step env cfg
    (inline_step env level entries pm symbols (returnSpecialization_step env (pipelineCodeGen_step env cfg (containment_step env cfg st))))))"
  obtain t9 t10 t14 where t9: "indirection_step env cfg pm symbols (t8\<lparr>ps_bench := ([], snd (ps_bench t8))\<rparr>) = Some t9"
    and t10: "parallel_step env cfg pm symbols t9 = Some t10"
    and t14: "lifetime_step env cfg pm (observability_step env cfg (adaptiveDispatch_step env cfg (loopParallelize_step env cfg t10))) = Some t14"
    and st': "st' = flatten_step env cfg entries pm t14"
    using assms(2) unfolding topo_passes_def Let_def t8_def by (auto split: bind_splits)
  note r1 = reported_judged [OF assms(1) containment_judged [of st env cfg], simplified]
  note r3 = reported_judged [OF reported_neutral [OF r1 neutral_steps(1) [of _ env cfg]] returnSpecialization_judged [of _ env], simplified]
  note r5 = reported_judged [OF reported_judged [OF r3 inline_judged [of _ env level entries pm symbols]]
      prefetch_judged [of _ env cfg], simplified]
  note r7 = reported_judged [OF reported_neutral [OF r5 neutral_steps(2) [of _ env]] dataLayout_judged [of _ env cfg symbols],
      simplified, folded t8_def]
  note r10 = reported_judged [OF reported_judged [OF reported_neutral [OF r7 neutral_steps(8)] indirection_judged [OF t9]]
      parallel_judged [OF t10], simplified]
  note r12 = reported_judged [OF reported_judged [OF r10 loopParallelize_judged [of _ env cfg]] adaptiveDispatch_judged [of _ env cfg], simplified]
  note r14 = reported_judged [OF reported_judged [OF reported_neutral [OF r12 neutral_steps(3) [of _ env cfg]] lifetime_judged [OF t14]]
      flatten_judged [of _ env cfg entries pm], simplified]
  have "(UNIV :: judging set) = {TopoFlattenPass, LifetimeArenaPass, AdaptiveDispatchPass, LoopParallelizePass, TopoParallelPass,
      IndirectionPass, DataLayoutPass, PrefetchPass, TopoInlinePass, ReturnSpecializationPass, ContainmentInterceptionPass}"
    by (rule UNIV_eq_I, case_tac x) simp_all
  with r14 st' show ?thesis by (simp only:)
qed

lemma fallback_noop: "reported UNIV m0 st \<Longrightarrow> fold (stampFallback env) ps st = st"
proof (induction ps)
  case (Cons p ps)
  have "stampFallback env p st = st"
    using Cons.prems by (auto simp: reported_def stampFallback_def hdrs_def header_ok_def split: option.split)
  with Cons show ?case by simp
qed simp


section \<open>The pipeline returns\<close>

lemma measure_variant_total:
  assumes "benchmarks_return be"
  shows "\<exists>r. measure_variant be m target f w i lvl b s = Some r"
proof (cases "be_clone be m")
  case (Some c)
  obtain v s' where "compileAndMeasure be (f c) target w i lvl None s = Some (v, s')"
    by (rule compileAndMeasure_returns [OF benchmarks_return_all [OF assms]])
  with Some show ?thesis by (simp add: measure_variant_def)
qed (simp add: measure_variant_def)

lemma run_cached_total:
  assumes "benchmarks_return be"
  shows "\<exists>r. run_cached be m target f w i lvl cs = Some r"
proof -
  obtain cache s where cs: "cs = (cache, s)" by (cases cs)
  obtain b s1 where "compileAndMeasure be m target w i lvl None s = Some (b, s1)"
    by (rule compileAndMeasure_returns [OF benchmarks_return_all [OF assms]])
  then show ?thesis
    using measure_variant_total [OF assms] unfolding cs run_cached_def
    by (auto split: option.split intro: option.map_disc_iff)
qed

text \<open>A mapping whose pipeline functions are in the module.\<close>

definition pipelines_live :: "pass_mapping \<Rightarrow> SymbolTable \<Rightarrow> ir_module \<Rightarrow> bool" where
  "pipelines_live pm symbols m \<longleftrightarrow>
     list_all (\<lambda>(_, lb). lb_isPipeline lb \<longrightarrow>
       (case map_of (pm_matched pm) (lb_qualifiedName lb) of None \<Rightarrow> True | Some i \<Rightarrow> find_fn m i \<noteq> None)) (logicBlocks symbols)"

lemma pipelines_live_targets:
  "pipelines_live pm symbols m \<Longrightarrow> list_all (\<lambda>(_, target). target \<noteq> None) (pipeline_targets m pm symbols)"
  by (fastforce simp: pipelines_live_def pipeline_targets_def list_all_iff List.map_filter_def split: option.splits if_splits)

lemma benchmark_search_total:
  assumes "benchmarks_return (pv_bench env)" and "list_all (\<lambda>(_, target). target \<noteq> None) targets"
  shows "\<exists>r. benchmark_search env c m f targets cs = Some r"
  using assms(2)
proof (induction targets arbitrary: cs)
  case (Cons t targets)
  obtain label name where t: "t = (label, Some name)" using Cons.prems by (cases t) auto
  obtain r cs' where "run_cached (pv_bench env) m name f (fc_benchmarkWarmup c) (fc_benchmarkIterations c) 2 cs = Some (r, cs')"
    using run_cached_total [OF assms(1)] by (metis surj_pair)
  moreover obtain x where "benchmark_search env c m f targets cs' = Some x" using Cons.IH [of cs'] Cons.prems by auto
  ultimately show ?case using t by (cases x) (simp split: option.split)
qed simp

lemma live_ids:
  assumes "map if_id (im_functions m') = map if_id (im_functions m)"
  shows "pipelines_live pm symbols m' = pipelines_live pm symbols m"
proof -
  have "find_fn m i = None \<longleftrightarrow> i \<notin> set (map if_id (im_functions m))" for m i
    by (auto simp: find_fn_def find_None_iff)
  then have "(find_fn m' i = None) = (find_fn m i = None)" for i by (simp only: assms)
  then show ?thesis by (simp only: pipelines_live_def)
qed

lemma inline_run_ids:
  "map if_id (im_functions (fst (inline_run order m level entries pm symbols))) = map if_id (im_functions m)"
proof -
  have a: "map if_id (im_functions (fst (annotate_function level cc names e (m, r)))) = map if_id (im_functions m)"
    for cc names e m r
    by (cases e) (auto simp: annotate_function_def ids_upd keeps_id_def split: option.split)
  have as: "map if_id (im_functions (fst (fold (annotate_function level cc names) es (m, r)))) = map if_id (im_functions m)"
    for cc names es m r
  proof (induction es arbitrary: m r)
    case (Cons e es)
    show ?case using Cons [of "fst (annotate_function level cc names e (m, r))"
        "snd (annotate_function level cc names e (m, r))"] a by simp
  qed simp
  have f: "map if_id (im_functions (fst (force_function vis names rec_set c (m, r)))) = map if_id (im_functions m)"
    for vis names rec_set c m r
    by (auto simp: force_function_def ids_upd keeps_id_def split: option.split)
  have fs: "map if_id (im_functions (fst (fold (force_function vis names rec_set) cs (m, r)))) = map if_id (im_functions m)"
    for vis names rec_set cs m r
  proof (induction cs arbitrary: m r)
    case (Cons c cs)
    show ?case using Cons [of "fst (force_function vis names rec_set c (m, r))"
        "snd (force_function vis names rec_set c (m, r))"] f by simp
  qed simp
  show ?thesis
    by (simp add: inline_run_def Let_def split_beta as split: option.split) (metis as fs prod.collapse)
qed

lemma step_modules:
  "ps_module (mark p n st) = ps_module st" "ps_module (mark_other s n st) = ps_module st"
  "ps_module (update_reports g st) = ps_module st" "ps_module (set_module m st) = m"
  "ps_module (stampHeader env p n d e t st) = ps_module st" "ps_module (stamp_timed env p n d e st) = ps_module st"
  "ps_module (stamp_off env p s c st) = ps_module st" "ps_module (count_verdict v st) = ps_module st"
  by (simp_all add: mark_def mark_other_def update_reports_def set_module_def stampHeader_def stamp_timed_def stamp_off_def
      count_verdict_def split: verdict.split)

lemma indirection_module:
  assumes "indirection_step env cfg pm symbols st = Some st'"
  shows "ps_module st' = ps_module st \<or> ps_module st' = fst (pv_indirection env pm (ps_module st))"
  using assms
  by (auto simp: indirection_step_def indirection_auto_def report_indirection_def apply_indirection_def Let_def
      split_beta step_modules split: option.splits if_splits bind_splits)

lemma inline_step_keeps:
  "pipelines_live pm symbols (ps_module (inline_step env level entries pm' symbols' st)) = pipelines_live pm symbols (ps_module st)"
  by (simp add: inline_step_def Let_def split_beta step_modules) (rule live_ids, rule inline_run_ids)

lemma bind_total: "\<exists>r. x = Some r \<Longrightarrow> (\<And>r. \<exists>y. f r = Some y) \<Longrightarrow> \<exists>y. Option.bind x f = Some y"
  by auto

lemma indirection_step_total:
  assumes "benchmarks_return (pv_bench env)" and "pipelines_live pm symbols (ps_module st)"
  shows "\<exists>st'. indirection_step env cfg pm symbols st = Some st'"
proof -
  have "\<exists>r. benchmark_search env c (ps_module st) f (pipeline_targets (ps_module st) pm symbols) (ps_bench st) = Some r" for c f
    by (rule benchmark_search_total [OF assms(1) pipelines_live_targets [OF assms(2)]])
  then have "\<exists>st'. indirection_auto env c pm symbols st = Some st'" for c
    unfolding indirection_auto_def by (rule bind_total) (simp add: split_beta Let_def)
  then show ?thesis by (auto simp: indirection_step_def Let_def split_beta split: option.split)
qed

lemma parallel_step_total:
  assumes "benchmarks_return (pv_bench env)" and "pipelines_live pm symbols (ps_module st)"
  shows "\<exists>st'. parallel_step env cfg pm symbols st = Some st'"
proof -
  have "\<exists>r. benchmark_search env c (ps_module st) f (pipeline_targets (ps_module st) pm symbols) (ps_bench st) = Some r" for c f
    by (rule benchmark_search_total [OF assms(1) pipelines_live_targets [OF assms(2)]])
  then have "\<exists>st'. parallel_auto env c pm symbols st = Some st'" for c
    unfolding parallel_auto_def by (rule bind_total) (simp add: split_beta Let_def)
  then show ?thesis by (auto simp: parallel_step_def split: option.split)
qed

lemma lifetime_step_total:
  assumes "benchmarks_return (pv_bench env)"
  shows "\<exists>st'. lifetime_step env cfg pm st = Some st'"
proof -
  have "list_all (\<lambda>(_, target). target \<noteq> None) (map (\<lambda>owner. (owner, Some owner)) owners)" for owners :: "string list"
    by (simp add: list_all_iff)
  then have "\<exists>r. benchmark_search env c (ps_module st) f (map (\<lambda>owner. (owner, Some owner)) (pv_ownerFunctions env (ps_module st)))
      (ps_bench st) = Some r" for c f
    by (intro benchmark_search_total assms)
  then have "\<exists>st'. lifetime_auto env c pm st = Some st'" for c
    unfolding lifetime_auto_def by (rule bind_total) (simp add: split_beta Let_def)
  then show ?thesis by (auto simp: lifetime_step_def split: option.split)
qed

lemma layout_step_total:
  assumes "stages_given (logicBlocks symbols)"
  shows "\<exists>st'. layout_step pm symbols st = Some st'"
proof -
  have "least_of [] (\<lambda>_. {})" by (simp add: least_of_def)
  from calleeMinStage_least [OF assms this] obtain ms where "calleeMinStage (logicBlocks symbols) [] = Some ms" by auto
  then show ?thesis by (simp add: layout_step_def layout_run_def layout_count_def)
qed

text \<open>The state in which the first pass that may run benchmarks starts.\<close>

definition before_benchmarks ::
  "pass_env \<Rightarrow> OptLevel \<Rightarrow> PassPipelineConfig \<Rightarrow> VisibilityEntry list \<Rightarrow> pass_mapping \<Rightarrow> SymbolTable \<Rightarrow>
   pipeline_state \<Rightarrow> pipeline_state" where
  "before_benchmarks env level cfg entries pm symbols st =
     dataLayout_step env cfg symbols (alwaysInliner_step env (prefetch_step env cfg
       (inline_step env level entries pm symbols (returnSpecialization_step env (pipelineCodeGen_step env cfg
         (containment_step env cfg st))))))"

text \<open>
  What returning needs: no pointer argument is handed round in a circle, and the functions of the
  pipelines are in the module when the benchmarks begin, and after the indirection pass. Neither holds
  of every module: the inliner before erases functions, and then the mapping has a dangling pointer.
\<close>

definition benchmarks_ready ::
  "pass_env \<Rightarrow> OptLevel \<Rightarrow> PassPipelineConfig \<Rightarrow> VisibilityEntry list \<Rightarrow> pass_mapping \<Rightarrow> SymbolTable \<Rightarrow>
   pipeline_state \<Rightarrow> bool" where
  "benchmarks_ready env level cfg entries pm symbols st \<longleftrightarrow>
     benchmarks_return (pv_bench env) \<and>
     (let m = ps_module (before_benchmarks env level cfg entries pm symbols st)
      in pipelines_live pm symbols m \<and> pipelines_live pm symbols (fst (pv_indirection env pm m)))"

lemma topo_passes_total:
  assumes "benchmarks_ready env level cfg entries pm symbols st"
  shows "\<exists>st'. topo_passes env level cfg entries pm symbols st = Some st'"
proof -
  let ?t = "before_benchmarks env level cfg entries pm symbols st"
  have bench: "benchmarks_return (pv_bench env)"
    and live: "pipelines_live pm symbols (ps_module (?t\<lparr>ps_bench := b\<rparr>))"
      "pipelines_live pm symbols (fst (pv_indirection env pm (ps_module (?t\<lparr>ps_bench := b\<rparr>))))" for b
    using assms by (simp_all add: benchmarks_ready_def Let_def)
  obtain t9 where t9: "indirection_step env cfg pm symbols (?t\<lparr>ps_bench := ([], snd (ps_bench ?t))\<rparr>) = Some t9"
    using indirection_step_total [OF bench live(1)] by blast
  then have "pipelines_live pm symbols (ps_module t9)" using indirection_module [OF t9] live by metis
  then obtain t10 where t10: "parallel_step env cfg pm symbols t9 = Some t10" using parallel_step_total [OF bench] by blast
  obtain t14 where t14: "lifetime_step env cfg pm (observability_step env cfg (adaptiveDispatch_step env cfg (loopParallelize_step env cfg t10))) = Some t14"
    using lifetime_step_total [OF bench] by blast
  show ?thesis using t9 t10 t14 by (simp add: topo_passes_def before_benchmarks_def Let_def)
qed

lemma run_pipeline_reported:
  assumes "run_pipeline env level cfg st = Some st'" and "level \<noteq> O0"
    and "pc_entries cfg = Some entries" and "pc_mapping cfg = Some pm" and "pc_symbols cfg = Some symbols"
    and "ps_reports st = Some empty_reports"
  shows "reported UNIV (marks st) st'"
proof -
  obtain t1 t3 where t1: "topo_passes env level cfg entries pm symbols st = Some t1"
    and t3: "layout_step pm symbols (runStandardPipeline env level (pc_mode cfg)
        (reorder_step env pm symbols (set_module (strip_noinline (ps_module t1)) t1))) = Some t3"
    and st': "st' = fold (stampFallback env) fallback_passes (pass_summary t3)"
    using assms(1-5) by (auto simp: run_pipeline_def Let_def split: bind_splits)
  have "reported {} (marks st) st" using assms(6) by (simp add: reported_def hdrs_def)
  from topo_passes_reported [OF this t1] have r1: "reported UNIV (marks st) t1" .
  note r2 = reported_neutral [OF reported_neutral [OF reported_neutral [OF r1 neutral_steps(7)] neutral_steps(4) [of _ env pm symbols]]
      neutral_steps(5) [of _ env level "pc_mode cfg"]]
  have "reported UNIV (marks st) (pass_summary t3)"
    by (rule reported_neutral [OF reported_neutral [OF r2 neutral_layout [OF t3]] neutral_steps(6)])
  then show ?thesis using st' fallback_noop by metis
qed

lemma run_pipeline_total:
  assumes "level \<noteq> O0" and "pc_entries cfg = Some entries" and "pc_mapping cfg = Some pm" and "pc_symbols cfg = Some symbols"
    and "stages_given (logicBlocks symbols)" and "benchmarks_ready env level cfg entries pm symbols st"
  shows "\<exists>st'. run_pipeline env level cfg st = Some st'"
proof -
  obtain t1 where t1: "topo_passes env level cfg entries pm symbols st = Some t1"
    using topo_passes_total [OF assms(6)] by blast
  obtain t3 where "layout_step pm symbols (runStandardPipeline env level (pc_mode cfg)
      (reorder_step env pm symbols (set_module (strip_noinline (ps_module t1)) t1))) = Some t3"
    using layout_step_total [OF assms(5)] by blast
  with assms(1-4) t1 show ?thesis by (simp add: run_pipeline_def Let_def)
qed


section \<open>Auto mode\<close>

lemma benchmark_search_sound:
  assumes "benchmarks_return (pv_bench env)"
    and "cache_current (pv_bench env) (fc_benchmarkWarmup c) (fc_benchmarkIterations c) 2 m (fst cs)"
    and "benchmark_search env c m f targets cs = Some (results, cs')"
  shows "beneficial results \<longrightarrow> (\<exists>label target. (label, Some target) \<in> set targets \<and>
     variant_faster (pv_bench env) (fc_benchmarkWarmup c) (fc_benchmarkIterations c) 2 m f target)"
  using assms(2,3)
proof (induction targets arbitrary: cs results cs')
  case Nil
  then show ?case by (simp add: beneficial_def)
next
  case (Cons t targets)
  obtain cache s where cs: "cs = (cache, s)" by (cases cs)
  obtain label name where t: "t = (label, Some name)" using Cons.prems(2) by (cases t) (auto split: bind_splits)
  let ?w = "fc_benchmarkWarmup c" and ?i = "fc_benchmarkIterations c"
  obtain res cache' s' where run: "run_cached (pv_bench env) m name f ?w ?i 2 (cache, s) = Some (res, cache', s')"
    and current: "cache_current (pv_bench env) ?w ?i 2 m cache'"
    and win: "\<forall>r. res = Some r \<and> br_winner r = Variant \<longrightarrow> variant_faster (pv_bench env) ?w ?i 2 m f name"
    using run_cached_sound [OF assms(1) Cons.prems(1) [unfolded cs fst_conv]] by blast
  note IH = Cons.IH [of "(cache', s')", unfolded fst_conv, OF current]
  show ?case
  proof (cases res)
    case None
    with Cons.prems(2) run cs t show ?thesis using IH by simp blast
  next
    case (Some r)
    show ?thesis
    proof (cases "br_winner r = Variant")
      case True
      with Some win t show ?thesis by auto
    next
      case False
      with Cons.prems(2) run cs t Some obtain rs where "benchmark_search env c m f targets (cache', s') = Some (rs, cs')"
        "results = (label, r) # rs" by auto
      with IH [of rs cs'] False show ?thesis by (auto simp: beneficial_def)
    qed
  qed
qed

text \<open>
  A pass in auto mode leaves the module alone unless one of its candidates was measured faster in the
  transformed clone; then it is run on the module.
\<close>

definition auto_sound ::
  "pass_env \<Rightarrow> FeatureConfig \<Rightarrow> (pass_mapping \<Rightarrow> ir_module \<Rightarrow> ir_module) \<Rightarrow> pass_mapping \<Rightarrow>
   (string \<times> string option) list \<Rightarrow> ir_module \<Rightarrow> ir_module \<Rightarrow> bool" where
  "auto_sound env c pass pm targets m m' \<longleftrightarrow>
     m' = m \<or>
     m' = pass pm m \<and>
     (\<exists>(label, target) \<in> set targets. \<exists>name. target = Some name \<and>
        variant_faster (pv_bench env) (fc_benchmarkWarmup c) (fc_benchmarkIterations c) 2 m
          (\<lambda>clone. pass (rebind_module m pm clone) clone) name)"

lemma verdict_applied: "auto_verdict results = Applied \<longleftrightarrow> beneficial results"
  by (simp add: auto_verdict_def)

lemma bind_SomeE:
  assumes "Option.bind x f = Some y"
  obtains r where "x = Some r" and "f r = Some y"
  using assms by (cases x) auto

lemma auto_soundI:
  assumes "benchmarks_return (pv_bench env)"
    and "cache_current (pv_bench env) (fc_benchmarkWarmup c) (fc_benchmarkIterations c) 2 m (fst cs)"
    and "benchmark_search env c m (\<lambda>clone. pass (rebind_module m pm clone) clone) targets cs = Some (results, cs')"
    and "m' = (if beneficial results then pass pm m else m)"
  shows "auto_sound env c pass pm targets m m'"
  using benchmark_search_sound [OF assms(1,2,3)] assms(4) unfolding auto_sound_def by fastforce

lemma auto_results:
  "indirection_auto env c pm symbols st = Some st' \<Longrightarrow>
     \<exists>results cs'. benchmark_search env c (ps_module st) (\<lambda>clone. fst (pv_indirection env (rebind_module (ps_module st) pm clone) clone))
       (pipeline_targets (ps_module st) pm symbols) (ps_bench st) = Some (results, cs') \<and>
       ps_module st' = (if beneficial results then fst (pv_indirection env pm (ps_module st)) else ps_module st)"
  "parallel_auto env c pm symbols st = Some st' \<Longrightarrow>
     \<exists>results cs'. benchmark_search env c (ps_module st) (\<lambda>clone. fst (pv_parallel env (rebind_module (ps_module st) pm clone) clone))
       (pipeline_targets (ps_module st) pm symbols) (ps_bench st) = Some (results, cs') \<and>
       ps_module st' = (if beneficial results then fst (pv_parallel env pm (ps_module st)) else ps_module st)"
  "lifetime_auto env c pm st = Some st' \<Longrightarrow>
     \<exists>results cs'. benchmark_search env c (ps_module st) (\<lambda>clone. fst (pv_lifetimeArena env (rebind_module (ps_module st) pm clone) clone))
       (map (\<lambda>owner. (owner, Some owner)) (pv_ownerFunctions env (ps_module st))) (ps_bench st) = Some (results, cs') \<and>
       ps_module st' = (if beneficial results then fst (pv_lifetimeArena env pm (ps_module st)) else ps_module st)"
  unfolding indirection_auto_def parallel_auto_def lifetime_auto_def
  by (elim bind_SomeE; auto simp: Let_def split_beta verdict_applied report_indirection_def apply_indirection_def step_modules)+


section \<open>Examples\<close>

text \<open>
  One pipeline function of 100 ns; the parallel pass makes it 50, by a section name the clock knows.
\<close>

definition example_env :: pass_env where
  "example_env =
     \<lparr>pv_bench =
        \<lparr>be_session = True, be_clone = Some, be_functions = (\<lambda>_. [\<lparr>bf_name = ''_open'', bf_params = []\<rparr>]),
         be_alloc_size = (\<lambda>_. 8), be_add_wrapper = (\<lambda>_ m. m), be_erase = (\<lambda>_ m. m), be_optimize = (\<lambda>_ m. m),
         be_write = (\<lambda>_. True), be_compile = (\<lambda>_. True), be_link = (\<lambda>_. True),
         be_execute = (\<lambda>m _ _ _. (0, if im_globals m = [] then ''100.00'' else ''50.00'')),
         be_strtod = (\<lambda>t. (if t = ''100.00'' then Num 100 else Num 50, length t)),
         be_objSuffix = ''.o'', be_exeSuffix = [], be_triple = im_triple, be_arch = Some, be_hostTriple = ''x86_64-linux''\<rparr>,
      pv_categoryOf = (\<lambda>_. Some ''OPT''), pv_elapsed = (\<lambda>_. 1), pv_lookupTarget = (\<lambda>_. True),
      pv_standardPipeline = (\<lambda>_ _ _ m. m), pv_alwaysInlinerAndSROA = (\<lambda>m. m),
      pv_analyzeStages = (\<lambda>_. \<lparr>logicBlockFunctions = [], calleeStageMap = []\<rparr>), pv_setOrder = (\<lambda>_. []),
      pv_toString = (\<lambda>_. []), pv_functionHints = (\<lambda>_. None), pv_containment = (\<lambda>m. (m, 2, [])),
      pv_pipelineCodeGen = (\<lambda>m. (m, 1)), pv_returnSpecialization = (\<lambda>_ m. (m, 0, [])), pv_prefetch = (\<lambda>m. (m, 3, [])),
      pv_generateVariants = (\<lambda>m. (m, [])), pv_layoutBenchmark = (\<lambda>_ _ _ _. None), pv_crossRemark = (\<lambda>_ _ _ _. None),
      pv_runForceSoA = (\<lambda>m. (m, 0)), pv_indirection = (\<lambda>_ m. (m, no_indirection)), pv_diagnose = (\<lambda>_. []),
      pv_parallel = (\<lambda>_ m. (m\<lparr>im_globals := [''spawned'']\<rparr>, 1)), pv_loopParallelize = (\<lambda>m. (m, 0, [])),
      pv_adaptiveDispatch = (\<lambda>m. (m, 0, [])), pv_observability = (\<lambda>m. (m, 0)), pv_lifetimeArena = (\<lambda>_ m. (m, 0)),
      pv_ownerFunctions = (\<lambda>_. [])\<rparr>"


definition example_flow :: SymbolTable where
  "example_flow = empty_table \<lparr>logicBlocks := [(''m::open'', (example_block [''m::step''] [0])\<lparr>lb_isPipeline := True, lb_qualifiedName := ''m::open''\<rparr>)]\<rparr>"

definition example_auto :: FeatureConfig where
  "example_auto = \<lparr>fc_enabled = True, fc_mode = Auto, fc_benchmarkWarmup = 3, fc_benchmarkIterations = 7\<rparr>"

definition example_cfg :: PassPipelineConfig where
  "example_cfg = \<lparr>pc_entries = Some example_entries, pc_mapping = Some example_mapping, pc_symbols = Some example_flow,
     pc_mode = Dev, pc_parallelCfg = Some example_auto, pc_adaptiveCfg = None, pc_dataLayoutCfg = None, pc_indirectionCfg = None,
     pc_indirectionExplicit = True, pc_observabilityCfg = None, pc_lifetimeCfg = None, pc_loopParallelCfg = None,
     pc_prefetchCfg = Some example_auto, pc_pipelineCfg = None, pc_containmentCfg = Some example_auto\<rparr>"

definition example_start :: pipeline_state where
  "example_start = \<lparr>ps_module = example_module, ps_md = [], ps_tags = [], ps_reports = Some empty_reports,
     ps_bench = ([], \<lparr>bs_counter = 0, bs_files = {}\<rparr>), ps_applied = 0, ps_skippedNoBenefit = 0, ps_skippedBenchFail = 0, ps_log = []\<rparr>"

lemma example_env_returns: "benchmarks_return (pv_bench example_env)"
  by (auto simp: benchmarks_return_def args_ranked_def example_env_def users_of_def)

lemma example_fields:
  "pc_entries example_cfg = Some example_entries" "pc_mapping example_cfg = Some example_mapping"
  "pc_symbols example_cfg = Some example_flow" "pc_parallelCfg example_cfg = Some example_auto"
  "stages_given (logicBlocks example_flow)"
  "ps_reports example_start = Some empty_reports" "ps_md example_start = []" "ps_module example_start = example_module"
  "fst (ps_bench example_start) = []" "fc_enabled example_auto" "fc_mode example_auto = Auto"
  by (simp_all add: example_cfg_def stages_given_def example_flow_def example_block_def example_start_def
      example_auto_def)

lemma example_live: "pipelines_live example_mapping example_flow (ps_module example_start)"
  by code_simp

lemma example_ready: "benchmarks_ready example_env O2 example_cfg example_entries example_mapping example_flow example_start"
proof -
  have keep: "fst (pv_containment example_env m) = m" "fst (pv_pipelineCodeGen example_env m) = m"
    "fst (pv_returnSpecialization example_env True m) = m" "fst (pv_prefetch example_env m) = m"
    "pv_alwaysInlinerAndSROA example_env m = m" "fst (pv_indirection example_env pm m) = m" for m pm
    by (simp_all add: example_env_def)
  have off: "pc_dataLayoutCfg example_cfg = None" by (simp add: example_cfg_def)
  have "pipelines_live example_mapping example_flow
      (ps_module (before_benchmarks example_env O2 example_cfg example_entries example_mapping example_flow example_start))"
    unfolding before_benchmarks_def
    by (simp add: dataLayout_step_def off alwaysInliner_step_def prefetch_step_def Let_def split_beta step_modules keep inline_step_keeps)
      (simp add: returnSpecialization_step_def pipelineCodeGen_step_def containment_step_def Let_def split_beta step_modules keep example_live)
  then show ?thesis by (simp add: benchmarks_ready_def Let_def keep example_env_returns)
qed



section \<open>Where the pipeline goes wrong\<close>

text \<open>An accepted layout erases the function the mapping still points to.\<close>

lemma accepted_layout_dangles:
  "soa_wins result \<Longrightarrow> find_fn (settle_variant v result m) (lv_aosFn v) = None"
  by (simp add: settle_variant_def find_fn_def eraseFromParent_def find_None_iff)

text \<open>Without symbols the flatten pass fires and its report says that it did not.\<close>

lemma bare_run_misreports:
  "\<exists>st' r. run_pipeline example_env O2 (example_cfg\<lparr>pc_symbols := None\<rparr>) example_start = Some st' \<and> ps_reports st' = Some r \<and>
     fired (ps_md st') ''TopoFlattenPass'' = 1 \<and> \<not> hd_fired (rp_headers r TopoFlattenPass)"
proof -
  have "map_option (\<lambda>st. (fired (ps_md st) ''TopoFlattenPass'', map_option (\<lambda>r. hd_fired (rp_headers r TopoFlattenPass)) (ps_reports st)))
      (run_pipeline example_env O2 (example_cfg\<lparr>pc_symbols := None\<rparr>) example_start) = Some (1, Some False)"
    by code_simp
  then show ?thesis by auto
qed

end
