(* ===== verification/PipelineCodeGen.thy ===== *)
theory PipelineCodeGen
  imports FlowSymbols "HOL-Library.Monad_Syntax"
begin

text \<open>
  lib/Transforms/PipelineCodeGenPass.cpp: the body of a pipeline function, generated from the graph of its
  stages. A body is a list of instructions whose result is the register of that position, and a return
  when there is one. The graph utilities of topo-core and the demangler are parameters. A failure leaves
  the function with the instructions generated so far and no return.
\<close>

section \<open>Code\<close>

datatype cg_type = TVoid | TPointer | TStruct "cg_type list" | TScalar nat

datatype cg_value = Param nat | Reg nat

datatype cg_instr =
  CgCall string "cg_value list"
| CgExtract cg_value nat
| CgAlloca cg_type
| CgLoad cg_type cg_value

datatype cg_ret = RetVoid | Ret cg_value

record cg_param =
  gp_type :: cg_type
  gp_sret :: "cg_type option"

text \<open>A body of the source program is known by the functions it calls directly, a generated one by its code.\<close>

datatype cg_body = Source "string list" | Generated "cg_instr list" "cg_ret option"

record cg_function =
  gf_name :: string
  gf_params :: "cg_param list"
  gf_return :: cg_type
  gf_body :: "cg_body option"

type_synonym cg_module = "cg_function list"

definition cg_find :: "cg_module \<Rightarrow> string \<Rightarrow> cg_function option" where
  "cg_find m n = find (\<lambda>f. gf_name f = n) m"

record codegen_env =
  cv_demangle :: "string \<Rightarrow> string"
  cv_groupNodesByStage :: "PipelineAnalysis \<Rightarrow> (int \<times> string list) list"
  cv_resolveNodeCallee :: "string \<Rightarrow> string list \<Rightarrow> string"
  cv_isSourceNode :: "string \<Rightarrow> string list \<Rightarrow> bool"
  cv_findUpstreamNodes :: "string \<Rightarrow> FlowEdge list \<Rightarrow> string list"

type_synonym cg_mapping = "(string \<times> string option) list"

definition resolveFunction :: "cg_module \<Rightarrow> cg_mapping \<Rightarrow> string \<Rightarrow> cg_function option" where
  "resolveFunction m mp n = (case map_of mp n of Some (Some f) \<Rightarrow> cg_find m f | _ \<Rightarrow> None)"

definition isPipelineStub :: "codegen_env \<Rightarrow> cg_function \<Rightarrow> bool" where
  "isPipelineStub env f =
     (case gf_body f of
        Some (Source callees) \<Rightarrow>
          (\<exists>c\<in>set callees. contains ''topo::detail::pipeline_placeholder'' (cv_demangle env c) \<or>
             contains ''topo::pipeline::placeholder'' (cv_demangle env c))
      | Some (Generated code r) \<Rightarrow>
          (\<exists>i\<in>set code. case i of CgCall c args \<Rightarrow> contains ''topo::detail::pipeline_placeholder'' (cv_demangle env c) \<or>
             contains ''topo::pipeline::placeholder'' (cv_demangle env c) | _ \<Rightarrow> False)
      | None \<Rightarrow> False)"

section \<open>Arguments\<close>

text \<open>The first index from a list with the property.\<close>

definition first_index :: "(nat \<Rightarrow> bool) \<Rightarrow> nat \<Rightarrow> nat option" where
  "first_index P n = find P [0..<n]"

text \<open>
  A source node: the first parameter of the pipeline of the same type that no argument is yet, or else the
  parameter at the same position, whatever its type.
\<close>

definition source_arg :: "cg_param list \<Rightarrow> cg_param list \<Rightarrow> nat \<Rightarrow> cg_value list \<Rightarrow> cg_value option" where
  "source_arg pipeline callee i args =
     (case first_index (\<lambda>k. gp_type (pipeline ! k) = gp_type (callee ! i) \<and> Param k \<notin> set args) (length pipeline) of
        Some k \<Rightarrow> Some (Param k)
      | None \<Rightarrow> if i < length pipeline then Some (Param i) else None)"

fun source_args :: "cg_param list \<Rightarrow> cg_param list \<Rightarrow> nat list \<Rightarrow> cg_value list \<Rightarrow> cg_value list option" where
  "source_args pipeline callee [] args = Some args"
| "source_args pipeline callee (i # is) args =
     (case source_arg pipeline callee i args of
        None \<Rightarrow> None
      | Some v \<Rightarrow> source_args pipeline callee is (args @ [v]))"

definition matchSourceNodeArgs :: "cg_param list \<Rightarrow> cg_param list \<Rightarrow> cg_value list" where
  "matchSourceNodeArgs pipeline callee =
     (case source_args pipeline callee [0..<length callee] [] of None \<Rightarrow> [] | Some args \<Rightarrow> args)"

text \<open>The state of the generation: the code and the output of each node with its type.\<close>

record cg_state =
  cs_code :: "cg_instr list"
  cs_outputs :: "(string \<times> cg_type \<times> cg_value) list"

definition emit :: "cg_instr \<Rightarrow> cg_instr list \<Rightarrow> cg_instr list \<times> cg_value" where
  "emit i code = (code @ [i], Reg (length code))"

text \<open>The values the upstream nodes give: the fields of a structure, or the value.\<close>

fun extract_fields :: "cg_value \<Rightarrow> cg_type list \<Rightarrow> nat \<Rightarrow> cg_instr list \<Rightarrow> cg_instr list \<times> (cg_type \<times> cg_value) list" where
  "extract_fields v [] fi code = (code, [])"
| "extract_fields v (t # ts) fi code =
     (case emit (CgExtract v fi) code of
        (code, r) \<Rightarrow> (case extract_fields v ts (Suc fi) code of (code, vs) \<Rightarrow> (code, (t, r) # vs)))"

definition output_values :: "cg_type \<times> cg_value \<Rightarrow> cg_instr list \<Rightarrow> cg_instr list \<times> (cg_type \<times> cg_value) list" where
  "output_values out code =
     (case out of (ty, v) \<Rightarrow> (case ty of TStruct ts \<Rightarrow> extract_fields v ts 0 code | _ \<Rightarrow> (code, [(ty, v)])))"

fun available_values :: "(string \<times> cg_type \<times> cg_value) list \<Rightarrow> string list \<Rightarrow> cg_instr list \<Rightarrow> cg_instr list \<times> (cg_type \<times> cg_value) list" where
  "available_values outputs [] code = (code, [])"
| "available_values outputs (u # us) code =
     (case map_of outputs u of
        None \<Rightarrow> available_values outputs us code
      | Some out \<Rightarrow>
          (case output_values out code of
             (code, vs) \<Rightarrow> (case available_values outputs us code of (code, ws) \<Rightarrow> (code, vs @ ws))))"

text \<open>One parameter of a node: a buffer for a structure return, an unused value of its type, or the pipeline's parameter.\<close>

definition node_arg ::
  "cg_param list \<Rightarrow> (cg_type \<times> cg_value) list \<Rightarrow> cg_param \<Rightarrow> cg_instr list \<times> nat list \<Rightarrow> (cg_value \<times> cg_instr list \<times> nat list) option" where
  "node_arg pipeline available p st =
     (case st of (code, used) \<Rightarrow>
        (case gp_sret p of
           Some sretTy \<Rightarrow> (case emit (CgAlloca sretTy) code of (code, r) \<Rightarrow> Some (r, code, used))
         | None \<Rightarrow>
             (case first_index (\<lambda>vi. vi \<notin> set used \<and> fst (available ! vi) = gp_type p) (length available) of
                Some vi \<Rightarrow> Some (snd (available ! vi), code, vi # used)
              | None \<Rightarrow>
                  (case first_index (\<lambda>k. gp_type (pipeline ! k) = gp_type p) (length pipeline) of
                     Some k \<Rightarrow> Some (Param k, code, used)
                   | None \<Rightarrow> None))))"

text \<open>The code emitted before a failure stays.\<close>

fun node_args ::
  "cg_param list \<Rightarrow> (cg_type \<times> cg_value) list \<Rightarrow> cg_param list \<Rightarrow> cg_value list \<Rightarrow> cg_instr list \<times> nat list
   \<Rightarrow> cg_instr list \<times> cg_value list option" where
  "node_args pipeline available [] args st = (fst st, Some args)"
| "node_args pipeline available (p # ps) args st =
     (case node_arg pipeline available p st of
        None \<Rightarrow> (fst st, None)
      | Some (v, code, used) \<Rightarrow> node_args pipeline available ps (args @ [v]) (code, used))"

section \<open>One node\<close>

definition is_alloca :: "cg_instr list \<Rightarrow> cg_value \<Rightarrow> bool" where
  "is_alloca code v = (case v of Reg r \<Rightarrow> r < length code \<and> (case code ! r of CgAlloca t \<Rightarrow> True | _ \<Rightarrow> False) | Param _ \<Rightarrow> False)"

definition has_sret :: "cg_function \<Rightarrow> bool" where
  "has_sret f \<longleftrightarrow> gf_params f \<noteq> [] \<and> gp_sret (gf_params f ! 0) \<noteq> None"

text \<open>The call and the output of the node.\<close>

definition call_node :: "string \<Rightarrow> cg_function \<Rightarrow> cg_value list \<Rightarrow> cg_state \<Rightarrow> cg_state" where
  "call_node node callee args s =
     (case emit (CgCall (gf_name callee) args) (cs_code s) of
        (code, r) \<Rightarrow>
          (if has_sret callee \<and> args \<noteq> [] \<and> is_alloca (cs_code s) (args ! 0)
           then (let sretTy = the (gp_sret (gf_params callee ! 0))
                 in case emit (CgLoad sretTy (args ! 0)) code of
                      (code, l) \<Rightarrow> \<lparr>cs_code = code, cs_outputs = AList.update node (sretTy, l) (cs_outputs s)\<rparr>)
           else \<lparr>cs_code = code, cs_outputs = AList.update node (gf_return callee, r) (cs_outputs s)\<rparr>))"

text \<open>\<open>Inl\<close> is the failure with the code so far.\<close>

definition generate_node ::
  "codegen_env \<Rightarrow> cg_module \<Rightarrow> cg_mapping \<Rightarrow> cg_function \<Rightarrow> FlowBlock \<Rightarrow> PipelineAnalysis \<Rightarrow> string \<Rightarrow> cg_state \<Rightarrow> cg_instr list + cg_state" where
  "generate_node env m mp pf lb an node s =
     (let resolved = cv_resolveNodeCallee env node (fb_calledFunctions lb);
          qualified = (if resolved = [] then node else resolved)
      in case resolveFunction m mp qualified of
           None \<Rightarrow> Inr s
         | Some callee \<Rightarrow>
             (if cv_isSourceNode env node (an_sourceNodes an)
              then (let args = matchSourceNodeArgs (gf_params pf) (gf_params callee)
                    in if args = [] \<and> gf_params callee \<noteq> [] then Inl (cs_code s) else Inr (call_node node callee args s))
              else
                (case available_values (cs_outputs s) (cv_findUpstreamNodes env node (fb_edges lb)) (cs_code s) of
                   (code, available) \<Rightarrow>
                     (case node_args (gf_params pf) available (gf_params callee) [] (code, []) of
                        (code, None) \<Rightarrow> Inl code
                      | (code, Some args) \<Rightarrow> Inr (call_node node callee args (s\<lparr>cs_code := code\<rparr>))))))"

fun generate_nodes ::
  "codegen_env \<Rightarrow> cg_module \<Rightarrow> cg_mapping \<Rightarrow> cg_function \<Rightarrow> FlowBlock \<Rightarrow> PipelineAnalysis \<Rightarrow> string list \<Rightarrow> cg_state \<Rightarrow> cg_instr list + cg_state" where
  "generate_nodes env m mp pf lb an [] s = Inr s"
| "generate_nodes env m mp pf lb an (n # ns) s =
     (case generate_node env m mp pf lb an n s of
        Inl code \<Rightarrow> Inl code
      | Inr s \<Rightarrow> generate_nodes env m mp pf lb an ns s)"

section \<open>The return and the pass\<close>

definition generate_return :: "cg_type \<Rightarrow> string \<Rightarrow> cg_state \<Rightarrow> cg_instr list \<times> cg_ret option" where
  "generate_return retTy terminal s =
     (case map_of (cs_outputs s) terminal of
        None \<Rightarrow> (cs_code s, if retTy = TVoid then Some RetVoid else None)
      | Some (ty, v) \<Rightarrow>
          (if retTy = TVoid then (cs_code s, Some RetVoid)
           else if ty = retTy then (cs_code s, Some (Ret v))
           else (case ty of
                   TStruct ts \<Rightarrow>
                     (case first_index (\<lambda>i. ts ! i = retTy) (length ts) of
                        Some i \<Rightarrow> (case emit (CgExtract v i) (cs_code s) of (code, r) \<Rightarrow> (code, Some (Ret r)))
                      | None \<Rightarrow> (cs_code s, None))
                 | _ \<Rightarrow> (cs_code s, None))))"

text \<open>The new body, and whether it is complete.\<close>

definition generatePipelineBody ::
  "codegen_env \<Rightarrow> cg_module \<Rightarrow> cg_mapping \<Rightarrow> cg_function \<Rightarrow> FlowBlock \<Rightarrow> PipelineAnalysis \<Rightarrow> cg_body \<times> bool" where
  "generatePipelineBody env m mp pf lb an =
     (case generate_nodes env m mp pf lb an (concat (map snd (cv_groupNodesByStage env an))) \<lparr>cs_code = [], cs_outputs = []\<rparr> of
        Inl code \<Rightarrow> (Generated code None, False)
      | Inr s \<Rightarrow> (case generate_return (gf_return pf) (an_terminalNode an) s of (code, r) \<Rightarrow> (Generated code r, r \<noteq> None)))"

definition set_body :: "string \<Rightarrow> cg_body \<Rightarrow> cg_module \<Rightarrow> cg_module" where
  "set_body n b m = map (\<lambda>f. if gf_name f = n then f\<lparr>gf_body := Some b\<rparr> else f) m"

fun codegen_blocks :: "codegen_env \<Rightarrow> cg_mapping \<Rightarrow> (string \<times> FlowBlock) list \<Rightarrow> cg_module \<Rightarrow> int \<Rightarrow> cg_module \<times> int" where
  "codegen_blocks env mp [] m generated = (m, generated)"
| "codegen_blocks env mp ((name, lb) # lbs) m generated =
     (case fb_analysis lb of
        None \<Rightarrow> codegen_blocks env mp lbs m generated
      | Some an \<Rightarrow>
          (if \<not> fb_isPipeline lb then codegen_blocks env mp lbs m generated
           else (case resolveFunction m mp (fb_qualifiedName lb) of
                   None \<Rightarrow> codegen_blocks env mp lbs m generated
                 | Some pf \<Rightarrow>
                     (if gf_body pf = None \<or> \<not> isPipelineStub env pf then codegen_blocks env mp lbs m generated
                      else (case generatePipelineBody env m mp pf lb an of
                              (b, ok) \<Rightarrow>
                                (if ok then codegen_blocks env mp lbs (set_body (gf_name pf) b m) (generated + 1)
                                 else (set_body (gf_name pf) b m, -1)))))))"

definition codegen_run :: "codegen_env \<Rightarrow> FlowSymbols \<Rightarrow> cg_mapping \<Rightarrow> cg_module \<Rightarrow> cg_module \<times> int" where
  "codegen_run env symbols mp m = codegen_blocks env mp (fl_blocks symbols) m 0"

section \<open>Types of code\<close>

text \<open>
  The check LLVM's verifier makes: an operand is a parameter or an earlier instruction, a call has the
  argument types of its callee, a field exists, a load is from a pointer.
\<close>

definition value_type :: "cg_param list \<Rightarrow> cg_type list \<Rightarrow> cg_value \<Rightarrow> cg_type option" where
  "value_type params tys v =
     (case v of
        Param k \<Rightarrow> if k < length params then Some (gp_type (params ! k)) else None
      | Reg r \<Rightarrow> if r < length tys then Some (tys ! r) else None)"

definition instr_type :: "cg_module \<Rightarrow> cg_param list \<Rightarrow> cg_type list \<Rightarrow> cg_instr \<Rightarrow> cg_type option" where
  "instr_type m params tys i =
     (case i of
        CgCall f args \<Rightarrow>
          (case cg_find m f of
             None \<Rightarrow> None
           | Some g \<Rightarrow> if map (value_type params tys) args = map (\<lambda>p. Some (gp_type p)) (gf_params g) then Some (gf_return g) else None)
      | CgExtract v k \<Rightarrow>
          (case value_type params tys v of Some (TStruct ts) \<Rightarrow> if k < length ts then Some (ts ! k) else None | _ \<Rightarrow> None)
      | CgAlloca t \<Rightarrow> Some TPointer
      | CgLoad t v \<Rightarrow> if value_type params tys v = Some TPointer then Some t else None)"

fun code_types :: "cg_module \<Rightarrow> cg_param list \<Rightarrow> cg_type list \<Rightarrow> cg_instr list \<Rightarrow> cg_type list option" where
  "code_types m params tys [] = Some tys"
| "code_types m params tys (i # is) =
     (case instr_type m params tys i of None \<Rightarrow> None | Some t \<Rightarrow> code_types m params (tys @ [t]) is)"

definition typed_code :: "cg_module \<Rightarrow> cg_param list \<Rightarrow> cg_instr list \<Rightarrow> cg_type list \<Rightarrow> bool" where
  "typed_code m params code tys \<longleftrightarrow> code_types m params [] code = Some tys"

lemma code_types_append:
  "code_types m params tys (xs @ ys) =
     (case code_types m params tys xs of None \<Rightarrow> None | Some tys' \<Rightarrow> code_types m params tys' ys)"
  by (induction xs arbitrary: tys) (auto split: option.split)

lemma code_types_length: "code_types m params tys xs = Some tys' \<Longrightarrow> length tys' = length tys + length xs"
  by (induction xs arbitrary: tys) (auto split: option.splits)

lemma typed_length: "typed_code m params code tys \<Longrightarrow> length tys = length code"
  using code_types_length by (fastforce simp: typed_code_def)

lemma typed_Nil: "typed_code m params [] []"
  by (simp add: typed_code_def)

text \<open>Emitting an instruction of a type gives a register of that type; values keep their types.\<close>

lemma value_type_more: "value_type params tys v = Some t \<Longrightarrow> value_type params (tys @ us) v = Some t"
  by (auto simp: value_type_def nth_append split: cg_value.splits if_splits)

lemma typed_emit:
  assumes "typed_code m params code tys" and "instr_type m params tys i = Some t" and "emit i code = (code', v)"
  shows "typed_code m params code' (tys @ [t])" and "value_type params (tys @ [t]) v = Some t"
  using assms typed_length [OF assms(1)]
  by (auto simp: typed_code_def emit_def code_types_append value_type_def nth_append)

definition outputs_typed :: "cg_param list \<Rightarrow> cg_type list \<Rightarrow> (string \<times> cg_type \<times> cg_value) list \<Rightarrow> bool" where
  "outputs_typed params tys outputs \<longleftrightarrow> (\<forall>(n, t, v)\<in>set outputs. value_type params tys v = Some t)"

definition values_typed :: "cg_param list \<Rightarrow> cg_type list \<Rightarrow> (cg_type \<times> cg_value) list \<Rightarrow> bool" where
  "values_typed params tys vs \<longleftrightarrow> (\<forall>(t, v)\<in>set vs. value_type params tys v = Some t)"

lemma values_typed_more: "values_typed params tys vs \<Longrightarrow> values_typed params (tys @ us) vs"
  by (auto simp: values_typed_def intro: value_type_more)

lemma outputs_typed_more: "outputs_typed params tys os \<Longrightarrow> outputs_typed params (tys @ us) os"
  by (auto simp: outputs_typed_def intro: value_type_more)

lemma extract_fields_typed:
  assumes "typed_code m params code tys" and "value_type params tys v = Some (TStruct all)" and "drop fi all = ts"
    and "extract_fields v ts fi code = (code', vs)"
  shows "\<exists>us. typed_code m params code' (tys @ us) \<and> values_typed params (tys @ us) vs"
  using assms
proof (induction ts arbitrary: fi code tys vs)
  case Nil
  then show ?case by (intro exI [of _ "[]"]) (simp add: values_typed_def)
next
  case (Cons t ts)
  obtain c r where e: "emit (CgExtract v fi) code = (c, r)" by fastforce
  obtain ws where x: "extract_fields v ts (Suc fi) c = (code', ws)" "vs = (t, r) # ws"
    using Cons.prems(4) e by (auto split: prod.splits)
  have fi: "fi < length all" "all ! fi = t" "drop (Suc fi) all = ts"
    using Cons.prems(3) by (metis drop_eq_Nil leI list.distinct(1), metis nth_via_drop, metis drop_Suc tl_drop list.sel(3))
  have "instr_type m params tys (CgExtract v fi) = Some t" using Cons.prems(2) fi by (simp add: instr_type_def)
  note t = typed_emit [OF Cons.prems(1) this e]
  obtain us where us: "typed_code m params code' ((tys @ [t]) @ us)" "values_typed params ((tys @ [t]) @ us) ws"
    using Cons.IH [OF t(1) value_type_more [OF Cons.prems(2)] fi(3) x(1)] by blast
  then show ?case using value_type_more [OF t(2), of us] x(2)
    by (intro exI [of _ "t # us"]) (simp add: values_typed_def)
qed

lemma output_values_typed:
  assumes "typed_code m params code tys" and "value_type params tys (snd out) = Some (fst out)" and "output_values out code = (code', vs)"
  shows "\<exists>us. typed_code m params code' (tys @ us) \<and> values_typed params (tys @ us) vs"
proof (cases "fst out")
  case (TStruct ts)
  then show ?thesis using assms extract_fields_typed [OF assms(1), of "snd out" ts 0 ts code' vs]
    by (auto simp: output_values_def split: prod.splits)
qed (use assms in \<open>intro exI [of _ "[]"]; auto simp: output_values_def values_typed_def split: prod.splits\<close>)+

lemma available_values_typed:
  assumes "typed_code m params code tys" and "outputs_typed params tys outputs" and "available_values outputs us code = (code', vs)"
  shows "\<exists>zs. typed_code m params code' (tys @ zs) \<and> values_typed params (tys @ zs) vs"
  using assms
proof (induction us arbitrary: code tys vs)
  case Nil
  then show ?case by (intro exI [of _ "[]"]) (simp add: values_typed_def)
next
  case (Cons u us)
  show ?case
  proof (cases "map_of outputs u")
    case None
    then show ?thesis using Cons by simp
  next
    case (Some out)
    obtain c as where o: "output_values out code = (c, as)" by fastforce
    obtain ws where w: "available_values outputs us c = (code', ws)" "vs = as @ ws"
      using Cons.prems(3) Some o by (auto split: prod.splits)
    have "value_type params tys (snd out) = Some (fst out)"
      using Some Cons.prems(2) map_of_SomeD by (fastforce simp: outputs_typed_def)
    from output_values_typed [OF Cons.prems(1) this o]
    obtain ys where ys: "typed_code m params c (tys @ ys)" "values_typed params (tys @ ys) as" by blast
    obtain zs where zs: "typed_code m params code' ((tys @ ys) @ zs)" "values_typed params ((tys @ ys) @ zs) ws"
      using Cons.IH [OF ys(1) outputs_typed_more [OF Cons.prems(2)] w(1)] by blast
    then show ?thesis using values_typed_more [OF ys(2), of zs] w(2)
      by (intro exI [of _ "ys @ zs"]) (auto simp: values_typed_def)
  qed
qed

section \<open>The generated body is well-typed\<close>

lemma first_index_Some: "first_index P n = Some i \<Longrightarrow> i < n \<and> P i"
  by (auto simp: first_index_def find_Some_iff)

definition args_typed :: "cg_param list \<Rightarrow> cg_type list \<Rightarrow> cg_value list \<Rightarrow> cg_param list \<Rightarrow> bool" where
  "args_typed params tys args ps \<longleftrightarrow> map (value_type params tys) args = map (\<lambda>p. Some (gp_type p)) ps"

lemma args_typed_more: "args_typed params tys args ps \<Longrightarrow> args_typed params (tys @ us) args ps"
proof -
  assume a: "args_typed params tys args ps"
  have "length args = length ps" using a map_eq_imp_length_eq by (auto simp: args_typed_def)
  then show ?thesis using a
    by (induction args ps rule: list_induct2) (auto simp: args_typed_def intro: value_type_more)
qed

text \<open>A parameter for a structure return is a pointer.\<close>

definition sret_pointers :: "cg_param list \<Rightarrow> bool" where
  "sret_pointers ps \<longleftrightarrow> (\<forall>p\<in>set ps. gp_sret p \<noteq> None \<longrightarrow> gp_type p = TPointer)"

lemma node_arg_typed:
  assumes "typed_code m pipeline code tys" and "values_typed pipeline tys available" and "gp_sret p \<noteq> None \<longrightarrow> gp_type p = TPointer"
    and "node_arg pipeline available p (code, used) = Some (v, code', used')"
  shows "\<exists>us. typed_code m pipeline code' (tys @ us) \<and> value_type pipeline (tys @ us) v = Some (gp_type p)"
proof (cases "gp_sret p")
  case (Some t)
  then have e: "emit (CgAlloca t) code = (code', v)" using assms(4) by (auto simp: node_arg_def split: prod.splits)
  have "instr_type m pipeline tys (CgAlloca t) = Some TPointer" by (simp add: instr_type_def)
  from typed_emit [OF assms(1) this e] show ?thesis using Some assms(3) by auto
next
  case None
  show ?thesis
  proof (cases "first_index (\<lambda>vi. vi \<notin> set used \<and> fst (available ! vi) = gp_type p) (length available)")
    case (Some vi)
    then have "v = snd (available ! vi)" "code' = code" using assms(4) None by (auto simp: node_arg_def)
    moreover have "available ! vi \<in> set available" "fst (available ! vi) = gp_type p" using first_index_Some [OF Some] by auto
    then have "value_type pipeline tys (snd (available ! vi)) = Some (gp_type p)"
      using assms(2) unfolding values_typed_def by (metis (mono_tags, lifting) case_prod_beta)
    ultimately show ?thesis using assms(1) by (intro exI [of _ "[]"]) simp
  next
    case f: None
    then obtain k where k: "first_index (\<lambda>k. gp_type (pipeline ! k) = gp_type p) (length pipeline) = Some k" "v = Param k" "code' = code"
      using assms(4) None by (auto simp: node_arg_def split: option.splits)
    then show ?thesis using assms(1) first_index_Some [OF k(1)] by (intro exI [of _ "[]"]) (simp add: value_type_def)
  qed
qed

lemma node_args_typed:
  assumes "typed_code m pipeline code tys" and "values_typed pipeline tys available" and "sret_pointers ps"
    and "args_typed pipeline tys args qs" and "node_args pipeline available ps args (code, used) = (code', r)"
  shows "\<exists>us. typed_code m pipeline code' (tys @ us) \<and> (\<forall>args'. r = Some args' \<longrightarrow> args_typed pipeline (tys @ us) args' (qs @ ps))"
  using assms
proof (induction ps arbitrary: code tys args qs used)
  case Nil
  then show ?case by (intro exI [of _ "[]"]) auto
next
  case (Cons p ps)
  show ?case
  proof (cases "node_arg pipeline available p (code, used)")
    case None
    then show ?thesis using Cons.prems by (intro exI [of _ "[]"]) auto
  next
    case (Some x)
    obtain v c u where x: "x = (v, c, u)" by (cases x)
    have "gp_sret p \<noteq> None \<longrightarrow> gp_type p = TPointer" using Cons.prems(3) by (simp add: sret_pointers_def)
    from node_arg_typed [OF Cons.prems(1,2) this Some [unfolded x]]
    obtain us where us: "typed_code m pipeline c (tys @ us)" "value_type pipeline (tys @ us) v = Some (gp_type p)" by blast
    have "args_typed pipeline (tys @ us) (args @ [v]) (qs @ [p])"
      using args_typed_more [OF Cons.prems(4), of us] us(2) by (simp add: args_typed_def)
    moreover have "node_args pipeline available ps (args @ [v]) (c, u) = (code', r)" using Cons.prems(5) Some x by simp
    moreover have "sret_pointers ps" using Cons.prems(3) by (simp add: sret_pointers_def)
    ultimately obtain zs where "typed_code m pipeline code' ((tys @ us) @ zs)"
      "\<forall>args'. r = Some args' \<longrightarrow> args_typed pipeline ((tys @ us) @ zs) args' ((qs @ [p]) @ ps)"
      using Cons.IH [OF us(1) values_typed_more [OF Cons.prems(2)]] by blast
    then show ?thesis by (intro exI [of _ "us @ zs"]) simp
  qed
qed

definition state_typed :: "cg_module \<Rightarrow> cg_param list \<Rightarrow> cg_state \<Rightarrow> cg_type list \<Rightarrow> bool" where
  "state_typed m params s tys \<longleftrightarrow> typed_code m params (cs_code s) tys \<and> outputs_typed params tys (cs_outputs s)"

lemma outputs_update: "outputs_typed params tys os \<Longrightarrow> value_type params tys v = Some t \<Longrightarrow> outputs_typed params tys (AList.update n (t, v) os)"
  by (induction os) (auto simp: outputs_typed_def)

lemma call_node_typed:
  assumes "state_typed m params s tys" and "cg_find m (gf_name callee) = Some callee" and "args_typed params tys args (gf_params callee)"
    and "sret_pointers (gf_params callee)"
  shows "\<exists>us. state_typed m params (call_node node callee args s) (tys @ us)"
proof -
  obtain code r where e: "emit (CgCall (gf_name callee) args) (cs_code s) = (code, r)" by fastforce
  have t: "typed_code m params (cs_code s) tys" and o: "outputs_typed params tys (cs_outputs s)"
    using assms(1) by (auto simp: state_typed_def)
  have "instr_type m params tys (CgCall (gf_name callee) args) = Some (gf_return callee)"
    using assms(2,3) by (simp add: instr_type_def args_typed_def)
  note c = typed_emit [OF t this e]
  show ?thesis
  proof (cases "has_sret callee \<and> args \<noteq> [] \<and> is_alloca (cs_code s) (args ! 0)")
    case False
    then show ?thesis using c o e
      by (intro exI [of _ "[gf_return callee]"]) (auto simp: call_node_def state_typed_def intro: outputs_update outputs_typed_more)
  next
    case True
    let ?t = "the (gp_sret (gf_params callee ! 0))"
    obtain code' l where e': "emit (CgLoad ?t (args ! 0)) code = (code', l)" by fastforce
    have "gp_type (gf_params callee ! 0) = TPointer"
      using True assms(4) by (auto simp: has_sret_def sret_pointers_def)
    moreover have "value_type params tys (args ! 0) = Some (gp_type (gf_params callee ! 0))"
      using assms(3) True unfolding args_typed_def has_sret_def by (cases args; cases "gf_params callee") auto
    ultimately have "value_type params (tys @ [gf_return callee]) (args ! 0) = Some TPointer" by (simp add: value_type_more)
    then have "instr_type m params (tys @ [gf_return callee]) (CgLoad ?t (args ! 0)) = Some ?t" by (simp add: instr_type_def)
    note l = typed_emit [OF c(1) this e']
    have "outputs_typed params ((tys @ [gf_return callee]) @ [?t]) (AList.update node (?t, l) (cs_outputs s))"
      using l(2) by (intro outputs_update outputs_typed_more [OF outputs_typed_more [OF o]])
    then show ?thesis using True l(1) e e' by (intro exI [of _ "[gf_return callee, ?t]"]) (simp add: call_node_def state_typed_def Let_def)
  qed
qed

text \<open>
  The arguments of a source node have the types of its parameters. The code does not check this: a parameter
  of a type the pipeline does not have gets the pipeline's parameter of the same position.
\<close>

definition qualified_callee :: "codegen_env \<Rightarrow> FlowBlock \<Rightarrow> string \<Rightarrow> string" where
  "qualified_callee env lb node =
     (let resolved = cv_resolveNodeCallee env node (fb_calledFunctions lb) in if resolved = [] then node else resolved)"

definition source_typed :: "codegen_env \<Rightarrow> cg_module \<Rightarrow> cg_mapping \<Rightarrow> cg_param list \<Rightarrow> FlowBlock \<Rightarrow> PipelineAnalysis \<Rightarrow> string \<Rightarrow> bool" where
  "source_typed env m mp params lb an node \<longleftrightarrow>
     (cv_isSourceNode env node (an_sourceNodes an) \<longrightarrow>
       (case resolveFunction m mp (qualified_callee env lb node) of
          None \<Rightarrow> True
        | Some callee \<Rightarrow> matchSourceNodeArgs params (gf_params callee) = [] \<or>
            args_typed params [] (matchSourceNodeArgs params (gf_params callee)) (gf_params callee)))"

definition sret_ok :: "cg_module \<Rightarrow> bool" where
  "sret_ok m \<longleftrightarrow> (\<forall>f\<in>set m. sret_pointers (gf_params f))"

lemma cg_find_Some: "cg_find m n = Some f \<Longrightarrow> f \<in> set m \<and> gf_name f = n"
  by (auto simp: cg_find_def find_Some_iff)

lemma resolveFunction_find:
  assumes "resolveFunction m mp q = Some f"
  shows "f \<in> set m" and "cg_find m (gf_name f) = Some f"
  using assms cg_find_Some by (auto simp: resolveFunction_def split: option.splits)

lemma generate_node_typed:
  assumes "state_typed m (gf_params pf) s tys" and "sret_ok m" and "source_typed env m mp (gf_params pf) lb an node"
    and "generate_node env m mp pf lb an node s = Inr s'"
  shows "\<exists>us. state_typed m (gf_params pf) s' (tys @ us)"
proof (cases "resolveFunction m mp (qualified_callee env lb node)")
  case None
  then show ?thesis using assms(1,4) by (intro exI [of _ "[]"]) (auto simp: generate_node_def qualified_callee_def Let_def)
next
  case (Some callee)
  note r = resolveFunction_find [OF Some]
  have sp: "sret_pointers (gf_params callee)" using assms(2) r(1) by (simp add: sret_ok_def)
  show ?thesis
  proof (cases "cv_isSourceNode env node (an_sourceNodes an)")
    case True
    let ?args = "matchSourceNodeArgs (gf_params pf) (gf_params callee)"
    have s': "s' = call_node node callee ?args s" "?args = [] \<longrightarrow> gf_params callee = []"
      using assms(4) Some True by (auto simp: generate_node_def qualified_callee_def Let_def split: if_splits)
    have "args_typed (gf_params pf) [] ?args (gf_params callee)"
      using assms(3) Some True s'(2) by (auto simp: source_typed_def args_typed_def)
    then have "args_typed (gf_params pf) tys ?args (gf_params callee)" using args_typed_more [of _ "[]"] by fastforce
    then show ?thesis unfolding s'(1) by (rule call_node_typed [OF assms(1) r(2) _ sp])
  next
    case False
    obtain code av where av: "available_values (cs_outputs s) (cv_findUpstreamNodes env node (fb_edges lb)) (cs_code s) = (code, av)" by fastforce
    obtain c ra where na: "node_args (gf_params pf) av (gf_params callee) [] (code, []) = (c, ra)" by fastforce
    have ra: "\<exists>args. ra = Some args \<and> s' = call_node node callee args (s\<lparr>cs_code := c\<rparr>)"
      using assms(4) Some False av na by (cases ra) (auto simp: generate_node_def qualified_callee_def Let_def)
    then obtain args where args: "ra = Some args" "s' = call_node node callee args (s\<lparr>cs_code := c\<rparr>)" by blast
    have st: "typed_code m (gf_params pf) (cs_code s) tys" "outputs_typed (gf_params pf) tys (cs_outputs s)"
      using assms(1) by (auto simp: state_typed_def)
    obtain zs where zs: "typed_code m (gf_params pf) code (tys @ zs)" "values_typed (gf_params pf) (tys @ zs) av"
      using available_values_typed [OF st av] by blast
    have "args_typed (gf_params pf) (tys @ zs) [] []" by (simp add: args_typed_def)
    from node_args_typed [OF zs sp this na] args(1)
    obtain us where us: "typed_code m (gf_params pf) c ((tys @ zs) @ us)" "args_typed (gf_params pf) ((tys @ zs) @ us) args (gf_params callee)" by auto
    have "state_typed m (gf_params pf) (s\<lparr>cs_code := c\<rparr>) ((tys @ zs) @ us)"
      using us(1) outputs_typed_more [OF st(2), of "zs @ us"] by (simp add: state_typed_def)
    from call_node_typed [OF this r(2) us(2) sp] obtain vs where "state_typed m (gf_params pf) s' (((tys @ zs) @ us) @ vs)"
      unfolding args(2) by blast
    then show ?thesis by (intro exI [of _ "zs @ us @ vs"]) simp
  qed
qed

lemma generate_nodes_typed:
  assumes "state_typed m (gf_params pf) s tys" and "sret_ok m" and "\<forall>n\<in>set ns. source_typed env m mp (gf_params pf) lb an n"
    and "generate_nodes env m mp pf lb an ns s = Inr s'"
  shows "\<exists>us. state_typed m (gf_params pf) s' (tys @ us)"
  using assms
proof (induction ns arbitrary: s tys)
  case Nil
  then show ?case by (intro exI [of _ "[]"]) simp
next
  case (Cons n ns)
  obtain s1 where s1: "generate_node env m mp pf lb an n s = Inr s1" "generate_nodes env m mp pf lb an ns s1 = Inr s'"
    using Cons.prems(4) by (auto split: sum.splits)
  obtain us where "state_typed m (gf_params pf) s1 (tys @ us)"
    using generate_node_typed [OF Cons.prems(1,2) _ s1(1)] Cons.prems(3) by auto
  then obtain zs where "state_typed m (gf_params pf) s' ((tys @ us) @ zs)" using Cons.IH Cons.prems(2,3) s1(2) by fastforce
  then show ?case by (intro exI [of _ "us @ zs"]) simp
qed

definition return_typed :: "cg_param list \<Rightarrow> cg_type list \<Rightarrow> cg_type \<Rightarrow> cg_ret option \<Rightarrow> bool" where
  "return_typed params tys retTy r \<longleftrightarrow>
     (case r of None \<Rightarrow> False | Some RetVoid \<Rightarrow> retTy = TVoid | Some (Ret v) \<Rightarrow> value_type params tys v = Some retTy)"

lemma generate_return_typed:
  assumes "state_typed m params s tys" and "generate_return retTy terminal s = (code, r)" and "r \<noteq> None"
  shows "\<exists>us. typed_code m params code (tys @ us) \<and> return_typed params (tys @ us) retTy r"
proof -
  have t: "typed_code m params (cs_code s) tys" and o: "outputs_typed params tys (cs_outputs s)"
    using assms(1) by (auto simp: state_typed_def)
  show ?thesis
  proof (cases "map_of (cs_outputs s) terminal")
    case None
    then show ?thesis using assms(2,3) t
      by (intro exI [of _ "[]"]) (auto simp: generate_return_def return_typed_def split: if_splits)
  next
    case (Some x)
    obtain ty v where x: "x = (ty, v)" by fastforce
    have v: "value_type params tys v = Some ty" using Some x o map_of_SomeD by (fastforce simp: outputs_typed_def)
    show ?thesis
    proof (cases "retTy = TVoid \<or> ty = retTy")
      case True
      then show ?thesis using assms(2) Some x t v
        by (intro exI [of _ "[]"]) (auto simp: generate_return_def return_typed_def split: if_splits)
    next
      case False
      then obtain ts i c l where ts: "ty = TStruct ts" "first_index (\<lambda>i. ts ! i = retTy) (length ts) = Some i"
        "emit (CgExtract v i) (cs_code s) = (c, l)" "code = c" "r = Some (Ret l)"
        using assms(2,3) Some x by (auto simp: generate_return_def split: cg_type.splits option.splits prod.splits)
      have "instr_type m params tys (CgExtract v i) = Some retTy"
        using v ts(1) first_index_Some [OF ts(2)] by (simp add: instr_type_def)
      from typed_emit [OF t this ts(3)] show ?thesis using ts(4,5)
        by (intro exI [of _ "[retTy]"]) (simp add: return_typed_def)
    qed
  qed
qed

definition nodes_of :: "codegen_env \<Rightarrow> PipelineAnalysis \<Rightarrow> string list" where
  "nodes_of env an = concat (map snd (cv_groupNodesByStage env an))"

definition body_typed :: "cg_module \<Rightarrow> cg_function \<Rightarrow> cg_body \<Rightarrow> bool" where
  "body_typed m f b \<longleftrightarrow> (\<exists>code r tys. b = Generated code r \<and> typed_code m (gf_params f) code tys \<and> return_typed (gf_params f) tys (gf_return f) r)"

lemma generated_body_typed:
  assumes "generatePipelineBody env m mp pf lb an = (b, True)" and "sret_ok m"
    and "\<forall>n\<in>set (nodes_of env an). source_typed env m mp (gf_params pf) lb an n"
  shows "body_typed m pf b"
proof -
  have init: "state_typed m (gf_params pf) \<lparr>cs_code = [], cs_outputs = []\<rparr> []"
    by (simp add: state_typed_def typed_Nil outputs_typed_def)
  obtain s where s: "generate_nodes env m mp pf lb an (nodes_of env an) \<lparr>cs_code = [], cs_outputs = []\<rparr> = Inr s"
    using assms(1) by (auto simp: generatePipelineBody_def nodes_of_def split: sum.splits)
  obtain code r where r: "generate_return (gf_return pf) (an_terminalNode an) s = (code, r)" by fastforce
  have b: "b = Generated code r" "r \<noteq> None"
    using assms(1) s r by (auto simp: generatePipelineBody_def nodes_of_def)
  obtain tys where "state_typed m (gf_params pf) s ([] @ tys)" using generate_nodes_typed [OF init assms(2,3) s] by blast
  from generate_return_typed [OF this r b(2)] show ?thesis unfolding body_typed_def using b(1) by auto
qed

section \<open>The pass\<close>

text \<open>Bodies change, signatures do not.\<close>

definition same_signatures :: "cg_module \<Rightarrow> cg_module \<Rightarrow> bool" where
  "same_signatures m m' \<longleftrightarrow>
     map (\<lambda>f. (gf_name f, gf_params f, gf_return f)) m = map (\<lambda>f. (gf_name f, gf_params f, gf_return f)) m'"

lemma same_find:
  assumes "same_signatures m m'"
  shows "map_option (\<lambda>f. (gf_name f, gf_params f, gf_return f)) (cg_find m n) =
     map_option (\<lambda>f. (gf_name f, gf_params f, gf_return f)) (cg_find m' n)"
proof -
  have "length m = length m'" using assms map_eq_imp_length_eq by (auto simp: same_signatures_def)
  then show ?thesis using assms by (induction m m' rule: list_induct2) (auto simp: same_signatures_def cg_find_def)
qed

lemma same_resolve:
  assumes "same_signatures m m'"
  shows "map_option (\<lambda>f. (gf_name f, gf_params f, gf_return f)) (resolveFunction m mp q) =
     map_option (\<lambda>f. (gf_name f, gf_params f, gf_return f)) (resolveFunction m' mp q)"
  using same_find [OF assms] by (simp add: resolveFunction_def split: option.split)

lemma same_instr_type:
  assumes "same_signatures m m'"
  shows "instr_type m params tys i = instr_type m' params tys i"
proof (cases i)
  case (CgCall f args)
  then show ?thesis using same_find [OF assms, of f]
    by (cases "cg_find m f"; cases "cg_find m' f") (simp_all add: instr_type_def)
qed (simp_all add: instr_type_def)

lemma same_body_typed:
  assumes "same_signatures m m'" and "gf_params f = gf_params f'" and "gf_return f = gf_return f'"
  shows "body_typed m f b = body_typed m' f' b"
proof -
  have "code_types m params tys code = code_types m' params tys code" for params tys code
    by (induction code arbitrary: tys) (simp_all add: same_instr_type [OF assms(1)] split: option.split)
  then show ?thesis using assms(2,3) by (simp add: body_typed_def typed_code_def)
qed

lemma same_source_typed:
  assumes "same_signatures m m'"
  shows "source_typed env m mp params lb an n = source_typed env m' mp params lb an n"
  using same_resolve [OF assms, of mp "qualified_callee env lb n"]
  by (cases "resolveFunction m mp (qualified_callee env lb n)"; cases "resolveFunction m' mp (qualified_callee env lb n)")
     (simp_all add: source_typed_def)

lemma same_set_body: "same_signatures (set_body n b m) m"
  by (auto simp: same_signatures_def set_body_def)

lemma same_trans: "same_signatures a b \<Longrightarrow> same_signatures b c \<Longrightarrow> same_signatures a c"
  by (simp add: same_signatures_def)

lemma same_sret: "same_signatures m m' \<Longrightarrow> sret_ok m = sret_ok m'"
proof -
  assume "same_signatures m m'"
  then have "map gf_params m = map gf_params m'"
    unfolding same_signatures_def by (drule_tac arg_cong [where f = "map (\<lambda>(n, p, r). p)"]) (simp add: o_def)
  then have "gf_params ` set m = gf_params ` set m'" by (metis set_map)
  then show "sret_ok m = sret_ok m'" unfolding sret_ok_def by (metis (mono_tags, lifting) image_iff)
qed

text \<open>A function is as it was, or it has a body that types.\<close>

definition as_before_or_typed :: "codegen_env \<Rightarrow> cg_module \<Rightarrow> cg_function \<Rightarrow> bool" where
  "as_before_or_typed env m f' \<longleftrightarrow> (\<exists>f\<in>set m. f' = f \<or> (\<exists>b. f' = f\<lparr>gf_body := Some b\<rparr> \<and> body_typed m f b))"

lemma as_before_set_body:
  assumes "\<forall>f\<in>set m'. as_before_or_typed env m f" and "same_signatures m' m" and "pf \<in> set m'" and "body_typed m' pf b"
    and names: "distinct (map gf_name m')"
  shows "\<forall>f\<in>set (set_body (gf_name pf) b m'). as_before_or_typed env m f"
proof
  fix g assume "g \<in> set (set_body (gf_name pf) b m')"
  then obtain f where f: "f \<in> set m'" "g = (if gf_name f = gf_name pf then f\<lparr>gf_body := Some b\<rparr> else f)"
    by (auto simp: set_body_def)
  obtain f0 where f0: "f0 \<in> set m" "f = f0 \<or> (\<exists>b. f = f0\<lparr>gf_body := Some b\<rparr> \<and> body_typed m f0 b)"
    using assms(1) f(1) unfolding as_before_or_typed_def by blast
  show "as_before_or_typed env m g"
  proof (cases "gf_name f = gf_name pf")
    case True
    then have fp: "f = pf" using names f(1) assms(3) by (auto simp: distinct_map inj_on_def)
    have "gf_params pf = gf_params f0" "gf_return pf = gf_return f0" using f0(2) fp by auto
    then have "body_typed m f0 b" using same_body_typed [OF assms(2)] assms(4) by blast
    moreover have "g = f0\<lparr>gf_body := Some b\<rparr>" using f(2) True f0(2) by auto
    ultimately show ?thesis using f0(1) unfolding as_before_or_typed_def by blast
  next
    case False
    then show ?thesis using f(2) f0 unfolding as_before_or_typed_def by auto
  qed
qed

definition sources_typed :: "codegen_env \<Rightarrow> cg_module \<Rightarrow> cg_mapping \<Rightarrow> string \<times> FlowBlock \<Rightarrow> bool" where
  "sources_typed env m mp p \<longleftrightarrow>
     (case (fb_analysis (snd p), resolveFunction m mp (fb_qualifiedName (snd p))) of
        (Some an, Some pf) \<Rightarrow> (\<forall>n\<in>set (nodes_of env an). source_typed env m mp (gf_params pf) (snd p) an n)
      | _ \<Rightarrow> True)"

lemma same_sources_typed: "same_signatures m' m \<Longrightarrow> sources_typed env m' mp p = sources_typed env m mp p"
  using same_resolve [of m' m mp "fb_qualifiedName (snd p)"] same_source_typed [of m' m env mp]
  by (cases "resolveFunction m' mp (fb_qualifiedName (snd p))"; cases "resolveFunction m mp (fb_qualifiedName (snd p))")
     (simp_all add: sources_typed_def split: option.split)

lemma codegen_blocks_typed:
  assumes "\<forall>f\<in>set m'. as_before_or_typed env m f" and "same_signatures m' m" and "distinct (map gf_name m')" and "sret_ok m"
    and "\<forall>p\<in>set lbs. sources_typed env m mp p" and "codegen_blocks env mp lbs m' k = (m'', n)" and "0 \<le> k" and "n \<noteq> - 1"
  shows "(\<forall>f\<in>set m''. as_before_or_typed env m f) \<and> same_signatures m'' m \<and> k \<le> n"
  using assms(1-3,5-)
proof (induction lbs arbitrary: m' k)
  case (Cons p lbs)
  obtain name lb where p: "p = (name, lb)" by fastforce
  show ?case
  proof (cases "codegen_blocks env mp (p # lbs) m' k = codegen_blocks env mp lbs m' k")
    case True
    then show ?thesis using Cons by simp
  next
    case False
    then obtain an pf where c: "fb_analysis lb = Some an" "fb_isPipeline lb" "resolveFunction m' mp (fb_qualifiedName lb) = Some pf"
      "gf_body pf \<noteq> None" "isPipelineStub env pf"
      using p by (auto split: option.splits if_splits)
    obtain b ok where g: "generatePipelineBody env m' mp pf lb an = (b, ok)" by fastforce
    then have ok: "ok" using Cons.prems(5,7) c p by (auto split: if_splits)
    have "sources_typed env m' mp p" using Cons.prems(4) same_sources_typed [OF Cons.prems(2)] by simp
    then have "\<forall>n\<in>set (nodes_of env an). source_typed env m' mp (gf_params pf) lb an n" using c p by (simp add: sources_typed_def)
    then have "body_typed m' pf b" using generated_body_typed [of env m' mp pf lb an b] g ok same_sret [OF Cons.prems(2)] assms(4) by simp
    then have a: "\<forall>f\<in>set (set_body (gf_name pf) b m'). as_before_or_typed env m f"
      using as_before_set_body [OF Cons.prems(1,2) resolveFunction_find(1) [OF c(3)]] Cons.prems(3) by blast
    have s: "same_signatures (set_body (gf_name pf) b m') m" using same_trans [OF same_set_body Cons.prems(2)] .
    have "map gf_name (set_body (gf_name pf) b m') = map gf_name m'" by (simp add: set_body_def o_def if_distrib cong: if_cong)
    then have d: "distinct (map gf_name (set_body (gf_name pf) b m'))" using Cons.prems(3) by simp
    have "codegen_blocks env mp lbs (set_body (gf_name pf) b m') (k + 1) = (m'', n)"
      using Cons.prems(5) c g ok p by (simp add: not_None_eq)
    from Cons.IH [OF a s d _ this] Cons.prems(4,6,7) show ?thesis by auto
  qed
qed auto

text \<open>
  C32. When the pass succeeds, that is, does not return -1, and the parameters of the source nodes have the types
  of the pipeline's parameters at the same positions, which the code does not check, every body it generated
  is well-typed code that returns the pipeline's type, and every other function is as it was. Without
  either condition this fails: \<open>failure_leaves_open_body\<close>, \<open>source_argument_of_wrong_type\<close>.
\<close>

theorem codegen_bodies_typed:
  assumes "codegen_run env symbols mp m = (m', n)" and "n \<noteq> - 1" and "distinct (map gf_name m)" and "sret_ok m"
    and "\<forall>p\<in>set (fl_blocks symbols). sources_typed env m mp p"
  shows "0 \<le> n \<and> (\<forall>f'\<in>set m'. \<exists>f\<in>set m. f' = f \<or> (\<exists>code r tys. f' = f\<lparr>gf_body := Some (Generated code r)\<rparr> \<and>
     typed_code m (gf_params f) code tys \<and> return_typed (gf_params f) tys (gf_return f) r))"
proof -
  have "\<forall>f\<in>set m. as_before_or_typed env m f" by (auto simp: as_before_or_typed_def)
  moreover have "same_signatures m m" by (simp add: same_signatures_def)
  ultimately have "(\<forall>f\<in>set m'. as_before_or_typed env m f) \<and> same_signatures m' m \<and> 0 \<le> n"
    using codegen_blocks_typed [where m = m and m' = m and k = 0 and n = n and m'' = m' and env = env and mp = mp and lbs = "fl_blocks symbols"] assms by (simp add: codegen_run_def)
  then show ?thesis unfolding as_before_or_typed_def body_typed_def by blast
qed

definition cg_example_env :: codegen_env where
  "cg_example_env = \<lparr>cv_demangle = (\<lambda>n. n), cv_groupNodesByStage = (\<lambda>an. map (\<lambda>(n, s). (s, [n])) (an_stages an)),
     cv_resolveNodeCallee = (\<lambda>n _. n), cv_isSourceNode = (\<lambda>n ns. n \<in> set ns),
     cv_findUpstreamNodes = (\<lambda>n es. map fe_source (filter (\<lambda>e. fe_target e = n) es))\<rparr>"

definition cg_example_function :: "string \<Rightarrow> cg_type list \<Rightarrow> cg_type \<Rightarrow> cg_function" where
  "cg_example_function n ps r = \<lparr>gf_name = n, gf_params = map (\<lambda>t. \<lparr>gp_type = t, gp_sret = None\<rparr>) ps, gf_return = r, gf_body = None\<rparr>"

definition cg_example_flow :: "string \<Rightarrow> string \<Rightarrow> FlowSymbols" where
  "cg_example_flow a b = \<lparr>fl_blocks = [(''flow'', \<lparr>fb_qualifiedName = ''flow'', fb_simpleName = ''flow'', fb_isPipeline = True,
       fb_calledFunctions = [a, b], fb_stages = [0, 1], fb_edges = [\<lparr>fe_source = a, fe_target = b\<rparr>],
       fb_analysis = Some \<lparr>an_stages = [(a, 0), (b, 1)], an_sourceNodes = [a], an_terminalNode = b, an_terminalType = ''int'', an_demand = []\<rparr>\<rparr>)],
     fl_functions = [], fl_adapts = []\<rparr>"

definition cg_example_module :: cg_module where
  "cg_example_module =
     [(cg_example_function ''flow'' [TScalar 0] (TScalar 0))\<lparr>gf_body := Some (Source [''topo::detail::pipeline_placeholder''])\<rparr>,
      cg_example_function ''split'' [TScalar 0] (TStruct [TScalar 1, TScalar 0]), cg_example_function ''join'' [TScalar 0] (TScalar 0),
      cg_example_function ''wide'' [TScalar 2] (TScalar 0)]"

definition cg_example_mapping :: cg_mapping where
  "cg_example_mapping = [(''flow'', Some ''flow''), (''split'', Some ''split''), (''join'', Some ''join''), (''wide'', Some ''wide'')]"

lemma codegen_bodies_typed_witness:
  "\<exists>m'. codegen_run cg_example_env (cg_example_flow ''split'' ''join'') cg_example_mapping cg_example_module = (m', 1) \<and>
     (\<exists>f\<in>set cg_example_module. hd m' = f \<or> (\<exists>code r tys. hd m' = f\<lparr>gf_body := Some (Generated code r)\<rparr> \<and>
        typed_code cg_example_module (gf_params f) code tys \<and> return_typed (gf_params f) tys (gf_return f) r))"
proof -
  have "snd (codegen_run cg_example_env (cg_example_flow ''split'' ''join'') cg_example_mapping cg_example_module) = 1" by code_simp
  then obtain m' where r: "codegen_run cg_example_env (cg_example_flow ''split'' ''join'') cg_example_mapping cg_example_module = (m', 1)"
    by (metis prod.collapse)
  have "fst (codegen_run cg_example_env (cg_example_flow ''split'' ''join'') cg_example_mapping cg_example_module) \<noteq> []" by code_simp
  then have m': "hd m' \<in> set m'" using r by simp
  have "distinct (map gf_name cg_example_module)" "sret_ok cg_example_module"
    "\<forall>p\<in>set (fl_blocks (cg_example_flow ''split'' ''join'')). sources_typed cg_example_env cg_example_module cg_example_mapping p"
    by code_simp+
  from codegen_bodies_typed [OF r _ this] m' r show ?thesis by auto
qed

section \<open>What the pass leaves behind\<close>

text \<open>A node with a parameter nothing provides: the pass gives up with -1 and the pipeline has a body without a return.\<close>

lemma failure_leaves_open_body:
  "codegen_run cg_example_env (cg_example_flow ''split'' ''wide'') cg_example_mapping cg_example_module =
     (set_body ''flow'' (Generated [CgCall ''split'' [Param 0], CgExtract (Reg 0) 0, CgExtract (Reg 0) 1] None) cg_example_module, - 1)"
  by code_simp

text \<open>A source node with a parameter of another type gets the pipeline's parameter of the same position.\<close>

lemma source_argument_of_wrong_type:
  "codegen_run cg_example_env (cg_example_flow ''wide'' ''join'') cg_example_mapping cg_example_module =
     (set_body ''flow'' (Generated [CgCall ''wide'' [Param 0], CgCall ''join'' [Reg 0]] (Some (Ret (Reg 1)))) cg_example_module, 1) \<and>
   code_types cg_example_module [\<lparr>gp_type = TScalar 0, gp_sret = None\<rparr>] [] [CgCall ''wide'' [Param 0], CgCall ''join'' [Reg 0]] = None"
  by code_simp

end
