(* ===== verification/PrefetchPass.thy ===== *)
theory PrefetchPass
  imports SsaForm
begin

text \<open>
  lib/Transforms/PrefetchPass.cpp: prefetch intrinsics before the loops of functions with a declared access
  pattern and at the stage boundaries of pipelines. The loops of a function are LoopInfo's, a parameter. The
  folding of constant addresses by IRBuilder is left out: the address is always an instruction.
\<close>

section \<open>Access patterns\<close>

record prefetch_env =
  px_loops :: "ifun \<Rightarrow> loop list"
  px_enabled :: bool
  px_distance :: int

definition ns_prefix :: "string \<Rightarrow> string" where
  "ns_prefix b = (case str_rfind sep b of None \<Rightarrow> [] | Some p \<Rightarrow> take (p + 2) b)"

definition note_access :: "FlowSymbols \<Rightarrow> string \<Rightarrow> FlowBlock \<Rightarrow> string \<Rightarrow> (string \<times> AccessPattern) list \<Rightarrow> (string \<times> AccessPattern) list" where
  "note_access symbols blockName lb callee t =
     (if length callee > 8 \<and> take 8 callee = ''<assign:'' then t
      else
        (let qualified = (if fb_isPipeline lb then callee else ns_prefix blockName @ callee)
         in case fl_findFunction symbols qualified of
              None \<Rightarrow> t
            | Some fn \<Rightarrow> if ff_accessPattern fn = NoPattern then t else AList.update qualified (ff_accessPattern fn) t))"

definition buildAccessPatternMap :: "FlowSymbols \<Rightarrow> (string \<times> AccessPattern) list" where
  "buildAccessPatternMap symbols =
     fold (\<lambda>(blockName, lb). fold (note_access symbols blockName lb) (fb_calledFunctions lb)) (fl_blocks symbols) []"

section \<open>The pointer to prefetch\<close>

definition def_of :: "blocks \<Rightarrow> nat \<Rightarrow> (nat \<times> ins) option" where
  "def_of bs k = find (\<lambda>(b, i). ii_id i = k) (concat (map (\<lambda>(b, is). map (Pair b) is) bs))"

definition isLoopInvariant :: "loop \<Rightarrow> blocks \<Rightarrow> ir_value \<Rightarrow> bool" where
  "isLoopInvariant l bs v \<longleftrightarrow> (case v of
     VInst k \<Rightarrow> (case def_of bs k of Some (b, _) \<Rightarrow> b \<notin> set (lo_blocks l) | None \<Rightarrow> True) | _ \<Rightarrow> True)"

text \<open>The guard of the walk is the fuel: 16 in the code.\<close>

fun stripToInvariantBase :: "nat \<Rightarrow> loop \<Rightarrow> blocks \<Rightarrow> ir_value \<Rightarrow> ir_value option" where
  "stripToInvariantBase 0 l bs v = None"
| "stripToInvariantBase (Suc g) l bs v =
     (if isLoopInvariant l bs v then Some v
      else (case v of
              VInst k \<Rightarrow>
                (case def_of bs k of
                   None \<Rightarrow> None
                 | Some (_, i) \<Rightarrow>
                     (if ii_op i = OGep then (case ii_args i of base # _ \<Rightarrow> stripToInvariantBase g l bs base | [] \<Rightarrow> None) else None))
            | _ \<Rightarrow> None))"

definition memory_pointer :: "ins \<Rightarrow> ir_value option" where
  "memory_pointer i = (case ii_op i of
     OLoad \<Rightarrow> (case ii_args i of p # _ \<Rightarrow> Some p | [] \<Rightarrow> None)
   | OStore \<Rightarrow> (case ii_args i of [_, p] \<Rightarrow> Some p | _ \<Rightarrow> None)
   | _ \<Rightarrow> None)"

definition block_code :: "blocks \<Rightarrow> nat \<Rightarrow> ins list" where
  "block_code bs b = (case map_of bs b of Some is \<Rightarrow> is | None \<Rightarrow> [])"

definition findFirstMemoryPointer :: "blocks \<Rightarrow> loop \<Rightarrow> ir_value option" where
  "findFirstMemoryPointer bs l =
     (case List.map_filter (stripToInvariantBase 16 l bs)
        (List.map_filter memory_pointer (concat (map (block_code bs) (lo_blocks l)))) of [] \<Rightarrow> None | p # _ \<Rightarrow> Some p)"

section \<open>Inserting\<close>

definition prefetch_code :: "nat \<Rightarrow> ir_value \<Rightarrow> int \<Rightarrow> ins list" where
  "prefetch_code k p distance =
     [new_ins k (OGep, [p, VConst distance], PointerTy),
      new_ins (k + 1) (call_proto ''llvm.prefetch.p0'' [VInst k, VConst 0, VConst 3, VConst 1] VoidTy)]"

definition put_prefetch :: "prefetch_env \<Rightarrow> string \<Rightarrow> nat \<Rightarrow> ir_value \<Rightarrow> imod \<Rightarrow> imod" where
  "put_prefetch env n k p m =
     bump 2 (upd_blocks n (insert_before k (prefetch_code (im_next m) p (px_distance env)))
       (getOrDeclareFunc ''llvm.prefetch.p0'' [PointerTy, IntegerTy 32, IntegerTy 32, IntegerTy 32] VoidTy m))"

type_synonym prefetch_state = "imod \<times> int \<times> (string \<times> int) list"

definition count_hint :: "string \<Rightarrow> (string \<times> int) list \<Rightarrow> (string \<times> int) list" where
  "count_hint n t = AList.update n ((case map_of t n of None \<Rightarrow> 0 | Some c \<Rightarrow> c) + 1) t"

definition insertPrefetch :: "prefetch_env \<Rightarrow> string \<Rightarrow> string \<Rightarrow> loop \<Rightarrow> prefetch_state \<Rightarrow> prefetch_state" where
  "insertPrefetch env topoName n l s =
     (case s of (m, inserted, counts) \<Rightarrow>
        case find_fun m n of
          None \<Rightarrow> s
        | Some f \<Rightarrow>
            (case findFirstMemoryPointer (iu_blocks f) l of
               None \<Rightarrow> s
             | Some p \<Rightarrow>
                 (let b = (case lo_preheader l of Some b \<Rightarrow> b | None \<Rightarrow> lo_header l)
                  in case block_code (iu_blocks f) b of
                       [] \<Rightarrow> s
                     | i # is \<Rightarrow> (put_prefetch env n (ii_id (last (i # is))) p m, inserted + 1, count_hint topoName counts))))"

definition prefetch_loops :: "prefetch_env \<Rightarrow> (string \<times> AccessPattern) list \<Rightarrow> string \<times> string option \<Rightarrow> prefetch_state \<Rightarrow> prefetch_state" where
  "prefetch_loops env accessMap p s =
     (case snd p of
        None \<Rightarrow> s
      | Some n \<Rightarrow>
          (case find_fun (fst s) n of
             None \<Rightarrow> s
           | Some f \<Rightarrow>
               if iu_declaration f \<or> map_of accessMap (fst p) = None then s
               else fold (insertPrefetch env (fst p) n) (px_loops env f) s))"

section \<open>Stage boundaries\<close>

definition buildReverseFunctionMap :: "em_mapping \<Rightarrow> (string \<times> string) list" where
  "buildReverseFunctionMap mp = fold (\<lambda>(name, f) t. case f of None \<Rightarrow> t | Some f \<Rightarrow> AList.update f name t) mp []"

definition node_stage :: "PipelineAnalysis \<Rightarrow> string \<Rightarrow> int option" where
  "node_stage an name =
     (case map_of (an_stages an) name of
        Some stage \<Rightarrow> Some stage
      | None \<Rightarrow> map_option snd (find (\<lambda>(node, stage). simple_name node = simple_name name) (an_stages an)))"

definition staged_call :: "em_mapping \<Rightarrow> PipelineAnalysis \<Rightarrow> ins \<Rightarrow> (ins \<times> int \<times> string) option" where
  "staged_call mp an i =
     (case called i of
        None \<Rightarrow> None
      | Some callee \<Rightarrow>
          if starts_with ''llvm.'' callee then None
          else (case map_of (buildReverseFunctionMap mp) callee of
                  None \<Rightarrow> None
                | Some name \<Rightarrow> map_option (\<lambda>stage. (i, stage, name)) (node_stage an name)))"

definition is_pointer :: "ifun \<Rightarrow> ir_value \<Rightarrow> bool" where
  "is_pointer f v = (case v of
     VInst k \<Rightarrow> (case def_of (iu_blocks f) k of Some (_, i) \<Rightarrow> ii_type i = PointerTy | None \<Rightarrow> False)
   | VArg i \<Rightarrow> i < length (iu_params f) \<and> fst (iu_params f ! i) = PointerTy
   | VGlobal _ \<Rightarrow> True | VNull \<Rightarrow> True | VConst _ \<Rightarrow> False | VUndef t \<Rightarrow> t = PointerTy)"

definition access_of :: "FlowSymbols \<Rightarrow> (string \<times> AccessPattern) list \<Rightarrow> string \<Rightarrow> AccessPattern" where
  "access_of symbols accessMap name =
     (case map_of accessMap name of
        Some p \<Rightarrow> p
      | None \<Rightarrow> (case fl_findFunction symbols name of Some fn \<Rightarrow> ff_accessPattern fn | None \<Rightarrow> NoPattern))"

text \<open>The pointer arguments of one call.\<close>

definition prefetch_argument :: "prefetch_env \<Rightarrow> string \<Rightarrow> string \<Rightarrow> nat \<Rightarrow> ir_value \<Rightarrow> prefetch_state \<Rightarrow> prefetch_state" where
  "prefetch_argument env blockName n k v s =
     (case s of (m, inserted, counts) \<Rightarrow> (put_prefetch env n k v m, inserted + 1, count_hint blockName counts))"

definition prefetch_transition :: "prefetch_env \<Rightarrow> FlowSymbols \<Rightarrow> (string \<times> AccessPattern) list \<Rightarrow> string \<Rightarrow> ifun \<Rightarrow>
    (ins \<times> int \<times> string) \<times> (ins \<times> int \<times> string) \<Rightarrow> prefetch_state \<Rightarrow> prefetch_state" where
  "prefetch_transition env symbols accessMap blockName f p s =
     (case p of ((_, currentStage, _), (nextCall, nextStage, topoName)) \<Rightarrow>
        if nextStage \<le> currentStage \<or> access_of symbols accessMap topoName = NoPattern then s
        else fold (prefetch_argument env blockName (iu_name f) (ii_id nextCall)) (filter (is_pointer f) (ii_args nextCall)) s)"

definition prefetch_block :: "prefetch_env \<Rightarrow> FlowSymbols \<Rightarrow> em_mapping \<Rightarrow> (string \<times> AccessPattern) list \<Rightarrow> string \<times> FlowBlock \<Rightarrow>
    prefetch_state \<Rightarrow> prefetch_state" where
  "prefetch_block env symbols mp accessMap p s =
     (case fb_analysis (snd p) of
        None \<Rightarrow> s
      | Some an \<Rightarrow>
          (case mapped mp (fb_qualifiedName (snd p)) of
             None \<Rightarrow> s
           | Some n \<Rightarrow>
               (case find_fun (fst s) n of
                  None \<Rightarrow> s
                | Some f \<Rightarrow>
                    if \<not> fb_isPipeline (snd p) \<or> iu_declaration f then s
                    else (let staged = List.map_filter (staged_call mp an) (code_of f)
                          in fold (prefetch_transition env symbols accessMap (fst p) f) (zip staged (tl staged)) s))))"

definition prefetch_run :: "prefetch_env \<Rightarrow> FlowSymbols \<Rightarrow> em_mapping \<Rightarrow> imod \<Rightarrow> imod \<times> int \<times> (string \<times> int \<times> int) list" where
  "prefetch_run env symbols mp m =
     (if \<not> px_enabled env then (m, 0, [])
      else
        (let accessMap = buildAccessPatternMap symbols;
             (m, inserted, counts) = fold (prefetch_block env symbols mp accessMap) (fl_blocks symbols) (fold (prefetch_loops env accessMap) mp (m, 0, []))
         in (m, inserted, map (\<lambda>(name, count). (name, count, px_distance env)) counts)))"

section \<open>SSA form is kept\<close>

definition all_ins :: "blocks \<Rightarrow> ins list" where
  "all_ins bs = concat (map snd bs)"

text \<open>A branch has no value: no operand is one.\<close>

definition no_branch_operand :: "blocks \<Rightarrow> bool" where
  "no_branch_operand bs \<longleftrightarrow> (\<forall>i\<in>set (all_ins bs). \<forall>k. VInst k \<in> set (ii_args i) \<longrightarrow> (\<forall>j\<in>set (all_ins bs). ii_id j = k \<longrightarrow> (\<forall>t. ii_op j \<noteq> OBr t)))"

definition code_ok :: "blocks \<Rightarrow> bool" where
  "code_ok bs \<longleftrightarrow> distinct (map fst bs) \<and> distinct (map ii_id (all_ins bs)) \<and> ssa_ok bs \<and> no_branch_operand bs"

lemma all_ins_member: "i \<in> set (all_ins bs) \<longleftrightarrow> (\<exists>b is. (b, is) \<in> set bs \<and> i \<in> set is)"
  by (force simp: all_ins_def)

lemma block_ids_distinct: "distinct (map ii_id (all_ins bs)) \<Longrightarrow> p \<in> set bs \<Longrightarrow> distinct (map ii_id (snd p))"
  by (induction bs) (auto simp: all_ins_def)

lemma same_block:
  assumes "distinct (map ii_id (all_ins bs))" and "distinct (map fst bs)" and "(b, is) \<in> set bs" and "(c, js) \<in> set bs"
    and "i \<in> set is" and "j \<in> set js" and "ii_id i = ii_id j"
  shows "b = c \<and> is = js \<and> i = j"
  using assms
proof (induction bs)
  case (Cons p bs)
  have no: "ii_id x \<noteq> ii_id y" if "x \<in> set (snd p)" "(d, ks) \<in> set bs" "y \<in> set ks" for x y d ks
  proof -
    have "ii_id y \<in> ii_id ` set (all_ins bs)" by (rule imageI) (use that(2,3) in \<open>auto simp: all_ins_member\<close>)
    moreover have "ii_id x \<in> ii_id ` set (snd p)" using that(1) by simp
    moreover have "ii_id ` set (snd p) \<inter> ii_id ` set (all_ins bs) = {}" using Cons.prems(1) unfolding all_ins_def by simp
    ultimately show ?thesis by (metis IntI emptyE)
  qed
  have d: "distinct (map ii_id (snd p))" "distinct (map ii_id (all_ins bs))" "distinct (map fst bs)"
    using Cons.prems(1,2) by (simp_all add: all_ins_def)
  show ?case
  proof (cases "(b, is) = p \<and> (c, js) = p")
    case True
    then have "i = j" using Cons.prems(5-7) d(1) by (auto simp: distinct_map dest: inj_onD)
    with True show ?thesis by auto
  next
    case False
    then consider "(b, is) \<in> set bs" "(c, js) \<in> set bs" | "(b, is) = p" "(c, js) \<in> set bs" | "(b, is) \<in> set bs" "(c, js) = p"
      using Cons.prems(3,4) by auto
    then show ?thesis
    proof cases
      case 1
      then show ?thesis using Cons.IH [OF d(2,3)] Cons.prems(5-7) by blast
    next
      case 2
      then show ?thesis using no [of i c js j] Cons.prems(5-7) by auto
    next
      case 3
      then show ?thesis using no [of j b "is" i] Cons.prems(5-7) by auto
    qed
  qed
qed simp

lemma find_member: "find P xs = Some x \<Longrightarrow> x \<in> set xs \<and> P x"
  by (induction xs) (auto split: if_splits)

lemma labelled_ins: "(b, i) \<in> set (concat (map (\<lambda>(b, is). map (Pair b) is) bs)) \<longleftrightarrow> (\<exists>is. (b, is) \<in> set bs \<and> i \<in> set is)"
  by (induction bs) auto

lemma def_of_Some: "def_of bs k = Some (b, i) \<Longrightarrow> \<exists>is. (b, is) \<in> set bs \<and> i \<in> set is \<and> ii_id i = k"
proof -
  assume "def_of bs k = Some (b, i)"
  from find_member [OF this [unfolded def_of_def]] have "(\<exists>is. (b, is) \<in> set bs \<and> i \<in> set is) \<and> ii_id i = k"
    unfolding labelled_ins by simp
  then show ?thesis by blast
qed

lemma def_of_None: "def_of bs k = None \<Longrightarrow> (b, is) \<in> set bs \<Longrightarrow> i \<in> set is \<Longrightarrow> ii_id i \<noteq> k"
  unfolding def_of_def find_None_iff using labelled_ins [of b i bs] by fastforce

text \<open>A value is used in the loop when an instruction of one of its blocks other than a phi has it as an operand.\<close>

definition used_in :: "blocks \<Rightarrow> loop \<Rightarrow> ir_value \<Rightarrow> bool" where
  "used_in bs l v \<longleftrightarrow> (\<exists>u p j q. (u, p @ j # q) \<in> set bs \<and> u \<in> set (lo_blocks l) \<and> ii_op j \<noteq> OPhi \<and> v \<in> set (ii_args j))"

lemma strip_used:
  "used_in bs l v \<Longrightarrow> stripToInvariantBase g l bs v = Some w \<Longrightarrow> used_in bs l w \<and> isLoopInvariant l bs w"
proof (induction g arbitrary: v)
  case (Suc g)
  show ?case
  proof (cases "isLoopInvariant l bs v")
    case True
    then show ?thesis using Suc.prems by simp
  next
    case False
    then obtain k b i where v: "v = VInst k" "def_of bs k = Some (b, i)" "b \<in> set (lo_blocks l)"
      by (auto simp: isLoopInvariant_def split: ir_value.splits option.splits)
    with Suc.prems(2) False obtain base rest where i: "ii_op i = OGep" "ii_args i = base # rest" "stripToInvariantBase g l bs base = Some w"
      by (auto split: if_splits list.splits)
    obtain "is" where mem: "(b, is) \<in> set bs" "i \<in> set is" using def_of_Some [OF v(2)] by blast
    obtain p q where "is = p @ i # q" using mem(2) by (meson split_list)
    then have "used_in bs l base" unfolding used_in_def using mem(1) v(3) i(1,2) by (intro exI conjI) auto
    then show ?thesis using Suc.IH i(3) by blast
  qed
qed simp

lemma memory_pointer_arg: "memory_pointer i = Some p \<Longrightarrow> p \<in> set (ii_args i) \<and> ii_op i \<noteq> OPhi"
  by (auto simp: memory_pointer_def split: opcode.splits list.splits)

lemma first_pointer_used:
  assumes "findFirstMemoryPointer bs l = Some v"
  shows "used_in bs l v \<and> isLoopInvariant l bs v"
proof -
  have "v \<in> set (List.map_filter (stripToInvariantBase 16 l bs) (List.map_filter memory_pointer (concat (map (block_code bs) (lo_blocks l)))))"
    using assms by (auto simp: findFirstMemoryPointer_def split: list.splits)
  then obtain i p b where i: "i \<in> set (block_code bs b)" "b \<in> set (lo_blocks l)" "memory_pointer i = Some p" "stripToInvariantBase 16 l bs p = Some v"
    by (auto simp: List.map_filter_def)
  then obtain "is" where mem: "(b, is) \<in> set bs" "i \<in> set is" by (cases "map_of bs b") (auto simp: block_code_def dest: map_of_SomeD)
  obtain r q where "is = r @ i # q" using mem(2) by (meson split_list)
  then have "used_in bs l p" unfolding used_in_def using mem(1) i(2) memory_pointer_arg [OF i(3)] by (intro exI conjI) auto
  then show ?thesis using strip_used i(4) by blast
qed

text \<open>The pointer that is found is available at the end of the preheader, or of the header.\<close>

lemma loop_pointer_available:
  assumes "code_ok bs" and "loop_ok bs l" and "findFirstMemoryPointer bs l = Some v"
    and "b = (case lo_preheader l of Some b \<Rightarrow> b | None \<Rightarrow> lo_header l)" and "(b, p @ [j]) \<in> set bs"
  shows "avail bs b (ii_id ` set p) v"
proof (cases v)
  case (VInst x)
  have ids: "distinct (map ii_id (all_ins bs))" "distinct (map fst bs)" "ssa_ok bs" "no_branch_operand bs" using assms(1) by (simp_all add: code_ok_def)
  have use: "used_in bs l v" "isLoopInvariant l bs v" using first_pointer_used [OF assms(3)] by auto
  then obtain u p' j' q' where u: "(u, p' @ j' # q') \<in> set bs" "u \<in> set (lo_blocks l)" "ii_op j' \<noteq> OPhi" "VInst x \<in> set (ii_args j')"
    unfolding used_in_def VInst by blast
  have av: "avail bs u (ii_id ` set p') (VInst x)" using operand_fits [OF ids(3) u(1,3,4)] .
  obtain c js i where c: "(c, js) \<in> set bs" "i \<in> set js" "ii_id i = x" "c = u \<or> dominates bs c u"
  proof -
    from av have "x \<in> ii_id ` set p' \<or> (\<exists>r\<in>set bs. fst r \<noteq> u \<and> x \<in> ii_id ` set (snd r) \<and> dominates bs (fst r) u)"
      by (simp add: avail_def)
    then show ?thesis
    proof (elim disjE bexE conjE)
      assume "x \<in> ii_id ` set p'"
      then obtain i where "i \<in> set p'" "ii_id i = x" by blast
      then show ?thesis using that [of u "p' @ j' # q'" i] u(1) by simp
    next
      fix r
      assume "r \<in> set bs" "x \<in> ii_id ` set (snd r)" "dominates bs (fst r) u"
      then show ?thesis using that [of "fst r" "snd r"] by auto
    qed
  qed
  have "def_of bs x = Some (c, i)"
  proof (cases "def_of bs x")
    case None
    then show ?thesis using def_of_None [OF None c(1,2)] c(3) by simp
  next
    case (Some r)
    obtain d i' where r: "r = (d, i')" by fastforce
    obtain ks where "(d, ks) \<in> set bs" "i' \<in> set ks" "ii_id i' = x" using def_of_Some [OF Some [unfolded r]] by blast
    then show ?thesis using same_block [OF ids(1,2) c(1), of d ks i i'] c(2,3) Some r by simp
  qed
  then have out: "c \<notin> set (lo_blocks l)" using use(2) VInst by (simp add: isLoopInvariant_def)
  then have dom: "dominates bs c u" using c(4) u(2) by auto
  have domb: "dominates bs c b"
    using assms(4) dominates_header [OF assms(2) u(2) out dom] dominates_preheader [OF assms(2) u(2) out dom] by (cases "lo_preheader l") auto
  show ?thesis
  proof (cases "c = b")
    case False
    then show ?thesis using c domb VInst unfolding avail_def by force
  next
    case True
    then obtain h where "lo_preheader l = Some b" "h = lo_header l" using assms(2,4) out by (cases "lo_preheader l") (auto simp: loop_ok_def)
    then have jbr: "ii_op j = OBr h" using assms(2,5) by (fastforce simp: loop_ok_def)
    have "js = p @ [j]" using ids(2) c(1) assms(5) True by (metis map_of_is_SomeI option.inject)
    moreover have "i \<noteq> j"
    proof
      assume "i = j"
      moreover have "j' \<in> set (all_ins bs)" unfolding all_ins_member by (intro exI conjI, rule u(1)) simp
      moreover have "i \<in> set (all_ins bs)" unfolding all_ins_member using c(1,2) by blast
      ultimately show False using ids(4) u(4) c(3) jbr unfolding no_branch_operand_def by blast
    qed
    ultimately have "i \<in> set p" using c(2) by auto
    then show ?thesis using VInst c(3) by (auto simp: avail_def)
  qed
qed (simp_all add: avail_def)

text \<open>Every function has the code it had and prefetches, and is in SSA form.\<close>

definition keeps_form :: "imod \<Rightarrow> imod \<Rightarrow> ifun \<Rightarrow> ifun \<Rightarrow> bool" where
  "keeps_form m0 m f f' \<longleftrightarrow> f'\<lparr>iu_blocks := older (im_next m0) (iu_blocks f')\<rparr> = f \<and> code_ok (iu_blocks f') \<and>
     (\<forall>i\<in>set (all_ins (iu_blocks f')). ii_id i < im_next m \<and> (\<forall>n. VInst n \<in> set (ii_args i) \<longrightarrow> n < im_next m) \<and>
        (im_next m0 \<le> ii_id i \<longrightarrow> ii_op i = OGep \<or> called i = Some ''llvm.prefetch.p0''))"

definition prefetched :: "imod \<Rightarrow> imod \<Rightarrow> bool" where
  "prefetched m0 m \<longleftrightarrow> im_next m0 \<le> im_next m \<and>
     (\<forall>k f. find_fun m0 k = Some f \<longrightarrow> (\<exists>f'. find_fun m k = Some f' \<and> keeps_form m0 m f f')) \<and>
     (\<forall>k f'. find_fun m k = Some f' \<longrightarrow> find_fun m0 k \<noteq> None \<or> iu_blocks f' = [])"

lemma insert_before_ids:
  "distinct (map ii_id (all_ins bs)) \<Longrightarrow> distinct (map ii_id xs) \<Longrightarrow> ii_id ` set xs \<inter> ii_id ` set (all_ins bs) = {} \<Longrightarrow>
    distinct (map ii_id (all_ins (insert_before k xs bs)))"
proof -
  assume a: "distinct (map ii_id (all_ins bs))" "distinct (map ii_id xs)" "ii_id ` set xs \<inter> ii_id ` set (all_ins bs) = {}"
  have eq: "all_ins (insert_before k xs bs) = put k xs (all_ins bs)"
    by (simp add: all_ins_def insert_before_def put_def code_on_ins)
  show ?thesis unfolding eq
  proof (rule insert_before_split [OF a(1), of k xs])
    fix p j q
    assume "all_ins bs = p @ j # q" "put k xs (all_ins bs) = p @ xs @ j # q"
    then show "distinct (map ii_id (put k xs (all_ins bs)))" using a by (auto simp: image_Un Int_Un_distrib)
  qed (use a(1) in simp)
qed

lemma set_insert_before: "set (all_ins (insert_before k xs bs)) \<subseteq> set xs \<union> set (all_ins bs)"
  by (auto simp: all_ins_def insert_before_def code_on_ins split: if_splits)

lemma code_ok_insert:
  assumes "code_ok bs" and "distinct (map ii_id xs)" and "ii_id ` set xs \<inter> ii_id ` set (all_ins bs) = {}" and "fits_before bs k xs"
    and "\<forall>i\<in>set xs. \<forall>t. ii_op i \<noteq> OBr t"
    and "\<forall>i\<in>set xs. \<forall>n. VInst n \<in> set (ii_args i) \<longrightarrow> n \<in> ii_id ` set xs \<or> (\<forall>j\<in>set (all_ins bs). ii_id j = n \<longrightarrow> (\<forall>t. ii_op j \<noteq> OBr t))"
    and "\<forall>i\<in>set (all_ins bs). \<forall>n. VInst n \<in> set (ii_args i) \<longrightarrow> n \<notin> ii_id ` set xs"
  shows "code_ok (insert_before k xs bs)"
proof -
  have fst: "map fst (insert_before k xs bs) = map fst bs" by (simp add: insert_before_def on_ins_def split_def)
  have "ssa_ok (insert_before k xs bs)"
    using assms(1,4) block_ids_distinct by (intro ssa_insert_before) (auto simp: code_ok_def)
  moreover have "no_branch_operand (insert_before k xs bs)"
    unfolding no_branch_operand_def
  proof (intro ballI allI impI)
    fix i n j t
    assume a: "i \<in> set (all_ins (insert_before k xs bs))" "VInst n \<in> set (ii_args i)" "j \<in> set (all_ins (insert_before k xs bs))" "ii_id j = n"
    consider "j \<in> set xs" | "j \<in> set (all_ins bs)" using a(3) set_insert_before by blast
    then show "ii_op j \<noteq> OBr t"
    proof cases
      case 2
      then have "n \<notin> ii_id ` set xs" using a(4) assms(3) by blast
      then show ?thesis using a(1,2,4) 2 assms(1,6) set_insert_before unfolding code_ok_def no_branch_operand_def by blast
    qed (use assms(5) in blast)
  qed
  ultimately show ?thesis using assms(1) insert_before_ids [OF _ assms(2,3)] by (simp add: code_ok_def fst)
qed

lemma prefetch_code_ins:
  "ii_id ` set (prefetch_code k v d) = {k, k + 1}" "distinct (map ii_id (prefetch_code k v d))"
  "i \<in> set (prefetch_code k v d) \<Longrightarrow> ii_op i = OGep \<or> called i = Some ''llvm.prefetch.p0''"
  "i \<in> set (prefetch_code k v d) \<Longrightarrow> ii_op i \<noteq> OBr t"
  "i \<in> set (prefetch_code k v d) \<Longrightarrow> VInst n \<in> set (ii_args i) \<Longrightarrow> n = k \<or> VInst n = v"
  by (auto simp: prefetch_code_def new_ins_def call_proto_def called_def)

lemma prefetch_fits:
  assumes "\<forall>b p j q. (b, p @ j # q) \<in> set bs \<longrightarrow> ii_id j = k \<longrightarrow> avail bs b (ii_id ` set p) v"
  shows "fits_before bs k (prefetch_code n v d)"
proof -
  have "avail bs b seen (VConst c)" "avail bs b (insert n seen) (VInst n)" for b seen c by (simp_all add: avail_def)
  then show ?thesis using assms by (simp add: fits_before_def prefetch_code_def new_ins_def call_proto_def)
qed

lemma put_prefetch_step:
  assumes "prefetched m0 m" and "find_fun m n = Some f'" and "find_fun m0 n \<noteq> None"
    and "\<forall>b p j q. (b, p @ j # q) \<in> set (iu_blocks f') \<longrightarrow> ii_id j = k \<longrightarrow> avail (iu_blocks f') b (ii_id ` set p) v"
    and "\<forall>x. v = VInst x \<longrightarrow> (\<exists>i\<in>set (all_ins (iu_blocks f')). VInst x \<in> set (ii_args i))"
  shows "prefetched m0 (put_prefetch env n k v m)"
    and "find_fun (put_prefetch env n k v m) n = Some (f'\<lparr>iu_blocks := insert_before k (prefetch_code (im_next m) v (px_distance env)) (iu_blocks f')\<rparr>)"
proof -
  let ?bs = "iu_blocks f'" and ?xs = "prefetch_code (im_next m) v (px_distance env)"
  let ?f = "f'\<lparr>iu_blocks := insert_before k ?xs ?bs\<rparr>" and ?m = "put_prefetch env n k v m"
  obtain f where f: "find_fun m0 n = Some f" "keeps_form m0 m f f'" using assms(1-3) by (fastforce simp: prefetched_def)
  have le: "im_next m0 \<le> im_next m" using assms(1) by (simp add: prefetched_def)
  have nx: "im_next ?m = im_next m + 2" by (simp add: put_prefetch_def bump_def upd_blocks_def getOrDeclareFunc_def)
  have find: "find_fun ?m j = (if j = n then Some ?f else find_fun (getOrDeclareFunc ''llvm.prefetch.p0'' [PointerTy, IntegerTy 32, IntegerTy 32, IntegerTy 32] VoidTy m) j)" for j
    using find_fun_declare [OF assms(2)] by (simp add: put_prefetch_def find_fun_upd_blocks)
  then show f'': "find_fun ?m n = Some ?f" by simp
  have old: "\<forall>i\<in>set (all_ins ?bs). ii_id i < im_next m \<and> (\<forall>n. VInst n \<in> set (ii_args i) \<longrightarrow> n < im_next m)"
    using f(2) by (simp add: keeps_form_def)
  have vx: "x < im_next m" if "v = VInst x" for x using assms(5) that old by blast
  have "code_ok (iu_blocks ?f)"
  proof (simp, rule code_ok_insert)
    show "code_ok ?bs" using f(2) by (simp add: keeps_form_def)
    show "ii_id ` set ?xs \<inter> ii_id ` set (all_ins ?bs) = {}" unfolding prefetch_code_ins(1) using old by auto
    show "fits_before ?bs k ?xs" using assms(4) by (rule prefetch_fits)
    show "\<forall>i\<in>set ?xs. \<forall>n. VInst n \<in> set (ii_args i) \<longrightarrow> n \<in> ii_id ` set ?xs \<or> (\<forall>j\<in>set (all_ins ?bs). ii_id j = n \<longrightarrow> (\<forall>t. ii_op j \<noteq> OBr t))"
    proof (intro ballI allI impI)
      fix i n
      assume "i \<in> set ?xs" "VInst n \<in> set (ii_args i)"
      then consider "n = im_next m" | "v = VInst n" using prefetch_code_ins(5) by metis
      then show "n \<in> ii_id ` set ?xs \<or> (\<forall>j\<in>set (all_ins ?bs). ii_id j = n \<longrightarrow> (\<forall>t. ii_op j \<noteq> OBr t))"
      proof cases
        case 2
        then show ?thesis using assms(5) f(2) unfolding keeps_form_def code_ok_def no_branch_operand_def by blast
      qed (simp add: prefetch_code_ins(1))
    qed
    show "\<forall>i\<in>set (all_ins ?bs). \<forall>n. VInst n \<in> set (ii_args i) \<longrightarrow> n \<notin> ii_id ` set ?xs"
      unfolding prefetch_code_ins(1) using old by fastforce
    show "distinct (map ii_id ?xs)" by (rule prefetch_code_ins(2))
    show "\<forall>i\<in>set ?xs. \<forall>t. ii_op i \<noteq> OBr t" using prefetch_code_ins(4) by metis
  qed
  moreover have "\<forall>x\<in>set ?xs. im_next m0 \<le> ii_id x"
    using le imageI [of _ "set ?xs" ii_id] unfolding prefetch_code_ins(1) by fastforce
  then have "?f\<lparr>iu_blocks := older (im_next m0) (iu_blocks ?f)\<rparr> = f" using f(2) by (simp add: keeps_form_def older_insert_before)
  moreover have "ii_id i < im_next ?m \<and> (\<forall>n. VInst n \<in> set (ii_args i) \<longrightarrow> n < im_next ?m) \<and>
      (im_next m0 \<le> ii_id i \<longrightarrow> ii_op i = OGep \<or> called i = Some ''llvm.prefetch.p0'')" if "i \<in> set (all_ins (iu_blocks ?f))" for i
  proof (cases "i \<in> set ?xs")
    case True
    then have "ii_id i \<in> {im_next m, im_next m + 1}" using prefetch_code_ins(1) by blast
    moreover have "n < im_next ?m" if "VInst n \<in> set (ii_args i)" for n
      using prefetch_code_ins(5) [OF True that] vx nx by fastforce
    ultimately show ?thesis using prefetch_code_ins(3) [OF True] nx by auto
  next
    case False
    then have "i \<in> set (all_ins ?bs)" using that set_insert_before by fastforce
    then show ?thesis using f(2) nx by (fastforce simp: keeps_form_def)
  qed
  ultimately have k: "keeps_form m0 ?m f ?f" by (simp add: keeps_form_def)
  have "\<exists>g'. find_fun ?m j = Some g' \<and> keeps_form m0 ?m g g'" if jg: "find_fun m0 j = Some g" for j g
  proof (cases "j = n")
    case True
    then show ?thesis using k f(1) jg find by auto
  next
    case False
    obtain g' where g': "find_fun m j = Some g'" "keeps_form m0 m g g'" using assms(1) jg unfolding prefetched_def by blast
    have "keeps_form m0 ?m g g'" using g'(2) nx by (fastforce simp: keeps_form_def)
    then show ?thesis using False find find_fun_declare [OF g'(1)] by auto
  qed
  moreover have "find_fun m0 j \<noteq> None \<or> iu_blocks g = []" if "find_fun ?m j = Some g" for j g
  proof (cases "j = n")
    case False
    then have "find_fun m j = Some g \<or> iu_blocks g = []" using that find find_fun_declare_back by metis
    then show ?thesis using assms(1) unfolding prefetched_def by blast
  qed (use assms(3) in simp)
  ultimately show "prefetched m0 ?m" using le nx by (simp add: prefetched_def)
qed

lemma all_ins_insert: "set (all_ins bs) \<subseteq> set (all_ins (insert_before k xs bs))"
  by (auto simp: all_ins_def insert_before_def code_on_ins)

lemma block_code_member: "i \<in> set (block_code bs b) \<Longrightarrow> (b, block_code bs b) \<in> set bs"
  by (cases "map_of bs b") (auto simp: block_code_def dest: map_of_SomeD)

lemma insertPrefetch_step:
  assumes "prefetched m0 m" and "find_fun m n = Some f'" and "find_fun m0 n \<noteq> None" and "loop_ok (iu_blocks f') l"
  shows "\<exists>m' c' t' f''. insertPrefetch env topo n l (m, c, t) = (m', c', t') \<and> prefetched m0 m' \<and> find_fun m' n = Some f'' \<and>
    (\<forall>l'. loop_ok (iu_blocks f') l' \<longrightarrow> loop_ok (iu_blocks f'') l')"
proof (cases "findFirstMemoryPointer (iu_blocks f') l")
  case None
  then show ?thesis using assms by (simp add: insertPrefetch_def)
next
  case (Some v)
  let ?bs = "iu_blocks f'"
  let ?b = "case lo_preheader l of Some b \<Rightarrow> b | None \<Rightarrow> lo_header l"
  show ?thesis
  proof (cases "block_code ?bs ?b")
    case Nil
    then show ?thesis using assms Some by (simp add: insertPrefetch_def)
  next
    case (Cons i js)
    have ok: "code_ok ?bs" using assms(1-3) by (fastforce simp: prefetched_def keeps_form_def)
    then have ids: "distinct (map ii_id (all_ins ?bs))" "distinct (map fst ?bs)" by (simp_all add: code_ok_def)
    have blk: "(?b, i # js) \<in> set ?bs" using block_code_member [of i ?bs ?b] Cons by simp
    let ?k = "ii_id (last (i # js))"
    have av: "avail ?bs b (ii_id ` set p) v" if m: "(b, p @ j # q) \<in> set ?bs" "ii_id j = ?k" for b p j q
    proof -
      have eq: "b = ?b \<and> p @ j # q = i # js \<and> j = last (i # js)"
        using same_block [OF ids m(1) blk, of j "last (i # js)"] m(2) last_in_set [of "i # js"] by force
      have "distinct (map ii_id (p @ j # q))" using block_ids_distinct [OF ids(1) m(1)] by simp
      moreover have "last (p @ j # q) = j" using eq by metis
      ultimately have "q = []" by (cases q rule: rev_cases) auto
      then show ?thesis using loop_pointer_available [OF ok assms(4) Some, of b p j] eq m(1) by simp
    qed
    have used: "\<forall>x. v = VInst x \<longrightarrow> (\<exists>i\<in>set (all_ins ?bs). VInst x \<in> set (ii_args i))"
    proof (intro allI impI)
      fix x
      assume "v = VInst x"
      moreover obtain u p j q where u: "(u, p @ j # q) \<in> set ?bs" "v \<in> set (ii_args j)"
        using first_pointer_used [OF Some] unfolding used_in_def by blast
      moreover have "j \<in> set (all_ins ?bs)" unfolding all_ins_member by (intro exI conjI, rule u(1)) simp
      ultimately show "\<exists>i\<in>set (all_ins ?bs). VInst x \<in> set (ii_args i)" by blast
    qed
    have av': "\<forall>b p j q. (b, p @ j # q) \<in> set ?bs \<longrightarrow> ii_id j = ?k \<longrightarrow> avail ?bs b (ii_id ` set p) v" using av by blast
    note st = put_prefetch_step [OF assms(1-3) av' used, of env]
    have "insertPrefetch env topo n l (m, c, t) = (put_prefetch env n ?k v m, c + 1, count_hint topo t)"
      using assms(2) Some Cons by (simp add: insertPrefetch_def Let_def)
    then show ?thesis using st loop_ok_insert by auto
  qed
qed

lemma insertPrefetch_fold:
  assumes "prefetched m0 m" and "find_fun m n = Some f'" and "find_fun m0 n \<noteq> None" and "\<forall>l\<in>set ls. loop_ok (iu_blocks f') l"
  shows "prefetched m0 (fst (fold (insertPrefetch env topo n) ls (m, c, t)))"
  using assms
proof (induction ls arbitrary: m f' c t)
  case (Cons l ls)
  obtain m' c' t' f'' where s: "insertPrefetch env topo n l (m, c, t) = (m', c', t')" "prefetched m0 m'" "find_fun m' n = Some f''"
    "\<forall>l'. loop_ok (iu_blocks f') l' \<longrightarrow> loop_ok (iu_blocks f'') l'"
    using insertPrefetch_step [OF Cons.prems(1-3), of l env topo c t] Cons.prems(4) by auto
  show ?case using Cons.IH [OF s(2,3) Cons.prems(3)] Cons.prems(4) s(1,4) by simp
qed simp

definition loops_sound :: "prefetch_env \<Rightarrow> bool" where
  "loops_sound env \<longleftrightarrow> (\<forall>f. \<forall>l\<in>set (px_loops env f). loop_ok (iu_blocks f) l)"

lemma prefetch_loops_step:
  assumes "prefetched m0 (fst s)" and "loops_sound env"
  shows "prefetched m0 (fst (prefetch_loops env accessMap p s))"
proof (cases "snd p")
  case (Some n)
  show ?thesis
  proof (cases "find_fun (fst s) n")
    case (Some f)
    have "prefetched m0 (fst (fold (insertPrefetch env (fst p) n) (px_loops env f) s))" if "\<not> iu_declaration f"
    proof -
      have "find_fun m0 n \<noteq> None" using assms(1) Some that unfolding prefetched_def iu_declaration_def by blast
      then show ?thesis using insertPrefetch_fold [OF assms(1) Some, of "px_loops env f" env "fst p" "fst (snd s)" "snd (snd s)"] assms(2)
        by (simp add: loops_sound_def)
    qed
    then show ?thesis using Some \<open>snd p = Some n\<close> assms(1) by (auto simp: prefetch_loops_def)
  qed (use assms(1) \<open>snd p = Some n\<close> in \<open>simp add: prefetch_loops_def\<close>)
qed (use assms(1) in \<open>simp add: prefetch_loops_def\<close>)

text \<open>The arguments of a call that is in the function.\<close>

lemma prefetch_arguments:
  assumes "prefetched m0 m" and "find_fun m n = Some f'" and "find_fun m0 n \<noteq> None" and "j \<in> set (all_ins (iu_blocks f'))"
    and "ii_op j \<noteq> OPhi" and "set vs \<subseteq> set (ii_args j)"
  shows "\<exists>f''. prefetched m0 (fst (fold (prefetch_argument env blk n (ii_id j)) vs (m, c, t))) \<and>
    find_fun (fst (fold (prefetch_argument env blk n (ii_id j)) vs (m, c, t))) n = Some f'' \<and>
    set (all_ins (iu_blocks f')) \<subseteq> set (all_ins (iu_blocks f''))"
  using assms
proof (induction vs arbitrary: m f' c t)
  case (Cons v vs)
  let ?bs = "iu_blocks f'"
  have ok: "code_ok ?bs" using Cons.prems(1-3) by (fastforce simp: prefetched_def keeps_form_def)
  then have ids: "distinct (map ii_id (all_ins ?bs))" "distinct (map fst ?bs)" "ssa_ok ?bs" by (simp_all add: code_ok_def)
  obtain b0 is0 where j: "(b0, is0) \<in> set ?bs" "j \<in> set is0" using Cons.prems(4) unfolding all_ins_member by blast
  have av: "\<forall>b p i q. (b, p @ i # q) \<in> set ?bs \<longrightarrow> ii_id i = ii_id j \<longrightarrow> avail ?bs b (ii_id ` set p) v"
  proof (intro allI impI)
    fix b p i q
    assume m: "(b, p @ i # q) \<in> set ?bs" "ii_id i = ii_id j"
    have "i = j" using same_block [OF ids(1,2) m(1) j(1), of i j] m(2) j(2) by simp
    then show "avail ?bs b (ii_id ` set p) v" using operand_fits [OF ids(3) m(1)] Cons.prems(5,6) by simp
  qed
  have used: "\<forall>x. v = VInst x \<longrightarrow> (\<exists>i\<in>set (all_ins ?bs). VInst x \<in> set (ii_args i))" using Cons.prems(4,6) by auto
  note st = put_prefetch_step [OF Cons.prems(1-3) av used, of env]
  have more: "set (all_ins ?bs) \<subseteq> set (all_ins (insert_before (ii_id j) (prefetch_code (im_next m) v (px_distance env)) ?bs))"
    by (rule all_ins_insert)
  let ?m = "put_prefetch env n (ii_id j) v m"
  let ?f = "f'\<lparr>iu_blocks := insert_before (ii_id j) (prefetch_code (im_next m) v (px_distance env)) ?bs\<rparr>"
  have jn: "j \<in> set (all_ins (iu_blocks ?f))" using Cons.prems(4) more by auto
  have vs: "set vs \<subseteq> set (ii_args j)" using Cons.prems(6) by simp
  obtain c' t' where step: "prefetch_argument env blk n (ii_id j) v (m, c, t) = (?m, c', t')"
    by (simp add: prefetch_argument_def)
  obtain f'' where r: "prefetched m0 (fst (fold (prefetch_argument env blk n (ii_id j)) vs (?m, c', t')))"
    "find_fun (fst (fold (prefetch_argument env blk n (ii_id j)) vs (?m, c', t'))) n = Some f''"
    "set (all_ins (iu_blocks ?f)) \<subseteq> set (all_ins (iu_blocks f''))"
    using Cons.IH [OF st(1,2) Cons.prems(3) jn Cons.prems(5) vs, of c' t'] by blast
  have "set (all_ins ?bs) \<subseteq> set (all_ins (iu_blocks f''))" using subset_trans [OF more] r(3) by simp
  with r(1,2) show ?case by (auto simp: step)
qed auto

lemma prefetch_transitions:
  assumes "prefetched m0 m" and "find_fun m n = Some f'" and "find_fun m0 n \<noteq> None" and "iu_name f = n"
    and "\<forall>p\<in>set ps. fst (snd p) \<in> set (all_ins (iu_blocks f')) \<and> ii_op (fst (snd p)) \<noteq> OPhi"
  shows "prefetched m0 (fst (fold (prefetch_transition env symbols acc blk f) ps (m, c, t)))"
  using assms
proof (induction ps arbitrary: m f' c t)
  case (Cons p ps)
  obtain a cur x next_call ns topo where p: "p = ((a, cur, x), (next_call, ns, topo))" by (metis prod.collapse)
  show ?case
  proof (cases "ns \<le> cur \<or> access_of symbols acc topo = NoPattern")
    case True
    then show ?thesis using Cons p by (simp add: prefetch_transition_def)
  next
    case False
    let ?r = "fold (prefetch_argument env blk n (ii_id next_call)) (filter (is_pointer f) (ii_args next_call)) (m, c, t)"
    have j: "next_call \<in> set (all_ins (iu_blocks f'))" "ii_op next_call \<noteq> OPhi" using Cons.prems(5) p by simp_all
    obtain f'' where r: "prefetched m0 (fst ?r)" "find_fun (fst ?r) n = Some f''" "set (all_ins (iu_blocks f')) \<subseteq> set (all_ins (iu_blocks f''))"
      using prefetch_arguments [OF Cons.prems(1-3) j, of "filter (is_pointer f) (ii_args next_call)" env blk c t] by auto
    have "\<forall>p\<in>set ps. fst (snd p) \<in> set (all_ins (iu_blocks f'')) \<and> ii_op (fst (snd p)) \<noteq> OPhi" using Cons.prems(5) r(3) by auto
    then show ?thesis using Cons.IH [OF r(1,2) Cons.prems(3,4), of "fst (snd ?r)" "snd (snd ?r)"] False p Cons.prems(4)
      by (simp add: prefetch_transition_def)
  qed
qed simp

lemma staged_call_member:
  assumes "q \<in> set (List.map_filter (staged_call mp an) (code_of f))"
  shows "fst q \<in> set (all_ins (iu_blocks f)) \<and> ii_op (fst q) \<noteq> OPhi"
proof -
  obtain i where i: "i \<in> set (code_of f)" "staged_call mp an i = Some q" using assms by (auto simp: List.map_filter_def)
  have "fst q = i \<and> ii_op i \<noteq> OPhi" using i(2)
    by (auto simp: staged_call_def called_def split: option.splits if_splits opcode.splits callee.splits)
  then show ?thesis using i(1) by (simp add: code_of_def all_ins_def)
qed

lemma prefetch_block_step:
  assumes "prefetched m0 (fst s)"
  shows "prefetched m0 (fst (prefetch_block env symbols mp acc p s))"
proof (cases "\<exists>an n f. fb_analysis (snd p) = Some an \<and> mapped mp (fb_qualifiedName (snd p)) = Some n \<and> find_fun (fst s) n = Some f \<and>
    fb_isPipeline (snd p) \<and> \<not> iu_declaration f")
  case True
  then obtain an n f where h: "fb_analysis (snd p) = Some an" "mapped mp (fb_qualifiedName (snd p)) = Some n" "find_fun (fst s) n = Some f"
    "fb_isPipeline (snd p)" "\<not> iu_declaration f" by blast
  let ?st = "List.map_filter (staged_call mp an) (code_of f)"
  have "find_fun m0 n \<noteq> None" using assms h(3,5) unfolding prefetched_def iu_declaration_def by blast
  moreover have "\<forall>q\<in>set ?st. fst q \<in> set (all_ins (iu_blocks f)) \<and> ii_op (fst q) \<noteq> OPhi"
    using staged_call_member [of _ mp an f] by auto
  then have "\<forall>q\<in>set (zip ?st (tl ?st)). fst (snd q) \<in> set (all_ins (iu_blocks f)) \<and> ii_op (fst (snd q)) \<noteq> OPhi"
    by (metis list.set_sel(2) set_zip_rightD surjective_pairing tl_Nil)
  ultimately have "prefetched m0 (fst (fold (prefetch_transition env symbols acc (fst p) f) (zip ?st (tl ?st)) s))"
    using prefetch_transitions [OF assms h(3), of f "zip ?st (tl ?st)" env symbols acc "fst p" "fst (snd s)" "snd (snd s)"]
      find_fun_Some [OF h(3)] by simp
  then show ?thesis using h by (simp add: prefetch_block_def Let_def)
next
  case False
  then show ?thesis using assms by (auto simp: prefetch_block_def split: option.splits)
qed

section \<open>The theorem\<close>

lemma prefetch_fold:
  assumes "\<And>p s. prefetched m0 (fst s) \<Longrightarrow> prefetched m0 (fst (g p s))" and "prefetched m0 (fst s)"
  shows "prefetched m0 (fst (fold g ps s))"
  using assms(2) by (induction ps arbitrary: s) (simp_all add: assms(1))

lemma prefetch_run_keeps:
  assumes "prefetched m m" and "loops_sound env"
  shows "prefetched m (fst (prefetch_run env symbols mp m))"
proof -
  have "prefetched m (fst (fold (prefetch_loops env (buildAccessPatternMap symbols)) mp (m, 0, [])))"
    by (rule prefetch_fold) (use assms prefetch_loops_step in auto)
  then have "prefetched m (fst (fold (prefetch_block env symbols mp (buildAccessPatternMap symbols)) (fl_blocks symbols)
      (fold (prefetch_loops env (buildAccessPatternMap symbols)) mp (m, 0, []))))"
    by (rule prefetch_fold [rotated]) (rule prefetch_block_step)
  then show ?thesis using assms(1) by (auto simp: prefetch_run_def Let_def split: prod.splits)
qed

definition well_formed :: "nat \<Rightarrow> ifun \<Rightarrow> bool" where
  "well_formed k f \<longleftrightarrow> code_ok (iu_blocks f) \<and>
     (\<forall>i\<in>set (all_ins (iu_blocks f)). ii_id i < k \<and> (\<forall>n. VInst n \<in> set (ii_args i) \<longrightarrow> n < k))"

definition is_prefetch :: "ins \<Rightarrow> bool" where
  "is_prefetch i \<longleftrightarrow> ii_op i = OGep \<or> called i = Some ''llvm.prefetch.p0''"

lemma prefetched_start: "\<forall>f\<in>set (im_funs m). well_formed (im_next m) f \<Longrightarrow> prefetched m m"
proof -
  assume ok: "\<forall>f\<in>set (im_funs m). well_formed (im_next m) f"
  have "keeps_form m m f f" if "find_fun m k = Some f" for k f
  proof -
    have w: "well_formed (im_next m) f" using ok that find_fun_Some by blast
    then have "older (im_next m) (iu_blocks f) = iu_blocks f" by (intro older_all) (simp add: well_formed_def all_ins_def)
    then show ?thesis using w by (auto simp: keeps_form_def well_formed_def)
  qed
  then show ?thesis by (auto simp: prefetched_def)
qed

text \<open>
  C36. The pass only inserts: every function keeps its code, what is inserted are addresses and prefetches, and every
  operand of the new code, at loop preheaders and before the calls of later stages, is available where it stands,
  so the function is in SSA form as before.
\<close>

theorem prefetching_keeps_ssa_form:
  assumes "prefetch_run env symbols mp m = (m', inserted, hints)" and "loops_sound env"
    and "\<forall>f\<in>set (im_funs m). well_formed (im_next m) f" and "find_fun m k = Some f"
  shows "\<exists>f'. find_fun m' k = Some f' \<and> well_formed (im_next m') f' \<and> f'\<lparr>iu_blocks := older (im_next m) (iu_blocks f')\<rparr> = f \<and>
    (\<forall>i\<in>set (all_ins (iu_blocks f')). im_next m \<le> ii_id i \<longrightarrow> is_prefetch i)"
proof -
  have "prefetched m m'" using prefetch_run_keeps [OF prefetched_start [OF assms(3)] assms(2), of symbols mp] assms(1) by simp
  then obtain f' where f': "find_fun m' k = Some f'" "keeps_form m m' f f'" using assms(4) unfolding prefetched_def by blast
  show ?thesis by (rule exI [of _ f']) (use f' in \<open>auto simp: keeps_form_def well_formed_def is_prefetch_def\<close>)
qed

definition prefetch_example_fun :: ifun where
  "prefetch_example_fun = (new_ifun ''sum'' [PointerTy] VoidTy)\<lparr>iu_blocks :=
     [(0, [new_ins 0 (OAlloca, [], PointerTy), new_ins 1 (OBr 1, [], VoidTy)]),
      (1, [new_ins 2 (OGep, [VInst 0, VConst 1], PointerTy), new_ins 3 (OLoad, [VInst 2], IntegerTy 32),
           new_ins 4 (OCondBr 1 2, [VInst 3], VoidTy)]),
      (2, [new_ins 5 (ORet, [], VoidTy)])]\<rparr>"

definition prefetch_example_env :: prefetch_env where
  "prefetch_example_env = \<lparr>px_loops = (\<lambda>f. if iu_blocks f = iu_blocks prefetch_example_fun
     then [\<lparr>lo_header = 1, lo_blocks = [1], lo_preheader = Some 0\<rparr>] else []), px_enabled = True, px_distance = 8\<rparr>"

definition prefetch_example_module :: imod where
  "prefetch_example_module = \<lparr>im_triple = [], im_funs = [prefetch_example_fun], im_globals = [], im_next = 6,
     im_abi = \<lparr>am_values = [], am_strings = [], am_ctors = []\<rparr>\<rparr>"

definition prefetch_example_flow :: FlowSymbols where
  "prefetch_example_flow = \<lparr>fl_blocks = [(''app::main'', \<lparr>fb_qualifiedName = ''app::main'', fb_simpleName = ''main'', fb_isPipeline = True,
       fb_calledFunctions = [''app::sum''], fb_stages = [], fb_edges = [], fb_analysis = None\<rparr>)],
     fl_functions = [(''app::sum'', \<lparr>ff_qualifiedName = ''app::sum'', ff_params = [], ff_cardinality = None, ff_accessPattern = Streaming,
       ff_tiledSize = 0, ff_bindingTarget = None\<rparr>)], fl_adapts = []\<rparr>"

lemma prefetch_example_sound: "loops_sound prefetch_example_env"
proof -
  let ?bs = "iu_blocks prefetch_example_fun"
  have "walk (edges ?bs) (Suc 0) [Suc 0] (Suc 0)" by (rule walk_one)
  then have "\<exists>ns. walk (edges ?bs) (Suc 0) ns (Suc 0) \<and> set ns \<subseteq> {Suc 0}" by (intro exI conjI) auto
  then have "loop_ok ?bs \<lparr>lo_header = 1, lo_blocks = [1], lo_preheader = Some 0\<rparr>"
    by (auto simp: loop_ok_def prefetch_example_fun_def new_ins_def)
  then show ?thesis by (simp add: loops_sound_def prefetch_example_env_def)
qed

lemma prefetch_example_formed: "well_formed 6 prefetch_example_fun"
proof -
  let ?bs = "iu_blocks prefetch_example_fun"
  have "dominates ?bs 0 1" using dominates_entry [of ?bs 1] by (simp add: entry_def prefetch_example_fun_def)
  then have "avail ?bs (Suc 0) {} (VInst 0)" by (auto simp: avail_def prefetch_example_fun_def new_ins_def)
  then have "ssa_ok ?bs" by (simp add: ssa_ok_def prefetch_example_fun_def new_ins_def avail_def)
  moreover have "no_branch_operand ?bs"
    by (auto simp: no_branch_operand_def all_ins_def prefetch_example_fun_def new_ins_def)
  ultimately show ?thesis by (auto simp: well_formed_def code_ok_def all_ins_def prefetch_example_fun_def new_ins_def)
qed

lemma prefetching_keeps_ssa_form_witness:
  "\<exists>m' f'. prefetch_run prefetch_example_env prefetch_example_flow [(''app::sum'', Some ''sum'')] prefetch_example_module =
       (m', 1, [(''app::sum'', 1, 8)]) \<and>
     find_fun m' ''sum'' = Some f' \<and> length (code_of f') = 8 \<and> well_formed 8 f'"
proof -
  let ?run = "prefetch_run prefetch_example_env prefetch_example_flow [(''app::sum'', Some ''sum'')] prefetch_example_module"
  have n: "snd ?run = (1, [(''app::sum'', 1, 8)])" "map_option (\<lambda>f. length (code_of f)) (find_fun (fst ?run) ''sum'') = Some 8"
    "im_next (fst ?run) = 8" by code_simp+
  then have r: "?run = (fst ?run, 1, [(''app::sum'', 1, 8)])" by (metis prod.collapse)
  have w: "\<forall>f\<in>set (im_funs prefetch_example_module). well_formed (im_next prefetch_example_module) f"
    using prefetch_example_formed by (simp add: prefetch_example_module_def)
  have f: "find_fun prefetch_example_module ''sum'' = Some prefetch_example_fun"
    by (simp add: find_fun_def prefetch_example_module_def prefetch_example_fun_def new_ifun_def)
  from prefetching_keeps_ssa_form [OF r prefetch_example_sound w f] r n show ?thesis by (metis option.map(2) option.inject)
qed

section \<open>What the headers say differently\<close>

text \<open>Functions whose accesses are declared random get prefetches as those that stream.\<close>

definition random_flow :: FlowSymbols where
  "random_flow = prefetch_example_flow\<lparr>fl_functions := [(''app::sum'', \<lparr>ff_qualifiedName = ''app::sum'', ff_params = [], ff_cardinality = None,
     ff_accessPattern = Random, ff_tiledSize = 0, ff_bindingTarget = None\<rparr>)]\<rparr>"

lemma random_access_prefetched:
  "snd (prefetch_run prefetch_example_env random_flow [(''app::sum'', Some ''sum'')] prefetch_example_module) = (1, [(''app::sum'', 1, 8)])"
  by code_simp

text \<open>The prefetch of a later stage's data comes directly before its call, after whatever follows the earlier stage's call.\<close>

definition stage_example_fun :: ifun where
  "stage_example_fun = (new_ifun ''flow'' [PointerTy] VoidTy)\<lparr>iu_blocks :=
     [(0, [new_ins 0 (call_proto ''load'' [VArg 0] VoidTy), new_ins 1 (OStore, [VConst 1, VArg 0], VoidTy),
           new_ins 2 (call_proto ''mix'' [VArg 0] VoidTy), new_ins 3 (ORet, [], VoidTy)])]\<rparr>"

definition stage_example_flow :: FlowSymbols where
  "stage_example_flow = \<lparr>fl_blocks = [(''flow'', \<lparr>fb_qualifiedName = ''flow'', fb_simpleName = ''flow'', fb_isPipeline = True,
       fb_calledFunctions = [''load'', ''mix''], fb_stages = [0, 1], fb_edges = [],
       fb_analysis = Some \<lparr>an_stages = [(''load'', 0), (''mix'', 1)], an_sourceNodes = [], an_terminalNode = ''mix'', an_terminalType = [], an_demand = []\<rparr>\<rparr>)],
     fl_functions = [(''mix'', \<lparr>ff_qualifiedName = ''mix'', ff_params = [], ff_cardinality = None, ff_accessPattern = Streaming,
       ff_tiledSize = 0, ff_bindingTarget = None\<rparr>)], fl_adapts = []\<rparr>"

definition stage_example_module :: imod where
  "stage_example_module = prefetch_example_module\<lparr>im_funs := [stage_example_fun, new_ifun ''load'' [PointerTy] VoidTy, new_ifun ''mix'' [PointerTy] VoidTy]\<rparr>"

lemma boundary_prefetch_is_late:
  "map_option (\<lambda>f. map ii_id (code_of f)) (find_fun (fst (prefetch_run prefetch_example_env stage_example_flow
     [(''flow'', Some ''flow''), (''load'', Some ''load''), (''mix'', Some ''mix'')] stage_example_module)) ''flow'') = Some [0, 1, 6, 7, 2, 3]"
  by code_simp

end
