(* ===== verification/ReportsSidecar.thy ===== *)
theory ReportsSidecar
  imports PassReports JsonValue
begin

text \<open>
  lib/Backend/PassReportsSidecar.cpp: the reports as JSON values and their files. The library's printing
  and parsing and the file system's answers are parameters.
\<close>

section \<open>Reports\<close>

definition headerToJson :: "PassReportHeader \<Rightarrow> json" where
  "headerToJson h = json_object
     [(''pass'', JString (hd_passName h)), (''category'', JString (hd_category h)), (''fired'', JBool (hd_fired h)),
      (''fired_count'', JInt (hd_firedCount h)), (''decision'', JString (hd_decision h)), (''reason'', JString (hd_reason h)),
      (''elapsed_ns'', JInt (hd_elapsedNs h))]"

definition dataLayoutCandidateToJson :: "DataLayoutCandidate \<Rightarrow> json" where
  "dataLayoutCandidateToJson c = json_object
     [(''pipeline'', JString (dl_pipelineName c)), (''wrapper_ir_type'', JString (dl_wrapperIRType c)),
      (''element_ir_type'', JString (dl_elementIRType c)), (''array_size'', JUnsigned (dl_arraySize c)),
      (''baseline_ns'', JInt (dl_baselineNs c)), (''variant_ns'', JInt (dl_variantNs c)), (''speedup'', JDouble (dl_speedup c)),
      (''winner'', JString (dl_winner c)), (''applied'', JBool (dl_applied c))]"

definition dataLayoutToJson :: "PassReports \<Rightarrow> json" where
  "dataLayoutToJson r = json_object
     [(''header'', headerToJson (rp_headers r DataLayoutPass)),
      (''candidates'', JArray (map dataLayoutCandidateToJson (rp_dataLayout r)))]"

definition indirectionToJson :: "PassReports \<Rightarrow> json" where
  "indirectionToJson r = json_object
     [(''header'', headerToJson (rp_headers r IndirectionPass)),
      (''stats'', json_object
        [(''unique_ptr_promoted'', JInt (is_uniquePtrPromoted (rp_indirection r))),
         (''shared_ptr_optimized'', JInt (is_sharedPtrOptimized (rp_indirection r))),
         (''shared_ptr_dereferenced'', JInt (is_sharedPtrDereferenced (rp_indirection r))),
         (''refcount_eliminated'', JInt (is_refcountEliminated (rp_indirection r))),
         (''vector_lowered'', JInt (is_vectorLowered (rp_indirection r))),
         (''pointer_attrs_added'', JInt (is_pointerAttrsAdded (rp_indirection r))),
         (''calls_devirtualized'', JInt (is_callsDevirtualized (rp_indirection r))),
         (''vtable_constants_annotated'', JInt (is_vtableConstantsAnnotated (rp_indirection r)))])]"

definition candidateToJson :: "string \<Rightarrow> Candidate \<Rightarrow> json" where
  "candidateToJson key c = json_object
     [(key, JString (ca_name c)), (''baseline_ns'', JInt (ca_baselineNs c)), (''variant_ns'', JInt (ca_variantNs c)),
      (''speedup'', JDouble (ca_speedup c)), (''winner'', JString (ca_winner c)), (''applied'', JBool (ca_applied c))]"

definition topoParallelToJson :: "PassReports \<Rightarrow> json" where
  "topoParallelToJson r = json_object
     [(''header'', headerToJson (rp_headers r TopoParallelPass)),
      (''candidates'', JArray (map (candidateToJson ''pipeline'') (rp_topoParallel r)))]"

definition lifetimeArenaToJson :: "PassReports \<Rightarrow> json" where
  "lifetimeArenaToJson r = json_object
     [(''header'', headerToJson (rp_headers r LifetimeArenaPass)),
      (''candidates'', JArray (map (candidateToJson ''owner'') (rp_lifetimeArena r)))]"

definition returnSpecializationToJson :: "PassReports \<Rightarrow> json" where
  "returnSpecializationToJson r = json_object
     [(''header'', headerToJson (rp_headers r ReturnSpecializationPass)),
      (''entries'', JArray (map (\<lambda>e. json_object
         [(''host_function'', JString (rs_hostFunction e)),
          (''eliminated_field_indices'', JArray (map JInt (rs_eliminated e))),
          (''kept_field_indices'', JArray (map JInt (rs_kept e)))]) (rp_returnSpecialization r)))]"

definition topoInlineToJson :: "PassReports \<Rightarrow> json" where
  "topoInlineToJson r = json_object
     [(''header'', headerToJson (rp_headers r TopoInlinePass)),
      (''entries'', JArray (map (\<lambda>e. json_object
         [(''callee'', JString (ti_callee e)), (''reason'', JString (ti_reason e))]) (rp_topoInline r)))]"

definition topoFlattenToJson :: "PassReports \<Rightarrow> json" where
  "topoFlattenToJson r = json_object
     [(''header'', headerToJson (rp_headers r TopoFlattenPass)),
      (''demoted_functions'', JArray (map JString (rp_topoFlatten r)))]"

definition adaptiveDispatchToJson :: "PassReports \<Rightarrow> json" where
  "adaptiveDispatchToJson r = json_object
     [(''header'', headerToJson (rp_headers r AdaptiveDispatchPass)),
      (''entries'', JArray (map (\<lambda>e. json_object
         [(''stage'', JString (ade_stageName e)), (''default_variant'', JString (ade_defaultVariant e))]) (rp_adaptiveDispatch r)))]"

definition prefetchToJson :: "PassReports \<Rightarrow> json" where
  "prefetchToJson r = json_object
     [(''header'', headerToJson (rp_headers r PrefetchPass)),
      (''entries'', JArray (map (\<lambda>e. json_object
         [(''host_function'', JString (pf_hostFunction e)), (''inserted_hints'', JInt (pf_insertedHints e)),
          (''distance'', JInt (pf_distance e))]) (rp_prefetch r)))]"

definition containmentInterceptionToJson :: "PassReports \<Rightarrow> json" where
  "containmentInterceptionToJson r = json_object
     [(''header'', headerToJson (rp_headers r ContainmentInterceptionPass)),
      (''entries'', JArray (map (\<lambda>e. json_object
         [(''caller'', JString (ci_callerFunction e)), (''intercepted_callee'', JString (ci_interceptedCallee e))])
         (rp_containmentInterception r)))]"

definition loopParallelizeToJson :: "PassReports \<Rightarrow> json" where
  "loopParallelizeToJson r = json_object
     [(''header'', headerToJson (rp_headers r LoopParallelizePass)),
      (''entries'', JArray (map (\<lambda>e. json_object
         [(''host_function'', JString (lp_hostFunction e)), (''annotated_loops'', JInt (lp_annotatedLoops e))])
         (rp_loopParallelize r)))]"

section \<open>Files\<close>

text \<open>
  What the library and the file system answer: the text of a value, on one line and indented, and the value
  of a text, \<open>None\<close> where the library throws (on a string that is not UTF-8, for one); whether a
  directory or a file can be opened, how much of a text reaches the file, whether a rename works.
\<close>

record sidecar_env =
  sv_dump :: "json \<Rightarrow> string option"
  sv_parse :: "string \<Rightarrow> json option"
  sv_dump2 :: "json \<Rightarrow> string option"
  sv_createDirectories :: "string \<Rightarrow> bool"
  sv_open :: "string \<Rightarrow> bool"
  sv_accepted :: "string \<Rightarrow> string \<Rightarrow> nat"
  sv_rename :: "string \<Rightarrow> bool"

type_synonym file_system = "string \<Rightarrow> string option"

definition ordered_value :: "sidecar_env \<Rightarrow> json \<Rightarrow> json option" where
  "ordered_value sv body = do { printed \<leftarrow> sv_dump sv body; ordered \<leftarrow> sv_parse sv printed; Some (sortKeys ordered) }"

text \<open>The outcome \<open>None\<close> is an exception, which the caller does not catch; the stream then leaves an empty temporary file.\<close>

definition atomicWriteJson :: "sidecar_env \<Rightarrow> string \<Rightarrow> json \<Rightarrow> file_system \<Rightarrow> bool option \<times> file_system" where
  "atomicWriteJson sv dest body fs =
     (case ordered_value sv body of
        None \<Rightarrow> (None, fs)
      | Some ordered \<Rightarrow>
          (let tmp = dest @ ''.tmp''
           in if \<not> sv_open sv tmp then (Some False, fs)
              else
                (case sv_dump2 sv ordered of
                   None \<Rightarrow> (None, fs(tmp \<mapsto> []))
                 | Some printed \<Rightarrow>
                     (let text = printed @ [CHR 0x0A];
                          fs = fs(tmp \<mapsto> take (sv_accepted sv tmp text) text)
                      in if sv_accepted sv tmp text < length text then (Some False, fs)
                         else if \<not> sv_rename sv dest then (Some False, fs)
                         else (Some True, fs(dest := fs tmp, tmp := None))))))"

definition report_bodies :: "(judging \<times> (PassReports \<Rightarrow> json)) list" where
  "report_bodies =
     [(DataLayoutPass, dataLayoutToJson), (IndirectionPass, indirectionToJson), (TopoParallelPass, topoParallelToJson),
      (LifetimeArenaPass, lifetimeArenaToJson), (ReturnSpecializationPass, returnSpecializationToJson),
      (TopoInlinePass, topoInlineToJson), (TopoFlattenPass, topoFlattenToJson), (AdaptiveDispatchPass, adaptiveDispatchToJson),
      (PrefetchPass, prefetchToJson), (ContainmentInterceptionPass, containmentInterceptionToJson),
      (LoopParallelizePass, loopParallelizeToJson)]"

definition report_path :: "string \<Rightarrow> judging \<Rightarrow> string" where
  "report_path outputPath p = outputPath @ ''.topo-passes/'' @ pass_name p @ ''.json''"

text \<open>One \<open>write\<close>; after an exception nothing more is written.\<close>

definition write_report ::
  "sidecar_env \<Rightarrow> PassReports \<Rightarrow> string \<Rightarrow> judging \<times> (PassReports \<Rightarrow> json) \<Rightarrow> bool option \<times> file_system \<Rightarrow> bool option \<times> file_system" where
  "write_report sv reports outputPath e acc =
     (case (e, acc) of
        (_, (None, fs)) \<Rightarrow> (None, fs)
      | ((p, body), (Some allOk, fs)) \<Rightarrow>
          (case atomicWriteJson sv (report_path outputPath p) (body reports) fs of
             (ok, fs) \<Rightarrow> (map_option (\<lambda>ok. allOk \<and> ok) ok, fs)))"

definition writePassReportsSidecar :: "sidecar_env \<Rightarrow> PassReports \<Rightarrow> string \<Rightarrow> file_system \<Rightarrow> bool option \<times> file_system" where
  "writePassReportsSidecar sv reports outputPath fs =
     (if \<not> sv_createDirectories sv (outputPath @ ''.topo-passes'') then (Some False, fs)
      else fold (write_report sv reports outputPath) report_bodies (Some True, fs))"

section \<open>Sorted reports\<close>

lemma sorted_header: "sorted_json (headerToJson h)"
  unfolding headerToJson_def by (intro sorted_intros)

lemma sorted_report_parts:
  "sorted_json (dataLayoutToJson r)" "sorted_json (indirectionToJson r)" "sorted_json (topoParallelToJson r)"
  "sorted_json (lifetimeArenaToJson r)" "sorted_json (returnSpecializationToJson r)" "sorted_json (topoInlineToJson r)"
  "sorted_json (topoFlattenToJson r)" "sorted_json (adaptiveDispatchToJson r)" "sorted_json (prefetchToJson r)"
  "sorted_json (containmentInterceptionToJson r)" "sorted_json (loopParallelizeToJson r)"
  unfolding dataLayoutToJson_def dataLayoutCandidateToJson_def indirectionToJson_def topoParallelToJson_def
    lifetimeArenaToJson_def candidateToJson_def returnSpecializationToJson_def topoInlineToJson_def topoFlattenToJson_def
    adaptiveDispatchToJson_def prefetchToJson_def containmentInterceptionToJson_def loopParallelizeToJson_def
  by (intro sorted_intros sorted_header)+

lemma reports_sorted: "(p, body) \<in> set report_bodies \<Longrightarrow> sorted_json (body r)"
  unfolding report_bodies_def using sorted_report_parts [of r] by auto

section \<open>What the library reads back\<close>

text \<open>
  The value the library reads from what it prints: a non-negative number becomes unsigned, and NaN and
  the infinities, which it prints as \<open>null\<close>, are lost.
\<close>

fun reread :: "json \<Rightarrow> json" where
  "reread (JInt i) = (if 0 \<le> i then JUnsigned (word_of_int i) else JInt i)"
| "reread (JDouble d) = (case d of NaN \<Rightarrow> JNull | Infinity _ \<Rightarrow> JNull | _ \<Rightarrow> JDouble d)"
| "reread (JArray xs) = JArray (map reread xs)"
| "reread (JObject ps) = JObject (map (\<lambda>(k, v). (k, reread v)) ps)"
| "reread j = j"

lemma reread_sorted: "sorted_json j \<Longrightarrow> sorted_json (reread j)"
proof (induction j)
  case (JObject ps)
  have "map fst (map (\<lambda>(k, v). (k, reread v)) ps) = map fst ps" by (simp add: o_def split_beta)
  moreover have "list_all sorted_json (map snd (map (\<lambda>(k, v). (k, reread v)) ps))"
    using JObject by (fastforce simp: list_all_iff)
  ultimately show ?case using JObject.prems by (simp only: reread.simps sorted_json.simps)
qed (auto simp: list_all_iff split: double.split)

section \<open>The files afterwards\<close>

text \<open>The system takes the whole text of the report and renames the file.\<close>

definition report_written :: "sidecar_env \<Rightarrow> string \<Rightarrow> string \<Rightarrow> bool" where
  "report_written sv dest contents \<longleftrightarrow>
     sv_open sv (dest @ ''.tmp'') \<and> length contents \<le> sv_accepted sv (dest @ ''.tmp'') contents \<and> sv_rename sv dest"

definition report_text :: "sidecar_env \<Rightarrow> json \<Rightarrow> string option" where
  "report_text sv body = do { ordered \<leftarrow> ordered_value sv body; printed \<leftarrow> sv_dump2 sv ordered; Some (printed @ [CHR 0x0A]) }"

text \<open>The outcome of a write does not depend on the files.\<close>

definition write_outcome :: "sidecar_env \<Rightarrow> string \<Rightarrow> json \<Rightarrow> bool option" where
  "write_outcome sv dest body =
     (if ordered_value sv body = None then None
      else if \<not> sv_open sv (dest @ ''.tmp'') then Some False
      else map_option (report_written sv dest) (report_text sv body))"

lemma atomic_write:
  assumes "atomicWriteJson sv dest body fs = (ok, fs')"
  shows "ok = write_outcome sv dest body \<and>
    fs' dest = (if ok = Some True then report_text sv body else fs dest) \<and>
    (\<forall>path. path \<noteq> dest \<and> path \<noteq> dest @ ''.tmp'' \<longrightarrow> fs' path = fs path)"
proof (cases "ordered_value sv body")
  case (Some ordered)
  then show ?thesis
    using assms
    by (cases "sv_dump2 sv ordered")
      (auto simp: atomicWriteJson_def write_outcome_def report_written_def report_text_def Let_def split: if_splits)
qed (use assms in \<open>auto simp: atomicWriteJson_def write_outcome_def\<close>)

lemma append_cancel_paths:
  "report_path out p = report_path out q \<longleftrightarrow> p = q"
  "report_path out p \<noteq> report_path out q @ ''.tmp''"
proof -
  show "report_path out p = report_path out q \<longleftrightarrow> p = q" by (simp add: report_path_def)
  have n: "last (report_path out p) = CHR ''n''" by (simp add: report_path_def)
  show "report_path out p \<noteq> report_path out q @ ''.tmp''"
  proof
    assume "report_path out p = report_path out q @ ''.tmp''"
    then have "last (report_path out p) = last (report_path out q @ ''.tmp'')" by (rule arg_cong)
    with n show False by simp
  qed
qed

definition outcome :: "sidecar_env \<Rightarrow> string \<Rightarrow> PassReports \<Rightarrow> judging \<times> (PassReports \<Rightarrow> json) \<Rightarrow> bool option" where
  "outcome sv out r e = write_outcome sv (report_path out (fst e)) (snd e r)"

lemma write_after_exception: "fold (write_report sv r out) es (None, fs) = (None, fs)"
  by (induction es) (simp_all add: write_report_def split_beta)

lemma write_report_step:
  obtains fs1 where "write_report sv r out (p, body) (Some ok, fs) = (map_option (\<lambda>k. ok \<and> k) (outcome sv out r (p, body)), fs1)"
    and "fs1 (report_path out p) = (if outcome sv out r (p, body) = Some True then report_text sv (body r) else fs (report_path out p))"
    and "\<forall>path. path \<noteq> report_path out p \<and> path \<noteq> report_path out p @ ''.tmp'' \<longrightarrow> fs1 path = fs path"
proof -
  obtain ok1 fs1 where a: "atomicWriteJson sv (report_path out p) (body r) fs = (ok1, fs1)"
    by (cases "atomicWriteJson sv (report_path out p) (body r) fs")
  from atomic_write [OF a] a show thesis
    by (intro that [of fs1]) (simp_all add: write_report_def outcome_def)
qed

text \<open>A file after the reports \<open>es\<close>, exception or not, and the result.\<close>

lemma write_report_others:
  assumes "\<forall>p \<in> fst ` set es. path \<noteq> report_path out p \<and> path \<noteq> report_path out p @ ''.tmp''"
  shows "snd (fold (write_report sv r out) es (ok, fs)) path = fs path"
  using assms
proof (induction es arbitrary: ok fs)
  case (Cons e es)
  obtain p body where e: "e = (p, body)" by (cases e)
  show ?case
  proof (cases ok)
    case None
    have "fold (write_report sv r out) (e # es) (None, fs) = (None, fs)" by (rule write_after_exception)
    then show ?thesis unfolding None by simp
  next
    case (Some k)
    obtain fs1 where s: "write_report sv r out (p, body) (Some k, fs) = (map_option (\<lambda>b. k \<and> b) (outcome sv out r (p, body)), fs1)"
      "\<forall>path. path \<noteq> report_path out p \<and> path \<noteq> report_path out p @ ''.tmp'' \<longrightarrow> fs1 path = fs path"
      by (rule write_report_step)
    have "fs1 path = fs path" using s(2) Cons.prems e by simp
    with Cons.IH [of "map_option (\<lambda>b. k \<and> b) (outcome sv out r (p, body))" fs1] Cons.prems s(1) e Some show ?thesis by simp
  qed
qed simp

lemma write_reports_result:
  "fst (fold (write_report sv r out) es (Some ok, fs)) =
     (if \<exists>e\<in>set es. outcome sv out r e = None then None else Some (ok \<and> (\<forall>e\<in>set es. outcome sv out r e = Some True)))"
proof (induction es arbitrary: ok fs)
  case (Cons e es)
  obtain p body where e: "e = (p, body)" by (cases e)
  obtain fs1 where s: "write_report sv r out (p, body) (Some ok, fs) = (map_option (\<lambda>b. ok \<and> b) (outcome sv out r (p, body)), fs1)"
    by (rule write_report_step)
  show ?case
  proof (cases "outcome sv out r e")
    case None
    with s e show ?thesis by (simp add: write_after_exception)
  next
    case (Some k)
    with s e Cons.IH [of "ok \<and> k" fs1] show ?thesis by auto
  qed
qed simp

lemma write_reports_file:
  assumes "distinct (map fst es)" and "(p, body) \<in> set es"
  shows "snd (fold (write_report sv r out) es (Some ok, fs)) (report_path out p) =
       (if (\<forall>e\<in>set (takeWhile (\<lambda>e. e \<noteq> (p, body)) es). outcome sv out r e \<noteq> None) \<and> outcome sv out r (p, body) = Some True
        then report_text sv (body r) else fs (report_path out p))"
  using assms
proof (induction es arbitrary: ok fs)
  case (Cons e es)
  obtain q body' where e: "e = (q, body')" by (cases e)
  obtain fs1 where step: "write_report sv r out (q, body') (Some ok, fs) = (map_option (\<lambda>b. ok \<and> b) (outcome sv out r (q, body')), fs1)"
    and own: "fs1 (report_path out q) = (if outcome sv out r (q, body') = Some True then report_text sv (body' r) else fs (report_path out q))"
    and other: "\<forall>path. path \<noteq> report_path out q \<and> path \<noteq> report_path out q @ ''.tmp'' \<longrightarrow> fs1 path = fs path"
    by (rule write_report_step)
  show ?case
  proof (cases "p = q")
    case True
    with Cons.prems e have b: "body = body'" by force
    have "\<forall>p' \<in> fst ` set es. report_path out p \<noteq> report_path out p' \<and> report_path out p \<noteq> report_path out p' @ ''.tmp''"
      using Cons.prems(1) e True by (auto simp: append_cancel_paths)
    from write_report_others [OF this] own b True show ?thesis by (simp add: e step)
  next
    case False
    with Cons.prems e have p: "(p, body) \<in> set es" "distinct (map fst es)" by simp_all
    have same: "fs1 (report_path out p) = fs (report_path out p)" using other False by (simp add: append_cancel_paths)
    show ?thesis
    proof (cases "outcome sv out r e")
      case None
      with same step e False show ?thesis by (simp add: write_after_exception)
    next
      case (Some k)
      with Cons.IH [OF p(2,1), of "ok \<and> k" fs1] same step e False show ?thesis by (auto split: if_splits)
    qed
  qed
qed simp

lemma report_bodies_distinct: "distinct (map fst report_bodies)"
  by (simp add: report_bodies_def)

lemma reread_ordered:
  assumes "(p, body) \<in> set report_bodies" and "\<And>t. sv_dump sv (body r) = Some t \<Longrightarrow> sv_parse sv t = Some (reread (body r))"
  shows "ordered_value sv (body r) = (if sv_dump sv (body r) = None then None else Some (reread (body r)))"
  using assms(2) sortKeys_sorted [OF reread_sorted [OF reports_sorted [OF assms(1), of r]]]
  by (cases "sv_dump sv (body r)") (simp_all add: ordered_value_def)

text \<open>
  C28. The file of every report is at all times the complete report or what it held before: afterwards it
  holds the whole text, which is the report read back from what the library prints, with its numbers
  unsigned and infinite speedups null, and its keys sorted, or it is unchanged. Without an exception it
  is unchanged exactly where the system refused, and the result says whether all eleven were written. There is
  an exception, and the later reports are not written, exactly if the library cannot print a report; the
  code does not catch it. No file but the eleven and their temporary files changes. The library is taken
  to read back what it prints as \<open>reread\<close> says, and the directory of the reports can be created.
\<close>

theorem sidecar_files_complete_or_kept:
  assumes "\<forall>(p, body) \<in> set report_bodies. \<forall>t. sv_dump sv (body r) = Some t \<longrightarrow> sv_parse sv t = Some (reread (body r))"
    and "writePassReportsSidecar sv r out fs = (res, fs')" and "sv_createDirectories sv (out @ ''.topo-passes'')"
    and "text = (\<lambda>j. do { _ \<leftarrow> sv_dump sv j; printed \<leftarrow> sv_dump2 sv (reread j); Some (printed @ [CHR 0x0A]) })"
    and "written = (\<lambda>p j. \<exists>t. text j = Some t \<and> report_written sv (report_path out p) t)"
  shows "(\<forall>(p, body) \<in> set report_bodies.
        fs' (report_path out p) = fs (report_path out p) \<or> written p (body r) \<and> fs' (report_path out p) = text (body r)) \<and>
    (res \<noteq> None \<longrightarrow> res = Some (\<forall>(p, body) \<in> set report_bodies. written p (body r)) \<and>
       (\<forall>(p, body) \<in> set report_bodies.
          fs' (report_path out p) = (if written p (body r) then text (body r) else fs (report_path out p)))) \<and>
    (res = None \<longleftrightarrow> (\<exists>(p, body) \<in> set report_bodies. sv_dump sv (body r) = None \<or>
       sv_open sv (report_path out p @ ''.tmp'') \<and> sv_dump2 sv (reread (body r)) = None)) \<and>
    (\<forall>path. (\<forall>p. path \<noteq> report_path out p \<and> path \<noteq> report_path out p @ ''.tmp'') \<longrightarrow> fs' path = fs path)"
proof -
  have ordered: "ordered_value sv (body r) = (if sv_dump sv (body r) = None then None else Some (reread (body r)))"
    if "(p, body) \<in> set report_bodies" for p body
    using reread_ordered [OF that, of sv r] assms(1) that by blast
  have tx: "report_text sv (body r) = text (body r)" if "(p, body) \<in> set report_bodies" for p body
    using ordered [OF that] by (cases "sv_dump sv (body r)") (simp_all add: report_text_def assms(4))
  have oc: "outcome sv out r (p, body) = (if sv_dump sv (body r) = None then None
      else if \<not> sv_open sv (report_path out p @ ''.tmp'') then Some False
      else map_option (report_written sv (report_path out p)) (text (body r)))"
    if "(p, body) \<in> set report_bodies" for p body
    using ordered [OF that] tx [OF that] by (simp add: outcome_def write_outcome_def)
  have yes: "outcome sv out r (p, body) = Some True \<longleftrightarrow> written p (body r)" if "(p, body) \<in> set report_bodies" for p body
    unfolding oc [OF that] assms(5) by (auto simp: assms(4) report_written_def split: bind_splits)
  have no: "outcome sv out r (p, body) = None \<longleftrightarrow> sv_dump sv (body r) = None \<or>
       sv_open sv (report_path out p @ ''.tmp'') \<and> sv_dump2 sv (reread (body r)) = None"
    if "(p, body) \<in> set report_bodies" for p body
    unfolding oc [OF that] by (auto simp: assms(4) split: bind_splits)
  have run: "fst (fold (write_report sv r out) report_bodies (Some True, fs)) = res"
      "snd (fold (write_report sv r out) report_bodies (Some True, fs)) = fs'"
    using assms(2,3) by (simp_all add: writePassReportsSidecar_def)
  have res: "res = (if \<exists>e\<in>set report_bodies. outcome sv out r e = None then None
      else Some (\<forall>e\<in>set report_bodies. outcome sv out r e = Some True))"
    using write_reports_result [of sv r out report_bodies True fs] unfolding run by simp
  have holds: "fs' (report_path out p) =
       (if (\<forall>e\<in>set (takeWhile (\<lambda>e. e \<noteq> (p, body)) report_bodies). outcome sv out r e \<noteq> None) \<and> outcome sv out r (p, body) = Some True
        then text (body r) else fs (report_path out p))" if "(p, body) \<in> set report_bodies" for p body
    using write_reports_file [OF report_bodies_distinct that, of sv r out True fs] tx [OF that] unfolding run by (auto split: if_splits)
  have "fs' (report_path out p) = fs (report_path out p) \<or> written p (body r) \<and> fs' (report_path out p) = text (body r)"
    if "(p, body) \<in> set report_bodies" for p body
    using holds [OF that] yes [OF that] by (simp split: if_splits)
  moreover have "res = Some (\<forall>(p, body) \<in> set report_bodies. written p (body r))" if "res \<noteq> None"
    using res that yes by (auto split: if_splits)
  moreover have "fs' (report_path out p) = (if written p (body r) then text (body r) else fs (report_path out p))"
    if "res \<noteq> None" "(p, body) \<in> set report_bodies" for p body
  proof -
    have "\<forall>e\<in>set (takeWhile (\<lambda>e. e \<noteq> (p, body)) report_bodies). outcome sv out r e \<noteq> None"
      using res that(1) by (metis set_takeWhileD)
    with holds [OF that(2)] yes [OF that(2)] show ?thesis by simp
  qed
  moreover have "res = None \<longleftrightarrow> (\<exists>(p, body) \<in> set report_bodies. sv_dump sv (body r) = None \<or>
       sv_open sv (report_path out p @ ''.tmp'') \<and> sv_dump2 sv (reread (body r)) = None)"
  proof -
    have "(\<exists>e\<in>set report_bodies. outcome sv out r e = None) \<longleftrightarrow> (\<exists>(p, body) \<in> set report_bodies. sv_dump sv (body r) = None \<or>
       sv_open sv (report_path out p @ ''.tmp'') \<and> sv_dump2 sv (reread (body r)) = None)"
      by (rule bex_cong [OF refl]) (clarify, rule no)
    with res show ?thesis by simp
  qed
  moreover have "fs' path = fs path" if "\<forall>p. path \<noteq> report_path out p \<and> path \<noteq> report_path out p @ ''.tmp''" for path
    using write_report_others [of report_bodies path out sv r "Some True" fs] that unfolding run by blast
  ultimately show ?thesis by blast
qed

definition example_sidecar :: sidecar_env where
  "example_sidecar =
     (let bodies = map (\<lambda>(_, body). body empty_reports) report_bodies
      in \<lparr>sv_dump = (\<lambda>j. Some (replicate (length (takeWhile (\<lambda>b. b \<noteq> j) bodies)) CHR ''x'')),
          sv_parse = (\<lambda>t. Some (reread (bodies ! length t))),
          sv_dump2 = (\<lambda>_. Some ''{}''), sv_createDirectories = (\<lambda>_. True), sv_open = (\<lambda>_. True), sv_accepted = (\<lambda>_ t. length t),
          sv_rename = (\<lambda>path. path \<noteq> report_path ''a.out'' PrefetchPass)\<rparr>)"

lemma sidecar_files_complete_or_kept_witness:
  "\<exists>fs'. writePassReportsSidecar example_sidecar empty_reports ''a.out'' (\<lambda>_. None) = (Some False, fs') \<and>
     fs' (report_path ''a.out'' IndirectionPass) = Some (''{}'' @ [CHR 0x0A]) \<and> fs' (report_path ''a.out'' PrefetchPass) = None"
proof -
  have "list_all (\<lambda>(p, body). Option.bind (sv_dump example_sidecar (body empty_reports)) (sv_parse example_sidecar) =
      Some (reread (body empty_reports))) report_bodies"
    by code_simp
  then have lib: "\<forall>(p, body) \<in> set report_bodies. \<forall>t. sv_dump example_sidecar (body empty_reports) = Some t \<longrightarrow>
      sv_parse example_sidecar t = Some (reread (body empty_reports))"
    by (fastforce simp: list_all_iff)
  obtain res fs' where run: "writePassReportsSidecar example_sidecar empty_reports ''a.out'' (\<lambda>_. None) = (res, fs')"
    by (cases "writePassReportsSidecar example_sidecar empty_reports ''a.out'' (\<lambda>_. None)")
  have env: "sv_createDirectories example_sidecar d" "sv_dump2 example_sidecar j = Some ''{}''" "\<exists>t. sv_dump example_sidecar j = Some t"
    "report_written example_sidecar path t = (path \<noteq> report_path ''a.out'' PrefetchPass)" for d j path t
    by (simp_all add: example_sidecar_def Let_def report_written_def)
  have printed: "(do { _ \<leftarrow> sv_dump example_sidecar j; printed \<leftarrow> sv_dump2 example_sidecar (reread j); Some (printed @ [CHR 0x0A]) })
      = Some (''{}'' @ [CHR 0x0A])" for j
    using env(3) [of j] by (auto simp: env(2))
  note r = sidecar_files_complete_or_kept [where sv = example_sidecar and r = empty_reports and out = "''a.out''" and fs = "\<lambda>_. None",
      OF lib run env(1) refl refl, unfolded printed env(4)]
  have ps: "(PrefetchPass, prefetchToJson) \<in> set report_bodies" "(IndirectionPass, indirectionToJson) \<in> set report_bodies"
    by (simp_all add: report_bodies_def)
  have "\<not> (\<exists>(p, body) \<in> set report_bodies. sv_dump example_sidecar (body empty_reports) = None \<or>
       sv_open example_sidecar (report_path ''a.out'' p @ ''.tmp'') \<and> sv_dump2 example_sidecar (reread (body empty_reports)) = None)"
    using env(2,3) by auto
  with r have "res \<noteq> None" by blast
  with r [THEN conjunct2, THEN conjunct1] have
    "res = Some (\<forall>(p, body) \<in> set report_bodies. report_path ''a.out'' p \<noteq> report_path ''a.out'' PrefetchPass)"
    "\<forall>(p, body) \<in> set report_bodies. fs' (report_path ''a.out'' p) =
       (if report_path ''a.out'' p \<noteq> report_path ''a.out'' PrefetchPass then Some (''{}'' @ [CHR 0x0A]) else None)"
    by simp_all
  then show ?thesis using run ps by (auto simp: append_cancel_paths)
qed

text \<open>A report with a name that is not UTF-8: the library throws, and the exception leaves the function.\<close>

lemma unprintable_report_throws:
  assumes "sv_createDirectories sv (out @ ''.topo-passes'')" and "sv_dump sv (dataLayoutToJson r) = None"
  shows "writePassReportsSidecar sv r out fs = (None, fs)"
proof -
  have "write_report sv r out (DataLayoutPass, dataLayoutToJson) (Some True, fs) = (None, fs)"
    using assms(2) by (simp add: write_report_def atomicWriteJson_def ordered_value_def)
  with assms(1) show ?thesis
    by (simp add: writePassReportsSidecar_def report_bodies_def write_after_exception [of _ _ _ "[e]" for e, simplified]
        write_report_def [of _ _ _ _ "(None, _)"] split_beta)
qed

end
