(* ===== verification/ReturnSpec.thy ===== *)
theory ReturnSpec
  imports PassReports SsaForm
begin

text \<open>
  lib/Transforms/ReturnSpecializationPass.cpp: the fields of a returned struct that no caller is declared to
  use are filled with undefined values. The demand comes from the declarations; the code is changed at the
  stores into a result buffer, or at the insertions into a returned value.
\<close>

section \<open>Demand\<close>

record ReturnFunction =
  rf_isMultiReturn :: bool
  rf_returnParams :: "string list"
  rf_hasUsedReturnsClause :: bool
  rf_usedReturns :: "string list"

record CallSite =
  cs_callee :: string
  cs_usedReturns :: "string list"

record ReturnSymbols =
  ry_functions :: "(string \<times> ReturnFunction) list"
  ry_callSites :: "CallSite list"

type_synonym demand = "string \<Rightarrow> nat set option"

definition param_index :: "ReturnFunction \<Rightarrow> string \<Rightarrow> nat option" where
  "param_index fs name = map_option fst (find (\<lambda>p. snd p = name) (enumerate 0 (rf_returnParams fs)))"

definition used_fields :: "ReturnFunction \<Rightarrow> string list \<Rightarrow> nat set" where
  "used_fields fs names = set (List.map_filter (param_index fs) names)"

definition live_so_far :: "demand \<Rightarrow> string \<Rightarrow> nat set" where
  "live_so_far d q = (case d q of None \<Rightarrow> {} | Some s \<Rightarrow> s)"

definition seed_demand :: "string \<times> ReturnFunction \<Rightarrow> demand \<Rightarrow> demand" where
  "seed_demand p d =
     (case p of (q, fs) \<Rightarrow>
        if \<not> rf_isMultiReturn fs \<or> \<not> rf_hasUsedReturnsClause fs then d
        else d(q \<mapsto> live_so_far d q \<union> used_fields fs (rf_usedReturns fs)))"

definition site_demand :: "ReturnSymbols \<Rightarrow> CallSite \<Rightarrow> demand \<Rightarrow> demand" where
  "site_demand symbols cs d =
     (case map_of (ry_functions symbols) (cs_callee cs) of
        None \<Rightarrow> d
      | Some fs \<Rightarrow>
          if \<not> rf_isMultiReturn fs then d
          else if cs_usedReturns cs = [] \<and> \<not> rf_hasUsedReturnsClause fs
          then d(cs_callee cs \<mapsto> live_so_far d (cs_callee cs) \<union> {0..<length (rf_returnParams fs)})
          else d(cs_callee cs \<mapsto> live_so_far d (cs_callee cs) \<union> used_fields fs (cs_usedReturns cs)))"

definition buildSymbolTableDemand :: "ReturnSymbols \<Rightarrow> demand" where
  "buildSymbolTableDemand symbols =
     fold (site_demand symbols) (ry_callSites symbols) (fold seed_demand (ry_functions symbols) Map.empty)"

section \<open>Dead writes\<close>

text \<open>
  LLVM's queries on types and uses are parameters: \<open>re_fields\<close> the number of fields of the struct behind the
  \<open>sret\<close> parameter, or of the returned struct; \<open>re_type\<close> the type of a value.
\<close>

record return_env =
  re_fields :: "ifun \<Rightarrow> nat option"
  re_type :: "ifun \<Rightarrow> ir_value \<Rightarrow> ll_type"
  re_use_empty :: "imod \<Rightarrow> string \<Rightarrow> bool"

text \<open>The users of a value, once for each operand; the order of LLVM's use lists does not matter here.\<close>

definition users :: "ir_value \<Rightarrow> ins list \<Rightarrow> ins list" where
  "users v code = concat (map (\<lambda>i. replicate (count_list (ii_args i) v) i) code)"

definition sequence_all :: "'a list option list \<Rightarrow> 'a list option" where
  "sequence_all xs = map_option concat (those xs)"

text \<open>The recursions follow definitions backwards or forwards; fuel that runs out is \<open>None\<close>, a cycle of code that is never reached.\<close>

primrec collectStoresFromGEP :: "nat \<Rightarrow> ins list \<Rightarrow> ir_value \<Rightarrow> nat list option" where
  "collectStoresFromGEP 0 code v = None"
| "collectStoresFromGEP (Suc n) code v =
     sequence_all (map (\<lambda>u. case ii_op u of
         OStore \<Rightarrow> Some (if ii_args u ! 1 = v then [ii_id u] else [])
       | OGep \<Rightarrow> collectStoresFromGEP n code (VInst (ii_id u))
       | _ \<Rightarrow> Some []) (users v code))"

definition collectFieldStores :: "nat \<Rightarrow> ins list \<Rightarrow> nat \<Rightarrow> nat list option" where
  "collectFieldStores n code fieldIdx =
     sequence_all (map (\<lambda>u. case (ii_op u, ii_args u) of
         (OGep, _ # VConst a # VConst b # _) \<Rightarrow>
           if a = 0 \<and> b = int fieldIdx then collectStoresFromGEP n code (VInst (ii_id u)) else Some []
       | _ \<Rightarrow> Some []) (users (VArg 0) code))"

definition def_ins :: "ins list \<Rightarrow> ir_value \<Rightarrow> ins option" where
  "def_ins code v = (case v of VInst k \<Rightarrow> find (\<lambda>i. ii_id i = k) code | _ \<Rightarrow> None)"

primrec insert_chain :: "nat \<Rightarrow> ins list \<Rightarrow> nat \<Rightarrow> ir_value \<Rightarrow> nat list option" where
  "insert_chain 0 code fieldIdx v = None"
| "insert_chain (Suc n) code fieldIdx v =
     (case def_ins code v of
        None \<Rightarrow> Some []
      | Some i \<Rightarrow>
          (case ii_op i of
             OInsertValue ixs \<Rightarrow>
               map_option ((@) (if ixs = [fieldIdx] then [ii_id i] else [])) (insert_chain n code fieldIdx (ii_args i ! 0))
           | _ \<Rightarrow> Some []))"

definition collectInsertValueStores :: "nat \<Rightarrow> ins list \<Rightarrow> nat \<Rightarrow> nat list option" where
  "collectInsertValueStores n code fieldIdx =
     sequence_all (map (\<lambda>r. case (ii_op r, ii_args r) of (ORet, [v]) \<Rightarrow> insert_chain n code fieldIdx v | _ \<Rightarrow> Some []) code)"

definition undef_operand :: "return_env \<Rightarrow> ifun \<Rightarrow> nat \<Rightarrow> nat list \<Rightarrow> blocks \<Rightarrow> blocks" where
  "undef_operand env f j ks =
     on_ins (\<lambda>i. [if ii_id i \<in> set ks then i\<lparr>ii_args := (ii_args i)[j := VUndef (re_type env f (ii_args i ! j))]\<rparr> else i])"

definition is_sret :: "ifun \<Rightarrow> bool" where
  "is_sret f \<longleftrightarrow> (case iu_params f of p # _ \<Rightarrow> snd p | [] \<Rightarrow> False)"

text \<open>One dead field: the writes into it, and how many there were.\<close>

definition dead_writes :: "ifun \<Rightarrow> nat \<Rightarrow> nat list option" where
  "dead_writes f i =
     (if is_sret f then collectFieldStores (Suc (length (code_of f))) (code_of f) i
      else collectInsertValueStores (Suc (length (code_of f))) (code_of f) i)"

definition kill_field :: "return_env \<Rightarrow> nat \<Rightarrow> (ifun \<times> int) option \<Rightarrow> (ifun \<times> int) option" where
  "kill_field env i s =
     (case s of
        None \<Rightarrow> None
      | Some (f, n) \<Rightarrow>
          map_option (\<lambda>ks. (f\<lparr>iu_blocks := undef_operand env f (if is_sret f then 0 else 1) ks (iu_blocks f)\<rparr>, n + int (length ks)))
            (dead_writes f i))"

definition dead_fields :: "nat set \<Rightarrow> nat \<Rightarrow> nat list" where
  "dead_fields live n = filter (\<lambda>i. i \<notin> live) [0..<n]"

definition kill_fields :: "return_env \<Rightarrow> nat set \<Rightarrow> nat \<Rightarrow> ifun \<Rightarrow> (ifun \<times> int) option" where
  "kill_fields env live n f = fold (kill_field env) (dead_fields live n) (Some (f, 0))"

section \<open>The pass\<close>

record return_state =
  rt_mod :: imod
  rt_count :: int
  rt_report :: "ReturnSpecializationEntry list"

text \<open>The last name of a function in the order of the mapping.\<close>

definition funcToQualName :: "em_mapping \<Rightarrow> string \<Rightarrow> string option" where
  "funcToQualName mp n = map_of (rev (List.map_filter (\<lambda>(q, f). map_option (\<lambda>f. (f, q)) f) mp)) n"

definition live_fields :: "ReturnSymbols option \<Rightarrow> em_mapping \<Rightarrow> string \<Rightarrow> nat set option" where
  "live_fields symbols mp n =
     (case symbols of None \<Rightarrow> None | Some sy \<Rightarrow> Option.bind (funcToQualName mp n) (buildSymbolTableDemand sy))"

definition specialized_struct :: "return_env \<Rightarrow> imod \<Rightarrow> ifun \<Rightarrow> nat option" where
  "specialized_struct env m f =
     (if iu_declaration f \<or> iu_linkage f \<noteq> InternalLinkage \<or> re_use_empty env m (iu_name f) then None
      else case re_fields env f of None \<Rightarrow> None | Some n \<Rightarrow> if n = 0 then None else Some n)"

definition report_entry :: "em_mapping \<Rightarrow> string \<Rightarrow> nat set \<Rightarrow> nat \<Rightarrow> ReturnSpecializationEntry" where
  "report_entry mp n live k =
     \<lparr>rs_hostFunction = (case funcToQualName mp n of Some q \<Rightarrow> q | None \<Rightarrow> n), rs_eliminated = map int (dead_fields live k),
      rs_kept = map int (filter (\<lambda>i. i \<in> live) [0..<k])\<rparr>"

definition specialize_function :: "return_env \<Rightarrow> ReturnSymbols option \<Rightarrow> em_mapping \<Rightarrow> string \<Rightarrow> return_state option \<Rightarrow> return_state option" where
  "specialize_function env symbols mp n st =
     (case st of
        None \<Rightarrow> None
      | Some s \<Rightarrow>
          (case find_fun (rt_mod s) n of
             None \<Rightarrow> st
           | Some f \<Rightarrow>
               (case (specialized_struct env (rt_mod s) f, live_fields symbols mp n) of
                  (Some k, Some live) \<Rightarrow>
                    if card live = k then st
                    else map_option (\<lambda>(f', c). \<lparr>rt_mod = upd_fun n (\<lambda>_. f') (rt_mod s), rt_count = rt_count s + c,
                           rt_report = rt_report s @ [report_entry mp n live k]\<rparr>) (kill_fields env live k f)
                | _ \<Rightarrow> st)))"

definition return_run :: "return_env \<Rightarrow> ReturnSymbols option \<Rightarrow> em_mapping \<Rightarrow> imod \<Rightarrow> return_state option" where
  "return_run env symbols mp m =
     fold (specialize_function env symbols mp) (map iu_name (im_funs m)) (Some \<lparr>rt_mod = m, rt_count = 0, rt_report = []\<rparr>)"

section \<open>Termination\<close>

text \<open>The data flow between address computations and insertions, which has no cycles in code that is reached.\<close>

definition flow_edges :: "ins list \<Rightarrow> (nat \<times> nat) set" where
  "flow_edges code = {(k, ii_id i) |k i. i \<in> set code \<and> VInst k \<in> set (ii_args i) \<and>
     (ii_op i = OGep \<or> (\<exists>ixs. ii_op i = OInsertValue ixs)) \<and> k \<in> ii_id ` set code}"

definition rank_of :: "(nat \<times> nat) set \<Rightarrow> nat \<Rightarrow> nat" where
  "rank_of r k = card {x. (x, k) \<in> r\<^sup>+}"

lemma flow_ids: "flow_edges code \<subseteq> (ii_id ` set code) \<times> (ii_id ` set code)"
  by (auto simp: flow_edges_def)

lemma rank_less:
  assumes "finite r" and "acyclic r" and "(a, b) \<in> r"
  shows "rank_of r a < rank_of r b"
proof -
  have fin: "finite {x. (x, b) \<in> r\<^sup>+}"
    using finite_subset [of "{x. (x, b) \<in> r\<^sup>+}" "fst ` r\<^sup>+"] assms(1) by (force simp: image_iff)
  have "{x. (x, a) \<in> r\<^sup>+} \<subseteq> {x. (x, b) \<in> r\<^sup>+}" using assms(3) by (auto intro: trancl_into_trancl)
  moreover have "a \<in> {x. (x, b) \<in> r\<^sup>+}" "a \<notin> {x. (x, a) \<in> r\<^sup>+}" using assms(2,3) by (auto simp: acyclic_def)
  ultimately have "{x. (x, a) \<in> r\<^sup>+} \<subset> {x. (x, b) \<in> r\<^sup>+}" by blast
  then show ?thesis unfolding rank_of_def by (rule psubset_card_mono [OF fin])
qed

lemma finite_flow: "finite (flow_edges code)"
  using finite_subset [OF flow_ids] by simp

lemma rank_bound:
  assumes "acyclic (flow_edges code)" and "k \<in> ii_id ` set code"
  shows "rank_of (flow_edges code) k < length code" and "rank_of ((flow_edges code)\<inverse>) k < length code"
proof -
  have len: "card (ii_id ` set code) \<le> length code" using card_image_le [of "set code" ii_id] card_length [of code] by simp
  have rank: "rank_of r k < length code" if "r \<subseteq> (ii_id ` set code) \<times> (ii_id ` set code)" "acyclic r" for r
  proof -
    have "{x. (x, k) \<in> r\<^sup>+} \<subseteq> ii_id ` set code" using trancl_subset_Sigma [OF that(1)] by blast
    moreover have "k \<notin> {x. (x, k) \<in> r\<^sup>+}" using that(2) by (auto simp: acyclic_def)
    ultimately have "{x. (x, k) \<in> r\<^sup>+} \<subset> ii_id ` set code" using assms(2) by blast
    then have "rank_of r k < card (ii_id ` set code)" unfolding rank_of_def by (intro psubset_card_mono) auto
    then show ?thesis using len by simp
  qed
  show "rank_of (flow_edges code) k < length code" by (rule rank [OF flow_ids assms(1)])
  have "(flow_edges code)\<inverse> \<subseteq> (ii_id ` set code) \<times> (ii_id ` set code)" using flow_ids [of code] by auto
  then show "rank_of ((flow_edges code)\<inverse>) k < length code" using assms(1) by (intro rank) (simp_all add: acyclic_converse)
qed

lemma sequence_all_Some: "\<forall>x\<in>set xs. x \<noteq> None \<Longrightarrow> sequence_all xs \<noteq> None"
  unfolding sequence_all_def by (induction xs) auto

lemma those_map_Some: "those xs = Some zs \<longleftrightarrow> xs = map Some zs"
proof (induction xs arbitrary: zs)
  case (Cons x xs)
  then show ?case by (cases x; cases zs) auto
qed auto

lemma sequence_all_map: "sequence_all xs = Some ys \<longleftrightarrow> (\<exists>zs. xs = map Some zs \<and> ys = concat zs)"
  by (auto simp: sequence_all_def those_map_Some)

lemma def_ins_Some: "def_ins code v = Some i \<Longrightarrow> i \<in> set code \<and> v = VInst (ii_id i)"
  by (auto simp: def_ins_def find_Some_iff split: ir_value.splits)

definition insert_pairs :: "ins list \<Rightarrow> bool" where
  "insert_pairs code \<longleftrightarrow> (\<forall>i\<in>set code. (\<exists>ixs. ii_op i = OInsertValue ixs) \<longrightarrow> length (ii_args i) = 2)"

lemma insert_chain_returns:
  assumes "acyclic (flow_edges code)" and "insert_pairs code" and "rank_of (flow_edges code) k + 1 < n"
  shows "insert_chain n code j (VInst k) \<noteq> None"
  using assms(3)
proof (induction n arbitrary: k)
  case (Suc n)
  show ?case
  proof (cases "\<exists>i ixs. def_ins code (VInst k) = Some i \<and> ii_op i = OInsertValue ixs")
    case True
    then obtain i ixs where i: "def_ins code (VInst k) = Some i" "ii_op i = OInsertValue ixs" by blast
    have "insert_chain n code j (ii_args i ! 0) \<noteq> None"
    proof (cases "\<exists>l. ii_args i ! 0 = VInst l \<and> l \<in> ii_id ` set code")
      case True
      then obtain l where l: "ii_args i ! 0 = VInst l" "l \<in> ii_id ` set code" by blast
      have "i \<in> set code" "ii_id i = k" using def_ins_Some [OF i(1)] by auto
      moreover from this(1) have "VInst l \<in> set (ii_args i)" using assms(2) i(2) l(1) nth_mem [of 0 "ii_args i"] by (auto simp: insert_pairs_def)
      ultimately have "(l, k) \<in> flow_edges code" using i(2) l(2) by (auto simp: flow_edges_def)
      then have "rank_of (flow_edges code) l + 1 < n" using rank_less [OF finite_flow assms(1)] Suc.prems by fastforce
      then show ?thesis using Suc.IH l(1) by simp
    next
      case False
      have "def_ins code (ii_args i ! 0) = None"
        using False def_ins_Some [of code "ii_args i ! 0"] by (cases "def_ins code (ii_args i ! 0)") auto
      then show ?thesis using Suc.prems by (cases n) auto
    qed
    then show ?thesis using i by auto
  next
    case False
    then show ?thesis by (auto split: option.splits opcode.splits)
  qed
qed simp

lemma insert_chain_value:
  assumes "acyclic (flow_edges code)" and "insert_pairs code"
  shows "insert_chain (Suc (length code)) code j v \<noteq> None"
proof (cases "\<exists>k\<in>ii_id ` set code. v = VInst k")
  case True
  then show ?thesis using insert_chain_returns [OF assms] rank_bound(1) [OF assms(1)] by fastforce
next
  case False
  then have "def_ins code v = None" using def_ins_Some [of code v] by (cases "def_ins code v") auto
  then show ?thesis by simp
qed

lemma in_users: "u \<in> set (users v code) \<longleftrightarrow> u \<in> set code \<and> v \<in> set (ii_args u)"
  by (auto simp: users_def count_list_0_iff)

lemma collect_stores_returns:
  assumes "acyclic (flow_edges code)" and "rank_of ((flow_edges code)\<inverse>) k + 1 < n" and "k \<in> ii_id ` set code"
  shows "collectStoresFromGEP n code (VInst k) \<noteq> None"
  using assms(2,3)
proof (induction n arbitrary: k)
  case (Suc n)
  have "collectStoresFromGEP n code (VInst (ii_id u)) \<noteq> None" if u: "u \<in> set (users (VInst k) code)" "ii_op u = OGep" for u
  proof -
    have "(k, ii_id u) \<in> flow_edges code" using u Suc.prems(2) by (auto simp: in_users flow_edges_def)
    then have "(ii_id u, k) \<in> (flow_edges code)\<inverse>" by simp
    from rank_less [OF _ _ this] have "rank_of ((flow_edges code)\<inverse>) (ii_id u) < rank_of ((flow_edges code)\<inverse>) k"
      using assms(1) finite_flow by (simp add: acyclic_converse)
    moreover have "ii_id u \<in> ii_id ` set code" using u(1) by (simp add: in_users)
    ultimately show ?thesis using Suc by simp
  qed
  then show ?case unfolding collectStoresFromGEP.simps by (intro sequence_all_Some) (auto split: opcode.splits)
qed simp

definition code_ok :: "ins list \<Rightarrow> bool" where
  "code_ok code \<longleftrightarrow> acyclic (flow_edges code) \<and> insert_pairs code"

lemma dead_writes_return: "code_ok (code_of f) \<Longrightarrow> dead_writes f i \<noteq> None"
proof -
  assume ok: "code_ok (code_of f)"
  let ?n = "Suc (length (code_of f))"
  have "collectStoresFromGEP ?n (code_of f) (VInst (ii_id u)) \<noteq> None" if "u \<in> set (users (VArg 0) (code_of f))" for u
    using collect_stores_returns [of "code_of f" "ii_id u" ?n] rank_bound(2) [of "code_of f" "ii_id u"] ok that
    by (simp add: in_users code_ok_def)
  then have "collectFieldStores ?n (code_of f) i \<noteq> None"
    unfolding collectFieldStores_def by (intro sequence_all_Some) (auto split: opcode.splits list.splits ir_value.splits)
  moreover have "collectInsertValueStores ?n (code_of f) i \<noteq> None"
    unfolding collectInsertValueStores_def using ok insert_chain_value
    by (intro sequence_all_Some) (auto simp: code_ok_def split: opcode.splits list.splits)
  ultimately show ?thesis by (simp add: dead_writes_def)
qed

lemma undef_code:
  "code_of (f\<lparr>iu_blocks := undef_operand env g j ks (iu_blocks f)\<rparr>) =
     map (\<lambda>i. if ii_id i \<in> set ks then i\<lparr>ii_args := (ii_args i)[j := VUndef (re_type env g (ii_args i ! j))]\<rparr> else i) (code_of f)"
  by (simp add: code_of_def undef_operand_def code_on_ins)

lemma code_ok_map:
  assumes "code_ok code" and "\<And>i. ii_id (e i) = ii_id i" and "\<And>i. ii_op (e i) = ii_op i" and "\<And>i. length (ii_args (e i)) = length (ii_args i)"
    and "\<And>i k. VInst k \<in> set (ii_args (e i)) \<Longrightarrow> VInst k \<in> set (ii_args i)"
  shows "code_ok (map e code)"
proof -
  have "flow_edges (map e code) \<subseteq> flow_edges code"
  proof
    fix p
    assume "p \<in> flow_edges (map e code)"
    then obtain k i where "p = (k, ii_id (e i))" "i \<in> set code" "VInst k \<in> set (ii_args (e i))"
        "ii_op (e i) = OGep \<or> (\<exists>ixs. ii_op (e i) = OInsertValue ixs)" "k \<in> ii_id ` set (map e code)"
      by (auto simp: flow_edges_def)
    moreover have "ii_id ` set (map e code) = ii_id ` set code" by (simp add: assms(2) image_image)
    ultimately show "p \<in> flow_edges code" using assms(2,3,5) unfolding flow_edges_def by auto
  qed
  then have "acyclic (flow_edges (map e code))" using assms(1) acyclic_subset unfolding code_ok_def by blast
  moreover have "insert_pairs (map e code)" using assms(1,3,4) by (simp add: code_ok_def insert_pairs_def)
  ultimately show ?thesis by (simp add: code_ok_def)
qed

lemma undef_code_ok:
  assumes "code_ok (code_of f)"
  shows "code_ok (code_of (f\<lparr>iu_blocks := undef_operand env g j ks (iu_blocks f)\<rparr>))"
proof -
  let ?e = "\<lambda>i. if ii_id i \<in> set ks then i\<lparr>ii_args := (ii_args i)[j := VUndef (re_type env g (ii_args i ! j))]\<rparr> else i"
  have e: "ii_id (?e i) = ii_id i" "ii_op (?e i) = ii_op i" "length (ii_args (?e i)) = length (ii_args i)"
    "VInst k \<in> set (ii_args (?e i)) \<Longrightarrow> VInst k \<in> set (ii_args i)" for i k
    using set_update_subset_insert [of "ii_args i" j] by (auto split: if_splits)
  show ?thesis unfolding undef_code using assms e by (rule code_ok_map)
qed

lemma kill_fields_return: "code_ok (code_of f) \<Longrightarrow> kill_fields env live n f \<noteq> None"
proof -
  have "\<exists>f' c'. fold (kill_field env) ds (Some (f, c)) = Some (f', c')" if "code_ok (code_of f)" for ds c
    using that
  proof (induction ds arbitrary: f c)
    case (Cons d ds)
    obtain ks where "dead_writes f d = Some ks" using dead_writes_return [OF Cons.prems] by blast
    then show ?case using Cons.IH [OF undef_code_ok [OF Cons.prems]] by (simp add: kill_field_def)
  qed simp
  then show "code_ok (code_of f) \<Longrightarrow> kill_fields env live n f \<noteq> None" by (auto simp: kill_fields_def)
qed

section \<open>Chains of insertions\<close>

text \<open>The insertions that a value is built by, and those behind the values a function returns.\<close>

inductive chain_from :: "ins list \<Rightarrow> ir_value \<Rightarrow> nat \<Rightarrow> bool" for code where
  chain_here: "def_ins code v = Some i \<Longrightarrow> ii_op i = OInsertValue ixs \<Longrightarrow> chain_from code v (ii_id i)"
| chain_on: "def_ins code v = Some i \<Longrightarrow> ii_op i = OInsertValue ixs \<Longrightarrow> chain_from code (ii_args i ! 0) k \<Longrightarrow> chain_from code v k"

inductive_cases chain_cases: "chain_from code v k"

definition on_chain :: "ins list \<Rightarrow> nat \<Rightarrow> bool" where
  "on_chain code k \<longleftrightarrow> (\<exists>r\<in>set code. \<exists>v. ii_op r = ORet \<and> ii_args r = [v] \<and> chain_from code v k)"

definition inserts_at :: "ins list \<Rightarrow> nat \<Rightarrow> nat \<Rightarrow> bool" where
  "inserts_at code j k \<longleftrightarrow> (\<exists>i. def_ins code (VInst k) = Some i \<and> ii_op i = OInsertValue [j])"

lemma def_ins_id: "def_ins code v = Some i \<Longrightarrow> def_ins code (VInst (ii_id i)) = Some i"
  using def_ins_Some by fastforce

lemma insert_chain_set:
  "insert_chain n code j v = Some ks \<Longrightarrow> k \<in> set ks \<longleftrightarrow> chain_from code v k \<and> inserts_at code j k"
proof (induction n arbitrary: v ks)
  case (Suc n)
  show ?case
  proof (cases "\<exists>i ixs. def_ins code v = Some i \<and> ii_op i = OInsertValue ixs")
    case True
    then obtain i ixs where i: "def_ins code v = Some i" "ii_op i = OInsertValue ixs" by blast
    then obtain ls where ls: "insert_chain n code j (ii_args i ! 0) = Some ls" "ks = (if ixs = [j] then [ii_id i] else []) @ ls"
      using Suc.prems by auto
    have "chain_from code v k \<longleftrightarrow> k = ii_id i \<or> chain_from code (ii_args i ! 0) k"
      using i by (auto elim: chain_cases intro: chain_here chain_on)
    moreover have "inserts_at code j (ii_id i) \<longleftrightarrow> ixs = [j]" using i def_ins_id [OF i(1)] by (simp add: inserts_at_def)
    ultimately show ?thesis using Suc.IH [OF ls(1)] ls(2) by auto
  next
    case False
    then have "ks = []" using Suc.prems by (auto split: option.splits opcode.splits)
    moreover have "\<not> chain_from code v k" using False by (auto elim: chain_cases)
    ultimately show ?thesis by simp
  qed
qed simp

lemma collectInsertValueStores_set:
  assumes "collectInsertValueStores n code j = Some ks"
  shows "k \<in> set ks \<longleftrightarrow> on_chain code k \<and> inserts_at code j k"
proof -
  let ?g = "\<lambda>r. case (ii_op r, ii_args r) of (ORet, [v]) \<Rightarrow> insert_chain n code j v | _ \<Rightarrow> Some []"
  obtain zs where zs: "map ?g code = map Some zs" "ks = concat zs"
    using assms unfolding collectInsertValueStores_def sequence_all_map by blast
  have all: "\<forall>r\<in>set code. \<exists>z\<in>set zs. ?g r = Some z" "\<forall>z\<in>set zs. \<exists>r\<in>set code. ?g r = Some z"
    using arg_cong [OF zs(1), of set] by (auto simp: image_iff) (metis (no_types, lifting) image_eqI imageE)+
  have g: "?g r = Some z \<Longrightarrow> k \<in> set z \<longleftrightarrow> (\<exists>v. ii_op r = ORet \<and> ii_args r = [v] \<and> chain_from code v k) \<and> inserts_at code j k" for r z
    by (auto simp: insert_chain_set split: opcode.splits list.splits)
  show ?thesis
  proof
    assume "k \<in> set ks"
    then obtain z r where "k \<in> set z" "r \<in> set code" "?g r = Some z" using zs(2) all(2) by auto
    then show "on_chain code k \<and> inserts_at code j k" using g [of r z] unfolding on_chain_def by blast
  next
    assume k: "on_chain code k \<and> inserts_at code j k"
    then obtain r v where r: "r \<in> set code" "ii_op r = ORet" "ii_args r = [v]" "chain_from code v k" unfolding on_chain_def by blast
    then obtain z where z: "z \<in> set zs" "?g r = Some z" using all(1) by blast
    then have "k \<in> set z" using g [OF z(2)] r k by blast
    then show "k \<in> set ks" using z(1) zs(2) by auto
  qed
qed

section \<open>What the pass edits\<close>

text \<open>A chain insertion of one of the fields \<open>ds\<close> has its operand replaced; everything else is as it was.\<close>

definition killed :: "ins list \<Rightarrow> nat set \<Rightarrow> ins \<Rightarrow> bool" where
  "killed code ds i \<longleftrightarrow> on_chain code (ii_id i) \<and> (\<exists>j\<in>ds. ii_op i = OInsertValue [j])"

definition kill_edit :: "ins list \<Rightarrow> nat set \<Rightarrow> (nat \<Rightarrow> ll_type) \<Rightarrow> ins \<Rightarrow> ins" where
  "kill_edit code ds T i = (if killed code ds i then i\<lparr>ii_args := (ii_args i)[1 := VUndef (T (ii_id i))]\<rparr> else i)"

lemma kill_edit_keeps [simp]:
  "ii_id (kill_edit code ds T i) = ii_id i" "ii_op (kill_edit code ds T i) = ii_op i" "ii_args (kill_edit code ds T i) ! 0 = ii_args i ! 0"
  "ii_op i = ORet \<Longrightarrow> kill_edit code ds T i = i"
  by (auto simp: kill_edit_def killed_def)

lemma def_ins_map: "(\<And>i. ii_id (e i) = ii_id i) \<Longrightarrow> def_ins (map e code) v = map_option e (def_ins code v)"
proof -
  assume e: "\<And>i. ii_id (e i) = ii_id i"
  have "find (\<lambda>i. ii_id i = k) (map e code) = map_option e (find (\<lambda>i. ii_id i = k) code)" for k by (induction code) (auto simp: e)
  then show ?thesis by (simp add: def_ins_def split: ir_value.split)
qed

lemma chain_edit: "chain_from (map (kill_edit code ds T) code) v k = chain_from code v k"
proof
  have lookup: "def_ins (map (kill_edit code ds T) code) w = map_option (kill_edit code ds T) (def_ins code w)" for w
    by (rule def_ins_map) simp
  show "chain_from code v k" if "chain_from (map (kill_edit code ds T) code) v k"
    using that
  proof (induction rule: chain_from.induct)
    case (chain_here v i ixs)
    then show ?case using chain_from.chain_here [of code v] by (auto simp: lookup)
  next
    case (chain_on v i ixs k)
    then show ?case using chain_from.chain_on [of code v] by (auto simp: lookup)
  qed
  show "chain_from (map (kill_edit code ds T) code) v k" if "chain_from code v k"
    using that
  proof (induction rule: chain_from.induct)
    case (chain_here v i ixs)
    then show ?case using chain_from.chain_here [of "map (kill_edit code ds T) code" v "kill_edit code ds T i"] by (simp add: lookup)
  next
    case (chain_on v i ixs k)
    then show ?case using chain_from.chain_on [of "map (kill_edit code ds T) code" v "kill_edit code ds T i" ixs k] by (simp add: lookup)
  qed
qed

lemma on_chain_edit: "on_chain (map (kill_edit code ds T) code) k = on_chain code k"
proof -
  have "(\<exists>r\<in>kill_edit code ds T ` set code. P r) = (\<exists>r\<in>set code. P r)" if "\<And>r. P r \<Longrightarrow> ii_op r = ORet" for P
  proof -
    have "P (kill_edit code ds T r) = P r" for r using that [of r] that [of "kill_edit code ds T r"] by (cases "ii_op r = ORet") auto
    then show ?thesis by auto
  qed
  from this [of "\<lambda>r. \<exists>v. ii_op r = ORet \<and> ii_args r = [v] \<and> chain_from code v k"]
  show ?thesis unfolding on_chain_def chain_edit by auto
qed

lemma inserts_at_code:
  assumes "distinct (map ii_id code)" and "i \<in> set code"
  shows "inserts_at code j (ii_id i) \<longleftrightarrow> ii_op i = OInsertValue [j]"
proof -
  have "find (\<lambda>x. ii_id x = ii_id i) code = Some i" using assms by (induction code) (auto simp: image_iff)
  then show ?thesis by (simp add: inserts_at_def def_ins_def)
qed

lemma kill_again:
  assumes "distinct (map ii_id code)" and "collectInsertValueStores n (map (kill_edit code ds T) code) d = Some ks" and "i \<in> set code"
  shows "(let i' = kill_edit code ds T i in if ii_id i' \<in> set ks then i'\<lparr>ii_args := (ii_args i')[1 := VUndef (S i')]\<rparr> else i') =
    kill_edit code (insert d ds) (\<lambda>k. if k \<in> set ks then S (kill_edit code ds T (hd (filter (\<lambda>i. ii_id i = k) code))) else T k) i"
proof -
  have d: "distinct (map ii_id (map (kill_edit code ds T) code))" using assms(1) by (simp add: comp_def)
  have "kill_edit code ds T i \<in> set (map (kill_edit code ds T) code)" using assms(3) by simp
  from inserts_at_code [OF d this] have k: "ii_id i \<in> set ks \<longleftrightarrow> on_chain code (ii_id i) \<and> ii_op i = OInsertValue [d]"
    by (simp add: collectInsertValueStores_set [OF assms(2)] on_chain_edit)
  have h: "hd (filter (\<lambda>x. ii_id x = ii_id i) code) = i" using assms(1,3) by (induction code) (auto simp: image_iff)
  show ?thesis using k h by (auto simp: kill_edit_def killed_def Let_def)
qed

lemma on_ins_cong: "(\<And>i. i \<in> set (concat (map snd bs)) \<Longrightarrow> g i = h i) \<Longrightarrow> on_ins g bs = on_ins h bs"
  by (fastforce simp: on_ins_def intro!: arg_cong [of _ _ concat] map_cong)

lemma kill_field_None: "kill_field env i None = None"
  by (simp add: kill_field_def)

lemma kill_fields_edit:
  assumes "\<not> is_sret f" and "distinct (map ii_id (code_of f))" and "fold (kill_field env) ds (Some (f, 0)) = Some (f', c)"
  shows "\<exists>T. f' = f\<lparr>iu_blocks := on_ins (\<lambda>i. [kill_edit (code_of f) (set ds) T i]) (iu_blocks f)\<rparr>"
  using assms(3)
proof (induction ds arbitrary: f' c rule: rev_induct)
  case Nil
  have "on_ins (\<lambda>i. [kill_edit (code_of f) {} T i]) (iu_blocks f) = iu_blocks f" for T
    by (simp add: on_ins_def kill_edit_def killed_def split_def)
  then show ?case using Nil by simp
next
  case (snoc d ds)
  obtain g b where g: "fold (kill_field env) ds (Some (f, 0)) = Some (g, b)"
    using snoc.prems kill_field_None [of env d] by (cases "fold (kill_field env) ds (Some (f, 0))") auto
  obtain T where T: "g = f\<lparr>iu_blocks := on_ins (\<lambda>i. [kill_edit (code_of f) (set ds) T i]) (iu_blocks f)\<rparr>" using snoc.IH [OF g] by blast
  have code: "code_of g = map (kill_edit (code_of f) (set ds) T) (code_of f)" by (simp add: T code_of_def code_on_ins)
  have s: "\<not> is_sret g" using assms(1) by (simp add: T is_sret_def)
  obtain ks where ks: "dead_writes g d = Some ks" "f' = g\<lparr>iu_blocks := undef_operand env g 1 ks (iu_blocks g)\<rparr>"
  proof -
    have "kill_field env d (Some (g, b)) = Some (f', c)" using snoc.prems g by simp
    then show ?thesis using s that by (auto simp: kill_field_def)
  qed
  then have chain: "collectInsertValueStores (Suc (length (code_of g))) (map (kill_edit (code_of f) (set ds) T) (code_of f)) d = Some ks"
    using s by (simp add: dead_writes_def code)
  define T' where "T' = (\<lambda>k. if k \<in> set ks then re_type env g (ii_args (kill_edit (code_of f) (set ds) T (hd (filter (\<lambda>i. ii_id i = k) (code_of f)))) ! 1) else T k)"
  have "undef_operand env g 1 ks (on_ins (\<lambda>i. [kill_edit (code_of f) (set ds) T i]) (iu_blocks f)) =
      on_ins (\<lambda>i. [kill_edit (code_of f) (set (ds @ [d])) T' i]) (iu_blocks f)"
    unfolding undef_operand_def on_ins_on_ins
  proof (rule on_ins_cong)
    fix i
    assume "i \<in> set (concat (map snd (iu_blocks f)))"
    then have "i \<in> set (code_of f)" by (simp add: code_of_def)
    from kill_again [OF assms(2) chain this, of "\<lambda>i. re_type env g (ii_args i ! 1)"]
    show "concat (map (\<lambda>i. [if ii_id i \<in> set ks then i\<lparr>ii_args := (ii_args i)[1 := VUndef (re_type env g (ii_args i ! 1))]\<rparr> else i])
        [kill_edit (code_of f) (set ds) T i]) = [kill_edit (code_of f) (set (ds @ [d])) T' i]"
      by (simp add: T'_def Let_def del: One_nat_def)
  qed
  then show ?case using ks(2) T by (intro exI [of _ T']) simp
qed

section \<open>Execution\<close>

text \<open>Values with fields; insertion along a path of indices.\<close>

datatype 'v aggr = Scalar 'v | Aggregate "nat \<Rightarrow> 'v aggr"

fun field :: "'v aggr \<Rightarrow> nat \<Rightarrow> 'v aggr" where
  "field (Scalar v) j = Scalar v"
| "field (Aggregate g) j = g j"

fun insert_at :: "'v aggr \<Rightarrow> nat list \<Rightarrow> 'v aggr \<Rightarrow> 'v aggr" where
  "insert_at a [] x = x"
| "insert_at a (i # ixs) x = Aggregate (\<lambda>j. if j = i then insert_at (field a i) ixs x else field a j)"

text \<open>
  Everything but insertions and returns is given by a function of the operation, the values of its operands and
  the state of the world, which includes memory and the way the control flow took.
\<close>

type_synonym ('v, 'm) machine = "opcode \<Rightarrow> 'v aggr list \<Rightarrow> 'm \<Rightarrow> 'v aggr \<times> 'm"

definition operands :: "ins \<Rightarrow> ir_value list" where
  "operands i = (case ii_op i of OCall (Indirect v) \<Rightarrow> v # ii_args i | OInvoke (Indirect v) _ _ \<Rightarrow> v # ii_args i | _ \<Rightarrow> ii_args i)"

definition value_of :: "(ir_value \<Rightarrow> 'v aggr) \<Rightarrow> (nat \<Rightarrow> 'v aggr) \<Rightarrow> ir_value \<Rightarrow> 'v aggr" where
  "value_of base R v = (case v of VInst k \<Rightarrow> R k | _ \<Rightarrow> base v)"

definition exec_ins :: "('v, 'm) machine \<Rightarrow> (ir_value \<Rightarrow> 'v aggr) \<Rightarrow> ins \<Rightarrow> (nat \<Rightarrow> 'v aggr) \<times> 'm \<Rightarrow> (nat \<Rightarrow> 'v aggr) \<times> 'm" where
  "exec_ins G base i s =
     (case s of (R, w) \<Rightarrow>
        case ii_op i of
          OInsertValue ixs \<Rightarrow> (R(ii_id i := insert_at (value_of base R (ii_args i ! 0)) ixs (value_of base R (ii_args i ! 1))), w)
        | ORet \<Rightarrow> (R, w)
        | op \<Rightarrow> (case G op (map (value_of base R) (operands i)) w of (v, w') \<Rightarrow> (R(ii_id i := v), w')))"

definition exec :: "('v, 'm) machine \<Rightarrow> (ir_value \<Rightarrow> 'v aggr) \<Rightarrow> ins list \<Rightarrow> (nat \<Rightarrow> 'v aggr) \<times> 'm \<Rightarrow> (nat \<Rightarrow> 'v aggr) \<times> 'm" where
  "exec G base = fold (exec_ins G base)"

text \<open>The values on the chains are for the returns alone: no other instruction uses one.\<close>

definition chains_private :: "ins list \<Rightarrow> bool" where
  "chains_private code \<longleftrightarrow> (\<forall>i\<in>set code. \<forall>k. on_chain code k \<and> VInst k \<in> set (operands i) \<longrightarrow>
     ii_op i = ORet \<or> on_chain code (ii_id i) \<and> (\<exists>ixs. ii_op i = OInsertValue ixs) \<and> ii_args i ! 1 \<noteq> VInst k)"

definition agree :: "ins list \<Rightarrow> nat set \<Rightarrow> (nat \<Rightarrow> 'v aggr) \<Rightarrow> (nat \<Rightarrow> 'v aggr) \<Rightarrow> bool" where
  "agree code ds R R' \<longleftrightarrow> (\<forall>k. (\<not> on_chain code k \<longrightarrow> R k = R' k) \<and> (\<forall>j. j \<notin> ds \<longrightarrow> field (R k) j = field (R' k) j))"

lemma field_insert_at: "ixs \<noteq> [] \<Longrightarrow> field (insert_at a ixs x) j = (if j = hd ixs then insert_at (field a j) (tl ixs) x else field a j)"
  by (cases ixs) auto

lemma agree_value: "agree code ds R R' \<Longrightarrow> (\<forall>k. v = VInst k \<longrightarrow> \<not> on_chain code k) \<Longrightarrow> value_of base R v = value_of base R' v"
  by (auto simp: agree_def value_of_def split: ir_value.splits)

lemma agree_field: "agree code ds R R' \<Longrightarrow> j \<notin> ds \<Longrightarrow> field (value_of base R v) j = field (value_of base R' v) j"
  by (auto simp: agree_def value_of_def split: ir_value.splits)

lemma agree_upd: "agree code ds R R' \<Longrightarrow> agree code ds (R(k := v)) (R'(k := v))"
  by (simp add: agree_def)

lemma exec_other:
  assumes "\<not> (\<exists>ixs. ii_op i = OInsertValue ixs)" and "ii_op i \<noteq> ORet"
  shows "exec_ins G base i (R, w) =
    (R(ii_id i := fst (G (ii_op i) (map (value_of base R) (operands i)) w)), snd (G (ii_op i) (map (value_of base R) (operands i)) w))"
  using assms by (cases "ii_op i") (simp_all add: exec_ins_def split_def)

lemma exec_edit:
  assumes "chains_private code" and "insert_pairs code" and "i \<in> set code" and "agree code ds R R'"
    and "\<forall>k\<in>set code. \<forall>ixs. ii_op k = OInsertValue ixs \<longrightarrow> ixs \<noteq> []"
  shows "agree code ds (fst (exec_ins G base i (R, w))) (fst (exec_ins G base (kill_edit code ds T i) (R', w))) \<and>
    snd (exec_ins G base i (R, w)) = snd (exec_ins G base (kill_edit code ds T i) (R', w))"
proof -
  have priv: "ii_op i = ORet \<or> on_chain code (ii_id i) \<and> (\<exists>ixs. ii_op i = OInsertValue ixs) \<and> ii_args i ! 1 \<noteq> VInst k"
    if "on_chain code k" "VInst k \<in> set (operands i)" for k
    using assms(1,3) that unfolding chains_private_def by blast
  show ?thesis
  proof (cases "\<exists>ixs. ii_op i = OInsertValue ixs")
    case True
    then obtain ixs where ixs: "ii_op i = OInsertValue ixs" by blast
    obtain a b where ab: "ii_args i = [a, b]" using assms(2,3) ixs unfolding insert_pairs_def by (metis (no_types) length_0_conv length_Suc_conv numeral_2_eq_2)
    have o: "operands i = [a, b]" by (simp add: operands_def ixs ab)
    have b: "value_of base R b = value_of base R' b"
      using priv o ab ixs by (intro agree_value [OF assms(4)]) fastforce
    have ne: "ixs \<noteq> []" using assms(3,5) ixs by blast
    let ?i' = "kill_edit code ds T i"
    let ?b' = "if killed code ds i then base (VUndef (T (ii_id i))) else value_of base R' b"
    have run: "exec_ins G base i (R, w) = (R(ii_id i := insert_at (value_of base R a) ixs (value_of base R b)), w)"
      "exec_ins G base ?i' (R', w) = (R'(ii_id i := insert_at (value_of base R' a) ixs ?b'), w)"
      by (simp_all add: exec_ins_def ixs ab kill_edit_def value_of_def)
    have "field (insert_at (value_of base R a) ixs (value_of base R b)) j = field (insert_at (value_of base R' a) ixs ?b') j" if "j \<notin> ds" for j
      using agree_field [OF assms(4) that, of base a] b that ixs by (auto simp: field_insert_at [OF ne] killed_def)
    moreover have "insert_at (value_of base R a) ixs (value_of base R b) = insert_at (value_of base R' a) ixs ?b'" if off: "\<not> on_chain code (ii_id i)"
    proof -
      have "value_of base R a = value_of base R' a"
        using priv o off ixs by (intro agree_value [OF assms(4)]) fastforce
      then show ?thesis using b off by (simp add: killed_def)
    qed
    ultimately have "agree code ds (R(ii_id i := insert_at (value_of base R a) ixs (value_of base R b)))
        (R'(ii_id i := insert_at (value_of base R' a) ixs ?b'))"
      using assms(4) unfolding agree_def by auto
    then show ?thesis unfolding run by simp
  next
    case False
    then have same: "kill_edit code ds T i = i" by (auto simp: kill_edit_def killed_def)
    show ?thesis
    proof (cases "ii_op i = ORet")
      case True
      then show ?thesis using assms(4) by (simp add: same exec_ins_def)
    next
      case ret: False
      have "map (value_of base R) (operands i) = map (value_of base R') (operands i)"
        using priv False ret by (intro map_cong refl agree_value [OF assms(4)]) blast
      note args = this
      show ?thesis unfolding same exec_other [OF False ret] args using agree_upd [OF assms(4)] by simp
    qed
  qed
qed

lemma exec_edits:
  assumes "chains_private code" and "insert_pairs code" and "\<forall>k\<in>set code. \<forall>ixs. ii_op k = OInsertValue ixs \<longrightarrow> ixs \<noteq> []"
    and "set tr \<subseteq> set code" and "agree code ds R R'"
  shows "agree code ds (fst (exec G base tr (R, w))) (fst (exec G base (map (kill_edit code ds T) tr) (R', w))) \<and>
    snd (exec G base tr (R, w)) = snd (exec G base (map (kill_edit code ds T) tr) (R', w))"
  using assms(4,5)
proof (induction tr arbitrary: R R' w)
  case Nil
  then show ?case by (simp add: exec_def)
next
  case (Cons i tr)
  obtain R1 w1 where 1: "exec_ins G base i (R, w) = (R1, w1)" by (meson surj_pair)
  obtain R2 w2 where 2: "exec_ins G base (kill_edit code ds T i) (R', w) = (R2, w2)" by (meson surj_pair)
  have "agree code ds R1 R2" "w1 = w2"
    using exec_edit [OF assms(1,2) _ Cons.prems(2) assms(3), of i G base w T] Cons.prems(1) 1 2 by simp_all
  then show ?case using Cons.IH [of R1 R2 w1] Cons.prems(1) 1 2 by (simp add: exec_def)
qed

text \<open>Paths go through the edited blocks as they went through the blocks.\<close>

lemma map_of_on_ins: "map_of (on_ins (\<lambda>i. [e i]) bs) b = map_option (map e) (map_of bs b)"
  by (induction bs) (auto simp: on_ins_def)

lemma path_edit:
  assumes "path bs b tr" and "\<And>i. ii_op (e i) = ii_op i"
  shows "path (on_ins (\<lambda>i. [e i]) bs) b (map e tr)"
  using assms(1)
proof (induction rule: path.induct)
  case (path_ret b "is")
  then show ?case by (intro path.path_ret) (simp_all add: map_of_on_ins last_map assms(2))
next
  case (path_go b "is" t tr)
  then have "path (on_ins (\<lambda>i. [e i]) bs) b (map e is @ map e tr)"
    by (intro path.path_go [where t = t]) (simp_all add: map_of_on_ins last_map assms(2))
  then show ?case by simp
qed

lemma path_code: "path bs b tr \<Longrightarrow> set tr \<subseteq> set (concat (map snd bs))"
  by (induction rule: path.induct) (auto dest!: map_of_SomeD)

section \<open>The whole pass\<close>

lemma site_demand_mono: "d q = Some S \<Longrightarrow> \<exists>S'. site_demand sy cs d q = Some S' \<and> S \<subseteq> S'"
  by (auto simp: site_demand_def live_so_far_def split: option.splits)

lemma site_demands_mono: "d q = Some S \<Longrightarrow> \<exists>S'. fold (site_demand sy) css d q = Some S' \<and> S \<subseteq> S'"
proof (induction css arbitrary: d S)
  case (Cons cs css)
  obtain S1 where "site_demand sy cs d q = Some S1" "S \<subseteq> S1" using site_demand_mono [of d q S sy cs] Cons.prems by blast
  then show ?case using Cons.IH by fastforce
qed auto

text \<open>What a recorded call uses is live.\<close>

lemma used_is_live:
  assumes "cs \<in> set (ry_callSites sy)" and "map_of (ry_functions sy) (cs_callee cs) = Some fs" and "rf_isMultiReturn fs"
    and "name \<in> set (cs_usedReturns cs)" and "param_index fs name = Some j"
  shows "\<exists>L. buildSymbolTableDemand sy (cs_callee cs) = Some L \<and> j \<in> L"
proof -
  obtain pre post where split: "ry_callSites sy = pre @ cs # post" using assms(1) by (meson split_list)
  have "cs_usedReturns cs \<noteq> []" using assms(4) by auto
  moreover have "j \<in> used_fields fs (cs_usedReturns cs)" using assms(4,5) by (auto simp: used_fields_def List.map_filter_def image_iff)
  ultimately have "\<exists>S. site_demand sy cs d (cs_callee cs) = Some S \<and> j \<in> S" for d
    using assms(2,3) by (simp add: site_demand_def)
  then obtain S where S: "site_demand sy cs (fold (site_demand sy) pre (fold seed_demand (ry_functions sy) Map.empty)) (cs_callee cs) = Some S" "j \<in> S"
    by blast
  then obtain S' where "fold (site_demand sy) post (site_demand sy cs (fold (site_demand sy) pre (fold seed_demand (ry_functions sy) Map.empty)))
      (cs_callee cs) = Some S'" "S \<subseteq> S'"
    using site_demands_mono by blast
  then show ?thesis using S(2) by (auto simp: buildSymbolTableDemand_def split)
qed

definition all_code_ok :: "imod \<Rightarrow> bool" where
  "all_code_ok m \<longleftrightarrow> (\<forall>f\<in>set (im_funs m). code_ok (code_of f))"

lemma kill_fields_frame:
  assumes "code_ok (code_of f)" and "kill_fields env live k f = Some (f', c)"
  shows "iu_name f' = iu_name f" and "code_ok (code_of f')"
proof -
  have "fold (kill_field env) ds (Some (g, b)) = Some (f', c) \<Longrightarrow> code_ok (code_of g) \<Longrightarrow> iu_name f' = iu_name g \<and> code_ok (code_of f')" for ds g b
  proof (induction ds arbitrary: g b)
    case (Cons d ds)
    obtain ks where ks: "dead_writes g d = Some ks" using dead_writes_return [OF Cons.prems(2)] by blast
    let ?h = "g\<lparr>iu_blocks := undef_operand env g (if is_sret g then 0 else 1) ks (iu_blocks g)\<rparr>"
    have "fold (kill_field env) ds (Some (?h, b + int (length ks))) = Some (f', c)"
      using Cons.prems(1) ks by (simp add: kill_field_def [of env d])
    from Cons.IH [OF this undef_code_ok [OF Cons.prems(2)]] show ?case by simp
  qed simp
  then show "iu_name f' = iu_name f" "code_ok (code_of f')" using assms by (auto simp: kill_fields_def)
qed

definition specialized :: "return_env \<Rightarrow> ReturnSymbols option \<Rightarrow> em_mapping \<Rightarrow> string \<Rightarrow> ifun \<Rightarrow> ifun \<Rightarrow> bool" where
  "specialized env symbols mp n f f' \<longleftrightarrow> f' = f \<or> (\<exists>live k c. live_fields symbols mp n = Some live \<and> kill_fields env live k f = Some (f', c))"

lemma specialize_step:
  assumes "all_code_ok (rt_mod s)"
  shows "\<exists>s'. specialize_function env symbols mp n (Some s) = Some s' \<and> all_code_ok (rt_mod s') \<and>
    (\<forall>x. x \<noteq> n \<longrightarrow> find_fun (rt_mod s') x = find_fun (rt_mod s) x) \<and>
    (\<forall>f. find_fun (rt_mod s) n = Some f \<longrightarrow> (\<exists>f'. find_fun (rt_mod s') n = Some f' \<and> specialized env symbols mp n f f'))"
proof (cases "specialize_function env symbols mp n (Some s) = Some s")
  case True
  then show ?thesis using assms by (auto simp: specialized_def)
next
  case False
  then obtain f k live where f: "find_fun (rt_mod s) n = Some f" "live_fields symbols mp n = Some live"
    "specialize_function env symbols mp n (Some s) =
       map_option (\<lambda>(f', c). \<lparr>rt_mod = upd_fun n (\<lambda>_. f') (rt_mod s), rt_count = rt_count s + c,
         rt_report = rt_report s @ [report_entry mp n live k]\<rparr>) (kill_fields env live k f)"
    by (auto simp: specialize_function_def split: option.splits if_splits)
  have ok: "code_ok (code_of f)" using assms find_fun_Some [OF f(1)] by (simp add: all_code_ok_def)
  obtain f' c where f': "kill_fields env live k f = Some (f', c)" using kill_fields_return [OF ok] by fastforce
  have name: "iu_name f' = n" using kill_fields_frame(1) [OF ok f'] find_fun_Some [OF f(1)] by simp
  have "find (\<lambda>f. iu_name f = x) (map (\<lambda>g. if iu_name g = n then f' else g) fs) =
      (if x = n then map_option (\<lambda>_. f') (find (\<lambda>f. iu_name f = n) fs) else find (\<lambda>f. iu_name f = x) fs)" for x fs
    by (induction fs) (auto simp: name)
  then have find: "find_fun (upd_fun n (\<lambda>_. f') (rt_mod s)) x = (if x = n then Some f' else find_fun (rt_mod s) x)" for x
    using f(1) by (simp add: find_fun_def upd_fun_def)
  have "all_code_ok (upd_fun n (\<lambda>_. f') (rt_mod s))"
    using assms kill_fields_frame(2) [OF ok f'] by (auto simp: all_code_ok_def upd_fun_def)
  then show ?thesis using f f' find by (auto simp: specialized_def)
qed

lemma specialize_fold:
  assumes "all_code_ok (rt_mod s)" and "distinct ns"
  shows "\<exists>s'. fold (specialize_function env symbols mp) ns (Some s) = Some s' \<and> all_code_ok (rt_mod s') \<and>
    (\<forall>x. x \<notin> set ns \<longrightarrow> find_fun (rt_mod s') x = find_fun (rt_mod s) x) \<and>
    (\<forall>n\<in>set ns. \<forall>f. find_fun (rt_mod s) n = Some f \<longrightarrow> (\<exists>f'. find_fun (rt_mod s') n = Some f' \<and> specialized env symbols mp n f f'))"
  using assms
proof (induction ns arbitrary: s)
  case (Cons n ns)
  obtain s1 where s1: "specialize_function env symbols mp n (Some s) = Some s1" "all_code_ok (rt_mod s1)"
    "\<forall>x. x \<noteq> n \<longrightarrow> find_fun (rt_mod s1) x = find_fun (rt_mod s) x"
    "\<forall>f. find_fun (rt_mod s) n = Some f \<longrightarrow> (\<exists>f'. find_fun (rt_mod s1) n = Some f' \<and> specialized env symbols mp n f f')"
    using specialize_step [OF Cons.prems(1)] by blast
  obtain s2 where s2: "fold (specialize_function env symbols mp) ns (Some s1) = Some s2" "all_code_ok (rt_mod s2)"
    "\<forall>x. x \<notin> set ns \<longrightarrow> find_fun (rt_mod s2) x = find_fun (rt_mod s1) x"
    "\<forall>n\<in>set ns. \<forall>f. find_fun (rt_mod s1) n = Some f \<longrightarrow> (\<exists>f'. find_fun (rt_mod s2) n = Some f' \<and> specialized env symbols mp n f f')"
    using Cons.IH [OF s1(2)] Cons.prems(2) by auto
  have n: "n \<notin> set ns" using Cons.prems(2) by simp
  show ?case
  proof (intro exI conjI)
    show "fold (specialize_function env symbols mp) (n # ns) (Some s) = Some s2" using s1(1) s2(1) by simp
    show "all_code_ok (rt_mod s2)" by (rule s2(2))
    show "\<forall>x. x \<notin> set (n # ns) \<longrightarrow> find_fun (rt_mod s2) x = find_fun (rt_mod s) x" using s1(3) s2(3) by simp
    show "\<forall>k\<in>set (n # ns). \<forall>f. find_fun (rt_mod s) k = Some f \<longrightarrow> (\<exists>f'. find_fun (rt_mod s2) k = Some f' \<and> specialized env symbols mp k f f')"
    proof
      fix k
      assume "k \<in> set (n # ns)"
      then consider "k = n" | "k \<in> set ns" "k \<noteq> n" using n by auto
      then show "\<forall>f. find_fun (rt_mod s) k = Some f \<longrightarrow> (\<exists>f'. find_fun (rt_mod s2) k = Some f' \<and> specialized env symbols mp k f f')"
        using s1(3,4) s2(3,4) n by cases auto
    qed
  qed
qed auto

text \<open>The pass always ends, and handles every function once.\<close>

lemma return_run_specializes:
  assumes "distinct (map iu_name (im_funs m))" and "all_code_ok m" and "find_fun m n = Some f"
  shows "\<exists>s f'. return_run env symbols mp m = Some s \<and> find_fun (rt_mod s) n = Some f' \<and> specialized env symbols mp n f f'"
proof -
  have "n \<in> set (map iu_name (im_funs m))" using find_fun_Some [OF assms(3)] by auto
  then show ?thesis
    using specialize_fold [of "\<lparr>rt_mod = m, rt_count = 0, rt_report = []\<rparr>" "map iu_name (im_funs m)" env symbols mp] assms
    by (auto simp: return_run_def)
qed

definition inserts_indexed :: "ins list \<Rightarrow> bool" where
  "inserts_indexed code \<longleftrightarrow> (\<forall>i\<in>set code. \<forall>ixs. ii_op i = OInsertValue ixs \<longrightarrow> ixs \<noteq> [])"

text \<open>What a run returns in a field, and what it does to the world.\<close>

definition returned_field :: "('v, 'm) machine \<Rightarrow> (ir_value \<Rightarrow> 'v aggr) \<Rightarrow> ins list \<Rightarrow> ir_value \<Rightarrow> nat \<Rightarrow> (nat \<Rightarrow> 'v aggr) \<times> 'm \<Rightarrow> 'v aggr \<times> 'm" where
  "returned_field G base tr v j s = (field (value_of base (fst (exec G base tr s)) v) j, snd (exec G base tr s))"

lemma entry_on_ins: "entry (on_ins g bs) = entry bs"
  by (cases bs) (auto simp: entry_def on_ins_def)

lemma kill_edit_run:
  assumes "code_ok code" and "chains_private code" and "inserts_indexed code" and "set tr \<subseteq> set code" and "j \<notin> ds"
  shows "returned_field G base (map (kill_edit code ds T) tr) v j s = returned_field G base tr v j s"
proof -
  obtain R w where s: "s = (R, w)" by (meson surj_pair)
  have "agree code ds R R" by (simp add: agree_def)
  from exec_edits [OF assms(2) _ _ assms(4) this, of G base w T] assms(1,3)
  have "agree code ds (fst (exec G base tr s)) (fst (exec G base (map (kill_edit code ds T) tr) s))"
    "snd (exec G base tr s) = snd (exec G base (map (kill_edit code ds T) tr) s)"
    by (simp_all add: code_ok_def inserts_indexed_def s)
  then show ?thesis unfolding returned_field_def using agree_field [OF _ assms(5)] by metis
qed

text \<open>
  C40. For a function that returns its struct by value and whose chains of insertions are read by nothing but the next
  insertion and the return, a field that some recorded call uses is returned unchanged: the pass ends, each run of the
  function that returns a value is a run of the new function, and whatever the other instructions do, it returns the same
  in that field and does the same to the world. Both conditions matter: a function that writes its result through a
  struct-return pointer is not covered, and a chain that is also read elsewhere can lose a used field
  (forwarded_field_lost, below). Otherwise the code is as LLVM's verifier has it: insertions with two operands and an
  index, and no insertion or address that depends on itself.
\<close>

theorem used_returns_kept:
  fixes G :: "('v, 'm) machine"
  assumes "distinct (map iu_name (im_funs m))" and "all_code_ok m"
    and "find_fun m n = Some f" and "\<not> is_sret f" and "distinct (map ii_id (code_of f))"
    and "chains_private (code_of f)" and "inserts_indexed (code_of f)"
    and "funcToQualName mp n = Some q" and "map_of (ry_functions sy) q = Some fs" and "rf_isMultiReturn fs"
    and "cs \<in> set (ry_callSites sy)" and "cs_callee cs = q" and "name \<in> set (cs_usedReturns cs)" and "param_index fs name = Some j"
  shows "\<exists>s f' e. return_run env (Some sy) mp m = Some s \<and> find_fun (rt_mod s) n = Some f' \<and>
    (\<forall>tr r v. path (iu_blocks f) (entry (iu_blocks f)) (tr @ [r]) \<and> ii_op r = ORet \<and> ii_args r = [v] \<longrightarrow>
       path (iu_blocks f') (entry (iu_blocks f')) (map e tr @ [r]) \<and>
       (\<forall>base w. returned_field G base (map e tr) v j w = returned_field G base tr v j w))"
proof -
  obtain s f' where s: "return_run env (Some sy) mp m = Some s" "find_fun (rt_mod s) n = Some f'" "specialized env (Some sy) mp n f f'"
    using return_run_specializes [OF assms(1-3)] by blast
  have ok: "code_ok (code_of f)" using assms(2) find_fun_Some [OF assms(3)] by (simp add: all_code_ok_def)
  obtain ds T where f': "iu_blocks f' = on_ins (\<lambda>i. [kill_edit (code_of f) ds T i]) (iu_blocks f)" and j: "j \<notin> ds"
  proof (cases "f' = f")
    case True
    have "on_ins (\<lambda>i. [kill_edit (code_of f) {} T i]) (iu_blocks f) = iu_blocks f" for T
      by (simp add: on_ins_def kill_edit_def killed_def split_def)
    then show ?thesis using that [of "{}"] True by simp
  next
    case False
    then obtain live k c where k: "live_fields (Some sy) mp n = Some live" "kill_fields env live k f = Some (f', c)"
      using s(3) by (auto simp: specialized_def)
    obtain L where "buildSymbolTableDemand sy q = Some L" "j \<in> L" using used_is_live [OF assms(11) _ assms(10,13,14)] assms(9,12) by auto
    then have "j \<in> live" using k(1) assms(8) by (simp add: live_fields_def)
    then show ?thesis
      using kill_fields_edit [OF assms(4,5) k(2) [unfolded kill_fields_def]] that [of "set (dead_fields live k)"] by (auto simp: dead_fields_def)
  qed
  let ?e = "kill_edit (code_of f) ds T"
  have "path (iu_blocks f') (entry (iu_blocks f')) (map ?e tr @ [r]) \<and> (\<forall>base w. returned_field G base (map ?e tr) v j w = returned_field G base tr v j w)"
    if "path (iu_blocks f) (entry (iu_blocks f)) (tr @ [r]) \<and> ii_op r = ORet \<and> ii_args r = [v]" for tr r v
  proof
    have "path (iu_blocks f') (entry (iu_blocks f')) (map ?e (tr @ [r]))"
      using path_edit [of "iu_blocks f" _ "tr @ [r]" ?e] that by (simp add: f' entry_on_ins)
    then show "path (iu_blocks f') (entry (iu_blocks f')) (map ?e tr @ [r])" using that by simp
    have "set tr \<subseteq> set (code_of f)" using path_code that by (fastforce simp: code_of_def)
    then show "\<forall>base w. returned_field G base (map ?e tr) v j w = returned_field G base tr v j w"
      using kill_edit_run [OF ok assms(6,7) _ j] by blast
  qed
  then show ?thesis using s(1,2) by blast
qed

section \<open>Examples\<close>

text \<open>A function that returns two values; its first field is also read back from the half-built value.\<close>

definition pair_code :: "bool \<Rightarrow> ins list" where
  "pair_code reads =
     [new_ins 0 (OInsertValue [0], [VUndef StructTy, VArg 0], StructTy)] @
     (if reads then [new_ins 1 (OExtractValue 0, [VInst 0], IntegerTy 32)] else []) @
     [new_ins 2 (OInsertValue [1], [VInst 0, if reads then VInst 1 else VArg 1], StructTy), new_ins 3 (ORet, [VInst 2], VoidTy)]"

definition pair_fun :: "bool \<Rightarrow> ifun" where
  "pair_fun reads = (new_ifun ''pair'' [IntegerTy 32, IntegerTy 32] StructTy)\<lparr>iu_linkage := InternalLinkage, iu_blocks := [(0, pair_code reads)]\<rparr>"

definition pair_module :: "bool \<Rightarrow> imod" where
  "pair_module reads = \<lparr>im_triple = [], im_funs = [pair_fun reads], im_globals = [], im_next = 4, im_abi = \<lparr>am_values = [], am_strings = [], am_ctors = []\<rparr>\<rparr>"

definition pair_env :: return_env where
  "pair_env = \<lparr>re_fields = (\<lambda>_. Some 2), re_type = (\<lambda>_ _. IntegerTy 32), re_use_empty = (\<lambda>_ _. False)\<rparr>"

text \<open>Only the second result is used by the one recorded call.\<close>

definition pair_symbols :: ReturnSymbols where
  "pair_symbols = \<lparr>ry_functions = [(''pair'', \<lparr>rf_isMultiReturn = True, rf_returnParams = [''a'', ''b''], rf_hasUsedReturnsClause = False, rf_usedReturns = []\<rparr>)],
     ry_callSites = [\<lparr>cs_callee = ''pair'', cs_usedReturns = [''b'']\<rparr>]\<rparr>"

definition pair_after :: "bool \<Rightarrow> (opcode \<times> ir_value list) list option" where
  "pair_after reads = map_option (\<lambda>s. concat (map (\<lambda>f. map (\<lambda>i. (ii_op i, ii_args i)) (code_of f)) (im_funs (rt_mod s))))
     (return_run pair_env (Some pair_symbols) [(''pair'', Some ''pair'')] (pair_module reads))"

text \<open>
  The first field is given an undefined value. With the read, the value read is undefined too, and the second field,
  which the call uses, is lost: the insertion is taken for a write of the returned value alone.
\<close>

lemma forwarded_field_lost:
  "pair_after True = Some [(OInsertValue [0], [VUndef StructTy, VUndef (IntegerTy 32)]), (OExtractValue 0, [VInst 0]),
     (OInsertValue [1], [VInst 0, VInst 1]), (ORet, [VInst 2])]"
  by code_simp

lemma pair_ok: "all_code_ok (pair_module False)" "chains_private (pair_code False)" "inserts_indexed (pair_code False)"
proof -
  have "flow_edges (pair_code False) \<subseteq> {(0, 2)}" by (auto simp: flow_edges_def pair_code_def new_ins_def)
  moreover have "acyclic {(0 :: nat, 2 :: nat)}" by (rule acyclicI_order [where f = "\<lambda>k. - int k"]) auto
  ultimately have "acyclic (flow_edges (pair_code False))" using acyclic_subset by blast
  then show "all_code_ok (pair_module False)"
    by (simp add: all_code_ok_def pair_module_def pair_fun_def code_of_def code_ok_def) (simp add: insert_pairs_def pair_code_def new_ins_def)
  have "chain_from (pair_code False) (VInst 2) (ii_id (new_ins 2 (OInsertValue [1], [VInst 0, VArg 1], StructTy)))"
    by (rule chain_here) (simp_all add: def_ins_def pair_code_def new_ins_def)
  then have "on_chain (pair_code False) 2"
    unfolding on_chain_def by (intro bexI [of _ "new_ins 3 (ORet, [VInst 2], VoidTy)"]) (simp_all add: new_ins_def pair_code_def)
  then show "chains_private (pair_code False)" unfolding chains_private_def by (simp add: pair_code_def new_ins_def operands_def)
  show "inserts_indexed (pair_code False)" by (simp add: inserts_indexed_def pair_code_def new_ins_def)
qed

lemma used_returns_kept_witness:
  "\<exists>s f' e. return_run pair_env (Some pair_symbols) [(''pair'', Some ''pair'')] (pair_module False) = Some s \<and> find_fun (rt_mod s) ''pair'' = Some f' \<and>
     path (iu_blocks f') (entry (iu_blocks f')) (map e (take 2 (pair_code False)) @ [new_ins 3 (ORet, [VInst 2], VoidTy)]) \<and>
     returned_field (\<lambda>_ _ w. (Scalar 0, w)) (\<lambda>_. Scalar (7 :: int)) (map e (take 2 (pair_code False))) (VInst 2) 1 (\<lambda>_. Scalar 0, ()) = (Scalar 7, ())"
proof -
  let ?G = "\<lambda>_ _ w. (Scalar 0, w) :: int aggr \<times> unit"
  let ?cs = "\<lparr>cs_callee = ''pair'', cs_usedReturns = [''b'']\<rparr>"
  let ?fs = "\<lparr>rf_isMultiReturn = True, rf_returnParams = [''a'', ''b''], rf_hasUsedReturnsClause = False, rf_usedReturns = []\<rparr>"
  let ?r = "new_ins 3 (ORet, [VInst 2], VoidTy)"
  have code: "code_of (pair_fun False) = pair_code False" by (simp add: code_of_def pair_fun_def)
  have h: "distinct (map iu_name (im_funs (pair_module False)))" "find_fun (pair_module False) ''pair'' = Some (pair_fun False)"
    "\<not> is_sret (pair_fun False)" "distinct (map ii_id (code_of (pair_fun False)))" "funcToQualName [(''pair'', Some ''pair'')] ''pair'' = Some ''pair''"
    "map_of (ry_functions pair_symbols) ''pair'' = Some ?fs" "?cs \<in> set (ry_callSites pair_symbols)" "param_index ?fs ''b'' = Some 1"
    by (simp_all add: pair_module_def find_fun_def pair_fun_def new_ifun_def is_sret_def code_of_def pair_code_def new_ins_def funcToQualName_def
        pair_symbols_def param_index_def List.map_filter_def)
  obtain s f' e where s: "return_run pair_env (Some pair_symbols) [(''pair'', Some ''pair'')] (pair_module False) = Some s" "find_fun (rt_mod s) ''pair'' = Some f'"
    and run: "\<forall>tr r v. path (iu_blocks (pair_fun False)) (entry (iu_blocks (pair_fun False))) (tr @ [r]) \<and> ii_op r = ORet \<and> ii_args r = [v] \<longrightarrow>
       path (iu_blocks f') (entry (iu_blocks f')) (map e tr @ [r]) \<and>
       (\<forall>base w. returned_field ?G base (map e tr) v 1 w = returned_field ?G base tr v 1 w)"
    using used_returns_kept [OF h(1) pair_ok(1) h(2-4) _ _ h(5,6) _ h(7) _ _ h(8), where G = ?G and env = pair_env] pair_ok(2,3) by (auto simp: code)
  have "path (iu_blocks (pair_fun False)) 0 (pair_code False)"
    by (rule path_ret) (simp_all add: pair_fun_def, simp_all add: pair_code_def new_ins_def)
  moreover have "pair_code False = take 2 (pair_code False) @ [?r]" by (simp add: pair_code_def)
  moreover have "entry (iu_blocks (pair_fun False)) = 0" by (simp add: entry_def pair_fun_def)
  ultimately have "path (iu_blocks (pair_fun False)) (entry (iu_blocks (pair_fun False))) (take 2 (pair_code False) @ [?r])" by simp
  from run [rule_format, of "take 2 (pair_code False)" ?r "VInst 2"] this
  have "path (iu_blocks f') (entry (iu_blocks f')) (map e (take 2 (pair_code False)) @ [?r]) \<and>
    (\<forall>base w. returned_field ?G base (map e (take 2 (pair_code False))) (VInst 2) 1 w = returned_field ?G base (take 2 (pair_code False)) (VInst 2) 1 w)"
    by (simp add: new_ins_def)
  moreover have "returned_field ?G (\<lambda>_. Scalar 7) (take 2 (pair_code False)) (VInst 2) 1 (\<lambda>_. Scalar 0, ()) = (Scalar 7, ())"
    by (simp add: returned_field_def exec_def exec_ins_def pair_code_def new_ins_def value_of_def)
  ultimately show ?thesis using s by (intro exI [of _ s] exI [of _ f'] exI [of _ e]) simp
qed

end
