(* ===== verification/TransformBackend.thy ===== *)
theory TransformBackend
  imports PassPipeline
begin

text \<open>
  lib/Backend/LLVMTransformBackend.cpp: one optimisation of a linked module: visibility, the snapshot
  for the JIT, the passes, the embedding, the names of the functions the JIT may call, obfuscation,
  and the exports with the names after it. The policy, the hash, the demangler, LLVM's renaming and
  the embedding are parameters.
\<close>

record BackendConfig =
  bc_outputType :: OutputType
  bc_debugInternal :: bool
  bc_embedIR :: bool
  bc_optLevel :: OptLevel
  bc_buildMode :: BuildMode
  bc_parallelCfg :: FeatureConfig
  bc_adaptiveCfg :: FeatureConfig
  bc_dataLayoutCfg :: FeatureConfig
  bc_indirectionCfg :: FeatureConfig
  bc_indirectionExplicit :: bool
  bc_observabilityCfg :: FeatureConfig
  bc_lifetimeCfg :: FeatureConfig
  bc_loopParallelCfg :: FeatureConfig
  bc_prefetchCfg :: FeatureConfig
  bc_pipelineCfg :: FeatureConfig
  bc_containmentCfg :: FeatureConfig
  bc_obfMode :: ObfuscationMode
  bc_obfSalt :: string

record backend_env =
  bv_passes :: pass_env
  bv_policy :: "VisibilityEntry list \<Rightarrow> PolicyOutputType \<Rightarrow> TargetPlatform \<Rightarrow> bool \<Rightarrow> VisibilityAction list"
  bv_uniq :: "string set \<Rightarrow> string \<Rightarrow> string"
  bv_siphash :: "bytes \<Rightarrow> bytes \<Rightarrow> bytes"
  bv_demangle :: "string \<Rightarrow> string"
  bv_serializePreCodegenIR :: "ir_module \<Rightarrow> SymbolTable \<Rightarrow> pass_mapping \<Rightarrow> bytes"
  bv_serializeMetadata :: "SymbolTable \<Rightarrow> FeatureConfig \<Rightarrow> FeatureConfig option \<Rightarrow> bytes"
  bv_embed :: "ir_module \<Rightarrow> bytes \<Rightarrow> bytes \<Rightarrow> ir_module"

record JitExportEntry =
  je_originalMangledName :: string
  je_currentMangledName :: string

record BackendResult =
  rs_visibilityStats :: ApplyStats
  rs_embeddedIRBytes :: nat
  rs_embeddedMetaBytes :: nat
  rs_obfuscation :: ObfuscationResult
  rs_jitExports :: "JitExportEntry list"

section \<open>The steps\<close>

definition promote :: "nat \<Rightarrow> ir_module \<Rightarrow> ir_module" where
  "promote i m = upd_fn i (\<lambda>f. f\<lparr>if_linkage := ExternalLinkage\<rparr>) m"

text \<open>Before the passes, the functions the pipelines call become external.\<close>

definition promote_callees :: "pass_mapping \<Rightarrow> SymbolTable \<Rightarrow> ir_module \<Rightarrow> ir_module" where
  "promote_callees pm symbols m =
     fold (\<lambda>(_, lb) m.
        if \<not> lb_isPipeline lb then m
        else fold (\<lambda>cf m. case map_of (pm_matched pm) cf of None \<Rightarrow> m | Some i \<Rightarrow> promote i m) (lb_calledFunctions lb) m)
       (logicBlocks symbols) m"

definition when_enabled :: "FeatureConfig \<Rightarrow> FeatureConfig option" where
  "when_enabled c = (if fc_enabled c then Some c else None)"

definition pipeline_config :: "BackendConfig \<Rightarrow> VisibilityEntry list \<Rightarrow> pass_mapping \<Rightarrow> SymbolTable \<Rightarrow> PassPipelineConfig" where
  "pipeline_config c entries pm symbols =
     \<lparr>pc_entries = Some entries, pc_mapping = Some pm, pc_symbols = Some symbols, pc_mode = bc_buildMode c,
      pc_parallelCfg = when_enabled (bc_parallelCfg c), pc_adaptiveCfg = when_enabled (bc_adaptiveCfg c),
      pc_dataLayoutCfg = when_enabled (bc_dataLayoutCfg c), pc_indirectionCfg = when_enabled (bc_indirectionCfg c),
      pc_indirectionExplicit = bc_indirectionExplicit c,
      pc_observabilityCfg = when_enabled (bc_observabilityCfg c), pc_lifetimeCfg = when_enabled (bc_lifetimeCfg c),
      pc_loopParallelCfg = when_enabled (bc_loopParallelCfg c), pc_prefetchCfg = when_enabled (bc_prefetchCfg c),
      pc_pipelineCfg = Some (bc_pipelineCfg c), pc_containmentCfg = when_enabled (bc_containmentCfg c)\<rparr>"

section \<open>JIT exports\<close>

definition jitQualifiedNames :: "SymbolTable \<Rightarrow> string list" where
  "jitQualifiedNames symbols =
     concat (map (\<lambda>(_, lb). if lb_isPipeline lb then lb_calledFunctions lb @ [lb_qualifiedName lb] else []) (logicBlocks symbols))"

text \<open>The qualified name in a demangled one: up to the parenthesis, after the return type.\<close>

definition last_word :: "string \<Rightarrow> string" where
  "last_word d =
     (case str_rfind '' '' d of
        None \<Rightarrow> d
      | Some lastSpace \<Rightarrow>
          (let candidate = substr_from d (lastSpace + 1)
           in if candidate \<noteq> [] \<and> (isalpha (hd candidate) \<or> hd candidate = CHR ''_'') then candidate else d))"

definition jit_name :: "(string \<Rightarrow> string) \<Rightarrow> string \<Rightarrow> string option" where
  "jit_name dm name =
     (let demangled = dm name
      in if demangled = name then None else Some (last_word (trim_right (before_paren demangled))))"

definition jit_functions :: "(string \<Rightarrow> string) \<Rightarrow> string list \<Rightarrow> ir_module \<Rightarrow> (string \<times> nat) list" where
  "jit_functions dm names m =
     List.map_filter (\<lambda>f.
       if if_declaration f then None
       else (case jit_name dm (if_name f) of
               None \<Rightarrow> None
             | Some q \<Rightarrow> if q \<in> set names then Some (if_name f, if_id f) else None))
       (im_functions m)"

text \<open>After obfuscation, with the names the functions have then.\<close>

definition export_function :: "string \<times> nat \<Rightarrow> ir_module \<times> JitExportEntry list \<Rightarrow> ir_module \<times> JitExportEntry list" where
  "export_function e acc =
     (case (e, acc) of ((origName, i), (m, out)) \<Rightarrow>
        (case find_fn m i of
           None \<Rightarrow> (m, out)
         | Some f \<Rightarrow>
             (if \<not> if_declaration f then promote i m else m,
              out @ [\<lparr>je_originalMangledName = origName, je_currentMangledName = if_name f\<rparr>])))"

definition obfuscate_and_export ::
  "backend_env \<Rightarrow> BackendConfig \<Rightarrow> VisibilityEntry list \<Rightarrow> pass_mapping \<Rightarrow> SymbolTable \<Rightarrow> ir_module \<Rightarrow>
   ir_module \<times> ObfuscationResult \<times> JitExportEntry list" where
  "obfuscate_and_export bv c entries pm symbols m =
     (let names = (if bc_embedIR c then jitQualifiedNames symbols else []);
          jitFuncPtrs = jit_functions (bv_demangle bv) names m;
          (m, obfuscation) = obfuscate (bv_siphash bv) (bv_uniq bv) m entries pm (bc_obfMode c) (bc_obfSalt c);
          (m, exports) = fold export_function jitFuncPtrs (m, [])
      in (m, obfuscation, exports))"

section \<open>Optimising\<close>

text \<open>Everything before the exports are collected: visibility, the snapshot, the passes and the embedding.\<close>

definition transform_and_embed ::
  "backend_env \<Rightarrow> BackendConfig \<Rightarrow> SymbolTable \<Rightarrow> VisibilityEntry list \<Rightarrow> pass_mapping \<Rightarrow> pipeline_state \<Rightarrow>
   (ApplyStats \<times> bytes \<times> bytes \<times> pipeline_state) option" where
  "transform_and_embed bv c symbols entries pm st =
     do { (m, stats) \<leftarrow> apply_visibility (bv_policy bv) (bv_uniq bv) (ps_module st) pm entries (bc_outputType c) (bc_debugInternal c);
          let preCodegen = (if bc_embedIR c then bv_serializePreCodegenIR bv m symbols pm else []);
          let m = (if bc_embedIR c then promote_callees pm symbols m else m);
          let st = st\<lparr>ps_module := m, ps_reports := Some empty_reports\<rparr>;
          st \<leftarrow> (if bc_optLevel c \<noteq> O0 then run_pipeline (bv_passes bv) (bc_optLevel c) (pipeline_config c entries pm symbols) st
                  else Some st);
          let metadata = (if bc_embedIR c then bv_serializeMetadata bv symbols (bc_parallelCfg c) (when_enabled (bc_adaptiveCfg c)) else []);
          let m = (if bc_embedIR c then bv_embed bv (ps_module st) preCodegen metadata else ps_module st);
          Some (stats, preCodegen, metadata, set_module m st) }"

definition optimize ::
  "backend_env \<Rightarrow> BackendConfig \<Rightarrow> SymbolTable \<Rightarrow> VisibilityEntry list \<Rightarrow> pass_mapping \<Rightarrow> pipeline_state \<Rightarrow>
   (BackendResult \<times> pipeline_state) option" where
  "optimize bv c symbols entries pm st =
     do { (stats, preCodegen, metadata, st) \<leftarrow> transform_and_embed bv c symbols entries pm st;
          let (m, obfuscation, exports) = obfuscate_and_export bv c entries pm symbols (ps_module st);
          let st = mark_other ''SymbolObfuscator'' (int (renamedCount obfuscation)) (set_module m st);
          Some (\<lparr>rs_visibilityStats = stats, rs_embeddedIRBytes = length preCodegen, rs_embeddedMetaBytes = length metadata,
                 rs_obfuscation = obfuscation, rs_jitExports = exports\<rparr>, st) }"

text \<open>\<open>postTransformVerify\<close> maps the names again.\<close>

definition postTransformVerify ::
  "(string \<Rightarrow> string) \<Rightarrow> (string \<Rightarrow> string option) \<Rightarrow> (Visibility \<Rightarrow> string) \<Rightarrow> ir_module \<Rightarrow> VisibilityEntry list \<Rightarrow> bool \<Rightarrow>
   PostTransformResult" where
  "postTransformVerify dm ms visibilityName m entries obfuscationEnabled =
     verifyModule visibilityName m (mapping_of dm ms m entries) entries obfuscationEnabled"

section \<open>Linking\<close>

text \<open>\<open>loadAndLink\<close>: the first file parsed, the others linked into it; \<open>None\<close> is the failure it reports.\<close>

fun link_all :: "(string \<Rightarrow> 'm option) \<Rightarrow> ('m \<Rightarrow> 'm \<Rightarrow> 'm option) \<Rightarrow> 'm \<Rightarrow> string list \<Rightarrow> 'm option" where
  "link_all parse link m [] = Some m"
| "link_all parse link m (file # files) =
     do { src \<leftarrow> parse file; m \<leftarrow> link m src; link_all parse link m files }"

definition loadAndLink :: "(string \<Rightarrow> 'm option) \<Rightarrow> ('m \<Rightarrow> 'm \<Rightarrow> 'm option) \<Rightarrow> string list \<Rightarrow> 'm option" where
  "loadAndLink parse link irFiles =
     (case irFiles of [] \<Rightarrow> None | file # files \<Rightarrow> do { m \<leftarrow> parse file; link_all parse link m files })"

section \<open>Exports name functions of the module\<close>

text \<open>Obfuscation renames: what it keeps of a function.\<close>

definition kept :: "ir_function \<Rightarrow> ir_function" where
  "kept f = f\<lparr>if_name := []\<rparr>"

lemma obfuscate_entry_kept:
  "map_option kept (find_fn (fst (obfuscate_entry sh uniq pm V mode salt e (m, r))) j) = map_option kept (find_fn m j)"
  by (simp add: obfuscate_entry_def Let_def find_fn_setName option.map_comp o_def kept_def split: option.split)

lemma obfuscate_kept:
  "map_option kept (find_fn (fst (obfuscate sh uniq m entries pm mode salt)) j) = map_option kept (find_fn m j)"
proof -
  have "map_option kept (find_fn (fst (fold (obfuscate_entry sh uniq pm V mode salt) es (m, r))) j) = map_option kept (find_fn m j)"
    for es V r
  proof (induction es arbitrary: m r)
    case (Cons e es)
    show ?case
      using Cons [of "fst (obfuscate_entry sh uniq pm V mode salt e (m, r))" "snd (obfuscate_entry sh uniq pm V mode salt e (m, r))"]
      by (simp add: obfuscate_entry_kept)
  qed simp
  then show ?thesis by (simp add: obfuscate_def)
qed

lemma keptD: "kept f = kept g \<Longrightarrow> if_declaration f = if_declaration g \<and> if_linkage f = if_linkage g \<and> if_id f = if_id g"
  by (auto simp: kept_def dest: arg_cong [where f = if_declaration] arg_cong [where f = if_linkage] arg_cong [where f = if_id])

lemma find_fn_promote:
  "find_fn (promote i m) j = (if j = i then map_option (\<lambda>f. f\<lparr>if_linkage := ExternalLinkage\<rparr>) (find_fn m j) else find_fn m j)"
  by (simp add: promote_def find_fn_upd keeps_id_def)

lemma export_fold:
  assumes "\<forall>(n, i) \<in> set es. \<exists>f. find_fn m i = Some f \<and> \<not> if_declaration f"
  shows "snd (fold export_function es (m, out)) =
      out @ map (\<lambda>(n, i). \<lparr>je_originalMangledName = n, je_currentMangledName = if_name (the (find_fn m i))\<rparr>) es
    \<and> (\<forall>j. find_fn (fst (fold export_function es (m, out))) j =
         (if j \<in> snd ` set es then map_option (\<lambda>f. f\<lparr>if_linkage := ExternalLinkage\<rparr>) (find_fn m j) else find_fn m j))"
  using assms
proof (induction es arbitrary: m out)
  case (Cons e es)
  obtain n i where e: "e = (n, i)" by (cases e)
  with Cons.prems obtain f where f: "find_fn m i = Some f" "\<not> if_declaration f" by auto
  let ?out = "out @ [\<lparr>je_originalMangledName = n, je_currentMangledName = if_name f\<rparr>]"
  have step: "export_function e (m, out) = (promote i m, ?out)" using e f by (simp add: export_function_def)
  have "\<forall>(n, j) \<in> set es. \<exists>f. find_fn (promote i m) j = Some f \<and> \<not> if_declaration f"
    using Cons.prems f by (auto simp: find_fn_promote)
  from Cons.IH [OF this, of ?out] have IH:
    "snd (fold export_function es (promote i m, ?out)) = ?out @ map (\<lambda>(n, j). \<lparr>je_originalMangledName = n,
        je_currentMangledName = if_name (the (find_fn (promote i m) j))\<rparr>) es"
    "\<And>j. find_fn (fst (fold export_function es (promote i m, ?out))) j =
       (if j \<in> snd ` set es then map_option (\<lambda>f. f\<lparr>if_linkage := ExternalLinkage\<rparr>) (find_fn (promote i m) j)
        else find_fn (promote i m) j)" by blast+
  have "if_name (the (find_fn (promote i m) j)) = if_name (the (find_fn m j))" if "(k, j) \<in> set es" for k j
    using Cons.prems that f by (fastforce simp: find_fn_promote)
  then have names: "map (\<lambda>(n, j). \<lparr>je_originalMangledName = n, je_currentMangledName = if_name (the (find_fn (promote i m) j))\<rparr>) es =
      map (\<lambda>(n, j). \<lparr>je_originalMangledName = n, je_currentMangledName = if_name (the (find_fn m j))\<rparr>) es"
    by (auto intro!: map_cong)
  show ?case
    using IH names step e f by (auto simp: find_fn_promote option.map_comp o_def)
qed simp

text \<open>The functions the JIT may call: definitions whose demangled name is one of the names.\<close>

definition jit_callable :: "(string \<Rightarrow> string) \<Rightarrow> string list \<Rightarrow> ir_function \<Rightarrow> bool" where
  "jit_callable dm names f \<longleftrightarrow> \<not> if_declaration f \<and> (\<exists>q \<in> set names. jit_name dm (if_name f) = Some q)"

lemma jit_functions_callable:
  "jit_functions dm names m = map (\<lambda>f. (if_name f, if_id f)) (filter (jit_callable dm names) (im_functions m))"
proof -
  have "List.map_filter (\<lambda>f. if if_declaration f then None
       else (case jit_name dm (if_name f) of None \<Rightarrow> None
             | Some q \<Rightarrow> if q \<in> set names then Some (if_name f, if_id f) else None)) fs =
     map (\<lambda>f. (if_name f, if_id f)) (filter (jit_callable dm names) fs)" for fs
    by (induction fs) (auto simp: List.map_filter_simps jit_callable_def split: option.split)
  then show ?thesis by (simp add: jit_functions_def)
qed

lemma promote_names:
  "map if_name (im_functions (promote i m)) = map if_name (im_functions m)" "im_globals (promote i m) = im_globals m"
  by (simp_all add: promote_def upd_fn_def o_def if_distrib cong: if_cong)

lemma export_names:
  "map if_name (im_functions (fst (fold export_function es acc))) = map if_name (im_functions (fst acc)) \<and>
   im_globals (fst (fold export_function es acc)) = im_globals (fst acc)"
proof (induction es arbitrary: acc)
  case (Cons e es)
  have "map if_name (im_functions (fst (export_function e acc))) = map if_name (im_functions (fst acc)) \<and>
      im_globals (fst (export_function e acc)) = im_globals (fst acc)"
    by (cases e; cases acc) (auto simp: export_function_def promote_names split: option.split)
  with Cons [of "export_function e acc"] show ?case by simp
qed simp

text \<open>Obfuscating and exporting a module: the exports, function by function, and what becomes of each function.\<close>

lemma obfuscate_and_export_functions:
  assumes "ids_ok m" and "obfuscate_and_export bv c entries pm symbols m = (m', obf, exports)"
    and "names = (if bc_embedIR c then jitQualifiedNames symbols else [])"
  shows "exports = map (\<lambda>f. \<lparr>je_originalMangledName = if_name f, je_currentMangledName = if_name (the (find_fn m' (if_id f)))\<rparr>)
           (filter (jit_callable (bv_demangle bv) names) (im_functions m))"
    and "f \<in> set (im_functions m) \<Longrightarrow> \<exists>f'. find_fn m' (if_id f) = Some f' \<and> if_declaration f' = if_declaration f \<and>
           if_linkage f' = (if jit_callable (bv_demangle bv) names f then ExternalLinkage else if_linkage f)"
    and "names_ok m \<Longrightarrow> (\<And>N n. finite N \<Longrightarrow> bv_uniq bv N n \<notin> N) \<Longrightarrow> names_ok m'"
proof -
  define m1 where "m1 = fst (obfuscate (bv_siphash bv) (bv_uniq bv) m entries pm (bc_obfMode c) (bc_obfSalt c))"
  let ?called = "filter (jit_callable (bv_demangle bv) names) (im_functions m)"
  let ?js = "map (\<lambda>f. (if_name f, if_id f)) ?called"
  have m1: "\<exists>f1. find_fn m1 (if_id f) = Some f1 \<and> if_declaration f1 = if_declaration f \<and> if_linkage f1 = if_linkage f"
    if "f \<in> set (im_functions m)" for f
  proof -
    have "map_option kept (find_fn m1 (if_id f)) = Some (kept f)"
      unfolding m1_def obfuscate_kept using find_fn_unique [OF assms(1) that] by simp
    then obtain f1 where "find_fn m1 (if_id f) = Some f1" "kept f1 = kept f" by auto
    then show ?thesis using keptD [of f1 f] by simp
  qed
  have "\<forall>(n, i) \<in> set ?js. \<exists>f. find_fn m1 i = Some f \<and> \<not> if_declaration f"
    using m1 by (fastforce simp: jit_callable_def)
  note ex = export_fold [OF this, of "[]"]
  have run: "fold export_function ?js (m1, []) = (m', exports)"
    using assms(2) unfolding obfuscate_and_export_def Let_def jit_functions_callable assms(3) [symmetric]
    by (simp add: split_beta m1_def prod_eq_iff)
  have found: "find_fn m' j = (if j \<in> if_id ` set ?called then map_option (\<lambda>f. f\<lparr>if_linkage := ExternalLinkage\<rparr>) (find_fn m1 j)
      else find_fn m1 j)" for j using ex run by (simp add: image_image)
  have callable: "if_id f \<in> if_id ` set ?called \<longleftrightarrow> jit_callable (bv_demangle bv) names f" if "f \<in> set (im_functions m)" for f
  proof
    assume "if_id f \<in> if_id ` set ?called"
    then obtain g where g: "g \<in> set (im_functions m)" "if_id f = if_id g" "jit_callable (bv_demangle bv) names g" by auto
    from find_fn_unique [OF assms(1) g(1)] find_fn_unique [OF assms(1) that] g(2) have "g = f" by simp
    with g(3) show "jit_callable (bv_demangle bv) names f" by simp
  qed (use that in auto)
  have "if_name (the (find_fn m' (if_id f))) = if_name (the (find_fn m1 (if_id f)))" if "f \<in> set (im_functions m)" for f
    using m1 [OF that] by (auto simp: found)
  then show "exports = map (\<lambda>f. \<lparr>je_originalMangledName = if_name f, je_currentMangledName = if_name (the (find_fn m' (if_id f)))\<rparr>) ?called"
    using ex run by simp
  show "\<exists>f'. find_fn m' (if_id f) = Some f' \<and> if_declaration f' = if_declaration f \<and>
      if_linkage f' = (if jit_callable (bv_demangle bv) names f then ExternalLinkage else if_linkage f)"
    if "f \<in> set (im_functions m)" for f
    using m1 [OF that] callable [OF that] by (auto simp: found)
  show "names_ok m'" if "names_ok m" "\<And>N n. finite N \<Longrightarrow> bv_uniq bv N n \<notin> N"
    using export_names [of ?js "(m1, [])"] run
      obfuscate_names_ok [OF assms(1) that(1), of "bv_uniq bv" "bv_siphash bv" entries pm "bc_obfMode c" "bc_obfSalt c"]
      that(2)
    by (simp add: names_ok_def m1_def)
qed

text \<open>
  C27. The exports an optimisation returns are exactly those of the functions the JIT may call, in the order of
  the module before obfuscation: a definition whose demangled name is that of a pipeline or of
  something a pipeline calls, when the IR is embedded. Each export has the name the function had before
  obfuscation and the name it has in the optimised module, and under that name the module has exactly one
  function: this one, external and defined. No other function changes its linkage after the passes.
  Required is that functions have an identity each and different names before obfuscation, as they
  have in an LLVM module, and that LLVM's renaming is fresh.
\<close>

theorem jit_exports_resolve:
  assumes "optimize bv c symbols entries pm st = Some (res, st')"
    and "transform_and_embed bv c symbols entries pm st = Some (stats, preCodegen, metadata, st1)"
    and "ids_ok (ps_module st1)" and "names_ok (ps_module st1)" and "\<And>N n. finite N \<Longrightarrow> bv_uniq bv N n \<notin> N"
    and "callable = jit_callable (bv_demangle bv) (if bc_embedIR c then jitQualifiedNames symbols else [])"
  shows "map je_originalMangledName (rs_jitExports res) = map if_name (filter callable (im_functions (ps_module st1)))
    \<and> (\<forall>e \<in> set (rs_jitExports res). \<exists>f f'. f \<in> set (im_functions (ps_module st1)) \<and> callable f \<and>
         je_originalMangledName e = if_name f \<and> find_fn (ps_module st') (if_id f) = Some f' \<and>
         if_linkage f' = ExternalLinkage \<and> \<not> if_declaration f' \<and>
         (\<forall>g \<in> set (im_functions (ps_module st')). if_name g = je_currentMangledName e \<longleftrightarrow> g = f'))
    \<and> (\<forall>f \<in> set (im_functions (ps_module st1)). \<not> callable f \<longrightarrow>
         linkage_of (ps_module st') (if_id f) = Some (if_linkage f))"
proof -
  obtain m' obf exports where run: "obfuscate_and_export bv c entries pm symbols (ps_module st1) = (m', obf, exports)"
    by (cases "obfuscate_and_export bv c entries pm symbols (ps_module st1)")
  then have st': "ps_module st' = m'" "rs_jitExports res = exports"
    using assms(1,2) by (auto simp: optimize_def Let_def step_modules)
  note fs = obfuscate_and_export_functions [OF assms(3) run refl, folded assms(6)]
  have names: "distinct (map if_name (im_functions m'))"
    using fs(3) [OF assms(4,5)] by (simp add: names_ok_def)
  have each: "\<exists>f f'. f \<in> set (im_functions (ps_module st1)) \<and> callable f \<and> je_originalMangledName e = if_name f \<and>
      find_fn m' (if_id f) = Some f' \<and> if_linkage f' = ExternalLinkage \<and> \<not> if_declaration f' \<and>
      (\<forall>g \<in> set (im_functions m'). if_name g = je_currentMangledName e \<longleftrightarrow> g = f')"
    if "e \<in> set exports" for e
  proof -
    from that [unfolded fs(1)] obtain f where f: "f \<in> set (im_functions (ps_module st1))" "callable f"
      "e = \<lparr>je_originalMangledName = if_name f, je_currentMangledName = if_name (the (find_fn m' (if_id f)))\<rparr>" by auto
    from fs(2) [OF f(1)] f(2) obtain f' where f': "find_fn m' (if_id f) = Some f'" "if_declaration f' = if_declaration f"
      "if_linkage f' = ExternalLinkage" by auto
    have "f' \<in> set (im_functions m')" using find_fn_Some [OF f'(1)] by simp
    then have "\<forall>g \<in> set (im_functions m'). if_name g = if_name f' \<longleftrightarrow> g = f'"
      using names by (auto simp: distinct_map dest: inj_onD)
    moreover have "\<not> if_declaration f'" using f(2) f'(2) by (simp add: assms(6) jit_callable_def)
    ultimately show ?thesis using f f' by (intro exI [of _ f] exI [of _ f']) simp
  qed
  have "map je_originalMangledName exports = map if_name (filter callable (im_functions (ps_module st1)))"
    unfolding fs(1) by simp
  moreover have "linkage_of m' (if_id f) = Some (if_linkage f)"
    if "f \<in> set (im_functions (ps_module st1))" "\<not> callable f" for f
    using fs(2) [OF that(1)] that(2) by (auto simp: linkage_of_def)
  ultimately show ?thesis unfolding st' using each by blast
qed

definition example_backend :: backend_env where
  "example_backend =
     \<lparr>bv_passes = example_env, bv_policy = (\<lambda>es _ _ _. example_actions), bv_uniq = (\<lambda>_ n. n @ ''.1''),
      bv_siphash = example_hash,
      bv_demangle = (\<lambda>n. if n = ''_open'' then ''void m::open(int)'' else if n = ''_step'' then ''m::step()'' else n),
      bv_serializePreCodegenIR = (\<lambda>_ _ _. [1]), bv_serializeMetadata = (\<lambda>_ _ _. [2]), bv_embed = (\<lambda>m _ _. m)\<rparr>"

definition example_backend_config :: BackendConfig where
  "example_backend_config =
     \<lparr>bc_outputType = Exe, bc_debugInternal = False, bc_embedIR = True, bc_optLevel = O2, bc_buildMode = Dev,
      bc_parallelCfg = example_auto, bc_adaptiveCfg = example_auto, bc_dataLayoutCfg = example_auto,
      bc_indirectionCfg = example_auto, bc_indirectionExplicit = True, bc_observabilityCfg = example_auto,
      bc_lifetimeCfg = example_auto, bc_loopParallelCfg = example_auto, bc_prefetchCfg = example_auto,
      bc_pipelineCfg = example_auto, bc_containmentCfg = example_auto, bc_obfMode = Normal, bc_obfSalt = []\<rparr>"

text \<open>Taken names get as many signs as make them new.\<close>

definition signed_name :: "string set \<Rightarrow> string \<Rightarrow> string" where
  "signed_name N n = n @ replicate (Suc (Max (insert 0 (length ` N)))) CHR ''$''"

lemma signed_name_fresh: "finite N \<Longrightarrow> signed_name N n \<notin> N"
proof
  assume "finite N" "signed_name N n \<in> N"
  then have "length (signed_name N n) \<le> Max (insert 0 (length ` N))" by (intro Max_ge) auto
  then show False by (simp add: signed_name_def)
qed

lemma jit_exports_resolve_witness:
  "\<exists>res st' f'. optimize (example_backend\<lparr>bv_uniq := signed_name\<rparr>) (example_backend_config\<lparr>bc_optLevel := O0\<rparr>) example_flow
       example_entries example_mapping example_start = Some (res, st') \<and>
     map je_originalMangledName (rs_jitExports res) = [''_open'', ''_step''] \<and>
     find_fn (ps_module st') 1 = Some f' \<and> if_linkage f' = ExternalLinkage"
proof -
  let ?bv = "example_backend\<lparr>bv_uniq := signed_name\<rparr>" and ?c = "example_backend_config\<lparr>bc_optLevel := O0\<rparr>"
  let ?callable = "jit_callable (bv_demangle ?bv) (if bc_embedIR ?c then jitQualifiedNames example_flow else [])"
  have "map_option (\<lambda>(_, _, _, st). map (\<lambda>f. (if_name f, if_id f, ?callable f)) (im_functions (ps_module st)) =
        [(''_open'', 0, True), (''_step'', 1, True)] \<and> ids_ok (ps_module st) \<and> names_ok (ps_module st))
      (transform_and_embed ?bv ?c example_flow example_entries example_mapping example_start) = Some True"
    by code_simp
  then obtain stats preCodegen metadata st1 where
    t: "transform_and_embed ?bv ?c example_flow example_entries example_mapping example_start = Some (stats, preCodegen, metadata, st1)"
      "map (\<lambda>f. (if_name f, if_id f, ?callable f)) (im_functions (ps_module st1)) = [(''_open'', 0, True), (''_step'', 1, True)]"
      "ids_ok (ps_module st1)" "names_ok (ps_module st1)"
    by auto
  then obtain res st' where o: "optimize ?bv ?c example_flow example_entries example_mapping example_start = Some (res, st')"
    by (auto simp: optimize_def Let_def split_beta)
  have u: "bv_uniq ?bv N n \<notin> N" if "finite N" for N n using signed_name_fresh [OF that] by simp
  note r = jit_exports_resolve [OF o t(1,3,4) u refl]
  obtain f g where fg: "im_functions (ps_module st1) = [f, g]" "if_name f = ''_open''" "if_name g = ''_step''" "if_id g = 1"
    "?callable f" "?callable g"
    using t(2) by (auto simp: Cons_eq_map_conv map_eq_Cons_conv)
  then have names: "map je_originalMangledName (rs_jitExports res) = [''_open'', ''_step'']" using r by simp
  have "''_step'' \<in> set (map je_originalMangledName (rs_jitExports res))" unfolding names by simp
  then obtain e where "e \<in> set (rs_jitExports res)" "je_originalMangledName e = ''_step''" by auto
  with r obtain h f' where "h \<in> set (im_functions (ps_module st1))" "if_name h = ''_step''"
    "find_fn (ps_module st') (if_id h) = Some f'" "if_linkage f' = ExternalLinkage" by metis
  moreover from this fg have "if_id h = 1" by auto
  ultimately show ?thesis using o names by auto
qed

text \<open>
  A configuration that is off is handed to the pipeline as none at all, so that the report of a pass
  that was switched off always says there is no configuration for it.
\<close>

lemma off_reported_as_unconfigured:
  assumes "\<not> fc_enabled (bc_containmentCfg c)" and "ps_reports st = Some r"
  shows "\<exists>r'. ps_reports (containment_step env (pipeline_config c entries pm symbols) st) = Some r' \<and>
     hd_reason (rp_headers r' ContainmentInterceptionPass) = ''no [containment] config''"
  using assms
  by (simp add: containment_step_def pipeline_config_def when_enabled_def enabled_def stamp_off_def stampHeader_def update_reports_def)

end
