(* ===== verification/Spec2Isabelle.thy ===== *)
theory Spec2Isabelle
  imports TopoPrelude JsonText JsonReader StdFile Double64 Arena PassEvent Observe Containment
    CostSamples TaskPool JitApi Adaptive LlvmIr SymbolMapper VerifierModel VerifierOrder
    VerifierTemplates Verifier AdaptiveDispatch CloneModule ContainmentPass FlowSymbols InlinePass
    InsIr IrEmbed IrModule JitEngine JsonValue LayoutCost Markers ObservabilityPass ParallelPass
    ParallelTasks PassPipeline PassReports PipelineCodeGen PrefetchPass ReportsSidecar ReturnSpec
    SsaForm StagePasses TransformBackend VariantBench VisibilityPasses
begin

text \<open>
  A verification development for the LLVM backend of Topo: the C runtimes its passes call, the mapping
  of declarations to functions, the verifier of a module against its declarations, and the passes.

  \<^bold>\<open>Runtime (src/runtime)\<close>
  \<^item> \<^verbatim>\<open>Arena\<close>: \<open>topo_arena.cpp\<close>, the bump allocator; \<open>malloc\<close> and \<open>free\<close> are a record of functions with
    the contract \<open>region_allocator\<close>. Allocations of any history are disjoint, aligned, in bounds.
  \<^item> \<^verbatim>\<open>JsonText\<close>, \<^verbatim>\<open>JsonReader\<close>, \<^verbatim>\<open>PassEvent\<close>: \<open>json_escape.h\<close>, \<open>topo_pass_event.cpp\<close>; what is written without raw
    control characters is read back by a strict RFC 8259 reader, as the engine's. \<^verbatim>\<open>StdFile\<close> is the stream written to.
  \<^item> \<^verbatim>\<open>Observe\<close>, \<^verbatim>\<open>Containment\<close>: \<open>topo_observe.cpp\<close>, \<open>topo_containment.cpp\<close>; spans and violations.
  \<^item> \<^verbatim>\<open>CostSamples\<close>, \<^verbatim>\<open>TaskPool\<close>: \<open>topo_parallel.cpp\<close>, \<open>topo_cost.cpp\<close>. Threads are explicit sequences of
    steps; every interleaving is a run of the step relation.
  \<^item> \<^verbatim>\<open>JitApi\<close>: \<open>topo_jit_api.cpp\<close>, \<open>jit_engine_resolve.h\<close>; loader and engine are parameters.
  \<^item> \<^verbatim>\<open>Adaptive\<close>: \<open>topo_adaptive.cpp\<close>; \<^verbatim>\<open>Double64\<close> is the part of binary64 it computes with.

  \<^bold>\<open>Backend (src/lib/Backend)\<close>
  \<^item> \<^verbatim>\<open>LlvmIr\<close>: the part of an LLVM module and of the front end's declarations that is read.
  \<^item> \<^verbatim>\<open>SymbolMapper\<close>: \<open>SymbolMapper.cpp\<close>; the demanglers are parameters.
  \<^item> \<^verbatim>\<open>VerifierModel\<close> (checks 1 to 5), \<^verbatim>\<open>VerifierOrder\<close> (6, 7, 10), \<^verbatim>\<open>VerifierTemplates\<close> (8, 9), \<^verbatim>\<open>Verifier\<close>:
    \<open>Verifier.cpp\<close>. A check is the list of its findings in order; a check is characterised by when the
    list is empty; for signatures, by an inductive account of how values are laid out in LLVM types. Recursion through
    type aliases is partial: \<open>None\<close> is not returning.
  \<^item> \<^verbatim>\<open>IrModule\<close>: the module as the passes change it, functions with an identity, names kept unique.
  \<^item> \<^verbatim>\<open>VisibilityPasses\<close>: \<open>VisibilityApplier.cpp\<close>, \<open>TopoFlattenPass.cpp\<close>, \<open>SymbolObfuscator.cpp\<close>,
    \<open>PostTransformVerifier.cpp\<close>; what the first three leave is checked by the last. The hash is a parameter.

  \<^bold>\<open>Passes (src/lib/Transforms)\<close>
  \<^item> \<^verbatim>\<open>InlinePass\<close>: \<open>TopoInlinePass.cpp\<close>; the traversal of the call graph is the explicit stack of the code.
  \<^item> \<^verbatim>\<open>StagePasses\<close>: \<open>TopoReorderPass.cpp\<close>, \<open>TopoLayoutPass.cpp\<close>; the stage analysis is a parameter.
  \<^item> \<^verbatim>\<open>Markers\<close>: \<open>PassFiredMarker.cpp\<close>, \<open>RuntimeAbiCheck.cpp\<close>; the injected constructors are run.

  \<^item> \<^verbatim>\<open>VariantBench\<close>: \<open>VariantBenchmark.cpp\<close>; compiling and running a benchmark are parameters, each run may
    give another time; doubles are exact.

  \<^bold>\<open>Pipeline (src/lib/Backend)\<close>
  \<^item> \<^verbatim>\<open>PassReports\<close>: the records of \<open>PassReports.h\<close>, one header per judging pass.
  \<^item> \<^verbatim>\<open>PassPipeline\<close>: \<open>PassPipeline.cpp\<close>; passes without a theory are functions on modules, parameters of the run.
  \<^item> \<^verbatim>\<open>TransformBackend\<close>: \<open>LLVMTransformBackend.cpp\<close>, from visibility to the exported names and the embedding.
  \<^item> \<^verbatim>\<open>ReportsSidecar\<close>: \<open>PassReportsSidecar.cpp\<close>, the JSON of the reports and its atomic writing; printing may throw, and
    parsing gives back the value as the library keeps it.
  \<^item> \<^verbatim>\<open>JsonValue\<close>: JSON values as nlohmann keeps them, objects as sorted maps, and what printing and parsing preserve.
  \<^item> \<^verbatim>\<open>FlowSymbols\<close>: the part of topo-core's symbol table that the transforms read.
  \<^item> \<^verbatim>\<open>CloneModule\<close>, \<^verbatim>\<open>IrEmbed\<close>: \<open>IREmbed.cpp\<close>; erasing a value that is in use is undefined (\<open>None\<close>), and the
    snapshot is shown to be the call closure of the stubs. The fuel of the traversal is the number of functions plus one.

  \<^bold>\<open>JIT engine (src/lib/JitEngine) and code generation (src/lib/Transforms)\<close>
  \<^item> \<^verbatim>\<open>JitEngine\<close>: \<open>topo_jit_engine.cpp\<close>; an exception of the JSON library is \<open>None\<close>. What the embedding writes is
    what the engine reads, on every platform; the engine compiles one function under a name no library has.
  \<^item> \<^verbatim>\<open>PipelineCodeGen\<close>: \<open>PipelineCodeGenPass.cpp\<close> over instructions with types; a generated body is well typed.
  \<^item> \<^verbatim>\<open>InsIr\<close>: functions as blocks of instructions, the helpers the passes share and the editing of IRBuilder; the
    locale \<open>before_inserter\<close> is the contract of a pass that puts code before chosen instructions.
  \<^item> \<^verbatim>\<open>ObservabilityPass\<close>, \<^verbatim>\<open>ContainmentPass\<close>: the two instrumenting passes; what they insert is described exactly, and
    taking it out gives the module back. Spans are in order in the code, and on paths when no group crosses blocks.
  \<^item> \<^verbatim>\<open>SsaForm\<close>, \<^verbatim>\<open>PrefetchPass\<close>: dominance and SSA form, and \<open>PrefetchPass.cpp\<close>, which keeps it. A value is
    available where it was computed before in the block or in a dominating block. The walk to the base of an address has
    the code's own bound of 16 steps.
  \<^item> \<^verbatim>\<open>LayoutCost\<close>: \<open>LayoutCostModel.cpp\<close> and \<open>LayoutBenchmark.cpp\<close>, in doubles that round; square roots are correctly rounded,
    the target information and the runs are parameters.
  \<^item> \<^verbatim>\<open>ParallelPass\<close>, \<^verbatim>\<open>ParallelTasks\<close>: \<open>TopoParallelPass.cpp\<close>, and a machine that runs a stage's code while its tasks run at
    any moment. The results are those of the calls, in every interleaving.
  \<^item> \<^verbatim>\<open>AdaptiveDispatch\<close>: \<open>AdaptiveDispatchPass.cpp\<close>; the runs of an instrumented pipeline are described exactly.
  \<^item> \<^verbatim>\<open>ReturnSpec\<close>: \<open>ReturnSpecializationPass.cpp\<close>, with an execution of code over values with fields. The recursions carry fuel,
    the number of instructions plus one, which is enough for code without cyclic data flow.
  \<^bold>\<open>Conventions.\<close> Hash maps are association lists whose order is an iteration order. Machine integers are
  words where they can wrap. \<open>TopoPrelude\<close> has the operations of \<open>std::string\<close>, decimal printing and the
  map lemmas. Names of functions in the theories are those of the sources.

  \<^bold>\<open>Bounds and fuel.\<close> The readers of \<open>JsonReader\<close> carry fuel, the length of the text, which every step
  uses up. All other recursions are structural or have a measure, except the two through type
  aliases above, which are proved to end when aliases lead downwards.

  \<^bold>\<open>Not modelled.\<close> LLVM itself (parsing, the ORC engine, code generation), the front end topo-core, the
  command-line tools, the benchmarks and the test suites. Of the passes: \<open>DataLayoutPass.cpp\<close> (arrays of
  structs become columns), \<open>IndirectionPass.cpp\<close> (smart pointers, vectors and virtual calls), \<open>LoopParallelizePass.cpp\<close>
  (loop metadata and outlined loop bodies), \<open>LifetimeArenaPass.cpp\<close> (allocations of a scope moved to an arena); they are
  parameters of \<open>PassPipeline\<close>. Also the decompiler, \<open>LLVMLifter.cpp\<close>. In \<open>TaskPool\<close> the part of a spawn after the pool exists is one step; in \<open>ParallelTasks\<close>
  a task is one step and callees are functions of their arguments; \<open>Markers\<close> gives the injected constructor by what it
  compares and reports; \<open>AdaptiveDispatch\<close> leaves memory orders and tail-call marks out.
\<close>

end
